(* ===== verification/Prelude.thy ===== *)
theory Prelude
  imports Main "HOL-Library.Word"
begin

text \<open>
  Shared vocabulary of the development: the types that name the model's data, the machine
  arithmetic that the Rust sources use, little-endian framing, byte copies into and out of
  fixed buffers, and null-terminated linked paths.

  Machine integers (\<open>u32\<close>, \<open>u64\<close>, \<open>usize\<close>) are natural numbers; where the
  source computes at a width that can wrap, the wrap-around is written out with the
  functions of this theory. Errors and panics are values: an operation that can fail has
  type \<open>err + 'a\<close> with the failure on the left.
\<close>

named_theorems layout_consts \<open>definitions of the layout constants\<close>

type_synonym byte = "8 word"
type_synonym payload = "byte list"
type_synonym stream_record = "nat \<times> payload"

section \<open>Failures\<close>

text \<open>
  One constructor per failure of the modelled code. \<open>Spin\<close> is a loop that repeats the same
  iteration on an unchanged state for ever (a CAS whose expected value is never current).
\<close>

datatype err =
    BumpExhausted nat          \<comment> \<open>panic: bump pointer past the soft limit\<close>
  | HardLimitReached nat       \<comment> \<open>panic: capacity cannot grow further\<close>
  | CapacityExhausted nat nat  \<comment> \<open>error: bytes wanted, capacity\<close>
  | GrowerNotRegistered
  | SlotOutOfRange nat         \<comment> \<open>panic: array index out of bounds\<close>
  | DivideByZero               \<comment> \<open>panic: remainder with a zero divisor\<close>
  | AssertionFailed            \<comment> \<open>panic: a failed assertion\<close>
  | ArenaOverrun nat           \<comment> \<open>an unchecked write past the end of an arena\<close>
  | CapacityOverflow           \<comment> \<open>panic: a \<open>Vec\<close> of more than \<open>isize::MAX\<close> bytes\<close>
  | Spin

section \<open>Machine arithmetic\<close>

definition u32_max :: nat where [layout_consts]: "u32_max = 4294967295"

definition wrap32 :: "nat \<Rightarrow> nat" where
  "wrap32 n = n mod 4294967296"

definition saturating_mul32 :: "nat \<Rightarrow> nat \<Rightarrow> nat" where
  "saturating_mul32 a b = min (a * b) u32_max"

definition round_up :: "nat \<Rightarrow> nat \<Rightarrow> nat" where
  "round_up n a = (n + a - 1) div a * a"

lemma wrap32_less [simp]: "wrap32 n < 4294967296"
  by (simp add: wrap32_def)

lemma wrap32_id [simp]: "n < 4294967296 \<Longrightarrow> wrap32 n = n"
  by (simp add: wrap32_def)

lemma saturating_mul32_le: "saturating_mul32 a b \<le> a * b" "saturating_mul32 a b \<le> u32_max"
  by (simp_all add: saturating_mul32_def)

section \<open>Little-endian framing\<close>

definition to_le_bytes32 :: "nat \<Rightarrow> byte list" where
  "to_le_bytes32 n = [of_nat n, of_nat (n div 256), of_nat (n div 65536), of_nat (n div 16777216)]"

fun from_le_bytes32 :: "byte list \<Rightarrow> nat" where
  "from_le_bytes32 [a, b, c, d] = unat a + 256 * unat b + 65536 * unat c + 16777216 * unat d"
| "from_le_bytes32 _ = 0"

lemma length_to_le_bytes32 [simp]: "length (to_le_bytes32 n) = 4"
  by (simp add: to_le_bytes32_def)

lemma unat_of_nat_byte: "unat (of_nat n :: byte) = n mod 256"
  by (simp add: unat_of_nat)

lemma from_to_le_bytes32: "from_le_bytes32 (to_le_bytes32 n) = n mod 4294967296"
proof -
  have "n mod (256 * (256 * (256 * 256)))
      = n mod 256 + 256 * (n div 256 mod 256) + 65536 * (n div 65536 mod 256)
        + 16777216 * (n div 16777216 mod 256)"
    unfolding mod_mult2_eq by (simp add: div_mult2_eq [symmetric])
  then show ?thesis by (simp add: to_le_bytes32_def unat_of_nat_byte)
qed

corollary from_to_le_bytes32_id [simp]:
  "n < 4294967296 \<Longrightarrow> from_le_bytes32 (to_le_bytes32 n) = n"
  by (simp add: from_to_le_bytes32)

section \<open>Byte copies\<close>

text \<open>
  A fixed byte buffer is a function from indices to bytes. \<open>read_bytes f off n\<close> is the slice
  \<open>f[off .. off + n]\<close>; \<open>write_bytes f off bs\<close> is \<open>copy_nonoverlapping\<close> of \<open>bs\<close> to \<open>f + off\<close>.
\<close>

definition read_bytes :: "(nat \<Rightarrow> byte) \<Rightarrow> nat \<Rightarrow> nat \<Rightarrow> byte list" where
  "read_bytes f off n = map f [off..<off + n]"

definition write_bytes :: "(nat \<Rightarrow> byte) \<Rightarrow> nat \<Rightarrow> byte list \<Rightarrow> nat \<Rightarrow> byte" where
  "write_bytes f off bs = (\<lambda>i. if off \<le> i \<and> i < off + length bs then bs ! (i - off) else f i)"

lemma length_read_bytes [simp]: "length (read_bytes f off n) = n"
  by (simp add: read_bytes_def)

lemma nth_read_bytes [simp]: "i < n \<Longrightarrow> read_bytes f off n ! i = f (off + i)"
  by (simp add: read_bytes_def)

lemma read_bytes_0 [simp]: "read_bytes f off 0 = []"
  by (simp add: read_bytes_def)

lemma read_bytes_add: "read_bytes f off (m + n) = read_bytes f off m @ read_bytes f (off + m) n"
  by (rule nth_equalityI) (auto simp: nth_append)

lemma read_bytes_split:
  "k \<le> n \<Longrightarrow> read_bytes f off n = read_bytes f off k @ read_bytes f (off + k) (n - k)"
  using read_bytes_add [of f off k "n - k"] by simp

lemma read_write_bytes_same [simp]: "read_bytes (write_bytes f off bs) off (length bs) = bs"
  by (rule nth_equalityI) (auto simp: write_bytes_def)

lemma read_write_bytes_before [simp]:
  "off' + n \<le> off \<Longrightarrow> read_bytes (write_bytes f off bs) off' n = read_bytes f off' n"
  by (rule nth_equalityI) (auto simp: write_bytes_def)

lemma read_write_bytes_append:
  "read_bytes (write_bytes f off bs) 0 (off + length bs) = read_bytes f 0 off @ bs"
  by (simp add: read_bytes_add)

lemma take_read_bytes: "take k (read_bytes f off n) = read_bytes f off (min k n)"
  by (rule nth_equalityI) auto

lemma drop_read_bytes: "drop k (read_bytes f off n) = read_bytes f (off + k) (n - k)"
  by (rule nth_equalityI) (auto simp: ac_simps)

section \<open>Null-terminated linked paths\<close>

text \<open>
  \<open>path nxt h ps t\<close>: following the successor function \<open>nxt\<close> from \<open>h\<close> visits exactly the
  non-null addresses \<open>ps\<close> and arrives at \<open>t\<close>. A chain is a path that ends at the null
  address \<open>0\<close>.
\<close>

fun path :: "(nat \<Rightarrow> nat) \<Rightarrow> nat \<Rightarrow> nat list \<Rightarrow> nat \<Rightarrow> bool" where
  "path nxt h [] t \<longleftrightarrow> h = t"
| "path nxt h (p # ps) t \<longleftrightarrow> h = p \<and> p \<noteq> 0 \<and> path nxt (nxt p) ps t"

abbreviation chain :: "(nat \<Rightarrow> nat) \<Rightarrow> nat \<Rightarrow> nat list \<Rightarrow> bool" where
  "chain nxt h ps \<equiv> path nxt h ps 0"

lemma path_append [simp]:
  "path nxt h (ps @ qs) t \<longleftrightarrow> (\<exists>m. path nxt h ps m \<and> path nxt m qs t)"
  by (induction ps arbitrary: h) auto

lemma path_cong: "(\<And>p. p \<in> set ps \<Longrightarrow> f p = g p) \<Longrightarrow> path f h ps t = path g h ps t"
  by (induction ps arbitrary: h) auto

lemma path_upd [simp]: "u \<notin> set ps \<Longrightarrow> path (f(u := v)) h ps t = path f h ps t"
  by (rule path_cong) auto

lemma path_nonnull: "path nxt h ps t \<Longrightarrow> 0 \<notin> set ps"
  by (induction ps arbitrary: h) auto

lemma chain_null [simp]: "chain nxt 0 ps \<longleftrightarrow> ps = []"
  by (cases ps) auto

lemma chain_nonnull: "h \<noteq> 0 \<Longrightarrow> chain nxt h ps \<longleftrightarrow> (\<exists>qs. ps = h # qs \<and> chain nxt (nxt h) qs)"
  by (cases ps) auto

lemma chain_hd: "chain nxt h ps \<Longrightarrow> h = (if ps = [] then 0 else hd ps)"
  by (cases ps) auto

lemma chain_unique: "chain nxt h ps \<Longrightarrow> chain nxt h qs \<Longrightarrow> ps = qs"
proof (induction ps arbitrary: h qs)
  case Nil
  then show ?case by simp
next
  case (Cons p ps)
  then show ?case by (cases qs) auto
qed

lemma path_mem_split:
  "path nxt h ps t \<Longrightarrow> a \<in> set ps \<Longrightarrow> \<exists>xs ys. ps = xs @ a # ys \<and> path nxt (nxt a) ys t"
  by (induction ps arbitrary: h) (fastforce intro: exI [of _ "[]"] exI [of _ "_ # _"])+

text \<open>A null-terminated chain never visits an address twice.\<close>

lemma chain_distinct: "chain nxt h ps \<Longrightarrow> distinct ps"
proof (induction ps arbitrary: h)
  case Nil
  then show ?case by simp
next
  case (Cons p ps)
  then have tl: "chain nxt (nxt p) ps" by simp
  have "p \<notin> set ps"
  proof
    assume "p \<in> set ps"
    then obtain xs ys where "ps = xs @ p # ys" "chain nxt (nxt p) ys"
      using path_mem_split [OF tl] by blast
    with tl chain_unique [of nxt "nxt p" ps ys] show False by simp
  qed
  with Cons tl show ?case by simp
qed

lemma chain_last: "chain nxt h ps \<Longrightarrow> ps \<noteq> [] \<Longrightarrow> nxt (last ps) = 0"
  by (induction ps arbitrary: h) (auto split: if_splits)

text \<open>Re-pointing the last link of one chain at another chain concatenates the two.\<close>

lemma path_snoc_upd:
  assumes "chain nxt h ps" "ps \<noteq> []" "chain nxt g qs" "set ps \<inter> set qs = {}"
  shows "chain (nxt(last ps := g)) h (ps @ qs)"
proof -
  obtain xs l where ps: "ps = xs @ [l]"
    using assms(2) by (metis rev_exhaust)
  have d: "distinct ps" using assms(1) by (rule chain_distinct)
  have "l \<notin> set qs" "l \<notin> set xs" using assms(4) d ps by auto
  then show ?thesis using assms(1,3) ps by auto
qed

section \<open>Alignment\<close>

lemma aligned_less:
  assumes "(k::nat) dvd p" "k dvd b" "p < b"
  shows "p + k \<le> b"
proof -
  have "k dvd b - p" using assms by (simp add: dvd_diff_nat)
  then have "k \<le> b - p" using assms(3) by (simp add: dvd_imp_le)
  then show ?thesis using assms(3) by simp
qed

section \<open>Pointwise updates of indexed state\<close>

lemma list_all_upt: "list_all P [0..<n] \<longleftrightarrow> (\<forall>i<n. P i)"
  by (auto simp: list_all_iff)

lemma sum_list_map_le:
  "(\<And>x. x \<in> set xs \<Longrightarrow> f x \<le> (g x :: nat)) \<Longrightarrow> sum_list (map f xs) \<le> sum_list (map g xs)"
  by (induction xs) (auto intro: add_mono)

end
