(* ===== verification/Shm_Layout.thy ===== *)
theory Shm_Layout
  imports Prelude
begin

text \<open>
  The shared-memory layout of \<open>Executor/common/src/lib.rs\<close>: the tuning constants, the
  byte offsets of the fixed arenas, the C layout of \<open>Superblock\<close>, \<open>Page\<close>,
  \<open>ChainNodeHeader\<close> and \<open>RegistryEntry\<close>, and the record \<open>shm\<close> that the other
  theories use as the state of one shared-memory region.
\<close>

section \<open>Constants\<close>

definition SHM_OFFSET_SIZE :: nat where [layout_consts]: "SHM_OFFSET_SIZE = 4"
definition PAGE_ID_SIZE :: nat where [layout_consts]: "PAGE_ID_SIZE = 8"
definition DIRECT_LIMIT :: nat where [layout_consts]: "DIRECT_LIMIT = 0xDF000000"
definition PAGED_MODE_ENTER_NUM :: nat where [layout_consts]: "PAGED_MODE_ENTER_NUM = 8"
definition PAGED_MODE_ENTER_DEN :: nat where [layout_consts]: "PAGED_MODE_ENTER_DEN = 10"
definition PAGED_MODE_EXIT_NUM :: nat where [layout_consts]: "PAGED_MODE_EXIT_NUM = 5"
definition PAGED_MODE_EXIT_DEN :: nat where [layout_consts]: "PAGED_MODE_EXIT_DEN = 10"
definition TARGET_OFFSET :: nat where [layout_consts]: "TARGET_OFFSET = 0x01000000"
definition KIB :: nat where [layout_consts]: "KIB = 1024"
definition MIB :: nat where [layout_consts]: "MIB = 1024 * 1024"
definition INITIAL_SHM_SIZE :: nat where [layout_consts]: "INITIAL_SHM_SIZE = 64 * MIB"
definition PAGE_SIZE :: nat where [layout_consts]: "PAGE_SIZE = 4 * KIB"
definition STREAM_SLOT_COUNT :: nat where [layout_consts]: "STREAM_SLOT_COUNT = 2048"
definition IO_SLOT_COUNT :: nat where [layout_consts]: "IO_SLOT_COUNT = 512"
definition INPUT_IO_SLOT :: nat where [layout_consts]: "INPUT_IO_SLOT = 0"
definition OUTPUT_IO_SLOT :: nat where [layout_consts]: "OUTPUT_IO_SLOT = 1"
definition FREE_LIST_SHARD_COUNT :: nat where [layout_consts]: "FREE_LIST_SHARD_COUNT = 16"
definition MAX_MESH_NODES :: nat where [layout_consts]: "MAX_MESH_NODES = 32"
definition PARALLEL_THRESHOLD :: nat where [layout_consts]: "PARALLEL_THRESHOLD = 50"
definition BARRIER_COUNT :: nat where [layout_consts]: "BARRIER_COUNT = 64"
definition BUCKET_COUNT :: nat where [layout_consts]: "BUCKET_COUNT = PAGE_SIZE div PAGE_ID_SIZE"
definition PAGE_HEADER_SIZE :: nat where
  [layout_consts]: "PAGE_HEADER_SIZE = PAGE_ID_SIZE + SHM_OFFSET_SIZE"
definition PAGE_DATA_SIZE :: nat where
  [layout_consts]: "PAGE_DATA_SIZE = PAGE_SIZE - PAGE_HEADER_SIZE"
definition BUMP_SOFT_LIMIT :: nat where [layout_consts]: "BUMP_SOFT_LIMIT = 0xDEF00000"
definition CAPACITY_HARD_LIMIT :: nat where [layout_consts]: "CAPACITY_HARD_LIMIT = 0xDF000000"
definition CAPACITY_HARD_LIMIT_PYTHON :: nat where
  [layout_consts]: "CAPACITY_HARD_LIMIT_PYTHON = 0xFFFFF000"
definition RDMA_MR1_BUDGET :: nat where [layout_consts]: "RDMA_MR1_BUDGET = 512 * 1024 * 1024"
definition RDMA_MR2_REG_THRESHOLD :: nat where
  [layout_consts]: "RDMA_MR2_REG_THRESHOLD = 256 * 1024 * 1024"
definition RDMA_MR2_INITIAL_SIZE :: nat where
  [layout_consts]: "RDMA_MR2_INITIAL_SIZE = 2 * 1024 * 1024 * 1024"
definition RDMA_MR2_HARD_LIMIT :: nat where
  [layout_consts]: "RDMA_MR2_HARD_LIMIT = 16 * 1024 * 1024 * 1024"
definition FREE_LIST_TRIM_ENABLED :: bool where [layout_consts]: "FREE_LIST_TRIM_ENABLED = True"
definition FREE_LIST_TRIM_THRESHOLD :: nat where
  [layout_consts]: "FREE_LIST_TRIM_THRESHOLD = 204800"

section \<open>C layout of the shared structures\<close>

text \<open>
  \<open>repr(C)\<close>: fields in declaration order, each at the next multiple of its alignment, the
  size rounded up to the largest alignment. A field is a pair of size and alignment.
\<close>

fun c_offsets :: "nat \<Rightarrow> (nat \<times> nat) list \<Rightarrow> nat list" where
  "c_offsets pos [] = []"
| "c_offsets pos ((sz, al) # fs) = round_up pos al # c_offsets (round_up pos al + sz) fs"

fun c_end :: "nat \<Rightarrow> (nat \<times> nat) list \<Rightarrow> nat" where
  "c_end pos [] = pos"
| "c_end pos ((sz, al) # fs) = c_end (round_up pos al + sz) fs"

definition c_sizeof :: "(nat \<times> nat) list \<Rightarrow> nat" where
  "c_sizeof fs = round_up (c_end 0 fs) (fold max (map snd fs) 1)"

text \<open>
  The fields of \<open>Superblock\<close>: magic, bump\_allocator, global\_capacity, log\_offset,
  registry\_lock, next\_atomic\_idx, shared\_map\_base, free\_list\_heads, writer\_heads,
  writer\_tails, io\_heads, io\_tails, barriers.
\<close>

definition superblock_fields :: "(nat \<times> nat) list" where
  "superblock_fields =
     [(4, 4), (4, 4), (4, 4), (4, 4), (4, 4), (4, 4), (4, 4),
      (8 * FREE_LIST_SHARD_COUNT, 8), (8 * STREAM_SLOT_COUNT, 8), (8 * STREAM_SLOT_COUNT, 8),
      (8 * IO_SLOT_COUNT, 8), (8 * IO_SLOT_COUNT, 8), (4 * BARRIER_COUNT, 4)]"

definition page_fields :: "(nat \<times> nat) list" where
  "page_fields = [(PAGE_ID_SIZE, 8), (SHM_OFFSET_SIZE, 4), (PAGE_DATA_SIZE, 1)]"

text \<open>next\_node, writer\_id, data\_len, registry\_index, next\_payload\_page.\<close>

definition chain_node_fields :: "(nat \<times> nat) list" where
  "chain_node_fields = [(8, 8), (4, 4), (4, 4), (4, 4), (8, 8)]"

text \<open>name, index, payload\_offset, payload\_len.\<close>

definition registry_entry_fields :: "(nat \<times> nat) list" where
  "registry_entry_fields = [(52, 1), (4, 4), (4, 4), (4, 4)]"

definition SUPERBLOCK_SIZE :: nat where
  "SUPERBLOCK_SIZE =
     (c_sizeof superblock_fields + PAGE_SIZE - 1) div PAGE_SIZE * PAGE_SIZE"

lemma c_sizeof_superblock: "c_sizeof superblock_fields = 41376"
  by (simp add: c_sizeof_def superblock_fields_def round_up_def layout_consts)

lemma SUPERBLOCK_SIZE_val [layout_consts]: "SUPERBLOCK_SIZE = 45056"
  by (simp add: SUPERBLOCK_SIZE_def c_sizeof_superblock layout_consts)

section \<open>Arenas\<close>

definition REGISTRY_SIZE :: nat where [layout_consts]: "REGISTRY_SIZE = 1 * MIB"
definition REGISTRY_OFFSET :: nat where [layout_consts]: "REGISTRY_OFFSET = SUPERBLOCK_SIZE"
definition RDMA_SCRATCH_SIZE :: nat where [layout_consts]: "RDMA_SCRATCH_SIZE = 2 * PAGE_SIZE"
definition RDMA_SCRATCH_OFFSET :: nat where
  [layout_consts]: "RDMA_SCRATCH_OFFSET = REGISTRY_OFFSET + REGISTRY_SIZE"
definition ATOMIC_ARENA_SIZE :: nat where [layout_consts]: "ATOMIC_ARENA_SIZE = 1 * MIB"
definition ATOMIC_ARENA_OFFSET :: nat where
  [layout_consts]: "ATOMIC_ARENA_OFFSET = RDMA_SCRATCH_OFFSET + RDMA_SCRATCH_SIZE"
definition LOG_ARENA_SIZE :: nat where [layout_consts]: "LOG_ARENA_SIZE = 16 * MIB"
definition LOG_ARENA_OFFSET :: nat where
  [layout_consts]: "LOG_ARENA_OFFSET = ATOMIC_ARENA_OFFSET + ATOMIC_ARENA_SIZE"
definition BUMP_ALLOCATOR_START :: nat where
  [layout_consts]: "BUMP_ALLOCATOR_START = LOG_ARENA_OFFSET + LOG_ARENA_SIZE"

definition atomic_shm_offset :: "nat \<Rightarrow> nat" where
  "atomic_shm_offset idx = wrap32 (ATOMIC_ARENA_OFFSET + wrap32 (wrap32 idx * 8))"

definition rdma_scratch_shm_offset :: "nat \<Rightarrow> nat \<Rightarrow> nat" where
  "rdma_scratch_shm_offset node_id peer_id =
     wrap32 (RDMA_SCRATCH_OFFSET + wrap32 (wrap32 (node_id * MAX_MESH_NODES + peer_id) * 8))"

section \<open>The state of a shared-memory region\<close>

text \<open>
  \<open>Page\<close>: the data array is a function of the byte index; only indices below
  \<open>PAGE_DATA_SIZE\<close> exist in the source.
\<close>

record page =
  next_offset :: nat
  cursor :: nat
  data :: "nat \<Rightarrow> byte"

text \<open>
  The \<open>Superblock\<close> (the atomics by their values; arrays as functions of the index, with the
  bounds checks in the operations that index them), the pages of the region by byte offset,
  and the two process-local statics of the process at work: \<open>LOCAL_CAPACITY\<close>, the extent
  its own mapping covers, and the round-robin counter \<open>ALLOC_SHARD\<close>.
\<close>

record shm =
  bump_allocator :: nat
  global_capacity :: nat
  log_offset :: nat
  registry_lock :: nat
  next_atomic_idx :: nat
  shared_map_base :: nat
  free_list_heads :: "nat \<Rightarrow> nat"
  writer_heads :: "nat \<Rightarrow> nat"
  writer_tails :: "nat \<Rightarrow> nat"
  io_heads :: "nat \<Rightarrow> nat"
  io_tails :: "nat \<Rightarrow> nat"
  barriers :: "nat \<Rightarrow> nat"
  mem :: "nat \<Rightarrow> page"
  local_capacity :: nat
  alloc_shard :: nat

abbreviation nxt :: "'a shm_scheme \<Rightarrow> nat \<Rightarrow> nat" where
  "nxt s \<equiv> \<lambda>p. next_offset (mem s p)"

definition zero_page :: page where
  "zero_page = \<lparr>next_offset = 0, cursor = 0, data = (\<lambda>_. 0)\<rparr>"

text \<open>\<open>shm.rs\<close>: a freshly formatted region, as the process that formatted it sees it.\<close>

definition format_shared_memory :: shm where
  "format_shared_memory =
     \<lparr>bump_allocator = BUMP_ALLOCATOR_START, global_capacity = INITIAL_SHM_SIZE,
      log_offset = 0, registry_lock = 0, next_atomic_idx = 0, shared_map_base = 0,
      free_list_heads = (\<lambda>_. 0), writer_heads = (\<lambda>_. 0), writer_tails = (\<lambda>_. 0),
      io_heads = (\<lambda>_. 0), io_tails = (\<lambda>_. 0), barriers = (\<lambda>_. 0),
      mem = (\<lambda>_. zero_page), local_capacity = INITIAL_SHM_SIZE, alloc_shard = 0\<rparr>"

section \<open>Layout lemmas\<close>

lemma PAGE_DATA_SIZE_pos [simp]: "0 < PAGE_DATA_SIZE"
  by (simp add: layout_consts)

lemma PAGE_SIZE_pos [simp]: "0 < PAGE_SIZE"
  by (simp add: layout_consts)

lemma PAGE_DATA_SIZE_less: "PAGE_DATA_SIZE < 4294967296"
  by (simp add: layout_consts)

lemma BUMP_ALLOCATOR_START_pos [simp]: "0 < BUMP_ALLOCATOR_START"
  by (simp add: layout_consts)

lemma BUMP_ALLOCATOR_START_aligned: "PAGE_SIZE dvd BUMP_ALLOCATOR_START"
  by (simp add: layout_consts)

text \<open>
  The byte layout that the compile-time assertions of \<open>common\<close> pin (and the Python
  guest repeats as literals): the \<open>repr(C)\<close> layout of the declared fields gives exactly the
  asserted offsets and sizes.
\<close>

lemma layout_assertions:
  "c_offsets 0 superblock_fields =
     [0, 4, 8, 12, 16, 20, 24, 32, 160, 16544, 32928, 37024, 41120]
   \<and> c_offsets 0 page_fields = [0, 8, 12] \<and> c_end 0 page_fields = PAGE_SIZE
   \<and> c_offsets 0 chain_node_fields = [0, 8, 12, 16, 24] \<and> c_sizeof chain_node_fields = 32
   \<and> c_sizeof registry_entry_fields = 64"
  by (simp add: superblock_fields_def page_fields_def chain_node_fields_def
      registry_entry_fields_def c_sizeof_def round_up_def layout_consts)

text \<open>
  The fixed arenas are pairwise disjoint and lie below the page heap: superblock,
  registry, RDMA scratch, atomic arena and log arena follow each other without gaps, the
  page heap starts page-aligned after them and inside the initial mapping, every index that
  fits an arena addresses eight bytes inside it, and two (node, peer) pairs never share a
  scratch cell.
\<close>

lemma arena_layout:
  assumes "idx < ATOMIC_ARENA_SIZE div 8"
    and "a < MAX_MESH_NODES" "b < MAX_MESH_NODES" "c < MAX_MESH_NODES" "d < MAX_MESH_NODES"
  shows "c_sizeof superblock_fields \<le> REGISTRY_OFFSET
    \<and> REGISTRY_OFFSET + REGISTRY_SIZE \<le> RDMA_SCRATCH_OFFSET
    \<and> RDMA_SCRATCH_OFFSET \<le> rdma_scratch_shm_offset a b
    \<and> rdma_scratch_shm_offset a b + 8 \<le> ATOMIC_ARENA_OFFSET
    \<and> ATOMIC_ARENA_OFFSET \<le> atomic_shm_offset idx
    \<and> atomic_shm_offset idx + 8 \<le> LOG_ARENA_OFFSET
    \<and> LOG_ARENA_OFFSET + LOG_ARENA_SIZE = BUMP_ALLOCATOR_START
    \<and> PAGE_SIZE dvd BUMP_ALLOCATOR_START \<and> BUMP_ALLOCATOR_START < INITIAL_SHM_SIZE
    \<and> (rdma_scratch_shm_offset a b = rdma_scratch_shm_offset c d \<longrightarrow> a = c \<and> b = d)"
proof -
  have "rdma_scratch_shm_offset x y = RDMA_SCRATCH_OFFSET + (x * 32 + y) * 8"
    if "x < MAX_MESH_NODES" "y < MAX_MESH_NODES" for x y
    using that by (simp add: rdma_scratch_shm_offset_def layout_consts)
  then have ab: "rdma_scratch_shm_offset a b = RDMA_SCRATCH_OFFSET + (a * 32 + b) * 8"
    and cd: "rdma_scratch_shm_offset c d = RDMA_SCRATCH_OFFSET + (c * 32 + d) * 8"
    using assms by auto
  have "atomic_shm_offset idx = ATOMIC_ARENA_OFFSET + idx * 8"
    using assms(1) by (simp add: atomic_shm_offset_def layout_consts)
  moreover have "a = c \<and> b = d" if "a * 32 + b = c * 32 + d"
  proof -
    have "b < 32" "d < 32" using assms(3,5) by (simp_all add: layout_consts)
    then have "(a * 32 + b) div 32 = a" "(c * 32 + d) div 32 = c" by simp_all
    with that show ?thesis by simp
  qed
  ultimately show ?thesis
    using assms ab cd by (auto simp: c_sizeof_superblock layout_consts)
qed

end
