(* ===== verification/Page_Alloc.thy ===== *)
theory Page_Alloc
  imports Shm_Layout
begin

text \<open>
  The sharded free list of the superblock and the guest's page allocator
  (\<open>guest/src/api/page_allocator.rs\<close>), with the interface \<open>page_allocator\<close> that the
  page-chain writers rely on. Operations are modelled as they run without interference: a
  compare-and-swap succeeds when the expected value is the current one, and a retry loop
  whose CAS can never succeed is \<open>Inl Spin\<close>.
\<close>

section \<open>Operations\<close>

definition pop_page :: "nat \<Rightarrow> nat \<Rightarrow> 'a shm_scheme \<Rightarrow> 'a shm_scheme" where
  "pop_page shard head s =
     s\<lparr>free_list_heads := (free_list_heads s)(shard := wrap32 (nxt s head)),
       mem := (mem s)(head := (mem s head)\<lparr>next_offset := 0, cursor := 0\<rparr>)\<rparr>"

text \<open>
  The \<open>for i in 0..FREE_LIST_SHARD_COUNT\<close> loop over the shards in preference order; \<open>None\<close>
  when every shard is empty.
\<close>

fun scan_shards :: "nat list \<Rightarrow> 'a shm_scheme \<Rightarrow> (err + nat \<times> 'a shm_scheme) option" where
  "scan_shards [] s = None"
| "scan_shards (shard # rest) s =
     (let head = wrap32 (free_list_heads s shard) in
      if head = 0 then scan_shards rest s
      else if free_list_heads s shard \<noteq> head then Some (Inl Spin)
      else Some (Inr (head, pop_page shard head s)))"

definition shard_order :: "nat \<Rightarrow> nat list" where
  "shard_order start = map (\<lambda>i. (start + i) mod FREE_LIST_SHARD_COUNT) [0..<FREE_LIST_SHARD_COUNT]"

definition grown_capacity :: "nat \<Rightarrow> nat" where
  "grown_capacity local_cap = min (saturating_mul32 local_cap 2) CAPACITY_HARD_LIMIT"

lemma grown_capacity_le: "grown_capacity c \<le> CAPACITY_HARD_LIMIT"
  by (simp add: grown_capacity_def)

text \<open>
  The bump-allocation loop. An iteration panics, returns, adopts a larger global capacity
  (\<open>host_remap\<close>), or doubles the capacity, clamped to the hard limit.
\<close>

function bump_allocate :: "'a shm_scheme \<Rightarrow> err + nat \<times> 'a shm_scheme" where
  "bump_allocate s =
     (if BUMP_SOFT_LIMIT \<le> bump_allocator s then Inl (BumpExhausted (bump_allocator s))
      else if local_capacity s < wrap32 (bump_allocator s + PAGE_SIZE) then
        (if local_capacity s < global_capacity s
         then bump_allocate (s\<lparr>local_capacity := global_capacity s\<rparr>)
         else if grown_capacity (local_capacity s) \<le> local_capacity s
         then Inl (HardLimitReached (local_capacity s))
         else if global_capacity s \<noteq> local_capacity s then Inl Spin
         else bump_allocate (s\<lparr>global_capacity := grown_capacity (local_capacity s),
                              local_capacity := grown_capacity (local_capacity s)\<rparr>))
      else Inr (bump_allocator s,
                s\<lparr>bump_allocator := wrap32 (bump_allocator s + PAGE_SIZE)\<rparr>))"
  by pat_completeness auto
termination
  by (relation "measure (\<lambda>s. max (global_capacity s) CAPACITY_HARD_LIMIT - local_capacity s)")
    (use grown_capacity_le in \<open>auto simp: less_diff_conv2\<close>)

declare bump_allocate.simps [simp del]

definition try_allocate_page :: "'a shm_scheme \<Rightarrow> err + nat \<times> 'a shm_scheme" where
  "try_allocate_page s =
     (let start = alloc_shard s mod FREE_LIST_SHARD_COUNT;
          s1 = s\<lparr>alloc_shard := wrap32 (alloc_shard s + 1)\<rparr>
      in case scan_shards (shard_order start) s1 of
           Some r \<Rightarrow> r
         | None \<Rightarrow> bump_allocate s1)"

section \<open>The allocator invariant\<close>

text \<open>
  \<open>free_lists s F\<close>: shard \<open>j\<close>'s Treiber stack holds exactly the pages \<open>F j\<close>; the shards are
  pairwise disjoint and hold page-aligned offsets of the part of the heap that has been
  bump-allocated.
\<close>

definition heap_page :: "'a shm_scheme \<Rightarrow> nat \<Rightarrow> bool" where
  "heap_page s p \<longleftrightarrow> BUMP_ALLOCATOR_START \<le> p \<and> p < bump_allocator s \<and> PAGE_SIZE dvd p"

definition free_lists :: "'a shm_scheme \<Rightarrow> (nat \<Rightarrow> nat list) \<Rightarrow> bool" where
  "free_lists s F \<longleftrightarrow>
     (\<forall>j < FREE_LIST_SHARD_COUNT. chain (nxt s) (free_list_heads s j) (F j)
        \<and> (\<forall>p \<in> set (F j). heap_page s p))
   \<and> (\<forall>i < FREE_LIST_SHARD_COUNT. \<forall>j < FREE_LIST_SHARD_COUNT.
        i \<noteq> j \<longrightarrow> set (F i) \<inter> set (F j) = {})"

definition bump_ok :: "'a shm_scheme \<Rightarrow> bool" where
  "bump_ok s \<longleftrightarrow> BUMP_ALLOCATOR_START \<le> bump_allocator s \<and> PAGE_SIZE dvd bump_allocator s
     \<and> bump_allocator s < 4294967296"

definition alloc_inv :: "'a shm_scheme \<Rightarrow> bool" where
  "alloc_inv s \<longleftrightarrow> bump_ok s \<and> (\<exists>F. free_lists s F)"

definition free_pages :: "'a shm_scheme \<Rightarrow> nat set" where
  "free_pages s = {p. \<exists>j < FREE_LIST_SHARD_COUNT. \<exists>ps.
     chain (nxt s) (free_list_heads s j) ps \<and> p \<in> set ps}"

text \<open>The pages the allocator may still hand out.\<close>

definition avail :: "'a shm_scheme \<Rightarrow> nat set" where
  "avail s = free_pages s \<union> {p. bump_allocator s \<le> p \<and> PAGE_SIZE dvd p}"

text \<open>
  The capacities: everything handed out lies inside the file, the local mapping never
  exceeds the file, and the file never exceeds the window.
\<close>

definition cap_ok :: "'a shm_scheme \<Rightarrow> bool" where
  "cap_ok s \<longleftrightarrow> bump_allocator s \<le> global_capacity s \<and> 0 < local_capacity s
     \<and> local_capacity s \<le> global_capacity s \<and> global_capacity s \<le> CAPACITY_HARD_LIMIT"

definition guest_inv :: "'a shm_scheme \<Rightarrow> bool" where
  "guest_inv s \<longleftrightarrow> alloc_inv s \<and> cap_ok s"

text \<open>What an allocation leaves alone: the slot tables, the barriers and the arenas' cursors.\<close>

definition same_slots :: "'a shm_scheme \<Rightarrow> 'a shm_scheme \<Rightarrow> bool" where
  "same_slots s t \<longleftrightarrow> writer_heads t = writer_heads s \<and> writer_tails t = writer_tails s
     \<and> io_heads t = io_heads s \<and> io_tails t = io_tails s \<and> barriers t = barriers s
     \<and> log_offset t = log_offset s \<and> next_atomic_idx t = next_atomic_idx s
     \<and> shared_map_base t = shared_map_base s \<and> registry_lock t = registry_lock s"

lemma same_slots_refl [simp]: "same_slots s s"
  by (simp add: same_slots_def)

lemma same_slots_trans: "same_slots s t \<Longrightarrow> same_slots t u \<Longrightarrow> same_slots s u"
  by (simp add: same_slots_def)

lemma free_listsI:
  assumes "\<And>j. j < FREE_LIST_SHARD_COUNT \<Longrightarrow> chain (nxt s) (free_list_heads s j) (F j)"
    and "\<And>j p. j < FREE_LIST_SHARD_COUNT \<Longrightarrow> p \<in> set (F j) \<Longrightarrow> heap_page s p"
    and "\<And>i j p. i < FREE_LIST_SHARD_COUNT \<Longrightarrow> j < FREE_LIST_SHARD_COUNT \<Longrightarrow> i \<noteq> j \<Longrightarrow>
      p \<in> set (F i) \<Longrightarrow> p \<notin> set (F j)"
  shows "free_lists s F"
  using assms unfolding free_lists_def by blast

lemma free_listsD:
  assumes "free_lists s F" "j < FREE_LIST_SHARD_COUNT"
  shows "chain (nxt s) (free_list_heads s j) (F j)" "p \<in> set (F j) \<Longrightarrow> heap_page s p"
    "i < FREE_LIST_SHARD_COUNT \<Longrightarrow> i \<noteq> j \<Longrightarrow> p \<in> set (F j) \<Longrightarrow> p \<notin> set (F i)"
  using assms unfolding free_lists_def by blast+

lemma free_pages_eq: "free_lists s F \<Longrightarrow> free_pages s = (\<Union>j < FREE_LIST_SHARD_COUNT. set (F j))"
  unfolding free_lists_def free_pages_def by (fastforce dest: chain_unique)

section \<open>The allocator interface\<close>

text \<open>
  What the writers of page chains rely on: an allocation that succeeds hands out a page
  that was available and is not afterwards, keeps the invariant, the slot tables and every
  page that was not available.
\<close>

locale page_allocator =
  fixes alloc :: "'a shm_scheme \<Rightarrow> err + nat \<times> 'a shm_scheme"
    and inv :: "'a shm_scheme \<Rightarrow> bool"
    and fresh :: "'a shm_scheme \<Rightarrow> nat set"
  assumes alloc_inv': "inv s \<Longrightarrow> alloc s = Inr (p, t) \<Longrightarrow> inv t"
    and alloc_fresh: "inv s \<Longrightarrow> alloc s = Inr (p, t) \<Longrightarrow> p \<in> fresh s"
    and alloc_taken: "inv s \<Longrightarrow> alloc s = Inr (p, t) \<Longrightarrow> fresh t \<subseteq> fresh s - {p}"
    and alloc_nonnull: "inv s \<Longrightarrow> alloc s = Inr (p, t) \<Longrightarrow> 0 < p \<and> p < 4294967296"
    and alloc_frame: "inv s \<Longrightarrow> alloc s = Inr (p, t) \<Longrightarrow> same_slots s t"
    and alloc_mem: "inv s \<Longrightarrow> alloc s = Inr (p, t) \<Longrightarrow> q \<notin> fresh s \<Longrightarrow> mem t q = mem s q"
    and inv_cong: "inv s \<Longrightarrow> bump_allocator t = bump_allocator s \<Longrightarrow>
      free_list_heads t = free_list_heads s \<Longrightarrow> global_capacity t = global_capacity s \<Longrightarrow>
      local_capacity t = local_capacity s \<Longrightarrow> shm.more t = shm.more s \<Longrightarrow>
      (\<And>p. p \<in> fresh s \<Longrightarrow> mem t p = mem s p) \<Longrightarrow> inv t \<and> fresh t = fresh s"

text \<open>
  An allocator that cannot fail while there is room: \<open>room s\<close> further pages are guaranteed,
  and an allocation uses up at most one of them.
\<close>

locale total_page_allocator = page_allocator alloc inv fresh
  for alloc :: "'a shm_scheme \<Rightarrow> err + nat \<times> 'a shm_scheme"
    and inv :: "'a shm_scheme \<Rightarrow> bool" and fresh :: "'a shm_scheme \<Rightarrow> nat set" +
  fixes room :: "'a shm_scheme \<Rightarrow> nat"
  assumes alloc_total: "inv s \<Longrightarrow> 0 < room s \<Longrightarrow> \<exists>p t. alloc s = Inr (p, t)"
    and alloc_room: "inv s \<Longrightarrow> alloc s = Inr (p, t) \<Longrightarrow> room s \<le> Suc (room t)"
    and room_cong: "bump_allocator t = bump_allocator s \<Longrightarrow> global_capacity t = global_capacity s \<Longrightarrow> room t = room s"

section \<open>The guest allocator keeps the invariant\<close>

lemma scan_shards_Some:
  assumes "scan_shards js s = Some (Inr (p, t))"
  shows "\<exists>j \<in> set js. free_list_heads s j = p \<and> 0 < p \<and> p < 4294967296 \<and> t = pop_page j p s"
  using assms by (induction js) (auto simp: Let_def split: if_splits, (metis wrap32_less)+)

lemma scan_shards_None:
  "scan_shards js s = None \<longleftrightarrow> (\<forall>j \<in> set js. wrap32 (free_list_heads s j) = 0)"
  by (induction js) (auto simp: Let_def)

lemma set_shard_order: "set (shard_order start) = {..<FREE_LIST_SHARD_COUNT}"
proof -
  have "\<exists>i < 16. (start + i) mod 16 = j" if "j < (16 :: nat)" for j
  proof (intro exI conjI)
    have "start + (j + 16 - start mod 16) = 16 * (start div 16 + 1) + j"
    proof -
      have "start mod 16 < 16" by simp
      then have "start + (j + 16 - start mod 16) = (start - start mod 16) + 16 + j"
        using mod_less_eq_dividend [of start 16] by linarith
      then show ?thesis by (simp add: minus_mod_eq_mult_div)
    qed
    then have "(start + (j + 16 - start mod 16)) mod 16 = j"
      using that by (simp only: mod_mult_self4 mod_less)
    then show "(start + (j + 16 - start mod 16) mod 16) mod 16 = j"
      by (simp add: mod_add_right_eq)
  qed simp
  then show ?thesis
    by (force simp: shard_order_def layout_consts image_iff)
qed

text \<open>
  Popping a page off a shard: the shard loses exactly its head, the page becomes empty and
  unlinked, and no other shard changes.
\<close>

lemma free_lists_pop:
  assumes F: "free_lists s F" and b: "bump_ok s"
    and j: "j < FREE_LIST_SHARD_COUNT" and h: "free_list_heads s j = p" "p \<noteq> 0"
  shows "free_lists (pop_page j p s) (F(j := tl (F j)))"
    and "F j = p # tl (F j)"
proof -
  have cj: "chain (nxt s) p (F j)" using F j h(1) unfolding free_lists_def by blast
  with h(2) show Fj: "F j = p # tl (F j)" by (cases "F j") auto
  have d: "distinct (F j)" using cj by (rule chain_distinct)
  have ctl: "chain (nxt s) (nxt s p) (tl (F j))" using cj Fj by (cases "F j") auto
  have "nxt s p < 4294967296"
  proof (cases "tl (F j)")
    case Nil
    then show ?thesis using ctl by simp
  next
    case (Cons q qs)
    then have "nxt s p = q" using ctl by simp
    moreover have "q \<in> set (F j)" using Cons Fj by (metis list.set_intros)
    ultimately show ?thesis using F b j by (force simp: free_lists_def bump_ok_def heap_page_def)
  qed
  then have w: "wrap32 (nxt s p) = nxt s p" by simp
  have pn: "p \<notin> set (tl (F j))" using d Fj by (metis distinct.simps(2))
  have po: "p \<notin> set (F i)" if "i < FREE_LIST_SHARD_COUNT" "i \<noteq> j" for i
    using F j that Fj by (metis disjoint_iff free_lists_def list.set_intros(1))
  have upd: "nxt (pop_page j p s) = (nxt s)(p := 0)"
    by (auto simp: pop_page_def)
  have tlsub: "set (tl (F j)) \<subseteq> set (F j)" by (metis Fj set_subset_Cons)
  have hp: "heap_page (pop_page j p s) q = heap_page s q" for q
    by (simp add: heap_page_def pop_page_def)
  have hd': "free_list_heads (pop_page j p s) = (free_list_heads s)(j := nxt s p)"
    by (simp add: pop_page_def w)
  have ch: "chain (nxt (pop_page j p s)) (free_list_heads (pop_page j p s) i) ((F(j := tl (F j))) i)"
    if "i < FREE_LIST_SHARD_COUNT" for i
  proof (cases "i = j")
    case True
    then show ?thesis using ctl pn unfolding upd hd' by simp
  next
    case False
    then show ?thesis using F po [OF that] that unfolding upd hd' by (simp add: free_lists_def)
  qed
  have sub: "q \<in> set ((F(j := tl (F j))) i) \<Longrightarrow> q \<in> set (F i)" for i q
    using tlsub by (auto split: if_splits)
  show "free_lists (pop_page j p s) (F(j := tl (F j)))"
  proof (rule free_listsI)
    show "heap_page (pop_page j p s) q" if "i < FREE_LIST_SHARD_COUNT" "q \<in> set ((F(j := tl (F j))) i)" for i q
      unfolding hp using free_listsD(2) [OF F that(1)] sub that(2) by blast
    show "q \<notin> set ((F(j := tl (F j))) i')"
      if "i < FREE_LIST_SHARD_COUNT" "i' < FREE_LIST_SHARD_COUNT" "i \<noteq> i'"
        "q \<in> set ((F(j := tl (F j))) i)" for i i' q
      using free_listsD(3) [OF F that(1), of i' q] sub that by blast
  qed (rule ch)
qed

lemma free_lists_mono:
  assumes "free_lists s F" "free_list_heads t = free_list_heads s"
    and "bump_allocator s \<le> bump_allocator t"
    and "\<And>p. p \<in> free_pages s \<Longrightarrow> mem t p = mem s p"
  shows "free_lists t F"
proof -
  have m: "mem t p = mem s p" if "j < FREE_LIST_SHARD_COUNT" "p \<in> set (F j)" for j p
    using assms(4) that unfolding free_pages_eq [OF assms(1)] by blast
  have "chain (nxt t) (free_list_heads t j) (F j)" if "j < FREE_LIST_SHARD_COUNT" for j
    using assms(1) that m [OF that] path_cong [of "F j" "nxt t" "nxt s"]
    by (simp add: free_lists_def assms(2))
  moreover have "heap_page t p" if "heap_page s p" for p
    using that assms(3) by (auto simp: heap_page_def)
  ultimately show ?thesis using assms(1) by (auto simp: free_lists_def)
qed

lemma bump_allocate_Inr:
  assumes "bump_allocate s = Inr (p, t)"
  shows "p = bump_allocator s \<and> p < BUMP_SOFT_LIMIT \<and> bump_allocator t = p + PAGE_SIZE
    \<and> p + PAGE_SIZE \<le> local_capacity t \<and> local_capacity s \<le> local_capacity t
    \<and> mem t = mem s \<and> free_list_heads t = free_list_heads s \<and> same_slots s t
    \<and> global_capacity s \<le> global_capacity t \<and> (cap_ok s \<longrightarrow> cap_ok t)"
  using assms
proof (induction s rule: bump_allocate.induct)
  case (1 s)
  show ?case
  proof (cases "BUMP_SOFT_LIMIT \<le> bump_allocator s")
    case True
    with "1.prems" show ?thesis by (simp add: bump_allocate.simps [of s])
  next
    case False
    then have w: "wrap32 (bump_allocator s + PAGE_SIZE) = bump_allocator s + PAGE_SIZE"
      by (simp add: layout_consts)
    from "1.prems" False "1.IH" grown_capacity_le show ?thesis
      by (simp add: bump_allocate.simps [of s] w same_slots_def cap_ok_def split: if_splits)
        (auto simp: w)
  qed
qed

text \<open>The next lemma splits a successful guest allocation into its two sources.\<close>

lemma try_allocate_page_cases:
  assumes "try_allocate_page s = Inr (p, t)"
  obtains (free) j where "j < FREE_LIST_SHARD_COUNT" "free_list_heads s j = p" "0 < p"
      "t = pop_page j p (s\<lparr>alloc_shard := wrap32 (alloc_shard s + 1)\<rparr>)"
  | (bump) "bump_allocate (s\<lparr>alloc_shard := wrap32 (alloc_shard s + 1)\<rparr>) = Inr (p, t)"
proof -
  let ?s = "s\<lparr>alloc_shard := wrap32 (alloc_shard s + 1)\<rparr>"
  let ?o = "shard_order (alloc_shard s mod FREE_LIST_SHARD_COUNT)"
  show thesis
  proof (cases "scan_shards ?o ?s")
    case None
    with assms bump show thesis by (simp add: try_allocate_page_def Let_def)
  next
    case (Some r)
    with assms have "scan_shards ?o ?s = Some (Inr (p, t))"
      by (simp add: try_allocate_page_def Let_def)
    from scan_shards_Some [OF this] free show thesis
      by (auto simp: set_shard_order)
  qed
qed

lemma alloc_inv_shard: "alloc_inv (s\<lparr>alloc_shard := k\<rparr>) = alloc_inv s"
  by (simp add: alloc_inv_def bump_ok_def free_lists_def heap_page_def)

lemma avail_shard: "avail (s\<lparr>alloc_shard := k\<rparr>) = avail s"
  by (simp add: avail_def free_pages_def)

text \<open>Popping a shard in terms of the available pages.\<close>

lemma pop_page_spec:
  assumes "alloc_inv s" "j < FREE_LIST_SHARD_COUNT" "free_list_heads s j = p" "p \<noteq> 0"
  shows "alloc_inv (pop_page j p s)" "p \<in> free_pages s"
    "free_pages (pop_page j p s) = free_pages s - {p}" "heap_page s p"
    "avail (pop_page j p s) = avail s - {p}"
proof -
  obtain F where F: "free_lists s F" and b: "bump_ok s"
    using assms(1) by (auto simp: alloc_inv_def)
  note pop = free_lists_pop [OF F b assms(2-4)]
  show "alloc_inv (pop_page j p s)"
    using pop(1) b by (auto simp: alloc_inv_def bump_ok_def pop_page_def)
  have pj: "p \<in> set (F j)" using pop(2) by (metis list.set_intros(1))
  then show pf: "p \<in> free_pages s" using assms(2) by (auto simp: free_pages_eq [OF F])
  show hp: "heap_page s p" using F pj assms(2) by (auto simp: free_lists_def)
  have d: "distinct (F j)" using F assms(2) by (auto simp: free_lists_def intro: chain_distinct)
  have tl: "set (tl (F j)) = set (F j) - {p}"
    using d pop(2) by (metis Diff_insert_absorb distinct.simps(2) list.simps(15))
  have oth: "p \<notin> set (F i)" if "i < FREE_LIST_SHARD_COUNT" "i \<noteq> j" for i
    using free_listsD(3) [OF F assms(2) that pj] .
  have "set ((F(j := tl (F j))) i) = set (F i) - {p}" if "i < FREE_LIST_SHARD_COUNT" for i
    using tl oth [OF that] by (cases "i = j") auto
  then have "(\<Union>i < FREE_LIST_SHARD_COUNT. set ((F(j := tl (F j))) i))
      = (\<Union>i < FREE_LIST_SHARD_COUNT. set (F i) - {p})"
    by (intro SUP_cong) simp_all
  then show fp: "free_pages (pop_page j p s) = free_pages s - {p}"
    unfolding free_pages_eq [OF F] free_pages_eq [OF pop(1)] UN_extend_simps by simp
  show "avail (pop_page j p s) = avail s - {p}"
  proof -
    have "bump_allocator (pop_page j p s) = bump_allocator s" by (simp add: pop_page_def)
    moreover have "p < bump_allocator s" using hp by (simp add: heap_page_def)
    ultimately show ?thesis unfolding avail_def fp by auto
  qed
qed

lemma alloc_inv_cong:
  assumes "alloc_inv s" "bump_allocator t = bump_allocator s"
    and "free_list_heads t = free_list_heads s" "\<And>p. p \<in> avail s \<Longrightarrow> mem t p = mem s p"
  shows "alloc_inv t \<and> avail t = avail s"
proof -
  obtain F where F: "free_lists s F" and b: "bump_ok s"
    using assms(1) by (auto simp: alloc_inv_def)
  have "free_lists t F"
    by (rule free_lists_mono [OF F assms(3)]) (use assms(2,4) in \<open>auto simp: avail_def\<close>)
  then show ?thesis
    using b assms(2) free_pages_eq [OF F] free_pages_eq [of t F]
    by (auto simp: alloc_inv_def bump_ok_def avail_def)
qed

lemma alloc_inv_bump:
  assumes "alloc_inv s" "mem t = mem s" "free_list_heads t = free_list_heads s"
    and "bump_allocator t = bump_allocator s + PAGE_SIZE" "bump_allocator t < 4294967296"
  shows "alloc_inv t" "avail t \<subseteq> avail s - {bump_allocator s}"
proof -
  obtain F where F: "free_lists s F" and b: "bump_ok s"
    using assms(1) by (auto simp: alloc_inv_def)
  have Ft: "free_lists t F"
    by (rule free_lists_mono [OF F assms(3)]) (use assms in auto)
  then show "alloc_inv t"
    using b assms(4,5) by (auto simp: alloc_inv_def bump_ok_def)
  have "bump_allocator s \<notin> free_pages s"
    using F by (auto simp: free_pages_eq [OF F] free_lists_def heap_page_def)
  moreover have "free_pages t = free_pages s"
    by (simp add: free_pages_eq [OF F] free_pages_eq [OF Ft])
  moreover have "bump_allocator s < bump_allocator t" using assms(4) by simp
  ultimately have "q \<in> avail s \<and> q \<noteq> bump_allocator s" if "q \<in> avail t" for q
    using that unfolding avail_def by (cases "q \<in> free_pages s") auto
  then show "avail t \<subseteq> avail s - {bump_allocator s}"
    by blast
qed

lemma try_allocate_page_spec:
  assumes "alloc_inv s" "try_allocate_page s = Inr (p, t)"
  shows "alloc_inv t \<and> p \<in> avail s \<and> avail t \<subseteq> avail s - {p}
    \<and> BUMP_ALLOCATOR_START \<le> p \<and> PAGE_SIZE dvd p \<and> p < bump_allocator t \<and> p < 4294967296
    \<and> same_slots s t \<and> (\<forall>q. q \<noteq> p \<longrightarrow> mem t q = mem s q)
    \<and> bump_allocator s \<le> bump_allocator t \<and> (cap_ok s \<longrightarrow> cap_ok t)"
  using assms(2)
proof (cases rule: try_allocate_page_cases)
  case (free j)
  let ?s = "s\<lparr>alloc_shard := wrap32 (alloc_shard s + 1)\<rparr>"
  have i: "alloc_inv ?s" using assms(1) by (simp add: alloc_inv_shard)
  note sp = pop_page_spec [OF i free(1), of p]
  show ?thesis
    using sp free assms(1)
    by (auto simp: avail_shard heap_page_def pop_page_def same_slots_def avail_def alloc_inv_def
        bump_ok_def free_pages_def cap_ok_def)
next
  case bump
  let ?s = "s\<lparr>alloc_shard := wrap32 (alloc_shard s + 1)\<rparr>"
  have i: "alloc_inv ?s" using assms(1) by (simp add: alloc_inv_shard)
  note b = bump_allocate_Inr [OF bump]
  have lt: "bump_allocator t < 4294967296" using b by (simp add: layout_consts)
  have ok: "bump_ok s" using assms(1) by (simp add: alloc_inv_def)
  have "alloc_inv t" "avail t \<subseteq> avail s - {p}"
    using alloc_inv_bump [OF i, of t] b lt by (auto simp: avail_shard)
  moreover have "p \<in> avail s" using b ok by (simp add: avail_def bump_ok_def)
  ultimately show ?thesis
    using b ok by (auto simp: bump_ok_def same_slots_def cap_ok_def)
qed

lemma guest_inv_cong:
  assumes "guest_inv s" "bump_allocator t = bump_allocator s" "free_list_heads t = free_list_heads s"
    "global_capacity t = global_capacity s" "local_capacity t = local_capacity s" "\<And>p. p \<in> avail s \<Longrightarrow> mem t p = mem s p"
  shows "guest_inv t \<and> avail t = avail s"
  using assms alloc_inv_cong [of s t] by (simp add: guest_inv_def cap_ok_def)

interpretation guest: page_allocator try_allocate_page guest_inv avail
proof unfold_locales
  fix s t :: "'a shm_scheme" and p
  assume i: "guest_inv s" and al: "try_allocate_page s = Inr (p, t)"
  have "alloc_inv s" using i by (simp add: guest_inv_def)
  note sp = try_allocate_page_spec [OF this al]
  show "guest_inv t" "p \<in> avail s" "avail t \<subseteq> avail s - {p}" "0 < p \<and> p < 4294967296" "same_slots s t"
    using sp i by (auto simp: layout_consts guest_inv_def)
  show "mem t q = mem s q" if "q \<notin> avail s" for q
    using sp that by auto
qed (rule guest_inv_cong)

section \<open>Properties\<close>

lemma free_lists_format: "free_lists format_shared_memory (\<lambda>_. [])"
  by (simp add: free_lists_def format_shared_memory_def)

lemma guest_inv_format: "guest_inv format_shared_memory"
  using free_lists_format BUMP_ALLOCATOR_START_aligned
  by (auto simp: guest_inv_def alloc_inv_def bump_ok_def cap_ok_def format_shared_memory_def
      layout_consts)

lemma bump_allocate_total:
  assumes "cap_ok s" "bump_allocator s < BUMP_SOFT_LIMIT"
  shows "\<exists>t. bump_allocate s = Inr (bump_allocator s, t)"
  using assms
proof (induction s rule: bump_allocate.induct)
  case (1 s)
  have w: "wrap32 (bump_allocator s + PAGE_SIZE) = bump_allocator s + PAGE_SIZE"
    and top: "bump_allocator s + PAGE_SIZE \<le> CAPACITY_HARD_LIMIT"
    using "1.prems"(2) by (simp_all add: layout_consts)
  have gr: "local_capacity s < grown_capacity (local_capacity s)"
    if "local_capacity s < bump_allocator s + PAGE_SIZE"
    using that top "1.prems"(1)
    by (auto simp: grown_capacity_def saturating_mul32_def cap_ok_def layout_consts)
  have g: "\<not> BUMP_SOFT_LIMIT \<le> bump_allocator s" using "1.prems"(2) by simp
  show ?case
  proof (cases "local_capacity s < bump_allocator s + PAGE_SIZE")
    case False
    then show ?thesis using g by (simp add: bump_allocate.simps [of s] w)
  next
    case True
    note eq = bump_allocate.simps [of s]
    show ?thesis
    proof (cases "local_capacity s < global_capacity s")
      case lg: True
      then show ?thesis
        using "1.IH"(1) [OF g] True "1.prems" g by (simp add: eq w cap_ok_def)
    next
      case False
      then have "global_capacity s = local_capacity s" using "1.prems"(1) by (simp add: cap_ok_def)
      then show ?thesis
        using "1.IH"(2) [OF g] True "1.prems" g gr [OF True] grown_capacity_le
        by (simp add: eq w cap_ok_def)
    qed
  qed
qed

lemma scan_shards_not_Inl:
  "alloc_inv s \<Longrightarrow> set js \<subseteq> {..<FREE_LIST_SHARD_COUNT} \<Longrightarrow> scan_shards js s \<noteq> Some (Inl e)"
proof (induction js)
  case Nil
  then show ?case by simp
next
  case (Cons j js)
  obtain F where F: "free_lists s F" and b: "bump_ok s"
    using Cons.prems(1) by (auto simp: alloc_inv_def)
  have j: "j < FREE_LIST_SHARD_COUNT" using Cons.prems(2) by simp
  have "free_list_heads s j < 4294967296"
    using chain_hd [OF free_listsD(1) [OF F j]] free_listsD(2) [OF F j, of "hd (F j)"] b
    by (cases "F j") (auto simp: heap_page_def bump_ok_def)
  then show ?case using Cons by (simp add: Let_def)
qed

text \<open>The pages the guest can still take off the bump region before the soft limit.\<close>

definition bump_room :: "'a shm_scheme \<Rightarrow> nat" where
  "bump_room s = (BUMP_SOFT_LIMIT - bump_allocator s) div PAGE_SIZE"

lemma try_allocate_page_total:
  assumes "guest_inv s" "free_pages s \<noteq> {} \<or> bump_allocator s < BUMP_SOFT_LIMIT"
  shows "\<exists>p t. try_allocate_page s = Inr (p, t)"
proof -
  let ?s = "s\<lparr>alloc_shard := wrap32 (alloc_shard s + 1)\<rparr>"
  let ?o = "shard_order (alloc_shard s mod FREE_LIST_SHARD_COUNT)"
  have i: "alloc_inv ?s" "cap_ok ?s" using assms(1) by (simp_all add: guest_inv_def alloc_inv_shard cap_ok_def)
  show ?thesis
  proof (cases "scan_shards ?o ?s")
    case None
    then have z: "\<forall>j < FREE_LIST_SHARD_COUNT. wrap32 (free_list_heads s j) = 0"
      by (simp add: scan_shards_None set_shard_order)
    obtain F where F: "free_lists s F" and b: "bump_ok s"
      using assms(1) by (auto simp: guest_inv_def alloc_inv_def)
    have "F j = []" if "j < FREE_LIST_SHARD_COUNT" for j
    proof (rule ccontr)
      assume ne: "F j \<noteq> []"
      then have "free_list_heads s j = hd (F j)" "0 < hd (F j)" "hd (F j) < 4294967296"
        using chain_hd [OF free_listsD(1) [OF F that]] free_listsD(2) [OF F that, of "hd (F j)"] b
        by (auto simp: heap_page_def bump_ok_def layout_consts)
      moreover from this have "wrap32 (free_list_heads s j) = hd (F j)" by simp
      ultimately show False using z that by fastforce
    qed
    then have "free_pages s = {}" by (simp add: free_pages_eq [OF F])
    with assms(2) have "bump_allocator ?s < BUMP_SOFT_LIMIT" by simp
    from bump_allocate_total [OF i(2) this] show ?thesis
      using None by (auto simp: try_allocate_page_def Let_def)
  next
    case (Some r)
    then show ?thesis
      using scan_shards_not_Inl [OF i(1), of ?o] by (cases r) (auto simp: try_allocate_page_def Let_def set_shard_order)
  qed
qed

lemma try_allocate_page_bump:
  assumes "try_allocate_page s = Inr (p, t)"
  shows "bump_allocator t \<le> bump_allocator s + PAGE_SIZE"
  using assms
proof (cases rule: try_allocate_page_cases)
  case (free j)
  then show ?thesis by (simp add: pop_page_def)
next
  case bump
  then show ?thesis using bump_allocate_Inr [OF bump] by simp
qed

interpretation guest: total_page_allocator try_allocate_page guest_inv avail bump_room
proof unfold_locales
  fix s t :: "'a shm_scheme" and p
  show "\<exists>p t. try_allocate_page s = Inr (p, t)" if "guest_inv s" "0 < bump_room s"
  proof (rule try_allocate_page_total [OF that(1)])
    show "free_pages s \<noteq> {} \<or> bump_allocator s < BUMP_SOFT_LIMIT"
      using that(2) by (cases "bump_allocator s < BUMP_SOFT_LIMIT") (simp_all add: bump_room_def)
  qed
  assume "guest_inv s" "try_allocate_page s = Inr (p, t)"
  note b = try_allocate_page_bump [OF this(2)]
  have "bump_room s * PAGE_SIZE \<le> BUMP_SOFT_LIMIT - bump_allocator s"
    by (simp add: bump_room_def)
  then have "(bump_room s - 1) * PAGE_SIZE \<le> BUMP_SOFT_LIMIT - bump_allocator t"
    using b unfolding diff_mult_distrib by simp
  then have "bump_room s - 1 \<le> bump_room t"
    unfolding bump_room_def [of t] by (simp add: less_eq_div_iff_mult_less_eq)
  then show "bump_room s \<le> Suc (bump_room t)" by simp
qed (simp add: bump_room_def)

text \<open>
  C5. Every page the guest allocator hands out is a page-aligned heap page that was
  available before and is not available any more, so no page is handed out twice before it
  is freed; the allocator keeps its free lists and capacity invariant, and changes neither a
  slot table nor the contents of any other page.
\<close>

theorem guest_alloc_fresh:
  assumes "guest_inv s" "try_allocate_page s = Inr (p, t)"
  shows "p \<in> avail s \<and> p \<notin> avail t \<and> avail t \<subseteq> avail s \<and> guest_inv t
    \<and> BUMP_ALLOCATOR_START \<le> p \<and> PAGE_SIZE dvd p \<and> p + PAGE_SIZE \<le> global_capacity t
    \<and> same_slots s t \<and> (\<forall>q. q \<noteq> p \<longrightarrow> mem t q = mem s q)"
proof -
  have i: "alloc_inv s" "cap_ok s" using assms(1) by (simp_all add: guest_inv_def)
  note sp = try_allocate_page_spec [OF i(1) assms(2)]
  have "PAGE_SIZE dvd bump_allocator t" "bump_allocator t \<le> global_capacity t" "p < bump_allocator t"
    using sp i(2) by (auto simp: alloc_inv_def bump_ok_def cap_ok_def)
  moreover have "p + PAGE_SIZE \<le> bump_allocator t"
    using sp calculation by (blast intro: aligned_less)
  ultimately show ?thesis using sp i by (auto simp: guest_inv_def)
qed


lemma format_allocates:
  "try_allocate_page format_shared_memory = Inr (BUMP_ALLOCATOR_START,
     format_shared_memory\<lparr>alloc_shard := 1, bump_allocator := BUMP_ALLOCATOR_START + PAGE_SIZE\<rparr>)"
proof -
  have "scan_shards js (format_shared_memory\<lparr>alloc_shard := k\<rparr>) = None" for js k
    by (induction js) (simp_all add: format_shared_memory_def)
  then show ?thesis
    by (simp add: try_allocate_page_def Let_def)
      (simp add: bump_allocate.simps format_shared_memory_def layout_consts)
qed

theorem guest_alloc_fresh_witness:
  "\<exists>t. try_allocate_page format_shared_memory = Inr (BUMP_ALLOCATOR_START, t)
     \<and> BUMP_ALLOCATOR_START \<in> avail format_shared_memory \<and> BUMP_ALLOCATOR_START \<notin> avail t \<and> guest_inv t"
  using guest_alloc_fresh [OF guest_inv_format format_allocates] format_allocates by blast

text \<open>
  C15. The guest allocator returns: under its invariant, as long as some shard has a free
  page or the bump pointer is below the soft limit, an allocation terminates with a page (it
  neither panics nor spins), growing the file when it must and never past the hard limit.
\<close>

theorem guest_alloc_total:
  assumes "guest_inv s" "free_pages s \<noteq> {} \<or> bump_allocator s < BUMP_SOFT_LIMIT"
  shows "\<exists>p t. try_allocate_page s = Inr (p, t) \<and> global_capacity t \<le> CAPACITY_HARD_LIMIT"
proof -
  obtain p t where al: "try_allocate_page s = Inr (p, t)"
    using try_allocate_page_total [OF assms] by blast
  moreover have "cap_ok t" using guest.alloc_inv' [OF assms(1) al] by (simp add: guest_inv_def)
  ultimately show ?thesis by (auto simp: cap_ok_def)
qed

theorem guest_alloc_total_witness:
  "\<exists>p t. try_allocate_page format_shared_memory = Inr (p, t) \<and> global_capacity t \<le> CAPACITY_HARD_LIMIT"
  by (rule guest_alloc_total [OF guest_inv_format])
    (simp add: format_shared_memory_def layout_consts)

end
