(* ===== verification/Page_Chain.thy ===== *)
theory Page_Chain
  imports Page_Alloc
begin

text \<open>
  Page chains: the append-only byte logs behind stream and I/O slots
  (\<open>guest/src/api/stream_area.rs\<close>, \<open>io_area.rs\<close>, \<open>fan_out.rs\<close>). Writers append raw
  bytes and length-prefixed records; readers walk the chain page by page. The chain's
  meaning is the concatenation of the written parts of its pages, and a slot's records are
  the parse of that byte string.
\<close>

section \<open>Slots\<close>

text \<open>
  A pair of head and tail atomics: the helpers of \<open>stream_area.rs\<close> take them as arguments
  and serve both slot arrays of the superblock.
\<close>

datatype slot = Stream nat | Io nat

fun get_head :: "slot \<Rightarrow> 'a shm_scheme \<Rightarrow> nat" where
  "get_head (Stream i) s = writer_heads s i"
| "get_head (Io i) s = io_heads s i"

fun get_tail :: "slot \<Rightarrow> 'a shm_scheme \<Rightarrow> nat" where
  "get_tail (Stream i) s = writer_tails s i"
| "get_tail (Io i) s = io_tails s i"

fun set_head :: "slot \<Rightarrow> nat \<Rightarrow> 'a shm_scheme \<Rightarrow> 'a shm_scheme" where
  "set_head (Stream i) v s = s\<lparr>writer_heads := (writer_heads s)(i := v)\<rparr>"
| "set_head (Io i) v s = s\<lparr>io_heads := (io_heads s)(i := v)\<rparr>"

fun set_tail :: "slot \<Rightarrow> nat \<Rightarrow> 'a shm_scheme \<Rightarrow> 'a shm_scheme" where
  "set_tail (Stream i) v s = s\<lparr>writer_tails := (writer_tails s)(i := v)\<rparr>"
| "set_tail (Io i) v s = s\<lparr>io_tails := (io_tails s)(i := v)\<rparr>"

fun slot_in_range :: "slot \<Rightarrow> bool" where
  "slot_in_range (Stream i) \<longleftrightarrow> i < STREAM_SLOT_COUNT"
| "slot_in_range (Io i) \<longleftrightarrow> i < IO_SLOT_COUNT"

fun slot_index :: "slot \<Rightarrow> nat" where
  "slot_index (Stream i) = i"
| "slot_index (Io i) = i"

section \<open>Page updates\<close>

definition upd_page :: "nat \<Rightarrow> (page \<Rightarrow> page) \<Rightarrow> 'a shm_scheme \<Rightarrow> 'a shm_scheme" where
  "upd_page p f s = s\<lparr>mem := (mem s)(p := f (mem s p))\<rparr>"

definition reset_page :: "nat \<Rightarrow> 'a shm_scheme \<Rightarrow> 'a shm_scheme" where
  "reset_page p = upd_page p (\<lambda>pg. pg\<lparr>next_offset := 0, cursor := 0\<rparr>)"

definition link_page :: "nat \<Rightarrow> nat \<Rightarrow> 'a shm_scheme \<Rightarrow> 'a shm_scheme" where
  "link_page p q = upd_page p (\<lambda>pg. pg\<lparr>next_offset := q\<rparr>)"

definition put_bytes :: "nat \<Rightarrow> byte list \<Rightarrow> 'a shm_scheme \<Rightarrow> 'a shm_scheme" where
  "put_bytes p bs = upd_page p (\<lambda>pg. pg\<lparr>data := write_bytes (data pg) (cursor pg) bs,
     cursor := wrap32 (cursor pg + length bs)\<rparr>)"

section \<open>Appending\<close>

text \<open>\<open>PAGE_DATA_SIZE as ShmOffset - current_cursor\<close> on 32 bits.\<close>

definition space_left :: "'a shm_scheme \<Rightarrow> nat \<Rightarrow> nat" where
  "space_left s p = wrap32 (PAGE_DATA_SIZE + 4294967296 - wrap32 (cursor (mem s p)))"

text \<open>
  The \<open>while !data.is_empty()\<close> loop of \<open>chain_append_raw\<close>, for an allocator \<open>alloc\<close>: write
  as much as fits into the tail page, or link a fresh page behind it.
\<close>

lemma space_left_reset:
  "space_left (set_tail sl p (link_page q p (reset_page p s))) p = PAGE_DATA_SIZE"
  by (cases sl) (simp_all add: space_left_def link_page_def reset_page_def upd_page_def wrap32_def
      layout_consts)

function append_loop ::
  "('a shm_scheme \<Rightarrow> err + nat \<times> 'a shm_scheme) \<Rightarrow> slot \<Rightarrow> nat \<Rightarrow> byte list \<Rightarrow>
   'a shm_scheme \<Rightarrow> err + 'a shm_scheme" where
  "append_loop alloc sl tail dat s =
     (if dat = [] then Inr s
      else if space_left s tail = 0 then
        (case alloc s of
           Inl e \<Rightarrow> Inl e
         | Inr r \<Rightarrow> append_loop alloc sl (fst r) dat
             (set_tail sl (fst r) (link_page tail (fst r) (reset_page (fst r) (snd r)))))
      else append_loop alloc sl tail (drop (space_left s tail) dat)
             (put_bytes tail (take (space_left s tail) dat) s))"
  by pat_completeness auto
termination
  by (relation "measure (\<lambda>(alloc, sl, tail, dat, s).
        2 * length dat + (if space_left s tail = 0 then 1 else 0))")
    (auto simp: space_left_reset neq_Nil_conv)

declare append_loop.simps [simp del]

definition append_with ::
  "('a shm_scheme \<Rightarrow> err + nat \<times> 'a shm_scheme) \<Rightarrow> slot \<Rightarrow> byte list \<Rightarrow> 'a shm_scheme \<Rightarrow>
   err + 'a shm_scheme" where
  "append_with alloc sl dat s =
     (if wrap32 (get_tail sl s) = 0 then
        (case alloc s of
           Inl e \<Rightarrow> Inl e
         | Inr r \<Rightarrow> append_loop alloc sl (fst r) dat
             (set_tail sl (fst r) (set_head sl (fst r) (reset_page (fst r) (snd r)))))
      else append_loop alloc sl (wrap32 (get_tail sl s)) dat s)"

definition chain_append_raw :: "slot \<Rightarrow> byte list \<Rightarrow> 'a shm_scheme \<Rightarrow> err + 'a shm_scheme" where
  "chain_append_raw = append_with try_allocate_page"

text \<open>The three appends of a record, each stopping at the first failure.\<close>

fun append_all ::
  "(byte list \<Rightarrow> 'a shm_scheme \<Rightarrow> err + 'a shm_scheme) \<Rightarrow> byte list list \<Rightarrow> 'a shm_scheme \<Rightarrow>
   err + 'a shm_scheme" where
  "append_all app [] s = Inr s"
| "append_all app (b # bs) s = (case app b s of Inl e \<Rightarrow> Inl e | Inr t \<Rightarrow> append_all app bs t)"

definition frame :: "nat \<Rightarrow> payload \<Rightarrow> byte list list" where
  "frame origin pl = [to_le_bytes32 (wrap32 (length pl)), to_le_bytes32 origin, pl]"

definition chain_append_prefixed ::
  "slot \<Rightarrow> nat \<Rightarrow> payload \<Rightarrow> 'a shm_scheme \<Rightarrow> err + 'a shm_scheme" where
  "chain_append_prefixed sl origin pl = append_all (chain_append_raw sl) (frame origin pl)"

text \<open>\<open>append_stream_data\<close> and \<open>append_io_data\<close>: the array index panics out of range.\<close>

definition append_slot_data :: "slot \<Rightarrow> payload \<Rightarrow> 'a shm_scheme \<Rightarrow> err + 'a shm_scheme" where
  "append_slot_data sl pl s =
     (if slot_in_range sl then chain_append_prefixed sl (slot_index sl) pl s
      else Inl (SlotOutOfRange (slot_index sl)))"

definition append_stream_data :: "nat \<Rightarrow> payload \<Rightarrow> 'a shm_scheme \<Rightarrow> err + 'a shm_scheme" where
  "append_stream_data writer_id = append_slot_data (Stream writer_id)"

definition append_io_data :: "nat \<Rightarrow> payload \<Rightarrow> 'a shm_scheme \<Rightarrow> err + 'a shm_scheme" where
  "append_io_data io_slot = append_slot_data (Io io_slot)"

fun fan_out :: "nat list \<Rightarrow> payload \<Rightarrow> 'a shm_scheme \<Rightarrow> err + 'a shm_scheme" where
  "fan_out [] dat s = Inr s"
| "fan_out (slot # slots) dat s =
     (case append_stream_data slot dat s of Inl e \<Rightarrow> Inl e | Inr t \<Rightarrow> fan_out slots dat t)"

section \<open>Reading\<close>

text \<open>
  The position of a reader: current page, offset in that page, and the extent of the local
  mapping (\<open>LOCAL_CAPACITY\<close>), which the reader enlarges when a page lies outside it.
\<close>

record reader =
  r_page :: nat
  r_off :: nat
  r_cap :: nat

text \<open>
  The \<open>read_exact\<close> closure: \<open>None\<close> when it never returns, otherwise whether \<open>n\<close> bytes could
  be read, the bytes, and the new position.
\<close>

partial_function (option) read_exact ::
  "'a shm_scheme \<Rightarrow> nat \<Rightarrow> byte list \<Rightarrow> reader \<Rightarrow> (bool \<times> byte list \<times> reader) option" where
  "read_exact s n acc r =
     (if n = 0 then Some (True, acc, r)
      else if r_page r = 0 then Some (False, acc, r)
      else if r_cap r < wrap32 (r_page r + PAGE_SIZE)
              \<and> global_capacity s < wrap32 (r_page r + PAGE_SIZE) then Some (False, acc, r)
      else if cursor (mem s (r_page r)) - r_off r = 0
      then read_exact s n acc
             \<lparr>r_page = wrap32 (nxt s (r_page r)), r_off = 0,
              r_cap = (if r_cap r < wrap32 (r_page r + PAGE_SIZE) then global_capacity s else r_cap r)\<rparr>
      else read_exact s (n - min (cursor (mem s (r_page r)) - r_off r) n)
             (acc @ read_bytes (data (mem s (r_page r))) (r_off r)
                      (min (cursor (mem s (r_page r)) - r_off r) n))
             \<lparr>r_page = r_page r,
              r_off = wrap32 (r_off r + min (cursor (mem s (r_page r)) - r_off r) n),
              r_cap = (if r_cap r < wrap32 (r_page r + PAGE_SIZE) then global_capacity s else r_cap r)\<rparr>)"

text \<open>One iteration of the record loops: the record, or none, and the position after it.\<close>

definition read_record ::
  "'a shm_scheme \<Rightarrow> reader \<Rightarrow> (stream_record option \<times> reader) option" where
  "read_record s r =
     Option.bind (read_exact s 4 [] r) (\<lambda>(ok1, lb, r1).
       if \<not> ok1 then Some (None, r1)
       else Option.bind (read_exact s 4 [] r1) (\<lambda>(ok2, ob, r2).
         if \<not> ok2 then Some (None, r2)
         else Option.bind (read_exact s (from_le_bytes32 lb) [] r2) (\<lambda>(ok3, pl, r3).
           if \<not> ok3 then Some (None, r3)
           else Some (Some (from_le_bytes32 ob, pl), r3))))"

partial_function (option) read_all_loop ::
  "'a shm_scheme \<Rightarrow> stream_record list \<Rightarrow> reader \<Rightarrow> (stream_record list \<times> reader) option" where
  "read_all_loop s acc r =
     Option.bind (read_record s r) (\<lambda>(rec, r1).
       case rec of
         None \<Rightarrow> Some (acc, r1)
       | Some x \<Rightarrow> read_all_loop s (acc @ [x]) r1)"

partial_function (option) read_latest_loop ::
  "'a shm_scheme \<Rightarrow> stream_record option \<Rightarrow> reader \<Rightarrow> (stream_record option \<times> reader) option" where
  "read_latest_loop s latest r =
     Option.bind (read_record s r) (\<lambda>(rec, r1).
       case rec of
         None \<Rightarrow> Some (latest, r1)
       | Some x \<Rightarrow> read_latest_loop s (Some x) r1)"

partial_function (option) for_each_loop ::
  "'a shm_scheme \<Rightarrow> (stream_record \<Rightarrow> 'b \<Rightarrow> 'b) \<Rightarrow> 'b \<Rightarrow> reader \<Rightarrow> ('b \<times> reader) option" where
  "for_each_loop s f acc r =
     Option.bind (read_record s r) (\<lambda>(rec, r1).
       case rec of
         None \<Rightarrow> Some (acc, r1)
       | Some x \<Rightarrow> for_each_loop s f (f x acc) r1)"

definition start_reader :: "nat \<Rightarrow> 'a shm_scheme \<Rightarrow> reader" where
  "start_reader head s = \<lparr>r_page = head, r_off = 0, r_cap = local_capacity s\<rparr>"

definition with_reader :: "'a shm_scheme \<Rightarrow> ('b \<times> reader) option \<Rightarrow> ('b \<times> 'a shm_scheme) option" where
  "with_reader s = map_option (\<lambda>(x, r). (x, s\<lparr>local_capacity := r_cap r\<rparr>))"

definition chain_read_all ::
  "nat \<Rightarrow> 'a shm_scheme \<Rightarrow> (stream_record list \<times> 'a shm_scheme) option" where
  "chain_read_all head s =
     (if head = 0 then Some ([], s)
      else with_reader s (read_all_loop s [] (start_reader head s)))"

definition chain_read_latest ::
  "nat \<Rightarrow> 'a shm_scheme \<Rightarrow> (stream_record option \<times> 'a shm_scheme) option" where
  "chain_read_latest head s =
     (if head = 0 then Some (None, s)
      else with_reader s (read_latest_loop s None (start_reader head s)))"

definition chain_for_each ::
  "nat \<Rightarrow> (stream_record \<Rightarrow> 'b \<Rightarrow> 'b) \<Rightarrow> 'b \<Rightarrow> 'a shm_scheme \<Rightarrow> ('b \<times> 'a shm_scheme) option" where
  "chain_for_each head f acc s =
     (if head = 0 then Some (acc, s)
      else with_reader s (for_each_loop s f acc (start_reader head s)))"

text \<open>
  The slot-level readers index the head array (a panic out of range) and walk the chain from
  there.
\<close>

definition at_slot :: "slot \<Rightarrow> (nat \<Rightarrow> 'a shm_scheme \<Rightarrow> 'b option) \<Rightarrow> 'a shm_scheme \<Rightarrow> (err + 'b) option" where
  "at_slot sl f s =
     (if slot_in_range sl then map_option Inr (f (wrap32 (get_head sl s)) s)
      else Some (Inl (SlotOutOfRange (slot_index sl))))"

definition read_all_stream_records ::
  "nat \<Rightarrow> 'a shm_scheme \<Rightarrow> (err + stream_record list \<times> 'a shm_scheme) option" where
  "read_all_stream_records i = at_slot (Stream i) chain_read_all"

definition read_latest_stream_data ::
  "nat \<Rightarrow> 'a shm_scheme \<Rightarrow> (err + stream_record option \<times> 'a shm_scheme) option" where
  "read_latest_stream_data i = at_slot (Stream i) chain_read_latest"

definition for_each_stream_record ::
  "nat \<Rightarrow> (stream_record \<Rightarrow> 'b \<Rightarrow> 'b) \<Rightarrow> 'b \<Rightarrow> 'a shm_scheme \<Rightarrow> (err + 'b \<times> 'a shm_scheme) option" where
  "for_each_stream_record i f acc = at_slot (Stream i) (\<lambda>h. chain_for_each h f acc)"

definition read_all_io_records ::
  "nat \<Rightarrow> 'a shm_scheme \<Rightarrow> (err + stream_record list \<times> 'a shm_scheme) option" where
  "read_all_io_records i = at_slot (Io i) chain_read_all"

definition read_latest_io_data ::
  "nat \<Rightarrow> 'a shm_scheme \<Rightarrow> (err + stream_record option \<times> 'a shm_scheme) option" where
  "read_latest_io_data i = at_slot (Io i) chain_read_latest"

definition for_each_io_record ::
  "nat \<Rightarrow> (stream_record \<Rightarrow> 'b \<Rightarrow> 'b) \<Rightarrow> 'b \<Rightarrow> 'a shm_scheme \<Rightarrow> (err + 'b \<times> 'a shm_scheme) option" where
  "for_each_io_record i f acc = at_slot (Io i) (\<lambda>h. chain_for_each h f acc)"

section \<open>What a chain means\<close>

definition page_bytes :: "'a shm_scheme \<Rightarrow> nat \<Rightarrow> byte list" where
  "page_bytes s p = read_bytes (data (mem s p)) 0 (cursor (mem s p))"

definition chain_bytes :: "'a shm_scheme \<Rightarrow> nat list \<Rightarrow> byte list" where
  "chain_bytes s ps = concat (map (page_bytes s) ps)"

definition slot_chain :: "'a shm_scheme \<Rightarrow> slot \<Rightarrow> nat list \<Rightarrow> bool" where
  "slot_chain s sl ps \<longleftrightarrow> chain (nxt s) (get_head sl s) ps
     \<and> get_tail sl s = (if ps = [] then 0 else last ps)
     \<and> (\<forall>p \<in> set ps. p < 4294967296 \<and> cursor (mem s p) \<le> PAGE_DATA_SIZE)"

text \<open>The records of a byte string: the framing \<open>len | origin | payload\<close>, up to the first
  incomplete record.\<close>

function parse_records :: "byte list \<Rightarrow> stream_record list" where
  "parse_records bs =
     (if length bs < 8 \<or> length bs < 8 + from_le_bytes32 (take 4 bs) then []
      else (from_le_bytes32 (take 4 (drop 4 bs)), take (from_le_bytes32 (take 4 bs)) (drop 8 bs))
           # parse_records (drop (8 + from_le_bytes32 (take 4 bs)) bs))"
  by pat_completeness auto
termination by (relation "measure length") auto

declare parse_records.simps [simp del]

definition encode_record :: "stream_record \<Rightarrow> byte list" where
  "encode_record rec = concat (frame (fst rec) (snd rec))"

definition wf_record :: "stream_record \<Rightarrow> bool" where
  "wf_record rec \<longleftrightarrow> fst rec < 4294967296 \<and> length (snd rec) < 4294967296"

lemma parse_records_encode:
  assumes "wf_record rec"
  shows "parse_records (encode_record rec @ bs) = rec # parse_records bs"
  using assms
  by (subst parse_records.simps)
    (simp add: encode_record_def frame_def wf_record_def add.commute [of 8])

lemma parse_records_Nil [simp]: "parse_records [] = []"
  by (subst parse_records.simps) simp

lemma parse_records_concat:
  "list_all wf_record recs \<Longrightarrow>
   parse_records (concat (map encode_record recs) @ bs) = recs @ parse_records bs"
  by (induction recs) (simp_all add: parse_records_encode)

text \<open>Appending a frame after complete records appends one record.\<close>

definition complete :: "byte list \<Rightarrow> bool" where
  "complete bs \<longleftrightarrow> (\<exists>recs. list_all wf_record recs \<and> bs = concat (map encode_record recs))"

lemma complete_Nil [simp]: "complete []"
  unfolding complete_def by (rule exI [of _ "[]"]) simp

lemma complete_append_record:
  assumes "complete bs" "wf_record rec"
  shows "complete (bs @ encode_record rec)"
    "parse_records (bs @ encode_record rec) = parse_records bs @ [rec]"
proof -
  obtain recs where recs: "list_all wf_record recs" "bs = concat (map encode_record recs)"
    using assms(1) by (auto simp: complete_def)
  show "complete (bs @ encode_record rec)"
    unfolding complete_def by (rule exI [of _ "recs @ [rec]"]) (use recs assms(2) in simp)
  have "parse_records (bs @ encode_record rec) = recs @ [rec]"
    using parse_records_concat [OF recs(1), of "encode_record rec"]
      parse_records_encode [OF assms(2), of "[]"] recs(2) by simp
  moreover have "parse_records bs = recs"
    using parse_records_concat [OF recs(1), of "[]"] recs(2) by simp
  ultimately show "parse_records (bs @ encode_record rec) = parse_records bs @ [rec]" by simp
qed

section \<open>Basic lemmas on pages and slots\<close>

lemma slot_access [simp]:
  "get_head sl (set_head sl' v s) = (if sl = sl' then v else get_head sl s)"
  "get_tail sl (set_tail sl' v s) = (if sl = sl' then v else get_tail sl s)"
  "get_head sl (set_tail sl' v s) = get_head sl s"
  "get_tail sl (set_head sl' v s) = get_tail sl s"
  "mem (set_head sl v s) = mem s" "mem (set_tail sl v s) = mem s"
  "bump_allocator (set_head sl v s) = bump_allocator s"
  "bump_allocator (set_tail sl v s) = bump_allocator s"
  "free_list_heads (set_head sl v s) = free_list_heads s"
  "free_list_heads (set_tail sl v s) = free_list_heads s"
  "global_capacity (set_head sl v s) = global_capacity s"
  "global_capacity (set_tail sl v s) = global_capacity s"
  "local_capacity (set_head sl v s) = local_capacity s"
  "local_capacity (set_tail sl v s) = local_capacity s"
  "shm.more (set_head sl v s) = shm.more s" "shm.more (set_tail sl v s) = shm.more s"
  by (cases sl; cases sl'; simp)+

lemma upd_page_access [simp]:
  "get_head sl (upd_page p f s) = get_head sl s" "get_tail sl (upd_page p f s) = get_tail sl s"
  "bump_allocator (upd_page p f s) = bump_allocator s"
  "free_list_heads (upd_page p f s) = free_list_heads s"
  "global_capacity (upd_page p f s) = global_capacity s"
  "local_capacity (upd_page p f s) = local_capacity s"
  "mem (upd_page p f s) = (mem s)(p := f (mem s p))" "shm.more (upd_page p f s) = shm.more s"
  by (cases sl; simp add: upd_page_def)+

lemma same_slots_access:
  "same_slots s t \<Longrightarrow> get_head sl t = get_head sl s"
  "same_slots s t \<Longrightarrow> get_tail sl t = get_tail sl s"
  by (cases sl; simp add: same_slots_def)+

lemma chain_bytes_Nil [simp]: "chain_bytes s [] = []"
  and chain_bytes_Cons [simp]: "chain_bytes s (p # ps) = page_bytes s p @ chain_bytes s ps"
  and chain_bytes_append [simp]: "chain_bytes s (ps @ qs) = chain_bytes s ps @ chain_bytes s qs"
  by (simp_all add: chain_bytes_def)

lemma chain_bytes_cong:
  "(\<And>p. p \<in> set ps \<Longrightarrow> mem t p = mem s p) \<Longrightarrow> chain_bytes t ps = chain_bytes s ps"
  by (simp add: chain_bytes_def page_bytes_def cong: map_cong)

lemma slot_chain_cong:
  assumes "slot_chain s sl ps" "get_head sl t = get_head sl s" "get_tail sl t = get_tail sl s"
    and "\<And>p. p \<in> set ps \<Longrightarrow> mem t p = mem s p"
  shows "slot_chain t sl ps"
  using assms path_cong [of ps "nxt t" "nxt s"] by (simp add: slot_chain_def)

section \<open>Writers\<close>

lemma space_left_eq:
  "cursor (mem s p) \<le> PAGE_DATA_SIZE \<Longrightarrow> space_left s p = PAGE_DATA_SIZE - cursor (mem s p)"
proof -
  assume c: "cursor (mem s p) \<le> PAGE_DATA_SIZE"
  then have "PAGE_DATA_SIZE + 4294967296 - cursor (mem s p)
      = (PAGE_DATA_SIZE - cursor (mem s p)) + 4294967296" by simp
  moreover have "wrap32 (cursor (mem s p)) = cursor (mem s p)"
    using c PAGE_DATA_SIZE_less by simp
  moreover have "PAGE_DATA_SIZE - cursor (mem s p) < 4294967296"
    using PAGE_DATA_SIZE_less by simp
  ultimately show ?thesis by (simp only: space_left_def wrap32_def mod_add_self2 mod_less)
qed

lemma slot_chain_tail:
  assumes "slot_chain s sl ps" "ps \<noteq> []"
  shows "get_tail sl s = last ps" "0 < last ps" "last ps < 4294967296"
    "cursor (mem s (last ps)) \<le> PAGE_DATA_SIZE"
proof -
  have "0 \<notin> set ps" using assms(1) by (auto simp: slot_chain_def dest: path_nonnull)
  then show "0 < last ps" using last_in_set [OF assms(2)] by (metis not_gr_zero)
qed (use assms in \<open>auto simp: slot_chain_def\<close>)

lemma slot_chain_distinct: "slot_chain s sl ps \<Longrightarrow> distinct ps"
  by (auto simp: slot_chain_def dest: chain_distinct)

text \<open>Writing into the tail page extends the chain's bytes; linking a fresh page extends the
  chain and leaves its bytes alone.\<close>

lemma put_bytes_chain:
  assumes sc: "slot_chain s sl ps" and ne: "ps \<noteq> []"
    and len: "length bs \<le> PAGE_DATA_SIZE - cursor (mem s (last ps))"
  shows "slot_chain (put_bytes (last ps) bs s) sl ps"
    "chain_bytes (put_bytes (last ps) bs s) ps = chain_bytes s ps @ bs"
proof -
  obtain xs l where ps: "ps = xs @ [l]" using ne by (metis rev_exhaust)
  have cl: "cursor (mem s l) \<le> PAGE_DATA_SIZE" using sc ps by (simp add: slot_chain_def)
  have w: "wrap32 (cursor (mem s l) + length bs) = cursor (mem s l) + length bs"
    using len cl ps by (simp add: layout_consts)
  have l: "l \<notin> set xs"
    using slot_chain_distinct [OF sc] ps by simp
  have nx: "nxt (put_bytes l bs s) = nxt s"
    by (auto simp: put_bytes_def)
  show "slot_chain (put_bytes (last ps) bs s) sl ps"
  proof -
    have "chain (nxt (put_bytes l bs s)) (get_head sl s) ps"
      using sc unfolding nx by (simp add: slot_chain_def)
    moreover have "cursor (mem s l) + length bs \<le> PAGE_DATA_SIZE"
      using len cl ps by simp
    ultimately show ?thesis
      using sc ps w by (simp add: slot_chain_def put_bytes_def)
  qed
  have "chain_bytes (put_bytes l bs s) xs = chain_bytes s xs"
    by (rule chain_bytes_cong) (use l in \<open>auto simp: put_bytes_def\<close>)
  moreover have "page_bytes (put_bytes l bs s) l = page_bytes s l @ bs"
    by (simp add: page_bytes_def put_bytes_def w read_write_bytes_append)
  ultimately show "chain_bytes (put_bytes (last ps) bs s) ps = chain_bytes s ps @ bs"
    by (simp add: ps)
qed

lemma link_fresh_chain:
  fixes s :: "'a shm_scheme"
  assumes sc: "slot_chain s sl ps" and ne: "ps \<noteq> []"
    and p: "p \<notin> set ps" "0 < p" "p < 4294967296"
  defines "t \<equiv> set_tail sl p (link_page (last ps) p (reset_page p s))"
  shows "slot_chain t sl (ps @ [p])" "chain_bytes t (ps @ [p]) = chain_bytes s ps"
proof -
  have ch: "chain (nxt s) (get_head sl s) ps" using sc by (simp add: slot_chain_def)
  have pl: "p \<noteq> last ps" using p(1) ne by auto
  have nx: "nxt t = ((nxt s)(p := 0))(last ps := p)"
    using pl by (auto simp: t_def link_page_def reset_page_def)
  have "chain ((nxt s)(p := 0)) (get_head sl s) ps" using ch p(1) by simp
  then have "chain (nxt t) (get_head sl s) (ps @ [p])"
    unfolding nx by (rule path_snoc_upd) (use ne p pl in auto)
  then show "slot_chain t sl (ps @ [p])"
    using sc p pl ne by (auto simp: slot_chain_def t_def link_page_def reset_page_def)
  have "page_bytes t q = page_bytes s q" if "q \<in> set ps" for q
    using that p(1) by (auto simp: page_bytes_def t_def link_page_def reset_page_def)
  then have "chain_bytes t ps = chain_bytes s ps"
    by (simp add: chain_bytes_def cong: map_cong)
  moreover have "page_bytes t p = []"
    using pl by (simp add: page_bytes_def t_def link_page_def reset_page_def)
  ultimately show "chain_bytes t (ps @ [p]) = chain_bytes s ps" by simp
qed

text \<open>
  The contract of an append: \<open>appended fr s sl ps dat t\<close> says that \<open>t\<close> is \<open>s\<close> with the bytes
  \<open>dat\<close> added to the chain \<open>ps\<close> of slot \<open>sl\<close>, any new pages taken from the available ones
  \<open>fr s\<close>, and everything else (other slots, pages neither in the chain nor available) kept.
\<close>

definition appended ::
  "('a shm_scheme \<Rightarrow> nat set) \<Rightarrow> 'a shm_scheme \<Rightarrow> slot \<Rightarrow> nat list \<Rightarrow> byte list \<Rightarrow>
   'a shm_scheme \<Rightarrow> nat list \<Rightarrow> bool" where
  "appended fr s sl ps dat t qs \<longleftrightarrow> slot_chain t sl (ps @ qs)
     \<and> chain_bytes t (ps @ qs) = chain_bytes s ps @ dat
     \<and> set qs \<subseteq> fr s \<and> set (ps @ qs) \<inter> fr t = {} \<and> fr t \<subseteq> fr s
     \<and> (\<forall>sl'. sl' \<noteq> sl \<longrightarrow> get_head sl' t = get_head sl' s \<and> get_tail sl' t = get_tail sl' s)
     \<and> (\<forall>q. q \<notin> set ps \<longrightarrow> q \<notin> fr s \<longrightarrow> mem t q = mem s q)"

lemma appended_trans:
  assumes "appended fr s sl ps a t qs" "appended fr t sl (ps @ qs) b u rs"
  shows "appended fr s sl ps (a @ b) u (qs @ rs)"
proof -
  have "mem u q = mem s q" if "q \<notin> set ps" "q \<notin> fr s" for q
  proof -
    have "mem t q = mem s q" "q \<notin> fr t" "q \<notin> set (ps @ qs)"
      using assms(1) that by (auto simp: appended_def)
    then show ?thesis using assms(2) by (simp add: appended_def)
  qed
  then show ?thesis using assms by (auto simp: appended_def)
qed

lemma appended_Nil:
  "slot_chain s sl ps \<Longrightarrow> set ps \<inter> fr s = {} \<Longrightarrow> appended fr s sl ps [] s []"
  by (simp add: appended_def)

text \<open>Another slot's chain survives an append.\<close>

lemma appended_other:
  assumes "appended fr s sl ps dat t qs" "sl' \<noteq> sl" "slot_chain s sl' rs"
    and "set rs \<inter> (set ps \<union> fr s) = {}"
  shows "slot_chain t sl' rs" "chain_bytes t rs = chain_bytes s rs" "set rs \<inter> fr t = {}"
proof -
  have m: "mem t p = mem s p" if "p \<in> set rs" for p
    using assms(1,4) that by (auto simp: appended_def)
  show "slot_chain t sl' rs"
    by (rule slot_chain_cong [OF assms(3)]) (use assms(1,2) m in \<open>auto simp: appended_def\<close>)
  show "chain_bytes t rs = chain_bytes s rs" by (rule chain_bytes_cong) (rule m)
  show "set rs \<inter> fr t = {}" using assms(1,4) by (auto simp: appended_def)
qed

context page_allocator
begin

lemma take_fresh:
  assumes i: "inv s" and sc: "slot_chain s sl ps" and ne: "ps \<noteq> []" and d: "set ps \<inter> fresh s = {}"
    and al: "alloc s = Inr (p, s1)"
  defines "t \<equiv> set_tail sl p (link_page (last ps) p (reset_page p s1))"
  shows "inv t" "appended fresh s sl ps [] t [p]"
proof -
  note a = alloc_inv' [OF i al] alloc_fresh [OF i al] alloc_taken [OF i al] alloc_nonnull [OF i al]
    alloc_frame [OF i al]
  have p: "p \<notin> set ps" "p \<notin> fresh s1" using a(2,3) d by auto
  have sc1: "slot_chain s1 sl ps"
    by (rule slot_chain_cong [OF sc])
      (use a(5) alloc_mem [OF i al] d in \<open>auto simp: same_slots_access\<close>)
  have by1: "chain_bytes s1 ps = chain_bytes s ps"
    by (rule chain_bytes_cong) (use alloc_mem [OF i al] d in auto)
  have l: "last ps \<notin> fresh s1" using ne d a(3) by (meson Diff_iff disjoint_iff last_in_set subsetD)
  have it: "inv t \<and> fresh t = fresh s1"
    by (rule inv_cong [OF a(1)])
      (use p(2) l in \<open>auto simp: t_def link_page_def reset_page_def\<close>)
  then show "inv t" by simp
  have m: "mem t q = mem s q" if "q \<notin> set ps" "q \<notin> fresh s" for q
  proof -
    have "q \<noteq> p" "q \<noteq> last ps" using that a(2) ne by auto
    then show ?thesis using alloc_mem [OF i al that(2)]
      by (simp add: t_def link_page_def reset_page_def)
  qed
  have "slot_chain t sl (ps @ [p])" "chain_bytes t (ps @ [p]) = chain_bytes s ps"
    using link_fresh_chain [OF sc1 ne p(1)] a(4) by1 unfolding t_def by auto
  then show "appended fresh s sl ps [] t [p]"
    using a it p d m same_slots_access [OF a(5)] unfolding appended_def
    by (auto simp: t_def link_page_def reset_page_def)
qed

lemma append_loop_spec:
  assumes "inv s" "slot_chain s sl ps" "ps \<noteq> []" "set ps \<inter> fresh s = {}"
    and "append_loop alloc sl (last ps) dat s = Inr t"
  shows "inv t \<and> (\<exists>qs. appended fresh s sl ps dat t qs)"
  using assms
proof (induction "2 * length dat + (if space_left s (last ps) = 0 then 1 else 0)"
    arbitrary: dat s ps rule: less_induct)
  case less
  note prems = less.prems
  show ?case
  proof (cases "dat = []")
    case True
    then have "t = s" using prems(5) by (simp add: append_loop.simps [of alloc sl])
    then show ?thesis using appended_Nil [of s sl ps fresh, OF prems(2,4)] prems(1) True by blast
  next
    case ne: False
    note cl = slot_chain_tail(4) [OF prems(2,3)]
    show ?thesis
    proof (cases "space_left s (last ps) = 0")
      case True
      then obtain p s1 where al: "alloc s = Inr (p, s1)"
        and rec: "append_loop alloc sl p dat (set_tail sl p (link_page (last ps) p (reset_page p s1))) = Inr t"
        using prems(5) ne by (subst (asm) append_loop.simps) (auto split: sum.splits)
      let ?t = "set_tail sl p (link_page (last ps) p (reset_page p s1))"
      note tf = take_fresh [OF prems(1-4) al]
      have "inv t \<and> (\<exists>qs. appended fresh ?t sl (ps @ [p]) dat t qs)"
        by (rule less.hyps)
          (use True tf rec in \<open>auto simp: space_left_reset appended_def\<close>)
      then obtain rs where "inv t" "appended fresh s sl ps ([] @ dat) t ([p] @ rs)"
        using appended_trans [OF tf(2)] by blast
      then show ?thesis by auto
    next
      case False
      let ?k = "space_left s (last ps)"
      let ?t = "put_bytes (last ps) (take ?k dat) s"
      have k: "length (take ?k dat) \<le> PAGE_DATA_SIZE - cursor (mem s (last ps))"
        using space_left_eq [OF cl] by simp
      note pb = put_bytes_chain [OF prems(2,3) k]
      have l: "last ps \<notin> fresh s" using prems(3,4) by (meson disjoint_iff last_in_set)
      have it: "inv ?t \<and> fresh ?t = fresh s"
        by (rule inv_cong [OF prems(1)]) (use l in \<open>auto simp: put_bytes_def\<close>)
      have rec: "append_loop alloc sl (last ps) (drop ?k dat) ?t = Inr t"
        using prems(5) ne False by (subst (asm) append_loop.simps) simp
      have ap: "appended fresh s sl ps (take ?k dat) ?t []"
        using pb it prems(3,4) by (auto simp: appended_def put_bytes_def)
      have "inv t \<and> (\<exists>qs. appended fresh ?t sl ps (drop ?k dat) t qs)"
        by (rule less.hyps) (use False ne it pb prems rec in \<open>auto simp: neq_Nil_conv\<close>)
      then obtain rs where "inv t" "appended fresh s sl ps (take ?k dat @ drop ?k dat) t ([] @ rs)"
        using appended_trans [OF ap] by (metis append_Nil2)
      then show ?thesis by auto
    qed
  qed
qed

text \<open>The writer's guarantee, also for a slot that has no chain yet.\<close>

lemma append_with_spec:
  assumes i: "inv s" and sc: "slot_chain s sl ps" and d: "set ps \<inter> fresh s = {}"
    and ok: "append_with alloc sl dat s = Inr t"
  shows "inv t \<and> (\<exists>qs. appended fresh s sl ps dat t qs)"
proof (cases "ps = []")
  case False
  note tl = slot_chain_tail [OF sc False]
  then show ?thesis
    using append_loop_spec [OF i sc False d] ok by (simp add: append_with_def)
next
  case True
  then have h0: "get_tail sl s = 0" "get_head sl s = 0" using sc by (simp_all add: slot_chain_def)
  then obtain p s1 where al: "alloc s = Inr (p, s1)"
    and rec: "append_loop alloc sl p dat (set_tail sl p (set_head sl p (reset_page p s1))) = Inr t"
    using ok by (auto simp: append_with_def wrap32_def split: sum.splits)
  let ?t = "set_tail sl p (set_head sl p (reset_page p s1))"
  note a = alloc_inv' [OF i al] alloc_fresh [OF i al] alloc_taken [OF i al] alloc_nonnull [OF i al]
    alloc_frame [OF i al]
  have pf: "p \<notin> fresh s1" using a(3) by auto
  have it: "inv ?t \<and> fresh ?t = fresh s1"
    by (rule inv_cong [OF a(1)]) (use pf in \<open>auto simp: reset_page_def\<close>)
  have sct: "slot_chain ?t sl [p]"
    using a(4) by (simp add: slot_chain_def reset_page_def)
  have m: "mem ?t q = mem s q" if "q \<notin> fresh s" for q
    using alloc_mem [OF i al that] that a(2) by (auto simp: reset_page_def)
  have ap: "appended fresh s sl [] [] ?t [p]"
    using sct it a pf m same_slots_access [OF a(5)]
    by (auto simp: appended_def page_bytes_def reset_page_def)
  have "inv t \<and> (\<exists>qs. appended fresh ?t sl [p] dat t qs)"
    by (rule append_loop_spec) (use it sct pf rec in auto)
  then obtain rs where "inv t" "appended fresh s sl [] ([] @ dat) t ([p] @ rs)"
    using appended_trans [OF ap] by (metis append_Nil)
  then show ?thesis using True by auto
qed

lemma append_all_spec:
  assumes "inv s" "slot_chain s sl ps" "set ps \<inter> fresh s = {}"
    and "append_all (append_with alloc sl) bss s = Inr t"
  shows "inv t \<and> (\<exists>qs. appended fresh s sl ps (concat bss) t qs)"
  using assms
proof (induction bss arbitrary: s ps)
  case Nil
  then have "t = s" by simp
  with Nil appended_Nil [of s sl ps fresh, OF Nil.prems(2,3)] show ?case by auto
next
  case (Cons b bss)
  then obtain u where u: "append_with alloc sl b s = Inr u"
    and rec: "append_all (append_with alloc sl) bss u = Inr t"
    by (auto split: sum.splits)
  obtain qs where "inv u" and ap: "appended fresh s sl ps b u qs"
    using append_with_spec [OF Cons.prems(1-3) u] by blast
  then have "inv t \<and> (\<exists>rs. appended fresh u sl (ps @ qs) (concat bss) t rs)"
    using rec by (intro Cons.IH) (auto simp: appended_def)
  then obtain rs where "inv t" "appended fresh s sl ps (b @ concat bss) t (qs @ rs)"
    using appended_trans [OF ap] by blast
  then show ?case by auto
qed

end

text \<open>
  How many bytes a slot is guaranteed to accept: the space left in its tail page and the
  pages the allocator still guarantees.
\<close>

definition slot_room :: "('a shm_scheme \<Rightarrow> nat) \<Rightarrow> slot \<Rightarrow> 'a shm_scheme \<Rightarrow> nat" where
  "slot_room room sl s =
     (if get_tail sl s = 0 then 0 else space_left s (get_tail sl s)) + room s * PAGE_DATA_SIZE"

context total_page_allocator
begin

lemma append_loop_total:
  assumes "inv s" "slot_chain s sl ps" "ps \<noteq> []" "set ps \<inter> fresh s = {}"
    and "length dat \<le> space_left s (last ps) + room s * PAGE_DATA_SIZE"
  shows "\<exists>t. append_loop alloc sl (last ps) dat s = Inr t
    \<and> slot_room room sl s \<le> slot_room room sl t + length dat"
  using assms
proof (induction "2 * length dat + (if space_left s (last ps) = 0 then 1 else 0)"
    arbitrary: dat s ps rule: less_induct)
  case less
  note prems = less.prems
  note tl = slot_chain_tail [OF prems(2,3)]
  show ?case
  proof (cases "dat = []")
    case True
    then show ?thesis by (simp add: append_loop.simps [of alloc sl])
  next
    case ne: False
    show ?thesis
    proof (cases "space_left s (last ps) = 0")
      case True
      then have r: "0 < room s" using prems(5) ne by (cases "room s") auto
      then obtain p s1 where al: "alloc s = Inr (p, s1)" using alloc_total [OF prems(1)] by blast
      let ?t = "set_tail sl p (link_page (last ps) p (reset_page p s1))"
      note tf = take_fresh [OF prems(1-4) al]
      have rt: "room s \<le> Suc (room ?t)"
        using alloc_room [OF prems(1) al] room_cong [of ?t s1]
        by (simp add: link_page_def reset_page_def)
      then have "room s * PAGE_DATA_SIZE \<le> Suc (room ?t) * PAGE_DATA_SIZE" by (rule mult_le_mono1)
      then have le: "room s * PAGE_DATA_SIZE \<le> PAGE_DATA_SIZE + room ?t * PAGE_DATA_SIZE" by simp
      have sr: "slot_room room sl s \<le> slot_room room sl ?t"
        using le True tl alloc_nonnull [OF prems(1) al] by (simp add: slot_room_def space_left_reset)
      have "\<exists>t. append_loop alloc sl (last (ps @ [p])) dat ?t = Inr t
          \<and> slot_room room sl ?t \<le> slot_room room sl t + length dat"
        by (rule less.hyps)
          (use True tf le prems(5) in \<open>auto simp: space_left_reset appended_def\<close>)
      then show ?thesis
        using sr ne True al by (subst append_loop.simps) fastforce
    next
      case False
      let ?k = "space_left s (last ps)"
      let ?t = "put_bytes (last ps) (take ?k dat) s"
      have k: "length (take ?k dat) \<le> PAGE_DATA_SIZE - cursor (mem s (last ps))"
        using space_left_eq [OF tl(4)] by simp
      note pb = put_bytes_chain [OF prems(2,3) k]
      have l: "last ps \<notin> fresh s" using prems(3,4) by (meson disjoint_iff last_in_set)
      have it: "inv ?t \<and> fresh ?t = fresh s"
        by (rule inv_cong [OF prems(1)]) (use l in \<open>auto simp: put_bytes_def\<close>)
      have r: "room ?t = room s" by (rule room_cong) (simp_all add: put_bytes_def)
      have cur: "cursor (mem ?t (last ps)) = cursor (mem s (last ps)) + length (take ?k dat)"
        using k tl(4) PAGE_DATA_SIZE_less by (simp add: put_bytes_def)
      then have sp: "space_left ?t (last ps) = ?k - length (take ?k dat)"
        using slot_chain_tail(4) [OF pb(1) prems(3)] space_left_eq [OF tl(4)]
        by (simp add: space_left_eq)
      have "\<exists>t. append_loop alloc sl (last ps) (drop ?k dat) ?t = Inr t
          \<and> slot_room room sl ?t \<le> slot_room room sl t + length (drop ?k dat)"
        by (rule less.hyps) (use False ne it pb prems sp r in \<open>auto simp: neq_Nil_conv\<close>)
      moreover have "slot_room room sl s \<le> slot_room room sl ?t + length (take ?k dat)"
        using tl sp r by (simp add: slot_room_def put_bytes_def)
      ultimately show ?thesis
        using ne False by (subst append_loop.simps) (auto simp: min_def split: if_splits)
    qed
  qed
qed

lemma append_with_total:
  assumes i: "inv s" and sc: "slot_chain s sl ps" and d: "set ps \<inter> fresh s = {}"
    and len: "length dat \<le> slot_room room sl s" and ne: "dat \<noteq> [] \<or> ps \<noteq> []"
  shows "\<exists>t. append_with alloc sl dat s = Inr t
    \<and> slot_room room sl s \<le> slot_room room sl t + length dat"
proof (cases "ps = []")
  case False
  note tl = slot_chain_tail [OF sc False]
  show ?thesis
    using append_loop_total [OF i sc False d] len tl by (simp add: append_with_def slot_room_def)
next
  case True
  then have h0: "get_tail sl s = 0" using sc by (simp add: slot_chain_def)
  then have "0 < room s" using len ne True by (cases "room s") (auto simp: slot_room_def)
  then obtain p s1 where al: "alloc s = Inr (p, s1)" using alloc_total [OF i] by blast
  let ?t = "set_tail sl p (set_head sl p (reset_page p s1))"
  note a = alloc_inv' [OF i al] alloc_taken [OF i al] alloc_nonnull [OF i al]
  have pf: "p \<notin> fresh s1" using a(2) by auto
  have it: "inv ?t \<and> fresh ?t = fresh s1"
    by (rule inv_cong [OF a(1)]) (use pf in \<open>auto simp: reset_page_def\<close>)
  have sct: "slot_chain ?t sl [p]"
    using a(3) by (simp add: slot_chain_def reset_page_def)
  have sp: "space_left ?t p = PAGE_DATA_SIZE"
    using space_left_eq [of ?t p] by (simp add: reset_page_def)
  have "room s \<le> Suc (room ?t)"
    using alloc_room [OF i al] room_cong [of ?t s1] by (simp add: reset_page_def)
  then have "room s * PAGE_DATA_SIZE \<le> Suc (room ?t) * PAGE_DATA_SIZE" by (rule mult_le_mono1)
  then have sr: "slot_room room sl s \<le> slot_room room sl ?t"
    using a(3) by (simp add: slot_room_def h0 sp)
  have "\<exists>t. append_loop alloc sl (last [p]) dat ?t = Inr t
      \<and> slot_room room sl ?t \<le> slot_room room sl t + length dat"
    by (rule append_loop_total)
      (use it sct pf sp sr len a(3) in \<open>auto simp: slot_room_def\<close>)
  then show ?thesis using al h0 sr by (auto simp: append_with_def wrap32_def)
qed

lemma append_all_total:
  assumes "inv s" "slot_chain s sl ps" "set ps \<inter> fresh s = {}"
    and "length (concat bss) \<le> slot_room room sl s" "bss = [] \<or> hd bss \<noteq> [] \<or> ps \<noteq> []"
  shows "\<exists>t. append_all (append_with alloc sl) bss s = Inr t
    \<and> slot_room room sl s \<le> slot_room room sl t + length (concat bss)"
  using assms
proof (induction bss arbitrary: s ps)
  case Nil
  then show ?case by simp
next
  case (Cons b bss)
  have len: "length b \<le> slot_room room sl s" using Cons.prems(4) by simp
  obtain u where u: "append_with alloc sl b s = Inr u"
    and sr: "slot_room room sl s \<le> slot_room room sl u + length b"
    using append_with_total [OF Cons.prems(1-3) len] Cons.prems(5) by auto
  obtain qs where "inv u" and ap: "appended fresh s sl ps b u qs"
    using append_with_spec [OF Cons.prems(1-3) u] by blast
  moreover have "ps @ qs \<noteq> []"
  proof
    assume "ps @ qs = []"
    then have "b = []" "ps = []" using ap by (auto simp: appended_def)
    then show False using Cons.prems(5) by simp
  qed
  ultimately have "\<exists>t. append_all (append_with alloc sl) bss u = Inr t
      \<and> slot_room room sl u \<le> slot_room room sl t + length (concat bss)"
    using sr Cons.prems(4) by (intro Cons.IH [of u "ps @ qs"]) (auto simp: appended_def)
  then show ?case using u sr by auto
qed

end

section \<open>Readers\<close>

text \<open>
  A reader in the middle of a chain: the pages still ahead of it (starting with its current
  page) are a chain inside the region's capacity, and its offset is within what the current
  page holds. The bytes still to be read are the rest of the chain's bytes.
\<close>

definition reader_ok :: "'a shm_scheme \<Rightarrow> reader \<Rightarrow> nat list \<Rightarrow> bool" where
  "reader_ok s r ps \<longleftrightarrow> chain (nxt s) (r_page r) ps
     \<and> (\<forall>p \<in> set ps. p + PAGE_SIZE \<le> global_capacity s \<and> p + PAGE_SIZE < 4294967296
           \<and> cursor (mem s p) \<le> PAGE_DATA_SIZE)
     \<and> (ps \<noteq> [] \<longrightarrow> r_off r \<le> cursor (mem s (hd ps)))"

definition rest :: "'a shm_scheme \<Rightarrow> reader \<Rightarrow> nat list \<Rightarrow> byte list" where
  "rest s r ps = drop (r_off r) (chain_bytes s ps)"

lemma length_page_bytes [simp]: "length (page_bytes s p) = cursor (mem s p)"
  by (simp add: page_bytes_def)

lemma rest_Cons:
  "r_off r \<le> cursor (mem s p) \<Longrightarrow>
   rest s r (p # ps) = read_bytes (data (mem s p)) (r_off r) (cursor (mem s p) - r_off r)
     @ chain_bytes s ps"
  by (simp add: rest_def page_bytes_def drop_read_bytes)

lemma reader_ok_next:
  assumes "reader_ok s r (p # ps)"
  shows "reader_ok s \<lparr>r_page = wrap32 (nxt s p), r_off = 0, r_cap = c\<rparr> ps"
    and "rest s \<lparr>r_page = wrap32 (nxt s p), r_off = 0, r_cap = c\<rparr> ps = chain_bytes s ps"
proof -
  have c: "chain (nxt s) (nxt s p) ps" using assms by (simp add: reader_ok_def)
  have "nxt s p < 4294967296"
    using chain_hd [OF c] assms by (cases ps) (auto simp: reader_ok_def)
  with c assms show "reader_ok s \<lparr>r_page = wrap32 (nxt s p), r_off = 0, r_cap = c\<rparr> ps"
    by (simp add: reader_ok_def)
qed (simp add: rest_def)

lemma read_exact_step:
  assumes "reader_ok s r (p # ps)" "n \<noteq> 0"
  shows "\<exists>c. read_exact s n acc r =
    (if cursor (mem s p) \<le> r_off r
     then read_exact s n acc \<lparr>r_page = wrap32 (nxt s p), r_off = 0, r_cap = c\<rparr>
     else read_exact s (n - min (cursor (mem s p) - r_off r) n)
       (acc @ read_bytes (data (mem s p)) (r_off r) (min (cursor (mem s p) - r_off r) n))
       \<lparr>r_page = p, r_off = r_off r + min (cursor (mem s p) - r_off r) n, r_cap = c\<rparr>)"
proof -
  have p: "r_page r = p" "p \<noteq> 0" "wrap32 (p + PAGE_SIZE) = p + PAGE_SIZE"
    "p + PAGE_SIZE \<le> global_capacity s" "cursor (mem s p) \<le> PAGE_DATA_SIZE"
    "r_off r \<le> cursor (mem s p)"
    using assms(1) by (auto simp: reader_ok_def)
  then have "wrap32 (r_off r + min (cursor (mem s p) - r_off r) n)
      = r_off r + min (cursor (mem s p) - r_off r) n"
    using PAGE_DATA_SIZE_less by simp
  then show ?thesis
    using p assms(2)
    by (intro exI [of _ "if r_cap r < p + PAGE_SIZE then global_capacity s else r_cap r"])
      (subst read_exact.simps, simp)
qed

lemma read_exact_0 [simp]: "read_exact s 0 acc r = Some (True, acc, r)"
  by (simp add: read_exact.simps)

definition reads_to ::
  "nat set \<Rightarrow> 'a shm_scheme \<Rightarrow> nat \<Rightarrow> byte list \<Rightarrow> byte list \<Rightarrow> (bool \<times> byte list \<times> reader) option \<Rightarrow> bool" where
  "reads_to P s n acc bs res \<longleftrightarrow>
     (if n \<le> length bs
      then \<exists>r' ps'. res = Some (True, acc @ take n bs, r') \<and> reader_ok s r' ps' \<and> set ps' \<subseteq> P
             \<and> rest s r' ps' = drop n bs
      else \<exists>acc' r'. res = Some (False, acc', r'))"

lemma reads_to_shift:
  "reads_to P s (n - length xs) (acc @ xs) bs res \<Longrightarrow> length xs \<le> n \<Longrightarrow> reads_to P s n acc (xs @ bs) res"
  by (auto simp: reads_to_def split: if_splits)

text \<open>
  \<open>read_exact\<close> always returns on a chain; it delivers the next \<open>n\<close> bytes of the chain when
  there are that many, across any page boundaries, and reports failure otherwise. The reader stays on the
  pages of the chain.
\<close>

lemma read_exact_spec:
  "reader_ok s r ps \<Longrightarrow> set ps \<subseteq> P \<Longrightarrow> reads_to P s n acc (rest s r ps) (read_exact s n acc r)"
proof (induction ps arbitrary: r n acc)
  case Nil
  then show ?case
    by (cases "n = 0") (auto simp: reads_to_def reader_ok_def rest_def read_exact.simps [of s n])
next
  case (Cons p ps)
  show ?case
  proof (cases "n = 0")
    case True
    then show ?thesis using Cons.prems by (simp add: reads_to_def exI [of _ "p # ps"])
  next
    case n: False
    have off: "r_off r \<le> cursor (mem s p)" and sub: "set ps \<subseteq> P" using Cons.prems by (simp_all add: reader_ok_def)
    let ?av = "cursor (mem s p) - r_off r"
    let ?dat = "data (mem s p)"
    obtain c where step: "read_exact s n acc r =
      (if cursor (mem s p) \<le> r_off r
       then read_exact s n acc \<lparr>r_page = wrap32 (nxt s p), r_off = 0, r_cap = c\<rparr>
       else read_exact s (n - min ?av n) (acc @ read_bytes ?dat (r_off r) (min ?av n))
         \<lparr>r_page = p, r_off = r_off r + min ?av n, r_cap = c\<rparr>)"
      using read_exact_step [OF Cons.prems(1) n] by blast
    have rst: "rest s r (p # ps) = read_bytes ?dat (r_off r) ?av @ chain_bytes s ps"
      using off by (rule rest_Cons)
    have nx: "reads_to P s m a (chain_bytes s ps)
        (read_exact s m a \<lparr>r_page = wrap32 (nxt s p), r_off = 0, r_cap = c'\<rparr>)" for m a c'
      using Cons.IH [OF reader_ok_next(1) [OF Cons.prems(1), of c'] sub, of m a]
      unfolding reader_ok_next(2) [OF Cons.prems(1), of c'] .
    let ?r = "\<lparr>r_page = p, r_off = r_off r + min ?av n, r_cap = c\<rparr>"
    have ok: "reader_ok s ?r (p # ps)"
      using Cons.prems off by (auto simp: reader_ok_def)
    consider "cursor (mem s p) \<le> r_off r" | "n \<le> ?av" "r_off r < cursor (mem s p)"
      | "?av < n" "r_off r < cursor (mem s p)" by linarith
    then show ?thesis
    proof cases
      case 1
      then show ?thesis using step nx rst by simp
    next
      case 2
      then have "read_exact s n acc r = Some (True, acc @ read_bytes ?dat (r_off r) n, ?r)"
        using step by simp
      moreover have "rest s ?r (p # ps) = drop n (rest s r (p # ps))"
        using 2 by (simp add: rest_def add.commute)
      ultimately show ?thesis using ok 2 Cons.prems(2) by (auto simp: rst take_read_bytes reads_to_def intro!: exI [of _ "p # ps"])
    next
      case 3
      let ?acc = "acc @ read_bytes ?dat (r_off r) ?av"
      have n': "n - ?av \<noteq> 0" using 3 by simp
      obtain c' where "read_exact s (n - ?av) ?acc ?r
          = read_exact s (n - ?av) ?acc \<lparr>r_page = wrap32 (nxt s p), r_off = 0, r_cap = c'\<rparr>"
        using read_exact_step [OF ok n', of ?acc] 3 off by auto
      then have "read_exact s n acc r
          = read_exact s (n - ?av) ?acc \<lparr>r_page = wrap32 (nxt s p), r_off = 0, r_cap = c'\<rparr>"
        using step 3 by (simp add: min_def)
      moreover have "reads_to P s n acc (read_bytes ?dat (r_off r) ?av @ chain_bytes s ps)
          (read_exact s (n - ?av) ?acc \<lparr>r_page = wrap32 (nxt s p), r_off = 0, r_cap = c'\<rparr>)"
        by (rule reads_to_shift) (use 3 nx in auto)
      ultimately show ?thesis by (simp add: rst)
    qed
  qed
qed

lemma read_exact_cases:
  assumes "reader_ok s r ps"
  obtains (full) r' ps' where "n \<le> length (rest s r ps)"
      "read_exact s n acc r = Some (True, acc @ take n (rest s r ps), r')"
      "reader_ok s r' ps'" "rest s r' ps' = drop n (rest s r ps)" "set ps' \<subseteq> set ps"
  | (short) acc' r' where "length (rest s r ps) < n" "read_exact s n acc r = Some (False, acc', r')"
  using read_exact_spec [OF assms order_refl, of n acc] by (auto simp: reads_to_def split: if_splits)

text \<open>One record is read exactly when the remaining bytes begin with a complete one.\<close>

lemma read_record_spec:
  assumes ok: "reader_ok s r ps"
  shows "(parse_records (rest s r ps) = [] \<and> (\<exists>r'. read_record s r = Some (None, r')))
    \<or> (\<exists>x xs r' ps'. parse_records (rest s r ps) = x # xs \<and> read_record s r = Some (Some x, r')
        \<and> reader_ok s r' ps' \<and> parse_records (rest s r' ps') = xs \<and> set ps' \<subseteq> set ps)"
  using ok
proof (cases rule: read_exact_cases [where n = 4 and acc = "[]"])
  case (short acc' r')
  then show ?thesis by (subst parse_records.simps) (simp add: read_record_def)
next
  case (full r1 ps1)
  note f1 = full
  let ?bs = "rest s r ps" and ?n = "from_le_bytes32 (take 4 (rest s r ps))"
  from full(3) show ?thesis
  proof (cases rule: read_exact_cases [where n = 4 and acc = "[]"])
    case (short acc' r')
    have "length ?bs < 8" using short(1) f1 by simp
    moreover have "read_record s r = Some (None, r')"
      using f1(2) short(2) by (simp add: read_record_def)
    ultimately show ?thesis by (subst parse_records.simps) simp
  next
    case (full r2 ps2)
    note f2 = full
    from full(3) show ?thesis
    proof (cases rule: read_exact_cases [where n = ?n and acc = "[]"])
      case (short acc' r')
      then have "read_record s r = Some (None, r')" using f1(2) f2(2) by (simp add: read_record_def)
      moreover have "length ?bs < 8 + ?n" using short(1) f1 f2 by simp
      ultimately show ?thesis by (subst parse_records.simps) simp
    next
      case (full r3 ps3)
      let ?x = "(from_le_bytes32 (take 4 (drop 4 ?bs)), take ?n (drop 8 ?bs))"
      have "read_record s r = Some (Some ?x, r3)"
        using f1 f2 full by (simp add: read_record_def)
      moreover have "8 \<le> length ?bs" "8 + ?n \<le> length ?bs" using f1 f2 full(1) by simp_all
      then have "parse_records ?bs = ?x # parse_records (rest s r3 ps3)"
        using f1 f2 full by (subst parse_records.simps) (simp add: add.commute)
      ultimately show ?thesis using full(3,5) f1(5) f2(5) by blast
    qed
  qed
qed

text \<open>The three record loops compute the parse of the remaining bytes, its last element, and
  the fold of the callback over it.\<close>

lemma record_loops:
  assumes "reader_ok s r ps"
  shows "(\<exists>r'. read_all_loop s acc r = Some (acc @ parse_records (rest s r ps), r'))
    \<and> (\<exists>r'. for_each_loop s f b r = Some (fold f (parse_records (rest s r ps)) b, r'))
    \<and> (\<exists>r'. read_latest_loop s l r
          = Some (if parse_records (rest s r ps) = [] then l else Some (last (parse_records (rest s r ps))), r'))"
  using assms
proof (induction "parse_records (rest s r ps)" arbitrary: r ps acc b l)
  case Nil
  then obtain r' where "read_record s r = Some (None, r')"
    using read_record_spec [OF Nil.prems] by auto
  then show ?case
    using Nil.hyps by (simp add: read_all_loop.simps [of s acc r] for_each_loop.simps [of s f b r]
        read_latest_loop.simps [of s l r])
next
  case (Cons x xs)
  then obtain r' ps' where r': "read_record s r = Some (Some x, r')" "reader_ok s r' ps'"
    "parse_records (rest s r' ps') = xs"
    using read_record_spec [OF Cons.prems] by auto
  from Cons.hyps(1) [OF r'(3) [symmetric] r'(2), of "acc @ [x]" "f x b" "Some x"]
  show ?case
    using r'(1,3) Cons.hyps(2) [symmetric]
    by (auto simp: read_all_loop.simps [of s acc r] for_each_loop.simps [of s f b r]
        read_latest_loop.simps [of s l r])
qed

end
