(* ===== verification/Record_Store.thy ===== *)
theory Record_Store
  imports Page_Chain
begin

text \<open>
  The record store that the slots of a region promise to their users: every slot is a list
  of records, an append adds one record at the end of one slot, readers return the list.
  The relation \<open>stores s R\<close> ties a region to the abstract store \<open>R\<close>; the guest operations of
  \<open>Page_Chain\<close> refine the abstract ones, one at a time and in any interleaving.
\<close>

section \<open>The abstraction relation\<close>

text \<open>
  \<open>C\<close> gives every slot its pages: disjoint chains of page-aligned heap pages that are not
  available for allocation, each holding complete records.
\<close>

definition chains :: "'a shm_scheme \<Rightarrow> (slot \<Rightarrow> nat list) \<Rightarrow> bool" where
  "chains s C \<longleftrightarrow> guest_inv s
     \<and> (\<forall>sl. slot_chain s sl (C sl) \<and> complete (chain_bytes s (C sl))
          \<and> set (C sl) \<inter> avail s = {}
          \<and> (\<forall>p \<in> set (C sl). BUMP_ALLOCATOR_START \<le> p \<and> PAGE_SIZE dvd p))
     \<and> (\<forall>sl sl'. sl \<noteq> sl' \<longrightarrow> set (C sl) \<inter> set (C sl') = {})"

definition stores :: "'a shm_scheme \<Rightarrow> (slot \<Rightarrow> stream_record list) \<Rightarrow> bool" where
  "stores s R \<longleftrightarrow> (\<exists>C. chains s C \<and> R = (\<lambda>sl. parse_records (chain_bytes s (C sl))))"

lemma avail_aligned: "alloc_inv s \<Longrightarrow> p \<in> avail s \<Longrightarrow> BUMP_ALLOCATOR_START \<le> p \<and> PAGE_SIZE dvd p"
proof -
  assume a: "alloc_inv s" "p \<in> avail s"
  then obtain F where F: "free_lists s F" and b: "bump_ok s" by (auto simp: alloc_inv_def)
  from a(2) show ?thesis
  proof (cases "p \<in> free_pages s")
    case True
    then show ?thesis by (auto simp: free_pages_eq [OF F] heap_page_def dest: free_listsD(2) [OF F])
  next
    case False
    then show ?thesis using a(2) b by (auto simp: avail_def bump_ok_def)
  qed
qed

text \<open>A page that is aligned and not available lies inside the file.\<close>

lemma taken_in_file:
  assumes "guest_inv s" "PAGE_SIZE dvd p" "p \<notin> avail s"
  shows "p + PAGE_SIZE \<le> global_capacity s" "p + PAGE_SIZE < 4294967296"
proof -
  have "p < bump_allocator s" using assms(2,3) by (auto simp: avail_def)
  moreover have "PAGE_SIZE dvd bump_allocator s" "bump_allocator s \<le> global_capacity s"
    "global_capacity s \<le> CAPACITY_HARD_LIMIT"
    using assms(1) by (auto simp: guest_inv_def alloc_inv_def bump_ok_def cap_ok_def)
  ultimately show "p + PAGE_SIZE \<le> global_capacity s" "p + PAGE_SIZE < 4294967296"
    using aligned_less [OF assms(2)] by (fastforce simp: layout_consts)+
qed

lemma stores_format: "stores format_shared_memory (\<lambda>_. [])"
proof -
  have "slot_chain format_shared_memory sl []" for sl
    by (cases sl) (simp_all add: slot_chain_def format_shared_memory_def)
  then have "chains format_shared_memory (\<lambda>_. [])"
    by (simp add: chains_def guest_inv_format)
  then show ?thesis by (auto simp: stores_def)
qed

section \<open>Appends refine the abstract append\<close>

text \<open>An allocator whose pages come from the heap of the region; the guest's is one, the host's another.\<close>

locale heap_allocator = page_allocator alloc inv avail
  for alloc :: "'a shm_scheme \<Rightarrow> err + nat \<times> 'a shm_scheme" and inv :: "'a shm_scheme \<Rightarrow> bool" +
  assumes inv_guest: "inv s \<Longrightarrow> guest_inv s"
begin

lemma append_frames_chains:
  assumes C: "chains s C" and wf: "wf_record (origin, pl)"
    and iv: "inv s" and ok: "append_all (append_with alloc sl) (frame origin pl) s = Inr t"
  shows "inv t \<and> (\<exists>qs. chains t (C(sl := C sl @ qs))
    \<and> chain_bytes t (C sl @ qs) = chain_bytes s (C sl) @ encode_record (origin, pl)
    \<and> (\<forall>sl'. sl' \<noteq> sl \<longrightarrow> get_head sl' t = get_head sl' s)
    \<and> (\<forall>sl' p. sl' \<noteq> sl \<longrightarrow> p \<in> set (C sl') \<longrightarrow> mem t p = mem s p))"
proof -
  have i: "guest_inv s" and c: "\<And>sl. slot_chain s sl (C sl)" "\<And>sl. complete (chain_bytes s (C sl))"
    "\<And>sl. set (C sl) \<inter> avail s = {}"
    "\<And>sl p. p \<in> set (C sl) \<Longrightarrow> BUMP_ALLOCATOR_START \<le> p \<and> PAGE_SIZE dvd p"
    "\<And>sl sl'. sl \<noteq> sl' \<Longrightarrow> set (C sl) \<inter> set (C sl') = {}"
    using C by (auto simp: chains_def)
  obtain qs where jt: "inv t"
    and ap: "appended avail s sl (C sl) (encode_record (origin, pl)) t qs"
    using append_all_spec [OF iv c(1) c(3) ok] by (auto simp: encode_record_def)
  have it: "guest_inv t" by (rule inv_guest [OF jt])
  let ?C = "C(sl := C sl @ qs)"
  have here: "slot_chain t sl (C sl @ qs)"
    "chain_bytes t (C sl @ qs) = chain_bytes s (C sl) @ encode_record (origin, pl)"
    "set qs \<subseteq> avail s" "set (C sl @ qs) \<inter> avail t = {}"
    using ap by (simp_all add: appended_def)
  have disj: "set (C sl') \<inter> (set (C sl) \<union> avail s) = {}" if "sl' \<noteq> sl" for sl'
    using c(3) c(5) [OF that] by blast
  note other = appended_other [OF ap _ c(1) disj]
  have al: "BUMP_ALLOCATOR_START \<le> p \<and> PAGE_SIZE dvd p" if "p \<in> set qs" for p
    using avail_aligned [of s p] i here(3) that by (auto simp: guest_inv_def)
  have "slot_chain t sl' (?C sl') \<and> complete (chain_bytes t (?C sl')) \<and> set (?C sl') \<inter> avail t = {}
      \<and> (\<forall>p \<in> set (?C sl'). BUMP_ALLOCATOR_START \<le> p \<and> PAGE_SIZE dvd p)" for sl'
  proof (cases "sl' = sl")
    case True
    then show ?thesis using here complete_append_record(1) [OF c(2) wf, of sl] c(4) [of _ sl] al by auto
  next
    case False
    then show ?thesis using other [OF False False] c(2,4) by simp
  qed
  moreover have "set (?C a) \<inter> set (?C b) = {}" if "a \<noteq> b" for a b
    using c(3) [of a] c(3) [of b] c(5) [OF that] here(3) that by auto
  ultimately have "chains t ?C" using it unfolding chains_def by blast
  moreover have "mem t p = mem s p" if "sl' \<noteq> sl" "p \<in> set (C sl')" for sl' p
    using ap disj [OF that(1)] that(2) by (auto simp: appended_def)
  ultimately show ?thesis using jt here(2) ap by (auto simp: appended_def)
qed

lemma append_frames_stores:
  assumes C: "chains s C" and wf: "wf_record (origin, pl)"
    and iv: "inv s" and ok: "append_all (append_with alloc sl) (frame origin pl) s = Inr t"
  shows "inv t \<and> stores t ((\<lambda>sl. parse_records (chain_bytes s (C sl)))
    (sl := parse_records (chain_bytes s (C sl)) @ [(origin, pl)]))"
proof -
  let ?R = "\<lambda>sl. parse_records (chain_bytes s (C sl))"
  obtain qs where it: "inv t" and ct: "chains t (C(sl := C sl @ qs))"
    and bytes: "chain_bytes t (C sl @ qs) = chain_bytes s (C sl) @ encode_record (origin, pl)"
    and m: "\<And>sl' p. sl' \<noteq> sl \<Longrightarrow> p \<in> set (C sl') \<Longrightarrow> mem t p = mem s p"
    using append_frames_chains [OF assms] by blast
  have "complete (chain_bytes s (C sl))" using C by (simp add: chains_def)
  note cr = complete_append_record(2) [OF this wf]
  have "parse_records (chain_bytes t ((C(sl := C sl @ qs)) sl')) = (?R(sl := ?R sl @ [(origin, pl)])) sl'" for sl'
    using bytes cr chain_bytes_cong [of "C sl'" t s] m by (cases "sl' = sl") auto
  then show ?thesis using it ct unfolding stores_def by (intro conjI exI [of _ "C(sl := C sl @ qs)"]) (simp_all add: fun_eq_iff)
qed

end

interpretation guest: heap_allocator try_allocate_page guest_inv
  by unfold_locales

lemma append_slot_data_stores:
  assumes "stores s R" "append_slot_data sl pl s = Inr t" "length pl < 4294967296"
  shows "stores t (R(sl := R sl @ [(slot_index sl, pl)]))"
proof -
  obtain C where C: "chains s C" "R = (\<lambda>sl. parse_records (chain_bytes s (C sl)))"
    using assms(1) by (auto simp: stores_def)
  have r: "slot_in_range sl" "chain_append_prefixed sl (slot_index sl) pl s = Inr t"
    using assms(2) by (auto simp: append_slot_data_def split: if_splits)
  then have "wf_record (slot_index sl, pl)"
    using assms(3) by (cases sl) (auto simp: wf_record_def layout_consts)
  from guest.append_frames_stores [OF C(1) this] r(2) C(1) show ?thesis
    by (simp add: C(2) chains_def chain_append_prefixed_def chain_append_raw_def)
qed


section \<open>Readers return the abstract records\<close>

text \<open>A reader only ever replaces its capacity by the region's.\<close>

definition cap_step :: "'a shm_scheme \<Rightarrow> reader \<Rightarrow> reader \<Rightarrow> bool" where
  "cap_step s r r' \<longleftrightarrow> r_cap r' = r_cap r \<or> r_cap r' = global_capacity s"

lemma cap_step_refl [simp]: "cap_step s r r"
  by (simp add: cap_step_def)

lemma cap_step_trans: "cap_step s r r' \<Longrightarrow> cap_step s r' r'' \<Longrightarrow> cap_step s r r''"
  by (auto simp: cap_step_def)

lemma read_exact_cap:
  assumes "read_exact s n acc r = Some res"
  shows "cap_step s r (snd (snd res))"
proof (rule read_exact.raw_induct [where P = "\<lambda>s n acc r res. cap_step s r (snd (snd res))", OF _ assms])
  fix rd :: "'a shm_scheme \<Rightarrow> nat \<Rightarrow> byte list \<Rightarrow> reader \<Rightarrow> (bool \<times> byte list \<times> reader) option"
  fix s :: "'a shm_scheme" and n acc r res
  assume IH: "\<And>s n acc r y. rd s n acc r = Some y \<Longrightarrow> cap_step s r (snd (snd y))"
  show "(if n = 0 then Some (True, acc, r)
      else if r_page r = 0 then Some (False, acc, r)
      else if r_cap r < wrap32 (r_page r + PAGE_SIZE)
              \<and> global_capacity s < wrap32 (r_page r + PAGE_SIZE) then Some (False, acc, r)
      else if cursor (mem s (r_page r)) - r_off r = 0
      then rd s n acc
             \<lparr>r_page = wrap32 (nxt s (r_page r)), r_off = 0,
              r_cap = (if r_cap r < wrap32 (r_page r + PAGE_SIZE) then global_capacity s else r_cap r)\<rparr>
      else rd s (n - min (cursor (mem s (r_page r)) - r_off r) n)
             (acc @ read_bytes (data (mem s (r_page r))) (r_off r)
                      (min (cursor (mem s (r_page r)) - r_off r) n))
             \<lparr>r_page = r_page r,
              r_off = wrap32 (r_off r + min (cursor (mem s (r_page r)) - r_off r) n),
              r_cap = (if r_cap r < wrap32 (r_page r + PAGE_SIZE) then global_capacity s else r_cap r)\<rparr>)
      = Some res \<Longrightarrow> cap_step s r (snd (snd res))"
    by (auto split: if_splits dest!: IH simp: cap_step_def)
qed

lemma read_record_cap: "read_record s r = Some res \<Longrightarrow> cap_step s r (snd res)"
  by (auto simp: read_record_def bind_eq_Some_conv cap_step_def split: if_splits prod.splits
      dest!: read_exact_cap)

lemma for_each_cap:
  assumes "for_each_loop s f b r = Some res"
  shows "cap_step s r (snd res)"
  by (rule for_each_loop.raw_induct [where P = "\<lambda>s f b r res. cap_step s r (snd res)", OF _ assms])
    (auto simp: bind_eq_Some_conv split: option.splits dest!: read_record_cap, blast intro: cap_step_trans)

lemma read_all_cap:
  assumes "read_all_loop s acc r = Some res"
  shows "cap_step s r (snd res)"
  by (rule read_all_loop.raw_induct [where P = "\<lambda>s acc r res. cap_step s r (snd res)", OF _ assms])
    (auto simp: bind_eq_Some_conv split: option.splits dest!: read_record_cap, blast intro: cap_step_trans)

lemma read_latest_cap:
  assumes "read_latest_loop s l r = Some res"
  shows "cap_step s r (snd res)"
  by (rule read_latest_loop.raw_induct [where P = "\<lambda>s l r res. cap_step s r (snd res)", OF _ assms])
    (auto simp: bind_eq_Some_conv split: option.splits dest!: read_record_cap, blast intro: cap_step_trans)

text \<open>Enlarging the local mapping up to the file does not change what is stored.\<close>

lemma chains_local_capacity:
  assumes "chains s C" "c = local_capacity s \<or> c = global_capacity s"
  shows "chains (s\<lparr>local_capacity := c\<rparr>) C"
proof -
  let ?t = "s\<lparr>local_capacity := c\<rparr>"
  have i: "guest_inv s" using assms(1) by (simp add: chains_def)
  have av: "alloc_inv ?t \<and> avail ?t = avail s"
    by (rule alloc_inv_cong) (use i in \<open>simp_all add: guest_inv_def\<close>)
  then have "guest_inv ?t" using i assms(2) by (auto simp: guest_inv_def cap_ok_def)
  moreover have "slot_chain ?t sl ps = slot_chain s sl ps" for sl ps
    by (cases sl) (simp_all add: slot_chain_def)
  moreover have "chain_bytes ?t ps = chain_bytes s ps" for ps
    by (rule chain_bytes_cong) simp
  ultimately show ?thesis using assms(1) av by (simp add: chains_def)
qed

lemma start_reader_ok:
  assumes "chains s C"
  shows "reader_ok s (start_reader (get_head sl s) s) (C sl)"
    "rest s (start_reader (get_head sl s) s) (C sl) = chain_bytes s (C sl)"
    "wrap32 (get_head sl s) = get_head sl s"
proof -
  have c: "guest_inv s" "slot_chain s sl (C sl)" "set (C sl) \<inter> avail s = {}"
    "\<And>p. p \<in> set (C sl) \<Longrightarrow> PAGE_SIZE dvd p"
    using assms by (auto simp: chains_def)
  then show "reader_ok s (start_reader (get_head sl s) s) (C sl)"
    using taken_in_file [OF c(1)] by (auto simp: reader_ok_def start_reader_def slot_chain_def)
  show "rest s (start_reader (get_head sl s) s) (C sl) = chain_bytes s (C sl)"
    by (simp add: rest_def start_reader_def)
  have "get_head sl s < 4294967296"
    using c(2) chain_hd [of "nxt s" "get_head sl s" "C sl"] by (auto simp: slot_chain_def)
  then show "wrap32 (get_head sl s) = get_head sl s" by simp
qed

text \<open>The three walks over a slot, as one lemma per reader.\<close>

definition reads_as :: "'a shm_scheme \<Rightarrow> (slot \<Rightarrow> stream_record list) \<Rightarrow> 'b \<Rightarrow> ('b \<times> 'a shm_scheme) option \<Rightarrow> bool" where
  "reads_as s R x res \<longleftrightarrow> (\<exists>c. res = Some (x, s\<lparr>local_capacity := c\<rparr>) \<and> stores (s\<lparr>local_capacity := c\<rparr>) R)"

lemma with_reader_reads:
  assumes C: "chains s C" and loop: "lp = Some (x, r')" and cap: "cap_step s (start_reader h s) r'"
  shows "reads_as s (\<lambda>sl. parse_records (chain_bytes s (C sl))) x (with_reader s lp)"
proof -
  let ?t = "s\<lparr>local_capacity := r_cap r'\<rparr>"
  have "chains ?t C"
    by (rule chains_local_capacity [OF C]) (use cap in \<open>auto simp: cap_step_def start_reader_def\<close>)
  moreover have "chain_bytes ?t ps = chain_bytes s ps" for ps
    by (rule chain_bytes_cong) simp
  ultimately have "stores ?t (\<lambda>sl. parse_records (chain_bytes s (C sl)))"
    by (auto simp: stores_def)
  then show ?thesis by (auto simp: reads_as_def with_reader_def loop)
qed

lemma chain_reads:
  assumes st: "stores s R"
  shows "reads_as s R (R sl) (chain_read_all (wrap32 (get_head sl s)) s)"
    "reads_as s R (if R sl = [] then None else Some (last (R sl)))
       (chain_read_latest (wrap32 (get_head sl s)) s)"
    "reads_as s R (fold f (R sl) acc) (chain_for_each (wrap32 (get_head sl s)) f acc s)"
proof -
  obtain C where C: "chains s C" and R: "R = (\<lambda>sl. parse_records (chain_bytes s (C sl)))"
    using st by (auto simp: stores_def)
  let ?h = "get_head sl s"
  note sr = start_reader_ok [OF C, of sl]
  note loops = record_loops [OF sr(1)]
  have rs: "parse_records (rest s (start_reader ?h s) (C sl)) = R sl" by (simp add: sr(2) R)
  have triv: "reads_as s R x (Some (x, s))" for x :: 'c
    unfolding reads_as_def using st by (intro exI [of _ "local_capacity s"]) simp
  have nil: "R sl = []" if "?h = 0"
  proof -
    have "chain (nxt s) ?h (C sl)" using C by (auto simp: chains_def slot_chain_def)
    then have "C sl = []" using that by simp
    then show ?thesis by (simp add: R)
  qed
  note rd = with_reader_reads [OF C, folded R]
  have "\<exists>r'. read_all_loop s [] (start_reader ?h s) = Some (R sl, r')"
    using loops [of "[]" f acc None] unfolding rs append_Nil by blast
  then obtain ra where "read_all_loop s [] (start_reader ?h s) = Some (R sl, ra)" by blast
  from rd [OF this] read_all_cap [OF this] show "reads_as s R (R sl) (chain_read_all (wrap32 ?h) s)"
    using triv [of "[] :: stream_record list"] nil by (simp add: chain_read_all_def sr(3))
  have "\<exists>r'. for_each_loop s f acc (start_reader ?h s) = Some (fold f (R sl) acc, r')"
    using loops [of "[]" f acc None] unfolding rs by blast
  then obtain re where "for_each_loop s f acc (start_reader ?h s) = Some (fold f (R sl) acc, re)" by blast
  from rd [OF this] for_each_cap [OF this]
  show "reads_as s R (fold f (R sl) acc) (chain_for_each (wrap32 ?h) f acc s)"
    using triv [of acc] nil by (simp add: chain_for_each_def sr(3))
  have "\<exists>r'. read_latest_loop s None (start_reader ?h s)
      = Some (if R sl = [] then None else Some (last (R sl)), r')"
    using loops [of "[]" f acc None] unfolding rs by blast
  then obtain rl where "read_latest_loop s None (start_reader ?h s)
      = Some (if R sl = [] then None else Some (last (R sl)), rl)" by blast
  from rd [OF this] read_latest_cap [OF this]
  show "reads_as s R (if R sl = [] then None else Some (last (R sl))) (chain_read_latest (wrap32 ?h) s)"
    using triv [of "None :: stream_record option"] nil by (simp add: chain_read_latest_def sr(3))
qed


section \<open>The store interface\<close>

text \<open>
  What users of slots rely on: an append that succeeds adds one record at the end of its
  slot, a read returns the records of its slot, and both keep the relation to the store.
\<close>

locale record_store =
  fixes append :: "slot \<Rightarrow> payload \<Rightarrow> 's \<Rightarrow> err + 's"
    and read :: "slot \<Rightarrow> 's \<Rightarrow> (err + stream_record list \<times> 's) option"
    and rel :: "'s \<Rightarrow> (slot \<Rightarrow> stream_record list) \<Rightarrow> bool"
  assumes append_rel: "rel s R \<Longrightarrow> append sl pl s = Inr t \<Longrightarrow> length pl < 4294967296 \<Longrightarrow>
      rel t (R(sl := R sl @ [(slot_index sl, pl)]))"
    and read_rel: "rel s R \<Longrightarrow> slot_in_range sl \<Longrightarrow> \<exists>t. read sl s = Some (Inr (R sl, t)) \<and> rel t R"

text \<open>Interleaved use: a sequence of appends and reads by any number of clients.\<close>

datatype store_op = Append slot payload | Read slot

fun run_ops ::
  "(slot \<Rightarrow> payload \<Rightarrow> 's \<Rightarrow> err + 's) \<Rightarrow> (slot \<Rightarrow> 's \<Rightarrow> (err + stream_record list \<times> 's) option) \<Rightarrow>
   store_op list \<Rightarrow> 's \<Rightarrow> (err + stream_record list list \<times> 's) option" where
  "run_ops app rd [] s = Some (Inr ([], s))"
| "run_ops app rd (Append sl pl # ops) s =
     (case app sl pl s of Inl e \<Rightarrow> Some (Inl e) | Inr t \<Rightarrow> run_ops app rd ops t)"
| "run_ops app rd (Read sl # ops) s =
     (case rd sl s of None \<Rightarrow> None | Some (Inl e) \<Rightarrow> Some (Inl e)
      | Some (Inr (out, t)) \<Rightarrow>
          (case run_ops app rd ops t of None \<Rightarrow> None | Some (Inl e) \<Rightarrow> Some (Inl e)
           | Some (Inr (outs, u)) \<Rightarrow> Some (Inr (out # outs, u))))"

fun spec_ops ::
  "store_op list \<Rightarrow> (slot \<Rightarrow> stream_record list) \<Rightarrow> stream_record list list \<times> (slot \<Rightarrow> stream_record list)" where
  "spec_ops [] R = ([], R)"
| "spec_ops (Append sl pl # ops) R = spec_ops ops (R(sl := R sl @ [(slot_index sl, pl)]))"
| "spec_ops (Read sl # ops) R = (let (outs, R') = spec_ops ops R in (R sl # outs, R'))"

fun op_ok :: "store_op \<Rightarrow> bool" where
  "op_ok (Append sl pl) \<longleftrightarrow> slot_in_range sl \<and> length pl < 4294967296"
| "op_ok (Read sl) \<longleftrightarrow> slot_in_range sl"

context record_store
begin

text \<open>Every sequence returns, and unless an append fails it answers as the abstract store.\<close>

lemma run_ops_refines:
  assumes "rel s R" "list_all op_ok ops"
  shows "(\<exists>t. run_ops append read ops s = Some (Inr (fst (spec_ops ops R), t))
      \<and> rel t (snd (spec_ops ops R)))
    \<or> (\<exists>e u sl pl. run_ops append read ops s = Some (Inl e) \<and> Append sl pl \<in> set ops
      \<and> append sl pl u = Inl e)"
  using assms
proof (induction ops arbitrary: s R)
  case Nil
  then show ?case by simp
next
  case (Cons a ops)
  show ?case
  proof (cases a)
    case (Append sl pl)
    show ?thesis
    proof (cases "append sl pl s")
      case (Inl e)
      then show ?thesis using Append by auto
    next
      case (Inr t)
      have "rel t (R(sl := R sl @ [(slot_index sl, pl)]))"
        using append_rel [OF Cons.prems(1) Inr] Cons.prems(2) Append by simp
      from Cons.IH [OF this] Cons.prems(2) Append Inr show ?thesis by fastforce
    qed
  next
    case (Read sl)
    obtain t where t: "read sl s = Some (Inr (R sl, t))" "rel t R"
      using read_rel [OF Cons.prems(1)] Cons.prems(2) Read by auto
    have "list_all op_ok ops" using Cons.prems(2) by simp
    from Cons.IH [OF t(2) this] t Read show ?thesis
      by (auto simp: split_beta Let_def)
  qed
qed

end

text \<open>\<open>read_all_stream_records\<close> and \<open>read_all_io_records\<close> by slot.\<close>

definition read_all_records :: "slot \<Rightarrow> 'a shm_scheme \<Rightarrow> (err + stream_record list \<times> 'a shm_scheme) option" where
  "read_all_records sl = at_slot sl chain_read_all"

lemma at_slot_reads:
  assumes "slot_in_range sl" "reads_as s R x (f (wrap32 (get_head sl s)) s)"
  shows "\<exists>t. at_slot sl f s = Some (Inr (x, t)) \<and> stores t R"
  using assms by (auto simp: at_slot_def reads_as_def)

interpretation shm_store: record_store append_slot_data read_all_records stores
proof unfold_locales
  fix s t :: "'a shm_scheme" and R sl pl
  show "stores t (R(sl := R sl @ [(slot_index sl, pl)]))"
    if "stores s R" "append_slot_data sl pl s = Inr t" "length pl < 4294967296"
    using that by (rule append_slot_data_stores)
  show "\<exists>t. read_all_records sl s = Some (Inr (R sl, t)) \<and> stores t R"
    if "stores s R" "slot_in_range sl"
    unfolding read_all_records_def by (rule at_slot_reads [OF that(2)]) (rule chain_reads(1) [OF that(1)])
qed


section \<open>Appends return while there is room\<close>

text \<open>An upper bound on the pages that appending a record with a payload of \<open>n\<close> bytes takes.\<close>

definition pages_for :: "nat \<Rightarrow> nat" where
  "pages_for n = Suc ((n + 8) div PAGE_DATA_SIZE)"

locale total_heap_allocator = heap_allocator alloc inv + total_page_allocator alloc inv avail room
  for alloc :: "'a shm_scheme \<Rightarrow> err + nat \<times> 'a shm_scheme" and inv :: "'a shm_scheme \<Rightarrow> bool" and room :: "'a shm_scheme \<Rightarrow> nat"
begin

lemma append_frames_total:
  assumes C: "chains s C" and iv: "inv s" and n: "pages_for (length pl) \<le> room s"
  shows "\<exists>t. append_all (append_with alloc sl) (frame origin pl) s = Inr t \<and> room s \<le> room t + pages_for (length pl)"
proof -
  let ?n = "length pl + 8" and ?d = PAGE_DATA_SIZE
  have c: "slot_chain s sl (C sl)" "set (C sl) \<inter> avail s = {}"
    using C by (auto simp: chains_def)
  have len: "length (concat (frame origin pl)) = ?n" by (simp add: frame_def)
  have "?n < pages_for (length pl) * ?d"
    unfolding pages_for_def by (metis PAGE_DATA_SIZE_pos dividend_less_div_times mult.commute mult_Suc)
  also have "\<dots> \<le> room s * ?d" using n by (rule mult_le_mono1)
  also have "\<dots> \<le> slot_room room sl s" by (simp add: slot_room_def)
  finally have fit: "length (concat (frame origin pl)) \<le> slot_room room sl s"
    using len by simp
  have hd: "hd (frame origin pl) \<noteq> []" by (simp add: frame_def to_le_bytes32_def)
  obtain t where t: "append_all (append_with alloc sl) (frame origin pl) s = Inr t"
    and sr: "slot_room room sl s \<le> slot_room room sl t + ?n"
    using append_all_total [OF iv c fit] hd len by auto
  obtain qs where "appended avail s sl (C sl) (concat (frame origin pl)) t qs"
    using append_all_spec [OF iv c t] by blast
  then have sc: "slot_chain t sl (C sl @ qs)" by (simp add: appended_def)
  have "(if get_tail sl t = 0 then 0 else space_left t (get_tail sl t)) \<le> ?d"
  proof (cases "C sl @ qs = []")
    case True
    then show ?thesis using sc by (simp add: slot_chain_def)
  next
    case False
    note tl = slot_chain_tail [OF sc False]
    show ?thesis unfolding tl(1) space_left_eq [OF tl(4)] by simp
  qed
  then have "room s * ?d \<le> ?d + room t * ?d + ?n"
    using sr unfolding slot_room_def by linarith
  then have "(room s - Suc (room t)) * ?d \<le> ?n"
    unfolding diff_mult_distrib by simp
  then have "room s - Suc (room t) \<le> ?n div ?d"
    by (simp add: less_eq_div_iff_mult_less_eq)
  then show ?thesis using t by (auto simp: pages_for_def)
qed

end

interpretation guest: total_heap_allocator try_allocate_page guest_inv bump_room
  by unfold_locales

lemma append_slot_data_total:
  assumes st: "stores s R" and sl: "slot_in_range sl" and n: "pages_for (length pl) \<le> bump_room s"
  shows "\<exists>t. append_slot_data sl pl s = Inr t \<and> bump_room s \<le> bump_room t + pages_for (length pl)"
proof -
  obtain C where C: "chains s C" using st by (auto simp: stores_def)
  from guest.append_frames_total [OF C _ n] C sl show ?thesis
    by (simp add: append_slot_data_def chain_append_prefixed_def chain_append_raw_def chains_def)
qed

lemma read_all_records_room:
  "read_all_records sl s = Some (Inr (x, t)) \<Longrightarrow> bump_room t = bump_room s"
  by (auto simp: read_all_records_def at_slot_def chain_read_all_def with_reader_def bump_room_def
      split: if_splits)

locale total_record_store = record_store append read rel
  for append :: "slot \<Rightarrow> payload \<Rightarrow> 's \<Rightarrow> err + 's"
    and read :: "slot \<Rightarrow> 's \<Rightarrow> (err + stream_record list \<times> 's) option"
    and rel :: "'s \<Rightarrow> (slot \<Rightarrow> stream_record list) \<Rightarrow> bool" +
  fixes room :: "'s \<Rightarrow> nat"
  assumes append_total: "rel s R \<Longrightarrow> slot_in_range sl \<Longrightarrow> pages_for (length pl) \<le> room s \<Longrightarrow>
      \<exists>t. append sl pl s = Inr t \<and> room s \<le> room t + pages_for (length pl)"
    and read_room: "read sl s = Some (Inr (x, t)) \<Longrightarrow> room t = room s"

fun op_pages :: "store_op \<Rightarrow> nat" where
  "op_pages (Append sl pl) = pages_for (length pl)"
| "op_pages (Read sl) = 0"

context total_record_store
begin

text \<open>With room for every record, a sequence of operations succeeds.\<close>

lemma run_ops_total:
  assumes "rel s R" "list_all op_ok ops" "sum_list (map op_pages ops) \<le> room s"
  shows "\<exists>t. run_ops append read ops s = Some (Inr (fst (spec_ops ops R), t))
    \<and> rel t (snd (spec_ops ops R))"
  using assms
proof (induction ops arbitrary: s R)
  case Nil
  then show ?case by simp
next
  case (Cons a ops)
  show ?case
  proof (cases a)
    case (Append sl pl)
    then obtain t where t: "append sl pl s = Inr t" "room s \<le> room t + pages_for (length pl)"
      using append_total [OF Cons.prems(1), of sl pl] Cons.prems(2,3) by auto
    have rt: "rel t (R(sl := R sl @ [(slot_index sl, pl)]))"
      using append_rel [OF Cons.prems(1) t(1)] Cons.prems(2) Append by simp
    have "sum_list (map op_pages ops) \<le> room t" using Cons.prems(3) t(2) Append by simp
    moreover have "list_all op_ok ops" using Cons.prems(2) by simp
    ultimately show ?thesis using Cons.IH [OF rt] t(1) Append by fastforce
  next
    case (Read sl)
    obtain t where t: "read sl s = Some (Inr (R sl, t))" "rel t R"
      using read_rel [OF Cons.prems(1)] Cons.prems(2) Read by auto
    have "sum_list (map op_pages ops) \<le> room t" using Cons.prems(3) Read read_room [OF t(1)] by simp
    from Cons.IH [OF t(2) _ this] Cons.prems(2) t Read show ?thesis
      by (auto simp: split_beta Let_def)
  qed
qed

end

interpretation shm_store: total_record_store append_slot_data read_all_records stores bump_room
  by unfold_locales (blast intro: append_slot_data_total, rule read_all_records_room)


section \<open>Properties\<close>

text \<open>
  C1. The slots refine a store of record lists. From a region that represents the abstract
  store \<open>R\<close>, any interleaving of in-range appends and reads, by any number of workers on any
  slots, for which the region has room returns without panic, every read answers with
  exactly the records appended to its slot so far, in order and with the slot's own index as
  origin, and the region represents the abstract store the same sequence produces.
\<close>

theorem store_refinement:
  assumes "stores s R" "list_all op_ok ops" "sum_list (map op_pages ops) \<le> bump_room s"
  shows "\<exists>t. run_ops append_slot_data read_all_records ops s = Some (Inr (fst (spec_ops ops R), t))
    \<and> stores t (snd (spec_ops ops R))"
  by (rule shm_store.run_ops_total [OF assms])

lemma bump_room_format: "bump_room format_shared_memory = 908531"
  by (simp add: bump_room_def format_shared_memory_def layout_consts)

theorem store_refinement_witness:
  "\<exists>t. run_ops append_slot_data read_all_records
      [Append (Stream 3) [7, 8], Append (Io 3) [9], Append (Stream 3) [], Read (Stream 3), Read (Io 0)]
      format_shared_memory = Some (Inr ([[(3, [7, 8]), (3, [])], []], t))"
proof -
  let ?ops = "[Append (Stream 3) [7, 8], Append (Io 3) [9], Append (Stream 3) [], Read (Stream 3), Read (Io 0)]"
  have "list_all op_ok ?ops" by (simp add: layout_consts)
  moreover have "sum_list (map op_pages ?ops) \<le> bump_room format_shared_memory"
    by (simp add: pages_for_def bump_room_format layout_consts)
  ultimately show ?thesis using store_refinement [OF stores_format, of ?ops] by auto
qed

text \<open>
  The other readers agree with the records of the slot: on a stored slot the latest
  record is the last one (none when the slot is empty), the callback of the for-each walk
  sees every record once in order, and neither changes what is stored.
\<close>

lemma readers_agree:
  assumes "stores s R" "i < STREAM_SLOT_COUNT" "k < IO_SLOT_COUNT"
  shows "(\<exists>t. read_latest_stream_data i s
        = Some (Inr (if R (Stream i) = [] then None else Some (last (R (Stream i))), t)) \<and> stores t R)
    \<and> (\<exists>t. read_latest_io_data k s
        = Some (Inr (if R (Io k) = [] then None else Some (last (R (Io k))), t)) \<and> stores t R)
    \<and> (\<exists>t. for_each_stream_record i f acc s = Some (Inr (fold f (R (Stream i)) acc, t)) \<and> stores t R)
    \<and> (\<exists>t. for_each_io_record k f acc s = Some (Inr (fold f (R (Io k)) acc, t)) \<and> stores t R)"
proof -
  have r: "slot_in_range (Stream i)" "slot_in_range (Io k)" using assms(2,3) by simp_all
  note cr = chain_reads [OF assms(1)]
  show ?thesis
    unfolding read_latest_stream_data_def read_latest_io_data_def for_each_stream_record_def
      for_each_io_record_def
    by (intro conjI; rule at_slot_reads; (rule r cr(2) cr(3))?)
qed

text \<open>
  A fan-out that succeeds delivers the payload to every listed stream slot, once per
  occurrence, at the end of that slot and with that slot's index as origin; slots that are
  not listed keep their records.
\<close>

lemma fan_out_delivers:
  assumes "stores s R" "fan_out slots dat s = Inr t" "length dat < 4294967296"
  shows "stores t (\<lambda>sl. case sl of Stream i \<Rightarrow> R sl @ replicate (count_list slots i) (i, dat) | Io _ \<Rightarrow> R sl)"
  using assms(1,2)
proof (induction slots arbitrary: s R)
  case Nil
  then have "stores t R" by simp
  moreover have "R = (\<lambda>sl. case sl of Stream i \<Rightarrow> R sl @ replicate (count_list [] i) (i, dat) | Io _ \<Rightarrow> R sl)"
    by (auto split: slot.split)
  ultimately show ?case by simp
next
  case (Cons i slots)
  from Cons.prems(2) obtain u where u: "append_slot_data (Stream i) dat s = Inr u" "fan_out slots dat u = Inr t"
    by (auto simp: append_stream_data_def split: sum.splits)
  have "stores u (R(Stream i := R (Stream i) @ [(i, dat)]))"
    using append_slot_data_stores [OF Cons.prems(1) u(1) assms(3)] by simp
  note ih = Cons.IH [OF this u(2)]
  show ?case
    by (rule back_subst [where P = "stores t", OF ih])
      (auto simp: fun_eq_iff replicate_append_same split: slot.split)
qed

lemma fan_out_format: "\<exists>t. fan_out [2, 4] [1] format_shared_memory = Inr t"
proof -
  have sl: "slot_in_range (Stream 2)" "slot_in_range (Stream 4)" by (simp_all add: layout_consts)
  have p: "pages_for (length [1 :: byte]) = 1" by (simp add: pages_for_def layout_consts)
  obtain t where t: "append_slot_data (Stream 2) [1] format_shared_memory = Inr t"
    "bump_room format_shared_memory \<le> bump_room t + 1"
    using append_slot_data_total [OF stores_format sl(1), of "[1]"] p by (auto simp: bump_room_format)
  have "stores t ((\<lambda>_. [])(Stream 2 := [(2, [1])]))"
    using append_slot_data_stores [OF stores_format t(1)] by simp
  from append_slot_data_total [OF this sl(2), of "[1]"] t p show ?thesis
    by (auto simp: append_stream_data_def bump_room_format)
qed

text \<open>
  An append to a slot index outside the superblock's arrays panics and changes nothing;
  so do the readers.
\<close>

lemma slot_bounds_checked:
  "(STREAM_SLOT_COUNT \<le> i \<longrightarrow> append_stream_data i pl s = Inl (SlotOutOfRange i)
      \<and> read_all_stream_records i s = Some (Inl (SlotOutOfRange i)))
   \<and> (IO_SLOT_COUNT \<le> i \<longrightarrow> append_io_data i pl s = Inl (SlotOutOfRange i)
      \<and> read_all_io_records i s = Some (Inl (SlotOutOfRange i)))"
  by (simp add: append_stream_data_def append_io_data_def append_slot_data_def
      read_all_stream_records_def read_all_io_records_def at_slot_def)

end
