(* ===== verification/Routing.thy ===== *)
theory Routing
  imports Record_Store "HOL-Library.Multiset"
begin

text \<open>
  The host's zero-copy routing (\<open>host/src/routing\<close>): splicing page chains between stream
  slots, 1-to-1 bridges, N-to-1 aggregation (sequential and as a tree of pairwise merges),
  N-to-M broadcast and N-to-M shuffle with the shuffle policies of
  \<open>host/src/policy/shuffle_policy.rs\<close>. Threads of one scope run in program order here;
  \<open>chain_onto_commute\<close> shows that splices of distinct lanes commute, so the order in which
  the threads of one tree level run does not matter.
\<close>

section \<open>Operations\<close>

definition bridge :: "nat \<Rightarrow> nat \<Rightarrow> 'a shm_scheme \<Rightarrow> bool \<times> 'a shm_scheme" where
  "bridge upstream_id downstream_id s =
     (if STREAM_SLOT_COUNT \<le> upstream_id \<or> STREAM_SLOT_COUNT \<le> downstream_id then (False, s)
      else if writer_heads s upstream_id = 0 then (False, s)
      else (True, s\<lparr>writer_heads := (writer_heads s)(downstream_id := writer_heads s upstream_id),
                    writer_tails := (writer_tails s)(downstream_id := writer_tails s upstream_id)\<rparr>))"

definition chain_onto :: "nat \<Rightarrow> nat \<Rightarrow> 'a shm_scheme \<Rightarrow> err + 'a shm_scheme" where
  "chain_onto dst_id src_id s =
     (if STREAM_SLOT_COUNT \<le> src_id then Inl (SlotOutOfRange src_id)
      else if wrap32 (writer_heads s src_id) = 0 then Inr s
      else if STREAM_SLOT_COUNT \<le> dst_id then Inl (SlotOutOfRange dst_id)
      else Inr ((if wrap32 (writer_tails s dst_id) = 0
                 then s\<lparr>writer_heads := (writer_heads s)(dst_id := wrap32 (writer_heads s src_id))\<rparr>
                 else link_page (wrap32 (writer_tails s dst_id)) (wrap32 (writer_heads s src_id)) s)
                \<lparr>writer_tails := (writer_tails s)(dst_id := wrap32 (writer_tails s src_id))\<rparr>))"

fun merge_seq :: "nat list \<Rightarrow> nat \<Rightarrow> 'a shm_scheme \<Rightarrow> err + 'a shm_scheme" where
  "merge_seq [] dst s = Inr s"
| "merge_seq (up # ups) dst s =
     (case chain_onto dst up s of Inl e \<Rightarrow> Inl e | Inr t \<Rightarrow> merge_seq ups dst t)"

text \<open>\<open>chunks(2)\<close> without the odd remainder, and \<open>step_by(2)\<close>.\<close>

fun pairs_of :: "'b list \<Rightarrow> ('b \<times> 'b) list" where
  "pairs_of (a # b # xs) = (a, b) # pairs_of xs"
| "pairs_of _ = []"

fun every_other :: "'b list \<Rightarrow> 'b list" where
  "every_other (a # b # xs) = a # every_other xs"
| "every_other xs = xs"

fun merge_pairs :: "(nat \<times> nat) list \<Rightarrow> 'a shm_scheme \<Rightarrow> err + 'a shm_scheme" where
  "merge_pairs [] s = Inr s"
| "merge_pairs ((d, u) # ps) s =
     (case chain_onto d u s of Inl e \<Rightarrow> Inl e | Inr t \<Rightarrow> merge_pairs ps t)"

lemma length_every_other: "length (every_other xs) \<le> length xs"
  "2 \<le> length xs \<Longrightarrow> length (every_other xs) < length xs"
  by (induction xs rule: every_other.induct) auto

function merge_tree :: "nat list \<Rightarrow> 'a shm_scheme \<Rightarrow> err + nat list \<times> 'a shm_scheme" where
  "merge_tree active s =
     (if length active \<le> 1 then Inr (active, s)
      else case merge_pairs (pairs_of active) s of
             Inl e \<Rightarrow> Inl e
           | Inr t \<Rightarrow> merge_tree (every_other active) t)"
  by pat_completeness auto
termination
  by (relation "measure (\<lambda>(active, s). length active)") (auto simp: length_every_other)

declare merge_tree.simps [simp del]

definition merge_into :: "nat list \<Rightarrow> nat \<Rightarrow> 'a shm_scheme \<Rightarrow> err + 'a shm_scheme" where
  "merge_into upstream_ids dst_id s =
     (if upstream_ids = [] then Inr s
      else if length upstream_ids \<le> PARALLEL_THRESHOLD then merge_seq upstream_ids dst_id s
      else case merge_tree upstream_ids s of
             Inl e \<Rightarrow> Inl e
           | Inr (active, t) \<Rightarrow> chain_onto dst_id (hd active) t)"

record aggregate_connection =
  ag_upstream_ids :: "nat list"
  ag_downstream_id :: nat

definition aggregate_bridge :: "aggregate_connection \<Rightarrow> 'a shm_scheme \<Rightarrow> err + 'a shm_scheme" where
  "aggregate_bridge c = merge_into (ag_upstream_ids c) (ag_downstream_id c)"

record broadcast_connection =
  br_upstream_ids :: "nat list"
  br_downstream_ids :: "nat list"

fun merge_into_each :: "nat list \<Rightarrow> nat list \<Rightarrow> 'a shm_scheme \<Rightarrow> err + 'a shm_scheme" where
  "merge_into_each ups [] s = Inr s"
| "merge_into_each ups (d # ds) s =
     (case merge_into ups d s of Inl e \<Rightarrow> Inl e | Inr t \<Rightarrow> merge_into_each ups ds t)"

definition broadcast_bridge :: "broadcast_connection \<Rightarrow> 'a shm_scheme \<Rightarrow> err + 'a shm_scheme" where
  "broadcast_bridge c = merge_into_each (br_upstream_ids c) (br_downstream_ids c)"

text \<open>The shuffle policies; a policy that keeps a counter is returned updated.\<close>

datatype shuffle_policy =
    ModuloPartition
  | RoundRobinPartition nat
  | FixedMapPartition "nat \<rightharpoonup> nat" nat

fun partition_slot :: "shuffle_policy \<Rightarrow> nat \<Rightarrow> nat \<Rightarrow> err + nat \<times> shuffle_policy" where
  "partition_slot ModuloPartition upstream_id num_downstream =
     (if num_downstream = 0 then Inl DivideByZero
      else Inr (upstream_id mod num_downstream, ModuloPartition))"
| "partition_slot (RoundRobinPartition counter) upstream_id num_downstream =
     (if num_downstream = 0 then Inl DivideByZero
      else Inr (counter mod num_downstream,
                RoundRobinPartition ((counter + 1) mod 18446744073709551616)))"
| "partition_slot (FixedMapPartition m default_slot) upstream_id num_downstream =
     Inr (case m upstream_id of Some j \<Rightarrow> j | None \<Rightarrow> default_slot, FixedMapPartition m default_slot)"

record shuffle_connection =
  sh_upstream_ids :: "nat list"
  sh_downstream_ids :: "nat list"
  sh_policy :: shuffle_policy

text \<open>The grouping loop: a slot outside the groups drops the upstream.\<close>

fun group_upstreams ::
  "nat list \<Rightarrow> nat \<Rightarrow> shuffle_policy \<Rightarrow> nat list list \<Rightarrow> err + nat list list \<times> shuffle_policy" where
  "group_upstreams [] num pol groups = Inr (groups, pol)"
| "group_upstreams (up # ups) num pol groups =
     (case partition_slot pol up num of
        Inl e \<Rightarrow> Inl e
      | Inr (slot, pol') \<Rightarrow>
          group_upstreams ups num pol'
            (if slot < length groups then groups[slot := groups ! slot @ [up]] else groups))"

fun merge_groups :: "(nat list \<times> nat) list \<Rightarrow> 'a shm_scheme \<Rightarrow> err + 'a shm_scheme" where
  "merge_groups [] s = Inr s"
| "merge_groups ((g, d) # gs) s =
     (if g = [] then merge_groups gs s
      else case merge_into g d s of Inl e \<Rightarrow> Inl e | Inr t \<Rightarrow> merge_groups gs t)"

definition shuffle_bridge ::
  "shuffle_connection \<Rightarrow> 'a shm_scheme \<Rightarrow> err + shuffle_connection \<times> 'a shm_scheme" where
  "shuffle_bridge c s =
     (let num_downstream = length (sh_downstream_ids c) in
      case group_upstreams (sh_upstream_ids c) num_downstream (sh_policy c) (replicate num_downstream []) of
        Inl e \<Rightarrow> Inl e
      | Inr (groups, pol) \<Rightarrow>
          (case merge_groups (zip groups (sh_downstream_ids c)) s of
             Inl e \<Rightarrow> Inl e
           | Inr t \<Rightarrow> Inr (c\<lparr>sh_policy := pol\<rparr>, t)))"

section \<open>Lanes\<close>

text \<open>
  A lane is a stream slot together with its page chain. \<open>lanes s L\<close>: the slots of \<open>L\<close> are
  distinct and in range, each has exactly the given chain, and no page is on two chains.
\<close>

definition lanes :: "'a shm_scheme \<Rightarrow> (nat \<times> nat list) list \<Rightarrow> bool" where
  "lanes s L \<longleftrightarrow> distinct (map fst L) \<and> distinct (concat (map snd L))
     \<and> (\<forall>(i, c) \<in> set L. i < STREAM_SLOT_COUNT \<and> slot_chain s (Stream i) c)"

text \<open>What splicing never changes: the written bytes of any page, and the I/O slots.\<close>

definition same_data :: "'a shm_scheme \<Rightarrow> 'a shm_scheme \<Rightarrow> bool" where
  "same_data s t \<longleftrightarrow> (\<forall>p. cursor (mem t p) = cursor (mem s p) \<and> data (mem t p) = data (mem s p))
     \<and> io_heads t = io_heads s \<and> io_tails t = io_tails s
     \<and> bump_allocator t = bump_allocator s \<and> free_list_heads t = free_list_heads s"

lemma same_data_refl [simp]: "same_data s s"
  by (simp add: same_data_def)

lemma same_data_trans: "same_data s t \<Longrightarrow> same_data t u \<Longrightarrow> same_data s u"
  by (simp add: same_data_def)

lemma same_data_bytes: "same_data s t \<Longrightarrow> chain_bytes t ps = chain_bytes s ps"
  by (simp add: same_data_def chain_bytes_def page_bytes_def cong: map_cong)

lemma slot_chain_head:
  assumes "slot_chain s sl ps"
  shows "wrap32 (get_head sl s) = get_head sl s" "get_head sl s = (if ps = [] then 0 else hd ps)"
    "wrap32 (get_tail sl s) = get_tail sl s"
proof -
  have c: "chain (nxt s) (get_head sl s) ps" "\<forall>p \<in> set ps. p < 4294967296"
    using assms by (auto simp: slot_chain_def)
  show h: "get_head sl s = (if ps = [] then 0 else hd ps)" by (rule chain_hd [OF c(1)])
  show "wrap32 (get_head sl s) = get_head sl s" using h c(2) by (cases "ps = []") auto
  show "wrap32 (get_tail sl s) = get_tail sl s"
    using assms c(2) by (cases "ps = []") (auto simp: slot_chain_def)
qed

text \<open>Splicing one chain behind another: the destination's chain is the concatenation.\<close>

lemma chain_onto_spec:
  assumes d: "d < STREAM_SLOT_COUNT" "slot_chain s (Stream d) x"
    and u: "u < STREAM_SLOT_COUNT" "slot_chain s (Stream u) y"
    and disj: "set x \<inter> set y = {}"
  shows "\<exists>t. chain_onto d u s = Inr t \<and> slot_chain t (Stream d) (x @ y) \<and> same_data s t
    \<and> (\<forall>j. j \<noteq> d \<longrightarrow> writer_heads t j = writer_heads s j \<and> writer_tails t j = writer_tails s j)
    \<and> (\<forall>p. p \<notin> set x \<longrightarrow> mem t p = mem s p)"
proof (cases "y = []")
  case True
  then have "wrap32 (writer_heads s u) = 0" using slot_chain_head(2) [OF u(2)] by (simp add: wrap32_def)
  then show ?thesis using True d u by (simp add: chain_onto_def)
next
  case y: False
  note hu = slot_chain_head [OF u(2)] and hd' = slot_chain_head [OF d(2)]
  note tu = slot_chain_tail [OF u(2) y]
  have cu: "chain (nxt s) (writer_heads s u) y" using u(2) by (simp add: slot_chain_def)
  then have nu: "writer_heads s u \<noteq> 0" using y by (cases y) auto
  show ?thesis
  proof (cases "x = []")
    case True
    then have "wrap32 (writer_tails s d) = 0" using d(2) by (simp add: slot_chain_def wrap32_def)
    then show ?thesis
      using True y hu nu u d tu by (simp add: chain_onto_def slot_chain_def same_data_def)
  next
    case x: False
    note td = slot_chain_tail [OF d(2) x]
    let ?t = "(link_page (last x) (writer_heads s u) s)
      \<lparr>writer_tails := (writer_tails s)(d := writer_tails s u)\<rparr>"
    have co: "chain_onto d u s = Inr ?t"
      using td hu hd' nu u(1) d(1) by (simp add: chain_onto_def)
    have nx: "nxt ?t = (nxt s)(last x := writer_heads s u)"
      by (auto simp: link_page_def)
    have "chain ((nxt s)(last x := writer_heads s u)) (writer_heads s d) (x @ y)"
      by (rule path_snoc_upd) (use d u disj x in \<open>auto simp: slot_chain_def\<close>)
    then have ch: "chain (nxt ?t) (get_head (Stream d) ?t) (x @ y)"
      unfolding nx by (simp add: link_page_def upd_page_def)
    have "slot_chain ?t (Stream d) (x @ y)"
      unfolding slot_chain_def using ch y tu d(2) u(2)
      by (auto simp: link_page_def slot_chain_def)
    then show ?thesis
      using co x by (auto simp: same_data_def link_page_def upd_page_def)
  qed
qed


lemma slot_chain_other:
  assumes "slot_chain s (Stream j) c" "j \<noteq> d"
    and "\<forall>j. j \<noteq> d \<longrightarrow> writer_heads t j = writer_heads s j \<and> writer_tails t j = writer_tails s j"
    and "\<forall>p. p \<notin> set x \<longrightarrow> mem t p = mem s p" "set c \<inter> set x = {}"
  shows "slot_chain t (Stream j) c"
  by (rule slot_chain_cong [OF assms(1)]) (use assms in auto)

lemma lane_apart:
  assumes "distinct (map fst (A @ (d, x) # B))" "distinct (concat (map snd (A @ (d, x) # B)))"
    and "(i, c) \<in> set (A @ B)"
  shows "i \<noteq> d" "set c \<inter> set x = {}"
proof -
  have "i \<in> set (map fst (A @ B))" using assms(3) by (metis fst_conv list.set_map image_eqI)
  then show "i \<noteq> d" using assms(1) by auto
  have "set c \<subseteq> set (concat (map snd (A @ B)))" using assms(3) by fastforce
  moreover have "set x \<inter> set (concat (map snd (A @ B))) = {}" using assms(2) by auto
  ultimately show "set c \<inter> set x = {}" by blast
qed

lemma chain_onto_lanes:
  assumes "lanes s (M @ (d, x) # N @ (u, y) # L)"
  shows "\<exists>t. chain_onto d u s = Inr t \<and> lanes t (M @ (d, x @ y) # N @ L) \<and> same_data s t"
proof -
  have d: "d < STREAM_SLOT_COUNT" "slot_chain s (Stream d) x"
    and u: "u < STREAM_SLOT_COUNT" "slot_chain s (Stream u) y" and xy: "set x \<inter> set y = {}"
    using assms by (auto simp: lanes_def)
  obtain t where t: "chain_onto d u s = Inr t" "slot_chain t (Stream d) (x @ y)" "same_data s t"
    and o: "\<forall>j. j \<noteq> d \<longrightarrow> writer_heads t j = writer_heads s j \<and> writer_tails t j = writer_tails s j"
      "\<forall>p. p \<notin> set x \<longrightarrow> mem t p = mem s p"
    using chain_onto_spec [OF d u xy] by blast
  have dist: "distinct (map fst (M @ (d, x) # N @ (u, y) # L))"
    "distinct (concat (map snd (M @ (d, x) # N @ (u, y) # L)))"
    using assms unfolding lanes_def by blast+
  have "i < STREAM_SLOT_COUNT \<and> slot_chain t (Stream i) c" if "(i, c) \<in> set (M @ N @ L)" for i c
  proof -
    have "i \<noteq> d" "set c \<inter> set x = {}"
      using lane_apart [OF dist, of i c] that by auto
    moreover have "slot_chain s (Stream i) c" "i < STREAM_SLOT_COUNT"
      using assms that unfolding lanes_def by auto
    ultimately show ?thesis using slot_chain_other [OF _ _ o] by blast
  qed
  moreover have "distinct (map fst (M @ (d, x @ y) # N @ L))"
    "distinct (concat (map snd (M @ (d, x @ y) # N @ L)))"
    using dist by auto
  ultimately have "lanes t (M @ (d, x @ y) # N @ L)"
    using t(2) d(1) unfolding lanes_def by auto
  then show ?thesis using t by blast
qed

text \<open>The effect of a splice as one update per field; two splices that touch different slots
  and different tail pages commute.\<close>

definition link_mem :: "nat \<Rightarrow> nat \<Rightarrow> (nat \<Rightarrow> page) \<Rightarrow> nat \<Rightarrow> page" where
  "link_mem p q m = (if p = 0 then m else m(p := (m p)\<lparr>next_offset := q\<rparr>))"

lemma chain_onto_fields:
  assumes "d < STREAM_SLOT_COUNT" "u < STREAM_SLOT_COUNT" "wrap32 (writer_heads s u) \<noteq> 0"
  shows "chain_onto d u s = Inr (s\<lparr>writer_heads := (if wrap32 (writer_tails s d) = 0
        then (writer_heads s)(d := wrap32 (writer_heads s u)) else writer_heads s),
      writer_tails := (writer_tails s)(d := wrap32 (writer_tails s u)),
      mem := link_mem (wrap32 (writer_tails s d)) (wrap32 (writer_heads s u)) (mem s)\<rparr>)"
  using assms by (simp add: chain_onto_def link_page_def upd_page_def link_mem_def)

lemma link_mem_commute: "p \<noteq> 0 \<Longrightarrow> p \<noteq> p' \<Longrightarrow> link_mem p' q' (link_mem p q m) = link_mem p q (link_mem p' q' m)"
  by (auto simp: link_mem_def fun_eq_iff)

lemma chain_onto_commute:
  assumes "d1 \<noteq> d2" "d1 \<noteq> u2" "d2 \<noteq> u1"
    and "d1 < STREAM_SLOT_COUNT" "d2 < STREAM_SLOT_COUNT" "u1 < STREAM_SLOT_COUNT" "u2 < STREAM_SLOT_COUNT"
    and h: "wrap32 (writer_heads s u1) \<noteq> 0" "wrap32 (writer_heads s u2) \<noteq> 0"
    and tails: "wrap32 (writer_tails s d1) \<noteq> 0 \<Longrightarrow> wrap32 (writer_tails s d1) \<noteq> wrap32 (writer_tails s d2)"
    and t: "chain_onto d1 u1 s = Inr t1" "chain_onto d2 u2 s = Inr t2"
  shows "chain_onto d2 u2 t1 = chain_onto d1 u1 t2"
proof -
  have t1: "t1 = s\<lparr>writer_heads := (if wrap32 (writer_tails s d1) = 0
        then (writer_heads s)(d1 := wrap32 (writer_heads s u1)) else writer_heads s),
      writer_tails := (writer_tails s)(d1 := wrap32 (writer_tails s u1)),
      mem := link_mem (wrap32 (writer_tails s d1)) (wrap32 (writer_heads s u1)) (mem s)\<rparr>"
    and t2: "t2 = s\<lparr>writer_heads := (if wrap32 (writer_tails s d2) = 0
        then (writer_heads s)(d2 := wrap32 (writer_heads s u2)) else writer_heads s),
      writer_tails := (writer_tails s)(d2 := wrap32 (writer_tails s u2)),
      mem := link_mem (wrap32 (writer_tails s d2)) (wrap32 (writer_heads s u2)) (mem s)\<rparr>"
    using t chain_onto_fields [OF assms(4,6) h(1)] chain_onto_fields [OF assms(5,7) h(2)] by simp_all
  have r1: "writer_heads t1 u2 = writer_heads s u2" "writer_tails t1 d2 = writer_tails s d2"
      "writer_tails t1 u2 = writer_tails s u2"
    and r2: "writer_heads t2 u1 = writer_heads s u1" "writer_tails t2 d1 = writer_tails s d1"
      "writer_tails t2 u1 = writer_tails s u1"
    using assms(1-3) unfolding t1 t2 by auto
  have m: "link_mem (wrap32 (writer_tails s d2)) q' (link_mem (wrap32 (writer_tails s d1)) q (mem s))
      = link_mem (wrap32 (writer_tails s d1)) q (link_mem (wrap32 (writer_tails s d2)) q' (mem s))" for q q'
    using link_mem_commute [of "wrap32 (writer_tails s d1)"] tails
    by (cases "wrap32 (writer_tails s d1) = 0") (auto simp: link_mem_def)
  have "chain_onto d2 u2 t1 = Inr (t1\<lparr>writer_heads := (if wrap32 (writer_tails s d2) = 0
        then (writer_heads t1)(d2 := wrap32 (writer_heads s u2)) else writer_heads t1),
      writer_tails := (writer_tails t1)(d2 := wrap32 (writer_tails s u2)),
      mem := link_mem (wrap32 (writer_tails s d2)) (wrap32 (writer_heads s u2)) (mem t1)\<rparr>)"
    using chain_onto_fields [OF assms(5,7), of t1] h(2) unfolding r1 by simp
  moreover have "chain_onto d1 u1 t2 = Inr (t2\<lparr>writer_heads := (if wrap32 (writer_tails s d1) = 0
        then (writer_heads t2)(d1 := wrap32 (writer_heads s u1)) else writer_heads t2),
      writer_tails := (writer_tails t2)(d1 := wrap32 (writer_tails s u1)),
      mem := link_mem (wrap32 (writer_tails s d1)) (wrap32 (writer_heads s u1)) (mem t2)\<rparr>)"
    using chain_onto_fields [OF assms(4,6), of t2] h(1) unfolding r2 by simp
  ultimately show ?thesis by (simp add: t1 t2 m fun_upd_twist [OF assms(1)])
qed

section \<open>Merging\<close>

lemma merge_seq_lanes:
  "lanes s (M @ (d, x) # L @ N) \<Longrightarrow>
   \<exists>t. merge_seq (map fst L) d s = Inr t \<and> lanes t (M @ (d, x @ concat (map snd L)) # N) \<and> same_data s t"
proof (induction L arbitrary: s x)
  case Nil
  then show ?case by simp
next
  case (Cons l L)
  obtain u y where l: "l = (u, y)" by (cases l)
  obtain t where t: "chain_onto d u s = Inr t" "lanes t (M @ (d, x @ y) # L @ N)" "same_data s t"
    using chain_onto_lanes [of s M d x "[]" u y "L @ N"] Cons.prems l by auto
  from Cons.IH [OF t(2)] obtain r where "merge_seq (map fst L) d t = Inr r"
    "lanes r (M @ (d, (x @ y) @ concat (map snd L)) # N)" "same_data t r" by blast
  then show ?case using t l by (auto intro: same_data_trans)
qed

fun merge_lanes :: "(nat \<times> nat list) list \<Rightarrow> (nat \<times> nat list) list" where
  "merge_lanes ((a, x) # (b, y) # L) = (a, x @ y) # merge_lanes L"
| "merge_lanes L = L"

lemma merge_lanes_simps:
  "map fst (merge_lanes L) = every_other (map fst L)"
  "concat (map snd (merge_lanes L)) = concat (map snd L)"
  by (induction L rule: merge_lanes.induct) auto

lemma merge_pairs_lanes:
  "lanes s (M @ L) \<Longrightarrow> \<exists>t. merge_pairs (pairs_of (map fst L)) s = Inr t \<and> lanes t (M @ merge_lanes L) \<and> same_data s t"
proof (induction L arbitrary: s M rule: merge_lanes.induct)
  case (1 a x b y L)
  obtain t where t: "chain_onto a b s = Inr t" "lanes t ((M @ [(a, x @ y)]) @ L)" "same_data s t"
    using chain_onto_lanes [of s M a x "[]" b y L] "1.prems" by auto
  from "1.IH" [OF t(2)] t show ?case by (auto intro: same_data_trans)
qed auto

lemma merge_tree_lanes:
  "lanes s (M @ L) \<Longrightarrow> L \<noteq> [] \<Longrightarrow>
   \<exists>t. merge_tree (map fst L) s = Inr ([fst (hd L)], t)
     \<and> lanes t (M @ [(fst (hd L), concat (map snd L))]) \<and> same_data s t"
proof (induction "length L" arbitrary: s L rule: less_induct)
  case less
  show ?case
  proof (cases "length L \<le> 1")
    case True
    with less.prems(2) obtain l where "L = [l]" by (cases L) auto
    then show ?thesis using less.prems(1) by (cases l) (auto simp: merge_tree.simps)
  next
    case False
    obtain t where t: "merge_pairs (pairs_of (map fst L)) s = Inr t" "lanes t (M @ merge_lanes L)" "same_data s t"
      using merge_pairs_lanes [OF less.prems(1)] by blast
    have len: "length (merge_lanes L) < length L" "merge_lanes L \<noteq> []"
      using False length_every_other(2) [of "map fst L"] merge_lanes_simps(1) [of L]
      by (metis length_map linorder_not_le nat_le_iff_add numeral_2_eq_2 one_add_one plus_1_eq_Suc Suc_leI)
        (use False in \<open>cases L rule: merge_lanes.cases; auto\<close>)
    have hd: "fst (hd (merge_lanes L)) = fst (hd L)" by (cases L rule: merge_lanes.cases) auto
    obtain r where "merge_tree (map fst (merge_lanes L)) t = Inr ([fst (hd L)], r)"
      "lanes r (M @ [(fst (hd L), concat (map snd (merge_lanes L)))])" "same_data t r"
      using less.hyps [OF len(1) t(2) len(2)] hd by auto
    then show ?thesis
      using t False unfolding merge_lanes_simps
      by (subst merge_tree.simps) (auto intro: same_data_trans)
  qed
qed

text \<open>Merging N upstreams into a slot, whichever strategy the threshold picks.\<close>

lemma merge_into_lanes:
  assumes "lanes s (M @ (d, x) # L)"
  shows "\<exists>t. merge_into (map fst L) d s = Inr t \<and> lanes t (M @ [(d, x @ concat (map snd L))]) \<and> same_data s t"
proof -
  consider "L = []" | "L \<noteq> []" "length L \<le> PARALLEL_THRESHOLD" | "L \<noteq> []" "PARALLEL_THRESHOLD < length L"
    by linarith
  then show ?thesis
  proof cases
    case 1
    then show ?thesis using assms by (simp add: merge_into_def)
  next
    case 2
    then show ?thesis using merge_seq_lanes [of s M d x L "[]"] assms by (simp add: merge_into_def)
  next
    case 3
    have "lanes s ((M @ [(d, x)]) @ L)" using assms by simp
    from merge_tree_lanes [OF this 3(1)] obtain a t where
      t: "merge_tree (map fst L) s = Inr ([a], t)"
      "lanes t ((M @ [(d, x)]) @ [(a, concat (map snd L))])" "same_data s t" by metis
    then obtain r where "chain_onto d a t = Inr r" "lanes r (M @ (d, x @ concat (map snd L)) # [])" "same_data t r"
      using chain_onto_lanes [of t M d x "[]" a "concat (map snd L)" "[]"] by auto
    then show ?thesis using t 3 by (auto simp: merge_into_def intro: same_data_trans)
  qed
qed


section \<open>Lanes are unordered\<close>

lemma lanes_perm:
  assumes "mset L = mset L'" "lanes s L"
  shows "lanes s L'"
proof -
  have "mset (concat (map snd L)) = mset (concat (map snd L'))"
    using assms(1) by (metis (no_types, lifting) mset_concat mset_map sum_mset_sum_list)
  then have "distinct (concat (map snd L'))"
    using assms(2) mset_eq_imp_distinct_iff unfolding lanes_def by blast
  moreover have "mset (map fst L) = mset (map fst L')" using assms(1) by simp
  then have "distinct (map fst L')"
    using assms(2) mset_eq_imp_distinct_iff unfolding lanes_def by blast
  moreover have "set L = set L'" using assms(1) by (rule mset_eq_setD)
  ultimately show ?thesis using assms(2) unfolding lanes_def by simp
qed

lemma lanes_appendD: "lanes s (A @ B) \<Longrightarrow> lanes s A"
  unfolding lanes_def by simp

lemma laneD: "lanes s L \<Longrightarrow> (i, c) \<in> set L \<Longrightarrow> i < STREAM_SLOT_COUNT \<and> slot_chain s (Stream i) c"
  unfolding lanes_def by blast

section \<open>Shuffle\<close>

text \<open>The slots the policy answers with, one per upstream in call order.\<close>

fun policy_slots :: "nat list \<Rightarrow> nat \<Rightarrow> shuffle_policy \<Rightarrow> nat list" where
  "policy_slots [] num pol = []"
| "policy_slots (up # ups) num pol =
     (case partition_slot pol up num of
        Inl e \<Rightarrow> []
      | Inr (slot, pol') \<Rightarrow> slot # policy_slots ups num pol')"

lemma partition_slot_total: "0 < num \<Longrightarrow> \<exists>j pol'. partition_slot pol up num = Inr (j, pol')"
  by (cases pol) auto

lemma length_policy_slots: "0 < num \<Longrightarrow> length (policy_slots ups num pol) = length ups"
proof (induction ups arbitrary: pol)
  case (Cons up ups)
  obtain j pol' where "partition_slot pol up num = Inr (j, pol')"
    using partition_slot_total [OF Cons.prems] by blast
  then show ?case using Cons by simp
qed simp

definition routed :: "'b list \<Rightarrow> nat list \<Rightarrow> nat \<Rightarrow> 'b list" where
  "routed xs slots j = map fst (filter (\<lambda>(x, k). k = j) (zip xs slots))"

lemma routed_Cons [simp]: "routed (x # xs) (k # slots) j = (if k = j then [x] else []) @ routed xs slots j"
  by (simp add: routed_def)

lemma routed_map: "routed (map f xs) slots j = map f (routed xs slots j)"
  by (induction xs slots rule: list_induct2') (auto simp: routed_def)

lemma group_upstreams_spec:
  "0 < num \<Longrightarrow> \<exists>groups' pol'. group_upstreams ups num pol groups = Inr (groups', pol')
     \<and> length groups' = length groups
     \<and> (\<forall>j < length groups. groups' ! j = groups ! j @ routed ups (policy_slots ups num pol) j)"
proof (induction ups arbitrary: pol groups)
  case Nil
  then show ?case by (simp add: routed_def)
next
  case (Cons up ups)
  obtain j pol' where p: "partition_slot pol up num = Inr (j, pol')"
    using partition_slot_total [OF Cons.prems] by blast
  let ?g = "if j < length groups then groups[j := groups ! j @ [up]] else groups"
  obtain groups' pol'' where g: "group_upstreams ups num pol' ?g = Inr (groups', pol'')"
    "length groups' = length ?g"
    "\<forall>i < length ?g. groups' ! i = ?g ! i @ routed ups (policy_slots ups num pol') i"
    using Cons.IH [OF Cons.prems, of pol' ?g] by blast
  have "groups' ! i = groups ! i @ routed (up # ups) (policy_slots (up # ups) num pol) i"
    if "i < length groups" for i
    using g(3) that p by (auto simp: nth_list_update)
  then show ?case using g(1,2) p by (auto split: if_splits)
qed

lemma merge_groups_lanes:
  "lanes s (M @ concat (map (\<lambda>(L, dx). dx # L) T)) \<Longrightarrow>
   \<exists>t. merge_groups (map (\<lambda>(L, dx). (map fst L, fst dx)) T) s = Inr t
     \<and> lanes t (M @ map (\<lambda>(L, dx). (fst dx, snd dx @ concat (map snd L))) T) \<and> same_data s t"
proof (induction T arbitrary: s M)
  case Nil
  then show ?case by simp
next
  case (Cons h T)
  obtain L d x where h: "h = (L, d, x)" by (cases h)
  let ?rest = "concat (map (\<lambda>(L, dx). dx # L) T)"
  have "lanes s ((M @ ?rest) @ (d, x) # L)"
    by (rule lanes_perm [OF _ Cons.prems]) (simp add: h)
  then obtain t where t: "merge_into (map fst L) d s = Inr t"
    "lanes t ((M @ ?rest) @ [(d, x @ concat (map snd L))])" "same_data s t"
    using merge_into_lanes by blast
  have "lanes t ((M @ [(d, x @ concat (map snd L))]) @ ?rest)"
    by (rule lanes_perm [OF _ t(2)]) simp
  from Cons.IH [OF this] obtain r where r: "merge_groups (map (\<lambda>(L, dx). (map fst L, fst dx)) T) t = Inr r"
    "lanes r ((M @ [(d, x @ concat (map snd L))]) @ map (\<lambda>(L, dx). (fst dx, snd dx @ concat (map snd L))) T)"
    "same_data t r" by blast
  have "t = s" if "L = []" using t(1) that by (simp add: merge_into_def)
  then show ?case using t r by (auto simp: h intro: same_data_trans)
qed

lemma mset_routed:
  "length slots = length xs \<Longrightarrow>
   mset (concat (map (routed xs slots) [0..<n])) = mset (map fst (filter (\<lambda>(x, k). k < n) (zip xs slots)))"
proof (induction n)
  case 0
  then show ?case by simp
next
  case (Suc n)
  have "filter_mset (\<lambda>(x, k). k < Suc n) M
      = filter_mset (\<lambda>(x, k). k < n) M + filter_mset (\<lambda>(x, k). k = n) M" for M :: "('a \<times> nat) multiset"
    by (induction M) auto
  then show ?case using Suc by (simp add: routed_def)
qed

lemma lanes_filter: "lanes s (A @ B) \<Longrightarrow> lanes s (A @ map fst (filter P (zip B ks)))"
proof -
  assume l: "lanes s (A @ B)"
  have sub: "mset (map fst (filter P (zip B ks))) \<subseteq># mset B"
    by (induction B ks rule: list_induct2') (auto simp: subset_mset.le_diff_conv2 intro: subset_mset.order_trans)
  then obtain R where R: "mset B = mset (map fst (filter P (zip B ks))) + mset R"
    by (metis ex_mset subset_mset.add_diff_inverse)
  have "lanes s ((A @ map fst (filter P (zip B ks))) @ R)"
    by (rule lanes_perm [OF _ l]) (simp add: R)
  then show ?thesis by (rule lanes_appendD)
qed


lemma mset_concat_Cons:
  "mset (concat (map (\<lambda>j. f j # g j) js)) = mset (map f js) + mset (concat (map g js))"
  by (induction js) simp_all

text \<open>The shuffle of lanes \<open>U\<close> over lanes \<open>D\<close>.\<close>

lemma shuffle_lanes:
  assumes l: "lanes s (D @ U)" and ne: "D \<noteq> []"
    and c: "sh_upstream_ids c = map fst U" "sh_downstream_ids c = map fst D"
  defines "slots \<equiv> policy_slots (map fst U) (length D) (sh_policy c)"
  shows "\<exists>pol t. shuffle_bridge c s = Inr (c\<lparr>sh_policy := pol\<rparr>, t) \<and> same_data s t
    \<and> (\<forall>j < length D. slot_chain t (Stream (fst (D ! j))) (snd (D ! j) @ concat (map snd (routed U slots j))))"
proof -
  let ?n = "length D"
  have n: "0 < ?n" using ne by simp
  have len: "length slots = length U" using length_policy_slots [OF n] by (simp add: slots_def)
  obtain gs pol where g: "group_upstreams (map fst U) ?n (sh_policy c) (replicate ?n []) = Inr (gs, pol)"
    "length gs = ?n" "\<forall>j < ?n. gs ! j = routed (map fst U) slots j"
    using group_upstreams_spec [OF n, of "map fst U" "sh_policy c" "replicate ?n []"]
    by (auto simp: slots_def)
  let ?T = "map (\<lambda>j. (routed U slots j, D ! j)) [0..<?n]"
  have zip: "zip gs (map fst D) = map (\<lambda>(L, dx). (map fst L, fst dx)) ?T"
    by (rule nth_equalityI) (use g in \<open>auto simp: routed_map\<close>)
  have "mset (concat (map (\<lambda>(L, dx). dx # L) ?T))
      = mset (map ((!) D) [0..<?n]) + mset (concat (map (routed U slots) [0..<?n]))"
    using mset_concat_Cons [of "(!) D" "routed U slots" "[0..<?n]"] by (simp add: comp_def)
  also have "\<dots> = mset (D @ map fst (filter (\<lambda>(x, k). k < ?n) (zip U slots)))"
    using mset_routed [OF len] by (simp add: map_nth)
  finally have "lanes s (concat (map (\<lambda>(L, dx). dx # L) ?T))"
    by (rule lanes_perm [OF sym lanes_filter [OF l]])
  then obtain t where
    t: "merge_groups (zip gs (map fst D)) s = Inr t" "same_data s t"
      "lanes t (map (\<lambda>(L, dx). (fst dx, snd dx @ concat (map snd L))) ?T)"
    unfolding zip using merge_groups_lanes [of s "[]" ?T] unfolding append_Nil by blast
  have "slot_chain t (Stream (fst (D ! j))) (snd (D ! j) @ concat (map snd (routed U slots j)))" if "j < ?n" for j
  proof -
    have "(routed U slots j, D ! j) \<in> set ?T" using that by auto
    then have "(fst (D ! j), snd (D ! j) @ concat (map snd (routed U slots j)))
        \<in> set (map (\<lambda>(L, dx). (fst dx, snd dx @ concat (map snd L))) ?T)"
      unfolding set_map [of "\<lambda>(L, dx). (fst dx, snd dx @ concat (map snd L))"]
      by (rule image_eqI [rotated]) simp
    then show ?thesis using laneD [OF t(3)] by blast
  qed
  moreover have "shuffle_bridge c s = Inr (c\<lparr>sh_policy := pol\<rparr>, t)"
    using g t by (simp add: shuffle_bridge_def c Let_def)
  ultimately show ?thesis using t(2) by blast
qed


section \<open>Broadcast\<close>

text \<open>
  After the first downstream has been merged, the upstream chains are already linked in
  order; merging them again rewrites the same links.
\<close>

lemma link_page_same: "nxt s p = q \<Longrightarrow> link_page p q s = s"
proof -
  assume "nxt s p = q"
  then have "(mem s p)\<lparr>next_offset := q\<rparr> = mem s p" by (cases "mem s p") simp
  then show ?thesis by (simp add: link_page_def upd_page_def)
qed

lemma chain_onto_frame:
  assumes "chain_onto d u s = Inr t"
  shows "j \<noteq> d \<Longrightarrow> writer_heads t j = writer_heads s j" "j \<noteq> d \<Longrightarrow> writer_tails t j = writer_tails s j"
  using assms by (auto simp: chain_onto_def link_page_def upd_page_def split: if_splits)

lemma merge_seq_frame:
  "merge_seq ups d s = Inr t \<Longrightarrow> j \<noteq> d \<Longrightarrow> writer_heads t j = writer_heads s j \<and> writer_tails t j = writer_tails s j"
  by (induction ups arbitrary: s) (auto split: sum.splits simp: chain_onto_frame)

definition linked :: "'a shm_scheme \<Rightarrow> (nat \<times> nat list) list \<Rightarrow> bool" where
  "linked s L \<longleftrightarrow> (\<forall>(u, c) \<in> set L. u < STREAM_SLOT_COUNT
     \<and> writer_heads s u = (if c = [] then 0 else hd c) \<and> writer_tails s u = (if c = [] then 0 else last c)
     \<and> (\<forall>p \<in> set c. 0 < p \<and> p < 4294967296))"

lemma linked_cong:
  assumes "linked s L"
    and "\<And>u. u \<in> fst ` set L \<Longrightarrow> writer_heads t u = writer_heads s u \<and> writer_tails t u = writer_tails s u"
  shows "linked t L"
  unfolding linked_def
proof (intro ballI, clarify)
  fix u c assume l: "(u, c) \<in> set L"
  then have "u \<in> fst ` set L" by force
  from assms(2) [OF this] l assms(1) show "u < STREAM_SLOT_COUNT
     \<and> writer_heads t u = (if c = [] then 0 else hd c) \<and> writer_tails t u = (if c = [] then 0 else last c)
     \<and> (\<forall>p \<in> set c. 0 < p \<and> p < 4294967296)"
    unfolding linked_def by fastforce
qed

lemma merge_seq_linked:
  assumes "linked s L" "d < STREAM_SLOT_COUNT" "d \<notin> fst ` set L"
    and "chain (nxt s) h (P @ concat (map snd L))" "\<forall>p \<in> set P. 0 < p \<and> p < 4294967296"
    and "writer_heads s d = (if P = [] then 0 else h)" "writer_tails s d = (if P = [] then 0 else last P)"
  shows "\<exists>t. merge_seq (map fst L) d s = Inr t \<and> mem t = mem s \<and> same_data s t
    \<and> writer_heads t d = (if P @ concat (map snd L) = [] then 0 else h)
    \<and> writer_tails t d = (if P @ concat (map snd L) = [] then 0 else last (P @ concat (map snd L)))"
  using assms
proof (induction L arbitrary: s P)
  case Nil
  then show ?case by simp
next
  case (Cons l L)
  obtain u c where l: "l = (u, c)" by (cases l)
  note prems = Cons.prems
  have u: "u < STREAM_SLOT_COUNT" "writer_heads s u = (if c = [] then 0 else hd c)"
    "writer_tails s u = (if c = [] then 0 else last c)" "\<forall>p \<in> set c. 0 < p \<and> p < 4294967296"
    and lk: "linked s L" and dL: "d \<notin> fst ` set L" and du: "d \<noteq> u"
    using prems(1,3) by (auto simp: linked_def l)
  have ch: "chain (nxt s) h (P @ c @ concat (map snd L))" using prems(4) l by simp
  let ?t = "if c = [] then s else s\<lparr>writer_heads := (writer_heads s)(d := if P = [] then hd c else h),
      writer_tails := (writer_tails s)(d := last c)\<rparr>"
  have co: "chain_onto d u s = Inr ?t"
  proof (cases "c = []")
    case True
    then show ?thesis using u by (simp add: chain_onto_def wrap32_def)
  next
    case c: False
    then have "hd c \<in> set c" "last c \<in> set c" by simp_all
    then have w: "wrap32 (hd c) = hd c" "wrap32 (last c) = last c" "hd c \<noteq> 0" using u(4) by auto
    show ?thesis
    proof (cases "P = []")
      case True
      then show ?thesis using c u(1-3) w prems(2,6,7) by (simp add: chain_onto_def)
    next
      case P: False
      then have lP: "wrap32 (last P) = last P" "0 < last P" using prems(5) by auto
      obtain m where m: "path (nxt s) h P m" "path (nxt s) m (c @ concat (map snd L)) 0"
        using ch by auto
      have "m = hd c" using m(2) c by (cases c) auto
      moreover have "nxt s (last P) = m" using m(1) P by (induction P arbitrary: h) (auto split: if_splits)
      ultimately have "link_page (last P) (hd c) s = s" by (simp add: link_page_same)
      then show ?thesis
        using c u(1-3) w P lP prems(2,6,7) by (simp add: chain_onto_def fun_upd_idem)
    qed
  qed
  have "\<exists>r. merge_seq (map fst L) d ?t = Inr r \<and> mem r = mem ?t \<and> same_data ?t r
    \<and> writer_heads r d = (if (P @ c) @ concat (map snd L) = [] then 0 else h)
    \<and> writer_tails r d = (if (P @ c) @ concat (map snd L) = [] then 0 else last ((P @ c) @ concat (map snd L)))"
  proof (rule Cons.IH)
    show "linked ?t L" by (rule linked_cong [OF lk]) (use dL in auto)
    have "mem ?t = mem s" by simp
    then show "chain (nxt ?t) h ((P @ c) @ concat (map snd L))" using ch unfolding append_assoc by (simp only:)
    have "h = hd c" if "P = []" "c \<noteq> []" using ch that by (cases c) auto
    then show "writer_heads ?t d = (if P @ c = [] then 0 else h)" using prems(6) by auto
    show "writer_tails ?t d = (if P @ c = [] then 0 else last (P @ c))" using prems(7) by auto
  qed (use prems(2,5) u(4) dL in auto)
  then obtain r where r: "merge_seq (map fst L) d ?t = Inr r" "mem r = mem ?t" "same_data ?t r"
    "writer_heads r d = (if (P @ c) @ concat (map snd L) = [] then 0 else h)"
    "writer_tails r d = (if (P @ c) @ concat (map snd L) = [] then 0 else last ((P @ c) @ concat (map snd L)))"
    by blast
  have eq: "P @ concat (map snd (l # L)) = (P @ c) @ concat (map snd L)" by (simp add: l)
  have sd: "same_data s ?t" "mem ?t = mem s" by (simp_all add: same_data_def)
  have "merge_seq (map fst (l # L)) d s = Inr r" using co r(1) by (simp add: l)
  moreover have "mem r = mem s" "same_data s r" using r(2,3) sd by (auto intro: same_data_trans)
  ultimately show ?case unfolding eq using r(4,5) by blast
qed

lemma merge_each_linked:
  assumes "linked s L" "set ds \<inter> fst ` set L = {}" "distinct ds" "length L \<le> PARALLEL_THRESHOLD"
    and "chain (nxt s) h (concat (map snd L))" "\<forall>p \<in> set (concat (map snd L)). cursor (mem s p) \<le> PAGE_DATA_SIZE"
    and "\<forall>d \<in> set ds. d < STREAM_SLOT_COUNT \<and> writer_heads s d = 0 \<and> writer_tails s d = 0"
  shows "\<exists>t. merge_into_each (map fst L) ds s = Inr t \<and> same_data s t \<and> mem t = mem s
    \<and> (\<forall>d \<in> set ds. slot_chain t (Stream d) (concat (map snd L)))
    \<and> (\<forall>j. j \<notin> set ds \<longrightarrow> writer_heads t j = writer_heads s j \<and> writer_tails t j = writer_tails s j)"
  using assms
proof (induction ds arbitrary: s)
  case Nil
  then show ?case by simp
next
  case (Cons d ds)
  let ?W = "concat (map snd L)"
  have d: "d < STREAM_SLOT_COUNT" "d \<notin> fst ` set L" "writer_heads s d = 0" "writer_tails s d = 0" "d \<notin> set ds"
    using Cons.prems(2,3,7) by auto
  obtain t where t: "merge_seq (map fst L) d s = Inr t" "mem t = mem s" "same_data s t"
    "writer_heads t d = (if ?W = [] then 0 else h)" "writer_tails t d = (if ?W = [] then 0 else last ?W)"
    using merge_seq_linked [OF Cons.prems(1) d(1,2), of h "[]"] Cons.prems(5) d(3,4) by auto
  note fr = merge_seq_frame [OF t(1)]
  have lt: "linked t L" by (rule linked_cong [OF Cons.prems(1)]) (use fr d(2) in metis)
  have b: "0 < p \<and> p < 4294967296" if pW: "p \<in> set ?W" for p
  proof -
    obtain l where "l \<in> set L" "p \<in> set (snd l)" using pW unfolding set_concat set_map by blast
    then have "(fst l, snd l) \<in> set L" "p \<in> set (snd l)" by simp_all
    then show ?thesis using Cons.prems(1) unfolding linked_def by blast
  qed
  have "?W = [] \<Longrightarrow> h = 0" using chain_hd [OF Cons.prems(5)] by (simp only: if_True simp_thms)
  then have sc: "slot_chain t (Stream d) ?W"
    unfolding slot_chain_def using t(2,4,5) Cons.prems(5,6) b by auto
  have z: "\<forall>e \<in> set ds. writer_heads t e = 0 \<and> writer_tails t e = 0"
    using fr d(5) Cons.prems(7) by (metis list.set_intros(2))
  have mi: "merge_into (map fst L) d s = Inr t"
    using t(1) Cons.prems(4) by (auto simp: merge_into_def)
  obtain r where r: "merge_into_each (map fst L) ds t = Inr r" "same_data t r" "mem r = mem t"
    "\<forall>d \<in> set ds. slot_chain r (Stream d) ?W"
    "\<forall>j. j \<notin> set ds \<longrightarrow> writer_heads r j = writer_heads t j \<and> writer_tails r j = writer_tails t j"
    using Cons.IH [OF lt] Cons.prems t(2) z by auto
  have "slot_chain r (Stream d) ?W"
    by (rule slot_chain_cong [OF sc]) (use r d(5) in auto)
  then show ?case using r mi t(2,3) fr by (auto intro: same_data_trans)
qed


section \<open>Properties\<close>

lemma parse_records_append: "complete bs \<Longrightarrow> parse_records (bs @ cs) = parse_records bs @ parse_records cs"
  unfolding complete_def using parse_records_concat [where bs = cs] parse_records_concat [where bs = "[]"]
  by fastforce

lemma complete_concat_lanes:
  assumes "\<forall>(i, c) \<in> set L. complete (chain_bytes s c)"
  shows "parse_records (chain_bytes s (concat (map snd L)))
    = concat (map (\<lambda>(i, c). parse_records (chain_bytes s c)) L)"
  using assms by (induction L) (auto simp: parse_records_append)

text \<open>
  C2. Aggregation is a zero-copy concatenation, for any number of upstreams. Merging \<open>L\<close>
  upstream chains into a slot never panics, leaves the slot with its own pages followed by
  the upstream pages in upstream order (whether the merge ran sequentially or, beyond the
  threshold, as a tree of pairwise merges), moves no bytes, and the slot's records are
  exactly the concatenation of the records.
\<close>

theorem aggregate_concatenates:
  assumes "lanes s ((d, x) # L)" "\<forall>(i, c) \<in> set ((d, x) # L). complete (chain_bytes s c)"
    and "ag_upstream_ids c = map fst L" "ag_downstream_id c = d"
  shows "\<exists>t. aggregate_bridge c s = Inr t \<and> same_data s t
    \<and> slot_chain t (Stream d) (x @ concat (map snd L))
    \<and> parse_records (chain_bytes t (x @ concat (map snd L)))
        = parse_records (chain_bytes s x) @ concat (map (\<lambda>(i, c). parse_records (chain_bytes s c)) L)"
proof -
  obtain t where t: "merge_into (map fst L) d s = Inr t" "lanes t [(d, x @ concat (map snd L))]" "same_data s t"
    using merge_into_lanes [of s "[]" d x L] assms(1) by auto
  have "slot_chain t (Stream d) (x @ concat (map snd L))" using laneD [OF t(2)] by simp
  moreover have "parse_records (chain_bytes t (x @ concat (map snd L)))
      = parse_records (chain_bytes s x) @ concat (map (\<lambda>(i, c). parse_records (chain_bytes s c)) L)"
    using assms(2) complete_concat_lanes [of L s]
    by (simp add: same_data_bytes [OF t(3)] parse_records_append)
  ultimately show ?thesis using t assms(3,4) by (auto simp: aggregate_bridge_def)
qed

text \<open>A region with three one-page streams, for the examples.\<close>

definition three_streams :: shm where
  "three_streams = format_shared_memory
     \<lparr>writer_heads := (\<lambda>_. 0)(0 := 0x2000000, 1 := 0x2001000, 2 := 0x2002000),
      writer_tails := (\<lambda>_. 0)(0 := 0x2000000, 1 := 0x2001000, 2 := 0x2002000)\<rparr>"

lemma three_streams_lanes:
  "lanes three_streams [(7, []), (0, [0x2000000]), (1, [0x2001000]), (2, [0x2002000]), (8, []), (9, [])]"
  by (simp add: lanes_def three_streams_def format_shared_memory_def slot_chain_def zero_page_def layout_consts)

lemma three_streams_bytes: "chain_bytes three_streams ps = []"
  by (simp add: chain_bytes_def page_bytes_def three_streams_def format_shared_memory_def zero_page_def)

theorem aggregate_concatenates_witness:
  "\<exists>t. aggregate_bridge \<lparr>ag_upstream_ids = [0, 1, 2], ag_downstream_id = 7\<rparr> three_streams = Inr t
     \<and> slot_chain t (Stream 7) [0x2000000, 0x2001000, 0x2002000]"
proof -
  let ?L = "[(0, [0x2000000]), (1, [0x2001000]), (2, [0x2002000])]"
  have l: "lanes three_streams ((7, []) # ?L)"
    using lanes_appendD [of _ "(7, []) # ?L" "[(8, []), (9, [])]"] three_streams_lanes by simp
  show ?thesis
    using aggregate_concatenates [OF l, of "\<lparr>ag_upstream_ids = [0, 1, 2], ag_downstream_id = 7\<rparr>"]
    by (auto simp: three_streams_bytes)
qed

text \<open>
  C11. A shuffle routes every upstream whole, in order, to the downstream its policy picks.
  With at least one downstream it never panics, and downstream \<open>j\<close> ends up with its own
  pages followed by the pages of exactly those upstreams the policy sent to \<open>j\<close>; an upstream
  that the policy sends outside the downstream range is delivered nowhere.
\<close>

theorem shuffle_routes:
  assumes "lanes s (D @ U)" "D \<noteq> []"
    and "sh_upstream_ids c = map fst U" "sh_downstream_ids c = map fst D"
  shows "\<exists>pol t. shuffle_bridge c s = Inr (c\<lparr>sh_policy := pol\<rparr>, t) \<and> same_data s t
    \<and> (\<forall>j < length D. slot_chain t (Stream (fst (D ! j))) (snd (D ! j)
          @ concat (map snd (routed U (policy_slots (map fst U) (length D) (sh_policy c)) j))))"
  by (rule shuffle_lanes [OF assms])

theorem shuffle_routes_witness:
  "\<exists>pol t. shuffle_bridge \<lparr>sh_upstream_ids = [0, 1, 2], sh_downstream_ids = [8, 9], sh_policy = ModuloPartition\<rparr>
      three_streams = Inr (\<lparr>sh_upstream_ids = [0, 1, 2], sh_downstream_ids = [8, 9], sh_policy = pol\<rparr>, t)
    \<and> slot_chain t (Stream 8) [0x2000000, 0x2002000] \<and> slot_chain t (Stream 9) [0x2001000]"
proof -
  let ?U = "[(0, [0x2000000]), (1, [0x2001000]), (2, [0x2002000])] :: (nat \<times> nat list) list"
  let ?D = "[(8, []), (9, [])] :: (nat \<times> nat list) list"
  let ?c = "\<lparr>sh_upstream_ids = [0, 1, 2], sh_downstream_ids = [8, 9], sh_policy = ModuloPartition\<rparr>"
  have "lanes three_streams ((?D @ ?U) @ [(7, [])])"
    by (rule lanes_perm [OF _ three_streams_lanes]) simp
  then have l: "lanes three_streams (?D @ ?U)" by (rule lanes_appendD)
  have c: "?D \<noteq> []" "sh_upstream_ids ?c = map fst ?U" "sh_downstream_ids ?c = map fst ?D" by simp_all
  obtain pol t where t: "shuffle_bridge ?c three_streams = Inr (?c\<lparr>sh_policy := pol\<rparr>, t)"
    "\<forall>j < length ?D. slot_chain t (Stream (fst (?D ! j))) (snd (?D ! j)
        @ concat (map snd (routed ?U (policy_slots (map fst ?U) (length ?D) (sh_policy ?c)) j)))"
    using shuffle_routes [OF l c] by blast
  from t(2) [rule_format, of 0] t(2) [rule_format, of 1] t(1) show ?thesis
    by (intro exI [of _ pol] exI [of _ t]) (simp add: routed_def numeral_2_eq_2)
qed

text \<open>
  The shipped shuffle policies without a fixed table stay in range, so a shuffle with
  them delivers every upstream: for a positive number of downstreams every assigned slot is
  below it, one slot per upstream.
\<close>

lemma policies_in_range:
  assumes "0 < num" "pol = ModuloPartition \<or> pol = RoundRobinPartition k"
  shows "length (policy_slots ups num pol) = length ups \<and> set (policy_slots ups num pol) \<subseteq> {..<num}"
  using assms
proof (induction ups arbitrary: pol k)
  case (Cons up ups)
  have a: "length (policy_slots ups num ModuloPartition) = length ups
      \<and> set (policy_slots ups num ModuloPartition) \<subseteq> {..<num}"
    using Cons.IH [OF Cons.prems(1)] by blast
  have b: "length (policy_slots ups num (RoundRobinPartition m)) = length ups
      \<and> set (policy_slots ups num (RoundRobinPartition m)) \<subseteq> {..<num}" for m
    using Cons.IH [OF Cons.prems(1)] by blast
  show ?case using Cons.prems a b [of "Suc k mod 18446744073709551616"] by auto
qed simp

text \<open>
  A broadcast over at most \<open>PARALLEL_THRESHOLD\<close> upstreams delivers everything to
  everyone: every (previously empty) downstream slot ends up with the full concatenation of
  the upstream pages, in upstream order, and no bytes move.
\<close>

lemma broadcast_delivers:
  assumes "lanes s (map (\<lambda>d. (d, [])) ds @ U)" "length U \<le> PARALLEL_THRESHOLD"
    and "br_upstream_ids c = map fst U" "br_downstream_ids c = ds"
  shows "\<exists>t. broadcast_bridge c s = Inr t \<and> same_data s t
    \<and> (\<forall>d \<in> set ds. slot_chain t (Stream d) (concat (map snd U)))"
proof (cases ds)
  case Nil
  then show ?thesis using assms by (simp add: broadcast_bridge_def)
next
  case (Cons d ds')
  let ?W = "concat (map snd U)" and ?E = "map (\<lambda>d. (d, [] :: nat list)) ds'"
  have l: "lanes s ((?E @ [(d, [])]) @ U)"
    by (rule lanes_perm [OF _ assms(1)]) (simp add: Cons)
  then obtain t where t: "merge_into (map fst U) d s = Inr t" "same_data s t" "lanes t (?E @ [(d, ?W)])"
    using merge_into_lanes [of s ?E d "[]" U] by auto
  then have ms: "merge_seq (map fst U) d s = Inr t"
    using assms(2) by (auto simp: merge_into_def split: if_splits)
  have dist: "distinct (map fst ((?E @ [(d, [])]) @ U))" using l unfolding lanes_def by blast
  then have dU: "set (d # ds') \<inter> fst ` set U = {}" "distinct ds'" "d \<notin> set ds'"
    by (auto simp: comp_def)
  have lk: "linked s U" unfolding linked_def
  proof (intro ballI, clarify)
    fix u ch assume "(u, ch) \<in> set U"
    then have "u < STREAM_SLOT_COUNT" and sc: "slot_chain s (Stream u) ch" using laneD [OF l, of u ch] by auto
    moreover have "0 \<notin> set ch" using sc path_nonnull unfolding slot_chain_def by blast
    ultimately show "u < STREAM_SLOT_COUNT
     \<and> writer_heads s u = (if ch = [] then 0 else hd ch) \<and> writer_tails s u = (if ch = [] then 0 else last ch)
     \<and> (\<forall>p \<in> set ch. 0 < p \<and> p < 4294967296)"
      using slot_chain_head(2) [OF sc] unfolding slot_chain_def by (metis bot_nat_0.not_eq_extremum get_head.simps(1) get_tail.simps(1))
  qed
  have lt: "linked t U" by (rule linked_cong [OF lk]) (use merge_seq_frame [OF ms] dU(1) in fastforce)
  have sc: "slot_chain t (Stream d) ?W" using laneD [OF t(3), of d ?W] by simp
  have z: "e < STREAM_SLOT_COUNT \<and> writer_heads t e = 0 \<and> writer_tails t e = 0" if "e \<in> set ds'" for e
    using laneD [OF t(3), of e "[]"] that by (auto simp: slot_chain_def)
  obtain r where r: "merge_into_each (map fst U) ds' t = Inr r" "same_data t r" "mem r = mem t"
    "\<forall>d \<in> set ds'. slot_chain r (Stream d) ?W"
    "\<forall>j. j \<notin> set ds' \<longrightarrow> writer_heads r j = writer_heads t j \<and> writer_tails r j = writer_tails t j"
    using merge_each_linked [OF lt _ dU(2) assms(2), of "writer_heads t d"] dU(1) sc z
    by (auto simp: slot_chain_def)
  have "slot_chain r (Stream d) ?W"
    by (rule slot_chain_cong [OF sc]) (use r dU(3) in auto)
  then show ?thesis
    using r t(1,2) assms(3,4) Cons by (auto simp: broadcast_bridge_def intro: same_data_trans)
qed

text \<open>
  Beyond the threshold the tree merge rewrites the upstream tails. A second merge of the
  same upstreams then links the last page of the whole chain back into it.
\<close>

definition closed_in :: "nat set \<Rightarrow> 'a shm_scheme \<Rightarrow> bool" where
  "closed_in W s \<longleftrightarrow> 0 \<notin> W \<and> (\<forall>p \<in> W. nxt s p \<in> W)"

definition heads_in :: "nat set \<Rightarrow> nat set \<Rightarrow> 'a shm_scheme \<Rightarrow> bool" where
  "heads_in W I s \<longleftrightarrow> (\<forall>u \<in> I. u < STREAM_SLOT_COUNT \<and> writer_heads s u \<in> W \<and> 0 < writer_heads s u
     \<and> writer_heads s u < 4294967296)"

lemma chain_next_mem: "path f h ps t \<Longrightarrow> p \<in> set ps \<Longrightarrow> p \<noteq> last ps \<Longrightarrow> f p \<in> set ps"
proof (induction ps arbitrary: h)
  case (Cons q ps)
  then show ?case by (cases ps) auto
qed simp

lemma closed_no_chain: "closed_in W s \<Longrightarrow> h \<in> W \<Longrightarrow> \<not> chain (nxt s) h ps"
  by (induction ps arbitrary: h) (auto simp: closed_in_def intro: gr0I)

lemma chain_onto_heads_in:
  assumes "heads_in W I s" "d \<in> I" "u \<in> I"
  shows "\<exists>t. chain_onto d u s = Inr t \<and> heads_in W I t \<and> (closed_in W s \<longrightarrow> closed_in W t)
    \<and> (\<forall>j. j \<notin> I \<longrightarrow> writer_tails t j = writer_tails s j)"
proof -
  have u: "u < STREAM_SLOT_COUNT" "d < STREAM_SLOT_COUNT" "wrap32 (writer_heads s u) = writer_heads s u"
    "writer_heads s u \<in> W" "writer_heads s u \<noteq> 0"
    using assms unfolding heads_in_def by force+
  then obtain t where t: "chain_onto d u s = Inr t" by (auto simp: chain_onto_def)
  have "writer_heads t = writer_heads s \<or> writer_heads t = (writer_heads s)(d := writer_heads s u)"
    using t u by (auto simp: chain_onto_def link_page_def upd_page_def)
  then have "heads_in W I t" using assms unfolding heads_in_def by auto
  moreover have "nxt t p = nxt s p \<or> nxt t p = writer_heads s u" for p
    using t u by (auto simp: chain_onto_def link_page_def)
  then have "closed_in W t" if "closed_in W s" using that u(4) unfolding closed_in_def by metis
  moreover have "\<forall>j. j \<notin> I \<longrightarrow> writer_tails t j = writer_tails s j"
    using chain_onto_frame(2) [OF t] assms(2) by metis
  ultimately show ?thesis using t by blast
qed

lemma merge_pairs_heads_in:
  "heads_in W I s \<Longrightarrow> \<forall>(d, u) \<in> set ps. d \<in> I \<and> u \<in> I \<Longrightarrow>
   \<exists>t. merge_pairs ps s = Inr t \<and> heads_in W I t \<and> (closed_in W s \<longrightarrow> closed_in W t)
     \<and> (\<forall>j. j \<notin> I \<longrightarrow> writer_tails t j = writer_tails s j)"
proof (induction ps arbitrary: s)
  case (Cons p ps)
  obtain d u where p: "p = (d, u)" by (cases p)
  obtain t where t: "chain_onto d u s = Inr t" "heads_in W I t" "closed_in W s \<longrightarrow> closed_in W t"
    "\<forall>j. j \<notin> I \<longrightarrow> writer_tails t j = writer_tails s j"
    using chain_onto_heads_in [OF Cons.prems(1), of d u] Cons.prems(2) p by auto
  have "\<forall>(d, u) \<in> set ps. d \<in> I \<and> u \<in> I" using Cons.prems(2) by simp
  from Cons.IH [OF t(2) this] t(1,3,4) show ?case by (auto simp: p)
qed simp

lemma set_pairs_of: "(d, u) \<in> set (pairs_of xs) \<Longrightarrow> d \<in> set xs \<and> u \<in> set xs"
  by (induction xs rule: pairs_of.induct) auto

lemma set_every_other: "set (every_other xs) \<subseteq> set xs" "xs \<noteq> [] \<Longrightarrow> every_other xs \<noteq> []"
  by (induction xs rule: every_other.induct) auto

lemma merge_tree_heads_in:
  "heads_in W I s \<Longrightarrow> set xs \<subseteq> I \<Longrightarrow> xs \<noteq> [] \<Longrightarrow>
   \<exists>a t. merge_tree xs s = Inr ([a], t) \<and> a \<in> I \<and> heads_in W I t \<and> (closed_in W s \<longrightarrow> closed_in W t)
     \<and> (\<forall>j. j \<notin> I \<longrightarrow> writer_tails t j = writer_tails s j)"
proof (induction xs s rule: merge_tree.induct)
  case (1 xs s)
  show ?case
  proof (cases "length xs \<le> 1")
    case True
    then obtain a where "xs = [a]" using "1.prems"(3) by (cases xs) auto
    then show ?thesis using "1.prems" by (simp add: merge_tree.simps [of "[a]"])
  next
    case False
    have "\<forall>(d, u) \<in> set (pairs_of xs). d \<in> I \<and> u \<in> I"
      using "1.prems"(2) by (auto dest: set_pairs_of)
    note mp = merge_pairs_heads_in [OF "1.prems"(1) this]
    obtain t where t: "merge_pairs (pairs_of xs) s = Inr t" "heads_in W I t" "closed_in W s \<longrightarrow> closed_in W t"
      "\<forall>j. j \<notin> I \<longrightarrow> writer_tails t j = writer_tails s j"
      by (rule exE [OF mp]) (elim conjE, rule that)
    have "set (every_other xs) \<subseteq> I" by (rule order_trans [OF set_every_other(1) "1.prems"(2)])
    note ih = "1.IH" [OF False t(1,2) this set_every_other(2) [OF "1.prems"(3)]]
    have eq: "merge_tree xs s = merge_tree (every_other xs) t"
      using False t(1) by (subst merge_tree.simps) (simp only: if_False sum.case)
    show ?thesis unfolding eq using ih t(3,4) by metis
  qed
qed

lemma lanes_heads_in:
  assumes l: "lanes s L" and sub: "set U \<subseteq> set L" and ne: "\<forall>(i, c) \<in> set U. c \<noteq> []"
  shows "heads_in (set (concat (map snd U))) (set (map fst U)) s"
  unfolding heads_in_def
proof
  fix u assume "u \<in> set (map fst U)"
  then obtain c where uc: "(u, c) \<in> set U" by auto
  then have "u < STREAM_SLOT_COUNT" and sc: "slot_chain s (Stream u) c" and c: "c \<noteq> []"
    using laneD [OF l, of u c] ne sub by auto
  moreover have "writer_heads s u = hd c" using slot_chain_head(2) [OF sc] c by simp
  moreover have "hd c \<in> set c" "0 \<notin> set c" using c sc path_nonnull unfolding slot_chain_def by auto
  moreover have "set c \<subseteq> set (concat (map snd U))" using uc by force
  ultimately show "u < STREAM_SLOT_COUNT \<and> writer_heads s u \<in> set (concat (map snd U))
      \<and> 0 < writer_heads s u \<and> writer_heads s u < 4294967296"
    unfolding slot_chain_def by (metis not_gr_zero subsetD)
qed

text \<open>Merging slots again after the first one already holds all pages closes a cycle.\<close>

lemma merge_tree_again:
  assumes sc: "slot_chain s (Stream u0) ws" and ne: "ws \<noteq> []" and u0: "u0 < STREAM_SLOT_COUNT"
    and h: "heads_in (set ws) (set ups) s" and ups: "ups = u0 # u1 # ups'"
  shows "\<exists>a t. merge_tree ups s = Inr ([a], t) \<and> a \<in> set ups \<and> heads_in (set ws) (set ups) t
    \<and> closed_in (set ws) t \<and> (\<forall>j. j \<notin> set ups \<longrightarrow> writer_tails t j = writer_tails s j)"
proof -
  note tl = slot_chain_tail [OF sc ne]
  have u1: "writer_heads s u1 \<in> set ws" "writer_heads s u1 \<noteq> 0" "wrap32 (writer_heads s u1) = writer_heads s u1"
    "u1 < STREAM_SLOT_COUNT"
    using h unfolding heads_in_def by (auto simp: ups)
  let ?t = "(link_page (last ws) (writer_heads s u1) s)
      \<lparr>writer_tails := (writer_tails s)(u0 := wrap32 (writer_tails s u1))\<rparr>"
  have co: "chain_onto u0 u1 s = Inr ?t"
    using tl u1 u0 by (simp add: chain_onto_def)
  have "nxt s p \<in> set ws" if "p \<in> set ws" "p \<noteq> last ws" for p
    using chain_next_mem [of "nxt s" _ ws 0 p] sc that unfolding slot_chain_def by blast
  moreover have "nxt ?t p = (if p = last ws then writer_heads s u1 else nxt s p)" for p
    by (simp add: link_page_def)
  moreover have "0 \<notin> set ws" using sc path_nonnull unfolding slot_chain_def by blast
  ultimately have cl: "closed_in (set ws) ?t" using u1(1) unfolding closed_in_def by metis
  have ht: "heads_in (set ws) (set ups) ?t"
    using h unfolding heads_in_def by (simp add: link_page_def upd_page_def)
  have sub: "\<forall>(d, u) \<in> set (pairs_of ups'). d \<in> set ups \<and> u \<in> set ups"
    by (auto simp: ups dest!: set_pairs_of)
  obtain r where r: "merge_pairs (pairs_of ups') ?t = Inr r" "heads_in (set ws) (set ups) r"
    "closed_in (set ws) r" "\<forall>j. j \<notin> set ups \<longrightarrow> writer_tails r j = writer_tails ?t j"
    using merge_pairs_heads_in [OF ht sub] cl by blast
  have eo: "set (every_other ups) \<subseteq> set ups" "every_other ups \<noteq> []"
    using set_every_other [of ups] ups by auto
  have "merge_tree ups s = merge_tree (every_other ups) r"
    using co r(1) merge_tree.simps [of ups s] by (simp add: ups)
  moreover have "writer_tails ?t j = writer_tails s j" if "j \<notin> set ups" for j
    using that by (simp add: ups link_page_def upd_page_def)
  ultimately show ?thesis using merge_tree_heads_in [OF r(2) eo] r(3,4) by metis
qed

text \<open>
  C37. A broadcast over more than \<open>PARALLEL_THRESHOLD\<close> non-empty upstreams to two or more
  downstreams corrupts the routing: after it the second downstream's pages form no
  null-terminated chain at all, so a reader that starts there never reaches an end. (The
  tree merge of the first downstream moved the first upstream's tail to the last page; the
  second merge links that page back to the second upstream's head.)
\<close>

theorem broadcast_tree_cycle:
  assumes l: "lanes s ((d1, []) # (d2, []) # U)" and len: "PARALLEL_THRESHOLD < length U"
    and ne: "\<forall>(i, c) \<in> set U. c \<noteq> []"
  shows "\<exists>t. broadcast_bridge \<lparr>br_upstream_ids = map fst U, br_downstream_ids = [d1, d2]\<rparr> s = Inr t
    \<and> 0 < writer_heads t d2 \<and> \<not> (\<exists>ps. chain (nxt t) (writer_heads t d2) ps)"
proof -
  let ?W = "concat (map snd U)" and ?I = "set (map fst U)"
  have len2: "2 \<le> length U" "U \<noteq> []" using len by (auto simp: layout_consts)
  then obtain u0 c0 u1 c1 U' where U: "U = (u0, c0) # (u1, c1) # U'"
    by (cases U rule: merge_lanes.cases) auto
  have "lanes s ([(d1, []), (d2, [])] @ U)" using l by simp
  from merge_tree_lanes [OF this len2(2)] obtain t1 where
    t1: "merge_tree (map fst U) s = Inr ([u0], t1)" "lanes t1 ([(d1, []), (d2, [])] @ [(u0, ?W)])"
    by (auto simp: U)
  have ht1: "heads_in (set ?W) ?I t1"
    using merge_tree_heads_in [OF lanes_heads_in [OF l _ ne], of "map fst U"] t1(1) len2(2) by auto
  have lane1: "d1 < STREAM_SLOT_COUNT" "slot_chain t1 (Stream d1) []"
    "u0 < STREAM_SLOT_COUNT" "slot_chain t1 (Stream u0) ?W" "slot_chain t1 (Stream d2) []" "d2 < STREAM_SLOT_COUNT"
    using laneD [OF t1(2)] by auto
  obtain t2 where t2: "chain_onto d1 u0 t1 = Inr t2" "\<forall>p. mem t2 p = mem t1 p"
    "\<forall>j. j \<noteq> d1 \<longrightarrow> writer_heads t2 j = writer_heads t1 j \<and> writer_tails t2 j = writer_tails t1 j"
    using chain_onto_spec [OF lane1(1-4)] by auto
  have dd: "d1 \<noteq> d2" "d1 \<notin> ?I" "d2 \<notin> ?I" using l unfolding lanes_def by auto
  have sc2: "slot_chain t2 (Stream u0) ?W"
    by (rule slot_chain_cong [OF lane1(4)]) (use t2 dd in \<open>auto simp: U\<close>)
  have ht2: "heads_in (set ?W) ?I t2" using ht1 t2(3) dd(2) unfolding heads_in_def by metis
  have W: "?W \<noteq> []" using ne U by auto
  obtain a t3 where t3: "merge_tree (map fst U) t2 = Inr ([a], t3)" "a \<in> ?I" "heads_in (set ?W) ?I t3"
    "closed_in (set ?W) t3" "\<forall>j. j \<notin> ?I \<longrightarrow> writer_tails t3 j = writer_tails t2 j"
    using merge_tree_again [OF sc2 W lane1(3) ht2, of u1 "map fst U'"] U by auto
  have "writer_tails t3 d2 = 0" using t3(5) t2(3) dd lane1(5) by (simp add: slot_chain_def)
  moreover have a: "writer_heads t3 a \<in> set ?W" "0 < writer_heads t3 a" "wrap32 (writer_heads t3 a) = writer_heads t3 a"
    "a < STREAM_SLOT_COUNT"
    using t3(2,3) unfolding heads_in_def by auto
  ultimately obtain t4 where t4: "chain_onto d2 a t3 = Inr t4" "writer_heads t4 d2 = writer_heads t3 a" "mem t4 = mem t3"
    using lane1(6) by (simp add: chain_onto_def)
  have "merge_into_each (map fst U) [d1, d2] s = Inr t4"
    using t1(1) t2(1) t3(1) t4(1) len len2(2) by (simp add: merge_into_def)
  then have "broadcast_bridge \<lparr>br_upstream_ids = map fst U, br_downstream_ids = [d1, d2]\<rparr> s = Inr t4"
    by (simp add: broadcast_bridge_def)
  moreover have "closed_in (set ?W) t4" using t3(4) t4(3) unfolding closed_in_def by simp
  ultimately show ?thesis using closed_no_chain a(1,2) t4(2) by metis
qed

text \<open>\<open>n\<close> streams of one page each.\<close>

definition page_no :: "nat \<Rightarrow> nat" where
  "page_no i = 0x2000000 + i * 4096"

definition many_streams :: "nat \<Rightarrow> shm" where
  "many_streams n = format_shared_memory
     \<lparr>writer_heads := (\<lambda>i. if i < n then page_no i else 0),
      writer_tails := (\<lambda>i. if i < n then page_no i else 0)\<rparr>"

lemma many_streams_lanes:
  assumes "n \<le> 1000"
  shows "lanes (many_streams n) ((1500, []) # (1501, []) # map (\<lambda>i. (i, [page_no i])) [0..<n])"
proof -
  have "distinct (map page_no [0..<n])" by (simp add: distinct_map inj_on_def page_no_def)
  moreover have "concat (map (snd \<circ> (\<lambda>i. (i, [page_no i]))) xs) = map page_no xs" for xs :: "nat list"
    by (induction xs) simp_all
  moreover have "slot_chain (many_streams n) (Stream i) [page_no i]" if "i < n" for i
    using that assms by (simp add: slot_chain_def many_streams_def page_no_def format_shared_memory_def zero_page_def)
  moreover have "slot_chain (many_streams n) (Stream 1500) []" "slot_chain (many_streams n) (Stream 1501) []"
    using assms by (simp_all add: slot_chain_def many_streams_def)
  moreover have "(1500 :: nat) < STREAM_SLOT_COUNT" "(1501 :: nat) < STREAM_SLOT_COUNT" "n \<le> STREAM_SLOT_COUNT"
    using assms by (simp_all add: layout_consts)
  ultimately show ?thesis using assms unfolding lanes_def by (auto simp: comp_def)
qed

theorem broadcast_tree_cycle_witness:
  "\<exists>t. broadcast_bridge \<lparr>br_upstream_ids = [0..<51], br_downstream_ids = [1500, 1501]\<rparr> (many_streams 51) = Inr t
     \<and> \<not> (\<exists>ps. chain (nxt t) (writer_heads t 1501) ps)"
proof -
  let ?U = "map (\<lambda>i. (i, [page_no i])) [0..<51]"
  have l: "lanes (many_streams 51) ((1500, []) # (1501, []) # ?U)" by (rule many_streams_lanes) simp
  have "PARALLEL_THRESHOLD < length ?U" "\<forall>(i, c) \<in> set ?U. c \<noteq> []" by (auto simp: layout_consts)
  from broadcast_tree_cycle [OF l this] show ?thesis by (auto simp: comp_def)
qed

end
