(* ===== verification/Slicing.thy ===== *)
theory Slicing
  imports Prelude "HOL-Library.Multiset"
begin

text \<open>
  Dividing input among workers: the slice policies of \<open>host/src/policy/slice_policy.rs\<close>, the
  \<open>Slicer\<close> (\<open>runtime/mem_operation/slicer.rs\<close>), the round-robin \<open>FileDispatcher\<close>
  (\<open>routing/dispatch.rs\<close>), and the line-aligned windows of the slot loader
  (\<open>runtime/input_output/slot_loader.rs\<close>). A file is a byte list; \<open>usize\<close> products wrap at
  64 bits.
\<close>

section \<open>Slices of the standard library\<close>

abbreviation newline :: byte where "newline \<equiv> 10"

text \<open>\<open>iter().position\<close> and \<open>iter().rposition\<close>.\<close>

fun position :: "('a \<Rightarrow> bool) \<Rightarrow> 'a list \<Rightarrow> nat option" where
  "position P [] = None"
| "position P (x # xs) = (if P x then Some 0 else map_option Suc (position P xs))"

fun rposition :: "('a \<Rightarrow> bool) \<Rightarrow> 'a list \<Rightarrow> nat option" where
  "rposition P [] = None"
| "rposition P (x # xs) =
     (case rposition P xs of Some k \<Rightarrow> Some (Suc k) | None \<Rightarrow> if P x then Some 0 else None)"

definition range :: "'a list \<Rightarrow> nat \<Rightarrow> nat \<Rightarrow> 'a list" where
  "range xs i j = take (j - i) (drop i xs)"

text \<open>\<open>split(|b| b == '\n')\<close>: the pieces between separators, the last one included.\<close>

fun split_nl :: "byte list \<Rightarrow> byte list list" where
  "split_nl [] = [[]]"
| "split_nl (b # bs) =
     (if b = newline then [] # split_nl bs
      else case split_nl bs of l # ls \<Rightarrow> (b # l) # ls | [] \<Rightarrow> [[b]])"

definition lines_of :: "byte list \<Rightarrow> byte list list" where
  "lines_of bs = filter (\<lambda>l. l \<noteq> []) (split_nl bs)"

lemma position_Some:
  "position P xs = Some k \<longleftrightarrow> k < length xs \<and> P (xs ! k) \<and> (\<forall>i < k. \<not> P (xs ! i))"
proof (induction xs arbitrary: k)
  case (Cons x xs)
  show ?case using Cons by (cases k) (auto simp: All_less_Suc2)
qed simp

lemma position_None: "position P xs = None \<longleftrightarrow> (\<forall>x \<in> set xs. \<not> P x)"
  by (induction xs) auto

lemma rposition_Some: "rposition P xs = Some k \<Longrightarrow> k < length xs \<and> P (xs ! k)"
  by (induction xs arbitrary: k) (auto split: option.splits if_splits)

section \<open>Slice policies\<close>

definition usize_mul :: "nat \<Rightarrow> nat \<Rightarrow> nat" where
  "usize_mul a b = (a * b) mod 18446744073709551616"

datatype slice_policy = EqualSlice | FixedSizeSlice nat | LineBoundarySlice

fun equal_chunks :: "nat \<Rightarrow> nat \<Rightarrow> nat list \<Rightarrow> nat \<Rightarrow> (nat \<times> nat) list" where
  "equal_chunks base remainder [] offset = []"
| "equal_chunks base remainder (i # is) offset =
     (let chunk_len = base + (if i < remainder then 1 else 0)
      in (offset, chunk_len) # equal_chunks base remainder is (offset + chunk_len))"

definition equal_slices :: "byte list \<Rightarrow> nat \<Rightarrow> (nat \<times> nat) list" where
  "equal_slices dat num_workers =
     (if length dat = 0 \<or> num_workers = 0 then []
      else let n = min num_workers (length dat)
           in equal_chunks (length dat div n) (length dat mod n) [0..<n] 0)"

text \<open>The loop of \<open>FixedSizeSlice\<close>; with a zero size \<open>div_ceil\<close> panics before it starts.\<close>

function fixed_chunks :: "nat \<Rightarrow> nat \<Rightarrow> nat \<Rightarrow> (nat \<times> nat) list" where
  "fixed_chunks max_bytes len offset =
     (if offset < len \<and> 0 < max_bytes
      then (offset, min max_bytes (len - offset))
           # fixed_chunks max_bytes len (offset + min max_bytes (len - offset))
      else [])"
  by pat_completeness auto
termination by (relation "measure (\<lambda>(m, len, off). len - off)") auto

declare fixed_chunks.simps [simp del]

definition line_cut :: "byte list \<Rightarrow> nat \<Rightarrow> nat \<Rightarrow> nat" where
  "line_cut dat num_workers i =
     (let target = usize_mul i (length dat) div num_workers
      in case position (\<lambda>b. b = newline) (drop target dat) of
           Some rel \<Rightarrow> target + rel + 1
         | None \<Rightarrow> length dat)"

fun line_starts :: "byte list \<Rightarrow> nat \<Rightarrow> nat list \<Rightarrow> nat list \<Rightarrow> nat list" where
  "line_starts dat num_workers [] starts = starts"
| "line_starts dat num_workers (i # is) starts =
     (let cut = line_cut dat num_workers i
      in line_starts dat num_workers is
           (if last starts < cut \<and> cut < length dat then starts @ [cut] else starts))"

fun windows2 :: "nat list \<Rightarrow> (nat \<times> nat) list" where
  "windows2 (a # b # xs) = (a, b) # windows2 (b # xs)"
| "windows2 _ = []"

definition line_slices :: "byte list \<Rightarrow> nat \<Rightarrow> (nat \<times> nat) list" where
  "line_slices dat num_workers =
     (if length dat = 0 \<or> num_workers = 0 then []
      else if num_workers = 1 then [(0, length dat)]
      else map (\<lambda>(a, b). (a, b - a)) (filter (\<lambda>(a, b). a < b)
             (windows2 (line_starts dat num_workers [1..<num_workers] [0] @ [length dat]))))"

fun compute_slices :: "slice_policy \<Rightarrow> byte list \<Rightarrow> nat \<Rightarrow> err + (nat \<times> nat) list" where
  "compute_slices EqualSlice dat n = Inr (equal_slices dat n)"
| "compute_slices (FixedSizeSlice max_bytes) dat n =
     (if length dat = 0 then Inr []
      else if max_bytes = 0 then Inl DivideByZero
      else Inr (fixed_chunks max_bytes (length dat) 0))"
| "compute_slices LineBoundarySlice dat n = Inr (line_slices dat n)"

section \<open>Slicer and dispatcher\<close>

record file_slice =
  fs_index :: nat
  fs_offset :: nat
  fs_data :: "byte list"

definition slicer_slice :: "byte list \<Rightarrow> slice_policy \<Rightarrow> nat \<Rightarrow> err + file_slice list" where
  "slicer_slice dat policy num_workers =
     (if num_workers = 0 then Inl AssertionFailed
      else case compute_slices policy dat num_workers of
             Inl e \<Rightarrow> Inl e
           | Inr raw \<Rightarrow>
               Inr (map (\<lambda>(i, off, len). \<lparr>fs_index = i, fs_offset = off, fs_data = range dat off (off + len)\<rparr>)
                 (enumerate 0 raw)))"

text \<open>\<open>FileDispatcher\<close>: slices go to buckets by index modulo the worker count.\<close>

fun push_buckets :: "nat \<Rightarrow> ('s \<Rightarrow> nat) \<Rightarrow> 's list \<Rightarrow> 's list list \<Rightarrow> 's list list" where
  "push_buckets n idx [] buckets = buckets"
| "push_buckets n idx (sl # sls) buckets =
     push_buckets n idx sls (buckets[idx sl mod n := buckets ! (idx sl mod n) @ [sl]])"

definition assign :: "nat \<Rightarrow> ('s \<Rightarrow> nat) \<Rightarrow> 's list \<Rightarrow> err + (nat \<times> 's list) list" where
  "assign worker_count idx slices =
     (if worker_count = 0 then Inl AssertionFailed
      else Inr (filter (\<lambda>(w, b). b \<noteq> []) (enumerate 0
             (push_buckets worker_count idx slices (replicate worker_count [])))))"

section \<open>Line-aligned windows of the slot loader\<close>

definition chunk_end :: "byte list \<Rightarrow> nat \<Rightarrow> nat \<Rightarrow> nat" where
  "chunk_end dat start max_bytes =
     (let end' = min (min (start + max_bytes) 18446744073709551615) (length dat)
      in if end' < length dat then
           (case rposition (\<lambda>b. b = newline) (range dat start end') of
              Some rel \<Rightarrow> start + rel + 1
            | None \<Rightarrow> (case position (\<lambda>b. b = newline) (drop end' dat) of
                         Some rel \<Rightarrow> end' + rel + 1
                       | None \<Rightarrow> length dat))
         else end')"

definition next_line_start :: "byte list \<Rightarrow> nat \<Rightarrow> nat" where
  "next_line_start dat p =
     (if p = 0 then 0
      else if length dat \<le> p then length dat
      else case position (\<lambda>b. b = newline) (drop p dat) of
             Some rel \<Rightarrow> p + rel + 1
           | None \<Rightarrow> length dat)"

text \<open>
  The byte window of \<open>load_slice\<close>, for the conversion \<open>frac_to_byte\<close> of a fraction to a byte
  position; \<open>None\<close> when the slice is empty.
\<close>

definition slice_window :: "('f \<Rightarrow> nat) \<Rightarrow> byte list \<Rightarrow> 'f \<Rightarrow> 'f \<Rightarrow> (nat \<times> nat) option" where
  "slice_window frac_to_byte dat lo hi =
     (if length dat = 0 then None
      else let start = next_line_start dat (frac_to_byte lo);
               end' = (if length dat \<le> frac_to_byte hi then length dat
                       else next_line_start dat (frac_to_byte hi))
           in if end' \<le> start then None else Some (start, end'))"

text \<open>The records the loader appends, in order: whole file, one chunk, one slice.\<close>

definition load_records :: "byte list \<Rightarrow> byte list list" where
  "load_records dat = lines_of dat"

definition load_chunk :: "byte list \<Rightarrow> nat \<Rightarrow> nat \<Rightarrow> byte list list \<times> nat" where
  "load_chunk dat offset max_bytes =
     (if length dat \<le> offset then ([], 0)
      else let e = chunk_end dat offset max_bytes in (lines_of (range dat offset e), e - offset))"

definition load_slice :: "('f \<Rightarrow> nat) \<Rightarrow> byte list \<Rightarrow> 'f \<Rightarrow> 'f \<Rightarrow> byte list list" where
  "load_slice frac_to_byte dat lo hi =
     (case slice_window frac_to_byte dat lo hi of
        None \<Rightarrow> []
      | Some (start, e) \<Rightarrow> lines_of (range dat start e))"

section \<open>Tilings\<close>

text \<open>\<open>tiles off cs len\<close>: the chunks \<open>cs\<close> are non-empty, contiguous, start at \<open>off\<close> and end at \<open>len\<close>.\<close>

fun tiles :: "nat \<Rightarrow> (nat \<times> nat) list \<Rightarrow> nat \<Rightarrow> bool" where
  "tiles off [] len \<longleftrightarrow> off = len"
| "tiles off ((o', l) # cs) len \<longleftrightarrow> o' = off \<and> 0 < l \<and> tiles (off + l) cs len"

lemma tiles_le: "tiles off cs len \<Longrightarrow> off \<le> len"
  by (induction off cs len rule: tiles.induct) auto

lemma range_append:
  assumes "i \<le> j" "j \<le> k"
  shows "range xs i j @ range xs j k = range xs i k"
proof -
  have "k - i = (j - i) + (k - j)" "drop (j - i) (drop i xs) = drop j xs" using assms by simp_all
  then show ?thesis by (simp only: range_def take_add)
qed

lemma range_full [simp]: "length xs \<le> j \<Longrightarrow> range xs i j = drop i xs"
  by (simp add: range_def)

lemma tiles_concat:
  "tiles off cs (length xs) \<Longrightarrow> concat (map (\<lambda>(o', l). range xs o' (o' + l)) cs) = drop off xs"
proof (induction off cs "length xs" rule: tiles.induct)
  case (2 off o' l cs)
  then have "off + l \<le> length xs" using tiles_le by fastforce
  then show ?case using 2 by (simp add: range_def) (metis add.commute append_take_drop_id drop_drop)
qed simp


lemma equal_chunks_tiles:
  assumes "0 < base"
  shows "tiles off (equal_chunks base r [k..<n] off) (off + base * (n - k) + (min r n - min r k))"
proof (induction "n - k" arbitrary: k off)
  case 0
  then show ?case by simp
next
  case (Suc m)
  then have k: "k < n" and m: "m = n - Suc k" by simp_all
  let ?l = "base + (if k < r then 1 else 0)"
  have len: "off + ?l + base * (n - Suc k) + (min r n - min r (Suc k)) = off + base * (n - k) + (min r n - min r k)"
  proof -
    have "base * (n - k) = base + base * (n - Suc k)" using k by (metis Suc_diff_Suc mult_Suc_right)
    moreover have "(if k < r then 1 else 0) + (min r n - min r (Suc k)) = min r n - min r k"
      using k by (auto simp: min_def)
    ultimately show ?thesis by linarith
  qed
  have "tiles (off + ?l) (equal_chunks base r [Suc k..<n] (off + ?l)) (off + base * (n - k) + (min r n - min r k))"
    using Suc(1) [OF m, of "off + ?l"] unfolding len .
  then show ?case using k assms by (simp add: upt_conv_Cons Let_def)
qed

lemma equal_slices_tiles: "0 < num \<Longrightarrow> tiles 0 (equal_slices dat num) (length dat)"
proof (cases "length dat = 0")
  case False
  assume "0 < num"
  let ?n = "min num (length dat)"
  have n: "0 < ?n" "?n \<le> length dat" using False \<open>0 < num\<close> by auto
  then have "0 < length dat div ?n" by (simp add: div_greater_zero_iff)
  from equal_chunks_tiles [OF this, of 0 "length dat mod ?n" 0 ?n]
  have "tiles 0 (equal_chunks (length dat div ?n) (length dat mod ?n) [0..<?n] 0)
      (length dat div ?n * ?n + min (length dat mod ?n) ?n)" by simp
  moreover have "min (length dat mod ?n) ?n = length dat mod ?n"
    using n(1) by (simp add: min_def less_imp_le)
  ultimately show ?thesis using False \<open>0 < num\<close> by (simp add: equal_slices_def Let_def div_mult_mod_eq)
qed (simp add: equal_slices_def)

lemma fixed_chunks_tiles: "0 < m \<Longrightarrow> off \<le> len \<Longrightarrow> tiles off (fixed_chunks m len off) len"
proof (induction m len off rule: fixed_chunks.induct)
  case (1 m len off)
  then show ?case by (subst fixed_chunks.simps) auto
qed

text \<open>Line boundaries: the starts are increasing, and each is just behind a newline.\<close>

definition line_start :: "byte list \<Rightarrow> nat \<Rightarrow> bool" where
  "line_start dat p \<longleftrightarrow> p = 0 \<or> p \<le> length dat \<and> dat ! (p - 1) = newline"

lemma line_cut_start:
  assumes "line_cut dat n i < length dat"
  shows "line_start dat (line_cut dat n i)"
proof -
  let ?t = "usize_mul i (length dat) div n"
  obtain rel where rel: "position (\<lambda>b. b = newline) (drop ?t dat) = Some rel"
    using assms by (auto simp: line_cut_def Let_def split: option.splits)
  then have "drop ?t dat ! rel = newline" "rel < length (drop ?t dat)" by (simp_all add: position_Some)
  then show ?thesis using assms rel by (simp add: line_cut_def Let_def line_start_def)
qed

lemma line_starts_inv:
  assumes "starts \<noteq> []" "hd starts = 0" "sorted_wrt (<) starts" "\<forall>p \<in> set starts. p < length dat \<and> line_start dat p"
  shows "hd (line_starts dat n is starts) = 0 \<and> line_starts dat n is starts \<noteq> []
    \<and> sorted_wrt (<) (line_starts dat n is starts)
    \<and> (\<forall>p \<in> set (line_starts dat n is starts). p < length dat \<and> line_start dat p)"
  using assms
proof (induction "is" arbitrary: starts)
  case (Cons i "is")
  let ?cut = "line_cut dat n i"
  let ?st = "if last starts < ?cut \<and> ?cut < length dat then starts @ [?cut] else starts"
  have "x \<le> last starts" if "x \<in> set starts" for x
    using Cons.prems(1,3) that
    by (metis append_butlast_last_id in_set_butlast_appendI in_set_conv_decomp less_imp_le order_refl
        rotate1.simps(2) set_ConsD set_rotate1 sorted_wrt_append)
  then have "sorted_wrt (<) ?st"
    using Cons.prems(3) by (auto simp: sorted_wrt_append intro: le_less_trans)
  moreover have "?st \<noteq> []" "hd ?st = 0" using Cons.prems(1,2) by auto
  moreover have "\<forall>p \<in> set ?st. p < length dat \<and> line_start dat p"
    using Cons.prems(4) line_cut_start [of dat n i] by auto
  ultimately show ?case using Cons.IH [of ?st] unfolding line_starts.simps Let_def by blast
qed simp

lemma windows_tiles:
  "sorted_wrt (<) (a # xs) \<Longrightarrow> \<forall>x \<in> set (a # xs). x < len \<Longrightarrow>
   tiles a (map (\<lambda>(a, b). (a, b - a)) (filter (\<lambda>(a, b). a < b) (windows2 ((a # xs) @ [len])))) len"
proof (induction xs arbitrary: a)
  case Nil
  then show ?case by simp
next
  case (Cons b xs)
  then show ?case using Cons.IH [of b] by auto
qed

lemma line_slices_tiles:
  "0 < num \<Longrightarrow> tiles 0 (line_slices dat num) (length dat)
     \<and> (\<forall>(off, l) \<in> set (line_slices dat num). line_start dat off)"
proof -
  assume n: "0 < num"
  show ?thesis
  proof (cases "length dat = 0 \<or> num = 1")
    case True
    then show ?thesis using n by (auto simp: line_slices_def line_start_def)
  next
    case False
    let ?st = "line_starts dat num [1..<num] [0]"
    have inv: "hd ?st = 0" "?st \<noteq> []" "sorted_wrt (<) ?st" "\<forall>p \<in> set ?st. p < length dat \<and> line_start dat p"
      using line_starts_inv [of "[0]" dat num "[1..<num]"] False by (simp_all add: line_start_def)
    then obtain xs where xs: "?st = 0 # xs" by (cases ?st) auto
    have w: "a \<in> set ys" if "(a, b) \<in> set (windows2 (ys @ [len]))" for a b ys len
      using that by (induction ys rule: windows2.induct) auto
    have eq: "line_slices dat num = map (\<lambda>(a, b). (a, b - a)) (filter (\<lambda>(a, b). a < b)
             (windows2 (?st @ [length dat])))"
      using False n by (simp add: line_slices_def)
    show ?thesis
      using windows_tiles [of 0 xs "length dat"] inv(3,4) w [where ys = ?st] unfolding eq xs by fastforce
  qed
qed


section \<open>Lines\<close>

lemma split_nl_nonempty: "split_nl bs \<noteq> []"
  by (induction bs) (auto split: list.splits)

lemma split_nl_append:
  "split_nl (a @ newline # b) = split_nl a @ split_nl b"
proof (induction a)
  case (Cons x a)
  show ?case
  proof (cases "x = newline")
    case False
    obtain l ls where "split_nl a = l # ls" using split_nl_nonempty by (cases "split_nl a") auto
    then show ?thesis using Cons False by simp
  qed (use Cons in simp)
qed simp

lemma lines_of_Nil [simp]: "lines_of [] = []"
  by (simp add: lines_of_def)

text \<open>Cutting behind a newline cuts between lines.\<close>

lemma lines_of_append: "a = [] \<or> last a = newline \<Longrightarrow> lines_of (a @ b) = lines_of a @ lines_of b"
proof (cases "a = []")
  case False
  assume "a = [] \<or> last a = newline"
  then have a: "a = butlast a @ [newline]" using False by (metis append_butlast_last_id)
  have "lines_of (a @ b) = lines_of (butlast a) @ lines_of b"
    by (subst a) (simp add: lines_of_def split_nl_append)
  moreover have "lines_of a = lines_of (butlast a)"
    by (subst a) (simp add: lines_of_def split_nl_append [of _ "[]"])
  ultimately show ?thesis by simp
qed simp

lemma lines_of_cut:
  assumes "line_start dat j" "i \<le> j" "j \<le> k"
  shows "lines_of (range dat i k) = lines_of (range dat i j) @ lines_of (range dat j k)"
proof -
  have "range dat i j = [] \<or> last (range dat i j) = newline"
  proof (cases "i < j \<and> j \<le> length dat")
    case True
    then have ne: "range dat i j \<noteq> []" "length (range dat i j) = j - i" by (auto simp: range_def)
    then have "last (range dat i j) = range dat i j ! (j - i - 1)" by (simp add: last_conv_nth)
    also have "\<dots> = dat ! (i + (j - i - 1))"
      unfolding range_def by (subst nth_take) (use True in auto)
    also have "\<dots> = dat ! (j - 1)" using True by simp
    finally show ?thesis using assms(1) True by (auto simp: line_start_def)
  next
    case False
    then show ?thesis using assms by (auto simp: line_start_def range_def)
  qed
  from lines_of_append [OF this, of "range dat j k"] show ?thesis
    by (simp add: range_append assms(2,3))
qed

lemma chunk_end_bounds:
  assumes "start < length dat" "length dat < 18446744073709551616"
  shows "start < chunk_end dat start m \<and> chunk_end dat start m \<le> length dat
    \<and> (chunk_end dat start m = length dat \<or> line_start dat (chunk_end dat start m))"
proof -
  define e' where "e' = min (min (start + m) 18446744073709551615) (length dat)"
  have e: "start \<le> e'" "e' \<le> length dat" using assms by (auto simp: e'_def)
  note def = chunk_end_def Let_def e'_def [symmetric] line_start_def
  show ?thesis
  proof (cases "e' < length dat")
    case False
    then show ?thesis using assms e by (simp add: def)
  next
    case lt: True
    show ?thesis
    proof (cases "rposition (\<lambda>b. b = newline) (range dat start e')")
      case (Some rel)
      then have "rel < length (range dat start e')" "range dat start e' ! rel = newline"
        using rposition_Some [OF Some] by auto
      then have "start + rel < e'" "dat ! (start + rel) = newline" using e by (auto simp: range_def)
      then show ?thesis using lt Some e by (simp add: def)
    next
      case None
      show ?thesis
      proof (cases "position (\<lambda>b. b = newline) (drop e' dat)")
        case (Some rel)
        then have "e' + rel < length dat" "dat ! (e' + rel) = newline" by (auto simp: position_Some)
        then show ?thesis using lt None Some e assms by (simp add: def)
      next
        case None': None
        then show ?thesis using lt None e assms by (simp add: def)
      qed
    qed
  qed
qed

text \<open>Loading chunk after chunk until nothing is consumed, as the pipeline does.\<close>

function load_chunks :: "byte list \<Rightarrow> nat \<Rightarrow> nat \<Rightarrow> byte list list" where
  "load_chunks dat offset max_bytes =
     (if length dat < 18446744073709551616 \<and> snd (load_chunk dat offset max_bytes) \<noteq> 0
      then fst (load_chunk dat offset max_bytes)
           @ load_chunks dat (offset + snd (load_chunk dat offset max_bytes)) max_bytes
      else [])"
  by pat_completeness auto
termination
  by (relation "measure (\<lambda>(dat, off, m). length dat - off)")
    (auto simp: load_chunk_def Let_def dest: chunk_end_bounds split: if_splits)

declare load_chunks.simps [simp del]

lemma load_chunks_spec:
  assumes "length dat < 18446744073709551616"
  shows "load_chunks dat off m = lines_of (drop off dat)"
  using assms
proof (induction dat off m rule: load_chunks.induct)
  case (1 dat off m)
  show ?case
  proof (cases "length dat \<le> off")
    case True
    then show ?thesis by (simp add: load_chunks.simps load_chunk_def)
  next
    case False
    let ?e = "chunk_end dat off m"
    have off: "off < length dat" using False by simp
    note b = chunk_end_bounds [OF off "1.prems", of m]
    have lc: "load_chunk dat off m = (lines_of (range dat off ?e), ?e - off)"
      using False by (simp add: load_chunk_def Let_def)
    have cut: "lines_of (range dat off (length dat)) = lines_of (range dat off ?e) @ lines_of (range dat ?e (length dat))"
    proof (cases "?e = length dat")
      case False
      then show ?thesis using b by (intro lines_of_cut) auto
    qed simp
    have "load_chunks dat off m = lines_of (range dat off ?e) @ load_chunks dat ?e m"
      using b "1.prems" by (subst load_chunks.simps) (simp add: lc)
    moreover have "load_chunks dat ?e m = lines_of (drop ?e dat)"
      using "1.IH" "1.prems" b lc by simp
    ultimately show ?thesis using cut by simp
  qed
qed

lemma next_line_start_bounds: "next_line_start dat p \<le> length dat"
  "line_start dat (next_line_start dat p) \<or> next_line_start dat p = length dat"
proof -
  have *: "p + rel + 1 \<le> length dat \<and> line_start dat (p + rel + 1)"
    if "position (\<lambda>b. b = newline) (drop p dat) = Some rel" for rel
  proof -
    have "rel < length (drop p dat)" "drop p dat ! rel = newline" using that by (simp_all add: position_Some)
    then show ?thesis by (simp add: line_start_def)
  qed
  show "next_line_start dat p \<le> length dat"
    "line_start dat (next_line_start dat p) \<or> next_line_start dat p = length dat"
    using * by (auto simp: next_line_start_def line_start_def split: option.splits)
qed

lemma next_line_start_mono:
  assumes "p \<le> q"
  shows "next_line_start dat p \<le> next_line_start dat q"
proof -
  consider "p = 0 \<or> length dat \<le> q \<or> position (\<lambda>b. b = newline) (drop q dat) = None"
    | rq where "0 < p" "q < length dat" "position (\<lambda>b. b = newline) (drop q dat) = Some rq" by force
  then show ?thesis
  proof cases
    case 1
    then show ?thesis
      using next_line_start_bounds(1) [of dat p] assms by (auto simp: next_line_start_def split: option.splits)
  next
    case 2
    then have nq: "rq < length dat - q" "dat ! (q + rq) = newline" by (auto simp: position_Some)
    have at: "(q - p) + rq < length (drop p dat)" "drop p dat ! ((q - p) + rq) = newline"
      using nq 2 assms by auto
    then obtain rp where rp: "position (\<lambda>b. b = newline) (drop p dat) = Some rp"
      using position_None [of "\<lambda>b. b = newline" "drop p dat"] nth_mem by (metis (mono_tags) not_Some_eq)
    then have "rp \<le> (q - p) + rq" using at position_Some by (metis (mono_tags, lifting) linorder_not_less)
    then show ?thesis using 2 rp assms by (simp add: next_line_start_def)
  qed
qed


lemma load_slice_eq:
  assumes "dat \<noteq> []"
  shows "load_slice fb dat lo hi = lines_of (range dat (next_line_start dat (fb lo)) (next_line_start dat (fb hi)))"
proof -
  let ?s = "next_line_start dat (fb lo)" and ?e = "next_line_start dat (fb hi)"
  have e: "(if length dat \<le> fb hi then length dat else ?e) = ?e"
    using assms by (auto simp: next_line_start_def)
  show ?thesis
  proof (cases "?e \<le> ?s")
    case True
    then show ?thesis using assms e by (simp add: load_slice_def slice_window_def Let_def range_def)
  next
    case False
    then show ?thesis using assms e by (simp add: load_slice_def slice_window_def Let_def)
  qed
qed

lemma load_slices_spec:
  assumes "dat \<noteq> []" "sorted (map fb (f # fs))"
  shows "concat (map (\<lambda>(lo, hi). load_slice fb dat lo hi) (zip (f # fs) fs))
    = lines_of (range dat (next_line_start dat (fb f)) (next_line_start dat (fb (last (f # fs)))))"
  using assms(2)
proof (induction fs arbitrary: f)
  case Nil
  then show ?case by (simp add: range_def)
next
  case (Cons g fs)
  let ?n = "\<lambda>f. next_line_start dat (fb f)"
  have le: "?n f \<le> ?n g" using Cons.prems by (auto intro: next_line_start_mono)
  have "fb g \<le> fb (last (g # fs))" using Cons.prems by (cases fs) (auto simp: sorted_wrt_append)
  then have le': "?n g \<le> ?n (last (g # fs))" by (rule next_line_start_mono)
  have cut: "lines_of (range dat (?n f) (?n (last (g # fs))))
      = lines_of (range dat (?n f) (?n g)) @ lines_of (range dat (?n g) (?n (last (g # fs))))"
  proof (cases "line_start dat (?n g)")
    case True
    then show ?thesis by (rule lines_of_cut [OF _ le le'])
  next
    case False
    then have "?n g = length dat" using next_line_start_bounds(2) [of dat "fb g"] by blast
    then have "?n (last (g # fs)) = length dat"
      using le' next_line_start_bounds(1) [of dat "fb (last (g # fs))"] by simp
    then show ?thesis using \<open>?n g = length dat\<close> by simp
  qed
  have "sorted (map fb (g # fs))" using Cons.prems by simp
  from Cons.IH [OF this] show ?case using cut by (simp add: load_slice_eq [OF assms(1)])
qed

lemma slices_exhaust:
  assumes "dat \<noteq> []" "sorted (map fb (f # fs))" "fb f = 0" "length dat \<le> fb (last (f # fs))"
  shows "concat (map (\<lambda>(lo, hi). load_slice fb dat lo hi) (zip (f # fs) fs)) = lines_of dat"
proof -
  define e where "e = fb (last (f # fs))"
  have "0 < e" "length dat \<le> e" using assms(1,4) unfolding e_def by (metis length_greater_0_conv order_less_le_trans, simp)
  then have "next_line_start dat e = length dat" "next_line_start dat (fb f) = 0" using assms(3) by (simp_all add: next_line_start_def)
  then show ?thesis using load_slices_spec [OF assms(1,2)] unfolding e_def by simp
qed

lemma push_buckets_spec:
  assumes "0 < n" "length buckets = n"
  shows "length (push_buckets n idx sls buckets) = n
    \<and> (\<forall>j < n. push_buckets n idx sls buckets ! j = buckets ! j @ filter (\<lambda>s. idx s mod n = j) sls)"
  using assms(2)
proof (induction sls arbitrary: buckets)
  case (Cons s sls)
  from Cons.IH [of "buckets[idx s mod n := buckets ! (idx s mod n) @ [s]]"] Cons.prems
  show ?case by (auto simp: nth_list_update)
qed simp

lemma fixed_chunks_bound: "(off, l) \<in> set (fixed_chunks m len start) \<Longrightarrow> l \<le> m"
proof (induction m len start rule: fixed_chunks.induct)
  case (1 m len start)
  then show ?case by (subst (asm) (2) fixed_chunks.simps) (auto split: if_splits)
qed

lemma equal_slices_lengths:
  assumes "0 < num"
  shows "map snd (equal_slices dat num) = (let k = min num (length dat) in
    map (\<lambda>i. length dat div k + (if i < length dat mod k then 1 else 0)) [0..<k])"
proof -
  have "map snd (equal_chunks base r is off) = map (\<lambda>i. base + (if i < r then 1 else 0)) is" for base r "is" off
    by (induction "is" arbitrary: off) (simp_all add: Let_def)
  then show ?thesis using assms by (simp add: equal_slices_def Let_def)
qed

section \<open>Properties\<close>

text \<open>
  C30. Slicing loses and duplicates nothing: with every policy (a fixed size being
  positive) the slices are non-empty, numbered consecutively, contiguous, and together are
  exactly the file. The line policy starts every slice at the beginning of a line; the fixed-size policy exceeds its
  size nowhere; the equal policy makes as many slices as there are workers (or bytes, when these are fewer),
  whose first ones, not the last, take one byte of the remainder each.
\<close>

theorem slicer_partitions:
  assumes "0 < n" "policy \<noteq> FixedSizeSlice 0"
  shows "\<exists>fs. slicer_slice dat policy n = Inr fs \<and> concat (map fs_data fs) = dat
    \<and> tiles 0 (map (\<lambda>f. (fs_offset f, length (fs_data f))) fs) (length dat)
    \<and> map fs_index fs = [0..<length fs]
    \<and> (policy = LineBoundarySlice \<longrightarrow> (\<forall>f \<in> set fs. line_start dat (fs_offset f)))
    \<and> (\<forall>m. policy = FixedSizeSlice m \<longrightarrow> (\<forall>f \<in> set fs. length (fs_data f) \<le> m))
    \<and> (policy = EqualSlice \<longrightarrow> (let k = min n (length dat) in
         map (\<lambda>f. length (fs_data f)) fs = map (\<lambda>i. length dat div k + (if i < length dat mod k then 1 else 0)) [0..<k]))"
proof -
  obtain cs where cs: "compute_slices policy dat n = Inr cs"
    using assms(2) by (cases policy; cases "dat = []") auto
  let ?cs = cs
  let ?mk = "\<lambda>(i, off, len). \<lparr>fs_index = i, fs_offset = off, fs_data = range dat off (off + len)\<rparr>"
  let ?fs = "map ?mk (enumerate 0 ?cs)"
  have t: "tiles 0 ?cs (length dat)"
    using assms cs equal_slices_tiles [OF assms(1)] line_slices_tiles [OF assms(1)]
      fixed_chunks_tiles [of _ 0 "length dat"]
    by (cases policy) (auto split: if_splits)
  have en: "map (\<lambda>x. f (snd x)) (enumerate k cs) = map f cs" for f :: "nat \<times> nat \<Rightarrow> 'c" and k cs
    by (induction cs arbitrary: k) auto
  have "concat (map fs_data ?fs) = concat (map (\<lambda>(o', l). range dat o' (o' + l)) ?cs)"
    using en [of "\<lambda>(o', l). range dat o' (o' + l)" 0 ?cs] by (simp add: comp_def split_beta)
  also have "\<dots> = dat" using tiles_concat [OF t] by simp
  finally have cc: "concat (map fs_data ?fs) = dat" .
  have len: "off + l \<le> length dat" if "(off, l) \<in> set cs" "tiles o' cs (length dat)" for off l o' cs
    using that(2,1) by (induction o' cs "length dat" rule: tiles.induct) (auto dest: tiles_le)
  have "map (\<lambda>f. (fs_offset f, length (fs_data f))) ?fs = map (\<lambda>(off, l). (off, length (range dat off (off + l)))) ?cs"
    using en [of "\<lambda>(off, l). (off, length (range dat off (off + l)))" 0 ?cs] by (simp add: comp_def split_beta)
  also have "\<dots> = ?cs"
  proof (rule map_idI)
    fix c assume c: "c \<in> set ?cs"
    then have "fst c + snd c \<le> length dat" using len [of "fst c" "snd c"] t by simp
    then show "(\<lambda>(off, l). (off, length (range dat off (off + l)))) c = c"
      by (simp add: range_def split_beta)
  qed
  finally have off: "map (\<lambda>f. (fs_offset f, length (fs_data f))) ?fs = ?cs" .
  have "map fs_index ?fs = [0..<length ?fs]"
    by (simp add: comp_def split_beta enumerate_eq_zip)
  moreover have "line_start dat (fs_offset f)" if "policy = LineBoundarySlice" "f \<in> set ?fs" for f
  proof -
    have "(fs_offset f, length (fs_data f)) \<in> set ?cs"
      using that(2) off by (metis (no_types, lifting) image_eqI list.set_map)
    then show ?thesis using line_slices_tiles [OF assms(1), of dat] that(1) cs by auto
  qed
  moreover have "length (fs_data f) \<le> m" if "policy = FixedSizeSlice m" "f \<in> set ?fs" for m f
  proof -
    have "(fs_offset f, length (fs_data f)) \<in> set ?cs"
      using that(2) off by (metis (no_types, lifting) image_eqI list.set_map)
    then show ?thesis using fixed_chunks_bound that(1) cs by (auto split: if_splits)
  qed
  moreover have "map (\<lambda>f. length (fs_data f)) ?fs = map (\<lambda>i. length dat div k + (if i < length dat mod k then 1 else 0)) [0..<k]"
    if "policy = EqualSlice" "k = min n (length dat)" for k
  proof -
    have "map (\<lambda>f. length (fs_data f)) ?fs = map snd (map (\<lambda>f. (fs_offset f, length (fs_data f))) ?fs)" by simp
    then have "map (\<lambda>f. length (fs_data f)) ?fs = map snd ?cs" unfolding off .
    then show ?thesis using that cs equal_slices_lengths [OF assms(1), of dat] by (simp add: Let_def)
  qed
  ultimately have "slicer_slice dat policy n = Inr ?fs \<and> concat (map fs_data ?fs) = dat
    \<and> tiles 0 (map (\<lambda>f. (fs_offset f, length (fs_data f))) ?fs) (length dat) \<and> map fs_index ?fs = [0..<length ?fs]
    \<and> (policy = LineBoundarySlice \<longrightarrow> (\<forall>f \<in> set ?fs. line_start dat (fs_offset f)))
    \<and> (\<forall>m. policy = FixedSizeSlice m \<longrightarrow> (\<forall>f \<in> set ?fs. length (fs_data f) \<le> m))
    \<and> (policy = EqualSlice \<longrightarrow> (let k = min n (length dat) in
         map (\<lambda>f. length (fs_data f)) ?fs = map (\<lambda>i. length dat div k + (if i < length dat mod k then 1 else 0)) [0..<k]))"
    using cc t assms(1) cs unfolding off Let_def by (simp add: slicer_slice_def)
  then show ?thesis by (rule exI [of _ ?fs])
qed

theorem slicer_partitions_witness:
  "\<exists>fs. slicer_slice [97, 10, 98, 98, 10, 99] LineBoundarySlice 2 = Inr fs
     \<and> concat (map fs_data fs) = [97, 10, 98, 98, 10, 99]"
  using slicer_partitions [of 2 LineBoundarySlice "[97, 10, 98, 98, 10, 99]"] by auto

text \<open>
  The dispatcher hands every slice to exactly one worker: worker \<open>w\<close> receives, in
  dispatch order, the slices whose index is \<open>w\<close> modulo the worker count; workers with
  nothing to do are left out.
\<close>

lemma assign_round_robin:
  assumes "0 < worker_count"
  shows "\<exists>as. assign worker_count idx slices = Inr as
    \<and> (\<forall>(w, b) \<in> set as. w < worker_count \<and> b = filter (\<lambda>s. idx s mod worker_count = w) slices \<and> b \<noteq> [])
    \<and> (\<forall>s \<in> set slices. \<exists>!w. \<exists>b. (w, b) \<in> set as \<and> s \<in> set b)"
proof -
  let ?bs = "push_buckets worker_count idx slices (replicate worker_count [])"
  let ?as = "filter (\<lambda>(w, b). b \<noteq> []) (enumerate 0 ?bs)"
  have bs: "length ?bs = worker_count"
    "\<And>j. j < worker_count \<Longrightarrow> ?bs ! j = filter (\<lambda>s. idx s mod worker_count = j) slices"
    using push_buckets_spec [OF assms, of "replicate worker_count []" idx slices] by auto
  have mem: "(w, b) \<in> set ?as \<longleftrightarrow> w < worker_count \<and> b = filter (\<lambda>s. idx s mod worker_count = w) slices \<and> b \<noteq> []" for w b
    using bs by (auto simp: in_set_enumerate_eq)
  have "\<exists>!w. \<exists>b. (w, b) \<in> set ?as \<and> s \<in> set b" if "s \<in> set slices" for s
  proof (rule ex1I [of _ "idx s mod worker_count"])
    show "\<exists>b. (idx s mod worker_count, b) \<in> set ?as \<and> s \<in> set b"
      using that assms unfolding mem by (auto simp: filter_empty_conv)
  qed (unfold mem, auto)
  moreover have "\<forall>(w, b) \<in> set ?as. w < worker_count \<and> b = filter (\<lambda>s. idx s mod worker_count = w) slices \<and> b \<noteq> []"
    using mem by blast
  moreover have "assign worker_count idx slices = Inr ?as" using assms by (simp add: assign_def)
  ultimately show ?thesis by (intro exI [of _ ?as] conjI) (assumption, assumption, blast)
qed

text \<open>
  Chunked loading reads every line of the file exactly once: loading chunk after chunk
  from offset zero, for any window size (zero included), terminates and appends exactly the
  non-empty lines of the file in order, never splitting a line.
\<close>

lemma chunked_load_complete:
  assumes "length dat < 18446744073709551616"
  shows "load_chunks dat 0 max_bytes = lines_of dat"
  using load_chunks_spec [OF assms, of 0] by simp

end
