(* ===== verification/Topo.thy ===== *)
theory Topo
  imports Prelude "HOL-Library.Multiset"
begin

text \<open>
  Kahn's algorithm on node indices, as both the executor (\<open>dag_runner/plan.rs\<close>,
  \<open>topo_sort\<close>) and the partitioner use it: a queue of nodes without open dependencies,
  counters of open dependencies, and the adjacency lists \<open>adj\<close> of dependents. The loop is a
  partial function whose \<open>None\<close> would be non-termination.
\<close>

section \<open>The algorithm\<close>

definition usize_dec :: "nat \<Rightarrow> nat" where
  "usize_dec d = (if d = 0 then 18446744073709551615 else d - 1)"

text \<open>\<open>for &m in &adj[n]\<close>: decrement, and enqueue what reaches zero.\<close>

fun release_all :: "nat list \<Rightarrow> (nat \<Rightarrow> nat) \<Rightarrow> nat list \<Rightarrow> (nat \<Rightarrow> nat) \<times> nat list" where
  "release_all [] deg queue = (deg, queue)"
| "release_all (m # ms) deg queue =
     (let deg' = deg(m := usize_dec (deg m))
      in release_all ms deg' (if deg' m = 0 then queue @ [m] else queue))"

partial_function (option) kahn ::
  "(nat \<Rightarrow> nat list) \<Rightarrow> (nat \<Rightarrow> nat) \<Rightarrow> nat list \<Rightarrow> nat list \<Rightarrow> nat list option" where
  "kahn adj deg queue order =
     (case queue of
        [] \<Rightarrow> Some order
      | n # queue' \<Rightarrow>
          (let r = release_all (adj n) deg queue' in kahn adj (fst r) (snd r) (order @ [n])))"

section \<open>Correctness\<close>

text \<open>
  \<open>D i\<close> are the dependencies of node \<open>i < n\<close>, with multiplicity; \<open>adj\<close> is their transpose.
\<close>

definition transposed :: "nat \<Rightarrow> (nat \<Rightarrow> nat list) \<Rightarrow> (nat \<Rightarrow> nat list) \<Rightarrow> bool" where
  "transposed n D adj \<longleftrightarrow>
     (\<forall>d < n. set (adj d) \<subseteq> {..<n}) \<and> (\<forall>i < n. set (D i) \<subseteq> {..<n})
     \<and> (\<forall>d < n. \<forall>i < n. count_list (adj d) i = count_list (D i) d)"

definition in_order :: "(nat \<Rightarrow> nat list) \<Rightarrow> nat list \<Rightarrow> bool" where
  "in_order D order \<longleftrightarrow> (\<forall>xs i ys. order = xs @ i # ys \<longrightarrow> set (D i) \<subseteq> set xs)"

definition open_deps :: "(nat \<Rightarrow> nat list) \<Rightarrow> nat list \<Rightarrow> nat \<Rightarrow> nat" where
  "open_deps D order i = length (filter (\<lambda>d. d \<notin> set order) (D i))"

definition kahn_inv :: "nat \<Rightarrow> (nat \<Rightarrow> nat list) \<Rightarrow> (nat \<Rightarrow> nat) \<Rightarrow> nat list \<Rightarrow> nat list \<Rightarrow> bool" where
  "kahn_inv n D deg queue order \<longleftrightarrow>
     distinct (order @ queue) \<and> set (order @ queue) \<subseteq> {..<n} \<and> in_order D order
     \<and> (\<forall>i < n. deg i = open_deps D order i)
     \<and> (\<forall>i < n. deg i = 0 \<longleftrightarrow> i \<in> set (order @ queue))"

lemma open_deps_snoc:
  assumes "q \<notin> set order"
  shows "open_deps D order i = open_deps D (order @ [q]) i + count_list (D i) q"
proof -
  have "length (filter (\<lambda>d. d \<notin> set order) xs)
      = length (filter (\<lambda>d. d \<notin> set (order @ [q])) xs) + count_list xs q" for xs
    using assms by (induction xs) auto
  then show ?thesis by (simp add: open_deps_def)
qed

lemma release_all_spec:
  assumes "\<And>m. count_list ms m \<le> deg m"
  shows "fst (release_all ms deg queue) = (\<lambda>m. deg m - count_list ms m)
    \<and> (\<exists>ps. snd (release_all ms deg queue) = queue @ ps \<and> distinct ps
        \<and> set ps = {m. 0 < count_list ms m \<and> deg m = count_list ms m})"
  using assms
proof (induction ms arbitrary: deg queue)
  case (Cons m ms)
  let ?deg = "deg(m := usize_dec (deg m))"
  have m: "0 < deg m" "?deg m = deg m - 1" using Cons.prems [of m] by (auto simp: usize_dec_def)
  have pre: "count_list ms x \<le> ?deg x" for x
    using Cons.prems [of x] m by (cases "x = m") auto
  note ih = Cons.IH [OF pre, of "if ?deg m = 0 then queue @ [m] else queue"]
  have step: "release_all (m # ms) deg queue = release_all ms ?deg (if ?deg m = 0 then queue @ [m] else queue)"
    by (simp add: Let_def)
  have "fst (release_all (m # ms) deg queue) = (\<lambda>x. ?deg x - count_list ms x)"
    unfolding step using ih by blast
  also have "\<dots> = (\<lambda>x. deg x - count_list (m # ms) x)" using m by auto
  finally have f: "fst (release_all (m # ms) deg queue) = (\<lambda>x. deg x - count_list (m # ms) x)" .
  obtain ps where ps: "snd (release_all (m # ms) deg queue) = (if ?deg m = 0 then queue @ [m] else queue) @ ps"
    "distinct ps" "set ps = {x. 0 < count_list ms x \<and> ?deg x = count_list ms x}"
    unfolding step using ih by blast
  have z: "count_list ms m = 0" if "?deg m = 0" using pre [of m] that by simp
  have "x \<in> set (if ?deg m = 0 then m # ps else ps) \<longleftrightarrow> 0 < count_list (m # ms) x \<and> deg x = count_list (m # ms) x" for x
  proof (cases "x = m")
    case True
    show ?thesis
    proof (cases "?deg m = 0")
      case deg0: True
      then show ?thesis using True m z [OF deg0] by simp
    next
      case False
      then show ?thesis using True m ps(3) by auto
    qed
  qed (use ps(3) in auto)
  then have "set (if ?deg m = 0 then m # ps else ps) = {x. 0 < count_list (m # ms) x \<and> deg x = count_list (m # ms) x}"
    by blast
  moreover have "distinct (if ?deg m = 0 then m # ps else ps)"
    using ps(2,3) z by auto
  ultimately show ?case
    using f ps(1) by (intro conjI exI [of _ "if ?deg m = 0 then m # ps else ps"]) auto
qed simp

lemma kahn_step:
  assumes inv: "kahn_inv n D deg (q # queue) order" and tr: "transposed n D adj"
    and r: "release_all (adj q) deg queue = (deg', queue')"
  shows "kahn_inv n D deg' queue' (order @ [q])"
proof -
  have q: "q < n" "q \<notin> set order" "q \<notin> set queue" "deg q = 0"
    and io: "in_order D order" and deg: "\<And>i. i < n \<Longrightarrow> deg i = open_deps D order i"
    and zero: "\<And>i. i < n \<Longrightarrow> deg i = 0 \<longleftrightarrow> i \<in> set (order @ q # queue)"
    and dist: "distinct (order @ q # queue)" "set (order @ q # queue) \<subseteq> {..<n}"
    using inv by (auto simp: kahn_inv_def)
  have adj: "set (adj q) \<subseteq> {..<n}" "\<And>i. i < n \<Longrightarrow> count_list (adj q) i = count_list (D i) q"
    using tr q(1) by (auto simp: transposed_def)
  have le: "count_list (adj q) i \<le> deg i" for i
  proof (cases "i < n")
    case True
    then show ?thesis using adj(2) deg open_deps_snoc [OF q(2), of D i] by simp
  next
    case False
    then have "i \<notin> set (adj q)" using adj(1) by auto
    then show ?thesis by (simp add: count_list_0_iff)
  qed
  obtain ps where ps: "queue' = queue @ ps" "distinct ps"
    "set ps = {m. 0 < count_list (adj q) m \<and> deg m = count_list (adj q) m}"
    and deg': "deg' = (\<lambda>m. deg m - count_list (adj q) m)"
    using release_all_spec [of "adj q" deg queue, OF le] r by auto
  have d': "deg' i = open_deps D (order @ [q]) i" if "i < n" for i
    using open_deps_snoc [OF q(2), of D i] deg [OF that] adj(2) [OF that] by (simp add: deg')
  have "set (D q) \<subseteq> set order"
    using deg [OF q(1)] q(4) by (auto simp: open_deps_def filter_empty_conv)
  then have "in_order D (order @ [q])"
    using io by (auto simp: in_order_def append_eq_append_conv2 append_eq_Cons_conv Cons_eq_append_conv)
  moreover have new: "m < n \<and> m \<notin> set (order @ q # queue)" if "m \<in> set ps" for m
  proof -
    have "m \<in> set (adj q)" using that ps(3) count_notin [of m "adj q"] by fastforce
    moreover have "deg m \<noteq> 0" using that ps(3) by auto
    moreover have "m < n" using \<open>m \<in> set (adj q)\<close> adj(1) by auto
    ultimately show ?thesis using zero [of m] by auto
  qed
  moreover have "deg' i = 0 \<longleftrightarrow> i \<in> set ((order @ [q]) @ queue')" if "i < n" for i
    using zero [OF that] le [of i] that by (auto simp: deg' ps(1,3))
  ultimately show ?thesis
    using dist ps(1,2) d' unfolding kahn_inv_def by auto
qed

text \<open>
  The loop returns; what it returns is an ordering of a dependency-closed set, and the rest,
  if any, consists of nodes that each wait for another of them.
\<close>

lemma kahn_total:
  assumes "kahn_inv n D deg queue order" "transposed n D adj"
  shows "\<exists>res. kahn adj deg queue order = Some res \<and> distinct res \<and> set res \<subseteq> {..<n} \<and> in_order D res
    \<and> (\<forall>i < n. i \<notin> set res \<longrightarrow> (\<exists>d \<in> set (D i). d < n \<and> d \<notin> set res))"
  using assms(1)
proof (induction "n - length order" arbitrary: deg queue order rule: less_induct)
  case less
  show ?case
  proof (cases queue)
    case Nil
    have "\<exists>d \<in> set (D i). d < n \<and> d \<notin> set order" if i: "i < n" "i \<notin> set order" for i
    proof -
      have "open_deps D order i \<noteq> 0" using less.prems i Nil by (auto simp: kahn_inv_def)
      then obtain d where "d \<in> set (D i)" "d \<notin> set order" by (auto simp: open_deps_def filter_empty_conv)
      moreover have "set (D i) \<subseteq> {..<n}" using assms(2) i(1) by (simp add: transposed_def)
      ultimately show ?thesis by blast
    qed
    then show ?thesis using less.prems Nil by (auto simp: kahn.simps [of adj] kahn_inv_def)
  next
    case (Cons q queue')
    obtain deg' queue'' where r: "release_all (adj q) deg queue' = (deg', queue'')" by fastforce
    have st: "kahn_inv n D deg' queue'' (order @ [q])"
      using kahn_step [OF _ assms(2) r] less.prems Cons by simp
    have "card (set (order @ queue)) \<le> n"
      using less.prems card_mono [of "{..<n}"] by (auto simp: kahn_inv_def)
    moreover have "card (set (order @ queue)) = length order + length queue"
      using less.prems distinct_card [of "order @ queue"] by (simp add: kahn_inv_def)
    ultimately have "length order < n" using Cons by simp
    then have "n - length (order @ [q]) < n - length order" by simp
    moreover have "kahn adj deg queue order = kahn adj deg' queue'' (order @ [q])"
      by (subst kahn.simps) (simp add: Cons r Let_def)
    ultimately show ?thesis using less.hyps [OF _ st] by simp
  qed
qed

section \<open>Building the graph\<close>

text \<open>
  The edge loops of both sorts: dependency \<open>j\<close> of node \<open>i\<close> adds \<open>i\<close> to the dependents of \<open>j\<close>
  and counts one more open dependency of \<open>i\<close>.
\<close>

fun add_edges :: "nat \<Rightarrow> nat list \<Rightarrow> (nat \<Rightarrow> nat list) \<times> (nat \<Rightarrow> nat) \<Rightarrow> (nat \<Rightarrow> nat list) \<times> (nat \<Rightarrow> nat)" where
  "add_edges i [] st = st"
| "add_edges i (j # js) st = add_edges i js ((fst st)(j := fst st j @ [i]), (snd st)(i := snd st i + 1))"

fun all_edges :: "nat \<Rightarrow> nat list list \<Rightarrow> (nat \<Rightarrow> nat list) \<times> (nat \<Rightarrow> nat) \<Rightarrow> (nat \<Rightarrow> nat list) \<times> (nat \<Rightarrow> nat)" where
  "all_edges i [] st = st"
| "all_edges i (js # jss) st = all_edges (Suc i) jss (add_edges i js st)"

lemma add_edges_spec:
  "snd (add_edges i js st) = (snd st)(i := snd st i + length js)"
  "fst (add_edges i js st) d = fst st d @ replicate (count_list js d) i"
proof (induction js arbitrary: st)
  case (Cons j js)
  { case 1
    show ?case by (rule ext) (simp add: Cons(1)) }
  { case 2
    show ?case by (simp add: Cons(2)) }
qed simp_all

lemma count_list_replicate: "count_list (replicate k x) y = (if x = y then k else 0)"
  by (induction k) auto

lemma all_edges_spec:
  assumes "\<forall>j \<ge> i. snd st j = 0" "\<forall>d. \<forall>j \<ge> i. count_list (fst st d) j = 0"
  shows "(\<forall>j. snd (all_edges i jss st) j = (if i \<le> j \<and> j < i + length jss then length (jss ! (j - i)) else snd st j))
    \<and> (\<forall>d j. count_list (fst (all_edges i jss st) d) j
        = (if i \<le> j \<and> j < i + length jss then count_list (jss ! (j - i)) d else count_list (fst st d) j))
    \<and> (\<forall>d. set (fst (all_edges i jss st) d) \<subseteq> set (fst st d) \<union> {i..<i + length jss})"
  using assms
proof (induction jss arbitrary: i st)
  case (Cons js jss)
  let ?st = "add_edges i js st" and ?r = "all_edges (Suc i) jss (add_edges i js st)"
  have pre: "\<forall>j \<ge> Suc i. snd ?st j = 0" "\<forall>d. \<forall>j \<ge> Suc i. count_list (fst ?st d) j = 0"
    using Cons.prems by (auto simp: add_edges_spec count_list_replicate)
  have ih: "\<And>j. snd ?r j = (if Suc i \<le> j \<and> j < Suc i + length jss then length (jss ! (j - Suc i)) else snd ?st j)"
    "\<And>d j. count_list (fst ?r d) j = (if Suc i \<le> j \<and> j < Suc i + length jss
        then count_list (jss ! (j - Suc i)) d else count_list (fst ?st d) j)"
    "\<And>d. set (fst ?r d) \<subseteq> set (fst ?st d) \<union> {Suc i..<Suc i + length jss}"
    using Cons.IH [OF pre] by blast+
  have nth: "(js # jss) ! (j - i) = (if j = i then js else jss ! (j - Suc i))" if "i \<le> j" for j
    using that by (cases "j = i") (auto simp: nth_Cons' Suc_diff_Suc)
  have "snd ?r j = (if i \<le> j \<and> j < i + length (js # jss) then length ((js # jss) ! (j - i)) else snd st j)" for j
    using ih(1) [of j] Cons.prems(1) nth [of j] by (cases "j = i") (auto simp: add_edges_spec)
  moreover have "count_list (fst ?r d) j = (if i \<le> j \<and> j < i + length (js # jss)
      then count_list ((js # jss) ! (j - i)) d else count_list (fst st d) j)" for d j
    using ih(2) [of d j] Cons.prems(2) nth [of j]
    by (cases "j = i") (auto simp: add_edges_spec count_list_replicate)
  moreover have "set (fst ?r d) \<subseteq> set (fst st d) \<union> {i..<i + length (js # jss)}" for d
    using ih(3) [of d] by (auto simp: add_edges_spec split: if_splits)
  ultimately show ?case by simp
qed auto

lemma in_order_cong:
  assumes "in_order D order" "\<And>i. i \<in> set order \<Longrightarrow> D i = D' i"
  shows "in_order D' order"
  unfolding in_order_def
proof (intro allI impI)
  fix xs i ys assume s: "order = xs @ i # ys"
  then have "set (D i) \<subseteq> set xs" using assms(1) by (simp add: in_order_def)
  moreover have "D i = D' i" using assms(2) s by simp
  ultimately show "set (D' i) \<subseteq> set xs" by simp
qed

text \<open>Kahn's algorithm on the graph of the dependency lists \<open>jss\<close>.\<close>

lemma kahn_graph:
  assumes dep: "\<And>i. i < length jss \<Longrightarrow> set (jss ! i) \<subseteq> {..<length jss}"
    and g: "all_edges 0 jss (\<lambda>_. [], \<lambda>_. 0) = (adj, deg)"
  shows "\<exists>res. kahn adj deg (filter (\<lambda>i. deg i = 0) [0..<length jss]) [] = Some res
    \<and> distinct res \<and> set res \<subseteq> {..<length jss} \<and> in_order ((!) jss) res
    \<and> (\<forall>i < length jss. i \<notin> set res \<longrightarrow> (\<exists>d \<in> set (jss ! i). d < length jss \<and> d \<notin> set res))"
proof -
  let ?n = "length jss"
  have spec: "(\<forall>j. deg j = (if j < ?n then length (jss ! j) else 0))
    \<and> (\<forall>d j. count_list (adj d) j = (if j < ?n then count_list (jss ! j) d else 0))
    \<and> (\<forall>d. set (adj d) \<subseteq> {0..<?n})"
    using all_edges_spec [of 0 "(\<lambda>_. [], \<lambda>_. 0)" jss] g by simp
  have tr: "transposed ?n ((!) jss) adj"
    using spec dep by (auto simp: transposed_def atLeast0LessThan)
  have "kahn_inv ?n ((!) jss) deg (filter (\<lambda>i. deg i = 0) [0..<?n]) []"
    using spec by (auto simp: kahn_inv_def in_order_def open_deps_def)
  from kahn_total [OF this tr] show ?thesis by blast
qed

text \<open>Nodes that wait for each other have no place in any order.\<close>

lemma waiting_set_blocks:
  assumes "U \<subseteq> set order" "U \<noteq> {}" "\<forall>i \<in> U. \<exists>d \<in> set (D i). d \<in> U"
  shows "\<not> in_order D order"
proof
  assume io: "in_order D order"
  have "\<exists>x \<in> set order. x \<in> U" using assms(1,2) by auto
  then obtain xs i ys where s: "order = xs @ i # ys" "i \<in> U" "\<forall>x \<in> set xs. x \<notin> U"
    by (rule split_list_first_propE)
  moreover have "set (D i) \<subseteq> set xs" using io s(1) by (simp add: in_order_def)
  ultimately show False using assms(3) by blast
qed

end
