(* ===== verification/Dag_Plan.thy ===== *)
theory Dag_Plan
  imports Topo Shm_Layout
begin

text \<open>
  Planning a DAG run (\<open>host/src/runtime/dag_runner/types.rs\<close>, \<open>plan.rs\<close>): the DAG description,
  slot-bounds validation, topological order, execution waves, barrier groups and the slot
  reader counts. Floating-point fractions are values of a type \<open>'f\<close>.
\<close>

section \<open>The DAG description\<close>

datatype dag_mode = OneShot | Reset

record rdma_config =
  rc_node_id :: nat
  rc_total :: nat
  rc_ips :: "string list"
  rc_transfer :: bool

datatype remote_slot_kind = RStream | RIo

datatype remote_protocol = SenderInit | ReceiverInit

datatype shuffle_policy_spec = Modulo | RoundRobin | FixedMap "(nat \<times> nat) list" nat | Broadcast

record watch_params =
  wp_output :: string
  wp_stream :: "nat option"
  wp_shared :: "string option"

record stream_pipeline_stage =
  st_func :: string
  st_arg0 :: nat
  st_arg1 :: "nat option"
  st_width :: "nat option"
  st_max_width :: "nat option"

record rdma_pipeline_recv =
  pr_peer :: nat
  pr_slot :: nat
  pr_slot_kind :: remote_slot_kind
  pr_protocol :: remote_protocol

record rdma_pipeline_send =
  ps_peer :: nat
  ps_slot :: nat
  ps_slot_kind :: remote_slot_kind
  ps_protocol :: remote_protocol
  ps_free_after :: bool

record stream_pipeline_params =
  sp_rounds :: nat
  sp_stages :: "stream_pipeline_stage list"
  sp_rdma_recv :: "rdma_pipeline_recv option"
  sp_rdma_send :: "rdma_pipeline_send option"

record persist_params =
  pp_output_dir :: string
  pp_atomics :: bool
  pp_stream_slots :: "nat list"
  pp_shared_state :: bool
  pp_sync :: bool

datatype file_dispatch_policy = Equal | LineBoundary | FixedSize nat

record output_params =
  op_path :: string
  op_paths :: "string list"
  op_slot :: "nat option"
  op_split_records :: bool

record stream_output_params =
  so_rounds :: nat
  so_paths :: "string list"
  so_slot :: nat
  so_slot_kind :: remote_slot_kind
  so_binary :: bool
  so_rdma_recv :: "rdma_pipeline_recv option"

record 'f input_params =
  ip_path :: string
  ip_paths :: "string list"
  ip_slot :: "nat option"
  ip_prefetch :: bool
  ip_binary :: bool
  ip_cycle :: bool
  ip_chunk_bytes :: "nat option"
  ip_slice :: "('f \<times> 'f) option"

text \<open>Stages of the two groupings and of the Python pipeline: function and arguments.\<close>

type_synonym wasm_grouping_stage = "string \<times> nat \<times> nat"
type_synonym py_stage = "string \<times> nat \<times> nat option"

record py_pipeline_params =
  py_rounds :: nat
  py_stages :: "py_stage list"
  py_rdma_recv :: "rdma_pipeline_recv option"
  py_rdma_send :: "rdma_pipeline_send option"

record remote_params =
  rp_slot :: nat
  rp_slot_kind :: remote_slot_kind
  rp_peer :: nat
  rp_protocol :: remote_protocol

datatype 'f node_kind =
    WasmVoid string nat
  | WasmU32 string nat
  | WasmFatPtr string nat
  | Bridge nat nat
  | Aggregate "nat list" nat
  | Shuffle "nat list" "nat list" shuffle_policy_spec
  | Persist persist_params
  | Watch watch_params
  | StreamPipeline stream_pipeline_params
  | FileDispatch string nat file_dispatch_policy
  | OwnedDispatch nat "string list"
  | Output output_params
  | StreamOutput stream_output_params
  | FreeSlots "nat list" "nat list"
  | Input "'f input_params"
  | PyFunc string nat "nat option"
  | WasmGrouping "wasm_grouping_stage list"
  | PyGrouping "py_stage list"
  | PyPipeline py_pipeline_params
  | RemoteSend remote_params
  | RemoteRecv remote_params
  | RemoteAtomicFetchAdd nat string nat
  | RemoteAtomicCmpSwap nat string nat nat
  | RemoteAtomicPush nat string

record 'f dag_node =
  node_id :: string
  deps :: "string list"
  kind :: "'f node_kind"
  barrier_group :: "string option"

record 'f dag =
  shm_path :: string
  wasm_path :: "string option"
  python_script :: "string option"
  python_wasm :: "string option"
  log_level :: "string option"
  mode :: dag_mode
  runs :: "nat option"
  persist_slots :: "nat list"
  rdma :: "rdma_config option"
  nodes :: "'f dag_node list"

section \<open>Slot bounds validation\<close>

datatype dag_error =
    NoProducerDep string
  | RdmaNotConfigured string
  | StreamSlotBound string nat
  | IoSlotBound string string nat
  | UnknownDep string string
  | CycleFound
  | BarrierSpansWaves string string

definition no_transfer :: "'f dag \<Rightarrow> bool" where
  "no_transfer d = (case rdma d of None \<Rightarrow> True | Some r \<Rightarrow> \<not> rc_transfer r)"

text \<open>Per node: the stream slots, the I/O slots with their labels, and the errors found so far.\<close>

fun declared_slots ::
  "'f dag \<Rightarrow> 'f dag_node \<Rightarrow> 'f node_kind \<Rightarrow> nat list \<times> (nat \<times> string) list \<times> dag_error list" where
  "declared_slots d n (Bridge f t) = ([f, t], [], [])"
| "declared_slots d n (Aggregate up down) = (up @ [down], [], [])"
| "declared_slots d n (Shuffle up down pol) = (up @ down, [], [])"
| "declared_slots d n (StreamPipeline p) =
     (concat (map (\<lambda>s. st_arg0 s # (case st_arg1 s of Some a \<Rightarrow> [a] | None \<Rightarrow> [])) (sp_stages p)), [], [])"
| "declared_slots d n (Watch p) = ((case wp_stream p of Some s \<Rightarrow> [s] | None \<Rightarrow> []), [], [])"
| "declared_slots d n (Persist p) = (pp_stream_slots p, [], [])"
| "declared_slots d n (Input p) = ([], (case ip_slot p of Some s \<Rightarrow> [(s, ''Input'')] | None \<Rightarrow> []), [])"
| "declared_slots d n (Output p) = ([], (case op_slot p of Some s \<Rightarrow> [(s, ''Output'')] | None \<Rightarrow> []), [])"
| "declared_slots d n (RemoteSend p) =
     ((case rp_slot_kind p of RStream \<Rightarrow> [rp_slot p] | RIo \<Rightarrow> []),
      (case rp_slot_kind p of RStream \<Rightarrow> [] | RIo \<Rightarrow> [(rp_slot p, ''RemoteSend'')]),
      (if deps n = [] then [NoProducerDep (node_id n)] else [])
      @ (if no_transfer d then [RdmaNotConfigured (node_id n)] else []))"
| "declared_slots d n (RemoteRecv p) =
     ((case rp_slot_kind p of RStream \<Rightarrow> [rp_slot p] | RIo \<Rightarrow> []),
      (case rp_slot_kind p of RStream \<Rightarrow> [] | RIo \<Rightarrow> [(rp_slot p, ''RemoteRecv'')]),
      (if no_transfer d then [RdmaNotConfigured (node_id n)] else []))"
| "declared_slots d n _ = ([], [], [])"

definition node_errors :: "'f dag \<Rightarrow> 'f dag_node \<Rightarrow> dag_error list" where
  "node_errors d n =
     (case declared_slots d n (kind n) of (streams, ios, errs) \<Rightarrow>
        errs @ map (StreamSlotBound (node_id n)) (filter (\<lambda>s. STREAM_SLOT_COUNT \<le> s) streams)
        @ map (\<lambda>(s, label). IoSlotBound (node_id n) label s) (filter (\<lambda>(s, label). IO_SLOT_COUNT \<le> s) ios))"

definition validate_dag :: "'f dag \<Rightarrow> dag_error list + unit" where
  "validate_dag d =
     (let errors = concat (map (node_errors d) (nodes d))
      in if errors = [] then Inr () else Inl errors)"

section \<open>Slot lifetimes\<close>

fun node_routed_upstream_slots :: "'f node_kind \<Rightarrow> nat list" where
  "node_routed_upstream_slots (Bridge f t) = [f]"
| "node_routed_upstream_slots (Aggregate up down) = up"
| "node_routed_upstream_slots (Shuffle up down pol) = up"
| "node_routed_upstream_slots _ = []"

fun node_owned_slots :: "'f node_kind \<Rightarrow> nat list \<times> nat list" where
  "node_owned_slots (Output p) = ([], [case op_slot p of Some s \<Rightarrow> s | None \<Rightarrow> OUTPUT_IO_SLOT])"
| "node_owned_slots (StreamPipeline p) =
     ((case sp_stages p of s # _ \<Rightarrow> [st_arg0 s] | [] \<Rightarrow> []), [])"
| "node_owned_slots _ = ([], [])"

datatype slot_kind = SkStream | SkIo

text \<open>\<open>*counts.entry(k).or_insert(0) += 1\<close> for every key in turn.\<close>

fun bump_counts :: "'k list \<Rightarrow> ('k \<rightharpoonup> nat) \<Rightarrow> 'k \<rightharpoonup> nat" where
  "bump_counts [] m = m"
| "bump_counts (k # ks) m = bump_counts ks (m(k \<mapsto> (case m k of Some c \<Rightarrow> c | None \<Rightarrow> 0) + 1))"

definition owned_keys :: "'f dag_node \<Rightarrow> (slot_kind \<times> nat) list" where
  "owned_keys n = (case node_owned_slots (kind n) of (ss, is) \<Rightarrow> map (Pair SkStream) ss @ map (Pair SkIo) is)"

definition build_slot_refcounts :: "'f dag \<Rightarrow> (slot_kind \<times> nat) \<rightharpoonup> nat" where
  "build_slot_refcounts d = bump_counts (concat (map owned_keys (nodes d))) Map.empty"

fun is_oneshot_node :: "'f node_kind \<Rightarrow> bool" where
  "is_oneshot_node (WasmVoid f a) = True"
| "is_oneshot_node (WasmU32 f a) = True"
| "is_oneshot_node (WasmFatPtr f a) = True"
| "is_oneshot_node (PyFunc f a b) = True"
| "is_oneshot_node _ = False"

section \<open>Topological order\<close>

text \<open>The \<open>HashMap\<close> from ids to indices: the last node with an id wins.\<close>

definition id_to_idx :: "'f dag_node list \<Rightarrow> string \<rightharpoonup> nat" where
  "id_to_idx ns = map_of (rev (zip (map node_id ns) [0..<length ns]))"

text \<open>The edge loop of \<open>topo_sort\<close>: dependents of every node, counters of open dependencies.\<close>

fun add_deps ::
  "(string \<rightharpoonup> nat) \<Rightarrow> string \<Rightarrow> nat \<Rightarrow> string list \<Rightarrow> (nat \<Rightarrow> nat list) \<times> (nat \<Rightarrow> nat) \<Rightarrow>
   dag_error + (nat \<Rightarrow> nat list) \<times> (nat \<Rightarrow> nat)" where
  "add_deps idx nid i [] st = Inr st"
| "add_deps idx nid i (dep # ds) st =
     (case idx dep of
        None \<Rightarrow> Inl (UnknownDep dep nid)
      | Some j \<Rightarrow> add_deps idx nid i ds
          ((fst st)(j := fst st j @ [i]), (snd st)(i := snd st i + 1)))"

fun add_nodes ::
  "(string \<rightharpoonup> nat) \<Rightarrow> nat \<Rightarrow> 'f dag_node list \<Rightarrow> (nat \<Rightarrow> nat list) \<times> (nat \<Rightarrow> nat) \<Rightarrow>
   dag_error + (nat \<Rightarrow> nat list) \<times> (nat \<Rightarrow> nat)" where
  "add_nodes idx i [] st = Inr st"
| "add_nodes idx i (n # ns) st =
     (case add_deps idx (node_id n) i (deps n) st of
        Inl e \<Rightarrow> Inl e
      | Inr st' \<Rightarrow> add_nodes idx (Suc i) ns st')"

definition topo_sort :: "'f dag_node list \<Rightarrow> (dag_error + nat list) option" where
  "topo_sort ns =
     (case add_nodes (id_to_idx ns) 0 ns (\<lambda>_. [], \<lambda>_. 0) of
        Inl e \<Rightarrow> Some (Inl e)
      | Inr (adj, deg) \<Rightarrow>
          map_option (\<lambda>order. if length order \<noteq> length ns then Inl CycleFound else Inr order)
            (kahn adj deg (filter (\<lambda>i. deg i = 0) [0..<length ns]) []))"

section \<open>Waves\<close>

fun raise_level :: "(string \<rightharpoonup> nat) \<Rightarrow> nat \<Rightarrow> string list \<Rightarrow> (nat \<Rightarrow> nat) \<Rightarrow> nat \<Rightarrow> nat" where
  "raise_level idx i [] level = level"
| "raise_level idx i (dep # ds) level =
     (case idx dep of
        Some j \<Rightarrow> raise_level idx i ds (level(i := max (level i) (level j + 1)))
      | None \<Rightarrow> raise_level idx i ds level)"

fun levels :: "'f dag_node list \<Rightarrow> nat list \<Rightarrow> (nat \<Rightarrow> nat) \<Rightarrow> nat \<Rightarrow> nat" where
  "levels ns [] level = level"
| "levels ns (i # order) level =
     levels ns order (raise_level (id_to_idx ns) i (deps (ns ! i)) level)"

definition build_waves :: "'f dag_node list \<Rightarrow> nat list \<Rightarrow> nat list list" where
  "build_waves ns order =
     (let level = levels ns order (\<lambda>_. 0);
          max_level = fold max (map level [0..<length ns]) 0
      in map (\<lambda>l. filter (\<lambda>i. level i = l) order) [0..<Suc max_level])"

section \<open>Barrier groups\<close>

text \<open>\<open>node_wave\<close>: the wave each node index was put in (the last one wins).\<close>

definition node_wave :: "nat list list \<Rightarrow> nat \<Rightarrow> nat" where
  "node_wave waves i =
     fold (\<lambda>(wi, wave) w. if i \<in> set wave then wi else w) (enumerate 0 waves) 0"

fun check_groups ::
  "nat list list \<Rightarrow> nat \<Rightarrow> 'f dag_node list \<Rightarrow> (string \<rightharpoonup> nat) \<Rightarrow> dag_error list" where
  "check_groups waves i [] groups = []"
| "check_groups waves i (n # ns) groups =
     (case barrier_group n of
        None \<Rightarrow> check_groups waves (Suc i) ns groups
      | Some g \<Rightarrow>
          (case groups g of
             Some expected \<Rightarrow>
               (if expected \<noteq> node_wave waves i then [BarrierSpansWaves g (node_id n)] else [])
               @ check_groups waves (Suc i) ns groups
           | None \<Rightarrow> check_groups waves (Suc i) ns (groups(g \<mapsto> node_wave waves i))))"

definition validate_barrier_groups :: "'f dag_node list \<Rightarrow> nat list list \<Rightarrow> dag_error list + unit" where
  "validate_barrier_groups ns waves =
     (let errors = check_groups waves 0 ns Map.empty
      in if errors = [] then Inr () else Inl errors)"

text \<open>
  Barrier slots: per wave the groups in the order \<open>hash_order\<close> in which the \<open>HashMap\<close> of that
  wave iterates, each with its number of members in the wave.
\<close>

definition wave_groups :: "'f dag_node list \<Rightarrow> nat list \<Rightarrow> (string \<times> nat) list" where
  "wave_groups ns wave =
     (let gs = concat (map (\<lambda>i. case barrier_group (ns ! i) of Some g \<Rightarrow> [g] | None \<Rightarrow> []) wave)
      in map (\<lambda>g. (g, count_list gs g)) (remdups gs))"

record barrier_state =
  global_id :: nat
  group_map :: "string \<rightharpoonup> nat \<times> nat"

fun assign_groups :: "(string \<times> nat) list \<Rightarrow> barrier_state \<Rightarrow> err + nat list \<times> barrier_state" where
  "assign_groups [] b = Inr ([], b)"
| "assign_groups ((g, c) # gs) b =
     (if group_map b g \<noteq> None then assign_groups gs b
      else if BARRIER_COUNT \<le> global_id b then Inl AssertionFailed
      else case assign_groups gs (b\<lparr>global_id := global_id b + 1,
                                   group_map := (group_map b)(g \<mapsto> (global_id b, c))\<rparr>) of
             Inl e \<Rightarrow> Inl e
           | Inr (ids, b') \<Rightarrow> Inr (global_id b # ids, b'))"

fun assign_waves ::
  "((string \<times> nat) list \<Rightarrow> (string \<times> nat) list) \<Rightarrow> 'f dag_node list \<Rightarrow> nat list list \<Rightarrow>
   barrier_state \<Rightarrow> err + nat list list \<times> barrier_state" where
  "assign_waves hash_order ns [] b = Inr ([], b)"
| "assign_waves hash_order ns (w # ws) b =
     (case assign_groups (hash_order (wave_groups ns w)) b of
        Inl e \<Rightarrow> Inl e
      | Inr (ids, b') \<Rightarrow>
          (case assign_waves hash_order ns ws b' of
             Inl e \<Rightarrow> Inl e
           | Inr (idss, b'') \<Rightarrow> Inr (ids # idss, b'')))"

definition build_barrier_assignments ::
  "((string \<times> nat) list \<Rightarrow> (string \<times> nat) list) \<Rightarrow> 'f dag_node list \<Rightarrow> nat list list \<Rightarrow>
   err + nat list list \<times> (string \<rightharpoonup> nat \<times> nat)" where
  "build_barrier_assignments hash_order ns waves =
     map_sum id (\<lambda>(idss, b). (idss, group_map b))
       (assign_waves hash_order ns waves \<lparr>global_id = 0, group_map = Map.empty\<rparr>)"

section \<open>Topological order is correct\<close>

text \<open>The dependencies of node \<open>i\<close> as indices.\<close>

definition dep_idx :: "'f dag_node list \<Rightarrow> nat \<Rightarrow> nat list" where
  "dep_idx ns i = map (\<lambda>d. the (id_to_idx ns d)) (deps (ns ! i))"

definition deps_known :: "'f dag_node list \<Rightarrow> bool" where
  "deps_known ns \<longleftrightarrow> (\<forall>n \<in> set ns. \<forall>d \<in> set (deps n). id_to_idx ns d \<noteq> None)"

lemma id_to_idx_less: "id_to_idx ns d = Some j \<Longrightarrow> j < length ns"
  unfolding id_to_idx_def by (drule map_of_SomeD) (auto dest: set_zip_rightD)

lemma add_deps_known:
  "(\<forall>d \<in> set ds. idx d \<noteq> None) \<Longrightarrow>
   add_deps idx nid i ds st = Inr (add_edges i (map (\<lambda>d. the (idx d)) ds) st)"
  by (induction ds arbitrary: st) auto

lemma add_nodes_known:
  "(\<forall>n \<in> set ns. \<forall>d \<in> set (deps n). idx d \<noteq> None) \<Longrightarrow>
   add_nodes idx i ns st = Inr (all_edges i (map (\<lambda>n. map (\<lambda>d. the (idx d)) (deps n)) ns) st)"
  by (induction ns arbitrary: i st) (simp_all add: add_deps_known)

lemma add_nodes_unknown:
  "(\<exists>n \<in> set ns. \<exists>d \<in> set (deps n). idx d = None) \<Longrightarrow>
   \<exists>dep nid. add_nodes idx i ns st = Inl (UnknownDep dep nid)"
proof (induction ns arbitrary: i st)
  case (Cons n ns)
  have bad: "\<exists>dep. add_deps idx nid i ds st = Inl (UnknownDep dep nid)" if "\<exists>d \<in> set ds. idx d = None" for nid ds st
    using that by (induction ds arbitrary: st) (auto split: option.split)
  show ?case
  proof (cases "\<exists>d \<in> set (deps n). idx d = None")
    case True
    then show ?thesis using bad [OF True, of "node_id n" st] by auto
  next
    case False
    then obtain st' where "add_deps idx (node_id n) i (deps n) st = Inr st'"
      using add_deps_known [of "deps n" idx "node_id n" i st] by auto
    moreover have "\<exists>n \<in> set ns. \<exists>d \<in> set (deps n). idx d = None" using Cons.prems False by auto
    ultimately show ?thesis using Cons.IH by simp
  qed
qed simp

text \<open>
  Everything the sort promises, in one lemma: it returns; the error cases are exactly an
  unknown dependency and a set of nodes that wait for each other.
\<close>

lemma topo_sort_cases:
  assumes "deps_known ns"
  shows "(\<exists>order. topo_sort ns = Some (Inr order) \<and> distinct order \<and> set order = {..<length ns}
      \<and> in_order (dep_idx ns) order)
    \<or> (topo_sort ns = Some (Inl CycleFound) \<and> (\<exists>U \<subseteq> {..<length ns}. U \<noteq> {}
      \<and> (\<forall>i \<in> U. \<exists>d \<in> set (dep_idx ns i). d \<in> U)))"
proof -
  let ?n = "length ns" and ?D = "dep_idx ns"
  define jss where "jss = map (\<lambda>n. map (\<lambda>d. the (id_to_idx ns d)) (deps n)) ns"
  have known: "\<forall>n \<in> set ns. \<forall>d \<in> set (deps n). id_to_idx ns d \<noteq> None"
    using assms by (simp add: deps_known_def)
  obtain adj deg where g: "all_edges 0 jss (\<lambda>_. [], \<lambda>_. 0) = (adj, deg)" by fastforce
  have a: "add_nodes (id_to_idx ns) 0 ns (\<lambda>_. [], \<lambda>_. 0) = Inr (adj, deg)"
    using add_nodes_known [OF known] g by (simp add: jss_def)
  have len: "length jss = ?n" by (simp add: jss_def)
  have D: "jss ! i = ?D i" if "i < ?n" for i using that by (simp add: dep_idx_def jss_def)
  have dep: "set (jss ! i) \<subseteq> {..<length jss}" if "i < length jss" for i
    using that known id_to_idx_less D len by (fastforce simp: dep_idx_def)
  from kahn_graph [OF dep g] obtain res
    where r: "kahn adj deg (filter (\<lambda>i. deg i = 0) [0..<?n]) [] = Some res" "distinct res"
      "set res \<subseteq> {..<?n}" "in_order ((!) jss) res"
      "\<forall>i < ?n. i \<notin> set res \<longrightarrow> (\<exists>d \<in> set (jss ! i). d < ?n \<and> d \<notin> set res)"
    unfolding len by blast
  have "in_order ?D res" by (rule in_order_cong [OF r(4)]) (use D r(3) in auto)
  then have res: "kahn adj deg (filter (\<lambda>i. deg i = 0) [0..<?n]) [] = Some res" "distinct res"
    "set res \<subseteq> {..<?n}" "in_order ?D res" "\<forall>i < ?n. i \<notin> set res \<longrightarrow> (\<exists>d \<in> set (?D i). d < ?n \<and> d \<notin> set res)"
    using r D by simp_all
  have ts: "topo_sort ns = Some (if length res \<noteq> ?n then Inl CycleFound else Inr res)"
    using a res(1) by (simp add: topo_sort_def)
  have card: "card (set res) = length res" using res(2) by (rule distinct_card)
  show ?thesis
  proof (cases "length res = ?n")
    case True
    then have "set res = {..<?n}" using card_subset_eq [OF _ res(3)] card by simp
    then show ?thesis using ts True res by auto
  next
    case False
    let ?U = "{..<?n} - set res"
    have "?U \<noteq> {}"
    proof
      assume "?U = {}"
      then have "set res = {..<?n}" using res(3) by auto
      then show False using card False by simp
    qed
    moreover have "\<forall>i \<in> ?U. \<exists>d \<in> set (?D i). d \<in> ?U" using res(5) by auto
    ultimately show ?thesis using ts False by (intro disjI2 conjI exI [of _ ?U]) auto
  qed
qed

text \<open>An order the executor may run the nodes in: every node once, after its dependencies.\<close>

definition valid_order :: "'f dag_node list \<Rightarrow> nat list \<Rightarrow> bool" where
  "valid_order ns order \<longleftrightarrow>
     distinct order \<and> set order = {..<length ns} \<and> in_order (dep_idx ns) order"

lemma topo_sort_known:
  assumes "deps_known ns"
  shows "(\<exists>order. topo_sort ns = Some (Inr order) \<and> valid_order ns order)
    \<or> (topo_sort ns = Some (Inl CycleFound) \<and> (\<forall>order. \<not> valid_order ns order))"
proof -
  from topo_sort_cases [OF assms] show ?thesis
  proof
    assume "\<exists>order. topo_sort ns = Some (Inr order) \<and> distinct order \<and> set order = {..<length ns}
      \<and> in_order (dep_idx ns) order"
    then show ?thesis by (auto simp: valid_order_def)
  next
    assume "topo_sort ns = Some (Inl CycleFound) \<and> (\<exists>U \<subseteq> {..<length ns}. U \<noteq> {}
      \<and> (\<forall>i \<in> U. \<exists>d \<in> set (dep_idx ns i). d \<in> U))"
    then show ?thesis using waiting_set_blocks unfolding valid_order_def by metis
  qed
qed

lemma add_deps_error:
  "add_deps idx nid i ds st = Inl e \<Longrightarrow> \<exists>d \<in> set ds. idx d = None \<and> e = UnknownDep d nid"
  by (induction ds arbitrary: st) (auto split: option.splits)

lemma add_nodes_error:
  "add_nodes idx i ns st = Inl e \<Longrightarrow>
   \<exists>n \<in> set ns. \<exists>d \<in> set (deps n). idx d = None \<and> e = UnknownDep d (node_id n)"
proof (induction ns arbitrary: i st)
  case (Cons n ns)
  then show ?case
    by (cases "add_deps idx (node_id n) i (deps n) st") (simp, blast dest: add_deps_error, fastforce)
qed simp

lemma topo_sort_unknown:
  assumes "\<not> deps_known ns"
  shows "\<exists>n \<in> set ns. \<exists>d \<in> set (deps n). id_to_idx ns d = None
    \<and> topo_sort ns = Some (Inl (UnknownDep d (node_id n)))"
proof -
  have "\<exists>n \<in> set ns. \<exists>d \<in> set (deps n). id_to_idx ns d = None" using assms by (auto simp: deps_known_def)
  from add_nodes_unknown [OF this] obtain dep nid
    where e: "add_nodes (id_to_idx ns) 0 ns (\<lambda>_. [], \<lambda>_. 0) = Inl (UnknownDep dep nid)" by blast
  then have "topo_sort ns = Some (Inl (UnknownDep dep nid))" by (simp add: topo_sort_def)
  then show ?thesis using add_nodes_error [OF e] by auto
qed

lemma topo_sort_valid: "topo_sort ns = Some (Inr order) \<Longrightarrow> deps_known ns \<and> valid_order ns order"
  using topo_sort_known [of ns] topo_sort_unknown [of ns] by (cases "deps_known ns") auto

text \<open>
  C4. \<open>topo_sort\<close> always returns. Its result is an order that runs every node exactly once
  and after all its dependencies; the \<open>cycle\<close> error is given only when no such order exists,
  and the \<open>unknown dependency\<close> error names a dependency that no node of the DAG provides.
\<close>

theorem topo_sort_decides:
  "case topo_sort ns of
     None \<Rightarrow> False
   | Some (Inr order) \<Rightarrow> deps_known ns \<and> valid_order ns order
   | Some (Inl e) \<Rightarrow>
       (if deps_known ns then e = CycleFound \<and> (\<nexists>order. valid_order ns order)
        else \<exists>n d. n \<in> set ns \<and> d \<in> set (deps n) \<and> id_to_idx ns d = None \<and> e = UnknownDep d (node_id n))"
proof (cases "deps_known ns")
  case True
  then show ?thesis using topo_sort_known [OF True] by auto
next
  case False
  then show ?thesis using topo_sort_unknown [OF False] by auto
qed

section \<open>Waves respect dependencies\<close>

lemma dep_idx_bound: "deps_known ns \<Longrightarrow> i < length ns \<Longrightarrow> set (dep_idx ns i) \<subseteq> {..<length ns}"
  using id_to_idx_less by (fastforce simp: deps_known_def dep_idx_def)

lemma raise_level_spec:
  assumes "\<forall>d \<in> set ds. idx d \<noteq> None" "\<forall>d \<in> set ds. idx d \<noteq> Some i"
  shows "raise_level idx i ds level = level(i := fold (\<lambda>j l. max l (level j + 1)) (map (\<lambda>d. the (idx d)) ds) (level i))"
  using assms
proof (induction ds arbitrary: level)
  case (Cons d ds)
  then obtain j where j: "idx d = Some j" "j \<noteq> i" by auto
  have known: "\<forall>d \<in> set ds. idx d \<noteq> None" "\<forall>d \<in> set ds. idx d \<noteq> Some i" using Cons.prems by simp_all
  let ?lev = "level(i := max (level i) (level j + 1))"
  have "fold (\<lambda>j l. max l (?lev j + 1)) (map (\<lambda>d. the (idx d)) ds) a
      = fold (\<lambda>j l. max l (level j + 1)) (map (\<lambda>d. the (idx d)) ds) a" for a
    using Cons.prems by (intro fold_cong) auto
  then have "raise_level idx i ds ?lev
      = ?lev(i := fold (\<lambda>j l. max l (level j + 1)) (map (\<lambda>d. the (idx d)) ds) (?lev i))"
    using Cons.IH [of ?lev, OF known(1) known(2)] by (simp only:)
  then show ?case by (simp add: j(1))
qed simp

lemma levels_snoc:
  "levels ns (xs @ [i]) level = raise_level (id_to_idx ns) i (deps (ns ! i)) (levels ns xs level)"
  by (induction xs arbitrary: level) simp_all

lemma fold_max_ge: "a \<le> fold (\<lambda>j l. max l (f j)) xs a" for a :: nat
proof (induction xs arbitrary: a)
  case (Cons x xs)
  have "a \<le> max a (f x)" by simp
  also have "\<dots> \<le> fold (\<lambda>j l. max l (f j)) xs (max a (f x))" by (rule Cons.IH)
  finally show ?case by simp
qed simp

definition lub_level :: "'f dag_node list \<Rightarrow> (nat \<Rightarrow> nat) \<Rightarrow> nat \<Rightarrow> nat" where
  "lub_level ns level i = fold (\<lambda>j l. max l (level j + 1)) (dep_idx ns i) 0"

lemma lub_level_props:
  "d \<in> set (dep_idx ns i) \<Longrightarrow> level d < lub_level ns level i"
  "0 < lub_level ns level i \<Longrightarrow> \<exists>d \<in> set (dep_idx ns i). lub_level ns level i = Suc (level d)"
proof -
  have "d \<in> set xs \<Longrightarrow> level d < fold (\<lambda>j l. max l (level j + 1)) xs a" for xs a
  proof (induction xs arbitrary: a)
    case (Cons x xs)
    have "max a (level x + 1) \<le> fold (\<lambda>j l. max l (level j + 1)) xs (max a (level x + 1))"
      by (rule fold_max_ge)
    then show ?case using Cons by auto
  qed simp
  then show "d \<in> set (dep_idx ns i) \<Longrightarrow> level d < lub_level ns level i" by (simp add: lub_level_def)
  have "fold (\<lambda>j l. max l (level j + 1)) xs a = a
      \<or> (\<exists>d \<in> set xs. fold (\<lambda>j l. max l (level j + 1)) xs a = Suc (level d))" for xs a
  proof (induction xs arbitrary: a)
    case (Cons x xs)
    then show ?case using Cons.IH [of "max a (Suc (level x))"] by (auto simp: max_def split: if_splits)
  qed simp
  then show "0 < lub_level ns level i \<Longrightarrow> \<exists>d \<in> set (dep_idx ns i). lub_level ns level i = Suc (level d)"
    unfolding lub_level_def by (metis less_irrefl)
qed

lemma levels_lub:
  assumes "deps_known ns" "distinct order" "set order \<subseteq> {..<length ns}" "in_order (dep_idx ns) order"
  shows "(\<forall>i \<in> set order. levels ns order (\<lambda>_. 0) i = lub_level ns (levels ns order (\<lambda>_. 0)) i)
    \<and> (\<forall>i. i \<notin> set order \<longrightarrow> levels ns order (\<lambda>_. 0) i = 0)"
  using assms(2-)
proof (induction order rule: rev_induct)
  case (snoc i xs)
  let ?L = "levels ns xs (\<lambda>_. 0)" and ?L' = "levels ns (xs @ [i]) (\<lambda>_. 0)"
  have pre: "distinct xs" "set xs \<subseteq> {..<length ns}" "in_order (dep_idx ns) xs" "i \<notin> set xs" "i < length ns"
    using snoc.prems by (auto simp: in_order_def)
  have sub: "set (dep_idx ns k) \<subseteq> set xs" if k: "k \<in> set (xs @ [i])" for k
  proof (cases "k = i")
    case True
    then show ?thesis using snoc.prems(3) by (auto simp: in_order_def)
  next
    case False
    then obtain ys zs where ks: "xs = ys @ k # zs" using k by (auto dest: split_list)
    then have "set (dep_idx ns k) \<subseteq> set ys" using pre(3) by (simp add: in_order_def)
    then show ?thesis using ks by auto
  qed
  have known: "\<forall>d \<in> set (deps (ns ! i)). id_to_idx ns d \<noteq> None"
    using assms(1) pre(5) by (auto simp: deps_known_def)
  have "\<forall>d \<in> set (deps (ns ! i)). id_to_idx ns d \<noteq> Some i"
    using sub [of i] pre(4) by (force simp: dep_idx_def)
  then have upd: "?L' = ?L(i := fold (\<lambda>j l. max l (?L j + 1)) (dep_idx ns i) (?L i))"
    unfolding levels_snoc using raise_level_spec [OF known] by (simp add: dep_idx_def)
  have cong: "lub_level ns ?L' k = lub_level ns ?L k" if "k \<in> set (xs @ [i])" for k
    unfolding lub_level_def using sub [OF that] pre(4) by (intro fold_cong) (auto simp: upd)
  have "?L i = 0" using snoc.IH pre by auto
  then have "?L' i = lub_level ns ?L i" by (simp add: upd lub_level_def)
  have old: "?L' k = ?L k" if "k \<noteq> i" for k using that by (simp add: upd)
  have "?L' k = lub_level ns ?L' k" if k: "k \<in> set (xs @ [i])" for k
  proof (cases "k = i")
    case True
    then show ?thesis using cong [OF k] \<open>?L' i = lub_level ns ?L i\<close> by simp
  next
    case False
    then show ?thesis using cong [OF k] old snoc.IH pre k by simp
  qed
  moreover have "?L' k = 0" if "k \<notin> set (xs @ [i])" for k
    using that old [of k] snoc.IH pre by simp
  ultimately show ?case by blast
qed simp

lemma build_waves_levels:
  assumes "valid_order ns order"
  defines "L \<equiv> levels ns order (\<lambda>_. 0)"
  shows "\<exists>m. build_waves ns order = map (\<lambda>l. filter (\<lambda>i. L i = l) order) [0..<Suc m] \<and> (\<forall>i < length ns. L i \<le> m)"
proof -
  have "x \<in> set xs \<Longrightarrow> x \<le> fold max xs a" for x a and xs :: "nat list"
  proof (induction xs arbitrary: a)
    case (Cons y ys)
    have "max y a \<le> fold (\<lambda>j l. max l j) ys (max y a)" by (rule fold_max_ge)
    moreover have "fold (\<lambda>j l. max l j) ys b = fold max ys b" for b
      by (intro fold_cong) (auto simp: max.commute)
    ultimately show ?case using Cons by (cases "x = y") auto
  qed simp
  then show ?thesis unfolding build_waves_def L_def Let_def by (intro exI conjI) auto
qed

lemma waves_partition:
  assumes "valid_order ns order"
  shows "mset (concat (build_waves ns order)) = mset [0..<length ns]"
proof -
  obtain m L where w: "build_waves ns order = map (\<lambda>l. filter (\<lambda>i. L i = l) order) [0..<Suc m]"
    "\<forall>i < length ns. L i \<le> m" using build_waves_levels [OF assms] by blast
  have "mset (concat (map (\<lambda>l. filter (\<lambda>i. L i = l) xs) [0..<k])) = mset (filter (\<lambda>i. L i < k) xs)" for k xs
  proof (induction k)
    case (Suc k)
    have "mset (filter (\<lambda>i. L i < k) xs) + mset (filter (\<lambda>i. L i = k) xs) = mset (filter (\<lambda>i. L i < Suc k) xs)"
      by (induction xs) auto
    then show ?case using Suc by simp
  qed simp
  moreover have "filter (\<lambda>i. L i < Suc m) order = order"
    using assms w(2) by (auto simp: valid_order_def less_Suc_eq_le intro: filter_True)
  ultimately have "mset (concat (build_waves ns order)) = mset order" by (simp only: w(1))
  moreover have "mset order = mset [0..<length ns]"
    using assms set_eq_iff_mset_eq_distinct [of order "[0..<length ns]"]
    by (simp add: valid_order_def atLeast0LessThan)
  ultimately show ?thesis by simp
qed

lemma wave_mem:
  assumes "valid_order ns order"
  shows "l < length (build_waves ns order) \<Longrightarrow>
      i \<in> set (build_waves ns order ! l) \<longleftrightarrow> i < length ns \<and> levels ns order (\<lambda>_. 0) i = l"
    and "i < length ns \<Longrightarrow> levels ns order (\<lambda>_. 0) i < length (build_waves ns order)"
  using build_waves_levels [OF assms] assms
  by (auto simp: valid_order_def less_Suc_eq_le nth_append simp del: upt_Suc)

text \<open>
  C8. The waves of a topologically sorted DAG contain every node exactly once; every
  dependency of a node is in an earlier wave; and a node is never later than necessary: one
  of its dependencies is in the wave just before its own.
\<close>

theorem waves_respect_deps:
  assumes "topo_sort ns = Some (Inr order)"
  shows "mset (concat (build_waves ns order)) = mset [0..<length ns]
    \<and> (\<forall>l < length (build_waves ns order). \<forall>i \<in> set (build_waves ns order ! l).
        (\<forall>d \<in> set (dep_idx ns i). \<exists>k < l. d \<in> set (build_waves ns order ! k))
        \<and> (0 < l \<longrightarrow> (\<exists>d \<in> set (dep_idx ns i). d \<in> set (build_waves ns order ! (l - 1)))))"
proof (intro conjI allI impI ballI)
  have v: "deps_known ns" "valid_order ns order" using topo_sort_valid [OF assms] by auto
  let ?L = "levels ns order (\<lambda>_. 0)"
  have lub: "?L i = lub_level ns ?L i" if "i < length ns" for i
    using levels_lub [OF v(1)] v(2) that by (simp add: valid_order_def)
  show "mset (concat (build_waves ns order)) = mset [0..<length ns]" by (rule waves_partition [OF v(2)])
  fix l i assume l: "l < length (build_waves ns order)" and i: "i \<in> set (build_waves ns order ! l)"
  have il: "i < length ns" "?L i = l" using i wave_mem(1) [OF v(2) l] by auto
  { fix d assume d: "d \<in> set (dep_idx ns i)"
    then have dn: "d < length ns" using dep_idx_bound [OF v(1) il(1)] by auto
    have "?L d < l" using lub_level_props(1) [OF d, of ?L] lub [OF il(1)] il(2) by simp
    then show "\<exists>k < l. d \<in> set (build_waves ns order ! k)"
      using wave_mem(1) [OF v(2), of "?L d" d] l dn by auto }
  assume "0 < l"
  then obtain d where d: "d \<in> set (dep_idx ns i)" "l = Suc (?L d)"
    using lub_level_props(2) [of ns ?L i] lub [OF il(1)] il(2) by auto
  then have "d < length ns" using dep_idx_bound [OF v(1) il(1)] by auto
  then show "\<exists>d \<in> set (dep_idx ns i). d \<in> set (build_waves ns order ! (l - 1))"
    using d wave_mem(1) [OF v(2), of "l - 1" d] l by (intro bexI [OF _ d(1)]) simp
qed

section \<open>Barrier groups\<close>

definition group_members :: "'f dag_node list \<Rightarrow> string \<Rightarrow> nat set" where
  "group_members ns g = {i. i < length ns \<and> barrier_group (ns ! i) = Some g}"

definition group_waves :: "nat list list \<Rightarrow> nat \<Rightarrow> 'f dag_node list \<Rightarrow> (string \<times> nat) list" where
  "group_waves waves i ns =
     concat (map (\<lambda>(k, n). case barrier_group n of Some g \<Rightarrow> [(g, node_wave waves k)] | None \<Rightarrow> []) (enumerate i ns))"

lemma check_groups_nil:
  "check_groups waves i ns groups = [] \<longleftrightarrow>
     (\<forall>(g, w) \<in> set (group_waves waves i ns). (map_of (group_waves waves i ns) ++ groups) g = Some w)"
proof (induction ns arbitrary: i groups)
  case (Cons n ns)
  let ?ps = "group_waves waves (Suc i) ns" and ?w = "node_wave waves i"
  show ?case
  proof (cases "barrier_group n")
    case None
    then show ?thesis using Cons.IH [of "Suc i" groups] by (simp add: group_waves_def)
  next
    case (Some g)
    then have gw: "group_waves waves i (n # ns) = (g, ?w) # ?ps" by (simp add: group_waves_def)
    show ?thesis
    proof (cases "groups g")
      case None
      then have eq: "map_of ((g, ?w) # ?ps) ++ groups = map_of ?ps ++ groups(g \<mapsto> ?w)"
        by (auto simp: map_add_def fun_eq_iff split: option.split)
      have "check_groups waves (Suc i) ns (groups(g \<mapsto> ?w)) = []
          \<longleftrightarrow> (\<forall>(g', w') \<in> set ?ps. (map_of ?ps ++ groups(g \<mapsto> ?w)) g' = Some w')"
        by (rule Cons.IH)
      moreover have "(map_of ?ps ++ groups(g \<mapsto> ?w)) g = Some ?w" by simp
      ultimately show ?thesis unfolding gw eq by (simp add: Some None del: map_add_upd fun_upd_apply)
    next
      case e: (Some w)
      then have eq: "map_of ((g, ?w) # ?ps) ++ groups = map_of ?ps ++ groups"
        by (auto simp: map_add_def fun_eq_iff split: option.split)
      have "(map_of ?ps ++ groups) g = Some w" using e by (simp add: map_add_def)
      then show ?thesis unfolding gw eq using Cons.IH [of "Suc i" groups] by (simp add: Some e)
    qed
  qed
qed (simp add: group_waves_def)

lemma group_waves_mem:
  "(g, w) \<in> set (group_waves waves 0 ns) \<longleftrightarrow> (\<exists>i \<in> group_members ns g. node_wave waves i = w)"
proof -
  have "(g, w) \<in> set (group_waves waves 0 ns) \<longleftrightarrow>
      (\<exists>p \<in> set (enumerate 0 ns). barrier_group (snd p) = Some g \<and> node_wave waves (fst p) = w)"
    unfolding group_waves_def by (force split: option.splits prod.splits)
  also have "\<dots> \<longleftrightarrow> (\<exists>i \<in> group_members ns g. node_wave waves i = w)"
  proof -
    have "set (enumerate 0 ns) = (\<lambda>i. (i, ns ! i)) ` {..<length ns}"
      by (auto simp: in_set_enumerate_eq image_iff)
    then show ?thesis by (auto simp: group_members_def)
  qed
  finally show ?thesis .
qed

lemma node_wave_snoc: "node_wave (ws @ [w]) i = (if i \<in> set w then length ws else node_wave ws i)"
  by (simp add: node_wave_def enumerate_append_eq)

lemma node_wave_spec:
  assumes "distinct (concat waves)" "l < length waves" "i \<in> set (waves ! l)"
  shows "node_wave waves i = l"
  using assms
proof (induction waves rule: rev_induct)
  case (snoc w ws)
  show ?case
  proof (cases "l = length ws")
    case True
    then show ?thesis using snoc.prems by (simp add: node_wave_snoc)
  next
    case False
    then have l: "l < length ws" "i \<in> set (ws ! l)" using snoc.prems by (simp_all add: nth_append)
    then have "i \<in> set (concat ws)" by auto
    then have "i \<notin> set w" using snoc.prems(1) by auto
    then show ?thesis using snoc l by (simp add: node_wave_snoc)
  qed
qed simp

lemma node_wave_level:
  assumes "valid_order ns order" "i < length ns"
  shows "node_wave (build_waves ns order) i = levels ns order (\<lambda>_. 0) i"
proof (rule node_wave_spec)
  show "distinct (concat (build_waves ns order))"
    using waves_partition [OF assms(1)] by (metis distinct_upt mset_eq_imp_distinct_iff)
qed (use wave_mem [OF assms(1)] assms(2) in auto)

lemma validate_barrier_iff:
  "validate_barrier_groups ns waves = Inr () \<longleftrightarrow>
     (\<forall>g. \<forall>i \<in> group_members ns g. \<forall>j \<in> group_members ns g. node_wave waves i = node_wave waves j)"
proof -
  let ?ps = "group_waves waves 0 ns"
  have "validate_barrier_groups ns waves = Inr () \<longleftrightarrow> (\<forall>g w. (g, w) \<in> set ?ps \<longrightarrow> map_of ?ps g = Some w)"
    by (auto simp: validate_barrier_groups_def check_groups_nil)
  also have "\<dots> \<longleftrightarrow> (\<forall>g w w'. (g, w) \<in> set ?ps \<longrightarrow> (g, w') \<in> set ?ps \<longrightarrow> w = w')"
    by (metis map_of_SomeD option.inject weak_map_of_SomeI)
  finally show ?thesis unfolding group_waves_mem by blast
qed

text \<open>
  \<open>validate_barrier_groups\<close> accepts the waves of a DAG exactly when every barrier group
  lies inside one wave, so that all its members run concurrently.
\<close>

lemma barrier_groups_single_wave:
  assumes "topo_sort ns = Some (Inr order)"
  shows "validate_barrier_groups ns (build_waves ns order) = Inr () \<longleftrightarrow>
    (\<forall>g. \<exists>l < length (build_waves ns order). group_members ns g \<subseteq> set (build_waves ns order ! l))"
proof -
  have v: "valid_order ns order" using topo_sort_valid [OF assms] by simp
  have mem: "i < length ns" if "i \<in> group_members ns g" for i g using that by (simp add: group_members_def)
  have ne: "0 < length (build_waves ns order)" by (simp add: build_waves_def Let_def)
  show ?thesis unfolding validate_barrier_iff
  proof (intro iff_allI iffI ballI)
    fix g assume eq: "\<forall>i \<in> group_members ns g. \<forall>j \<in> group_members ns g.
        node_wave (build_waves ns order) i = node_wave (build_waves ns order) j"
    show "\<exists>l < length (build_waves ns order). group_members ns g \<subseteq> set (build_waves ns order ! l)"
    proof (cases "group_members ns g = {}")
      case False
      then obtain j where j: "j \<in> group_members ns g" by blast
      let ?l = "levels ns order (\<lambda>_. 0) j"
      have l: "?l < length (build_waves ns order)" by (rule wave_mem(2) [OF v mem [OF j]])
      have "i \<in> set (build_waves ns order ! ?l)" if i: "i \<in> group_members ns g" for i
        using eq i j mem [OF i] mem [OF j] node_wave_level [OF v] wave_mem(1) [OF v l] by metis
      then show ?thesis using l by blast
    qed (use ne in auto)
  next
    fix g i j assume "\<exists>l < length (build_waves ns order). group_members ns g \<subseteq> set (build_waves ns order ! l)"
      and i: "i \<in> group_members ns g" and j: "j \<in> group_members ns g"
    then obtain l where "l < length (build_waves ns order)" "i \<in> set (build_waves ns order ! l)"
      "j \<in> set (build_waves ns order ! l)" by blast
    then show "node_wave (build_waves ns order) i = node_wave (build_waves ns order) j"
      using wave_mem(1) [OF v] node_wave_level [OF v] by simp
  qed
qed

text \<open>The slots given so far number the known groups without gaps.\<close>

definition barrier_ids_ok :: "barrier_state \<Rightarrow> bool" where
  "barrier_ids_ok b \<longleftrightarrow> finite (dom (group_map b)) \<and> global_id b \<le> BARRIER_COUNT
     \<and> bij_betw (\<lambda>g. fst (the (group_map b g))) (dom (group_map b)) {..<global_id b}"

lemma barrier_ids_card: "barrier_ids_ok b \<Longrightarrow> card (dom (group_map b)) = global_id b"
  unfolding barrier_ids_ok_def using bij_betw_same_card by fastforce

lemma barrier_ids_insert:
  assumes "barrier_ids_ok b" "group_map b g = None" "global_id b < BARRIER_COUNT"
  shows "barrier_ids_ok (b\<lparr>global_id := global_id b + 1, group_map := (group_map b)(g \<mapsto> (global_id b, c))\<rparr>)"
proof -
  let ?m = "group_map b" and ?k = "global_id b"
  let ?f = "\<lambda>g'. fst (the ((?m(g \<mapsto> (?k, c))) g'))"
  have "bij_betw (\<lambda>g. fst (the (?m g))) (dom ?m) {..<?k}" using assms(1) by (simp add: barrier_ids_ok_def)
  then have "bij_betw ?f (dom ?m) {..<?k}"
    by (rule bij_betw_cong [THEN iffD1, rotated]) (use assms(2) in auto)
  then have "bij_betw ?f (dom ?m \<union> {g}) ({..<?k} \<union> {?f g})"
    by (rule notIn_Un_bij_betw [rotated 2]) (use assms(2) in auto)
  then have "bij_betw ?f (dom (?m(g \<mapsto> (?k, c)))) {..<?k + 1}"
    by (simp add: lessThan_Suc insert_commute Un_commute)
  then show ?thesis using assms by (simp add: barrier_ids_ok_def)
qed

lemma assign_groups_spec:
  assumes "barrier_ids_ok b" "distinct (map fst gs)"
  shows "case assign_groups gs b of
      Inl e \<Rightarrow> e = AssertionFailed \<and> BARRIER_COUNT < card (dom (group_map b) \<union> fst ` set gs)
    | Inr (ids, b') \<Rightarrow> barrier_ids_ok b' \<and> dom (group_map b') = dom (group_map b) \<union> fst ` set gs
        \<and> (\<forall>g \<in> dom (group_map b). group_map b' g = group_map b g)
        \<and> (\<forall>g c. (g, c) \<in> set gs \<longrightarrow> group_map b g = None \<longrightarrow> (\<exists>k \<in> set ids. group_map b' g = Some (k, c)))"
  using assms
proof (induction gs arbitrary: b)
  case (Cons gc gs)
  obtain g c where gc: "gc = (g, c)" by (cases gc)
  have d: "distinct (map fst gs)" "g \<notin> fst ` set gs" using Cons.prems(2) gc by auto
  show ?case
  proof (cases "group_map b g = None")
    case False
    then have "dom (group_map b) \<union> fst ` set (gc # gs) = dom (group_map b) \<union> fst ` set gs" using gc by auto
    then show ?thesis using Cons.IH [OF Cons.prems(1) d(1)] False gc
      by (auto split: sum.splits)
  next
    case new: True
    show ?thesis
    proof (cases "BARRIER_COUNT \<le> global_id b")
      case True
      have "dom (group_map b) \<subset> dom (group_map b) \<union> fst ` set (gc # gs)" using new gc by auto
      then have "card (dom (group_map b)) < card (dom (group_map b) \<union> fst ` set (gc # gs))"
        using Cons.prems(1) by (intro psubset_card_mono) (auto simp: barrier_ids_ok_def)
      then show ?thesis using True new gc barrier_ids_card [OF Cons.prems(1)] by simp
    next
      case False
      let ?b = "b\<lparr>global_id := global_id b + 1, group_map := (group_map b)(g \<mapsto> (global_id b, c))\<rparr>"
      have ok: "barrier_ids_ok ?b" using barrier_ids_insert [OF Cons.prems(1) new] False by simp
      have dom: "dom (group_map ?b) \<union> fst ` set gs = dom (group_map b) \<union> fst ` set (gc # gs)" using gc by auto
      note ih = Cons.IH [OF ok d(1), unfolded dom]
      show ?thesis
      proof (cases "assign_groups gs ?b")
        case (Inl e)
        then show ?thesis using ih new False gc by simp
      next
        case (Inr r)
        obtain ids b' where r: "r = (ids, b')" by (cases r)
        have res: "assign_groups (gc # gs) b = Inr (global_id b # ids, b')"
          using Inr r new False gc by simp
        have f: "barrier_ids_ok b'" "dom (group_map b') = dom (group_map b) \<union> fst ` set (gc # gs)"
          "\<forall>h \<in> dom (group_map ?b). group_map b' h = group_map ?b h"
          "\<forall>h k. (h, k) \<in> set gs \<longrightarrow> group_map ?b h = None \<longrightarrow> (\<exists>i \<in> set ids. group_map b' h = Some (i, k))"
          using ih unfolding Inr r by simp_all
        have "group_map b' h = group_map b h" if "h \<in> dom (group_map b)" for h
          using f(3) that new by (cases "h = g") auto
        moreover have "\<exists>i \<in> set (global_id b # ids). group_map b' h = Some (i, k)"
          if h: "(h, k) \<in> set (gc # gs)" "group_map b h = None" for h k
        proof (cases "h = g")
          case True
          then have "k = c" using h(1) d(2) gc by force
          then show ?thesis using f(3) True by simp
        next
          case False
          then show ?thesis using f(4) h gc by auto
        qed
        ultimately show ?thesis unfolding res using f(1,2) by simp
      qed
    qed
  qed
qed simp

lemma assign_waves_spec:
  assumes "barrier_ids_ok b" "\<And>w. w \<in> set ws \<Longrightarrow> distinct (map fst (ho (wave_groups ns w)))"
  defines "G \<equiv> \<lambda>ws. \<Union>w \<in> set ws. fst ` set (ho (wave_groups ns w))"
  shows "case assign_waves ho ns ws b of
      Inl e \<Rightarrow> e = AssertionFailed \<and> BARRIER_COUNT < card (dom (group_map b) \<union> G ws)
    | Inr (idss, b') \<Rightarrow> barrier_ids_ok b' \<and> dom (group_map b') = dom (group_map b) \<union> G ws
        \<and> length idss = length ws
        \<and> (\<forall>g \<in> dom (group_map b). group_map b' g = group_map b g)
        \<and> (\<forall>g \<in> G ws - dom (group_map b). \<exists>l < length ws. \<exists>k c. k \<in> set (idss ! l)
             \<and> (g, c) \<in> set (ho (wave_groups ns (ws ! l))) \<and> group_map b' g = Some (k, c))"
  using assms(1,2)
proof (induction ws arbitrary: b)
  case (Cons w ws)
  let ?gs = "ho (wave_groups ns w)"
  note step = assign_groups_spec [OF Cons.prems(1) Cons.prems(2) [of w, simplified]]
  have fin: "finite (dom (group_map b) \<union> G (w # ws))"
    using Cons.prems(1) by (auto simp: G_def barrier_ids_ok_def)
  show ?case
  proof (cases "assign_groups ?gs b")
    case (Inl e)
    have "card (dom (group_map b) \<union> fst ` set ?gs) \<le> card (dom (group_map b) \<union> G (w # ws))"
      by (rule card_mono [OF fin]) (auto simp: G_def)
    then show ?thesis using step Inl by simp
  next
    case (Inr r)
    obtain ids b1 where r: "r = (ids, b1)" by (cases r)
    have f: "barrier_ids_ok b1" "dom (group_map b1) = dom (group_map b) \<union> fst ` set ?gs"
      "\<forall>g \<in> dom (group_map b). group_map b1 g = group_map b g"
      "\<forall>g c. (g, c) \<in> set ?gs \<longrightarrow> group_map b g = None \<longrightarrow> (\<exists>k \<in> set ids. group_map b1 g = Some (k, c))"
      using step unfolding Inr r by simp_all
    have dom: "dom (group_map b1) \<union> G ws = dom (group_map b) \<union> G (w # ws)" using f(2) by (auto simp: G_def)
    note ih = Cons.IH [OF f(1) Cons.prems(2), simplified, unfolded dom]
    show ?thesis
    proof (cases "assign_waves ho ns ws b1")
      case Inl2: (Inl e)
      then show ?thesis using ih Inr r by simp
    next
      case Inr2: (Inr r2)
      obtain idss b2 where r2: "r2 = (idss, b2)" by (cases r2)
      have h: "barrier_ids_ok b2" "dom (group_map b2) = dom (group_map b) \<union> G (w # ws)" "length idss = length ws"
        "\<forall>g \<in> dom (group_map b1). group_map b2 g = group_map b1 g"
        "\<forall>g \<in> G ws - dom (group_map b1). \<exists>l < length ws. \<exists>k c. k \<in> set (idss ! l)
             \<and> (g, c) \<in> set (ho (wave_groups ns (ws ! l))) \<and> group_map b2 g = Some (k, c)"
        using ih unfolding Inr2 r2 by simp_all
      have res: "assign_waves ho ns (w # ws) b = Inr (ids # idss, b2)" using Inr r Inr2 r2 by simp
      have "group_map b2 g = group_map b g" if "g \<in> dom (group_map b)" for g
        using f(2,3) h(4) that by auto
      moreover have "\<exists>l < length (w # ws). \<exists>k c. k \<in> set ((ids # idss) ! l)
          \<and> (g, c) \<in> set (ho (wave_groups ns ((w # ws) ! l))) \<and> group_map b2 g = Some (k, c)"
        if g: "g \<in> G (w # ws) - dom (group_map b)" for g
      proof (cases "g \<in> fst ` set ?gs")
        case True
        then obtain c where c: "(g, c) \<in> set ?gs" by auto
        have "group_map b g = None" using g by (metis DiffD2 domIff)
        then obtain k where "k \<in> set ids" "group_map b1 g = Some (k, c)" using f(4) c by blast
        moreover have "group_map b2 g = group_map b1 g" using h(4) f(2) True by auto
        ultimately show ?thesis using c by (intro exI [of _ 0] exI [of _ k] exI [of _ c]) simp
      next
        case False
        then have "g \<in> G ws - dom (group_map b1)" using g f(2) by (auto simp: G_def)
        then obtain l k c where "l < length ws" "k \<in> set (idss ! l)"
          "(g, c) \<in> set (ho (wave_groups ns (ws ! l)))" "group_map b2 g = Some (k, c)" using h(5) by blast
        then show ?thesis by (intro exI [of _ "Suc l"] exI [of _ k] exI [of _ c]) simp
      qed
      ultimately show ?thesis unfolding res using h(1-3) by simp
    qed
  qed
qed (simp add: G_def)

lemma wave_groups_mem:
  assumes "distinct w" "set w \<subseteq> {..<length ns}"
  shows "(g, c) \<in> set (wave_groups ns w) \<longleftrightarrow>
    group_members ns g \<inter> set w \<noteq> {} \<and> c = card (group_members ns g \<inter> set w)"
proof -
  let ?gs = "\<lambda>w. concat (map (\<lambda>i. case barrier_group (ns ! i) of Some g \<Rightarrow> [g] | None \<Rightarrow> []) w)"
  have cnt: "count_list (?gs w) g = card (group_members ns g \<inter> set w)"
    using assms
  proof (induction w)
    case (Cons i w)
    have "group_members ns g \<inter> set (i # w)
        = (if barrier_group (ns ! i) = Some g then {i} else {}) \<union> (group_members ns g \<inter> set w)"
      using Cons.prems by (auto simp: group_members_def)
    then show ?case using Cons by (auto split: option.splits)
  qed simp
  have "g \<in> set (?gs w) \<longleftrightarrow> 0 < count_list (?gs w) g"
    using count_list_0_iff [of "?gs w" g] by auto
  then have "g \<in> set (?gs w) \<longleftrightarrow> group_members ns g \<inter> set w \<noteq> {}" by (simp add: cnt card_gt_0_iff)
  then show ?thesis using cnt by (auto simp: wave_groups_def Let_def image_iff simp del: set_concat)
qed

lemma wave_groups_distinct: "distinct (map fst (wave_groups ns w))"
  by (simp add: wave_groups_def Let_def comp_def)

lemma wave_wf:
  assumes "valid_order ns order" "w \<in> set (build_waves ns order)"
  shows "distinct w" "set w \<subseteq> {..<length ns}"
proof -
  obtain l where l: "l < length (build_waves ns order)" "w = build_waves ns order ! l"
    using assms(2) by (auto simp: in_set_conv_nth)
  then show "set w \<subseteq> {..<length ns}" using wave_mem(1) [OF assms(1) l(1)] by auto
  have "distinct (concat (build_waves ns order))"
    using waves_partition [OF assms(1)] by (metis distinct_upt mset_eq_imp_distinct_iff)
  then show "distinct w" using assms(2) by (simp add: distinct_concat_iff)
qed

lemma group_in_wave:
  assumes v: "valid_order ns order" and ok: "validate_barrier_groups ns (build_waves ns order) = Inr ()"
    and l: "l < length (build_waves ns order)" and i: "i \<in> group_members ns g" "i \<in> set (build_waves ns order ! l)"
  shows "group_members ns g \<subseteq> set (build_waves ns order ! l)"
proof
  fix j assume j: "j \<in> group_members ns g"
  have n: "i < length ns" "j < length ns" using i(1) j by (auto simp: group_members_def)
  have "node_wave (build_waves ns order) i = node_wave (build_waves ns order) j"
    using ok i(1) j unfolding validate_barrier_iff by blast
  then show "j \<in> set (build_waves ns order ! l)"
    using i(2) n node_wave_level [OF v] wave_mem(1) [OF v l] by simp
qed

lemma wave_groups_all:
  assumes v: "valid_order ns order"
  shows "(\<Union>w \<in> set (build_waves ns order). fst ` set (wave_groups ns w)) = {g. group_members ns g \<noteq> {}}"
proof (intro set_eqI iffI)
  let ?ws = "build_waves ns order"
  { fix g assume "g \<in> (\<Union>w \<in> set ?ws. fst ` set (wave_groups ns w))"
    then obtain w p where w: "w \<in> set ?ws" and p: "p \<in> set (wave_groups ns w)" "g = fst p" by blast
    then show "g \<in> {g. group_members ns g \<noteq> {}}"
      using wave_groups_mem [OF wave_wf [OF v w], of g "snd p"] by auto }
  fix g assume "g \<in> {g. group_members ns g \<noteq> {}}"
  then obtain i where i: "i \<in> group_members ns g" by auto
  then have n: "i < length ns" by (simp add: group_members_def)
  let ?l = "levels ns order (\<lambda>_. 0) i"
  have l: "?l < length ?ws" "i \<in> set (?ws ! ?l)" using wave_mem [OF v] n by auto
  then have w: "?ws ! ?l \<in> set ?ws" by simp
  have "(g, card (group_members ns g \<inter> set (?ws ! ?l))) \<in> set (wave_groups ns (?ws ! ?l))"
    using wave_groups_mem [OF wave_wf [OF v w], of g] i l(2) by auto
  then have "g \<in> fst ` set (wave_groups ns (?ws ! ?l))" by (metis fst_conv imageI)
  then show "g \<in> (\<Union>w \<in> set ?ws. fst ` set (wave_groups ns w))" using w by blast
qed

text \<open>
  Barrier slots of a validated DAG. Whatever order the hash map of a wave iterates in:
  every barrier group gets its own slot below \<open>BARRIER_COUNT\<close>, with the number of its
  members as the party count, and the slot is among those reset before the wave that runs the
  group; the only failure is the assertion, when there are more groups than slots.
\<close>

lemma barrier_assignment_correct:
  assumes "topo_sort ns = Some (Inr order)" "validate_barrier_groups ns (build_waves ns order) = Inr ()"
    and "\<And>gs. mset (hash_order gs) = mset gs"
  shows "case build_barrier_assignments hash_order ns (build_waves ns order) of
      Inl e \<Rightarrow> e = AssertionFailed \<and> BARRIER_COUNT < card {g. group_members ns g \<noteq> {}}
    | Inr (resets, groups) \<Rightarrow> dom groups = {g. group_members ns g \<noteq> {}} \<and> length resets = length (build_waves ns order)
        \<and> inj_on (\<lambda>g. fst (the (groups g))) (dom groups)
        \<and> (\<forall>g k c. groups g = Some (k, c) \<longrightarrow> k < BARRIER_COUNT \<and> c = card (group_members ns g)
             \<and> (\<exists>l < length resets. k \<in> set (resets ! l) \<and> group_members ns g \<subseteq> set (build_waves ns order ! l)))"
proof -
  have v: "valid_order ns order" using topo_sort_valid [OF assms(1)] by simp
  let ?ws = "build_waves ns order" and ?b = "\<lparr>global_id = 0, group_map = Map.empty\<rparr>"
  have setho: "set (hash_order gs) = set gs" for gs using assms(3) by (metis mset_eq_setD)
  have disth: "distinct (map fst (hash_order (wave_groups ns w)))" for w
    using wave_groups_distinct [of ns w] assms(3) [of "wave_groups ns w"]
    by (metis mset_eq_imp_distinct_iff mset_map)
  have ok: "barrier_ids_ok ?b" by (simp add: barrier_ids_ok_def bij_betw_def)
  note wd = wave_wf [OF v]
  have all: "(\<Union>w \<in> set ?ws. fst ` set (hash_order (wave_groups ns w))) = {g. group_members ns g \<noteq> {}}"
    unfolding setho by (rule wave_groups_all [OF v])
  note spec = assign_waves_spec [OF ok, of ?ws hash_order ns, OF disth, unfolded all]
  show ?thesis
  proof (cases "assign_waves hash_order ns ?ws ?b")
    case (Inl e)
    then show ?thesis using spec by (simp add: build_barrier_assignments_def)
  next
    case (Inr r)
    obtain idss b where r: "r = (idss, b)" by (cases r)
    have f: "barrier_ids_ok b" "dom (group_map b) = {g. group_members ns g \<noteq> {}}" "length idss = length ?ws"
      "\<forall>g \<in> {g. group_members ns g \<noteq> {}}. \<exists>l < length ?ws. \<exists>k c. k \<in> set (idss ! l)
        \<and> (g, c) \<in> set (hash_order (wave_groups ns (?ws ! l))) \<and> group_map b g = Some (k, c)"
      using spec unfolding Inr r by simp_all
    have res: "build_barrier_assignments hash_order ns ?ws = Inr (idss, group_map b)"
      using Inr r by (simp add: build_barrier_assignments_def)
    have bij: "bij_betw (\<lambda>g. fst (the (group_map b g))) (dom (group_map b)) {..<global_id b}"
      "global_id b \<le> BARRIER_COUNT" using f(1) by (simp_all add: barrier_ids_ok_def)
    have "k < BARRIER_COUNT \<and> c = card (group_members ns g)
        \<and> (\<exists>l < length idss. k \<in> set (idss ! l) \<and> group_members ns g \<subseteq> set (?ws ! l))"
      if g: "group_map b g = Some (k, c)" for g k c
    proof -
      have gd: "g \<in> dom (group_map b)" using g by auto
      then have "fst (the (group_map b g)) \<in> {..<global_id b}" using bij(1) bij_betwE by fast
      then have "k < BARRIER_COUNT" using bij(2) g by simp
      have "g \<in> {g. group_members ns g \<noteq> {}}" using gd f(2) by simp
      then obtain l k' c' where l': "l < length ?ws" "k' \<in> set (idss ! l)"
        "(g, c') \<in> set (wave_groups ns (?ws ! l))" "group_map b g = Some (k', c')"
        using f(4) unfolding setho by blast
      then have l: "l < length ?ws" "k \<in> set (idss ! l)" "(g, c) \<in> set (wave_groups ns (?ws ! l))"
        using g by simp_all
      have mem: "?ws ! l \<in> set ?ws" using l(1) by simp
      have c: "group_members ns g \<inter> set (?ws ! l) \<noteq> {}" "c = card (group_members ns g \<inter> set (?ws ! l))"
        using l(3) wave_groups_mem [OF wd [OF mem]] by auto
      then have sub: "group_members ns g \<subseteq> set (?ws ! l)" using group_in_wave [OF v assms(2) l(1)] by blast
      then have "c = card (group_members ns g)" using c(2) by (simp add: Int_absorb2)
      then show ?thesis using \<open>k < BARRIER_COUNT\<close> sub l(1,2) f(3) by metis
    qed
    then show ?thesis unfolding res using f(2,3) bij(1) by (simp add: bij_betw_def)
  qed
qed

section \<open>Slot bounds and reader counts\<close>

text \<open>
  The slot check accepts a DAG exactly when no node has an error; kinds without an arm in its match are never
  checked, whatever slots they declare.
\<close>

lemma validate_dag_nodes: "validate_dag d = Inr () \<longleftrightarrow> (\<forall>n \<in> set (nodes d). node_errors d n = [])"
  by (auto simp: validate_dag_def Let_def)

lemma free_slots_unchecked: "kind n = FreeSlots streams ios \<Longrightarrow> node_errors d n = []"
  by (simp add: node_errors_def)

lemma bump_counts_spec:
  "bump_counts ks m k = (if k \<in> set ks then Some ((case m k of Some c \<Rightarrow> c | None \<Rightarrow> 0) + count_list ks k) else m k)"
  by (induction ks arbitrary: m) (auto simp: count_list_0_iff)

text \<open>
  Reader counts. \<open>build_slot_refcounts\<close> counts, for every slot, how often the nodes of
  the DAG own it; a slot nobody owns has no entry, so no entry is ever zero.
\<close>

lemma refcounts_exact:
  "build_slot_refcounts d key =
     (let readers = length (filter (\<lambda>k. k = key) (concat (map owned_keys (nodes d))))
      in if readers = 0 then None else Some readers)"
proof -
  have "count_list ks key = length (filter (\<lambda>k. k = key) ks)" for ks :: "(slot_kind \<times> nat) list"
    by (induction ks) auto
  then show ?thesis
    by (auto simp: build_slot_refcounts_def bump_counts_spec Let_def count_list_0_iff filter_empty_conv)
qed

section \<open>A concrete plan\<close>

text \<open>
  A source, two workers of one barrier group, an aggregation and an output, listed out of
  order.
\<close>

definition sample_nodes :: "unit dag_node list" where
  "sample_nodes =
     [\<lparr>node_id = ''out'', deps = [''agg''], kind = Output \<lparr>op_path = ''o'', op_paths = [], op_slot = None, op_split_records = False\<rparr>, barrier_group = None\<rparr>,
      \<lparr>node_id = ''w1'', deps = [''src''], kind = WasmVoid ''f'' 1, barrier_group = Some ''g''\<rparr>,
      \<lparr>node_id = ''w2'', deps = [''src''], kind = WasmVoid ''f'' 2, barrier_group = Some ''g''\<rparr>,
      \<lparr>node_id = ''agg'', deps = [''w1'', ''w2''], kind = Aggregate [1, 2] 3, barrier_group = None\<rparr>,
      \<lparr>node_id = ''src'', deps = [], kind = WasmVoid ''g'' 0, barrier_group = None\<rparr>]"

definition sample_dag :: "unit dag" where
  "sample_dag = \<lparr>shm_path = ''shm'', wasm_path = None, python_script = None, python_wasm = None,
     log_level = None, mode = OneShot, runs = None, persist_slots = [], rdma = None, nodes = sample_nodes\<rparr>"

lemma sample_topo: "topo_sort sample_nodes = Some (Inr [4, 1, 2, 3, 0])"
proof -
  have idx: "id_to_idx sample_nodes = [''out'' \<mapsto> 0, ''w1'' \<mapsto> 1, ''w2'' \<mapsto> 2, ''agg'' \<mapsto> 3, ''src'' \<mapsto> 4]"
    by (rule ext) (simp add: id_to_idx_def sample_nodes_def)
  show ?thesis unfolding topo_sort_def idx
    by (simp add: sample_nodes_def kahn.simps upt_rec Let_def usize_dec_def)
qed

lemma sample_waves: "build_waves sample_nodes [4, 1, 2, 3, 0] = [[4], [1, 2], [3], [0]]"
proof -
  have idx: "id_to_idx sample_nodes = [''out'' \<mapsto> 0, ''w1'' \<mapsto> 1, ''w2'' \<mapsto> 2, ''agg'' \<mapsto> 3, ''src'' \<mapsto> 4]"
    by (rule ext) (simp add: id_to_idx_def sample_nodes_def)
  have "levels sample_nodes [4, 1, 2, 3, 0] (\<lambda>_. 0) = (\<lambda>_. 0)(1 := 1, 2 := 1, 3 := 2, 0 := 3)"
    by (rule ext) (simp add: idx, simp add: sample_nodes_def)
  then show ?thesis by (simp add: build_waves_def Let_def sample_nodes_def upt_rec)
qed

lemma sample_barriers: "validate_barrier_groups sample_nodes [[4], [1, 2], [3], [0]] = Inr ()"
  by (simp add: validate_barrier_groups_def sample_nodes_def node_wave_def)

theorem waves_respect_deps_witness:
  "topo_sort sample_nodes = Some (Inr [4, 1, 2, 3, 0]) \<and>
   mset (concat (build_waves sample_nodes [4, 1, 2, 3, 0])) = mset [0..<length sample_nodes]"
  using waves_respect_deps [OF sample_topo] sample_topo by blast

end
