(* ===== verification/Json.thy ===== *)
theory Json
  imports Prelude Complex_Main "HOL-Library.AList" "HOL-Library.Multiset"
begin

text \<open>
  JSON values as the partitioner handles them (\<open>serde_json::Value\<close>), decimal printing for the
  identifiers it formats, and the \<open>f64\<close> operations it uses. The type of floating-point
  numbers is a parameter \<open>'f\<close>; its operations are a record that the definitions using them take
  as an argument, so nothing is assumed about rounding but where \<open>f64_laws\<close> is a hypothesis. An object is its list of entries with
  distinct keys; no modelled operation depends on their order.
\<close>

section \<open>Floating-point operations\<close>

record 'f f64_ops =
  f_of_nat :: "nat \<Rightarrow> 'f"      \<comment> \<open>\<open>n as f64\<close>\<close>
  f_add :: "'f \<Rightarrow> 'f \<Rightarrow> 'f"
  f_sub :: "'f \<Rightarrow> 'f \<Rightarrow> 'f"
  f_mul :: "'f \<Rightarrow> 'f \<Rightarrow> 'f"
  f_div :: "'f \<Rightarrow> 'f \<Rightarrow> 'f"
  f_lt :: "'f \<Rightarrow> 'f \<Rightarrow> bool"
  f_eq :: "'f \<Rightarrow> 'f \<Rightarrow> bool"
  f_floor :: "'f \<Rightarrow> 'f"
  f_to_usize :: "'f \<Rightarrow> nat"    \<comment> \<open>\<open>x as usize\<close>\<close>
  f_infinity :: 'f
  f_epsilon :: 'f

definition f_le :: "'f f64_ops \<Rightarrow> 'f \<Rightarrow> 'f \<Rightarrow> bool" where
  "f_le ops a b \<longleftrightarrow> f_lt ops a b \<or> f_eq ops a b"

text \<open>A decimal literal \<open>a / b\<close> with both parts exact is the correctly rounded quotient.\<close>

definition f_lit :: "'f f64_ops \<Rightarrow> nat \<Rightarrow> nat \<Rightarrow> 'f" where
  "f_lit ops a b = f_div ops (f_of_nat ops a) (f_of_nat ops b)"

definition f_sum :: "'f f64_ops \<Rightarrow> 'f list \<Rightarrow> 'f" where
  "f_sum ops xs = foldl (f_add ops) (f_of_nat ops 0) xs"

definition f_is_finite :: "'f f64_ops \<Rightarrow> 'f \<Rightarrow> bool" where
  "f_is_finite ops x \<longleftrightarrow> f_lt ops x (f_infinity ops) \<and> f_lt ops (f_sub ops (f_of_nat ops 0) (f_infinity ops)) x"

datatype ordering = Less | Equal | Greater

definition partial_cmp :: "'f f64_ops \<Rightarrow> 'f \<Rightarrow> 'f \<Rightarrow> ordering option" where
  "partial_cmp ops a b =
     (if f_lt ops a b then Some Less else if f_eq ops a b then Some Equal
      else if f_lt ops b a then Some Greater else None)"

definition unwrap_or :: "'a \<Rightarrow> 'a option \<Rightarrow> 'a" where
  "unwrap_or d x = (case x of Some v \<Rightarrow> v | None \<Rightarrow> d)"

definition cmp_or_equal :: "'f f64_ops \<Rightarrow> 'f \<Rightarrow> 'f \<Rightarrow> ordering" where
  "cmp_or_equal ops a b = unwrap_or Equal (partial_cmp ops a b)"

definition cmp_nat :: "nat \<Rightarrow> nat \<Rightarrow> ordering" where
  "cmp_nat a b = (if a < b then Less else if a = b then Equal else Greater)"

text \<open>\<open>Ordering::then\<close>, \<open>Iterator::max_by\<close> (the last of equal maxima) and the stable \<open>sort_by\<close>.\<close>

definition ordering_then :: "ordering \<Rightarrow> ordering \<Rightarrow> ordering" where
  "ordering_then a b = (if a = Equal then b else a)"

fun max_by :: "('a \<Rightarrow> 'a \<Rightarrow> ordering) \<Rightarrow> 'a list \<Rightarrow> 'a option" where
  "max_by cmp [] = None"
| "max_by cmp (x # xs) = Some (foldl (\<lambda>m y. if cmp m y = Greater then m else y) x xs)"

fun insert_by :: "('a \<Rightarrow> 'a \<Rightarrow> ordering) \<Rightarrow> 'a \<Rightarrow> 'a list \<Rightarrow> 'a list" where
  "insert_by cmp x [] = [x]"
| "insert_by cmp x (y # ys) = (if cmp x y = Greater then y # insert_by cmp x ys else x # y # ys)"

fun sort_by :: "('a \<Rightarrow> 'a \<Rightarrow> ordering) \<Rightarrow> 'a list \<Rightarrow> 'a list" where
  "sort_by cmp [] = []"
| "sort_by cmp (x # xs) = insert_by cmp x (sort_by cmp xs)"

lemma max_by_mem: "max_by cmp xs = Some m \<Longrightarrow> m \<in> set xs"
proof (cases xs)
  case (Cons x ys)
  have "foldl (\<lambda>m y. if cmp m y = Greater then m else y) z ys \<in> insert z (set ys)" for z
    by (induction ys arbitrary: z) auto
  then show "max_by cmp xs = Some m \<Longrightarrow> m \<in> set xs" using Cons by auto
qed simp

lemma max_by_None [simp]: "max_by cmp xs = None \<longleftrightarrow> xs = []"
  by (cases xs) auto

lemma mset_insert_by [simp]: "mset (insert_by cmp x xs) = add_mset x (mset xs)"
  by (induction xs) auto

lemma mset_sort_by [simp]: "mset (sort_by cmp xs) = mset xs"
  by (induction xs) auto

lemma set_sort_by [simp]: "set (sort_by cmp xs) = set xs"
  by (metis mset_sort_by set_mset_mset)

lemma length_sort_by [simp]: "length (sort_by cmp xs) = length xs"
  by (metis mset_sort_by size_mset)

lemma distinct_sort_by [simp]: "distinct (sort_by cmp xs) = distinct xs"
  by (metis mset_sort_by mset_eq_imp_distinct_iff)

text \<open>
  Exact arithmetic on rationals, an instance without rounding; the sentinel for infinity lies
  above every finite \<open>f64\<close>.
\<close>

definition rat_ops :: "rat f64_ops" where
  "rat_ops = \<lparr>f_of_nat = of_nat, f_add = (+), f_sub = (-), f_mul = (*), f_div = (/),
     f_lt = (<), f_eq = (=), f_floor = (\<lambda>x. of_int \<lfloor>x\<rfloor>), f_to_usize = (\<lambda>x. nat \<lfloor>x\<rfloor>),
     f_infinity = 10 ^ 400, f_epsilon = 1 / 2 ^ 52\<rparr>"

text \<open>
  What the slice arithmetic relies on of IEEE 754 binary64: integers up to \<open>2^53\<close> are represented, compared and
  added exactly, a quotient or product of such numbers is the rounded one and rounding is monotone and
  exact on representable results, and \<open>floor\<close> and the cast to \<open>usize\<close> are monotone and exact on integers.
\<close>

definition f64_exact :: nat where "f64_exact = 9007199254740992"

definition f64_laws :: "'f f64_ops \<Rightarrow> bool" where
  "f64_laws ops \<longleftrightarrow>
     (\<forall>a b. a \<le> f64_exact \<longrightarrow> b \<le> f64_exact \<longrightarrow> f_eq ops (f_of_nat ops a) (f_of_nat ops b) = (a = b))
   \<and> (\<forall>a b. a + b \<le> f64_exact \<longrightarrow> f_add ops (f_of_nat ops a) (f_of_nat ops b) = f_of_nat ops (a + b))
   \<and> (\<forall>x y. f_le ops x y \<longrightarrow> \<not> f_lt ops y x)
   \<and> (\<forall>a b d. a \<le> b \<longrightarrow> b \<le> f64_exact \<longrightarrow> 0 < d \<longrightarrow> d \<le> f64_exact \<longrightarrow>
        f_le ops (f_div ops (f_of_nat ops a) (f_of_nat ops d)) (f_div ops (f_of_nat ops b) (f_of_nat ops d)))
   \<and> (\<forall>d. 0 < d \<longrightarrow> d \<le> f64_exact \<longrightarrow> f_div ops (f_of_nat ops 0) (f_of_nat ops d) = f_of_nat ops 0
        \<and> f_div ops (f_of_nat ops d) (f_of_nat ops d) = f_of_nat ops 1)
   \<and> (\<forall>x y n. f_le ops (f_of_nat ops 0) x \<longrightarrow> f_le ops x y \<longrightarrow> f_le ops y (f_of_nat ops 1) \<longrightarrow> n \<le> f64_exact \<longrightarrow>
        f_le ops (f_mul ops x (f_of_nat ops n)) (f_mul ops y (f_of_nat ops n)))
   \<and> (\<forall>n. n \<le> f64_exact \<longrightarrow> f_mul ops (f_of_nat ops 0) (f_of_nat ops n) = f_of_nat ops 0
        \<and> f_mul ops (f_of_nat ops 1) (f_of_nat ops n) = f_of_nat ops n)
   \<and> (\<forall>x y. f_le ops x y \<longrightarrow> f_le ops (f_floor ops x) (f_floor ops y))
   \<and> (\<forall>x y. f_le ops x y \<longrightarrow> f_to_usize ops x \<le> f_to_usize ops y)
   \<and> (\<forall>n. n \<le> f64_exact \<longrightarrow> f_to_usize ops (f_floor ops (f_of_nat ops n)) = n)"

lemma f64_lawsD:
  assumes "f64_laws ops"
  shows "a \<le> f64_exact \<Longrightarrow> b \<le> f64_exact \<Longrightarrow> f_eq ops (f_of_nat ops a) (f_of_nat ops b) = (a = b)"
    "a + b \<le> f64_exact \<Longrightarrow> f_add ops (f_of_nat ops a) (f_of_nat ops b) = f_of_nat ops (a + b)"
    "f_le ops x y \<Longrightarrow> \<not> f_lt ops y x"
    "a \<le> b \<Longrightarrow> b \<le> f64_exact \<Longrightarrow> 0 < d \<Longrightarrow> d \<le> f64_exact \<Longrightarrow>
       f_le ops (f_div ops (f_of_nat ops a) (f_of_nat ops d)) (f_div ops (f_of_nat ops b) (f_of_nat ops d))"
    "0 < d \<Longrightarrow> d \<le> f64_exact \<Longrightarrow> f_div ops (f_of_nat ops 0) (f_of_nat ops d) = f_of_nat ops 0"
    "0 < d \<Longrightarrow> d \<le> f64_exact \<Longrightarrow> f_div ops (f_of_nat ops d) (f_of_nat ops d) = f_of_nat ops 1"
    "f_le ops (f_of_nat ops 0) x \<Longrightarrow> f_le ops x y \<Longrightarrow> f_le ops y (f_of_nat ops 1) \<Longrightarrow> n \<le> f64_exact \<Longrightarrow>
       f_le ops (f_mul ops x (f_of_nat ops n)) (f_mul ops y (f_of_nat ops n))"
    "n \<le> f64_exact \<Longrightarrow> f_mul ops (f_of_nat ops 0) (f_of_nat ops n) = f_of_nat ops 0"
    "n \<le> f64_exact \<Longrightarrow> f_mul ops (f_of_nat ops 1) (f_of_nat ops n) = f_of_nat ops n"
    "f_le ops x y \<Longrightarrow> f_le ops (f_floor ops x) (f_floor ops y)"
    "f_le ops x y \<Longrightarrow> f_to_usize ops x \<le> f_to_usize ops y"
    "n \<le> f64_exact \<Longrightarrow> f_to_usize ops (f_floor ops (f_of_nat ops n)) = n"
  using assms unfolding f64_laws_def by (simp, simp, blast, blast, blast, blast, blast, blast, blast, blast, blast, blast)

section \<open>Decimal printing\<close>

definition digit :: "nat \<Rightarrow> char" where
  "digit d = char_of (48 + d)"

fun show_nat :: "nat \<Rightarrow> string" where
  "show_nat n = (if n < 10 then [digit n] else show_nat (n div 10) @ [digit (n mod 10)])"

declare show_nat.simps [simp del]

definition is_digit :: "char \<Rightarrow> bool" where
  "is_digit c \<longleftrightarrow> 48 \<le> (of_char c :: nat) \<and> (of_char c :: nat) < 58"

lemma is_digit_digit: "d < 10 \<Longrightarrow> is_digit (digit d)"
  by (simp add: is_digit_def digit_def)

lemma digit_inj: "a < 10 \<Longrightarrow> b < 10 \<Longrightarrow> digit a = digit b \<Longrightarrow> a = b"
  by (simp add: digit_def char_of_eq_iff [symmetric] flip: of_char_eq_iff)

lemma show_nat_digits: "c \<in> set (show_nat n) \<Longrightarrow> is_digit c"
  by (induction n rule: show_nat.induct)
    (subst (asm) (2) show_nat.simps, auto simp: is_digit_digit split: if_splits)

lemma show_nat_nonempty [simp]: "show_nat n \<noteq> []"
  by (subst show_nat.simps) simp

lemma show_nat_inj: "show_nat a = show_nat b \<longleftrightarrow> a = b"
proof (intro iffI)
  show "show_nat a = show_nat b \<Longrightarrow> a = b"
  proof (induction a arbitrary: b rule: show_nat.induct)
    case (1 a)
    note eq = "1.prems" [unfolded show_nat.simps [of a] show_nat.simps [of b]]
    show ?case
    proof (cases "a < 10"; cases "b < 10")
      assume ab: "\<not> a < 10" "\<not> b < 10"
      then have "show_nat (a div 10) = show_nat (b div 10)" "digit (a mod 10) = digit (b mod 10)"
        using eq by simp_all
      then have "a div 10 = b div 10" "a mod 10 = b mod 10"
        using "1.IH" [OF ab(1)] digit_inj by simp_all
      then show ?thesis by (metis div_mult_mod_eq)
    qed (use eq digit_inj in \<open>auto simp: append_eq_Cons_conv Cons_eq_append_conv\<close>)
  qed
qed simp

section \<open>Values\<close>

datatype 'f json_number = PosInt nat | NegInt nat | Float 'f

datatype 'f json =
    JNull
  | JBool bool
  | JNumber "'f json_number"
  | JString string
  | JArray "'f json list"
  | JObject "(string \<times> 'f json) list"

fun json_get :: "string \<Rightarrow> 'f json \<Rightarrow> 'f json option" where
  "json_get k (JObject m) = map_of m k"
| "json_get k _ = None"

fun as_u64 :: "'f json \<Rightarrow> nat option" where
  "as_u64 (JNumber (PosInt n)) = Some n"
| "as_u64 _ = None"

fun as_f64 :: "'f f64_ops \<Rightarrow> 'f json \<Rightarrow> 'f option" where
  "as_f64 ops (JNumber (PosInt n)) = Some (f_of_nat ops n)"
| "as_f64 ops (JNumber (NegInt n)) = Some (f_sub ops (f_of_nat ops 0) (f_of_nat ops n))"
| "as_f64 ops (JNumber (Float x)) = Some x"
| "as_f64 ops _ = None"

fun as_bool :: "'f json \<Rightarrow> bool option" where
  "as_bool (JBool b) = Some b"
| "as_bool _ = None"

fun as_str :: "'f json \<Rightarrow> string option" where
  "as_str (JString s) = Some s"
| "as_str _ = None"

fun as_array :: "'f json \<Rightarrow> 'f json list option" where
  "as_array (JArray xs) = Some xs"
| "as_array _ = None"

fun as_object :: "'f json \<Rightarrow> (string \<times> 'f json) list option" where
  "as_object (JObject m) = Some m"
| "as_object _ = None"

definition contains_key :: "(string \<times> 'f json) list \<Rightarrow> string \<Rightarrow> bool" where
  "contains_key m k \<longleftrightarrow> map_of m k \<noteq> None"

definition obj_remove :: "string \<Rightarrow> (string \<times> 'f json) list \<Rightarrow> (string \<times> 'f json) list" where
  "obj_remove k m = AList.delete k m"

definition obj_insert :: "string \<Rightarrow> 'f json \<Rightarrow> (string \<times> 'f json) list \<Rightarrow> (string \<times> 'f json) list" where
  "obj_insert k v m = AList.update k v m"

definition jnat :: "nat \<Rightarrow> 'f json" where
  "jnat n = JNumber (PosInt n)"

definition jstrs :: "string list \<Rightarrow> 'f json" where
  "jstrs xs = JArray (map JString xs)"

lemma map_of_obj_insert [simp]: "map_of (obj_insert k v m) = (map_of m)(k \<mapsto> v)"
  by (simp add: obj_insert_def update_conv')

lemma as_u64_jnat [simp]: "as_u64 (jnat n) = Some n"
  by (simp add: jnat_def)

text \<open>The entry \<open>kind[variant]\<close> as an object: \<open>kind.get(variant).and_then(as_object)\<close>.\<close>

definition kind_obj :: "string \<Rightarrow> 'f json \<Rightarrow> (string \<times> 'f json) list option" where
  "kind_obj variant kind = Option.bind (json_get variant kind) as_object"

definition get_u64 :: "string \<Rightarrow> (string \<times> 'f json) list \<Rightarrow> nat option" where
  "get_u64 k m = Option.bind (map_of m k) as_u64"

end
