(* ===== verification/Placer.thy ===== *)
theory Placer
  imports Json Topo
begin

text \<open>
  The first half of the partitioner: the symbolic DAG (\<open>partitioner/src/symbolic_dag.rs\<close>), slot
  discovery in kind JSON (\<open>slot.rs\<close>), the placement policies (\<open>policies.rs\<close>) and the placer
  (\<open>placer.rs\<close>). Hash maps of hints are association lists in their iteration order; the draws
  of the random policy are a parameter.
\<close>

section \<open>The symbolic DAG\<close>

datatype split_hint = Avoid | Prefer

record 'f symbolic_node =
  sn_id :: string
  sn_deps :: "string list"
  sn_node_id :: "nat option"
  sn_output_slot :: "nat option"
  sn_fanout :: "nat option"
  sn_placement :: "string option"
  sn_barrier_group :: "string option"
  sn_split :: "split_hint option"
  sn_out_weight :: "'f option"
  sn_kind :: "'f json"

record shared_input =
  si_path :: string
  si_source_node :: nat

record 'f placement_hints =
  capacity :: "(nat \<times> 'f) list"
  host_limit :: "(nat \<times> nat) list"
  cores :: "(nat \<times> nat) list"
  random :: bool

datatype named_policy = Balanced | Pack | Spread | Random

datatype policy_kind = KBalanced | KPack | KSpread | KWeighted

record 'f policy_config =
  pc_kind :: policy_kind
  pc_weights :: "'f list"
  pc_per_host_limit :: "nat option"

datatype 'f placement_policy = Named named_policy | Config "'f policy_config"

record 'f symbolic_dag =
  sd_shm_path_prefix :: string
  sd_wasm_path :: "string option"
  sd_python_script :: "string option"
  sd_python_wasm :: "string option"
  sd_log_level :: "string option"
  sd_mode :: "string option"
  sd_runs :: "nat option"
  sd_transfer :: bool
  sd_total_nodes :: "nat option"
  sd_max_colocation :: "nat option"
  sd_shared_inputs :: "shared_input list"
  sd_placement_policy :: "'f placement_policy option"
  sd_hints :: "'f placement_hints option"
  sd_converge_on_coordinator :: "bool option"
  sd_nodes :: "'f symbolic_node list"

section \<open>Slots in kind JSON\<close>

definition output_slot :: "'f json \<Rightarrow> nat option" where
  "output_slot kind =
     (case json_get ''Aggregate'' kind of
        Some agg \<Rightarrow> map_option wrap32 (Option.bind (json_get ''downstream'' agg) as_u64)
      | None \<Rightarrow>
     (case json_get ''Bridge'' kind of
        Some bridge \<Rightarrow> map_option wrap32 (Option.bind (json_get ''to'' bridge) as_u64)
      | None \<Rightarrow>
     (case json_get ''Input'' kind of
        Some input \<Rightarrow> Some (wrap32 (unwrap_or 0 (Option.bind (json_get ''slot'' input) as_u64)))
      | None \<Rightarrow> None)))"

text \<open>The set \<open>out\<close> that \<open>collect_slots\<close> fills, as the list of values it inserts.\<close>

fun collect_slots :: "'f json \<Rightarrow> nat list" where
  "collect_slots (JNumber (PosInt u)) = (if u \<le> u32_max then [u] else [])"
| "collect_slots (JArray arr) = concat (map collect_slots arr)"
| "collect_slots (JObject m) = concat (map (\<lambda>(k, v). if k = ''wasm_arg'' then [] else collect_slots v) m)"
| "collect_slots _ = []"

section \<open>Placement policies\<close>

definition hosts :: "nat \<Rightarrow> nat list" where
  "hosts total_nodes = [0..<wrap32 total_nodes]"

definition named_hints ::
  "'f f64_ops \<Rightarrow> named_policy \<Rightarrow> nat \<Rightarrow> nat option \<Rightarrow> 'f placement_hints" where
  "named_hints ops policy total_nodes per_host_limit =
     (let limits = (case per_host_limit of Some lmt \<Rightarrow> map (\<lambda>i. (i, lmt)) (hosts total_nodes) | None \<Rightarrow> []);
          n = f_of_nat ops total_nodes
      in case policy of
           Balanced \<Rightarrow>
             (let w = f_div ops (f_of_nat ops 1) n
              in \<lparr>capacity = map (\<lambda>i. (i, w)) (hosts total_nodes), host_limit = limits, cores = [], random = False\<rparr>)
         | Pack \<Rightarrow>
             (let uniform = f_div ops (f_of_nat ops 1) n;
                  sum = f_add ops uniform (f_lit ops 5 100);
                  boost = (if f_lt ops sum (f_of_nat ops 1) then sum else f_of_nat ops 1);
                  rest = (if 1 < total_nodes
                          then f_div ops (f_sub ops (f_of_nat ops 1) boost) (f_of_nat ops (total_nodes - 1))
                          else f_of_nat ops 0)
              in \<lparr>capacity = map (\<lambda>i. (i, if i = 0 then boost else rest)) (hosts total_nodes),
                  host_limit = limits, cores = [], random = False\<rparr>)
         | Spread \<Rightarrow>
             \<lparr>capacity = [], host_limit = map (\<lambda>i. (i, unwrap_or 1 per_host_limit)) (hosts total_nodes),
              cores = [], random = False\<rparr>
         | Random \<Rightarrow> \<lparr>capacity = [], host_limit = limits, cores = [], random = True\<rparr>)"

definition weighted_hints ::
  "'f f64_ops \<Rightarrow> 'f list \<Rightarrow> nat \<Rightarrow> nat option \<Rightarrow> 'f placement_hints" where
  "weighted_hints ops weights total_nodes per_host_limit =
     (let s = f_sum ops weights;
          sum = (if f_lt ops s (f_epsilon ops) \<or> \<not> f_eq ops s s then f_epsilon ops else s)
      in \<lparr>capacity = map (\<lambda>i. (i, f_div ops (if i < length weights then weights ! i else f_of_nat ops 0) sum))
                        (hosts total_nodes),
          host_limit = (case per_host_limit of Some lmt \<Rightarrow> map (\<lambda>i. (i, lmt)) (hosts total_nodes) | None \<Rightarrow> []),
          cores = [], random = False\<rparr>)"

definition config_hints :: "'f f64_ops \<Rightarrow> 'f policy_config \<Rightarrow> nat \<Rightarrow> 'f placement_hints" where
  "config_hints ops cfg total_nodes =
     (case pc_kind cfg of
        KBalanced \<Rightarrow> named_hints ops Balanced total_nodes (pc_per_host_limit cfg)
      | KPack \<Rightarrow> named_hints ops Pack total_nodes (pc_per_host_limit cfg)
      | KSpread \<Rightarrow> named_hints ops Spread total_nodes (pc_per_host_limit cfg)
      | KWeighted \<Rightarrow> weighted_hints ops (pc_weights cfg) total_nodes (pc_per_host_limit cfg))"

definition resolve_policy :: "'f f64_ops \<Rightarrow> 'f placement_policy \<Rightarrow> nat \<Rightarrow> 'f placement_hints" where
  "resolve_policy ops policy total_nodes =
     (case policy of
        Named name \<Rightarrow> named_hints ops name total_nodes None
      | Config cfg \<Rightarrow> config_hints ops cfg total_nodes)"

definition default_hints :: "'f f64_ops \<Rightarrow> nat \<Rightarrow> 'f placement_hints" where
  "default_hints ops total_nodes = named_hints ops Pack total_nodes None"

section \<open>Topological order of the placer\<close>

definition node_idx :: "'f symbolic_node list \<Rightarrow> string \<rightharpoonup> nat" where
  "node_idx ns = map_of (rev (zip (map sn_id ns) [0..<length ns]))"

text \<open>Unknown dependencies are skipped.\<close>

fun succ_deps ::
  "(string \<rightharpoonup> nat) \<Rightarrow> nat \<Rightarrow> string list \<Rightarrow> (nat \<Rightarrow> nat list) \<times> (nat \<Rightarrow> nat) \<Rightarrow>
   (nat \<Rightarrow> nat list) \<times> (nat \<Rightarrow> nat)" where
  "succ_deps idx i [] st = st"
| "succ_deps idx i (dep # ds) st =
     (case idx dep of
        None \<Rightarrow> succ_deps idx i ds st
      | Some j \<Rightarrow> succ_deps idx i ds ((fst st)(j := fst st j @ [i]), (snd st)(i := snd st i + 1)))"

fun succ_nodes ::
  "(string \<rightharpoonup> nat) \<Rightarrow> nat \<Rightarrow> 'f symbolic_node list \<Rightarrow> (nat \<Rightarrow> nat list) \<times> (nat \<Rightarrow> nat) \<Rightarrow>
   (nat \<Rightarrow> nat list) \<times> (nat \<Rightarrow> nat)" where
  "succ_nodes idx i [] st = st"
| "succ_nodes idx i (n # ns) st = succ_nodes idx (Suc i) ns (succ_deps idx i (sn_deps n) st)"

definition topo_order :: "'f symbolic_node list \<Rightarrow> nat list option" where
  "topo_order ns =
     (case succ_nodes (node_idx ns) 0 ns (\<lambda>_. [], \<lambda>_. 0) of (successors, in_degree) \<Rightarrow>
        map_option (\<lambda>order. if length order < length ns
                            then order @ filter (\<lambda>i. i \<notin> set order) [0..<length ns] else order)
          (kahn successors in_degree (filter (\<lambda>i. in_degree i = 0) [0..<length ns]) []))"

section \<open>Quotas\<close>

definition limit :: "'f placement_hints \<Rightarrow> nat \<Rightarrow> nat option \<Rightarrow> nat \<Rightarrow> nat" where
  "limit hints auto_count global_cap host =
     (let per_host = (if host_limit hints = [] then auto_count
                      else max (unwrap_or 1 (map_of (host_limit hints) host)) 1)
      in case global_cap of Some c \<Rightarrow> min per_host c | None \<Rightarrow> per_host)"

text \<open>Largest-remainder rounding: one more to the first \<open>leftover\<close> hosts of \<open>allocs\<close>, cyclically.\<close>

fun bump_allocs :: "nat \<Rightarrow> nat \<Rightarrow> (nat \<times> 'f \<times> nat) list \<Rightarrow> (nat \<times> 'f \<times> nat) list" where
  "bump_allocs i 0 allocs = allocs"
| "bump_allocs i (Suc left) allocs =
     (let k = i mod length allocs; (h, x, a) = allocs ! k
      in bump_allocs (Suc i) left (allocs[k := (h, x, a + 1)]))"

fun top_up :: "(nat \<Rightarrow> nat) \<Rightarrow> nat list \<Rightarrow> nat \<Rightarrow> (nat \<rightharpoonup> nat) \<Rightarrow> nat \<rightharpoonup> nat" where
  "top_up lmt [] deficit quota = quota"
| "top_up lmt (host # hs) deficit quota =
     (if deficit = 0 then quota
      else let current = unwrap_or 0 (quota host);
               add = min (lmt host - current) deficit
           in top_up lmt hs (deficit - add) (quota(host \<mapsto> current + add)))"

text \<open>\<open>Option::partial_cmp\<close>: \<open>None\<close> is below every value.\<close>

definition cmp_option :: "'f f64_ops \<Rightarrow> 'f option \<Rightarrow> 'f option \<Rightarrow> ordering" where
  "cmp_option ops a b =
     (case (a, b) of
        (None, None) \<Rightarrow> Equal | (None, Some _) \<Rightarrow> Less | (Some _, None) \<Rightarrow> Greater
      | (Some x, Some y) \<Rightarrow> cmp_or_equal ops x y)"

text \<open>
  The sum \<open>floored\<close> is not cut to 64 bits: it exceeds \<open>usize\<close> only when a share is infinite, which takes capacities
  that sum to zero.
\<close>

definition remainder_allocs ::
  "'f f64_ops \<Rightarrow> nat \<Rightarrow> nat \<Rightarrow> 'f placement_hints \<Rightarrow> (nat \<times> 'f \<times> nat) list" where
  "remainder_allocs ops total_nodes auto_count hints =
     (let uniform_share = f_div ops (f_of_nat ops 1) (f_of_nat ops total_nodes);
          flr = f_mul ops uniform_share (f_lit ops 1 2);
          raw0 = map (\<lambda>i. (i, unwrap_or flr (map_of (capacity hints) i))) (hosts total_nodes);
          total_cap = f_sum ops (map snd raw0);
          raw = map (\<lambda>(i, c). (i, f_div ops c total_cap)) raw0;
          allocs = map (\<lambda>(i, cap). let exact = f_mul ops cap (f_of_nat ops auto_count)
                                   in (i, exact, f_to_usize ops exact)) raw;
          floored = sum_list (map (\<lambda>(_, _, a). a) allocs);
          sorted = sort_by (\<lambda>(_, ea, a) (_, eb, b).
                     cmp_or_equal ops (f_sub ops eb (f_of_nat ops b)) (f_sub ops ea (f_of_nat ops a))) allocs
      in bump_allocs 0 (auto_count - floored) sorted)"

definition proportional_quotas ::
  "'f f64_ops \<Rightarrow> nat \<Rightarrow> nat \<Rightarrow> 'f placement_hints \<Rightarrow> nat option \<Rightarrow> nat \<rightharpoonup> nat" where
  "proportional_quotas ops total_nodes auto_count hints global_cap =
     (let lmt = limit hints auto_count global_cap;
          capped = map (\<lambda>(i, _, a). (i, min a (lmt i))) (remainder_allocs ops total_nodes auto_count hints);
          capped_total = sum_list (map snd capped)
      in if capped_total < auto_count
         then top_up lmt (sort_by (\<lambda>a b. cmp_option ops (map_of (capacity hints) b) (map_of (capacity hints) a))
                            (hosts total_nodes)) (auto_count - capped_total) (map_of capped)
         else map_of capped)"

definition compute_quotas ::
  "'f f64_ops \<Rightarrow> nat \<Rightarrow> nat \<Rightarrow> 'f placement_hints \<Rightarrow> nat option \<Rightarrow> nat \<rightharpoonup> nat" where
  "compute_quotas ops total_nodes auto_count hints global_cap =
     (let lmt = limit hints auto_count global_cap in
      if capacity hints = [] then
        (let base = (if host_limit hints = [] then auto_count else (auto_count + total_nodes - 1) div total_nodes)
         in map_of (map (\<lambda>i. (i, min base (lmt i))) (hosts total_nodes)))
      else case max_by (\<lambda>a b. cmp_or_equal ops (snd a) (snd b)) (capacity hints) of
             Some (best_id, best_cap) \<Rightarrow>
               (if auto_count \<le> lmt best_id
                   \<and> f_lt ops (f_div ops (f_of_nat ops 1) (f_of_nat ops total_nodes)) best_cap
                then [best_id \<mapsto> auto_count]
                else proportional_quotas ops total_nodes auto_count hints global_cap)
           | None \<Rightarrow> proportional_quotas ops total_nodes auto_count hints global_cap)"

section \<open>Assignment\<close>

definition KEEP_WEIGHT :: "'f f64_ops \<Rightarrow> 'f" where
  "KEEP_WEIGHT ops = f_of_nat ops 1000000000"

definition edge_weight :: "'f f64_ops \<Rightarrow> 'f symbolic_node \<Rightarrow> 'f" where
  "edge_weight ops node =
     (case sn_split node of
        Some Avoid \<Rightarrow> KEEP_WEIGHT ops
      | Some Prefer \<Rightarrow> f_of_nat ops 0
      | None \<Rightarrow> unwrap_or (f_of_nat ops 1) (sn_out_weight node))"

fun affinity_of ::
  "'f f64_ops \<Rightarrow> (string \<rightharpoonup> nat) \<Rightarrow> (string \<rightharpoonup> 'f) \<Rightarrow> string list \<Rightarrow> (nat \<rightharpoonup> 'f) \<Rightarrow> nat \<rightharpoonup> 'f" where
  "affinity_of ops id_to_host weights [] aff = aff"
| "affinity_of ops id_to_host weights (dep # ds) aff =
     (case id_to_host dep of
        None \<Rightarrow> affinity_of ops id_to_host weights ds aff
      | Some host \<Rightarrow> affinity_of ops id_to_host weights ds
          (aff(host \<mapsto> f_add ops (unwrap_or (f_of_nat ops 0) (aff host))
                              (unwrap_or (f_of_nat ops 1) (weights dep)))))"

text \<open>\<open>partial_cmp\<close> on the pairs (affinity, remaining quota).\<close>

definition cmp_hosts :: "'f f64_ops \<Rightarrow> (nat \<rightharpoonup> 'f) \<Rightarrow> (nat \<rightharpoonup> nat) \<Rightarrow> nat \<Rightarrow> nat \<Rightarrow> ordering" where
  "cmp_hosts ops aff quota a b =
     (let key = (\<lambda>h. (unwrap_or (f_of_nat ops 0) (aff h), f_of_nat ops (unwrap_or 0 (quota h))))
      in unwrap_or Equal
           (case partial_cmp ops (fst (key a)) (fst (key b)) of
              Some Equal \<Rightarrow> partial_cmp ops (snd (key a)) (snd (key b))
            | r \<Rightarrow> r))"

definition best_host :: "'f f64_ops \<Rightarrow> nat \<Rightarrow> (nat \<rightharpoonup> 'f) \<Rightarrow> (nat \<rightharpoonup> nat) \<Rightarrow> nat" where
  "best_host ops total_nodes aff quota =
     unwrap_or 0 (max_by (cmp_hosts ops aff quota)
       (filter (\<lambda>h. 0 < unwrap_or 0 (quota h)) (hosts total_nodes)))"

record 'f placement =
  pl_nodes :: "'f symbolic_node list"
  pl_host :: "string \<rightharpoonup> nat"
  pl_quota :: "nat \<rightharpoonup> nat"

definition place_node :: "'f f64_ops \<Rightarrow> nat \<Rightarrow> (string \<rightharpoonup> 'f) \<Rightarrow> nat \<Rightarrow> 'f placement \<Rightarrow> 'f placement" where
  "place_node ops total_nodes weights idx p =
     (let node = pl_nodes p ! idx in
      if sn_node_id node \<noteq> None then p
      else let aff = affinity_of ops (pl_host p) weights (sn_deps node) Map.empty;
               best = best_host ops total_nodes aff (pl_quota p)
           in p\<lparr>pl_nodes := (pl_nodes p)[idx := node\<lparr>sn_node_id := Some best\<rparr>],
                pl_host := (pl_host p)(sn_id node \<mapsto> best),
                pl_quota := (case pl_quota p best of
                               Some q \<Rightarrow> (pl_quota p)(best \<mapsto> q - 1) | None \<Rightarrow> pl_quota p)\<rparr>)"

definition auto_count :: "'f symbolic_node list \<Rightarrow> nat" where
  "auto_count ns = length (filter (\<lambda>n. sn_node_id n = None) ns)"

text \<open>The random policy: draw \<open>i\<close> of \<open>gen_range\<close> for the \<open>i\<close>-th unplaced node.\<close>

fun place_random :: "(nat \<Rightarrow> nat) \<Rightarrow> nat \<Rightarrow> 'f symbolic_node list \<Rightarrow> 'f symbolic_node list" where
  "place_random draw i [] = []"
| "place_random draw i (n # ns) =
     (if sn_node_id n = None then n\<lparr>sn_node_id := Some (draw i)\<rparr> # place_random draw (Suc i) ns
      else n # place_random draw i ns)"

definition assign_nodes ::
  "'f f64_ops \<Rightarrow> (nat \<Rightarrow> nat) \<Rightarrow> 'f symbolic_node list \<Rightarrow> nat \<Rightarrow> 'f placement_hints \<Rightarrow> nat option \<Rightarrow>
   'f symbolic_node list option" where
  "assign_nodes ops draw ns total_nodes hints global_cap =
     (if total_nodes = 0 \<or> auto_count ns = 0 then Some ns
      else if random hints then Some (place_random draw 0 ns)
      else map_option
        (\<lambda>order. pl_nodes (fold (place_node ops total_nodes (map_of (rev (map (\<lambda>n. (sn_id n, edge_weight ops n)) ns))))
           order
           \<lparr>pl_nodes = ns,
            pl_host = map_of (rev (map (\<lambda>n. (sn_id n, the (sn_node_id n))) (filter (\<lambda>n. sn_node_id n \<noteq> None) ns))),
            pl_quota = compute_quotas ops total_nodes (auto_count ns) hints global_cap\<rparr>))
        (topo_order ns))"

section \<open>The order is topological\<close>

definition known_deps :: "'f symbolic_node list \<Rightarrow> nat \<Rightarrow> nat list" where
  "known_deps ns i = List.map_filter (node_idx ns) (sn_deps (ns ! i))"

lemma node_idx_less: "node_idx ns d = Some j \<Longrightarrow> j < length ns"
  unfolding node_idx_def by (drule map_of_SomeD) (auto dest: set_zip_rightD)

lemma node_idx_id: "node_idx ns d = Some j \<Longrightarrow> sn_id (ns ! j) = d"
  unfolding node_idx_def by (drule map_of_SomeD) (auto simp: set_zip)

lemma succ_deps_edges: "succ_deps idx i ds st = add_edges i (List.map_filter idx ds) st"
  by (induction ds arbitrary: st) (auto simp: map_filter_simps split: option.split)

lemma succ_nodes_edges:
  "succ_nodes idx i ns st = all_edges i (map (\<lambda>n. List.map_filter idx (sn_deps n)) ns) st"
  by (induction ns arbitrary: i st) (simp_all add: succ_deps_edges)

lemma topo_order_spec:
  "\<exists>order. topo_order ns = Some order \<and> distinct order \<and> set order = {..<length ns}
     \<and> ((\<exists>os. set os = {..<length ns} \<and> in_order (known_deps ns) os) \<longrightarrow> in_order (known_deps ns) order)"
proof -
  let ?n = "length ns" and ?D = "known_deps ns"
  define jss where "jss = map (\<lambda>n. List.map_filter (node_idx ns) (sn_deps n)) ns"
  obtain adj deg where g: "all_edges 0 jss (\<lambda>_. [], \<lambda>_. 0) = (adj, deg)" by fastforce
  have len: "length jss = ?n" by (simp add: jss_def)
  have D: "jss ! i = ?D i" if "i < ?n" for i using that by (simp add: known_deps_def jss_def)
  have dep: "set (jss ! i) \<subseteq> {..<length jss}" if "i < length jss" for i
    using that node_idx_less D len by (fastforce simp: known_deps_def map_filter_def)
  from kahn_graph [OF dep g] obtain res
    where r: "kahn adj deg (filter (\<lambda>i. deg i = 0) [0..<?n]) [] = Some res" "distinct res"
      "set res \<subseteq> {..<?n}" "in_order ((!) jss) res"
      "\<forall>i < ?n. i \<notin> set res \<longrightarrow> (\<exists>d \<in> set (jss ! i). d < ?n \<and> d \<notin> set res)"
    unfolding len by blast
  let ?rest = "filter (\<lambda>i. i \<notin> set res) [0..<?n]"
  have to: "topo_order ns = Some (if length res < ?n then res @ ?rest else res)"
    using r(1) g by (simp add: topo_order_def succ_nodes_edges jss_def [symmetric])
  have io: "in_order ?D res" by (rule in_order_cong [OF r(4)]) (use D r(3) in auto)
  have card: "card (set res) = length res" using r(2) by (rule distinct_card)
  show ?thesis
  proof (cases "length res < ?n")
    case False
    have "length res \<le> ?n" using card card_mono [OF _ r(3)] by simp
    then have "set res = {..<?n}" using card_subset_eq [OF _ r(3)] card False by simp
    then show ?thesis using to False r(2) io by simp
  next
    case True
    have "{..<?n} - set res \<noteq> {}"
    proof
      assume "{..<?n} - set res = {}"
      then have "set res = {..<?n}" using r(3) by auto
      then show False using card True by simp
    qed
    moreover have "\<forall>i \<in> {..<?n} - set res. \<exists>d \<in> set (?D i). d \<in> {..<?n} - set res"
      using r(5) D by auto
    ultimately have "\<not> in_order ?D os" if "set os = {..<?n}" for os
      using waiting_set_blocks [of "{..<?n} - set res" os ?D] that by blast
    moreover have "set (res @ ?rest) = {..<?n}" using r(3) by auto
    moreover have "distinct (res @ ?rest)" using r(2) by auto
    ultimately show ?thesis using to True by auto
  qed
qed

section \<open>Every node gets a host\<close>

definition placed_from :: "'f symbolic_node \<Rightarrow> 'f symbolic_node \<Rightarrow> bool" where
  "placed_from n m \<longleftrightarrow> (\<exists>h. m = n\<lparr>sn_node_id := h\<rparr> \<and> (sn_node_id n = None \<or> h = sn_node_id n))"

lemma placed_from_refl [simp]: "placed_from n n"
  by (auto simp: placed_from_def intro!: exI [of _ "sn_node_id n"])

lemma best_host_less: "0 < wrap32 t \<Longrightarrow> best_host ops t aff q < wrap32 t"
  unfolding best_host_def unwrap_or_def
  by (auto split: option.split dest!: max_by_mem simp: hosts_def)

lemma place_node_nodes:
  "pl_nodes (place_node ops t w i p) =
     (if sn_node_id (pl_nodes p ! i) = None
      then (pl_nodes p)[i := (pl_nodes p ! i)\<lparr>sn_node_id :=
             Some (best_host ops t (affinity_of ops (pl_host p) w (sn_deps (pl_nodes p ! i)) Map.empty) (pl_quota p))\<rparr>]
      else pl_nodes p)"
  by (simp add: place_node_def Let_def)

lemma place_node_other: "j \<noteq> i \<Longrightarrow> pl_nodes (place_node ops t w i p) ! j = pl_nodes p ! j"
  by (simp add: place_node_nodes)

lemma place_node_length [simp]: "length (pl_nodes (place_node ops t w i p)) = length (pl_nodes p)"
  by (simp add: place_node_nodes)

lemma place_fold_length [simp]: "length (pl_nodes (fold (place_node ops t w) xs p)) = length (pl_nodes p)"
  by (induction xs arbitrary: p) simp_all

lemma place_fold_other: "j \<notin> set xs \<Longrightarrow> pl_nodes (fold (place_node ops t w) xs p) ! j = pl_nodes p ! j"
  by (induction xs arbitrary: p) (simp_all add: place_node_other)

lemma place_fold_node:
  assumes "0 < wrap32 t" "distinct xs" "i \<in> set xs" "i < length (pl_nodes p)"
  shows "\<exists>h. pl_nodes (fold (place_node ops t w) xs p) ! i = (pl_nodes p ! i)\<lparr>sn_node_id := Some h\<rparr>
    \<and> (case sn_node_id (pl_nodes p ! i) of None \<Rightarrow> h < wrap32 t | Some g \<Rightarrow> h = g)"
  using assms(2-)
proof (induction xs arbitrary: p)
  case (Cons x xs)
  show ?case
  proof (cases "x = i")
    case True
    then have "pl_nodes (fold (place_node ops t w) (x # xs) p) ! i = pl_nodes (place_node ops t w i p) ! i"
      using Cons.prems by (simp add: place_fold_other)
    moreover have "\<exists>h. pl_nodes (place_node ops t w i p) ! i = (pl_nodes p ! i)\<lparr>sn_node_id := Some h\<rparr>
      \<and> (case sn_node_id (pl_nodes p ! i) of None \<Rightarrow> h < wrap32 t | Some g \<Rightarrow> h = g)"
      using Cons.prems(3) best_host_less [OF assms(1)]
      by (cases "sn_node_id (pl_nodes p ! i)") (auto simp: place_node_nodes intro!: exI)
    ultimately show ?thesis by simp
  next
    case False
    then have "i \<in> set xs" "distinct xs" using Cons.prems by auto
    then show ?thesis using Cons.IH [of "place_node ops t w x p"] Cons.prems(3) False
      by (simp add: place_node_other)
  qed
qed simp

lemma place_random_spec:
  assumes "\<And>i. draw i < t"
  shows "list_all2 (\<lambda>n m. \<exists>h. m = n\<lparr>sn_node_id := Some h\<rparr>
    \<and> (case sn_node_id n of None \<Rightarrow> h < t | Some g \<Rightarrow> h = g)) ns (place_random draw i ns)"
proof (induction ns arbitrary: i)
  case (Cons n ns)
  then show ?case using assms by (cases "sn_node_id n") (auto intro: exI [of _ "the (sn_node_id n)"])
qed simp

lemma assign_nodes_some: "\<exists>ms. assign_nodes ops draw ns t hints gcap = Some ms"
  using topo_order_spec [of ns] by (auto simp: assign_nodes_def)

text \<open>
  C35. Placement is total and respects pins. For a non-empty cluster \<open>assign_nodes\<close> returns, and
  every node has a host: a pinned node keeps its own, any other is given a host of the
  cluster; nothing else of a node changes. The random policy relies on its generator
  drawing hosts of the cluster.
\<close>

theorem assign_nodes_total:
  assumes "0 < total_nodes" "total_nodes < 4294967296" "\<And>i. draw i < total_nodes"
  shows "\<exists>ms. assign_nodes ops draw ns total_nodes hints global_cap = Some ms
    \<and> list_all2 (\<lambda>n m. \<exists>h. m = n\<lparr>sn_node_id := Some h\<rparr>
         \<and> (case sn_node_id n of None \<Rightarrow> h < total_nodes | Some g \<Rightarrow> h = g)) ns ms"
proof -
  let ?R = "\<lambda>n m. \<exists>h. m = n\<lparr>sn_node_id := Some h\<rparr>
         \<and> (case sn_node_id n of None \<Rightarrow> h < total_nodes | Some g \<Rightarrow> h = g)"
  obtain order where o: "topo_order ns = Some order" "distinct order" "set order = {..<length ns}"
    using topo_order_spec [of ns] by blast
  consider "auto_count ns = 0" | "auto_count ns \<noteq> 0" "random hints" | "auto_count ns \<noteq> 0" "\<not> random hints" by blast
  then show ?thesis
  proof cases
    case 1
    have "?R n n" if "n \<in> set ns" for n
    proof -
      obtain h where "sn_node_id n = Some h" using 1 \<open>n \<in> set ns\<close> by (auto simp: auto_count_def filter_empty_conv)
      then show ?thesis by (intro exI [of _ h]) simp
    qed
    then have "list_all2 ?R ns ns" by (intro list.rel_refl_strong)
    then show ?thesis using 1 by (simp add: assign_nodes_def)
  next
    case 2
    then show ?thesis using place_random_spec [of draw total_nodes ns 0, OF assms(3)] assms(1)
      by (simp add: assign_nodes_def)
  next
    case 3
    let ?w = "map_of (rev (map (\<lambda>n. (sn_id n, edge_weight ops n)) ns))"
    define p where "p = \<lparr>pl_nodes = ns,
       pl_host = map_of (rev (map (\<lambda>n. (sn_id n, the (sn_node_id n))) (filter (\<lambda>n. sn_node_id n \<noteq> None) ns))),
       pl_quota = compute_quotas ops total_nodes (auto_count ns) hints global_cap\<rparr>"
    have res: "assign_nodes ops draw ns total_nodes hints global_cap
        = Some (pl_nodes (fold (place_node ops total_nodes ?w) order p))"
      using 3 assms(1) o(1) by (simp add: assign_nodes_def p_def)
    have w32: "wrap32 total_nodes = total_nodes" using assms(2) by simp
    have pn: "pl_nodes p = ns" by (simp add: p_def)
    have "?R (ns ! i) (pl_nodes (fold (place_node ops total_nodes ?w) order p) ! i)" if "i < length ns" for i
      using place_fold_node [of total_nodes order i p ops ?w, unfolded w32 pn] o(2,3) that assms(1) by blast
    then show ?thesis unfolding res by (simp add: list_all2_conv_all_nth pn)
  qed
qed

section \<open>Limits are respected\<close>

abbreviation quota_at :: "(nat \<rightharpoonup> nat) \<Rightarrow> nat \<Rightarrow> nat" where
  "quota_at q h \<equiv> unwrap_or 0 (q h)"

lemma unwrap_or_simps [simp]: "unwrap_or d (Some x) = x" "unwrap_or d None = d"
  by (simp_all add: unwrap_or_def)

text \<open>While some host has quota left, the node goes to such a host and uses up one of it.\<close>

lemma place_node_quota:
  assumes "sn_node_id (pl_nodes p ! i) = None" "0 < (\<Sum>h < wrap32 t. quota_at (pl_quota p) h)"
    and "i < length (pl_nodes p)"
  shows "\<exists>b < wrap32 t. 0 < quota_at (pl_quota p) b
    \<and> sn_node_id (pl_nodes (place_node ops t w i p) ! i) = Some b
    \<and> (\<forall>h. quota_at (pl_quota (place_node ops t w i p)) h = quota_at (pl_quota p) h - (if h = b then 1 else 0))"
proof -
  let ?aff = "affinity_of ops (pl_host p) w (sn_deps (pl_nodes p ! i)) Map.empty"
  let ?cand = "filter (\<lambda>h. 0 < quota_at (pl_quota p) h) (hosts t)" and ?b = "best_host ops t ?aff (pl_quota p)"
  obtain h where "h < wrap32 t" "0 < quota_at (pl_quota p) h"
    using assms(2) by (metis lessThan_iff not_gr_zero sum.neutral)
  then have "?cand \<noteq> []" by (auto simp: filter_empty_conv hosts_def)
  then obtain b where "max_by (cmp_hosts ops ?aff (pl_quota p)) ?cand = Some b"
    by (meson max_by_None not_None_eq)
  then have b: "?b = b" "b \<in> set ?cand" by (auto simp: best_host_def dest: max_by_mem)
  then have pos: "0 < quota_at (pl_quota p) b" "b < wrap32 t" by (auto simp: hosts_def)
  then obtain q where q: "pl_quota p b = Some q" by (cases "pl_quota p b") auto
  have "pl_quota (place_node ops t w i p) = (pl_quota p)(b \<mapsto> q - 1)"
    using assms(1) b(1) q by (simp add: place_node_def Let_def)
  then have "\<forall>h. quota_at (pl_quota (place_node ops t w i p)) h = quota_at (pl_quota p) h - (if h = b then 1 else 0)"
    using q by simp
  moreover have "sn_node_id (pl_nodes (place_node ops t w i p) ! i) = Some b"
    using assms(1,3) b(1) by (simp add: place_node_nodes)
  ultimately show ?thesis using pos by blast
qed

lemma sum_minus_one:
  fixes b n :: nat
  assumes "b < n" "0 < f b"
  shows "(\<Sum>h < n. f h - (if h = b then 1 else 0)) = (\<Sum>h < n. f h) - (1 :: nat)"
proof -
  have "(\<Sum>h < n. f h) = f b + (\<Sum>h \<in> {..<n} - {b}. f h)" using assms(1) by (intro sum.remove) auto
  moreover have "(\<Sum>h < n. f h - (if h = b then 1 else 0)) = f b - 1 + (\<Sum>h \<in> {..<n} - {b}. f h)"
    using assms(1) by (subst sum.remove [of _ b]) (auto intro: sum.cong)
  ultimately show ?thesis using assms(2) by simp
qed

lemma place_fold_quota:
  assumes "distinct xs" "set xs \<subseteq> {..<length (pl_nodes p)}"
    and "length (filter (\<lambda>i. sn_node_id (pl_nodes p ! i) = None) xs) \<le> (\<Sum>h < wrap32 t. quota_at (pl_quota p) h)"
  shows "length (filter (\<lambda>i. sn_node_id (pl_nodes p ! i) = None
      \<and> sn_node_id (pl_nodes (fold (place_node ops t w) xs p) ! i) = Some h) xs) \<le> quota_at (pl_quota p) h"
  using assms
proof (induction xs arbitrary: p)
  case (Cons x xs)
  let ?p = "place_node ops t w x p" and ?f = "\<lambda>q. fold (place_node ops t w) xs q"
  have x: "x < length (pl_nodes p)" "x \<notin> set xs" "distinct xs" "set xs \<subseteq> {..<length (pl_nodes ?p)}"
    using Cons.prems(1,2) by auto
  have same: "pl_nodes ?p ! i = pl_nodes p ! i" if "i \<in> set xs" for i
    using that x(2) by (intro place_node_other) auto
  have f1: "filter (\<lambda>i. sn_node_id (pl_nodes ?p ! i) = None) xs = filter (\<lambda>i. sn_node_id (pl_nodes p ! i) = None) xs"
    using same by (intro filter_cong) auto
  have f2: "filter (\<lambda>i. sn_node_id (pl_nodes ?p ! i) = None \<and> sn_node_id (pl_nodes (?f ?p) ! i) = Some h) xs
      = filter (\<lambda>i. sn_node_id (pl_nodes p ! i) = None \<and> sn_node_id (pl_nodes (?f ?p) ! i) = Some h) xs"
    using same by (intro filter_cong) auto
  show ?case
  proof (cases "sn_node_id (pl_nodes p ! x) = None")
    case False
    then have "?p = p" by (simp add: place_node_def Let_def)
    then show ?thesis using Cons.IH [of p] Cons.prems False x by auto
  next
    case True
    have pos: "0 < (\<Sum>h < wrap32 t. quota_at (pl_quota p) h)" using Cons.prems(3) True by simp
    obtain b where b: "b < wrap32 t" "0 < quota_at (pl_quota p) b" "sn_node_id (pl_nodes ?p ! x) = Some b"
      "\<forall>h. quota_at (pl_quota ?p) h = quota_at (pl_quota p) h - (if h = b then 1 else 0)"
      using place_node_quota [OF True pos x(1)] by blast
    have "(\<Sum>h < wrap32 t. quota_at (pl_quota ?p) h) = (\<Sum>h < wrap32 t. quota_at (pl_quota p) h) - 1"
      using b(4) sum_minus_one [of b "wrap32 t" "quota_at (pl_quota p)", OF b(1,2)] by simp
    then have "length (filter (\<lambda>i. sn_node_id (pl_nodes ?p ! i) = None) xs) \<le> (\<Sum>h < wrap32 t. quota_at (pl_quota ?p) h)"
      using Cons.prems(3) True f1 by simp
    from Cons.IH [OF x(3,4) this] have
      "length (filter (\<lambda>i. sn_node_id (pl_nodes p ! i) = None \<and> sn_node_id (pl_nodes (?f ?p) ! i) = Some h) xs)
        \<le> quota_at (pl_quota p) h - (if h = b then 1 else 0)" unfolding f2 using b(4) by simp
    moreover have "pl_nodes (?f ?p) ! x = pl_nodes ?p ! x" using x(2) by (rule place_fold_other)
    ultimately show ?thesis using b(2,3) True by (cases "h = b") auto
  qed
qed simp

lemma quota_at_map_of_le:
  "(\<And>i a. (i, a) \<in> set xs \<Longrightarrow> a \<le> f i) \<Longrightarrow> quota_at (map_of xs) h \<le> f h"
  by (cases "map_of xs h") (auto dest: map_of_SomeD)

lemma top_up_le: "\<forall>h. quota_at q h \<le> lmt h \<Longrightarrow> quota_at (top_up lmt hs d q) h \<le> lmt h"
proof (induction hs arbitrary: d q)
  case (Cons a hs)
  let ?add = "min (lmt a - quota_at q a) d"
  have "\<forall>h. quota_at (q(a \<mapsto> quota_at q a + ?add)) h \<le> lmt h"
  proof -
    have "quota_at q a \<le> lmt a" using Cons.prems by blast
    then have "quota_at q a + ?add \<le> lmt a"
      by (cases "lmt a - quota_at q a \<le> d") auto
    then show ?thesis using Cons.prems by simp
  qed
  then have "quota_at (top_up lmt hs (d - ?add) (q(a \<mapsto> quota_at q a + ?add))) h \<le> lmt h" by (rule Cons.IH)
  then show ?case using Cons.prems by (simp add: Let_def)
qed simp

lemma compute_quotas_le: "quota_at (compute_quotas ops t a hints cap) h \<le> limit hints a cap h"
proof -
  have "quota_at (proportional_quotas ops t a hints cap) h \<le> limit hints a cap h"
    unfolding proportional_quotas_def Let_def
    by (auto intro!: quota_at_map_of_le top_up_le split: if_splits) 
  then show ?thesis unfolding compute_quotas_def
    by (auto simp: Let_def intro!: quota_at_map_of_le split: option.split)
qed

text \<open>Topping up spends the whole deficit or all the headroom.\<close>

lemma top_up_other: "h \<notin> set hs \<Longrightarrow> quota_at (top_up lmt hs d q) h = quota_at q h"
  by (induction hs arbitrary: d q) (auto simp: Let_def)

lemma headroom_arith:
  "min (S + (d - min (l - q) d)) M \<le> R \<Longrightarrow> S \<le> M \<Longrightarrow> q \<le> l
   \<Longrightarrow> min (q + S + d) (l + M) \<le> q + min (l - q) d + R" for S d l q M R :: nat
  by (cases "l - q \<le> d") (auto simp: min_def split: if_splits)

lemma top_up_sum:
  assumes "distinct hs" "\<forall>h. quota_at q h \<le> lmt h"
  shows "min ((\<Sum>h \<in> set hs. quota_at q h) + d) (\<Sum>h \<in> set hs. lmt h)
    \<le> (\<Sum>h \<in> set hs. quota_at (top_up lmt hs d q) h)"
  using assms
proof (induction hs arbitrary: d q)
  case (Cons a hs)
  let ?add = "min (lmt a - quota_at q a) d"
  let ?q = "q(a \<mapsto> quota_at q a + ?add)"
  have le: "quota_at q a \<le> lmt a" using Cons.prems by blast
  have qa: "quota_at q a + ?add \<le> lmt a" using le by (cases "lmt a - quota_at q a \<le> d") auto
  then have ok: "\<forall>h. quota_at ?q h \<le> lmt h" using Cons.prems by simp
  have "distinct hs" using Cons.prems by simp
  then have ih: "min ((\<Sum>h \<in> set hs. quota_at ?q h) + (d - ?add)) (\<Sum>h \<in> set hs. lmt h)
      \<le> (\<Sum>h \<in> set hs. quota_at (top_up lmt hs (d - ?add) ?q) h)"
    using ok by (rule Cons.IH)
  have "(\<Sum>h \<in> set hs. quota_at ?q h) = (\<Sum>h \<in> set hs. quota_at q h)"
    using Cons.prems by (intro sum.cong) auto
  moreover have "quota_at (top_up lmt hs (d - ?add) ?q) a = quota_at q a + ?add"
    using Cons.prems by (simp add: top_up_other)
  moreover have "(\<Sum>h \<in> set hs. quota_at q h) \<le> (\<Sum>h \<in> set hs. lmt h)"
    using Cons.prems by (intro sum_mono) blast
  ultimately have "min (quota_at q a + (\<Sum>h \<in> set hs. quota_at q h) + d) (lmt a + (\<Sum>h \<in> set hs. lmt h))
      \<le> quota_at (top_up lmt hs (d - ?add) ?q) a + (\<Sum>h \<in> set hs. quota_at (top_up lmt hs (d - ?add) ?q) h)"
    using headroom_arith [of _ d "lmt a" "quota_at q a"] ih le by (simp only:)
  then show ?case using Cons.prems by (cases "d = 0") (simp_all add: Let_def)
qed simp

lemma sum_map_of_distinct:
  "distinct (map fst xs) \<Longrightarrow> (\<Sum>h \<in> set (map fst xs). quota_at (map_of xs) h) = sum_list (map snd xs)"
proof (induction xs)
  case (Cons x xs)
  have "(\<Sum>h \<in> set (map fst xs). quota_at (map_of (x # xs)) h) = (\<Sum>h \<in> set (map fst xs). quota_at (map_of xs) h)"
    using Cons.prems by (intro sum.cong) (auto simp: image_iff)
  then show ?case using Cons by (cases x) simp
qed simp

lemma bump_allocs_fst [simp]: "map fst (bump_allocs i l xs) = map fst xs"
proof (induction l arbitrary: i xs)
  case (Suc l)
  obtain h x a where e: "xs ! (i mod length xs) = (h, x, a)" by (cases "xs ! (i mod length xs)")
  have "map fst (xs[i mod length xs := (h, x, a + 1)]) = map fst xs"
    using e by (metis fst_conv list_update_id map_update)
  then show ?case using Suc e by (simp add: Let_def)
qed simp

lemma remainder_allocs_hosts: "mset (map fst (remainder_allocs ops t a hints)) = mset (hosts t)"
  by (simp add: remainder_allocs_def Let_def del: mset_map)
    (simp add: comp_def case_prod_beta multiset.map_comp)

lemma proportional_suffice:
  assumes "t < 4294967296" and enough: "a \<le> (\<Sum>h < t. limit hints a gcap h)"
  shows "a \<le> (\<Sum>h < t. quota_at (proportional_quotas ops t a hints gcap) h)"
proof -
  let ?l = "limit hints a gcap"
  define capped where "capped = map (\<lambda>(i, _, a). (i, min a (?l i))) (remainder_allocs ops t a hints)"
  define by_cap where
    "by_cap = sort_by (\<lambda>a b. cmp_option ops (map_of (capacity hints) b) (map_of (capacity hints) a)) (hosts t)"
  have hs: "hosts t = [0..<t]" using assms(1) by (simp add: hosts_def)
  have "mset (map fst capped) = mset [0..<t]"
    using remainder_allocs_hosts [of ops t a hints] by (simp add: capped_def comp_def case_prod_beta hs)
  then have fst: "distinct (map fst capped)" "set (map fst capped) = {..<t}"
    by (metis distinct_upt mset_eq_imp_distinct_iff, metis atLeast_upt mset_eq_setD)
  have sum: "(\<Sum>h < t. quota_at (map_of capped) h) = sum_list (map snd capped)"
    using sum_map_of_distinct [OF fst(1)] fst(2) by simp
  have le: "\<forall>h. quota_at (map_of capped) h \<le> ?l h"
    by (auto simp: capped_def intro!: quota_at_map_of_le)
  have bc: "distinct by_cap" "set by_cap = {..<t}" by (auto simp: by_cap_def hs)
  have pq: "proportional_quotas ops t a hints gcap =
      (if sum_list (map snd capped) < a
       then top_up ?l by_cap (a - sum_list (map snd capped)) (map_of capped) else map_of capped)"
    by (simp add: proportional_quotas_def capped_def by_cap_def Let_def)
  show ?thesis
  proof (cases "sum_list (map snd capped) < a")
    case True
    then show ?thesis using top_up_sum [OF bc(1) le, of "a - sum_list (map snd capped)"] enough
      unfolding pq bc(2) sum by simp
  qed (use sum pq in simp)
qed

lemma quotas_suffice:
  assumes t: "0 < t" "t < 4294967296" and cap: "capacity hints = [] \<Longrightarrow> host_limit hints = []"
    and keys: "fst ` set (capacity hints) \<subseteq> {..<t}" and enough: "a \<le> (\<Sum>h < t. limit hints a gcap h)"
  shows "a \<le> (\<Sum>h < t. quota_at (compute_quotas ops t a hints gcap) h)"
proof (cases "capacity hints = []")
  case True
  have l: "limit hints a gcap h \<le> a" for h using cap [OF True] by (simp add: limit_def split: option.split)
  have q: "quota_at (map_of (map (\<lambda>i. (i, min a (limit hints a gcap i))) [0..<t])) h = limit hints a gcap h"
    if "h < t" for h
    using that l [of h] by (simp add: map_of_map_restrict)
  have "compute_quotas ops t a hints gcap = map_of (map (\<lambda>i. (i, min a (limit hints a gcap i))) [0..<t])"
    using True cap t by (simp add: compute_quotas_def hosts_def)
  then have "(\<Sum>h < t. quota_at (compute_quotas ops t a hints gcap) h) = (\<Sum>h < t. limit hints a gcap h)"
    using q by (intro sum.cong) simp_all
  then show ?thesis using enough by simp
next
  case False
  then obtain b c where m: "max_by (\<lambda>a b. cmp_or_equal ops (snd a) (snd b)) (capacity hints) = Some (b, c)"
    by (metis max_by_None not_None_eq surj_pair)
  then have b: "b < t" using max_by_mem keys by fastforce
  have "(\<Sum>h < t. quota_at [b \<mapsto> a] h) = (\<Sum>h \<in> {b}. quota_at [b \<mapsto> a] h)"
    using b by (intro sum.mono_neutral_right) auto
  then have "a \<le> (\<Sum>h < t. quota_at [b \<mapsto> a] h)" by simp
  then show ?thesis using False m proportional_suffice [OF t(2) enough] by (simp add: compute_quotas_def Let_def)
qed

text \<open>The unplaced nodes of \<open>ns\<close> that \<open>ms\<close> puts on host \<open>h\<close>.\<close>

definition auto_on :: "'f symbolic_node list \<Rightarrow> 'f symbolic_node list \<Rightarrow> nat \<Rightarrow> nat" where
  "auto_on ns ms h = card {i. i < length ns \<and> sn_node_id (ns ! i) = None \<and> sn_node_id (ms ! i) = Some h}"

lemma filter_indices_card:
  assumes "distinct order" "set order = {..<n}"
  shows "length (filter P order) = card {i. i < n \<and> P i}"
proof -
  have "length (filter P order) = card (set (filter P order))"
    using assms(1) distinct_card [of "filter P order"] by simp
  also have "set (filter P order) = {i. i < n \<and> P i}" using assms(2) by auto
  finally show ?thesis .
qed

lemma auto_count_card: "auto_count ns = card {i. i < length ns \<and> sn_node_id (ns ! i) = None}"
  by (simp add: auto_count_def length_filter_conv_card)

lemma assign_nodes_quota:
  assumes ne: "0 < t" "t < 4294967296" "\<not> random hints" and r: "assign_nodes ops draw ns t hints gcap = Some ms"
    and enough: "auto_count ns \<le> (\<Sum>h < t. quota_at (compute_quotas ops t (auto_count ns) hints gcap) h)"
  shows "auto_on ns ms h \<le> quota_at (compute_quotas ops t (auto_count ns) hints gcap) h"
proof (cases "auto_count ns = 0")
  case True
  then have "{i. i < length ns \<and> sn_node_id (ns ! i) = None} = {}" by (simp add: auto_count_card)
  then have "{i. i < length ns \<and> sn_node_id (ns ! i) = None \<and> sn_node_id (ms ! i) = Some h} = {}" by blast
  then show ?thesis unfolding auto_on_def by (simp only: card.empty)
next
  case False
  obtain order where o: "topo_order ns = Some order" "distinct order" "set order = {..<length ns}"
    using topo_order_spec [of ns] by blast
  let ?w = "map_of (rev (map (\<lambda>n. (sn_id n, edge_weight ops n)) ns))"
  define p where "p = \<lparr>pl_nodes = ns,
     pl_host = map_of (rev (map (\<lambda>n. (sn_id n, the (sn_node_id n))) (filter (\<lambda>n. sn_node_id n \<noteq> None) ns))),
     pl_quota = compute_quotas ops t (auto_count ns) hints gcap\<rparr>"
  have ms: "ms = pl_nodes (fold (place_node ops t ?w) order p)"
    using r False ne o(1) by (simp add: assign_nodes_def p_def)
  have pp: "pl_nodes p = ns" "pl_quota p = compute_quotas ops t (auto_count ns) hints gcap"
    by (simp_all add: p_def)
  have "length (filter (\<lambda>i. sn_node_id (ns ! i) = None) order) = auto_count ns"
    by (simp add: filter_indices_card [OF o(2,3)] auto_count_card)
  then have "length (filter (\<lambda>i. sn_node_id (pl_nodes p ! i) = None
      \<and> sn_node_id (pl_nodes (fold (place_node ops t ?w) order p) ! i) = Some h) order) \<le> quota_at (pl_quota p) h"
    using enough ne(2) o by (intro place_fold_quota) (simp_all add: pp)
  then show ?thesis
    unfolding pp ms [symmetric] by (simp add: filter_indices_card [OF o(2,3)] auto_on_def)
qed

text \<open>
  Host limits hold. When the limits of the hosts together admit all unplaced nodes, the
  capacity hints only name hosts of the cluster, and there are capacity hints wherever there
  are limits, the deterministic placer puts no more unplaced nodes on a host than its limit.
\<close>

lemma limits_respected:
  assumes "0 < t" "t < 4294967296" "\<not> random hints" "capacity hints = [] \<Longrightarrow> host_limit hints = []"
    and "fst ` set (capacity hints) \<subseteq> {..<t}" "auto_count ns \<le> (\<Sum>h < t. limit hints (auto_count ns) gcap h)"
    and "assign_nodes ops draw ns t hints gcap = Some ms"
  shows "auto_on ns ms h \<le> limit hints (auto_count ns) gcap h"
  using assign_nodes_quota [OF assms(1-3,7) quotas_suffice [OF assms(1,2,4-6)]] compute_quotas_le order_trans
  by blast

lemma max_by_first: "(\<And>y. y \<in> set ys \<Longrightarrow> cmp x y = Greater) \<Longrightarrow> max_by cmp (x # ys) = Some x"
  by (induction ys) auto

lemma quota_at_const: "quota_at (map_of (map (\<lambda>i. (i, k)) [0..<t])) h = (if h < t then k else 0)"
  by (simp add: map_of_map_restrict restrict_map_def)

lemma spread_limit: "0 < t \<Longrightarrow> t < 4294967296 \<Longrightarrow> limit (named_hints ops Spread t None) a None h = 1"
  by (auto simp: limit_def named_hints_def Let_def unwrap_or_def hosts_def dest!: map_of_SomeD split: option.split)

lemma spread_quota:
  assumes "0 < t" "t < 4294967296" "0 < a" "a \<le> t"
  shows "compute_quotas ops t a (named_hints ops Spread t None) None = map_of (map (\<lambda>i. (i, 1)) [0..<t])"
proof -
  have "(a + t - 1) div t = 1" using assms by (intro div_nat_eqI) auto
  moreover have "capacity (named_hints ops Spread t None) = []" "host_limit (named_hints ops Spread t None) \<noteq> []"
    using assms by (simp_all add: named_hints_def hosts_def)
  ultimately show ?thesis using assms by (simp add: compute_quotas_def spread_limit hosts_def)
qed

lemma pack_quota:
  assumes "1 < t" "t < 4294967296"
  shows "compute_quotas rat_ops t a (named_hints rat_ops Pack t None) None = [0 \<mapsto> a]"
proof -
  let ?uni = "f_div rat_ops (f_of_nat rat_ops 1) (f_of_nat rat_ops t)"
  let ?sum = "f_add rat_ops ?uni (f_lit rat_ops 5 100)"
  define boost where "boost = (if f_lt rat_ops ?sum (f_of_nat rat_ops 1) then ?sum else f_of_nat rat_ops 1)"
  define rest where "rest = f_div rat_ops (f_sub rat_ops (f_of_nat rat_ops 1) boost) (f_of_nat rat_ops (t - 1))"
  have h: "hosts t = 0 # [1..<t]" using assms by (simp add: hosts_def upt_conv_Cons)
  have cap: "capacity (named_hints rat_ops Pack t None) = (0, boost) # map (\<lambda>i. (i, rest)) [1..<t]"
    using assms unfolding h by (simp add: named_hints_def h boost_def rest_def Let_def)
  have ops: "f_of_nat rat_ops = of_nat" "f_div rat_ops = (/)" "f_add rat_ops = (+)" "f_sub rat_ops = (-)"
    "f_lt rat_ops = (<)" "f_eq rat_ops = (=)" by (simp_all only: rat_ops_def f64_ops.select_convs)
  have b: "boost = (if 1 / of_nat t + 1 / 20 < (1 :: rat) then 1 / of_nat t + 1 / 20 else 1)"
    unfolding boost_def f_lit_def ops by simp
  have r: "rest = (1 - boost) / (of_nat t - 1)" using assms by (simp add: rest_def ops of_nat_diff)
  have t2: "(2 :: rat) \<le> of_nat t" using assms by simp
  have u: "1 / of_nat t < boost" using t2 by (auto simp: b field_simps)
  have "1 < boost * of_nat t" using u t2 by (simp add: field_simps)
  then have "rest < boost" using t2 by (simp add: r divide_less_eq algebra_simps)
  then have "max_by (\<lambda>a b. cmp_or_equal rat_ops (snd a) (snd b)) (capacity (named_hints rat_ops Pack t None)) = Some (0, boost)"
    unfolding cap by (intro max_by_first) (auto simp: cmp_or_equal_def partial_cmp_def ops)
  moreover have "limit (named_hints rat_ops Pack t None) a None 0 = a" by (simp add: limit_def named_hints_def Let_def)
  moreover have "f_lt rat_ops ?uni boost" using u by (simp add: ops)
  ultimately show ?thesis using cap by (simp add: compute_quotas_def Let_def)
qed

text \<open>
  The named policies keep their promises: \<open>spread\<close> puts at most one unplaced node on a host
  when there are no more such nodes than hosts, and, in exact arithmetic, \<open>pack\<close> leaves every
  host but the first without unplaced nodes.
\<close>

lemma policies_keep_promises:
  assumes "1 < t" "t < 4294967296"
  shows "(auto_count ns \<le> t \<longrightarrow> assign_nodes ops draw ns t (resolve_policy ops (Named Spread) t) None = Some ms
      \<longrightarrow> auto_on ns ms h \<le> 1)
    \<and> (assign_nodes rat_ops draw ns' t (resolve_policy rat_ops (Named Pack) t) None = Some ms'
      \<longrightarrow> h \<noteq> 0 \<longrightarrow> auto_on ns' ms' h = 0)"
proof (intro conjI impI)
  assume a: "auto_count ns \<le> t" and r: "assign_nodes ops draw ns t (resolve_policy ops (Named Spread) t) None = Some ms"
  let ?hints = "named_hints ops Spread t None"
  have r': "assign_nodes ops draw ns t ?hints None = Some ms" "\<not> random ?hints"
    using r by (simp_all add: resolve_policy_def named_hints_def)
  have "auto_count ns \<le> (\<Sum>h < t. quota_at (compute_quotas ops t (auto_count ns) ?hints None) h)"
    using spread_quota [of t "auto_count ns" ops] assms a by (cases "auto_count ns = 0") (simp_all add: quota_at_const)
  from assign_nodes_quota [OF _ assms(2) r'(2,1) this] compute_quotas_le [of ops t "auto_count ns" ?hints None h]
  show "auto_on ns ms h \<le> 1" using assms by (simp add: spread_limit) (meson le_trans)
next
  assume r: "assign_nodes rat_ops draw ns' t (resolve_policy rat_ops (Named Pack) t) None = Some ms'" and h: "h \<noteq> 0"
  let ?a = "auto_count ns'"
  have "(\<Sum>h < t. quota_at [0 \<mapsto> ?a] h) = (\<Sum>h \<in> {0}. quota_at [0 \<mapsto> ?a] h)"
    using assms by (intro sum.mono_neutral_right) auto
  then show "auto_on ns' ms' h = 0"
    using assign_nodes_quota [of t "named_hints rat_ops Pack t None" rat_ops draw ns' None ms' h,
        unfolded pack_quota [OF assms]] assms r h
    by (simp add: resolve_policy_def named_hints_def Let_def)
qed

text \<open>
  A host limit can be exceeded although the cluster has room. With limits but no capacity
  hints the quotas are an even share cut down to the limits; nodes beyond their sum all go
  to host 0. Six unplaced nodes on two hosts with limits 1 and 10: host 0 ends up with three.
\<close>

definition plain_node :: "string \<Rightarrow> rat symbolic_node" where
  "plain_node i = \<lparr>sn_id = i, sn_deps = [], sn_node_id = None, sn_output_slot = None, sn_fanout = None,
     sn_placement = None, sn_barrier_group = None, sn_split = None, sn_out_weight = None, sn_kind = JNull\<rparr>"

definition six_nodes :: "rat symbolic_node list" where
  "six_nodes = map plain_node [''a'', ''b'', ''c'', ''d'', ''e'', ''f'']"

definition uneven_hints :: "rat placement_hints" where
  "uneven_hints = \<lparr>capacity = [], host_limit = [(0, 1), (1, 10)], cores = [], random = False\<rparr>"

lemma six_topo: "topo_order six_nodes = Some [0, 1, 2, 3, 4, 5]"
  by (simp add: topo_order_def six_nodes_def plain_node_def upt_rec kahn.simps)

lemma six_quota: "compute_quotas rat_ops 2 6 uneven_hints None = [0 \<mapsto> 1, 1 \<mapsto> 3]"
  by (rule ext) (simp add: compute_quotas_def uneven_hints_def hosts_def limit_def upt_rec)

lemma best_of_two:
  "best_host rat_ops 2 Map.empty q =
     (if 0 < quota_at q 1 \<and> quota_at q 0 \<le> quota_at q 1 then 1 else 0)"
  by (auto simp: best_host_def hosts_def upt_rec cmp_hosts_def partial_cmp_def rat_ops_def)

lemma place_free_node:
  assumes "sn_node_id (pl_nodes p ! i) = None" "sn_deps (pl_nodes p ! i) = []"
  shows "place_node rat_ops 2 w i p =
    (let b = best_host rat_ops 2 Map.empty (pl_quota p)
     in p\<lparr>pl_nodes := (pl_nodes p)[i := (pl_nodes p ! i)\<lparr>sn_node_id := Some b\<rparr>],
          pl_host := (pl_host p)(sn_id (pl_nodes p ! i) \<mapsto> b),
          pl_quota := (case pl_quota p b of Some q \<Rightarrow> (pl_quota p)(b \<mapsto> q - 1) | None \<Rightarrow> pl_quota p)\<rparr>)"
  using assms by (simp add: place_node_def Let_def)

lemma host_limit_overrun:
  "\<exists>ms. assign_nodes rat_ops draw six_nodes 2 uneven_hints None = Some ms
     \<and> map sn_node_id ms = map Some [1, 1, 1, 0, 0, 0]
     \<and> limit uneven_hints (auto_count six_nodes) None 0 < auto_on six_nodes ms 0
     \<and> auto_on six_nodes ms 1 < limit uneven_hints (auto_count six_nodes) None 1"
proof -
  have ac: "auto_count six_nodes = 6" by (simp add: auto_count_def six_nodes_def plain_node_def)
  have nr: "\<not> random uneven_hints" by (simp add: uneven_hints_def)
  obtain ms where ms: "assign_nodes rat_ops draw six_nodes 2 uneven_hints None = Some ms"
    "map sn_node_id ms = map Some [1, 1, 1, 0, 0, 0]"
    by (simp add: assign_nodes_def ac nr six_topo six_quota)
      (simp add: six_nodes_def plain_node_def place_free_node Let_def best_of_two)
  have len: "length ms = 6" using arg_cong [OF ms(2), of length] by simp
  have "sn_node_id (ms ! i) = Some ([1, 1, 1, 0, 0, 0] ! i)" if i: "i < 6" for i
  proof -
    have "sn_node_id (ms ! i) = map sn_node_id ms ! i" using i len by simp
    also have "\<dots> = map Some [1, 1, 1, 0, 0, 0] ! i" by (simp only: ms(2))
    also have "\<dots> = Some ([1, 1, 1, 0, 0, 0] ! i)" using i by (intro nth_map) simp
    finally show ?thesis .
  qed
  moreover have "length six_nodes = 6" "\<And>i. i < 6 \<Longrightarrow> sn_node_id (six_nodes ! i) = None"
    by (auto simp: six_nodes_def plain_node_def less_Suc_eq numeral_eq_Suc)
  ultimately have on: "auto_on six_nodes ms h = card {i. i < 6 \<and> [1, 1, 1, 0, 0, 0] ! i = h}" for h
    unfolding auto_on_def by (intro arg_cong [of _ _ card]) auto
  have "{i. i < 6 \<and> [1, 1, 1, 0, 0, 0] ! i = (0::nat)} = {3, 4, 5}" "{i. i < 6 \<and> [1, 1, 1, 0, 0, 0] ! i = (1::nat)} = {0, 1, 2}"
    by (auto simp: less_Suc_eq numeral_eq_Suc)
  then have "auto_on six_nodes ms 0 = 3" "auto_on six_nodes ms 1 = 3" by (simp_all add: on)
  then show ?thesis using ms by (intro exI [of _ ms]) (simp add: ac limit_def uneven_hints_def)
qed

section \<open>A concrete placement\<close>

definition two_hosts :: "rat placement_hints" where
  "two_hosts = \<lparr>capacity = [(0, 1 / 2), (1, 1 / 2)], host_limit = [(0, 4), (1, 4)], cores = [], random = False\<rparr>"

theorem assign_nodes_total_witness:
  "\<exists>ms. assign_nodes rat_ops (\<lambda>_. 1) six_nodes 2 two_hosts None = Some ms \<and> length ms = 6"
  using assign_nodes_total [of 2 "\<lambda>_. 1" rat_ops six_nodes two_hosts None]
  by (auto dest!: list_all2_lengthD simp: six_nodes_def)

end
