(* ===== verification/Slot_Assigner.thy ===== *)
theory Slot_Assigner
  imports Placer
begin

text \<open>
  Concrete slot numbers for a placed DAG (\<open>partitioner/src/slot_assigner.rs\<close>): the fan-out
  pre-pass, which separates the slot ranges of fan-outs on one machine, and the output-slot
  pass in topological order. Slot numbers are \<open>u32\<close> with their wrap-around.
\<close>

section \<open>Errors of the partitioner\<close>

datatype part_err =
    NoInputDep string               \<comment> \<open>a node needs an input slot but has no dependency\<close>
  | NoOutputSlot string string      \<comment> \<open>node, dependency without an output slot\<close>
  | NotPlaced string
  | NodeIdRange string nat
  | UnknownDependency string string
  | InputCrossNode string string
  | NoCrossSlot string string
  | UpstreamNotArray
  | UpstreamNotString
  | UpstreamNoSlot string
  | CutNotInteger string
  | CutNoStages string
  | CutTooManySegments string
  | CutNeedsTwoNodes
  | MissingRounds string
  | MissingArg1 string
  | MissingPaths string
  | PartPanic                       \<comment> \<open>\<open>unwrap\<close> or an index on a value of the wrong shape\<close>

section \<open>State\<close>

record 'f slot_state =
  ss_nodes :: "'f symbolic_node list"
  id_to_output :: "string \<rightharpoonup> nat"
  consumer_input :: "string \<times> string \<rightharpoonup> nat"
  fanout_adjusted_base :: "string \<rightharpoonup> nat"
  next_slot :: nat

definition dep_output_slot :: "string \<Rightarrow> string list \<Rightarrow> (string \<rightharpoonup> nat) \<Rightarrow> part_err + nat" where
  "dep_output_slot nid ds outputs =
     (if ds = [] then Inl (NoInputDep nid)
      else case outputs (last ds) of Some slot \<Rightarrow> Inr slot | None \<Rightarrow> Inl (NoOutputSlot nid (last ds)))"

definition input_slot_for ::
  "string \<Rightarrow> string list \<Rightarrow> (string \<times> string \<rightharpoonup> nat) \<Rightarrow> (string \<rightharpoonup> nat) \<Rightarrow> part_err + nat" where
  "input_slot_for nid ds cin outputs =
     (case List.map_filter (\<lambda>d. cin (d, nid)) ds of
        slot # _ \<Rightarrow> Inr slot
      | [] \<Rightarrow> dep_output_slot nid ds outputs)"

section \<open>Fan-out pre-pass\<close>

definition fanout_entry :: "'f symbolic_node list \<Rightarrow> nat \<Rightarrow> (nat \<times> nat \<times> nat) option" where
  "fanout_entry ns idx =
     Option.bind (json_get ''Func'' (sn_kind (ns ! idx))) (\<lambda>func.
     Option.bind (json_get ''out_base'' func) (\<lambda>v.
     Option.bind (as_u64 v) (\<lambda>base.
     Option.bind (sn_node_id (ns ! idx)) (\<lambda>machine. Some (machine, wrap32 base, idx)))))"

definition consumers :: "'f symbolic_node list \<Rightarrow> string \<Rightarrow> nat list" where
  "consumers ns src = filter (\<lambda>i. src \<in> set (sn_deps (ns ! i))) [0..<length ns]"

fun give_slots :: "string \<Rightarrow> nat \<Rightarrow> (nat \<times> nat) list \<Rightarrow> 'f slot_state \<Rightarrow> 'f slot_state" where
  "give_slots src base [] s = s"
| "give_slots src base ((i, cidx) # cs) s =
     (let slot = wrap32 (base + i)
      in give_slots src base cs
           (s\<lparr>consumer_input := (consumer_input s)((src, sn_id (ss_nodes s ! cidx)) \<mapsto> slot),
              next_slot := max (next_slot s) (wrap32 (slot + 1))\<rparr>))"

fun fanout_machine :: "nat \<Rightarrow> (nat \<times> nat \<times> nat) list \<Rightarrow> nat \<Rightarrow> 'f slot_state \<Rightarrow> 'f slot_state" where
  "fanout_machine machine [] next_free s = s"
| "fanout_machine machine ((m, orig_base, idx) # es) next_free s =
     (if m \<noteq> machine then fanout_machine machine es next_free s
      else let eff_base = max orig_base next_free;
               src = sn_id (ss_nodes s ! idx);
               cs = consumers (ss_nodes s) src;
               s' = give_slots src eff_base (enumerate 0 cs) s
           in fanout_machine machine es (wrap32 (eff_base + length cs))
                (s'\<lparr>fanout_adjusted_base := (fanout_adjusted_base s')(src \<mapsto> eff_base)\<rparr>))"

definition fanout_pass :: "nat list \<Rightarrow> 'f slot_state \<Rightarrow> 'f slot_state" where
  "fanout_pass order s =
     (let entries = List.map_filter (fanout_entry (ss_nodes s)) order;
          machines = remdups (sort (map fst entries))
      in fold (\<lambda>machine. fanout_machine machine entries 0) machines s)"

section \<open>Output slots\<close>

definition INPUT_IO :: nat where "INPUT_IO = 0"
definition OUTPUT_IO :: nat where "OUTPUT_IO = 1"

abbreviation set_node :: "nat \<Rightarrow> ('f symbolic_node \<Rightarrow> 'f symbolic_node) \<Rightarrow> 'f slot_state \<Rightarrow> 'f slot_state" where
  "set_node idx f s \<equiv> s\<lparr>ss_nodes := (ss_nodes s)[idx := f (ss_nodes s ! idx)]\<rparr>"

abbreviation set_output :: "string \<Rightarrow> nat \<Rightarrow> 'f slot_state \<Rightarrow> 'f slot_state" where
  "set_output nid slot s \<equiv> s\<lparr>id_to_output := (id_to_output s)(nid \<mapsto> slot)\<rparr>"

abbreviation raise_next :: "nat \<Rightarrow> 'f slot_state \<Rightarrow> 'f slot_state" where
  "raise_next slot s \<equiv> s\<lparr>next_slot := max (next_slot s) (wrap32 (slot + 1))\<rparr>"

definition variant :: "string \<Rightarrow> (string \<times> 'f json) list \<Rightarrow> 'f json" where
  "variant k m = JObject [(k, JObject m)]"

definition or_some :: "'a option \<Rightarrow> 'a \<Rightarrow> 'a option" where
  "or_some x d = (case x of None \<Rightarrow> Some d | Some _ \<Rightarrow> x)"

definition slot_input :: "nat \<Rightarrow> string \<Rightarrow> (string \<times> 'f json) list \<Rightarrow> 'f slot_state \<Rightarrow> 'f slot_state" where
  "slot_input idx nid input_obj s =
     (let slot = wrap32 (unwrap_or INPUT_IO (get_u64 ''slot'' input_obj))
      in set_output nid slot (set_node idx
           (\<lambda>n. n\<lparr>sn_kind := variant ''Input'' (obj_insert ''slot'' (jnat slot) input_obj)\<rparr>) s))"

definition slot_func ::
  "nat \<Rightarrow> string \<Rightarrow> string list \<Rightarrow> (string \<times> 'f json) list \<Rightarrow> 'f slot_state \<Rightarrow> part_err + 'f slot_state" where
  "slot_func idx nid ds func s =
     (if contains_key func ''arg'' then
        (let out_slot = (case get_u64 ''arg2'' func of Some v \<Rightarrow> wrap32 v | None \<Rightarrow> OUTPUT_IO)
         in Inr (raise_next out_slot (set_output nid out_slot
              (set_node idx (\<lambda>n. n\<lparr>sn_output_slot := or_some (sn_output_slot n) out_slot\<rparr>) s))))
      else case get_u64 ''out_base'' func of
        Some base \<Rightarrow>
          (let eff_base = unwrap_or (wrap32 base) (fanout_adjusted_base s nid)
           in Inr (set_output nid eff_base (set_node idx
                (\<lambda>n. n\<lparr>sn_kind := variant ''Func'' (obj_insert ''arg'' (jnat eff_base) func)\<rparr>) s)))
      | None \<Rightarrow>
          (case get_u64 ''output_offset'' func of
             Some offset \<Rightarrow>
               (case input_slot_for nid ds (consumer_input s) (id_to_output s) of
                  Inl e \<Rightarrow> Inl e
                | Inr in_slot \<Rightarrow>
                    (let out_slot = wrap32 (in_slot + wrap32 offset)
                     in Inr (raise_next out_slot (set_output nid out_slot (set_node idx
                          (\<lambda>n. n\<lparr>sn_kind := variant ''Func'' (obj_insert ''arg'' (jnat in_slot) func),
                               sn_output_slot := Some out_slot\<rparr>) s)))))
           | None \<Rightarrow>
               (case dep_output_slot nid ds (id_to_output s) of
                  Inl e \<Rightarrow> Inl e
                | Inr dep_slot \<Rightarrow>
                    Inr (set_output nid OUTPUT_IO (set_node idx
                      (\<lambda>n. n\<lparr>sn_kind := variant ''Func'' (obj_insert ''arg'' (jnat dep_slot) func),
                           sn_output_slot := Some OUTPUT_IO\<rparr>) s)))))"

definition slot_aggregate ::
  "nat \<Rightarrow> string \<Rightarrow> string list \<Rightarrow> (string \<times> 'f json) list \<Rightarrow> 'f slot_state \<Rightarrow> part_err + 'f slot_state" where
  "slot_aggregate idx nid ds agg s =
     (if contains_key agg ''upstream'' \<and> contains_key agg ''downstream'' then
        (case get_u64 ''downstream'' agg of
           None \<Rightarrow> Inl PartPanic
         | Some v \<Rightarrow>
             Inr (raise_next (wrap32 v) (set_output nid (wrap32 v)
               (set_node idx (\<lambda>n. n\<lparr>sn_output_slot := or_some (sn_output_slot n) (wrap32 v)\<rparr>) s))))
      else
        (let new_agg = (if \<not> contains_key agg ''upstream_nodes'' \<and> \<not> contains_key agg ''upstream''
                        then obj_insert ''upstream_nodes'' (jstrs ds) agg else agg);
             (ds_slot, s') = (case get_u64 ''downstream'' agg of
                Some v \<Rightarrow> (wrap32 v, s)
              | None \<Rightarrow> (next_slot s, s\<lparr>next_slot := wrap32 (next_slot s + 1)\<rparr>))
         in Inr (raise_next ds_slot (set_output nid ds_slot (set_node idx
              (\<lambda>n. n\<lparr>sn_kind := variant ''Aggregate'' (obj_insert ''downstream'' (jnat ds_slot) new_agg),
                   sn_output_slot := Some ds_slot\<rparr>) s')))))"

definition last_arg1 :: "(string \<times> 'f json) list \<Rightarrow> nat option" where
  "last_arg1 sp =
     Option.bind (Option.bind (map_of sp ''stages'') as_array) (\<lambda>stages.
       if stages = [] then None
       else map_option wrap32 (Option.bind (json_get ''arg1'' (last stages)) as_u64))"

definition slot_node :: "nat \<Rightarrow> 'f slot_state \<Rightarrow> part_err + 'f slot_state" where
  "slot_node idx s =
     (let node = ss_nodes s ! idx; nid = sn_id node; ds = sn_deps node; kind = sn_kind node in
      if json_get ''Input'' kind \<noteq> None then
        (case kind_obj ''Input'' kind of None \<Rightarrow> Inl PartPanic | Some m \<Rightarrow> Inr (slot_input idx nid m s))
      else case kind_obj ''Func'' kind of Some func \<Rightarrow> slot_func idx nid ds func s
      | None \<Rightarrow>
     (case kind_obj ''Aggregate'' kind of Some agg \<Rightarrow> slot_aggregate idx nid ds agg s
      | None \<Rightarrow>
     (case kind_obj ''Output'' kind of
        Some out_obj \<Rightarrow>
          (case dep_output_slot nid ds (id_to_output s) of
             Inl e \<Rightarrow> Inl e
           | Inr dep_slot \<Rightarrow> Inr (set_node idx
               (\<lambda>n. n\<lparr>sn_kind := variant ''Output'' (obj_insert ''slot'' (jnat dep_slot) out_obj)\<rparr>) s))
      | None \<Rightarrow>
     (case kind_obj ''StreamPipeline'' kind of
        Some sp \<Rightarrow>
          (case last_arg1 sp of
             Some out_slot \<Rightarrow> Inr (raise_next out_slot (set_output nid out_slot
               (set_node idx (\<lambda>n. n\<lparr>sn_output_slot := or_some (sn_output_slot n) out_slot\<rparr>) s)))
           | None \<Rightarrow> Inr s)
      | None \<Rightarrow> Inr s))))"

fun slot_nodes :: "nat list \<Rightarrow> 'f slot_state \<Rightarrow> part_err + 'f slot_state" where
  "slot_nodes [] s = Inr s"
| "slot_nodes (idx # order) s =
     (case slot_node idx s of Inl e \<Rightarrow> Inl e | Inr s' \<Rightarrow> slot_nodes order s')"

definition init_slots :: "'f symbolic_node list \<Rightarrow> 'f slot_state" where
  "init_slots ns = \<lparr>ss_nodes = ns, id_to_output = Map.empty, consumer_input = Map.empty,
     fanout_adjusted_base = Map.empty, next_slot = 2\<rparr>"

definition assign_slots :: "'f symbolic_node list \<Rightarrow> (part_err + 'f symbolic_node list) option" where
  "assign_slots ns =
     map_option (\<lambda>order. map_sum id ss_nodes (slot_nodes order (fanout_pass order (init_slots ns))))
       (topo_order ns)"

section \<open>Fan-outs on one machine use disjoint slots\<close>

text \<open>The sources that the entries \<open>es\<close> put on machine \<open>m\<close>, and the slots all entries ask for.\<close>

definition own :: "'f symbolic_node list \<Rightarrow> nat \<Rightarrow> (nat \<times> nat \<times> nat) list \<Rightarrow> string set" where
  "own ns m es = {sn_id (ns ! idx) | idx b. (m, b, idx) \<in> set es}"

definition demand :: "'f symbolic_node list \<Rightarrow> (nat \<times> nat \<times> nat) list \<Rightarrow> nat" where
  "demand ns es = sum_list (map (\<lambda>(m, b, idx). length (consumers ns (sn_id (ns ! idx)))) es)"

lemma give_slots_nodes [simp]: "ss_nodes (give_slots src base cs s) = ss_nodes s"
  by (induction src base cs s rule: give_slots.induct) (auto simp: Let_def)

lemma fanout_machine_nodes [simp]: "ss_nodes (fanout_machine m es f s) = ss_nodes s"
  by (induction m es f s rule: fanout_machine.induct) (auto simp: Let_def)

lemma give_slots_other:
  "a \<noteq> src \<Longrightarrow> consumer_input (give_slots src base cs s) (a, c) = consumer_input s (a, c)"
  by (induction src base cs s rule: give_slots.induct) (auto simp: Let_def)

lemma give_slots_absent:
  "c \<notin> (\<lambda>i. sn_id (ss_nodes s ! i)) ` set cs \<Longrightarrow>
   consumer_input (give_slots src base (enumerate k cs) s) (src, c) = consumer_input s (src, c)"
  by (induction cs arbitrary: k s) (auto simp: Let_def)

lemma give_slots_nth:
  "base + k + length cs < 4294967296 \<Longrightarrow> distinct (map (\<lambda>i. sn_id (ss_nodes s ! i)) cs) \<Longrightarrow> j < length cs \<Longrightarrow>
   consumer_input (give_slots src base (enumerate k cs) s) (src, sn_id (ss_nodes s ! (cs ! j))) = Some (base + k + j)"
proof (induction cs arbitrary: k s j)
  case (Cons i cs)
  let ?s = "s\<lparr>consumer_input := (consumer_input s)((src, sn_id (ss_nodes s ! i)) \<mapsto> base + k),
            next_slot := max (next_slot s) (wrap32 (base + k + 1))\<rparr>"
  have step: "give_slots src base (enumerate k (i # cs)) s = give_slots src base (enumerate (Suc k) cs) ?s"
    using Cons.prems(1) by (simp add: Let_def)
  show ?case
  proof (cases j)
    case 0
    have "sn_id (ss_nodes s ! i) \<notin> (\<lambda>i. sn_id (ss_nodes ?s ! i)) ` set cs" using Cons.prems(2) by auto
    from give_slots_absent [OF this, of src base "Suc k"] show ?thesis unfolding step using 0 by simp
  next
    case (Suc j')
    have "consumer_input (give_slots src base (enumerate (Suc k) cs) ?s) (src, sn_id (ss_nodes ?s ! (cs ! j')))
        = Some (base + Suc k + j')"
      by (rule Cons.IH) (use Cons.prems Suc in auto)
    then show ?thesis unfolding step using Suc by simp
  qed
qed simp

lemma give_slots_range:
  assumes "base + length cs < 4294967296" "\<forall>c. consumer_input s (src, c) = None"
    and "distinct (map (\<lambda>i. sn_id (ss_nodes s ! i)) cs)"
    and "consumer_input (give_slots src base (enumerate 0 cs) s) (src, c) = Some x"
  shows "\<exists>j < length cs. x = base + j \<and> c = sn_id (ss_nodes s ! (cs ! j))"
proof (cases "c \<in> (\<lambda>i. sn_id (ss_nodes s ! i)) ` set cs")
  case True
  then obtain j where j: "j < length cs" "c = sn_id (ss_nodes s ! (cs ! j))" by (auto simp: in_set_conv_nth)
  then show ?thesis using give_slots_nth [of base 0 cs s j src] assms by auto
next
  case False
  then show ?thesis using give_slots_absent [OF False, of src base 0] assms(2,4) by simp
qed

lemma fanout_machine_frame:
  "a \<notin> own (ss_nodes s) m es \<Longrightarrow> consumer_input (fanout_machine m es f s) (a, c) = consumer_input s (a, c)"
proof (induction m es f s rule: fanout_machine.induct)
  case (2 machine m b idx es f s)
  have sub: "a \<notin> own (ss_nodes s) machine es" using "2.prems" by (auto simp: own_def)
  show ?case
  proof (cases "m = machine")
    case True
    then have "a \<noteq> sn_id (ss_nodes s ! idx)" using "2.prems" by (auto simp: own_def)
    then show ?thesis using "2.IH"(2) True sub by (simp add: Let_def give_slots_other)
  qed (use "2.IH"(1) sub in simp)
qed simp

lemma ids_inj:
  "distinct (map sn_id ns) \<Longrightarrow> i < length ns \<Longrightarrow> j < length ns \<Longrightarrow> sn_id (ns ! i) = sn_id (ns ! j) \<Longrightarrow> i = j"
  by (metis length_map nth_eq_iff_index_eq nth_map)

lemma consumers_ids:
  assumes "distinct (map sn_id ns)"
  shows "distinct (map (\<lambda>i. sn_id (ns ! i)) (consumers ns src))"
proof -
  have "inj_on (\<lambda>i. sn_id (ns ! i)) (set (consumers ns src))"
    by (rule inj_onI) (rule ids_inj [OF assms], auto simp: consumers_def)
  moreover have "distinct (consumers ns src)" by (simp add: consumers_def)
  ultimately show ?thesis by (simp add: distinct_map)
qed

lemma fanout_machine_inj:
  assumes "distinct (map sn_id (ss_nodes s))" "distinct (map (\<lambda>(m, b, idx). idx) es)"
    and "\<forall>(m', b, idx) \<in> set es. idx < length (ss_nodes s)"
    and "\<forall>a \<in> own (ss_nodes s) m es. \<forall>c. consumer_input s (a, c) = None"
    and "f + demand (ss_nodes s) es < 4294967296"
    and "\<forall>(m', b, idx) \<in> set es. b + demand (ss_nodes s) es < 4294967296"
  defines "r \<equiv> consumer_input (fanout_machine m es f s)"
  shows "(\<forall>a \<in> own (ss_nodes s) m es. \<forall>c x. r (a, c) = Some x \<longrightarrow> f \<le> x)
    \<and> (\<forall>a \<in> own (ss_nodes s) m es. \<forall>b \<in> own (ss_nodes s) m es. \<forall>c d x.
         r (a, c) = Some x \<longrightarrow> r (b, d) = Some x \<longrightarrow> (a, c) = (b, d))"
  using assms(1-6) unfolding r_def
proof (induction m es f s rule: fanout_machine.induct)
  case (2 machine m b idx es f s)
  let ?ns = "ss_nodes s"
  have pre: "distinct (map (\<lambda>(m, b, idx). idx) es)" "\<forall>(m', b, idx) \<in> set es. idx < length ?ns"
    "\<forall>(m', b', idx) \<in> set es. b' + demand ?ns es < 4294967296"
    using "2.prems"(2,3,6) by (auto simp: demand_def)
  show ?case
  proof (cases "m = machine")
    case False
    then have own: "own ?ns machine ((m, b, idx) # es) = own ?ns machine es" by (auto simp: own_def)
    have "f + demand ?ns es < 4294967296" using "2.prems"(5) by (simp add: demand_def)
    then show ?thesis using "2.IH"(1) [OF False] "2.prems" pre False unfolding own by simp
  next
    case True
    let ?src = "sn_id (?ns ! idx)" and ?eff = "max b f"
    let ?cs = "consumers ?ns ?src"
    let ?s1 = "give_slots ?src ?eff (enumerate 0 ?cs) s"
    let ?s2 = "?s1\<lparr>fanout_adjusted_base := (fanout_adjusted_base ?s1)(?src \<mapsto> ?eff)\<rparr>"
    let ?r = "consumer_input (fanout_machine machine es (wrap32 (?eff + length ?cs)) ?s2)"
    have own: "own ?ns machine ((m, b, idx) # es) = insert ?src (own ?ns machine es)" using True by (auto simp: own_def)
    have idx: "idx < length ?ns" using "2.prems"(3) by auto
    have fresh: "?src \<notin> own ?ns machine es"
    proof
      assume "?src \<in> own ?ns machine es"
      then obtain i b' where i: "(machine, b', i) \<in> set es" "?src = sn_id (?ns ! i)" by (auto simp: own_def)
      moreover have "i < length ?ns" using i(1) "2.prems"(3) by auto
      ultimately have "i = idx" using ids_inj [OF "2.prems"(1), of i idx] idx by simp
      then show False using i(1) "2.prems"(2) by force
    qed
    have dem: "demand ?ns ((m, b, idx) # es) = length ?cs + demand ?ns es" by (simp add: demand_def)
    have small: "?eff + length ?cs + demand ?ns es < 4294967296"
      using "2.prems"(5,6) unfolding dem by (cases "b \<le> f") (auto simp: max_def)
    then have w: "wrap32 (?eff + length ?cs) = ?eff + length ?cs" by simp
    have none: "\<forall>c. consumer_input s (?src, c) = None" using "2.prems"(4) unfolding own by blast
    have none2: "\<forall>a \<in> own ?ns machine es. \<forall>c. consumer_input ?s2 (a, c) = None"
    proof (intro ballI allI)
      fix a c assume a: "a \<in> own ?ns machine es"
      then have "a \<noteq> ?src" using fresh by blast
      moreover have "consumer_input s (a, c) = None" using "2.prems"(4) a unfolding own by blast
      ultimately show "consumer_input ?s2 (a, c) = None" by (simp add: give_slots_other)
    qed
    have ih: "(\<forall>a \<in> own ?ns machine es. \<forall>c x. ?r (a, c) = Some x \<longrightarrow> ?eff + length ?cs \<le> x)
      \<and> (\<forall>a \<in> own ?ns machine es. \<forall>b \<in> own ?ns machine es. \<forall>c d x.
         ?r (a, c) = Some x \<longrightarrow> ?r (b, d) = Some x \<longrightarrow> (a, c) = (b, d))"
      using "2.IH"(2) [OF _ refl refl refl refl, of] True "2.prems"(1) pre none2 small w by simp
    have src: "?r (?src, c) = consumer_input ?s1 (?src, c)" for c
      using fanout_machine_frame [of ?src ?s2] fresh by simp
    have rng: "\<exists>j < length ?cs. x = ?eff + j \<and> c = sn_id (?ns ! (?cs ! j))" if "?r (?src, c) = Some x" for c x
      using give_slots_range [OF _ none consumers_ids [OF "2.prems"(1)]] that small unfolding src by simp
    have res: "fanout_machine machine ((m, b, idx) # es) f s = fanout_machine machine es (wrap32 (?eff + length ?cs)) ?s2"
      using True by (simp add: Let_def)
    have A: "f \<le> x" if "a \<in> insert ?src (own ?ns machine es)" "?r (a, c) = Some x" for a c x
      using that ih rng [of c x] by fastforce
    have B: "(a, c) = (b', d)" if ab: "a \<in> insert ?src (own ?ns machine es)" "b' \<in> insert ?src (own ?ns machine es)"
      and x: "?r (a, c) = Some x" "?r (b', d) = Some x" for a b' c d x
    proof -
      consider "a = ?src" "b' = ?src" | "a = ?src" "b' \<in> own ?ns machine es" | "b' = ?src" "a \<in> own ?ns machine es"
        | "a \<in> own ?ns machine es" "b' \<in> own ?ns machine es" using ab by blast
      then show ?thesis
      proof cases
        case 1 then show ?thesis using rng [of c x] rng [of d x] x by auto
      next
        case 2 then show ?thesis using rng [of c x] ih x by fastforce
      next
        case 3 then show ?thesis using rng [of d x] ih x by fastforce
      next
        case 4 then show ?thesis using ih x by blast
      qed
    qed
    show ?thesis unfolding own res using A B by blast
  qed
qed (simp add: own_def)

lemma fanout_entry_idx:
  "fanout_entry ns idx = Some (m, b, i) \<Longrightarrow> i = idx \<and> sn_node_id (ns ! idx) = Some m"
  by (auto simp: fanout_entry_def Option.bind_eq_Some_conv)

lemma own_machine:
  assumes "a \<in> own ns m (List.map_filter (fanout_entry ns) order)"
  shows "\<exists>i \<in> set order. a = sn_id (ns ! i) \<and> sn_node_id (ns ! i) = Some m"
proof -
  obtain idx b where i: "(m, b, idx) \<in> set (List.map_filter (fanout_entry ns) order)" "a = sn_id (ns ! idx)"
    using assms by (auto simp: own_def)
  then obtain k where "k \<in> set order" "fanout_entry ns k = Some (m, b, idx)"
    by (auto simp: map_filter_def)
  then show ?thesis using fanout_entry_idx i(2) by blast
qed

lemma fanout_fold_inj:
  assumes ns: "distinct (map sn_id ns)" and es: "es = List.map_filter (fanout_entry ns) order"
    and ord: "distinct order" "set order \<subseteq> {..<length ns}"
    and fit: "demand ns es < 4294967296" "\<forall>(m', b, idx) \<in> set es. b + demand ns es < 4294967296"
    and s: "ss_nodes s = ns" "distinct ms" "\<forall>m \<in> set ms. \<forall>a \<in> own ns m es. \<forall>c. consumer_input s (a, c) = None"
  defines "r \<equiv> consumer_input (fold (\<lambda>machine. fanout_machine machine es 0) ms s)"
  shows "(\<forall>m \<in> set ms. \<forall>a \<in> own ns m es. \<forall>b \<in> own ns m es. \<forall>c d x.
      r (a, c) = Some x \<longrightarrow> r (b, d) = Some x \<longrightarrow> (a, c) = (b, d))
    \<and> (\<forall>a c. (\<forall>m \<in> set ms. a \<notin> own ns m es) \<longrightarrow> r (a, c) = consumer_input s (a, c))"
  using s unfolding r_def
proof (induction ms arbitrary: s)
  case (Cons m ms)
  let ?s = "fanout_machine m es 0 s" and ?r = "consumer_input (fold (\<lambda>machine. fanout_machine machine es 0) ms (fanout_machine m es 0 s))"
  have disj: "m' = m''" if a: "a \<in> own ns m' es" "a \<in> own ns m'' es" for a m' m''
  proof -
    obtain i j where "i \<in> set order" "a = sn_id (ns ! i)" "sn_node_id (ns ! i) = Some m'"
      "j \<in> set order" "a = sn_id (ns ! j)" "sn_node_id (ns ! j) = Some m''"
      using own_machine [of a ns m' order] own_machine [of a ns m'' order] a unfolding es by blast
    moreover have "i = j" using ids_inj [OF ns, of i j] calculation ord(2) by auto
    ultimately show ?thesis by simp
  qed
  have idxs: "distinct (map (\<lambda>(m, b, idx). idx) es)"
  proof -
    have "map (\<lambda>(m, b, idx). idx) es = filter (\<lambda>i. fanout_entry ns i \<noteq> None) order"
      unfolding es using fanout_entry_idx by (induction order) (fastforce simp: map_filter_simps split: option.split)+
    then show ?thesis using ord(1) by simp
  qed
  have rng: "\<forall>(m', b, idx) \<in> set es. idx < length ns"
    using ord(2) fanout_entry_idx unfolding es by (fastforce simp: map_filter_def)
  have frame: "consumer_input ?s (a, c) = consumer_input s (a, c)" if "a \<notin> own ns m es" for a c
    using fanout_machine_frame [of a s m es 0 c] that Cons.prems(1) by simp
  have none: "\<forall>m' \<in> set ms. \<forall>a \<in> own ns m' es. \<forall>c. consumer_input ?s (a, c) = None"
    using Cons.prems(2,3) disj frame by (metis distinct.simps(2) list.set_intros(2))
  have ih: "(\<forall>m \<in> set ms. \<forall>a \<in> own ns m es. \<forall>b \<in> own ns m es. \<forall>c d x.
      ?r (a, c) = Some x \<longrightarrow> ?r (b, d) = Some x \<longrightarrow> (a, c) = (b, d))
    \<and> (\<forall>a c. (\<forall>m \<in> set ms. a \<notin> own ns m es) \<longrightarrow> ?r (a, c) = consumer_input ?s (a, c))"
    using Cons.IH [of ?s] Cons.prems(1,2) none by simp
  have inj: "\<forall>a \<in> own ns m es. \<forall>b \<in> own ns m es. \<forall>c d x. consumer_input ?s (a, c) = Some x
      \<longrightarrow> consumer_input ?s (b, d) = Some x \<longrightarrow> (a, c) = (b, d)"
    using fanout_machine_inj [of s es m 0] Cons.prems(1,3) ns idxs rng fit by simp
  have keep: "?r (a, c) = consumer_input ?s (a, c)" if "a \<in> own ns m es" for a c
    using ih that disj Cons.prems(2) by (metis distinct.simps(2))
  have "\<forall>m' \<in> set (m # ms). \<forall>a \<in> own ns m' es. \<forall>b \<in> own ns m' es. \<forall>c d x.
      ?r (a, c) = Some x \<longrightarrow> ?r (b, d) = Some x \<longrightarrow> (a, c) = (b, d)"
    using ih inj keep by (metis set_ConsD)
  moreover have "\<forall>a c. (\<forall>m' \<in> set (m # ms). a \<notin> own ns m' es) \<longrightarrow> ?r (a, c) = consumer_input s (a, c)"
    using ih frame by simp
  ultimately show ?case by simp
qed simp

text \<open>
  Fan-outs do not share slots. After the pre-pass, two consumers that read from fan-out
  sources on the same machine have different input slots (unless it is the same consumer of
  the same source), whatever bases the sources declare, as long as node ids are unique and
  the slot numbers stay below \<open>2\<^sup>3\<^sup>2\<close>.
\<close>

lemma fanout_slots_disjoint:
  assumes "distinct (map sn_id ns)" "topo_order ns = Some order"
    and "es = List.map_filter (fanout_entry ns) order"
    and "demand ns es < 4294967296" "\<forall>(m', b, idx) \<in> set es. b + demand ns es < 4294967296"
    and "consumer_input (fanout_pass order (init_slots ns)) (sn_id (ns ! i), c) = Some x"
    and "consumer_input (fanout_pass order (init_slots ns)) (sn_id (ns ! j), d) = Some x"
    and "i < length ns" "j < length ns" "sn_node_id (ns ! i) = sn_node_id (ns ! j)"
  shows "i = j \<and> c = d"
proof -
  have ord: "distinct order" "set order = {..<length ns}" using topo_order_spec [of ns] assms(2) by auto
  let ?ms = "remdups (sort (map fst es))"
  let ?r = "consumer_input (fold (\<lambda>machine. fanout_machine machine es 0) ?ms (init_slots ns))"
  have fp: "fanout_pass order (init_slots ns) = fold (\<lambda>machine. fanout_machine machine es 0) ?ms (init_slots ns)"
    by (simp add: fanout_pass_def init_slots_def assms(3) Let_def)
  have main: "(\<forall>m \<in> set ?ms. \<forall>a \<in> own ns m es. \<forall>b \<in> own ns m es. \<forall>c d x.
      ?r (a, c) = Some x \<longrightarrow> ?r (b, d) = Some x \<longrightarrow> (a, c) = (b, d))
    \<and> (\<forall>a c. (\<forall>m \<in> set ?ms. a \<notin> own ns m es) \<longrightarrow> ?r (a, c) = consumer_input (init_slots ns) (a, c))"
    by (rule fanout_fold_inj [OF assms(1,3) ord(1) _ assms(4,5)]) (auto simp: ord init_slots_def)
  have init: "consumer_input (init_slots ns) q = None" for q by (simp add: init_slots_def)
  have own: "\<exists>m \<in> set ?ms. sn_id (ns ! k) \<in> own ns m es \<and> sn_node_id (ns ! k) = Some m"
    if k: "?r (sn_id (ns ! k), e) = Some y" "k < length ns" for k e y
  proof -
    obtain m where m: "m \<in> set ?ms" "sn_id (ns ! k) \<in> own ns m es"
      using main k(1) init by (metis option.distinct(1))
    then obtain l where l: "l \<in> set order" "sn_id (ns ! k) = sn_id (ns ! l)" "sn_node_id (ns ! l) = Some m"
      using own_machine assms(3) by blast
    have "k = l" using ids_inj [OF assms(1) k(2), of l] l ord(2) by auto
    then show ?thesis using m l by blast
  qed
  obtain m where m: "m \<in> set ?ms" "sn_id (ns ! i) \<in> own ns m es" "sn_id (ns ! j) \<in> own ns m es"
    using own [of i c x] own [of j d x] assms(6-10) unfolding fp by force
  then have "(sn_id (ns ! i), c) = (sn_id (ns ! j), d)" using main assms(6,7) unfolding fp by blast
  then show ?thesis using ids_inj [OF assms(1,8,9)] by simp
qed

definition func_node :: "string \<Rightarrow> string list \<Rightarrow> string \<Rightarrow> nat \<Rightarrow> rat symbolic_node" where
  "func_node i ds field v = (plain_node i)\<lparr>sn_deps := ds, sn_node_id := Some 0,
     sn_kind := variant ''Func'' [(field, jnat v)]\<rparr>"

definition two_fanouts :: "rat symbolic_node list" where
  "two_fanouts =
     [func_node ''s'' [] ''out_base'' 10, func_node ''t'' [] ''out_base'' 10,
      func_node ''c'' [''s''] ''output_offset'' 100, func_node ''d'' [''t''] ''output_offset'' 100]"

lemma two_fanouts_topo: "topo_order two_fanouts = Some [0, 1, 2, 3]"
proof -
  have "node_idx two_fanouts = [''s'' \<mapsto> 0, ''t'' \<mapsto> 1, ''c'' \<mapsto> 2, ''d'' \<mapsto> 3]"
    by (rule ext) (simp add: node_idx_def two_fanouts_def func_node_def plain_node_def)
  then show ?thesis
    by (simp add: topo_order_def) (simp add: two_fanouts_def func_node_def plain_node_def upt_rec kahn.simps Let_def usize_dec_def)
qed

lemma two_fanouts_pass:
  "List.map_filter (fanout_entry two_fanouts) [0, 1, 2, 3] = [(0, 10, 0), (0, 10, 1)]"
  "consumers two_fanouts ''s'' = [2]" "consumers two_fanouts ''t'' = [3]"
  by (simp_all add: map_filter_simps fanout_entry_def consumers_def two_fanouts_def func_node_def plain_node_def
      variant_def jnat_def upt_rec)

text \<open>
  An offset slot can collide with an allocated one. On one machine, an aggregate that comes
  earlier in topological order is given the next free slot 3; the worker of a fan-out with
  base 2 and offset 1 then also writes slot 3.
\<close>

definition colliding_nodes :: "rat symbolic_node list" where
  "colliding_nodes =
     [(plain_node ''i'')\<lparr>sn_node_id := Some 0, sn_kind := variant ''Input'' []\<rparr>,
      func_node ''s'' [] ''out_base'' 2,
      (plain_node ''g'')\<lparr>sn_deps := [''i''], sn_node_id := Some 0, sn_kind := variant ''Aggregate'' []\<rparr>,
      func_node ''w'' [''s''] ''output_offset'' 1]"

lemma offset_slot_collides:
  "\<exists>ms. assign_slots colliding_nodes = Some (Inr ms)
     \<and> map sn_id ms = [''i'', ''s'', ''g'', ''w''] \<and> map sn_node_id ms = replicate 4 (Some 0)
     \<and> sn_output_slot (ms ! 2) = Some 3 \<and> sn_output_slot (ms ! 3) = Some 3"
proof -
  have "node_idx colliding_nodes = [''i'' \<mapsto> 0, ''s'' \<mapsto> 1, ''g'' \<mapsto> 2, ''w'' \<mapsto> 3]"
    by (rule ext) (simp add: node_idx_def colliding_nodes_def func_node_def plain_node_def)
  then have topo: "topo_order colliding_nodes = Some [0, 1, 2, 3]"
    by (simp add: topo_order_def) (simp add: colliding_nodes_def func_node_def plain_node_def upt_rec kahn.simps Let_def usize_dec_def)
  have pass: "List.map_filter (fanout_entry colliding_nodes) [0, 1, 2, 3] = [(0, 2, 1)]"
    "consumers colliding_nodes ''s'' = [3]" "sn_id (colliding_nodes ! Suc 0) = ''s''" "sn_id (colliding_nodes ! 3) = ''w''"
    by (simp_all add: map_filter_simps fanout_entry_def consumers_def colliding_nodes_def func_node_def plain_node_def
        variant_def jnat_def upt_rec)
  have p: "fanout_pass [0, 1, 2, 3] (init_slots colliding_nodes) =
      (init_slots colliding_nodes)\<lparr>consumer_input := [(''s'', ''w'') \<mapsto> 2], next_slot := 3,
        fanout_adjusted_base := [''s'' \<mapsto> 2]\<rparr>"
    unfolding fanout_pass_def init_slots_def slot_state.select_convs pass(1) Let_def
    by (simp add: pass Let_def)
  show ?thesis
    unfolding assign_slots_def topo option.map p
    by (simp add: init_slots_def colliding_nodes_def func_node_def plain_node_def slot_node_def slot_func_def slot_input_def
        slot_aggregate_def kind_obj_def variant_def get_u64_def jnat_def contains_key_def input_slot_for_def
        map_filter_simps Let_def dep_output_slot_def INPUT_IO_def OUTPUT_IO_def obj_insert_def)
      (simp add: numeral_eq_Suc)
qed

end
