(* ===== verification/Expansion.thy ===== *)
theory Expansion
  imports Slot_Assigner
begin

text \<open>
  The rewriting passes of the partitioner before and after placement (\<open>partitioner/src/splitter.rs\<close>):
  replication of \<open>placement: "all"\<close> nodes with capacity-aware fan-out, fan-out expansion, the
  splitting of stream pipelines across hosts, pinning the convergence tail, data-parallel
  input slices and the frees of fan-out slots.
\<close>

section \<open>Pinning the convergence tail\<close>

partial_function (option) pin_loop ::
  "(string \<rightharpoonup> nat) \<Rightarrow> nat \<Rightarrow> nat list \<Rightarrow> nat set \<Rightarrow> 'f symbolic_node list \<Rightarrow> 'f symbolic_node list option" where
  "pin_loop idx coordinator stack visited ns =
     (case stack of
        [] \<Rightarrow> Some ns
      | i # stack' \<Rightarrow>
          if i \<in> visited then pin_loop idx coordinator stack' visited ns
          else let ns' = (if sn_node_id (ns ! i) = None
                          then ns[i := (ns ! i)\<lparr>sn_node_id := Some coordinator\<rparr>] else ns);
                   next = (case sn_deps (ns ! i) of
                             [d] \<Rightarrow> (case idx d of Some j \<Rightarrow> [j] | None \<Rightarrow> [])
                           | _ \<Rightarrow> [])
               in pin_loop idx coordinator (next @ stack') (insert i visited) ns')"

declare pin_loop.simps [code]

text \<open>The stack is popped from its end, so the last \<open>Output\<close> node comes first.\<close>

definition pin_converge_to_coordinator :: "'f symbolic_node list \<Rightarrow> nat \<Rightarrow> 'f symbolic_node list option" where
  "pin_converge_to_coordinator ns coordinator =
     pin_loop (node_idx ns) coordinator
       (rev (filter (\<lambda>i. json_get ''Output'' (sn_kind (ns ! i)) \<noteq> None) [0..<length ns])) {} ns"

section \<open>Frees of fan-out slots\<close>

fun cmp_string :: "string \<Rightarrow> string \<Rightarrow> ordering" where
  "cmp_string [] [] = Equal"
| "cmp_string [] (b # bs) = Less"
| "cmp_string (a # as) [] = Greater"
| "cmp_string (a # as) (b # bs) =
     (if (of_char a :: nat) < of_char b then Less
      else if (of_char b :: nat) < of_char a then Greater else cmp_string as bs)"

fun push_group :: "'k \<Rightarrow> 'a \<Rightarrow> 'b \<Rightarrow> ('k \<times> 'a list \<times> 'b list) list \<Rightarrow> ('k \<times> 'a list \<times> 'b list) list" where
  "push_group k x y [] = [(k, [x], [y])]"
| "push_group k x y ((k', xs, ys) # gs) =
     (if k' = k then (k', xs @ [x], ys @ [y]) # gs else (k', xs, ys) # push_group k x y gs)"

definition fanout_sources :: "'f symbolic_node list \<Rightarrow> string \<rightharpoonup> nat" where
  "fanout_sources ns =
     map_of (rev (map (\<lambda>n. (sn_id n, the (sn_node_id n)))
       (filter (\<lambda>n. Option.bind (json_get ''Func'' (sn_kind n)) (json_get ''out_base'') \<noteq> None
                    \<and> sn_node_id n \<noteq> None) ns)))"

definition free_groups_of ::
  "(string \<rightharpoonup> nat) \<Rightarrow> 'f symbolic_node \<Rightarrow> ((string \<times> nat) \<times> string list \<times> nat list) list \<Rightarrow>
   ((string \<times> nat) \<times> string list \<times> nat list) list" where
  "free_groups_of srcs n gs =
     (case kind_obj ''Func'' (sn_kind n) of
        None \<Rightarrow> gs
      | Some func \<Rightarrow>
          if \<not> contains_key func ''output_offset'' then gs
          else case (get_u64 ''arg'' func, sn_node_id n) of
                 (Some in_slot, Some m) \<Rightarrow>
                   fold (\<lambda>dep gs. if srcs dep = Some m then push_group (dep, m) (sn_id n) (wrap32 in_slot) gs else gs)
                     (sn_deps n) gs
               | _ \<Rightarrow> gs)"

definition pinned_node :: "string \<Rightarrow> string list \<Rightarrow> nat \<Rightarrow> 'f json \<Rightarrow> 'f symbolic_node" where
  "pinned_node nid ds m kind =
     \<lparr>sn_id = nid, sn_deps = ds, sn_node_id = Some m, sn_output_slot = None, sn_fanout = None,
      sn_placement = None, sn_barrier_group = None, sn_split = None, sn_out_weight = None, sn_kind = kind\<rparr>"

definition free_node :: "(string \<times> nat) \<times> string list \<times> nat list \<Rightarrow> 'f symbolic_node" where
  "free_node g =
     (case g of ((src, m), cs, slots) \<Rightarrow>
        pinned_node (''free_'' @ src @ ''_m'' @ show_nat m) cs m
          (variant ''FreeSlots'' [(''stream'', JArray (map jnat (remdups (sort slots))))]))"

definition inject_fanout_frees :: "'f symbolic_node list \<Rightarrow> 'f symbolic_node list" where
  "inject_fanout_frees ns =
     (let srcs = fanout_sources ns in
      if srcs = Map.empty then ns
      else ns @ sort_by (\<lambda>a b. cmp_string (sn_id a) (sn_id b))
                  (map free_node (fold (free_groups_of srcs) ns [])))"

section \<open>Replication and fan-out\<close>

definition FANOUT_CORES_RESERVED_PER_HOST :: nat where "FANOUT_CORES_RESERVED_PER_HOST = 2"

definition cap_fanout :: "nat \<Rightarrow> nat \<Rightarrow> 'f placement_hints \<Rightarrow> nat" where
  "cap_fanout n total_nodes hints =
     (if cores hints = [] then n
      else let budget = sum_list (map (\<lambda>c. max (c - FANOUT_CORES_RESERVED_PER_HOST) 1)
                          (List.map_filter (map_of (cores hints)) (hosts total_nodes)))
           in if budget = 0 then n else min n budget)"

fun hand_out :: "nat list \<Rightarrow> nat \<Rightarrow> nat list \<Rightarrow> nat list" where
  "hand_out [] remainder counts = counts"
| "hand_out (i # is) remainder counts =
     (if remainder = 0 then counts else hand_out is (remainder - 1) (counts[i := counts ! i + 1]))"

definition usize_sub :: "nat \<Rightarrow> nat \<Rightarrow> nat" where
  "usize_sub a b = (if b \<le> a then a - b else a + 18446744073709551616 - b)"

definition apportion_fanout :: "'f f64_ops \<Rightarrow> nat \<Rightarrow> nat \<Rightarrow> 'f placement_hints \<Rightarrow> nat list" where
  "apportion_fanout ops n total_nodes hints =
     (if total_nodes \<le> 1 then replicate total_nodes n
      else let caps0 = map (\<lambda>m. unwrap_or (f_of_nat ops 0) (map_of (capacity hints) m)) (hosts total_nodes);
               caps = (if f_le ops (f_sum ops caps0) (f_of_nat ops 0)
                       then replicate total_nodes (f_of_nat ops 1) else caps0);
               sum = f_sum ops caps;
               raw = map (\<lambda>c. f_mul ops (f_div ops c sum) (f_of_nat ops n)) caps;
               counts = map (\<lambda>r. f_to_usize ops (f_floor ops r)) raw;
               remainder = usize_sub n (sum_list counts);
               frac = (\<lambda>i. f_sub ops (raw ! i) (f_floor ops (raw ! i)));
               order = sort_by (\<lambda>a b. cmp_or_equal ops (frac b) (frac a)) [0..<total_nodes]
           in hand_out order remainder counts)"

definition copy_id :: "string \<Rightarrow> nat \<Rightarrow> string" where
  "copy_id nid m = nid @ ''_'' @ show_nat m"

definition is_all :: "'f symbolic_node \<Rightarrow> bool" where
  "is_all n \<longleftrightarrow> sn_placement n = Some ''all''"

definition shared_input_of :: "'f symbolic_node \<Rightarrow> shared_input list" where
  "shared_input_of n =
     (case kind_obj ''Input'' (sn_kind n) of
        Some m \<Rightarrow> (case Option.bind (map_of m ''path'') as_str of
                     Some p \<Rightarrow> [\<lparr>si_path = p, si_source_node = 0\<rparr>] | None \<Rightarrow> [])
      | None \<Rightarrow> [])"

definition expand_all_node ::
  "'f f64_ops \<Rightarrow> nat \<Rightarrow> 'f placement_hints \<Rightarrow> string set \<Rightarrow> 'f symbolic_node \<Rightarrow> 'f symbolic_node list" where
  "expand_all_node ops total_nodes hints templates n =
     (if is_all n then
        (let counts = map_option (\<lambda>k. apportion_fanout ops (cap_fanout k total_nodes hints) total_nodes hints) (sn_fanout n)
         in map (\<lambda>m. n\<lparr>sn_id := copy_id (sn_id n) m, sn_node_id := Some m, sn_placement := None,
                       sn_fanout := (case counts of Some cs \<Rightarrow> Some (cs ! m) | None \<Rightarrow> sn_fanout n),
                       sn_deps := map (\<lambda>d. if d \<in> templates then copy_id d m else d) (sn_deps n)\<rparr>)
              (hosts total_nodes))
      else [n\<lparr>sn_deps := concat (map (\<lambda>d. if d \<in> templates
                                        then (case sn_node_id n of
                                                Some m \<Rightarrow> [copy_id d m]
                                              | None \<Rightarrow> map (copy_id d) (hosts total_nodes))
                                        else [d]) (sn_deps n))\<rparr>])"

definition expand_all_placements ::
  "'f f64_ops \<Rightarrow> 'f symbolic_node list \<Rightarrow> nat \<Rightarrow> 'f placement_hints \<Rightarrow> 'f symbolic_node list \<times> shared_input list" where
  "expand_all_placements ops ns total_nodes hints =
     (let templates = sn_id ` set (filter is_all ns) in
      if templates = {} then (ns, [])
      else (concat (map (expand_all_node ops total_nodes hints templates) ns),
            concat (map shared_input_of (filter is_all ns))))"

text \<open>The worker ids of a template; a later template of the same id wins in \<open>expansions\<close>.\<close>

definition worker_ids_of :: "'f symbolic_node \<Rightarrow> string list" where
  "worker_ids_of n = (case sn_fanout n of Some k \<Rightarrow> map (copy_id (sn_id n)) [0..<k] | None \<Rightarrow> [])"

definition expansions :: "'f symbolic_node list \<Rightarrow> string \<rightharpoonup> string list" where
  "expansions ns = map_of (rev (map (\<lambda>n. (sn_id n, worker_ids_of n)) (filter (\<lambda>n. sn_fanout n \<noteq> None) ns)))"

definition fanout_copies :: "'f symbolic_node \<Rightarrow> 'f symbolic_node list" where
  "fanout_copies n =
     (if sn_fanout n \<noteq> None then map (\<lambda>i. n\<lparr>sn_id := i, sn_fanout := None\<rparr>) (worker_ids_of n) else [n])"

definition rewrite_deps :: "(string \<rightharpoonup> string list) \<Rightarrow> string list \<Rightarrow> string list" where
  "rewrite_deps ex ds = concat (map (\<lambda>d. case ex d of Some ids \<Rightarrow> ids | None \<Rightarrow> [d]) ds)"

definition expand_fanout :: "'f symbolic_node list \<Rightarrow> 'f symbolic_node list \<times> string set" where
  "expand_fanout ns =
     (map (\<lambda>n. n\<lparr>sn_deps := rewrite_deps (expansions ns) (sn_deps n)\<rparr>) (concat (map fanout_copies ns)),
      (\<Union>n \<in> set ns. set (worker_ids_of n)))"

section \<open>Stream pipelines across hosts\<close>

definition stream_pipeline_kind :: "nat \<Rightarrow> 'f json list \<Rightarrow> 'f json option \<Rightarrow> 'f json option \<Rightarrow> 'f json" where
  "stream_pipeline_kind rounds stages recv send =
     variant ''StreamPipeline''
       ([(''rounds'', jnat rounds), (''stages'', JArray stages)]
        @ (case recv of Some r \<Rightarrow> [(''rdma_recv'', r)] | None \<Rightarrow> [])
        @ (case send of Some r \<Rightarrow> [(''rdma_send'', r)] | None \<Rightarrow> []))"

definition boundary_cost :: "'f f64_ops \<Rightarrow> 'f json \<Rightarrow> 'f" where
  "boundary_cost ops stage =
     (let s = Option.bind (json_get ''split'' stage) as_str in
      if s = Some ''avoid'' then f_infinity ops
      else if s = Some ''prefer'' then f_of_nat ops 0
      else unwrap_or (f_of_nat ops 1) (Option.bind (json_get ''out_weight'' stage) (as_f64 ops)))"

definition choose_cuts :: "'f f64_ops \<Rightarrow> 'f json list \<Rightarrow> nat \<Rightarrow> nat list" where
  "choose_cuts ops stages m =
     (if m \<le> 1 \<or> length stages < 2 then []
      else let cand = filter (\<lambda>(k, c). f_is_finite ops c)
                        (map (\<lambda>k. (k, boundary_cost ops (stages ! k))) [0..<length stages - 1]);
               srt = sort_by (\<lambda>a b. ordering_then (cmp_or_equal ops (snd a) (snd b)) (cmp_nat (fst a) (fst b))) cand
           in sort (map fst (take (m - 1) srt)))"

definition machine_order :: "'f f64_ops \<Rightarrow> nat \<Rightarrow> 'f placement_hints \<Rightarrow> nat list" where
  "machine_order ops total_nodes hints =
     (let cap = (\<lambda>m. unwrap_or (f_of_nat ops 0) (map_of (capacity hints) m))
      in 0 # sort_by (\<lambda>a b. ordering_then (cmp_or_equal ops (cap b) (cap a)) (cmp_nat a b)) [1..<wrap32 total_nodes])"

definition raw_cuts ::
  "'f f64_ops \<Rightarrow> (string \<times> 'f json) list \<Rightarrow> 'f json list \<Rightarrow> nat \<Rightarrow> string \<Rightarrow> part_err + nat list option" where
  "raw_cuts ops sp stages total_nodes who =
     (case map_of sp ''cut_after'' of
        Some ca \<Rightarrow>
          (case ca of
             JNumber _ \<Rightarrow> Inr (Some (case as_u64 ca of Some k \<Rightarrow> [k] | None \<Rightarrow> []))
           | JArray a \<Rightarrow> Inr (Some (List.map_filter as_u64 a))
           | _ \<Rightarrow> Inl (CutNotInteger who))
      | None \<Rightarrow>
          (case get_u64 ''segments'' sp of
             Some m \<Rightarrow> if m \<le> 1 then Inr None
                       else Inr (Some (choose_cuts ops stages (min (min m total_nodes) (length stages))))
           | None \<Rightarrow> Inr None))"

definition cut_points_for ::
  "'f f64_ops \<Rightarrow> (string \<times> 'f json) list \<Rightarrow> nat \<Rightarrow> string \<Rightarrow> part_err + nat list option" where
  "cut_points_for ops sp total_nodes who =
     (case Option.bind (map_of sp ''stages'') as_array of
        None \<Rightarrow> Inr None
      | Some stages \<Rightarrow>
          (case raw_cuts ops sp stages total_nodes who of
             Inl e \<Rightarrow> Inl e
           | Inr None \<Rightarrow> Inr None
           | Inr (Some cs) \<Rightarrow>
               (let cuts = remdups (sort cs) in
                if cuts = [] then Inr None
                else if length stages \<le> last cuts + 1 then Inl (CutNoStages who)
                else if total_nodes < length cuts + 1 then Inl (CutTooManySegments who)
                else Inr (Some cuts))))"

text \<open>Stage ranges \<open>[lo, hi)\<close> of the segments.\<close>

fun segment_bounds :: "nat \<Rightarrow> nat list \<Rightarrow> nat \<Rightarrow> (nat \<times> nat) list" where
  "segment_bounds lo [] n = [(lo, n)]"
| "segment_bounds lo (c # cuts) n = (lo, c + 1) # segment_bounds (c + 1) cuts n"

definition arg1_of :: "'f json \<Rightarrow> nat option" where
  "arg1_of stage = map_option wrap32 (Option.bind (json_get ''arg1'' stage) as_u64)"

definition lane :: "nat \<Rightarrow> nat \<Rightarrow> string \<Rightarrow> (string \<times> 'f json) list \<Rightarrow> 'f json" where
  "lane peer slot kind extra = JObject ([(''peer'', jnat peer), (''slot'', jnat slot), (''slot_kind'', JString kind)] @ extra)"

definition segment_id :: "string \<Rightarrow> nat \<Rightarrow> string" where
  "segment_id nid s = nid @ ''__s'' @ show_nat s"

text \<open>The segments; \<open>None\<close> stands for a missing \<open>arg1\<close> at a boundary.\<close>

definition segment_node ::
  "'f symbolic_node \<Rightarrow> nat \<Rightarrow> 'f json list \<Rightarrow> nat list \<Rightarrow> nat list \<Rightarrow> nat \<Rightarrow> nat \<Rightarrow> 'f symbolic_node option" where
  "segment_node n rounds stages cuts machines return_slot s =
     (let (lo, hi) = segment_bounds 0 cuts (length stages) ! s;
          recv = (if 0 < s then map_option (\<lambda>sl. Some (lane (machines ! (s - 1)) sl ''Stream'' [])) (arg1_of (stages ! (cuts ! (s - 1))))
                  else Some None);
          send = (if s < length cuts
                  then map_option (\<lambda>sl. lane (machines ! (s + 1)) sl ''Stream'' [(''free_after'', JBool True)]) (arg1_of (stages ! (cuts ! s)))
                  else Some (lane 0 return_slot ''Io'' [(''free_after'', JBool True)]))
      in Option.bind recv (\<lambda>r. map_option (\<lambda>sd.
           pinned_node (segment_id (sn_id n) s) (if s = 0 then sn_deps n else []) (machines ! s)
             (stream_pipeline_kind rounds (take (hi - lo) (drop lo stages)) r (Some sd))) send))"

fun all_some :: "'a option list \<Rightarrow> 'a list option" where
  "all_some [] = Some []"
| "all_some (x # xs) = Option.bind x (\<lambda>v. map_option ((#) v) (all_some xs))"

definition split_node ::
  "'f symbolic_node \<Rightarrow> nat list \<Rightarrow> nat list \<Rightarrow> part_err + 'f symbolic_node list \<times> nat \<times> nat" where
  "split_node n cuts machines =
     (case kind_obj ''StreamPipeline'' (sn_kind n) of
        None \<Rightarrow> Inl PartPanic
      | Some sp \<Rightarrow>
          (case get_u64 ''rounds'' sp of
             None \<Rightarrow> Inl (MissingRounds (sn_id n))
           | Some rounds \<Rightarrow>
               (case Option.bind (map_of sp ''stages'') as_array of
                  None \<Rightarrow> Inl PartPanic
                | Some stages \<Rightarrow>
                    (case (if stages = [] then None else arg1_of (last stages)) of
                       None \<Rightarrow> Inl (MissingArg1 (sn_id n))
                     | Some return_slot \<Rightarrow>
                         (case all_some (map (segment_node n rounds stages cuts machines return_slot) [0..<length cuts + 1]) of
                            None \<Rightarrow> Inl (MissingArg1 (sn_id n))
                          | Some segs \<Rightarrow> Inr (segs, return_slot, machines ! length cuts))))))"

fun find_cuts :: "'f f64_ops \<Rightarrow> nat \<Rightarrow> 'f symbolic_node list \<Rightarrow> (string \<rightharpoonup> nat list) \<Rightarrow> part_err + (string \<rightharpoonup> nat list)" where
  "find_cuts ops total_nodes [] m = Inr m"
| "find_cuts ops total_nodes (n # ns) m =
     (case kind_obj ''StreamPipeline'' (sn_kind n) of
        None \<Rightarrow> find_cuts ops total_nodes ns m
      | Some sp \<Rightarrow>
          (case cut_points_for ops sp total_nodes (sn_id n) of
             Inl e \<Rightarrow> Inl e
           | Inr None \<Rightarrow> find_cuts ops total_nodes ns m
           | Inr (Some cuts) \<Rightarrow> find_cuts ops total_nodes ns (m(sn_id n \<mapsto> cuts))))"

text \<open>What the sinks need of a split pipeline: return slot, last machine, its dependencies, its rounds.\<close>

type_synonym split_meta = "string \<rightharpoonup> nat \<times> nat \<times> string list"

fun split_pass ::
  "(string \<rightharpoonup> nat list) \<Rightarrow> nat list \<Rightarrow> 'f symbolic_node list \<Rightarrow> 'f symbolic_node list \<Rightarrow> split_meta \<Rightarrow>
   part_err + 'f symbolic_node list \<times> split_meta" where
  "split_pass to_split machines [] out meta = Inr (out, meta)"
| "split_pass to_split machines (n # ns) out meta =
     (case to_split (sn_id n) of
        None \<Rightarrow> split_pass to_split machines ns out meta
      | Some cuts \<Rightarrow>
          (case split_node n cuts machines of
             Inl e \<Rightarrow> Inl e
           | Inr (segs, return_slot, last_machine) \<Rightarrow>
               split_pass to_split machines ns (out @ segs)
                 (meta(sn_id n \<mapsto> (return_slot, last_machine, sn_deps n)))))"

definition rounds_of :: "'f symbolic_node list \<Rightarrow> string \<Rightarrow> nat" where
  "rounds_of out pipe_id =
     unwrap_or 0 (Option.bind (find (\<lambda>n. sn_id n = segment_id pipe_id 0) out) (\<lambda>n.
       Option.bind (kind_obj ''StreamPipeline'' (sn_kind n)) (get_u64 ''rounds'')))"

definition sink_node :: "'f symbolic_node \<Rightarrow> nat \<Rightarrow> nat \<times> nat \<times> string list \<Rightarrow> 'f json list \<Rightarrow> 'f symbolic_node" where
  "sink_node n rounds meta paths =
     (case meta of (return_slot, last_machine, seg0_deps) \<Rightarrow>
        pinned_node (sn_id n) seg0_deps 0 (variant ''StreamOutput''
          [(''rounds'', jnat rounds), (''slot'', jnat return_slot), (''slot_kind'', JString ''Io''), (''binary'', JBool True),
           (''rdma_recv'', lane last_machine return_slot ''Io'' []), (''paths'', JArray paths)]))"

fun sink_pass ::
  "(string \<rightharpoonup> nat list) \<Rightarrow> split_meta \<Rightarrow> 'f symbolic_node list \<Rightarrow> 'f symbolic_node list \<Rightarrow> part_err + 'f symbolic_node list" where
  "sink_pass to_split meta [] out = Inr out"
| "sink_pass to_split meta (n # ns) out =
     (if to_split (sn_id n) \<noteq> None then sink_pass to_split meta ns out
      else case (find (\<lambda>d. meta d \<noteq> None) (sn_deps n), kind_obj ''Output'' (sn_kind n)) of
             (Some pipe_id, Some out_obj) \<Rightarrow>
               (case Option.bind (map_of out_obj ''paths'') as_array of
                  Some (p # ps) \<Rightarrow>
                    sink_pass to_split meta ns (out @ [sink_node n (rounds_of out pipe_id) (the (meta pipe_id)) (p # ps)])
                | _ \<Rightarrow> Inl (MissingPaths (sn_id n)))
           | _ \<Rightarrow> sink_pass to_split meta ns (out @ [n]))"

definition split_stream_pipelines ::
  "'f f64_ops \<Rightarrow> 'f symbolic_node list \<Rightarrow> nat \<Rightarrow> 'f placement_hints \<Rightarrow> part_err + 'f symbolic_node list" where
  "split_stream_pipelines ops ns total_nodes hints =
     (case find_cuts ops total_nodes ns Map.empty of
        Inl e \<Rightarrow> Inl e
      | Inr to_split \<Rightarrow>
          if to_split = Map.empty then Inr ns
          else if total_nodes < 2 then Inl CutNeedsTwoNodes
          else case split_pass to_split (machine_order ops total_nodes hints) ns [] Map.empty of
                 Inl e \<Rightarrow> Inl e
               | Inr (out, meta) \<Rightarrow> sink_pass to_split meta ns out)"

section \<open>Data-parallel input slices\<close>

definition worker_weights :: "'f f64_ops \<Rightarrow> 'f symbolic_node list \<Rightarrow> nat \<Rightarrow> string set \<Rightarrow> 'f list" where
  "worker_weights ops ns total_nodes workers =
     fold (\<lambda>n w. case sn_node_id n of
                   Some m \<Rightarrow> if sn_id n \<in> workers \<and> m < total_nodes
                             then w[m := f_add ops (w ! m) (f_of_nat ops 1)] else w
                 | None \<Rightarrow> w)
       ns (replicate total_nodes (f_of_nat ops 0))"

definition slice_weights :: "'f f64_ops \<Rightarrow> 'f symbolic_node list \<Rightarrow> nat \<Rightarrow> string set \<Rightarrow> 'f list" where
  "slice_weights ops ns total_nodes workers =
     (let w = worker_weights ops ns total_nodes workers
      in if list_all (\<lambda>x. f_eq ops x (f_of_nat ops 0)) w then map (\<lambda>_. f_of_nat ops 1) w else w)"

definition prefix_sums :: "'f f64_ops \<Rightarrow> 'f list \<Rightarrow> nat \<Rightarrow> 'f" where
  "prefix_sums ops w m = f_sum ops (take m w)"

definition slice_node ::
  "'f f64_ops \<Rightarrow> nat \<Rightarrow> string set \<Rightarrow> 'f list \<Rightarrow> 'f symbolic_node \<Rightarrow> 'f symbolic_node" where
  "slice_node ops total_nodes shared_paths w n =
     (case (sn_node_id n, kind_obj ''Input'' (sn_kind n)) of
        (Some m, Some inp) \<Rightarrow>
          (let is_shared = (case Option.bind (map_of inp ''path'') as_str of Some p \<Rightarrow> p \<in> shared_paths | None \<Rightarrow> False);
               special = contains_key inp ''chunk_bytes'' \<or> contains_key inp ''binary'';
               replicate = unwrap_or False (Option.bind (map_of inp ''replicate'') as_bool)
           in if \<not> is_shared \<or> special \<or> replicate \<or> total_nodes \<le> m then n
              else n\<lparr>sn_kind := variant ''Input'' (obj_insert ''slice''
                     (JArray [JNumber (Float (f_div ops (prefix_sums ops w m) (f_sum ops w))),
                              JNumber (Float (f_div ops (prefix_sums ops w (m + 1)) (f_sum ops w)))]) inp)\<rparr>)
      | _ \<Rightarrow> n)"

definition assign_input_slices ::
  "'f f64_ops \<Rightarrow> 'f symbolic_node list \<Rightarrow> nat \<Rightarrow> string set \<Rightarrow> string set \<Rightarrow> 'f symbolic_node list" where
  "assign_input_slices ops ns total_nodes workers shared_paths =
     (if total_nodes \<le> 1 \<or> shared_paths = {} then ns
      else let w = slice_weights ops ns total_nodes workers
           in if f_eq ops (f_sum ops w) (f_of_nat ops 0) then ns
              else map (slice_node ops total_nodes shared_paths w) ns)"

section \<open>Correctness of the pinning pass\<close>

definition pins_only :: "nat \<Rightarrow> 'f symbolic_node list \<Rightarrow> 'f symbolic_node list \<Rightarrow> bool" where
  "pins_only c ns ns' \<longleftrightarrow>
     list_all2 (\<lambda>n n'. n' = n \<or> sn_node_id n = None \<and> n' = n\<lparr>sn_node_id := Some c\<rparr>) ns ns'"

lemma pins_only_nth:
  "pins_only c ns ns' \<Longrightarrow> i < length ns \<Longrightarrow>
   ns' ! i = ns ! i \<or> sn_node_id (ns ! i) = None \<and> ns' ! i = (ns ! i)\<lparr>sn_node_id := Some c\<rparr>"
  by (auto simp: pins_only_def list_all2_conv_all_nth)

lemma pin_loop_spec:
  assumes "\<And>d j. idx d = Some j \<Longrightarrow> j < length ns" "set stack \<subseteq> {..<length ns}" "finite visited"
    and "\<And>i. i \<in> visited \<Longrightarrow> i < length ns \<Longrightarrow> sn_node_id (ns ! i) \<noteq> None"
  shows "\<exists>ns'. pin_loop idx c stack visited ns = Some ns' \<and> pins_only c ns ns'
    \<and> (\<forall>i \<in> set stack. sn_node_id (ns' ! i) \<noteq> None)"
  using assms
proof (induction "2 * card ({..<length ns} - visited) + length stack" arbitrary: stack visited ns rule: less_induct)
  case less
  show ?case
  proof (cases stack)
    case Nil
    then show ?thesis by (simp add: pin_loop.simps pins_only_def list_all2_same)
  next
    case (Cons i rest)
    have i: "i < length ns" using less.prems(2) Cons by simp
    show ?thesis
    proof (cases "i \<in> visited")
      case True
      have "\<exists>ns'. pin_loop idx c rest visited ns = Some ns' \<and> pins_only c ns ns' \<and> (\<forall>i \<in> set rest. sn_node_id (ns' ! i) \<noteq> None)"
        using less.prems Cons by (intro less.hyps) auto
      then obtain ns' where ns': "pin_loop idx c rest visited ns = Some ns'" "pins_only c ns ns'" "\<forall>i \<in> set rest. sn_node_id (ns' ! i) \<noteq> None"
        by blast
      have "sn_node_id (ns' ! i) \<noteq> None" using pins_only_nth [OF ns'(2) i] less.prems(4) [OF True i] by auto
      then show ?thesis using ns' Cons True by (auto simp: pin_loop.simps)
    next
      case False
      define ns1 where "ns1 = (if sn_node_id (ns ! i) = None then ns[i := (ns ! i)\<lparr>sn_node_id := Some c\<rparr>] else ns)"
      define nxt where "nxt = (case sn_deps (ns ! i) of [d] \<Rightarrow> (case idx d of Some j \<Rightarrow> [j] | None \<Rightarrow> []) | _ \<Rightarrow> [])"
      have len: "length ns1 = length ns" by (simp add: ns1_def)
      have nxt: "length nxt \<le> 1" "set nxt \<subseteq> {..<length ns}"
        using less.prems(1) by (auto simp: nxt_def split: list.splits option.splits)
      have "{..<length ns} - visited = insert i ({..<length ns} - insert i visited)" using False i by auto
      then have card: "card ({..<length ns} - visited) = Suc (card ({..<length ns} - insert i visited))"
        by (metis Diff_iff card_insert_disjoint finite_Diff finite_lessThan insertI1)
      have node1: "sn_node_id (ns1 ! j) \<noteq> None" if "j \<in> insert i visited" "j < length ns" for j
        using that less.prems(4) i by (auto simp: ns1_def nth_list_update)
      have "\<exists>ns'. pin_loop idx c (nxt @ rest) (insert i visited) ns1 = Some ns' \<and> pins_only c ns1 ns'
          \<and> (\<forall>i \<in> set (nxt @ rest). sn_node_id (ns' ! i) \<noteq> None)"
        using card nxt less.prems(1-3) node1 Cons unfolding len [symmetric]
        by (intro less.hyps) (auto simp: len)
      then obtain ns' where ns': "pin_loop idx c (nxt @ rest) (insert i visited) ns1 = Some ns'" "pins_only c ns1 ns'"
        "\<forall>i \<in> set (nxt @ rest). sn_node_id (ns' ! i) \<noteq> None" by blast
      have "pin_loop idx c stack visited ns = Some ns'"
        using ns'(1) False Cons by (subst pin_loop.simps) (simp add: Let_def ns1_def nxt_def)
      moreover have "pins_only c ns ns'"
        unfolding pins_only_def list_all2_conv_all_nth
      proof (intro conjI allI impI)
        show "length ns = length ns'" using ns'(2) len by (simp add: pins_only_def list_all2_lengthD)
        fix j
        assume j: "j < length ns"
        show "ns' ! j = ns ! j \<or> sn_node_id (ns ! j) = None \<and> ns' ! j = (ns ! j)\<lparr>sn_node_id := Some c\<rparr>"
          using pins_only_nth [OF ns'(2), of j] j len by (cases "j = i") (auto simp: ns1_def split: if_splits)
      qed
      moreover have "sn_node_id (ns' ! i) \<noteq> None"
        using pins_only_nth [OF ns'(2), of i] node1 [of i] i len by auto
      ultimately show ?thesis using ns'(3) Cons by auto
    qed
  qed
qed

section \<open>Correctness of the fan-out apportionment\<close>

lemma hand_out_length [simp]: "length (hand_out is r counts) = length counts"
  by (induction "is" r counts rule: hand_out.induct) auto

lemma hand_out_sum:
  "set is \<subseteq> {..<length counts} \<Longrightarrow> r \<le> length is \<Longrightarrow> sum_list (hand_out is r counts) = sum_list counts + r"
proof (induction "is" r counts rule: hand_out.induct)
  case (2 i "is" r counts)
  have "sum_list (counts[i := counts ! i + 1]) = sum_list counts + 1"
    using 2(2) by (simp add: sum_list_update)
  then show ?case using 2 by auto
qed auto

lemma hand_out_nth:
  "distinct is \<Longrightarrow> i < length counts \<Longrightarrow> set is \<subseteq> {..<length counts} \<Longrightarrow>
   hand_out is r counts ! i = counts ! i + (if i \<in> set (take r is) then 1 else 0)"
proof (induction "is" r counts rule: hand_out.induct)
  case (2 j "is" r counts)
  then show ?case by (cases r) (auto simp: nth_list_update dest: in_set_takeD)
qed simp

lemma sum_floor_bounds:
  fixes raw :: "rat list"
  assumes "\<And>r. r \<in> set raw \<Longrightarrow> 0 \<le> r" "sum_list raw = of_nat n"
  shows "sum_list (map (\<lambda>r. nat \<lfloor>r\<rfloor>) raw) \<le> n" "n \<le> sum_list (map (\<lambda>r. nat \<lfloor>r\<rfloor>) raw) + length raw"
proof -
  have "of_nat (sum_list (map (\<lambda>r. nat \<lfloor>r\<rfloor>) raw)) \<le> sum_list raw
      \<and> sum_list raw \<le> of_nat (sum_list (map (\<lambda>r. nat \<lfloor>r\<rfloor>) raw) + length raw)"
    using assms(1)
  proof (induction raw)
    case (Cons r raw)
    have "of_nat (nat \<lfloor>r\<rfloor>) = (of_int \<lfloor>r\<rfloor> :: rat)" using Cons.prems [of r] by simp
    moreover have "of_int \<lfloor>r\<rfloor> \<le> r" "r \<le> of_int \<lfloor>r\<rfloor> + 1" by linarith+
    ultimately show ?case using Cons.IH Cons.prems by (auto intro: add_mono)
  qed simp
  then show "sum_list (map (\<lambda>r. nat \<lfloor>r\<rfloor>) raw) \<le> n" "n \<le> sum_list (map (\<lambda>r. nat \<lfloor>r\<rfloor>) raw) + length raw"
    unfolding assms(2) by (simp_all only: of_nat_le_iff)
qed

lemma sorted_sort_by:
  fixes g :: "'a \<Rightarrow> 'b :: linorder"
  assumes "\<And>x y. cmp x y = Greater \<longleftrightarrow> g y < g x"
  shows "sorted (map g (sort_by cmp xs))"
proof (induction xs)
  case (Cons x xs)
  have "sorted (map g ys) \<Longrightarrow> sorted (map g (insert_by cmp x ys)) \<and> set (insert_by cmp x ys) = insert x (set ys)" for ys
    by (induction ys) (auto simp: assms not_less)
  then show ?case using Cons by simp
qed simp

text \<open>
  Handing out a whole number of units in order of decreasing fractions that add up to it never
  reaches an entry without a fraction.
\<close>

lemma top_fractions:
  fixes fr :: "nat \<Rightarrow> rat"
  assumes "distinct order" "sorted (map (\<lambda>i. - fr i) order)" "\<And>i. i \<in> set order \<Longrightarrow> 0 \<le> fr i \<and> fr i < 1"
    and "(\<Sum>i\<leftarrow>order. fr i) = of_nat r" "i \<in> set (take r order)"
  shows "0 < fr i"
proof (rule ccontr)
  assume "\<not> 0 < fr i"
  obtain k where k: "k < r" "k < length order" "order ! k = i" using assms(5) by (auto simp: in_set_conv_nth)
  then have z: "fr i = 0" using \<open>\<not> 0 < fr i\<close> assms(3) [of i] nth_mem by fastforce
  have "fr (order ! j) = 0" if "k \<le> j" "j < length order" for j
    using sorted_nth_mono [OF assms(2), of k j] that k z assms(3) [of "order ! j"] by fastforce
  then have "\<forall>x \<in> set (drop k order). fr x = 0"
    by (auto simp: in_set_conv_nth)
  then have "(\<Sum>i\<leftarrow>drop k order. fr i) = 0"
    by (metis (no_types, lifting) map_eq_conv sum_list_0)
  then have "of_nat r = (\<Sum>i\<leftarrow>take k order. fr i)"
    using assms(4) by (metis add.right_neutral append_take_drop_id map_append sum_list_append)
  also have "\<dots> \<le> (\<Sum>i\<leftarrow>take k order. 1)"
    using assms(3) by (intro sum_list_mono) (auto dest: in_set_takeD less_imp_le)
  finally show False using k by (simp add: sum_list_triv)
qed

lemma rat_ops_sel:
  "f_of_nat rat_ops k = of_nat k" "f_add rat_ops a b = a + b" "f_sub rat_ops a b = a - b" "f_mul rat_ops a b = a * b"
  "f_div rat_ops a b = a / b" "f_lt rat_ops a b = (a < b)" "f_eq rat_ops a b = (a = b)" "f_floor rat_ops a = of_int \<lfloor>a\<rfloor>"
  "f_to_usize rat_ops a = nat \<lfloor>a\<rfloor>" "f_le rat_ops a b = (a \<le> b)"
  by (simp_all only: rat_ops_def f64_ops.simps f_le_def order_le_less)

lemma f_sum_rat: "f_sum rat_ops xs = sum_list xs"
proof -
  have "foldl (+) a xs = a + sum_list xs" for a :: rat by (induction xs arbitrary: a) (auto simp: algebra_simps)
  then show ?thesis by (simp add: f_sum_def rat_ops_def)
qed

text \<open>The share of each host in exact arithmetic: all equal when the capacities add up to nothing.\<close>

definition share :: "nat \<Rightarrow> rat placement_hints \<Rightarrow> nat \<Rightarrow> rat" where
  "share total_nodes hints m =
     (let cap = (\<lambda>m. unwrap_or 0 (map_of (capacity hints) m)); s = (\<Sum>i < total_nodes. cap i)
      in if s \<le> 0 then 1 / of_nat total_nodes else cap m / s)"

text \<open>Hosts by decreasing fraction of their raw share.\<close>

definition by_fraction :: "rat list \<Rightarrow> nat list" where
  "by_fraction raw =
     sort_by (\<lambda>a b. cmp_or_equal rat_ops (raw ! b - of_int \<lfloor>raw ! b\<rfloor>) (raw ! a - of_int \<lfloor>raw ! a\<rfloor>)) [0..<length raw]"

lemma largest_remainder:
  fixes raw :: "rat list"
  assumes "\<forall>r \<in> set raw. 0 \<le> r" "sum_list raw = of_nat n"
  defines "counts \<equiv> map (\<lambda>r. nat \<lfloor>r\<rfloor>) raw"
  shows "sum_list (hand_out (by_fraction raw) (usize_sub n (sum_list counts)) counts) = n"
    "\<And>m. m < length raw \<Longrightarrow> \<bar>of_nat (hand_out (by_fraction raw) (usize_sub n (sum_list counts)) counts ! m) - raw ! m\<bar> < 1"
proof -
  define order where "order = by_fraction raw"
  define rest where "rest = usize_sub n (sum_list counts)"
  define fr where "fr = (\<lambda>i. raw ! i - of_int \<lfloor>raw ! i\<rfloor>)"
  have fl: "sum_list counts \<le> n" "n \<le> sum_list counts + length raw"
    unfolding counts_def by (rule sum_floor_bounds; use assms(1,2) in blast)+
  have ord: "set order = {..<length raw}" "distinct order" "length order = length raw" by (auto simp: order_def by_fraction_def)
  have lc: "length counts = length raw" by (simp add: counts_def)
  have rest: "rest = n - sum_list counts" using fl by (simp add: rest_def usize_sub_def)
  show "sum_list (hand_out (by_fraction raw) (usize_sub n (sum_list counts)) counts) = n"
    using hand_out_sum [of order counts rest] ord lc rest fl by (simp add: order_def [symmetric] rest_def [symmetric])
  have cnt: "of_nat (counts ! i) = (of_int \<lfloor>raw ! i\<rfloor> :: rat)" if "i < length raw" for i
    using that assms(1) nth_mem by (simp add: counts_def)
  have "(\<Sum>i\<leftarrow>order. fr i) = (\<Sum>i < length raw. fr i)"
    using ord(2) by (simp add: sum_list_distinct_conv_sum_set ord(1))
  also have "\<dots> = (\<Sum>i < length raw. raw ! i) - (\<Sum>i < length raw. of_nat (counts ! i))"
    using cnt by (simp add: fr_def sum_subtractf)
  also have "\<dots> = of_nat n - of_nat (sum_list counts)"
    using assms(2) lc by (simp add: sum_list_sum_nth lessThan_atLeast0)
  finally have frs: "(\<Sum>i\<leftarrow>order. fr i) = of_nat rest" using fl(1) rest by (simp add: of_nat_diff)
  have srt: "sorted (map (\<lambda>i. - fr i) order)" unfolding order_def by_fraction_def
    by (rule sorted_sort_by) (auto simp: fr_def cmp_or_equal_def partial_cmp_def rat_ops_sel unwrap_or_def)
  show "\<bar>of_nat (hand_out (by_fraction raw) (usize_sub n (sum_list counts)) counts ! m) - raw ! m\<bar> < 1" if "m < length raw" for m
  proof -
    have pos: "m \<in> set (take rest order) \<Longrightarrow> 0 < fr m"
      by (rule top_fractions [OF ord(2) srt _ frs]) (auto simp: fr_def, linarith)
    have "of_nat (hand_out order rest counts ! m) - raw ! m = (if m \<in> set (take rest order) then 1 - fr m else - fr m)"
      using hand_out_nth [OF ord(2), of m counts rest] that ord(1) lc cnt [OF that] by (simp add: fr_def)
    moreover have "0 \<le> fr m" "fr m < 1" by (simp_all add: fr_def) linarith
    ultimately show ?thesis using pos by (auto simp: abs_if order_def rest_def)
  qed
qed

text \<open>The raw shares of an apportionment over several hosts.\<close>

lemma apportion_raw:
  assumes "1 < total_nodes" "total_nodes \<le> u32_max" "\<And>m c. (m, c) \<in> set (capacity hints) \<Longrightarrow> 0 \<le> c"
  obtains raw where "length raw = total_nodes" "\<forall>r \<in> set raw. 0 \<le> r" "sum_list raw = of_nat n"
    "\<forall>m < total_nodes. raw ! m = share total_nodes hints m * of_nat n"
    "apportion_fanout rat_ops n total_nodes hints = hand_out (by_fraction raw)
       (usize_sub n (sum_list (map (\<lambda>r. nat \<lfloor>r\<rfloor>) raw))) (map (\<lambda>r. nat \<lfloor>r\<rfloor>) raw)"
proof -
  define cap where "cap = (\<lambda>m. unwrap_or 0 (map_of (capacity hints) m))"
  define caps0 where "caps0 = map cap [0..<total_nodes]"
  define caps where "caps = (if sum_list caps0 \<le> 0 then replicate total_nodes 1 else caps0)"
  define raw where "raw = map (\<lambda>c. c / sum_list caps * of_nat n) caps"
  have cap_nonneg: "0 \<le> cap m" for m
    using assms(3) by (auto simp: cap_def unwrap_or_def split: option.splits dest: map_of_SomeD)
  have hosts: "hosts total_nodes = [0..<total_nodes]" using assms(2) by (simp add: hosts_def u32_max_def)
  have len: "length caps = total_nodes" by (simp add: caps_def caps0_def)
  have eq: "apportion_fanout rat_ops n total_nodes hints = hand_out (by_fraction raw)
       (usize_sub n (sum_list (map (\<lambda>r. nat \<lfloor>r\<rfloor>) raw))) (map (\<lambda>r. nat \<lfloor>r\<rfloor>) raw)"
    using assms(1) len unfolding apportion_fanout_def Let_def hosts
    by (simp add: f_sum_rat rat_ops_sel by_fraction_def raw_def caps_def caps0_def cap_def comp_def)
  have caps: "0 < sum_list caps" "\<And>c. c \<in> set caps \<Longrightarrow> 0 \<le> c"
    using assms(1) cap_nonneg by (auto simp: caps_def caps0_def sum_list_replicate split: if_splits)
  have "sum_list raw = (\<Sum>c\<leftarrow>caps. c * (of_nat n / sum_list caps))" by (simp add: raw_def)
  also have "\<dots> = of_nat n" unfolding sum_list_mult_const using caps(1) by simp
  finally have sum: "sum_list raw = of_nat n" .
  have share: "raw ! m = share total_nodes hints m * of_nat n" if "m < total_nodes" for m
  proof -
    have "(\<Sum>i < total_nodes. cap i) = sum_list caps0"
      by (simp add: caps0_def interv_sum_list_conv_sum_set_nat lessThan_atLeast0)
    then show ?thesis using that len
      by (simp add: raw_def share_def Let_def cap_def [symmetric] caps_def sum_list_replicate) (simp add: caps0_def)
  qed
  show thesis using caps sum share eq len by (intro that [of raw]) (auto simp: raw_def)
qed

section \<open>Correctness of pipeline splitting\<close>

lemma all_some_nth:
  "all_some (map f [a..<b]) = Some ys \<Longrightarrow> length ys = b - a \<and> (\<forall>i < b - a. f (a + i) = Some (ys ! i))"
proof (induction "b - a" arbitrary: a ys)
  case (Suc k)
  have ab: "[a..<b] = a # [Suc a..<b]" using Suc(2) by (simp add: upt_rec)
  obtain y ys' where ys: "f a = Some y" "all_some (map f [Suc a..<b]) = Some ys'" "ys = y # ys'"
    using Suc(3) unfolding ab by (auto split: bind_splits)
  have ih: "length ys' = b - Suc a" "\<And>i. i < b - Suc a \<Longrightarrow> f (Suc a + i) = Some (ys' ! i)"
    using Suc(1) [OF _ ys(2)] Suc(2) by auto
  have "f (a + i) = Some (ys ! i)" if "i < b - a" for i
    using that ih(2) [of "i - 1"] ys by (cases i) auto
  then show ?case using ih(1) ys(3) Suc(2) by simp
qed simp

lemma segment_bounds_spec:
  assumes "sorted_wrt (<) cuts" "\<And>c. c \<in> set cuts \<Longrightarrow> lo \<le> c \<and> c + 1 < length xs" "lo < length xs"
  shows "concat (map (\<lambda>(l, h). take (h - l) (drop l xs)) (segment_bounds lo cuts (length xs))) = drop lo xs
    \<and> (\<forall>(l, h) \<in> set (segment_bounds lo cuts (length xs)). l < h \<and> h \<le> length xs)"
  using assms
proof (induction cuts arbitrary: lo)
  case (Cons c cuts)
  have lt: "lo \<le> c" "c + 1 < length xs" "\<And>x. x \<in> set cuts \<Longrightarrow> c < x" using Cons.prems by auto
  have "concat (map (\<lambda>(l, h). take (h - l) (drop l xs)) (segment_bounds (c + 1) cuts (length xs))) = drop (c + 1) xs
      \<and> (\<forall>(l, h) \<in> set (segment_bounds (c + 1) cuts (length xs)). l < h \<and> h \<le> length xs)"
    using Cons.prems lt by (intro Cons.IH) fastforce+
  moreover have "take (c + 1 - lo) (drop lo xs) @ drop (c + 1) xs = drop lo xs"
    using lt(1) by (metis add_diff_inverse_nat append_take_drop_id drop_drop le_SucI not_less Suc_eq_plus1 add.commute)
  ultimately show ?case using lt by auto
qed simp

lemma length_segment_bounds [simp]: "length (segment_bounds lo cuts n) = Suc (length cuts)"
  by (induction cuts arbitrary: lo) auto

lemma cut_points_ok:
  assumes "cut_points_for ops sp total_nodes who = Inr (Some cuts)" "Option.bind (map_of sp ''stages'') as_array = Some stages"
  shows "sorted_wrt (<) cuts" "cuts \<noteq> []" "\<And>c. c \<in> set cuts \<Longrightarrow> c + 1 < length stages" "length cuts < total_nodes"
proof -
  obtain cs where cs: "cuts = remdups (sort cs)" "cuts \<noteq> []" "\<not> length stages \<le> last cuts + 1" "\<not> total_nodes < length cuts + 1"
    using assms unfolding cut_points_for_def by (auto simp: Let_def split: sum.splits option.splits if_splits)
  have s: "sorted cuts" "distinct cuts" unfolding cs(1) by (auto simp: sorted_remdups)
  then show "sorted_wrt (<) cuts" by (simp add: strict_sorted_iff)
  show "cuts \<noteq> []" "length cuts < total_nodes" using cs by auto
  show "c + 1 < length stages" if "c \<in> set cuts" for c
  proof -
    have "c \<le> last cuts" using that s(1) cs(2) by (metis append_butlast_last_id in_set_conv_nth length_append_singleton less_Suc_eq_le nth_append_length sorted_nth_mono le_refl less_or_eq_imp_le)
    then show ?thesis using cs(3) by simp
  qed
qed

text \<open>The stages of a segment and its lanes.\<close>

definition pipeline_field :: "string \<Rightarrow> 'f symbolic_node \<Rightarrow> 'f json option" where
  "pipeline_field k n = Option.bind (kind_obj ''StreamPipeline'' (sn_kind n)) (\<lambda>m. map_of m k)"

definition stage_list :: "'f symbolic_node \<Rightarrow> 'f json list" where
  "stage_list n = unwrap_or [] (Option.bind (pipeline_field ''stages'' n) as_array)"

lemma segment_node_kind:
  assumes "segment_node n rounds stages cuts machines rs s = Some seg"
  obtains r sd where "seg = pinned_node (segment_id (sn_id n) s) (if s = 0 then sn_deps n else []) (machines ! s)
      (stream_pipeline_kind rounds (case segment_bounds 0 cuts (length stages) ! s of (lo, hi) \<Rightarrow> take (hi - lo) (drop lo stages)) r (Some sd))"
    "0 < s \<longrightarrow> (\<exists>sl. arg1_of (stages ! (cuts ! (s - 1))) = Some sl \<and> r = Some (lane (machines ! (s - 1)) sl ''Stream'' []))"
    "s < length cuts \<longrightarrow> (\<exists>sl. arg1_of (stages ! (cuts ! s)) = Some sl
       \<and> sd = lane (machines ! (s + 1)) sl ''Stream'' [(''free_after'', JBool True)])"
  using assms that by (cases "0 < s"; cases "s < length cuts")
    (auto simp: segment_node_def Let_def split: prod.splits bind_splits)

lemma stream_pipeline_fields:
  fixes nid ds m rounds st r sd
  defines "seg \<equiv> pinned_node nid ds m (stream_pipeline_kind rounds st r (Some sd))"
  shows "stage_list seg = st" "pipeline_field ''rdma_recv'' seg = r" "pipeline_field ''rdma_send'' seg = Some sd"
    "sn_node_id seg = Some m"
  by (auto simp: seg_def stage_list_def pipeline_field_def pinned_node_def stream_pipeline_kind_def variant_def
      kind_obj_def unwrap_or_def split: option.splits)

lemma segment_node_some:
  assumes "segment_node n rounds stages cuts machines rs s = Some seg"
  shows "stage_list seg = (case segment_bounds 0 cuts (length stages) ! s of (lo, hi) \<Rightarrow> take (hi - lo) (drop lo stages))"
    "sn_node_id seg = Some (machines ! s)"
    "0 < s \<Longrightarrow> \<exists>sl. arg1_of (stages ! (cuts ! (s - 1))) = Some sl
       \<and> pipeline_field ''rdma_recv'' seg = Some (lane (machines ! (s - 1)) sl ''Stream'' [])"
    "s < length cuts \<Longrightarrow> \<exists>sl. arg1_of (stages ! (cuts ! s)) = Some sl
       \<and> pipeline_field ''rdma_send'' seg = Some (lane (machines ! (s + 1)) sl ''Stream'' [(''free_after'', JBool True)])"
  by (rule segment_node_kind [OF assms], simp add: stream_pipeline_fields)+

section \<open>Input slices\<close>

text \<open>Nodes that get a slice: copies of a shared text input that is neither chunked, binary nor replicated.\<close>

definition sliceable :: "string set \<Rightarrow> 'f symbolic_node \<Rightarrow> bool" where
  "sliceable shared_paths n \<longleftrightarrow>
     (case kind_obj ''Input'' (sn_kind n) of
        None \<Rightarrow> False
      | Some inp \<Rightarrow>
          (case Option.bind (map_of inp ''path'') as_str of Some p \<Rightarrow> p \<in> shared_paths | None \<Rightarrow> False)
          \<and> \<not> contains_key inp ''chunk_bytes'' \<and> \<not> contains_key inp ''binary''
          \<and> \<not> unwrap_or False (Option.bind (map_of inp ''replicate'') as_bool))"

definition slice_bound :: "'f f64_ops \<Rightarrow> 'f list \<Rightarrow> nat \<Rightarrow> 'f" where
  "slice_bound ops w m = f_div ops (prefix_sums ops w m) (f_sum ops w)"

definition slice_of :: "'f symbolic_node \<Rightarrow> ('f \<times> 'f) option" where
  "slice_of n = (case Option.bind (kind_obj ''Input'' (sn_kind n)) (\<lambda>m. map_of m ''slice'') of
     Some (JArray [JNumber (Float lo), JNumber (Float hi)]) \<Rightarrow> Some (lo, hi) | _ \<Rightarrow> None)"

lemma slice_of_slice_node:
  assumes "sliceable shared_paths n" "sn_node_id n = Some m" "m < total_nodes"
  shows "slice_of (slice_node ops total_nodes shared_paths w n) = Some (slice_bound ops w m, slice_bound ops w (m + 1))"
  using assms
  by (auto simp: sliceable_def slice_node_def Let_def slice_of_def slice_bound_def variant_def kind_obj_def map_of_obj_insert split: option.splits)

lemma assign_input_slices_nth:
  assumes "1 < total_nodes" "shared_paths \<noteq> {}" "w = slice_weights ops ns total_nodes workers"
    and "\<not> f_eq ops (f_sum ops w) (f_of_nat ops 0)" "i < length ns"
    and "sliceable shared_paths (ns ! i)" "sn_node_id (ns ! i) = Some m" "m < total_nodes"
  shows "slice_of (assign_input_slices ops ns total_nodes workers shared_paths ! i) = Some (slice_bound ops w m, slice_bound ops w (m + 1))"
  using assms slice_of_slice_node [OF assms(6-8)] by (simp add: assign_input_slices_def Let_def)

lemma length_worker_weights: "length (worker_weights ops ns total_nodes workers) = total_nodes"
proof -
  have "length (fold (\<lambda>n w. case sn_node_id n of
                   Some m \<Rightarrow> if sn_id n \<in> workers \<and> m < total_nodes
                             then w[m := f_add ops (w ! m) (f_of_nat ops 1)] else w
                 | None \<Rightarrow> w) ns w) = length w" for w
    by (induction ns arbitrary: w) (auto split: option.splits)
  then show ?thesis by (simp add: worker_weights_def)
qed

text \<open>The weights are counts of workers: exact, and not all zero.\<close>

lemma f64_laws_rat: "f64_laws rat_ops"
proof -
  have "(x :: rat) \<le> y \<Longrightarrow> nat \<lfloor>x\<rfloor> \<le> nat \<lfloor>y\<rfloor>" for x y by (intro nat_mono floor_mono)
  then show ?thesis
    unfolding f64_laws_def rat_ops_sel by (auto simp: divide_right_mono mult_right_mono floor_mono)
qed

lemma sum_list_update_Suc: "m < length cs \<Longrightarrow> sum_list (cs[m := cs ! m + 1]) = sum_list cs + (1 :: nat)"
  by (induction cs arbitrary: m) (auto simp: nth_Cons split: nat.splits)

lemma worker_weights_counts:
  assumes "f64_laws ops" "length ns \<le> f64_exact"
  shows "\<exists>cs. worker_weights ops ns total_nodes workers = map (f_of_nat ops) cs \<and> length cs = total_nodes \<and> sum_list cs \<le> length ns"
proof -
  let ?f = "\<lambda>n w. case sn_node_id n of
                   Some m \<Rightarrow> if sn_id n \<in> workers \<and> m < total_nodes
                             then w[m := f_add ops (w ! m) (f_of_nat ops 1)] else w
                 | None \<Rightarrow> w"
  have "\<exists>ds. fold ?f ms (map (f_of_nat ops) cs) = map (f_of_nat ops) ds \<and> length ds = total_nodes \<and> sum_list ds \<le> sum_list cs + length ms"
    if "length cs = total_nodes" "sum_list cs + length ms \<le> f64_exact" for ms cs
    using that
  proof (induction ms arbitrary: cs)
    case (Cons n ms)
    obtain ds where d: "?f n (map (f_of_nat ops) cs) = map (f_of_nat ops) ds" "length ds = total_nodes" "sum_list ds \<le> sum_list cs + 1"
    proof (cases "\<exists>m. sn_node_id n = Some m \<and> sn_id n \<in> workers \<and> m < total_nodes")
      case True
      then obtain m where m: "sn_node_id n = Some m" "sn_id n \<in> workers" "m < total_nodes" by blast
      have "cs ! m \<le> sum_list cs" using m(3) Cons.prems(1) by (intro member_le_sum_list) simp_all
      then have "f_add ops (f_of_nat ops (cs ! m)) (f_of_nat ops 1) = f_of_nat ops (cs ! m + 1)"
        using Cons.prems(2) by (intro f64_lawsD(2) [OF assms(1)]) simp
      then show thesis using m Cons.prems(1) sum_list_update_Suc [of m cs] by (intro that [of "cs[m := cs ! m + 1]"]) (auto simp: map_update)
    next
      case False
      then have "?f n (map (f_of_nat ops) cs) = map (f_of_nat ops) cs" by (cases "sn_node_id n") auto
      then show thesis using that [of cs] Cons.prems(1) by simp
    qed
    have "sum_list ds + length ms \<le> f64_exact" using d(3) Cons.prems(2) by simp
    then obtain es where "fold ?f ms (map (f_of_nat ops) ds) = map (f_of_nat ops) es" "length es = total_nodes" "sum_list es \<le> sum_list ds + length ms"
      using Cons.IH [OF d(2)] by blast
    then show ?case using d by (intro exI [of _ es]) (simp add: d(1))
  qed auto
  from this [of "replicate total_nodes 0" ns] show ?thesis using assms(2) by (simp add: worker_weights_def sum_list_replicate)
qed

lemma slice_weights_counts:
  assumes "f64_laws ops" "length ns \<le> f64_exact" "total_nodes \<le> f64_exact" "0 < total_nodes"
  shows "\<exists>cs. slice_weights ops ns total_nodes workers = map (f_of_nat ops) cs \<and> length cs = total_nodes
    \<and> 0 < sum_list cs \<and> sum_list cs \<le> f64_exact"
proof -
  obtain cs where cs: "worker_weights ops ns total_nodes workers = map (f_of_nat ops) cs" "length cs = total_nodes" "sum_list cs \<le> length ns"
    using worker_weights_counts [OF assms(1,2)] by blast
  have "c \<le> f64_exact" if "c \<in> set cs" for c using member_le_sum_list [OF that] cs(3) assms(2) by simp
  then have z: "list_all (\<lambda>x. f_eq ops x (f_of_nat ops 0)) (map (f_of_nat ops) cs) \<longleftrightarrow> (\<forall>c \<in> set cs. c = 0)"
    using f64_lawsD(1) [OF assms(1), of _ 0] by (auto simp: list_all_iff)
  show ?thesis
  proof (cases "\<forall>c \<in> set cs. c = 0")
    case True
    then have "slice_weights ops ns total_nodes workers = map (f_of_nat ops) (replicate total_nodes 1)"
      using z cs(1,2) by (simp add: slice_weights_def Let_def map_replicate_const comp_def)
    then show ?thesis using assms(3,4) by (intro exI [of _ "replicate total_nodes 1"]) (simp add: sum_list_replicate)
  next
    case False
    then have "slice_weights ops ns total_nodes workers = map (f_of_nat ops) cs" unfolding slice_weights_def Let_def cs(1) z by (simp only: if_False False)
    moreover have "sum_list cs \<noteq> 0" using False by simp
    then have "0 < sum_list cs" by linarith
    ultimately show ?thesis using cs(2) le_trans [OF cs(3) assms(2)] by blast
  qed
qed

lemma f_sum_counts:
  assumes "f64_laws ops" "sum_list cs \<le> f64_exact"
  shows "f_sum ops (map (f_of_nat ops) cs) = f_of_nat ops (sum_list cs)"
proof -
  have "foldl (f_add ops) (f_of_nat ops a) (map (f_of_nat ops) cs) = f_of_nat ops (a + sum_list cs)" if "a + sum_list cs \<le> f64_exact" for a
    using that
  proof (induction cs arbitrary: a)
    case (Cons c cs)
    then show ?case using f64_lawsD(2) [OF assms(1), of a c] Cons.IH [of "a + c"] by (simp add: add.assoc)
  qed simp
  from this [of 0] show ?thesis using assms(2) by (simp add: f_sum_def)
qed

lemma slice_bound_counts:
  assumes "f64_laws ops" "sum_list cs \<le> f64_exact"
  shows "slice_bound ops (map (f_of_nat ops) cs) m = f_div ops (f_of_nat ops (sum_list (take m cs))) (f_of_nat ops (sum_list cs))"
proof -
  have "sum_list (take m cs) + sum_list (drop m cs) = sum_list cs" by (metis append_take_drop_id sum_list_append)
  then have "sum_list (take m cs) \<le> f64_exact" using assms(2) by simp
  then show ?thesis using f_sum_counts [OF assms(1)] assms(2) by (simp add: slice_bound_def prefix_sums_def take_map)
qed

section \<open>Closure of the expansions\<close>

definition deps_closed :: "'f symbolic_node list \<Rightarrow> bool" where
  "deps_closed ns \<longleftrightarrow> (\<forall>n \<in> set ns. set (sn_deps n) \<subseteq> sn_id ` set ns)"

lemma expand_all_closed:
  assumes "deps_closed ns" "\<And>n m. n \<in> set ns \<Longrightarrow> sn_node_id n = Some m \<Longrightarrow> m \<in> set (hosts total_nodes)"
  shows "deps_closed (fst (expand_all_placements ops ns total_nodes hints))"
proof -
  define T where "T = sn_id ` set (filter is_all ns)"
  define out where "out = concat (map (expand_all_node ops total_nodes hints T) ns)"
  have copies: "copy_id d m \<in> sn_id ` set out" if d: "d \<in> T" and m: "m \<in> set (hosts total_nodes)" for d m
  proof -
    obtain t where t: "t \<in> set ns" "is_all t" "sn_id t = d" using d by (auto simp: T_def)
    then have "copy_id d m \<in> sn_id ` set (expand_all_node ops total_nodes hints T t)"
      using m by (auto simp: expand_all_node_def Let_def image_image)
    then show ?thesis using t(1) by (auto simp: out_def)
  qed
  have plain: "d \<in> sn_id ` set out" if d: "d \<in> sn_id ` set ns" "d \<notin> T" for d
  proof -
    obtain n where n: "n \<in> set ns" "sn_id n = d" using d(1) by auto
    then have "\<not> is_all n" using d(2) by (auto simp: T_def)
    then have "d \<in> sn_id ` set (expand_all_node ops total_nodes hints T n)" using n(2) by (simp add: expand_all_node_def)
    then show ?thesis using n(1) by (auto simp: out_def)
  qed
  have "set (sn_deps x) \<subseteq> sn_id ` set out" if n: "n \<in> set ns" and x: "x \<in> set (expand_all_node ops total_nodes hints T n)" for n x
  proof -
    have "d \<in> sn_id ` set out" if "d \<in> set (sn_deps n)" "d \<notin> T" for d
      using assms(1) n that plain unfolding deps_closed_def by blast
    then show ?thesis using x copies assms(2) [OF n]
      by (auto simp: expand_all_node_def Let_def split: if_splits option.splits)
  qed
  then have "deps_closed out" unfolding deps_closed_def by (auto simp: out_def)
  then show ?thesis using assms(1) by (simp add: expand_all_placements_def Let_def T_def out_def)
qed

lemma expand_fanout_closed:
  assumes "deps_closed ns"
  shows "deps_closed (fst (expand_fanout ns))"
proof -
  define out where "out = fst (expand_fanout ns)"
  have ids: "sn_id ` set out = (\<Union>n \<in> set ns. sn_id ` set (fanout_copies n))"
    by (simp add: out_def expand_fanout_def image_image image_UN)
  have dep: "set (rewrite_deps (expansions ns) [d]) \<subseteq> sn_id ` set out" if d: "d \<in> sn_id ` set ns" for d
  proof (cases "expansions ns d")
    case None
    obtain n where n: "n \<in> set ns" "sn_id n = d" using d by auto
    then have "sn_fanout n = None" using None by (force simp: expansions_def map_of_eq_None_iff)
    then have "d \<in> sn_id ` set (fanout_copies n)" using n(2) by (simp add: fanout_copies_def)
    then show ?thesis using n(1) None unfolding ids by (auto simp: rewrite_deps_def)
  next
    case (Some ws)
    then obtain n where n: "n \<in> set ns" "sn_fanout n \<noteq> None" "ws = worker_ids_of n"
      unfolding expansions_def by (auto dest!: map_of_SomeD)
    then have "set ws \<subseteq> sn_id ` set (fanout_copies n)" by (auto simp: fanout_copies_def image_image)
    then show ?thesis using n(1) Some unfolding ids by (auto simp: rewrite_deps_def)
  qed
  have "set (sn_deps x) \<subseteq> sn_id ` set out" if x: "x \<in> set out" for x
  proof -
    obtain n y where n: "n \<in> set ns" "y \<in> set (fanout_copies n)" "sn_deps x = rewrite_deps (expansions ns) (sn_deps y)"
      using x unfolding out_def expand_fanout_def by auto
    then have "sn_deps y = sn_deps n" by (auto simp: fanout_copies_def split: if_splits)
    then have "set (sn_deps y) \<subseteq> sn_id ` set ns" using assms n(1) by (auto simp: deps_closed_def)
    then have "set (rewrite_deps (expansions ns) [d]) \<subseteq> sn_id ` set out" if "d \<in> set (sn_deps y)" for d
      using dep that by blast
    then have "(\<Union>d \<in> set (sn_deps y). set (rewrite_deps (expansions ns) [d])) \<subseteq> sn_id ` set out" by (rule UN_least)
    then show ?thesis unfolding n(3) by (simp add: rewrite_deps_def)
  qed
  then show ?thesis by (auto simp: deps_closed_def out_def)
qed

section \<open>Examples\<close>

definition pin_example :: "rat symbolic_node" where
  "pin_example = (pinned_node ''out'' [] 0 (variant ''Output'' []))\<lparr>sn_node_id := None\<rparr>"

definition hints_example :: "rat placement_hints" where
  "hints_example = \<lparr>capacity = [(0, 1), (1, 3)], host_limit = [], cores = [], random = False\<rparr>"

definition split_example :: "rat symbolic_node" where
  "split_example = pinned_node ''p'' [] 0 (variant ''StreamPipeline''
     [(''rounds'', jnat 4), (''stages'', JArray (map (\<lambda>k. JObject [(''arg1'', jnat k)]) [5, 6, 7])), (''cut_after'', jnat 1)])"

lemma split_example_segs:
  "\<exists>segs rs lm. split_node split_example [1] [0, 1] = Inr (segs, rs, lm)"
  by (simp add: split_example_def pinned_node_def split_node_def variant_def kind_obj_def get_u64_def jnat_def arg1_of_def
      segment_node_def)

section \<open>Properties\<close>

text \<open>
  Capacity-aware fan-out. In exact arithmetic the worker counts of the hosts add up to the requested
  fan-out, and each host's count differs from its proportional share by less than one worker.
\<close>

lemma apportion_fanout_exact:
  assumes "0 < total_nodes" "total_nodes \<le> u32_max" "\<And>m c. (m, c) \<in> set (capacity hints) \<Longrightarrow> 0 \<le> c"
  shows "let counts = apportion_fanout rat_ops n total_nodes hints in
    length counts = total_nodes \<and> sum_list counts = n
    \<and> (\<forall>m < total_nodes. \<bar>of_nat (counts ! m) - share total_nodes hints m * of_nat n\<bar> < 1)"
proof (cases "total_nodes = 1")
  case True
  then show ?thesis by (auto simp: apportion_fanout_def share_def Let_def)
next
  case False
  obtain raw where raw: "length raw = total_nodes" "\<forall>r \<in> set raw. 0 \<le> r" "sum_list raw = of_nat n"
    "\<forall>m < total_nodes. raw ! m = share total_nodes hints m * of_nat n"
    "apportion_fanout rat_ops n total_nodes hints = hand_out (by_fraction raw)
       (usize_sub n (sum_list (map (\<lambda>r. nat \<lfloor>r\<rfloor>) raw))) (map (\<lambda>r. nat \<lfloor>r\<rfloor>) raw)"
    by (rule apportion_raw [of total_nodes hints n]) (use assms False in auto)
  show ?thesis using largest_remainder [of raw n] raw by (simp add: Let_def)
qed

text \<open>
  Splitting a stream pipeline. The accepted cut points give at most one segment per host; the segments
  are non-empty, together they are exactly the stages in order, segment k runs on the k-th
  machine, and at every boundary the sending and the receiving lane name each other's machine
  and the same slot.
\<close>

lemma segments_cover_stages:
  assumes "kind_obj ''StreamPipeline'' (sn_kind n) = Some sp" "cut_points_for ops sp total_nodes (sn_id n) = Inr (Some cuts)"
    and "split_node n cuts machines = Inr (segs, return_slot, last_machine)"
  shows "length segs = length cuts + 1 \<and> length segs \<le> total_nodes
    \<and> concat (map stage_list segs) = stage_list n \<and> (\<forall>seg \<in> set segs. stage_list seg \<noteq> [])
    \<and> (\<forall>s < length segs. sn_node_id (segs ! s) = Some (machines ! s))
    \<and> (\<forall>s < length cuts. \<exists>sl. pipeline_field ''rdma_send'' (segs ! s) = Some (lane (machines ! (s + 1)) sl ''Stream'' [(''free_after'', JBool True)])
         \<and> pipeline_field ''rdma_recv'' (segs ! (s + 1)) = Some (lane (machines ! s) sl ''Stream'' []))"
proof -
  obtain rounds stages where st: "Option.bind (map_of sp ''stages'') as_array = Some stages"
    "all_some (map (segment_node n rounds stages cuts machines return_slot) [0..<length cuts + 1]) = Some segs"
    using assms(1,3) unfolding split_node_def by (auto split: option.splits)
  note cuts = cut_points_ok [OF assms(2) st(1)]
  have segs: "length segs = length cuts + 1"
    "\<And>s. s < length cuts + 1 \<Longrightarrow> segment_node n rounds stages cuts machines return_slot s = Some (segs ! s)"
    using all_some_nth [OF st(2)] by auto
  note seg = segment_node_some [OF segs(2)]
  have "stages \<noteq> []" using cuts(2,3) by (metis length_0_conv list.set_intros(1) neq_Nil_conv not_less_zero)
  then have b: "concat (map (\<lambda>(l, h). take (h - l) (drop l stages)) (segment_bounds 0 cuts (length stages))) = stages"
    "\<forall>(l, h) \<in> set (segment_bounds 0 cuts (length stages)). l < h \<and> h \<le> length stages"
    using segment_bounds_spec [OF cuts(1), of 0 stages] cuts(3) by auto
  have map: "map stage_list segs = map (\<lambda>(l, h). take (h - l) (drop l stages)) (segment_bounds 0 cuts (length stages))"
    by (rule nth_equalityI) (auto simp: segs(1) seg(1))
  have "stage_list n = stages" using st(1) assms(1) by (simp add: stage_list_def pipeline_field_def unwrap_or_def)
  then have "concat (map stage_list segs) = stage_list n" unfolding map using b(1) by simp
  moreover have "stage_list x \<noteq> []" if "x \<in> set segs" for x
  proof -
    have "stage_list x \<in> set (map stage_list segs)" using that by simp
    then show ?thesis unfolding map using b(2) by fastforce
  qed
  moreover have "\<exists>sl. pipeline_field ''rdma_send'' (segs ! s) = Some (lane (machines ! (s + 1)) sl ''Stream'' [(''free_after'', JBool True)])
         \<and> pipeline_field ''rdma_recv'' (segs ! (s + 1)) = Some (lane (machines ! s) sl ''Stream'' [])" if "s < length cuts" for s
    using seg(4) [of s] seg(3) [of "s + 1"] that by auto
  ultimately show ?thesis using segs(1) seg(2) cuts(4) by auto
qed

text \<open>
  C36. Replication and fan-out keep the DAG closed: when every dependency names a node and explicit
  placements are hosts, every dependency of the expanded DAG names a node of it.
\<close>

theorem expansion_keeps_deps_closed:
  assumes "deps_closed ns" "\<And>n m. n \<in> set ns \<Longrightarrow> sn_node_id n = Some m \<Longrightarrow> m \<in> set (hosts total_nodes)"
  shows "deps_closed (fst (expand_fanout (fst (expand_all_placements ops ns total_nodes hints))))"
  by (rule expand_fanout_closed [OF expand_all_closed [OF assms]])

theorem expansion_keeps_deps_closed_witness:
  "deps_closed (fst (expand_fanout (fst (expand_all_placements rat_ops
     [(pin_example :: rat symbolic_node)\<lparr>sn_id := ''a'', sn_placement := Some ''all''\<rparr>, pin_example\<lparr>sn_deps := [''a'']\<rparr>] 2
     hints_example))))"
  by (rule expansion_keeps_deps_closed) (auto simp: deps_closed_def pin_example_def pinned_node_def)

text \<open>
  Pinning the convergence tail terminates, whatever the graph (cycles included); it only places
  nodes that had no placement, on the coordinator, and leaves no output node unplaced.
\<close>

lemma pin_converge_total:
  "\<exists>ns'. pin_converge_to_coordinator ns c = Some ns' \<and> pins_only c ns ns'
    \<and> (\<forall>i < length ns. json_get ''Output'' (sn_kind (ns ! i)) \<noteq> None \<longrightarrow> sn_node_id (ns' ! i) \<noteq> None)"
proof -
  have "\<exists>ns'. pin_converge_to_coordinator ns c = Some ns' \<and> pins_only c ns ns'
      \<and> (\<forall>i \<in> set (rev (filter (\<lambda>i. json_get ''Output'' (sn_kind (ns ! i)) \<noteq> None) [0..<length ns])). sn_node_id (ns' ! i) \<noteq> None)"
    unfolding pin_converge_to_coordinator_def by (rule pin_loop_spec) (auto dest: node_idx_less)
  then show ?thesis by auto
qed

end
