(* ===== verification/Splitter.thy ===== *)
theory Splitter
  imports Expansion
begin

text \<open>
  Partitioning a symbolic DAG (\<open>partition\<close> in \<open>partitioner/src/splitter.rs\<close>): validation, discovery
  of cross-machine edges, per-machine node lists with injected \<open>RemoteRecv\<close> and \<open>RemoteSend\<close>
  nodes, the ordering pass against wave-0 deadlock and the assembled output. A node of a
  machine list is a record of the fields its JSON object has; \<open>hash_order\<close> is the order in which
  the map of cross edges iterates.
\<close>

section \<open>Validation and slots\<close>

fun check_deps :: "string set \<Rightarrow> string \<Rightarrow> string list \<Rightarrow> part_err option" where
  "check_deps ids nid [] = None"
| "check_deps ids nid (d # ds) = (if d \<notin> ids then Some (UnknownDependency nid d) else check_deps ids nid ds)"

fun validate_nodes :: "string set \<Rightarrow> nat \<Rightarrow> 'f symbolic_node list \<Rightarrow> part_err option" where
  "validate_nodes ids total_nodes [] = None"
| "validate_nodes ids total_nodes (n # ns) =
     (case sn_node_id n of
        None \<Rightarrow> Some (NotPlaced (sn_id n))
      | Some m \<Rightarrow>
          if total_nodes \<le> m then Some (NodeIdRange (sn_id n) m)
          else case check_deps ids (sn_id n) (sn_deps n) of
                 Some e \<Rightarrow> Some e
               | None \<Rightarrow> validate_nodes ids total_nodes ns)"

text \<open>\<open>id_to_node\<close> and \<open>id_to_slot\<close>: the last node with an id wins.\<close>

definition id_to_node :: "'f symbolic_node list \<Rightarrow> string \<rightharpoonup> 'f symbolic_node" where
  "id_to_node ns = map_of (rev (map (\<lambda>n. (sn_id n, n)) ns))"

definition node_slot :: "'f symbolic_node \<Rightarrow> nat option" where
  "node_slot n = (case sn_output_slot n of Some s \<Rightarrow> Some s | None \<Rightarrow> output_slot (sn_kind n))"

definition id_to_slot :: "'f symbolic_node list \<Rightarrow> string \<rightharpoonup> nat" where
  "id_to_slot ns = map_of (rev (map (\<lambda>n. (sn_id n, the (node_slot n))) (filter (\<lambda>n. node_slot n \<noteq> None) ns)))"

definition first_free_slot :: "'f symbolic_node list \<Rightarrow> nat" where
  "first_free_slot ns = wrap32 (fold max (concat (map (\<lambda>n. collect_slots (sn_kind n)) ns)) 0 + 1)"

section \<open>Cross-machine edges\<close>

record cross_edge =
  ce_src_machine :: nat
  ce_src_slot :: nat
  ce_dest_machine :: nat
  ce_recv_slot :: nat

text \<open>The map of edges, keyed by source node and destination machine, in insertion order.\<close>

type_synonym edge_map = "((string \<times> nat) \<times> cross_edge) list"

definition the_machine :: "'f symbolic_node \<Rightarrow> nat" where
  "the_machine n = the (sn_node_id n)"

fun cross_deps ::
  "(string \<rightharpoonup> 'f symbolic_node) \<Rightarrow> (string \<rightharpoonup> nat) \<Rightarrow> string \<Rightarrow> nat \<Rightarrow> string list \<Rightarrow> edge_map \<times> nat \<Rightarrow>
   part_err + edge_map \<times> nat" where
  "cross_deps nodes slots nid machine [] st = Inr st"
| "cross_deps nodes slots nid machine (d # ds) (edges, nxt) =
     (case nodes d of
        None \<Rightarrow> Inl PartPanic
      | Some dep \<Rightarrow>
          if the_machine dep = machine \<or> map_of edges (d, machine) \<noteq> None
          then cross_deps nodes slots nid machine ds (edges, nxt)
          else if json_get ''Input'' (sn_kind dep) \<noteq> None then Inl (InputCrossNode d nid)
          else case slots d of
                 None \<Rightarrow> Inl (NoCrossSlot d nid)
               | Some src_slot \<Rightarrow>
                   cross_deps nodes slots nid machine ds
                     (edges @ [((d, machine), \<lparr>ce_src_machine = the_machine dep, ce_src_slot = src_slot,
                                              ce_dest_machine = machine, ce_recv_slot = nxt\<rparr>)],
                      wrap32 (nxt + 1)))"

fun cross_nodes ::
  "(string \<rightharpoonup> 'f symbolic_node) \<Rightarrow> (string \<rightharpoonup> nat) \<Rightarrow> 'f symbolic_node list \<Rightarrow> edge_map \<times> nat \<Rightarrow>
   part_err + edge_map \<times> nat" where
  "cross_nodes nodes slots [] st = Inr st"
| "cross_nodes nodes slots (n # ns) st =
     (case cross_deps nodes slots (sn_id n) (the_machine n) (sn_deps n) st of
        Inl e \<Rightarrow> Inl e
      | Inr st' \<Rightarrow> cross_nodes nodes slots ns st')"

section \<open>Kinds of the output nodes\<close>

definition cross_edge_slot_kind :: "nat \<Rightarrow> string" where
  "cross_edge_slot_kind src_slot = (if src_slot = 1 then ''Io'' else ''Stream'')"

definition resolve_output_kind :: "'f json \<Rightarrow> string list \<Rightarrow> nat \<Rightarrow> edge_map \<Rightarrow> 'f json" where
  "resolve_output_kind kind ds machine edges =
     (case kind_obj ''Output'' kind of
        None \<Rightarrow> kind
      | Some out_obj \<Rightarrow>
          (case List.map_filter (\<lambda>d. map_of edges (d, machine)) ds of
             e # _ \<Rightarrow> variant ''Output'' (obj_insert ''slot'' (jnat (ce_recv_slot e)) out_obj)
           | [] \<Rightarrow> kind))"

definition translate_func_kind :: "'f json \<Rightarrow> nat \<Rightarrow> 'f json" where
  "translate_func_kind kind n_consumers =
     (case kind_obj ''Func'' kind of
        None \<Rightarrow> kind
      | Some f \<Rightarrow>
          (let func = unwrap_or JNull (map_of f ''func'');
               arg = unwrap_or JNull (case map_of f ''wasm_arg'' of Some v \<Rightarrow> Some v | None \<Rightarrow> map_of f ''arg'');
               out = (\<lambda>a. variant ''WasmVoid'' [(''func'', func), (''arg'', a)])
           in if contains_key f ''out_base'' \<and> 0 < n_consumers
              then (case as_u64 arg of
                      Some base \<Rightarrow> out (jnat (base mod 65536 + n_consumers * 65536))
                    | None \<Rightarrow> out arg)
              else out arg))"

fun resolve_refs :: "edge_map \<Rightarrow> nat \<Rightarrow> (string \<rightharpoonup> nat) \<Rightarrow> 'f json list \<Rightarrow> part_err + nat list" where
  "resolve_refs edges machine slots [] = Inr []"
| "resolve_refs edges machine slots (j # js) =
     (case as_str j of
        None \<Rightarrow> Inl UpstreamNotString
      | Some r \<Rightarrow>
          (case (case map_of edges (r, machine) of Some e \<Rightarrow> Some (ce_recv_slot e) | None \<Rightarrow> slots r) of
             None \<Rightarrow> Inl (UpstreamNoSlot r)
           | Some slot \<Rightarrow>
               (case resolve_refs edges machine slots js of Inl e \<Rightarrow> Inl e | Inr ss \<Rightarrow> Inr (slot # ss))))"

definition resolve_upstream_nodes ::
  "'f json \<Rightarrow> nat \<Rightarrow> (string \<rightharpoonup> nat) \<Rightarrow> edge_map \<Rightarrow> part_err + 'f json" where
  "resolve_upstream_nodes kind machine slots edges =
     (case as_object kind of
        Some [(v, inner)] \<Rightarrow>
          (case as_object inner of
             None \<Rightarrow> Inr kind
           | Some m \<Rightarrow>
               (case map_of m ''upstream_nodes'' of
                  None \<Rightarrow> Inr kind
                | Some ups \<Rightarrow>
                    (case as_array ups of
                       None \<Rightarrow> Inl UpstreamNotArray
                     | Some refs \<Rightarrow>
                         (case resolve_refs edges machine slots refs of
                            Inl e \<Rightarrow> Inl e
                          | Inr resolved \<Rightarrow>
                              Inr (variant v (obj_insert ''upstream'' (JArray (map jnat resolved))
                                     (obj_remove ''upstream_nodes'' m)))))))
      | _ \<Rightarrow> Inr kind)"

section \<open>Machine lists\<close>

record 'f cluster_node =
  cn_id :: string
  cn_deps :: "string list"
  cn_kind :: "'f json"
  cn_barrier_group :: "string option"

definition recv_id :: "string \<Rightarrow> nat \<Rightarrow> string" where
  "recv_id src m = ''rr_'' @ src @ ''_from_'' @ show_nat m"

definition send_id :: "string \<Rightarrow> nat \<Rightarrow> string" where
  "send_id src m = ''rs_'' @ src @ ''_to_'' @ show_nat m"

definition remote_kind :: "string \<Rightarrow> nat \<Rightarrow> string \<Rightarrow> nat \<Rightarrow> 'f json" where
  "remote_kind v slot kind peer =
     variant v [(''slot'', jnat slot), (''slot_kind'', JString kind), (''peer'', jnat peer)]"

definition recv_node :: "(string \<times> nat) \<times> cross_edge \<Rightarrow> 'f cluster_node" where
  "recv_node ke = (case ke of ((src, dest), e) \<Rightarrow>
     \<lparr>cn_id = recv_id src (ce_src_machine e), cn_deps = [],
      cn_kind = remote_kind ''RemoteRecv'' (ce_recv_slot e) (cross_edge_slot_kind (ce_src_slot e)) (ce_src_machine e),
      cn_barrier_group = None\<rparr>)"

definition send_node :: "(string \<times> nat) \<times> cross_edge \<Rightarrow> 'f cluster_node" where
  "send_node ke = (case ke of ((src, dest), e) \<Rightarrow>
     \<lparr>cn_id = send_id src (ce_dest_machine e), cn_deps = [src],
      cn_kind = remote_kind ''RemoteSend'' (ce_src_slot e) (cross_edge_slot_kind (ce_src_slot e)) (ce_dest_machine e),
      cn_barrier_group = None\<rparr>)"

definition local_dep :: "'f symbolic_node list \<Rightarrow> nat \<Rightarrow> string \<Rightarrow> string" where
  "local_dep ns machine d =
     (let dep = the (id_to_node ns d) in if the_machine dep \<noteq> machine then recv_id d (the_machine dep) else d)"

definition local_node ::
  "'f symbolic_node list \<Rightarrow> edge_map \<Rightarrow> 'f symbolic_node \<Rightarrow> part_err + 'f cluster_node" where
  "local_node ns edges n =
     (let machine = the_machine n in
      case resolve_upstream_nodes (sn_kind n) machine (id_to_slot ns) edges of
        Inl e \<Rightarrow> Inl e
      | Inr kind \<Rightarrow>
          (let kind' = resolve_output_kind kind (sn_deps n) machine edges;
               n_consumers = (if Option.bind (json_get ''Func'' (sn_kind n)) (json_get ''out_base'') \<noteq> None
                              then wrap32 (length (filter (\<lambda>m. sn_id n \<in> set (sn_deps m)) ns)) else 0)
           in Inr \<lparr>cn_id = sn_id n,
                   cn_deps = map (local_dep ns machine) (sn_deps n),
                   cn_kind = translate_func_kind kind' n_consumers,
                   cn_barrier_group = sn_barrier_group n\<rparr>))"

fun local_nodes ::
  "'f symbolic_node list \<Rightarrow> edge_map \<Rightarrow> 'f symbolic_node list \<Rightarrow> part_err + (nat \<times> 'f cluster_node) list" where
  "local_nodes all edges [] = Inr []"
| "local_nodes all edges (n # ns) =
     (case local_node all edges n of
        Inl e \<Rightarrow> Inl e
      | Inr c \<Rightarrow> (case local_nodes all edges ns of Inl e \<Rightarrow> Inl e | Inr cs \<Rightarrow> Inr ((the_machine n, c) # cs)))"

definition machine_list ::
  "edge_map \<Rightarrow> (nat \<times> 'f cluster_node) list \<Rightarrow> nat \<Rightarrow> 'f cluster_node list" where
  "machine_list edges locals m =
     map recv_node (filter (\<lambda>ke. ce_dest_machine (snd ke) = m) edges)
     @ map snd (filter (\<lambda>mc. fst mc = m) locals)
     @ map send_node (filter (\<lambda>ke. ce_src_machine (snd ke) = m) edges)"

section \<open>Ordering receives after sends\<close>

partial_function (option) bfs :: "(string \<Rightarrow> string list) \<Rightarrow> string \<Rightarrow> string list \<Rightarrow> string set \<Rightarrow> bool option" where
  "bfs succs target queue visited =
     (case queue of
        [] \<Rightarrow> Some False
      | n # queue' \<Rightarrow>
          if n = target then Some True
          else if n \<in> visited then bfs succs target queue' visited
          else bfs succs target (queue' @ succs n) (insert n visited))"

declare bfs.simps [code]

definition dag_reachable :: "(string \<Rightarrow> string list) \<Rightarrow> string \<Rightarrow> string \<Rightarrow> bool option" where
  "dag_reachable succs start target = bfs succs target [start] {}"

definition peer_of :: "string \<Rightarrow> 'f json \<Rightarrow> nat option" where
  "peer_of v kind = map_option wrap32 (Option.bind (kind_obj v kind) (get_u64 ''peer''))"

definition recv_peer :: "'f json \<Rightarrow> nat option" where
  "recv_peer kind = peer_of ''RemoteRecv'' kind"

text \<open>A pipeline with an embedded \<open>rdma_send\<close> counts as a send to its peer.\<close>

definition send_peer :: "'f json \<Rightarrow> nat option" where
  "send_peer kind =
     (if kind_obj ''RemoteRecv'' kind \<noteq> None then None
      else if kind_obj ''RemoteSend'' kind \<noteq> None then peer_of ''RemoteSend'' kind
      else Option.bind (kind_obj ''StreamPipeline'' kind) (\<lambda>sp.
             map_option wrap32 (Option.bind (Option.bind (map_of sp ''rdma_send'') (json_get ''peer'')) as_u64)))"

definition succ_map :: "'f cluster_node list \<Rightarrow> string \<Rightarrow> string list" where
  "succ_map cs d = concat (map (\<lambda>c. map (\<lambda>_. cn_id c) (filter (\<lambda>x. x = d) (cn_deps c))) cs)"

text \<open>The candidate pairs (receive, send), peers in ascending order.\<close>

definition pair_candidates :: "'f cluster_node list \<Rightarrow> (string \<times> string) list" where
  "pair_candidates cs =
     (let recvs = (\<lambda>p. map cn_id (filter (\<lambda>c. recv_peer (cn_kind c) = Some p) cs));
          sends = (\<lambda>p. map cn_id (filter (\<lambda>c. send_peer (cn_kind c) = Some p) cs));
          peers = filter (\<lambda>p. sends p \<noteq> []) (remdups (sort (List.map_filter (\<lambda>c. recv_peer (cn_kind c)) cs)))
      in concat (map (\<lambda>p. List.product (recvs p) (sends p)) peers))"

fun add_orderings ::
  "(string \<times> string) list \<Rightarrow> (string \<Rightarrow> string list) \<Rightarrow> (string \<times> string) list \<Rightarrow> (string \<times> string) list option" where
  "add_orderings [] succs added = Some added"
| "add_orderings ((r, s) # ps) succs added =
     (case dag_reachable succs r s of
        None \<Rightarrow> None
      | Some True \<Rightarrow> add_orderings ps succs added
      | Some False \<Rightarrow> add_orderings ps (succs(s := succs s @ [r])) (added @ [(r, s)]))"

definition add_dep :: "string \<times> string \<Rightarrow> 'f cluster_node list \<Rightarrow> 'f cluster_node list" where
  "add_dep rs cs =
     map (\<lambda>c. if cn_id c = fst rs \<and> snd rs \<notin> set (cn_deps c) then c\<lparr>cn_deps := cn_deps c @ [snd rs]\<rparr> else c) cs"

definition order_recvs :: "'f cluster_node list \<Rightarrow> 'f cluster_node list option" where
  "order_recvs cs = map_option (\<lambda>added. fold add_dep added cs) (add_orderings (pair_candidates cs) (succ_map cs) [])"

section \<open>Partitioning\<close>

record 'f cluster_dag =
  cd_shm_path_prefix :: string
  cd_wasm_path :: "string option"
  cd_python_script :: "string option"
  cd_python_wasm :: "string option"
  cd_log_level :: "string option"
  cd_mode :: "string option"
  cd_runs :: "nat option"
  cd_transfer :: bool
  cd_shared_inputs :: "shared_input list"
  cd_node_dags :: "nat \<rightharpoonup> 'f cluster_node list"

definition merge_shared :: "shared_input list \<Rightarrow> shared_input list \<Rightarrow> shared_input list" where
  "merge_shared declared auto =
     fold (\<lambda>si acc. if \<exists>e \<in> set acc. si_path e = si_path si then acc else acc @ [si]) auto declared"

definition CONVERGE_ON_COORDINATOR :: bool where "CONVERGE_ON_COORDINATOR = True"

text \<open>Everything after slot assignment: validation, edges, machine lists, ordering pass.\<close>

definition split_machines ::
  "(edge_map \<Rightarrow> edge_map) \<Rightarrow> 'f symbolic_node list \<Rightarrow> nat \<Rightarrow> (part_err + (nat \<rightharpoonup> 'f cluster_node list)) option" where
  "split_machines hash_order ns total_nodes =
     (case validate_nodes (sn_id ` set ns) total_nodes ns of
        Some e \<Rightarrow> Some (Inl e)
      | None \<Rightarrow>
          (case cross_nodes (id_to_node ns) (id_to_slot ns) ns ([], first_free_slot ns) of
             Inl e \<Rightarrow> Some (Inl e)
           | Inr (edges, nxt) \<Rightarrow>
               (case local_nodes ns edges ns of
                  Inl e \<Rightarrow> Some (Inl e)
                | Inr locals \<Rightarrow>
                    map_option (\<lambda>dags. Inr (map_of (zip (hosts total_nodes) dags)))
                      (all_some (map (\<lambda>m. order_recvs (machine_list (hash_order edges) locals m)) (hosts total_nodes))))))"

definition partition ::
  "'f f64_ops \<Rightarrow> (nat \<Rightarrow> nat) \<Rightarrow> (edge_map \<Rightarrow> edge_map) \<Rightarrow> 'f symbolic_dag \<Rightarrow> 'f placement_hints option \<Rightarrow>
   (part_err + 'f cluster_dag) option" where
  "partition ops draw hash_order dag hints =
     (let total_nodes = max (unwrap_or 1 (sd_total_nodes dag)) 1;
          effective_hints =
            (case hints of Some h \<Rightarrow> h
             | None \<Rightarrow> (case sd_placement_policy dag of Some p \<Rightarrow> resolve_policy ops p total_nodes
             | None \<Rightarrow> (case sd_hints dag of Some h \<Rightarrow> h | None \<Rightarrow> default_hints ops total_nodes)));
          (after_all, auto_shared) = expand_all_placements ops (sd_nodes dag) total_nodes effective_hints;
          (nodes0, workers) = expand_fanout after_all
      in case split_stream_pipelines ops nodes0 total_nodes effective_hints of
           Inl e \<Rightarrow> Some (Inl e)
         | Inr nodes1 \<Rightarrow>
             Option.bind (if unwrap_or CONVERGE_ON_COORDINATOR (sd_converge_on_coordinator dag)
                          then pin_converge_to_coordinator nodes1 0 else Some nodes1) (\<lambda>nodes2.
             Option.bind (assign_nodes ops draw nodes2 total_nodes effective_hints (sd_max_colocation dag)) (\<lambda>nodes3.
             Option.bind (assign_slots (assign_input_slices ops nodes3 total_nodes workers (si_path ` set auto_shared))) (\<lambda>r.
             case r of
               Inl e \<Rightarrow> Some (Inl e)
             | Inr nodes4 \<Rightarrow>
                 map_option (map_sum id (\<lambda>dags.
                   \<lparr>cd_shm_path_prefix = sd_shm_path_prefix dag, cd_wasm_path = sd_wasm_path dag,
                    cd_python_script = sd_python_script dag, cd_python_wasm = sd_python_wasm dag,
                    cd_log_level = sd_log_level dag, cd_mode = sd_mode dag, cd_runs = sd_runs dag,
                    cd_transfer = sd_transfer dag,
                    cd_shared_inputs = merge_shared (sd_shared_inputs dag) auto_shared,
                    cd_node_dags = dags\<rparr>))
                   (split_machines hash_order (inject_fanout_frees nodes4) total_nodes)))))"

section \<open>Correctness of the ordering pass\<close>

definition succ_rel :: "(string \<Rightarrow> string list) \<Rightarrow> (string \<times> string) set" where
  "succ_rel succs = {(a, b). b \<in> set (succs a)}"

lemma path_leaves:
  assumes "(a, t) \<in> R\<^sup>*" "a \<in> V" "t \<notin> V" "\<And>v w. v \<in> V \<Longrightarrow> (v, w) \<in> R \<Longrightarrow> w \<in> V \<union> Q"
  shows "\<exists>q \<in> Q - V. (q, t) \<in> R\<^sup>*"
  using assms by (induction rule: converse_rtrancl_induct) (blast intro: r_into_rtrancl)+

lemma bfs_spec:
  assumes "finite {n. succs n \<noteq> []}" "target \<notin> visited"
    and "\<And>v w. v \<in> visited \<Longrightarrow> (v, w) \<in> succ_rel succs \<Longrightarrow> w \<in> visited \<union> set queue"
  shows "bfs succs target queue visited = Some (\<exists>q \<in> set queue. (q, target) \<in> (succ_rel succs)\<^sup>*)"
  using assms(2,3)
proof (induction "(\<Sum>n \<in> {n. succs n \<noteq> []} - visited. Suc (length (succs n))) + length queue"
    arbitrary: queue visited rule: less_induct)
  case less
  show ?case
  proof (cases queue)
    case Nil
    then show ?thesis by (simp add: bfs.simps)
  next
    case (Cons n rest)
    consider "n = target" | "n \<noteq> target" "n \<in> visited" | "n \<noteq> target" "n \<notin> visited" by blast
    then show ?thesis
    proof cases
      case 1
      then show ?thesis using Cons by (simp add: bfs.simps)
    next
      case 2
      have *: "bfs succs target rest visited = Some (\<exists>q \<in> set rest. (q, target) \<in> (succ_rel succs)\<^sup>*)"
        using Cons 2 less.prems by (intro less.hyps) auto
      have "\<exists>q \<in> set rest. (q, target) \<in> (succ_rel succs)\<^sup>*" if "(n, target) \<in> (succ_rel succs)\<^sup>*"
        using path_leaves [OF that 2(2) less.prems(1), of "set queue"] less.prems(2) Cons 2 by auto
      then show ?thesis using * Cons 2 by (subst bfs.simps) auto
    next
      case 3
      have dec: "(\<Sum>n \<in> {n. succs n \<noteq> []} - insert n visited. Suc (length (succs n))) + length (rest @ succs n)
          < (\<Sum>n \<in> {n. succs n \<noteq> []} - visited. Suc (length (succs n))) + length queue"
      proof (cases "succs n = []")
        case True
        then have "{n. succs n \<noteq> []} - insert n visited = {n. succs n \<noteq> []} - visited" by auto
        then show ?thesis using True Cons by simp
      next
        case False
        have "{n. succs n \<noteq> []} - insert n visited = ({n. succs n \<noteq> []} - visited) - {n}" by auto
        then show ?thesis
          using False 3(2) Cons assms(1)
            sum.remove [of "{n. succs n \<noteq> []} - visited" n "\<lambda>n. Suc (length (succs n))"] by simp
      qed
      have *: "bfs succs target (rest @ succs n) (insert n visited)
          = Some (\<exists>q \<in> set (rest @ succs n). (q, target) \<in> (succ_rel succs)\<^sup>*)"
        using less.prems 3 Cons by (intro less.hyps [OF dec]) (auto simp: succ_rel_def)
      have "(n, target) \<in> (succ_rel succs)\<^sup>* \<longleftrightarrow> (\<exists>q \<in> set (succs n). (q, target) \<in> (succ_rel succs)\<^sup>*)"
        using 3(1) by (subst rtrancl_eq_or_trancl) (auto simp: succ_rel_def dest: tranclD intro: converse_rtrancl_into_rtrancl rtrancl_into_trancl2)
      then show ?thesis using * Cons 3 by (subst bfs.simps) auto
    qed
  qed
qed

lemma dag_reachable_spec:
  assumes "finite {n. succs n \<noteq> []}"
  shows "dag_reachable succs a b = Some ((a, b) \<in> (succ_rel succs)\<^sup>*)"
  using bfs_spec [OF assms, of b "{}" "[a]"] by (simp add: dag_reachable_def)

lemma add_orderings_spec:
  assumes "finite {n. succs n \<noteq> []}"
  shows "\<exists>new. add_orderings ps succs added = Some (added @ new) \<and> set new \<subseteq> set ps
    \<and> (acyclic (succ_rel succs) \<longrightarrow> acyclic (succ_rel succs \<union> (set new)\<inverse>))
    \<and> (\<forall>(r, s) \<in> set ps. (r, s) \<in> (succ_rel succs \<union> (set new)\<inverse>)\<^sup>* \<or> (r, s) \<in> set new)"
  using assms
proof (induction ps succs added rule: add_orderings.induct)
  case (2 r s ps succs added)
  note reach = dag_reachable_spec [OF 2(3), of r s]
  show ?case
  proof (cases "(r, s) \<in> (succ_rel succs)\<^sup>*")
    case True
    obtain new where new: "add_orderings ps succs added = Some (added @ new)" "set new \<subseteq> set ps"
      "acyclic (succ_rel succs) \<longrightarrow> acyclic (succ_rel succs \<union> (set new)\<inverse>)"
      "\<forall>(r, s) \<in> set ps. (r, s) \<in> (succ_rel succs \<union> (set new)\<inverse>)\<^sup>* \<or> (r, s) \<in> set new"
      using 2(1) [of True] reach True 2(3) by auto
    have "(r, s) \<in> (succ_rel succs \<union> (set new)\<inverse>)\<^sup>*" using True by (meson in_rtrancl_UnI)
    then show ?thesis using new reach True by (intro exI [of _ new]) auto
  next
    case False
    define succs' where "succs' = succs(s := succs s @ [r])"
    have rel: "succ_rel succs' = insert (s, r) (succ_rel succs)" by (auto simp: succ_rel_def succs'_def split: if_splits)
    have "{n. succs' n \<noteq> []} \<subseteq> insert s {n. succs n \<noteq> []}" by (auto simp: succs'_def)
    then have fin: "finite {n. succs' n \<noteq> []}" using 2(3) by (meson finite_insert finite_subset)
    have ac: "acyclic (succ_rel succs) \<longrightarrow> acyclic (succ_rel succs')" using False by (simp add: rel acyclic_insert)
    obtain new where new: "add_orderings ps succs' (added @ [(r, s)]) = Some ((added @ [(r, s)]) @ new)" "set new \<subseteq> set ps"
      "acyclic (succ_rel succs') \<longrightarrow> acyclic (succ_rel succs' \<union> (set new)\<inverse>)"
      "\<forall>(r, s) \<in> set ps. (r, s) \<in> (succ_rel succs' \<union> (set new)\<inverse>)\<^sup>* \<or> (r, s) \<in> set new"
      using 2(2) [of False] reach False fin unfolding succs'_def [symmetric] by auto
    have u: "succ_rel succs' \<union> (set new)\<inverse> = succ_rel succs \<union> (set ((r, s) # new))\<inverse>" by (auto simp: rel)
    have "add_orderings ((r, s) # ps) succs added = Some (added @ (r, s) # new)"
      using reach False new(1) by (simp add: succs'_def)
    then show ?thesis using new(2-4) ac unfolding u by (intro exI [of _ "(r, s) # new"]) auto
  qed
qed simp

text \<open>The dependency relation of a machine list, from dependency to dependent.\<close>

definition dep_edges :: "'f cluster_node list \<Rightarrow> (string \<times> string) set" where
  "dep_edges cs = {(d, i). \<exists>c \<in> set cs. cn_id c = i \<and> d \<in> set (cn_deps c)}"

lemma succ_rel_succ_map: "succ_rel (succ_map cs) = dep_edges cs"
  by (auto simp: succ_rel_def succ_map_def dep_edges_def)

lemma finite_succ_map: "finite {n. succ_map cs n \<noteq> []}"
proof (rule finite_subset)
  show "{n. succ_map cs n \<noteq> []} \<subseteq> (\<Union>c \<in> set cs. set (cn_deps c))"
    by (auto simp: succ_map_def filter_empty_conv)
qed simp

lemma set_pair_candidates:
  "set (pair_candidates cs) = {(cn_id a, cn_id b) | a b p. a \<in> set cs \<and> b \<in> set cs
     \<and> recv_peer (cn_kind a) = Some p \<and> send_peer (cn_kind b) = Some p}"
  by (force simp: pair_candidates_def Let_def filter_empty_conv List.map_filter_def)

lemma add_dep_frame:
  "map cn_id (add_dep rs cs) = map cn_id cs" "map cn_kind (add_dep rs cs) = map cn_kind cs"
  "map cn_barrier_group (add_dep rs cs) = map cn_barrier_group cs"
  by (auto simp: add_dep_def)

lemma fold_add_dep_frame:
  "map cn_id (fold add_dep new cs) = map cn_id cs" "map cn_kind (fold add_dep new cs) = map cn_kind cs"
  "map cn_barrier_group (fold add_dep new cs) = map cn_barrier_group cs"
  by (induction new arbitrary: cs) (auto simp: add_dep_frame)

lemma ids_fold_add_dep: "cn_id ` set (fold add_dep new cs) = cn_id ` set cs"
  using fold_add_dep_frame(1) [of new cs] by (metis set_map)

lemma dep_edges_add_dep:
  "fst rs \<in> cn_id ` set cs \<Longrightarrow> dep_edges (add_dep rs cs) = insert (snd rs, fst rs) (dep_edges cs)"
proof (cases rs)
  case (Pair r s)
  assume r: "fst rs \<in> cn_id ` set cs"
  obtain f where f: "add_dep rs cs = map f cs" "\<And>c. cn_id (f c) = cn_id c"
    "\<And>c. set (cn_deps (f c)) = (if cn_id c = r then insert s (set (cn_deps c)) else set (cn_deps c))"
    by (rule that [OF add_dep_def]) (auto simp: Pair)
  have "fst rs = r" "snd rs = s" using Pair by simp_all
  then show ?thesis using r unfolding f(1) by (auto simp: f(2,3) dep_edges_def split: if_splits) metis
qed

lemma dep_edges_fold_add_dep:
  "fst ` set new \<subseteq> cn_id ` set cs \<Longrightarrow> dep_edges (fold add_dep new cs) = dep_edges cs \<union> (set new)\<inverse>"
proof (induction new arbitrary: cs)
  case (Cons rs new)
  have "cn_id ` set (add_dep rs cs) = cn_id ` set cs" using add_dep_frame(1) [of rs cs] by (metis set_map)
  then show ?case using Cons by (cases rs) (auto simp: dep_edges_add_dep)
qed simp

lemma order_recvs_spec:
  obtains new where "order_recvs cs = Some (fold add_dep new cs)" "set new \<subseteq> set (pair_candidates cs)"
    "dep_edges (fold add_dep new cs) = dep_edges cs \<union> (set new)\<inverse>" "acyclic (dep_edges cs) \<longrightarrow> acyclic (dep_edges cs \<union> (set new)\<inverse>)"
    "\<forall>(r, s) \<in> set (pair_candidates cs). (r, s) \<in> (dep_edges cs \<union> (set new)\<inverse>)\<^sup>* \<or> (r, s) \<in> set new"
proof -
  obtain new where new: "add_orderings (pair_candidates cs) (succ_map cs) [] = Some ([] @ new)"
    "set new \<subseteq> set (pair_candidates cs)" "acyclic (dep_edges cs) \<longrightarrow> acyclic (dep_edges cs \<union> (set new)\<inverse>)"
    "\<forall>(r, s) \<in> set (pair_candidates cs). (r, s) \<in> (dep_edges cs \<union> (set new)\<inverse>)\<^sup>* \<or> (r, s) \<in> set new"
    using add_orderings_spec [OF finite_succ_map [of cs], of "pair_candidates cs" "[]"]
    unfolding succ_rel_succ_map by blast
  have "fst ` set new \<subseteq> cn_id ` set cs" using new(2) by (fastforce simp: set_pair_candidates)
  then show thesis using new by (intro that [of new]) (auto simp: order_recvs_def dep_edges_fold_add_dep)
qed

section \<open>Correctness of the machine lists\<close>

lemma id_to_node_some: "id_to_node ns d = Some n \<Longrightarrow> n \<in> set ns \<and> sn_id n = d"
  unfolding id_to_node_def by (drule map_of_SomeD) auto

lemma id_to_node_none: "id_to_node ns d = None \<longleftrightarrow> d \<notin> sn_id ` set ns"
  by (auto simp: id_to_node_def map_of_eq_None_iff image_image)

definition edges_ok ::
  "(string \<rightharpoonup> 'f symbolic_node) \<Rightarrow> (string \<rightharpoonup> nat) \<Rightarrow> nat \<Rightarrow> edge_map \<times> nat \<Rightarrow> bool" where
  "edges_ok nodes slots base st \<longleftrightarrow>
     (\<forall>((d, m), e) \<in> set (fst st). \<exists>dep. nodes d = Some dep \<and> the_machine dep \<noteq> m
        \<and> ce_src_machine e = the_machine dep \<and> slots d = Some (ce_src_slot e) \<and> ce_dest_machine e = m)
     \<and> map (\<lambda>ke. ce_recv_slot (snd ke)) (fst st) = map (\<lambda>i. wrap32 (base + i)) [0..<length (fst st)]
     \<and> snd st = wrap32 (base + length (fst st))"

lemma wrap32_Suc: "wrap32 (Suc (wrap32 n)) = wrap32 (Suc n)"
  by (simp add: wrap32_def mod_Suc_eq)

lemma cross_deps_spec:
  "cross_deps nodes slots nid machine ds st = Inr st' \<Longrightarrow> edges_ok nodes slots base st \<Longrightarrow>
   edges_ok nodes slots base st' \<and> set (fst st) \<subseteq> set (fst st')
   \<and> (\<forall>d \<in> set ds. \<exists>dep. nodes d = Some dep \<and> (the_machine dep \<noteq> machine \<longrightarrow> (d, machine) \<in> fst ` set (fst st')))"
proof (induction nodes slots nid machine ds st rule: cross_deps.induct)
  case (2 nodes slots nid machine d ds edges nxt)
  obtain dep where dep: "nodes d = Some dep" using 2(3) by (auto split: option.splits)
  show ?case
  proof (cases "the_machine dep = machine \<or> map_of edges (d, machine) \<noteq> None")
    case True
    then have "cross_deps nodes slots nid machine ds (edges, nxt) = Inr st'" using 2(3) dep by (auto split: if_splits)
    note ih = 2(1) [OF dep True this 2(4)]
    have "(d, machine) \<in> fst ` set edges" if "the_machine dep \<noteq> machine"
      using True that by (auto simp: map_of_eq_None_iff)
    then show ?thesis using ih dep by auto
  next
    case False
    then obtain src_slot where slot: "json_get ''Input'' (sn_kind dep) = None" "slots d = Some src_slot"
      using 2(3) dep by (auto split: if_splits option.splits)
    define e where "e = \<lparr>ce_src_machine = the_machine dep, ce_src_slot = src_slot, ce_dest_machine = machine, ce_recv_slot = nxt\<rparr>"
    have step: "cross_deps nodes slots nid machine ds (edges @ [((d, machine), e)], wrap32 (nxt + 1)) = Inr st'"
      using 2(3) dep False slot by (auto simp: e_def)
    have ok: "edges_ok nodes slots base (edges @ [((d, machine), e)], wrap32 (nxt + 1))"
      using 2(4) dep False slot unfolding edges_ok_def by (auto simp: e_def wrap32_Suc)
    have "\<not> json_get ''Input'' (sn_kind dep) \<noteq> None" using slot(1) by simp
    note ih = 2(2) [OF dep False this slot(2) step [unfolded e_def] ok [unfolded e_def]]
    then have "(d, machine) \<in> fst ` set (fst st')" by force
    then show ?thesis using ih dep by auto
  qed
qed simp

lemma cross_nodes_spec:
  "cross_nodes nodes slots ns st = Inr st' \<Longrightarrow> edges_ok nodes slots base st \<Longrightarrow>
   edges_ok nodes slots base st' \<and> set (fst st) \<subseteq> set (fst st')
   \<and> (\<forall>n \<in> set ns. \<forall>d \<in> set (sn_deps n). \<exists>dep. nodes d = Some dep
        \<and> (the_machine dep \<noteq> the_machine n \<longrightarrow> (d, the_machine n) \<in> fst ` set (fst st')))"
proof (induction ns arbitrary: st)
  case (Cons n ns)
  obtain s1 where s1: "cross_deps nodes slots (sn_id n) (the_machine n) (sn_deps n) st = Inr s1"
    "cross_nodes nodes slots ns s1 = Inr st'"
    using Cons.prems(1) by (auto split: sum.splits)
  note a = cross_deps_spec [OF s1(1) Cons.prems(2)]
  note b = Cons.IH [OF s1(2) conjunct1 [OF a]]
  have "fst ` set (fst s1) \<subseteq> fst ` set (fst st')" using b by blast
  then have "\<exists>dep. nodes d = Some dep \<and> (the_machine dep \<noteq> the_machine n \<longrightarrow> (d, the_machine n) \<in> fst ` set (fst st'))"
    if "d \<in> set (sn_deps n)" for d
    using a that by blast
  then show ?case using a b by auto
qed simp

lemma local_nodes_spec:
  "local_nodes all edges ns = Inr locals \<Longrightarrow>
   list_all2 (\<lambda>n mc. fst mc = the_machine n \<and> local_node all edges n = Inr (snd mc)) ns locals"
  by (induction ns arbitrary: locals) (auto split: sum.splits)

lemma validate_nodes_spec:
  "validate_nodes ids total_nodes ns = None \<longleftrightarrow>
   (\<forall>n \<in> set ns. sn_node_id n \<noteq> None \<and> the_machine n < total_nodes \<and> set (sn_deps n) \<subseteq> ids)"
proof (induction ns)
  case (Cons n ns)
  have "check_deps ids (sn_id n) ds = None \<longleftrightarrow> set ds \<subseteq> ids" for ds by (induction ds) auto
  from this [of "sn_deps n"] show ?case using Cons
    by (cases "check_deps ids (sn_id n) (sn_deps n)") (auto simp: the_machine_def split: option.splits)
qed simp

lemma all_some_map:
  "all_some (map f xs) = Some ys \<Longrightarrow> x \<in> set xs \<Longrightarrow> map_of (zip xs ys) x = f x"
  by (induction xs arbitrary: ys) (auto split: bind_splits)

lemma all_some_total: "(\<And>x. x \<in> set xs \<Longrightarrow> f x \<noteq> None) \<Longrightarrow> \<exists>ys. all_some (map f xs) = Some ys"
proof (induction xs)
  case (Cons x xs)
  obtain v where "f x = Some v" using Cons.prems [of x] by auto
  moreover obtain ys where "all_some (map f xs) = Some ys" using Cons by auto
  ultimately show ?case by simp
qed simp

lemma order_recvs_total: "order_recvs cs \<noteq> None"
proof -
  obtain new where "order_recvs cs = Some (fold add_dep new cs)" by (rule order_recvs_spec)
  then show ?thesis by simp
qed

lemma split_machines_some:
  assumes "split_machines hash_order ns total_nodes = Some (Inr dags)"
  obtains edges nxt locals where "validate_nodes (sn_id ` set ns) total_nodes ns = None"
    "cross_nodes (id_to_node ns) (id_to_slot ns) ns ([], first_free_slot ns) = Inr (edges, nxt)"
    "local_nodes ns edges ns = Inr locals"
    "\<forall>m \<in> set (hosts total_nodes). dags m = order_recvs (machine_list (hash_order edges) locals m)"
proof -
  obtain edges nxt locals xs where *: "validate_nodes (sn_id ` set ns) total_nodes ns = None"
    "cross_nodes (id_to_node ns) (id_to_slot ns) ns ([], first_free_slot ns) = Inr (edges, nxt)"
    "local_nodes ns edges ns = Inr locals" "dags = map_of (zip (hosts total_nodes) xs)"
    "all_some (map (\<lambda>m. order_recvs (machine_list (hash_order edges) locals m)) (hosts total_nodes)) = Some xs"
    using assms unfolding split_machines_def by (auto split: option.splits sum.splits)
  show thesis using *(1-4) all_some_map [OF *(5)] by (intro that) auto
qed

lemma edges_ok_init: "edges_ok nodes slots (first_free_slot ns) ([], first_free_slot ns)"
  by (simp add: edges_ok_def first_free_slot_def)

lemma local_node_some:
  "local_node ns edges n = Inr c \<Longrightarrow> cn_id c = sn_id n \<and>
   cn_deps c = map (local_dep ns (the_machine n)) (sn_deps n)"
  by (auto simp: local_node_def Let_def split: sum.splits)

text \<open>The nodes of a machine list before the ordering pass.\<close>

lemma machine_list_locals:
  assumes "local_nodes ns edges ns = Inr locals"
  shows "(m, c) \<in> set locals \<longleftrightarrow> (\<exists>n \<in> set ns. the_machine n = m \<and> local_node ns edges n = Inr c)"
proof -
  have "(m, c) \<in> set locals \<longleftrightarrow> (\<exists>n \<in> set ns'. the_machine n = m \<and> local_node ns edges n = Inr c)"
    if "list_all2 (\<lambda>n mc. fst mc = the_machine n \<and> local_node ns edges n = Inr (snd mc)) ns' locals" for ns'
    using that by (induction rule: list_all2_induct) auto
  then show ?thesis using local_nodes_spec [OF assms] by blast
qed

lemma set_machine_list:
  assumes "local_nodes ns edges ns = Inr locals" "set edges' = set edges"
  shows "set (machine_list edges' locals m)
    = recv_node ` {ke \<in> set edges. ce_dest_machine (snd ke) = m}
      \<union> {c. \<exists>n \<in> set ns. the_machine n = m \<and> local_node ns edges n = Inr c}
      \<union> send_node ` {ke \<in> set edges. ce_src_machine (snd ke) = m}"
proof -
  have "snd ` {mc \<in> set locals. fst mc = m} = {c. (m, c) \<in> set locals}" by force
  then show ?thesis unfolding machine_list_def by (auto simp: assms(2) machine_list_locals [OF assms(1)])
qed

lemma recv_in_list:
  assumes "local_nodes ns edges ns = Inr locals" "set edges' = set edges"
    and "((d, b), e) \<in> set edges" "ce_dest_machine e = m" "ce_src_machine e = a"
  shows "recv_id d a \<in> cn_id ` set (machine_list edges' locals m)"
  using assms(3-) unfolding set_machine_list [OF assms(1,2)] by (force simp: recv_node_def)

lemma local_in_list:
  assumes "local_nodes ns edges ns = Inr locals" "set edges' = set edges" "n \<in> set ns" "the_machine n = m"
  shows "sn_id n \<in> cn_id ` set (machine_list edges' locals m)"
proof -
  obtain c where "local_node ns edges n = Inr c"
    using local_nodes_spec [OF assms(1)] assms(3) by (auto simp: list_all2_conv_all_nth in_set_conv_nth)
  moreover from this have "cn_id c = sn_id n" by (simp add: local_node_some)
  ultimately show ?thesis using assms(3,4) unfolding set_machine_list [OF assms(1,2)] by force
qed

lemma machine_list_closed:
  assumes v: "validate_nodes (sn_id ` set ns) total_nodes ns = None"
    and c: "cross_nodes (id_to_node ns) (id_to_slot ns) ns ([], first_free_slot ns) = Inr (edges, nxt)"
    and l: "local_nodes ns edges ns = Inr locals" and o: "set edges' = set edges"
    and x: "x \<in> set (machine_list edges' locals m)"
  shows "set (cn_deps x) \<subseteq> cn_id ` set (machine_list edges' locals m)"
proof -
  note spec = cross_nodes_spec [OF c edges_ok_init, unfolded edges_ok_def fst_conv]
  note ids = recv_in_list [OF l o] local_in_list [OF l o]
  consider (recv) ke where "x = recv_node ke"
    | (local) n where "n \<in> set ns" "the_machine n = m" "local_node ns edges n = Inr x"
    | (send) d b e where "((d, b), e) \<in> set edges" "ce_src_machine e = m" "x = send_node ((d, b), e)"
    using x unfolding set_machine_list [OF l o] by auto
  then show ?thesis
  proof cases
    case recv
    then show ?thesis by (auto simp: recv_node_def split: prod.splits)
  next
    case send
    then obtain dep where "id_to_node ns d = Some dep" "the_machine dep = m" using spec by fastforce
    then have "dep \<in> set ns" "sn_id dep = d" using id_to_node_some by auto
    then show ?thesis using ids(2) [of dep] \<open>the_machine dep = m\<close> send(3) by (simp add: send_node_def)
  next
    case local
    have "local_dep ns (the_machine n) d \<in> cn_id ` set (machine_list edges' locals m)" if d: "d \<in> set (sn_deps n)" for d
    proof -
      obtain dep where dep: "id_to_node ns d = Some dep"
        "the_machine dep \<noteq> the_machine n \<Longrightarrow> (d, the_machine n) \<in> fst ` set edges"
        using spec local(1) d by fastforce
      show ?thesis
      proof (cases "the_machine dep = the_machine n")
        case True
        then show ?thesis using ids(2) [of dep] id_to_node_some [OF dep(1)] local(2) dep(1) by (simp add: local_dep_def)
      next
        case False
        then obtain e where e: "((d, the_machine n), e) \<in> set edges" using dep(2) by auto
        then have "ce_dest_machine e = m" "ce_src_machine e = the_machine dep" using spec local(2) dep(1) by fastforce+
        then show ?thesis using ids(1) [OF e] False dep(1) by (simp add: local_dep_def)
      qed
    qed
    then show ?thesis using local_node_some [OF local(3)] by auto
  qed
qed

lemma fold_add_dep_keeps:
  "c \<in> set cs \<Longrightarrow> \<exists>c' \<in> set (fold add_dep new cs). cn_id c' = cn_id c \<and> cn_kind c' = cn_kind c \<and> set (cn_deps c) \<subseteq> set (cn_deps c')"
proof (induction new arbitrary: cs c)
  case (Cons rs new)
  have "\<exists>c' \<in> set (add_dep rs cs). cn_id c' = cn_id c \<and> cn_kind c' = cn_kind c \<and> set (cn_deps c) \<subseteq> set (cn_deps c')"
  proof -
    define f where "f = (\<lambda>c :: 'a cluster_node. if cn_id c = fst rs \<and> snd rs \<notin> set (cn_deps c) then c\<lparr>cn_deps := cn_deps c @ [snd rs]\<rparr> else c)"
    have "f c \<in> set (add_dep rs cs)" using Cons.prems by (simp add: add_dep_def f_def)
    then show ?thesis by (rule rev_bexI) (simp add: f_def subset_insertI)
  qed
  then show ?case using Cons.IH by fastforce
qed auto

definition carries :: "'f cluster_node list \<Rightarrow> 'f cluster_node list \<Rightarrow> bool" where
  "carries cs cs' \<longleftrightarrow>
     (\<forall>c \<in> set cs. \<exists>c' \<in> set cs'. cn_id c' = cn_id c \<and> cn_kind c' = cn_kind c \<and> set (cn_deps c) \<subseteq> set (cn_deps c'))"

text \<open>A partition result: the machine lists before the ordering pass, and what the pass keeps of them.\<close>

lemma split_machines_lists:
  assumes "split_machines hash_order ns total_nodes = Some (Inr dags)" "\<And>es. mset (hash_order es) = mset es"
  obtains edges nxt locals where
    "cross_nodes (id_to_node ns) (id_to_slot ns) ns ([], first_free_slot ns) = Inr (edges, nxt)"
    "\<forall>n \<in> set ns. sn_node_id n \<noteq> None \<and> the_machine n < total_nodes"
    "local_nodes ns edges ns = Inr locals" "set (hash_order edges) = set edges"
    "\<forall>m \<in> set (hosts total_nodes). \<exists>cs. dags m = Some cs \<and> carries (machine_list (hash_order edges) locals m) cs"
proof -
  obtain edges nxt locals where s: "validate_nodes (sn_id ` set ns) total_nodes ns = None"
    "cross_nodes (id_to_node ns) (id_to_slot ns) ns ([], first_free_slot ns) = Inr (edges, nxt)"
    "local_nodes ns edges ns = Inr locals"
    "\<forall>m \<in> set (hosts total_nodes). dags m = order_recvs (machine_list (hash_order edges) locals m)"
    by (rule split_machines_some [OF assms(1)])
  have "\<exists>cs. dags m = Some cs \<and> carries (machine_list (hash_order edges) locals m) cs"
    if m: "m \<in> set (hosts total_nodes)" for m
  proof -
    obtain new where "order_recvs (machine_list (hash_order edges) locals m) = Some (fold add_dep new (machine_list (hash_order edges) locals m))"
      by (rule order_recvs_spec)
    then show ?thesis using s(4) m by (simp add: carries_def fold_add_dep_keeps)
  qed
  then show thesis using s(1-3) assms(2) [of edges, THEN mset_eq_setD]
    by (intro that) (auto simp: validate_nodes_spec)
qed

text \<open>
  What waits for what at run time: a node for its dependencies on its own machine, and a
  receive for the send of the same source on the peer.
\<close>

definition wait_graph :: "(nat \<rightharpoonup> 'f cluster_node list) \<Rightarrow> ((nat \<times> string) \<times> (nat \<times> string)) set" where
  "wait_graph dags =
     {((m, d), (m, i)) | m d i. \<exists>cs. dags m = Some cs \<and> (d, i) \<in> dep_edges cs}
     \<union> {((a, send_id src b), (b, recv_id src a)) | a b src. \<exists>ca cb. dags a = Some ca \<and> dags b = Some cb
          \<and> send_id src b \<in> cn_id ` set ca \<and> recv_id src a \<in> cn_id ` set cb}"

lemma wait_local: "dags m = Some cs \<Longrightarrow> c \<in> set cs \<Longrightarrow> d \<in> set (cn_deps c) \<Longrightarrow> ((m, d), (m, cn_id c)) \<in> wait_graph dags"
  by (auto simp: wait_graph_def dep_edges_def)

lemma local_waits:
  assumes s: "split_machines hash_order ns total_nodes = Some (Inr dags)" and h: "\<And>es. mset (hash_order es) = mset es"
    and t: "total_nodes \<le> u32_max" and n: "n \<in> set ns" "d \<in> set (sn_deps n)"
  shows "((the_machine n, local_dep ns (the_machine n) d), (the_machine n, sn_id n)) \<in> wait_graph dags"
proof -
  obtain edges nxt locals where sm: "\<forall>n \<in> set ns. sn_node_id n \<noteq> None \<and> the_machine n < total_nodes"
    "local_nodes ns edges ns = Inr locals" "set (hash_order edges) = set edges"
    "\<forall>m \<in> set (hosts total_nodes). \<exists>cs. dags m = Some cs \<and> carries (machine_list (hash_order edges) locals m) cs"
    by (rule split_machines_lists [OF s h])
  have host: "the_machine n \<in> set (hosts total_nodes)" using sm(1) n(1) t by (simp add: hosts_def u32_max_def)
  obtain c where c: "local_node ns edges n = Inr c"
    using local_nodes_spec [OF sm(2)] n(1) by (auto simp: list_all2_conv_all_nth in_set_conv_nth)
  then have "c \<in> set (machine_list (hash_order edges) locals (the_machine n))"
    using n(1) unfolding set_machine_list [OF sm(2,3)] by blast
  then obtain cs c' where "dags (the_machine n) = Some cs" "c' \<in> set cs" "cn_id c' = sn_id n" "set (cn_deps c) \<subseteq> set (cn_deps c')"
    using sm(4) host local_node_some [OF c] unfolding carries_def by fastforce
  then show ?thesis using wait_local [of dags _ cs c'] local_node_some [OF c] n(2) by auto
qed

lemma cross_lists:
  assumes s: "split_machines hash_order ns total_nodes = Some (Inr dags)" and h: "\<And>es. mset (hash_order es) = mset es"
    and t: "total_nodes \<le> u32_max" and n: "n \<in> set ns" "d \<in> set (sn_deps n)" "id_to_node ns d = Some dep"
    and x: "the_machine dep \<noteq> the_machine n"
  shows "\<exists>ca cb src_slot recv_slot s r. dags (the_machine dep) = Some ca \<and> dags (the_machine n) = Some cb
    \<and> id_to_slot ns d = Some src_slot \<and> s \<in> set ca \<and> r \<in> set cb
    \<and> cn_id s = send_id d (the_machine n) \<and> d \<in> set (cn_deps s)
    \<and> cn_kind s = remote_kind ''RemoteSend'' src_slot (cross_edge_slot_kind src_slot) (the_machine n)
    \<and> cn_id r = recv_id d (the_machine dep)
    \<and> cn_kind r = remote_kind ''RemoteRecv'' recv_slot (cross_edge_slot_kind src_slot) (the_machine dep)"
proof -
  obtain edges nxt locals where sm: "cross_nodes (id_to_node ns) (id_to_slot ns) ns ([], first_free_slot ns) = Inr (edges, nxt)"
    "\<forall>n \<in> set ns. sn_node_id n \<noteq> None \<and> the_machine n < total_nodes"
    "local_nodes ns edges ns = Inr locals" "set (hash_order edges) = set edges"
    "\<forall>m \<in> set (hosts total_nodes). \<exists>cs. dags m = Some cs \<and> carries (machine_list (hash_order edges) locals m) cs"
    by (rule split_machines_lists [OF s h])
  note spec = cross_nodes_spec [OF sm(1) edges_ok_init, unfolded edges_ok_def fst_conv]
  have "(d, the_machine n) \<in> fst ` set edges" using spec n x by fastforce
  then obtain e where e: "((d, the_machine n), e) \<in> set edges" by auto
  then have e': "ce_src_machine e = the_machine dep" "id_to_slot ns d = Some (ce_src_slot e)" "ce_dest_machine e = the_machine n"
    using spec n(3) by fastforce+
  have hosts: "the_machine n \<in> set (hosts total_nodes)" "the_machine dep \<in> set (hosts total_nodes)"
    using sm(2) n(1) id_to_node_some [OF n(3)] t by (simp_all add: hosts_def u32_max_def)
  obtain ca cb where l: "dags (the_machine dep) = Some ca" "carries (machine_list (hash_order edges) locals (the_machine dep)) ca"
    "dags (the_machine n) = Some cb" "carries (machine_list (hash_order edges) locals (the_machine n)) cb"
    using sm(5) hosts by blast
  have "recv_node ((d, the_machine n), e) \<in> set (machine_list (hash_order edges) locals (the_machine n))"
    "send_node ((d, the_machine n), e) \<in> set (machine_list (hash_order edges) locals (the_machine dep))"
    using e e' unfolding set_machine_list [OF sm(3,4)] by force+
  then obtain r s where "r \<in> set cb" "cn_id r = cn_id (recv_node ((d, the_machine n), e) :: 'a cluster_node)"
    "cn_kind r = cn_kind (recv_node ((d, the_machine n), e))"
    "s \<in> set ca" "cn_id s = cn_id (send_node ((d, the_machine n), e) :: 'a cluster_node)"
    "cn_kind s = cn_kind (send_node ((d, the_machine n), e))" "set (cn_deps (send_node ((d, the_machine n), e) :: 'a cluster_node)) \<subseteq> set (cn_deps s)"
    using l(2,4) unfolding carries_def by metis
  then show ?thesis using e' l(1,3)
    by (intro exI [of _ ca] exI [of _ cb] exI [of _ "ce_src_slot e"] exI [of _ "ce_recv_slot e"] exI [of _ s] exI [of _ r])
       (simp add: recv_node_def send_node_def)
qed

lemma cross_waits:
  assumes s: "split_machines hash_order ns total_nodes = Some (Inr dags)" and h: "\<And>es. mset (hash_order es) = mset es"
    and t: "total_nodes \<le> u32_max" and n: "n \<in> set ns" "d \<in> set (sn_deps n)" "id_to_node ns d = Some dep"
    and x: "the_machine dep \<noteq> the_machine n"
  shows "((the_machine dep, d), (the_machine dep, send_id d (the_machine n))) \<in> wait_graph dags"
    "((the_machine dep, send_id d (the_machine n)), (the_machine n, recv_id d (the_machine dep))) \<in> wait_graph dags"
proof -
  obtain ca cb s r where *: "dags (the_machine dep) = Some ca" "dags (the_machine n) = Some cb"
    "s \<in> set ca" "r \<in> set cb" "cn_id s = send_id d (the_machine n)" "d \<in> set (cn_deps s)" "cn_id r = recv_id d (the_machine dep)"
    using cross_lists [OF assms] by blast
  show "((the_machine dep, d), (the_machine dep, send_id d (the_machine n))) \<in> wait_graph dags"
    using wait_local [of dags "the_machine dep" ca s d] * by simp
  have "send_id d (the_machine n) \<in> cn_id ` set ca" "recv_id d (the_machine dep) \<in> cn_id ` set cb"
    using * by (metis image_eqI)+
  then show "((the_machine dep, send_id d (the_machine n)), (the_machine n, recv_id d (the_machine dep))) \<in> wait_graph dags"
    using *(1,2) unfolding wait_graph_def by blast
qed

lemma dep_enforced:
  assumes "split_machines hash_order ns total_nodes = Some (Inr dags)" "\<And>es. mset (hash_order es) = mset es"
    and "total_nodes \<le> u32_max" "n \<in> set ns" "d \<in> set (sn_deps n)" and dep: "id_to_node ns d = Some dep"
  shows "((the_machine dep, d), (the_machine n, sn_id n)) \<in> (wait_graph dags)\<^sup>+"
proof (cases "the_machine dep = the_machine n")
  case True
  then show ?thesis using dep local_waits [OF assms(1-5)] by (auto simp: local_dep_def)
next
  case False
  note cw = cross_waits [OF assms(1-5) dep False]
  have "((the_machine n, recv_id d (the_machine dep)), (the_machine n, sn_id n)) \<in> wait_graph dags"
    using local_waits [OF assms(1-5)] dep False by (simp add: local_dep_def)
  then show ?thesis using cw dep by (metis r_into_trancl trancl_into_trancl)
qed

definition symbolic_edges :: "'f symbolic_node list \<Rightarrow> (string \<times> string) set" where
  "symbolic_edges ns = {(d, i). \<exists>n \<in> set ns. sn_id n = i \<and> d \<in> set (sn_deps n)}"

lemma acyclic_add_sinks:
  assumes "acyclic E" "S \<inter> Domain E = {}" "S \<inter> A = {}" "F \<subseteq> A \<times> S"
  shows "acyclic (E \<union> F)"
proof (rule acyclicI, intro allI notI)
  fix x
  assume c: "(x, x) \<in> (E \<union> F)\<^sup>+"
  have "(a, b) \<in> (E \<union> F)\<^sup>+ \<Longrightarrow> (a, b) \<in> E\<^sup>+ \<or> b \<in> S" for a b
    by (induction rule: trancl_induct) (use assms in \<open>auto intro: trancl_into_trancl\<close>)
  from this [OF c] have "x \<in> S" using assms(1) by (auto simp: acyclic_def)
  moreover have "x \<in> Domain (E \<union> F)" using c by (metis DomainI tranclD)
  ultimately show False using assms(2-4) by auto
qed

lemma acyclic_add_sources:
  assumes "acyclic E" "S \<inter> Range E = {}" "S \<inter> A = {}" "F \<subseteq> S \<times> A"
  shows "acyclic (E \<union> F)"
  using acyclic_add_sinks [of "E\<inverse>" S A "F\<inverse>"] assms by (auto simp: acyclic_converse converse_Un [symmetric])

text \<open>Node ids that no injected node can have.\<close>

definition plain_id :: "string \<Rightarrow> bool" where
  "plain_id i \<longleftrightarrow> take 3 i \<noteq> ''rr_'' \<and> take 3 i \<noteq> ''rs_''"

lemma plain_id_simps [simp]: "plain_id i \<Longrightarrow> recv_id s m \<noteq> i" "plain_id i \<Longrightarrow> send_id s m \<noteq> i"
  by (auto simp: plain_id_def recv_id_def send_id_def)

lemma recv_id_not_send_id [simp]: "recv_id s m \<noteq> send_id s' m'"
  by (simp add: recv_id_def send_id_def)

definition recv_ids :: "string set" where "recv_ids = {recv_id d a | d a. True}"
definition send_ids :: "string set" where "send_ids = {send_id d a | d a. True}"

lemma machine_list_edges:
  assumes c: "cross_nodes (id_to_node ns) (id_to_slot ns) ns ([], first_free_slot ns) = Inr (edges, nxt)"
    and l: "local_nodes ns edges ns = Inr locals" and o: "set edges' = set edges"
  shows "dep_edges (machine_list edges' locals m)
    \<subseteq> symbolic_edges ns \<union> recv_ids \<times> sn_id ` set ns \<union> sn_id ` set ns \<times> send_ids"
proof (rule subrelI)
  fix d i
  assume "(d, i) \<in> dep_edges (machine_list edges' locals m)"
  then obtain c where c': "c \<in> set (machine_list edges' locals m)" "cn_id c = i" "d \<in> set (cn_deps c)" by (auto simp: dep_edges_def)
  then consider (recv) ke where "c = recv_node ke"
    | (local) n where "n \<in> set ns" "the_machine n = m" "local_node ns edges n = Inr c"
    | (send) src b e where "((src, b), e) \<in> set edges" "c = send_node ((src, b), e)"
    unfolding set_machine_list [OF l o] by auto
  then show "(d, i) \<in> symbolic_edges ns \<union> recv_ids \<times> sn_id ` set ns \<union> sn_id ` set ns \<times> send_ids"
  proof cases
    case recv
    then show ?thesis using c'(3) by (simp add: recv_node_def split: prod.splits)
  next
    case local
    then obtain x where "d = local_dep ns m x" "x \<in> set (sn_deps n)" "sn_id n = i" using local_node_some [OF local(3)] c' by auto
    then show ?thesis using local(1) by (auto simp: local_dep_def Let_def symbolic_edges_def recv_ids_def)
  next
    case send
    then obtain dep where "id_to_node ns src = Some dep"
      using cross_nodes_spec [OF c edges_ok_init, unfolded edges_ok_def fst_conv] by fastforce
    then have "src \<in> sn_id ` set ns" using id_to_node_some by fastforce
    then show ?thesis using send c'(2,3) by (auto simp: send_node_def send_ids_def)
  qed
qed

section \<open>A chain over three machines\<close>

lemma show_small: "show_nat 0 = ''0''" "show_nat (Suc 0) = ''1''" "show_nat 2 = ''2''"
  by code_simp+
lemma bfs_Nil: "bfs succs t [] visited = Some False" by (simp add: bfs.simps)
lemma bfs_Cons:
  "bfs succs t (n # queue) visited =
     (if n = t then Some True else if n \<in> visited then bfs succs t queue visited
      else bfs succs t (queue @ succs n) (insert n visited))"
  by (simp add: bfs.simps)

definition relay_node :: "string \<Rightarrow> string list \<Rightarrow> nat \<Rightarrow> nat \<Rightarrow> rat symbolic_node" where
  "relay_node nid ds m slot =
     (pinned_node nid ds m (variant ''Func'' [(''func'', JString nid), (''arg'', jnat slot)]))\<lparr>sn_output_slot := Some slot\<rparr>"

definition relay :: "rat symbolic_node list" where
  "relay = [relay_node ''n1'' [] 0 2, relay_node ''n2'' [''n1''] 1 3, relay_node ''n3'' [''n2''] 2 4,
            relay_node ''n4'' [''n3''] 1 5, relay_node ''n5'' [''n4''] 0 6]"

lemmas relay_simps = relay_def relay_node_def pinned_node_def variant_def jnat_def

lemma relay_valid: "validate_nodes (sn_id ` set relay) 3 relay = None" by (simp add: relay_simps)

lemma relay_first_free: "first_free_slot relay = 7"
  by (simp add: relay_simps first_free_slot_def u32_max_def)

definition relay_edges :: edge_map where
  "relay_edges =
   [((''n1'', 1), \<lparr>ce_src_machine = 0, ce_src_slot = 2, ce_dest_machine = 1, ce_recv_slot = 7\<rparr>),
    ((''n2'', 2), \<lparr>ce_src_machine = 1, ce_src_slot = 3, ce_dest_machine = 2, ce_recv_slot = 8\<rparr>),
    ((''n3'', 1), \<lparr>ce_src_machine = 2, ce_src_slot = 4, ce_dest_machine = 1, ce_recv_slot = 9\<rparr>),
    ((''n4'', 0), \<lparr>ce_src_machine = 1, ce_src_slot = 5, ce_dest_machine = 0, ce_recv_slot = 10\<rparr>)]"

lemma relay_cross:
  "cross_nodes (id_to_node relay) (id_to_slot relay) relay ([], first_free_slot relay) = Inr (relay_edges, 11)"
  unfolding relay_first_free
  by (simp add: relay_simps relay_edges_def id_to_node_def id_to_slot_def node_slot_def the_machine_def)

definition relay_local :: "string \<Rightarrow> string list \<Rightarrow> nat \<Rightarrow> rat cluster_node" where
  "relay_local nid ds slot = \<lparr>cn_id = nid, cn_deps = ds, cn_kind = variant ''WasmVoid'' [(''func'', JString nid), (''arg'', jnat slot)],
     cn_barrier_group = None\<rparr>"

lemma relay_locals:
  "local_nodes relay relay_edges relay = Inr [(0, relay_local ''n1'' [] 2), (1, relay_local ''n2'' [''rr_n1_from_0''] 3),
     (2, relay_local ''n3'' [''rr_n2_from_1''] 4), (1, relay_local ''n4'' [''rr_n3_from_2''] 5), (0, relay_local ''n5'' [''rr_n4_from_1''] 6)]"
  by (simp add: relay_simps relay_edges_def local_node_def local_dep_def id_to_node_def the_machine_def relay_local_def
     resolve_upstream_nodes_def resolve_output_kind_def kind_obj_def translate_func_kind_def unwrap_or_def contains_key_def recv_id_def show_small)

definition relay_list :: "rat cluster_node list" where
  "relay_list =
     [\<lparr>cn_id = ''rr_n1_from_0'', cn_deps = [], cn_kind = remote_kind ''RemoteRecv'' 7 ''Stream'' 0, cn_barrier_group = None\<rparr>,
      \<lparr>cn_id = ''rr_n3_from_2'', cn_deps = [], cn_kind = remote_kind ''RemoteRecv'' 9 ''Stream'' 2, cn_barrier_group = None\<rparr>,
      relay_local ''n2'' [''rr_n1_from_0''] 3, relay_local ''n4'' [''rr_n3_from_2''] 5,
      \<lparr>cn_id = ''rs_n2_to_2'', cn_deps = [''n2''], cn_kind = remote_kind ''RemoteSend'' 3 ''Stream'' 2, cn_barrier_group = None\<rparr>,
      \<lparr>cn_id = ''rs_n4_to_0'', cn_deps = [''n4''], cn_kind = remote_kind ''RemoteSend'' 5 ''Stream'' 0, cn_barrier_group = None\<rparr>]"

lemma relay_machine_list:
  "machine_list relay_edges [(0, relay_local ''n1'' [] 2), (1, relay_local ''n2'' [''rr_n1_from_0''] 3),
     (2, relay_local ''n3'' [''rr_n2_from_1''] 4), (1, relay_local ''n4'' [''rr_n3_from_2''] 5), (0, relay_local ''n5'' [''rr_n4_from_1''] 6)] 1
   = relay_list"
  by (simp add: machine_list_def relay_edges_def relay_list_def recv_node_def send_node_def recv_id_def send_id_def show_small
      cross_edge_slot_kind_def)

lemma relay_pairs: "pair_candidates relay_list = [(''rr_n1_from_0'', ''rs_n4_to_0''), (''rr_n3_from_2'', ''rs_n2_to_2'')]"
  by (simp add: pair_candidates_def Let_def relay_list_def recv_peer_def send_peer_def peer_of_def remote_kind_def relay_local_def
      variant_def kind_obj_def jnat_def get_u64_def List.map_filter_def)

lemma relay_unreachable: "dag_reachable (succ_map relay_list) ''rr_n1_from_0'' ''rs_n4_to_0'' = Some False"
  by (simp add: dag_reachable_def bfs_Nil bfs_Cons succ_map_def relay_list_def relay_local_def)

lemma relay_reachable:
  "dag_reachable ((succ_map relay_list)(''rs_n4_to_0'' := succ_map relay_list ''rs_n4_to_0'' @ [''rr_n1_from_0'']))
     ''rr_n3_from_2'' ''rs_n2_to_2'' = Some True"
  by (simp add: dag_reachable_def bfs_Nil bfs_Cons succ_map_def relay_list_def relay_local_def)

lemma relay_order: "order_recvs relay_list = Some (add_dep (''rr_n1_from_0'', ''rs_n4_to_0'') relay_list)"
  unfolding order_recvs_def relay_pairs by (simp add: relay_unreachable relay_reachable)

lemma relay_hosts: "hosts 3 = [0, 1, 2]"
  by (simp add: hosts_def upt_rec)

lemma relay_split: "\<exists>dags. split_machines id relay 3 = Some (Inr dags) \<and> dags 1 = Some (add_dep (''rr_n1_from_0'', ''rs_n4_to_0'') relay_list)"
proof -
  obtain a where "order_recvs (machine_list relay_edges [(0, relay_local ''n1'' [] 2), (1, relay_local ''n2'' [''rr_n1_from_0''] 3),
     (2, relay_local ''n3'' [''rr_n2_from_1''] 4), (1, relay_local ''n4'' [''rr_n3_from_2''] 5), (0, relay_local ''n5'' [''rr_n4_from_1''] 6)] 0) = Some a"
    using order_recvs_total by blast
  moreover obtain b where "order_recvs (machine_list relay_edges [(0, relay_local ''n1'' [] 2), (1, relay_local ''n2'' [''rr_n1_from_0''] 3),
     (2, relay_local ''n3'' [''rr_n2_from_1''] 4), (1, relay_local ''n4'' [''rr_n3_from_2''] 5), (0, relay_local ''n5'' [''rr_n4_from_1''] 6)] 2) = Some b"
    using order_recvs_total by blast
  ultimately show ?thesis
    unfolding split_machines_def relay_valid relay_hosts
    using relay_machine_list relay_order by (simp add: relay_cross relay_locals)
qed

lemma relay_acyclic: "acyclic (symbolic_edges relay)"
proof -
  have "symbolic_edges relay = {(''n1'', ''n2''), (''n2'', ''n3''), (''n3'', ''n4''), (''n4'', ''n5'')}"
    by (auto simp: symbolic_edges_def relay_simps)
  then have "symbolic_edges relay \<subseteq> measure (\<lambda>s. of_char (s ! 1))" by simp
  then show ?thesis using wf_acyclic wf_measure acyclic_subset by blast
qed

section \<open>Properties\<close>

text \<open>
  C3. Dependencies survive partitioning. For every dependency of the symbolic DAG the consumer waits,
  through local dependencies and matching send/receive pairs, for the producer.
\<close>

theorem partition_enforces_deps:
  assumes "split_machines hash_order ns total_nodes = Some (Inr dags)" "\<And>es. mset (hash_order es) = mset es"
    and "total_nodes \<le> u32_max" "n \<in> set ns" "d \<in> set (sn_deps n)"
  shows "\<exists>dep. id_to_node ns d = Some dep \<and> ((the_machine dep, d), (the_machine n, sn_id n)) \<in> (wait_graph dags)\<^sup>+"
proof -
  obtain edges nxt where "cross_nodes (id_to_node ns) (id_to_slot ns) ns ([], first_free_slot ns) = Inr (edges, nxt)"
    by (rule split_machines_lists [OF assms(1,2)])
  from cross_nodes_spec [OF this edges_ok_init] assms(4,5)
  obtain dep where "id_to_node ns d = Some dep" by blast
  then show ?thesis using dep_enforced [OF assms] by blast
qed

theorem partition_enforces_deps_witness:
  "\<exists>dags. split_machines id relay 3 = Some (Inr dags) \<and> ((0, ''n1''), (1, ''n2'')) \<in> (wait_graph dags)\<^sup>+"
proof -
  obtain dags where d: "split_machines id relay 3 = Some (Inr dags)" using relay_split by blast
  have "relay ! 1 \<in> set relay" "''n1'' \<in> set (sn_deps (relay ! 1))" "3 \<le> u32_max"
    by (simp_all add: relay_simps u32_max_def)
  with partition_enforces_deps [OF d, of "relay ! 1" "''n1''"] show ?thesis
    using d by (auto simp: relay_simps id_to_node_def the_machine_def)
qed

text \<open>
  C13. Ordering pass. On an acyclic machine list the pass returns, keeps ids and kinds and every
  dependency, leaves the list acyclic, and for each receive and send with the same peer either
  makes the receive depend on the send or the send already follows the receive.
\<close>

theorem recvs_ordered_acyclic:
  assumes "acyclic (dep_edges cs)"
  shows "\<exists>cs'. order_recvs cs = Some cs' \<and> acyclic (dep_edges cs') \<and> dep_edges cs \<subseteq> dep_edges cs'
    \<and> map cn_id cs' = map cn_id cs \<and> map cn_kind cs' = map cn_kind cs
    \<and> (\<forall>a \<in> set cs. \<forall>b \<in> set cs. \<forall>p. recv_peer (cn_kind a) = Some p \<and> send_peer (cn_kind b) = Some p
         \<longrightarrow> (cn_id b, cn_id a) \<in> dep_edges cs' \<or> (cn_id a, cn_id b) \<in> (dep_edges cs')\<^sup>*)"
proof -
  obtain new where new: "order_recvs cs = Some (fold add_dep new cs)" "set new \<subseteq> set (pair_candidates cs)"
    "dep_edges (fold add_dep new cs) = dep_edges cs \<union> (set new)\<inverse>" "acyclic (dep_edges cs) \<longrightarrow> acyclic (dep_edges cs \<union> (set new)\<inverse>)"
    "\<forall>(r, s) \<in> set (pair_candidates cs). (r, s) \<in> (dep_edges cs \<union> (set new)\<inverse>)\<^sup>* \<or> (r, s) \<in> set new"
    by (rule order_recvs_spec)
  have "(cn_id b, cn_id a) \<in> dep_edges (fold add_dep new cs) \<or> (cn_id a, cn_id b) \<in> (dep_edges (fold add_dep new cs))\<^sup>*"
    if "a \<in> set cs" "b \<in> set cs" "recv_peer (cn_kind a) = Some p" "send_peer (cn_kind b) = Some p" for a b p
  proof -
    have "(cn_id a, cn_id b) \<in> set (pair_candidates cs)" using that unfolding set_pair_candidates by blast
    then show ?thesis using new(3,5) by auto
  qed
  then show ?thesis using new(1,3,4) assms fold_add_dep_frame(1,2) [of new cs]
    by (intro exI [of _ "fold add_dep new cs"] conjI ballI allI impI) auto
qed

theorem recvs_ordered_acyclic_witness:
  "\<exists>cs'. order_recvs relay_list = Some cs' \<and> acyclic (dep_edges cs')
    \<and> (''rs_n4_to_0'', ''rr_n1_from_0'') \<in> dep_edges cs' \<union> ((dep_edges cs')\<^sup>*)\<inverse>"
proof -
  have "dep_edges relay_list \<subseteq> measure (\<lambda>s. if take 2 s = ''rr'' then 0 else if take 2 s = ''rs'' then 2 else 1)"
    by (auto simp: dep_edges_def relay_list_def relay_local_def)
  then have "acyclic (dep_edges relay_list)" using wf_acyclic wf_measure acyclic_subset by blast
  from recvs_ordered_acyclic [OF this] obtain cs' where cs: "order_recvs relay_list = Some cs'" "acyclic (dep_edges cs')"
    "\<forall>a \<in> set relay_list. \<forall>b \<in> set relay_list. \<forall>p. recv_peer (cn_kind a) = Some p \<and> send_peer (cn_kind b) = Some p
       \<longrightarrow> (cn_id b, cn_id a) \<in> dep_edges cs' \<or> (cn_id a, cn_id b) \<in> (dep_edges cs')\<^sup>*" by blast
  have "relay_list ! 0 \<in> set relay_list" "relay_list ! 5 \<in> set relay_list"
    "recv_peer (cn_kind (relay_list ! 0)) = Some 0" "send_peer (cn_kind (relay_list ! 5)) = Some 0"
    "cn_id (relay_list ! 0) = ''rr_n1_from_0''" "cn_id (relay_list ! 5) = ''rs_n4_to_0''"
    by (simp_all add: relay_list_def recv_peer_def send_peer_def peer_of_def remote_kind_def variant_def kind_obj_def
        jnat_def get_u64_def)
  then have "(''rs_n4_to_0'', ''rr_n1_from_0'') \<in> dep_edges cs' \<or> (''rr_n1_from_0'', ''rs_n4_to_0'') \<in> (dep_edges cs')\<^sup>*"
    using cs(3) by metis
  then show ?thesis using cs(1,2) by blast
qed

text \<open>
  Closed machine lists. In every partition result each host has a list with all the nodes
  placed on it, and every dependency in the list is the id of a node of the same list, so no
  machine waits for a node it does not have.
\<close>

lemma machine_lists_closed:
  assumes "split_machines hash_order ns total_nodes = Some (Inr dags)" "\<And>es. mset (hash_order es) = mset es"
    and "m \<in> set (hosts total_nodes)"
  shows "\<exists>cs. dags m = Some cs \<and> (\<forall>c \<in> set cs. set (cn_deps c) \<subseteq> cn_id ` set cs)
    \<and> (\<forall>n \<in> set ns. the_machine n = m \<longrightarrow> sn_id n \<in> cn_id ` set cs)"
proof -
  obtain edges nxt locals where s: "validate_nodes (sn_id ` set ns) total_nodes ns = None"
    "cross_nodes (id_to_node ns) (id_to_slot ns) ns ([], first_free_slot ns) = Inr (edges, nxt)"
    "local_nodes ns edges ns = Inr locals"
    "\<forall>m \<in> set (hosts total_nodes). dags m = order_recvs (machine_list (hash_order edges) locals m)"
    by (rule split_machines_some [OF assms(1)])
  have o: "set (hash_order edges) = set edges" using assms(2) by (metis set_mset_mset)
  define cs where "cs = machine_list (hash_order edges) locals m"
  obtain new where new: "order_recvs cs = Some (fold add_dep new cs)" "set new \<subseteq> set (pair_candidates cs)"
    "dep_edges (fold add_dep new cs) = dep_edges cs \<union> (set new)\<inverse>"
    by (rule order_recvs_spec)
  have "(d, i) \<in> dep_edges cs \<Longrightarrow> d \<in> cn_id ` set cs" for d i
    using machine_list_closed [OF s(1-3) o] unfolding dep_edges_def cs_def by blast
  moreover have "(d, i) \<in> (set new)\<inverse> \<Longrightarrow> d \<in> cn_id ` set cs" for d i
    using new(2) by (auto simp: set_pair_candidates)
  ultimately have "(d, i) \<in> dep_edges (fold add_dep new cs) \<Longrightarrow> d \<in> cn_id ` set (fold add_dep new cs)" for d i
    unfolding new(3) ids_fold_add_dep by blast
  then have "set (cn_deps c) \<subseteq> cn_id ` set (fold add_dep new cs)" if "c \<in> set (fold add_dep new cs)" for c
    using that unfolding dep_edges_def by blast
  then show ?thesis using s(4) assms(3) new(1) local_in_list [OF s(3) o] unfolding cs_def [symmetric]
    by (auto simp: ids_fold_add_dep cs_def)
qed

text \<open>
  C12. No machine list has a dependency cycle when the symbolic DAG has none, whatever the order
  in which the map of cross edges iterates (ids of the form of injected nodes excluded).
\<close>

theorem machine_lists_acyclic:
  assumes "split_machines hash_order ns total_nodes = Some (Inr dags)" "\<And>es. mset (hash_order es) = mset es"
    and "acyclic (symbolic_edges ns)" "\<And>n. n \<in> set ns \<Longrightarrow> plain_id (sn_id n)" "m \<in> set (hosts total_nodes)"
  shows "\<exists>cs. dags m = Some cs \<and> acyclic (dep_edges cs)"
proof -
  obtain edges nxt locals where s: "validate_nodes (sn_id ` set ns) total_nodes ns = None"
    "cross_nodes (id_to_node ns) (id_to_slot ns) ns ([], first_free_slot ns) = Inr (edges, nxt)"
    "local_nodes ns edges ns = Inr locals"
    "\<forall>m \<in> set (hosts total_nodes). dags m = order_recvs (machine_list (hash_order edges) locals m)"
    by (rule split_machines_some [OF assms(1)])
  have o: "set (hash_order edges) = set edges" using assms(2) by (metis set_mset_mset)
  define cs where "cs = machine_list (hash_order edges) locals m"
  define A where "A = sn_id ` set ns"
  have "recv_id d a \<notin> A \<and> send_id d a \<notin> A" for d a
    using assms(4) plain_id_simps unfolding A_def by (metis imageE)
  then have dis: "recv_ids \<inter> A = {}" "send_ids \<inter> A = {}" "recv_ids \<inter> send_ids = {}" by (auto simp: recv_ids_def send_ids_def)
  have sym: "symbolic_edges ns \<subseteq> A \<times> A"
    using s(1) unfolding validate_nodes_spec by (auto simp: symbolic_edges_def A_def)
  have 1: "acyclic (symbolic_edges ns \<union> recv_ids \<times> A)"
    by (rule acyclic_add_sources [OF assms(3), of recv_ids A]) (use sym dis in auto)
  have "acyclic (symbolic_edges ns \<union> recv_ids \<times> A \<union> A \<times> send_ids)"
    by (rule acyclic_add_sinks [OF 1, of send_ids A]) (use sym dis in auto)
  then have "acyclic (dep_edges cs)"
    using machine_list_edges [OF s(2,3) o] unfolding cs_def A_def by (rule acyclic_subset)
  moreover obtain new where "order_recvs cs = Some (fold add_dep new cs)"
    "dep_edges (fold add_dep new cs) = dep_edges cs \<union> (set new)\<inverse>" "acyclic (dep_edges cs) \<longrightarrow> acyclic (dep_edges cs \<union> (set new)\<inverse>)"
    by (rule order_recvs_spec)
  ultimately show ?thesis using s(4) assms(5) by (simp add: cs_def)
qed

theorem machine_lists_acyclic_witness:
  "\<exists>dags cs. split_machines id relay 3 = Some (Inr dags) \<and> dags 2 = Some cs \<and> acyclic (dep_edges cs)"
proof -
  obtain dags where d: "split_machines id relay 3 = Some (Inr dags)" using relay_split by blast
  have "2 \<in> set (hosts 3)" "\<And>n. n \<in> set relay \<Longrightarrow> plain_id (sn_id n)"
    by (auto simp: relay_hosts relay_simps plain_id_def)
  with machine_lists_acyclic [OF d _ relay_acyclic, of 2] show ?thesis using d by auto
qed

text \<open>
  Matching halves. For a dependency between machines the producer's list has a send that follows
  the producer, addressed to the consumer's machine, and the consumer's list has a receive of the
  same slot kind from the producer's machine.
\<close>

lemma cross_edges_paired:
  assumes s: "split_machines hash_order ns total_nodes = Some (Inr dags)" and h: "\<And>es. mset (hash_order es) = mset es"
    and t: "total_nodes \<le> u32_max" and n: "n \<in> set ns" "d \<in> set (sn_deps n)" "id_to_node ns d = Some dep"
    and x: "the_machine dep \<noteq> the_machine n"
  shows "\<exists>ca cb src_slot recv_slot s r. dags (the_machine dep) = Some ca \<and> dags (the_machine n) = Some cb
    \<and> id_to_slot ns d = Some src_slot \<and> s \<in> set ca \<and> r \<in> set cb
    \<and> cn_id s = send_id d (the_machine n) \<and> d \<in> set (cn_deps s)
    \<and> cn_kind s = remote_kind ''RemoteSend'' src_slot (cross_edge_slot_kind src_slot) (the_machine n)
    \<and> cn_id r = recv_id d (the_machine dep)
    \<and> cn_kind r = remote_kind ''RemoteRecv'' recv_slot (cross_edge_slot_kind src_slot) (the_machine dep)"
  by (rule cross_lists [OF assms])

text \<open>
  Receive slots. As long as the slot numbers stay below the 32-bit limit, the slots given to
  receives are pairwise distinct and none of them occurs in the kind of a node.
\<close>

lemma recv_slots_fresh:
  assumes "cross_nodes (id_to_node ns) (id_to_slot ns) ns ([], first_free_slot ns) = Inr (edges, nxt)"
    and "\<And>n s. n \<in> set ns \<Longrightarrow> s \<in> set (collect_slots (sn_kind n)) \<Longrightarrow> s + length edges < u32_max"
    and "length edges < u32_max"
  shows "distinct (map (\<lambda>ke. ce_recv_slot (snd ke)) edges)
    \<and> (\<forall>ke \<in> set edges. \<forall>n \<in> set ns. ce_recv_slot (snd ke) \<notin> set (collect_slots (sn_kind n)))"
proof -
  define used where "used = concat (map (\<lambda>n. collect_slots (sn_kind n)) ns)"
  define M where "M = fold max used 0"
  have M: "M = Max (insert 0 (set used))" unfolding M_def Max.set_eq_fold [symmetric] by simp
  then have le: "s \<le> M" if "s \<in> set used" for s using that by simp
  have "M \<in> insert 0 (set used)" unfolding M by (rule Max_in) auto
  then have bound: "M + length edges < u32_max" using assms(2,3) by (auto simp: used_def)
  have "edges_ok (id_to_node ns) (id_to_slot ns) (first_free_slot ns) (edges, nxt)"
    using cross_nodes_spec [OF assms(1) edges_ok_init] by blast
  then have "map (\<lambda>ke. ce_recv_slot (snd ke)) edges = map (\<lambda>i. wrap32 (first_free_slot ns + i)) [0..<length edges]"
    by (simp add: edges_ok_def)
  also have "\<dots> = map (\<lambda>i. M + 1 + i) [0..<length edges]"
    using bound by (auto simp: first_free_slot_def used_def [symmetric] M_def [symmetric] u32_max_def)
  finally have slots: "map (\<lambda>ke. ce_recv_slot (snd ke)) edges = map (\<lambda>i. M + 1 + i) [0..<length edges]" .
  have "ce_recv_slot (snd ke) > M" if "ke \<in> set edges" for ke
  proof -
    have "ce_recv_slot (snd ke) \<in> set (map (\<lambda>i. M + 1 + i) [0..<length edges])" using that unfolding slots [symmetric] by simp
    then show ?thesis by auto
  qed
  then have "ce_recv_slot (snd ke) \<notin> set used" if "ke \<in> set edges" for ke using le that by fastforce
  moreover have "distinct (map (\<lambda>ke. ce_recv_slot (snd ke)) edges)" unfolding slots by (simp add: distinct_map inj_on_def)
  ultimately show ?thesis by (auto simp: used_def)
qed

text \<open>
  The ordering pass can close a cycle across machines. Five tasks that hand one stream on, \<open>n1\<close> on machine 0,
  \<open>n2\<close> on 1, \<open>n3\<close> on 2, \<open>n4\<close> on 1 and \<open>n5\<close> on 0, form an acyclic DAG, and the splitter (with the cross edges in
  insertion order) accepts it; but on machine 1, which receives from and later sends to machine 0, the receive of
  the first stream is made to wait for the send of the last one, and the wait graph of the three lists has a cycle.
\<close>

lemma relay_wait_cycle:
  "\<exists>dags. split_machines id relay 3 = Some (Inr dags) \<and> acyclic (symbolic_edges relay) \<and> \<not> acyclic (wait_graph dags)"
proof -
  obtain dags where d: "split_machines id relay 3 = Some (Inr dags)" "dags 1 = Some (add_dep (''rr_n1_from_0'', ''rs_n4_to_0'') relay_list)"
    using relay_split by blast
  have "dep_edges (add_dep (''rr_n1_from_0'', ''rs_n4_to_0'') relay_list) = insert (''rs_n4_to_0'', ''rr_n1_from_0'') (dep_edges relay_list)"
    by (simp add: dep_edges_add_dep relay_list_def)
  moreover have "{(''rr_n1_from_0'', ''n2''), (''n4'', ''rs_n4_to_0'')} \<subseteq> dep_edges relay_list"
    by (simp add: dep_edges_def relay_list_def relay_local_def)
  ultimately have w: "((1, ''n4''), (1, ''rs_n4_to_0'')) \<in> wait_graph dags" "((1, ''rs_n4_to_0''), (1, ''rr_n1_from_0'')) \<in> wait_graph dags"
    "((1, ''rr_n1_from_0''), (1, ''n2'')) \<in> wait_graph dags"
    using d(2) unfolding wait_graph_def by blast+
  note enf = dep_enforced [OF d(1), simplified]
  have "((1, ''n2''), (2, ''n3'')) \<in> (wait_graph dags)\<^sup>+" "((2, ''n3''), (1, ''n4'')) \<in> (wait_graph dags)\<^sup>+"
    using enf [of "relay ! 2" "''n2''" "relay ! 1"] enf [of "relay ! 3" "''n3''" "relay ! 2"]
    by (simp_all add: relay_simps u32_max_def id_to_node_def the_machine_def)
  then have "((1, ''n2''), (1, ''n2'')) \<in> (wait_graph dags)\<^sup>+" using w by (meson trancl_into_trancl trancl_trans)
  then show ?thesis using d(1) relay_acyclic unfolding acyclic_def by blast
qed

end
