(* ===== verification/Extended_Pool.thy ===== *)
theory Extended_Pool
  imports Shm_Layout
begin

text \<open>
  The extended pool of the host (\<open>host/src/runtime/extended_pool\<close>): the global pool of overflow
  pages (\<open>global_pool.rs\<close>), the resolution buffer that maps them into slots of the wasm32 window
  (\<open>resolution_buffer.rs\<close>), the mode machine (\<open>mode.rs\<close>), the pool itself (\<open>mod.rs\<close>) and its
  process-wide wrapper (\<open>runtime.rs\<close>). Addresses are offsets from the base of the window. What the
  operating system answers to a file or mapping request is the parameter \<open>os\<close>; an operation that
  fails returns its error together with the state it leaves behind.
\<close>

section \<open>Mode\<close>

datatype mode = Direct | Paged

text \<open>\<open>WEBS_FORCE_FLIP_AT\<close>, parsed once, is the argument \<open>force\<close>.\<close>

definition should_enter_paged :: "nat option \<Rightarrow> nat \<Rightarrow> bool" where
  "should_enter_paged force bump =
     (case force of Some thresh \<Rightarrow> thresh \<le> bump
      | None \<Rightarrow> DIRECT_LIMIT * PAGED_MODE_ENTER_NUM \<le> bump * PAGED_MODE_ENTER_DEN)"

definition should_exit_paged :: "nat \<Rightarrow> nat \<Rightarrow> bool" where
  "should_exit_paged bump live \<longleftrightarrow>
     live = 0 \<and> bump * PAGED_MODE_EXIT_DEN < DIRECT_LIMIT * PAGED_MODE_EXIT_NUM"

section \<open>Global pool\<close>

definition GLOBAL_POOL_INITIAL_SIZE :: nat where "GLOBAL_POOL_INITIAL_SIZE = 268435456"
definition GLOBAL_POOL_HARD_LIMIT :: nat where "GLOBAL_POOL_HARD_LIMIT = 8589934592"
definition FLIP_SEED_SLOTS :: nat where "FLIP_SEED_SLOTS = 4096"

datatype pool_err =
    ZeroInitial | OverLimit nat | NotAligned nat | OsFailure | AtHardLimit
  | ZeroPages | NoSlot | LruOutOfSync | WrongMode mode | NoGlobalPool | NoBuffer | SeedFailed nat

record os =
  os_size :: "nat \<Rightarrow> bool"              \<comment> \<open>\<open>set_len\<close> and the overlay of a pool file of that size\<close>
  os_overlay :: "nat \<Rightarrow> nat \<Rightarrow> bool"     \<comment> \<open>mapping a file offset onto a window slot\<close>
  os_advise :: "nat \<Rightarrow> bool"            \<comment> \<open>\<open>madvise\<close> on a pool page\<close>
  os_grow :: "nat \<Rightarrow> bool"              \<comment> \<open>growing the region's file and mapping to a size\<close>

record global_pool =
  committed :: nat
  gp_bump :: nat
  gp_freelist :: "nat list"             \<comment> \<open>a stack, its top at the end\<close>

definition global_pool_new :: "os \<Rightarrow> nat \<Rightarrow> pool_err + global_pool" where
  "global_pool_new os initial =
     (if initial = 0 then Inl ZeroInitial
      else if GLOBAL_POOL_HARD_LIMIT < initial then Inl (OverLimit initial)
      else if initial mod PAGE_SIZE \<noteq> 0 then Inl (NotAligned initial)
      else if \<not> os_size os initial then Inl OsFailure
      else Inr \<lparr>committed = initial, gp_bump = 0, gp_freelist = []\<rparr>)"

definition gp_expand :: "os \<Rightarrow> global_pool \<Rightarrow> pool_err + global_pool" where
  "gp_expand os gp =
     (let new_committed = min (committed gp * 2) GLOBAL_POOL_HARD_LIMIT in
      if new_committed = committed gp then Inl AtHardLimit
      else if \<not> os_size os new_committed then Inl OsFailure
      else Inr (gp\<lparr>committed := new_committed\<rparr>))"

definition gp_take :: "global_pool \<Rightarrow> nat \<times> global_pool" where
  "gp_take gp = (DIRECT_LIMIT + gp_bump gp, gp\<lparr>gp_bump := gp_bump gp + PAGE_SIZE\<rparr>)"

definition gp_alloc :: "os \<Rightarrow> global_pool \<Rightarrow> pool_err + nat \<times> global_pool" where
  "gp_alloc os gp =
     (if gp_freelist gp \<noteq> [] then Inr (last (gp_freelist gp), gp\<lparr>gp_freelist := butlast (gp_freelist gp)\<rparr>)
      else if committed gp < gp_bump gp + PAGE_SIZE
      then (case gp_expand os gp of Inl e \<Rightarrow> Inl e | Inr gp' \<Rightarrow> Inr (gp_take gp'))
      else Inr (gp_take gp))"

definition gp_free :: "nat \<Rightarrow> global_pool \<Rightarrow> global_pool" where
  "gp_free i gp = gp\<lparr>gp_freelist := gp_freelist gp @ [i]\<rparr>"

definition file_offset_of :: "nat \<Rightarrow> nat" where
  "file_offset_of i = i - DIRECT_LIMIT"

definition trim_freelist :: "os \<Rightarrow> global_pool \<Rightarrow> nat" where
  "trim_freelist os gp =
     length (filter (\<lambda>i. file_offset_of i + PAGE_SIZE \<le> committed gp \<and> os_advise os i) (gp_freelist gp))"

section \<open>Resolution buffer\<close>

record resolution_buffer =
  free_slots :: "nat list"              \<comment> \<open>a stack, its top at the end\<close>
  residents :: "nat \<rightharpoonup> nat"
  slot_to_page :: "nat \<rightharpoonup> nat"
  lru :: "nat list"                     \<comment> \<open>oldest first\<close>
  pinned :: "nat set"
  generation :: nat

definition resolution_buffer_new :: resolution_buffer where
  "resolution_buffer_new = \<lparr>free_slots = [], residents = Map.empty, slot_to_page = Map.empty, lru = [],
     pinned = {}, generation = 0\<rparr>"

definition slot_addr :: "nat \<Rightarrow> nat" where
  "slot_addr slot = slot * PAGE_SIZE"

definition touch :: "nat \<Rightarrow> resolution_buffer \<Rightarrow> resolution_buffer" where
  "touch slot b = b\<lparr>lru := remove1 slot (lru b) @ [slot]\<rparr>"

definition rb_get :: "nat \<Rightarrow> resolution_buffer \<Rightarrow> (nat \<times> resolution_buffer) option" where
  "rb_get i b = map_option (\<lambda>slot. (slot_addr slot, touch slot b)) (residents b i)"

definition evict_lru :: "resolution_buffer \<Rightarrow> pool_err + nat \<times> resolution_buffer" where
  "evict_lru b =
     (case find (\<lambda>slot. slot \<notin> pinned b) (lru b) of
        None \<Rightarrow> Inl NoSlot
      | Some slot \<Rightarrow>
          (case slot_to_page b slot of
             None \<Rightarrow> Inl LruOutOfSync
           | Some i \<Rightarrow>
               Inr (slot, b\<lparr>lru := remove1 slot (lru b), slot_to_page := (slot_to_page b)(slot := None),
                            residents := (residents b)(i := None), generation := wrap32 (generation b + 1)\<rparr>)))"

definition take_slot :: "resolution_buffer \<Rightarrow> pool_err + nat \<times> resolution_buffer" where
  "take_slot b =
     (if free_slots b \<noteq> [] then Inr (last (free_slots b), b\<lparr>free_slots := butlast (free_slots b)\<rparr>)
      else evict_lru b)"

definition rb_install :: "os \<Rightarrow> nat \<Rightarrow> resolution_buffer \<Rightarrow> (pool_err + nat) \<times> resolution_buffer" where
  "rb_install os i b =
     (case rb_get i b of
        Some (p, b') \<Rightarrow> (Inr p, b')
      | None \<Rightarrow>
          (case take_slot b of
             Inl e \<Rightarrow> (Inl e, b)
           | Inr (slot, b') \<Rightarrow>
               if \<not> os_overlay os slot (file_offset_of i) then (Inl OsFailure, b')
               else (Inr (slot_addr slot),
                     b'\<lparr>residents := (residents b')(i \<mapsto> slot), slot_to_page := (slot_to_page b')(slot \<mapsto> i),
                        lru := lru b' @ [slot]\<rparr>)))"

definition release_direct_slot :: "nat \<Rightarrow> resolution_buffer \<Rightarrow> resolution_buffer" where
  "release_direct_slot slot b =
     (if slot_to_page b slot \<noteq> None \<or> slot \<in> set (free_slots b) then b
      else b\<lparr>free_slots := free_slots b @ [slot]\<rparr>)"

definition rb_evict :: "nat \<Rightarrow> resolution_buffer \<Rightarrow> bool \<times> resolution_buffer" where
  "rb_evict i b =
     (case residents b i of
        None \<Rightarrow> (False, b)
      | Some slot \<Rightarrow>
          (True, b\<lparr>residents := (residents b)(i := None), slot_to_page := (slot_to_page b)(slot := None),
                   lru := remove1 slot (lru b), pinned := pinned b - {slot}, free_slots := free_slots b @ [slot],
                   generation := wrap32 (generation b + 1)\<rparr>))"

definition drain_free_slots :: "resolution_buffer \<Rightarrow> nat list \<times> resolution_buffer" where
  "drain_free_slots b = (free_slots b, b\<lparr>free_slots := []\<rparr>)"

definition pin :: "nat \<Rightarrow> resolution_buffer \<Rightarrow> resolution_buffer" where
  "pin slot b = b\<lparr>pinned := insert slot (pinned b)\<rparr>"

definition unpin :: "nat \<Rightarrow> resolution_buffer \<Rightarrow> resolution_buffer" where
  "unpin slot b = b\<lparr>pinned := pinned b - {slot}\<rparr>"

section \<open>The pool\<close>

record extended_pool =
  ep_mode :: mode
  global_live :: nat
  last_bump :: nat
  gpool :: "global_pool option"
  rbuf :: "resolution_buffer option"

definition extended_pool_new :: extended_pool where
  "extended_pool_new = \<lparr>ep_mode = Direct, global_live = 0, last_bump = 0, gpool = None, rbuf = None\<rparr>"

text \<open>
  The state of a host process: the region, its extended pool with the published mode flag, its
  shard counter, and whether the region's file is registered for growth.
\<close>

record host = shm +
  ext :: extended_pool
  mode_flag :: mode
  host_shard :: nat
  grower :: bool

definition seed_residency :: "nat \<Rightarrow> 'a host_scheme \<Rightarrow> (pool_err + unit) \<times> 'a host_scheme" where
  "seed_residency count h =
     (case rbuf (ext h) of
        None \<Rightarrow> (Inl NoBuffer, h)
      | Some buf \<Rightarrow>
          (let bytes = wrap32 (PAGE_SIZE * count); start = bump_allocator h in
           if global_capacity h < wrap32 (start + bytes) then (Inl (SeedFailed bytes), h)
           else (Inr (), h\<lparr>bump_allocator := wrap32 (start + bytes),
                   ext := (ext h)\<lparr>rbuf := Some (fold (\<lambda>i. release_direct_slot (wrap32 (start + i * PAGE_SIZE) div PAGE_SIZE))
                                           [0..<count] buf)\<rparr>\<rparr>)))"

definition flip_to_paged :: "os \<Rightarrow> 'a host_scheme \<Rightarrow> (pool_err + unit) \<times> 'a host_scheme" where
  "flip_to_paged os h =
     (if ep_mode (ext h) = Paged then (Inr (), h)
      else case global_pool_new os GLOBAL_POOL_INITIAL_SIZE of
             Inl e \<Rightarrow> (Inl e, h)
           | Inr gp \<Rightarrow>
               (Inr (), snd (seed_residency FLIP_SEED_SLOTS
                  (h\<lparr>ext := (ext h)\<lparr>gpool := Some gp, rbuf := Some resolution_buffer_new, ep_mode := Paged\<rparr>\<rparr>))))"

definition check_bump :: "os \<Rightarrow> nat option \<Rightarrow> nat \<Rightarrow> 'a host_scheme \<Rightarrow> (pool_err + unit) \<times> 'a host_scheme" where
  "check_bump os force new_bump h =
     (let h1 = h\<lparr>ext := (ext h)\<lparr>last_bump := new_bump\<rparr>\<rparr> in
      if ep_mode (ext h) = Paged then (Inr (), h1)
      else if should_enter_paged force new_bump then flip_to_paged os h1 else (Inr (), h1))"

definition pool_alloc_page :: "os \<Rightarrow> extended_pool \<Rightarrow> (pool_err + nat \<times> nat) \<times> extended_pool" where
  "pool_alloc_page os ep =
     (if ep_mode ep \<noteq> Paged then (Inl (WrongMode (ep_mode ep)), ep)
      else case (gpool ep, rbuf ep) of
             (None, _) \<Rightarrow> (Inl NoGlobalPool, ep)
           | (Some gp, None) \<Rightarrow> (Inl NoBuffer, ep)
           | (Some gp, Some buf) \<Rightarrow>
               (case gp_alloc os gp of
                  Inl e \<Rightarrow> (Inl e, ep)
                | Inr (i, gp') \<Rightarrow>
                    (case rb_install os i buf of
                       (Inl e, buf') \<Rightarrow> (Inl e, ep\<lparr>gpool := Some gp', rbuf := Some buf'\<rparr>)
                     | (Inr p, buf') \<Rightarrow>
                         (Inr (i, p), ep\<lparr>gpool := Some gp', rbuf := Some buf', global_live := global_live ep + 1\<rparr>))))"

definition pool_free_page :: "nat \<Rightarrow> extended_pool \<Rightarrow> (pool_err + unit) \<times> extended_pool" where
  "pool_free_page i ep =
     (if ep_mode ep \<noteq> Paged then (Inl (WrongMode (ep_mode ep)), ep)
      else case (gpool ep, rbuf ep) of
             (None, _) \<Rightarrow> (Inl NoGlobalPool, ep)
           | (Some gp, None) \<Rightarrow> (Inl NoBuffer, ep)
           | (Some gp, Some buf) \<Rightarrow>
               (Inr (), ep\<lparr>gpool := Some (gp_free i gp), rbuf := Some (snd (rb_evict i buf)),
                           global_live := global_live ep - 1\<rparr>))"

definition on_direct_free :: "nat \<Rightarrow> extended_pool \<Rightarrow> extended_pool" where
  "on_direct_free i ep =
     (if ep_mode ep \<noteq> Paged then ep
      else ep\<lparr>rbuf := map_option (release_direct_slot (i div PAGE_SIZE)) (rbuf ep)\<rparr>)"

definition pool_resolve :: "os \<Rightarrow> nat \<Rightarrow> extended_pool \<Rightarrow> (pool_err + nat) \<times> extended_pool" where
  "pool_resolve os i ep =
     (if i < DIRECT_LIMIT then (Inr i, ep)
      else case (gpool ep, rbuf ep) of
             (None, _) \<Rightarrow> (Inl NoGlobalPool, ep)
           | (Some gp, None) \<Rightarrow> (Inl NoBuffer, ep)
           | (Some gp, Some buf) \<Rightarrow>
               (case rb_get i buf of
                  Some (p, buf') \<Rightarrow> (Inr p, ep\<lparr>rbuf := Some buf'\<rparr>)
                | None \<Rightarrow>
                    (case rb_install os i buf of (r, buf') \<Rightarrow> (r, ep\<lparr>rbuf := Some buf'\<rparr>))))"

section \<open>The process-wide wrapper\<close>

text \<open>\<open>EXTENDED_POOL_ENABLED\<close> is on; the pool's mutex is free when a single thread runs.\<close>

definition current_mode :: "'a host_scheme \<Rightarrow> mode" where
  "current_mode h = mode_flag h"

definition notify_bump_advance :: "os \<Rightarrow> nat option \<Rightarrow> nat \<Rightarrow> 'a host_scheme \<Rightarrow> 'a host_scheme" where
  "notify_bump_advance os force new_bump h =
     (if mode_flag h = Paged \<or> \<not> should_enter_paged force new_bump then h
      else if ep_mode (ext h) \<noteq> Direct then h
      else case check_bump os force new_bump h of
             (Inl e, h') \<Rightarrow> h'
           | (Inr _, h') \<Rightarrow> (if ep_mode (ext h') = Paged then h'\<lparr>mode_flag := Paged\<rparr> else h'))"

text \<open>The explicit flip (\<open>runtime::flip_to_paged\<close>), which publishes the mode.\<close>

definition host_flip_to_paged :: "os \<Rightarrow> 'a host_scheme \<Rightarrow> (pool_err + mode) \<times> 'a host_scheme" where
  "host_flip_to_paged os h =
     (case flip_to_paged os h of
        (Inl e, h') \<Rightarrow> (Inl e, h')
      | (Inr _, h') \<Rightarrow> (Inr (ep_mode (ext h')), h'\<lparr>mode_flag := Paged\<rparr>))"

definition host_resolve :: "os \<Rightarrow> nat \<Rightarrow> 'a host_scheme \<Rightarrow> (pool_err + nat) \<times> 'a host_scheme" where
  "host_resolve os i h =
     (if i < DIRECT_LIMIT then (Inr i, h)
      else case pool_resolve os i (ext h) of (r, ep) \<Rightarrow> (r, h\<lparr>ext := ep\<rparr>))"

definition alloc_paged_page :: "os \<Rightarrow> 'a host_scheme \<Rightarrow> (pool_err + nat \<times> nat) \<times> 'a host_scheme" where
  "alloc_paged_page os h =
     (if ep_mode (ext h) \<noteq> Paged then (Inl (WrongMode (ep_mode (ext h))), h)
      else case pool_alloc_page os (ext h) of (r, ep) \<Rightarrow> (r, h\<lparr>ext := ep\<rparr>))"

definition free_paged_page :: "nat \<Rightarrow> 'a host_scheme \<Rightarrow> (pool_err + unit) \<times> 'a host_scheme" where
  "free_paged_page i h = (case pool_free_page i (ext h) of (r, ep) \<Rightarrow> (r, h\<lparr>ext := ep\<rparr>))"

definition notify_direct_free :: "nat \<Rightarrow> 'a host_scheme \<Rightarrow> 'a host_scheme" where
  "notify_direct_free i h = (if mode_flag h \<noteq> Paged then h else h\<lparr>ext := on_direct_free i (ext h)\<rparr>)"

section \<open>Invariant of the resolution buffer\<close>

text \<open>
  The two maps are inverse to each other, the queue lists exactly the occupied slots, once each, and
  a free slot is neither listed twice nor occupied.
\<close>

definition rb_ok :: "resolution_buffer \<Rightarrow> bool" where
  "rb_ok b \<longleftrightarrow> (\<forall>i slot. residents b i = Some slot \<longleftrightarrow> slot_to_page b slot = Some i)
     \<and> distinct (lru b) \<and> set (lru b) = dom (slot_to_page b)
     \<and> distinct (free_slots b) \<and> set (free_slots b) \<inter> dom (slot_to_page b) = {}"

lemma rb_okD:
  assumes "rb_ok b"
  shows "residents b i = Some slot \<longleftrightarrow> slot_to_page b slot = Some i" "distinct (lru b)"
    "set (lru b) = dom (slot_to_page b)" "distinct (free_slots b)" "set (free_slots b) \<inter> dom (slot_to_page b) = {}"
  using assms unfolding rb_ok_def by blast+

lemma rb_ok_unmap:
  assumes b: "rb_ok b" and s: "slot_to_page b slot = Some i"
    and b': "residents b' = (residents b)(i := None)" "slot_to_page b' = (slot_to_page b)(slot := None)"
      "lru b' = remove1 slot (lru b)" "distinct (free_slots b')" "set (free_slots b') \<subseteq> insert slot (set (free_slots b))"
  shows "rb_ok b'"
proof -
  note d = rb_okD [OF b]
  have "residents b' j = Some t \<longleftrightarrow> slot_to_page b' t = Some j" for j t
  proof -
    have "residents b' j = Some t \<longleftrightarrow> j \<noteq> i \<and> residents b j = Some t" "slot_to_page b' t = Some j \<longleftrightarrow> t \<noteq> slot \<and> slot_to_page b t = Some j"
      by (simp_all add: b')
    then show ?thesis using d(1) s by (metis option.inject)
  qed
  moreover have "set (lru b') = dom (slot_to_page b')" using d(2,3) by (simp add: b')
  ultimately show ?thesis using d(2,5) b'(4,5) unfolding rb_ok_def b'(2,3) by auto
qed

lemma rb_ok_new: "rb_ok resolution_buffer_new"
  by (simp add: rb_ok_def resolution_buffer_new_def)

lemma rb_ok_touch: "rb_ok b \<Longrightarrow> slot \<in> set (lru b) \<Longrightarrow> rb_ok (touch slot b)"
  by (auto simp: rb_ok_def touch_def)

lemma rb_ok_get: "rb_ok b \<Longrightarrow> rb_get i b = Some (p, b') \<Longrightarrow> rb_ok b'"
proof -
  assume b: "rb_ok b" and g: "rb_get i b = Some (p, b')"
  then obtain slot where slot: "residents b i = Some slot" "b' = touch slot b" by (auto simp: rb_get_def)
  then have "slot \<in> set (lru b)" using rb_okD(1) [OF b, of i slot] rb_okD(3) [OF b] by auto
  then show "rb_ok b'" using slot(2) rb_ok_touch [OF b] by simp
qed

lemma butlast_last: "xs \<noteq> [] \<Longrightarrow> distinct xs \<Longrightarrow> distinct (butlast xs) \<and> set (butlast xs) = set xs - {last xs}"
  by (cases xs rule: rev_cases) auto

text \<open>Taking a slot: a free one, or the oldest unpinned one.\<close>

lemma take_slot_ok:
  assumes b: "rb_ok b" and t: "take_slot b = Inr (slot, b')"
  shows "rb_ok b'" "slot_to_page b' slot = None" "slot \<notin> set (free_slots b')"
    "residents b' = (if free_slots b \<noteq> [] then residents b else (residents b)(the (slot_to_page b slot) := None))"
    "free_slots b = [] \<Longrightarrow> \<exists>xs ys. lru b = xs @ slot # ys \<and> set xs \<subseteq> pinned b \<and> slot \<notin> pinned b"
proof -
  note d = rb_okD [OF b]
  have 1: "rb_ok b' \<and> slot_to_page b' slot = None \<and> slot \<notin> set (free_slots b') \<and> residents b' = residents b" if "free_slots b \<noteq> []"
  proof -
    have slot: "slot = last (free_slots b)" "b' = b\<lparr>free_slots := butlast (free_slots b)\<rparr>" using t that by (auto simp: take_slot_def)
    then have "slot \<in> set (free_slots b)" using that by simp
    then have "slot_to_page b slot = None" using d(5) by blast
    then show ?thesis using slot b d(5) butlast_last [OF that d(4)] by (auto simp: rb_ok_def)
  qed
  have 2: "rb_ok b' \<and> slot_to_page b' slot = None \<and> slot \<notin> set (free_slots b')
      \<and> residents b' = (residents b)(the (slot_to_page b slot) := None)
      \<and> (\<exists>xs ys. lru b = xs @ slot # ys \<and> set xs \<subseteq> pinned b \<and> slot \<notin> pinned b)" if e: "free_slots b = []"
  proof -
    obtain i where i: "find (\<lambda>slot. slot \<notin> pinned b) (lru b) = Some slot" "slot_to_page b slot = Some i"
      "b' = b\<lparr>lru := remove1 slot (lru b), slot_to_page := (slot_to_page b)(slot := None),
              residents := (residents b)(i := None), generation := wrap32 (generation b + 1)\<rparr>"
      using t e by (auto simp: take_slot_def evict_lru_def split: option.splits)
    have "\<exists>xs ys. lru b = xs @ slot # ys \<and> set xs \<subseteq> pinned b \<and> slot \<notin> pinned b"
      using i(1) unfolding find_Some_iff
      by (metis (no_types, lifting) id_take_nth_drop in_set_conv_nth length_take less_or_eq_imp_le min.absorb2 nth_take subsetI)
    moreover have "rb_ok b'" by (rule rb_ok_unmap [OF b i(2)]) (simp_all add: i(3) e)
    ultimately show ?thesis using i e by auto
  qed
  show "rb_ok b'" "slot_to_page b' slot = None" "slot \<notin> set (free_slots b')"
    "residents b' = (if free_slots b \<noteq> [] then residents b else (residents b)(the (slot_to_page b slot) := None))"
    "free_slots b = [] \<Longrightarrow> \<exists>xs ys. lru b = xs @ slot # ys \<and> set xs \<subseteq> pinned b \<and> slot \<notin> pinned b"
    using 1 2 by (cases "free_slots b = []"; simp)+
qed

lemma rb_ok_install:
  assumes b: "rb_ok b" and r: "rb_install os i b = (r, b')"
  shows "rb_ok b'"
proof (cases "rb_get i b")
  case (Some q)
  then show ?thesis using r rb_ok_get [OF b] by (cases q) (auto simp: rb_install_def)
next
  case None
  then have "residents b i = None" by (simp add: rb_get_def)
  show ?thesis
  proof (cases "take_slot b")
    case (Inl e)
    then show ?thesis using r None b by (simp add: rb_install_def)
  next
    case (Inr q)
    then obtain slot b1 where q: "take_slot b = Inr (slot, b1)" by (cases q) auto
    note ts = take_slot_ok [OF b q]
    have "residents b1 i = None" using ts(4) \<open>residents b i = None\<close> by (auto split: if_splits)
    then have "rb_ok (b1\<lparr>residents := (residents b1)(i \<mapsto> slot), slot_to_page := (slot_to_page b1)(slot \<mapsto> i), lru := lru b1 @ [slot]\<rparr>)"
      using ts(1-3) unfolding rb_ok_def by (auto; metis option.distinct(1) option.inject)
    then show ?thesis using r None q ts(1) by (auto simp: rb_install_def split: if_splits)
  qed
qed

lemma rb_ok_release: "rb_ok b \<Longrightarrow> rb_ok (release_direct_slot slot b)"
  by (auto simp: rb_ok_def release_direct_slot_def)

lemma rb_ok_evict: "rb_ok b \<Longrightarrow> rb_ok (snd (rb_evict i b))"
proof (cases "residents b i")
  case (Some slot)
  assume b: "rb_ok b"
  note d = rb_okD [OF b]
  have s: "slot_to_page b slot = Some i" using d(1) Some by blast
  define b' where "b' = snd (rb_evict i b)"
  have b': "residents b' = (residents b)(i := None)" "slot_to_page b' = (slot_to_page b)(slot := None)"
    "lru b' = remove1 slot (lru b)" "free_slots b' = free_slots b @ [slot]"
    using Some by (simp_all add: b'_def rb_evict_def)
  have "rb_ok b'" by (rule rb_ok_unmap [OF b s b'(1-3)]) (use d(4,5) s in \<open>auto simp: b'(4)\<close>)
  then show ?thesis by (simp add: b'_def)
qed (simp add: rb_evict_def)

lemma rb_ok_drain: "rb_ok b \<Longrightarrow> rb_ok (snd (drain_free_slots b))"
  by (simp add: rb_ok_def drain_free_slots_def)

lemma rb_ok_pin: "rb_ok b \<Longrightarrow> rb_ok (pin slot b)" "rb_ok b \<Longrightarrow> rb_ok (unpin slot b)"
  by (simp_all add: rb_ok_def pin_def unpin_def)

text \<open>The states a buffer can reach through its operations, failing ones included.\<close>

inductive rb_reachable :: "os \<Rightarrow> resolution_buffer \<Rightarrow> bool" for os where
  new: "rb_reachable os resolution_buffer_new"
| get: "rb_reachable os b \<Longrightarrow> rb_get i b = Some (p, b') \<Longrightarrow> rb_reachable os b'"
| install: "rb_reachable os b \<Longrightarrow> rb_install os i b = (r, b') \<Longrightarrow> rb_reachable os b'"
| release: "rb_reachable os b \<Longrightarrow> rb_reachable os (release_direct_slot slot b)"
| evict: "rb_reachable os b \<Longrightarrow> rb_evict i b = (r, b') \<Longrightarrow> rb_reachable os b'"
| drain: "rb_reachable os b \<Longrightarrow> drain_free_slots b = (r, b') \<Longrightarrow> rb_reachable os b'"
| pin: "rb_reachable os b \<Longrightarrow> rb_reachable os (pin slot b)"
| unpin: "rb_reachable os b \<Longrightarrow> rb_reachable os (unpin slot b)"

lemma rb_reachable_ok: "rb_reachable os b \<Longrightarrow> rb_ok b"
proof (induction rule: rb_reachable.induct)
  case (evict b i r b')
  then show ?case using rb_ok_evict [of b i] by simp
next
  case (drain b r b')
  then show ?case using rb_ok_drain [of b] by simp
qed (auto intro: rb_ok_new rb_ok_get rb_ok_install rb_ok_release rb_ok_pin)

section \<open>Installing and resolving\<close>

lemma rb_install_miss:
  assumes "residents b i = None" "take_slot b = Inr (slot, b1)" "os_overlay os slot (file_offset_of i)"
  shows "rb_install os i b = (Inr (slot_addr slot), b1\<lparr>residents := (residents b1)(i \<mapsto> slot),
     slot_to_page := (slot_to_page b1)(slot \<mapsto> i), lru := lru b1 @ [slot]\<rparr>)"
  using assms by (simp add: rb_install_def rb_get_def)

lemma rb_install_cases:
  assumes "rb_install os i b = (Inr p, b')"
  obtains (hit) slot where "residents b i = Some slot" "p = slot_addr slot" "b' = touch slot b"
  | (miss) slot b1 where "residents b i = None" "take_slot b = Inr (slot, b1)" "p = slot_addr slot"
      "b' = b1\<lparr>residents := (residents b1)(i \<mapsto> slot), slot_to_page := (slot_to_page b1)(slot \<mapsto> i), lru := lru b1 @ [slot]\<rparr>"
  using assms by (auto simp: rb_install_def rb_get_def split: option.splits sum.splits if_splits)

lemma install_spec:
  assumes b: "rb_ok b" and r: "rb_install os i b = (Inr p, b')"
  obtains slot where "p = slot_addr slot" "residents b' i = Some slot" "last (lru b') = slot"
    "\<forall>j s. j \<noteq> i \<and> residents b' j = Some s \<longrightarrow> residents b j = Some s"
    "\<forall>j s. residents b j = Some s \<and> residents b' j = None \<longrightarrow> residents b i = None \<and> free_slots b = []
       \<and> s = slot \<and> (\<exists>xs ys. lru b = xs @ s # ys \<and> set xs \<subseteq> pinned b \<and> s \<notin> pinned b)"
  using r
proof (cases rule: rb_install_cases)
  case (hit slot)
  show thesis by (rule that [of slot]) (use hit in \<open>auto simp: touch_def\<close>)
next
  case (miss slot b1)
  note ts = take_slot_ok [OF b miss(2)]
  show thesis
  proof (rule that [of slot])
    show "\<forall>j s. j \<noteq> i \<and> residents b' j = Some s \<longrightarrow> residents b j = Some s"
      using ts(4) miss(4) by (auto split: if_splits)
    have "residents b i = None \<and> free_slots b = [] \<and> s = slot \<and> (\<exists>xs ys. lru b = xs @ s # ys \<and> set xs \<subseteq> pinned b \<and> s \<notin> pinned b)"
      if js: "residents b j = Some s" "residents b' j = None" for j s
    proof -
    from js have f: "free_slots b = []" "j = the (slot_to_page b slot)"
      using ts(4) miss(1,4) by (auto split: if_splits)
    then obtain xs ys where x: "lru b = xs @ slot # ys" "set xs \<subseteq> pinned b" "slot \<notin> pinned b" using ts(5) by blast
    then have "slot \<in> dom (slot_to_page b)" using rb_okD(3) [OF b] by auto
    then have "slot_to_page b slot = Some j" using f(2) by auto
    then have "s = slot" using js(1) rb_okD(1) [OF b] by (metis option.inject)
    then show ?thesis using miss(1) f(1) x by blast
    qed
    then show "\<forall>j s. residents b j = Some s \<and> residents b' j = None \<longrightarrow> residents b i = None \<and> free_slots b = []
       \<and> s = slot \<and> (\<exists>xs ys. lru b = xs @ s # ys \<and> set xs \<subseteq> pinned b \<and> s \<notin> pinned b)" by blast
  qed (use miss in auto)
qed

section \<open>The pool as an allocator of page ids\<close>

definition issued :: "global_pool \<Rightarrow> nat set" where
  "issued gp = {DIRECT_LIMIT + k | k. k < gp_bump gp \<and> PAGE_SIZE dvd k}"

definition live_ids :: "global_pool \<Rightarrow> nat set" where
  "live_ids gp = issued gp - set (gp_freelist gp)"

definition gp_ok :: "global_pool \<Rightarrow> bool" where
  "gp_ok gp \<longleftrightarrow> gp_bump gp \<le> committed gp \<and> committed gp \<le> GLOBAL_POOL_HARD_LIMIT \<and> 0 < committed gp
     \<and> PAGE_SIZE dvd gp_bump gp \<and> PAGE_SIZE dvd committed gp
     \<and> distinct (gp_freelist gp) \<and> set (gp_freelist gp) \<subseteq> issued gp"

definition live_of :: "extended_pool \<Rightarrow> nat set" where
  "live_of ep = (case gpool ep of Some gp \<Rightarrow> live_ids gp | None \<Rightarrow> {})"

definition pool_ok :: "extended_pool \<Rightarrow> bool" where
  "pool_ok ep \<longleftrightarrow> (\<exists>gp buf. ep_mode ep = Paged \<and> gpool ep = Some gp \<and> rbuf ep = Some buf \<and> gp_ok gp \<and> rb_ok buf
     \<and> dom (residents buf) \<subseteq> live_ids gp)"

lemma gp_ok_expand:
  assumes "gp_ok gp" "gp_expand os gp = Inr gp'"
  shows "gp_ok gp' \<and> gp_bump gp' = gp_bump gp \<and> gp_freelist gp' = gp_freelist gp \<and> committed gp + PAGE_SIZE \<le> committed gp'"
proof -
  define c where "c = min (committed gp * 2) GLOBAL_POOL_HARD_LIMIT"
  have c: "c \<noteq> committed gp" "gp' = gp\<lparr>committed := c\<rparr>" using assms(2) by (auto simp: gp_expand_def Let_def c_def split: if_splits)
  have d: "PAGE_SIZE dvd committed gp" "committed gp \<le> c" using assms(1) by (auto simp: gp_ok_def c_def)
  have "PAGE_SIZE dvd c" using d(1) by (auto simp: c_def min_def GLOBAL_POOL_HARD_LIMIT_def layout_consts)
  moreover from this have "committed gp + PAGE_SIZE \<le> c" using c(1) d by (intro aligned_less [OF d(1)]) auto
  ultimately show ?thesis using assms(1) c d(2) by (auto simp: gp_ok_def issued_def c_def)
qed

lemma issued_take: "PAGE_SIZE dvd gp_bump gp \<Longrightarrow>
  issued (gp\<lparr>gp_bump := gp_bump gp + PAGE_SIZE\<rparr>) = insert (DIRECT_LIMIT + gp_bump gp) (issued gp)"
proof -
  assume a: "PAGE_SIZE dvd gp_bump gp"
  have "k < gp_bump gp + PAGE_SIZE \<and> PAGE_SIZE dvd k \<longleftrightarrow> k = gp_bump gp \<or> k < gp_bump gp \<and> PAGE_SIZE dvd k" for k
  proof -
    have "k < gp_bump gp + PAGE_SIZE \<Longrightarrow> PAGE_SIZE dvd k \<Longrightarrow> gp_bump gp < k \<Longrightarrow> False"
      using aligned_less [OF a, of k] by simp
    then show ?thesis using a by (metis PAGE_SIZE_pos less_add_same_cancel1 linorder_neqE_nat trans_less_add1)
  qed
  then show ?thesis by (auto simp: issued_def)
qed

lemma gp_take_spec:
  assumes "gp_ok gp" "gp_bump gp + PAGE_SIZE \<le> committed gp" "gp_freelist gp = []"
  shows "gp_ok (snd (gp_take gp)) \<and> live_ids (snd (gp_take gp)) = insert (fst (gp_take gp)) (live_ids gp)
    \<and> fst (gp_take gp) \<notin> live_ids gp"
  using assms issued_take [of gp] by (auto simp: gp_ok_def gp_take_def live_ids_def issued_def)

lemma gp_alloc_spec:
  assumes g: "gp_ok gp" and a: "gp_alloc os gp = Inr (i, gp')"
  shows "gp_ok gp' \<and> live_ids gp' = insert i (live_ids gp) \<and> i \<notin> live_ids gp"
proof (cases "gp_freelist gp = []")
  case False
  then have i: "i = last (gp_freelist gp)" "gp' = gp\<lparr>gp_freelist := butlast (gp_freelist gp)\<rparr>" using a by (auto simp: gp_alloc_def)
  have "distinct (gp_freelist gp)" "set (gp_freelist gp) \<subseteq> issued gp" using g by (auto simp: gp_ok_def)
  moreover from this(2) have "last (gp_freelist gp) \<in> issued gp" using False by auto
  moreover have "issued gp' = issued gp" by (simp add: i issued_def)
  ultimately show ?thesis
    using g butlast_last [OF False] False by (auto simp: i gp_ok_def live_ids_def)
next
  case True
  show ?thesis
  proof (cases "committed gp < gp_bump gp + PAGE_SIZE")
    case small: True
    then obtain gp1 where gp1: "gp_expand os gp = Inr gp1" "(i, gp') = gp_take gp1" using a True by (auto simp: gp_alloc_def split: sum.splits)
    note e = gp_ok_expand [OF g gp1(1)]
    have "gp_bump gp \<le> committed gp" using g by (simp add: gp_ok_def)
    then have "live_ids gp1 = live_ids gp" "gp_bump gp1 + PAGE_SIZE \<le> committed gp1"
      using e by (auto simp: live_ids_def issued_def)
    then show ?thesis using gp_take_spec [of gp1] e True gp1(2) [symmetric] by simp
  next
    case False
    then have "gp_take gp = (i, gp')" using a True by (auto simp: gp_alloc_def)
    then show ?thesis using gp_take_spec [OF g _ True] False by simp
  qed
qed

lemma gp_free_spec:
  assumes "gp_ok gp" "i \<in> live_ids gp"
  shows "gp_ok (gp_free i gp) \<and> live_ids (gp_free i gp) = live_ids gp - {i}"
  using assms by (auto simp: gp_ok_def gp_free_def live_ids_def issued_def)

lemma pool_alloc_cases:
  assumes "pool_alloc_page os ep = (Inr (i, p), ep')" "gpool ep = Some gp" "rbuf ep = Some buf"
  obtains gp' buf' where "gp_alloc os gp = Inr (i, gp')" "rb_install os i buf = (Inr p, buf')"
    "ep' = ep\<lparr>gpool := Some gp', rbuf := Some buf', global_live := global_live ep + 1\<rparr>"
  using assms by (auto simp: pool_alloc_page_def split: if_splits sum.splits prod.splits)

lemma pool_alloc_spec:
  assumes ok: "pool_ok ep" and a: "pool_alloc_page os ep = (Inr (i, p), ep')"
  shows "pool_ok ep' \<and> live_of ep' = insert i (live_of ep) \<and> i \<notin> live_of ep
    \<and> DIRECT_LIMIT \<le> i \<and> i + PAGE_SIZE \<le> DIRECT_LIMIT + GLOBAL_POOL_HARD_LIMIT
    \<and> fst (pool_resolve os i ep') = Inr p \<and> live_of (snd (pool_resolve os i ep')) = live_of ep'"
proof -
  obtain gp buf where e: "ep_mode ep = Paged" "gpool ep = Some gp" "rbuf ep = Some buf" "gp_ok gp" "rb_ok buf"
    "dom (residents buf) \<subseteq> live_ids gp" using ok by (auto simp: pool_ok_def)
  obtain gp' buf' where x: "gp_alloc os gp = Inr (i, gp')" "rb_install os i buf = (Inr p, buf')"
    "ep' = ep\<lparr>gpool := Some gp', rbuf := Some buf', global_live := global_live ep + 1\<rparr>"
    by (rule pool_alloc_cases [OF a e(2,3)])
  note g = gp_alloc_spec [OF e(4) x(1)]
  obtain slot where s: "p = slot_addr slot" "residents buf' i = Some slot"
    "\<forall>j s. j \<noteq> i \<and> residents buf' j = Some s \<longrightarrow> residents buf j = Some s"
    by (rule install_spec [OF e(5) x(2)])
  have sub: "dom (residents buf') \<subseteq> live_ids gp'" using s(3) e(6) g by (auto simp: dom_def)
  have ok': "pool_ok ep'" using e(1) x(3) g rb_ok_install [OF e(5) x(2)] sub by (simp add: pool_ok_def)
  have "i \<in> issued gp'" using g by (auto simp: live_ids_def)
  then obtain k where k: "i = DIRECT_LIMIT + k" "k < gp_bump gp'" "PAGE_SIZE dvd k" by (auto simp: issued_def)
  have "k + PAGE_SIZE \<le> GLOBAL_POOL_HARD_LIMIT"
    using g aligned_less [OF k(3) _ k(2)] by (auto simp: gp_ok_def)
  moreover have "fst (pool_resolve os i ep') = Inr p \<and> live_of (snd (pool_resolve os i ep')) = live_of ep'"
    using k(1) s(1,2) x(3) by (simp add: pool_resolve_def rb_get_def live_of_def)
  ultimately show ?thesis using ok' g e(2) x(3) k(1) by (simp add: live_of_def)
qed

lemma pool_free_spec:
  assumes ok: "pool_ok ep" and i: "i \<in> live_of ep"
  shows "\<exists>ep'. pool_free_page i ep = (Inr (), ep') \<and> pool_ok ep' \<and> live_of ep' = live_of ep - {i}"
proof -
  obtain gp buf where e: "ep_mode ep = Paged" "gpool ep = Some gp" "rbuf ep = Some buf" "gp_ok gp" "rb_ok buf"
    "dom (residents buf) \<subseteq> live_ids gp" using ok by (auto simp: pool_ok_def)
  have g: "gp_ok (gp_free i gp)" "live_ids (gp_free i gp) = live_ids gp - {i}"
    using gp_free_spec [OF e(4)] i e(2) by (auto simp: live_of_def)
  have "dom (residents (snd (rb_evict i buf))) \<subseteq> live_ids gp - {i}"
    using e(6) by (auto simp: rb_evict_def split: option.splits)
  then show ?thesis using e g rb_ok_evict [OF e(5), of i] by (auto simp: pool_free_page_def pool_ok_def live_of_def)
qed

section \<open>Properties\<close>

text \<open>
  C16. Resolution buffer invariant. In every state the buffer reaches through its operations, failing
  ones included, the map of residents and the map of slots are inverse to each other (so no two pages
  share a slot), the recency queue lists exactly the occupied slots once, and no free slot is occupied
  or listed twice.
\<close>

theorem resolution_buffer_invariant:
  assumes "rb_reachable os b"
  shows "rb_ok b"
  by (rule rb_reachable_ok [OF assms])

definition willing_os :: os where
  "willing_os = \<lparr>os_size = (\<lambda>_. True), os_overlay = (\<lambda>_ _. True), os_advise = (\<lambda>_. True), os_grow = (\<lambda>_. True)\<rparr>"

theorem resolution_buffer_invariant_witness:
  "rb_ok (snd (rb_install willing_os DIRECT_LIMIT (release_direct_slot 7 resolution_buffer_new)))"
proof -
  obtain r b where b: "rb_install willing_os DIRECT_LIMIT (release_direct_slot 7 resolution_buffer_new) = (r, b)"
    by (cases "rb_install willing_os DIRECT_LIMIT (release_direct_slot 7 resolution_buffer_new)")
  have "rb_reachable willing_os b" by (rule rb_reachable.install [OF rb_reachable.release [OF rb_reachable.new] b])
  then show ?thesis using resolution_buffer_invariant b by simp
qed

text \<open>
  Installing a page. A successful install returns the address at which the page is found afterwards,
  makes its slot the most recently used, moves no other resident page, and removes another page only
  when the requested one was absent and no slot was free: then it is the least recently used page
  whose slot is not pinned.
\<close>

lemma install_lookup:
  assumes "rb_ok b" "rb_install os i b = (Inr p, b')"
  shows "\<exists>slot. p = slot_addr slot \<and> map_option fst (rb_get i b') = Some p \<and> last (lru b') = slot
    \<and> (\<forall>j s. j \<noteq> i \<and> residents b' j = Some s \<longrightarrow> residents b j = Some s)
    \<and> (\<forall>j s. residents b j = Some s \<and> residents b' j = None \<longrightarrow> residents b i = None \<and> free_slots b = []
         \<and> s = slot \<and> (\<exists>xs ys. lru b = xs @ s # ys \<and> set xs \<subseteq> pinned b \<and> s \<notin> pinned b))"
proof -
  obtain slot where s: "p = slot_addr slot" "residents b' i = Some slot" "last (lru b') = slot"
    "\<forall>j s. j \<noteq> i \<and> residents b' j = Some s \<longrightarrow> residents b j = Some s"
    "\<forall>j s. residents b j = Some s \<and> residents b' j = None \<longrightarrow> residents b i = None \<and> free_slots b = []
       \<and> s = slot \<and> (\<exists>xs ys. lru b = xs @ s # ys \<and> set xs \<subseteq> pinned b \<and> s \<notin> pinned b)"
    by (rule install_spec [OF assms])
  have "map_option fst (rb_get i b') = Some p" using s(1,2) by (simp add: rb_get_def)
  then show ?thesis using s(1,3-5) by blast
qed

text \<open>
  Paged allocation. From a well-formed pool an allocation returns an id above the direct window that
  no live page has, within the address range of the pool, resolves to the returned address, and
  keeps the pool well formed; freeing the id afterwards gives back exactly the previous live ids.
\<close>

lemma paged_alloc_free:
  assumes "pool_ok ep" "pool_alloc_page os ep = (Inr (i, p), ep')"
  shows "pool_ok ep' \<and> live_of ep' = insert i (live_of ep) \<and> i \<notin> live_of ep
    \<and> DIRECT_LIMIT \<le> i \<and> i + PAGE_SIZE \<le> DIRECT_LIMIT + GLOBAL_POOL_HARD_LIMIT
    \<and> fst (pool_resolve os i ep') = Inr p
    \<and> (\<exists>ep''. pool_free_page i ep' = (Inr (), ep'') \<and> pool_ok ep'' \<and> live_of ep'' = live_of ep)"
proof -
  note a = pool_alloc_spec [OF assms]
  then have "i \<in> live_of ep'" by blast
  then obtain ep'' where f: "pool_free_page i ep' = (Inr (), ep'')" "pool_ok ep''" "live_of ep'' = live_of ep' - {i}"
    using pool_free_spec [of ep' i] a by blast
  then have "live_of ep'' = live_of ep" using a by auto
  then show ?thesis using a f(1,2) by blast
qed

definition paged_example :: extended_pool where
  "paged_example = \<lparr>ep_mode = Paged, global_live = 0, last_bump = 0,
     gpool = Some \<lparr>committed = GLOBAL_POOL_INITIAL_SIZE, gp_bump = 0, gp_freelist = []\<rparr>,
     rbuf = Some (release_direct_slot 7 resolution_buffer_new)\<rparr>"

text \<open>
  A failed paged allocation leaks: when no slot is available the id taken from the global pool is
  neither returned nor put back, so it counts as live although nobody holds it.
\<close>

lemma failed_alloc_leaks:
  "\<exists>ep'. pool_alloc_page willing_os (paged_example\<lparr>rbuf := Some resolution_buffer_new\<rparr>) = (Inl NoSlot, ep')
     \<and> live_of ep' = {DIRECT_LIMIT} \<and> live_of paged_example = {} \<and> global_live ep' = global_live paged_example"
  by (auto simp: pool_alloc_page_def paged_example_def gp_alloc_def gp_take_def rb_install_def rb_get_def take_slot_def
      evict_lru_def resolution_buffer_new_def willing_os_def GLOBAL_POOL_INITIAL_SIZE_def live_of_def live_ids_def issued_def
      layout_consts)

end
