(* ===== verification/Rdma_Pool.thy ===== *)
theory Rdma_Pool
  imports Extended_Pool
begin

text \<open>
  The staging pool of the RDMA data plane (\<open>extended_pool/rdma_pool.rs\<close>) and its process-wide wrapper
  (\<open>rdma_runtime.rs\<close>), with the contract \<open>id_pool\<close> that this pool and the global pool both keep towards
  the holders of page ids.
\<close>

section \<open>The contract of a pool of page ids\<close>

text \<open>
  \<open>live\<close> is the set of ids that are handed out. A run is a sequence of allocations and of frees by
  position of ids that the clients still hold; it returns the ids held at the end, oldest first.
\<close>

datatype pool_op = PoolAlloc | PoolFree nat

fun run_pool ::
  "('p \<Rightarrow> pool_err + nat \<times> 'p) \<Rightarrow> (nat \<Rightarrow> 'p \<Rightarrow> 'p) \<Rightarrow> pool_op list \<Rightarrow> nat list \<Rightarrow> 'p \<Rightarrow> nat list \<times> 'p" where
  "run_pool alloc free [] held p = (held, p)"
| "run_pool alloc free (PoolAlloc # ops) held p =
     (case alloc p of Inl e \<Rightarrow> run_pool alloc free ops held p | Inr (i, p') \<Rightarrow> run_pool alloc free ops (held @ [i]) p')"
| "run_pool alloc free (PoolFree k # ops) held p =
     (if k < length held then run_pool alloc free ops (take k held @ drop (Suc k) held) (free (held ! k) p)
      else run_pool alloc free ops held p)"

locale id_pool =
  fixes alloc :: "'p \<Rightarrow> pool_err + nat \<times> 'p" and free :: "nat \<Rightarrow> 'p \<Rightarrow> 'p"
    and ok :: "'p \<Rightarrow> bool" and live :: "'p \<Rightarrow> nat set"
  assumes alloc_ok: "ok p \<Longrightarrow> alloc p = Inr (i, p') \<Longrightarrow> ok p'"
    and alloc_new: "ok p \<Longrightarrow> alloc p = Inr (i, p') \<Longrightarrow> i \<notin> live p"
    and alloc_live: "ok p \<Longrightarrow> alloc p = Inr (i, p') \<Longrightarrow> live p' = insert i (live p)"
    and free_ok: "ok p \<Longrightarrow> i \<in> live p \<Longrightarrow> ok (free i p)"
    and free_live: "ok p \<Longrightarrow> i \<in> live p \<Longrightarrow> live (free i p) = live p - {i}"
begin

lemma remove_nth:
  assumes "distinct xs" "k < length xs"
  shows "distinct (take k xs @ drop (Suc k) xs)" "set (take k xs @ drop (Suc k) xs) = set xs - {xs ! k}"
proof -
  have "xs = take k xs @ xs ! k # drop (Suc k) xs" using assms(2) by (rule id_take_nth_drop)
  then have "distinct (take k xs @ xs ! k # drop (Suc k) xs)" "set xs = set (take k xs @ xs ! k # drop (Suc k) xs)"
    using assms(1) by simp_all
  then show "distinct (take k xs @ drop (Suc k) xs)" "set (take k xs @ drop (Suc k) xs) = set xs - {xs ! k}" by auto
qed

text \<open>No id is held twice, and the live ids are exactly those that are held.\<close>

lemma run_exclusive:
  assumes "ok p" "live p = set held" "distinct held" "run_pool alloc free ops held p = (held', p')"
  shows "ok p' \<and> live p' = set held' \<and> distinct held'"
  using assms
proof (induction ops arbitrary: held p)
  case (Cons q ops)
  show ?case
  proof (cases q)
    case PoolAlloc
    show ?thesis
    proof (cases "alloc p")
      case (Inl e)
      then show ?thesis using Cons PoolAlloc by simp
    next
      case (Inr r)
      then obtain i p1 where a: "alloc p = Inr (i, p1)" by (cases r) auto
      have "live p1 = set (held @ [i])" "distinct (held @ [i])" "run_pool alloc free ops (held @ [i]) p1 = (held', p')"
        using alloc_live [OF Cons.prems(1) a] alloc_new [OF Cons.prems(1) a] Cons.prems(2-4) PoolAlloc a by auto
      then show ?thesis by (rule Cons.IH [OF alloc_ok [OF Cons.prems(1) a]])
    qed
  next
    case (PoolFree k)
    show ?thesis
    proof (cases "k < length held")
      case True
      then have i: "held ! k \<in> live p" using Cons.prems(2) by simp
      note r = remove_nth [OF Cons.prems(3) True]
      have "live (free (held ! k) p) = set (take k held @ drop (Suc k) held)"
        using free_live [OF Cons.prems(1) i] Cons.prems(2) r(2) by blast
      moreover have "run_pool alloc free ops (take k held @ drop (Suc k) held) (free (held ! k) p) = (held', p')"
        using Cons.prems(4) PoolFree True by simp
      ultimately show ?thesis by (rule Cons.IH [OF free_ok [OF Cons.prems(1) i] _ r(1)])
    next
      case False
      then show ?thesis using Cons PoolFree by simp
    qed
  qed
qed simp

end

interpretation global: id_pool "gp_alloc os" gp_free gp_ok live_ids
  by unfold_locales (use gp_alloc_spec gp_free_spec in blast)+

section \<open>The RDMA pool\<close>

definition RDMA_MR2_MARKER :: nat where "RDMA_MR2_MARKER = 281474976710656"

record rdma_pool =
  rp_committed :: nat
  rp_bump :: nat
  rp_freelist :: "nat list"             \<comment> \<open>a stack, its top at the end\<close>

definition rdma_pool_new :: "os \<Rightarrow> nat \<Rightarrow> pool_err + rdma_pool" where
  "rdma_pool_new os initial =
     (if initial = 0 then Inl ZeroInitial
      else if RDMA_MR2_HARD_LIMIT < initial then Inl (OverLimit initial)
      else if initial mod PAGE_SIZE \<noteq> 0 then Inl (NotAligned initial)
      else if \<not> os_size os initial then Inl OsFailure
      else Inr \<lparr>rp_committed = initial, rp_bump = 0, rp_freelist = []\<rparr>)"

definition rp_expand :: "os \<Rightarrow> rdma_pool \<Rightarrow> pool_err + rdma_pool" where
  "rp_expand os rp =
     (let new_committed = min (rp_committed rp * 2) RDMA_MR2_HARD_LIMIT in
      if new_committed = rp_committed rp then Inl AtHardLimit
      else if \<not> os_size os new_committed then Inl OsFailure
      else Inr (rp\<lparr>rp_committed := new_committed\<rparr>))"

definition rp_take :: "nat \<Rightarrow> rdma_pool \<Rightarrow> nat \<times> rdma_pool" where
  "rp_take bytes rp = (RDMA_MR2_MARKER + rp_bump rp, rp\<lparr>rp_bump := rp_bump rp + bytes\<rparr>)"

definition rp_alloc :: "os \<Rightarrow> rdma_pool \<Rightarrow> pool_err + nat \<times> rdma_pool" where
  "rp_alloc os rp =
     (if rp_freelist rp \<noteq> [] then Inr (last (rp_freelist rp), rp\<lparr>rp_freelist := butlast (rp_freelist rp)\<rparr>)
      else if rp_committed rp < rp_bump rp + PAGE_SIZE
      then (case rp_expand os rp of Inl e \<Rightarrow> Inl e | Inr rp' \<Rightarrow> Inr (rp_take PAGE_SIZE rp'))
      else Inr (rp_take PAGE_SIZE rp))"

text \<open>The growth loop of \<open>alloc_contiguous\<close>; the pool keeps what it committed before a failure.\<close>

function rp_fit :: "os \<Rightarrow> nat \<Rightarrow> rdma_pool \<Rightarrow> (pool_err + unit) \<times> rdma_pool" where
  "rp_fit os bytes rp =
     (if rp_committed rp < rp_bump rp + bytes
      then (case rp_expand os rp of Inl e \<Rightarrow> (Inl e, rp) | Inr rp' \<Rightarrow> rp_fit os bytes rp')
      else (Inr (), rp))"
  by pat_completeness auto
termination
  by (relation "measure (\<lambda>(os, bytes, rp). if RDMA_MR2_HARD_LIMIT < rp_committed rp then Suc RDMA_MR2_HARD_LIMIT
        else RDMA_MR2_HARD_LIMIT - rp_committed rp)")
    (auto simp: rp_expand_def Let_def min_def split: if_splits)

declare rp_fit.simps [simp del]

definition rp_alloc_contiguous :: "os \<Rightarrow> nat \<Rightarrow> rdma_pool \<Rightarrow> (pool_err + nat) \<times> rdma_pool" where
  "rp_alloc_contiguous os n rp =
     (if n = 0 then (Inl ZeroPages, rp)
      else let bytes = PAGE_SIZE * n mod 18446744073709551616
           in case rp_fit os bytes rp of
                (Inl e, rp') \<Rightarrow> (Inl e, rp')
              | (Inr _, rp') \<Rightarrow> (Inr (fst (rp_take bytes rp')), snd (rp_take bytes rp')))"

definition rp_free :: "nat \<Rightarrow> rdma_pool \<Rightarrow> rdma_pool" where
  "rp_free i rp = rp\<lparr>rp_freelist := rp_freelist rp @ [i]\<rparr>"

definition rp_file_offset_of :: "nat \<Rightarrow> nat" where
  "rp_file_offset_of i = i - RDMA_MR2_MARKER"

definition rp_trim_freelist :: "os \<Rightarrow> rdma_pool \<Rightarrow> nat" where
  "rp_trim_freelist os rp =
     length (filter (\<lambda>i. rp_file_offset_of i + PAGE_SIZE \<le> rp_committed rp \<and> os_advise os i) (rp_freelist rp))"

section \<open>The process-wide wrapper\<close>

text \<open>\<open>EXTENDED_RDMA_ENABLED\<close> is on. A missing pool is \<open>None\<close>; taking its lock panics then.\<close>

record rdma_state =
  mr1_used :: nat
  mr2 :: "rdma_pool option"

definition should_use_mr2 :: "nat \<Rightarrow> rdma_state \<Rightarrow> bool" where
  "should_use_mr2 needed_bytes st \<longleftrightarrow> RDMA_MR1_BUDGET < min (mr1_used st + needed_bytes) 18446744073709551615"

definition should_register_mr2 :: "rdma_state \<Rightarrow> bool" where
  "should_register_mr2 st \<longleftrightarrow> mr2 st = None \<and> RDMA_MR2_REG_THRESHOLD \<le> mr1_used st"

definition record_mr1_usage :: "nat \<Rightarrow> rdma_state \<Rightarrow> rdma_state" where
  "record_mr1_usage bytes st = st\<lparr>mr1_used := (mr1_used st + bytes) mod 18446744073709551616\<rparr>"

definition ensure_pool :: "os \<Rightarrow> rdma_state \<Rightarrow> (pool_err + unit) \<times> rdma_state" where
  "ensure_pool os st =
     (case mr2 st of
        Some _ \<Rightarrow> (Inr (), st)
      | None \<Rightarrow> (case rdma_pool_new os RDMA_MR2_INITIAL_SIZE of
                  Inl e \<Rightarrow> (Inl e, st) | Inr rp \<Rightarrow> (Inr (), st\<lparr>mr2 := Some rp\<rparr>)))"

definition mr2_alloc_contiguous :: "os \<Rightarrow> nat \<Rightarrow> rdma_state \<Rightarrow> (pool_err + nat) \<times> rdma_state" where
  "mr2_alloc_contiguous os n st =
     (case ensure_pool os st of
        (Inl e, st1) \<Rightarrow> (Inl e, st1)
      | (Inr _, st1) \<Rightarrow>
          (case mr2 st1 of
             None \<Rightarrow> (Inl NoGlobalPool, st1)
           | Some rp \<Rightarrow> (case rp_alloc_contiguous os n rp of (r, rp') \<Rightarrow> (r, st1\<lparr>mr2 := Some rp'\<rparr>))))"

definition mr2_free :: "nat \<Rightarrow> rdma_state \<Rightarrow> (pool_err + unit) \<times> rdma_state" where
  "mr2_free i st =
     (case mr2 st of None \<Rightarrow> (Inl NoGlobalPool, st) | Some rp \<Rightarrow> (Inr (), st\<lparr>mr2 := Some (rp_free i rp)\<rparr>))"

section \<open>The RDMA pool keeps the contract\<close>

definition rp_issued :: "rdma_pool \<Rightarrow> nat set" where
  "rp_issued rp = {RDMA_MR2_MARKER + k | k. k < rp_bump rp \<and> PAGE_SIZE dvd k}"

definition rp_live :: "rdma_pool \<Rightarrow> nat set" where
  "rp_live rp = rp_issued rp - set (rp_freelist rp)"

definition rp_ok :: "rdma_pool \<Rightarrow> bool" where
  "rp_ok rp \<longleftrightarrow> rp_bump rp \<le> rp_committed rp \<and> rp_committed rp \<le> RDMA_MR2_HARD_LIMIT \<and> 0 < rp_committed rp
     \<and> PAGE_SIZE dvd rp_bump rp \<and> PAGE_SIZE dvd rp_committed rp
     \<and> distinct (rp_freelist rp) \<and> set (rp_freelist rp) \<subseteq> rp_issued rp"

text \<open>The ids of a run of pages.\<close>

definition run_ids :: "nat \<Rightarrow> nat \<Rightarrow> nat set" where
  "run_ids i bytes = {i + k | k. k < bytes \<and> PAGE_SIZE dvd k}"

lemma rp_expand_ok:
  assumes "rp_ok rp" "rp_expand os rp = Inr rp'"
  shows "rp_ok rp' \<and> rp_bump rp' = rp_bump rp \<and> rp_freelist rp' = rp_freelist rp \<and> rp_committed rp + PAGE_SIZE \<le> rp_committed rp'"
proof -
  define c where "c = min (rp_committed rp * 2) RDMA_MR2_HARD_LIMIT"
  have c: "c \<noteq> rp_committed rp" "rp' = rp\<lparr>rp_committed := c\<rparr>" using assms(2) by (auto simp: rp_expand_def Let_def c_def split: if_splits)
  have d: "PAGE_SIZE dvd rp_committed rp" "rp_committed rp \<le> c" using assms(1) by (auto simp: rp_ok_def c_def)
  have dc: "PAGE_SIZE dvd c" using d(1) by (auto simp: c_def min_def layout_consts)
  have "rp_committed rp + PAGE_SIZE \<le> c" using c(1) d by (intro aligned_less [OF d(1) dc]) simp
  then show ?thesis using assms(1) c d(2) dc by (auto simp: rp_ok_def rp_issued_def c_def)
qed

lemma rp_fit_ok:
  assumes "rp_ok rp" "rp_fit os bytes rp = (r, rp')"
  shows "rp_ok rp' \<and> rp_bump rp' = rp_bump rp \<and> rp_freelist rp' = rp_freelist rp
    \<and> (r = Inr () \<longrightarrow> rp_bump rp + bytes \<le> rp_committed rp')"
  using assms
proof (induction os bytes rp rule: rp_fit.induct)
  case (1 os bytes rp)
  show ?case
  proof (cases "rp_committed rp < rp_bump rp + bytes")
    case True
    show ?thesis
    proof (cases "rp_expand os rp")
      case (Inl e)
      then show ?thesis using 1(2,3) True by (auto simp: rp_fit.simps [of os bytes rp])
    next
      case (Inr rp1)
      note e = rp_expand_ok [OF 1(2) Inr]
      have "rp_fit os bytes rp1 = (r, rp')" using 1(3) True Inr by (simp add: rp_fit.simps [of os bytes rp])
      then show ?thesis using 1(1) [OF True Inr] e by simp
    qed
  next
    case False
    then show ?thesis using 1(2,3) by (simp add: rp_fit.simps [of os bytes rp])
  qed
qed

lemma rp_take_spec:
  assumes rp: "rp_ok rp" and b: "rp_bump rp + bytes \<le> rp_committed rp" "PAGE_SIZE dvd bytes" and t: "rp_take bytes rp = (i, rp')"
  shows "rp_ok rp' \<and> rp_live rp' = rp_live rp \<union> run_ids i bytes \<and> rp_live rp \<inter> run_ids i bytes = {}"
proof -
  have d: "PAGE_SIZE dvd rp_bump rp" "set (rp_freelist rp) \<subseteq> rp_issued rp" using rp by (auto simp: rp_ok_def)
  have i: "i = RDMA_MR2_MARKER + rp_bump rp" "rp' = rp\<lparr>rp_bump := rp_bump rp + bytes\<rparr>" using t by (auto simp: rp_take_def)
  have "k < rp_bump rp + bytes \<and> PAGE_SIZE dvd k \<longleftrightarrow> k < rp_bump rp \<and> PAGE_SIZE dvd k \<or> (\<exists>l < bytes. PAGE_SIZE dvd l \<and> k = rp_bump rp + l)" for k
  proof (cases "k < rp_bump rp")
    case False
    then have "k = rp_bump rp + (k - rp_bump rp)" by simp
    then show ?thesis using False d(1) by (metis add_less_cancel_left dvd_add_right_iff not_add_less1)
  qed auto
  then have iss: "rp_issued rp' = rp_issued rp \<union> run_ids i bytes"
    unfolding rp_issued_def run_ids_def i by auto
  have dj: "rp_issued rp \<inter> run_ids i bytes = {}" by (auto simp: rp_issued_def run_ids_def i)
  have "set (rp_freelist rp) \<subseteq> rp_issued rp'" using d(2) iss by auto
  then have "rp_ok rp'" using rp b by (auto simp: rp_ok_def i)
  moreover have "rp_freelist rp' = rp_freelist rp" by (simp add: i)
  ultimately show ?thesis using iss dj d(2) unfolding rp_live_def by auto
qed

lemma run_ids_page: "run_ids i PAGE_SIZE = {i}"
proof -
  have "k = 0" if "k < PAGE_SIZE" "PAGE_SIZE dvd k" for k using that by (meson dvd_imp_le leD neq0_conv)
  then show ?thesis using PAGE_SIZE_pos by (auto simp: run_ids_def intro: exI [of _ 0])
qed

lemma rp_alloc_spec:
  assumes rp: "rp_ok rp" and a: "rp_alloc os rp = Inr (i, rp')"
  shows "rp_ok rp' \<and> rp_live rp' = insert i (rp_live rp) \<and> i \<notin> rp_live rp"
proof (cases "rp_freelist rp = []")
  case False
  then have i: "i = last (rp_freelist rp)" "rp' = rp\<lparr>rp_freelist := butlast (rp_freelist rp)\<rparr>" using a by (auto simp: rp_alloc_def)
  have "distinct (rp_freelist rp)" "set (rp_freelist rp) \<subseteq> rp_issued rp" using rp by (auto simp: rp_ok_def)
  moreover from this(2) have "last (rp_freelist rp) \<in> rp_issued rp" using False by auto
  moreover have "rp_issued rp' = rp_issued rp" by (simp add: i rp_issued_def)
  ultimately show ?thesis using rp butlast_last [OF False] False by (auto simp: i rp_ok_def rp_live_def)
next
  case True
  define rp1 where "rp1 = (if rp_committed rp < rp_bump rp + PAGE_SIZE then projr (rp_expand os rp) else rp)"
  have r: "rp_ok rp1 \<and> rp_live rp1 = rp_live rp \<and> rp_bump rp1 + PAGE_SIZE \<le> rp_committed rp1 \<and> rp_take PAGE_SIZE rp1 = (i, rp')"
  proof (cases "rp_committed rp < rp_bump rp + PAGE_SIZE")
    case small: True
    then obtain rp2 where rp2: "rp_expand os rp = Inr rp2" "(i, rp') = rp_take PAGE_SIZE rp2" using a True by (auto simp: rp_alloc_def split: sum.splits)
    have "rp_bump rp \<le> rp_committed rp" using rp by (simp add: rp_ok_def)
    then show ?thesis using rp_expand_ok [OF rp rp2(1)] rp2 small by (auto simp: rp1_def rp_live_def rp_issued_def)
  next
    case False
    then show ?thesis using a True rp by (simp add: rp_alloc_def rp1_def)
  qed
  then show ?thesis using rp_take_spec [of rp1 PAGE_SIZE i rp'] by (auto simp: run_ids_page)
qed

lemma rp_free_spec:
  assumes "rp_ok rp" "i \<in> rp_live rp"
  shows "rp_ok (rp_free i rp) \<and> rp_live (rp_free i rp) = rp_live rp - {i}"
  using assms by (auto simp: rp_ok_def rp_free_def rp_live_def rp_issued_def)

interpretation rdma: id_pool "rp_alloc os" rp_free rp_ok rp_live
  by unfold_locales (use rp_alloc_spec rp_free_spec in blast)+

lemma rp_live_range:
  assumes "rp_ok rp" "i \<in> rp_live rp"
  shows "RDMA_MR2_MARKER \<le> i \<and> i + PAGE_SIZE \<le> RDMA_MR2_MARKER + RDMA_MR2_HARD_LIMIT"
proof -
  obtain k where k: "i = RDMA_MR2_MARKER + k" "k < rp_bump rp" "PAGE_SIZE dvd k" using assms(2) by (auto simp: rp_live_def rp_issued_def)
  then have "k + PAGE_SIZE \<le> rp_bump rp" using assms(1) by (intro aligned_less) (auto simp: rp_ok_def)
  then show ?thesis using assms(1) k(1) by (simp add: rp_ok_def)
qed

lemma rp_contiguous_spec:
  assumes rp: "rp_ok rp" and n: "PAGE_SIZE * n < 18446744073709551616" and a: "rp_alloc_contiguous os n rp = (Inr i, rp')"
  shows "rp_ok rp' \<and> rp_live rp' = rp_live rp \<union> run_ids i (PAGE_SIZE * n) \<and> rp_live rp \<inter> run_ids i (PAGE_SIZE * n) = {}"
proof -
  have w: "PAGE_SIZE * n mod 18446744073709551616 = PAGE_SIZE * n" using n by simp
  obtain rp1 where f: "rp_fit os (PAGE_SIZE * n) rp = (Inr (), rp1)" "rp_take (PAGE_SIZE * n) rp1 = (i, rp')"
    using a by (auto simp: rp_alloc_contiguous_def w Let_def split: if_splits prod.splits sum.splits)
  note s = rp_fit_ok [OF rp f(1)]
  have "rp_live rp1 = rp_live rp" using s by (simp add: rp_live_def rp_issued_def)
  then show ?thesis using rp_take_spec [OF _ _ _ f(2)] s by simp
qed

section \<open>Properties\<close>

text \<open>
  C26. Exclusive page ids. However allocations and frees of held ids are interleaved, and whatever the
  operating system refuses, the global pool and the RDMA pool never hand out an id that is still
  held, and the ids of the two pools and of the direct window lie in disjoint ranges.
\<close>

theorem pool_ids_exclusive:
  assumes "global_pool_new os n = Inr gp" "run_pool (gp_alloc os) gp_free ops [] gp = (held, gp')"
    and "rdma_pool_new os m = Inr rp" "run_pool (rp_alloc os) rp_free ops' [] rp = (held', rp')"
  shows "distinct (held @ held') \<and> live_ids gp' = set held \<and> rp_live rp' = set held'
    \<and> (\<forall>i \<in> set held. DIRECT_LIMIT \<le> i) \<and> (\<forall>i \<in> set held'. RDMA_MR2_MARKER \<le> i)"
proof -
  have g: "gp_ok gp" "live_ids gp = {}" using assms(1)
    by (auto simp: global_pool_new_def gp_ok_def live_ids_def issued_def split: if_splits)
  have r: "rp_ok rp" "rp_live rp = {}" using assms(3)
    by (auto simp: rdma_pool_new_def rp_ok_def rp_live_def rp_issued_def split: if_splits)
  have G: "gp_ok gp' \<and> live_ids gp' = set held \<and> distinct held"
    by (rule global.run_exclusive [OF g(1) _ _ assms(2)]) (simp_all add: g)
  have R: "rp_ok rp' \<and> rp_live rp' = set held' \<and> distinct held'"
    by (rule rdma.run_exclusive [OF r(1) _ _ assms(4)]) (simp_all add: r)
  have lo: "DIRECT_LIMIT \<le> i \<and> i < RDMA_MR2_MARKER" if "i \<in> set held" for i
  proof -
    have "i \<in> issued gp'" "gp_bump gp' \<le> GLOBAL_POOL_HARD_LIMIT" using G that by (auto simp: live_ids_def gp_ok_def)
    then show ?thesis by (auto simp: issued_def RDMA_MR2_MARKER_def GLOBAL_POOL_HARD_LIMIT_def layout_consts)
  qed
  have hi: "RDMA_MR2_MARKER \<le> i" if "i \<in> set held'" for i using rp_live_range [of rp' i] R that by simp
  have "set held \<inter> set held' = {}" using lo hi by fastforce
  then show ?thesis using G R lo hi by auto
qed

theorem pool_ids_exclusive_witness:
  "\<exists>gp held gp' rp held' rp'. global_pool_new willing_os 4096 = Inr gp
     \<and> run_pool (gp_alloc willing_os) gp_free [PoolAlloc, PoolAlloc, PoolFree 0, PoolAlloc] [] gp = (held, gp')
     \<and> rdma_pool_new willing_os 4096 = Inr rp \<and> run_pool (rp_alloc willing_os) rp_free [PoolAlloc] [] rp = (held', rp')
     \<and> held = [DIRECT_LIMIT + 4096, DIRECT_LIMIT] \<and> distinct (held @ held')"
proof -
  define gp where "gp = \<lparr>committed = 4096, gp_bump = 0, gp_freelist = []\<rparr>"
  define rp where "rp = \<lparr>rp_committed = 4096, rp_bump = 0, rp_freelist = []\<rparr>"
  have a: "global_pool_new willing_os 4096 = Inr gp" "rdma_pool_new willing_os 4096 = Inr rp"
    by (simp_all add: global_pool_new_def rdma_pool_new_def gp_def rp_def willing_os_def GLOBAL_POOL_HARD_LIMIT_def layout_consts)
  obtain gp' where g: "run_pool (gp_alloc willing_os) gp_free [PoolAlloc, PoolAlloc, PoolFree 0, PoolAlloc] [] gp = ([DIRECT_LIMIT + 4096, DIRECT_LIMIT], gp')"
  proof -
    note defs = gp_alloc_def gp_take_def gp_expand_def Let_def GLOBAL_POOL_HARD_LIMIT_def willing_os_def PAGE_SIZE_def KIB_def
    have s: "gp_alloc willing_os gp = Inr (DIRECT_LIMIT, gp\<lparr>gp_bump := 4096\<rparr>)"
      "gp_alloc willing_os (gp\<lparr>gp_bump := 4096\<rparr>) = Inr (DIRECT_LIMIT + 4096, gp\<lparr>committed := 8192, gp_bump := 8192\<rparr>)"
      "gp_alloc willing_os (gp_free DIRECT_LIMIT (gp\<lparr>committed := 8192, gp_bump := 8192\<rparr>)) = Inr (DIRECT_LIMIT, gp\<lparr>committed := 8192, gp_bump := 8192\<rparr>)"
      by (simp_all add: defs gp_def gp_free_def)
    show thesis by (rule that) (simp add: s)
  qed
  obtain held' rp' where r: "run_pool (rp_alloc willing_os) rp_free [PoolAlloc] [] rp = (held', rp')" by (metis surj_pair)
  from pool_ids_exclusive [OF a(1) g a(2) r] show ?thesis using a g r by blast
qed

text \<open>
  Contiguous runs. When a bulk allocation of \<open>n\<close> pages succeeds, the pages of the run lie inside
  the pool, none of them was handed out before, and all of them are live afterwards; the
  growth loop ends for every request, with the run or with an error.
\<close>

lemma contiguous_alloc_fresh:
  assumes "rp_ok rp" "PAGE_SIZE * n < 18446744073709551616" "rp_alloc_contiguous os n rp = (Inr i, rp')"
  shows "rp_ok rp' \<and> rp_live rp' = rp_live rp \<union> (\<lambda>k. i + k * PAGE_SIZE) ` {..<n}
    \<and> rp_live rp \<inter> (\<lambda>k. i + k * PAGE_SIZE) ` {..<n} = {}
    \<and> (\<forall>k < n. RDMA_MR2_MARKER \<le> i + k * PAGE_SIZE \<and> i + k * PAGE_SIZE + PAGE_SIZE \<le> RDMA_MR2_MARKER + RDMA_MR2_HARD_LIMIT)"
proof -
  have run: "run_ids i (PAGE_SIZE * n) = (\<lambda>k. i + k * PAGE_SIZE) ` {..<n}"
    using PAGE_SIZE_pos by (fastforce simp: run_ids_def image_iff mult.commute elim: dvdE)
  note s = rp_contiguous_spec [OF assms, unfolded run]
  then show ?thesis using rp_live_range [of rp'] by blast
qed

end
