(* ===== verification/Stream_Split.thy ===== *)
theory Stream_Split
  imports Record_Store
begin

text \<open>
  The zero-copy split of an input slot into stream slots (\<open>split_input_contiguous\<close> of
  \<open>guest/src/api/stream_area.rs\<close>): the packed chain of an I/O slot is cut at record boundaries near
  equal byte targets and its pages are relinked into consecutive stream slots. The byte counters are
  64 bits wide in the source and count bytes of a region of less than 4 GiB.
\<close>

section \<open>Operations\<close>

text \<open>
  The forward walks over a chain from a position (page and offset): success, and the position after
  it. \<open>None\<close> when the walk never ends.
\<close>

partial_function (option) read_fwd ::
  "'a shm_scheme \<Rightarrow> nat \<Rightarrow> nat \<Rightarrow> nat \<Rightarrow> byte list \<Rightarrow> (bool \<times> byte list \<times> nat \<times> nat) option" where
  "read_fwd s cp co n buf =
     (if n = 0 then Some (True, buf, cp, co)
      else if cp = 0 then Some (False, buf, cp, co)
      else if cursor (mem s cp) \<le> co then read_fwd s (wrap32 (nxt s cp)) 0 n buf
      else read_fwd s cp (co + min (cursor (mem s cp) - co) n) (n - min (cursor (mem s cp) - co) n)
             (buf @ read_bytes (data (mem s cp)) co (min (cursor (mem s cp) - co) n)))"

partial_function (option) skip_fwd :: "'a shm_scheme \<Rightarrow> nat \<Rightarrow> nat \<Rightarrow> nat \<Rightarrow> (bool \<times> nat \<times> nat) option" where
  "skip_fwd s cp co n =
     (if n = 0 then Some (True, cp, co)
      else if cp = 0 then Some (False, cp, co)
      else if cursor (mem s cp) \<le> co then skip_fwd s (wrap32 (nxt s cp)) 0 n
      else skip_fwd s cp (co + min (cursor (mem s cp) - co) n) (n - min (cursor (mem s cp) - co) n))"

partial_function (option) chain_end :: "'a shm_scheme \<Rightarrow> nat \<Rightarrow> nat option" where
  "chain_end s p = (if wrap32 (nxt s p) = 0 then Some p else chain_end s (wrap32 (nxt s p)))"

definition chain_tail :: "'a shm_scheme \<Rightarrow> nat \<Rightarrow> nat option" where
  "chain_tail s head = (if head = 0 then Some 0 else chain_end s head)"

partial_function (option) total_bytes :: "'a shm_scheme \<Rightarrow> nat \<Rightarrow> nat \<Rightarrow> nat option" where
  "total_bytes s p acc =
     (if p = 0 then Some acc else total_bytes s (wrap32 (nxt s p)) (acc + cursor (mem s p)))"

declare read_fwd.simps [code] skip_fwd.simps [code] chain_end.simps [code] total_bytes.simps [code]

definition set_slot :: "nat \<Rightarrow> nat \<Rightarrow> nat \<Rightarrow> nat \<Rightarrow> 'a shm_scheme \<Rightarrow> err + 'a shm_scheme" where
  "set_slot out_base w head tail s =
     (let i = wrap32 (out_base + w) in
      if STREAM_SLOT_COUNT \<le> i then Inl (SlotOutOfRange i)
      else Inr (set_tail (Stream i) tail (set_head (Stream i) head s)))"

fun set_slots_empty :: "nat \<Rightarrow> nat list \<Rightarrow> 'a shm_scheme \<Rightarrow> err + 'a shm_scheme" where
  "set_slots_empty out_base [] s = Inr s"
| "set_slots_empty out_base (w # ws) s =
     (case set_slot out_base w 0 0 s of Inl e \<Rightarrow> Inl e | Inr t \<Rightarrow> set_slots_empty out_base ws t)"

text \<open>
  A cut at the boundary \<open>(cp, co)\<close>: the new state, the tail of the segment that ends there, and the
  head of the next segment, where the walk goes on at offset 0.
\<close>

definition copy_tail :: "nat \<Rightarrow> nat \<Rightarrow> nat \<Rightarrow> 'a shm_scheme \<Rightarrow> 'a shm_scheme" where
  "copy_tail cp co np s =
     (let pg = mem s cp
      in upd_page cp (\<lambda>pg. pg\<lparr>cursor := co, next_offset := 0\<rparr>)
           (upd_page np (\<lambda>q. q\<lparr>data := write_bytes (data q) 0 (read_bytes (data pg) co (cursor pg - co)),
              cursor := cursor pg - co, next_offset := wrap32 (next_offset pg)\<rparr>) s))"

definition cut :: "nat \<Rightarrow> nat \<Rightarrow> nat \<Rightarrow> 'a shm_scheme \<Rightarrow> (err + 'a shm_scheme \<times> nat \<times> nat) option" where
  "cut seg_head cp co s =
     (if cp = 0 then map_option (\<lambda>tail. Inr (s, tail, 0)) (chain_tail s seg_head)
      else if cursor (mem s cp) \<le> co
      then Some (Inr (link_page cp 0 s, cp, wrap32 (nxt s cp)))
      else Some (case try_allocate_page s of
             Inl e \<Rightarrow> Inl e
           | Inr (np, s1) \<Rightarrow> Inr (copy_tail cp co np s1, cp, np)))"

text \<open>The loop of the second pass: the state, the head of the last segment and its worker.\<close>

partial_function (option) split_loop ::
  "nat \<Rightarrow> nat \<Rightarrow> nat \<Rightarrow> nat \<Rightarrow> nat \<Rightarrow> nat \<Rightarrow> nat \<Rightarrow> nat \<Rightarrow> 'a shm_scheme \<Rightarrow>
   (err + 'a shm_scheme \<times> nat \<times> nat) option" where
  "split_loop out_base n total_len seg_head cp co emitted worker s =
     Option.bind (read_fwd s cp co 8 []) (\<lambda>(ok1, hdr, cp1, co1).
       if \<not> ok1 then Some (Inr (s, seg_head, worker))
       else Option.bind (skip_fwd s cp1 co1 (from_le_bytes32 (take 4 hdr))) (\<lambda>(ok2, cp2, co2).
         if \<not> ok2 then Some (Inr (s, seg_head, worker))
         else if worker + 1 < n \<and> (worker + 1) * total_len div n \<le> emitted + 8 + from_le_bytes32 (take 4 hdr)
         then Option.bind (cut seg_head cp2 co2 s) (\<lambda>r.
           case r of
             Inl e \<Rightarrow> Some (Inl e)
           | Inr (s1, w_tail, next_head) \<Rightarrow>
               (case set_slot out_base worker seg_head w_tail s1 of
                  Inl e \<Rightarrow> Some (Inl e)
                | Inr s2 \<Rightarrow>
                    if next_head = 0 then Some (Inr (s2, next_head, worker + 1))
                    else split_loop out_base n total_len next_head next_head 0
                           (emitted + 8 + from_le_bytes32 (take 4 hdr)) (worker + 1) s2))
         else split_loop out_base n total_len seg_head cp2 co2
                (emitted + 8 + from_le_bytes32 (take 4 hdr)) worker s))"

declare split_loop.simps [code]

text \<open>The last non-empty worker, the empty ones after it, and the emptied input slot.\<close>

definition finish_split ::
  "nat \<Rightarrow> nat \<Rightarrow> nat \<Rightarrow> nat \<Rightarrow> nat \<Rightarrow> 'a shm_scheme \<Rightarrow> (err + 'a shm_scheme) option" where
  "finish_split in_io_slot out_base n seg_head worker s =
     map_option
       (\<lambda>r. case r of Inl e \<Rightarrow> Inl e | Inr t \<Rightarrow> Inr (set_tail (Io in_io_slot) 0 (set_head (Io in_io_slot) 0 t)))
       (if worker < n
        then map_option (\<lambda>tail. case set_slot out_base worker seg_head tail s of
                                   Inl e \<Rightarrow> Inl e | Inr t \<Rightarrow> set_slots_empty out_base [worker + 1..<n] t)
               (chain_tail s seg_head)
        else Some (Inr s))"

definition split_input_contiguous :: "nat \<Rightarrow> nat \<Rightarrow> nat \<Rightarrow> 'a shm_scheme \<Rightarrow> (err + 'a shm_scheme) option" where
  "split_input_contiguous in_io_slot out_base n s =
     (if n = 0 then Some (Inr s)
      else if IO_SLOT_COUNT \<le> in_io_slot then Some (Inl (SlotOutOfRange in_io_slot))
      else let in_head = wrap32 (io_heads s in_io_slot) in
           if in_head = 0 then Some (set_slots_empty out_base [0..<n] s)
           else Option.bind (total_bytes s in_head 0) (\<lambda>total_len.
                  Option.bind (split_loop out_base n total_len in_head in_head 0 0 0 s) (\<lambda>r.
                    case r of
                      Inl e \<Rightarrow> Some (Inl e)
                    | Inr (t, seg_head, worker) \<Rightarrow> finish_split in_io_slot out_base n seg_head worker t)))"

section \<open>Walking\<close>

text \<open>
  A position in a chain: the pages from the current one on, and an offset within what the current
  page holds.
\<close>

definition pos_ok :: "'a shm_scheme \<Rightarrow> nat \<Rightarrow> nat \<Rightarrow> nat list \<Rightarrow> bool" where
  "pos_ok s cp co ps \<longleftrightarrow> chain (nxt s) cp ps \<and> (\<forall>p \<in> set ps. p < 4294967296)
     \<and> (if ps = [] then co = 0 else co \<le> cursor (mem s (hd ps)))"

lemma pos_ok_next:
  assumes "pos_ok s cp co (p # ps)"
  shows "pos_ok s (wrap32 (nxt s p)) 0 ps" "wrap32 (nxt s p) = nxt s p"
proof -
  have c: "chain (nxt s) (nxt s p) ps" using assms by (simp add: pos_ok_def)
  have "nxt s p < 4294967296" using chain_hd [OF c] assms by (cases ps) (auto simp: pos_ok_def)
  then show w: "wrap32 (nxt s p) = nxt s p" by simp
  show "pos_ok s (wrap32 (nxt s p)) 0 ps" using c assms unfolding w by (simp add: pos_ok_def)
qed

text \<open>Where a walk of \<open>n\<close> bytes from a position ends.\<close>

definition arrives :: "'a shm_scheme \<Rightarrow> nat list \<Rightarrow> nat \<Rightarrow> nat \<Rightarrow> nat \<Rightarrow> nat \<Rightarrow> bool" where
  "arrives s ps co n cp' co' \<longleftrightarrow> (\<exists>xs ys. ps = xs @ ys \<and> pos_ok s cp' co' ys
     \<and> length (chain_bytes s xs) + co' = co + n \<and> (n \<noteq> 0 \<longrightarrow> ys \<noteq> []))"

lemma arrives_Cons:
  assumes "arrives s ps 0 (n - k) cp' co'" "cursor (mem s p) = co + k" "k < n"
  shows "arrives s (p # ps) co n cp' co'"
proof -
  obtain xs ys where "ps = xs @ ys" "pos_ok s cp' co' ys" "length (chain_bytes s xs) + co' = n - k" "n - k \<noteq> 0 \<longrightarrow> ys \<noteq> []"
    using assms(1) by (auto simp: arrives_def)
  then show ?thesis using assms(2,3) unfolding arrives_def by (intro exI [of _ "p # xs"] exI [of _ ys]) simp
qed

lemma skip_fwd_spec:
  assumes "pos_ok s cp co ps"
  shows "if co + n \<le> length (chain_bytes s ps)
    then \<exists>cp' co'. skip_fwd s cp co n = Some (True, cp', co') \<and> arrives s ps co n cp' co'
    else \<exists>cp' co'. skip_fwd s cp co n = Some (False, cp', co')"
  using assms
proof (induction ps arbitrary: cp co n)
  case Nil
  then show ?case by (subst skip_fwd.simps, subst skip_fwd.simps) (auto simp: pos_ok_def arrives_def)
next
  case (Cons p ps)
  have p: "cp = p" "p \<noteq> 0" "co \<le> cursor (mem s p)" using Cons.prems by (auto simp: pos_ok_def)
  define k where "k = cursor (mem s p) - co"
  have stay: "skip_fwd s cp co n = Some (True, p, co + n)" if "n \<le> k"
    using that p by (cases "n = 0") (auto simp: skip_fwd.simps [of s p] k_def)
  have go: "skip_fwd s cp co n = skip_fwd s (wrap32 (nxt s p)) 0 (n - k)" if "k < n"
  proof (cases "k = 0")
    case True
    then show ?thesis using that p by (subst skip_fwd.simps) (simp add: k_def)
  next
    case False
    then have "skip_fwd s cp co n = skip_fwd s p (co + k) (n - k)"
      using that p by (subst skip_fwd.simps) (simp add: k_def min_def)
    also have "\<dots> = skip_fwd s (wrap32 (nxt s p)) 0 (n - k)"
      using that p by (subst skip_fwd.simps) (auto simp: k_def)
    finally show ?thesis .
  qed
  show ?case
  proof (cases "n \<le> k")
    case True
    have "arrives s (p # ps) co n p (co + n)"
      unfolding arrives_def using Cons.prems True p by (intro exI [of _ "[]"] exI [of _ "p # ps"]) (simp add: pos_ok_def k_def)
    then show ?thesis using stay [OF True] True p by (auto simp: k_def)
  next
    case False
    then have kn: "k < n" by simp
    have "co + n \<le> length (chain_bytes s (p # ps)) \<longleftrightarrow> n - k \<le> length (chain_bytes s ps)" using p kn by (auto simp: k_def)
    moreover have "cursor (mem s p) = co + k" using p by (simp add: k_def)
    ultimately show ?thesis
      using Cons.IH [OF pos_ok_next(1) [OF Cons.prems], of "n - k"] go [OF kn] arrives_Cons [OF _ _ kn]
      by (cases "n - k \<le> length (chain_bytes s ps)") (simp, blast, simp)
  qed
qed

text \<open>Reading is skipping that keeps the bytes.\<close>

lemma read_fwd_skip:
  assumes "pos_ok s cp co ps"
  shows "read_fwd s cp co n buf = (if co + n \<le> length (chain_bytes s ps)
    then map_option (\<lambda>r. (fst r, buf @ take n (drop co (chain_bytes s ps)), snd r)) (skip_fwd s cp co n)
    else map_option (\<lambda>r. (fst r, buf @ drop co (chain_bytes s ps), snd r)) (skip_fwd s cp co n))"
  using assms
proof (induction ps arbitrary: cp co n buf)
  case Nil
  then show ?case by (cases "n = 0") (simp_all add: pos_ok_def skip_fwd.simps [of s 0 0] read_fwd.simps [of s 0 0])
next
  case (Cons p ps)
  have p: "cp = p" "p \<noteq> 0" "co \<le> cursor (mem s p)" using Cons.prems by (auto simp: pos_ok_def)
  define k where "k = cursor (mem s p) - co"
  define xs where "xs = read_bytes (data (mem s p)) co k"
  have xs: "length xs = k" "drop co (chain_bytes s (p # ps)) = xs @ chain_bytes s ps"
    using p by (simp_all add: xs_def k_def page_bytes_def drop_read_bytes)
  show ?case
  proof (cases "n \<le> k")
    case True
    have "read_fwd s cp co n buf = Some (True, buf @ take n xs, p, co + n)" "skip_fwd s cp co n = Some (True, p, co + n)"
      using True p by (cases "n = 0"; auto simp: read_fwd.simps [of s p] skip_fwd.simps [of s p] k_def xs_def take_read_bytes)+
    then show ?thesis using True p xs by (auto simp: k_def)
  next
    case False
    have "read_fwd s cp co n buf = read_fwd s (wrap32 (nxt s p)) 0 (n - k) (buf @ xs)"
      "skip_fwd s cp co n = skip_fwd s (wrap32 (nxt s p)) 0 (n - k)"
      using False p by (cases "k = 0"; auto simp: read_fwd.simps [of s p] skip_fwd.simps [of s p] k_def xs_def min_def)+
    moreover have "co + n \<le> length (chain_bytes s (p # ps)) \<longleftrightarrow> n - k \<le> length (chain_bytes s ps)" using p False by (auto simp: k_def)
    ultimately show ?thesis using Cons.IH [OF pos_ok_next(1) [OF Cons.prems], of "n - k" "buf @ xs"] xs False by simp
  qed
qed

lemma chain_end_spec:
  assumes "chain (nxt s) p ps" "ps \<noteq> []" "\<forall>q \<in> set ps. q < 4294967296"
  shows "chain_end s p = Some (last ps)"
  using assms
proof (induction ps arbitrary: p)
  case (Cons q qs)
  have q: "p = q" "chain (nxt s) (nxt s q) qs" using Cons.prems(1) by auto
  show ?case
  proof (cases qs)
    case Nil
    then show ?thesis using q by (simp add: chain_end.simps [of s q])
  next
    case (Cons a as)
    then have "nxt s q = a" "a \<noteq> 0" "wrap32 (nxt s q) = a" using q(2) Cons.prems(3) by auto
    moreover have "chain_end s a = Some (last qs)" using Cons.IH [of a] q(2) Cons Cons.prems(3) \<open>nxt s q = a\<close> by simp
    ultimately show ?thesis using q(1) Cons by (simp add: chain_end.simps [of s q])
  qed
qed simp

lemma total_bytes_spec:
  assumes "chain (nxt s) p ps" "\<forall>q \<in> set ps. q < 4294967296"
  shows "total_bytes s p acc = Some (acc + length (chain_bytes s ps))"
  using assms
proof (induction ps arbitrary: p acc)
  case Nil
  then show ?case by (simp add: total_bytes.simps)
next
  case (Cons q qs)
  have q: "p = q" "q \<noteq> 0" "chain (nxt s) (nxt s q) qs" using Cons.prems(1) by auto
  have "wrap32 (nxt s q) = nxt s q" using chain_hd [OF q(3)] Cons.prems(2) by (cases qs) auto
  then show ?case using q Cons.IH [OF q(3)] Cons.prems(2) by (simp add: total_bytes.simps [of s q])
qed

section \<open>Cutting\<close>

text \<open>A boundary inside complete records splits them.\<close>

lemma parse_take_drop:
  assumes "complete (xs @ ys)" "complete xs"
  shows "complete ys" "parse_records (xs @ ys) = parse_records xs @ parse_records ys"
proof -
  obtain rs where rs: "list_all wf_record rs" "xs = concat (map encode_record rs)" using assms(2) by (auto simp: complete_def)
  then show p: "parse_records (xs @ ys) = parse_records xs @ parse_records ys"
    using parse_records_concat [OF rs(1), of ys] parse_records_concat [OF rs(1), of "[]"] by simp
  obtain us where us: "list_all wf_record us" "xs @ ys = concat (map encode_record us)" using assms(1) by (auto simp: complete_def)
  have "us = rs @ parse_records ys"
    using parse_records_concat [OF us(1), of "[]"] parse_records_concat [OF rs(1), of ys] us(2) rs(2) by simp
  then have "ys = concat (map encode_record (parse_records ys))" "list_all wf_record (parse_records ys)"
    using us rs(2) by simp_all
  then show "complete ys" unfolding complete_def by blast
qed

text \<open>
  Giving new chains to two slots: everything else of the region is kept, and the pages of the two
  chains are their old pages or pages that were available.
\<close>

lemma chains_upd2:
  assumes C: "chains s C" and g: "guest_inv t" "avail t \<subseteq> avail s" and ab: "a \<noteq> b"
    and A: "slot_chain t a ps" "complete (chain_bytes t ps)" and B: "slot_chain t b qs" "complete (chain_bytes t qs)"
    and pages: "set ps \<union> set qs \<subseteq> set (C a) \<union> set (C b) \<union> avail s" "set ps \<inter> set qs = {}" "(set ps \<union> set qs) \<inter> avail t = {}"
    and other: "\<forall>sl. sl \<noteq> a \<and> sl \<noteq> b \<longrightarrow> get_head sl t = get_head sl s \<and> get_tail sl t = get_tail sl s"
      "\<forall>q. q \<notin> set (C a) \<union> set (C b) \<union> avail s \<longrightarrow> mem t q = mem s q"
  shows "chains t (C(a := ps, b := qs))"
    "sl \<noteq> a \<Longrightarrow> sl \<noteq> b \<Longrightarrow> chain_bytes t (C sl) = chain_bytes s (C sl)"
proof -
  let ?C = "C(a := ps, b := qs)"
  have c: "guest_inv s" "\<And>sl. slot_chain s sl (C sl)" "\<And>sl. complete (chain_bytes s (C sl))"
    "\<And>sl. set (C sl) \<inter> avail s = {}"
    "\<And>sl p. p \<in> set (C sl) \<Longrightarrow> BUMP_ALLOCATOR_START \<le> p \<and> PAGE_SIZE dvd p"
    "\<And>sl sl'. sl \<noteq> sl' \<Longrightarrow> set (C sl) \<inter> set (C sl') = {}"
    using C by (auto simp: chains_def)
  have m: "mem t q = mem s q" if "q \<in> set (C sl)" "sl \<noteq> a" "sl \<noteq> b" for q sl
    using other(2) c(4) [of sl] c(6) [OF that(2)] c(6) [OF that(3)] that(1) by blast
  have al: "BUMP_ALLOCATOR_START \<le> p \<and> PAGE_SIZE dvd p" if "p \<in> set ps \<union> set qs" for p
    using pages(1) that c(5) avail_aligned [of s p] c(1) by (auto simp: guest_inv_def)
  have o: "slot_chain t sl (C sl)" "chain_bytes t (C sl) = chain_bytes s (C sl)" if "sl \<noteq> a" "sl \<noteq> b" for sl
    using slot_chain_cong [OF c(2) [of sl], of t] chain_bytes_cong [of "C sl" t s] m other(1) that by blast+
  show "chain_bytes t (C sl) = chain_bytes s (C sl)" if "sl \<noteq> a" "sl \<noteq> b" using o(2) [OF that] .
  have dj: "set (C sl) \<inter> (set ps \<union> set qs) = {}" if "sl \<noteq> a" "sl \<noteq> b" for sl
    using pages(1) c(4) [of sl] c(6) [OF that(1)] c(6) [OF that(2)] by blast
  show "chains t ?C"
    unfolding chains_def
  proof (intro conjI allI impI)
    show "guest_inv t" by (rule g(1))
    fix sl
    show "slot_chain t sl (?C sl)" "complete (chain_bytes t (?C sl))" using A B o [of sl] c(3) [of sl] by (auto simp: ab)
    show "set (?C sl) \<inter> avail t = {}" using pages(3) c(4) [of sl] g(2) by auto
    show "\<forall>p\<in>set (?C sl). BUMP_ALLOCATOR_START \<le> p \<and> PAGE_SIZE dvd p" using al c(5) [of _ sl] by auto
    show "set (?C sl) \<inter> set (?C sl') = {}" if "sl \<noteq> sl'" for sl'
      using pages(2) dj [of sl] dj [of sl'] c(6) [OF that] that by auto
  qed
qed
text \<open>
  While the loop runs, the input slot's atomics still name the first page; what is left of the input
  is the chain from the head of the current segment. The view of a state puts that chain into
  the input slot.
\<close>

definition chain_last_of :: "nat list \<Rightarrow> nat" where
  "chain_last_of ps = (if ps = [] then 0 else last ps)"

definition in_view :: "nat \<Rightarrow> nat \<Rightarrow> nat list \<Rightarrow> 'a shm_scheme \<Rightarrow> 'a shm_scheme" where
  "in_view i h ps s = set_tail (Io i) (chain_last_of ps) (set_head (Io i) h s)"

definition give :: "nat \<Rightarrow> nat \<Rightarrow> nat \<Rightarrow> 'a shm_scheme \<Rightarrow> 'a shm_scheme" where
  "give w h l s = set_tail (Stream w) l (set_head (Stream w) h s)"

lemma view_access [simp]:
  "mem (in_view i h ps s) = mem s" "mem (give w h l s) = mem s"
  "get_head sl (in_view i h ps s) = (if sl = Io i then h else get_head sl s)"
  "get_tail sl (in_view i h ps s) = (if sl = Io i then chain_last_of ps else get_tail sl s)"
  "get_head sl (give w h l s) = (if sl = Stream w then h else get_head sl s)"
  "get_tail sl (give w h l s) = (if sl = Stream w then l else get_tail sl s)"
  "bump_room (in_view i h ps s) = bump_room s" "bump_room (give w h l s) = bump_room s"
  by (simp_all add: in_view_def give_def bump_room_def del: set_head.simps set_tail.simps)

lemma view_bytes [simp]:
  "chain_bytes (in_view i h ps s) qs = chain_bytes s qs" "chain_bytes (give w h l s) qs = chain_bytes s qs"
  by (rule chain_bytes_cong; simp)+

lemma view_inv:
  "guest_inv (in_view i h ps s) = guest_inv s" "guest_inv (give w h l s) = guest_inv s"
  "avail (in_view i h ps s) = avail s" "avail (give w h l s) = avail s"
proof -
  have f: "avail t = avail s \<and> guest_inv t = guest_inv s"
    if "bump_allocator t = bump_allocator s" "free_list_heads t = free_list_heads s" "global_capacity t = global_capacity s"
      "local_capacity t = local_capacity s" "mem t = mem s" for t s :: "'a shm_scheme"
    using that by (simp add: guest_inv_def alloc_inv_def bump_ok_def free_lists_def heap_page_def cap_ok_def avail_def free_pages_def)
  show "guest_inv (in_view i h ps s) = guest_inv s" "avail (in_view i h ps s) = avail s"
    using f [of "in_view i h ps s" s] by (simp_all add: in_view_def)
  show "guest_inv (give w h l s) = guest_inv s" "avail (give w h l s) = avail s"
    using f [of "give w h l s" s] by (simp_all add: give_def)
qed

text \<open>The two ways of cutting the chain \<open>xs @ cp # ys\<close> inside the page \<open>cp\<close>, in terms of the pages.\<close>

lemma cut_clean_chains:
  assumes c: "chain (nxt s) h (xs @ cp # ys)" and t: "t = link_page cp 0 s"
  shows "chain (nxt t) h (xs @ [cp])" "chain (nxt t) (nxt s cp) ys" "chain_bytes t zs = chain_bytes s zs"
proof -
  have d: "cp \<notin> set xs" "cp \<notin> set ys" using chain_distinct [OF c] by auto
  have nx: "nxt t = (nxt s)(cp := 0)" by (auto simp: t link_page_def)
  show "chain (nxt t) h (xs @ [cp])" "chain (nxt t) (nxt s cp) ys" using c d unfolding nx by auto
  have "page_bytes t q = page_bytes s q" for q by (simp add: page_bytes_def t link_page_def)
  then show "chain_bytes t zs = chain_bytes s zs" unfolding chain_bytes_def by (metis map_cong)
qed

lemma cut_mid_chains:
  assumes c: "chain (nxt s) h (xs @ cp # ys)" "\<forall>q \<in> set ys. q < 4294967296" and np: "np \<notin> set (xs @ cp # ys)" "0 < np"
    and co: "co \<le> cursor (mem s cp)" and t: "t = copy_tail cp co np s"
  shows "chain (nxt t) h (xs @ [cp])" "chain (nxt t) np (np # ys)"
    "chain_bytes t (xs @ [cp]) = chain_bytes s xs @ take co (page_bytes s cp)"
    "chain_bytes t (np # ys) = drop co (page_bytes s cp) @ chain_bytes s ys"
    "cursor (mem t cp) = co" "cursor (mem t np) = cursor (mem s cp) - co"
    "\<And>q. q \<noteq> cp \<Longrightarrow> q \<noteq> np \<Longrightarrow> mem t q = mem s q"
proof -
  have d: "cp \<notin> set xs" "cp \<notin> set ys" "np \<noteq> cp" "np \<notin> set xs" "np \<notin> set ys" using chain_distinct [OF c(1)] np by auto
  have "chain (nxt s) (nxt s cp) ys" using c(1) by auto
  then have w: "wrap32 (nxt s cp) = nxt s cp" using chain_hd [of "nxt s" "nxt s cp" ys] c(2) by (cases ys) auto
  have nx: "nxt t = ((nxt s)(np := nxt s cp))(cp := 0)" using d(3) w by (auto simp: t copy_tail_def Let_def)
  show "chain (nxt t) h (xs @ [cp])" "chain (nxt t) np (np # ys)" using c(1) d np(2) unfolding nx by auto
  show m: "mem t q = mem s q" if "q \<noteq> cp" "q \<noteq> np" for q using that by (simp add: t copy_tail_def Let_def)
  show cur: "cursor (mem t cp) = co" "cursor (mem t np) = cursor (mem s cp) - co" using d(3) by (simp_all add: t copy_tail_def Let_def)
  have "page_bytes t cp = take co (page_bytes s cp)" using co d(3)
    by (simp add: page_bytes_def t copy_tail_def Let_def take_read_bytes)
  moreover have "page_bytes t np = drop co (page_bytes s cp)"
    using d(3) read_write_bytes_same [of "data (mem s np)" 0 "read_bytes (data (mem s cp)) co (cursor (mem s cp) - co)"]
    by (simp add: page_bytes_def t copy_tail_def Let_def drop_read_bytes)
  moreover have "chain_bytes t xs = chain_bytes s xs" "chain_bytes t ys = chain_bytes s ys"
    by (rule chain_bytes_cong; metis d m)+
  ultimately show "chain_bytes t (xs @ [cp]) = chain_bytes s xs @ take co (page_bytes s cp)"
    "chain_bytes t (np # ys) = drop co (page_bytes s cp) @ chain_bytes s ys" by simp_all
qed

definition cut_result :: "nat \<Rightarrow> nat \<Rightarrow> nat \<Rightarrow> nat \<Rightarrow> (slot \<Rightarrow> nat list) \<Rightarrow> nat list \<Rightarrow> nat \<Rightarrow> 'a shm_scheme \<Rightarrow> 'a shm_scheme \<Rightarrow> nat \<Rightarrow> nat \<Rightarrow> nat list \<Rightarrow> bool" where
  "cut_result i w h cp C ps k s s1 w_tail nh qs \<longleftrightarrow>
     chains (in_view i nh qs (give w h w_tail s1)) (C(Stream w := ps, Io i := qs))
     \<and> chain_bytes s1 ps = take k (chain_bytes s (C (Io i))) \<and> chain_bytes s1 qs = drop k (chain_bytes s (C (Io i)))
     \<and> (\<forall>sl. sl \<noteq> Stream w \<and> sl \<noteq> Io i \<longrightarrow> chain_bytes s1 (C sl) = chain_bytes s (C sl))
     \<and> (nh = 0 \<longleftrightarrow> qs = [])"

lemma cut_spec:
  assumes v: "chains (in_view i h (C (Io i)) s) C" and C: "C (Io i) = xs @ cp # ys" and co: "co \<le> cursor (mem s cp)"
    and k: "k = length (chain_bytes s xs) + co" and comp: "complete (take k (chain_bytes s (C (Io i))))"
    and cut: "cut h cp co s = Some (Inr (s1, w_tail, nh))"
  shows "\<exists>qs. cut_result i w h cp C (xs @ [cp]) k s s1 w_tail nh qs"
proof -
  let ?v = "in_view i h (C (Io i)) s"
  have c: "guest_inv s" "slot_chain ?v (Io i) (C (Io i))" "complete (chain_bytes s (C (Io i)))" "set (C (Io i)) \<inter> avail s = {}"
    using v by (auto simp: chains_def view_inv)
  have ch: "chain (nxt s) h (xs @ cp # ys)" "\<forall>q \<in> set (xs @ cp # ys). q < 4294967296 \<and> cursor (mem s q) \<le> PAGE_DATA_SIZE"
    using c(2) C by (auto simp: slot_chain_def)
  have cp: "cp \<noteq> 0" using path_nonnull [OF ch(1)] by auto
  have bytes: "take k (chain_bytes s (C (Io i))) = chain_bytes s xs @ take co (page_bytes s cp)"
    "drop k (chain_bytes s (C (Io i))) = drop co (page_bytes s cp) @ chain_bytes s ys"
    using co by (simp_all add: C k)
  have compd: "complete (drop k (chain_bytes s (C (Io i))))"
    using parse_take_drop(1) [of "take k (chain_bytes s (C (Io i)))"] comp c(3) by simp
  show ?thesis
  proof (cases "cursor (mem s cp) \<le> co")
    case True
    then have s1: "s1 = link_page cp 0 s" "w_tail = cp" "nh = wrap32 (nxt s cp)" using cut cp by (auto simp: cut_def)
    note cc = cut_clean_chains [OF ch(1) s1(1)]
    have n: "wrap32 (nxt s cp) = nxt s cp" using chain_hd [OF cc(2)] ch(2) by (cases ys) auto
    have av: "guest_inv s1 \<and> avail s1 = avail s"
      by (rule guest_inv_cong [OF c(1)]) (use c(4) C in \<open>auto simp: s1 link_page_def\<close>)
    have b: "chain_bytes s1 (xs @ [cp]) = take k (chain_bytes s (C (Io i)))" "chain_bytes s1 ys = drop k (chain_bytes s (C (Io i)))"
      using True co bytes unfolding cc(3) by simp_all
    have "chains (in_view i nh ys (give w h w_tail s1)) (C(Stream w := xs @ [cp], Io i := ys))"
      by (rule chains_upd2(1) [OF v])
        (use cc ch av b comp compd c(4) C s1 n chain_distinct [OF ch(1)] in
          \<open>auto simp: view_inv slot_chain_def chain_last_of_def link_page_def simp del: chain_bytes_append\<close>)
    moreover have "nh = 0 \<longleftrightarrow> ys = []" using cc(2) n s1(3) by (cases ys) auto
    ultimately show ?thesis unfolding cut_result_def using b cc(3) by blast
  next
    case False
    then obtain s0 where al: "try_allocate_page s = Inr (nh, s0)" and s1: "s1 = copy_tail cp co nh s0" "w_tail = cp"
      using cut cp by (auto simp: cut_def split: sum.splits)
    note a = guest.alloc_inv' [OF c(1) al] guest.alloc_fresh [OF c(1) al] guest.alloc_taken [OF c(1) al]
      guest.alloc_nonnull [OF c(1) al] guest.alloc_frame [OF c(1) al]
    have m0: "mem s0 q = mem s q" if "q \<notin> avail s" for q using guest.alloc_mem [OF c(1) al that] .
    have nh: "nh \<notin> set (xs @ cp # ys)" using a(2) c(4) C by auto
    have m0': "\<And>q. q \<in> set (xs @ cp # ys) \<Longrightarrow> mem s0 q = mem s q" using m0 c(4) C by auto
    have ch0: "chain (nxt s0) h (xs @ cp # ys)" using ch(1) path_cong [of "xs @ cp # ys" "nxt s0" "nxt s"] m0' by simp
    have by0: "chain_bytes s0 xs = chain_bytes s xs" "page_bytes s0 cp = page_bytes s cp" "chain_bytes s0 ys = chain_bytes s ys"
      using m0' by (auto intro!: chain_bytes_cong simp: page_bytes_def)
    have "\<forall>q\<in>set ys. q < 4294967296" "0 < nh" "co \<le> cursor (mem s0 cp)" using ch(2) a(4) co m0' by auto
    note cm = cut_mid_chains [OF ch0 this(1) nh this(2) this(3) s1(1)]
    have av: "guest_inv s1 \<and> avail s1 = avail s0"
      by (rule guest_inv_cong [OF a(1)]) (use a(3) c(4) C cm(7) in \<open>auto simp: s1 copy_tail_def Let_def\<close>)
    have b: "chain_bytes s1 (xs @ [cp]) = take k (chain_bytes s (C (Io i)))" "chain_bytes s1 (nh # ys) = drop k (chain_bytes s (C (Io i)))"
      using bytes by (simp_all only: cm(3,4) by0)
    have d: "cp \<notin> set xs" "cp \<notin> set ys" "set xs \<inter> set ys = {}" using chain_distinct [OF ch(1)] by auto
    have m1: "mem s1 q = mem s q" if "q \<in> set xs \<union> set ys" for q using cm(7) [of q] m0' [of q] d nh that by auto
    have A: "slot_chain (in_view i nh (nh # ys) (give w h w_tail s1)) (Stream w) (xs @ [cp])"
      using cm(1,5) m1 ch(2) co s1(2) by (auto simp: slot_chain_def)
    have B: "slot_chain (in_view i nh (nh # ys) (give w h w_tail s1)) (Io i) (nh # ys)"
      using cm(2,6) m1 m0' [of cp] ch(2) a(4) by (auto simp: slot_chain_def chain_last_of_def)
    have O: "mem s1 q = mem s q" if "q \<notin> set (C (Stream w)) \<union> set (C (Io i)) \<union> avail s" for q
      using cm(7) [of q] m0 [of q] a(2) that C by auto
    have "chains (in_view i nh (nh # ys) (give w h w_tail s1)) (C(Stream w := xs @ [cp], Io i := nh # ys))"
      by (rule chains_upd2(1) [OF v _ _ _ A _ B])
        (use av a(2,3) b comp compd nh d C c(4) O same_slots_access [OF a(5)] in
          \<open>auto simp: view_inv s1 copy_tail_def Let_def simp del: chain_bytes_append chain_bytes_Cons\<close>)
    moreover have "chain_bytes s1 (C sl) = chain_bytes s (C sl)" if "sl \<noteq> Io i" for sl
    proof (rule chain_bytes_cong)
      have "set (C sl) \<inter> set (C (Io i)) = {}" "set (C sl) \<inter> avail s = {}" using v that by (auto simp: chains_def view_inv)
      then have "q \<notin> avail s \<and> q \<noteq> cp \<and> q \<noteq> nh" if "q \<in> set (C sl)" for q using a(2) that C by auto
      then show "mem s1 q = mem s q" if "q \<in> set (C sl)" for q using cm(7) [of q] m0 [of q] that by simp
    qed
    ultimately show ?thesis unfolding cut_result_def using b a(4) by (intro exI [of _ "nh # ys"]) auto
  qed
qed

section \<open>The loop\<close>

lemma complete_first:
  assumes "complete bs" "bs \<noteq> []"
  shows "8 + from_le_bytes32 (take 4 bs) \<le> length bs" "complete (take (8 + from_le_bytes32 (take 4 bs)) bs)"
proof -
  obtain rs where rs: "list_all wf_record rs" "bs = concat (map encode_record rs)" using assms(1) by (auto simp: complete_def)
  then obtain r rs' where r: "rs = r # rs'" using assms(2) by (cases rs) auto
  have w: "wf_record r" "bs = encode_record r @ concat (map encode_record rs')" using rs r by simp_all
  have l: "length (encode_record r) = 8 + length (snd r)" by (simp add: encode_record_def frame_def)
  have t: "from_le_bytes32 (take 4 bs) = length (snd r)" using w by (simp add: encode_record_def frame_def wf_record_def)
  show "8 + from_le_bytes32 (take 4 bs) \<le> length bs" using w(2) l t by simp
  have "take (8 + from_le_bytes32 (take 4 bs)) bs = encode_record r" using w(2) l t by simp
  then show "complete (take (8 + from_le_bytes32 (take 4 bs)) bs)"
    using w(1) unfolding complete_def by (intro exI [of _ "[r]"]) simp
qed

lemma complete_extend:
  assumes "complete bs" "complete (take k bs)" "k < length bs" "l = 8 + from_le_bytes32 (take 4 (drop k bs))"
  shows "k + l \<le> length bs" "complete (take (k + l) bs)"
proof -
  have d: "complete (drop k bs)" "drop k bs \<noteq> []" using parse_take_drop(1) [of "take k bs" "drop k bs"] assms(1-3) by auto
  note f = complete_first [OF d]
  show "k + l \<le> length bs" using f(1) assms(3,4) by simp
  obtain us vs where "list_all wf_record us" "take k bs = concat (map encode_record us)" "list_all wf_record vs"
    "take l (drop k bs) = concat (map encode_record vs)" using f(2) assms(2,4) by (auto simp: complete_def)
  then have "list_all wf_record (us @ vs) \<and> take (k + l) bs = concat (map encode_record (us @ vs))" by (simp add: take_add)
  then show "complete (take (k + l) bs)" unfolding complete_def by blast
qed

text \<open>Reading one record from a position, by its header and the skip over its payload.\<close>

lemma walk_record:
  assumes pos: "pos_ok s cp co ps" and bs: "bs = drop co (chain_bytes s ps)" and l: "l = from_le_bytes32 (take 4 bs)"
    and len: "8 + l \<le> length bs"
  obtains hdr cp1 co1 cp2 co2 where "read_fwd s cp co 8 [] = Some (True, hdr, cp1, co1)" "from_le_bytes32 (take 4 hdr) = l"
    "skip_fwd s cp1 co1 l = Some (True, cp2, co2)"
    "\<exists>xs ys. ps = xs @ cp2 # ys \<and> pos_ok s cp2 co2 (cp2 # ys) \<and> length (chain_bytes s xs) + co2 = co + (8 + l)"
proof -
  have c: "co + (8 + l) \<le> length (chain_bytes s ps)" using len bs by simp
  then have "co + 8 \<le> length (chain_bytes s ps)" by simp
  then obtain cp1 co1 where k: "skip_fwd s cp co 8 = Some (True, cp1, co1)" "arrives s ps co 8 cp1 co1"
    using skip_fwd_spec [OF pos, of 8] by auto
  have r: "read_fwd s cp co 8 [] = Some (True, take 8 bs, cp1, co1)"
    using read_fwd_skip [OF pos, of 8 "[]"] k(1) \<open>co + 8 \<le> _\<close> bs by simp
  obtain xs ys where a: "ps = xs @ ys" "pos_ok s cp1 co1 ys" "length (chain_bytes s xs) + co1 = co + 8" "ys \<noteq> []"
    using k(2) by (auto simp: arrives_def)
  have hd: "ys = cp1 # tl ys" using a(2,4) by (cases ys) (auto simp: pos_ok_def)
  have t: "from_le_bytes32 (take 4 (take 8 bs)) = l" by (simp add: l min_def)
  show thesis
  proof (cases "l = 0")
    case True
    then have "skip_fwd s cp1 co1 l = Some (True, cp1, co1)" by (simp add: skip_fwd.simps)
    moreover have "ps = xs @ cp1 # tl ys" "pos_ok s cp1 co1 (cp1 # tl ys)" "length (chain_bytes s xs) + co1 = co + (8 + l)"
      using a True hd by auto
    ultimately show thesis using that [OF r t] by blast
  next
    case False
    have "co1 + l \<le> length (chain_bytes s ys)" using c a(1,3) by simp
    then obtain cp2 co2 where k2: "skip_fwd s cp1 co1 l = Some (True, cp2, co2)" "arrives s ys co1 l cp2 co2"
      using skip_fwd_spec [OF a(2), of l] by auto
    then obtain xs' ys' where b: "ys = xs' @ ys'" "pos_ok s cp2 co2 ys'" "length (chain_bytes s xs') + co2 = co1 + l" "ys' \<noteq> []"
      using False by (auto simp: arrives_def)
    have "ys' = cp2 # tl ys'" using b(2,4) by (cases ys') (auto simp: pos_ok_def)
    then have "ps = (xs @ xs') @ cp2 # tl ys'" "pos_ok s cp2 co2 (cp2 # tl ys')" "length (chain_bytes s (xs @ xs')) + co2 = co + (8 + l)"
      using a(1,3) b by auto
    then show thesis using that [OF r t k2(1)] by blast
  qed
qed

lemma cut_total:
  assumes "guest_inv s" "cp \<noteq> 0" "0 < bump_room s"
  obtains s1 wt nh where "cut h cp co s = Some (Inr (s1, wt, nh))" "bump_room s \<le> Suc (bump_room s1)"
proof (cases "cursor (mem s cp) \<le> co")
  case True
  then show thesis using that assms(2) by (simp add: cut_def link_page_def bump_room_def)
next
  case False
  obtain np s0 where al: "try_allocate_page s = Inr (np, s0)" using guest.alloc_total [OF assms(1,3)] by blast
  have "bump_room (copy_tail cp co np s0) = bump_room s0" by (simp add: copy_tail_def Let_def bump_room_def)
  then show thesis using that [of "copy_tail cp co np s0"] False assms(2) al guest.alloc_room [OF assms(1) al] by (simp add: cut_def)
qed

lemma split_loop_stop:
  "read_fwd s cp co 8 [] = Some (False, b, p, q) \<Longrightarrow> split_loop out_base n tot h cp co em wk s = Some (Inr (s, h, wk))"
  by (subst split_loop.simps) simp

lemma split_loop_step:
  assumes "read_fwd s cp co 8 [] = Some (True, hdr, cp1, co1)" "from_le_bytes32 (take 4 hdr) = l"
    "skip_fwd s cp1 co1 l = Some (True, cp2, co2)"
  shows "\<not> (wk + 1 < n \<and> (wk + 1) * tot div n \<le> em + 8 + l) \<Longrightarrow>
      split_loop out_base n tot h cp co em wk s = split_loop out_base n tot h cp2 co2 (em + 8 + l) wk s"
    "wk + 1 < n \<and> (wk + 1) * tot div n \<le> em + 8 + l \<Longrightarrow> cut h cp2 co2 s = Some (Inr (s1, wt, nh)) \<Longrightarrow>
      out_base + wk < STREAM_SLOT_COUNT \<Longrightarrow>
      split_loop out_base n tot h cp co em wk s =
        (if nh = 0 then Some (Inr (give (out_base + wk) h wt s1, nh, wk + 1))
         else split_loop out_base n tot nh nh 0 (em + 8 + l) (wk + 1) (give (out_base + wk) h wt s1))"
proof -
  show "split_loop out_base n tot h cp co em wk s = split_loop out_base n tot h cp2 co2 (em + 8 + l) wk s"
    if "\<not> (wk + 1 < n \<and> (wk + 1) * tot div n \<le> em + 8 + l)"
    using assms that by (subst split_loop.simps) auto
  show "split_loop out_base n tot h cp co em wk s =
      (if nh = 0 then Some (Inr (give (out_base + wk) h wt s1, nh, wk + 1))
       else split_loop out_base n tot nh nh 0 (em + 8 + l) (wk + 1) (give (out_base + wk) h wt s1))"
    if "wk + 1 < n \<and> (wk + 1) * tot div n \<le> em + 8 + l" "cut h cp2 co2 s = Some (Inr (s1, wt, nh))" "out_base + wk < STREAM_SLOT_COUNT"
  proof -
    have "wrap32 (out_base + wk) = out_base + wk" using that(3) by (simp add: layout_consts)
    then have "set_slot out_base wk h wt s1 = Inr (give (out_base + wk) h wt s1)" using that(3) by (simp add: set_slot_def give_def Let_def)
    then show ?thesis using assms that(1,2) by (subst split_loop.simps) simp
  qed
qed

text \<open>
  The loop from a position at a record boundary: it returns, the segments it gives to the workers and
  what is left of the input are together the records of the input, and no other slot changes.
\<close>

abbreviation recs :: "'a shm_scheme \<Rightarrow> nat list \<Rightarrow> stream_record list" where
  "recs s ps \<equiv> parse_records (chain_bytes s ps)"

definition split_done ::
  "nat \<Rightarrow> nat \<Rightarrow> nat \<Rightarrow> nat \<Rightarrow> 'a shm_scheme \<Rightarrow> (slot \<Rightarrow> nat list) \<Rightarrow> 'a shm_scheme \<Rightarrow> nat \<Rightarrow> nat \<Rightarrow> (slot \<Rightarrow> nat list) \<Rightarrow> bool" where
  "split_done i out_base n wk s C t h' wk' C' \<longleftrightarrow>
     chains (in_view i h' (C' (Io i)) t) C' \<and> wk \<le> wk' \<and> wk' < n \<and> bump_room s + wk \<le> bump_room t + wk'
     \<and> (\<forall>sl. sl \<noteq> Io i \<and> sl \<notin> Stream ` {out_base + wk..<out_base + wk'} \<longrightarrow> C' sl = C sl \<and> chain_bytes t (C sl) = chain_bytes s (C sl))
     \<and> concat (map (\<lambda>w. recs t (C' (Stream (out_base + w)))) [wk..<wk']) @ recs t (C' (Io i)) = recs s (C (Io i))"

lemma split_done_cut:
  assumes q: "cut_result i (out_base + wk) h cp C ps k s s1 wt nh qs"
    and comp: "complete (chain_bytes s (C (Io i)))" "complete (take k (chain_bytes s (C (Io i))))"
    and d: "split_done i out_base n (wk + 1) (give (out_base + wk) h wt s1) (C(Stream (out_base + wk) := ps, Io i := qs)) t h' wk' C'"
    and room: "bump_room s \<le> Suc (bump_room s1)"
  shows "split_done i out_base n wk s C t h' wk' C'"
proof -
  let ?w = "out_base + wk" and ?bs = "chain_bytes s (C (Io i))"
  let ?C = "C(Stream ?w := ps, Io i := qs)"
  have q': "chain_bytes s1 ps = take k ?bs" "chain_bytes s1 qs = drop k ?bs"
    "\<And>sl. sl \<noteq> Stream ?w \<Longrightarrow> sl \<noteq> Io i \<Longrightarrow> chain_bytes s1 (C sl) = chain_bytes s (C sl)" using q by (auto simp: cut_result_def)
  have D: "chains (in_view i h' (C' (Io i)) t) C'" "wk + 1 \<le> wk'" "wk' < n"
    "concat (map (\<lambda>w. recs t (C' (Stream (out_base + w)))) [wk + 1..<wk']) @ recs t (C' (Io i)) = recs s1 qs"
    "bump_room s + wk \<le> bump_room t + wk'"
    using d room by (simp_all add: split_done_def)
  have keep: "C' sl = ?C sl \<and> chain_bytes t (?C sl) = chain_bytes s1 (?C sl)"
    if "sl \<noteq> Io i" "sl \<notin> Stream ` {out_base + wk + 1..<out_base + wk'}" for sl
    using d that unfolding split_done_def by (metis add.assoc view_bytes(2))
  have "Stream ?w \<notin> Stream ` {out_base + wk + 1..<out_base + wk'}" by auto
  then have w: "recs t (C' (Stream ?w)) = parse_records (take k ?bs)" using keep [of "Stream ?w"] q'(1) by simp
  have "recs s (C (Io i)) = parse_records (take k ?bs) @ parse_records (drop k ?bs)"
    using parse_take_drop(2) [of "take k ?bs" "drop k ?bs"] comp by simp
  moreover have "[wk..<wk'] = wk # [wk + 1..<wk']" using D(2) by (simp add: upt_conv_Cons)
  ultimately have "concat (map (\<lambda>w. recs t (C' (Stream (out_base + w)))) [wk..<wk']) @ recs t (C' (Io i)) = recs s (C (Io i))"
    using D(4) w q'(2) by simp
  moreover have "C' sl = C sl \<and> chain_bytes t (C sl) = chain_bytes s (C sl)"
    if sl: "sl \<noteq> Io i" "sl \<notin> Stream ` {out_base + wk..<out_base + wk'}" for sl
  proof -
    have "sl \<noteq> Stream ?w" using sl(2) D(2) by auto
    moreover have "sl \<notin> Stream ` {out_base + wk + 1..<out_base + wk'}" using sl(2) by auto
    ultimately show ?thesis using keep [OF sl(1)] q'(3) sl(1) by simp
  qed
  ultimately show ?thesis using D(1-3,5) by (simp add: split_done_def)
qed

lemma split_loop_spec:
  assumes "chains (in_view i h (C (Io i)) s) C" "C (Io i) = xs @ ps" "pos_ok s cp co ps"
    "complete (take (length (chain_bytes s xs) + co) (chain_bytes s (C (Io i))))"
    "wk < n" "n \<le> wk + bump_room s + 1" "out_base + n \<le> STREAM_SLOT_COUNT"
  shows "\<exists>t h' wk' C'. split_loop out_base n tot h cp co em wk s = Some (Inr (t, h', wk')) \<and> split_done i out_base n wk s C t h' wk' C'"
  using assms
proof (induction "length (chain_bytes s (C (Io i))) - (length (chain_bytes s xs) + co)" arbitrary: h C s xs ps cp co wk em rule: less_induct)
  case less
  define bs where "bs = chain_bytes s (C (Io i))"
  define k where "k = length (chain_bytes s xs) + co"
  have g: "guest_inv s" "complete bs" using less.prems(1) by (auto simp: chains_def view_inv bs_def)
  have dk: "drop k bs = drop co (chain_bytes s ps)" by (simp add: bs_def k_def less.prems(2))
  show ?case
  proof (cases "k < length bs")
    case False
    have "length (chain_bytes s ps) < co + 8" using False by (simp add: bs_def k_def less.prems(2))
    then obtain p q where "skip_fwd s cp co 8 = Some (False, p, q)" using skip_fwd_spec [OF less.prems(3), of 8] by auto
    then have "read_fwd s cp co 8 [] = Some (False, drop co (chain_bytes s ps), p, q)"
      using read_fwd_skip [OF less.prems(3), of 8 "[]"] \<open>length (chain_bytes s ps) < co + 8\<close> by simp
    moreover have "split_done i out_base n wk s C s h wk C" using less.prems(1,5) by (simp add: split_done_def)
    ultimately show ?thesis using split_loop_stop by blast
  next
    case True
    define l where "l = from_le_bytes32 (take 4 (drop k bs))"
    have ext: "k + (8 + l) \<le> length bs" "complete (take (k + (8 + l)) bs)"
      using complete_extend [OF g(2) _ True, of "8 + l"] less.prems(4) by (simp_all add: l_def bs_def k_def)
    then have "8 + l \<le> length (drop k bs)" by simp
    then obtain hdr cp1 co1 cp2 co2 where w: "read_fwd s cp co 8 [] = Some (True, hdr, cp1, co1)" "from_le_bytes32 (take 4 hdr) = l"
      "skip_fwd s cp1 co1 l = Some (True, cp2, co2)"
      "\<exists>xs ys. ps = xs @ cp2 # ys \<and> pos_ok s cp2 co2 (cp2 # ys) \<and> length (chain_bytes s xs) + co2 = co + (8 + l)"
      using walk_record [OF less.prems(3) dk, of l] l_def by metis
    obtain us ys where u: "ps = us @ cp2 # ys" "pos_ok s cp2 co2 (cp2 # ys)" "length (chain_bytes s us) + co2 = co + (8 + l)" using w(4) by blast
    have C2: "C (Io i) = (xs @ us) @ cp2 # ys" "length (chain_bytes s (xs @ us)) + co2 = k + (8 + l)"
      using less.prems(2) u by (simp_all add: k_def)
    show ?thesis
    proof (cases "wk + 1 < n \<and> (wk + 1) * tot div n \<le> em + 8 + l")
      case False
      have "\<exists>t h' wk' C'. split_loop out_base n tot h cp2 co2 (em + 8 + l) wk s = Some (Inr (t, h', wk')) \<and> split_done i out_base n wk s C t h' wk' C'"
        by (rule less.hyps [OF _ less.prems(1) C2(1) u(2) _ less.prems(5-7)])
          (use ext C2(2) True in \<open>simp_all add: bs_def [symmetric] k_def [symmetric]\<close>)
      then show ?thesis using split_loop_step(1) [OF w(1-3) False] by simp
    next
      case cutc: True
      have room: "0 < bump_room s" using less.prems(6) cutc by simp
      have cp2: "cp2 \<noteq> 0" "co2 \<le> cursor (mem s cp2)" using u(2) by (auto simp: pos_ok_def)
      obtain s1 wt nh where c: "cut h cp2 co2 s = Some (Inr (s1, wt, nh))" "bump_room s \<le> Suc (bump_room s1)"
        by (rule cut_total [OF g(1) cp2(1) room])
      define w where "w = out_base + wk"
      define s2 where "s2 = give w h wt s1"
      have "complete (take (k + (8 + l)) (chain_bytes s (C (Io i))))" using ext(2) by (simp add: bs_def)
      then obtain qs where q: "cut_result i w h cp2 C ((xs @ us) @ [cp2]) (k + (8 + l)) s s1 wt nh qs"
        using cut_spec [OF less.prems(1) C2(1) cp2(2) C2(2) [symmetric] _ c(1), of w] by blast
      define C1 where "C1 = C(Stream w := (xs @ us) @ [cp2], Io i := qs)"
      have q': "chains (in_view i nh (C1 (Io i)) s2) C1" "nh = 0 \<longleftrightarrow> qs = []" "chain_bytes s2 (C1 (Io i)) = drop (k + (8 + l)) bs"
        using q by (simp_all add: cut_result_def C1_def s2_def bs_def)
      have wS: "out_base + wk < STREAM_SLOT_COUNT" using less.prems(7) cutc by simp
      note step = split_loop_step(2) [OF w(1-3) cutc c(1) wS, folded w_def, folded s2_def]
      have "\<exists>t h' wk' C'. split_loop out_base n tot h cp co em wk s = Some (Inr (t, h', wk')) \<and> split_done i out_base n (wk + 1) s2 C1 t h' wk' C'"
      proof (cases "nh = 0")
        case True
        have "split_done i out_base n (wk + 1) s2 C1 s2 nh (wk + 1) C1" using q'(1) cutc by (simp add: split_done_def)
        then show ?thesis using step True by auto
      next
        case False
        have pos: "pos_ok s2 nh 0 (C1 (Io i))"
          using q'(1) False q'(2) by (auto simp: pos_ok_def chains_def slot_chain_def C1_def split: if_splits)
        have "\<exists>t h' wk' C'. split_loop out_base n tot nh nh 0 (em + 8 + l) (wk + 1) s2 = Some (Inr (t, h', wk')) \<and> split_done i out_base n (wk + 1) s2 C1 t h' wk' C'"
          by (rule less.hyps [OF _ q'(1) _ pos, of "[]"])
            (use q'(3) True ext(1) cutc c(2) less.prems(6,7) in \<open>simp_all add: bs_def [symmetric] k_def [symmetric] s2_def\<close>)
        then show ?thesis using step False by auto
      qed
      then show ?thesis
        using split_done_cut [OF q [unfolded w_def] _ _ _ c(2)] g(2) ext(2) unfolding bs_def s2_def w_def C1_def by blast
    qed
  qed
qed

section \<open>The whole split\<close>

lemma set_slot_ok:
  "out_base + w < STREAM_SLOT_COUNT \<Longrightarrow> set_slot out_base w h l s = Inr (give (out_base + w) h l s)"
proof -
  assume a: "out_base + w < STREAM_SLOT_COUNT"
  then have "wrap32 (out_base + w) = out_base + w" by (simp add: layout_consts)
  then show ?thesis using a by (simp add: set_slot_def give_def Let_def)
qed

text \<open>Emptying slots and giving a whole chain away, on the chains of a region.\<close>

lemma chains_give_empty:
  assumes "chains s C"
  shows "chains (give w 0 0 s) (C(Stream w := []))"
proof -
  have "slot_chain (give w 0 0 s) sl ((C(Stream w := [])) sl)" for sl
    using assms slot_chain_cong [of s sl "C sl" "give w 0 0 s"] by (cases "sl = Stream w") (auto simp: slot_chain_def chains_def)
  then show ?thesis using assms by (auto simp: chains_def view_inv)
qed

lemma set_slots_empty_chains:
  assumes "chains s C" "\<forall>w \<in> set ws. out_base + w < STREAM_SLOT_COUNT"
  shows "\<exists>t. set_slots_empty out_base ws s = Inr t \<and> chains t (\<lambda>sl. if sl \<in> Stream ` (\<lambda>w. out_base + w) ` set ws then [] else C sl)
    \<and> mem t = mem s \<and> bump_room t = bump_room s \<and> get_head (Io i) t = get_head (Io i) s \<and> get_tail (Io i) t = get_tail (Io i) s"
  using assms
proof (induction ws arbitrary: s C)
  case (Cons w ws)
  obtain t where t: "set_slots_empty out_base ws (give (out_base + w) 0 0 s) = Inr t"
    "chains t (\<lambda>sl. if sl \<in> Stream ` (\<lambda>w. out_base + w) ` set ws then [] else (C(Stream (out_base + w) := [])) sl)"
    "mem t = mem s" "bump_room t = bump_room s" "get_head (Io i) t = get_head (Io i) s" "get_tail (Io i) t = get_tail (Io i) s"
    using Cons.IH [OF chains_give_empty [OF Cons.prems(1)]] Cons.prems(2) by fastforce
  have "(\<lambda>sl. if sl \<in> Stream ` (\<lambda>w. out_base + w) ` set ws then [] else (C(Stream (out_base + w) := [])) sl)
      = (\<lambda>sl. if sl \<in> Stream ` (\<lambda>w. out_base + w) ` set (w # ws) then [] else C sl)" by (auto simp: fun_eq_iff)
  then show ?case using t Cons.prems(2) by (simp add: set_slot_ok)
qed auto

lemma chains_move:
  assumes v: "chains (in_view i h (C (Io i)) s) C"
  shows "chains (in_view i 0 [] (give w h (chain_last_of (C (Io i))) s)) (C(Stream w := C (Io i), Io i := []))"
proof -
  have c: "guest_inv s" "\<And>sl. slot_chain (in_view i h (C (Io i)) s) sl (C sl)" "\<And>sl. complete (chain_bytes s (C sl))"
    "\<And>sl. set (C sl) \<inter> avail s = {}" using v by (auto simp: chains_def view_inv)
  show ?thesis
    by (rule chains_upd2(1) [OF v])
      (use c(1,3,4) c(2) [of "Io i"] in \<open>auto simp: view_inv slot_chain_def chain_last_of_def\<close>)
qed

lemma in_view_same: "slot_chain s (Io i) ps \<Longrightarrow> in_view i (get_head (Io i) s) ps s = s"
  using fun_upd_triv [of "io_tails s" i] by (auto simp: in_view_def slot_chain_def chain_last_of_def)

lemma in_view_clear: "set_tail (Io i) 0 (set_head (Io i) 0 s) = in_view i 0 [] s"
  by (simp add: in_view_def chain_last_of_def)

definition segments :: "nat \<Rightarrow> (slot \<Rightarrow> nat list) \<Rightarrow> 'a shm_scheme \<Rightarrow> nat \<Rightarrow> stream_record list list" where
  "segments out_base C t n = map (\<lambda>w. recs t (C (Stream (out_base + w)))) [0..<n]"

lemma give_view: "give w a l (in_view i h ps s) = in_view i h ps (give w a l s)"
  by (simp add: give_def in_view_def)

lemma set_slots_empty_view:
  "\<forall>w \<in> set ws. out_base + w < STREAM_SLOT_COUNT \<Longrightarrow>
    set_slots_empty out_base ws (in_view i h ps s) = map_sum id (in_view i h ps) (set_slots_empty out_base ws s)"
  by (induction ws arbitrary: s) (simp_all add: set_slot_ok give_view)

lemma finish_split_spec:
  assumes d: "split_done i out_base n 0 s C t h wk C'" and out: "out_base + n \<le> STREAM_SLOT_COUNT"
  shows "\<exists>u D. finish_split i out_base n h wk t = Some (Inr u) \<and> chains u D \<and> D (Io i) = []
    \<and> concat (segments out_base D u n) = recs s (C (Io i))
    \<and> (\<forall>sl. sl \<noteq> Io i \<and> sl \<notin> Stream ` {out_base..<out_base + n} \<longrightarrow> recs u (D sl) = recs s (C sl)) \<and> bump_room s \<le> bump_room u + (n - 1)"
proof -
  define qs where "qs = C' (Io i)"
  have v: "chains (in_view i h qs t) C'" and wk: "wk < n"
    and keep: "\<And>sl. sl \<noteq> Io i \<Longrightarrow> sl \<notin> Stream ` {out_base..<out_base + wk} \<Longrightarrow> C' sl = C sl \<and> chain_bytes t (C sl) = chain_bytes s (C sl)"
    and segs: "concat (map (\<lambda>w. recs t (C' (Stream (out_base + w)))) [0..<wk]) @ recs t qs = recs s (C (Io i))"
    and room: "bump_room s \<le> bump_room t + wk"
    using d by (auto simp: split_done_def qs_def)
  have ch: "chain (nxt t) h qs" "\<forall>q \<in> set qs. q < 4294967296"
    using v unfolding chains_def slot_chain_def qs_def by (auto dest!: spec [of _ "Io i"])
  have tail: "chain_tail t h = Some (chain_last_of qs)"
    using ch chain_end_spec [OF ch(1) _ ch(2)] by (cases "qs = []") (auto simp: chain_tail_def chain_last_of_def dest: path_nonnull split: if_splits)
  define t1 where "t1 = give (out_base + wk) h (chain_last_of qs) t"
  define D1 where "D1 = C'(Stream (out_base + wk) := qs, Io i := [])"
  have v1: "chains (in_view i 0 [] t1) D1" using chains_move [OF v [unfolded qs_def]] by (simp add: t1_def D1_def qs_def)
  have rng: "\<forall>w \<in> set [wk + 1..<n]. out_base + w < STREAM_SLOT_COUNT" using out by auto
  define D where "D = (\<lambda>sl. if sl \<in> Stream ` (\<lambda>w. out_base + w) ` set [wk + 1..<n] then [] else D1 sl)"
  obtain u where u: "set_slots_empty out_base [wk + 1..<n] (in_view i 0 [] t1) = Inr u" "chains u D" "mem u = mem t" "bump_room u = bump_room t"
    using set_slots_empty_chains [OF v1 rng, of i] by (auto simp: D_def t1_def)
  then obtain t2 where t2: "set_slots_empty out_base [wk + 1..<n] t1 = Inr t2" "u = in_view i 0 [] t2"
    using set_slots_empty_view [OF rng, of i 0 "[]" t1] by (cases "set_slots_empty out_base [wk + 1..<n] t1") auto
  have fin: "finish_split i out_base n h wk t = Some (Inr u)"
    using wk out tail t2 unfolding finish_split_def in_view_clear by (simp add: set_slot_ok t1_def)
  have cb: "chain_bytes u ps = chain_bytes t ps" for ps by (rule chain_bytes_cong) (simp add: u(3))
  have lo: "D (Stream (out_base + w)) = C' (Stream (out_base + w))" if "w < wk" for w using that by (auto simp: D_def D1_def)
  have mid: "D (Stream (out_base + wk)) = qs" by (auto simp: D_def D1_def)
  have hi: "D (Stream (out_base + w)) = []" if "wk < w" "w < n" for w using that by (force simp: D_def)
  have up: "[0..<n] = [0..<wk] @ wk # [wk + 1..<n]" using wk by (metis less_imp_add_positive upt_add_eq_append upt_conv_Cons zero_le Suc_eq_plus1)
  have hi': "concat (map (\<lambda>w. recs t (D (Stream (out_base + w)))) [wk + 1..<n]) = []"
    using hi by (simp add: concat_eq_Nil_conv)
  have lo': "map (\<lambda>w. recs t (D (Stream (out_base + w)))) [0..<wk] = map (\<lambda>w. recs t (C' (Stream (out_base + w)))) [0..<wk]"
    using lo by simp
  have "concat (segments out_base D u n) = recs s (C (Io i))"
    unfolding segments_def cb up map_append list.map concat_append concat.simps lo' hi' mid append_Nil2 by (rule segs)
  moreover have "recs u (D sl) = recs s (C sl)" if sl: "sl \<noteq> Io i" "sl \<notin> Stream ` {out_base..<out_base + n}" for sl
  proof -
    have "sl \<notin> Stream ` {out_base..<out_base + wk}" "sl \<noteq> Stream (out_base + wk)" "sl \<notin> Stream ` (\<lambda>w. out_base + w) ` set [wk + 1..<n]"
      using sl(2) wk by auto
    then show ?thesis using keep [OF sl(1)] sl(1) by (simp add: D_def D1_def cb)
  qed
  moreover have "D (Io i) = []" by (auto simp: D_def D1_def)
  moreover have "bump_room s \<le> bump_room u + (n - 1)" using room u(4) wk by simp
  ultimately show ?thesis using fin u(2) by blast
qed

lemma split_chains:
  assumes C: "chains s C" and "i < IO_SLOT_COUNT" "0 < n" "out_base + n \<le> STREAM_SLOT_COUNT" "n \<le> bump_room s + 1"
  shows "\<exists>t D. split_input_contiguous i out_base n s = Some (Inr t) \<and> chains t D \<and> D (Io i) = []
    \<and> concat (segments out_base D t n) = recs s (C (Io i))
    \<and> (\<forall>sl. sl \<noteq> Io i \<and> sl \<notin> Stream ` {out_base..<out_base + n} \<longrightarrow> recs t (D sl) = recs s (C sl)) \<and> bump_room s \<le> bump_room t + (n - 1)"
proof -
  have sc: "slot_chain s (Io i) (C (Io i))" using C by (simp add: chains_def)
  have ch: "chain (nxt s) (io_heads s i) (C (Io i))" "\<forall>q \<in> set (C (Io i)). q < 4294967296" using sc by (auto simp: slot_chain_def)
  have w: "wrap32 (io_heads s i) = io_heads s i" using chain_hd [OF ch(1)] ch(2) by (cases "C (Io i)") auto
  show ?thesis
  proof (cases "io_heads s i = 0")
    case True
    then have e: "C (Io i) = []" using ch(1) by (cases "C (Io i)") auto
    have rng: "\<forall>k \<in> set [0..<n]. out_base + k < STREAM_SLOT_COUNT" using assms(4) by auto
    define D where "D = (\<lambda>sl. if sl \<in> Stream ` (\<lambda>k. out_base + k) ` set [0..<n] then [] else C sl)"
    obtain t where t: "set_slots_empty out_base [0..<n] s = Inr t" "chains t D" "mem t = mem s" "bump_room t = bump_room s"
      using set_slots_empty_chains [OF C rng] by (auto simp: D_def)
    have cb: "chain_bytes t ps = chain_bytes s ps" for ps by (rule chain_bytes_cong) (simp add: t(3))
    have "concat (segments out_base D t n) = []" by (auto simp: segments_def D_def concat_eq_Nil_conv)
    moreover have "D sl = C sl" if "sl \<notin> Stream ` {out_base..<out_base + n}" for sl using that by (auto simp: D_def)
    ultimately show ?thesis using t e cb assms(2,3) w True by (intro exI [of _ t] exI [of _ D]) (auto simp: split_input_contiguous_def D_def)
  next
    case False
    have ne: "C (Io i) \<noteq> []" using False ch(1) by auto
    have v: "chains (in_view i (io_heads s i) (C (Io i)) s) C" using C in_view_same [OF sc] by simp
    have pos: "pos_ok s (io_heads s i) 0 (C (Io i))" using ch by (simp add: pos_ok_def)
    obtain t h wk C' where l: "split_loop out_base n (length (chain_bytes s (C (Io i)))) (io_heads s i) (io_heads s i) 0 0 0 s = Some (Inr (t, h, wk))"
      "split_done i out_base n 0 s C t h wk C'"
      using split_loop_spec [OF v _ pos _ assms(3) _ assms(4), of "[]" "length (chain_bytes s (C (Io i)))" 0] assms(5) by auto
    have "split_input_contiguous i out_base n s = finish_split i out_base n h wk t"
      using False w assms(2,3) l(1) total_bytes_spec [OF ch, of 0] by (simp add: split_input_contiguous_def)
    then show ?thesis using finish_split_spec [OF l(2) assms(4)] by simp
  qed
qed

section \<open>Properties\<close>

text \<open>
  C18. Contiguous split. On a region that stores records, with room for the pages of the seams, splitting
  an input slot into \<open>n\<close> stream slots returns; the output slots hold consecutive segments that
  together are exactly the records of the input, the input slot is empty, and every other slot keeps
  its records.
\<close>

theorem split_partitions_records:
  assumes "stores s R" "i < IO_SLOT_COUNT" "0 < n" "out_base + n \<le> STREAM_SLOT_COUNT" "n \<le> bump_room s + 1"
  shows "\<exists>t segs. split_input_contiguous i out_base n s = Some (Inr t) \<and> length segs = n \<and> concat segs = R (Io i)
    \<and> stores t (\<lambda>sl. case sl of
         Io k \<Rightarrow> if k = i then [] else R sl
       | Stream k \<Rightarrow> if out_base \<le> k \<and> k < out_base + n then segs ! (k - out_base) else R sl)"
proof -
  obtain C where C: "chains s C" and R: "\<And>sl. R sl = recs s (C sl)" using assms(1) by (auto simp: stores_def)
  obtain t D where t: "split_input_contiguous i out_base n s = Some (Inr t)" "chains t D" "D (Io i) = []"
    "concat (segments out_base D t n) = recs s (C (Io i))"
    "\<And>sl. sl \<noteq> Io i \<Longrightarrow> sl \<notin> Stream ` {out_base..<out_base + n} \<Longrightarrow> recs t (D sl) = recs s (C sl)" using split_chains [OF C assms(2-5)] by blast
  let ?segs = "segments out_base D t n"
  have "(case sl of Io k \<Rightarrow> if k = i then [] else R sl
      | Stream k \<Rightarrow> if out_base \<le> k \<and> k < out_base + n then ?segs ! (k - out_base) else R sl) = recs t (D sl)" for sl
    using t(3) t(5) [of sl] by (cases sl) (auto simp: R segments_def image_iff)
  then have "stores t (\<lambda>sl. case sl of Io k \<Rightarrow> if k = i then [] else R sl
      | Stream k \<Rightarrow> if out_base \<le> k \<and> k < out_base + n then ?segs ! (k - out_base) else R sl)"
    using t(2) by (auto simp: stores_def)
  then show ?thesis using t(1,4) R by (intro exI [of _ t] exI [of _ ?segs]) (simp add: segments_def)
qed

theorem split_partitions_records_witness:
  "\<exists>s t R segs. append_slot_data (Io 1) [7, 8] format_shared_memory = Inr s \<and> split_input_contiguous 1 20 3 s = Some (Inr t)
     \<and> stores t R \<and> R (Io 1) = [] \<and> length segs = 3 \<and> concat segs = [(1, [7, 8])] \<and> R (Stream 21) = segs ! 1"
proof -
  have p: "slot_in_range (Io 1)" "pages_for (length [7 :: byte, 8]) = 1" by (simp_all add: pages_for_def layout_consts)
  obtain s where s: "append_slot_data (Io 1) [7, 8] format_shared_memory = Inr s" "bump_room format_shared_memory \<le> bump_room s + 1"
    using append_slot_data_total [OF stores_format p(1), of "[7, 8]"] p(2) by (auto simp: bump_room_format)
  have st: "stores s ((\<lambda>_. [])(Io 1 := [(1, [7, 8])]))" using append_slot_data_stores [OF stores_format s(1)] by simp
  have "1 < IO_SLOT_COUNT" "20 + 3 \<le> STREAM_SLOT_COUNT" "3 \<le> bump_room s + 1"
    using s(2) by (simp_all add: bump_room_format layout_consts)
  note w = split_partitions_records [OF st this(1) _ this(2,3)]
  obtain t segs where "split_input_contiguous 1 20 3 s = Some (Inr t)" "length segs = 3" "concat segs = [(1, [7, 8])]"
    "stores t (\<lambda>sl. case sl of Io k \<Rightarrow> if k = 1 then [] else ((\<lambda>_. [])(Io 1 := [(1, [7, 8])])) sl
       | Stream k \<Rightarrow> if 20 \<le> k \<and> k < 20 + 3 then segs ! (k - 20) else ((\<lambda>_. [])(Io 1 := [(1, [7, 8])])) sl)"
    using w by auto
  then show ?thesis using s(1) by (intro exI conjI) (assumption | simp)+
qed

end
