(* ===== verification/Reclaimer.thy ===== *)
theory Reclaimer
  imports Extended_Pool Record_Store
begin

text \<open>
  The host's page allocator and reclaimer (\<open>host/src/runtime/mem_operation/reclaimer.rs\<close>) with the
  growth of the region (\<open>shm.rs\<close>). A page id below \<open>DIRECT_LIMIT\<close> is an offset in the window; what
  is read or written there is the page that the resolution buffer has mapped onto the slot, if any,
  and the region's own page otherwise (\<open>page_key\<close>). Pages of the global pool are kept in \<open>mem\<close> under
  their ids. A slot whose page was evicted without a successor is in the free pool of the buffer; the
  stale overlay that \<open>mmap\<close> leaves there until the next \<open>install\<close> is not represented, and nothing holds the slot's
  own page while it is free.
\<close>

section \<open>Access to pages\<close>

definition page_key :: "'a host_scheme \<Rightarrow> nat \<Rightarrow> nat" where
  "page_key h p =
     (case rbuf (ext h) of
        None \<Rightarrow> p
      | Some b \<Rightarrow> (case slot_to_page b (p div PAGE_SIZE) of Some i \<Rightarrow> i | None \<Rightarrow> p))"

definition host_page :: "'a host_scheme \<Rightarrow> nat \<Rightarrow> page" where
  "host_page h p = mem h (page_key h p)"

definition upd_host_page :: "nat \<Rightarrow> (page \<Rightarrow> page) \<Rightarrow> 'a host_scheme \<Rightarrow> 'a host_scheme" where
  "upd_host_page p f h = h\<lparr>mem := (mem h)(page_key h p := f (host_page h p))\<rparr>"

definition clear_page :: "nat \<Rightarrow> 'a host_scheme \<Rightarrow> 'a host_scheme" where
  "clear_page p = upd_host_page p (\<lambda>pg. pg\<lparr>next_offset := 0, cursor := 0\<rparr>)"

section \<open>Allocation\<close>

definition host_pop :: "nat \<Rightarrow> nat \<Rightarrow> 'a host_scheme \<Rightarrow> 'a host_scheme" where
  "host_pop shard head h = h\<lparr>free_list_heads := (free_list_heads h)(shard := wrap32 (next_offset (host_page h head)))\<rparr>"

fun host_scan :: "nat list \<Rightarrow> 'a host_scheme \<Rightarrow> (err + nat \<times> 'a host_scheme) option" where
  "host_scan [] h = None"
| "host_scan (shard # shards) h =
     (let head = wrap32 (free_list_heads h shard) in
      if head = 0 then host_scan shards h
      else if free_list_heads h shard \<noteq> head then Some (Inl Spin)
      else Some (Inr (head, host_pop shard head h)))"

definition try_grow_shm :: "os \<Rightarrow> nat \<Rightarrow> 'a host_scheme \<Rightarrow> (nat \<times> 'a host_scheme) option" where
  "try_grow_shm os required h =
     (let current = global_capacity h in
      if required \<le> current then Some (current, h)
      else if \<not> grower h then None
      else let new_cap = min (max (saturating_mul32 current 2) required) CAPACITY_HARD_LIMIT in
           if new_cap < required \<or> \<not> os_grow os new_cap then None
           else Some (new_cap, h\<lparr>global_capacity := new_cap, local_capacity := new_cap\<rparr>))"

datatype host_err = Err err | PoolErr pool_err

definition next_shard :: "'a host_scheme \<Rightarrow> 'a host_scheme" where
  "next_shard h = h\<lparr>host_shard := (host_shard h + 1) mod 18446744073709551616\<rparr>"

text \<open>The bump allocation once all shards are empty, with the growth of the file and the paged fallback.\<close>

definition bump_page :: "os \<Rightarrow> nat option \<Rightarrow> 'a host_scheme \<Rightarrow> (host_err + nat) \<times> 'a host_scheme" where
  "bump_page os force h =
     (let offset = bump_allocator h;
          need = wrap32 (offset + PAGE_SIZE);
          h1 = h\<lparr>bump_allocator := need\<rparr>
      in if need \<le> global_capacity h1
         then (Inr offset, notify_bump_advance os force need (clear_page offset h1))
         else case try_grow_shm os need h1 of
                Some (new_cap, h2) \<Rightarrow> (Inr offset, notify_bump_advance os force need (clear_page offset h2))
              | None \<Rightarrow>
                  if current_mode h1 = Paged then
                    (case alloc_paged_page os (h1\<lparr>bump_allocator := offset\<rparr>) of
                       (Inl e, h2) \<Rightarrow> (Inl (PoolErr e), h2)
                     | (Inr (i, p), h2) \<Rightarrow> (Inr i, h2))
                  else (Inl (Err (CapacityExhausted need (global_capacity h1))), h1))"

definition alloc_page :: "os \<Rightarrow> nat option \<Rightarrow> 'a host_scheme \<Rightarrow> (host_err + nat) \<times> 'a host_scheme" where
  "alloc_page os force h =
     (case host_scan (shard_order (host_shard h mod FREE_LIST_SHARD_COUNT)) (next_shard h) of
        Some (Inr (p, h1)) \<Rightarrow> (Inr p, clear_page p h1)
      | Some (Inl e) \<Rightarrow> (Inl (Err e), next_shard h)
      | None \<Rightarrow> bump_page os force (next_shard h))"

section \<open>Freeing\<close>

partial_function (option) chain_tail :: "'a host_scheme \<Rightarrow> nat \<Rightarrow> nat option" where
  "chain_tail h p =
     (let next = wrap32 (next_offset (host_page h p))
      in if next = 0 then Some p else chain_tail h next)"

declare chain_tail.simps [code]

definition shard_of :: "nat \<Rightarrow> nat" where
  "shard_of p = p div PAGE_SIZE mod FREE_LIST_SHARD_COUNT"

text \<open>The Treiber push of a chain with the given head and tail onto a shard.\<close>

definition push_chain :: "nat \<Rightarrow> nat \<Rightarrow> 'a host_scheme \<Rightarrow> err + 'a host_scheme" where
  "push_chain head tail h =
     (let shard = shard_of head;
          old_head = wrap32 (free_list_heads h shard);
          h1 = upd_host_page tail (\<lambda>pg. pg\<lparr>next_offset := old_head\<rparr>) h
      in if free_list_heads h shard \<noteq> old_head then Inl Spin
         else Inr (h1\<lparr>free_list_heads := (free_list_heads h1)(shard := head)\<rparr>))"

definition push_single_direct_page :: "nat \<Rightarrow> 'a host_scheme \<Rightarrow> 'a host_scheme" where
  "push_single_direct_page p h =
     (let shard = shard_of p;
          h1 = upd_host_page p (\<lambda>pg. pg\<lparr>next_offset := free_list_heads h shard\<rparr>) h
      in h1\<lparr>free_list_heads := (free_list_heads h1)(shard := p)\<rparr>)"

text \<open>A failed resolve ends the walk, a failed free of a paged page only reports.\<close>

partial_function (option) free_page_chain_mixed :: "os \<Rightarrow> nat \<Rightarrow> 'a host_scheme \<Rightarrow> 'a host_scheme option" where
  "free_page_chain_mixed os current h =
     (if current = 0 then Some h
      else case host_resolve os current h of
             (Inl e, h1) \<Rightarrow> Some h1
           | (Inr ptr, h1) \<Rightarrow>
               (let next = next_offset (host_page h1 ptr);
                    h2 = (if current < DIRECT_LIMIT
                          then notify_direct_free current (push_single_direct_page (wrap32 current) h1)
                          else snd (free_paged_page current h1))
                in free_page_chain_mixed os next h2))"

declare free_page_chain_mixed.simps [code]

definition free_page_chain :: "os \<Rightarrow> nat \<Rightarrow> 'a host_scheme \<Rightarrow> (err + 'a host_scheme) option" where
  "free_page_chain os head h =
     (if head = 0 then Some (Inr h)
      else if current_mode h = Paged then map_option Inr (free_page_chain_mixed os head h)
      else map_option (\<lambda>tail. push_chain (wrap32 head) tail h) (chain_tail h (wrap32 head)))"

definition clear_stream_slot :: "nat \<Rightarrow> 'a host_scheme \<Rightarrow> err + 'a host_scheme" where
  "clear_stream_slot slot h =
     (if STREAM_SLOT_COUNT \<le> slot then Inl (SlotOutOfRange slot)
      else Inr (set_tail (Stream slot) 0 (set_head (Stream slot) 0 h)))"

definition free_slot :: "os \<Rightarrow> slot \<Rightarrow> 'a host_scheme \<Rightarrow> (err + 'a host_scheme) option" where
  "free_slot os sl h =
     (if \<not> slot_in_range sl then Some (Inl (SlotOutOfRange (slot_index sl)))
      else free_page_chain os (get_head sl h) (set_tail sl 0 (set_head sl 0 h)))"

definition free_stream_slot :: "os \<Rightarrow> nat \<Rightarrow> 'a host_scheme \<Rightarrow> (err + 'a host_scheme) option" where
  "free_stream_slot os slot = free_slot os (Stream slot)"

definition free_io_slot :: "os \<Rightarrow> nat \<Rightarrow> 'a host_scheme \<Rightarrow> (err + 'a host_scheme) option" where
  "free_io_slot os slot = free_slot os (Io slot)"

fun free_slots_of :: "os \<Rightarrow> slot list \<Rightarrow> 'a host_scheme \<Rightarrow> (err + 'a host_scheme) option" where
  "free_slots_of os [] h = Some (Inr h)"
| "free_slots_of os (sl # sls) h =
     (if get_head sl h = 0 then free_slots_of os sls h
      else case free_slot os sl h of
             None \<Rightarrow> None
           | Some (Inl e) \<Rightarrow> Some (Inl e)
           | Some (Inr h') \<Rightarrow> free_slots_of os sls h')"

definition free_all_transient :: "os \<Rightarrow> nat list \<Rightarrow> 'a host_scheme \<Rightarrow> (err + 'a host_scheme) option" where
  "free_all_transient os persist =
     free_slots_of os (map Stream (filter (\<lambda>s. s \<notin> set persist) [0..<STREAM_SLOT_COUNT]) @ map Io [0..<IO_SLOT_COUNT])"

section \<open>Trimming\<close>

partial_function (option) count_chain :: "'a host_scheme \<Rightarrow> nat \<Rightarrow> nat \<Rightarrow> nat option" where
  "count_chain h current acc =
     (if current = 0 then Some acc
      else count_chain h (wrap32 (next_offset (host_page h current))) (acc + 1))"

declare count_chain.simps [code]

fun count_shards :: "'a host_scheme \<Rightarrow> nat list \<Rightarrow> nat \<Rightarrow> nat option" where
  "count_shards h [] acc = Some acc"
| "count_shards h (j # js) acc =
     Option.bind (count_chain h (wrap32 (free_list_heads h j)) acc) (count_shards h js)"

definition count_free_list_pages :: "'a host_scheme \<Rightarrow> nat option" where
  "count_free_list_pages h = count_shards h [0..<FREE_LIST_SHARD_COUNT] 0"

definition pop_one_free_page :: "'a host_scheme \<Rightarrow> (err + nat \<times> 'a host_scheme) option" where
  "pop_one_free_page h = host_scan [0..<FREE_LIST_SHARD_COUNT] h"

definition push_page_to_free_list :: "nat \<Rightarrow> 'a host_scheme \<Rightarrow> err + 'a host_scheme" where
  "push_page_to_free_list p h = push_chain p p h"

text \<open>\<open>madvise\<close> releases the memory behind a page of the shared file and keeps its contents.\<close>

fun trim_pages :: "nat \<Rightarrow> 'a host_scheme \<Rightarrow> err + 'a host_scheme" where
  "trim_pages 0 h = Inr h"
| "trim_pages (Suc n) h =
     (case pop_one_free_page h of
        None \<Rightarrow> Inr h
      | Some (Inl e) \<Rightarrow> Inl e
      | Some (Inr (p, h1)) \<Rightarrow> (case push_page_to_free_list p h1 of Inl e \<Rightarrow> Inl e | Inr h2 \<Rightarrow> trim_pages n h2))"

definition trim_free_list :: "'a host_scheme \<Rightarrow> (err + 'a host_scheme) option" where
  "trim_free_list h =
     (if \<not> FREE_LIST_TRIM_ENABLED then Some (Inr h)
      else map_option (\<lambda>count. if count \<le> FREE_LIST_TRIM_THRESHOLD then Inr h
                              else trim_pages ((count - FREE_LIST_TRIM_THRESHOLD) div 2) h)
             (count_free_list_pages h))"


section \<open>Freeing in direct mode\<close>

lemma page_key_direct: "rbuf (ext h) = None \<Longrightarrow> page_key h p = p"
  by (simp add: page_key_def)

lemma host_page_direct: "rbuf (ext h) = None \<Longrightarrow> host_page h p = mem h p"
  by (simp add: host_page_def page_key_direct)

lemma chain_tail_spec:
  assumes "rbuf (ext h) = None" "chain (nxt h) p ps" "ps \<noteq> []" "\<And>q. q \<in> set ps \<Longrightarrow> q < 4294967296"
  shows "chain_tail h p = Some (last ps)"
  using assms(2-4)
proof (induction ps arbitrary: p)
  case (Cons q qs)
  have q: "p = q" "chain (nxt h) (nxt h q) qs" using Cons.prems(1) by auto
  show ?case
  proof (cases "qs = []")
    case True
    then show ?thesis using q by (simp add: chain_tail.simps [of h q] host_page_direct [OF assms(1)])
  next
    case False
    have n: "nxt h q = hd qs" using chain_hd [OF q(2)] False by simp
    then have "nxt h q \<in> set qs" using hd_in_set [OF False] by simp
    then have "nxt h q \<in> set (q # qs)" "nxt h q \<noteq> 0" using path_nonnull [OF q(2)] by (simp, metis)
    then have "wrap32 (nxt h q) = nxt h q" using Cons.prems(3) by simp
    moreover have "chain_tail h (nxt h q) = Some (last qs)"
      by (rule Cons.IH [OF q(2) False]) (simp add: Cons.prems(3))
    ultimately show ?thesis
      using q(1) False \<open>nxt h q \<noteq> 0\<close> by (simp add: chain_tail.simps [of h q] host_page_direct [OF assms(1)])
  qed
qed simp

text \<open>Splicing a chain of taken pages onto its shard.\<close>

lemma push_chain_spec:
  assumes i: "alloc_inv h" and r: "rbuf (ext h) = None"
    and c: "chain (nxt h) p ps" "ps \<noteq> []" "\<And>q. q \<in> set ps \<Longrightarrow> heap_page h q" "set ps \<inter> free_pages h = {}"
  obtains h' where "push_chain p (last ps) h = Inr h'" "alloc_inv h'" "free_pages h' = free_pages h \<union> set ps"
    "h' = h\<lparr>mem := mem h', free_list_heads := free_list_heads h'\<rparr>" "\<forall>q. q \<notin> set ps \<longrightarrow> mem h' q = mem h q"
proof -
  obtain F where F: "free_lists h F" and b: "bump_ok h" using i by (auto simp: alloc_inv_def)
  define j where "j = shard_of p"
  have j: "j < FREE_LIST_SHARD_COUNT" by (simp add: j_def shard_of_def layout_consts)
  have hb: "free_list_heads h j < 4294967296"
  proof (cases "F j")
    case Nil
    then show ?thesis using free_listsD(1) [OF F j] by simp
  next
    case (Cons q qs)
    then have "free_list_heads h j = q" "heap_page h q"
      using free_listsD(1) [OF F j] free_listsD(2) [OF F j, of q] by auto
    then show ?thesis using b by (simp add: heap_page_def bump_ok_def)
  qed
  then have w: "wrap32 (free_list_heads h j) = free_list_heads h j" by simp
  define h' where "h' = h\<lparr>mem := (mem h)(last ps := (mem h (last ps))\<lparr>next_offset := free_list_heads h j\<rparr>),
    free_list_heads := (free_list_heads h)(j := p)\<rparr>"
  have push: "push_chain p (last ps) h = Inr h'"
    by (simp add: push_chain_def Let_def j_def [symmetric] w upd_host_page_def page_key_direct [OF r] host_page_direct [OF r] h'_def)
  have nx: "nxt h' = (nxt h)(last ps := free_list_heads h j)" "free_list_heads h' = (free_list_heads h)(j := p)"
    by (auto simp: h'_def)
  have disj: "set ps \<inter> set (F k) = {}" if "k < FREE_LIST_SHARD_COUNT" for k
    using c(4) that unfolding free_pages_eq [OF F] by auto
  have F': "free_lists h' (F(j := ps @ F j))"
  proof (rule free_listsI)
    fix k assume k: "k < FREE_LIST_SHARD_COUNT"
    show "chain (nxt h') (free_list_heads h' k) ((F(j := ps @ F j)) k)"
    proof (cases "k = j")
      case True
      have "chain ((nxt h)(last ps := free_list_heads h j)) p (ps @ F j)"
        by (rule path_snoc_upd [OF c(1,2) free_listsD(1) [OF F j] disj [OF j]])
      then show ?thesis unfolding nx using True by simp
    next
      case False
      have "last ps \<notin> set (F k)" using disj [OF k] c(2) by (metis disjoint_iff last_in_set)
      then show ?thesis unfolding nx using False free_listsD(1) [OF F k] by simp
    qed
    show "heap_page h' q" if "q \<in> set ((F(j := ps @ F j)) k)" for q
      using that c(3) [of q] free_listsD(2) [OF F k, of q] by (auto simp: heap_page_def h'_def split: if_splits)
  next
    fix k l q
    assume kl: "k < FREE_LIST_SHARD_COUNT" "l < FREE_LIST_SHARD_COUNT" "k \<noteq> l" "q \<in> set ((F(j := ps @ F j)) k)"
    show "q \<notin> set ((F(j := ps @ F j)) l)"
      using kl disj [OF kl(1)] disj [OF kl(2)] free_listsD(3) [OF F kl(1) kl(2)] by (auto split: if_splits)
  qed
  have "(\<Union>k < FREE_LIST_SHARD_COUNT. set ((F(j := ps @ F j)) k)) = (\<Union>k < FREE_LIST_SHARD_COUNT. set (F k)) \<union> set ps"
    using j by (auto split: if_splits)
  then have "free_pages h' = free_pages h \<union> set ps" by (simp only: free_pages_eq [OF F'] free_pages_eq [OF F])
  moreover have "alloc_inv h'" using F' b by (auto simp: alloc_inv_def bump_ok_def h'_def)
  moreover have "\<forall>q. q \<notin> set ps \<longrightarrow> mem h' q = mem h q" using c(2) by (auto simp: h'_def)
  ultimately show thesis using that [OF push] by (simp add: h'_def)
qed

text \<open>Detaching a slot's chain: the slot tables and the pages of a region.\<close>

lemma detach_access [simp]:
  "ext (set_head sl v h) = ext h" "ext (set_tail sl v h) = ext h"
  "mode_flag (set_head sl v h) = mode_flag h" "mode_flag (set_tail sl v h) = mode_flag h"
  by (cases sl; simp)+

lemma free_page_chain_direct:
  assumes g: "alloc_inv h" and m: "mode_flag h = Direct" "rbuf (ext h) = None"
    and c: "chain (nxt h) p ps" "set ps \<inter> avail h = {}"
      "\<And>q. q \<in> set ps \<Longrightarrow> BUMP_ALLOCATOR_START \<le> q \<and> PAGE_SIZE dvd q \<and> q < 4294967296"
  obtains h' where "free_page_chain os p h = Some (Inr h')" "alloc_inv h'" "avail h' = avail h \<union> set ps"
    "h' = h\<lparr>mem := mem h', free_list_heads := free_list_heads h'\<rparr>" "\<forall>q. q \<notin> set ps \<longrightarrow> mem h' q = mem h q"
proof (cases "ps = []")
  case True
  then have "p = 0" using c(1) by simp
  then show thesis using that [of h] g True by (simp add: free_page_chain_def)
next
  case False
  have hp: "heap_page h q" if "q \<in> set ps" for q
    using c(2,3) that unfolding heap_page_def avail_def by force
  have "set ps \<inter> free_pages h = {}" using c(2) by (auto simp: avail_def)
  then obtain h' where p: "push_chain p (last ps) h = Inr h'" "alloc_inv h'"
    "free_pages h' = free_pages h \<union> set ps" "h' = h\<lparr>mem := mem h', free_list_heads := free_list_heads h'\<rparr>"
    "\<forall>q. q \<notin> set ps \<longrightarrow> mem h' q = mem h q"
    using push_chain_spec [OF g m(2) c(1) False hp] by blast
  have h: "p \<noteq> 0" "wrap32 p = p" using c(1,3) False by (cases ps; simp)+
  have "chain_tail h p = Some (last ps)"
    by (rule chain_tail_spec [OF m(2) c(1) False]) (simp add: c(3))
  then have "free_page_chain os p h = Some (Inr h')"
    using h m(1) p(1) by (simp add: free_page_chain_def current_mode_def)
  moreover have "bump_allocator h' = bump_allocator h" by (subst p(4)) simp
  then have "avail h' = avail h \<union> set ps" by (auto simp: avail_def p(3))
  ultimately show thesis using that p(2,4,5) by simp
qed

lemma free_slot_spec:
  assumes C: "chains h C" and m: "mode_flag h = Direct" "rbuf (ext h) = None" and sl: "slot_in_range sl"
  obtains h' where "free_slot os sl h = Some (Inr h')" "chains h' (C(sl := []))" "avail h' = avail h \<union> set (C sl)"
    "mode_flag h' = Direct" "ext h' = ext h" "\<forall>sl'. sl' \<noteq> sl \<longrightarrow> chain_bytes h' (C sl') = chain_bytes h (C sl')"
proof -
  have g: "guest_inv h" and c: "\<And>a. slot_chain h a (C a)" "\<And>a. complete (chain_bytes h (C a))"
    "\<And>a. set (C a) \<inter> avail h = {}" "\<And>a p. p \<in> set (C a) \<Longrightarrow> BUMP_ALLOCATOR_START \<le> p \<and> PAGE_SIZE dvd p"
    "\<And>a b. a \<noteq> b \<Longrightarrow> set (C a) \<inter> set (C b) = {}"
    using C by (auto simp: chains_def)
  define ps where "ps = C sl"
  define h1 where "h1 = set_tail sl 0 (set_head sl 0 h)"
  have h1: "mem h1 = mem h" "free_list_heads h1 = free_list_heads h" "bump_allocator h1 = bump_allocator h"
    "global_capacity h1 = global_capacity h" "local_capacity h1 = local_capacity h" "mode_flag h1 = mode_flag h"
    "ext h1 = ext h" "get_head a h1 = (if a = sl then 0 else get_head a h)" "get_tail a h1 = (if a = sl then 0 else get_tail a h)" for a
    unfolding h1_def by simp_all
  have av1: "alloc_inv h1" "avail h1 = avail h"
    using alloc_inv_cong [of h h1] g h1 by (simp_all add: guest_inv_def)
  have ch: "chain (nxt h1) (get_head sl h) ps" "\<And>q. q \<in> set ps \<Longrightarrow> q < 4294967296"
    using c(1) [of sl] by (auto simp: slot_chain_def ps_def h1)
  have w: "wrap32 (get_head sl h) = get_head sl h" using start_reader_ok(3) [OF C] .
  obtain h' where h': "free_page_chain os (get_head sl h) h1 = Some (Inr h')" "alloc_inv h'" "avail h' = avail h1 \<union> set ps"
    "h' = h1\<lparr>mem := mem h', free_list_heads := free_list_heads h'\<rparr>" "\<forall>q. q \<notin> set ps \<longrightarrow> mem h' q = mem h1 q"
    using c(3) [of sl] c(4) [of _ sl] ch(2) by (rule_tac free_page_chain_direct [OF av1(1) _ _ ch(1)]) (auto simp: h1 m av1 ps_def)
  note h' = h' [unfolded h1(1) av1(2)]
  have keep: "get_head a h' = get_head a h1" "get_tail a h' = get_tail a h1" for a
    by (subst h'(4); cases a; simp)+
  have keep': "mode_flag h' = mode_flag h" "ext h' = ext h" "cap_ok h' = cap_ok h"
    by (subst h'(4); simp add: h1 cap_ok_def)+
  have other: "slot_chain h' a (C a) \<and> chain_bytes h' (C a) = chain_bytes h (C a)" if "a \<noteq> sl" for a
  proof -
    have "mem h' q = mem h q" if "q \<in> set (C a)" for q using h'(5) c(5) [OF \<open>a \<noteq> sl\<close>] that by (auto simp: ps_def)
    then show ?thesis using slot_chain_cong [OF c(1) [of a], of h'] chain_bytes_cong [of "C a" h' h] that by (simp add: keep h1)
  qed
  have "chains h' (C(sl := []))"
    unfolding chains_def
  proof (intro conjI allI impI)
    show "guest_inv h'" using h'(2) g keep'(3) by (simp add: guest_inv_def)
    fix a
    show "slot_chain h' a ((C(sl := [])) a)" using other [of a] by (cases "a = sl") (simp_all add: slot_chain_def keep h1)
    show "complete (chain_bytes h' ((C(sl := [])) a))" using other [of a] c(2) [of a] by simp
    show "set ((C(sl := [])) a) \<inter> avail h' = {}" using c(3) [of a] c(5) [of a sl] by (auto simp: h'(3) ps_def)
    show "\<forall>p\<in>set ((C(sl := [])) a). BUMP_ALLOCATOR_START \<le> p \<and> PAGE_SIZE dvd p" using c(4) [of _ a] by simp
    show "set ((C(sl := [])) a) \<inter> set ((C(sl := [])) b) = {}" if "a \<noteq> b" for b using c(5) [OF that] by auto
  qed
  then show thesis using that [of h'] h'(1,3) keep'(1,2) m other sl
    by (simp add: free_slot_def h1_def [symmetric] ps_def)
qed

lemma free_slot_stores:
  assumes "stores h R" "mode_flag h = Direct" "rbuf (ext h) = None" "slot_in_range sl"
  shows "\<exists>h' ps. free_slot os sl h = Some (Inr h') \<and> stores h' (R(sl := [])) \<and> slot_chain h sl ps
    \<and> avail h' = avail h \<union> set ps \<and> mode_flag h' = Direct \<and> rbuf (ext h') = None"
proof -
  obtain C where C: "chains h C" "R = (\<lambda>sl. parse_records (chain_bytes h (C sl)))" using assms(1) by (auto simp: stores_def)
  obtain h' where h': "free_slot os sl h = Some (Inr h')" "chains h' (C(sl := []))" "avail h' = avail h \<union> set (C sl)"
    "mode_flag h' = Direct" "ext h' = ext h" "\<forall>sl'. sl' \<noteq> sl \<longrightarrow> chain_bytes h' (C sl') = chain_bytes h (C sl')"
    by (rule free_slot_spec [OF C(1) assms(2-4)])
  have "R(sl := []) = (\<lambda>a. parse_records (chain_bytes h' ((C(sl := [])) a)))" using h'(6) by (auto simp: C(2) fun_eq_iff)
  then have "stores h' (R(sl := []))" using h'(2) unfolding stores_def by blast
  moreover have "slot_chain h sl (C sl)" using C(1) by (simp add: chains_def)
  ultimately show ?thesis using h'(1,3-5) assms(3) by auto
qed

text \<open>Freeing the slots of a list empties exactly these slots.\<close>

lemma free_slots_of_stores:
  assumes "stores h R" "mode_flag h = Direct" "rbuf (ext h) = None" "\<forall>sl \<in> set sls. slot_in_range sl"
  shows "\<exists>h'. free_slots_of os sls h = Some (Inr h') \<and> stores h' (\<lambda>sl. if sl \<in> set sls then [] else R sl)
    \<and> mode_flag h' = Direct \<and> rbuf (ext h') = None \<and> avail h \<subseteq> avail h'"
  using assms
proof (induction sls arbitrary: h R)
  case (Cons sl sls)
  show ?case
  proof (cases "get_head sl h = 0")
    case True
    obtain C where C: "chains h C" "R = (\<lambda>sl. parse_records (chain_bytes h (C sl)))" using Cons.prems(1) by (auto simp: stores_def)
    have "chain (nxt h) (get_head sl h) (C sl)" using C(1) by (auto simp: chains_def slot_chain_def)
    then have "C sl = []" using True by simp
    then have "R sl = []" by (simp add: C(2))
    moreover obtain h' where "free_slots_of os sls h = Some (Inr h')" "stores h' (\<lambda>sl. if sl \<in> set sls then [] else R sl)"
      "mode_flag h' = Direct" "rbuf (ext h') = None" "avail h \<subseteq> avail h'"
      using Cons.IH [OF Cons.prems(1-3)] Cons.prems(4) by auto
    moreover have "(\<lambda>a. if a \<in> set (sl # sls) then [] else R a) = (\<lambda>a. if a \<in> set sls then [] else R a)"
      using calculation(1) by auto
    ultimately show ?thesis using True by simp
  next
    case False
    obtain h1 ps where h1: "free_slot os sl h = Some (Inr h1)" "stores h1 (R(sl := []))" "avail h1 = avail h \<union> set ps"
      "mode_flag h1 = Direct" "rbuf (ext h1) = None"
      using free_slot_stores [OF Cons.prems(1-3), of sl os] Cons.prems(4) by auto
    moreover obtain h' where "free_slots_of os sls h1 = Some (Inr h')"
      "stores h' (\<lambda>a. if a \<in> set sls then [] else (R(sl := [])) a)" "mode_flag h' = Direct" "rbuf (ext h') = None" "avail h1 \<subseteq> avail h'"
      using Cons.IH [OF h1(2,4,5)] Cons.prems(4) by auto
    moreover have "(\<lambda>a. if a \<in> set sls then [] else (R(sl := [])) a) = (\<lambda>a. if a \<in> set (sl # sls) then [] else R a)" by auto
    ultimately show ?thesis using False by auto
  qed
qed auto

section \<open>Host allocation in direct mode\<close>

lemma host_scan_Some:
  assumes "host_scan js h = Some (Inr (p, t))"
  shows "\<exists>j \<in> set js. free_list_heads h j = p \<and> 0 < p \<and> p < 4294967296 \<and> t = host_pop j p h"
  using assms by (induction js) (auto simp: Let_def split: if_splits, (metis wrap32_less)+)

lemma host_pop_direct:
  "rbuf (ext h) = None \<Longrightarrow> clear_page p (host_pop j p h) = pop_page j p h"
  by (simp add: clear_page_def upd_host_page_def host_pop_def pop_page_def host_page_def page_key_def)

text \<open>The capacities of a region, whatever its bump pointer.\<close>

definition file_ok :: "'a shm_scheme \<Rightarrow> bool" where
  "file_ok s \<longleftrightarrow> 0 < local_capacity s \<and> local_capacity s \<le> global_capacity s \<and> global_capacity s \<le> CAPACITY_HARD_LIMIT"

lemma try_grow_shm_Some:
  assumes "try_grow_shm os need h = Some (c, h')" "file_ok h"
  shows "need \<le> global_capacity h' \<and> file_ok h' \<and> global_capacity h \<le> global_capacity h'
    \<and> (\<exists>g l. h' = h\<lparr>global_capacity := g, local_capacity := l\<rparr>)"
proof (cases "need \<le> global_capacity h")
  case True
  then have "h' = h" using assms(1) by (simp add: try_grow_shm_def)
  moreover have "\<exists>g l. h = h\<lparr>global_capacity := g, local_capacity := l\<rparr>"
    by (intro exI [of _ "global_capacity h"] exI [of _ "local_capacity h"]) simp
  ultimately show ?thesis using True assms by simp
next
  case False
  define c' where "c' = min (max (saturating_mul32 (global_capacity h) 2) need) CAPACITY_HARD_LIMIT"
  have "h' = h\<lparr>global_capacity := c', local_capacity := c'\<rparr>" "need \<le> c'"
    using assms(1) False by (auto simp: try_grow_shm_def Let_def c'_def split: if_splits)
  moreover have "c' \<le> CAPACITY_HARD_LIMIT" by (simp add: c'_def)
  ultimately show ?thesis using False assms(2) by (auto simp: file_ok_def)
qed

text \<open>Moving the bump pointer up by whole pages.\<close>

lemma alloc_inv_advance:
  assumes "alloc_inv s" "mem t = mem s" "free_list_heads t = free_list_heads s"
    and "bump_allocator s \<le> bump_allocator t" "PAGE_SIZE dvd bump_allocator t" "bump_allocator t < 4294967296"
  shows "alloc_inv t" "avail t \<subseteq> avail s"
proof -
  obtain F where F: "free_lists s F" and b: "bump_ok s" using assms(1) by (auto simp: alloc_inv_def)
  have Ft: "free_lists t F" by (rule free_lists_mono [OF F assms(3,4)]) (simp add: assms(2))
  then show "alloc_inv t" using b assms(4-6) by (auto simp: alloc_inv_def bump_ok_def)
  have "free_pages t = free_pages s" by (simp add: free_pages_eq [OF F] free_pages_eq [OF Ft])
  then show "avail t \<subseteq> avail s" using assms(4) by (auto simp: avail_def)
qed

text \<open>The notification may flip the pool to paged mode, which takes a run of pages off the bump heap.\<close>

definition bumped :: "'a host_scheme \<Rightarrow> 'a host_scheme \<Rightarrow> bool" where
  "bumped h h' \<longleftrightarrow> guest_inv h' \<and> avail h' \<subseteq> avail h \<and> mem h' = mem h \<and> same_slots h h' \<and> global_capacity h' = global_capacity h"

lemma bumped_ext:
  assumes "guest_inv h"
  shows "bumped h (h\<lparr>ext := e, mode_flag := m\<rparr>)"
  using assms by (auto simp: bumped_def guest_inv_def alloc_inv_def bump_ok_def free_lists_def heap_page_def
      cap_ok_def avail_def free_pages_def same_slots_def)

lemma bumped_trans: "bumped h h1 \<Longrightarrow> bumped h1 h2 \<Longrightarrow> bumped h h2"
  by (auto simp: bumped_def intro: same_slots_trans)

lemma bumped_ext':
  assumes "guest_inv h"
  shows "bumped h (h\<lparr>ext := e\<rparr>)" "bumped h (h\<lparr>mode_flag := m\<rparr>)" "bumped h h"
  using bumped_ext [OF assms, where m = "mode_flag h" and e = e] bumped_ext [OF assms, where e = "ext h" and m = m]
    bumped_ext [OF assms, where m = "mode_flag h" and e = "ext h"] by simp_all

lemma seed_residency_bumped:
  assumes g: "guest_inv h" and n: "n = FLIP_SEED_SLOTS"
  shows "bumped h (snd (seed_residency n h))"
proof -
  define t where "t = bump_allocator h + PAGE_SIZE * n"
  have le: "bump_allocator h \<le> 0xDF000000" using g by (auto simp: guest_inv_def cap_ok_def layout_consts)
  then have w: "wrap32 (PAGE_SIZE * n) = PAGE_SIZE * n" "wrap32 t = t" "t < 4294967296"
    by (simp_all add: t_def n FLIP_SEED_SLOTS_def layout_consts)
  have d: "PAGE_SIZE dvd t" using g by (simp add: t_def guest_inv_def alloc_inv_def bump_ok_def)
  have "bumped h (h\<lparr>bump_allocator := t, ext := e\<rparr>)" if c: "t \<le> global_capacity h" for e
  proof -
    have "alloc_inv (h\<lparr>bump_allocator := t, ext := e\<rparr>)" "avail (h\<lparr>bump_allocator := t, ext := e\<rparr>) \<subseteq> avail h"
      by (rule alloc_inv_advance [of h]; use g d w(3) in \<open>simp add: guest_inv_def t_def\<close>)+
    then show ?thesis using g c by (simp add: bumped_def guest_inv_def cap_ok_def same_slots_def)
  qed
  then show ?thesis using bumped_ext' [OF g]
    by (simp add: seed_residency_def Let_def w(1) t_def [symmetric] w(2) split: option.split)
qed

lemma notify_bump_advance_bumped:
  assumes g: "guest_inv h"
  shows "bumped h (notify_bump_advance os force b h)"
proof -
  have flip: "bumped h (snd (flip_to_paged os h))" if "guest_inv h" for h :: "'a host_scheme"
  proof -
    have "bumped h (snd (seed_residency FLIP_SEED_SLOTS (h\<lparr>ext := e\<rparr>)))" for e
    proof (rule bumped_trans [OF bumped_ext'(1) [OF that, of e]])
      have "guest_inv (h\<lparr>ext := e\<rparr>)" using bumped_ext'(1) [OF that, of e] by (simp add: bumped_def)
      then show "bumped (h\<lparr>ext := e\<rparr>) (snd (seed_residency FLIP_SEED_SLOTS (h\<lparr>ext := e\<rparr>)))"
        by (rule seed_residency_bumped) simp
    qed
    then show ?thesis using bumped_ext' [OF that] by (auto simp: flip_to_paged_def split: sum.split)
  qed
  define h1 where "h1 = h\<lparr>ext := (ext h)\<lparr>last_bump := b\<rparr>\<rparr>"
  have h1: "bumped h h1" using bumped_ext'(1) [OF g] by (simp add: h1_def)
  then have "bumped h (snd (flip_to_paged os h1))" using bumped_trans [OF h1 flip] by (simp add: bumped_def)
  with h1 have c: "bumped h (snd (check_bump os force b h))" by (simp add: check_bump_def h1_def [symmetric])
  then have "bumped h ((snd (check_bump os force b h))\<lparr>mode_flag := Paged\<rparr>)"
    using bumped_trans bumped_ext'(2) by (metis bumped_def)
  with c show ?thesis using bumped_ext'(3) [OF g]
    by (auto simp: notify_bump_advance_def split: prod.splits sum.splits)
qed

text \<open>The two outcomes of a successful allocation in direct mode.\<close>

lemma bump_page_Inr:
  assumes a: "bump_page os force h = (Inr p, h')" and m: "mode_flag h = Direct" and f: "file_ok h"
  obtains h1 where "p = bump_allocator h" "file_ok h1" "global_capacity h \<le> global_capacity h1"
    "wrap32 (p + PAGE_SIZE) \<le> global_capacity h1"
    "\<exists>g l. h1 = h\<lparr>bump_allocator := wrap32 (p + PAGE_SIZE), global_capacity := g, local_capacity := l\<rparr>"
    "h' = notify_bump_advance os force (wrap32 (p + PAGE_SIZE)) (clear_page p h1)"
proof -
  define need where "need = wrap32 (bump_allocator h + PAGE_SIZE)"
  define h0 where "h0 = h\<lparr>bump_allocator := need\<rparr>"
  have b: "(if need \<le> global_capacity h0
         then (Inr (bump_allocator h), notify_bump_advance os force need (clear_page (bump_allocator h) h0))
         else case try_grow_shm os need h0 of
                Some (new_cap, h2) \<Rightarrow> (Inr (bump_allocator h), notify_bump_advance os force need (clear_page (bump_allocator h) h2))
              | None \<Rightarrow>
                  if current_mode h0 = Paged then
                    (case alloc_paged_page os (h0\<lparr>bump_allocator := bump_allocator h\<rparr>) of
                       (Inl e, h2) \<Rightarrow> (Inl (PoolErr e), h2)
                     | (Inr (i, p), h2) \<Rightarrow> (Inr i, h2))
                  else (Inl (Err (CapacityExhausted need (global_capacity h0))), h0)) = (Inr p, h')"
    using a by (simp only: bump_page_def Let_def need_def h0_def)
  have m0: "current_mode h0 \<noteq> Paged" and f0: "file_ok h0" using m f by (simp_all add: h0_def current_mode_def file_ok_def)
  show thesis
  proof (cases "need \<le> global_capacity h0")
    case True
    have "\<exists>g l. h0 = h\<lparr>bump_allocator := need, global_capacity := g, local_capacity := l\<rparr>"
      by (intro exI [of _ "global_capacity h"] exI [of _ "local_capacity h"]) (simp add: h0_def)
    moreover have "p = bump_allocator h" "h' = notify_bump_advance os force need (clear_page p h0)" using b True by auto
    ultimately show thesis using True f0 need_def by (intro that [of h0]) (simp_all, simp add: h0_def)
  next
    case False
    then obtain c h2 where g: "try_grow_shm os need h0 = Some (c, h2)" "p = bump_allocator h"
      "h' = notify_bump_advance os force need (clear_page p h2)"
      using b m0 by (auto split: option.splits)
    from try_grow_shm_Some [OF g(1) f0] obtain gc l where
      "need \<le> global_capacity h2" "file_ok h2" "global_capacity h0 \<le> global_capacity h2" "h2 = h0\<lparr>global_capacity := gc, local_capacity := l\<rparr>" by blast
    then show thesis using that [of h2] g(2,3) by (simp add: need_def) (auto simp: h0_def need_def)
  qed
qed

lemma bump_page_spec:
  assumes g: "guest_inv h" and m: "mode_flag h = Direct" "rbuf (ext h) = None" and a: "bump_page os force h = (Inr p, h')"
  shows "p = bump_allocator h \<and> guest_inv h' \<and> avail h' \<subseteq> avail h - {p} \<and> same_slots h h' \<and> (\<forall>q. q \<noteq> p \<longrightarrow> mem h' q = mem h q)
    \<and> p + PAGE_SIZE \<le> global_capacity h' \<and> next_offset (mem h' p) = 0 \<and> cursor (mem h' p) = 0"
proof -
  have f: "file_ok h" and i: "alloc_inv h" using g by (auto simp: guest_inv_def cap_ok_def file_ok_def)
  obtain h1 where h1: "p = bump_allocator h" "file_ok h1" "global_capacity h \<le> global_capacity h1"
    "wrap32 (p + PAGE_SIZE) \<le> global_capacity h1"
    "\<exists>g l. h1 = h\<lparr>bump_allocator := wrap32 (p + PAGE_SIZE), global_capacity := g, local_capacity := l\<rparr>"
    "h' = notify_bump_advance os force (wrap32 (p + PAGE_SIZE)) (clear_page p h1)" by (rule bump_page_Inr [OF a m(1) f])
  obtain gc l where e: "h1 = h\<lparr>bump_allocator := wrap32 (p + PAGE_SIZE), global_capacity := gc, local_capacity := l\<rparr>" using h1(5) by blast
  have le: "p \<le> 0xDF000000" using g h1(1) by (auto simp: guest_inv_def cap_ok_def layout_consts)
  then have w: "wrap32 (p + PAGE_SIZE) = p + PAGE_SIZE" "p + PAGE_SIZE < 4294967296" by (simp_all add: layout_consts)
  have s1: "alloc_inv h1" "avail h1 \<subseteq> avail h - {p}"
    using alloc_inv_bump [OF i, of h1] w h1(1) by (simp_all add: e)
  define h2 where "h2 = clear_page p h1"
  have h2: "h2 = h1\<lparr>mem := (mem h1)(p := (mem h1 p)\<lparr>next_offset := 0, cursor := 0\<rparr>)\<rparr>"
    using m(2) by (simp add: h2_def clear_page_def upd_host_page_def page_key_def host_page_def e)
  have "alloc_inv h2 \<and> avail h2 = avail h1"
    by (rule alloc_inv_cong [OF s1(1)]) (use s1(2) in \<open>auto simp: h2\<close>)
  moreover have "cap_ok h2" using h1(2,4) by (simp add: h2 cap_ok_def file_ok_def e w)
  ultimately have "guest_inv h2" by (simp add: guest_inv_def)
  then have "bumped h2 h'" using notify_bump_advance_bumped by (simp add: h1(6) h2_def)
  then show ?thesis using s1(2) h1(1,4) w \<open>alloc_inv h2 \<and> avail h2 = avail h1\<close>
    by (auto simp: bumped_def h2 e same_slots_def)
qed

lemma alloc_page_direct:
  assumes g: "guest_inv h" and m: "mode_flag h = Direct" "rbuf (ext h) = None" and a: "alloc_page os force h = (Inr p, h')"
  shows "p \<in> avail h \<and> guest_inv h' \<and> avail h' \<subseteq> avail h - {p} \<and> same_slots h h' \<and> (\<forall>q. q \<noteq> p \<longrightarrow> mem h' q = mem h q)
    \<and> BUMP_ALLOCATOR_START \<le> p \<and> PAGE_SIZE dvd p \<and> p + PAGE_SIZE \<le> global_capacity h'
    \<and> next_offset (mem h' p) = 0 \<and> cursor (mem h' p) = 0"
proof -
  define h0 where "h0 = next_shard h"
  have h0: "guest_inv h0" "avail h0 = avail h" "mem h0 = mem h" "same_slots h h0" "mode_flag h0 = Direct" "rbuf (ext h0) = None"
    "global_capacity h0 = global_capacity h" "free_list_heads h0 = free_list_heads h" "bump_allocator h0 = bump_allocator h"
    using g m by (simp_all add: h0_def next_shard_def guest_inv_def alloc_inv_def bump_ok_def free_lists_def heap_page_def
      cap_ok_def avail_def free_pages_def same_slots_def)
  show ?thesis
  proof (cases "host_scan (shard_order (host_shard h mod FREE_LIST_SHARD_COUNT)) h0")
    case (Some r)
    then obtain h1 where r: "host_scan (shard_order (host_shard h mod FREE_LIST_SHARD_COUNT)) h0 = Some (Inr (p, h1))" "h' = clear_page p h1"
      using a by (auto simp: alloc_page_def h0_def split: sum.splits)
    from host_scan_Some [OF r(1)] obtain j where j: "j < FREE_LIST_SHARD_COUNT" "free_list_heads h0 j = p" "p \<noteq> 0" "h1 = host_pop j p h0"
      by (auto simp: set_shard_order)
    have h': "h' = pop_page j p h0" using r(2) j(4) host_pop_direct [OF h0(6)] by simp
    have i: "alloc_inv h0" using h0(1) by (simp add: guest_inv_def)
    note s = pop_page_spec [OF i j(1-3)]
    have "PAGE_SIZE dvd bump_allocator h0" "bump_allocator h0 \<le> global_capacity h0"
      using h0(1) by (auto simp: guest_inv_def alloc_inv_def bump_ok_def cap_ok_def)
    then have "p + PAGE_SIZE \<le> global_capacity h0"
      using aligned_less [of PAGE_SIZE p "bump_allocator h0"] s(4) by (auto simp: heap_page_def)
    then show ?thesis using s h0 unfolding h' guest_inv_def cap_ok_def heap_page_def same_slots_def
      by (auto simp: pop_page_def avail_def)
  next
    case None
    then have b: "bump_page os force h0 = (Inr p, h')" using a by (simp add: alloc_page_def h0_def)
    have "bump_ok h" using g by (simp add: guest_inv_def alloc_inv_def)
    then show ?thesis using bump_page_spec [OF h0(1,5,6) b] h0 same_slots_trans [of h h0 h']
      by (auto simp: avail_def bump_ok_def)
  qed
qed


section \<open>Properties\<close>

text \<open>
  C6. Freeing a slot. In direct mode, freeing an in-range slot terminates, empties that slot of the
  abstract store and no other, and makes exactly the pages of its chain available again.
\<close>

theorem free_slot_refines:
  assumes "stores h R" "mode_flag h = Direct" "rbuf (ext h) = None" "slot_in_range sl"
  shows "\<exists>h' ps. free_slot os sl h = Some (Inr h') \<and> stores h' (R(sl := [])) \<and> slot_chain h sl ps
    \<and> avail h' = avail h \<union> set ps"
  using free_slot_stores [OF assms, of os] by blast

text \<open>A host process on a freshly formatted region, and one append to it.\<close>

definition fresh_host :: host where
  "fresh_host = shm.extend format_shared_memory (host.fields extended_pool_new Direct 0 False)"

lemma fresh_host_sel:
  "bump_allocator fresh_host = BUMP_ALLOCATOR_START" "global_capacity fresh_host = global_capacity format_shared_memory"
  "local_capacity fresh_host = local_capacity format_shared_memory" "free_list_heads fresh_host = (\<lambda>_. 0)"
  "get_head sl fresh_host = 0" "get_tail sl fresh_host = 0" "mode_flag fresh_host = Direct" "ext fresh_host = extended_pool_new"
  "host_shard fresh_host = 0"
  by (cases sl; simp add: fresh_host_def shm.defs host.defs format_shared_memory_def)+

lemma stores_fresh_host: "stores fresh_host (\<lambda>_. [])"
proof -
  have "free_lists fresh_host (\<lambda>_. [])" by (simp add: free_lists_def fresh_host_sel)
  moreover have "bump_ok fresh_host" "cap_ok fresh_host"
    by (simp_all add: bump_ok_def cap_ok_def fresh_host_sel format_shared_memory_def layout_consts)
  ultimately have "guest_inv fresh_host" by (auto simp: guest_inv_def alloc_inv_def)
  then have "chains fresh_host (\<lambda>_. [])" by (simp add: chains_def slot_chain_def fresh_host_sel)
  then show ?thesis by (auto simp: stores_def)
qed

lemma fresh_host_direct: "mode_flag fresh_host = Direct" "rbuf (ext fresh_host) = None"
  by (simp_all add: fresh_host_sel extended_pool_new_def)

text \<open>The same region after one page was taken for stream slot 0.\<close>

definition one_page_host :: host where
  "one_page_host = fresh_host\<lparr>bump_allocator := BUMP_ALLOCATOR_START + PAGE_SIZE,
     writer_heads := (\<lambda>_. 0)(0 := BUMP_ALLOCATOR_START), writer_tails := (\<lambda>_. 0)(0 := BUMP_ALLOCATOR_START)\<rparr>"

lemma one_page_host_direct: "mode_flag one_page_host = Direct" "rbuf (ext one_page_host) = None"
  by (simp_all add: one_page_host_def fresh_host_direct)

lemma one_page_host_stores:
  "stores one_page_host (\<lambda>_. [])" "slot_chain one_page_host (Stream 0) [BUMP_ALLOCATOR_START]"
proof -
  define C where "C = (\<lambda>_. [])(Stream 0 := [BUMP_ALLOCATOR_START])"
  have m: "mem one_page_host q = zero_page" for q
    by (simp add: one_page_host_def fresh_host_def shm.defs format_shared_memory_def)
  have "free_lists one_page_host (\<lambda>_. [])" by (simp add: free_lists_def one_page_host_def fresh_host_sel)
  moreover have "bump_ok one_page_host" "cap_ok one_page_host"
    by (simp_all add: bump_ok_def cap_ok_def one_page_host_def fresh_host_sel format_shared_memory_def layout_consts)
  ultimately have g: "guest_inv one_page_host" by (auto simp: guest_inv_def alloc_inv_def)
  have av: "avail one_page_host = {p. BUMP_ALLOCATOR_START + PAGE_SIZE \<le> p \<and> PAGE_SIZE dvd p}"
    by (auto simp: avail_def free_pages_def one_page_host_def fresh_host_sel)
  have h: "get_head sl one_page_host = (if sl = Stream 0 then BUMP_ALLOCATOR_START else 0)"
    "get_tail sl one_page_host = (if sl = Stream 0 then BUMP_ALLOCATOR_START else 0)" for sl
    using fresh_host_sel(5,6) [of sl] by (cases sl; auto simp: one_page_host_def)+
  have sc: "slot_chain one_page_host sl (C sl)" for sl
    by (simp add: slot_chain_def h C_def m zero_page_def) (simp add: layout_consts)
  then show "slot_chain one_page_host (Stream 0) [BUMP_ALLOCATOR_START]" by (metis C_def fun_upd_same)
  have cb: "chain_bytes one_page_host (C sl) = []" for sl
    by (simp add: C_def page_bytes_def m zero_page_def)
  have "chains one_page_host C"
    unfolding chains_def using g sc cb by (simp add: C_def av) (auto simp: layout_consts)
  then show "stores one_page_host (\<lambda>_. [])" unfolding stores_def by (intro exI [of _ C]) (simp add: cb)
qed

theorem free_slot_refines_witness:
  "\<exists>h'. free_slot willing_os (Stream 0) one_page_host = Some (Inr h') \<and> BUMP_ALLOCATOR_START \<in> avail h'"
proof -
  have "slot_in_range (Stream 0)" by (simp add: layout_consts)
  from free_slot_refines [OF one_page_host_stores(1) one_page_host_direct this, of willing_os]
  obtain h' ps where h': "free_slot willing_os (Stream 0) one_page_host = Some (Inr h')" "slot_chain one_page_host (Stream 0) ps"
    "avail h' = avail one_page_host \<union> set ps" by blast
  have "ps = [BUMP_ALLOCATOR_START]"
    using h'(2) one_page_host_stores(2) unfolding slot_chain_def by (blast dest: chain_unique)
  then show ?thesis using h' by auto
qed

text \<open>
  Freeing all transient slots. In direct mode \<open>free_all_transient\<close> terminates, empties every slot
  except the stream slots listed as persistent, keeps the records of these, and takes no page away
  from the allocator.
\<close>

lemma free_all_transient_refines:
  assumes "stores h R" "mode_flag h = Direct" "rbuf (ext h) = None"
  shows "\<exists>h'. free_all_transient os persist h = Some (Inr h') \<and> avail h \<subseteq> avail h'
    \<and> stores h' (\<lambda>sl. if slot_in_range sl \<and> (\<forall>i \<in> set persist. sl \<noteq> Stream i) then [] else R sl)"
proof -
  define sls where "sls = map Stream (filter (\<lambda>s. s \<notin> set persist) [0..<STREAM_SLOT_COUNT]) @ map Io [0..<IO_SLOT_COUNT]"
  have s: "sl \<in> set sls \<longleftrightarrow> slot_in_range sl \<and> (\<forall>i \<in> set persist. sl \<noteq> Stream i)" for sl
    by (cases sl) (auto simp: sls_def)
  then have "\<forall>sl \<in> set sls. slot_in_range sl" by blast
  from free_slots_of_stores [OF assms this, of os] show ?thesis
    unfolding s free_all_transient_def sls_def [symmetric] by blast
qed

text \<open>
  C7. Host allocation. In direct mode every page the host's allocator hands out was available and is
  not any more, lies page-aligned inside the file, and the allocation keeps the allocator's
  invariant, the slot tables and the contents of every other page, whether it pops a shard, bumps,
  grows the file or flips the pool to paged mode on the way.
\<close>

theorem host_alloc_fresh:
  assumes "guest_inv h" "mode_flag h = Direct" "rbuf (ext h) = None" "alloc_page os force h = (Inr p, h')"
  shows "p \<in> avail h \<and> p \<notin> avail h' \<and> avail h' \<subseteq> avail h \<and> guest_inv h' \<and> BUMP_ALLOCATOR_START \<le> p
    \<and> PAGE_SIZE dvd p \<and> p + PAGE_SIZE \<le> global_capacity h' \<and> same_slots h h' \<and> (\<forall>q. q \<noteq> p \<longrightarrow> mem h' q = mem h q)"
  using alloc_page_direct [OF assms] by auto

lemma fresh_host_allocates: "fst (alloc_page willing_os None fresh_host) = Inr BUMP_ALLOCATOR_START"
proof -
  have "host_scan js (next_shard fresh_host) = None" for js
    by (induction js) (simp_all add: next_shard_def fresh_host_sel)
  then show ?thesis
    by (simp add: alloc_page_def bump_page_def Let_def next_shard_def fresh_host_sel) (simp add: format_shared_memory_def layout_consts)
qed

theorem host_alloc_fresh_witness:
  "\<exists>h'. alloc_page willing_os None fresh_host = (Inr BUMP_ALLOCATOR_START, h') \<and> BUMP_ALLOCATOR_START \<notin> avail h' \<and> guest_inv h'"
proof -
  have g: "guest_inv fresh_host" using stores_fresh_host by (auto simp: stores_def chains_def)
  obtain h' where a: "alloc_page willing_os None fresh_host = (Inr BUMP_ALLOCATOR_START, h')"
    using fresh_host_allocates by (cases "alloc_page willing_os None fresh_host") auto
  show ?thesis using host_alloc_fresh [OF g fresh_host_direct a] a by blast
qed

text \<open>
  A failed host allocation is not undone. In direct mode with empty shards and the file at its
  hard limit, every failing allocation leaves the bump pointer advanced; after enough of them
  the 32-bit sum wraps, the capacity check passes, and the allocator hands out first an offset
  outside the file and then offset 0, where the superblock lies.
\<close>

lemma empty_shards_bump:
  assumes "free_list_heads h = (\<lambda>_. 0)"
  shows "alloc_page os force h = bump_page os force (next_shard h)"
proof -
  have "host_scan js (next_shard h) = None" for js
    by (induction js) (simp_all add: next_shard_def assms)
  then show ?thesis by (simp add: alloc_page_def)
qed

definition exhausted :: "nat \<Rightarrow> 'a host_scheme \<Rightarrow> bool" where
  "exhausted b h \<longleftrightarrow> mode_flag h = Direct \<and> ep_mode (ext h) = Direct \<and> free_list_heads h = (\<lambda>_. 0)
     \<and> global_capacity h = CAPACITY_HARD_LIMIT \<and> bump_allocator h = b"

lemma exhausted_fails:
  assumes e: "exhausted b h" and b: "CAPACITY_HARD_LIMIT \<le> b" "b + PAGE_SIZE < 4294967296"
  shows "exhausted (b + PAGE_SIZE) (snd (alloc_page os force h))"
    "fst (alloc_page os force h) = Inl (Err (CapacityExhausted (b + PAGE_SIZE) CAPACITY_HARD_LIMIT))"
proof -
  have n: "\<not> b + PAGE_SIZE \<le> CAPACITY_HARD_LIMIT" using b(1) PAGE_SIZE_pos by linarith
  have "bump_page os force (next_shard h) = (Inl (Err (CapacityExhausted (b + PAGE_SIZE) CAPACITY_HARD_LIMIT)), (next_shard h)\<lparr>bump_allocator := b + PAGE_SIZE\<rparr>)"
    using e b n by (simp add: bump_page_def Let_def exhausted_def next_shard_def try_grow_shm_def current_mode_def)
  then show "exhausted (b + PAGE_SIZE) (snd (alloc_page os force h))"
    "fst (alloc_page os force h) = Inl (Err (CapacityExhausted (b + PAGE_SIZE) CAPACITY_HARD_LIMIT))"
    using e empty_shards_bump [of h os force] by (simp_all add: exhausted_def next_shard_def)
qed

lemma exhausted_wraps:
  assumes e: "exhausted b h" and b: "wrap32 (b + PAGE_SIZE) \<le> PAGE_SIZE"
  shows "fst (alloc_page os None h) = Inr b \<and> exhausted (wrap32 (b + PAGE_SIZE)) (snd (alloc_page os None h))"
proof -
  have c: "wrap32 (b + PAGE_SIZE) \<le> CAPACITY_HARD_LIMIT" "\<not> should_enter_paged None (wrap32 (b + PAGE_SIZE))"
    using b by (simp_all add: should_enter_paged_def layout_consts)
  have "bump_page os None (next_shard h) = (Inr b, clear_page b ((next_shard h)\<lparr>bump_allocator := wrap32 (b + PAGE_SIZE)\<rparr>))"
    using e c by (simp add: bump_page_def Let_def exhausted_def next_shard_def notify_bump_advance_def)
  then show ?thesis
    using e empty_shards_bump [of h os None] by (simp add: exhausted_def next_shard_def clear_page_def upd_host_page_def)
qed

lemma exhausted_iter:
  assumes "exhausted CAPACITY_HARD_LIMIT h" "CAPACITY_HARD_LIMIT + n * PAGE_SIZE < 4294967296"
  shows "exhausted (CAPACITY_HARD_LIMIT + n * PAGE_SIZE) (((\<lambda>h. snd (alloc_page os force h)) ^^ n) h)"
  using assms(2)
proof (induction n)
  case (Suc n)
  then have "exhausted (CAPACITY_HARD_LIMIT + n * PAGE_SIZE) (((\<lambda>h. snd (alloc_page os force h)) ^^ n) h)" by simp
  from exhausted_fails(1) [OF this] Suc.prems show ?case by (simp add: ac_simps)
qed (use assms(1) in simp)

lemma exhausted_alloc_wraps:
  assumes "exhausted CAPACITY_HARD_LIMIT h" "h' = ((\<lambda>h. snd (alloc_page os None h)) ^^ 135167) h"
  shows "fst (alloc_page os None h) = Inl (Err (CapacityExhausted (CAPACITY_HARD_LIMIT + PAGE_SIZE) CAPACITY_HARD_LIMIT))
    \<and> fst (alloc_page os None h') = Inr 0xFFFFF000
    \<and> fst (alloc_page os None (snd (alloc_page os None h'))) = Inr 0"
proof -
  have e: "exhausted 0xFFFFF000 h'"
    using exhausted_iter [OF assms(1), of 135167 os None] assms(2) by (simp add: layout_consts)
  have w: "wrap32 (0xFFFFF000 + PAGE_SIZE) = 0" "wrap32 (0 + PAGE_SIZE) \<le> PAGE_SIZE" by (simp_all add: layout_consts wrap32_def)
  note s = exhausted_wraps [OF e, of os, unfolded w(1)]
  then have "fst (alloc_page os None (snd (alloc_page os None h'))) = Inr 0" using exhausted_wraps [OF _ w(2)] by blast
  moreover have "fst (alloc_page os None h) = Inl (Err (CapacityExhausted (CAPACITY_HARD_LIMIT + PAGE_SIZE) CAPACITY_HARD_LIMIT))"
    by (rule exhausted_fails(2) [OF assms(1)]) (simp_all add: layout_consts)
  ultimately show ?thesis using s by simp
qed

text \<open>
  C38. A direct page freed in paged mode is handed out twice. Freeing a slot that holds one direct page
  puts the page on its shard and its window slot on the free slots of the resolution buffer;
  the next shard allocation returns the page, and so does, as the address of a new paged page, the
  allocation from the extended pool that follows it.
\<close>

definition paged_host :: host where
  "paged_host = one_page_host\<lparr>ext := paged_example\<lparr>rbuf := Some resolution_buffer_new\<rparr>, mode_flag := Paged\<rparr>"

lemma host_scan_single:
  "free_list_heads h = (\<lambda>_. 0)(j := p) \<Longrightarrow> 0 < p \<Longrightarrow> wrap32 p = p \<Longrightarrow> j \<in> set js \<Longrightarrow>
    host_scan js h = Some (Inr (p, host_pop j p h))"
  by (induction js) (auto simp: Let_def)

theorem mixed_free_aliases:
  "\<exists>h1 h2 h3. free_slot willing_os (Stream 0) paged_host = Some (Inr h1)
     \<and> alloc_page willing_os None h1 = (Inr BUMP_ALLOCATOR_START, h2)
     \<and> alloc_paged_page willing_os h2 = (Inr (DIRECT_LIMIT, BUMP_ALLOCATOR_START), h3)"
proof -
  define p where "p = BUMP_ALLOCATOR_START"
  define j where "j = shard_of p"
  have p: "0 < p" "p < DIRECT_LIMIT" "wrap32 p = p" "PAGE_SIZE * (p div PAGE_SIZE) = p" "j < 16"
    by (simp_all add: p_def j_def shard_of_def layout_consts)
  define h0 where "h0 = set_tail (Stream 0) 0 (set_head (Stream 0) 0 paged_host)"
  define h1 where "h1 = notify_direct_free p (push_single_direct_page p h0)"
  have h0: "free_list_heads h0 = (\<lambda>_. 0)" "rbuf (ext h0) = Some resolution_buffer_new" "mode_flag h0 = Paged" "ep_mode (ext h0) = Paged"
    "next_offset (mem h0 p) = 0" "gpool (ext h0) = gpool paged_example"
    by (simp_all add: h0_def paged_host_def one_page_host_def fresh_host_sel paged_example_def)
      (simp add: fresh_host_def shm.defs format_shared_memory_def zero_page_def)
  have k: "page_key h0 q = q" for q by (simp add: page_key_def h0 resolution_buffer_new_def)
  have h1: "free_list_heads h1 = (\<lambda>_. 0)(j := p)" "rbuf (ext h1) = Some (release_direct_slot (p div PAGE_SIZE) resolution_buffer_new)"
    "gpool (ext h1) = gpool paged_example" "ep_mode (ext h1) = Paged" "next_offset (mem h1 p) = 0"
    by (simp_all add: h1_def push_single_direct_page_def Let_def upd_host_page_def k notify_direct_free_def h0 on_direct_free_def j_def)
  have fm: "free_page_chain_mixed willing_os p h0 = Some h1"
    using p by (subst free_page_chain_mixed.simps)
      (simp add: host_resolve_def host_page_def k h0 free_page_chain_mixed.simps [of _ 0] h1_def)
  have f: "free_slot willing_os (Stream 0) paged_host = Some (Inr h1)"
  proof -
    have "get_head (Stream 0) paged_host = p" by (simp add: paged_host_def one_page_host_def p_def)
    then show ?thesis using p(1) h0(3) fm
      by (simp add: free_slot_def free_page_chain_def current_mode_def h0_def [symmetric] layout_consts del: set_head.simps set_tail.simps get_head.simps)
  qed
  define h2 where "h2 = clear_page p (host_pop j p (next_shard h1))"
  have "host_scan (shard_order s) (next_shard h1) = Some (Inr (p, host_pop j p (next_shard h1)))" for s
    by (rule host_scan_single) (use p h1(1) in \<open>simp_all add: next_shard_def set_shard_order layout_consts\<close>)
  then have a: "alloc_page willing_os None h1 = (Inr p, h2)" by (simp add: alloc_page_def h2_def)
  have "ext h2 = ext h1" by (simp add: h2_def clear_page_def upd_host_page_def host_pop_def next_shard_def)
  then obtain h3 where "alloc_paged_page willing_os h2 = (Inr (DIRECT_LIMIT, p), h3)"
    using h1(2-4) p(4) by (simp add: alloc_paged_page_def pool_alloc_page_def paged_example_def gp_alloc_def gp_take_def rb_install_def
      rb_get_def take_slot_def release_direct_slot_def resolution_buffer_new_def willing_os_def slot_addr_def
      GLOBAL_POOL_INITIAL_SIZE_def layout_consts)
  then show ?thesis using f a unfolding p_def by blast
qed

end
