(* ===== verification/Stream_Range.thy ===== *)
theory Stream_Range
  imports Record_Store
begin

text \<open>
  Byte access to stream slots (\<open>guest/src/api/stream_area.rs\<close>): reading a range of bytes, overwriting
  a range in place, and seeking. The guest is a 32-bit WebAssembly module, so \<open>usize\<close> has 32 bits; the
  additions are written with their wrap-around.
\<close>

section \<open>Operations\<close>



text \<open>The walk of \<open>write_stream_range\<close>: the number of bytes written and the new state.\<close>

partial_function (option) write_range_loop ::
  "nat \<Rightarrow> byte list \<Rightarrow> nat \<Rightarrow> nat \<Rightarrow> nat \<Rightarrow> 'a shm_scheme \<Rightarrow> (nat \<times> 'a shm_scheme) option" where
  "write_range_loop off dat cur logical_start written s =
     (if length dat \<le> written then Some (written, s)
      else let logical_end = wrap32 (logical_start + cursor (mem s cur));
               copy_start = max off logical_start;
               copy_end = min (wrap32 (off + length dat)) logical_end;
               s' = (if copy_start < copy_end
                     then upd_page cur (\<lambda>pg. pg\<lparr>data := write_bytes (data pg) (copy_start - logical_start)
                            (take (copy_end - copy_start) (drop written dat))\<rparr>) s else s);
               written' = (if copy_start < copy_end then written + (copy_end - copy_start) else written)
           in if wrap32 (off + length dat) \<le> logical_end \<or> wrap32 (nxt s cur) = 0 then Some (written', s')
              else write_range_loop off dat (wrap32 (nxt s cur)) logical_end written' s')"

definition write_stream_range ::
  "nat \<Rightarrow> nat \<Rightarrow> byte list \<Rightarrow> 'a shm_scheme \<Rightarrow> (err + bool \<times> 'a shm_scheme) option" where
  "write_stream_range writer_id off dat s =
     (if dat = [] then Some (Inr (True, s))
      else if STREAM_SLOT_COUNT \<le> writer_id then Some (Inl (SlotOutOfRange writer_id))
      else if wrap32 (writer_heads s writer_id) = 0 then Some (Inr (False, s))
      else map_option (\<lambda>(written, t). Inr (length dat \<le> written, t))
             (write_range_loop off dat (wrap32 (writer_heads s writer_id)) 0 0 s))"

datatype SeekFrom = SeekStart nat | SeekCurrent int | SeekEnd int

partial_function (option) stream_length :: "'a shm_scheme \<Rightarrow> nat \<Rightarrow> nat \<Rightarrow> nat option" where
  "stream_length s p acc =
     (if wrap32 (nxt s p) = 0 then Some (wrap32 (acc + cursor (mem s p)))
      else stream_length s (wrap32 (nxt s p)) (wrap32 (acc + cursor (mem s p))))"


text \<open>The target of a seek and its check, shared by the seeks on streams and on shared state.\<close>

fun seek_target :: "SeekFrom \<Rightarrow> nat \<Rightarrow> nat \<Rightarrow> int" where
  "seek_target (SeekStart pos) current_pos len = int pos"
| "seek_target (SeekCurrent d) current_pos len = int current_pos + d"
| "seek_target (SeekEnd d) current_pos len = int len + d"

definition seek_within :: "SeekFrom \<Rightarrow> nat \<Rightarrow> nat \<Rightarrow> nat option" where
  "seek_within whence current_pos len =
     (let new_pos = seek_target whence current_pos len
      in if new_pos < 0 \<or> len < nat new_pos then None else Some (wrap32 (nat new_pos)))"

definition lseek_stream :: "nat \<Rightarrow> nat \<Rightarrow> SeekFrom \<Rightarrow> 'a shm_scheme \<Rightarrow> (err + nat option) option" where
  "lseek_stream writer_id current_pos whence s =
     (if STREAM_SLOT_COUNT \<le> writer_id then Some (Inl (SlotOutOfRange writer_id))
      else if wrap32 (writer_heads s writer_id) = 0 then Some (Inr None)
      else map_option (\<lambda>len. Inr (seek_within whence current_pos len))
             (stream_length s (wrap32 (writer_heads s writer_id)) 0))"

section \<open>The bytes of a slot\<close>

text \<open>Pages of a chain at 32-bit offsets inside the file.\<close>

definition pages_ok :: "'a shm_scheme \<Rightarrow> nat list \<Rightarrow> bool" where
  "pages_ok s ps \<longleftrightarrow> (\<forall>p \<in> set ps. p + PAGE_SIZE < 4294967296 \<and> p + PAGE_SIZE \<le> global_capacity s)"

lemma chain_next:
  assumes "chain (nxt s) cur (p # ps)" "pages_ok s (p # ps)"
  shows "cur = p" "wrap32 (nxt s p) = nxt s p" "chain (nxt s) (nxt s p) ps" "pages_ok s ps" "nxt s p = 0 \<longleftrightarrow> ps = []"
proof -
  show "cur = p" and c: "chain (nxt s) (nxt s p) ps" and "pages_ok s ps" using assms by (auto simp: pages_ok_def)
  have "nxt s p < 4294967296" using chain_hd [OF c] assms(2) by (cases ps) (auto simp: pages_ok_def)
  then show "wrap32 (nxt s p) = nxt s p" by simp
  show "nxt s p = 0 \<longleftrightarrow> ps = []" using c chain_hd [OF c] path_nonnull [OF c] by (cases ps) auto
qed




text \<open>
  Overwriting bytes in place, with the position of the first byte of the list within the slot.
\<close>

definition overwrite_from :: "nat \<Rightarrow> byte list \<Rightarrow> nat \<Rightarrow> byte list \<Rightarrow> byte list" where
  "overwrite_from base bs off dat =
     map (\<lambda>j. if off \<le> base + j \<and> base + j < off + length dat then dat ! (base + j - off) else bs ! j) [0..<length bs]"

abbreviation overwrite :: "byte list \<Rightarrow> nat \<Rightarrow> byte list \<Rightarrow> byte list" where
  "overwrite \<equiv> overwrite_from 0"

lemma length_overwrite [simp]: "length (overwrite_from base bs off dat) = length bs"
  by (simp add: overwrite_from_def)

lemma overwrite_append:
  "overwrite_from base (as @ bs) off dat = overwrite_from base as off dat @ overwrite_from (base + length as) bs off dat"
  by (rule nth_equalityI) (auto simp: overwrite_from_def nth_append)

lemma overwrite_beyond: "off + length dat \<le> base \<Longrightarrow> overwrite_from base bs off dat = bs"
  by (rule nth_equalityI) (auto simp: overwrite_from_def)

lemma overwrite_within:
  "off + length dat \<le> length bs \<Longrightarrow> overwrite bs off dat = take off bs @ dat @ drop (off + length dat) bs"
  by (rule nth_equalityI) (auto simp: overwrite_from_def nth_append)

lemma overwrite_page:
  assumes "written = min (length dat) (ls - off)"
  shows "read_bytes (write_bytes f (max off ls - ls) (take (min (off + length dat) (ls + n) - max off ls) (drop written dat))) 0 n
    = overwrite_from ls (read_bytes f 0 n) off dat"
  using assms by (intro nth_equalityI) (auto simp: overwrite_from_def write_bytes_def min_def max_def ac_simps)

definition same_but_data :: "'a shm_scheme \<Rightarrow> 'a shm_scheme \<Rightarrow> nat set \<Rightarrow> bool" where
  "same_but_data s t P \<longleftrightarrow> (\<exists>f. t = s\<lparr>mem := \<lambda>q. (mem s q)\<lparr>data := f q\<rparr>\<rparr> \<and> (\<forall>q. q \<notin> P \<longrightarrow> f q = data (mem s q)))"

lemma same_but_data_refl [simp]: "same_but_data s s P"
  unfolding same_but_data_def by (intro exI [of _ "\<lambda>q. data (mem s q)"]) simp

lemma same_but_data_trans:
  assumes "same_but_data s t P" "same_but_data t u Q" "P \<subseteq> R" "Q \<subseteq> R"
  shows "same_but_data s u R"
proof -
  obtain f g where "t = s\<lparr>mem := \<lambda>q. (mem s q)\<lparr>data := f q\<rparr>\<rparr>" "\<forall>q. q \<notin> P \<longrightarrow> f q = data (mem s q)"
    "u = t\<lparr>mem := \<lambda>q. (mem t q)\<lparr>data := g q\<rparr>\<rparr>" "\<forall>q. q \<notin> Q \<longrightarrow> g q = data (mem t q)"
    using assms(1,2) unfolding same_but_data_def by blast
  then show ?thesis using assms(3,4) unfolding same_but_data_def by (intro exI [of _ g]) (simp add: subset_iff, metis)
qed

lemma same_but_data_upd: "same_but_data s (upd_page p (\<lambda>pg. pg\<lparr>data := g pg\<rparr>) s) {p}"
proof -
  let ?f = "\<lambda>q. if q = p then g (mem s p) else data (mem s q)"
  have "(mem s)(p := (mem s p)\<lparr>data := g (mem s p)\<rparr>) = (\<lambda>q. (mem s q)\<lparr>data := ?f q\<rparr>)" by (auto simp: fun_eq_iff)
  then show ?thesis unfolding same_but_data_def by (intro exI [of _ ?f]) (simp add: upd_page_def)
qed

lemma same_but_dataD:
  assumes "same_but_data s t P"
  shows "nxt t = nxt s" "cursor (mem t q) = cursor (mem s q)" "global_capacity t = global_capacity s"
    "q \<notin> P \<Longrightarrow> mem t q = mem s q" "get_head sl t = get_head sl s" "get_tail sl t = get_tail sl s"
  using assms by (cases sl; auto simp: same_but_data_def)+

lemma write_range_loop_spec:
  assumes "chain (nxt s) cur ps" "ps \<noteq> []" "pages_ok s ps" "written = min (length dat) (ls - off)"
    "ls + length (chain_bytes s ps) < 4294967296" "off + length dat < 4294967296"
  shows "\<exists>t. write_range_loop off dat cur ls written s = Some (min (length dat) (ls + length (chain_bytes s ps) - off), t)
    \<and> same_but_data s t (set ps) \<and> chain_bytes t ps = overwrite_from ls (chain_bytes s ps) off dat"
  using assms
proof (induction ps arbitrary: cur ls written s)
  case (Cons p ps)
  note nx = chain_next [OF Cons.prems(1,3)]
  have p: "p \<notin> set ps" using chain_distinct [OF Cons.prems(1)] by simp
  let ?c = "cursor (mem s p)" and ?n = "length dat"
  let ?k = "min (off + ?n) (ls + ?c) - max off ls"
  have w: "wrap32 (ls + ?c) = ls + ?c" "wrap32 (off + ?n) = off + ?n" using Cons.prems(5,6) by simp_all
  show ?case
  proof (cases "?n \<le> written")
    case True
    then have "write_range_loop off dat cur ls written s = Some (?n, s)" using Cons.prems(4) by (simp add: write_range_loop.simps)
    moreover have "off + ?n \<le> ls \<or> dat = []" using True Cons.prems(4) by (cases dat) (auto simp: min_def split: if_splits)
    then have m: "min ?n (ls + length (chain_bytes s (p # ps)) - off) = ?n" by auto
    have "overwrite_from ls (chain_bytes s (p # ps)) off dat = chain_bytes s (p # ps)"
      using \<open>off + ?n \<le> ls \<or> dat = []\<close>
      by (auto intro: overwrite_beyond intro!: nth_equalityI simp: overwrite_from_def)
    ultimately show ?thesis unfolding m by (intro exI [of _ s]) simp
  next
    case False
    define s' where "s' = upd_page p (\<lambda>pg. pg\<lparr>data := write_bytes (data pg) (max off ls - ls) (take ?k (drop written dat))\<rparr>) s"
    define written' where "written' = written + ?k"
    have wr: "written' = min ?n (ls + ?c - off)" using Cons.prems(4) False by (auto simp: written'_def min_def max_def split: if_splits)
    have sd: "same_but_data s s' {p}" unfolding s'_def by (rule same_but_data_upd)
    note sD = same_but_dataD [OF sd]
    have pb: "page_bytes s' p = overwrite_from ls (page_bytes s p) off dat"
      using overwrite_page [OF Cons.prems(4)] by (simp add: page_bytes_def s'_def)
    have cb: "chain_bytes s' ps = chain_bytes s ps" by (rule chain_bytes_cong) (metis sD(4) p singletonD)
    have same: "s' = s" if "\<not> max off ls < min (off + ?n) (ls + ?c)"
    proof -
      have "?k = 0" using that by linarith
      moreover have "write_bytes f j [] = f" for f j by (auto simp: write_bytes_def fun_eq_iff)
      ultimately show ?thesis by (simp add: s'_def upd_page_def)
    qed
    have one: "write_range_loop off dat cur ls written s =
      (if off + ?n \<le> ls + ?c \<or> ps = [] then Some (written', s') else write_range_loop off dat (nxt s p) (ls + ?c) written' s')"
      using False same by (subst write_range_loop.simps) (auto simp: Let_def nx w s'_def written'_def)
    have ov: "overwrite_from ls (chain_bytes s (p # ps)) off dat = page_bytes s' p @ overwrite_from (ls + ?c) (chain_bytes s ps) off dat"
      by (simp add: overwrite_append pb)
    show ?thesis
    proof (cases "off + ?n \<le> ls + ?c \<or> ps = []")
      case True
      then have "overwrite_from (ls + ?c) (chain_bytes s ps) off dat = chain_bytes s ps"
        using overwrite_beyond [of off dat "ls + ?c" "chain_bytes s ps"] by (auto simp: overwrite_from_def)
      then have "chain_bytes s' (p # ps) = overwrite_from ls (chain_bytes s (p # ps)) off dat" unfolding ov by (simp only: chain_bytes_Cons cb)
      moreover have "same_but_data s s' (set (p # ps))" by (rule same_but_data_trans [OF same_but_data_refl sd]) auto
      moreover have "written' = min ?n (ls + length (chain_bytes s (p # ps)) - off)" using True wr by (auto simp: min_def)
      ultimately show ?thesis using one True by (intro exI [of _ s']) simp
    next
      case c: False
      have "\<exists>t. write_range_loop off dat (nxt s p) (ls + ?c) written' s'
          = Some (min ?n (ls + ?c + length (chain_bytes s' ps) - off), t)
        \<and> same_but_data s' t (set ps) \<and> chain_bytes t ps = overwrite_from (ls + ?c) (chain_bytes s' ps) off dat"
        by (rule Cons.IH) (use nx sD(1,3) c wr Cons.prems(5,6) cb in \<open>auto simp: pages_ok_def\<close>)
      then obtain t where t: "write_range_loop off dat (nxt s p) (ls + ?c) written' s'
          = Some (min ?n (ls + ?c + length (chain_bytes s ps) - off), t)"
        "same_but_data s' t (set ps)" "chain_bytes t ps = overwrite_from (ls + ?c) (chain_bytes s ps) off dat" unfolding cb by blast
      have "page_bytes t p = page_bytes s' p" using same_but_dataD(4) [OF t(2) p] by (simp add: page_bytes_def)
      then have "chain_bytes t (p # ps) = overwrite_from ls (chain_bytes s (p # ps)) off dat" unfolding ov by (simp only: chain_bytes_Cons t(3))
      moreover have "same_but_data s t (set (p # ps))" by (rule same_but_data_trans [OF sd t(2)]) auto
      ultimately show ?thesis using one c t(1) by (intro exI [of _ t]) (simp add: add.assoc)
    qed
  qed
qed simp

lemma stream_length_spec:
  assumes "chain (nxt s) cur ps" "ps \<noteq> []" "pages_ok s ps" "acc + length (chain_bytes s ps) < 4294967296"
  shows "stream_length s cur acc = Some (acc + length (chain_bytes s ps))"
  using assms
proof (induction ps arbitrary: cur acc)
  case (Cons p ps)
  note nx = chain_next [OF Cons.prems(1,3)]
  have w: "wrap32 (acc + cursor (mem s p)) = acc + cursor (mem s p)" using Cons.prems(4) by simp
  show ?case
  proof (cases "ps = []")
    case True
    then show ?thesis by (simp add: stream_length.simps [of s p] nx w)
  next
    case False
    then have "stream_length s cur acc = stream_length s (nxt s p) (acc + cursor (mem s p))" by (subst stream_length.simps) (simp add: nx w)
    then show ?thesis using Cons.IH [OF nx(3) False nx(4), of "acc + cursor (mem s p)"] Cons.prems(4) by simp
  qed
qed simp

text \<open>The pages of a region hold less than 4 GiB, so no sum of cursors wraps.\<close>

lemma chain_bytes_bound:
  assumes "distinct ps" "\<forall>p \<in> set ps. PAGE_SIZE dvd p \<and> p < 4294967296 \<and> cursor (mem s p) \<le> PAGE_DATA_SIZE"
  shows "length (chain_bytes s ps) < 4294967296"
proof -
  have "inj_on (\<lambda>p. p div PAGE_SIZE) (set ps)" using assms(2) by (auto intro!: inj_onI) (metis dvd_div_mult_self)
  then have "card (set ps) = card ((\<lambda>p. p div PAGE_SIZE) ` set ps)" by (simp add: card_image)
  also have "\<dots> \<le> card {..<1048576 :: nat}" by (rule card_mono) (use assms(2) in \<open>auto simp: layout_consts PAGE_SIZE_def KIB_def\<close>)
  finally have n: "length ps \<le> 1048576" using distinct_card [OF assms(1)] by simp
  have "length (chain_bytes s ps) \<le> length ps * PAGE_DATA_SIZE" using assms(2) by (induction ps) (auto simp: add_mono)
  also have "\<dots> \<le> 1048576 * PAGE_DATA_SIZE" using n by (rule mult_le_mono1)
  also have "\<dots> < 4294967296" by (simp add: layout_consts)
  finally show ?thesis .
qed

text \<open>The framed bytes of a slot.\<close>

definition slot_bytes :: "stream_record list \<Rightarrow> byte list" where
  "slot_bytes rs = concat (map encode_record rs)"

lemma complete_slot_bytes: "complete bs \<Longrightarrow> bs = slot_bytes (parse_records bs) \<and> list_all wf_record (parse_records bs)"
proof -
  assume "complete bs"
  then obtain rs where "list_all wf_record rs" "bs = concat (map encode_record rs)" by (auto simp: complete_def)
  then show ?thesis using parse_records_concat [of rs "[]"] by (simp add: slot_bytes_def)
qed

lemma slot_pages:
  assumes "chains s C"
  shows "chain (nxt s) (get_head sl s) (C sl)" "pages_ok s (C sl)" "length (chain_bytes s (C sl)) < 4294967296"
    "wrap32 (get_head sl s) = get_head sl s" "get_head sl s = 0 \<longleftrightarrow> C sl = []"
    "chain_bytes s (C sl) = slot_bytes (parse_records (chain_bytes s (C sl)))"
proof -
  have c: "guest_inv s" "slot_chain s sl (C sl)" "set (C sl) \<inter> avail s = {}" "complete (chain_bytes s (C sl))"
    "\<And>p. p \<in> set (C sl) \<Longrightarrow> PAGE_SIZE dvd p"
    using assms by (auto simp: chains_def)
  show ch: "chain (nxt s) (get_head sl s) (C sl)" using c(2) by (simp add: slot_chain_def)
  show "pages_ok s (C sl)" using taken_in_file [OF c(1)] c(3,5) by (auto simp: pages_ok_def)
  show "length (chain_bytes s (C sl)) < 4294967296"
    by (rule chain_bytes_bound) (use c(2,5) chain_distinct [OF ch] in \<open>auto simp: slot_chain_def\<close>)
  show "wrap32 (get_head sl s) = get_head sl s" by (rule start_reader_ok(3) [OF assms])
  show "get_head sl s = 0 \<longleftrightarrow> C sl = []" using chain_hd [OF ch] path_nonnull [OF ch] by (cases "C sl") auto
  show "chain_bytes s (C sl) = slot_bytes (parse_records (chain_bytes s (C sl)))" using complete_slot_bytes [OF c(4)] by simp
qed

text \<open>A region with one record, for the witnesses.\<close>

lemma one_record:
  "\<exists>s. append_slot_data (Stream 3) [7, 8, 9] format_shared_memory = Inr s \<and> stores s ((\<lambda>_. [])(Stream 3 := [(3, [7, 8, 9])]))"
proof -
  have p: "slot_in_range (Stream 3)" "pages_for (length [7 :: byte, 8, 9]) = 1" by (simp_all add: pages_for_def layout_consts)
  obtain s where s: "append_slot_data (Stream 3) [7, 8, 9] format_shared_memory = Inr s"
    using append_slot_data_total [OF stores_format p(1), of "[7, 8, 9]"] p(2) by (auto simp: bump_room_format)
  then show ?thesis using append_slot_data_stores [OF stores_format s] by simp
qed

lemma one_record_bytes: "slot_bytes [(3, [7, 8, 9])] = [3, 0, 0, 0, 3, 0, 0, 0, 7, 8, 9]"
  by (simp add: slot_bytes_def encode_record_def frame_def to_le_bytes32_def)

lemma stored_head: "stores s R \<Longrightarrow> R (Stream i) \<noteq> [] \<Longrightarrow> writer_heads s i \<noteq> 0"
  unfolding stores_def by (metis slot_pages(5) chain_bytes_Nil parse_records_Nil get_head.simps(1))

section \<open>Properties\<close>



lemma same_but_data_inv:
  assumes "same_but_data s t P" "guest_inv s" "P \<inter> avail s = {}"
  shows "guest_inv t \<and> avail t = avail s"
proof (rule guest_inv_cong [OF assms(2)])
  obtain f where "t = s\<lparr>mem := \<lambda>q. (mem s q)\<lparr>data := f q\<rparr>\<rparr>" using assms(1) by (auto simp: same_but_data_def)
  then show "bump_allocator t = bump_allocator s" "global_capacity t = global_capacity s" "local_capacity t = local_capacity s"
    "free_list_heads t = free_list_heads s" by simp_all
  show "mem t q = mem s q" if "q \<in> avail s" for q using same_but_dataD(4) [OF assms(1), of q] assms(3) that by blast
qed

text \<open>
  C22. Overwriting in place. A write that fits into the bytes of a stream slot reports success and
  changes exactly those bytes: the region stores the records that the new bytes spell, when they still
  spell complete records, and every other slot keeps its records.
\<close>

theorem range_write_overwrites:
  assumes "stores s R" "i < STREAM_SLOT_COUNT" "off + length dat \<le> length (slot_bytes (R (Stream i)))"
    "list_all wf_record rs" "slot_bytes rs = take off (slot_bytes (R (Stream i))) @ dat @ drop (off + length dat) (slot_bytes (R (Stream i)))"
  shows "\<exists>t. write_stream_range i off dat s = Some (Inr (True, t)) \<and> stores t (R(Stream i := rs))"
proof -
  obtain C where C: "chains s C" and R: "\<And>sl. R sl = parse_records (chain_bytes s (C sl))" using assms(1) by (auto simp: stores_def)
  note sp = slot_pages [OF C, of "Stream i"]
  let ?ps = "C (Stream i)"
  let ?bs = "chain_bytes s ?ps"
  have B: "slot_bytes (R (Stream i)) = ?bs" using sp(6) by (simp add: R)
  show ?thesis
  proof (cases "dat = []")
    case True
    then have "slot_bytes rs = slot_bytes (R (Stream i))" using assms(5) by simp
    then have "rs = R (Stream i)" using parse_records_concat [OF assms(4), of "[]"] complete_slot_bytes sp(6) C R
      by (metis B append_Nil2 slot_bytes_def parse_records_Nil)
    then show ?thesis using True assms(1) by (simp add: write_stream_range_def)
  next
    case False
    then have ne: "?ps \<noteq> []" using assms(3) unfolding B by auto
    have "\<exists>t. write_range_loop off dat (get_head (Stream i) s) 0 0 s = Some (min (length dat) (0 + length ?bs - off), t)
      \<and> same_but_data s t (set ?ps) \<and> chain_bytes t ?ps = overwrite ?bs off dat"
      by (rule write_range_loop_spec) (use sp ne assms(3) B in simp_all)
    then obtain t where t: "write_range_loop off dat (get_head (Stream i) s) 0 0 s = Some (length dat, t)"
      "same_but_data s t (set ?ps)" "chain_bytes t ?ps = slot_bytes rs"
      using assms(3,5) unfolding B by (auto simp: overwrite_within)
    note sD = same_but_dataD [OF t(2)]
    have c: "guest_inv s" "\<And>sl. slot_chain s sl (C sl)" "\<And>sl. set (C sl) \<inter> avail s = {}" "\<And>sl. complete (chain_bytes s (C sl))"
      "\<And>sl sl'. sl \<noteq> sl' \<Longrightarrow> set (C sl) \<inter> set (C sl') = {}" using C by (auto simp: chains_def)
    have other: "chain_bytes t (C sl) = chain_bytes s (C sl)" if "sl \<noteq> Stream i" for sl
      by (rule chain_bytes_cong) (use sD(4) c(5) [OF that] in blast)
    have sc: "slot_chain t sl (C sl)" for sl using c(2) [of sl] sD by (simp add: slot_chain_def)
    have "complete (chain_bytes t (C sl))" for sl
      using other [of sl] c(4) [of sl] t(3) assms(4) by (cases "sl = Stream i") (auto simp: complete_def slot_bytes_def)
    then have "chains t C" using C sc same_but_data_inv [OF t(2) c(1) c(3)] by (simp add: chains_def)
    moreover have "(R(Stream i := rs)) sl = parse_records (chain_bytes t (C sl))" for sl
      using other [of sl] t(3) parse_records_concat [OF assms(4), of "[]"] by (cases "sl = Stream i") (simp_all add: R slot_bytes_def)
    ultimately have "stores t (R(Stream i := rs))" unfolding stores_def by blast
    then show ?thesis using t(1) False assms(2) sp(4,5) ne by (simp add: write_stream_range_def)
  qed
qed

theorem range_write_overwrites_witness:
  "\<exists>s t. append_slot_data (Stream 3) [7, 8, 9] format_shared_memory = Inr s
     \<and> write_stream_range 3 9 [5] s = Some (Inr (True, t)) \<and> stores t ((\<lambda>_. [])(Stream 3 := [(3, [7, 5, 9])]))"
proof -
  obtain s where s: "append_slot_data (Stream 3) [7, 8, 9] format_shared_memory = Inr s" "stores s ((\<lambda>_. [])(Stream 3 := [(3, [7, 8, 9])]))"
    using one_record by blast
  have i: "3 < STREAM_SLOT_COUNT" by (simp add: layout_consts)
  have b: "slot_bytes [(3, [7, 5, 9])] = [3, 0, 0, 0, 3, 0, 0, 0, 7, 5, 9]"
    by (simp add: slot_bytes_def encode_record_def frame_def to_le_bytes32_def)
  show ?thesis
    using range_write_overwrites [OF s(2) i, of 9 "[5]" "[(3, [7, 5, 9])]"] s(1) by (auto simp: one_record_bytes b wf_record_def)
qed

text \<open>
  C25. Seeking. A seek on a stream slot panics exactly on a slot index out of range, answers none exactly
  when the slot has no page or the target lies before the start or behind the end of the
  bytes written, and otherwise answers the target.
\<close>

theorem lseek_exact:
  assumes "stores s R"
  shows "lseek_stream i current_pos whence s =
    (let target = seek_target whence current_pos (length (slot_bytes (R (Stream i)))) in
     if STREAM_SLOT_COUNT \<le> i then Some (Inl (SlotOutOfRange i))
     else if writer_heads s i = 0 \<or> target < 0 \<or> int (length (slot_bytes (R (Stream i)))) < target then Some (Inr None)
     else Some (Inr (Some (nat target))))"
proof -
  obtain C where C: "chains s C" and R: "\<And>sl. R sl = parse_records (chain_bytes s (C sl))" using assms(1) by (auto simp: stores_def)
  note sp = slot_pages [OF C, of "Stream i"]
  have B: "slot_bytes (R (Stream i)) = chain_bytes s (C (Stream i))" using sp(6) by (simp add: R)
  show ?thesis
  proof (cases "C (Stream i) = []")
    case True
    then show ?thesis using sp by (simp add: lseek_stream_def Let_def)
  next
    case False
    then have "stream_length s (writer_heads s i) 0 = Some (length (slot_bytes (R (Stream i))))"
      using stream_length_spec [OF sp(1) False sp(2), of 0] sp(3) B by simp
    moreover have "length (slot_bytes (R (Stream i))) < 4294967296" using sp(3) B by simp
    ultimately show ?thesis using sp(4,5) False by (auto simp: lseek_stream_def seek_within_def Let_def nat_less_iff zless_nat_eq_int_zless)
  qed
qed

theorem lseek_exact_witness:
  "\<exists>s. append_slot_data (Stream 3) [7, 8, 9] format_shared_memory = Inr s
     \<and> lseek_stream 3 0 (SeekEnd (- 3)) s = Some (Inr (Some 8)) \<and> lseek_stream 3 0 (SeekEnd 1) s = Some (Inr None)
     \<and> lseek_stream 5000000 0 (SeekStart 0) s = Some (Inl (SlotOutOfRange 5000000))"
proof -
  obtain s where s: "append_slot_data (Stream 3) [7, 8, 9] format_shared_memory = Inr s" "stores s ((\<lambda>_. [])(Stream 3 := [(3, [7, 8, 9])]))"
    using one_record by blast
  have "writer_heads s 3 \<noteq> 0" using stored_head [OF s(2), of 3] by simp
  moreover have "\<not> STREAM_SLOT_COUNT \<le> 3" "STREAM_SLOT_COUNT \<le> 5000000" by (simp_all add: layout_consts)
  ultimately show ?thesis
    using s(1) lseek_exact [OF s(2), of 3 0 "SeekEnd (- 3)"] lseek_exact [OF s(2), of 3 0 "SeekEnd 1"]
      lseek_exact [OF s(2), of 5000000 0 "SeekStart 0"] by (auto simp: one_record_bytes Let_def)
qed

end
