(* ===== verification/Registry.thy ===== *)
theory Registry
  imports Reclaimer Stream_Range Json
begin

text \<open>
  The registry of named entries and the atomics they index: \<open>host_resolve_atomic\<close> of
  \<open>host/src/runtime/worker.rs\<close>, the guest's name cache and named atomics
  (\<open>guest/src/api/atomic_arena.rs\<close>, \<open>shared_area.rs\<close>), the record cursors built on them
  (\<open>read_next_stream_record\<close>, \<open>read_next_io_record\<close>) and their reset by the reclaimer. The lock around the
  registry makes a resolution one step; a lock that is never released is the error \<open>Spin\<close>.
\<close>

section \<open>Operations\<close>

record registry_entry =
  re_name :: string
  re_index :: nat
  re_payload_offset :: nat
  re_payload_len :: nat

text \<open>The region with its registry and atomic arena, and the name cache of the guest at work.\<close>

record arena = host +
  registry :: "nat \<Rightarrow> registry_entry"
  atomics :: "nat \<Rightarrow> nat"
  name_cache :: "string \<Rightarrow> nat option"

definition REGISTRY_ENTRIES :: nat where
  "REGISTRY_ENTRIES = REGISTRY_SIZE div c_sizeof registry_entry_fields"

text \<open>The 52-byte name field: cut or filled with zero bytes.\<close>

definition entry_name :: "string \<Rightarrow> string" where
  "entry_name name = take 52 name @ replicate (52 - length name) (CHR 0x00)"

definition find_entry :: "string \<Rightarrow> 'a arena_scheme \<Rightarrow> nat option" where
  "find_entry key s = map_option (\<lambda>i. re_index (registry s i)) (find (\<lambda>i. re_name (registry s i) = key) [0..<next_atomic_idx s])"

definition host_resolve_atomic :: "string \<Rightarrow> 'a arena_scheme \<Rightarrow> err + nat \<times> 'a arena_scheme" where
  "host_resolve_atomic name s =
     (if registry_lock s \<noteq> 0 then Inl Spin
      else let key = entry_name name;
               current_count = next_atomic_idx s;
               result_index = (case find_entry key s of Some i \<Rightarrow> i | None \<Rightarrow> u32_max)
           in if result_index \<noteq> u32_max then Inr (result_index, s)
              else if REGISTRY_ENTRIES \<le> current_count then Inl (ArenaOverrun current_count)
              else Inr (current_count,
                     s\<lparr>registry := (registry s)(current_count :=
                          \<lparr>re_name = key, re_index = current_count, re_payload_offset = 0, re_payload_len = 0\<rparr>),
                       next_atomic_idx := wrap32 (current_count + 1)\<rparr>))"

definition resolve_name_to_index :: "string \<Rightarrow> 'a arena_scheme \<Rightarrow> err + nat \<times> 'a arena_scheme" where
  "resolve_name_to_index name s =
     (case name_cache s name of
        Some idx \<Rightarrow> Inr (idx, s)
      | None \<Rightarrow> (case host_resolve_atomic name s of
                   Inl e \<Rightarrow> Inl e
                 | Inr (idx, t) \<Rightarrow> Inr (idx, t\<lparr>name_cache := (name_cache t)(name \<mapsto> idx)\<rparr>)))"

text \<open>A named atomic is the atomic at the index of its name.\<close>

definition get_named_atomic :: "string \<Rightarrow> 'a arena_scheme \<Rightarrow> err + nat \<times> 'a arena_scheme" where
  "get_named_atomic = resolve_name_to_index"

fun cursor_name :: "slot \<Rightarrow> string" where
  "cursor_name (Stream i) = ''stream_cursor_'' @ show_nat i"
| "cursor_name (Io i) = ''io_cursor_'' @ show_nat i"

text \<open>\<open>read_next_stream_record\<close> and \<open>read_next_io_record\<close>; the atomic is read as a 32-bit \<open>usize\<close>.\<close>

definition read_next_record ::
  "slot \<Rightarrow> 'a arena_scheme \<Rightarrow> (err + stream_record option \<times> 'a arena_scheme) option" where
  "read_next_record sl s =
     (case get_named_atomic (cursor_name sl) s of
        Inl e \<Rightarrow> Some (Inl e)
      | Inr (a, s1) \<Rightarrow>
          (let idx = wrap32 (atomics s1 a) in
           case read_all_records sl s1 of
             None \<Rightarrow> None
           | Some (Inl e) \<Rightarrow> Some (Inl e)
           | Some (Inr (records, s2)) \<Rightarrow>
               if length records \<le> idx then Some (Inr (None, s2))
               else Some (Inr (Some (records ! idx),
                      s2\<lparr>atomics := (atomics s2)(a := (atomics s2 a + 1) mod 18446744073709551616)\<rparr>))))"

definition read_next_stream_record where
  "read_next_stream_record i = read_next_record (Stream i)"

definition read_next_io_record where
  "read_next_io_record i = read_next_record (Io i)"

definition reset_slot_cursor :: "slot \<Rightarrow> 'a arena_scheme \<Rightarrow> err + 'a arena_scheme" where
  "reset_slot_cursor sl s =
     (if registry_lock s \<noteq> 0 then Inl Spin
      else case find_entry (entry_name (cursor_name sl)) s of
             None \<Rightarrow> Inr s
           | Some idx \<Rightarrow> Inr (s\<lparr>atomics := (atomics s)(idx := 0)\<rparr>))"

section \<open>The registry invariant\<close>

text \<open>
  Entry \<open>i\<close> carries index \<open>i\<close>, names are distinct, cached indices name their entry, and the
  atomics that no name has claimed are zero.
\<close>

definition reg_inv :: "'a arena_scheme \<Rightarrow> bool" where
  "reg_inv s \<longleftrightarrow> registry_lock s = 0 \<and> next_atomic_idx s \<le> REGISTRY_ENTRIES
     \<and> (\<forall>i < next_atomic_idx s. re_index (registry s i) = i)
     \<and> inj_on (\<lambda>i. re_name (registry s i)) {..<next_atomic_idx s}
     \<and> (\<forall>name i. name_cache s name = Some i \<longrightarrow> i < next_atomic_idx s \<and> re_name (registry s i) = entry_name name)
     \<and> (\<forall>i \<ge> next_atomic_idx s. atomics s i = 0)"

lemma REGISTRY_ENTRIES: "REGISTRY_ENTRIES = 16384"
  by (simp add: REGISTRY_ENTRIES_def registry_entry_fields_def c_sizeof_def round_up_def layout_consts)

lemma find_entry_eq:
  assumes "reg_inv s"
  shows "find_entry key s = Some i \<longleftrightarrow> i < next_atomic_idx s \<and> re_name (registry s i) = key"
    "find_entry key s = None \<longleftrightarrow> (\<forall>i < next_atomic_idx s. re_name (registry s i) \<noteq> key)"
proof -
  have inj: "inj_on (\<lambda>i. re_name (registry s i)) {..<next_atomic_idx s}" "\<And>i. i < next_atomic_idx s \<Longrightarrow> re_index (registry s i) = i"
    using assms by (auto simp: reg_inv_def)
  show n: "find_entry key s = None \<longleftrightarrow> (\<forall>i < next_atomic_idx s. re_name (registry s i) \<noteq> key)"
    by (auto simp: find_entry_def find_None_iff)
  have f: "j < next_atomic_idx s \<and> re_name (registry s j) = key" if "find_entry key s = Some j" for j
    using that inj(2) by (auto simp: find_entry_def find_Some_iff)
  show "find_entry key s = Some i \<longleftrightarrow> i < next_atomic_idx s \<and> re_name (registry s i) = key"
  proof
    assume i: "i < next_atomic_idx s \<and> re_name (registry s i) = key"
    then obtain j where j: "find_entry key s = Some j" using n by (cases "find_entry key s") auto
    then show "find_entry key s = Some i" using f [OF j] i inj_onD [OF inj(1), of i j] by auto
  qed (rule f)
qed

text \<open>What a resolution promises: the index of the name, and every other entry and atomic kept.\<close>

definition resolved :: "string \<Rightarrow> 'a arena_scheme \<Rightarrow> nat \<Rightarrow> 'a arena_scheme \<Rightarrow> bool" where
  "resolved name s i t \<longleftrightarrow> reg_inv t \<and> i < next_atomic_idx t \<and> re_name (registry t i) = entry_name name
     \<and> next_atomic_idx s \<le> next_atomic_idx t
     \<and> (next_atomic_idx t = next_atomic_idx s \<or> i = next_atomic_idx s \<and> next_atomic_idx t = Suc (next_atomic_idx s))
     \<and> (\<forall>k < next_atomic_idx s. registry t k = registry s k)
     \<and> (\<exists>r n c. t = s\<lparr>registry := r, next_atomic_idx := n, name_cache := c\<rparr>)"

lemma arena_update_id [simp]: "s\<lparr>registry := registry s, next_atomic_idx := next_atomic_idx s, name_cache := name_cache s\<rparr> = s"
  by simp

lemma host_resolve_spec:
  assumes i: "reg_inv s" and r: "host_resolve_atomic name s = Inr (k, t)"
  shows "resolved name s k t" "name_cache t = name_cache s"
proof -
  have l: "registry_lock s = 0" "next_atomic_idx s \<le> REGISTRY_ENTRIES" using i by (auto simp: reg_inv_def)
  have small: "find_entry key s \<noteq> Some u32_max" for key using find_entry_eq(1) [OF i] l(2) by (auto simp: REGISTRY_ENTRIES u32_max_def)
  show "resolved name s k t" "name_cache t = name_cache s"
  proof (atomize (full), cases "find_entry (entry_name name) s")
    case (Some j)
    then have "k = j" "t = s" using r l small [of "entry_name name"] by (auto simp: host_resolve_atomic_def Let_def split: if_splits)
    moreover have "\<exists>r n c. s = s\<lparr>registry := r, next_atomic_idx := n, name_cache := c\<rparr>" using arena_update_id [of s] by metis
    ultimately show "resolved name s k t \<and> name_cache t = name_cache s"
      using Some i by (simp add: resolved_def find_entry_eq(1) [OF i])
  next
    case None
    define e where "e = \<lparr>re_name = entry_name name, re_index = next_atomic_idx s, re_payload_offset = 0, re_payload_len = 0\<rparr>"
    have c: "next_atomic_idx s < REGISTRY_ENTRIES" and k: "k = next_atomic_idx s"
      and t: "t = s\<lparr>registry := (registry s)(next_atomic_idx s := e), next_atomic_idx := wrap32 (next_atomic_idx s + 1)\<rparr>"
      using r l None by (auto simp: host_resolve_atomic_def e_def Let_def split: if_splits)
    have w: "wrap32 (next_atomic_idx s + 1) = Suc (next_atomic_idx s)" using c by (simp add: REGISTRY_ENTRIES)
    have w': "wrap32 (Suc (next_atomic_idx s)) = Suc (next_atomic_idx s)" using w by simp
    have new: "\<forall>i < next_atomic_idx s. re_name (registry s i) \<noteq> entry_name name" using None find_entry_eq(2) [OF i] by simp
    have "inj_on (\<lambda>i. re_name (registry t i)) {..<next_atomic_idx t}"
      using i new unfolding reg_inv_def t w by (auto simp: inj_on_def e_def less_Suc_eq)
    then have "reg_inv t" using i c unfolding reg_inv_def t w by (auto simp: e_def less_Suc_eq)
    moreover have "\<exists>r n c. t = s\<lparr>registry := r, next_atomic_idx := n, name_cache := c\<rparr>" unfolding t by (intro exI) (rule arena.equality; simp)
    ultimately show "resolved name s k t \<and> name_cache t = name_cache s"
      unfolding resolved_def by (simp add: t k w' e_def)
  qed
qed

lemma resolve_spec:
  assumes i: "reg_inv s" and r: "resolve_name_to_index name s = Inr (k, t)"
  shows "resolved name s k t"
proof (cases "name_cache s name")
  case (Some j)
  then have "k = j" "t = s" using r by (simp_all add: resolve_name_to_index_def)
  moreover have "j < next_atomic_idx s" "re_name (registry s j) = entry_name name" using i Some by (auto simp: reg_inv_def)
  moreover have "\<exists>r n c. s = s\<lparr>registry := r, next_atomic_idx := n, name_cache := c\<rparr>" using arena_update_id [of s] by metis
  ultimately show ?thesis using i by (simp add: resolved_def)
next
  case None
  then obtain u where u: "host_resolve_atomic name s = Inr (k, u)" "t = u\<lparr>name_cache := (name_cache u)(name \<mapsto> k)\<rparr>"
    using r by (auto simp: resolve_name_to_index_def split: sum.splits)
  note h = host_resolve_spec [OF i u(1)]
  obtain rr n c where "u = s\<lparr>registry := rr, next_atomic_idx := n, name_cache := c\<rparr>" using h(1) by (auto simp: resolved_def)
  then have "\<exists>rr n c. t = s\<lparr>registry := rr, next_atomic_idx := n, name_cache := c\<rparr>" unfolding u(2) by (intro exI) simp
  moreover have "reg_inv t" using h(1) unfolding u(2) resolved_def by (auto simp: reg_inv_def)
  ultimately show ?thesis using h unfolding u(2) by (simp add: resolved_def)
qed

text \<open>A resolution fails only when the registry is full.\<close>

lemma resolve_total:
  assumes i: "reg_inv s" and c: "next_atomic_idx s < REGISTRY_ENTRIES"
  shows "\<exists>k t. resolve_name_to_index name s = Inr (k, t)"
  using assms by (auto simp: resolve_name_to_index_def host_resolve_atomic_def reg_inv_def Let_def split: option.splits)

section \<open>Sequences of resolutions\<close>

fun resolve_all :: "string list \<Rightarrow> 'a arena_scheme \<Rightarrow> err + nat list \<times> 'a arena_scheme" where
  "resolve_all [] s = Inr ([], s)"
| "resolve_all (n # ns) s =
     (case resolve_name_to_index n s of
        Inl e \<Rightarrow> Inl e
      | Inr (i, t) \<Rightarrow> (case resolve_all ns t of Inl e \<Rightarrow> Inl e | Inr (js, u) \<Rightarrow> Inr (i # js, u)))"

lemma resolve_all_spec:
  assumes "reg_inv s" "resolve_all ns s = Inr (ks, t)"
  shows "reg_inv t \<and> length ks = length ns \<and> next_atomic_idx s \<le> next_atomic_idx t
    \<and> (\<forall>k < next_atomic_idx s. registry t k = registry s k)
    \<and> (\<forall>j < length ns. ks ! j < next_atomic_idx t \<and> re_name (registry t (ks ! j)) = entry_name (ns ! j))"
  using assms
proof (induction ns arbitrary: s ks)
  case (Cons n ns)
  then obtain i u js where u: "resolve_name_to_index n s = Inr (i, u)" "resolve_all ns u = Inr (js, t)" "ks = i # js"
    by (auto split: sum.splits)
  note r = resolve_spec [OF Cons.prems(1) u(1)]
  have ru: "reg_inv u" "i < next_atomic_idx u" "re_name (registry u i) = entry_name n" "next_atomic_idx s \<le> next_atomic_idx u"
    "\<forall>k < next_atomic_idx s. registry u k = registry s k" using r by (auto simp: resolved_def)
  from Cons.IH [OF ru(1) u(2)] ru(2-5) u(3) show ?case by (auto simp: nth_Cons split: nat.split)
qed simp

lemma resolve_all_total:
  "reg_inv s \<Longrightarrow> next_atomic_idx s + length ns \<le> REGISTRY_ENTRIES \<Longrightarrow> \<exists>ks t. resolve_all ns s = Inr (ks, t)"
proof (induction ns arbitrary: s)
  case (Cons n ns)
  have "next_atomic_idx s < REGISTRY_ENTRIES" using Cons.prems(2) by simp
  then obtain i u where u: "resolve_name_to_index n s = Inr (i, u)" using resolve_total [OF Cons.prems(1)] by blast
  have "reg_inv u" "next_atomic_idx u \<le> Suc (next_atomic_idx s)" using resolve_spec [OF Cons.prems(1) u] by (auto simp: resolved_def)
  then obtain ks t where "resolve_all ns u = Inr (ks, t)" using Cons.IH [of u] Cons.prems(2) by auto
  then show ?case using u by simp
qed simp

section \<open>Record cursors\<close>

text \<open>The value of the cursor of a slot: zero until its name is registered.\<close>

definition cursor_pos :: "'a arena_scheme \<Rightarrow> slot \<Rightarrow> nat" where
  "cursor_pos s sl = (case find_entry (entry_name (cursor_name sl)) s of Some i \<Rightarrow> atomics s i | None \<Rightarrow> 0)"

lemma show_nat_length: "n < 10 ^ Suc k \<Longrightarrow> length (show_nat n) \<le> Suc k"
proof (induction k arbitrary: n)
  case 0
  then show ?case by (subst show_nat.simps) simp
next
  case (Suc k)
  have "n div 10 < 10 ^ Suc k" using Suc.prems by (simp add: less_mult_imp_div_less)
  then show ?case using Suc.IH [of "n div 10"] by (subst show_nat.simps) simp
qed

lemma entry_name_inj:
  assumes "length a \<le> 52" "length b \<le> 52" "CHR 0x00 \<notin> set a" "CHR 0x00 \<notin> set b" "entry_name a = entry_name b"
  shows "a = b"
proof -
  have t: "takeWhile (\<lambda>c. c \<noteq> CHR 0x00) (entry_name x) = x" if "length x \<le> 52" "CHR 0x00 \<notin> set x" for x
  proof -
    have "takeWhile (\<lambda>c. c \<noteq> CHR 0x00) (x @ replicate n (CHR 0x00)) = x" for n
      using that(2) by (cases n) (auto simp: takeWhile_append takeWhile_eq_all_conv)
    then show ?thesis using that(1) by (simp add: entry_name_def)
  qed
  show ?thesis by (metis t assms)
qed

lemma cursor_name_facts:
  assumes "slot_in_range sl"
  shows "length (cursor_name sl) \<le> 52" "CHR 0x00 \<notin> set (cursor_name sl)"
proof -
  have n: "slot_index sl < 10 ^ Suc 4" using assms by (cases sl) (simp_all add: layout_consts)
  then show "length (cursor_name sl) \<le> 52" using show_nat_length [OF n] by (cases sl) simp_all
  have "CHR 0x00 \<notin> set (show_nat (slot_index sl))" using show_nat_digits [of "CHR 0x00" "slot_index sl"] by (auto simp: is_digit_def)
  then show "CHR 0x00 \<notin> set (cursor_name sl)" by (cases sl) simp_all
qed

lemma cursor_name_inj: "cursor_name a = cursor_name b \<longleftrightarrow> a = b"
  by (cases a; cases b) (auto simp: show_nat_inj)

lemma cursor_entry_inj:
  "slot_in_range a \<Longrightarrow> slot_in_range b \<Longrightarrow> entry_name (cursor_name a) = entry_name (cursor_name b) \<longleftrightarrow> a = b"
  using entry_name_inj cursor_name_facts cursor_name_inj by metis

lemma resolved_find:
  assumes "reg_inv s" "resolved name s i t"
  shows "find_entry (entry_name name) t = Some i"
    "key \<noteq> entry_name name \<Longrightarrow> find_entry key t = find_entry key s"
proof -
  have t: "reg_inv t" "i < next_atomic_idx t" "re_name (registry t i) = entry_name name" "next_atomic_idx s \<le> next_atomic_idx t"
    "\<And>k. k < next_atomic_idx s \<Longrightarrow> registry t k = registry s k" using assms(2) by (auto simp: resolved_def)
  show f: "find_entry (entry_name name) t = Some i" using find_entry_eq(1) [OF t(1)] t(2,3) by simp
  assume k: "key \<noteq> entry_name name"
  have "find_entry key t = Some j \<longleftrightarrow> find_entry key s = Some j" for j
  proof -
    have "j < next_atomic_idx s" if "j < next_atomic_idx t" "re_name (registry t j) = key"
      using assms(2) k that unfolding resolved_def by (metis less_Suc_eq)
    then show ?thesis unfolding find_entry_eq(1) [OF t(1)] find_entry_eq(1) [OF assms(1)] using t(4,5) by auto
  qed
  then show "find_entry key t = find_entry key s" by (metis option.exhaust)
qed

text \<open>
  A reading of the state that no write of the slot operations can change: the operations keep it.
\<close>

locale region_frame =
  fixes f :: "'s shm_scheme \<Rightarrow> 'b"
  assumes frame [simp]: "f (s\<lparr>alloc_shard := a\<rparr>) = f s" "f (s\<lparr>bump_allocator := b\<rparr>) = f s" "f (s\<lparr>local_capacity := c\<rparr>) = f s"
      "f (s\<lparr>global_capacity := d\<rparr>) = f s" "f (s\<lparr>free_list_heads := g\<rparr>) = f s" "f (s\<lparr>mem := m\<rparr>) = f s"
      "f (s\<lparr>writer_heads := g\<rparr>) = f s" "f (s\<lparr>writer_tails := g\<rparr>) = f s" "f (s\<lparr>io_heads := g\<rparr>) = f s" "f (s\<lparr>io_tails := g\<rparr>) = f s"
begin

lemma bump_keeps: "bump_allocate s = Inr (p, t) \<Longrightarrow> f t = f s"
proof (induction s rule: bump_allocate.induct)
  case (1 s)
  show ?case using "1.prems" by (subst (asm) bump_allocate.simps) (use "1.IH" in \<open>auto split: if_splits\<close>)
qed

lemma scan_keeps: "scan_shards js s = Some (Inr (p, t)) \<Longrightarrow> f t = f s"
  by (induction js) (auto simp: Let_def pop_page_def split: if_splits)

lemma alloc_keeps: "try_allocate_page s = Inr (p, t) \<Longrightarrow> f t = f s"
  by (auto simp: try_allocate_page_def Let_def split: option.splits dest!: bump_keeps scan_keeps)

lemma writes_keep [simp]:
  "f (set_head sl v s) = f s" "f (set_tail sl v s) = f s" "f (upd_page p u s) = f s"
  by (cases sl; simp add: upd_page_def)+

lemma append_loop_keeps:
  "append_loop alloc sl tail dat s = Inr t \<Longrightarrow> (\<And>s p t. alloc s = Inr (p, t) \<Longrightarrow> f t = f s) \<Longrightarrow> f t = f s"
proof (induction alloc sl tail dat s rule: append_loop.induct)
  case (1 alloc sl tail dat s)
  show ?case using "1.prems"(1)
    by (subst (asm) append_loop.simps)
      (use "1.IH" "1.prems"(2) in \<open>auto split: if_splits sum.splits simp: link_page_def reset_page_def put_bytes_def\<close>)
qed

lemma append_with_keeps:
  assumes "append_with alloc sl dat s = Inr t" and a: "\<And>s p t. alloc s = Inr (p, t) \<Longrightarrow> f t = f s"
  shows "f t = f s"
proof (cases "wrap32 (get_tail sl s) = 0")
  case True
  then obtain p u where "alloc s = Inr (p, u)" "append_loop alloc sl p dat (set_tail sl p (set_head sl p (reset_page p u))) = Inr t"
    using assms(1) by (auto simp: append_with_def split: sum.splits)
  then show ?thesis using append_loop_keeps [OF _ a] a by (fastforce simp: reset_page_def)
next
  case False
  then show ?thesis using assms(1) append_loop_keeps [OF _ a] by (simp add: append_with_def)
qed

lemma append_all_keeps:
  assumes "\<And>s p t. alloc s = Inr (p, t) \<Longrightarrow> f t = f s"
  shows "append_all (append_with alloc sl) bs s = Inr t \<Longrightarrow> f t = f s"
  by (induction bs arbitrary: s) (auto split: sum.splits dest!: append_with_keeps [OF _ assms])

lemma append_keeps: "append_slot_data sl pl s = Inr t \<Longrightarrow> f t = f s"
  using append_all_keeps [OF alloc_keeps]
  by (simp add: append_slot_data_def chain_append_prefixed_def chain_append_raw_def split: if_splits)

end

interpretation reg: region_frame "\<lambda>s. (registry_lock s, next_atomic_idx s, registry s, atomics s, name_cache s)"
  by unfold_locales simp_all

lemma stores_frame:
  assumes "bump_allocator t = bump_allocator s" "global_capacity t = global_capacity s" "local_capacity t = local_capacity s"
    "free_list_heads t = free_list_heads s" "mem t = mem s" "writer_heads t = writer_heads s" "writer_tails t = writer_tails s" "io_heads t = io_heads s" "io_tails t = io_tails s"
  shows "stores t R = stores s R"
proof -
  have "get_head sl t = get_head sl s" "get_tail sl t = get_tail sl s" for sl using assms by (cases sl; simp)+
  note assms = assms this
  have "alloc_inv t = alloc_inv s" "avail t = avail s" "cap_ok t = cap_ok s"
    using assms by (simp_all add: alloc_inv_def bump_ok_def free_lists_def heap_page_def cap_ok_def avail_def free_pages_def)
  moreover have "slot_chain t sl ps = slot_chain s sl ps" "chain_bytes t ps = chain_bytes s ps" for sl ps
    using assms chain_bytes_cong [of ps t s] by (simp_all add: slot_chain_def)
  ultimately show ?thesis by (simp add: stores_def chains_def guest_inv_def)
qed

lemma resolved_keeps:
  assumes "resolved name s i t"
  shows "stores t R = stores s R" "bump_room t = bump_room s" "atomics t = atomics s" "mem t = mem s"
    "get_head sl t = get_head sl s" "get_tail sl t = get_tail sl s"
proof -
  obtain r n c where t: "t = s\<lparr>registry := r, next_atomic_idx := n, name_cache := c\<rparr>" using assms by (auto simp: resolved_def)
  have g: "get_head sl t = get_head sl s" "get_tail sl t = get_tail sl s" for sl by (cases sl; simp add: t)+
  then show "get_head sl t = get_head sl s" "get_tail sl t = get_tail sl s" by auto
  show "stores t R = stores s R" by (rule stores_frame) (simp_all add: t)
  show "bump_room t = bump_room s" "atomics t = atomics s" "mem t = mem s" by (simp_all add: t bump_room_def)
qed

text \<open>The value of a named atomic: zero until its name is registered.\<close>

definition named_value :: "'a arena_scheme \<Rightarrow> string \<Rightarrow> nat" where
  "named_value s name = (case find_entry (entry_name name) s of Some i \<Rightarrow> atomics s i | None \<Rightarrow> 0)"

lemma resolved_named:
  assumes i: "reg_inv s" and r: "resolved name s k t"
  shows "named_value t nm = named_value s nm"
proof (cases "entry_name nm = entry_name name")
  case True
  note ft = resolved_find(1) [OF i r]
  show ?thesis
  proof (cases "find_entry (entry_name name) s")
    case None
    then have "\<not> k < next_atomic_idx s" using r find_entry_eq(2) [OF i, of "entry_name name"] unfolding resolved_def by metis
    then have "atomics s k = 0" using i by (simp add: reg_inv_def)
    then show ?thesis using True ft None resolved_keeps(3) [OF r] by (simp add: named_value_def)
  next
    case (Some j)
    then have "j < next_atomic_idx s" "re_name (registry s j) = entry_name name" using find_entry_eq(1) [OF i] by auto
    then have "find_entry (entry_name name) t = Some j"
      using r find_entry_eq(1) [of t "entry_name name" j] unfolding resolved_def by auto
    then show ?thesis using True Some resolved_keeps(3) [OF r] by (simp add: named_value_def)
  qed
next
  case False
  then show ?thesis using resolved_find(2) [OF i r] resolved_keeps(3) [OF r] by (simp add: named_value_def split: option.split)
qed

lemma resolved_cursor:
  "reg_inv s \<Longrightarrow> resolved name s k t \<Longrightarrow> cursor_pos t sl = cursor_pos s sl"
  using resolved_named [where nm = "cursor_name sl"] by (simp add: cursor_pos_def named_value_def)

text \<open>One call of \<open>read_next_record\<close>.\<close>

definition advance :: "(slot \<Rightarrow> stream_record list) \<Rightarrow> slot \<Rightarrow> (slot \<Rightarrow> nat) \<Rightarrow> slot \<Rightarrow> nat" where
  "advance R sl pos = (if pos sl < length (R sl) then pos(sl := pos sl + 1) else pos)"

lemma stores_length: "stores s R \<Longrightarrow> length (R sl) < 4294967296"
proof -
  assume "stores s R"
  then obtain C where C: "chains s C" "R sl = parse_records (chain_bytes s (C sl))" by (auto simp: stores_def)
  have "length rs \<le> length (slot_bytes rs)" for rs
    by (induction rs) (auto simp: slot_bytes_def encode_record_def frame_def)
  from this [of "R sl"] slot_pages(3,6) [OF C(1), of sl] C(2) show ?thesis by simp
qed

lemma next_record_spec:
  assumes i: "reg_inv s" and st: "stores s R" and sl: "slot_in_range sl" and c: "next_atomic_idx s < REGISTRY_ENTRIES"
    and pos: "\<And>sl. slot_in_range sl \<Longrightarrow> cursor_pos s sl = pos sl" and le: "pos sl \<le> length (R sl)"
  shows "\<exists>t. read_next_record sl s = Some (Inr (if pos sl < length (R sl) then Some (R sl ! pos sl) else None, t))
    \<and> reg_inv t \<and> stores t R \<and> bump_room t = bump_room s \<and> next_atomic_idx t \<le> next_atomic_idx s + 1
    \<and> (\<forall>sl'. slot_in_range sl' \<longrightarrow> cursor_pos t sl' = advance R sl pos sl')"
proof -
  obtain a s1 where r: "resolve_name_to_index (cursor_name sl) s = Inr (a, s1)" using resolve_total [OF i c] by blast
  note rs = resolve_spec [OF i r]
  have i1: "reg_inv s1" and n1: "next_atomic_idx s1 \<le> next_atomic_idx s + 1" using rs by (auto simp: resolved_def)
  have f1: "find_entry (entry_name (cursor_name sl)) s1 = Some a" by (rule resolved_find(1) [OF i rs])
  have p1: "cursor_pos s1 sl' = pos sl'" if "slot_in_range sl'" for sl' using resolved_cursor [OF i rs] pos [OF that] by simp
  have at: "atomics s1 a = pos sl" using p1 [OF sl] f1 by (simp add: cursor_pos_def)
  have st1: "stores s1 R" using st resolved_keeps(1) [OF rs] by simp
  have w: "wrap32 (pos sl) = pos sl" "(pos sl + 1) mod 18446744073709551616 = pos sl + 1" using le stores_length [OF st, of sl] by simp_all
  obtain d where d: "read_all_records sl s1 = Some (Inr (R sl, s1\<lparr>local_capacity := d\<rparr>))" "stores (s1\<lparr>local_capacity := d\<rparr>) R"
    using chain_reads(1) [OF st1, of sl] sl by (auto simp: read_all_records_def at_slot_def reads_as_def)
  define s2 where "s2 = s1\<lparr>local_capacity := d\<rparr>"
  define t where "t = (if pos sl < length (R sl) then s2\<lparr>atomics := (atomics s2)(a := pos sl + 1)\<rparr> else s2)"
  have run: "read_next_record sl s = Some (Inr (if pos sl < length (R sl) then Some (R sl ! pos sl) else None, t))"
    using r d(1) at w by (simp add: read_next_record_def get_named_atomic_def s2_def t_def Let_def)
  have a: "a < next_atomic_idx s1" "re_name (registry s1 a) = entry_name (cursor_name sl)" using f1 find_entry_eq(1) [OF i1] by auto
  have it: "reg_inv t" using i1 a(1) by (auto simp: reg_inv_def t_def s2_def)
  have st2: "stores t R"
  proof -
    have "stores t R = stores s2 R" by (rule stores_frame) (simp_all add: t_def)
    then show ?thesis using d(2) by (simp add: s2_def)
  qed
  have ft: "find_entry key t = find_entry key s1" for key by (simp add: find_entry_def t_def s2_def)
  have "cursor_pos t sl' = advance R sl pos sl'" if sl': "slot_in_range sl'" for sl'
  proof (cases "sl' = sl")
    case True
    then show ?thesis unfolding cursor_pos_def ft using f1 at by (simp add: t_def s2_def advance_def)
  next
    case False
    have "find_entry (entry_name (cursor_name sl')) s1 \<noteq> Some a"
      using find_entry_eq(1) [OF i1] a(2) cursor_entry_inj [OF sl' sl] False by auto
    then show ?thesis using p1 [OF sl'] False unfolding cursor_pos_def ft by (auto simp: t_def s2_def advance_def split: option.splits)
  qed
  moreover have "bump_room t = bump_room s" "next_atomic_idx t \<le> next_atomic_idx s + 1"
    using resolved_keeps(2) [OF rs] n1 by (simp_all add: t_def s2_def bump_room_def)
  ultimately show ?thesis using run it st2 by blast
qed

section \<open>Cursors make queues\<close>

datatype queue_op = Push slot payload | Pop slot

fun run_queue :: "queue_op list \<Rightarrow> 'a arena_scheme \<Rightarrow> (err + stream_record option list \<times> 'a arena_scheme) option" where
  "run_queue [] s = Some (Inr ([], s))"
| "run_queue (Push sl pl # ops) s = (case append_slot_data sl pl s of Inl e \<Rightarrow> Some (Inl e) | Inr t \<Rightarrow> run_queue ops t)"
| "run_queue (Pop sl # ops) s =
     (case read_next_record sl s of
        None \<Rightarrow> None
      | Some (Inl e) \<Rightarrow> Some (Inl e)
      | Some (Inr (x, t)) \<Rightarrow> map_option (map_sum id (\<lambda>(xs, u). (x # xs, u))) (run_queue ops t))"

text \<open>The abstract queues: what was pushed to a slot and how many of it were taken.\<close>

fun spec_queue :: "queue_op list \<Rightarrow> (slot \<Rightarrow> stream_record list) \<Rightarrow> (slot \<Rightarrow> nat) \<Rightarrow> stream_record option list" where
  "spec_queue [] R pos = []"
| "spec_queue (Push sl pl # ops) R pos = spec_queue ops (R(sl := R sl @ [(slot_index sl, pl)])) pos"
| "spec_queue (Pop sl # ops) R pos =
     (if pos sl < length (R sl) then Some (R sl ! pos sl) else None) # spec_queue ops R (advance R sl pos)"

fun queue_op_ok :: "queue_op \<Rightarrow> bool" where
  "queue_op_ok (Push sl pl) \<longleftrightarrow> slot_in_range sl \<and> length pl < 4294967296"
| "queue_op_ok (Pop sl) \<longleftrightarrow> slot_in_range sl"

fun queue_op_pages :: "queue_op \<Rightarrow> nat" where
  "queue_op_pages (Push sl pl) = pages_for (length pl)"
| "queue_op_pages (Pop sl) = 0"

text \<open>A freshly formatted region with an empty registry.\<close>

definition fresh_arena :: arena where
  "fresh_arena = host.extend fresh_host (arena.fields
     (\<lambda>_. \<lparr>re_name = [], re_index = 0, re_payload_offset = 0, re_payload_len = 0\<rparr>) (\<lambda>_. 0) Map.empty)"

lemma fresh_arena_sel:
  "bump_allocator fresh_arena = BUMP_ALLOCATOR_START" "global_capacity fresh_arena = INITIAL_SHM_SIZE"
  "local_capacity fresh_arena = INITIAL_SHM_SIZE" "free_list_heads fresh_arena = (\<lambda>_. 0)" "mem fresh_arena = (\<lambda>_. zero_page)"
  "writer_heads fresh_arena = (\<lambda>_. 0)" "writer_tails fresh_arena = (\<lambda>_. 0)" "io_heads fresh_arena = (\<lambda>_. 0)" "io_tails fresh_arena = (\<lambda>_. 0)"
  "registry_lock fresh_arena = 0" "next_atomic_idx fresh_arena = 0" "shared_map_base fresh_arena = 0" "alloc_shard fresh_arena = 0"
  "atomics fresh_arena = (\<lambda>_. 0)" "name_cache fresh_arena = Map.empty" "mode_flag fresh_arena = Direct" "ext fresh_arena = extended_pool_new"
  by (simp_all add: fresh_arena_def fresh_host_def shm.defs host.defs arena.defs format_shared_memory_def)

lemma fresh_arena_inv: "reg_inv fresh_arena" "stores fresh_arena (\<lambda>_. [])" "bump_room fresh_arena = 908531" "cursor_pos fresh_arena sl = 0"
proof -
  show "reg_inv fresh_arena" by (simp add: reg_inv_def fresh_arena_sel)
  have "stores fresh_arena (\<lambda>_. []) = stores format_shared_memory (\<lambda>_. [])"
    by (rule stores_frame) (simp_all add: fresh_arena_sel format_shared_memory_def)
  then show "stores fresh_arena (\<lambda>_. [])" using stores_format by simp
  show "bump_room fresh_arena = 908531" by (simp add: bump_room_def fresh_arena_sel layout_consts)
  show "cursor_pos fresh_arena sl = 0" by (simp add: cursor_pos_def find_entry_def fresh_arena_sel)
qed

section \<open>Properties\<close>

text \<open>
  C21. Names and indices. From a consistent registry with room, any sequence of resolutions returns
  and leaves it consistent, and two names got the same index exactly when their first 52 bytes, filled
  with zero bytes, agree.
\<close>

theorem resolutions_consistent:
  assumes "reg_inv s" "next_atomic_idx s + length ns \<le> REGISTRY_ENTRIES"
  shows "\<exists>ks t. resolve_all ns s = Inr (ks, t) \<and> reg_inv t \<and> length ks = length ns
    \<and> (\<forall>a < length ns. \<forall>b < length ns. ks ! a = ks ! b \<longleftrightarrow> entry_name (ns ! a) = entry_name (ns ! b))"
proof -
  obtain ks t where k: "resolve_all ns s = Inr (ks, t)" using resolve_all_total [OF assms] by blast
  note r = resolve_all_spec [OF assms(1) k]
  then have i: "inj_on (\<lambda>i. re_name (registry t i)) {..<next_atomic_idx t}" by (simp add: reg_inv_def)
  have "ks ! a = ks ! b \<longleftrightarrow> entry_name (ns ! a) = entry_name (ns ! b)" if "a < length ns" "b < length ns" for a b
  proof -
    have "ks ! a < next_atomic_idx t" "ks ! b < next_atomic_idx t" "re_name (registry t (ks ! a)) = entry_name (ns ! a)"
      "re_name (registry t (ks ! b)) = entry_name (ns ! b)" using r that by auto
    then show ?thesis using inj_on_eq_iff [OF i, of "ks ! a" "ks ! b"] by auto
  qed
  then show ?thesis using k r by blast
qed

theorem resolutions_consistent_witness:
  "\<exists>ks t. resolve_all [''jobs'', ''done'', ''jobs''] fresh_arena = Inr (ks, t) \<and> ks ! 0 = ks ! 2 \<and> ks ! 0 \<noteq> ks ! 1"
proof -
  let ?ns = "[''jobs'', ''done'', ''jobs'']"
  have "next_atomic_idx fresh_arena + length ?ns \<le> REGISTRY_ENTRIES" by (simp add: fresh_arena_sel REGISTRY_ENTRIES)
  from resolutions_consistent [OF fresh_arena_inv(1) this]
  obtain ks t where k: "resolve_all ?ns fresh_arena = Inr (ks, t)"
    and eq: "\<And>a b. a < length ?ns \<Longrightarrow> b < length ?ns \<Longrightarrow> ks ! a = ks ! b \<longleftrightarrow> entry_name (?ns ! a) = entry_name (?ns ! b)" by blast
  have "entry_name ''jobs'' \<noteq> entry_name ''done''" by (simp add: entry_name_def)
  then show ?thesis using k eq [of 0 2] eq [of 0 1] by auto
qed

text \<open>
  C17. Cursors make queues. Any interleaving of appends and next-record reads on any slots, within the
  room of the region and of the registry, returns, and the reads of each slot deliver its records in
  order, each exactly once, with none when all are taken.
\<close>

theorem cursors_deliver_once:
  assumes "reg_inv s" "stores s R" "list_all queue_op_ok ops" "sum_list (map queue_op_pages ops) \<le> bump_room s"
    "next_atomic_idx s + length ops \<le> REGISTRY_ENTRIES"
    "\<forall>sl. slot_in_range sl \<longrightarrow> cursor_pos s sl = pos sl \<and> pos sl \<le> length (R sl)"
  shows "\<exists>t. run_queue ops s = Some (Inr (spec_queue ops R pos, t))"
  using assms
proof (induction ops arbitrary: s R pos)
  case (Cons op ops)
  show ?case
  proof (cases op)
    case (Push sl pl)
    then have ok: "slot_in_range sl" "length pl < 4294967296" using Cons.prems(3) by auto
    obtain t where t: "append_slot_data sl pl s = Inr t" "bump_room s \<le> bump_room t + pages_for (length pl)"
      using append_slot_data_total [OF Cons.prems(2) ok(1), of pl] Cons.prems(4) Push by auto
    have e: "registry_lock t = registry_lock s" "next_atomic_idx t = next_atomic_idx s" "registry t = registry s" "atomics t = atomics s"
      "name_cache t = name_cache s" using reg.append_keeps [OF t(1)] by auto
    have "reg_inv t" "cursor_pos t = cursor_pos s" using Cons.prems(1) unfolding reg_inv_def cursor_pos_def find_entry_def fun_eq_iff e by simp_all
    moreover define R' where "R' = R(sl := R sl @ [(slot_index sl, pl)])"
    have "\<forall>sl'. slot_in_range sl' \<longrightarrow> cursor_pos s sl' = pos sl' \<and> pos sl' \<le> length (R' sl')" using Cons.prems(6) by (auto simp: R'_def)
    ultimately show ?thesis
      using Cons.IH [of t R' pos] append_slot_data_stores [OF Cons.prems(2) t(1) ok(2)] t Push Cons.prems(3-5)
      by (simp add: e R'_def [symmetric])
  next
    case (Pop sl)
    have sl: "slot_in_range sl" using Pop Cons.prems(3) by simp
    obtain t where t: "read_next_record sl s = Some (Inr (if pos sl < length (R sl) then Some (R sl ! pos sl) else None, t))"
      "reg_inv t" "stores t R" "bump_room t = bump_room s" "next_atomic_idx t \<le> next_atomic_idx s + 1"
      "\<forall>sl'. slot_in_range sl' \<longrightarrow> cursor_pos t sl' = advance R sl pos sl'"
      using next_record_spec [OF Cons.prems(1,2) sl, of pos] Cons.prems(5,6) sl by fastforce
    have "\<forall>sl'. slot_in_range sl' \<longrightarrow> cursor_pos t sl' = advance R sl pos sl' \<and> advance R sl pos sl' \<le> length (R sl')"
      using t(6) Cons.prems(6) by (auto simp: advance_def)
    then obtain u where "run_queue ops t = Some (Inr (spec_queue ops R (advance R sl pos), u))"
      using Cons.IH [OF t(2,3)] t(4,5) Cons.prems(3-5) Pop by fastforce
    then show ?thesis using t(1) Pop by simp
  qed
qed simp

theorem cursors_deliver_once_witness:
  "\<exists>t. run_queue [Push (Stream 3) [7], Pop (Stream 3), Push (Io 3) [8], Pop (Stream 3), Pop (Io 3)] fresh_arena
     = Some (Inr ([Some (3, [7]), None, Some (3, [8])], t))"
proof -
  let ?ops = "[Push (Stream 3) [7], Pop (Stream 3), Push (Io 3) [8], Pop (Stream 3), Pop (Io 3)]"
  have "list_all queue_op_ok ?ops" by (simp add: layout_consts)
  moreover have "sum_list (map queue_op_pages ?ops) \<le> bump_room fresh_arena"
    by (simp add: pages_for_def fresh_arena_inv(3) layout_consts)
  moreover have "next_atomic_idx fresh_arena + length ?ops \<le> REGISTRY_ENTRIES" by (simp add: fresh_arena_sel REGISTRY_ENTRIES)
  ultimately show ?thesis
    using cursors_deliver_once [OF fresh_arena_inv(1,2), of ?ops "\<lambda>_. 0"] fresh_arena_inv(4) by (simp add: advance_def)
qed

end
