(* ===== verification/Shared_State.thy ===== *)
theory Shared_State
  imports Registry
begin

text \<open>
  Shared state (\<open>guest/src/api/shared_area.rs\<close>): conflict nodes and payload chains in raw pages, the lazily
  allocated bucket array, and the readers of committed state. Nodes and overflow pages use the memory of
  a page with a layout of their own (\<open>ChainNodeHeader\<close>), so this theory reads and writes the region
  byte by byte.
\<close>

section \<open>Pages as bytes\<close>

fun to_le :: "nat \<Rightarrow> nat \<Rightarrow> byte list" where
  "to_le 0 n = []"
| "to_le (Suc k) n = of_nat n # to_le k (n div 256)"

fun from_le :: "byte list \<Rightarrow> nat" where
  "from_le [] = 0"
| "from_le (b # bs) = unat b + 256 * from_le bs"

text \<open>The bytes of a \<open>Page\<close>: the link at 0, the cursor at 8, the data at 12.\<close>

definition page_raw :: "page \<Rightarrow> nat \<Rightarrow> byte" where
  "page_raw pg i = (if i < 8 then to_le 8 (next_offset pg) ! i
                    else if i < 12 then to_le 4 (cursor pg) ! (i - 8) else data pg (i - 12))"

definition of_raw :: "(nat \<Rightarrow> byte) \<Rightarrow> page" where
  "of_raw f = \<lparr>next_offset = from_le (map f [0..<8]), cursor = from_le (map f [8..<12]), data = (\<lambda>i. f (i + 12))\<rparr>"

definition byte_at :: "'a shm_scheme \<Rightarrow> nat \<Rightarrow> byte" where
  "byte_at s a = page_raw (mem s (a - a mod PAGE_SIZE)) (a mod PAGE_SIZE)"

definition read_region :: "'a shm_scheme \<Rightarrow> nat \<Rightarrow> nat \<Rightarrow> byte list" where
  "read_region s a n = map (byte_at s) [a..<a + n]"

text \<open>\<open>copy_nonoverlapping\<close> of \<open>bs\<close> to the address \<open>a\<close>, over as many pages as it takes.\<close>

definition write_region :: "nat \<Rightarrow> byte list \<Rightarrow> 'a shm_scheme \<Rightarrow> 'a shm_scheme" where
  "write_region a bs s = s\<lparr>mem := \<lambda>p.
     if PAGE_SIZE dvd p \<and> p < a + length bs \<and> a < p + PAGE_SIZE
     then of_raw (\<lambda>i. if i < PAGE_SIZE \<and> a \<le> p + i \<and> p + i < a + length bs then bs ! (p + i - a) else page_raw (mem s p) i)
     else mem s p\<rparr>"

abbreviation load64 :: "'a shm_scheme \<Rightarrow> nat \<Rightarrow> nat" where
  "load64 s a \<equiv> from_le (read_region s a 8)"

abbreviation load32 :: "'a shm_scheme \<Rightarrow> nat \<Rightarrow> nat" where
  "load32 s a \<equiv> from_le (read_region s a 4)"

abbreviation store64 :: "nat \<Rightarrow> nat \<Rightarrow> 'a shm_scheme \<Rightarrow> 'a shm_scheme" where
  "store64 a v \<equiv> write_region a (to_le 8 v)"

abbreviation store32 :: "nat \<Rightarrow> nat \<Rightarrow> 'a shm_scheme \<Rightarrow> 'a shm_scheme" where
  "store32 a v \<equiv> write_region a (to_le 4 v)"

section \<open>Operations\<close>

text \<open>Offsets of the fields of \<open>ChainNodeHeader\<close>, its size and the size of an overflow header.\<close>

definition NODE_HEADER :: nat where [layout_consts]: "NODE_HEADER = 32"
definition OVERFLOW_HEADER :: nat where [layout_consts]: "OVERFLOW_HEADER = 8"

definition bucket_addr :: "nat \<Rightarrow> nat \<Rightarrow> nat" where
  "bucket_addr base key = base + key mod BUCKET_COUNT * 8"

definition get_bucket_array :: "'a shm_scheme \<Rightarrow> err + nat \<times> 'a shm_scheme" where
  "get_bucket_array s =
     (if shared_map_base s \<noteq> 0 then Inr (shared_map_base s, s)
      else case try_allocate_page s of
             Inl e \<Rightarrow> Inl e
           | Inr (p, t) \<Rightarrow> if shared_map_base t = 0 then Inr (p, t\<lparr>shared_map_base := p\<rparr>) else Inr (shared_map_base t, t))"

text \<open>The lock-free prepend: the loop ends when the bucket still holds the head that was read.\<close>

definition push_node :: "nat \<Rightarrow> nat \<Rightarrow> 'a shm_scheme \<Rightarrow> 'a shm_scheme" where
  "push_node bucket node s = store64 bucket node (store64 node (load64 s bucket) s)"

definition insert_shared_data :: "nat \<Rightarrow> nat \<Rightarrow> byte list \<Rightarrow> 'a shm_scheme \<Rightarrow> err + 'a shm_scheme" where
  "insert_shared_data key_hash writer_id dat s =
     (case get_bucket_array s of
        Inl e \<Rightarrow> Inl e
      | Inr (base, s1) \<Rightarrow>
          (case try_allocate_page s1 of
             Inl e \<Rightarrow> Inl e
           | Inr (node, s2) \<Rightarrow>
               Inr (push_node (bucket_addr base key_hash) node
                 (write_region (node + NODE_HEADER) dat
                   (store32 (node + 12) (wrap32 (length dat)) (store32 (node + 8) writer_id s2))))))"

partial_function (option) read_nodes ::
  "'a shm_scheme \<Rightarrow> nat \<Rightarrow> nat \<Rightarrow> (nat \<times> byte list) list \<Rightarrow> ((nat \<times> byte list) list \<times> nat) option" where
  "read_nodes s cur cap acc =
     (if cur = 0 then Some (acc, cap)
      else read_nodes s (wrap32 (load64 s cur)) (if cap < wrap32 (cur + PAGE_SIZE) then global_capacity s else cap)
             (acc @ [(load32 s (cur + 8), read_region s (cur + NODE_HEADER) (load32 s (cur + 12)))]))"

declare read_nodes.simps [code]

definition read_shared_chain :: "nat \<Rightarrow> 'a shm_scheme \<Rightarrow> ((nat \<times> byte list) list \<times> 'a shm_scheme) option" where
  "read_shared_chain key_hash s =
     (if shared_map_base s = 0 then Some ([], s)
      else map_option (\<lambda>(xs, cap). (xs, s\<lparr>local_capacity := cap\<rparr>))
             (read_nodes s (wrap32 (load64 s (bucket_addr (shared_map_base s) key_hash))) (local_capacity s) []))"

text \<open>
  The overflow pages of a payload: \<open>prev\<close> is the address of the link to the next page, in the node
  header or at the start of the previous overflow page.
\<close>

function write_overflow :: "nat \<Rightarrow> byte list \<Rightarrow> 'a shm_scheme \<Rightarrow> err + 'a shm_scheme" where
  "write_overflow prev dat s =
     (if dat = [] then Inr s
      else case try_allocate_page s of
             Inl e \<Rightarrow> Inl e
           | Inr r \<Rightarrow>
               write_overflow (fst r) (drop (PAGE_SIZE - OVERFLOW_HEADER) dat)
                 (write_region (fst r + OVERFLOW_HEADER) (take (PAGE_SIZE - OVERFLOW_HEADER) dat)
                   (store64 (fst r) 0 (store64 prev (fst r) (snd r)))))"
  by pat_completeness auto
termination by (relation "measure (\<lambda>(prev, dat, s). length dat)") (auto simp: layout_consts)

declare write_overflow.simps [simp del]

definition write_node :: "nat \<Rightarrow> nat \<Rightarrow> byte list \<Rightarrow> 'a shm_scheme \<Rightarrow> err + nat \<times> 'a shm_scheme" where
  "write_node reg_idx writer_id dat s =
     (case try_allocate_page s of
        Inl e \<Rightarrow> Inl e
      | Inr (node, s1) \<Rightarrow>
          (let s2 = store64 (node + 24) 0 (store32 (node + 16) reg_idx
                      (store32 (node + 12) (wrap32 (length dat)) (store32 (node + 8) writer_id s1)));
               s3 = write_region (node + NODE_HEADER) (take (PAGE_SIZE - NODE_HEADER) dat) s2
           in case write_overflow (node + 24) (drop (PAGE_SIZE - NODE_HEADER) dat) s3 of
                Inl e \<Rightarrow> Inl e
              | Inr t \<Rightarrow> Inr (node, t)))"

definition write_shared_state :: "string \<Rightarrow> nat \<Rightarrow> byte list \<Rightarrow> 'a arena_scheme \<Rightarrow> err + 'a arena_scheme" where
  "write_shared_state task_name writer_id dat s =
     (case resolve_name_to_index task_name s of
        Inl e \<Rightarrow> Inl e
      | Inr (reg_idx, s1) \<Rightarrow>
          (case get_bucket_array s1 of
             Inl e \<Rightarrow> Inl e
           | Inr (base, s2) \<Rightarrow>
               (case write_node reg_idx writer_id dat s2 of
                  Inl e \<Rightarrow> Inl e
                | Inr (node, s3) \<Rightarrow> Inr (push_node (bucket_addr base reg_idx) node s3))))"

definition write_shared_state_range ::
  "string \<Rightarrow> nat \<Rightarrow> byte list \<Rightarrow> nat \<Rightarrow> nat \<Rightarrow> 'a arena_scheme \<Rightarrow> err + bool \<times> 'a arena_scheme" where
  "write_shared_state_range task_name writer_id dat off len s =
     (if off + len \<le> u32_max \<and> off + len \<le> length dat
      then map_sum id (\<lambda>t. (True, t)) (write_shared_state task_name writer_id (take len (drop off dat)) s)
      else Inr (False, s))"

text \<open>
  The head of a payload is a node, every further page an overflow page: the size of the header, and
  where the link to the next page is.
\<close>

definition header_size :: "bool \<Rightarrow> nat" where
  "header_size is_head = (if is_head then NODE_HEADER else OVERFLOW_HEADER)"

definition link_at :: "bool \<Rightarrow> nat \<Rightarrow> nat" where
  "link_at is_head cur = (if is_head then cur + 24 else cur)"

text \<open>The payload of a node, page by page: \<open>rem\<close> bytes are still to read from the page \<open>cur\<close>.\<close>

function read_lob :: "'a shm_scheme \<Rightarrow> bool \<Rightarrow> nat \<Rightarrow> nat \<Rightarrow> byte list" where
  "read_lob s is_head cur rem =
     (if rem = 0 then []
      else let next_page = wrap32 (load64 s (link_at is_head cur));
               read_len = min rem (PAGE_SIZE - header_size is_head)
           in read_region s (cur + header_size is_head) read_len @ read_lob s False next_page (rem - read_len))"
  by pat_completeness auto
termination by (relation "measure (\<lambda>(s, is_head, cur, rem). rem)") (auto simp: header_size_def layout_consts)

declare read_lob.simps [simp del]

text \<open>A reader of committed state: the entry's payload, if any.\<close>

definition read_shared_state :: "string \<Rightarrow> 'a arena_scheme \<Rightarrow> err + byte list option \<times> 'a arena_scheme" where
  "read_shared_state task_name s =
     (case resolve_name_to_index task_name s of
        Inl e \<Rightarrow> Inl e
      | Inr (i, t) \<Rightarrow>
          (let entry = registry t i in
           if re_payload_offset entry = 0 then Inr (None, t)
           else if 2147483647 < re_payload_len entry then Inl CapacityOverflow
           else Inr (Some (read_lob t True (re_payload_offset entry) (re_payload_len entry)), t)))"

text \<open>The walk of a range read; the payload lies in a region of less than 4 GiB, so no position wraps.\<close>

function lob_range :: "'a shm_scheme \<Rightarrow> nat \<Rightarrow> nat \<Rightarrow> bool \<Rightarrow> nat \<Rightarrow> nat \<Rightarrow> byte list \<Rightarrow> byte list" where
  "lob_range s off len is_head cur page_logical_start res =
     (if len \<le> length res then res
      else let next_page = wrap32 (load64 s (link_at is_head cur));
               page_logical_end = page_logical_start + (PAGE_SIZE - header_size is_head);
               copy_start = max off page_logical_start;
               copy_end = min (off + len) page_logical_end;
               res' = (if copy_start < copy_end
                       then res @ read_region s (cur + header_size is_head + (copy_start - page_logical_start)) (copy_end - copy_start)
                       else res)
           in if off + len \<le> page_logical_end then res'
              else lob_range s off len False next_page page_logical_end res')"
  by pat_completeness auto
termination
  by (relation "measure (\<lambda>(s, off, len, is_head, cur, start, res). off + len - start)") (auto simp: header_size_def layout_consts)

declare lob_range.simps [simp del]

definition read_shared_state_range ::
  "string \<Rightarrow> nat \<Rightarrow> nat \<Rightarrow> 'a arena_scheme \<Rightarrow> err + byte list option \<times> 'a arena_scheme" where
  "read_shared_state_range task_name off len s =
     (if len = 0 then Inr (Some [], s)
      else case resolve_name_to_index task_name s of
             Inl e \<Rightarrow> Inl e
           | Inr (i, t) \<Rightarrow>
               (let entry = registry t i in
                if re_payload_offset entry = 0 \<or> u32_max < off + len \<or> re_payload_len entry < off + len then Inr (None, t)
                else if 2147483647 < len then Inl CapacityOverflow
                else Inr (Some (lob_range t off len True (re_payload_offset entry) 0 []), t)))"

definition lseek_shared_state ::
  "string \<Rightarrow> nat \<Rightarrow> SeekFrom \<Rightarrow> 'a arena_scheme \<Rightarrow> err + nat option \<times> 'a arena_scheme" where
  "lseek_shared_state task_name current_pos whence s =
     (case resolve_name_to_index task_name s of
        Inl e \<Rightarrow> Inl e
      | Inr (i, t) \<Rightarrow>
          (let entry = registry t i in
           Inr (if re_payload_offset entry = 0 then None else seek_within whence current_pos (re_payload_len entry), t)))"

section \<open>Bytes of the region\<close>

lemma length_to_le [simp]: "length (to_le k n) = k"
  by (induction k arbitrary: n) simp_all

lemma from_to_le: "from_le (to_le k n) = n mod 256 ^ k"
proof (induction k arbitrary: n)
  case (Suc k)
  then show ?case by (simp add: unat_of_nat_byte mod_mult2_eq)
qed simp

lemma to_from_le: "length bs = k \<Longrightarrow> to_le k (from_le bs) = bs"
proof (induction bs arbitrary: k)
  case (Cons b bs)
  have z: "of_nat (256 * x) = (0 :: byte)" for x
  proof -
    have "of_nat 256 = (0 :: byte)" by simp
    then show ?thesis by (simp only: of_nat_mult mult_zero_left)
  qed
  have "of_nat (unat b + 256 * from_le bs) = b" unfolding of_nat_add z by simp
  moreover have "unat b < 2 ^ LENGTH(8)" by (rule unsigned_less)
  then have "(unat b + 256 * from_le bs) div 256 = from_le bs" by simp
  ultimately show ?case using Cons by auto
qed simp

lemma page_raw_of_raw [simp]: "page_raw (of_raw f) = f"
proof
  fix i
  have "to_le 8 (from_le (map f [0..<8])) = map f [0..<8]" "to_le 4 (from_le (map f [8..<12])) = map f [8..<12]"
    by (rule to_from_le; simp)+
  then show "page_raw (of_raw f) i = f i" by (simp add: page_raw_def of_raw_def del: upt_Suc upt_rec_numeral)
qed

lemma byte_at_page: "PAGE_SIZE dvd p \<Longrightarrow> i < PAGE_SIZE \<Longrightarrow> byte_at s (p + i) = page_raw (mem s p) i"
  by (auto simp: byte_at_def dvd_def)

lemma byte_at_same: "PAGE_SIZE dvd p \<Longrightarrow> i < PAGE_SIZE \<Longrightarrow> mem t p = mem s p \<Longrightarrow> byte_at t (p + i) = byte_at s (p + i)"
  by (simp add: byte_at_page)

lemma byte_at_write: "byte_at (write_region a bs s) b = (if a \<le> b \<and> b < a + length bs then bs ! (b - a) else byte_at s b)"
proof -
  let ?p = "b - b mod PAGE_SIZE" and ?i = "b mod PAGE_SIZE"
  have b: "PAGE_SIZE dvd ?p" "?p + ?i = b" "?i < PAGE_SIZE" by (simp_all add: dvd_minus_mod mod_less_divisor)
  have "b < ?p + PAGE_SIZE" using b by linarith
  then show ?thesis unfolding byte_at_def write_region_def using b by auto
qed

lemma length_read_region [simp]: "length (read_region s a n) = n"
  by (simp add: read_region_def)

lemma nth_read_region [simp]: "i < n \<Longrightarrow> read_region s a n ! i = byte_at s (a + i)"
  by (simp add: read_region_def)

lemma read_region_0 [simp]: "read_region s a 0 = []"
  by (simp add: read_region_def)

lemma read_region_add: "read_region s a (m + n) = read_region s a m @ read_region s (a + m) n"
  by (rule nth_equalityI) (auto simp: nth_append)

lemma take_drop_read_region: "take k (drop j (read_region s a n)) = read_region s (a + j) (min k (n - j))"
  by (rule nth_equalityI) (auto simp: ac_simps)

lemma read_write_same [simp]: "n = length bs \<Longrightarrow> read_region (write_region a bs s) a n = bs"
  by (rule nth_equalityI) (auto simp: byte_at_write)

lemma read_write_other: "b + n \<le> a \<or> a + length bs \<le> b \<Longrightarrow> read_region (write_region a bs s) b n = read_region s b n"
  by (rule nth_equalityI) (auto simp: byte_at_write)

lemma load_store [simp]:
  "load64 (store64 a v s) a = v mod 18446744073709551616" "load32 (store32 a v s) a = v mod 4294967296"
  by (simp_all add: from_to_le)

lemma write_region_frame [simp]:
  "shared_map_base (write_region a bs s) = shared_map_base s" "bump_allocator (write_region a bs s) = bump_allocator s"
  "free_list_heads (write_region a bs s) = free_list_heads s" "global_capacity (write_region a bs s) = global_capacity s"
  "local_capacity (write_region a bs s) = local_capacity s"
  "get_head sl (write_region a bs s) = get_head sl s" "get_tail sl (write_region a bs s) = get_tail sl s"
  by (cases sl; simp add: write_region_def)+

lemma write_region_arena [simp]:
  "registry (write_region a bs s) = registry s" "atomics (write_region a bs s) = atomics s" "name_cache (write_region a bs s) = name_cache s"
  "next_atomic_idx (write_region a bs s) = next_atomic_idx s" "registry_lock (write_region a bs s) = registry_lock s"
  "ext (write_region a bs s) = ext s" "mode_flag (write_region a bs s) = mode_flag s"
  by (simp_all add: write_region_def)

text \<open>A write into one page leaves every other page alone.\<close>

lemma write_region_mem:
  assumes "PAGE_SIZE dvd p" "p \<le> a" "a + length bs \<le> p + PAGE_SIZE" "q \<noteq> p"
  shows "mem (write_region a bs s) q = mem s q"
proof -
  have "\<not> (PAGE_SIZE dvd q \<and> q < a + length bs \<and> a < q + PAGE_SIZE)"
  proof
    assume q: "PAGE_SIZE dvd q \<and> q < a + length bs \<and> a < q + PAGE_SIZE"
    then have "q < p + PAGE_SIZE" "p < q + PAGE_SIZE" using assms(2,3) by auto
    then show False using aligned_less [of PAGE_SIZE q p] aligned_less [of PAGE_SIZE p q] q assms(1,4) by (cases "q < p") auto
  qed
  then show ?thesis unfolding write_region_def by auto
qed

lemma byte_at_mem: "mem t (a - a mod PAGE_SIZE) = mem s (a - a mod PAGE_SIZE) \<Longrightarrow> byte_at t a = byte_at s a"
  by (simp add: byte_at_def)

text \<open>The bytes of one page.\<close>

lemma read_region_page:
  assumes "PAGE_SIZE dvd p" "j + n \<le> PAGE_SIZE" "mem t p = mem s p"
  shows "read_region t (p + j) n = read_region s (p + j) n"
proof (rule nth_equalityI)
  fix i assume "i < length (read_region t (p + j) n)"
  then have "j + i < PAGE_SIZE" using assms(2) by simp
  then show "read_region t (p + j) n ! i = read_region s (p + j) n ! i"
    using assms(3) \<open>i < length _\<close> by (simp add: add.assoc byte_at_page [OF assms(1)])
qed simp

lemma next_offset_store64:
  assumes "PAGE_SIZE dvd p"
  shows "next_offset (mem (store64 p v s) p) = v mod 18446744073709551616"
proof -
  have "map (page_raw t) [0..<8] = read_region u p 8" if "mem u p = t" for t and u :: "'a shm_scheme"
    by (rule nth_equalityI) (use that in \<open>auto simp: byte_at_page [OF assms] layout_consts\<close>)
  then have "map (page_raw (mem (store64 p v s) p)) [0..<8] = read_region (store64 p v s) p 8" by blast
  moreover have "mem (store64 p v s) p = of_raw (page_raw (mem (store64 p v s) p))" using assms by (simp add: write_region_def)
  ultimately show ?thesis by (metis from_to_le length_to_le of_raw_def page.select_convs(1) read_write_same load_store(1))
qed

section \<open>Writing and reading a payload\<close>

text \<open>
  \<open>lob s is_head cur ps dat\<close>: the bytes \<open>dat\<close> are stored in \<open>cur\<close> and the overflow pages \<open>ps\<close> behind it.
\<close>

definition capacity :: "bool \<Rightarrow> nat" where
  "capacity is_head = PAGE_SIZE - header_size is_head"

fun lob :: "'a shm_scheme \<Rightarrow> bool \<Rightarrow> nat \<Rightarrow> nat list \<Rightarrow> byte list \<Rightarrow> bool" where
  "lob s b cur [] dat \<longleftrightarrow> length dat \<le> capacity b \<and> read_region s (cur + header_size b) (length dat) = dat"
| "lob s b cur (q # qs) dat \<longleftrightarrow> capacity b < length dat \<and> read_region s (cur + header_size b) (capacity b) = take (capacity b) dat
     \<and> load64 s (link_at b cur) = q \<and> q < 4294967296 \<and> lob s False q qs (drop (capacity b) dat)"

lemma lob_read:
  "lob s b cur ps dat \<Longrightarrow> read_lob s b cur (length dat) = dat"
proof (induction ps arbitrary: b cur dat)
  case Nil
  then show ?case by (cases "dat = []") (auto simp: read_lob.simps [of s b] read_lob.simps [of s False _ 0] Let_def capacity_def [symmetric] min_def)
next
  case (Cons q qs)
  then have l: "capacity b < length dat" "read_region s (cur + header_size b) (capacity b) = take (capacity b) dat"
    "load64 s (link_at b cur) = q" "q < 4294967296" "read_lob s False q (length dat - capacity b) = drop (capacity b) dat" by force+
  have "dat \<noteq> []" using l(1) by auto
  then have "read_lob s b cur (length dat) = read_region s (cur + header_size b) (capacity b) @ read_lob s False q (length dat - capacity b)"
    using l(1,3,4) by (subst read_lob.simps) (simp add: Let_def capacity_def [symmetric] min_def)
  then show ?case using l(2,5) by simp
qed

lemma region_step:
  assumes "length pre = ls"
  shows "take len (drop off (pre @ read_region s a n))
    = take len (drop off pre) @ read_region s (a + (max off ls - ls)) (min (off + len) (ls + n) - max off ls)"
proof -
  have "take len (drop off (pre @ read_region s a n)) = take len (drop off pre) @ read_region s (a + (off - ls)) (min (len - (ls - off)) (n - (off - ls)))"
    using assms by (simp add: take_drop_read_region)
  moreover have "min (len - (ls - off)) (n - (off - ls)) = min (off + len) (ls + n) - max off ls" by (auto simp: min_def max_def)
  moreover have "off - ls = max off ls - ls" by simp
  ultimately show ?thesis by simp
qed

lemma lob_range_step:
  assumes "read_region s (cur + header_size b) n = take n dat" "n = min (length dat) (capacity b)"
    "res = take len (drop off pre)" "ls = length pre" "off + len \<le> length (pre @ dat)" "\<not> len \<le> length res"
  shows "lob_range s off len b cur ls res = (if off + len \<le> ls + capacity b then take len (drop off (pre @ dat))
    else lob_range s off len False (wrap32 (load64 s (link_at b cur))) (ls + capacity b) (take len (drop off (pre @ take n dat))))"
proof -
  define cs ce where "cs = max off ls" and "ce = min (off + len) (ls + capacity b)"
  have ce: "min (off + len) (ls + n) = ce" using assms(2,4,5) by (auto simp: ce_def min_def)
  have "take len (drop off (pre @ take n dat)) = res @ read_region s (cur + header_size b + (cs - ls)) (ce - cs)"
    using region_step [of pre ls len off s "cur + header_size b" n] assms(1,3,4) unfolding ce by (simp add: cs_def)
  then have r: "take len (drop off (pre @ take n dat))
      = (if cs < ce then res @ read_region s (cur + header_size b + (cs - ls)) (ce - cs) else res)" by simp
  have one: "lob_range s off len b cur ls res = (if off + len \<le> ls + capacity b then take len (drop off (pre @ take n dat))
      else lob_range s off len False (wrap32 (load64 s (link_at b cur))) (ls + capacity b) (take len (drop off (pre @ take n dat))))"
    using assms(6) unfolding r
    by (subst lob_range.simps) (cases "cs < ce"; auto simp: Let_def capacity_def [symmetric] cs_def [symmetric] ce_def [symmetric] simp del: min_less_iff_conj)
  have "take len (drop off (pre @ take n dat)) = take len (drop off (pre @ dat))" if "off + len \<le> ls + capacity b"
  proof -
    have "take (off + len) (pre @ take n dat) = take (off + len) (pre @ dat)" using that assms(2,4) by (auto simp: min_def)
    then show ?thesis by (metis drop_take add_diff_cancel_left')
  qed
  then show ?thesis using one by simp
qed

lemma lob_range_done: "res = take len (drop off pre) \<Longrightarrow> len \<le> length res \<Longrightarrow> lob_range s off len b cur ls res = take len (drop off (pre @ dat))"
  by (subst lob_range.simps) (auto simp: min_def split: if_splits)

lemma length_read_lob [simp]: "length (read_lob s b cur n) = n"
proof (induction s b cur n rule: read_lob.induct)
  case (1 s b cur n)
  then show ?case by (subst read_lob.simps) (auto simp: Let_def)
qed

lemma lob_range_read_lob:
  assumes "res = take len (drop off pre)" "ls = length pre" "off + len \<le> length pre + n"
  shows "lob_range s off len b cur ls res = take len (drop off (pre @ read_lob s b cur n))"
  using assms
proof (induction s b cur n arbitrary: ls res pre rule: read_lob.induct)
  case (1 s b cur n)
  define k where "k = min n (capacity b)"
  define q where "q = wrap32 (load64 s (link_at b cur))"
  let ?dat = "read_lob s b cur n"
  have dat: "?dat = (if n = 0 then [] else read_region s (cur + header_size b) k @ read_lob s False q (n - k))"
    by (subst read_lob.simps) (simp add: Let_def k_def q_def capacity_def)
  have k: "read_region s (cur + header_size b) k = take k ?dat" "k = min (length ?dat) (capacity b)" "drop k ?dat = read_lob s False q (n - k)"
    using dat by (cases "n = 0"; simp add: k_def read_lob.simps [of s False q 0])+
  show ?case
  proof (cases "len \<le> length res")
    case True
    then show ?thesis by (rule lob_range_done [OF "1.prems"(1)])
  next
    case False
    note step = lob_range_step [OF k(1,2) "1.prems"(1,2) _ False]
    show ?thesis
    proof (cases "off + len \<le> ls + capacity b")
      case True
      then show ?thesis using step "1.prems"(3) by simp
    next
      case c: False
      have "n \<noteq> 0" "k = capacity b" "length (pre @ take k ?dat) = ls + capacity b"
        using c "1.prems"(2,3) by (auto simp: k_def)
      then have "lob_range s off len False q (ls + capacity b) (take len (drop off (pre @ take k ?dat)))
          = take len (drop off ((pre @ take k ?dat) @ read_lob s False q (n - k)))"
        using "1.IH" [of q k "take len (drop off (pre @ take k ?dat))" "pre @ take k ?dat" "ls + capacity b"] "1.prems"(2,3)
        by (simp add: q_def k_def capacity_def)
      moreover have "(pre @ take k ?dat) @ read_lob s False q (n - k) = pre @ ?dat" unfolding k(3) [symmetric] by simp
      moreover have "lob_range s off len b cur ls res = lob_range s off len False q (ls + capacity b) (take len (drop off (pre @ take k ?dat)))"
        using step c "1.prems"(3) by (simp add: q_def del: drop_append take_append)
      ultimately show ?thesis by (simp only:)
    qed
  qed
qed

lemma read_region_cong: "(\<And>i. i < n \<Longrightarrow> byte_at t (a + i) = byte_at s (a + i)) \<Longrightarrow> read_region t a n = read_region s a n"
  by (rule nth_equalityI) auto

lemma header_facts: "header_size True = 32" "header_size False = 8" "capacity True = 4064" "capacity False = 4088" "PAGE_SIZE = 4096"
  by (simp_all add: header_size_def capacity_def layout_consts)

text \<open>A payload depends on the bytes of its pages from the link of the head on.\<close>

lemma lob_cong:
  assumes "lob s b cur ps dat" "\<And>i. link_at b 0 \<le> i \<Longrightarrow> i < PAGE_SIZE \<Longrightarrow> byte_at t (cur + i) = byte_at s (cur + i)"
    "\<And>q i. q \<in> set ps \<Longrightarrow> i < PAGE_SIZE \<Longrightarrow> byte_at t (q + i) = byte_at s (q + i)"
  shows "lob t b cur ps dat"
  using assms
proof (induction ps arbitrary: b cur dat)
  case Nil
  have "read_region t (cur + header_size b) (length dat) = read_region s (cur + header_size b) (length dat)"
    by (rule read_region_cong) (use Nil.prems(1) Nil.prems(2) [of "header_size b + _"] in \<open>cases b; auto simp: header_facts link_at_def add.assoc\<close>)
  then show ?case using Nil.prems(1) by simp
next
  case (Cons q qs)
  have "read_region t (cur + header_size b) (capacity b) = read_region s (cur + header_size b) (capacity b)"
    by (rule read_region_cong) (use Cons.prems(2) [of "header_size b + _"] in \<open>cases b; auto simp: header_facts link_at_def add.assoc\<close>)
  moreover have "read_region t (link_at b cur) 8 = read_region s (link_at b cur) 8"
    by (rule read_region_cong) (use Cons.prems(2) [of "link_at b 0 + _"] in \<open>cases b; auto simp: header_facts link_at_def add.assoc\<close>)
  moreover have "lob t False q qs (drop (capacity b) dat)"
    by (rule Cons.IH) (use Cons.prems(1) Cons.prems(3) [of q] Cons.prems(3) in auto)
  ultimately show ?case using Cons.prems(1) by simp
qed

text \<open>Writing pages that are not available keeps the allocator invariant.\<close>

lemma write_taken:
  assumes "guest_inv s" "PAGE_SIZE dvd p" "p \<notin> avail s" "p \<le> a" "a + length bs \<le> p + PAGE_SIZE"
  shows "guest_inv (write_region a bs s)" "avail (write_region a bs s) = avail s"
proof -
  have "guest_inv (write_region a bs s) \<and> avail (write_region a bs s) = avail s"
  proof (rule guest_inv_cong [OF assms(1)])
    fix q assume "q \<in> avail s"
    then have "q \<noteq> p" using assms(3) by auto
    then show "mem (write_region a bs s) q = mem s q" by (rule write_region_mem [OF assms(2,4,5)])
  qed simp_all
  then show "guest_inv (write_region a bs s)" "avail (write_region a bs s) = avail s" by simp_all
qed

lemma guest_avail_aligned: "guest_inv s \<Longrightarrow> p \<in> avail s \<Longrightarrow> PAGE_SIZE dvd p"
  using avail_aligned [of s p] by (auto simp: guest_inv_def)

definition same_page :: "'a shm_scheme \<Rightarrow> 'a shm_scheme \<Rightarrow> nat \<Rightarrow> nat \<Rightarrow> bool" where
  "same_page s t p j \<longleftrightarrow> (\<forall>i < PAGE_SIZE. i < j \<or> j + 8 \<le> i \<longrightarrow> byte_at t (p + i) = byte_at s (p + i))"

definition grew :: "'a shm_scheme \<Rightarrow> 'a shm_scheme \<Rightarrow> nat list \<Rightarrow> nat \<Rightarrow> bool" where
  "grew s t ps p \<longleftrightarrow> guest_inv t \<and> avail t \<subseteq> avail s - set ps \<and> set ps \<subseteq> avail s \<and> same_slots s t
     \<and> (\<forall>q. q \<notin> avail s \<and> q \<noteq> p \<longrightarrow> mem t q = mem s q)"

lemma same_slots_write [simp]: "same_slots s (write_region a bs t) = same_slots s t"
  by (simp add: same_slots_def write_region_def)

lemma write_overflow_spec:
  assumes "guest_inv s" "PAGE_SIZE dvd p" "j + 8 \<le> PAGE_SIZE" "p \<notin> avail s" "write_overflow (p + j) dat s = Inr t"
  shows "\<exists>ps. grew s t ps p \<and> same_page s t p j
    \<and> (if dat = [] then ps = [] \<and> t = s else ps \<noteq> [] \<and> load64 t (p + j) = hd ps \<and> hd ps < 4294967296 \<and> lob t False (hd ps) (tl ps) dat)"
  using assms
proof (induction "length dat" arbitrary: p j dat s rule: less_induct)
  case less
  show ?case
  proof (cases "dat = []")
    case True
    then have "t = s" using less.prems(5) by (simp add: write_overflow.simps)
    then show ?thesis using True less.prems(1) by (intro exI [of _ "[]"]) (simp add: grew_def same_page_def)
  next
    case False
    define d where "d = capacity False"
    obtain r s1 where al: "try_allocate_page s = Inr (r, s1)"
      and t: "write_overflow r (drop d dat) (write_region (r + 8) (take d dat) (store64 r 0 (store64 (p + j) r s1))) = Inr t"
      using less.prems(5) False
      by (subst (asm) write_overflow.simps) (auto split: sum.splits simp: d_def capacity_def header_size_def OVERFLOW_HEADER_def)
    note a = guest.alloc_inv' [OF less.prems(1) al] guest.alloc_fresh [OF less.prems(1) al] guest.alloc_taken [OF less.prems(1) al]
      guest.alloc_nonnull [OF less.prems(1) al] guest.alloc_frame [OF less.prems(1) al]
    have m1: "mem s1 q = mem s q" if "q \<notin> avail s" for q using guest.alloc_mem [OF less.prems(1) al that] .
    define s2 where "s2 = store64 (p + j) r s1"
    define s3 where "s3 = store64 r 0 s2"
    define s4 where "s4 = write_region (r + 8) (take d dat) s3"
    have r: "PAGE_SIZE dvd r" "r \<noteq> p" "r \<notin> avail s1" "p \<notin> avail s1"
      using guest_avail_aligned [OF less.prems(1) a(2)] a(2,3) less.prems(4) by auto
    have d: "8 + length (take d dat) \<le> PAGE_SIZE" "0 < d" by (simp_all add: d_def header_facts)
    have i2: "guest_inv s2" "avail s2 = avail s1" using write_taken [OF a(1) less.prems(2) r(4)] less.prems(3) by (simp_all add: s2_def)
    have i3: "guest_inv s3" "avail s3 = avail s1" using write_taken [OF i2(1) r(1)] r(3) i2(2) by (simp_all add: s3_def header_facts)
    have i4: "guest_inv s4" "avail s4 = avail s1" using write_taken [OF i3(1) r(1)] r(3) i3(2) d(1) by (simp_all add: s4_def)
    have m2: "mem s2 q = mem s1 q" if "q \<noteq> p" for q unfolding s2_def by (rule write_region_mem [OF less.prems(2) _ _ that]) (use less.prems(3) in simp_all)
    have m4: "mem s4 q = mem s2 q" if "q \<noteq> r" for q
    proof -
      have "mem s4 q = mem s3 q" unfolding s4_def by (rule write_region_mem [OF r(1) _ _ that]) (use d(1) in simp_all)
      also have "mem s3 q = mem s2 q" unfolding s3_def by (rule write_region_mem [OF r(1) _ _ that]) (simp_all add: header_facts)
      finally show ?thesis .
    qed
    have p4: "byte_at s4 (p + i) = (if j \<le> i \<and> i < j + 8 then to_le 8 r ! (i - j) else byte_at s (p + i))" if "i < PAGE_SIZE" for i
    proof -
      have "byte_at s4 (p + i) = byte_at s2 (p + i)" using byte_at_same [OF less.prems(2) that m4 [of p]] r(2) by simp
      also have "\<dots> = (if j \<le> i \<and> i < j + 8 then to_le 8 r ! (i - j) else byte_at s1 (p + i))" by (simp add: s2_def byte_at_write)
      also have "byte_at s1 (p + i) = byte_at s (p + i)" by (rule byte_at_same [OF less.prems(2) that m1 [OF less.prems(4)]])
      finally show ?thesis .
    qed
    have "length (drop d dat) < length dat" using False d(2) by simp
    moreover have "write_overflow r (drop d dat) s4 = Inr t" using t by (simp add: s4_def s3_def s2_def)
    ultimately obtain ps where ps: "grew s4 t ps r" "same_page s4 t r 0"
      "if drop d dat = [] then ps = [] \<and> t = s4 else ps \<noteq> [] \<and> load64 t r = hd ps \<and> hd ps < 4294967296 \<and> lob t False (hd ps) (tl ps) (drop d dat)"
      using less.hyps [of "drop d dat" s4 r 0, unfolded add_0_right] i4 r by (simp add: header_facts) blast
    have mt: "mem t q = mem s4 q" if "q \<notin> avail s1" "q \<noteq> r" for q using ps(1) that i4(2) by (simp add: grew_def)
    have pt: "byte_at t (p + i) = byte_at s4 (p + i)" if "i < PAGE_SIZE" for i
      using byte_at_same [OF less.prems(2) that mt [OF r(4)]] r(2) by simp
    have data4: "read_region s4 (r + 8) (length (take d dat)) = take d dat" unfolding s4_def by (rule read_write_same) simp
    have "grew s t (r # ps) p"
    proof -
      have "mem t q = mem s q" if "q \<notin> avail s" "q \<noteq> p" for q
      proof -
        have "q \<noteq> r" "q \<notin> avail s1" using that(1) a(2,3) by auto
        then show ?thesis using mt m4 [of q] m2 [OF that(2)] m1 [OF that(1)] by simp
      qed
      moreover have "same_slots s t" using ps(1) a(5) same_slots_trans [of s s4 t] by (simp add: grew_def s4_def s3_def s2_def)
      ultimately show ?thesis using ps(1) a(2,3) i4(2) unfolding grew_def by auto
    qed
    moreover have "same_page s t p j" using pt p4 by (auto simp: same_page_def)
    moreover have "load64 t (p + j) = r"
    proof -
      have "read_region t (p + j) 8 = to_le 8 r"
      proof (rule nth_equalityI)
        fix i assume "i < length (read_region t (p + j) 8)"
        then have i: "i < 8" "j + i < PAGE_SIZE" using less.prems(3) by auto
        show "read_region t (p + j) 8 ! i = to_le 8 r ! i" using i pt [OF i(2)] p4 [OF i(2)] by (simp add: add.assoc)
      qed simp
      then show ?thesis using a(4) by (simp add: from_to_le)
    qed
    moreover have "lob t False r ps dat"
    proof (cases "drop d dat = []")
      case True
      then show ?thesis using ps(3) data4 by (simp add: d_def header_facts)
    next
      case c: False
      have "read_region t (r + 8) d = read_region s4 (r + 8) d"
        by (rule read_region_cong) (use ps(2) in \<open>auto simp: same_page_def d_def header_facts add.assoc\<close>)
      then have "read_region t (r + 8) d = take d dat" using data4 c by (simp add: min_def split: if_splits)
      moreover obtain q qs where "ps = q # qs" using ps(3) c by (cases ps) auto
      ultimately show ?thesis using ps(3) c by (simp add: d_def header_facts link_at_def)
    qed
    ultimately show ?thesis using False a(4) by (intro exI [of _ "r # ps"]) simp
  qed
qed

text \<open>A node as it is written: its fields and its payload, in pages that were available.\<close>

definition node_at :: "'a shm_scheme \<Rightarrow> nat \<Rightarrow> nat \<Rightarrow> nat \<Rightarrow> nat list \<Rightarrow> byte list \<Rightarrow> bool" where
  "node_at s node writer_id reg_idx ps dat \<longleftrightarrow> PAGE_SIZE dvd node \<and> 0 < node \<and> node < 4294967296
     \<and> load32 s (node + 8) = writer_id \<and> load32 s (node + 12) = length dat \<and> load32 s (node + 16) = reg_idx
     \<and> lob s True node ps dat \<and> (\<forall>q \<in> set ps. PAGE_SIZE dvd q) \<and> (ps = [] \<longrightarrow> load64 s (node + 24) = 0)"

lemma node_at_cong:
  assumes "node_at s node w i ps dat" "\<And>k. 8 \<le> k \<Longrightarrow> k < PAGE_SIZE \<Longrightarrow> byte_at t (node + k) = byte_at s (node + k)"
    "\<And>q. q \<in> set ps \<Longrightarrow> mem t q = mem s q"
  shows "node_at t node w i ps dat"
proof -
  have r: "read_region t (node + j) n = read_region s (node + j) n" if "8 \<le> j" "j + n \<le> PAGE_SIZE" for j n
    by (rule read_region_cong) (use that assms(2) [of "j + _"] in \<open>simp add: add.assoc\<close>)
  have "lob t True node ps dat"
  proof (rule lob_cong)
    show "lob s True node ps dat" using assms(1) by (simp add: node_at_def)
    show "byte_at t (node + k) = byte_at s (node + k)" if "link_at True 0 \<le> k" "k < PAGE_SIZE" for k
      using that assms(2) by (simp add: link_at_def)
    show "byte_at t (q + k) = byte_at s (q + k)" if "q \<in> set ps" "k < PAGE_SIZE" for q k
      by (rule byte_at_same [OF _ that(2) assms(3) [OF that(1)]]) (use assms(1) that(1) in \<open>simp add: node_at_def\<close>)
  qed
  then show ?thesis using assms(1) r [of 8 4] r [of 12 4] r [of 16 4] r [of 24 8] by (simp add: node_at_def header_facts)
qed

lemma write_node_spec:
  assumes i: "guest_inv s" and w: "write_node reg_idx writer_id dat s = Inr (node, t)"
    and bnd: "reg_idx < 4294967296" "writer_id < 4294967296" "length dat < 4294967296"
  shows "\<exists>ps. node_at t node writer_id reg_idx ps dat \<and> node \<in> avail s \<and> guest_inv t \<and> avail t \<subseteq> avail s - set (node # ps)
    \<and> set ps \<subseteq> avail s \<and> node \<notin> set ps \<and> same_slots s t \<and> (\<forall>q. q \<notin> avail s \<longrightarrow> mem t q = mem s q)"
proof -
  define d where "d = capacity True"
  obtain s1 where al: "try_allocate_page s = Inr (node, s1)"
    and t: "write_overflow (node + 24) (drop d dat) (write_region (node + 32) (take d dat)
      (store64 (node + 24) 0 (store32 (node + 16) reg_idx (store32 (node + 12) (wrap32 (length dat)) (store32 (node + 8) writer_id s1))))) = Inr t"
    using w by (auto simp: write_node_def Let_def d_def capacity_def header_size_def NODE_HEADER_def split: sum.splits)
  note a = guest.alloc_inv' [OF i al] guest.alloc_fresh [OF i al] guest.alloc_taken [OF i al] guest.alloc_nonnull [OF i al] guest.alloc_frame [OF i al]
  have n: "PAGE_SIZE dvd node" "node \<notin> avail s1" using guest_avail_aligned [OF i a(2)] a(3) by auto
  define s2 where "s2 = store64 (node + 24) 0 (store32 (node + 16) reg_idx (store32 (node + 12) (wrap32 (length dat)) (store32 (node + 8) writer_id s1)))"
  define s3 where "s3 = write_region (node + 32) (take d dat) s2"
  have d: "32 + length (take d dat) \<le> PAGE_SIZE" by (simp add: d_def header_facts)
  have wr: "guest_inv (write_region (node + j) bs u) \<and> avail (write_region (node + j) bs u) = avail s1
      \<and> (\<forall>q. q \<noteq> node \<longrightarrow> mem (write_region (node + j) bs u) q = mem u q)"
    if "guest_inv u" "avail u = avail s1" "j + length bs \<le> PAGE_SIZE" for j bs u
    using write_taken [OF that(1) n(1), of "node + j" bs] write_region_mem [OF n(1), of "node + j" bs _ u] n(2) that(2,3) by simp
  have i2: "guest_inv s2 \<and> avail s2 = avail s1 \<and> (\<forall>q. q \<noteq> node \<longrightarrow> mem s2 q = mem s1 q)"
    unfolding s2_def using a(1) by (simp add: wr header_facts)
  then have i3: "guest_inv s3" "avail s3 = avail s1" "\<And>q. q \<noteq> node \<Longrightarrow> mem s3 q = mem s1 q"
    using wr [of s2 32 "take d dat"] d unfolding s3_def by auto
  have "write_overflow (node + 24) (drop d dat) s3 = Inr t" using t by (simp add: s3_def s2_def)
  then obtain ps where ps: "grew s3 t ps node" "same_page s3 t node 24"
    "if drop d dat = [] then ps = [] \<and> t = s3 else ps \<noteq> [] \<and> load64 t (node + 24) = hd ps \<and> hd ps < 4294967296 \<and> lob t False (hd ps) (tl ps) (drop d dat)"
    using write_overflow_spec [OF i3(1) n(1), of 24 "drop d dat" t] i3(2) n(2) by (auto simp: header_facts)
  have same: "read_region t (node + j) k = read_region s3 (node + j) k" if "j + k \<le> 24 \<or> 32 \<le> j" "j + k \<le> PAGE_SIZE" for j k
    by (rule read_region_cong) (use ps(2) that in \<open>auto simp: same_page_def add.assoc\<close>)
  have fields: "load32 s3 (node + 8) = writer_id" "load32 s3 (node + 12) = length dat" "load32 s3 (node + 16) = reg_idx"
    using bnd by (simp_all add: s3_def s2_def read_write_other from_to_le)
  have link: "load64 s3 (node + 24) = 0" by (simp add: s3_def s2_def read_write_other from_to_le)
  have data3: "read_region s3 (node + 32) (length (take d dat)) = take d dat" unfolding s3_def by (rule read_write_same) simp
  have "lob t True node ps dat"
  proof (cases "drop d dat = []")
    case True
    then show ?thesis using ps(3) data3 by (simp add: d_def header_facts)
  next
    case c: False
    then have "read_region t (node + 32) d = take d dat" using same [of 32 d] data3 by (simp add: min_def d_def header_facts split: if_splits)
    moreover obtain q qs where "ps = q # qs" using ps(3) c by (cases ps) auto
    ultimately show ?thesis using ps(3) c by (simp add: d_def header_facts link_at_def)
  qed
  moreover have al2: "\<forall>q \<in> set ps. PAGE_SIZE dvd q" using ps(1) i3(1) guest_avail_aligned by (auto simp: grew_def)
  moreover have "ps = [] \<longrightarrow> load64 t (node + 24) = 0" using ps(3) link by (auto split: if_splits)
  ultimately have "node_at t node writer_id reg_idx ps dat"
    using n(1) a(4) fields same [of 8 4] same [of 12 4] same [of 16 4] by (simp add: node_at_def header_facts)
  moreover have "mem t q = mem s q" if "q \<notin> avail s" for q
  proof -
    have "q \<noteq> node" "q \<notin> avail s1" using that a(2,3) by auto
    then show ?thesis using ps(1) i3(2,3) guest.alloc_mem [OF i al that] by (simp add: grew_def)
  qed
  moreover have "same_slots s t" using ps(1) a(5) same_slots_trans [of s s3 t] by (simp add: grew_def s3_def s2_def)
  ultimately show ?thesis using ps(1) a(2,3) i3(2) n(2) unfolding grew_def by (intro exI [of _ ps]) auto
qed

section \<open>One write of shared state\<close>

text \<open>The bucket array: an aligned page that is not available for allocation and belongs to no slot.\<close>

definition map_ok :: "'a shm_scheme \<Rightarrow> (slot \<Rightarrow> nat list) \<Rightarrow> bool" where
  "map_ok s C \<longleftrightarrow> shared_map_base s \<noteq> 0 \<and> PAGE_SIZE dvd shared_map_base s \<and> shared_map_base s \<notin> avail s
     \<and> (\<forall>sl. shared_map_base s \<notin> set (C sl))"

definition bucket :: "'a shm_scheme \<Rightarrow> nat \<Rightarrow> nat" where
  "bucket s i = load64 s (shared_map_base s + i * 8)"

lemma chains_keep:
  assumes C: "chains s C" and t: "guest_inv t" "avail t \<subseteq> avail s"
    and sl: "\<And>sl. get_head sl t = get_head sl s" "\<And>sl. get_tail sl t = get_tail sl s" and m: "\<And>sl q. q \<in> set (C sl) \<Longrightarrow> mem t q = mem s q"
  shows "chains t C" "chain_bytes t (C sl) = chain_bytes s (C sl)"
proof -
  have cb: "chain_bytes t (C sl) = chain_bytes s (C sl)" for sl by (rule chain_bytes_cong) (rule m)
  then show "chain_bytes t (C sl) = chain_bytes s (C sl)" .
  have "slot_chain t sl (C sl)" for sl
    using C slot_chain_cong [of s sl "C sl" t] sl m unfolding chains_def by blast
  moreover have "set (C sl) \<inter> avail t = {}" for sl using C t(2) unfolding chains_def by blast
  ultimately show "chains t C" using C t(1) cb unfolding chains_def by simp
qed

context region_frame
begin

lemma write_region_keeps [simp]: "f (write_region a bs s) = f s"
  by (simp add: write_region_def)

lemma write_overflow_keeps: "write_overflow prev dat s = Inr t \<Longrightarrow> f t = f s"
proof (induction prev dat s rule: write_overflow.induct)
  case (1 prev dat s)
  show ?case using "1.prems"
    by (subst (asm) write_overflow.simps) (use "1.IH" in \<open>auto split: if_splits sum.splits dest: alloc_keeps\<close>)
qed

lemma write_node_keeps: "write_node i w dat s = Inr (node, t) \<Longrightarrow> f t = f s"
  by (auto simp: write_node_def Let_def split: sum.splits dest!: write_overflow_keeps alloc_keeps)

end

interpretation hostf: region_frame "\<lambda>s. (ext s, mode_flag s, host_shard s, grower s)"
  by unfold_locales simp_all

lemma bucket_in_page: "bucket_addr base i = base + i mod BUCKET_COUNT * 8" "i mod BUCKET_COUNT * 8 + 8 \<le> PAGE_SIZE"
  by (simp_all add: bucket_addr_def layout_consts)

text \<open>Prepending a node to a bucket.\<close>

lemma push_node_spec:
  assumes g: "guest_inv s" and b: "PAGE_SIZE dvd base" "base \<notin> avail s" "j < BUCKET_COUNT"
    and n: "node_at s node w i ps dat" "node \<notin> avail s" "node \<noteq> base" "base \<notin> set ps" "node \<notin> set ps"
    and t: "t = push_node (base + j * 8) node s"
  shows "guest_inv t" "avail t = avail s" "same_slots s t" "\<And>q. q \<noteq> base \<Longrightarrow> q \<noteq> node \<Longrightarrow> mem t q = mem s q"
    "node_at t node w i ps dat" "next_offset (mem t node) = load64 s (base + j * 8) mod 18446744073709551616"
    "load64 t node = load64 s (base + j * 8) mod 18446744073709551616"
    "\<And>l. l < BUCKET_COUNT \<Longrightarrow> load64 t (base + l * 8) = (if l = j then node else load64 s (base + l * 8))"
proof -
  define u where "u = store64 node (load64 s (base + j * 8)) s"
  have t': "t = store64 (base + j * 8) node u" by (simp add: t push_node_def u_def)
  have d: "PAGE_SIZE dvd node" "node < 4294967296" "j * 8 + 8 \<le> PAGE_SIZE" using n(1) b(3) by (auto simp: node_at_def layout_consts)
  have gu: "guest_inv u" "avail u = avail s" using write_taken [OF g d(1) n(2), of node] by (simp_all add: u_def header_facts)
  show "guest_inv t" "avail t = avail s" using write_taken [OF gu(1) b(1), of "base + j * 8"] b(2) d(3) gu(2) by (simp_all add: t')
  show "same_slots s t" by (simp add: t' u_def)
  have mu: "mem u q = mem s q" if "q \<noteq> node" for q unfolding u_def by (rule write_region_mem [OF d(1) _ _ that]) (simp_all add: header_facts)
  have mt: "mem t q = mem u q" if "q \<noteq> base" for q unfolding t' by (rule write_region_mem [OF b(1) _ _ that]) (use d(3) in simp_all)
  show m: "mem t q = mem s q" if "q \<noteq> base" "q \<noteq> node" for q using mt [OF that(1)] mu [OF that(2)] by simp
  have "byte_at t (node + k) = byte_at s (node + k)" if "8 \<le> k" "k < PAGE_SIZE" for k
    using byte_at_same [OF d(1) that(2) mt [OF n(3)]] that(1) by (simp add: u_def byte_at_write)
  then show "node_at t node w i ps dat" by (rule node_at_cong [OF n(1)]) (use m n(4,5) in \<open>metis+\<close>)
  show "next_offset (mem t node) = load64 s (base + j * 8) mod 18446744073709551616"
    using next_offset_store64 [OF d(1), of "load64 s (base + j * 8)" s] mt [OF n(3)] by (simp add: u_def)
  have "read_region t (node + 0) 8 = read_region u (node + 0) 8" by (rule read_region_page [OF d(1) _ mt [OF n(3)]]) (simp add: header_facts)
  then show "load64 t node = load64 s (base + j * 8) mod 18446744073709551616" by (simp add: u_def from_to_le)
  fix l assume l: "l < BUCKET_COUNT"
  show "load64 t (base + l * 8) = (if l = j then node else load64 s (base + l * 8))"
  proof (cases "l = j")
    case True
    then show ?thesis using d(2) by (simp add: t' from_to_le)
  next
    case False
    have "read_region t (base + l * 8) 8 = read_region u (base + l * 8) 8"
      unfolding t' by (rule read_write_other) (use False in auto)
    also have "\<dots> = read_region s (base + l * 8) 8"
      by (rule read_region_page [OF b(1)]) (use l mu [of base] n(3) in \<open>auto simp: layout_consts\<close>)
    finally show ?thesis using False by simp
  qed
qed

text \<open>
  What a write of shared state leaves behind: a node with the payload at the head of its bucket,
  the other buckets, the slots, the registry entries and the page pool of the region as before.
\<close>

definition posted ::
  "string \<Rightarrow> nat \<Rightarrow> byte list \<Rightarrow> (slot \<Rightarrow> nat list) \<Rightarrow> 'a arena_scheme \<Rightarrow> 'a arena_scheme \<Rightarrow> nat \<Rightarrow> nat \<Rightarrow> nat list \<Rightarrow> bool" where
  "posted name wid dat C s t k node ps \<longleftrightarrow>
     node_at t node wid k ps dat \<and> node \<in> avail s \<and> avail t \<subseteq> avail s - set (node # ps)
     \<and> set ps \<subseteq> avail s \<and> node \<notin> set ps \<and> shared_map_base t = shared_map_base s
     \<and> (\<forall>q. q \<notin> avail s \<and> q \<noteq> shared_map_base s \<longrightarrow> mem t q = mem s q)
     \<and> next_offset (mem t node) = bucket s (k mod BUCKET_COUNT) mod 18446744073709551616
     \<and> load64 t node = bucket s (k mod BUCKET_COUNT) mod 18446744073709551616
     \<and> (\<forall>j < BUCKET_COUNT. bucket t j = (if j = k mod BUCKET_COUNT then node else bucket s j))
     \<and> chains t C \<and> (\<forall>sl. chain_bytes t (C sl) = chain_bytes s (C sl)) \<and> map_ok t C
     \<and> reg_inv t \<and> k < next_atomic_idx t \<and> re_name (registry t k) = entry_name name \<and> (\<forall>i. name_cache t name = Some i \<longrightarrow> i = k)
     \<and> ext t = ext s \<and> mode_flag t = mode_flag s \<and> (\<exists>u. resolve_name_to_index name s = Inr (k, u))"

lemma write_shared_state_spec:
  assumes i: "reg_inv s" and C: "chains s C" and mp: "map_ok s C" and w: "write_shared_state name wid dat s = Inr t"
    and bnd: "wid < 4294967296" "length dat < 4294967296"
  shows "\<exists>k node ps. posted name wid dat C s t k node ps"
proof -
  define base where "base = shared_map_base s"
  obtain k s1 where r: "resolve_name_to_index name s = Inr (k, s1)" using w by (auto simp: write_shared_state_def split: sum.splits)
  note rs = resolve_spec [OF i r]
  obtain rr nn cc where s1: "s1 = s\<lparr>registry := rr, next_atomic_idx := nn, name_cache := cc\<rparr>" using rs by (auto simp: resolved_def)
  have b: "base \<noteq> 0" "PAGE_SIZE dvd base" "base \<notin> avail s" "\<And>sl. base \<notin> set (C sl)" using mp by (auto simp: map_ok_def base_def)
  have g: "guest_inv s" using C by (simp add: chains_def)
  have g1: "guest_inv s1" "avail s1 = avail s" using guest_inv_cong [OF g, of s1] by (simp_all add: s1)
  have "get_bucket_array s1 = Inr (base, s1)" using b(1) by (simp add: get_bucket_array_def s1 base_def)
  then obtain node s3 where n: "write_node k wid dat s1 = Inr (node, s3)" and t: "t = push_node (bucket_addr base k) node s3"
    using w r by (auto simp: write_shared_state_def split: sum.splits)
  define j where "j = k mod BUCKET_COUNT"
  have j: "j < BUCKET_COUNT" by (simp add: j_def layout_consts)
  have k: "k < next_atomic_idx s1" "reg_inv s1" "re_name (registry s1 k) = entry_name name" "k < 4294967296"
    using rs by (auto simp: resolved_def reg_inv_def REGISTRY_ENTRIES)
  obtain ps where ps: "node_at s3 node wid k ps dat" "node \<in> avail s" "guest_inv s3" "avail s3 \<subseteq> avail s - set (node # ps)" "set ps \<subseteq> avail s"
    "node \<notin> set ps" "same_slots s1 s3" "\<And>q. q \<notin> avail s \<Longrightarrow> mem s3 q = mem s1 q"
    using write_node_spec [OF g1(1) n k(4) bnd] unfolding g1(2) by blast
  have pn: "t = push_node (base + j * 8) node s3" using t by (simp add: bucket_addr_def j_def)
  have "base \<notin> avail s3" "node \<notin> avail s3" "node \<noteq> base" "base \<notin> set ps" using ps(2,4,5) b(3) by auto
  note P = push_node_spec [OF ps(3) b(2) this(1) j ps(1) this(2-4) ps(6) pn]
  have bs: "read_region s3 (base + l * 8) 8 = read_region s (base + l * 8) 8" if "l < BUCKET_COUNT" for l
    by (rule read_region_page [OF b(2)]) (use that ps(8) [OF b(3)] in \<open>auto simp: layout_consts s1\<close>)
  have "shared_map_base t = base" using P(3) ps(7) by (simp add: same_slots_def base_def s1)
  have bt: "bucket t l = (if l = j then node else bucket s l)" if "l < BUCKET_COUNT" for l
    using P(8) [OF that] bs [OF that] by (simp add: bucket_def \<open>shared_map_base t = base\<close> base_def)
  have ss: "same_slots s1 t" using same_slots_trans [OF ps(7) P(3)] .
  have mq: "mem t q = mem s q" if "q \<notin> avail s" "q \<noteq> base" for q
    using P(4) [of q] ps(8) [of q] that ps(2) by (auto simp: s1)
  have mt: "mem t q = mem s q" if "q \<in> set (C sl)" for q sl
  proof -
    have "q \<notin> avail s" using C that unfolding chains_def by blast
    then show ?thesis using mq b(4) [of sl] that by auto
  qed
  have sl: "get_head sl t = get_head sl s" "get_tail sl t = get_tail sl s" for sl
    using same_slots_access [OF ss] by (cases sl; simp add: s1)+
  have av: "avail t \<subseteq> avail s" "avail t \<subseteq> avail s - set (node # ps)" using P(2) ps(4) by auto
  have Ct: "chains t C" "chain_bytes t (C sl) = chain_bytes s (C sl)" for sl
    by (rule chains_keep [OF C P(1) av(1) sl]; erule mt)+
  have keep: "registry t = registry s1" "name_cache t = name_cache s1" "atomics t = atomics s1" "next_atomic_idx t = next_atomic_idx s1"
    "registry_lock t = registry_lock s1" "ext t = ext s1" "mode_flag t = mode_flag s1"
    using reg.write_node_keeps [OF n] hostf.write_node_keeps [OF n] by (auto simp: pn push_node_def)
  have "reg_inv t" using k(2) unfolding reg_inv_def keep .
  moreover have "name_cache t name = Some l \<longrightarrow> l = k" for l
    using k(1-3) inj_onD [of "\<lambda>i. re_name (registry s1 i)" "{..<next_atomic_idx s1}" l k] unfolding keep reg_inv_def by auto
  moreover have "map_ok t C" using b av(1) by (auto simp: map_ok_def \<open>shared_map_base t = base\<close>)
  ultimately show ?thesis
    using P(5-7) bs [OF j] bt Ct av(2) ps(2,5,6) k(1,3) mq r unfolding posted_def
    by (intro exI [of _ k] exI [of _ node] exI [of _ ps]) (simp add: keep bucket_def base_def [symmetric] j_def [symmetric] s1 \<open>shared_map_base t = base\<close>)
qed

section \<open>Properties\<close>

text \<open>
  Range reads of shared state. Whatever the region holds, a range read of committed state answers
  the slice of what the full read answers, and none exactly when there is no state or the range exceeds it.
\<close>

lemma state_range_is_slice:
  assumes "read_shared_state name s = Inr (st, t)" "0 < len" "off + len \<le> u32_max" "len \<le> 2147483647"
  shows "read_shared_state_range name off len s
    = Inr (case st of None \<Rightarrow> None | Some bs \<Rightarrow> if off + len \<le> length bs then Some (take len (drop off bs)) else None, t)"
proof -
  obtain i where r: "resolve_name_to_index name s = Inr (i, t)"
    using assms(1) by (auto simp: read_shared_state_def Let_def split: sum.splits if_splits)
  have st: "st = (if re_payload_offset (registry t i) = 0 then None
      else Some (read_lob t True (re_payload_offset (registry t i)) (re_payload_len (registry t i))))"
    using assms(1) r by (auto simp: read_shared_state_def Let_def split: if_splits)
  show ?thesis
    using assms(2-4) r st lob_range_read_lob [of "[]" len off "[]" 0 "re_payload_len (registry t i)" t True "re_payload_offset (registry t i)"]
    by (auto simp: read_shared_state_range_def Let_def)
qed

text \<open>A region with three bytes committed under a cached name.\<close>

definition committed_arena :: arena where
  "committed_arena = write_region (BUMP_ALLOCATOR_START + NODE_HEADER) [7, 8, 9]
     (fresh_arena\<lparr>name_cache := [''k'' \<mapsto> 0],
        registry := (\<lambda>_. \<lparr>re_name = entry_name ''k'', re_index = 0, re_payload_offset = BUMP_ALLOCATOR_START, re_payload_len = 3\<rparr>)\<rparr>)"

end
