(* ===== verification/Organizer.thy ===== *)
theory Organizer
  imports Shared_State
begin

text \<open>
  The organizer of shared state (\<open>host/src/runtime/mem_operation/organizer.rs\<close>) and the conflict policies
  (\<open>host/src/policy/consumption.rs\<close>): every bucket is detached, a policy picks the winner of its nodes, the winner
  is committed to the registry and pages are given back. The organizer works on window addresses, so the
  model is that of the direct mode, where a window address is a page of the region.
\<close>

section \<open>Conflict policies\<close>

record conflict_node =
  cn_offset :: nat
  cn_writer :: nat
  cn_len :: nat
  cn_reg :: nat
  cn_payload :: "byte list"

text \<open>
  The winner's content is the payload before its decoding to a string, which nothing reads.
\<close>

datatype consumption_result = Winner nat "byte list" | NoWinner

datatype consumption_policy = MaxIdWins | MinIdWins | MajorityWins | LastWriteWins | LargestPayloadWins

text \<open>\<open>max_by_key\<close> answers the last of the greatest elements, \<open>min_by_key\<close> the first of the least.\<close>

fun max_by :: "('a \<Rightarrow> 'a \<Rightarrow> bool) \<Rightarrow> 'a list \<Rightarrow> 'a option" where
  "max_by lt [] = None"
| "max_by lt (x # xs) = Some (fold (\<lambda>y m. if lt y m then m else y) xs x)"

fun min_by :: "('a \<Rightarrow> 'a \<Rightarrow> bool) \<Rightarrow> 'a list \<Rightarrow> 'a option" where
  "min_by lt [] = None"
| "min_by lt (x # xs) = Some (fold (\<lambda>y m. if lt y m then y else m) xs x)"

definition votes :: "conflict_node list \<Rightarrow> byte list \<Rightarrow> nat" where
  "votes nodes p = length (filter (\<lambda>n. cn_payload n = p) nodes)"

text \<open>\<open>order\<close> is the iteration order of the hash map of payload counts.\<close>

fun process_policy ::
  "(byte list list \<Rightarrow> byte list list) \<Rightarrow> consumption_policy \<Rightarrow> conflict_node list \<Rightarrow> consumption_result" where
  "process_policy order MaxIdWins nodes =
     (case max_by (\<lambda>a b. cn_writer a < cn_writer b) nodes of Some n \<Rightarrow> Winner (cn_writer n) (cn_payload n) | None \<Rightarrow> NoWinner)"
| "process_policy order MinIdWins nodes =
     (case min_by (\<lambda>a b. cn_writer a < cn_writer b) nodes of Some n \<Rightarrow> Winner (cn_writer n) (cn_payload n) | None \<Rightarrow> NoWinner)"
| "process_policy order MajorityWins nodes =
     (case max_by (\<lambda>a b. votes nodes a < votes nodes b) (order (remdups (map cn_payload nodes))) of
        Some p \<Rightarrow> (case find (\<lambda>n. cn_payload n = p) nodes of Some n \<Rightarrow> Winner (cn_writer n) p | None \<Rightarrow> NoWinner)
      | None \<Rightarrow> NoWinner)"
| "process_policy order LastWriteWins nodes =
     (case nodes of n # _ \<Rightarrow> Winner (cn_writer n) (cn_payload n) | [] \<Rightarrow> NoWinner)"
| "process_policy order LargestPayloadWins nodes =
     (case max_by (\<lambda>a b. cn_len a < cn_len b \<or> cn_len a = cn_len b \<and> cn_writer a < cn_writer b) nodes of
        Some n \<Rightarrow> Winner (cn_writer n) (cn_payload n) | None \<Rightarrow> NoWinner)"

text \<open>The node the organizer commits: the first one of the winning writer.\<close>

definition winner_node :: "consumption_result \<Rightarrow> conflict_node list \<Rightarrow> conflict_node option" where
  "winner_node r nodes = (case r of Winner w content \<Rightarrow> find (\<lambda>n. cn_writer n = w) nodes | NoWinner \<Rightarrow> None)"

section \<open>The organizer\<close>

partial_function (option) collect_nodes :: "'a shm_scheme \<Rightarrow> nat \<Rightarrow> conflict_node list \<Rightarrow> conflict_node list option" where
  "collect_nodes s cur acc =
     (if cur = 0 then Some acc
      else collect_nodes s (wrap32 (load64 s cur))
             (acc @ [\<lparr>cn_offset = cur, cn_writer = load32 s (cur + 8), cn_len = load32 s (cur + 12), cn_reg = load32 s (cur + 16),
                cn_payload = read_lob s True cur (load32 s (cur + 12))\<rparr>]))"

partial_function (option) free_lob_chain :: "os \<Rightarrow> bool \<Rightarrow> nat \<Rightarrow> 'a arena_scheme \<Rightarrow> (err + 'a arena_scheme) option" where
  "free_lob_chain os is_head cur s =
     (if cur = 0 then Some (Inr s)
      else Option.bind (free_page_chain os cur s) (\<lambda>r.
             case r of Inl e \<Rightarrow> Some (Inl e) | Inr t \<Rightarrow> free_lob_chain os False (wrap32 (load64 s (link_at is_head cur))) t))"

fun free_nodes :: "os \<Rightarrow> conflict_node list \<Rightarrow> 'a arena_scheme \<Rightarrow> (err + 'a arena_scheme) option" where
  "free_nodes os [] s = Some (Inr s)"
| "free_nodes os (n # ns) s =
     Option.bind (free_lob_chain os True (cn_offset n) s) (\<lambda>r.
       case r of Inl e \<Rightarrow> Some (Inl e) | Inr t \<Rightarrow> free_nodes os ns t)"

definition commit :: "conflict_node \<Rightarrow> 'a arena_scheme \<Rightarrow> err + 'a arena_scheme" where
  "commit n s =
     (if REGISTRY_ENTRIES \<le> cn_reg n then Inl (ArenaOverrun (cn_reg n))
      else Inr (s\<lparr>registry := (registry s)(cn_reg n :=
             (registry s (cn_reg n))\<lparr>re_payload_offset := cn_offset n, re_payload_len := cn_len n\<rparr>)\<rparr>))"

definition process_detached_list ::
  "os \<Rightarrow> (byte list list \<Rightarrow> byte list list) \<Rightarrow> consumption_policy \<Rightarrow> nat \<Rightarrow> 'a arena_scheme \<Rightarrow> (err + 'a arena_scheme) option" where
  "process_detached_list os order policy head s =
     Option.bind (collect_nodes s head []) (\<lambda>nodes.
       case winner_node (process_policy order policy nodes) nodes of
         Some w \<Rightarrow> (case commit w s of
                      Inl e \<Rightarrow> Some (Inl e)
                    | Inr t \<Rightarrow> free_nodes os (filter (\<lambda>n. cn_offset n \<noteq> cn_offset w) nodes) t)
       | None \<Rightarrow> free_nodes os nodes s)"

partial_function (option) recycle_chain :: "os \<Rightarrow> nat \<Rightarrow> 'a arena_scheme \<Rightarrow> (err + 'a arena_scheme) option" where
  "recycle_chain os cur s =
     (if cur = 0 then Some (Inr s)
      else Option.bind (free_page_chain os cur s) (\<lambda>r.
             case r of Inl e \<Rightarrow> Some (Inl e) | Inr t \<Rightarrow> recycle_chain os (wrap32 (load64 s cur)) t))"

declare collect_nodes.simps [code] free_lob_chain.simps [code] recycle_chain.simps [code]

fun consume_buckets ::
  "os \<Rightarrow> (byte list list \<Rightarrow> byte list list) \<Rightarrow> consumption_policy \<Rightarrow> nat list \<Rightarrow> 'a arena_scheme \<Rightarrow> (err + 'a arena_scheme) option" where
  "consume_buckets os order policy [] s = Some (Inr s)"
| "consume_buckets os order policy (i # is) s =
     (let list_head = wrap32 (bucket s i);
          s1 = store64 (shared_map_base s + i * 8) 0 s
      in if list_head = 0 then consume_buckets os order policy is s1
         else Option.bind (process_detached_list os order policy list_head s1) (\<lambda>r.
                case r of
                  Inl e \<Rightarrow> Some (Inl e)
                | Inr s2 \<Rightarrow> Option.bind (recycle_chain os list_head s2) (\<lambda>r'.
                    case r' of Inl e \<Rightarrow> Some (Inl e) | Inr s3 \<Rightarrow> consume_buckets os order policy is s3)))"

definition consume_all_buckets ::
  "os \<Rightarrow> (byte list list \<Rightarrow> byte list list) \<Rightarrow> consumption_policy \<Rightarrow> 'a arena_scheme \<Rightarrow> (err + 'a arena_scheme) option" where
  "consume_all_buckets os order policy s =
     (if shared_map_base s = 0 then Some (Inr s) else consume_buckets os order policy [0..<BUCKET_COUNT] s)"

section \<open>What the policies pick\<close>

text \<open>Greatest and least elements for a strict order whose complement is transitive.\<close>

definition weak_order :: "('a \<Rightarrow> 'a \<Rightarrow> bool) \<Rightarrow> bool" where
  "weak_order lt \<longleftrightarrow> (\<forall>a b. lt a b \<longrightarrow> \<not> lt b a) \<and> (\<forall>a b c. \<not> lt b a \<longrightarrow> \<not> lt c b \<longrightarrow> \<not> lt c a)"

lemma max_by_greatest:
  assumes "weak_order lt" "max_by lt xs = Some m"
  shows "m \<in> set xs \<and> (\<forall>x \<in> set xs. \<not> lt m x)"
proof -
  have asym: "\<And>a b. lt a b \<Longrightarrow> \<not> lt b a" and neg: "\<And>a b c. \<not> lt b a \<Longrightarrow> \<not> lt c b \<Longrightarrow> \<not> lt c a"
    using assms(1) unfolding weak_order_def by blast+
  have irr: "\<not> lt a a" for a using asym by blast
  obtain y ys where xs: "xs = y # ys" "m = fold (\<lambda>y m. if lt y m then m else y) ys y" using assms(2) by (cases xs) auto
  have "fold (\<lambda>y m. if lt y m then m else y) ys y \<in> insert y (set ys)
      \<and> (\<forall>x \<in> insert y (set ys). \<not> lt (fold (\<lambda>y m. if lt y m then m else y) ys y) x)" for y
  proof (induction ys arbitrary: y)
    case (Cons z zs)
    define m where "m = fold (\<lambda>y m. if lt y m then m else y) zs (if lt z y then y else z)"
    have m: "m \<in> insert (if lt z y then y else z) (set zs)" "\<forall>x \<in> insert (if lt z y then y else z) (set zs). \<not> lt m x"
      unfolding m_def using Cons [of "if lt z y then y else z"] by blast+
    then have "\<not> lt m y \<and> \<not> lt m z" using asym [of z y] neg [of y z m] neg [of z y m] by (cases "lt z y") simp_all
    then show ?case using m by (auto simp: m_def [symmetric] split: if_splits)
  qed (simp add: irr)
  then show ?thesis using xs by simp
qed

lemma min_by_least:
  assumes "weak_order lt" "min_by lt xs = Some m"
  shows "m \<in> set xs \<and> (\<forall>x \<in> set xs. \<not> lt x m)"
proof -
  have asym: "\<And>a b. lt a b \<Longrightarrow> \<not> lt b a" and neg: "\<And>a b c. \<not> lt b a \<Longrightarrow> \<not> lt c b \<Longrightarrow> \<not> lt c a"
    using assms(1) unfolding weak_order_def by blast+
  have irr: "\<not> lt a a" for a using asym by blast
  obtain y ys where xs: "xs = y # ys" "m = fold (\<lambda>y m. if lt y m then y else m) ys y" using assms(2) by (cases xs) auto
  have "fold (\<lambda>y m. if lt y m then y else m) ys y \<in> insert y (set ys)
      \<and> (\<forall>x \<in> insert y (set ys). \<not> lt x (fold (\<lambda>y m. if lt y m then y else m) ys y))" for y
  proof (induction ys arbitrary: y)
    case (Cons z zs)
    define m where "m = fold (\<lambda>y m. if lt y m then y else m) zs (if lt z y then z else y)"
    have m: "m \<in> insert (if lt z y then z else y) (set zs)" "\<forall>x \<in> insert (if lt z y then z else y) (set zs). \<not> lt x m"
      unfolding m_def using Cons [of "if lt z y then z else y"] by blast+
    then have "\<not> lt y m \<and> \<not> lt z m" using asym [of z y] neg [where a = m and b = z and c = y] neg [where a = m and b = y and c = z] by (cases "lt z y") simp_all
    then show ?case using m by (auto simp: m_def [symmetric] split: if_splits)
  qed (simp add: irr)
  then show ?thesis using xs by simp
qed

lemma max_min_total: "xs \<noteq> [] \<Longrightarrow> (\<exists>m. max_by lt xs = Some m) \<and> (\<exists>m. min_by lt xs = Some m)"
  by (cases xs) simp_all

text \<open>
  The node a policy commits among those of a bucket, newest first. A majority is decided between payloads, and the
  node is the first one of its payload; which of several most frequent payloads wins is left to the hash order.
\<close>

fun policy_choice :: "consumption_policy \<Rightarrow> conflict_node list \<Rightarrow> conflict_node \<Rightarrow> bool" where
  "policy_choice MaxIdWins nodes n \<longleftrightarrow> (\<forall>m \<in> set nodes. cn_writer m \<le> cn_writer n)"
| "policy_choice MinIdWins nodes n \<longleftrightarrow> (\<forall>m \<in> set nodes. cn_writer n \<le> cn_writer m)"
| "policy_choice MajorityWins nodes n \<longleftrightarrow> (\<forall>m \<in> set nodes. votes nodes (cn_payload m) \<le> votes nodes (cn_payload n))
     \<and> find (\<lambda>m. cn_payload m = cn_payload n) nodes = Some n"
| "policy_choice LastWriteWins nodes n \<longleftrightarrow> n = hd nodes"
| "policy_choice LargestPayloadWins nodes n \<longleftrightarrow>
     (\<forall>m \<in> set nodes. cn_len m < cn_len n \<or> cn_len m = cn_len n \<and> cn_writer m \<le> cn_writer n)"

lemma find_writer:
  assumes "n \<in> set nodes" "distinct (map cn_writer nodes)"
  shows "find (\<lambda>m. cn_writer m = cn_writer n) nodes = Some n"
  using assms by (induction nodes) (auto simp: image_iff)

lemma distinct_filter_eq_singleton: "distinct xs \<Longrightarrow> p \<in> set xs \<Longrightarrow> filter (\<lambda>x. x = p) xs = [p]"
  by (induction xs) (auto simp: filter_empty_conv)

lemma policy_winner:
  assumes ne: "nodes \<noteq> []" and o: "\<And>xs. set (order xs) = set xs"
  shows "\<exists>n. process_policy order policy nodes = Winner (cn_writer n) (cn_payload n) \<and> n \<in> set nodes \<and> policy_choice policy nodes n"
proof (cases policy)
  case MaxIdWins
  have "weak_order (\<lambda>a b. cn_writer a < cn_writer b)" by (auto simp: weak_order_def)
  from max_by_greatest [OF this] max_min_total [OF ne] MaxIdWins show ?thesis by (fastforce simp: not_less)
next
  case MinIdWins
  have "weak_order (\<lambda>a b. cn_writer a < cn_writer b)" by (auto simp: weak_order_def)
  from min_by_least [OF this] max_min_total [OF ne] MinIdWins show ?thesis by (fastforce simp: not_less)
next
  case MajorityWins
  let ?ps = "order (remdups (map cn_payload nodes))"
  have w: "weak_order (\<lambda>a b. votes nodes a < votes nodes b)" by (auto simp: weak_order_def)
  have sp: "set ?ps = cn_payload ` set nodes" using o by simp
  then have "?ps \<noteq> []" using ne by (metis image_is_empty list.set(1) set_empty)
  then obtain p where p: "max_by (\<lambda>a b. votes nodes a < votes nodes b) ?ps = Some p" using max_min_total by blast
  then have pm: "p \<in> cn_payload ` set nodes" "\<forall>m \<in> set nodes. votes nodes (cn_payload m) \<le> votes nodes p"
    using max_by_greatest [OF w p] sp by (auto simp: not_less)
  then obtain n where "find (\<lambda>n. cn_payload n = p) nodes = Some n" by (metis (mono_tags, lifting) find_None_iff image_iff option.exhaust)
  then have "n \<in> set nodes" "cn_payload n = p" "find (\<lambda>n. cn_payload n = p) nodes = Some n" by (auto simp: find_Some_iff)
  then show ?thesis using MajorityWins p pm(2) by auto
next
  case LastWriteWins
  then show ?thesis using ne by (cases nodes) auto
next
  case LargestPayloadWins
  have "weak_order (\<lambda>a b. cn_len a < cn_len b \<or> cn_len a = cn_len b \<and> cn_writer a < cn_writer b)" by (auto simp: weak_order_def)
  from max_by_greatest [OF this] max_min_total [OF ne] LargestPayloadWins show ?thesis by (fastforce simp: not_less)
qed

text \<open>A hash order that visits one payload last, which a tie of the counts then goes to.\<close>

definition put_last :: "'b \<Rightarrow> 'b list \<Rightarrow> 'b list" where
  "put_last p xs = filter (\<lambda>x. x \<noteq> p) xs @ filter (\<lambda>x. x = p) xs"

lemma mset_put_last: "mset (put_last p xs) = mset xs"
  by (simp add: put_last_def add.commute)

lemma max_by_last:
  assumes "\<forall>x \<in> set xs. \<not> lt p x"
  shows "max_by lt (xs @ [p]) = Some p"
proof (cases xs)
  case (Cons y ys)
  have "fold (\<lambda>y m. if lt y m then m else y) ys y \<in> insert y (set ys)" for y by (induction ys arbitrary: y) (auto split: if_splits)
  then have "fold (\<lambda>y m. if lt y m then m else y) ys y \<in> set xs" using Cons by simp
  then have "\<not> lt p (fold (\<lambda>y m. if lt y m then m else y) ys y)" using assms by blast
  then show ?thesis using Cons by simp
qed simp

lemma majority_put_last:
  assumes "policy_choice MajorityWins nodes m"
  shows "process_policy (put_last (cn_payload m)) MajorityWins nodes = Winner (cn_writer m) (cn_payload m)"
proof -
  let ?p = "cn_payload m" and ?ps = "remdups (map cn_payload nodes)"
  have m: "m \<in> set nodes" "find (\<lambda>n. cn_payload n = ?p) nodes = Some m" using assms by (auto simp: find_Some_iff)
  then have "filter (\<lambda>x. x = ?p) ?ps = [?p]" using distinct_filter_eq_singleton [of ?ps ?p] by simp
  then have "put_last ?p ?ps = filter (\<lambda>x. x \<noteq> ?p) ?ps @ [?p]" by (simp add: put_last_def)
  moreover have "\<forall>x \<in> set (filter (\<lambda>x. x \<noteq> ?p) ?ps). \<not> votes nodes ?p < votes nodes x" using assms by (auto simp: not_less)
  ultimately show ?thesis using m(2) max_by_last [of _ "\<lambda>a b. votes nodes a < votes nodes b"] by simp
qed

section \<open>Buckets without nodes\<close>

text \<open>Detaching a bucket changes only the page of the bucket array.\<close>

definition base_only :: "'a arena_scheme \<Rightarrow> 'a arena_scheme \<Rightarrow> bool" where
  "base_only s t \<longleftrightarrow> t = s\<lparr>mem := (mem s)(shared_map_base s := mem t (shared_map_base s))\<rparr>"

lemma base_onlyD:
  assumes "base_only s t"
  shows "shared_map_base t = shared_map_base s" "q \<noteq> shared_map_base s \<Longrightarrow> mem t q = mem s q" "registry t = registry s"
    "atomics t = atomics s" "name_cache t = name_cache s" "next_atomic_idx t = next_atomic_idx s" "registry_lock t = registry_lock s"
    "ext t = ext s" "mode_flag t = mode_flag s" "bump_allocator t = bump_allocator s" "free_list_heads t = free_list_heads s"
    "global_capacity t = global_capacity s" "local_capacity t = local_capacity s"
  by (subst assms [unfolded base_only_def], simp)+

lemma base_only_trans: "base_only s t \<Longrightarrow> base_only t u \<Longrightarrow> base_only s u"
proof -
  assume a: "base_only s t" "base_only t u"
  obtain m where t: "t = s\<lparr>mem := (mem s)(shared_map_base s := m)\<rparr>" using a(1) unfolding base_only_def by blast
  obtain m' where u: "u = t\<lparr>mem := (mem t)(shared_map_base t := m')\<rparr>" using a(2) unfolding base_only_def by blast
  show ?thesis unfolding base_only_def by (simp add: u t)
qed

lemma detach_bucket:
  assumes b: "PAGE_SIZE dvd shared_map_base s" and i: "i < BUCKET_COUNT" and t: "t = store64 (shared_map_base s + i * 8) 0 s"
  shows "base_only s t" "j < BUCKET_COUNT \<Longrightarrow> bucket t j = (if j = i then 0 else bucket s j)"
proof -
  have "mem t q = mem s q" if "q \<noteq> shared_map_base s" for q
    unfolding t by (rule write_region_mem [OF b _ _ that]) (use i in \<open>simp_all add: layout_consts\<close>)
  then have "mem t = (mem s)(shared_map_base s := mem t (shared_map_base s))" by (auto simp: fun_eq_iff)
  then show "base_only s t" unfolding base_only_def t write_region_def by (simp add: fun_eq_iff)
  assume j: "j < BUCKET_COUNT"
  show "bucket t j = (if j = i then 0 else bucket s j)"
  proof (cases "j = i")
    case False
    then have "shared_map_base s + j * 8 + 8 \<le> shared_map_base s + i * 8 \<or> shared_map_base s + i * 8 + length (to_le 8 0) \<le> shared_map_base s + j * 8"
      by simp linarith
    then show ?thesis using False unfolding bucket_def t by (simp add: read_write_other)
  qed (simp add: bucket_def t from_to_le)
qed

lemma consume_empty:
  assumes "PAGE_SIZE dvd shared_map_base s" "\<forall>i \<in> set is. i < BUCKET_COUNT \<and> bucket s i = 0"
  shows "\<exists>t. consume_buckets os order policy (is @ js) s = consume_buckets os order policy js t \<and> base_only s t
    \<and> (\<forall>j < BUCKET_COUNT. bucket t j = bucket s j)"
  using assms
proof (induction "is" arbitrary: s)
  case Nil
  then show ?case by (intro exI [of _ s]) (simp add: base_only_def)
next
  case (Cons i "is")
  define s1 where "s1 = store64 (shared_map_base s + i * 8) 0 s"
  have i: "i < BUCKET_COUNT" "bucket s i = 0" using Cons.prems(2) by auto
  note d = detach_bucket [OF Cons.prems(1) i(1) s1_def]
  have b: "bucket s1 j = bucket s j" if "j < BUCKET_COUNT" for j using d(2) [OF that] i(2) by simp
  have "consume_buckets os order policy ((i # is) @ js) s = consume_buckets os order policy (is @ js) s1"
    using i(2) by (simp add: s1_def)
  moreover obtain t where "consume_buckets os order policy (is @ js) s1 = consume_buckets os order policy js t" "base_only s1 t"
    "\<forall>j < BUCKET_COUNT. bucket t j = bucket s1 j"
    using Cons.IH [of s1] Cons.prems b base_onlyD(1) [OF d(1)] by auto
  ultimately show ?case using b base_only_trans [OF d(1)] by auto
qed

section \<open>One writer\<close>

lemma resolve_known:
  assumes i: "reg_inv s" and k: "k < next_atomic_idx s" "re_name (registry s k) = entry_name name"
  shows "\<exists>t. resolve_name_to_index name s = Inr (k, t) \<and> registry t = registry s \<and> mem t = mem s"
proof (cases "name_cache s name")
  case (Some l)
  then have "l < next_atomic_idx s" "re_name (registry s l) = re_name (registry s k)" using i k(2) by (auto simp: reg_inv_def)
  then have "l = k" using i k(1) by (auto simp: reg_inv_def inj_on_def)
  then show ?thesis using Some by (simp add: resolve_name_to_index_def)
next
  case None
  have "find_entry (entry_name name) s = Some k" using find_entry_eq(1) [OF i] k by simp
  moreover have "registry_lock s = 0" "k \<noteq> u32_max" using i k(1) by (auto simp: reg_inv_def REGISTRY_ENTRIES u32_max_def)
  ultimately show ?thesis using None by (simp add: resolve_name_to_index_def host_resolve_atomic_def)
qed

lemma one_node_collect:
  assumes "node_at s node w k ps dat" "load64 s node = 0"
  shows "collect_nodes s node [] = Some [\<lparr>cn_offset = node, cn_writer = w, cn_len = length dat, cn_reg = k, cn_payload = dat\<rparr>]"
  using assms lob_read [of s True node ps dat]
  by (auto simp: node_at_def collect_nodes.simps [of s node] collect_nodes.simps [of s 0])

lemma one_node_policy:
  assumes "\<And>xs. set (order xs) = set xs"
  shows "winner_node (process_policy order policy [n]) [n] = Some n"
  using policy_winner [of "[n]" order policy] assms by (auto simp: winner_node_def)

text \<open>Committing and recycling the only node of a bucket.\<close>

definition settled ::
  "string \<Rightarrow> byte list \<Rightarrow> nat \<Rightarrow> nat \<Rightarrow> nat \<Rightarrow> nat list \<Rightarrow> 'a arena_scheme \<Rightarrow> bool" where
  "settled name dat wid k node ps s \<longleftrightarrow> reg_inv s \<and> k < next_atomic_idx s \<and> re_name (registry s k) = entry_name name
     \<and> re_payload_offset (registry s k) = node \<and> re_payload_len (registry s k) = length dat
     \<and> node_at s node wid k ps dat \<and> node \<in> avail s"

lemma one_node_settles:
  assumes s: "reg_inv s" "alloc_inv s" "mode_flag s = Direct" "rbuf (ext s) = None"
    and k: "k < next_atomic_idx s" "re_name (registry s k) = entry_name name"
    and n: "node_at s node wid k ps dat" "load64 s node = 0" "next_offset (mem s node) = 0" "node \<notin> avail s" "BUMP_ALLOCATOR_START \<le> node" "node \<notin> set ps"
    and o: "\<And>xs. set (order xs) = set xs"
  shows "\<exists>t u. process_detached_list os order policy node s = Some (Inr t) \<and> recycle_chain os node t = Some (Inr u)
    \<and> settled name dat wid k node ps u \<and> shared_map_base u = shared_map_base s \<and> alloc_inv u \<and> avail u = insert node (avail s) \<and> (\<forall>q. q \<noteq> node \<longrightarrow> mem u q = mem s q)"
proof -
  define e where "e = (registry s k)\<lparr>re_payload_offset := node, re_payload_len := length dat\<rparr>"
  define t where "t = s\<lparr>registry := (registry s)(k := e)\<rparr>"
  have nd: "PAGE_SIZE dvd node" "0 < node" "node < 4294967296" using n(1) by (auto simp: node_at_def)
  have "k < REGISTRY_ENTRIES" using k(1) s(1) by (auto simp: reg_inv_def)
  then have p: "process_detached_list os order policy node s = Some (Inr t)"
    by (simp add: process_detached_list_def one_node_collect [OF n(1,2)] one_node_policy [OF o] commit_def t_def e_def)
  have t: "alloc_inv t" "avail t = avail s" "mode_flag t = Direct" "rbuf (ext t) = None" "mem t = mem s" "shared_map_base t = shared_map_base s"
    using alloc_inv_cong [OF s(2), of t] s(3,4) by (simp_all add: t_def)
  have rt: "reg_inv t" "re_name (registry t k) = entry_name name" "next_atomic_idx t = next_atomic_idx s"
  proof -
    have nm: "re_name (registry t i) = re_name (registry s i)" "re_index (registry t i) = re_index (registry s i)" for i by (simp_all add: t_def e_def)
    show "re_name (registry t k) = entry_name name" "next_atomic_idx t = next_atomic_idx s" using k(2) by (simp_all add: t_def e_def)
    show "reg_inv t" using s(1) unfolding reg_inv_def nm by (simp add: t_def)
  qed
  have ch: "chain (nxt t) node [node]" "set [node] \<inter> avail t = {}" using n(3,4) nd(2) by (simp_all add: t)
  obtain u where u: "free_page_chain os node t = Some (Inr u)" "alloc_inv u" "avail u = avail t \<union> set [node]"
    "u = t\<lparr>mem := mem u, free_list_heads := free_list_heads u\<rparr>" "\<forall>q. q \<notin> set [node] \<longrightarrow> mem u q = mem t q"
    by (rule free_page_chain_direct [OF t(1,3,4) ch]) (use nd n(5) in auto)
  have nx: "\<exists>v. mem u node = (mem t node)\<lparr>next_offset := v\<rparr>"
    using u(1) nd(2,3) chain_tail_spec [OF t(4) ch(1)]
    by (auto simp: free_page_chain_def current_mode_def t(3) push_chain_def Let_def upd_host_page_def page_key_direct [OF t(4)]
        host_page_direct [OF t(4)] split: if_splits)
  have eq: "registry u = registry t" "next_atomic_idx u = next_atomic_idx t" "shared_map_base u = shared_map_base t" "registry_lock u = registry_lock t"
    "name_cache u = name_cache t" "atomics u = atomics t" by (subst u(4), simp)+
  have "read_region t node 8 = read_region s node 8" by (rule read_region_cong) (simp add: byte_at_def t(5))
  then have l: "load64 t node = 0" using n(2) by simp
  have "recycle_chain os node t = Some (Inr u)"
    using u(1) nd(2) l by (simp add: recycle_chain.simps [of os node t] recycle_chain.simps [of os 0 u])
  moreover have "byte_at u (node + j) = byte_at s (node + j)" if "8 \<le> j" "j < PAGE_SIZE" for j
    using nx that(1) by (auto simp: byte_at_page [OF nd(1) that(2)] page_raw_def t(5))
  then have "node_at u node wid k ps dat"
    by (rule node_at_cong [OF n(1)]) (use u(5) n(6) t(5) in auto)
  moreover have "reg_inv u" using rt(1) unfolding reg_inv_def eq .
  ultimately show ?thesis using p u(2,3,5) rt k(1) t(2,5,6) unfolding settled_def
    by (intro exI [of _ t] exI [of _ u]) (auto simp: eq t_def e_def)
qed

lemma settled_cong:
  assumes c: "settled name dat wid k node ps s" and b: "base_only s t" "shared_map_base s \<notin> set (node # ps)" "shared_map_base s \<notin> avail s"
    and a: "alloc_inv s"
  shows "settled name dat wid k node ps t"
proof -
  note bD = base_onlyD [OF b(1)]
  have n: "node_at s node wid k ps dat" "reg_inv s" using c by (auto simp: settled_def)
  then have "PAGE_SIZE dvd node" by (simp add: node_at_def)
  moreover have "mem t node = mem s node" using bD(2) b(2) by auto
  ultimately have "node_at t node wid k ps dat"
    by (intro node_at_cong [OF n(1)] byte_at_same) (use bD(2) b(2) in \<open>simp_all, metis\<close>)
  moreover have "avail t = avail s" using alloc_inv_cong [OF a bD(10,11)] bD(2) b(3) by metis
  moreover have "reg_inv t" using n(2) unfolding reg_inv_def bD(3-7) .
  ultimately show ?thesis using c by (simp add: settled_def bD(3,6))
qed

lemma settled_read:
  assumes "settled name dat wid k node ps s" "length dat \<le> 2147483647"
  shows "\<exists>t. read_shared_state name s = Inr (Some dat, t)"
proof -
  have c: "reg_inv s" "k < next_atomic_idx s" "re_name (registry s k) = entry_name name" "re_payload_offset (registry s k) = node"
    "re_payload_len (registry s k) = length dat" "lob s True node ps dat" "0 < node" using assms(1) by (auto simp: settled_def node_at_def)
  obtain t where t: "resolve_name_to_index name s = Inr (k, t)" "registry t = registry s" "mem t = mem s" using resolve_known [OF c(1-3)] by blast
  have "lob t True node ps dat" by (rule lob_cong [OF c(6)]) (simp_all add: byte_at_def t(3))
  then show ?thesis using t c(4,5,7) lob_read [of t True node ps dat] assms(2) by (simp add: read_shared_state_def)
qed

text \<open>A region with one node in the bucket array and nothing else, and the same after buckets were detached.\<close>

definition lone_node ::
  "string \<Rightarrow> byte list \<Rightarrow> nat \<Rightarrow> nat \<Rightarrow> nat \<Rightarrow> nat list \<Rightarrow> 'a arena_scheme \<Rightarrow> bool" where
  "lone_node name dat wid k node ps s \<longleftrightarrow> reg_inv s \<and> alloc_inv s \<and> mode_flag s = Direct \<and> rbuf (ext s) = None
     \<and> k < next_atomic_idx s \<and> re_name (registry s k) = entry_name name \<and> node_at s node wid k ps dat \<and> load64 s node = 0
     \<and> next_offset (mem s node) = 0 \<and> node \<notin> avail s \<and> BUMP_ALLOCATOR_START \<le> node \<and> node \<notin> set ps
     \<and> shared_map_base s \<noteq> 0 \<and> PAGE_SIZE dvd shared_map_base s \<and> shared_map_base s \<notin> avail s \<union> set (node # ps)"

lemma lone_node_cong:
  assumes l: "lone_node name dat wid k node ps s" and b: "base_only s t"
  shows "lone_node name dat wid k node ps t"
proof -
  note bD = base_onlyD [OF b]
  have s: "alloc_inv s" "node_at s node wid k ps dat" "load64 s node = 0" "shared_map_base s \<notin> avail s" "shared_map_base s \<notin> set (node # ps)" "reg_inv s"
    using l by (auto simp: lone_node_def)
  have d: "PAGE_SIZE dvd node" using s(2) by (simp add: node_at_def)
  have n: "mem t node = mem s node" "\<And>q. q \<in> set ps \<Longrightarrow> mem t q = mem s q" using bD(2) s(5) by (simp, metis list.set_intros(2))
  have "alloc_inv t \<and> avail t = avail s" by (rule alloc_inv_cong [OF s(1) bD(10,11)]) (metis bD(2) s(4))
  moreover have "node_at t node wid k ps dat" by (rule node_at_cong [OF s(2)]) (use byte_at_same [OF d _ n(1)] n(2) in auto)
  moreover have "read_region t (node + 0) 8 = read_region s (node + 0) 8" by (rule read_region_page [OF d _ n(1)]) (simp add: header_facts)
  moreover have "reg_inv t" using s(6) unfolding reg_inv_def bD(3-7) .
  ultimately show ?thesis using l n(1) by (simp add: lone_node_def bD)
qed

text \<open>A run over a bucket array with one non-empty bucket.\<close>

lemma consume_rest:
  assumes "PAGE_SIZE dvd shared_map_base s" "\<And>i. i < BUCKET_COUNT \<Longrightarrow> bucket s i = 0"
  shows "\<exists>t. consume_buckets os order policy [j..<BUCKET_COUNT] s = Some (Inr t) \<and> base_only s t"
  using consume_empty [OF assms(1), of "[j..<BUCKET_COUNT]" os order policy "[]"] assms(2) by auto

lemma consume_one_bucket:
  assumes b: "shared_map_base s \<noteq> 0" "PAGE_SIZE dvd shared_map_base s" and n: "0 < node" "node < 4294967296"
    and j: "j < BUCKET_COUNT" "\<And>i. i < BUCKET_COUNT \<Longrightarrow> bucket s i = (if i = j then node else 0)"
  shows "\<exists>t. base_only s t \<and> (\<forall>i < BUCKET_COUNT. bucket t i = 0)
    \<and> consume_all_buckets os order policy s = Option.bind (process_detached_list os order policy node t) (\<lambda>r.
        case r of Inl e \<Rightarrow> Some (Inl e)
        | Inr u \<Rightarrow> Option.bind (recycle_chain os node u) (\<lambda>r'.
            case r' of Inl e \<Rightarrow> Some (Inl e) | Inr v \<Rightarrow> consume_buckets os order policy [Suc j..<BUCKET_COUNT] v))"
proof -
  let ?run = "consume_buckets os order policy"
  have split: "[0..<BUCKET_COUNT] = [0..<j] @ j # [Suc j..<BUCKET_COUNT]"
    using upt_add_eq_append [of 0 j "BUCKET_COUNT - j"] upt_conv_Cons [OF j(1)] j(1) by simp
  obtain t1 where t1: "?run ([0..<j] @ j # [Suc j..<BUCKET_COUNT]) s = ?run (j # [Suc j..<BUCKET_COUNT]) t1"
    "base_only s t1" "\<forall>i < BUCKET_COUNT. bucket t1 i = bucket s i"
    using consume_empty [OF b(2), of "[0..<j]" os order policy "j # [Suc j..<BUCKET_COUNT]"] j by auto
  define t2 where "t2 = store64 (shared_map_base t1 + j * 8) 0 t1"
  have b1: "PAGE_SIZE dvd shared_map_base t1" using base_onlyD(1) [OF t1(2)] b(2) by simp
  note d = detach_bucket [OF b1 j(1) t2_def]
  have "bucket t2 i = 0" if "i < BUCKET_COUNT" for i using d(2) [OF that] t1(3) j(2) [OF that] that by (auto split: if_splits)
  moreover have "base_only s t2" by (rule base_only_trans [OF t1(2) d(1)])
  moreover have "wrap32 (bucket t1 j) = node" using t1(3) j n(2) by simp
  then have "?run (j # [Suc j..<BUCKET_COUNT]) t1 = Option.bind (process_detached_list os order policy node t2) (\<lambda>r.
        case r of Inl e \<Rightarrow> Some (Inl e)
        | Inr u \<Rightarrow> Option.bind (recycle_chain os node u) (\<lambda>r'.
            case r' of Inl e \<Rightarrow> Some (Inl e) | Inr v \<Rightarrow> ?run [Suc j..<BUCKET_COUNT] v))"
    using n(1) by (simp add: t2_def Let_def)
  ultimately show ?thesis using b(1) t1(1) split by (intro exI [of _ t2]) (simp add: consume_all_buckets_def)
qed

lemma bucket_same:
  assumes "PAGE_SIZE dvd shared_map_base s" "shared_map_base t = shared_map_base s" "mem t (shared_map_base s) = mem s (shared_map_base s)" "i < BUCKET_COUNT"
  shows "bucket t i = bucket s i"
proof -
  have "read_region t (shared_map_base s + i * 8) 8 = read_region s (shared_map_base s + i * 8) 8"
    by (rule read_region_page [OF assms(1) _ assms(3)]) (use assms(4) in \<open>auto simp: layout_consts\<close>)
  then show ?thesis by (simp add: bucket_def assms(2))
qed

lemma consume_lone_node:
  assumes l: "lone_node name dat wid k node ps s" and j: "j < BUCKET_COUNT" "\<And>i. i < BUCKET_COUNT \<Longrightarrow> bucket s i = (if i = j then node else 0)"
    and o: "\<And>xs. set (order xs) = set xs"
  shows "\<exists>t. consume_all_buckets os order policy s = Some (Inr t) \<and> settled name dat wid k node ps t"
proof -
  have b: "shared_map_base s \<noteq> 0" "PAGE_SIZE dvd shared_map_base s" and n: "0 < node" "node < 4294967296"
    using l by (auto simp: lone_node_def node_at_def)
  obtain t where t: "base_only s t" "\<forall>i < BUCKET_COUNT. bucket t i = 0"
    and run: "consume_all_buckets os order policy s = Option.bind (process_detached_list os order policy node t) (\<lambda>r.
        case r of Inl e \<Rightarrow> Some (Inl e)
        | Inr u \<Rightarrow> Option.bind (recycle_chain os node u) (\<lambda>r'.
            case r' of Inl e \<Rightarrow> Some (Inl e) | Inr v \<Rightarrow> consume_buckets os order policy [Suc j..<BUCKET_COUNT] v))"
    using consume_one_bucket [OF b n j] by blast
  have l2: "lone_node name dat wid k node ps t" by (rule lone_node_cong [OF l t(1)])
  have "\<exists>t3 u. process_detached_list os order policy node t = Some (Inr t3) \<and> recycle_chain os node t3 = Some (Inr u)
      \<and> settled name dat wid k node ps u \<and> shared_map_base u = shared_map_base t \<and> alloc_inv u \<and> avail u = insert node (avail t)
      \<and> (\<forall>q. q \<noteq> node \<longrightarrow> mem u q = mem t q)"
    by (rule one_node_settles) (use l2 o in \<open>simp_all add: lone_node_def\<close>)
  then obtain t3 u where u: "process_detached_list os order policy node t = Some (Inr t3)" "recycle_chain os node t3 = Some (Inr u)"
    "settled name dat wid k node ps u" "shared_map_base u = shared_map_base t" "alloc_inv u" "avail u = insert node (avail t)" "\<forall>q. q \<noteq> node \<longrightarrow> mem u q = mem t q"
    by blast
  have base: "shared_map_base t \<notin> avail t \<union> set (node # ps)" "PAGE_SIZE dvd shared_map_base t" using l2 unfolding lone_node_def by blast+
  have "mem u (shared_map_base t) = mem t (shared_map_base t)" using u(7) base(1) by auto
  then have "bucket u i = 0" if "i < BUCKET_COUNT" for i using bucket_same [OF base(2) u(4) _ that] t(2) that by simp
  then obtain f where f: "consume_buckets os order policy [Suc j..<BUCKET_COUNT] u = Some (Inr f)" "base_only u f"
    using consume_rest [of u os order policy "Suc j"] base(2) u(4) by auto
  moreover have "settled name dat wid k node ps f" by (rule settled_cong [OF u(3) f(2)]) (use u(4-6) base(1) in auto)
  ultimately show ?thesis using run u(1,2) by simp
qed

section \<open>Two writers\<close>

text \<open>A path that returns to its start: no list of pages ends there.\<close>

lemma path_chain_drop: "path f h xs t \<Longrightarrow> chain f h ps \<Longrightarrow> chain f t (drop (length xs) ps)"
proof (induction xs arbitrary: h ps)
  case (Cons x xs)
  then obtain qs where "ps = x # qs" "chain f (f x) qs" by (cases ps) auto
  then show ?case using Cons.IH [of "f x" qs] Cons.prems(1) by simp
qed simp

lemma cycle_no_chain: "path f b (b # qs) b \<Longrightarrow> \<not> chain f b ps"
proof
  assume p: "path f b (b # qs) b" and c: "chain f b ps"
  have "ps = drop (length (b # qs)) ps" by (rule chain_unique [OF c path_chain_drop [OF p c]])
  then have "length ps = length ps - length (b # qs)" by (metis length_drop)
  then show False using p c by (cases ps) auto
qed

lemma chain_tail_ends:
  assumes r: "rbuf (ext h) = None" and t: "chain_tail h p = Some x" and p: "p \<noteq> 0"
  shows "\<exists>ps. chain (\<lambda>q. wrap32 (nxt h q)) p ps"
proof -
  have "rbuf (ext h) = None \<longrightarrow> p \<noteq> 0 \<longrightarrow> (\<exists>ps. chain (\<lambda>q. wrap32 (nxt h q)) p ps)"
  proof (rule chain_tail.raw_induct [where P = "\<lambda>h p x. rbuf (ext h) = None \<longrightarrow> p \<noteq> 0 \<longrightarrow> (\<exists>ps. chain (\<lambda>q. wrap32 (nxt h q)) p ps)", OF _ t])
    fix ct :: "'a host_scheme \<Rightarrow> nat \<Rightarrow> nat option" and h :: "'a host_scheme" and p x
    assume IH: "\<And>h p x. ct h p = Some x \<Longrightarrow> rbuf (ext h) = None \<longrightarrow> p \<noteq> 0 \<longrightarrow> (\<exists>ps. chain (\<lambda>q. wrap32 (nxt h q)) p ps)"
      and e: "(let next = wrap32 (next_offset (host_page h p)) in if next = 0 then Some p else ct h next) = Some x"
    show "rbuf (ext h) = None \<longrightarrow> p \<noteq> 0 \<longrightarrow> (\<exists>ps. chain (\<lambda>q. wrap32 (nxt h q)) p ps)"
    proof (intro impI)
      assume r: "rbuf (ext h) = None" and p: "p \<noteq> 0"
      show "\<exists>ps. chain (\<lambda>q. wrap32 (nxt h q)) p ps"
      proof (cases "wrap32 (nxt h p) = 0")
        case True
        then show ?thesis using p by (intro exI [of _ "[p]"]) simp
      next
        case False
        then have "ct h (wrap32 (nxt h p)) = Some x" using e by (simp add: Let_def host_page_direct [OF r])
        then obtain ps where "chain (\<lambda>q. wrap32 (nxt h q)) (wrap32 (nxt h p)) ps" using IH r False by blast
        then show ?thesis using p by (intro exI [of _ "p # ps"]) simp
      qed
    qed
  qed
  then show ?thesis using r p by simp
qed

text \<open>Freeing a page whose links run through taken and free pages, in terms of the links.\<close>

lemma free_links:
  assumes d: "mode_flag h = Direct" "rbuf (ext h) = None" and c: "chain (nxt h) p ps" "ps \<noteq> []" "\<forall>q \<in> set ps. q < 4294967296"
    and hd: "free_list_heads h (shard_of p) < 4294967296"
  shows "\<exists>t. free_page_chain os p h = Some (Inr t) \<and> nxt t = (nxt h)(last ps := free_list_heads h (shard_of p))
    \<and> t = h\<lparr>mem := mem t, free_list_heads := (free_list_heads h)(shard_of p := p)\<rparr> \<and> (\<forall>q. q \<notin> set ps \<longrightarrow> mem t q = mem h q)
    \<and> (\<forall>q. \<exists>v. mem t q = (mem h q)\<lparr>next_offset := v\<rparr>)"
proof -
  have p: "p \<noteq> 0" "wrap32 p = p" using c by (cases ps; auto)+
  have "chain_tail h p = Some (last ps)" by (rule chain_tail_spec [OF d(2) c(1,2)]) (use c(3) in auto)
  moreover define t where "t = h\<lparr>mem := (mem h)(last ps := (mem h (last ps))\<lparr>next_offset := free_list_heads h (shard_of p)\<rparr>),
    free_list_heads := (free_list_heads h)(shard_of p := p)\<rparr>"
  ultimately have "free_page_chain os p h = Some (Inr t)"
    using p d hd by (simp add: free_page_chain_def current_mode_def push_chain_def Let_def upd_host_page_def page_key_direct host_page_direct)
  moreover have "\<exists>v. mem t q = (mem h q)\<lparr>next_offset := v\<rparr>" for q
    by (cases "q = last ps") (auto simp: t_def intro: exI [of _ "next_offset (mem h q)"])
  ultimately show ?thesis using c(2) by (intro exI [of _ t]) (auto simp: t_def fun_eq_iff)
qed

lemma path_close: "chain f h ps \<Longrightarrow> ps \<noteq> [] \<Longrightarrow> path (f(last ps := t)) h ps t"
proof -
  assume c: "chain f h ps" and ne: "ps \<noteq> []"
  obtain xs x where ps: "ps = xs @ [x]" using ne by (metis rev_exhaust)
  then have "x \<notin> set xs" using chain_distinct [OF c] by simp
  then show ?thesis using c by (simp add: ps)
qed

lemma cycle_diverges:
  assumes d: "mode_flag h = Direct" "rbuf (ext h) = None" and c: "path (nxt h) b (b # qs) b" "\<forall>q \<in> set (b # qs). q < 4294967296"
    and q: "q \<in> set (b # qs)"
  shows "free_page_chain os q h = None"
proof -
  let ?f = "\<lambda>q. wrap32 (nxt h q)"
  have small: "nxt h p \<in> set (b # qs)" if p: "p \<in> set (b # qs)" for p
  proof -
    obtain xs ys where "b # qs = xs @ p # ys" using split_list [OF p] by blast
    then have "path (nxt h) (nxt h p) ys b" using c(1) by auto
    then show ?thesis using \<open>b # qs = xs @ p # ys\<close> by (cases ys) (auto simp: Cons_eq_append_conv)
  qed
  have "?f p = nxt h p" if "p \<in> set (b # qs)" for p using small [OF that] c(2) by (metis wrap32_id)
  then have "path ?f b (b # qs) b = path (nxt h) b (b # qs) b" by (rule path_cong)
  then have cyc: "path ?f b (b # qs) b" using c(1) by simp
  obtain xs ys where xy: "b # qs = xs @ q # ys" using split_list [OF q] by blast
  have q0: "q \<noteq> 0" "wrap32 q = q" using path_nonnull [OF c(1)] q c(2) by (metis, metis wrap32_id)
  have "chain_tail h q = None"
  proof (rule ccontr)
    assume "chain_tail h q \<noteq> None"
    then obtain ps where "chain ?f q ps" using chain_tail_ends [OF d(2) _ q0(1)] by blast
    moreover have "path ?f q (q # ys) b" using cyc unfolding xy by simp
    ultimately show False using cycle_no_chain [OF cyc] path_chain_drop by blast
  qed
  then show ?thesis using d(1) q0 by (simp add: free_page_chain_def current_mode_def)
qed

lemma load64_page: "PAGE_SIZE dvd p \<Longrightarrow> load64 s p = next_offset (mem s p) mod 18446744073709551616"
proof -
  assume p: "PAGE_SIZE dvd p"
  have "read_region s p 8 = to_le 8 (next_offset (mem s p))"
    by (rule nth_equalityI) (auto simp: byte_at_page [OF p] page_raw_def header_facts)
  then show ?thesis by (simp add: from_to_le)
qed

text \<open>
  Two linked nodes \<open>a\<close> and \<open>b\<close>: freeing the loser \<open>b\<close>, then \<open>a\<close> and \<open>b\<close> again as the organizer does, never returns
  or closes a cycle in the free list of \<open>b\<close>.
\<close>

definition free_list_cycle :: "nat \<Rightarrow> nat list \<Rightarrow> 'a host_scheme \<Rightarrow> bool" where
  "free_list_cycle b qs s \<longleftrightarrow> free_list_heads s (shard_of b) = b \<and> path (nxt s) b (b # qs) b \<and> (\<forall>q \<in> set (b # qs). q < 4294967296)
     \<and> mode_flag s = Direct \<and> rbuf (ext s) = None"

lemma free_list_facts:
  assumes i: "alloc_inv s"
  shows "\<exists>F. \<forall>j < FREE_LIST_SHARD_COUNT. chain (nxt s) (free_list_heads s j) (F j) \<and> set (F j) \<subseteq> avail s \<and> (\<forall>q \<in> set (F j). q < 4294967296)
    \<and> free_list_heads s j < 4294967296 \<and> (\<forall>k < FREE_LIST_SHARD_COUNT. j \<noteq> k \<longrightarrow> set (F j) \<inter> set (F k) = {})"
proof -
  obtain F where F: "free_lists s F" and bo: "bump_ok s" using i by (auto simp: alloc_inv_def)
  have "chain (nxt s) (free_list_heads s j) (F j) \<and> set (F j) \<subseteq> avail s \<and> (\<forall>q \<in> set (F j). q < 4294967296)
      \<and> free_list_heads s j < 4294967296 \<and> (\<forall>k < FREE_LIST_SHARD_COUNT. j \<noteq> k \<longrightarrow> set (F j) \<inter> set (F k) = {})"
    if j: "j < FREE_LIST_SHARD_COUNT" for j
  proof (intro conjI allI impI ballI)
    show c: "chain (nxt s) (free_list_heads s j) (F j)" by (rule free_listsD(1) [OF F j])
    show "set (F j) \<subseteq> avail s" using free_pages_eq [OF F] j by (auto simp: avail_def)
    show q: "q < 4294967296" if "q \<in> set (F j)" for q using free_listsD(2) [OF F j that] bo by (auto simp: heap_page_def bump_ok_def)
    show "free_list_heads s j < 4294967296" using chain_hd [OF c] q by (cases "F j") auto
    show "set (F j) \<inter> set (F k) = {}" if "k < FREE_LIST_SHARD_COUNT" "j \<noteq> k" for k
      using free_listsD(3) [OF F j that(1) that(2) [symmetric]] by blast
  qed
  then show ?thesis by blast
qed

lemma two_frees_cycle:
  assumes i: "alloc_inv s" and d: "mode_flag s = Direct" "rbuf (ext s) = None" and ab: "a \<noteq> b" "a \<notin> avail s" "b \<notin> avail s"
    "0 < a" "a < 4294967296" "0 < b" "b < 4294967296" and l: "nxt s a = b" "nxt s b = 0"
  shows "\<exists>t1 t2. free_page_chain os b s = Some (Inr t1) \<and> free_page_chain os a t1 = Some (Inr t2) \<and> nxt t1 a = b
    \<and> (\<exists>qs. set qs \<subseteq> avail s \<and> nxt t2 b \<in> insert 0 (set (b # qs)) \<and> (free_page_chain os b t2 = None
       \<or> (\<exists>t3. free_page_chain os b t2 = Some (Inr t3) \<and> free_list_cycle b qs t3 \<and> shared_map_base t3 = shared_map_base s
            \<and> (\<forall>q. q \<notin> insert a (insert b (avail s)) \<longrightarrow> mem t3 q = mem s q))))
    \<and> registry t1 = registry s"
proof -
  obtain F where F: "\<forall>j < FREE_LIST_SHARD_COUNT. chain (nxt s) (free_list_heads s j) (F j) \<and> set (F j) \<subseteq> avail s \<and> (\<forall>q \<in> set (F j). q < 4294967296)
    \<and> free_list_heads s j < 4294967296 \<and> (\<forall>k < FREE_LIST_SHARD_COUNT. j \<noteq> k \<longrightarrow> set (F j) \<inter> set (F k) = {})"
    using free_list_facts [OF i] by blast
  have sh: "shard_of p < FREE_LIST_SHARD_COUNT" for p by (simp add: shard_of_def layout_consts)
  define A B where "A = F (shard_of a)" and "B = F (shard_of b)"
  have A: "chain (nxt s) (free_list_heads s (shard_of a)) A" "set A \<subseteq> avail s" "\<forall>q \<in> set A. q < 4294967296" "free_list_heads s (shard_of a) < 4294967296"
    and B: "chain (nxt s) (free_list_heads s (shard_of b)) B" "set B \<subseteq> avail s" "\<forall>q \<in> set B. q < 4294967296" "free_list_heads s (shard_of b) < 4294967296"
    using F sh [of a] sh [of b] unfolding A_def B_def by blast+
  have nin: "a \<notin> set A" "b \<notin> set A" "a \<notin> set B" "b \<notin> set B" using A(2) B(2) ab(2,3) by auto
  obtain t1 where t1: "free_page_chain os b s = Some (Inr t1)" "nxt t1 = (nxt s)(b := free_list_heads s (shard_of b))"
    "t1 = s\<lparr>mem := mem t1, free_list_heads := (free_list_heads s)(shard_of b := b)\<rparr>" "\<forall>q. q \<notin> {b} \<longrightarrow> mem t1 q = mem s q"
    using free_links [OF d, of b "[b]" os] l(2) ab(6,7) B(4) by auto
  have d1: "mode_flag t1 = Direct" "rbuf (ext t1) = None" "shared_map_base t1 = shared_map_base s" "registry t1 = registry s"
    "free_list_heads t1 = (free_list_heads s)(shard_of b := b)" by (subst t1(3), simp add: d)+
  have c1: "chain (nxt t1) a (a # b # B)" unfolding t1(2) using l(1) ab(1,4,6) B(1) nin by simp
  have hA: "free_list_heads t1 (shard_of a) < 4294967296" using A(4) ab(7) by (simp add: d1(5))
  obtain t2 where t2: "free_page_chain os a t1 = Some (Inr t2)" "nxt t2 = (nxt t1)(last (b # B) := free_list_heads t1 (shard_of a))"
    "t2 = t1\<lparr>mem := mem t2, free_list_heads := (free_list_heads t1)(shard_of a := a)\<rparr>" "\<forall>q. q \<notin> set (a # b # B) \<longrightarrow> mem t2 q = mem t1 q"
    using free_links [OF d1(1,2) c1 _ _ hA, of os] ab(5,7) B(3) by auto
  have d2: "mode_flag t2 = Direct" "rbuf (ext t2) = None" "shared_map_base t2 = shared_map_base s"
    "free_list_heads t2 = (free_list_heads t1)(shard_of a := a)" by (subst t2(3), simp add: d1)+
  have c2: "chain (nxt t1) b (b # B)" using c1 by simp
  show ?thesis
  proof (cases "shard_of a = shard_of b")
    case True
    then have "path (nxt t2) b (b # B) b" using path_close [OF c2, of b] unfolding t2(2) d1(5) by simp
    moreover from this have "nxt t2 b \<in> set (b # B)" by (cases B) auto
    ultimately have "free_page_chain os b t2 = None" "nxt t2 b \<in> insert 0 (set (b # B))"
      using cycle_diverges [OF d2(1,2), of b B b os] ab(7) B(3) by auto
    then show ?thesis using t1(1) t2(1) c1 d1(4) B(2) by (intro exI [of _ t1] exI [of _ t2]) auto
  next
    case False
    define P where "P = b # B @ A"
    have h1: "free_list_heads t1 (shard_of a) = free_list_heads s (shard_of a)" using False by (simp add: d1(5))
    have "chain (nxt t1) (free_list_heads s (shard_of a)) A" unfolding t1(2) using A(1) nin(2) by simp
    moreover have "set (b # B) \<inter> set A = {}" using F sh [of a] sh [of b] False nin unfolding A_def B_def by force
    ultimately have c3: "chain (nxt t2) b P" using path_snoc_upd [OF c2 _ _ , of "free_list_heads s (shard_of a)" A] unfolding t2(2) h1 P_def by simp
    have P: "P \<noteq> []" "\<forall>q \<in> set P. q < 4294967296" using ab(7) A(3) B(3) by (auto simp: P_def)
    have hb: "free_list_heads t2 (shard_of b) = b" using False by (simp add: d2(4) d1(5))
    obtain t3 where t3: "free_page_chain os b t2 = Some (Inr t3)" "nxt t3 = (nxt t2)(last P := b)"
      "t3 = t2\<lparr>mem := mem t3, free_list_heads := (free_list_heads t2)(shard_of b := b)\<rparr>" "\<forall>q. q \<notin> set P \<longrightarrow> mem t3 q = mem t2 q"
      using free_links [OF d2(1,2) c3 P, of os] ab(7) by (auto simp: hb)
    have d3: "mode_flag t3 = Direct" "rbuf (ext t3) = None" "shared_map_base t3 = shared_map_base s" "free_list_heads t3 (shard_of b) = b"
      by (subst t3(3), simp add: d2)+
    have "path (nxt t3) b P b" using path_close [OF c3 P(1)] by (simp add: t3(2))
    then have "free_list_cycle b (B @ A) t3" using d3 P(2) unfolding free_list_cycle_def P_def by simp
    moreover have "nxt t2 b \<in> insert 0 (set P)" using c3 unfolding P_def by (cases "B @ A") auto
    moreover have "mem t3 q = mem s q" if "q \<notin> insert a (insert b (avail s))" for q
    proof -
      have "q \<notin> set A" "q \<notin> set B" using that A(2) B(2) by auto
      then show ?thesis using that t1(4) t2(4) t3(4) by (simp add: P_def)
    qed
    ultimately show ?thesis using t1(1) t2(1) t3(1) c1 d1(4) d3(3) A(2) B(2) unfolding P_def
      by (intro exI [of _ t1] exI [of _ t2] conjI exI [of _ "B @ A"]) auto
  qed
qed

text \<open>A bucket with two single-page nodes of different writers, the newer one in front.\<close>

definition two_nodes :: "nat \<Rightarrow> nat \<Rightarrow> 'a arena_scheme \<Rightarrow> bool" where
  "two_nodes a b s \<longleftrightarrow> alloc_inv s \<and> mode_flag s = Direct \<and> rbuf (ext s) = None
     \<and> (\<exists>w k d. node_at s a w k [] d \<and> k < REGISTRY_ENTRIES \<and> (\<exists>w' k' d'. node_at s b w' k' [] d' \<and> k' < REGISTRY_ENTRIES \<and> w' \<noteq> w))
     \<and> a \<noteq> b \<and> a \<notin> avail s \<and> b \<notin> avail s \<and> nxt s a = b \<and> nxt s b = 0
     \<and> shared_map_base s \<noteq> 0 \<and> PAGE_SIZE dvd shared_map_base s \<and> shared_map_base s \<notin> insert a (insert b (avail s))"

text \<open>The two nodes as the organizer collects them.\<close>

abbreviation node_of :: "nat \<Rightarrow> nat \<Rightarrow> nat \<Rightarrow> byte list \<Rightarrow> conflict_node" where
  "node_of a w k d \<equiv> \<lparr>cn_offset = a, cn_writer = w, cn_len = length d, cn_reg = k, cn_payload = d\<rparr>"

lemma two_nodes_collect:
  assumes t: "two_nodes a b s"
  shows "\<exists>w k d w' k' d'. collect_nodes s a [] = Some [node_of a w k d, node_of b w' k' d'] \<and> node_at s a w k [] d \<and> node_at s b w' k' [] d'
    \<and> k < REGISTRY_ENTRIES \<and> k' < REGISTRY_ENTRIES \<and> w' \<noteq> w"
proof -
  obtain w k d w' k' d' where n: "node_at s a w k [] d" "k < REGISTRY_ENTRIES" "node_at s b w' k' [] d'" "k' < REGISTRY_ENTRIES" "w' \<noteq> w"
    using t by (auto simp: two_nodes_def)
  have ab: "a \<noteq> b" "nxt s a = b" "nxt s b = 0" "0 < a" "0 < b" "b < 4294967296" "PAGE_SIZE dvd a" "PAGE_SIZE dvd b"
    using t n(1,3) by (auto simp: two_nodes_def node_at_def)
  have l: "load64 s a = b" "load64 s b = 0" using load64_page [OF ab(7), of s] load64_page [OF ab(8), of s] ab(2,3,6) by simp_all
  have "collect_nodes s a [] = Some [node_of a w k d, node_of b w' k' d']"
    using n(1,3) ab l lob_read [of s True a "[]" d] lob_read [of s True b "[]" d']
    by (auto simp: node_at_def collect_nodes.simps [of s a] collect_nodes.simps [of s b] collect_nodes.simps [of s 0])
  then show ?thesis using n by blast
qed

lemma winner_of_two:
  assumes "cn_writer m \<noteq> cn_writer n" "\<And>xs. set (order xs) = set xs"
  shows "winner_node (process_policy order policy [m, n]) [m, n] \<in> {Some m, Some n}"
proof -
  obtain x where "process_policy order policy [m, n] = Winner (cn_writer x) (cn_payload x)" "x \<in> set [m, n]"
    using policy_winner [where order = order and nodes = "[m, n]"] assms(2) by blast
  then show ?thesis using assms(1) by (auto simp: winner_node_def)
qed

text \<open>A node without overflow pages is freed by one call.\<close>

lemma free_single:
  assumes "node_at s p w k [] d"
  shows "free_lob_chain os True p (s\<lparr>registry := r\<rparr>) = free_page_chain os p (s\<lparr>registry := r\<rparr>)"
proof -
  have "read_region (s\<lparr>registry := r\<rparr>) (p + 24) 8 = read_region s (p + 24) 8" by (rule read_region_cong) (simp add: byte_at_def)
  then have "load64 (s\<lparr>registry := r\<rparr>) (p + 24) = 0" "p \<noteq> 0" using assms by (simp_all add: node_at_def)
  then show ?thesis
    by (simp add: free_lob_chain.simps [of os True p] free_lob_chain.simps [of os False 0] link_at_def bind_split_asm split: Option.bind_split sum.split)
qed

text \<open>The older node wins: both nodes are freed as one chain, and recycling the bucket closes that chain and then walks it forever.\<close>

lemma older_wins_diverges:
  assumes i: "alloc_inv s" and d: "mode_flag s = Direct" "rbuf (ext s) = None" and ab: "a \<noteq> b" "a \<notin> avail s" "b \<notin> avail s"
    "0 < a" "a < 4294967296" "0 < b" "b < 4294967296" "PAGE_SIZE dvd a" and l: "nxt s a = b" "nxt s b = 0"
  shows "\<exists>t1. free_page_chain os a s = Some (Inr t1) \<and> recycle_chain os a t1 = None"
proof -
  obtain F where F: "\<forall>j < FREE_LIST_SHARD_COUNT. chain (nxt s) (free_list_heads s j) (F j) \<and> set (F j) \<subseteq> avail s \<and> (\<forall>q \<in> set (F j). q < 4294967296)
    \<and> free_list_heads s j < 4294967296 \<and> (\<forall>k < FREE_LIST_SHARD_COUNT. j \<noteq> k \<longrightarrow> set (F j) \<inter> set (F k) = {})"
    using free_list_facts [OF i] by blast
  define A where "A = F (shard_of a)"
  have "shard_of a < FREE_LIST_SHARD_COUNT" by (simp add: shard_of_def layout_consts)
  then have A: "chain (nxt s) (free_list_heads s (shard_of a)) A" "set A \<subseteq> avail s" "\<forall>q \<in> set A. q < 4294967296" "free_list_heads s (shard_of a) < 4294967296"
    using F unfolding A_def by blast+
  have nin: "a \<notin> set A" "b \<notin> set A" using A(2) ab(2,3) by auto
  obtain t1 where t1: "free_page_chain os a s = Some (Inr t1)" "nxt t1 = (nxt s)(b := free_list_heads s (shard_of a))"
    "t1 = s\<lparr>mem := mem t1, free_list_heads := (free_list_heads s)(shard_of a := a)\<rparr>"
    using free_links [OF d, of a "[a, b]" os] l ab(1,4-7) A(4) by auto
  have d1: "mode_flag t1 = Direct" "rbuf (ext t1) = None" "free_list_heads t1 (shard_of a) = a" by (subst t1(3), simp add: d)+
  have c1: "chain (nxt t1) a (a # b # A)" unfolding t1(2) using l(1) ab(1,4,6) A(1) nin by simp
  have sm: "\<forall>q \<in> set (a # b # A). q < 4294967296" using ab(5,7) A(3) by simp
  obtain t2 where t2: "free_page_chain os a t1 = Some (Inr t2)" "nxt t2 = (nxt t1)(last (a # b # A) := a)"
    "t2 = t1\<lparr>mem := mem t2, free_list_heads := (free_list_heads t1)(shard_of a := a)\<rparr>"
    using free_links [OF d1(1,2) c1 _ sm, of os] ab(5) unfolding d1(3) by blast
  have d2: "mode_flag t2 = Direct" "rbuf (ext t2) = None" by (subst t2(3), simp add: d1)+
  have "path (nxt t2) a (a # b # A) a" unfolding t2(2) by (rule path_close [OF c1]) simp
  then have "free_page_chain os b t2 = None" using cycle_diverges [OF d2 _ sm, of b os] by simp
  moreover have "nxt t1 a = b" using t1(2) l(1) ab(1) by (metis fun_upd_apply)
  then have "wrap32 (load64 t1 a) = b" using load64_page [OF ab(8), of t1] ab(7) by simp
  ultimately have "recycle_chain os a t1 = None"
    using t2(1) ab(4,6) by (simp add: recycle_chain.simps [of os a] recycle_chain.simps [of os b])
  then show ?thesis using t1(1) by blast
qed

lemma newer_wins_cycle:
  assumes t: "two_nodes a b s"
  shows "\<exists>t. free_page_chain os b (s\<lparr>registry := r\<rparr>) = Some (Inr t) \<and> (recycle_chain os a t = None
    \<or> (\<exists>u qs. recycle_chain os a t = Some (Inr u) \<and> free_list_cycle b qs u \<and> shared_map_base u \<notin> set (b # qs)
         \<and> shared_map_base u = shared_map_base s \<and> mem u (shared_map_base s) = mem s (shared_map_base s)))"
proof -
  define s' where "s' = s\<lparr>registry := r\<rparr>"
  have ab: "a \<noteq> b" "nxt s a = b" "nxt s b = 0" "0 < a" "0 < b" "b < 4294967296" "PAGE_SIZE dvd a" "PAGE_SIZE dvd b" "a < 4294967296"
    "a \<notin> avail s" "b \<notin> avail s" "mode_flag s = Direct" "rbuf (ext s) = None" "alloc_inv s" "shared_map_base s \<notin> insert a (insert b (avail s))"
    using t by (auto simp: two_nodes_def node_at_def)
  have s': "alloc_inv s'" "avail s' = avail s" using alloc_inv_cong [OF ab(14), of s'] by (simp_all add: s'_def)
  have "\<exists>t1 t2. free_page_chain os b s' = Some (Inr t1) \<and> free_page_chain os a t1 = Some (Inr t2) \<and> nxt t1 a = b
    \<and> (\<exists>qs. set qs \<subseteq> avail s' \<and> nxt t2 b \<in> insert 0 (set (b # qs)) \<and> (free_page_chain os b t2 = None
       \<or> (\<exists>t3. free_page_chain os b t2 = Some (Inr t3) \<and> free_list_cycle b qs t3 \<and> shared_map_base t3 = shared_map_base s'
            \<and> (\<forall>q. q \<notin> insert a (insert b (avail s')) \<longrightarrow> mem t3 q = mem s' q))))
    \<and> registry t1 = registry s'"
    by (rule two_frees_cycle) (use ab s' in \<open>simp_all add: s'_def\<close>)
  then obtain t1 t2 qs where f: "free_page_chain os b s' = Some (Inr t1)" "free_page_chain os a t1 = Some (Inr t2)" "nxt t1 a = b"
    "registry t1 = r" "set qs \<subseteq> avail s" "nxt t2 b \<in> insert 0 (set (b # qs))"
    and g: "free_page_chain os b t2 = None \<or> (\<exists>t3. free_page_chain os b t2 = Some (Inr t3) \<and> free_list_cycle b qs t3
      \<and> shared_map_base t3 = shared_map_base s \<and> mem t3 (shared_map_base s) = mem s (shared_map_base s))"
    using s'(2) ab(15) unfolding s'_def by auto
  have ra: "recycle_chain os a t1 = recycle_chain os b t2"
    using f(2,3) ab(4,6) load64_page [OF ab(7), of t1] by (simp add: recycle_chain.simps [of os a])
  show ?thesis
  proof (cases "free_page_chain os b t2")
    case None
    then have "recycle_chain os b t2 = None" using ab(5) by (simp add: recycle_chain.simps [of os b])
    then show ?thesis using f(1) ra by (auto simp: s'_def)
  next
    case (Some x)
    then obtain t3 where t3: "free_page_chain os b t2 = Some (Inr t3)" "free_list_cycle b qs t3" "shared_map_base t3 = shared_map_base s"
      "mem t3 (shared_map_base s) = mem s (shared_map_base s)" using g by auto
    define z where "z = wrap32 (load64 t2 b)"
    have "nxt t2 b < 4294967296" using f(6) t3(2) by (auto simp: free_list_cycle_def)
    then have z: "z \<in> insert 0 (set (b # qs))" using f(6) load64_page [OF ab(8), of t2] by (simp add: z_def)
    have rb: "recycle_chain os b t2 = recycle_chain os z t3" using t3(1) ab(5) by (simp add: recycle_chain.simps [of os b] z_def)
    show ?thesis
    proof (cases "z = 0")
      case True
      then have "recycle_chain os a t1 = Some (Inr t3)" using ra rb by (simp add: recycle_chain.simps [of os 0])
      moreover have "shared_map_base s \<notin> set (b # qs)" using ab(15) f(5) by auto
      ultimately show ?thesis using f(1) t3 by (auto simp: s'_def)
    next
      case False
      have "free_page_chain os z t3 = None"
        by (rule cycle_diverges [of t3 b qs]) (use t3(2) z False in \<open>auto simp: free_list_cycle_def\<close>)
      then have "recycle_chain os a t1 = None" using ra rb False by (simp add: recycle_chain.simps [of os z])
      then show ?thesis using f(1) by (auto simp: s'_def)
    qed
  qed
qed

lemma two_nodes_bucket:
  assumes t: "two_nodes a b s" and o: "\<And>xs. set (order xs) = set xs"
  shows "\<exists>t. process_detached_list os order policy a s = Some (Inr t) \<and> (recycle_chain os a t = None
    \<or> (\<exists>u qs. recycle_chain os a t = Some (Inr u) \<and> free_list_cycle b qs u \<and> shared_map_base u \<notin> set (b # qs)
         \<and> shared_map_base u = shared_map_base s \<and> mem u (shared_map_base s) = mem s (shared_map_base s)))"
proof -
  obtain w k d w' k' d' where n: "collect_nodes s a [] = Some [node_of a w k d, node_of b w' k' d']" "node_at s a w k [] d" "node_at s b w' k' [] d'"
    "k < REGISTRY_ENTRIES" "k' < REGISTRY_ENTRIES" "w' \<noteq> w" using two_nodes_collect [OF t] by blast
  have ab: "a \<noteq> b" "alloc_inv s" using t by (auto simp: two_nodes_def)
  consider (newer) "winner_node (process_policy order policy [node_of a w k d, node_of b w' k' d']) [node_of a w k d, node_of b w' k' d'] = Some (node_of a w k d)"
    | (older) "winner_node (process_policy order policy [node_of a w k d, node_of b w' k' d']) [node_of a w k d, node_of b w' k' d'] = Some (node_of b w' k' d')"
    using winner_of_two [where order = order and policy = policy and m = "node_of a w k d" and n = "node_of b w' k' d'"] n(6) o by auto
  then show ?thesis
  proof cases
    case newer
    let ?s = "s\<lparr>registry := (registry s)(k := (registry s k)\<lparr>re_payload_offset := a, re_payload_len := length d\<rparr>)\<rparr>"
    have "process_detached_list os order policy a s = free_page_chain os b ?s"
      using n(1,4) newer ab(1) free_single [OF n(3)]
      by (simp add: process_detached_list_def commit_def split: Option.bind_split sum.split)
    then show ?thesis using newer_wins_cycle [OF t] by simp
  next
    case older
    let ?s = "s\<lparr>registry := (registry s)(k' := (registry s k')\<lparr>re_payload_offset := b, re_payload_len := length d'\<rparr>)\<rparr>"
    have "process_detached_list os order policy a s = free_page_chain os a ?s"
      using n(1,5) older ab(1) free_single [OF n(2)]
      by (simp add: process_detached_list_def commit_def split: Option.bind_split sum.split)
    moreover have "alloc_inv ?s" "avail ?s = avail s" using alloc_inv_cong [OF ab(2), of ?s] by simp_all
    then have "\<exists>t1. free_page_chain os a ?s = Some (Inr t1) \<and> recycle_chain os a t1 = None"
      by (intro older_wins_diverges [of ?s a b]) (use t n(2,3) in \<open>auto simp: two_nodes_def node_at_def\<close>)
    ultimately show ?thesis by auto
  qed
qed

lemma cycle_not_inv: "free_list_cycle b qs s \<Longrightarrow> \<not> alloc_inv s"
proof
  assume c: "free_list_cycle b qs s" and i: "alloc_inv s"
  have "shard_of b < FREE_LIST_SHARD_COUNT" by (simp add: shard_of_def layout_consts)
  then obtain ps where "chain (nxt s) b ps" using free_list_facts [OF i] c unfolding free_list_cycle_def by metis
  then show False using cycle_no_chain [of "nxt s" b qs] c unfolding free_list_cycle_def by blast
qed

lemma cycle_base_only:
  assumes "free_list_cycle b qs s" "base_only s t" "shared_map_base s \<notin> set (b # qs)"
  shows "free_list_cycle b qs t"
proof -
  note bD = base_onlyD [OF assms(2)]
  have "nxt t q = nxt s q" if "q \<in> set (b # qs)" for q using bD(2) [of q] that assms(3) by metis
  then have "path (nxt t) b (b # qs) b = path (nxt s) b (b # qs) b" by (rule path_cong)
  then show ?thesis using assms(1) unfolding free_list_cycle_def bD(8,9,11) by metis
qed

lemma two_nodes_cong:
  assumes "two_nodes a b s" "base_only s t"
  shows "two_nodes a b t"
proof -
  note bD = base_onlyD [OF assms(2)]
  obtain w k d w' k' d' where n: "node_at s a w k [] d" "k < REGISTRY_ENTRIES" "node_at s b w' k' [] d'" "w' \<noteq> w \<and> k' < REGISTRY_ENTRIES" "alloc_inv s"
    "shared_map_base s \<notin> insert a (insert b (avail s))" using assms(1) by (auto simp: two_nodes_def)
  have m: "mem t a = mem s a" "mem t b = mem s b" using bD(2) n(6) by auto
  have al: "PAGE_SIZE dvd a" "PAGE_SIZE dvd b" using n(1,3) by (auto simp: node_at_def)
  have "node_at t a w k [] d" "node_at t b w' k' [] d'"
    by (rule node_at_cong [OF n(1)] node_at_cong [OF n(3)]; use byte_at_same [OF al(1) _ m(1)] byte_at_same [OF al(2) _ m(2)] in simp)+
  moreover have "alloc_inv t \<and> avail t = avail s" by (rule alloc_inv_cong [OF n(5) bD(10,11)]) (metis bD(2) n(6) insert_iff)
  moreover have "\<exists>w k d. node_at t a w k [] d \<and> k < REGISTRY_ENTRIES \<and> (\<exists>w' k' d'. node_at t b w' k' [] d' \<and> k' < REGISTRY_ENTRIES \<and> w' \<noteq> w)"
    using calculation n(2,4) by blast
  ultimately show ?thesis using assms(1) m unfolding two_nodes_def bD by simp
qed

lemma two_nodes_consume:
  assumes t: "two_nodes a b s" and j: "j < BUCKET_COUNT" "\<And>i. i < BUCKET_COUNT \<Longrightarrow> bucket s i = (if i = j then a else 0)" and o: "\<And>xs. set (order xs) = set xs"
  shows "consume_all_buckets os order policy s = None
    \<or> (\<exists>u. consume_all_buckets os order policy s = Some (Inr u) \<and> \<not> alloc_inv u)"
proof -
  have b: "shared_map_base s \<noteq> 0" "PAGE_SIZE dvd shared_map_base s" "0 < a" "a < 4294967296"
    using t by (auto simp: two_nodes_def node_at_def)
  obtain s2 where s2: "base_only s s2" "\<forall>i < BUCKET_COUNT. bucket s2 i = 0"
    and run: "consume_all_buckets os order policy s = Option.bind (process_detached_list os order policy a s2) (\<lambda>r.
        case r of Inl e \<Rightarrow> Some (Inl e)
        | Inr u \<Rightarrow> Option.bind (recycle_chain os a u) (\<lambda>r'.
            case r' of Inl e \<Rightarrow> Some (Inl e) | Inr v \<Rightarrow> consume_buckets os order policy [Suc j..<BUCKET_COUNT] v))"
    using consume_one_bucket [OF b j] by blast
  have t2: "two_nodes a b s2" by (rule two_nodes_cong [OF t s2(1)])
  obtain x where x: "process_detached_list os order policy a s2 = Some (Inr x)" and y: "recycle_chain os a x = None
    \<or> (\<exists>u qs. recycle_chain os a x = Some (Inr u) \<and> free_list_cycle b qs u \<and> shared_map_base u \<notin> set (b # qs)
         \<and> shared_map_base u = shared_map_base s2 \<and> mem u (shared_map_base s2) = mem s2 (shared_map_base s2))"
    using two_nodes_bucket [OF t2 o] by blast
  show ?thesis
  proof (cases "recycle_chain os a x")
    case None
    then show ?thesis using run x by simp
  next
    case (Some z)
    then obtain u qs where u: "recycle_chain os a x = Some (Inr u)" "free_list_cycle b qs u" "shared_map_base u \<notin> set (b # qs)"
      "shared_map_base u = shared_map_base s2" "mem u (shared_map_base s2) = mem s2 (shared_map_base s2)" using y by auto
    have al: "PAGE_SIZE dvd shared_map_base s2" using t2 by (simp add: two_nodes_def)
    have "bucket u i = 0" if "i < BUCKET_COUNT" for i using bucket_same [OF al u(4,5) that] s2(2) that by simp
    then obtain f where f: "consume_buckets os order policy [Suc j..<BUCKET_COUNT] u = Some (Inr f)" "base_only u f"
      using consume_rest [of u os order policy "Suc j"] al u(4) by auto
    have "\<not> alloc_inv f" by (rule cycle_not_inv [OF cycle_base_only [OF u(2) f(2) u(3)]])
    then show ?thesis using run x u(1) f(1) by simp
  qed
qed

text \<open>A fresh region with an empty bucket array in its first page.\<close>

definition mapped_arena :: arena where
  "mapped_arena = fresh_arena\<lparr>shared_map_base := BUMP_ALLOCATOR_START, bump_allocator := BUMP_ALLOCATOR_START + PAGE_SIZE\<rparr>"

lemma mapped_arena_sel:
  "mem mapped_arena q = zero_page" "shared_map_base mapped_arena = BUMP_ALLOCATOR_START" "mode_flag mapped_arena = Direct" "rbuf (ext mapped_arena) = None"
  by (simp_all add: mapped_arena_def fresh_arena_sel extended_pool_new_def)

lemma mapped_arena_ok:
  "reg_inv mapped_arena" "chains mapped_arena (\<lambda>_. [])" "map_ok mapped_arena (\<lambda>_. [])" "bucket mapped_arena j = 0" "bump_room mapped_arena = 908530"
proof -
  show "reg_inv mapped_arena" by (simp add: reg_inv_def mapped_arena_def fresh_arena_sel)
  have fl: "free_lists mapped_arena (\<lambda>_. [])" by (simp add: free_lists_def mapped_arena_def fresh_arena_sel)
  moreover have "bump_ok mapped_arena" "cap_ok mapped_arena"
    by (simp_all add: bump_ok_def cap_ok_def mapped_arena_def fresh_arena_sel layout_consts)
  ultimately have "guest_inv mapped_arena" by (auto simp: guest_inv_def alloc_inv_def)
  moreover have "slot_chain mapped_arena sl []" for sl by (cases sl; simp add: slot_chain_def mapped_arena_def fresh_arena_sel)
  ultimately show "chains mapped_arena (\<lambda>_. [])" by (simp add: chains_def)
  have "BUMP_ALLOCATOR_START \<notin> avail mapped_arena"
    by (simp add: avail_def free_pages_eq [OF fl]) (simp add: mapped_arena_def)
  then show "map_ok mapped_arena (\<lambda>_. [])" by (simp add: map_ok_def mapped_arena_sel BUMP_ALLOCATOR_START_aligned)
  have z: "to_le n 0 ! i = 0" if "i < n" for n i using that by (induction n arbitrary: i) (auto simp: nth_Cons split: nat.split)
  have "byte_at mapped_arena p = 0" for p by (simp add: byte_at_def mapped_arena_sel zero_page_def page_raw_def z)
  then have "read_region mapped_arena p 8 = to_le 8 0" for p by (intro nth_equalityI) (simp_all add: z)
  then show "bucket mapped_arena j = 0" by (simp add: bucket_def from_to_le)
  show "bump_room mapped_arena = 908530" by (simp add: bump_room_def mapped_arena_def fresh_arena_sel layout_consts)
qed

lemma small_write_total:
  assumes "reg_inv s" "guest_inv s" "shared_map_base s \<noteq> 0" "next_atomic_idx s < REGISTRY_ENTRIES" "0 < bump_room s" "length dat \<le> 4064"
  shows "\<exists>t. write_shared_state name w dat s = Inr t \<and> bump_room s \<le> Suc (bump_room t) \<and> next_atomic_idx t \<le> Suc (next_atomic_idx s)"
proof -
  obtain k s1 where r: "resolve_name_to_index name s = Inr (k, s1)" using resolve_total [OF assms(1,4)] by blast
  note rs = resolve_spec [OF assms(1) r]
  obtain rr nn cc where s1: "s1 = s\<lparr>registry := rr, next_atomic_idx := nn, name_cache := cc\<rparr>" using rs by (auto simp: resolved_def)
  have g: "guest_inv s1" using guest_inv_cong [OF assms(2), of s1] by (simp add: s1)
  have br: "bump_room s1 = bump_room s" by (simp add: s1 bump_room_def)
  then obtain p s2 where al: "try_allocate_page s1 = Inr (p, s2)" using guest.alloc_total [OF g] assms(5) by auto
  moreover have "bump_room s1 \<le> Suc (bump_room s2)" using guest.alloc_room [OF g al] by simp
  moreover have "get_bucket_array s1 = Inr (shared_map_base s, s1)" using assms(3) by (simp add: get_bucket_array_def s1)
  moreover obtain s3 where n: "write_node k w dat s1 = Inr (p, s3)"
    using al assms(6) by (simp add: write_node_def Let_def write_overflow.simps layout_consts)
  moreover have "next_atomic_idx s3 = next_atomic_idx s1" using reg.write_node_keeps [OF n] by auto
  moreover have "next_atomic_idx s1 \<le> Suc (next_atomic_idx s)" using rs by (auto simp: resolved_def)
  moreover have "bump_room s3 = bump_room s2"
    using n al assms(6) by (auto simp: write_node_def Let_def write_overflow.simps bump_room_def layout_consts)
  ultimately show ?thesis using r br
    by (simp add: write_shared_state_def push_node_def bump_room_def layout_consts)
qed

section \<open>Properties\<close>

text \<open>
  C24. What a policy commits. For a non-empty list of nodes of distinct writers every policy has a winner,
  whose lookup cannot fail, and the committed node is the one of the greatest or least writer, the first node of a
  payload with most votes, the last write, or the longest payload with ties to the greater writer. A majority tie
  is settled by the hash order alone: every payload with most votes is committed under some order of the counts,
  so it is not the first occurrence that wins.
\<close>

theorem policies_commit_promised:
  assumes "nodes \<noteq> []" "distinct (map cn_writer nodes)" "\<And>xs. set (order xs) = set xs"
  shows "(\<exists>n \<in> set nodes. winner_node (process_policy order policy nodes) nodes = Some n \<and> policy_choice policy nodes n)
    \<and> (\<forall>m. policy_choice MajorityWins nodes m \<longrightarrow>
         (\<exists>ord. (\<forall>xs. mset (ord xs) = mset xs) \<and> winner_node (process_policy ord MajorityWins nodes) nodes = Some m))"
proof (intro conjI allI impI)
  obtain n where n: "process_policy order policy nodes = Winner (cn_writer n) (cn_payload n)" "n \<in> set nodes" "policy_choice policy nodes n"
    using policy_winner [where order = order] assms(1,3) by blast
  then show "\<exists>n \<in> set nodes. winner_node (process_policy order policy nodes) nodes = Some n \<and> policy_choice policy nodes n"
    using find_writer [OF n(2) assms(2)] by (intro bexI [of _ n]) (simp_all add: winner_node_def)
next
  fix m assume m: "policy_choice MajorityWins nodes m"
  then have "m \<in> set nodes" by (auto simp: find_Some_iff)
  then have "winner_node (process_policy (put_last (cn_payload m)) MajorityWins nodes) nodes = Some m"
    using find_writer [OF _ assms(2)] majority_put_last [OF m] by (simp add: winner_node_def del: process_policy.simps)
  then show "\<exists>ord. (\<forall>xs. mset (ord xs) = mset xs) \<and> winner_node (process_policy ord MajorityWins nodes) nodes = Some m"
    by (intro exI [of _ "put_last (cn_payload m)"]) (simp only: mset_put_last simp_thms)
qed

theorem policies_commit_promised_witness:
  "\<exists>n ord. winner_node (process_policy id MajorityWins
       [\<lparr>cn_offset = 3, cn_writer = 9, cn_len = 1, cn_reg = 0, cn_payload = [7]\<rparr>, \<lparr>cn_offset = 2, cn_writer = 8, cn_len = 1, cn_reg = 0, cn_payload = [5]\<rparr>])
       [\<lparr>cn_offset = 3, cn_writer = 9, cn_len = 1, cn_reg = 0, cn_payload = [7]\<rparr>, \<lparr>cn_offset = 2, cn_writer = 8, cn_len = 1, cn_reg = 0, cn_payload = [5]\<rparr>] = Some n
     \<and> winner_node (process_policy ord MajorityWins
       [\<lparr>cn_offset = 3, cn_writer = 9, cn_len = 1, cn_reg = 0, cn_payload = [7]\<rparr>, \<lparr>cn_offset = 2, cn_writer = 8, cn_len = 1, cn_reg = 0, cn_payload = [5]\<rparr>])
       [\<lparr>cn_offset = 3, cn_writer = 9, cn_len = 1, cn_reg = 0, cn_payload = [7]\<rparr>, \<lparr>cn_offset = 2, cn_writer = 8, cn_len = 1, cn_reg = 0, cn_payload = [5]\<rparr>]
       = Some \<lparr>cn_offset = 2, cn_writer = 8, cn_len = 1, cn_reg = 0, cn_payload = [5]\<rparr>"
proof -
  let ?m = "\<lparr>cn_offset = 2, cn_writer = 8, cn_len = 1, cn_reg = 0, cn_payload = [5]\<rparr>"
  let ?ns = "[\<lparr>cn_offset = 3, cn_writer = 9, cn_len = 1, cn_reg = 0, cn_payload = [7]\<rparr>, ?m]"
  have "distinct (map cn_writer ?ns)" "?ns \<noteq> []" "policy_choice MajorityWins ?ns ?m" by (simp_all add: votes_def)
  then show ?thesis using policies_commit_promised [of ?ns id MajorityWins] by (metis id_apply)
qed

text \<open>
  With two nodes of one writer the first of them is committed, which need not be the one the policy chose.
\<close>

lemma same_writer_commits_other:
  "let small = \<lparr>cn_offset = 2, cn_writer = 1, cn_len = 1, cn_reg = 0, cn_payload = [5]\<rparr>;
       large = \<lparr>cn_offset = 1, cn_writer = 1, cn_len = 2, cn_reg = 0, cn_payload = [6, 6]\<rparr>
   in process_policy order LargestPayloadWins [small, large] = Winner 1 [6, 6]
      \<and> winner_node (process_policy order LargestPayloadWins [small, large]) [small, large] = Some small"
  by (simp add: Let_def winner_node_def)

text \<open>
  C20. Write, consume, read. When one writer posts a state into empty buckets of a region in direct mode,
  the organizer returns under every policy and the next read of the name, before any page is
  allocated, answers exactly the written bytes, over as many overflow pages as they take; but the
  committed node is among the pages available for allocation.
\<close>

theorem single_writer_committed:
  assumes s: "reg_inv s" "chains s C" "map_ok s C" "mode_flag s = Direct" "rbuf (ext s) = None" "\<forall>j < BUCKET_COUNT. bucket s j = 0"
    and w: "write_shared_state name wid dat s = Inr t" "wid < 4294967296" "length dat \<le> 2147483647"
    and o: "\<And>xs. set (order xs) = set xs"
  shows "\<exists>u v k. consume_all_buckets os order policy t = Some (Inr u) \<and> read_shared_state name u = Inr (Some dat, v)
    \<and> k < next_atomic_idx u \<and> re_name (registry u k) = entry_name name \<and> re_payload_offset (registry u k) \<in> avail u"
proof -
  have len: "length dat < 4294967296" using w(3) by simp
  obtain k node ps where p: "posted name wid dat C s t k node ps" using write_shared_state_spec [OF s(1-3) w(1,2) len] by blast
  have j: "k mod BUCKET_COUNT < BUCKET_COUNT" by (simp add: layout_consts)
  have g: "guest_inv s" "guest_inv t" using s(2) p by (simp_all add: chains_def posted_def)
  have "lone_node name dat wid k node ps t"
    using p s(3-6) j g avail_aligned [of s node] unfolding lone_node_def by (auto simp: posted_def map_ok_def guest_inv_def)
  moreover have "bucket t i = (if i = k mod BUCKET_COUNT then node else 0)" if "i < BUCKET_COUNT" for i
    using p s(6) that by (simp add: posted_def)
  ultimately obtain u where u: "consume_all_buckets os order policy t = Some (Inr u)" "settled name dat wid k node ps u"
    using consume_lone_node [OF _ j _ o] by blast
  then show ?thesis using settled_read [OF u(2) w(3)] by (auto simp: settled_def)
qed

lemma mapped_guest_inv: "guest_inv mapped_arena" "shared_map_base mapped_arena \<noteq> 0" "next_atomic_idx mapped_arena = 0"
  using mapped_arena_ok(2,3) by (simp_all add: chains_def map_ok_def mapped_arena_def fresh_arena_sel)

theorem single_writer_committed_witness:
  "\<exists>t u v. write_shared_state ''k'' 5 [1, 2] mapped_arena = Inr t
     \<and> consume_all_buckets willing_os id MaxIdWins t = Some (Inr u) \<and> read_shared_state ''k'' u = Inr (Some [1, 2], v)"
proof -
  obtain t where t: "write_shared_state ''k'' 5 [1, 2] mapped_arena = Inr t"
    using small_write_total [OF mapped_arena_ok(1) mapped_guest_inv(1,2), of "[1, 2]" "''k''" 5] mapped_guest_inv(3)
    by (auto simp: mapped_arena_ok(5) REGISTRY_ENTRIES)
  show ?thesis
    using t single_writer_committed [OF mapped_arena_ok(1-3) mapped_arena_sel(3,4) _ t, of id willing_os MaxIdWins] mapped_arena_ok(4) by auto
qed

text \<open>
  C39. Two writers. When two different writers post states of at most one page under one name into empty buckets of a
  region in direct mode, the organizer, under every policy, either never returns or leaves a region whose free lists
  break the allocator invariant: the page of the loser is given back more than once.
\<close>

theorem two_writers_break_allocator:
  assumes s: "reg_inv s" "chains s C" "map_ok s C" "mode_flag s = Direct" "rbuf (ext s) = None" "\<forall>j < BUCKET_COUNT. bucket s j = 0"
    and w: "write_shared_state name w1 d1 s = Inr t1" "write_shared_state name w2 d2 t1 = Inr t" "w1 \<noteq> w2"
      "w1 < 4294967296" "w2 < 4294967296" "length d1 \<le> 4064" "length d2 \<le> 4064"
    and o: "\<And>xs. set (order xs) = set xs"
  shows "consume_all_buckets os order policy t = None
    \<or> (\<exists>u. consume_all_buckets os order policy t = Some (Inr u) \<and> \<not> alloc_inv u)"
proof -
  obtain k b ps where p1: "posted name w1 d1 C s t1 k b ps" using write_shared_state_spec [OF s(1-3) w(1) w(4)] w(6) by auto
  obtain k' a qs where p2: "posted name w2 d2 C t1 t k' a qs"
    using write_shared_state_spec [of t1 C name w2 d2 t] p1 w(2,5,7) by (auto simp: posted_def)
  have c: "reg_inv t1" "k < next_atomic_idx t1" "re_name (registry t1 k) = entry_name name" "\<exists>u. resolve_name_to_index name t1 = Inr (k', u)"
    using p1 p2 by (auto simp: posted_def)
  then have k: "k' = k" using resolve_known [OF c(1-3)] by auto
  define j where "j = k mod BUCKET_COUNT"
  have j: "j < BUCKET_COUNT" by (simp add: j_def layout_consts)
  have one: "ps = []" "qs = []" using p1 p2 w(6,7) by (cases ps; cases qs; simp add: posted_def node_at_def header_facts)+
  have base: "shared_map_base t = shared_map_base s" "shared_map_base t1 = shared_map_base s" using p1 p2 by (auto simp: posted_def)
  have b1: "node_at t1 b w1 k [] d1" "b \<notin> avail t1" "b \<noteq> shared_map_base s" "nxt t1 b = 0" "\<And>i. i < BUCKET_COUNT \<Longrightarrow> bucket t1 i = (if i = j then b else 0)"
    using p1 s(3,6) j unfolding one(1) by (auto simp: posted_def map_ok_def j_def)
  have a2: "node_at t a w2 k [] d2" "a \<in> avail t1" "avail t \<subseteq> avail t1" "a \<notin> avail t" "nxt t a = b mod 18446744073709551616"
    "\<And>i. i < BUCKET_COUNT \<Longrightarrow> bucket t i = (if i = j then a else 0)" "mem t b = mem t1 b"
    using p2 b1 j base unfolding one(2) k by (auto simp: posted_def j_def [symmetric])
  have al: "PAGE_SIZE dvd b" "b < 4294967296" "0 < a" "a < 4294967296" using b1(1) a2(1) by (auto simp: node_at_def)
  have bt: "node_at t b w1 k [] d1" by (rule node_at_cong [OF b1(1)]) (use byte_at_same [OF al(1) _ a2(7)] in auto)
  have mt: "map_ok t C" "chains t C" "k < REGISTRY_ENTRIES" "shared_map_base s \<notin> avail t1"
    using p1 p2 k c(1,2) base by (auto simp: posted_def reg_inv_def map_ok_def)
  have "two_nodes a b t"
    unfolding two_nodes_def
  proof (intro conjI exI)
    show "node_at t a w2 k [] d2" "node_at t b w1 k [] d1" "w1 \<noteq> w2" "k < REGISTRY_ENTRIES" by (rule a2(1) bt w(3) mt(3))+
    show "mode_flag t = Direct" "rbuf (ext t) = None" using p1 p2 s(4,5) by (auto simp: posted_def)
    show "nxt t a = b" "nxt t b = 0" using a2(5,7) al(2) b1(4) by simp_all
  qed (use mt a2(2-4) b1(2,3) base in \<open>auto simp: map_ok_def chains_def guest_inv_def\<close>)
  show ?thesis
    using two_nodes_consume [OF \<open>two_nodes a b t\<close> j a2(6) o] by blast
qed

theorem two_writers_break_allocator_witness:
  "\<exists>t1 t. write_shared_state ''k'' 5 [1] mapped_arena = Inr t1 \<and> write_shared_state ''k'' 6 [2] t1 = Inr t
     \<and> (consume_all_buckets willing_os id MajorityWins t = None
        \<or> (\<exists>u. consume_all_buckets willing_os id MajorityWins t = Some (Inr u) \<and> \<not> alloc_inv u))"
proof -
  have "next_atomic_idx mapped_arena < REGISTRY_ENTRIES" "0 < bump_room mapped_arena" "length [1 :: byte] \<le> 4064"
    by (simp_all add: mapped_guest_inv(3) mapped_arena_ok(5) REGISTRY_ENTRIES)
  then obtain t1 where t1: "write_shared_state ''k'' 5 [1] mapped_arena = Inr t1" "bump_room mapped_arena \<le> Suc (bump_room t1)"
    "next_atomic_idx t1 \<le> Suc (next_atomic_idx mapped_arena)"
    using small_write_total [OF mapped_arena_ok(1) mapped_guest_inv(1,2)] by blast
  obtain k node ps where p: "posted ''k'' 5 [1] (\<lambda>_. []) mapped_arena t1 k node ps"
    using write_shared_state_spec [OF mapped_arena_ok(1-3) t1(1)] by auto
  have "next_atomic_idx t1 < REGISTRY_ENTRIES" using t1(3) by (simp add: mapped_guest_inv(3) REGISTRY_ENTRIES)
  moreover have "reg_inv t1" "guest_inv t1" "shared_map_base t1 \<noteq> 0" using p by (auto simp: posted_def chains_def map_ok_def)
  moreover have "0 < bump_room t1" using t1(2) by (simp add: mapped_arena_ok(5))
  ultimately obtain t where t: "write_shared_state ''k'' 6 [2] t1 = Inr t" using small_write_total [of t1 "[2]" "''k''" 6] by auto
  show ?thesis
    using t1(1) t two_writers_break_allocator [OF mapped_arena_ok(1-3) mapped_arena_sel(3,4) _ t1(1) t, of id willing_os MajorityWins] mapped_arena_ok(4) by auto
qed

end
