(* ===== verification/Barrier.thy ===== *)
theory Barrier
  imports Dag_Plan
begin

text \<open>
  The futex barrier that the processes of one wave call (\<open>host_barrier_wait\<close> in
  \<open>host/src/runtime/worker.rs\<close>, \<open>barrier_wait\<close> in \<open>guest/src/api/barrier.rs\<close>) and the reset of its counters at
  the start of a wave (\<open>host/src/runtime/dag_runner/mod.rs\<close>). Every process runs a list of calls; a step is one
  atomic operation or one futex call of one process, in any interleaving.
\<close>

section \<open>Processes and steps\<close>

datatype pc = Running | Waking | Checking | Waiting nat | Asleep | Trapped

record wave_state =
  counters :: "nat \<Rightarrow> nat"
  todo :: "nat \<Rightarrow> (nat \<times> nat) list"
  pcs :: "nat \<Rightarrow> pc"

text \<open>The barrier of the call a process is in.\<close>

definition at_barrier :: "wave_state \<Rightarrow> nat \<Rightarrow> nat \<Rightarrow> bool" where
  "at_barrier s p b \<longleftrightarrow> pcs s p \<noteq> Running \<and> todo s p \<noteq> [] \<and> fst (hd (todo s p)) = b"

text \<open>\<open>fetch_add(1) + 1\<close>, then the branch on the number of arrivals.\<close>

definition arrive :: "nat \<Rightarrow> nat \<Rightarrow> nat \<Rightarrow> wave_state \<Rightarrow> wave_state" where
  "arrive p b n s = (let arrived = wrap32 (counters s b + 1) in
     s\<lparr>counters := (counters s)(b := arrived), pcs := (pcs s)(p := if n \<le> arrived then Waking else Checking)\<rparr>)"

text \<open>The call returns to the process.\<close>

definition return :: "nat \<Rightarrow> wave_state \<Rightarrow> wave_state" where
  "return p s = s\<lparr>pcs := (pcs s)(p := Running), todo := (todo s)(p := List.tl (todo s p))\<rparr>"

text \<open>\<open>FUTEX_WAKE\<close> with \<open>i32::MAX\<close>: every sleeper on the word resumes its loop.\<close>

definition futex_wake :: "nat \<Rightarrow> wave_state \<Rightarrow> wave_state" where
  "futex_wake b s = s\<lparr>pcs := (\<lambda>q. if pcs s q = Asleep \<and> at_barrier s q b then Checking else pcs s q)\<rparr>"

inductive program_step :: "wave_state \<Rightarrow> wave_state \<Rightarrow> bool" where
  trap: "pcs s p = Running \<Longrightarrow> todo s p = (b, n) # cs \<Longrightarrow> BARRIER_COUNT \<le> b \<Longrightarrow> program_step s (s\<lparr>pcs := (pcs s)(p := Trapped)\<rparr>)"
| arrive: "pcs s p = Running \<Longrightarrow> todo s p = (b, n) # cs \<Longrightarrow> b < BARRIER_COUNT \<Longrightarrow> program_step s (arrive p b n s)"
| wake: "pcs s p = Waking \<Longrightarrow> todo s p = (b, n) # cs \<Longrightarrow> program_step s (return p (futex_wake b s))"
| pass: "pcs s p = Checking \<Longrightarrow> todo s p = (b, n) # cs \<Longrightarrow> n \<le> counters s b \<Longrightarrow> program_step s (return p s)"
| load: "pcs s p = Checking \<Longrightarrow> todo s p = (b, n) # cs \<Longrightarrow> counters s b < n \<Longrightarrow>
    program_step s (s\<lparr>pcs := (pcs s)(p := Waiting (counters s b))\<rparr>)"
| sleep: "pcs s p = Waiting current \<Longrightarrow> todo s p = (b, n) # cs \<Longrightarrow> counters s b = current \<Longrightarrow>
    program_step s (s\<lparr>pcs := (pcs s)(p := Asleep)\<rparr>)"
| again: "pcs s p = Waiting current \<Longrightarrow> todo s p = (b, n) # cs \<Longrightarrow> counters s b \<noteq> current \<Longrightarrow>
    program_step s (s\<lparr>pcs := (pcs s)(p := Checking)\<rparr>)"

text \<open>A futex wait may also return without a wake.\<close>

inductive spurious_wake :: "wave_state \<Rightarrow> wave_state \<Rightarrow> bool" where
  spurious: "pcs s p = Asleep \<Longrightarrow> spurious_wake s (s\<lparr>pcs := (pcs s)(p := Checking)\<rparr>)"

text \<open>The runner resets the counters of the wave and starts its processes.\<close>

fun reset_barriers :: "nat list \<Rightarrow> (nat \<Rightarrow> nat) \<Rightarrow> nat \<Rightarrow> nat" where
  "reset_barriers [] c = c"
| "reset_barriers (b # bs) c = reset_barriers bs (c(b := 0))"

definition start_wave :: "nat list \<Rightarrow> (nat \<Rightarrow> nat) \<Rightarrow> (nat \<Rightarrow> (nat \<times> nat) list) \<Rightarrow> wave_state" where
  "start_wave ids c prog = \<lparr>counters = reset_barriers ids c, todo = prog, pcs = (\<lambda>_. Running)\<rparr>"

inductive reachable :: "wave_state \<Rightarrow> wave_state \<Rightarrow> bool" for s0 where
  start: "reachable s0 s0"
| prog_step: "reachable s0 s \<Longrightarrow> program_step s t \<Longrightarrow> reachable s0 t"
| spur_step: "reachable s0 s \<Longrightarrow> spurious_wake s t \<Longrightarrow> reachable s0 t"

inductive_cases spurious_wakeE: "spurious_wake s t"

section \<open>The wave is called as the planner assigns it\<close>

definition callers :: "(nat \<Rightarrow> (nat \<times> nat) list) \<Rightarrow> nat \<Rightarrow> nat set" where
  "callers prog b = {p. b \<in> fst ` set (prog p)}"

text \<open>
  Finitely many processes; each calls a barrier at most once, with the number of all callers as party
  count; and the runner has reset every barrier that is called.
\<close>

definition well_called :: "nat list \<Rightarrow> (nat \<Rightarrow> (nat \<times> nat) list) \<Rightarrow> bool" where
  "well_called ids prog \<longleftrightarrow> finite {p. prog p \<noteq> []} \<and> card {p. prog p \<noteq> []} < 4294967296
     \<and> (\<forall>p. distinct (map fst (prog p)))
     \<and> (\<forall>p. \<forall>(b, n) \<in> set (prog p). b < BARRIER_COUNT \<and> b \<in> set ids \<and> n = card (callers prog b))"

definition arrived :: "(nat \<Rightarrow> (nat \<times> nat) list) \<Rightarrow> wave_state \<Rightarrow> nat \<Rightarrow> nat set" where
  "arrived prog s b = {p. p \<in> callers prog b \<and> (b \<notin> fst ` set (todo s p) \<or> at_barrier s p b)}"

definition passed :: "(nat \<Rightarrow> (nat \<times> nat) list) \<Rightarrow> wave_state \<Rightarrow> nat \<Rightarrow> nat set" where
  "passed prog s b = {p. p \<in> callers prog b \<and> b \<notin> fst ` set (todo s p)}"

lemma reset_barriers_apply: "reset_barriers ids c b = (if b \<in> set ids then 0 else c b)"
  by (induction ids arbitrary: c) auto

lemma well_calledD:
  assumes "well_called ids prog" "(b, n) \<in> set (prog p)"
  shows "b < BARRIER_COUNT" "b \<in> set ids" "n = card (callers prog b)"
  using assms unfolding well_called_def by fast+

lemma finite_callers:
  assumes "well_called ids prog"
  shows "finite (callers prog b)" "card (callers prog b) < 4294967296"
proof -
  have sub: "callers prog b \<subseteq> {p. prog p \<noteq> []}" by (auto simp: callers_def)
  then show "finite (callers prog b)" using assms finite_subset by (auto simp: well_called_def)
  show "card (callers prog b) < 4294967296" using card_mono [OF _ sub] assms by (auto simp: well_called_def)
qed

text \<open>
  The invariant: the rest of every program is a suffix of it, nobody is between calls with an empty
  rest, the counter of a called barrier counts the arrivals, whoever has passed has seen all arrivals,
  a loaded value is below the party count, and nobody sleeps on a complete barrier unless a waker is due.
\<close>

definition wave_inv :: "(nat \<Rightarrow> (nat \<times> nat) list) \<Rightarrow> wave_state \<Rightarrow> bool" where
  "wave_inv prog s \<longleftrightarrow>
     (\<forall>p. \<exists>xs. prog p = xs @ todo s p)
     \<and> (\<forall>p. pcs s p \<noteq> Running \<longrightarrow> todo s p \<noteq> [])
     \<and> (\<forall>p. pcs s p \<noteq> Trapped)
     \<and> (\<forall>b. callers prog b \<noteq> {} \<longrightarrow> counters s b = card (arrived prog s b))
     \<and> (\<forall>b. passed prog s b \<noteq> {} \<longrightarrow> arrived prog s b = callers prog b)
     \<and> (\<forall>p b. pcs s p = Waking \<and> at_barrier s p b \<longrightarrow> arrived prog s b = callers prog b)
     \<and> (\<forall>p b. pcs s p = Asleep \<and> at_barrier s p b \<and> arrived prog s b = callers prog b \<longrightarrow>
          (\<exists>q. pcs s q = Waking \<and> at_barrier s q b))
     \<and> (\<forall>p b c. pcs s p = Waiting c \<and> at_barrier s p b \<longrightarrow> c < card (callers prog b))"


lemma wave_invD:
  assumes "wave_inv prog s"
  shows "\<exists>xs. prog p = xs @ todo s p" "pcs s p \<noteq> Running \<Longrightarrow> todo s p \<noteq> []" "pcs s p \<noteq> Trapped"
    "callers prog b \<noteq> {} \<Longrightarrow> counters s b = card (arrived prog s b)"
    "passed prog s b \<noteq> {} \<Longrightarrow> arrived prog s b = callers prog b"
    "pcs s p = Waking \<Longrightarrow> at_barrier s p b \<Longrightarrow> arrived prog s b = callers prog b"
    "pcs s p = Asleep \<Longrightarrow> at_barrier s p b \<Longrightarrow> arrived prog s b = callers prog b \<Longrightarrow> \<exists>q. pcs s q = Waking \<and> at_barrier s q b"
    "pcs s p = Waiting c \<Longrightarrow> at_barrier s p b \<Longrightarrow> c < card (callers prog b)"
  using assms unfolding wave_inv_def by blast+

lemma wave_invI:
  assumes "\<And>p. \<exists>xs. prog p = xs @ todo s p" "\<And>p. pcs s p \<noteq> Running \<Longrightarrow> todo s p \<noteq> []" "\<And>p. pcs s p \<noteq> Trapped"
    "\<And>b. callers prog b \<noteq> {} \<Longrightarrow> counters s b = card (arrived prog s b)"
    "\<And>b. passed prog s b \<noteq> {} \<Longrightarrow> arrived prog s b = callers prog b"
    "\<And>p b. pcs s p = Waking \<Longrightarrow> at_barrier s p b \<Longrightarrow> arrived prog s b = callers prog b"
    "\<And>p b. pcs s p = Asleep \<Longrightarrow> at_barrier s p b \<Longrightarrow> arrived prog s b = callers prog b \<Longrightarrow> \<exists>q. pcs s q = Waking \<and> at_barrier s q b"
    "\<And>p b c. pcs s p = Waiting c \<Longrightarrow> at_barrier s p b \<Longrightarrow> c < card (callers prog b)"
  shows "wave_inv prog s"
  unfolding wave_inv_def by (intro conjI allI impI; use assms in blast)

lemma arrived_callers: "arrived prog s b \<subseteq> callers prog b"
  by (auto simp: arrived_def)

lemma complete_arrival:
  assumes "well_called ids prog" "wave_inv prog s" "callers prog b \<noteq> {}" "card (callers prog b) \<le> counters s b"
  shows "arrived prog s b = callers prog b"
proof -
  have "card (callers prog b) \<le> card (arrived prog s b)" using wave_invD(4) [OF assms(2,3)] assms(4) by simp
  then show ?thesis
    using card_seteq [OF finite_callers(1) [OF assms(1)] arrived_callers] by blast
qed

lemma current_call:
  assumes w: "well_called ids prog" and i: "wave_inv prog s" and td: "todo s p = (b, n) # cs"
  shows "n = card (callers prog b)" "b < BARRIER_COUNT" "p \<in> callers prog b" "b \<notin> fst ` set cs"
proof -
  obtain xs where x: "prog p = xs @ (b, n) # cs" using wave_invD(1) [OF i, of p] td by auto
  have m: "(b, n) \<in> set (prog p)" by (simp add: x)
  show "n = card (callers prog b)" "b < BARRIER_COUNT" by (rule well_calledD [OF w m])+
  show "p \<in> callers prog b" using image_eqI [OF _ m, of b fst] by (simp add: callers_def)
  have "distinct (map fst (prog p))" using w by (simp add: well_called_def)
  then show "b \<notin> fst ` set cs" by (simp add: x)
qed

text \<open>Steps that only move processes inside their call.\<close>

lemma same_calls:
  assumes "todo t = todo s" "\<And>q. pcs t q = Running \<longleftrightarrow> pcs s q = Running"
  shows "at_barrier t q b \<longleftrightarrow> at_barrier s q b" "arrived prog t b = arrived prog s b" "passed prog t b = passed prog s b"
  using assms by (auto simp: at_barrier_def arrived_def passed_def)

lemma wave_inv_inside:
  assumes i: "wave_inv prog s" and same: "counters t = counters s" "todo t = todo s" "\<And>q. pcs t q = Running \<longleftrightarrow> pcs s q = Running"
    and pc: "\<And>q. pcs t q \<noteq> Trapped" "\<And>q. pcs t q = Waking \<longleftrightarrow> pcs s q = Waking"
    and sl: "\<And>q b. pcs t q = Asleep \<Longrightarrow> at_barrier s q b \<Longrightarrow> arrived prog s b = callers prog b \<Longrightarrow> pcs s q = Asleep"
    and wt: "\<And>q b c. pcs t q = Waiting c \<Longrightarrow> at_barrier s q b \<Longrightarrow> c < card (callers prog b)"
  shows "wave_inv prog t"
proof (rule wave_invI, unfold same(1,2) same(3) same_calls [OF same(2,3)] pc(2))
  show "\<exists>q. pcs s q = Waking \<and> at_barrier s q b" if "pcs t q = Asleep" "at_barrier s q b" "arrived prog s b = callers prog b" for q b
    using wave_invD(7) [OF i sl [OF that] that(2,3)] .
qed (use wave_invD(1-6) [OF i] pc(1) wt in \<open>blast+\<close>)

lemma wave_inv_return:
  assumes w: "well_called ids prog" and i: "wave_inv prog s" and td: "todo s p = (b, n) # cs" and pc: "pcs s p \<noteq> Running"
    and all: "arrived prog s b = callers prog b" and sl: "pcs s p = Waking \<Longrightarrow> \<forall>q. \<not> (pcs s q = Asleep \<and> at_barrier s q b)"
  shows "wave_inv prog (return p s)"
proof -
  let ?t = "return p s"
  note cc = current_call [OF w i td]
  have ab: "at_barrier ?t q c \<longleftrightarrow> q \<noteq> p \<and> at_barrier s q c" for q c by (auto simp: at_barrier_def return_def)
  have atp: "at_barrier s p c \<longleftrightarrow> c = b" for c using pc td by (auto simp: at_barrier_def)
  have td': "todo ?t q = (if q = p then cs else todo s q)" for q by (simp add: return_def td)
  have ar: "arrived prog ?t c = arrived prog s c" for c
    using cc(4) td unfolding arrived_def ab td' by (auto simp: atp intro: rev_image_eqI)
  have ps: "passed prog ?t c = (if c = b then insert p (passed prog s b) else passed prog s c)" for c
    using cc(3,4) td unfolding passed_def td' by (auto split: if_splits intro: rev_image_eqI)
  have pcq: "pcs ?t q = (if q = p then Running else pcs s q)" for q by (simp add: return_def)
  show ?thesis
  proof (rule wave_invI, unfold ar)
    fix q c d
    show "\<exists>xs. prog q = xs @ todo ?t q"
    proof (cases "q = p")
      case True
      obtain xs where "prog p = xs @ (b, n) # cs" using wave_invD(1) [OF i, of p] td by auto
      then show ?thesis by (simp add: td' True)
    qed (use wave_invD(1) [OF i, of q] in \<open>simp add: td'\<close>)
    show "pcs ?t q \<noteq> Running \<Longrightarrow> todo ?t q \<noteq> []" "pcs ?t q \<noteq> Trapped" using wave_invD(2,3) [OF i, of q] by (auto simp: pcq td')
    show "callers prog c \<noteq> {} \<Longrightarrow> counters ?t c = card (arrived prog s c)" using wave_invD(4) [OF i, of c] by (simp add: return_def)
    show "passed prog ?t c \<noteq> {} \<Longrightarrow> arrived prog s c = callers prog c" using wave_invD(5) [OF i, of c] all by (auto simp: ps split: if_splits)
    show "pcs ?t q = Waking \<Longrightarrow> at_barrier ?t q c \<Longrightarrow> arrived prog s c = callers prog c" using wave_invD(6) [OF i, of q c] by (auto simp: pcq ab)
    show "pcs ?t q = Waiting d \<Longrightarrow> at_barrier ?t q c \<Longrightarrow> d < card (callers prog c)" using wave_invD(8) [OF i, of q d c] by (auto simp: pcq ab)
    assume h: "pcs ?t q = Asleep" "at_barrier ?t q c" "arrived prog s c = callers prog c"
    then have q: "pcs s q = Asleep" "at_barrier s q c" by (auto simp: pcq ab split: if_splits)
    obtain r where r: "pcs s r = Waking" "at_barrier s r c" using wave_invD(7) [OF i q h(3)] by blast
    have "r \<noteq> p" using sl q r atp by auto
    then show "\<exists>r. pcs ?t r = Waking \<and> at_barrier ?t r c" using r by (intro exI [of _ r]) (simp add: pcq ab)
  qed
qed

lemma wave_inv_arrive:
  assumes w: "well_called ids prog" and i: "wave_inv prog s" and td: "todo s p = (b, n) # cs" and pc: "pcs s p = Running"
  shows "wave_inv prog (arrive p b n s)"
proof -
  let ?t = "arrive p b n s"
  note cc = current_call [OF w i td]
  have td': "todo ?t = todo s" by (simp add: arrive_def Let_def)
  have atp: "\<not> at_barrier s p c" for c using pc by (simp add: at_barrier_def)
  have ab: "at_barrier ?t q c \<longleftrightarrow> (if q = p then c = b else at_barrier s q c)" for q c
    using td by (auto simp: at_barrier_def arrive_def Let_def)
  have ar: "arrived prog ?t c = (if c = b then insert p (arrived prog s b) else arrived prog s c)" for c
    using cc(3) atp unfolding arrived_def ab td' by (auto split: if_splits)
  have ps: "passed prog ?t c = passed prog s c" for c by (simp add: passed_def td')
  have new: "p \<notin> arrived prog s b" using td atp by (simp add: arrived_def)
  have ne: "callers prog b \<noteq> {}" using cc(3) by auto
  have fin: "finite (arrived prog s b)" using finite_subset [OF arrived_callers finite_callers(1) [OF w]] .
  have sub: "insert p (arrived prog s b) \<subseteq> callers prog b" using cc(3) arrived_callers by blast
  have le: "Suc (card (arrived prog s b)) \<le> card (callers prog b)"
    using card_mono [OF finite_callers(1) [OF w] sub] new fin by simp
  then have cnt: "wrap32 (Suc (counters s b)) = Suc (card (arrived prog s b))"
    using wave_invD(4) [OF i ne] finite_callers(2) [OF w, of b] by (simp add: wrap32_id)
  have full: "insert p (arrived prog s b) = callers prog b \<longleftrightarrow> n \<le> Suc (card (arrived prog s b))"
    using card_seteq [OF finite_callers(1) [OF w] sub] card_insert_disjoint [OF fin new] unfolding cc(1) by auto
  have pcq: "pcs ?t q = (if q = p then if insert p (arrived prog s b) = callers prog b then Waking else Checking else pcs s q)" for q
    by (simp add: arrive_def Let_def cnt full)
  have ct: "counters ?t c = (if c = b then Suc (card (arrived prog s b)) else counters s c)" for c by (simp add: arrive_def Let_def cnt)
  show ?thesis
  proof (rule wave_invI, unfold ps td')
    fix q c d
    show "\<exists>xs. prog q = xs @ todo s q" by (rule wave_invD(1) [OF i])
    show "pcs ?t q \<noteq> Running \<Longrightarrow> todo s q \<noteq> []" "pcs ?t q \<noteq> Trapped" using wave_invD(2,3) [OF i, of q] td by (auto simp: pcq split: if_splits)
    show "callers prog c \<noteq> {} \<Longrightarrow> counters ?t c = card (arrived prog ?t c)"
      using wave_invD(4) [OF i, of c] new fin by (simp add: ar ct)
    show "passed prog s c \<noteq> {} \<Longrightarrow> arrived prog ?t c = callers prog c" using wave_invD(5) [OF i, of c] cc(3) by (auto simp: ar)
    show "pcs ?t q = Waking \<Longrightarrow> at_barrier ?t q c \<Longrightarrow> arrived prog ?t c = callers prog c"
      using wave_invD(6) [OF i, of q c] cc(3) by (auto simp: pcq ab ar split: if_splits)
    show "pcs ?t q = Waiting d \<Longrightarrow> at_barrier ?t q c \<Longrightarrow> d < card (callers prog c)"
      using wave_invD(8) [OF i, of q d c] by (auto simp: pcq ab split: if_splits)
    assume h: "pcs ?t q = Asleep" "at_barrier ?t q c" "arrived prog ?t c = callers prog c"
    then have q: "pcs s q = Asleep" "at_barrier s q c" by (auto simp: pcq ab split: if_splits)
    show "\<exists>r. pcs ?t r = Waking \<and> at_barrier ?t r c"
    proof (cases "c = b")
      case True
      then show ?thesis using h(3) by (intro exI [of _ p]) (simp add: pcq ab ar)
    next
      case False
      then obtain r where r: "pcs s r = Waking" "at_barrier s r c" using wave_invD(7) [OF i q] h(3) by (auto simp: ar)
      then have "r \<noteq> p" using pc by auto
      then show ?thesis using r by (intro exI [of _ r]) (simp add: pcq ab)
    qed
  qed
qed

lemma wave_inv_step:
  assumes w: "well_called ids prog" and i: "wave_inv prog s" and st: "program_step s t"
  shows "wave_inv prog t"
  using st
proof cases
  case (trap p b n cs)
  then show ?thesis using current_call(2) [OF w i trap(3)] by simp
next
  case (arrive p b n cs)
  then show ?thesis using wave_inv_arrive [OF w i] by simp
next
  case (wake p b n cs)
  let ?u = "futex_wake b s"
  have u: "wave_inv prog ?u"
    by (rule wave_inv_inside [OF i]) (use wave_invD(3,8) [OF i] in \<open>auto simp: futex_wake_def split: if_splits\<close>)
  have same: "todo ?u = todo s" "\<And>q. pcs ?u q = Running \<longleftrightarrow> pcs s q = Running" by (auto simp: futex_wake_def)
  have "at_barrier s p b" using wake by (simp add: at_barrier_def)
  then have "arrived prog ?u b = callers prog b" using wave_invD(6) [OF i wake(2)] same_calls(2) [OF same] by simp
  moreover have "\<forall>q. \<not> (pcs ?u q = Asleep \<and> at_barrier ?u q b)" using same_calls(1) [OF same] by (auto simp: futex_wake_def)
  ultimately show ?thesis
    using wave_inv_return [OF w u, of p b n cs] wake by (simp add: same(1)) (simp add: futex_wake_def)
next
  case (pass p b n cs)
  note cc = current_call [OF w i pass(3)]
  have "arrived prog s b = callers prog b" using complete_arrival [OF w i] pass(4) cc(1,3) by auto
  then show ?thesis using wave_inv_return [OF w i pass(3)] pass(1,2) by simp
next
  case (load p b n cs)
  note cc = current_call [OF w i load(3)]
  show ?thesis unfolding load(1)
    by (rule wave_inv_inside [OF i]) (use wave_invD(3,8) [OF i] load cc(1) in \<open>auto simp: at_barrier_def split: if_splits\<close>)
next
  case (sleep p c b n cs)
  note cc = current_call [OF w i sleep(3)]
  have "at_barrier s p b" using sleep by (simp add: at_barrier_def)
  moreover have "callers prog b \<noteq> {}" using cc(3) by auto
  ultimately have "arrived prog s b \<noteq> callers prog b"
    using wave_invD(8) [OF i sleep(2), of b] wave_invD(4) [OF i, of b] sleep(4) by auto
  then show ?thesis unfolding sleep(1)
    by (intro wave_inv_inside [OF i]) (use wave_invD(3,8) [OF i] sleep in \<open>auto simp: at_barrier_def split: if_splits\<close>)
next
  case (again p c b n cs)
  show ?thesis unfolding again(1)
    by (rule wave_inv_inside [OF i]) (use wave_invD(3,8) [OF i] again in \<open>auto split: if_splits\<close>)
qed

lemma wave_inv_spurious:
  assumes i: "wave_inv prog s" and "spurious_wake s t"
  shows "wave_inv prog t"
  using assms(2) by (elim spurious_wakeE) (rule wave_inv_inside [OF i]; use wave_invD(3,8) [OF i] in \<open>auto split: if_splits\<close>)

lemma wave_inv_start:
  assumes "well_called ids prog"
  shows "wave_inv prog (start_wave ids c prog)"
proof -
  have "arrived prog (start_wave ids c prog) b = {}" "passed prog (start_wave ids c prog) b = {}" for b
    by (auto simp: arrived_def passed_def callers_def at_barrier_def start_wave_def)
  moreover have "reset_barriers ids c b = 0" if "callers prog b \<noteq> {}" for b
    using that assms well_calledD(2) by (fastforce simp: callers_def reset_barriers_apply)
  ultimately show ?thesis by (intro wave_invI) (auto simp: start_wave_def at_barrier_def)
qed

lemma reachable_inv:
  assumes "reachable (start_wave ids c prog) s" "well_called ids prog"
  shows "wave_inv prog s"
  using assms(1)
proof induction
  case start
  show ?case by (rule wave_inv_start [OF assms(2)])
next
  case (prog_step s t)
  then show ?case using wave_inv_step [OF assms(2)] by blast
next
  case (spur_step s t)
  then show ?case using wave_inv_spurious by blast
qed


section \<open>Every wave ends\<close>

text \<open>The barriers of every process come in one common order.\<close>

definition ordered_calls :: "(nat \<Rightarrow> nat) \<Rightarrow> (nat \<Rightarrow> (nat \<times> nat) list) \<Rightarrow> bool" where
  "ordered_calls rank prog \<longleftrightarrow> (\<forall>p. sorted_wrt (\<lambda>x y. rank (fst x) < rank (fst y)) (prog p))"

text \<open>A process that is not asleep and has a call to make can step.\<close>

lemma process_can_step:
  assumes w: "well_called ids prog" and i: "wave_inv prog s" and td: "todo s p = (b, n) # cs" and pc: "pcs s p \<noteq> Asleep"
  shows "\<exists>t. program_step s t"
proof (cases "pcs s p")
  case Running
  then show ?thesis using program_step.arrive [OF _ td] current_call(2) [OF w i td] by blast
next
  case Waking
  then show ?thesis using program_step.wake [OF _ td] by blast
next
  case Checking
  then show ?thesis using program_step.pass [OF _ td] program_step.load [OF _ td] by (cases "n \<le> counters s b") auto
next
  case (Waiting c)
  then show ?thesis using program_step.sleep [OF _ td] program_step.again [OF _ td] by (cases "counters s b = c") auto
qed (use pc wave_invD(3) [OF i, of p] in simp_all)

lemma no_deadlock:
  assumes w: "well_called ids prog" and i: "wave_inv prog s" and o: "ordered_calls rank prog" and stuck: "\<And>t. \<not> program_step s t"
  shows "todo s p = []"
proof (rule ccontr)
  assume "todo s p \<noteq> []"
  define r where "r = (\<lambda>q. rank (fst (hd (todo s q))))"
  obtain q where q: "todo s q \<noteq> []" "\<And>q'. todo s q' \<noteq> [] \<Longrightarrow> r q \<le> r q'"
    using ex_has_least_nat [of "\<lambda>q. todo s q \<noteq> []" p r] \<open>todo s p \<noteq> []\<close> by blast
  obtain b n cs where td: "todo s q = (b, n) # cs" using q(1) by (metis neq_Nil_conv surj_pair)
  have asleep: "pcs s x = Asleep" if "todo s x \<noteq> []" for x
    using process_can_step [OF w i] stuck that by (metis neq_Nil_conv surj_pair)
  have "x \<in> arrived prog s b" if x: "x \<in> callers prog b" for x
  proof (cases "b \<in> fst ` set (todo s x)")
    case True
    then obtain b' n' cs' where tx: "todo s x = (b', n') # cs'" by (cases "todo s x") auto
    obtain xs where "prog x = xs @ (b', n') # cs'" using wave_invD(1) [OF i, of x] tx by auto
    moreover have "sorted_wrt (\<lambda>x y. rank (fst x) < rank (fst y)) (prog x)" using o by (simp add: ordered_calls_def)
    ultimately have later: "\<forall>y \<in> set cs'. rank b' < rank (fst y)" by (simp add: sorted_wrt_append)
    have "rank b \<le> rank b'" using q(2) [of x] by (simp add: r_def td tx)
    then have "b' = b" using True later by (fastforce simp: tx)
    then show ?thesis using asleep [of x] x tx by (simp add: arrived_def at_barrier_def)
  qed (use x in \<open>simp add: arrived_def\<close>)
  then have "arrived prog s b = callers prog b" using arrived_callers by blast
  moreover have "pcs s q = Asleep" "at_barrier s q b" using asleep [of q] td by (simp_all add: at_barrier_def)
  ultimately obtain x where "pcs s x = Waking" "at_barrier s x b" using wave_invD(7) [OF i] by blast
  then show False using asleep [of x] by (simp add: at_barrier_def)
qed

text \<open>The measure: calls left to make and to return from, then the position inside the waiting loop.\<close>

definition calls_left :: "wave_state \<Rightarrow> nat \<Rightarrow> nat" where
  "calls_left s p = 2 * length (todo s p) - (if pcs s p = Running then 0 else 1)"

fun loop_weight :: "nat \<Rightarrow> pc \<Rightarrow> nat" where
  "loop_weight c Checking = 2"
| "loop_weight c (Waiting d) = (if d = c then 1 else 3)"
| "loop_weight c _ = 0"

definition loop_left :: "wave_state \<Rightarrow> nat \<Rightarrow> nat" where
  "loop_left s p = (case todo s p of [] \<Rightarrow> 0 | (b, n) # cs \<Rightarrow> loop_weight (counters s b) (pcs s p))"

definition wave_measure :: "nat set \<Rightarrow> wave_state \<Rightarrow> nat \<times> nat" where
  "wave_measure P s = (\<Sum>p \<in> P. calls_left s p, \<Sum>p \<in> P. loop_left s p)"

lemma sum_less_one:
  fixes f :: "nat \<Rightarrow> nat"
  assumes "finite P" "p \<in> P" "f p < g p" "\<And>q. q \<noteq> p \<Longrightarrow> f q = g q"
  shows "sum f P < sum g P"
proof (rule sum_strict_mono_ex1 [OF assms(1)])
  show "\<forall>x \<in> P. f x \<le> g x" using assms(3,4) by (metis le_eq_less_or_eq)
  show "\<exists>a \<in> P. f a < g a" using assms(2,3) by blast
qed

lemma step_decreases:
  assumes w: "well_called ids prog" and i: "wave_inv prog s" and st: "program_step s t"
  shows "(wave_measure {p. prog p \<noteq> []} t, wave_measure {p. prog p \<noteq> []} s) \<in> less_than <*lex*> less_than"
proof -
  let ?P = "{p. prog p \<noteq> []}"
  have fin: "finite ?P" using w by (simp add: well_called_def)
  have mem: "p \<in> ?P" if "todo s p = c # cs" for p c cs using wave_invD(1) [OF i, of p] that by auto
  have call: ?thesis if "todo s p = c # cs" "calls_left t p < calls_left s p" "\<And>q. q \<noteq> p \<Longrightarrow> calls_left t q = calls_left s q" for p c cs
    using sum_less_one [of ?P p "calls_left t" "calls_left s"] fin mem [OF that(1)] that(2,3) by (simp add: wave_measure_def)
  have inside: ?thesis if "todo s p = c # cs" "todo t = todo s" "\<And>q. pcs t q = Running \<longleftrightarrow> pcs s q = Running"
    "loop_left t p < loop_left s p" "\<And>q. q \<noteq> p \<Longrightarrow> loop_left t q = loop_left s q" for p c cs
    using sum_less_one [of ?P p "loop_left t" "loop_left s"] fin mem [OF that(1)] that by (simp add: wave_measure_def calls_left_def)
  show ?thesis
    using st
  proof cases
    case (trap p b n cs)
    then show ?thesis using current_call(2) [OF w i trap(3)] by simp
  next
    case (arrive p b n cs)
    show ?thesis by (rule call [OF arrive(3)]) (use arrive in \<open>auto simp: calls_left_def arrive_def Let_def\<close>)
  next
    case (wake p b n cs)
    show ?thesis by (rule call [OF wake(3)]) (use wake in \<open>auto simp: calls_left_def return_def futex_wake_def\<close>)
  next
    case (pass p b n cs)
    show ?thesis by (rule call [OF pass(3)]) (use pass in \<open>auto simp: calls_left_def return_def\<close>)
  next
    case (load p b n cs)
    show ?thesis by (rule inside [OF load(3)]) (use load in \<open>auto simp: loop_left_def split: list.split\<close>)
  next
    case (sleep p c b n cs)
    show ?thesis by (rule inside [OF sleep(3)]) (use sleep in \<open>auto simp: loop_left_def split: list.split\<close>)
  next
    case (again p c b n cs)
    show ?thesis by (rule inside [OF again(3)]) (use again in \<open>auto simp: loop_left_def split: list.split\<close>)
  qed
qed

section \<open>Planned waves\<close>

text \<open>
  The calls of a wave whose nodes use the barrier the planner gave to their group: what the programs of a wave are
  assumed to do, since the guests choose the barrier they pass to \<open>barrier_wait\<close> themselves.
\<close>

definition wave_calls :: "'f dag_node list \<Rightarrow> nat list \<Rightarrow> (string \<rightharpoonup> nat \<times> nat) \<Rightarrow> nat \<Rightarrow> (nat \<times> nat) list" where
  "wave_calls ns w groups p =
     (if p \<in> set w then (case barrier_group (ns ! p) of None \<Rightarrow> [] | Some g \<Rightarrow> [the (groups g)]) else [])"

lemma wave_callsD:
  assumes "x \<in> set (wave_calls ns w groups p)"
  shows "p \<in> set w \<and> (\<exists>g. barrier_group (ns ! p) = Some g \<and> x = the (groups g))"
  using assms by (cases "p \<in> set w"; cases "barrier_group (ns ! p)") (simp_all add: wave_calls_def)

lemma planned_calls:
  assumes top: "topo_sort ns = Some (Inr order)" and val: "validate_barrier_groups ns (build_waves ns order) = Inr ()"
    and ho: "\<And>gs. mset (hash_order gs) = mset gs"
    and asg: "build_barrier_assignments hash_order ns (build_waves ns order) = Inr (resets, groups)"
    and n: "length ns < 4294967296" and l: "l < length (build_waves ns order)"
  defines "prog \<equiv> wave_calls ns (build_waves ns order ! l) groups"
  shows "well_called (resets ! l) prog" "ordered_calls id prog"
    and "p \<in> group_members ns g \<Longrightarrow> p \<in> set (build_waves ns order ! l) \<Longrightarrow>
      prog p = [the (groups g)] \<and> callers prog (fst (the (groups g))) = group_members ns g"
proof -
  let ?ws = "build_waves ns order" and ?w = "build_waves ns order ! l"
  have v: "valid_order ns order" using topo_sort_valid [OF top] by simp
  have as: "dom groups = {g. group_members ns g \<noteq> {}}" "length resets = length ?ws" "inj_on (\<lambda>g. fst (the (groups g))) (dom groups)"
    "\<And>g k c. groups g = Some (k, c) \<Longrightarrow> k < BARRIER_COUNT \<and> c = card (group_members ns g)
       \<and> (\<exists>m < length resets. k \<in> set (resets ! m) \<and> group_members ns g \<subseteq> set (?ws ! m))"
    using barrier_assignment_correct [OF top val ho] unfolding asg by auto
  have w: "set ?w \<subseteq> {..<length ns}" using wave_wf(2) [OF v] l by simp
  have dist: "distinct (concat ?ws)" using waves_partition [OF v] by (metis distinct_upt mset_eq_imp_distinct_iff)
  have one: "prog p = [the (groups g)]" if "p \<in> group_members ns g" "p \<in> set ?w" for p g
    using that by (simp add: prog_def wave_calls_def group_members_def)
  have inv: "\<exists>g. p \<in> group_members ns g \<and> x = the (groups g) \<and> p \<in> set ?w" if x: "x \<in> set (prog p)" for p x
  proof -
    obtain g where "p \<in> set ?w" "barrier_group (ns ! p) = Some g" "x = the (groups g)"
      using wave_callsD [OF x [unfolded prog_def]] by blast
    then show ?thesis using w by (intro exI [of _ g]) (auto simp: group_members_def)
  qed
  have grp: "callers prog (fst (the (groups g))) = group_members ns g" if g: "p \<in> group_members ns g" "p \<in> set ?w" for p g
  proof -
    have sub: "group_members ns g \<subseteq> set ?w" by (rule group_in_wave [OF v val l g])
    have "q \<in> group_members ns g" if q: "q \<in> callers prog (fst (the (groups g)))" for q
    proof -
      obtain h where h: "q \<in> group_members ns h" "fst (the (groups g)) = fst (the (groups h))"
        using q inv unfolding callers_def by blast
      have "g = h" by (rule inj_onD [OF as(3) h(2)]) (use g h as(1) in auto)
      then show ?thesis using h by simp
    qed
    then show ?thesis using sub one by (auto simp: callers_def)
  qed
  show "prog p = [the (groups g)] \<and> callers prog (fst (the (groups g))) = group_members ns g"
    if "p \<in> group_members ns g" "p \<in> set ?w" using one grp that by blast
  show "ordered_calls id prog" by (auto simp: ordered_calls_def prog_def wave_calls_def split: option.split)
  have fin: "{p. prog p \<noteq> []} \<subseteq> {..<length ns}" using w by (auto simp: prog_def wave_calls_def)
  then have "card {p. prog p \<noteq> []} < 4294967296" using card_mono [OF _ fin] n by simp
  moreover have "distinct (map fst (prog p))" for p by (simp add: prog_def wave_calls_def split: option.split)
  moreover have "b < BARRIER_COUNT \<and> b \<in> set (resets ! l) \<and> c = card (callers prog b)" if m: "(b, c) \<in> set (prog p)" for p b c
  proof -
    obtain g where g: "p \<in> group_members ns g" "(b, c) = the (groups g)" "p \<in> set ?w" using inv [OF m] by blast
    have "g \<in> dom groups" using as(1) g(1) by auto
    then have some: "groups g = Some (b, c)" using g(2) by (cases "groups g") auto
    then obtain k where k: "k < length ?ws" "b \<in> set (resets ! k)" "group_members ns g \<subseteq> set (?ws ! k)" using as(2,4) by metis
    have "p \<in> set (?ws ! k)" using k(3) g(1) by blast
    then have "k = l" using node_wave_spec [OF dist k(1)] node_wave_spec [OF dist l g(3)] by simp
    moreover have "callers prog b = group_members ns g" using grp [OF g(1,3)] g(2) by (metis fst_conv)
    ultimately show ?thesis using k(2) as(4) [OF some] by simp
  qed
  ultimately show "well_called (resets ! l) prog" using finite_subset [OF fin] unfolding well_called_def by fastforce
qed

section \<open>Properties\<close>

text \<open>
  No process passes a barrier early. When the callers of every barrier agree on their number and the
  runner has reset it, then in every interleaving, spurious wake-ups included, a process has
  returned from a barrier only after all its callers have arrived there, and no call traps.
\<close>

lemma barrier_safe:
  assumes "well_called ids prog" "reachable (start_wave ids c prog) s"
  shows "(passed prog s b \<noteq> {} \<longrightarrow> arrived prog s b = callers prog b) \<and> pcs s p \<noteq> Trapped"
  using wave_invD(3,5) [OF reachable_inv [OF assms(2,1)]] by blast

text \<open>
  C32. Every wave ends. When moreover all processes call their barriers in one common order, a reachable
  state without a further step has all calls returned, and no run of the processes from a reachable
  state goes on forever: no wake-up is lost.
\<close>

theorem barrier_releases:
  assumes "well_called ids prog" "ordered_calls rank prog" "reachable (start_wave ids c prog) s"
  shows "((\<nexists>t. program_step s t) \<longrightarrow> (\<forall>p. todo s p = [])) \<and> \<not> (\<exists>f. f 0 = s \<and> (\<forall>i. program_step (f i) (f (Suc i))))"
proof (intro conjI impI allI notI)
  note i = reachable_inv [OF assms(3,1)]
  show "todo s p = []" if "\<nexists>t. program_step s t" for p
    using no_deadlock [OF assms(1) i assms(2)] that by blast
  assume "\<exists>f. f 0 = s \<and> (\<forall>i. program_step (f i) (f (Suc i)))"
  then obtain f where f: "f 0 = s" "\<And>i. program_step (f i) (f (Suc i))" by blast
  have inv: "wave_inv prog (f k)" for k by (induction k) (use i f wave_inv_step [OF assms(1)] in auto)
  define m where "m = (\<lambda>k. wave_measure {p. prog p \<noteq> []} (f k))"
  have "(m (Suc k), m k) \<in> less_than <*lex*> less_than" for k
    unfolding m_def using step_decreases [OF assms(1) inv f(2)] .
  moreover have "wf (less_than <*lex*> less_than :: ((nat \<times> nat) \<times> (nat \<times> nat)) set)" by (intro wf_lex_prod wf_less_than)
  ultimately show False unfolding wf_iff_no_infinite_down_chain by blast
qed

text \<open>
  C31. The planned barriers of a validated DAG. In every wave whose nodes call the barrier assigned to their
  group, after the reset the runner makes, and in every interleaving: a node returns from its
  barrier only when all nodes of its group have arrived, and the wave cannot get stuck at a barrier.
\<close>

theorem planned_barriers_hold:
  assumes "topo_sort ns = Some (Inr order)" "validate_barrier_groups ns (build_waves ns order) = Inr ()"
    and "\<And>gs. mset (hash_order gs) = mset gs"
    and "build_barrier_assignments hash_order ns (build_waves ns order) = Inr (resets, groups)"
    and "length ns < 4294967296" "l < length (build_waves ns order)"
    and "reachable (start_wave (resets ! l) c (wave_calls ns (build_waves ns order ! l) groups)) s"
  shows "(\<forall>g p q. p \<in> group_members ns g \<and> p \<in> set (build_waves ns order ! l) \<and> todo s p = [] \<and> q \<in> group_members ns g \<longrightarrow>
      todo s q = [] \<or> pcs s q \<noteq> Running)
    \<and> ((\<nexists>t. program_step s t) \<longrightarrow> (\<forall>x. todo s x = []))"
proof (intro conjI allI impI; (elim conjE)?)
  let ?prog = "wave_calls ns (build_waves ns order ! l) groups"
  note pl = planned_calls [OF assms(1-6)]
  note i = reachable_inv [OF assms(7) pl(1)]
  show "todo s x = []" if "\<nexists>t. program_step s t" for x using no_deadlock [OF pl(1) i pl(2)] that by blast
  fix g p q
  assume h: "p \<in> group_members ns g" "p \<in> set (build_waves ns order ! l)" "todo s p = []" "q \<in> group_members ns g"
  let ?b = "fst (the (groups g))"
  have "p \<in> passed ?prog s ?b" using pl(3) [OF h(1,2)] h(1,3) by (simp add: passed_def)
  then have "arrived ?prog s ?b = group_members ns g" using wave_invD(5) [OF i, of ?b] pl(3) [OF h(1,2)] by auto
  then have q: "q \<in> arrived ?prog s ?b" using h(4) by simp
  have "q \<in> set (build_waves ns order ! l)"
    using group_in_wave [OF _ assms(2,6) h(1,2)] topo_sort_valid [OF assms(1)] h(4) by auto
  then have "?prog q = [the (groups g)]" using pl(3) [OF h(4)] by simp
  then have "todo s q = [] \<or> todo s q = [the (groups g)]" using wave_invD(1) [OF i, of q] by (auto simp: Cons_eq_append_conv)
  then show "todo s q = [] \<or> pcs s q \<noteq> Running" using q by (auto simp: arrived_def at_barrier_def)
qed

definition two_phase :: "nat \<Rightarrow> (nat \<times> nat) list" where
  "two_phase p = (if p < 2 then [(1, 2), (2, 2)] else [])"

lemma two_phase_ids: "fst ` set (two_phase p) = (if p < 2 then {1, 2} else {})"
  by (auto simp: two_phase_def image_def)

lemma two_phase_ok: "well_called [2, 1] two_phase" "ordered_calls id two_phase"
proof -
  have c: "callers two_phase b = (if b = 1 \<or> b = 2 then {..<2} else {})" for b by (auto simp: callers_def two_phase_ids)
  have "{p. two_phase p \<noteq> []} = {..<2}" by (auto simp: two_phase_def)
  moreover have "distinct (map fst (two_phase p))" for p by (simp add: two_phase_def)
  moreover have "\<forall>p. \<forall>(b, n) \<in> set (two_phase p). b < BARRIER_COUNT \<and> b \<in> set [2, 1] \<and> n = card (callers two_phase b)"
    by (auto simp: two_phase_def c layout_consts split: if_splits)
  ultimately show "well_called [2, 1] two_phase" unfolding well_called_def by simp
  show "ordered_calls id two_phase" by (simp add: ordered_calls_def two_phase_def)
qed

text \<open>The second process has arrived first and sleeps.\<close>

definition early_state :: wave_state where
  "early_state = \<lparr>counters = (\<lambda>_. 0)(1 := 1), todo = two_phase, pcs = (\<lambda>_. Running)(1 := Asleep)\<rparr>"

lemma early_reachable: "reachable (start_wave [2, 1] (\<lambda>_. 0) two_phase) early_state"
proof -
  let ?s = "start_wave [2, 1] (\<lambda>_. 0) two_phase"
  have r: "reset_barriers [2, 1] (\<lambda>_. 0) = (\<lambda>_. 0)" by (rule ext) (simp add: reset_barriers_apply)
  define s1 where "s1 = \<lparr>counters = (\<lambda>_. 0)(1 := 1), todo = two_phase, pcs = (\<lambda>_. Running)(1 := Checking)\<rparr>"
  define s2 where "s2 = \<lparr>counters = (\<lambda>_. 0)(1 := 1), todo = two_phase, pcs = (\<lambda>_. Running)(1 := Waiting 1)\<rparr>"
  have "arrive 1 1 2 ?s = s1" unfolding arrive_def start_wave_def r by (simp add: s1_def wrap32_def)
  then have "program_step ?s s1"
    using program_step.arrive [of ?s 1 1 2 "[(2, 2)]"] by (simp add: start_wave_def two_phase_def layout_consts)
  moreover have "program_step s1 s2"
    using program_step.load [of s1 1 1 2 "[(2, 2)]"] by (simp add: s1_def s2_def two_phase_def)
  moreover have "program_step s2 early_state"
    using program_step.sleep [of s2 1 1 1 2 "[(2, 2)]"] by (simp add: s2_def early_state_def two_phase_def)
  ultimately show ?thesis by (meson reachable.intros)
qed

theorem barrier_releases_witness:
  "(\<exists>t. program_step early_state t) \<and> (\<nexists>f. f 0 = early_state \<and> (\<forall>i. program_step (f i) (f (Suc i))))"
proof -
  have "todo early_state 0 \<noteq> []" by (simp add: early_state_def two_phase_def)
  then show ?thesis using barrier_releases [OF two_phase_ok early_reachable] by blast
qed

theorem planned_barriers_hold_witness:
  "build_barrier_assignments rev sample_nodes (build_waves sample_nodes [4, 1, 2, 3, 0]) = Inr ([[], [0], [], []], [''g'' \<mapsto> (0, 2)])
     \<and> (\<exists>t. program_step (start_wave [0] (\<lambda>_. 7) (wave_calls sample_nodes [1, 2] [''g'' \<mapsto> (0, 2)])) t)"
proof -
  have ok: "validate_barrier_groups sample_nodes (build_waves sample_nodes [4, 1, 2, 3, 0]) = Inr ()"
    unfolding sample_waves by (rule sample_barriers)
  have a: "build_barrier_assignments rev sample_nodes (build_waves sample_nodes [4, 1, 2, 3, 0]) = Inr ([[], [0], [], []], [''g'' \<mapsto> (0, 2)])"
    unfolding sample_waves
    by (simp add: build_barrier_assignments_def wave_groups_def Let_def sample_nodes_def BARRIER_COUNT_def numeral_2_eq_2)
  have "todo (start_wave [0] (\<lambda>_. 7) (wave_calls sample_nodes [1, 2] [''g'' \<mapsto> (0, 2)])) 1 \<noteq> []"
    by (simp add: start_wave_def wave_calls_def sample_nodes_def)
  moreover have "l1 < length (build_waves sample_nodes [4, 1, 2, 3, 0])" "build_waves sample_nodes [4, 1, 2, 3, 0] ! l1 = [1, 2]"
    "[[], [0], [], [] :: nat list] ! l1 = [0]" if "l1 = 1" for l1 using that by (simp_all add: sample_waves [simplified])
  moreover have "length sample_nodes < 4294967296" by (simp add: sample_nodes_def)
  ultimately show ?thesis
    using planned_barriers_hold [OF sample_topo ok mset_rev a, of 1] a reachable.start by (metis (no_types, lifting))
qed

end
