(* ===== verification/Exchange.thy ===== *)
theory Exchange
  imports Shared_State
begin

text \<open>
  The control messages of the RDMA mesh (\<open>connect/src/rdma/exchange.rs\<close>): the fixed-size description of a
  queue pair and its memory region, offsets, the reply that names the destination of a transfer, and
  the end signal. A control stream is the list of bytes not yet read from it; \<open>read_exact\<close> fails when
  the stream ends early.
\<close>

section \<open>Messages\<close>

datatype wire_err = UnexpectedEof | UnknownTag byte

definition read_stream :: "nat \<Rightarrow> byte list \<Rightarrow> wire_err + byte list \<times> byte list" where
  "read_stream n st = (if n \<le> length st then Inr (take n st, drop n st) else Inl UnexpectedEof)"

record qp_info =
  qpn :: nat
  psn :: nat
  gid :: "byte list"
  lid :: nat
  rkey :: nat
  mr_addr :: nat
  mr_len :: nat

definition WIRE_LEN :: nat where "WIRE_LEN = 46"

text \<open>Two bytes of padding follow \<open>lid\<close> and two follow \<open>len\<close>.\<close>

definition to_bytes :: "qp_info \<Rightarrow> byte list" where
  "to_bytes q = to_le 4 (qpn q) @ to_le 4 (psn q) @ gid q @ to_le 2 (lid q) @ [0, 0]
     @ to_le 4 (rkey q) @ to_le 8 (mr_addr q) @ to_le 4 (mr_len q) @ [0, 0]"

definition from_bytes :: "byte list \<Rightarrow> qp_info" where
  "from_bytes b = \<lparr>qpn = from_le (take 4 b), psn = from_le (take 4 (drop 4 b)), gid = take 16 (drop 8 b),
     lid = from_le (take 2 (drop 24 b)), rkey = from_le (take 4 (drop 28 b)), mr_addr = from_le (take 8 (drop 32 b)),
     mr_len = from_le (take 4 (drop 40 b))\<rparr>"

text \<open>
  The swap on one connection: what a side has written, and what it made of the other side's bytes. The
  server writes before it reads; the client reads first, and writes nothing when that fails.
\<close>

definition recv_info :: "byte list \<Rightarrow> wire_err + qp_info \<times> byte list" where
  "recv_info incoming =
     (case read_stream WIRE_LEN incoming of Inl e \<Rightarrow> Inl e | Inr (buf, st) \<Rightarrow> Inr (from_bytes buf, st))"

definition server_exchange_on :: "qp_info \<Rightarrow> byte list \<Rightarrow> byte list \<times> (wire_err + qp_info \<times> byte list)" where
  "server_exchange_on local incoming = (to_bytes local, recv_info incoming)"

definition client_exchange :: "qp_info \<Rightarrow> byte list \<Rightarrow> byte list \<times> (wire_err + qp_info \<times> byte list)" where
  "client_exchange local incoming =
     (case recv_info incoming of Inl e \<Rightarrow> ([], Inl e) | Inr r \<Rightarrow> (to_bytes local, Inr r))"

definition send_u32 :: "nat \<Rightarrow> byte list" where
  "send_u32 v = to_le 4 v"

definition recv_u32 :: "byte list \<Rightarrow> wire_err + nat \<times> byte list" where
  "recv_u32 st = (case read_stream 4 st of Inl e \<Rightarrow> Inl e | Inr (b, st') \<Rightarrow> Inr (from_le b, st'))"

definition send_shm_offset :: "nat \<Rightarrow> byte list" where
  "send_shm_offset v = to_le SHM_OFFSET_SIZE v"

definition recv_shm_offset :: "byte list \<Rightarrow> wire_err + nat \<times> byte list" where
  "recv_shm_offset st = (case read_stream SHM_OFFSET_SIZE st of Inl e \<Rightarrow> Inl e | Inr (b, st') \<Rightarrow> Inr (from_le b, st'))"

definition send_done :: "byte list" where
  "send_done = [255]"

definition wait_done :: "byte list \<Rightarrow> wire_err + unit \<times> byte list" where
  "wait_done st = (case read_stream 1 st of Inl e \<Rightarrow> Inl e | Inr (b, st') \<Rightarrow> Inr ((), st'))"

datatype dest_reply = SingleMr nat | UseMr2 nat nat nat

fun send_dest_reply :: "dest_reply \<Rightarrow> byte list" where
  "send_dest_reply (SingleMr dest_off) = [0] @ to_le SHM_OFFSET_SIZE dest_off"
| "send_dest_reply (UseMr2 dest_off addr key) = [1] @ to_le 8 dest_off @ to_le 8 addr @ to_le 4 key"

definition recv_dest_reply :: "byte list \<Rightarrow> wire_err + dest_reply \<times> byte list" where
  "recv_dest_reply st =
     (case read_stream 1 st of
        Inl e \<Rightarrow> Inl e
      | Inr (tag, st1) \<Rightarrow>
          if hd tag = 0 then
            (case read_stream SHM_OFFSET_SIZE st1 of Inl e \<Rightarrow> Inl e | Inr (b, st2) \<Rightarrow> Inr (SingleMr (from_le b), st2))
          else if hd tag = 1 then
            (case read_stream 8 st1 of
               Inl e \<Rightarrow> Inl e
             | Inr (off, st2) \<Rightarrow>
                 (case read_stream 8 st2 of
                    Inl e \<Rightarrow> Inl e
                  | Inr (a, st3) \<Rightarrow>
                      (case read_stream 4 st3 of
                         Inl e \<Rightarrow> Inl e
                       | Inr (r, st4) \<Rightarrow> Inr (UseMr2 (from_le off) (from_le a) (from_le r), st4))))
          else Inl (UnknownTag (hd tag)))"

section \<open>Decoding\<close>

lemma read_stream_append [simp]: "length a = n \<Longrightarrow> read_stream n (a @ b) = Inr (a, b)"
  by (simp add: read_stream_def)

lemma read_stream_Cons [simp]: "read_stream (Suc 0) (x # st) = Inr ([x], st)"
  by (simp add: read_stream_def)

lemma read_stream_short: "length st < n \<Longrightarrow> read_stream n st = Inl UnexpectedEof"
  by (simp add: read_stream_def)

lemma SHM_OFFSET_SIZE_4: "SHM_OFFSET_SIZE = 4"
  by (simp add: layout_consts)

lemma from_to_le_id: "v < 256 ^ k \<Longrightarrow> from_le (to_le k v) = v"
  by (simp add: from_to_le)

text \<open>The values that fit the fields.\<close>

definition qp_info_ok :: "qp_info \<Rightarrow> bool" where
  "qp_info_ok q \<longleftrightarrow> qpn q < 256 ^ 4 \<and> psn q < 256 ^ 4 \<and> length (gid q) = 16 \<and> lid q < 256 ^ 2 \<and> rkey q < 256 ^ 4
     \<and> mr_addr q < 256 ^ 8 \<and> mr_len q < 256 ^ 4"

fun dest_reply_ok :: "dest_reply \<Rightarrow> bool" where
  "dest_reply_ok (SingleMr dest_off) \<longleftrightarrow> dest_off < 256 ^ 4"
| "dest_reply_ok (UseMr2 dest_off addr key) \<longleftrightarrow> dest_off < 256 ^ 8 \<and> addr < 256 ^ 8 \<and> key < 256 ^ 4"

lemma length_to_bytes: "qp_info_ok q \<Longrightarrow> length (to_bytes q) = WIRE_LEN"
  by (simp add: to_bytes_def qp_info_ok_def WIRE_LEN_def)

lemma from_to_bytes: "qp_info_ok q \<Longrightarrow> from_bytes (to_bytes q) = q"
  by (simp add: from_bytes_def to_bytes_def qp_info_ok_def from_to_le_id)

lemma recv_offset_append: "v < 256 ^ 4 \<Longrightarrow> recv_shm_offset (send_shm_offset v @ st) = Inr (v, st)"
  by (simp add: recv_shm_offset_def send_shm_offset_def SHM_OFFSET_SIZE_4 from_to_le_id)

lemma recv_reply_append: "dest_reply_ok r \<Longrightarrow> recv_dest_reply (send_dest_reply r @ st) = Inr (r, st)"
  by (cases r) (simp_all add: recv_dest_reply_def SHM_OFFSET_SIZE_4 from_to_le_id)

lemma wait_done_append: "wait_done (send_done @ st) = Inr ((), st)"
  by (simp add: wait_done_def send_done_def)

section \<open>Properties\<close>

text \<open>
  C34. Control messages round trip. The two sides of a connection end up with each other's description, and
  a reply is decoded as it was sent, whatever follows it in the stream, when the values fit their
  fields; every proper prefix of either is refused as an early end of the stream.
\<close>

theorem control_messages_roundtrip:
  assumes "qp_info_ok a" "qp_info_ok b" "dest_reply_ok r"
  shows "(let (to_client, _) = server_exchange_on a []; (to_server, at_client) = client_exchange b to_client;
              (_, at_server) = server_exchange_on a to_server
          in at_client = Inr (a, []) \<and> at_server = Inr (b, []))
    \<and> recv_dest_reply (send_dest_reply r @ st) = Inr (r, st)
    \<and> (n < WIRE_LEN \<longrightarrow> recv_info (take n (to_bytes a)) = Inl UnexpectedEof)
    \<and> (n < length (send_dest_reply r) \<longrightarrow> recv_dest_reply (take n (send_dest_reply r)) = Inl UnexpectedEof)"
proof (intro conjI impI)
  have i: "recv_info (to_bytes q) = Inr (q, [])" if "qp_info_ok q" for q
    using that read_stream_append [of "to_bytes q" WIRE_LEN "[]"] by (simp add: recv_info_def length_to_bytes from_to_bytes)
  show "let (to_client, _) = server_exchange_on a []; (to_server, at_client) = client_exchange b to_client;
              (_, at_server) = server_exchange_on a to_server
          in at_client = Inr (a, []) \<and> at_server = Inr (b, [])"
    by (simp add: server_exchange_on_def client_exchange_def i assms(1,2))
  show "recv_dest_reply (send_dest_reply r @ st) = Inr (r, st)" by (rule recv_reply_append [OF assms(3)])
  show "recv_info (take n (to_bytes a)) = Inl UnexpectedEof" if "n < WIRE_LEN"
    using that by (simp add: recv_info_def read_stream_short)
  assume n: "n < length (send_dest_reply r)"
  show "recv_dest_reply (take n (send_dest_reply r)) = Inl UnexpectedEof"
  proof (cases n)
    case 0
    then show ?thesis by (simp add: recv_dest_reply_def read_stream_short)
  next
    case (Suc m)
    then show ?thesis
      using n by (cases r) (auto simp: recv_dest_reply_def SHM_OFFSET_SIZE_4 read_stream_def split: if_splits)
  qed
qed

theorem control_messages_roundtrip_witness:
  "snd (client_exchange \<lparr>qpn = 1, psn = 2, gid = replicate 16 3, lid = 4, rkey = 5, mr_addr = 6, mr_len = 7\<rparr>
       (to_bytes \<lparr>qpn = 8, psn = 2, gid = replicate 16 3, lid = 4, rkey = 5, mr_addr = 6, mr_len = 7\<rparr>))
     = Inr (\<lparr>qpn = 8, psn = 2, gid = replicate 16 3, lid = 4, rkey = 5, mr_addr = 6, mr_len = 7\<rparr>, [])
   \<and> recv_dest_reply (send_dest_reply (UseMr2 5 70000 9) @ [255]) = Inr (UseMr2 5 70000 9, [255])
   \<and> recv_dest_reply (take 7 (send_dest_reply (UseMr2 5 70000 9))) = Inl UnexpectedEof"
  using control_messages_roundtrip
    [of "\<lparr>qpn = 8, psn = 2, gid = replicate 16 3, lid = 4, rkey = 5, mr_addr = 6, mr_len = 7\<rparr>"
        "\<lparr>qpn = 1, psn = 2, gid = replicate 16 3, lid = 4, rkey = 5, mr_addr = 6, mr_len = 7\<rparr>" "UseMr2 5 70000 9" "[255]" 7]
  by (simp add: qp_info_ok_def server_exchange_on_def split: prod.splits)

end
