(* ===== verification/Remote.thy ===== *)
theory Remote
  imports Exchange
begin

text \<open>
  Remote transfers of a slot (\<open>host/src/runtime/remote\<close>) and the memory regions of the mesh node they use
  (\<open>connect/src/mesh\<close>): the sender collects the pages of a slot as a scatter list, announces its size, and
  writes the bytes into memory the receiver names; the receiver links the pages into its slot. Addresses
  in the mapping of a host are offsets from its base. Whether the network card accepts a registration or
  completes a write is a parameter; a write that completes leaves the bytes of its scatter list at
  its destination. Idle timeouts are arguments.
\<close>

section \<open>Memory regions of a mesh node\<close>

datatype remote_err =
    Straddles nat | PoolFailure pool_err | RegionFailure err | WireFailure wire_err | RegisterFailed
  | NoShmFile | OverHardLimit nat | Mr2Missing | Mr2Full nat
  | TooManySges nat | LocalProtection | RemoteAccess | SizeExceeds nat nat | BumpMoved nat nat | OutOfShm nat

record nic =
  reg_ok :: "nat \<Rightarrow> bool"        \<comment> \<open>creating and registering a buffer of that length\<close>
  wr_ok :: "nat \<Rightarrow> bool"         \<comment> \<open>the completion of a write to that address\<close>

text \<open>The sender's registration of the region past \<open>INITIAL_SHM_SIZE\<close>, by its length and key.\<close>

record src_ext =
  ext_len :: nat
  ext_key :: nat

record src_stage =
  stage_len :: nat
  stage_bump :: nat
  stage_data :: "nat \<Rightarrow> byte"
  stage_key :: nat

record mr2 =
  mr2_len :: nat
  mr2_bump :: nat
  mr2_data :: "nat \<Rightarrow> byte"
  mr2_key :: nat

record mesh =
  mesh_mr2 :: "mr2 option"
  mesh_src_ext :: "src_ext option"
  mesh_src_stage :: "src_stage option"
  shm_file :: bool
  python_compat :: bool
  next_key :: nat               \<comment> \<open>the key of the next registration; that of the region itself is 0\<close>

definition mr1_lkey :: nat where "mr1_lkey = 0"

definition usize_max :: nat where "usize_max = 18446744073709551615"

definition ensure_mr2 :: "nic \<Rightarrow> nat \<Rightarrow> mesh \<Rightarrow> (remote_err + mr2) \<times> mesh" where
  "ensure_mr2 nic at_least m =
     (let create = (let target = max at_least RDMA_MR2_INITIAL_SIZE; m1 = m\<lparr>mesh_mr2 := None\<rparr> in
            if target = 0 \<or> \<not> reg_ok nic target then (Inl RegisterFailed, m1)
            else let st = \<lparr>mr2_len = target, mr2_bump = 0, mr2_data = (\<lambda>_. 0), mr2_key = next_key m\<rparr>
                 in (Inr st, m1\<lparr>mesh_mr2 := Some st, next_key := next_key m + 1\<rparr>))
      in case mesh_mr2 m of
           Some existing \<Rightarrow> if at_least \<le> mr2_len existing then (Inr existing, m) else create
         | None \<Rightarrow> create)"

text \<open>A reservation: the offset in MR2 and the key. A failed one gives its bytes back.\<close>

definition mr2_reserve :: "nat \<Rightarrow> mesh \<Rightarrow> (remote_err + nat \<times> nat) \<times> mesh" where
  "mr2_reserve len m =
     (case mesh_mr2 m of
        None \<Rightarrow> (Inl Mr2Missing, m)
      | Some st \<Rightarrow>
          if mr2_len st < mr2_bump st + len then (Inl (Mr2Full len), m)
          else (Inr (mr2_bump st, mr2_key st), m\<lparr>mesh_mr2 := Some (st\<lparr>mr2_bump := mr2_bump st + len\<rparr>)\<rparr>))"

definition mr2_reset :: "mesh \<Rightarrow> mesh" where
  "mr2_reset m = m\<lparr>mesh_mr2 := map_option (\<lambda>st. st\<lparr>mr2_bump := 0\<rparr>) (mesh_mr2 m)\<rparr>"

definition mr2_try_shrink_idle :: "bool \<Rightarrow> mesh \<Rightarrow> mesh" where
  "mr2_try_shrink_idle idle m = (if idle then m\<lparr>mesh_mr2 := None\<rparr> else m)"

definition src_ext_try_shrink_idle :: "bool \<Rightarrow> mesh \<Rightarrow> mesh" where
  "src_ext_try_shrink_idle idle m = (if idle then m\<lparr>mesh_src_ext := None\<rparr> else m)"

definition src_stage_try_shrink_idle :: "bool \<Rightarrow> mesh \<Rightarrow> mesh" where
  "src_stage_try_shrink_idle idle m = (if idle then m\<lparr>mesh_src_stage := None\<rparr> else m)"

definition ensure_src_ext_covers :: "nic \<Rightarrow> nat \<Rightarrow> mesh \<Rightarrow> (remote_err + nat) \<times> mesh" where
  "ensure_src_ext_covers nic end_addr m =
     (let needed_len = end_addr - INITIAL_SHM_SIZE;
          register = (\<lambda>new_len. let m1 = m\<lparr>mesh_src_ext := None\<rparr> in
            if new_len = 0 \<or> \<not> reg_ok nic new_len then (Inl RegisterFailed, m1)
            else (Inr (next_key m), m1\<lparr>mesh_src_ext := Some \<lparr>ext_len = new_len, ext_key = next_key m\<rparr>, next_key := next_key m + 1\<rparr>))
      in case mesh_src_ext m of
           Some e \<Rightarrow> if end_addr \<le> INITIAL_SHM_SIZE + ext_len e then (Inr (ext_key e), m)
                     else register (max (min (ext_len e * 2) usize_max) needed_len)
         | None \<Rightarrow> register (max needed_len PAGE_SIZE))"

definition src_lkey_for_shm :: "nic \<Rightarrow> nat \<Rightarrow> nat \<Rightarrow> mesh \<Rightarrow> (remote_err + nat) \<times> mesh" where
  "src_lkey_for_shm nic a len m =
     (if a + len \<le> INITIAL_SHM_SIZE then (Inr mr1_lkey, m)
      else if a < INITIAL_SHM_SIZE then (Inl (Straddles a), m)
      else ensure_src_ext_covers nic (a + len) m)"

text \<open>\<open>SrcStageStorage::stage\<close> and the loop of \<open>src_stage_copy_in\<close>, which recreates a full buffer.\<close>

definition stage_put :: "byte list \<Rightarrow> src_stage \<Rightarrow> (nat \<times> src_stage) option" where
  "stage_put bs st =
     (if stage_len st < stage_bump st + length bs then None
      else Some (stage_bump st, st\<lparr>stage_bump := stage_bump st + length bs,
             stage_data := write_bytes (stage_data st) (stage_bump st) bs\<rparr>))"

definition fresh_stage :: "nic \<Rightarrow> nat \<Rightarrow> mesh \<Rightarrow> (remote_err + src_stage) \<times> mesh" where
  "fresh_stage nic len m =
     (if len = 0 \<or> \<not> reg_ok nic len then (Inl RegisterFailed, m\<lparr>mesh_src_stage := None\<rparr>)
      else let st = \<lparr>stage_len = len, stage_bump = 0, stage_data = (\<lambda>_. 0), stage_key = next_key m\<rparr>
           in (Inr st, m\<lparr>mesh_src_stage := Some st, next_key := next_key m + 1\<rparr>))"

definition stage_in :: "byte list \<Rightarrow> (remote_err + src_stage) \<times> mesh \<Rightarrow> (remote_err + nat \<times> nat) \<times> mesh" where
  "stage_in bs r =
     (case r of
        (Inl e, m) \<Rightarrow> (Inl e, m)
      | (Inr st, m) \<Rightarrow>
          (case stage_put bs st of
             Some (off, st') \<Rightarrow> (Inr (off, stage_key st), m\<lparr>mesh_src_stage := Some st'\<rparr>)
           | None \<Rightarrow> (Inl RegisterFailed, m)))"

definition src_stage_copy_in :: "nic \<Rightarrow> byte list \<Rightarrow> mesh \<Rightarrow> (remote_err + nat \<times> nat) \<times> mesh" where
  "src_stage_copy_in nic bs m =
     (case mesh_src_stage m of
        None \<Rightarrow> stage_in bs (fresh_stage nic (max (length bs) RDMA_MR2_INITIAL_SIZE) m)
      | Some st \<Rightarrow>
          (case stage_put bs st of
             Some (off, st') \<Rightarrow> (Inr (off, stage_key st), m\<lparr>mesh_src_stage := Some st'\<rparr>)
           | None \<Rightarrow> stage_in bs
               (fresh_stage nic (max (max (min (stage_len st * 2) usize_max) (length bs)) RDMA_MR2_INITIAL_SIZE) m)))"

definition src_stage_reset :: "mesh \<Rightarrow> mesh" where
  "src_stage_reset m = m\<lparr>mesh_src_stage := map_option (\<lambda>st. st\<lparr>stage_bump := 0\<rparr>) (mesh_src_stage m)\<rparr>"

text \<open>Growing the direct window for pages a Python guest can follow.\<close>

definition ensure_shm_capacity :: "os \<Rightarrow> nat \<Rightarrow> mesh \<Rightarrow> 'a host_scheme \<Rightarrow> remote_err + 'a host_scheme" where
  "ensure_shm_capacity os required m h =
     (if required \<le> global_capacity h then Inr h
      else if \<not> shm_file m then Inl NoShmFile
      else let hard_limit = (if python_compat m then CAPACITY_HARD_LIMIT_PYTHON else CAPACITY_HARD_LIMIT) in
           if hard_limit < required then Inl (OverHardLimit required)
           else let new_size = min (max (min (global_capacity h * 2) usize_max) required) hard_limit in
                if \<not> os_grow os new_size then Inl (OutOfShm new_size)
                else Inr (h\<lparr>global_capacity := wrap32 new_size\<rparr>))"

section \<open>The scatter list of a slot\<close>

datatype mem_addr = Shm nat | Staged nat

type_synonym sge = "mem_addr \<times> nat \<times> nat"

text \<open>The collected list, the positions of the pages past \<open>INITIAL_SHM_SIZE\<close>, and the byte count.\<close>

record collected =
  src_sges :: "sge list"
  ext_sge_idxs :: "nat list"
  src_bytes :: nat

definition add_sge :: "sge \<Rightarrow> collected \<Rightarrow> collected" where
  "add_sge g c = c\<lparr>src_sges := src_sges c @ [g], src_bytes := wrap32 (src_bytes c + fst (snd g))\<rparr>"

definition add_ext_sge :: "nat \<Rightarrow> nat \<Rightarrow> collected \<Rightarrow> collected" where
  "add_ext_sge a used c = (add_sge (Shm a, used, 0) c)\<lparr>ext_sge_idxs := ext_sge_idxs c @ [length (src_sges c)]\<rparr>"

text \<open>The entry of one direct page.\<close>

definition direct_sge :: "nat \<Rightarrow> page \<Rightarrow> collected \<Rightarrow> remote_err + collected" where
  "direct_sge p pg c =
     (let used = cursor pg; data_vaddr = p + PAGE_HEADER_SIZE in
      if used = 0 then Inr c
      else if data_vaddr + used \<le> INITIAL_SHM_SIZE then Inr (add_sge (Shm data_vaddr, used, mr1_lkey) c)
      else if INITIAL_SHM_SIZE \<le> data_vaddr then Inr (add_ext_sge data_vaddr used c)
      else Inl (Straddles data_vaddr))"

partial_function (option) collect_loop ::
  "os \<Rightarrow> nic \<Rightarrow> nat \<Rightarrow> collected \<Rightarrow> mesh \<Rightarrow> 'a host_scheme \<Rightarrow> ((remote_err + collected) \<times> mesh \<times> 'a host_scheme) option" where
  "collect_loop os nic page_id c m h =
     (if page_id = 0 then Some (Inr c, m, h)
      else if page_id < DIRECT_LIMIT then
        (case direct_sge page_id (host_page h page_id) c of
           Inl e \<Rightarrow> Some (Inl e, m, h)
         | Inr c1 \<Rightarrow> collect_loop os nic (next_offset (host_page h page_id)) c1 m h)
      else
        (case host_resolve os page_id h of
           (Inl e, h1) \<Rightarrow> Some (Inl (PoolFailure e), m, h1)
         | (Inr p, h1) \<Rightarrow>
             if cursor (host_page h1 p) = 0 then collect_loop os nic (next_offset (host_page h1 p)) c m h1
             else
               (case src_stage_copy_in nic (read_bytes (data (host_page h1 p)) 0 (cursor (host_page h1 p))) m of
                  (Inl e, m1) \<Rightarrow> Some (Inl e, m1, h1)
                | (Inr (off, key), m1) \<Rightarrow>
                    collect_loop os nic (next_offset (host_page h1 p)) (add_sge (Staged off, cursor (host_page h1 p), key) c) m1 h1)))"

declare collect_loop.simps [code]

definition stamp_ext :: "nat \<Rightarrow> collected \<Rightarrow> sge list" where
  "stamp_ext key c = fold (\<lambda>i gs. gs[i := (fst (gs ! i), fst (snd (gs ! i)), key)]) (ext_sge_idxs c) (src_sges c)"

definition collect_src_sges ::
  "os \<Rightarrow> nic \<Rightarrow> slot \<Rightarrow> mesh \<Rightarrow> 'a host_scheme \<Rightarrow> ((remote_err + sge list \<times> nat) \<times> mesh \<times> 'a host_scheme) option" where
  "collect_src_sges os nic sl m h =
     (if \<not> slot_in_range sl then Some (Inl (RegionFailure (SlotOutOfRange (slot_index sl))), m, h)
      else map_option (\<lambda>r. case r of
             (Inl e, m1, h1) \<Rightarrow> (Inl e, m1, h1)
           | (Inr c, m1, h1) \<Rightarrow>
               if ext_sge_idxs c = [] then (Inr (src_sges c, src_bytes c), m1, h1)
               else (case ensure_src_ext_covers nic (global_capacity h1) m1 of
                       (Inl e, m2) \<Rightarrow> (Inl e, m2, h1)
                     | (Inr key, m2) \<Rightarrow> (Inr (stamp_ext key c, src_bytes c), m2, h1)))
        (collect_loop os nic (get_head sl h) \<lparr>src_sges = [], ext_sge_idxs = [], src_bytes = 0\<rparr> m h))"

section \<open>Writes of the network card\<close>

text \<open>The bytes a scatter entry names, when its key is registered and covers it.\<close>

definition window :: "'a host_scheme \<Rightarrow> 'a host_scheme" where
  "window h = h\<lparr>mem := host_page h\<rparr>"

definition key_covers :: "mesh \<Rightarrow> sge \<Rightarrow> bool" where
  "key_covers m g =
     (case g of
        (Shm a, n, key) \<Rightarrow>
          key = mr1_lkey \<and> a + n \<le> INITIAL_SHM_SIZE
          \<or> (case mesh_src_ext m of None \<Rightarrow> False
             | Some e \<Rightarrow> key = ext_key e \<and> INITIAL_SHM_SIZE \<le> a \<and> a + n \<le> INITIAL_SHM_SIZE + ext_len e)
      | (Staged off, n, key) \<Rightarrow>
          (case mesh_src_stage m of None \<Rightarrow> False | Some st \<Rightarrow> key = stage_key st \<and> off + n \<le> stage_len st))"

definition sge_bytes :: "mesh \<Rightarrow> 'a host_scheme \<Rightarrow> sge \<Rightarrow> byte list" where
  "sge_bytes m h g =
     (case g of
        (Shm a, n, key) \<Rightarrow> read_region (window h) a n
      | (Staged off, n, key) \<Rightarrow> (case mesh_src_stage m of None \<Rightarrow> [] | Some st \<Rightarrow> read_bytes (stage_data st) off n))"

definition MAX_SEND_SGE :: nat where "MAX_SEND_SGE = 16"

text \<open>\<open>post_rdma_write_sge_list\<close> with its completion: the bytes that leave the sender.\<close>

definition post_write :: "nic \<Rightarrow> mesh \<Rightarrow> 'a host_scheme \<Rightarrow> sge list \<Rightarrow> nat \<Rightarrow> remote_err + byte list" where
  "post_write nic m h gs addr =
     (if MAX_SEND_SGE < length gs then Inl (TooManySges (length gs))
      else if \<not> list_all (key_covers m) gs then Inl LocalProtection
      else if \<not> wr_ok nic addr then Inl RemoteAccess
      else Inr (concat (map (sge_bytes m h) gs)))"

text \<open>A write into the receiver's region reaches what was registered at the start.\<close>

definition write_mr1 :: "nic \<Rightarrow> mesh \<Rightarrow> 'a host_scheme \<Rightarrow> sge list \<Rightarrow> nat \<Rightarrow> 'b host_scheme \<Rightarrow> remote_err + 'b host_scheme" where
  "write_mr1 nic m h gs addr r =
     (case post_write nic m h gs addr of
        Inl e \<Rightarrow> Inl e
      | Inr bs \<Rightarrow> if INITIAL_SHM_SIZE < addr + length bs then Inl RemoteAccess else Inr (write_region addr bs r))"

text \<open>
  The fragments that fill one destination page: the current source entry with what is left of it,
  and the entries after it.
\<close>

fun advance_addr :: "nat \<Rightarrow> mem_addr \<Rightarrow> mem_addr" where
  "advance_addr n (Shm a) = Shm (a + n)"
| "advance_addr n (Staged a) = Staged (a + n)"

definition advance_sge :: "nat \<Rightarrow> sge \<Rightarrow> sge" where
  "advance_sge n g = (advance_addr n (fst g), fst (snd g) - n, snd (snd g))"

definition sge_len :: "sge \<Rightarrow> nat" where
  "sge_len g = fst (snd g)"

definition cut_sge :: "nat \<Rightarrow> sge \<Rightarrow> sge" where
  "cut_sge n g = (fst g, n, snd (snd g))"

function fill_page :: "nat \<Rightarrow> sge \<Rightarrow> sge list \<Rightarrow> sge list \<Rightarrow> sge list \<times> sge \<times> sge list" where
  "fill_page to_fill cur rst acc =
     (if to_fill = 0 then (acc, cur, rst)
      else if sge_len cur = 0 then
        (case rst of
           [] \<Rightarrow> (acc, cur, rst)
         | g # gs \<Rightarrow> fill_page (to_fill - min to_fill (sge_len g)) (advance_sge (min to_fill (sge_len g)) g) gs
                       (acc @ [cut_sge (min to_fill (sge_len g)) g]))
      else fill_page (to_fill - min to_fill (sge_len cur)) (advance_sge (min to_fill (sge_len cur)) cur) rst
             (acc @ [cut_sge (min to_fill (sge_len cur)) cur]))"
  by pat_completeness auto
termination by (relation "measure (\<lambda>(n, cur, rst, acc). n + length rst)") auto

declare fill_page.simps [simp del]

fun write_pages ::
  "nic \<Rightarrow> mesh \<Rightarrow> 'a host_scheme \<Rightarrow> nat \<Rightarrow> nat \<Rightarrow> nat list \<Rightarrow> sge \<Rightarrow> sge list \<Rightarrow> 'b host_scheme \<Rightarrow> remote_err + 'b host_scheme" where
  "write_pages nic m h dest_off total_len [] cur rst r = Inr r"
| "write_pages nic m h dest_off total_len (i # is) cur rst r =
     (case fill_page (min PAGE_DATA_SIZE (total_len - i * PAGE_DATA_SIZE)) cur rst [] of
        (gs, cur', rst') \<Rightarrow>
          (case write_mr1 nic m h gs (dest_off + i * PAGE_SIZE + PAGE_HEADER_SIZE) r of
             Inl e \<Rightarrow> Inl e
           | Inr r1 \<Rightarrow> write_pages nic m h dest_off total_len is cur' rst' r1))"

definition rdma_write_page_chain ::
  "nic \<Rightarrow> mesh \<Rightarrow> 'a host_scheme \<Rightarrow> sge list \<Rightarrow> nat \<Rightarrow> nat \<Rightarrow> 'b host_scheme \<Rightarrow> remote_err + 'b host_scheme" where
  "rdma_write_page_chain nic m h gs dest_off total_len r =
     (let n = wrap32 (total_len + PAGE_DATA_SIZE - 1) div PAGE_DATA_SIZE in
      case gs of
        [] \<Rightarrow> write_pages nic m h dest_off total_len [0..<n] (Shm 0, 0, 0) [] r
      | g # gs' \<Rightarrow> write_pages nic m h dest_off total_len [0..<n] g gs' r)"

text \<open>A flat write posts the list in groups of \<open>MAX_SEND_SGE\<close>, one behind the other.\<close>

function sge_chunks :: "sge list \<Rightarrow> sge list list" where
  "sge_chunks gs = (if gs = [] then [] else take MAX_SEND_SGE gs # sge_chunks (drop MAX_SEND_SGE gs))"
  by pat_completeness auto
termination by (relation "measure length") (auto simp: MAX_SEND_SGE_def)

declare sge_chunks.simps [simp del]

fun flat_writes ::
  "(sge list \<Rightarrow> nat \<Rightarrow> 'r \<Rightarrow> remote_err + 'r) \<Rightarrow> sge list list \<Rightarrow> nat \<Rightarrow> 'r \<Rightarrow> remote_err + 'r" where
  "flat_writes wr [] remote_cursor r = Inr r"
| "flat_writes wr (c # cs) remote_cursor r =
     (case wr c remote_cursor r of
        Inl e \<Rightarrow> Inl e
      | Inr r1 \<Rightarrow> flat_writes wr cs (remote_cursor + sum_list (map sge_len c)) r1)"

definition rdma_write_flat ::
  "nic \<Rightarrow> mesh \<Rightarrow> 'a host_scheme \<Rightarrow> sge list \<Rightarrow> nat \<Rightarrow> 'b host_scheme \<Rightarrow> remote_err + 'b host_scheme" where
  "rdma_write_flat nic m h gs dest_off r = flat_writes (write_mr1 nic m h) (sge_chunks gs) dest_off r"

text \<open>The same into the receiver's MR2 under the key of the reply.\<close>

definition write_mr2 :: "nic \<Rightarrow> mesh \<Rightarrow> 'a host_scheme \<Rightarrow> nat \<Rightarrow> sge list \<Rightarrow> nat \<Rightarrow> mesh \<Rightarrow> remote_err + mesh" where
  "write_mr2 nic m h key gs addr rm =
     (case post_write nic m h gs addr of
        Inl e \<Rightarrow> Inl e
      | Inr bs \<Rightarrow>
          (case mesh_mr2 rm of
             None \<Rightarrow> Inl RemoteAccess
           | Some st \<Rightarrow>
               if mr2_key st \<noteq> key \<or> mr2_len st < addr + length bs then Inl RemoteAccess
               else Inr (rm\<lparr>mesh_mr2 := Some (st\<lparr>mr2_data := write_bytes (mr2_data st) addr bs\<rparr>)\<rparr>)))"

definition rdma_write_flat_to ::
  "nic \<Rightarrow> mesh \<Rightarrow> 'a host_scheme \<Rightarrow> sge list \<Rightarrow> nat \<Rightarrow> nat \<Rightarrow> mesh \<Rightarrow> remote_err + mesh" where
  "rdma_write_flat_to nic m h gs addr key rm = flat_writes (write_mr2 nic m h key) (sge_chunks gs) addr rm"

section \<open>The receiver's pages\<close>

text \<open>Storing the ends of a chain in its slot; the index of the slot panics out of range.\<close>

definition link_to_slot :: "slot \<Rightarrow> nat \<Rightarrow> nat \<Rightarrow> 'a host_scheme \<Rightarrow> (remote_err + nat) \<times> 'a host_scheme" where
  "link_to_slot sl head tail h =
     (if slot_in_range sl then (Inr head, set_tail sl tail (set_head sl head h))
      else (Inl (RegionFailure (SlotOutOfRange (slot_index sl))), h))"

definition page_count :: "nat \<Rightarrow> nat" where
  "page_count total_len = (total_len + PAGE_DATA_SIZE - 1) div PAGE_DATA_SIZE"

text \<open>The header of page \<open>i\<close> of \<open>n\<close> consecutive pages from \<open>dest_off\<close>.\<close>

definition stamp_page :: "nat \<Rightarrow> nat \<Rightarrow> nat \<Rightarrow> nat \<Rightarrow> 'a host_scheme \<Rightarrow> 'a host_scheme" where
  "stamp_page dest_off total_len n i =
     upd_host_page (wrap32 (dest_off + i * PAGE_SIZE))
       (\<lambda>pg. pg\<lparr>cursor := min PAGE_DATA_SIZE (total_len - i * PAGE_DATA_SIZE),
          next_offset := if i + 1 < n then wrap32 (dest_off + (i + 1) * PAGE_SIZE) else 0\<rparr>)"

definition stamp_pages :: "nat \<Rightarrow> nat \<Rightarrow> nat \<Rightarrow> 'a host_scheme \<Rightarrow> 'a host_scheme" where
  "stamp_pages dest_off total_len n h = fold (stamp_page dest_off total_len n) [0..<n] h"

definition alloc_and_link :: "os \<Rightarrow> slot \<Rightarrow> nat \<Rightarrow> 'a host_scheme \<Rightarrow> (remote_err + nat) \<times> 'a host_scheme" where
  "alloc_and_link os sl total_len h =
     (let n = page_count total_len;
          bytes_to_alloc = wrap32 (wrap32 n * PAGE_SIZE);
          dest_off = bump_allocator h;
          need = wrap32 (dest_off + bytes_to_alloc);
          h1 = h\<lparr>bump_allocator := need\<rparr>;
          finish = (\<lambda>h2. link_to_slot sl dest_off (wrap32 (dest_off + (n - 1) * PAGE_SIZE)) (stamp_pages dest_off total_len n h2))
      in if need \<le> global_capacity h1 then finish h1
         else case try_grow_shm os need h1 of
                None \<Rightarrow> (Inl (OutOfShm need), h1)
              | Some (cap, h2) \<Rightarrow> finish h2)"

text \<open>Copying a buffer into fresh pages of the host allocator, one after the other.\<close>

fun copy_pages ::
  "os \<Rightarrow> nat option \<Rightarrow> byte list \<Rightarrow> nat list \<Rightarrow> nat \<Rightarrow> nat option \<Rightarrow> nat \<Rightarrow> 'a host_scheme \<Rightarrow>
   (remote_err + nat \<times> nat) \<times> 'a host_scheme" where
  "copy_pages os force src [] head prev tail h = (Inr (head, tail), h)"
| "copy_pages os force src (i # is) head prev tail h =
     (case alloc_page os force h of
        (Inl (Err e), h1) \<Rightarrow> (Inl (RegionFailure e), h1)
      | (Inl (PoolErr e), h1) \<Rightarrow> (Inl (PoolFailure e), h1)
      | (Inr p, h1) \<Rightarrow>
          (case host_resolve os p h1 of
             (Inl e, h2) \<Rightarrow> (Inl (PoolFailure e), h2)
           | (Inr w, h2) \<Rightarrow>
               (let chunk = take PAGE_DATA_SIZE (drop (i * PAGE_DATA_SIZE) src);
                    h3 = upd_host_page w (\<lambda>pg. pg\<lparr>data := write_bytes (data pg) 0 chunk, cursor := length chunk, next_offset := 0\<rparr>) h2;
                    h4 = (case prev of None \<Rightarrow> h3
                          | Some q \<Rightarrow> if i = 0 then h3 else upd_host_page q (\<lambda>pg. pg\<lparr>next_offset := p\<rparr>) h3)
                in copy_pages os force src is (if i = 0 then p else head) (Some w) p h4)))"

definition alloc_and_link_from_buf_reclaimer ::
  "os \<Rightarrow> nat option \<Rightarrow> slot \<Rightarrow> byte list \<Rightarrow> 'a host_scheme \<Rightarrow> (remote_err + nat) \<times> 'a host_scheme" where
  "alloc_and_link_from_buf_reclaimer os force sl src h =
     (case copy_pages os force src [0..<page_count (length src)] 0 None 0 h of
        (Inl e, h1) \<Rightarrow> (Inl e, h1)
      | (Inr (head, tail), h1) \<Rightarrow> link_to_slot sl head tail h1)"

text \<open>The path for Python guests: direct pages only, growing the window until the pages fit.\<close>

partial_function (option) reserve_direct ::
  "os \<Rightarrow> mesh \<Rightarrow> nat \<Rightarrow> 'a host_scheme \<Rightarrow> ((remote_err + nat) \<times> 'a host_scheme) option" where
  "reserve_direct os m bytes_to_alloc h =
     (if wrap32 (bump_allocator h + bytes_to_alloc) \<le> global_capacity h
      then Some (Inr (bump_allocator h), h\<lparr>bump_allocator := wrap32 (bump_allocator h + bytes_to_alloc)\<rparr>)
      else (case ensure_shm_capacity os (wrap32 (bump_allocator h + bytes_to_alloc)) m h of
              Inl e \<Rightarrow> Some (Inl e, h)
            | Inr h1 \<Rightarrow> reserve_direct os m bytes_to_alloc h1))"

declare reserve_direct.simps [code]

definition fill_direct :: "nat \<Rightarrow> byte list \<Rightarrow> nat \<Rightarrow> 'a host_scheme \<Rightarrow> 'a host_scheme" where
  "fill_direct dest_off src i h =
     (let chunk = take PAGE_DATA_SIZE (drop (i * PAGE_DATA_SIZE) src)
      in upd_host_page (wrap32 (dest_off + i * PAGE_SIZE)) (\<lambda>pg. pg\<lparr>data := write_bytes (data pg) 0 chunk\<rparr>) h)"

definition alloc_and_link_from_buf_direct ::
  "os \<Rightarrow> slot \<Rightarrow> byte list \<Rightarrow> mesh \<Rightarrow> 'a host_scheme \<Rightarrow> ((remote_err + nat) \<times> 'a host_scheme) option" where
  "alloc_and_link_from_buf_direct os sl src m h =
     (let n = page_count (length src) in
      map_option (\<lambda>r. case r of
          (Inl e, h1) \<Rightarrow> (Inl e, h1)
        | (Inr dest_off, h1) \<Rightarrow>
            link_to_slot sl dest_off (wrap32 (dest_off + (n - 1) * PAGE_SIZE))
              (stamp_pages dest_off (length src) n (fold (fill_direct dest_off src) [0..<n] h1)))
        (reserve_direct os m (wrap32 (wrap32 n * PAGE_SIZE)) h))"

definition alloc_and_link_from_buf ::
  "os \<Rightarrow> nat option \<Rightarrow> slot \<Rightarrow> byte list \<Rightarrow> mesh \<Rightarrow> 'a host_scheme \<Rightarrow> ((remote_err + nat) \<times> 'a host_scheme) option" where
  "alloc_and_link_from_buf os force sl src m h =
     (if page_count (length src) = 0 then Some (Inr 0, h)
      else if python_compat m then alloc_and_link_from_buf_direct os sl src m h
      else Some (alloc_and_link_from_buf_reclaimer os force sl src h))"

section \<open>The protocols\<close>

text \<open>
  One transfer between two hosts, each with its mesh node. The messages travel as bytes: a message is read
  from what the other side has written.
\<close>

record 'h node =
  host_of :: 'h
  mesh_of :: mesh

definition mr1_bump_remaining :: "'a host_scheme \<Rightarrow> nat" where
  "mr1_bump_remaining h = INITIAL_SHM_SIZE - bump_allocator h"

text \<open>The sender's first phase: what it sends is announced by its size.\<close>

definition prepare_send ::
  "os \<Rightarrow> nic \<Rightarrow> bool \<Rightarrow> slot \<Rightarrow> 'a host_scheme node \<Rightarrow> ((remote_err + sge list \<times> nat) \<times> 'a host_scheme node) option" where
  "prepare_send os nic idle sl s =
     map_option (\<lambda>(r, m, h). (r, \<lparr>host_of = h, mesh_of = m\<rparr>))
       (collect_src_sges os nic sl (src_stage_try_shrink_idle idle (src_ext_try_shrink_idle idle (mesh_of s))) (host_of s))"

definition stage_done :: "'h node \<Rightarrow> 'h node" where
  "stage_done s = s\<lparr>mesh_of := src_stage_reset (mesh_of s)\<rparr>"

text \<open>The receiver's answer to an announced size: its reply, and where the bytes will be.\<close>

definition recv_si_reply ::
  "os \<Rightarrow> nic \<Rightarrow> slot \<Rightarrow> nat \<Rightarrow> 'b host_scheme node \<Rightarrow> (remote_err + dest_reply) \<times> 'b host_scheme node" where
  "recv_si_reply os nic sl total_len r =
     (if total_len \<le> mr1_bump_remaining (host_of r) then
        (case alloc_and_link os sl total_len (host_of r) of
           (Inl e, h) \<Rightarrow> (Inl e, r\<lparr>host_of := h\<rparr>)
         | (Inr dest_off, h) \<Rightarrow> (Inr (SingleMr dest_off), r\<lparr>host_of := h\<rparr>))
      else
        (case ensure_mr2 nic total_len (mesh_of r) of
           (Inl e, m) \<Rightarrow> (Inl e, r\<lparr>mesh_of := m\<rparr>)
         | (Inr st, m) \<Rightarrow>
             (case mr2_reserve total_len m of
                (Inl e, m1) \<Rightarrow> (Inl e, r\<lparr>mesh_of := m1\<rparr>)
              | (Inr (off, key), m1) \<Rightarrow> (Inr (UseMr2 off off key), r\<lparr>mesh_of := m1\<rparr>))))"

text \<open>The sender's write to where the reply points.\<close>

definition send_si_write ::
  "nic \<Rightarrow> 'a host_scheme node \<Rightarrow> sge list \<Rightarrow> nat \<Rightarrow> dest_reply \<Rightarrow> 'b host_scheme node \<Rightarrow> remote_err + 'b host_scheme node" where
  "send_si_write nic s gs total_len reply r =
     (case reply of
        SingleMr dest_off \<Rightarrow>
          map_sum id (\<lambda>h. r\<lparr>host_of := h\<rparr>) (rdma_write_page_chain nic (mesh_of s) (host_of s) gs dest_off total_len (host_of r))
      | UseMr2 dest_off addr key \<Rightarrow>
          map_sum id (\<lambda>m. r\<lparr>mesh_of := m\<rparr>) (rdma_write_flat_to nic (mesh_of s) (host_of s) gs addr key (mesh_of r)))"

text \<open>The receiver after the end signal: bytes in MR2 are copied into pages of the region.\<close>

definition recv_si_finish ::
  "os \<Rightarrow> nat option \<Rightarrow> slot \<Rightarrow> nat \<Rightarrow> dest_reply \<Rightarrow> 'b host_scheme node \<Rightarrow> ((remote_err + unit) \<times> 'b host_scheme node) option" where
  "recv_si_finish os force sl total_len reply r =
     (case reply of
        SingleMr dest_off \<Rightarrow> Some (Inr (), r)
      | UseMr2 dest_off addr key \<Rightarrow>
          (let src = (case mesh_mr2 (mesh_of r) of None \<Rightarrow> [] | Some st \<Rightarrow> read_bytes (mr2_data st) dest_off total_len)
           in map_option (\<lambda>(x, h). (map_sum id (\<lambda>_. ()) x, r\<lparr>host_of := h\<rparr>))
                (alloc_and_link_from_buf os force sl src (mesh_of r) (host_of r))))"

definition si_transfer ::
  "os \<Rightarrow> nic \<Rightarrow> nat option \<Rightarrow> bool \<Rightarrow> slot \<Rightarrow> slot \<Rightarrow> 'a host_scheme node \<Rightarrow> 'b host_scheme node \<Rightarrow>
   ((remote_err + unit) \<times> 'a host_scheme node \<times> 'b host_scheme node) option" where
  "si_transfer os nic force idle sl sl' s r =
     Option.bind (prepare_send os nic idle sl s) (\<lambda>(x, s1).
       let r1 = r\<lparr>mesh_of := mr2_try_shrink_idle idle (mesh_of r)\<rparr> in
       case x of
         Inl e \<Rightarrow> Some (Inl e, s1, r)
       | Inr (gs, total_bytes) \<Rightarrow>
           (case recv_shm_offset (send_shm_offset total_bytes) of
              Inl e \<Rightarrow> Some (Inl (WireFailure e), s1, r1)
            | Inr (total_len, _) \<Rightarrow>
                if total_len = 0 then Some (Inr (), stage_done s1, r1)
                else (case recv_si_reply os nic sl' total_len r1 of
                        (Inl e, r2) \<Rightarrow> Some (Inl e, s1, r2)
                      | (Inr reply, r2) \<Rightarrow>
                          (case recv_dest_reply (send_dest_reply reply) of
                             Inl e \<Rightarrow> Some (Inl (WireFailure e), s1, r2)
                           | Inr (reply', _) \<Rightarrow>
                               (case send_si_write nic s1 gs total_bytes reply' r2 of
                                  Inl e \<Rightarrow> Some (Inl e, s1, r2)
                                | Inr r3 \<Rightarrow>
                                    map_option (\<lambda>(y, r4). (y, stage_done s1, r4))
                                      (recv_si_finish os force sl' total_len reply r3))))))"

text \<open>The receiver-initiated protocol: the receiver announces its bump pointer and what is left behind it.\<close>

definition recv_ri_finish :: "slot \<Rightarrow> nat \<Rightarrow> nat \<Rightarrow> nat \<Rightarrow> 'b host_scheme \<Rightarrow> (remote_err + unit) \<times> 'b host_scheme" where
  "recv_ri_finish sl dest_off cap total_len h =
     (if total_len = 0 then (Inr (), h)
      else let n = page_count total_len;
               bytes_to_alloc = wrap32 (wrap32 n * PAGE_SIZE);
               reserved = bump_allocator h;
               h1 = h\<lparr>bump_allocator := wrap32 (reserved + bytes_to_alloc)\<rparr>
           in if reserved \<noteq> dest_off then (Inl (BumpMoved dest_off reserved), h1)
              else if cap < wrap32 (dest_off + bytes_to_alloc) then (Inl (OutOfShm bytes_to_alloc), h1)
              else map_prod (map_sum id (\<lambda>_. ())) id
                     (link_to_slot sl dest_off (wrap32 (dest_off + (n - 1) * PAGE_SIZE)) (stamp_pages dest_off total_len n h1)))"

definition ri_transfer ::
  "os \<Rightarrow> nic \<Rightarrow> bool \<Rightarrow> slot \<Rightarrow> slot \<Rightarrow> 'a host_scheme node \<Rightarrow> 'b host_scheme node \<Rightarrow>
   ((remote_err + unit) \<times> 'a host_scheme node \<times> 'b host_scheme node) option" where
  "ri_transfer os nic idle sl sl' s r =
     (let cap = global_capacity (host_of r) in
      Option.bind (prepare_send os nic idle sl s) (\<lambda>(x, s1).
       case x of
         Inl e \<Rightarrow> Some (Inl e, s1, r)
       | Inr (gs, total_bytes) \<Rightarrow>
           (case recv_shm_offset (send_shm_offset (bump_allocator (host_of r)) @ send_shm_offset (cap - bump_allocator (host_of r))) of
              Inl e \<Rightarrow> Some (Inl (WireFailure e), s1, r)
            | Inr (dest_off, st) \<Rightarrow>
                (case recv_shm_offset st of
                   Inl e \<Rightarrow> Some (Inl (WireFailure e), s1, r)
                 | Inr (avail_cap, _) \<Rightarrow>
                     if avail_cap < total_bytes then Some (Inl (SizeExceeds total_bytes avail_cap), s1, r)
                     else
                       (case (if total_bytes = 0 then Inr (host_of r)
                              else rdma_write_flat nic (mesh_of s1) (host_of s1) gs dest_off (host_of r)) of
                          Inl e \<Rightarrow> Some (Inl e, s1, r)
                        | Inr h1 \<Rightarrow>
                            (case recv_shm_offset (send_shm_offset total_bytes) of
                               Inl e \<Rightarrow> Some (Inl (WireFailure e), stage_done s1, r\<lparr>host_of := h1\<rparr>)
                             | Inr (total_len, _) \<Rightarrow>
                                 (case recv_ri_finish sl' dest_off cap total_len h1 of
                                    (y, h2) \<Rightarrow> Some (y, stage_done s1, r\<lparr>host_of := h2\<rparr>))))))))"

end
