(* ===== verification/Remote_Transfer.thy ===== *)
theory Remote_Transfer
  imports Remote
begin

text \<open>
  What a remote transfer delivers, for two hosts in direct mode: the scatter list of a slot names exactly
  its bytes, the writes of the sender-initiated protocol fill the receiver's pages with them, and
  the receiver's slot then stores the sender's records.
\<close>

section \<open>Direct mode\<close>

lemma direct_access:
  assumes "rbuf (ext h) = None"
  shows "host_page h = mem h" "window h = h" "upd_host_page p f h = upd_page p f h"
proof -
  have k: "page_key h p = p" for p using assms by (simp add: page_key_def)
  show hp: "host_page h = mem h" by (rule ext) (simp add: host_page_def k)
  show "window h = h" by (simp add: window_def hp)
  show "upd_host_page p f h = upd_page p f h" by (simp add: upd_host_page_def upd_page_def hp k)
qed

lemma upd_page_host [simp]:
  "ext (upd_page p f h) = ext h" "mode_flag (upd_page p f h) = mode_flag h" "grower (upd_page p f h) = grower h"
  by (simp_all add: upd_page_def)

lemma page_sizes: "PAGE_SIZE = 4096" "PAGE_HEADER_SIZE = 12" "PAGE_DATA_SIZE = 4084" "INITIAL_SHM_SIZE = 67108864"
  by (simp_all add: layout_consts)

text \<open>A write behind the header of a page changes its data only.\<close>

lemma of_raw_header:
  assumes "next_offset pg < 18446744073709551616" "cursor pg < 4294967296"
    and "\<And>i. i < 12 \<Longrightarrow> f i = page_raw pg i"
  shows "of_raw f = pg\<lparr>data := \<lambda>i. f (i + 12)\<rparr>"
proof -
  have "map f [0..<8] = to_le 8 (next_offset pg)" by (rule nth_equalityI) (simp_all add: assms(3) page_raw_def del: upt_rec_numeral)
  moreover have "map f [8..<12] = to_le 4 (cursor pg)" by (rule nth_equalityI) (simp_all add: assms(3) page_raw_def del: upt_rec_numeral)
  ultimately show ?thesis using assms(1,2) by (simp add: of_raw_def from_to_le)
qed

lemma write_region_data:
  assumes p: "PAGE_SIZE dvd p" and len: "length bs \<le> PAGE_DATA_SIZE"
    and hd: "next_offset (mem s p) < 18446744073709551616" "cursor (mem s p) < 4294967296"
  shows "write_region (p + PAGE_HEADER_SIZE) bs s = upd_page p (\<lambda>pg. pg\<lparr>data := write_bytes (data pg) 0 bs\<rparr>) s"
proof -
  have "mem (write_region (p + PAGE_HEADER_SIZE) bs s) q = mem (upd_page p (\<lambda>pg. pg\<lparr>data := write_bytes (data pg) 0 bs\<rparr>) s) q" for q
  proof (cases "q = p")
    case False
    have "mem (write_region (p + PAGE_HEADER_SIZE) bs s) q = mem s q"
      by (rule write_region_mem [OF p _ _ False]) (use len in \<open>simp_all add: page_sizes\<close>)
    then show ?thesis using False by (simp add: upd_page_def)
  next
    case True
    let ?f = "\<lambda>i. if i < PAGE_SIZE \<and> 12 \<le> i \<and> i < 12 + length bs then bs ! (i - 12) else page_raw (mem s p) i"
    have "mem (write_region (p + PAGE_HEADER_SIZE) bs s) p = of_raw ?f"
      using p by (auto simp: write_region_def page_sizes intro!: arg_cong [of _ _ of_raw])
    also have "\<dots> = (mem s p)\<lparr>data := \<lambda>i. ?f (i + 12)\<rparr>" by (rule of_raw_header [OF hd]) (simp add: page_sizes)
    also have "(\<lambda>i. ?f (i + 12)) = write_bytes (data (mem s p)) 0 bs"
      using len by (intro ext) (auto simp: write_bytes_def page_raw_def page_sizes)
    finally show ?thesis using True by (simp add: upd_page_def)
  qed
  then show ?thesis by (simp add: write_region_def upd_page_def fun_eq_iff)
qed

section \<open>Scatter lists\<close>

lemma sge_len_simps [simp]: "sge_len (cut_sge n g) = n" "sge_len (advance_sge n g) = sge_len g - n"
  by (simp_all add: sge_len_def cut_sge_def advance_sge_def)

lemma key_covers_part:
  assumes "key_covers m g" "n \<le> sge_len g"
  shows "key_covers m (cut_sge n g)" "key_covers m (advance_sge n g)"
  using assms by (cases g; cases "fst g"; auto simp: key_covers_def cut_sge_def advance_sge_def sge_len_def split: option.splits)+

lemma sge_bytes_part:
  assumes "key_covers m g" "n \<le> sge_len g"
  shows "sge_bytes m h (cut_sge n g) = take n (sge_bytes m h g)" "sge_bytes m h (advance_sge n g) = drop n (sge_bytes m h g)"
proof -
  have r: "read_region s a n = take n (read_region s a l)" "read_region s (a + n) (l - n) = drop n (read_region s a l)" if "n \<le> l" for s :: "'a host_scheme" and a l
    using read_region_add [of s a n "l - n"] that by simp_all
  have b: "read_bytes f a n = take n (read_bytes f a l)" "read_bytes f (a + n) (l - n) = drop n (read_bytes f a l)" if "n \<le> l" for f a l
    using read_bytes_add [of f a n "l - n"] that by simp_all
  show "sge_bytes m h (cut_sge n g) = take n (sge_bytes m h g)" "sge_bytes m h (advance_sge n g) = drop n (sge_bytes m h g)"
    using assms by (cases g; cases "fst g"; auto simp: key_covers_def sge_bytes_def cut_sge_def advance_sge_def sge_len_def r b split: option.splits)+
qed

lemma length_sge_bytes: "key_covers m g \<Longrightarrow> length (sge_bytes m h g) = sge_len g"
  by (cases g; cases "fst g") (auto simp: key_covers_def sge_bytes_def sge_len_def split: option.splits)

abbreviation list_bytes :: "mesh \<Rightarrow> 'a host_scheme \<Rightarrow> sge list \<Rightarrow> byte list" where
  "list_bytes m h gs \<equiv> concat (map (sge_bytes m h) gs)"

text \<open>The fragments of a page are the next bytes of the list, and the rest is what is left.\<close>

lemma fill_page_bytes:
  assumes "fill_page n cur rst acc = (gs, cur', rst')" "list_all (key_covers m) (cur # rst @ acc)"
  shows "list_bytes m h gs = list_bytes m h acc @ take n (list_bytes m h (cur # rst))
    \<and> list_bytes m h (cur' # rst') = drop n (list_bytes m h (cur # rst)) \<and> list_all (key_covers m) (cur' # rst' @ gs)"
  using assms
proof (induction n cur rst acc arbitrary: gs cur' rst' rule: fill_page.induct)
  case (1 n cur rst acc)
  have step: ?case if g: "list_all (key_covers m) (g # gs0 @ acc)" "sge_bytes m h cur @ list_bytes m h rst = sge_bytes m h g @ list_bytes m h gs0"
    and IH: "list_bytes m h gs = list_bytes m h (acc @ [cut_sge (min n (sge_len g)) g]) @ take (n - min n (sge_len g)) (list_bytes m h (advance_sge (min n (sge_len g)) g # gs0))
      \<and> list_bytes m h (cur' # rst') = drop (n - min n (sge_len g)) (list_bytes m h (advance_sge (min n (sge_len g)) g # gs0)) \<and> list_all (key_covers m) (cur' # rst' @ gs)"
    for g gs0
  proof -
    let ?k = "min n (sge_len g)"
    have c: "key_covers m g" using g(1) by simp
    have k: "?k \<le> sge_len g" by simp
    have l: "length (sge_bytes m h g) = sge_len g" by (rule length_sge_bytes [OF c])
    have "take ?k (sge_bytes m h g) @ take (n - ?k) (drop ?k (sge_bytes m h g) @ list_bytes m h gs0) = take n (sge_bytes m h g @ list_bytes m h gs0)"
      "drop (n - ?k) (drop ?k (sge_bytes m h g) @ list_bytes m h gs0) = drop n (sge_bytes m h g @ list_bytes m h gs0)"
      using l by (cases "n \<le> sge_len g"; simp add: min_def)+
    then show ?thesis using IH g(2) by (simp add: sge_bytes_part [OF c k])
  qed
  show ?case
  proof (cases "n = 0")
    case True
    then show ?thesis using "1.prems" by (simp add: fill_page.simps [of 0])
  next
    case n: False
    show ?thesis
    proof (cases "sge_len cur = 0")
      case cur: True
      have e: "sge_bytes m h cur = []" using length_sge_bytes [of m cur h] "1.prems"(2) cur by simp
      show ?thesis
      proof (cases rst)
        case Nil
        then show ?thesis using "1.prems" n cur e by (simp add: fill_page.simps [of n])
      next
        case (Cons g gs0)
        have f: "fill_page (n - min n (sge_len g)) (advance_sge (min n (sge_len g)) g) gs0 (acc @ [cut_sge (min n (sge_len g)) g]) = (gs, cur', rst')"
          using "1.prems"(1) n cur Cons by (simp add: fill_page.simps [of n])
        show ?thesis
          by (rule step [of g gs0])
            (use "1.IH"(1) [OF n cur Cons f] "1.prems"(2) Cons e key_covers_part in auto)
      qed
    next
      case cur: False
      have f: "fill_page (n - min n (sge_len cur)) (advance_sge (min n (sge_len cur)) cur) rst (acc @ [cut_sge (min n (sge_len cur)) cur]) = (gs, cur', rst')"
        using "1.prems"(1) n cur by (simp add: fill_page.simps [of n])
      show ?thesis
        by (rule step [of cur rst]) (use "1.IH"(2) [OF n cur f] "1.prems"(2) key_covers_part in auto)
    qed
  qed
qed

section \<open>Collecting a slot\<close>

definition page_sge :: "'a host_scheme \<Rightarrow> nat \<Rightarrow> nat \<Rightarrow> sge" where
  "page_sge h key p = (Shm (p + PAGE_HEADER_SIZE), cursor (mem h p), if INITIAL_SHM_SIZE \<le> p then key else mr1_lkey)"

abbreviation used_pages :: "'a host_scheme \<Rightarrow> nat list \<Rightarrow> nat list" where
  "used_pages h ps \<equiv> filter (\<lambda>p. 0 < cursor (mem h p)) ps"

fun ext_idxs :: "nat \<Rightarrow> nat list \<Rightarrow> nat list" where
  "ext_idxs k [] = []"
| "ext_idxs k (p # ps) = (if INITIAL_SHM_SIZE \<le> p then [k] else []) @ ext_idxs (Suc k) ps"

text \<open>Pages inside the window, and inside the file.\<close>

definition source_page :: "'a host_scheme \<Rightarrow> nat \<Rightarrow> bool" where
  "source_page h p \<longleftrightarrow> PAGE_SIZE dvd p \<and> p < DIRECT_LIMIT \<and> p + PAGE_SIZE \<le> global_capacity h \<and> cursor (mem h p) \<le> PAGE_DATA_SIZE"

lemma source_page_mr1: "source_page h p \<Longrightarrow> p < INITIAL_SHM_SIZE \<Longrightarrow> p + PAGE_SIZE \<le> INITIAL_SHM_SIZE"
  using aligned_less [of PAGE_SIZE p INITIAL_SHM_SIZE] by (simp add: source_page_def page_sizes)

lemma direct_sge_eq:
  assumes "source_page h p" "0 < cursor (mem h p)"
  shows "direct_sge p (mem h p) c = Inr (c\<lparr>src_sges := src_sges c @ [page_sge h 0 p],
      ext_sge_idxs := ext_sge_idxs c @ ext_idxs (length (src_sges c)) [p], src_bytes := wrap32 (src_bytes c + cursor (mem h p))\<rparr>)"
proof (cases "INITIAL_SHM_SIZE \<le> p")
  case True
  then have "\<not> p + PAGE_HEADER_SIZE + cursor (mem h p) \<le> INITIAL_SHM_SIZE" "INITIAL_SHM_SIZE \<le> p + PAGE_HEADER_SIZE" by (simp_all add: page_sizes)
  then show ?thesis using assms(2) True by (simp add: direct_sge_def Let_def add_ext_sge_def add_sge_def page_sge_def)
next
  case False
  then have "p + PAGE_HEADER_SIZE + cursor (mem h p) \<le> INITIAL_SHM_SIZE"
    using source_page_mr1 [OF assms(1)] assms(1) by (simp add: source_page_def page_sizes)
  then show ?thesis using assms(2) False by (simp add: direct_sge_def Let_def add_sge_def page_sge_def)
qed

lemma collect_direct:
  assumes "rbuf (ext h) = None" "chain (nxt h) p ps" "\<forall>q \<in> set ps. source_page h q" "src_bytes c < 4294967296"
  shows "collect_loop os nic p c m h = Some (Inr (c\<lparr>src_sges := src_sges c @ map (page_sge h 0) (used_pages h ps),
      ext_sge_idxs := ext_sge_idxs c @ ext_idxs (length (src_sges c)) (used_pages h ps),
      src_bytes := wrap32 (src_bytes c + length (chain_bytes h ps))\<rparr>), m, h)"
  using assms(2-4)
proof (induction ps arbitrary: p c)
  case Nil
  then show ?case by (simp add: collect_loop.simps)
next
  case (Cons q qs)
  have q: "p = q" "q \<noteq> 0" "chain (nxt h) (nxt h q) qs" "source_page h q" "q < DIRECT_LIMIT" using Cons.prems by (auto simp: source_page_def)
  have l: "length (chain_bytes h (q # qs)) = cursor (mem h q) + length (chain_bytes h qs)" by (simp add: page_bytes_def)
  have step: "collect_loop os nic p c m h = (case direct_sge q (mem h q) c of Inl e \<Rightarrow> Some (Inl e, m, h)
      | Inr c1 \<Rightarrow> collect_loop os nic (nxt h q) c1 m h)"
    unfolding q(1) using q(2,5) by (subst collect_loop.simps) (simp only: direct_access(1) [OF assms(1)] if_False if_True)
  show ?case
  proof (cases "cursor (mem h q) = 0")
    case True
    then show ?thesis using step Cons.IH [OF q(3), of c] Cons.prems(2,3) l by (simp add: direct_sge_def)
  next
    case False
    then show ?thesis
      using step Cons.IH [OF q(3), of "c\<lparr>src_sges := src_sges c @ [page_sge h 0 q],
          ext_sge_idxs := ext_sge_idxs c @ ext_idxs (length (src_sges c)) [q], src_bytes := wrap32 (src_bytes c + cursor (mem h q))\<rparr>"]
        Cons.prems(2) l
      by (simp add: direct_sge_eq [OF q(4)] wrap32_def mod_add_left_eq add.assoc)
  qed
qed

lemma stamp_ext_idxs:
  "fold (\<lambda>i gs. gs[i := (fst (gs ! i), fst (snd (gs ! i)), key)]) (ext_idxs (length pre) ps) (pre @ map (page_sge h 0) ps)
   = pre @ map (page_sge h key) ps"
proof (induction ps arbitrary: pre)
  case (Cons p ps)
  show ?case using Cons [of "pre @ [page_sge h key p]"]
    by (cases "INITIAL_SHM_SIZE \<le> p") (simp_all add: page_sge_def mr1_lkey_def)
qed simp

lemma ext_idxs_Nil: "ext_idxs k ps = [] \<longleftrightarrow> (\<forall>p \<in> set ps. p < INITIAL_SHM_SIZE)"
  by (induction ps arbitrary: k) auto

text \<open>The network card accepts every registration and completes every write.\<close>

definition accepting :: "nic \<Rightarrow> bool" where
  "accepting nic \<longleftrightarrow> (\<forall>n. reg_ok nic n) \<and> (\<forall>a. wr_ok nic a)"

lemma ensure_src_ext_ok:
  assumes "accepting nic" "INITIAL_SHM_SIZE < e"
  shows "\<exists>key m1 x. ensure_src_ext_covers nic e m = (Inr key, m1) \<and> mesh_src_ext m1 = Some x \<and> ext_key x = key \<and> e \<le> INITIAL_SHM_SIZE + ext_len x
    \<and> mesh_src_stage m1 = mesh_src_stage m"
proof (cases "mesh_src_ext m")
  case None
  then show ?thesis using assms by (auto simp: ensure_src_ext_covers_def accepting_def Let_def page_sizes)
next
  case (Some x)
  then show ?thesis using assms by (auto simp: ensure_src_ext_covers_def accepting_def Let_def)
qed

lemma page_sge_bytes:
  assumes "rbuf (ext h) = None" "source_page h p"
  shows "sge_bytes m h (page_sge h key p) = page_bytes h p"
proof -
  have "read_region h (p + PAGE_HEADER_SIZE) (cursor (mem h p)) = page_bytes h p"
  proof (rule nth_equalityI)
    fix i assume "i < length (read_region h (p + PAGE_HEADER_SIZE) (cursor (mem h p)))"
    then have i: "i < cursor (mem h p)" "PAGE_HEADER_SIZE + i < PAGE_SIZE" using assms(2) by (auto simp: source_page_def page_sizes)
    have "byte_at h (p + (PAGE_HEADER_SIZE + i)) = page_raw (mem h p) (PAGE_HEADER_SIZE + i)"
      using assms(2) i(2) by (intro byte_at_page) (auto simp: source_page_def)
    then show "read_region h (p + PAGE_HEADER_SIZE) (cursor (mem h p)) ! i = page_bytes h p ! i"
      using i(1) by (simp add: page_bytes_def page_raw_def page_sizes add.assoc)
  qed (simp add: page_bytes_def)
  then show ?thesis by (simp add: sge_bytes_def page_sge_def direct_access(2) [OF assms(1)])
qed

lemma used_pages_bytes:
  assumes "rbuf (ext h) = None" "\<forall>q \<in> set ps. source_page h q"
  shows "list_bytes m h (map (page_sge h key) (used_pages h ps)) = chain_bytes h ps"
  using assms(2)
proof (induction ps)
  case (Cons p ps)
  then show ?case using page_sge_bytes [OF assms(1), of p m key] by (auto simp: page_bytes_def)
qed simp

text \<open>The scatter list names the bytes of the slot, under live keys.\<close>

lemma collect_src_sges_ok:
  assumes pl: "rbuf (ext h) = None" and C: "chains h C" and sl: "slot_in_range sl" and nic: "accepting nic"
  shows "\<exists>key m1. collect_src_sges os nic sl m h
      = Some (Inr (map (page_sge h key) (used_pages h (C sl)), length (chain_bytes h (C sl))), m1, h)
    \<and> list_bytes m1 h (map (page_sge h key) (used_pages h (C sl))) = chain_bytes h (C sl)
    \<and> list_all (key_covers m1) (map (page_sge h key) (used_pages h (C sl)))"
proof -
  let ?us = "used_pages h (C sl)"
  have c: "guest_inv h" "slot_chain h sl (C sl)" "set (C sl) \<inter> avail h = {}" "\<And>p. p \<in> set (C sl) \<Longrightarrow> PAGE_SIZE dvd p"
    using C by (auto simp: chains_def)
  have sp: "\<forall>q \<in> set (C sl). source_page h q"
  proof
    fix q assume q: "q \<in> set (C sl)"
    have "q + PAGE_SIZE \<le> global_capacity h" using taken_in_file(1) [OF c(1) c(4) [OF q]] c(3) q by blast
    moreover have "global_capacity h \<le> DIRECT_LIMIT" using c(1) by (simp add: guest_inv_def cap_ok_def layout_consts)
    ultimately show "source_page h q" using c(2,4) q by (auto simp: source_page_def slot_chain_def page_sizes)
  qed
  have len: "length (chain_bytes h (C sl)) < 4294967296" by (rule slot_pages(3) [OF C])
  have cl: "collect_loop os nic (get_head sl h) \<lparr>src_sges = [], ext_sge_idxs = [], src_bytes = 0\<rparr> m h
      = Some (Inr \<lparr>src_sges = map (page_sge h 0) ?us, ext_sge_idxs = ext_idxs 0 ?us, src_bytes = length (chain_bytes h (C sl))\<rparr>, m, h)"
    using collect_direct [OF pl slot_pages(1) [OF C] sp, of "\<lparr>src_sges = [], ext_sge_idxs = [], src_bytes = 0\<rparr>" os nic m] len by simp
  note ub = used_pages_bytes [OF pl sp]
  have mr1: "p + PAGE_HEADER_SIZE + cursor (mem h p) \<le> INITIAL_SHM_SIZE" if "p \<in> set ?us" "p < INITIAL_SHM_SIZE" for p
    using source_page_mr1 [of h p] sp that by (fastforce simp: source_page_def page_sizes)
  show ?thesis
  proof (cases "ext_idxs 0 ?us = []")
    case True
    then have lt: "p < INITIAL_SHM_SIZE" if "p \<in> set ?us" for p using that by (auto simp: ext_idxs_Nil)
    have "list_all (key_covers m) (map (page_sge h 0) ?us)"
      using mr1 lt by (auto simp: list_all_iff key_covers_def page_sge_def mr1_lkey_def)
    then show ?thesis using cl True sl ub by (intro exI [of _ 0] exI [of _ m]) (simp add: collect_src_sges_def)
  next
    case False
    then obtain p where p: "p \<in> set (C sl)" "INITIAL_SHM_SIZE \<le> p" by (auto simp: ext_idxs_Nil not_less)
    then have "INITIAL_SHM_SIZE < global_capacity h" using sp by (fastforce simp: source_page_def page_sizes)
    then obtain key m1 x where e: "ensure_src_ext_covers nic (global_capacity h) m = (Inr key, m1)" "mesh_src_ext m1 = Some x" "ext_key x = key"
      "global_capacity h \<le> INITIAL_SHM_SIZE + ext_len x"
      using ensure_src_ext_ok [OF nic, of "global_capacity h" m] by blast
    have "key_covers m1 (page_sge h key q)" if q: "q \<in> set ?us" for q
    proof (cases "INITIAL_SHM_SIZE \<le> q")
      case True
      have "q + PAGE_HEADER_SIZE + cursor (mem h q) \<le> global_capacity h" using sp q by (fastforce simp: source_page_def page_sizes)
      then show ?thesis using e(2-4) True by (simp add: key_covers_def page_sge_def)
    qed (use mr1 q in \<open>simp add: key_covers_def page_sge_def\<close>)
    then have "list_all (key_covers m1) (map (page_sge h key) ?us)" by (simp add: list_all_iff)
    moreover have "stamp_ext key \<lparr>src_sges = map (page_sge h 0) ?us, ext_sge_idxs = ext_idxs 0 ?us, src_bytes = length (chain_bytes h (C sl))\<rparr>
        = map (page_sge h key) ?us"
      using stamp_ext_idxs [of key "[]" ?us h] by (simp add: stamp_ext_def)
    ultimately show ?thesis
      using cl False sl ub e(1) by (intro exI [of _ key] exI [of _ m1]) (simp add: collect_src_sges_def)
  qed
qed

section \<open>Consecutive pages\<close>

definition nth_page :: "nat \<Rightarrow> nat \<Rightarrow> nat" where
  "nth_page d i = d + i * PAGE_SIZE"

definition chunk :: "byte list \<Rightarrow> nat \<Rightarrow> byte list" where
  "chunk bs i = take PAGE_DATA_SIZE (drop (i * PAGE_DATA_SIZE) bs)"

lemma nth_page_inj: "nth_page d i = nth_page d j \<longleftrightarrow> i = j"
  by (simp add: nth_page_def page_sizes)

lemma length_chunk: "length (chunk bs i) = min PAGE_DATA_SIZE (length bs - i * PAGE_DATA_SIZE)"
  by (simp add: chunk_def)

lemma concat_chunks: "concat (map (chunk bs) [0..<n]) = take (n * PAGE_DATA_SIZE) bs"
proof (induction n)
  case (Suc n)
  then show ?case by (simp add: chunk_def take_add [of "n * PAGE_DATA_SIZE" PAGE_DATA_SIZE, symmetric] add.commute)
qed simp

lemma page_count_bounds:
  "length bs \<le> page_count (length bs) * PAGE_DATA_SIZE" "bs \<noteq> [] \<Longrightarrow> 0 < page_count (length bs)"
  "i < page_count (length bs) \<Longrightarrow> i * PAGE_DATA_SIZE < length bs"
proof -
  have "0 < length bs" if "bs \<noteq> []" using that by simp
  then show "length bs \<le> page_count (length bs) * PAGE_DATA_SIZE" "bs \<noteq> [] \<Longrightarrow> 0 < page_count (length bs)"
    "i < page_count (length bs) \<Longrightarrow> i * PAGE_DATA_SIZE < length bs"
    unfolding page_count_def page_sizes by linarith+
qed

lemma all_chunks: "concat (map (chunk bs) [0..<page_count (length bs)]) = bs"
  using page_count_bounds(1) [of bs] by (simp add: concat_chunks)

text \<open>Updates of distinct pages, one after the other.\<close>

definition upd_pages :: "(nat \<Rightarrow> nat) \<Rightarrow> (nat \<Rightarrow> page \<Rightarrow> page) \<Rightarrow> nat list \<Rightarrow> 'a shm_scheme \<Rightarrow> 'a shm_scheme" where
  "upd_pages P F is h = fold (\<lambda>i. upd_page (P i) (F i)) is h"

lemma upd_pages_rec [simp]: "upd_pages P F [] h = h" "upd_pages P F (i # is) h = upd_pages P F is (upd_page (P i) (F i) h)"
  by (simp_all add: upd_pages_def)

lemma upd_pages_mem:
  assumes "inj P" "distinct is"
  shows "mem (upd_pages P F is h) q = (if q \<in> P ` set is then F (inv P q) (mem h q) else mem h q)"
  using assms(2)
proof (induction "is" arbitrary: h)
  case (Cons i "is")
  then show ?case using assms(1) by (auto simp: upd_page_def inj_eq)
qed simp

lemma upd_pages_frame:
  "upd_pages P F is h = h\<lparr>mem := mem (upd_pages P F is h)\<rparr>"
proof (induction "is" arbitrary: h)
  case (Cons i "is")
  have "upd_pages P F (i # is) h = (upd_page (P i) (F i) h)\<lparr>mem := mem (upd_pages P F (i # is) h)\<rparr>"
    using Cons [of "upd_page (P i) (F i) h"] by simp
  then show ?case by (simp add: upd_page_def)
qed simp

lemma inj_nth_page: "inj (nth_page d)" "inv (nth_page d) (nth_page d i) = i"
proof -
  show i: "inj (nth_page d)" by (simp add: inj_def nth_page_inj)
  show "inv (nth_page d) (nth_page d i) = i" by (rule inv_f_f [OF i])
qed

definition header_of :: "nat \<Rightarrow> nat \<Rightarrow> nat \<Rightarrow> nat \<Rightarrow> page \<Rightarrow> page" where
  "header_of d total_len n i pg = pg\<lparr>cursor := min PAGE_DATA_SIZE (total_len - i * PAGE_DATA_SIZE),
     next_offset := if i + 1 < n then nth_page d (i + 1) else 0\<rparr>"

lemma stamp_pages_eq:
  assumes "rbuf (ext h) = None" "d + n * PAGE_SIZE < 4294967296"
  shows "stamp_pages d total_len n h = upd_pages (nth_page d) (header_of d total_len n) [0..<n] h"
proof -
  have w: "wrap32 (d + i * PAGE_SIZE) = nth_page d i" if "i \<le> n" for i
  proof -
    have "i * PAGE_SIZE \<le> n * PAGE_SIZE" using that by simp
    then have "d + i * PAGE_SIZE < 4294967296" using assms(2) by linarith
    then show ?thesis by (simp add: nth_page_def)
  qed
  have "fold (stamp_page d total_len n) is g = upd_pages (nth_page d) (header_of d total_len n) is g"
    if "rbuf (ext g) = None" "\<forall>i \<in> set is. i < n" for "is" and g :: "'a host_scheme"
    using that
  proof (induction "is" arbitrary: g)
    case (Cons i "is")
    have "stamp_page d total_len n i g = upd_page (nth_page d i) (header_of d total_len n i) g"
      using Cons.prems w [of i] w [of "i + 1"] by (simp add: stamp_page_def direct_access(3) header_of_def [abs_def])
    then show ?case using Cons by simp
  qed simp
  then show ?thesis using assms(1) by (simp add: stamp_pages_def)
qed

lemma chain_consecutive:
  assumes "\<And>i. k \<le> i \<Longrightarrow> i < n \<Longrightarrow> f (nth_page d i) = (if i + 1 < n then nth_page d (i + 1) else 0)" "0 < d" "k < n"
  shows "chain f (nth_page d k) (map (nth_page d) [k..<n])"
  using assms(1,3)
proof (induction "n - k" arbitrary: k)
  case (Suc m)
  have nz: "nth_page d k \<noteq> 0" using assms(2) by (simp add: nth_page_def)
  have u: "[k..<n] = k # [Suc k..<n]" using Suc.prems(2) by (rule upt_conv_Cons)
  show ?case
  proof (cases "Suc k < n")
    case True
    have "chain f (nth_page d (Suc k)) (map (nth_page d) [Suc k..<n])"
      by (rule Suc.hyps(1)) (use Suc.hyps(2) Suc.prems True in auto)
    then show ?thesis using u nz Suc.prems(1) [of k] True by simp
  next
    case False
    then show ?thesis using u nz Suc.prems by simp
  qed
qed simp

text \<open>Moving the bump pointer past several pages.\<close>

lemma alloc_inv_pages:
  assumes "alloc_inv s" "bump_allocator s + n * PAGE_SIZE < 4294967296"
  shows "alloc_inv (s\<lparr>bump_allocator := bump_allocator s + n * PAGE_SIZE\<rparr>)
    \<and> avail (s\<lparr>bump_allocator := bump_allocator s + n * PAGE_SIZE\<rparr>) \<subseteq> avail s - nth_page (bump_allocator s) ` {..<n}"
  using assms(2)
proof (induction n)
  case 0
  then show ?case using assms(1) by simp
next
  case (Suc n)
  let ?s = "s\<lparr>bump_allocator := bump_allocator s + n * PAGE_SIZE\<rparr>" and ?t = "s\<lparr>bump_allocator := bump_allocator s + Suc n * PAGE_SIZE\<rparr>"
  have ih: "alloc_inv ?s" "avail ?s \<subseteq> avail s - nth_page (bump_allocator s) ` {..<n}" using Suc by simp_all
  have "alloc_inv ?t" "avail ?t \<subseteq> avail ?s - {nth_page (bump_allocator s) n}"
    using alloc_inv_bump [OF ih(1), of ?t] Suc.prems by (simp_all add: nth_page_def algebra_simps)
  then show ?case using ih(2) by (auto simp: lessThan_Suc)
qed

text \<open>Giving one slot a new chain of pages that were available.\<close>

lemma chains_replace:
  assumes C: "chains s C" and g: "guest_inv t" "avail t \<subseteq> avail s"
    and A: "slot_chain t a ps" "Page_Chain.complete (chain_bytes t ps)" and pages: "set ps \<subseteq> avail s" "set ps \<inter> avail t = {}"
    and other: "\<forall>sl. sl \<noteq> a \<longrightarrow> get_head sl t = get_head sl s \<and> get_tail sl t = get_tail sl s"
      "\<forall>q. q \<notin> avail s \<longrightarrow> mem t q = mem s q"
  shows "chains t (C(a := ps))" "sl \<noteq> a \<Longrightarrow> chain_bytes t (C sl) = chain_bytes s (C sl)"
proof -
  let ?C = "C(a := ps)"
  have c: "guest_inv s" "\<And>sl. slot_chain s sl (C sl)" "\<And>sl. Page_Chain.complete (chain_bytes s (C sl))"
    "\<And>sl. set (C sl) \<inter> avail s = {}"
    "\<And>sl p. p \<in> set (C sl) \<Longrightarrow> BUMP_ALLOCATOR_START \<le> p \<and> PAGE_SIZE dvd p"
    "\<And>sl sl'. sl \<noteq> sl' \<Longrightarrow> set (C sl) \<inter> set (C sl') = {}"
    using C by (auto simp: chains_def)
  have m: "mem t q = mem s q" if "q \<in> set (C sl)" for q sl using other(2) c(4) [of sl] that by blast
  have o: "slot_chain t sl (C sl)" "chain_bytes t (C sl) = chain_bytes s (C sl)" if "sl \<noteq> a" for sl
    using slot_chain_cong [OF c(2) [of sl], of t] chain_bytes_cong [of "C sl" t s] m other(1) that by blast+
  show "chain_bytes t (C sl) = chain_bytes s (C sl)" if "sl \<noteq> a" using o(2) [OF that] .
  have al: "BUMP_ALLOCATOR_START \<le> p \<and> PAGE_SIZE dvd p" if "p \<in> set ps" for p
    using pages(1) that avail_aligned [of s p] c(1) by (auto simp: guest_inv_def)
  have dj: "set (C sl) \<inter> set ps = {}" for sl using pages(1) c(4) [of sl] by blast
  show "chains t ?C"
    unfolding chains_def
  proof (intro conjI allI impI)
    show "guest_inv t" by (rule g(1))
    fix sl
    show "slot_chain t sl (?C sl)" "Page_Chain.complete (chain_bytes t (?C sl))" using A o [of sl] c(3) [of sl] by auto
    show "set (?C sl) \<inter> avail t = {}" using pages(2) c(4) [of sl] g(2) by auto
    show "\<forall>p\<in>set (?C sl). BUMP_ALLOCATOR_START \<le> p \<and> PAGE_SIZE dvd p" using al c(5) [of _ sl] by auto
    show "set (?C sl) \<inter> set (?C sl') = {}" if "sl \<noteq> sl'" for sl'
      using dj [of sl] dj [of sl'] c(6) [OF that] that by auto
  qed
qed

section \<open>Filling the receiver's pages\<close>

text \<open>Source entries that already have the sizes of the destination pages.\<close>

definition page_sized :: "byte list \<Rightarrow> nat \<Rightarrow> nat \<Rightarrow> sge \<Rightarrow> sge list \<Rightarrow> bool" where
  "page_sized bs k n cur rst \<longleftrightarrow>
     map sge_len (if sge_len cur = 0 then rst else cur # rst) = map (\<lambda>i. length (chunk bs i)) [k..<n]"

lemma fill_page_sized:
  assumes "page_sized bs k n cur rst" "k < n" "chunk bs k \<noteq> []" "fill_page (length (chunk bs k)) cur rst [] = (gs, cur', rst')"
  shows "length gs \<le> 1" "page_sized bs (Suc k) n cur' rst'"
proof -
  let ?l = "length (chunk bs k)"
  have u: "[k..<n] = k # [Suc k..<n]" using assms(2) by (rule upt_conv_Cons)
  have f0: "fill_page 0 c r a = (a, c, r)" for c r a by (simp add: fill_page.simps [of 0])
  have "length gs \<le> 1 \<and> page_sized bs (Suc k) n cur' rst'"
  proof (cases "sge_len cur = 0")
    case True
    then obtain g gs0 where g: "rst = g # gs0" "sge_len g = ?l" "map sge_len gs0 = map (\<lambda>i. length (chunk bs i)) [Suc k..<n]"
      using assms(1) by (auto simp: page_sized_def u)
    have "fill_page ?l cur rst [] = ([cut_sge ?l g], advance_sge ?l g, gs0)"
      using True g(1,2) assms(3) by (simp add: fill_page.simps [of ?l] f0)
    then show ?thesis using assms(4) g(2,3) by (auto simp: page_sized_def)
  next
    case False
    then have g: "sge_len cur = ?l" "map sge_len rst = map (\<lambda>i. length (chunk bs i)) [Suc k..<n]"
      using assms(1) by (auto simp: page_sized_def u)
    have "fill_page ?l cur rst [] = ([cut_sge ?l cur], advance_sge ?l cur, rst)"
      using False g(1) assms(3) by (simp add: fill_page.simps [of ?l] f0)
    then show ?thesis using assms(4) g by (auto simp: page_sized_def)
  qed
  then show "length gs \<le> 1" "page_sized bs (Suc k) n cur' rst'" by blast+
qed

definition fill_of :: "byte list \<Rightarrow> nat \<Rightarrow> page \<Rightarrow> page" where
  "fill_of bs i pg = pg\<lparr>data := write_bytes (data pg) 0 (chunk bs i)\<rparr>"

definition headers_ok :: "nat \<Rightarrow> nat \<Rightarrow> 'a shm_scheme \<Rightarrow> bool" where
  "headers_ok d n r \<longleftrightarrow> (\<forall>i < n. next_offset (mem r (nth_page d i)) < 18446744073709551616 \<and> cursor (mem r (nth_page d i)) < 4294967296)"

lemma drop_min_length: "drop (min k (length xs)) xs = drop k xs"
  by (simp add: min_def)

lemma write_pages_ok:
  assumes nic: "accepting nic" and d: "PAGE_SIZE dvd d" "nth_page d n \<le> INITIAL_SHM_SIZE" and n: "n = page_count (length bs)"
    and cov: "list_all (key_covers m) (cur # rst)" and bytes: "list_bytes m h (cur # rst) = drop (k * PAGE_DATA_SIZE) bs"
    and hd: "headers_ok d n r" and pk: "pk \<Longrightarrow> page_sized bs k n cur rst" and k: "k \<le> n"
  shows "write_pages nic m h d (length bs) [k..<n] cur rst r = Inr (upd_pages (nth_page d) (fill_of bs) [k..<n] r)
    \<or> \<not> pk \<and> (\<exists>j > MAX_SEND_SGE. write_pages nic m h d (length bs) [k..<n] cur rst r = Inl (TooManySges j))"
  using cov bytes hd pk k
proof (induction "n - k" arbitrary: k cur rst r)
  case (Suc x)
  have kn: "k < n" and u: "[k..<n] = k # [Suc k..<n]" using Suc.hyps(2) by (auto intro: upt_conv_Cons)
  let ?l = "min PAGE_DATA_SIZE (length bs - k * PAGE_DATA_SIZE)"
  have l: "?l = length (chunk bs k)" by (simp add: length_chunk)
  have ne: "chunk bs k \<noteq> []" using page_count_bounds(3) [of k bs] kn n l by (auto simp: page_sizes)
  obtain gs cur' rst' where f: "fill_page ?l cur rst [] = (gs, cur', rst')" by (metis prod_cases3)
  note fb = fill_page_bytes [OF f, of m h]
  have fb: "list_bytes m h gs = take ?l (drop (k * PAGE_DATA_SIZE) bs)" "list_bytes m h (cur' # rst') = drop ?l (drop (k * PAGE_DATA_SIZE) bs)"
    "list_all (key_covers m) (cur' # rst' @ gs)"
    using fb Suc.prems(1) unfolding Suc.prems(2) by auto
  have gb: "list_bytes m h gs = chunk bs k" unfolding fb(1) chunk_def by (simp add: min_def)
  have rb: "list_bytes m h (cur' # rst') = drop (Suc k * PAGE_DATA_SIZE) bs"
    unfolding fb(2) using drop_min_length [of PAGE_DATA_SIZE "drop (k * PAGE_DATA_SIZE) bs"] by (simp add: add.commute)
  have pw: "post_write nic m h gs a = (if MAX_SEND_SGE < length gs then Inl (TooManySges (length gs)) else Inr (chunk bs k))" for a
    using fb(3) nic gb by (simp add: post_write_def accepting_def)
  show ?case
  proof (cases "MAX_SEND_SGE < length gs")
    case True
    have "\<not> pk"
    proof
      assume pk
      then have "length gs \<le> 1" using fill_page_sized(1) [OF Suc.prems(4) kn ne f [unfolded l]] by blast
      then show False using True by (simp add: MAX_SEND_SGE_def)
    qed
    then show ?thesis unfolding u using True f by (auto simp: write_mr1_def pw)
  next
    case False
    let ?r = "upd_page (nth_page d k) (fill_of bs k) r"
    have "nth_page d (Suc k) \<le> nth_page d n" using mult_le_mono1 [of "Suc k" n PAGE_SIZE] kn by (simp add: nth_page_def)
    then have le: "d + k * PAGE_SIZE + PAGE_HEADER_SIZE + length (chunk bs k) \<le> INITIAL_SHM_SIZE"
      using d(2) length_chunk [of bs k] by (simp add: nth_page_def page_sizes)
    have dv: "PAGE_SIZE dvd d + k * PAGE_SIZE" using d(1) by simp
    have "write_region (d + k * PAGE_SIZE + PAGE_HEADER_SIZE) (chunk bs k) r = ?r"
      using write_region_data [OF dv, of "chunk bs k" r] Suc.prems(3) kn length_chunk [of bs k]
      by (simp add: headers_ok_def nth_page_def fill_of_def [abs_def])
    then have w: "write_mr1 nic m h gs (d + k * PAGE_SIZE + PAGE_HEADER_SIZE) r = Inr ?r" using False le by (simp add: write_mr1_def pw)
    have hd: "headers_ok d n ?r" using Suc.prems(3) by (auto simp: headers_ok_def upd_page_def fill_of_def)
    have "write_pages nic m h d (length bs) [Suc k..<n] cur' rst' ?r = Inr (upd_pages (nth_page d) (fill_of bs) [Suc k..<n] ?r)
      \<or> \<not> pk \<and> (\<exists>j > MAX_SEND_SGE. write_pages nic m h d (length bs) [Suc k..<n] cur' rst' ?r = Inl (TooManySges j))"
      by (rule Suc.hyps(1))
        (use Suc.hyps(2) fb(3) rb hd kn fill_page_sized(2) [OF Suc.prems(4) kn ne f [unfolded l]] in auto)
    then show ?thesis unfolding u using f w by simp
  qed
qed simp

section \<open>The receiver's slot\<close>

text \<open>Pages taken from the bump pointer that hold the chunks of a byte string, linked into a slot.\<close>

lemma fresh_chain:
  assumes C: "chains h C" and bs: "bs \<noteq> []" "Page_Chain.complete bs" and n: "n = page_count (length bs)" and d: "d = bump_allocator h"
    and le: "nth_page d n \<le> global_capacity h"
    and fields: "bump_allocator t = nth_page d n" "free_list_heads t = free_list_heads h"
      "global_capacity t = global_capacity h" "local_capacity t = local_capacity h"
    and pages: "\<forall>i < n. cursor (mem t (nth_page d i)) = length (chunk bs i)
        \<and> nxt t (nth_page d i) = (if i + 1 < n then nth_page d (i + 1) else 0)
        \<and> read_bytes (data (mem t (nth_page d i))) 0 (length (chunk bs i)) = chunk bs i"
      "\<forall>q. q \<notin> nth_page d ` {..<n} \<longrightarrow> mem t q = mem h q"
    and ends: "get_head a t = d" "get_tail a t = nth_page d (n - 1)"
      "\<forall>sl. sl \<noteq> a \<longrightarrow> get_head sl t = get_head sl h \<and> get_tail sl t = get_tail sl h"
  shows "chains t (C(a := map (nth_page d) [0..<n]))" "chain_bytes t (map (nth_page d) [0..<n]) = bs"
    "\<forall>sl. sl \<noteq> a \<longrightarrow> chain_bytes t (C sl) = chain_bytes h (C sl)"
proof -
  let ?ps = "map (nth_page d) [0..<n]" and ?h = "h\<lparr>bump_allocator := bump_allocator h + n * PAGE_SIZE\<rparr>"
  have g: "alloc_inv h" "cap_ok h" using C by (auto simp: chains_def guest_inv_def)
  have n0: "0 < n" using page_count_bounds(2) [OF bs(1)] n by simp
  have lim: "nth_page d n < 4294967296" using le g(2) by (simp add: cap_ok_def layout_consts)
  have d0: "0 < d" "BUMP_ALLOCATOR_START \<le> d" "PAGE_SIZE dvd d" using g(1) d by (auto simp: alloc_inv_def bump_ok_def layout_consts)
  have adv: "alloc_inv ?h" "avail ?h \<subseteq> avail h - nth_page d ` {..<n}"
    using alloc_inv_pages [OF g(1), of n] lim d by (simp_all add: nth_page_def)
  have inv: "alloc_inv t \<and> avail t = avail ?h"
    by (rule alloc_inv_cong [OF adv(1)]) (use fields pages(2) adv(2) d in \<open>auto simp: nth_page_def\<close>)
  have gi: "guest_inv t" using inv g(2) fields le by (simp add: guest_inv_def cap_ok_def)
  have sub: "set ?ps \<subseteq> avail h"
  proof -
    have "nth_page d i \<in> avail h" for i
      using d d0 dvd_add [OF d0(3), of "i * PAGE_SIZE"] by (simp add: avail_def nth_page_def)
    then show ?thesis by auto
  qed
  have lt: "nth_page d i \<le> nth_page d n" if "i < n" for i using that by (simp add: nth_page_def)
  have chn: "chain (nxt t) d ?ps"
    using chain_consecutive [of 0 n "nxt t" d] pages(1) d0(1) n0 by (simp add: nth_page_def)
  have "cursor (mem t p) \<le> PAGE_DATA_SIZE \<and> p < 4294967296" if "p \<in> set ?ps" for p
    using that pages(1) lim lt length_chunk [of bs] by fastforce
  then have sc: "slot_chain t a ?ps" using chn ends(1,2) n0 by (simp add: slot_chain_def last_map)
  have "map (page_bytes t) ?ps = map (chunk bs) [0..<n]" using pages(1) by (simp add: page_bytes_def)
  then show cb: "chain_bytes t ?ps = bs" using all_chunks [of bs] n by (simp only: chain_bytes_def)
  have oth: "\<forall>q. q \<notin> avail h \<longrightarrow> mem t q = mem h q" using pages(2) sub unfolding set_map set_upt atLeast0LessThan by blast
  have av: "avail t \<subseteq> avail h" "set ?ps \<inter> avail t = {}" using inv adv(2) by auto
  note rep = chains_replace [OF C gi av(1) sc _ sub av(2) ends(3) oth]
  show "chains t (C(a := ?ps))" "\<forall>sl. sl \<noteq> a \<longrightarrow> chain_bytes t (C sl) = chain_bytes h (C sl)"
    using rep bs(2) cb by auto
qed

lemma alloc_and_link_eq:
  assumes pl: "rbuf (ext h) = None" and bs: "bs \<noteq> []" and n: "n = page_count (length bs)" and d: "d = bump_allocator h"
    and le: "nth_page d n \<le> global_capacity h" "global_capacity h \<le> CAPACITY_HARD_LIMIT" and sl: "slot_in_range sl"
  shows "alloc_and_link os sl (length bs) h = (Inr d, set_tail sl (nth_page d (n - 1)) (set_head sl d
    (upd_pages (nth_page d) (header_of d (length bs) n) [0..<n] (h\<lparr>bump_allocator := nth_page d n\<rparr>))))"
proof -
  have l: "d + n * PAGE_SIZE < 4294967296" using le by (simp add: nth_page_def layout_consts)
  have "wrap32 n = n" "wrap32 (n * PAGE_SIZE) = n * PAGE_SIZE" using l by (simp_all add: page_sizes)
  moreover have "wrap32 (d + (n - 1) * PAGE_SIZE) = nth_page d (n - 1)"
  proof -
    have "(n - 1) * PAGE_SIZE \<le> n * PAGE_SIZE" by simp
    then have "d + (n - 1) * PAGE_SIZE < 4294967296" using l by linarith
    then show ?thesis by (simp add: nth_page_def)
  qed
  ultimately show ?thesis
    using l le(1) sl stamp_pages_eq [of "h\<lparr>bump_allocator := nth_page d n\<rparr>" d n "length bs"] pl
    by (simp add: alloc_and_link_def Let_def link_to_slot_def n [symmetric] d [symmetric] nth_page_def)
qed

text \<open>Pages that are full up to the last one, as appends leave them.\<close>

definition packed :: "'a shm_scheme \<Rightarrow> slot \<Rightarrow> bool" where
  "packed s sl \<longleftrightarrow> (\<exists>ps. slot_chain s sl ps \<and> (\<forall>p \<in> set (butlast ps). cursor (mem s p) = PAGE_DATA_SIZE))"

lemma page_count_Suc: "page_count (PAGE_DATA_SIZE + l) = Suc (page_count l)"
  by (simp add: page_count_def page_sizes)

lemma packed_sizes:
  assumes "\<forall>p \<in> set (butlast ps). cursor (mem h p) = PAGE_DATA_SIZE" "\<forall>p \<in> set ps. cursor (mem h p) \<le> PAGE_DATA_SIZE"
  shows "map (\<lambda>p. cursor (mem h p)) (used_pages h ps)
    = map (\<lambda>i. length (chunk (chain_bytes h ps) i)) [0..<page_count (length (chain_bytes h ps))]"
  using assms
proof (induction ps)
  case Nil
  then show ?case by (simp add: page_count_def page_sizes)
next
  case (Cons p ps)
  have pb: "length (page_bytes h p) = cursor (mem h p)" by (simp add: page_bytes_def)
  show ?case
  proof (cases "ps = []")
    case True
    have "page_count (cursor (mem h p)) = (if 0 < cursor (mem h p) then 1 else 0)"
      using Cons.prems(2) by (auto simp: page_count_def page_sizes intro!: div_nat_eqI)
    then show ?thesis using True Cons.prems(2) pb by (simp add: length_chunk)
  next
    case False
    let ?bs = "chain_bytes h ps"
    have p: "cursor (mem h p) = PAGE_DATA_SIZE" using Cons.prems(1) False by simp
    have "length (chunk (page_bytes h p @ ?bs) (Suc i)) = length (chunk ?bs i)" for i using pb p by (simp add: length_chunk)
    moreover have "length (chunk (page_bytes h p @ ?bs) 0) = PAGE_DATA_SIZE" using pb p by (simp add: length_chunk)
    moreover have "[0..<Suc k] = 0 # map Suc [0..<k]" for k by (simp add: map_Suc_upt upt_conv_Cons)
    ultimately have "map (\<lambda>i. length (chunk (page_bytes h p @ ?bs) i)) [0..<Suc (page_count (length ?bs))]
        = PAGE_DATA_SIZE # map (\<lambda>i. length (chunk ?bs i)) [0..<page_count (length ?bs)]"
      by (simp del: upt_Suc)
    moreover have "0 < PAGE_DATA_SIZE" by (simp add: page_sizes)
    ultimately show ?thesis using Cons False p pb page_count_Suc [of "length ?bs"] by (simp del: upt_Suc)
  qed
qed

lemma upd_pages_access:
  "get_head sl (upd_pages P F is h) = get_head sl h" "get_tail sl (upd_pages P F is h) = get_tail sl h"
  "bump_allocator (upd_pages P F is h) = bump_allocator h" "free_list_heads (upd_pages P F is h) = free_list_heads h"
  "global_capacity (upd_pages P F is h) = global_capacity h" "local_capacity (upd_pages P F is h) = local_capacity h"
  by (subst upd_pages_frame; cases sl; simp)+

lemma set_ends_access:
  "get_head sl (set_tail a y (set_head a x s)) = (if sl = a then x else get_head sl s)"
  "get_tail sl (set_tail a y (set_head a x s)) = (if sl = a then y else get_tail sl s)"
  "mem (set_tail a y (set_head a x s)) = mem s" "bump_allocator (set_tail a y (set_head a x s)) = bump_allocator s"
  "free_list_heads (set_tail a y (set_head a x s)) = free_list_heads s"
  "global_capacity (set_tail a y (set_head a x s)) = global_capacity s"
  "local_capacity (set_tail a y (set_head a x s)) = local_capacity s"
  by (cases a; cases sl; simp)+

lemma get_head_bump: "get_head sl (s\<lparr>bump_allocator := b\<rparr>) = get_head sl s" "get_tail sl (s\<lparr>bump_allocator := b\<rparr>) = get_tail sl s"
  by (cases sl; simp)+

lemma read_write_bytes: "read_bytes (write_bytes f 0 bs) 0 (length bs) = bs"
  by (rule nth_equalityI) (simp_all add: write_bytes_def)

lemma filled_pages:
  assumes C: "chains h C" and bs: "bs \<noteq> []" "Page_Chain.complete bs" and n: "n = page_count (length bs)" and d: "d = bump_allocator h"
    and le: "nth_page d n \<le> global_capacity h"
    and h1_def: "h1 = set_tail a (nth_page d (n - 1)) (set_head a d
    (upd_pages (nth_page d) (header_of d (length bs) n) [0..<n] (h\<lparr>bump_allocator := nth_page d n\<rparr>)))"
    and t_def: "t = upd_pages (nth_page d) (fill_of bs) [0..<n] h1"
  shows "chains t (C(a := map (nth_page d) [0..<n]))" "chain_bytes t (map (nth_page d) [0..<n]) = bs"
    "\<forall>sl. sl \<noteq> a \<longrightarrow> chain_bytes t (C sl) = chain_bytes h (C sl)"
proof -
  have m: "mem t q = (if q \<in> nth_page d ` {..<n} then fill_of bs (inv (nth_page d) q) (header_of d (length bs) n (inv (nth_page d) q) (mem h q)) else mem h q)" for q
    by (simp add: t_def h1_def upd_pages_mem [OF inj_nth_page(1)] set_ends_access atLeast0LessThan)
  have p: "\<forall>i < n. cursor (mem t (nth_page d i)) = length (chunk bs i)
        \<and> nxt t (nth_page d i) = (if i + 1 < n then nth_page d (i + 1) else 0)
        \<and> read_bytes (data (mem t (nth_page d i))) 0 (length (chunk bs i)) = chunk bs i"
  proof (intro allI impI)
    fix i assume "i < n"
    then have "mem t (nth_page d i) = fill_of bs i (header_of d (length bs) n i (mem h (nth_page d i)))" by (simp add: m inj_nth_page)
    then show "cursor (mem t (nth_page d i)) = length (chunk bs i)
        \<and> nxt t (nth_page d i) = (if i + 1 < n then nth_page d (i + 1) else 0)
        \<and> read_bytes (data (mem t (nth_page d i))) 0 (length (chunk bs i)) = chunk bs i"
      by (simp add: fill_of_def header_of_def length_chunk [symmetric] read_write_bytes)
  qed
  have f: "bump_allocator t = nth_page d n" "free_list_heads t = free_list_heads h"
    "global_capacity t = global_capacity h" "local_capacity t = local_capacity h"
    "get_head a t = d" "get_tail a t = nth_page d (n - 1)" "\<forall>sl. sl \<noteq> a \<longrightarrow> get_head sl t = get_head sl h \<and> get_tail sl t = get_tail sl h"
    by (auto simp: t_def h1_def upd_pages_access set_ends_access get_head_bump)
  have o: "\<forall>q. q \<notin> nth_page d ` {..<n} \<longrightarrow> mem t q = mem h q" by (simp add: m)
  note r = fresh_chain [OF C bs n d le f(1-4) p o f(5-7)]
  show "chains t (C(a := map (nth_page d) [0..<n]))" "chain_bytes t (map (nth_page d) [0..<n]) = bs"
    "\<forall>sl. sl \<noteq> a \<longrightarrow> chain_bytes t (C sl) = chain_bytes h (C sl)"
    by (fact r)+
qed

text \<open>The reserved pages filled by the sender's writes.\<close>

lemma receive_pages:
  assumes pl: "rbuf (ext r) = None" and C: "chains r C" and bs: "bs \<noteq> []" "Page_Chain.complete bs"
    and n: "n = page_count (length bs)" and d: "d = bump_allocator r"
    and le: "nth_page d n \<le> INITIAL_SHM_SIZE" "nth_page d n \<le> global_capacity r" and sl: "slot_in_range a" and nic: "accepting nic"
    and gs: "list_all (key_covers m) gs" "list_bytes m h gs = bs"
    and pk: "pk \<Longrightarrow> map sge_len gs = map (\<lambda>i. length (chunk bs i)) [0..<n] \<and> 0 \<notin> set (map sge_len gs)"
  shows "\<exists>r1. alloc_and_link os a (length bs) r = (Inr d, r1) \<and>
    ((\<exists>t. rdma_write_page_chain nic m h gs d (length bs) r1 = Inr t \<and> chains t (C(a := map (nth_page d) [0..<n]))
        \<and> chain_bytes t (map (nth_page d) [0..<n]) = bs \<and> (\<forall>sl. sl \<noteq> a \<longrightarrow> chain_bytes t (C sl) = chain_bytes r (C sl)))
     \<or> \<not> pk \<and> (\<exists>j > MAX_SEND_SGE. rdma_write_page_chain nic m h gs d (length bs) r1 = Inl (TooManySges j)))"
proof -
  let ?r1 = "set_tail a (nth_page d (n - 1)) (set_head a d
    (upd_pages (nth_page d) (header_of d (length bs) n) [0..<n] (r\<lparr>bump_allocator := nth_page d n\<rparr>)))"
  have cap: "global_capacity r \<le> CAPACITY_HARD_LIMIT" "PAGE_SIZE dvd d" using C d by (auto simp: chains_def guest_inv_def cap_ok_def alloc_inv_def bump_ok_def)
  have al: "alloc_and_link os a (length bs) r = (Inr d, ?r1)" by (rule alloc_and_link_eq [OF pl bs(1) n d le(2) cap(1) sl])
  have len: "length bs + PAGE_DATA_SIZE - 1 < 4294967296" using page_count_bounds(1) [of bs] le(1) n by (simp add: nth_page_def page_sizes)
  obtain g gs' where g: "gs = g # gs'" using gs(2) bs(1) by (cases gs) auto
  have w: "rdma_write_page_chain nic m h gs d (length bs) ?r1 = write_pages nic m h d (length bs) [0..<n] g gs' ?r1"
    using len g n by (simp add: rdma_write_page_chain_def page_count_def)
  have hd: "headers_ok d n ?r1"
  proof -
    have "nth_page d (Suc i) < 18446744073709551616" if "i < n" for i
      using that le(1) mult_le_mono1 [of "Suc i" n PAGE_SIZE] by (simp add: nth_page_def page_sizes)
    then show ?thesis
      by (auto simp: headers_ok_def set_ends_access upd_pages_mem [OF inj_nth_page(1)] inj_nth_page(2) header_of_def page_sizes)
  qed
  have ps: "page_sized bs 0 n g gs'" if pk using pk [OF that] g by (auto simp: page_sized_def)
  have "write_pages nic m h d (length bs) [0..<n] g gs' ?r1 = Inr (upd_pages (nth_page d) (fill_of bs) [0..<n] ?r1)
    \<or> \<not> pk \<and> (\<exists>j > MAX_SEND_SGE. write_pages nic m h d (length bs) [0..<n] g gs' ?r1 = Inl (TooManySges j))"
    by (rule write_pages_ok [OF nic cap(2) le(1) n]) (use gs g hd ps in auto)
  then show ?thesis using al w filled_pages [OF C bs n d le(2) refl refl, of a] by metis
qed

lemma stores_update:
  assumes "chains t (C(a := ps))" "chains h C" "chain_bytes t ps = bs" "\<forall>sl. sl \<noteq> a \<longrightarrow> chain_bytes t (C sl) = chain_bytes h (C sl)"
  shows "stores t ((\<lambda>sl. parse_records (chain_bytes h (C sl)))(a := parse_records bs))"
  unfolding stores_def using assms by (intro exI [of _ "C(a := ps)"]) (auto simp: fun_eq_iff)

lemma slot_bytes_Nil: "slot_bytes rs = [] \<longleftrightarrow> rs = []"
proof (cases rs)
  case (Cons a b)
  have "0 < length (encode_record a)" by (simp add: encode_record_def frame_def)
  then show ?thesis using Cons by (auto simp: slot_bytes_def)
qed (simp add: slot_bytes_def)

text \<open>What the sender announces and writes.\<close>

lemma prepare_send_ok:
  assumes pl: "rbuf (ext (host_of s)) = None" and C: "chains (host_of s) C" and sl: "slot_in_range sl" and nic: "accepting nic"
    and bs: "bs = chain_bytes (host_of s) (C sl)"
  shows "\<exists>gs m1. prepare_send os nic idle sl s = Some (Inr (gs, length bs), \<lparr>host_of = host_of s, mesh_of = m1\<rparr>)
    \<and> list_bytes m1 (host_of s) gs = bs \<and> list_all (key_covers m1) gs
    \<and> (packed (host_of s) sl \<longrightarrow> map sge_len gs = map (\<lambda>i. length (chunk bs i)) [0..<page_count (length bs)] \<and> 0 \<notin> set (map sge_len gs))"
proof -
  let ?m = "src_stage_try_shrink_idle idle (src_ext_try_shrink_idle idle (mesh_of s))" and ?us = "used_pages (host_of s) (C sl)"
  obtain key m1 where c: "collect_src_sges os nic sl ?m (host_of s) = Some (Inr (map (page_sge (host_of s) key) ?us, length bs), m1, host_of s)"
    "list_bytes m1 (host_of s) (map (page_sge (host_of s) key) ?us) = bs" "list_all (key_covers m1) (map (page_sge (host_of s) key) ?us)"
    using collect_src_sges_ok [OF pl C sl nic, of os ?m] unfolding bs by blast
  let ?gs = "map (page_sge (host_of s) key) ?us"
  have l: "map sge_len ?gs = map (\<lambda>p. cursor (mem (host_of s) p)) ?us" by (simp add: page_sge_def sge_len_def)
  have "map sge_len ?gs = map (\<lambda>i. length (chunk bs i)) [0..<page_count (length bs)]" if pk: "packed (host_of s) sl"
  proof -
    have scs: "slot_chain (host_of s) sl (C sl)" using C by (simp add: chains_def)
    obtain ps where p: "slot_chain (host_of s) sl ps" "\<forall>p \<in> set (butlast ps). cursor (mem (host_of s) p) = PAGE_DATA_SIZE"
      using pk by (auto simp: packed_def)
    have "ps = C sl" using p(1) scs chain_unique by (auto simp: slot_chain_def)
    then show ?thesis unfolding l bs using p(2) scs by (intro packed_sizes) (auto simp: slot_chain_def)
  qed
  moreover have "0 \<notin> set (map sge_len ?gs)" unfolding l by auto
  moreover have "prepare_send os nic idle sl s = Some (Inr (?gs, length bs), \<lparr>host_of = host_of s, mesh_of = m1\<rparr>)"
    using c(1) by (simp add: prepare_send_def)
  ultimately show ?thesis using c(2,3) by blast
qed

section \<open>A flat write into a page\<close>

lemma flat_write_single:
  assumes "accepting nic" "list_all (key_covers m) [g]" "sge_bytes m h g = bs" "d + length bs \<le> INITIAL_SHM_SIZE"
  shows "rdma_write_flat nic m h [g] d r = Inr (write_region d bs r)"
  using assms by (simp add: rdma_write_flat_def sge_chunks.simps [of "[g]"] sge_chunks.simps [of "[]"] write_mr1_def post_write_def
      accepting_def MAX_SEND_SGE_def)

lemma write_region_fields:
  "bump_allocator (write_region d bs r) = bump_allocator r" "rbuf (ext (write_region d bs r)) = rbuf (ext r)"
  "get_head sl (write_region d bs r) = get_head sl r"
  by (cases sl; simp add: write_region_def)+

lemma write_region_start:
  assumes "PAGE_SIZE dvd d" "length bs \<le> PAGE_DATA_SIZE" "j < length bs"
  shows "data (mem (write_region d bs r) d) j = (if j + 12 < length bs then bs ! (j + 12) else data (mem r d) j)"
proof -
  have "mem (write_region d bs r) d = of_raw (\<lambda>i. if i < length bs then bs ! i else page_raw (mem r d) i)"
    using assms by (auto simp: write_region_def page_sizes intro!: arg_cong [of _ _ of_raw])
  then show ?thesis by (simp add: of_raw_def page_raw_def)
qed

text \<open>A host whose stream slot 0 holds one record, a host with nothing, and a network card that never fails.\<close>

definition loaded_host :: host where
  "loaded_host = (let bs = slot_bytes [(0, [7, 8, 9, 10, 11])]; d = BUMP_ALLOCATOR_START in
     upd_pages (nth_page d) (fill_of bs) [0..<1] (set_tail (Stream 0) (nth_page d 0) (set_head (Stream 0) d
       (upd_pages (nth_page d) (header_of d (length bs) 1) [0..<1] (fresh_host\<lparr>bump_allocator := nth_page d 1\<rparr>)))))"

definition willing_nic :: nic where
  "willing_nic = \<lparr>reg_ok = (\<lambda>_. True), wr_ok = (\<lambda>_. True)\<rparr>"

definition fresh_mesh :: mesh where
  "fresh_mesh = \<lparr>mesh_mr2 = None, mesh_src_ext = None, mesh_src_stage = None, shm_file = True, python_compat = False, next_key = 1\<rparr>"

lemma loaded_bytes: "slot_bytes [(0, [7, 8, 9, 10, 11])] = [5, 0, 0, 0, 0, 0, 0, 0, 7, 8, 9, 10, 11]"
  by (simp add: slot_bytes_def encode_record_def frame_def to_le_bytes32_def)

lemma accepting_willing: "accepting willing_nic"
  by (simp add: accepting_def willing_nic_def)

lemma loaded_host_stores:
  "stores loaded_host ((\<lambda>_. [])(Stream 0 := [(0, [7, 8, 9, 10, 11])]))" "rbuf (ext loaded_host) = None" "packed loaded_host (Stream 0)"
proof -
  let ?bs = "slot_bytes [(0, [7, 8, 9, 10, 11])]"
  have c: "chains fresh_host (\<lambda>_. [])"
    using stores_fresh_host by (auto simp: chains_def stores_def slot_chain_def fresh_host_sel)
  have w: "list_all wf_record [(0, [7, 8, 9, 10, 11])]" by (simp add: wf_record_def)
  then have k: "Page_Chain.complete ?bs" unfolding Page_Chain.complete_def slot_bytes_def by blast
  have p: "parse_records ?bs = [(0, [7, 8, 9, 10, 11])]" using parse_records_concat [OF w, of "[]"] by (simp add: slot_bytes_def)
  have n: "1 = page_count (length ?bs)" by (simp add: page_count_def loaded_bytes page_sizes)
  have le: "nth_page BUMP_ALLOCATOR_START 1 \<le> global_capacity fresh_host"
    by (simp add: nth_page_def fresh_host_sel format_shared_memory_def layout_consts)
  have ne: "?bs \<noteq> []" by (simp add: loaded_bytes)
  have l: "loaded_host = upd_pages (nth_page BUMP_ALLOCATOR_START) (fill_of ?bs) [0..<1] (set_tail (Stream 0) (nth_page BUMP_ALLOCATOR_START (1 - 1))
      (set_head (Stream 0) BUMP_ALLOCATOR_START (upd_pages (nth_page BUMP_ALLOCATOR_START) (header_of BUMP_ALLOCATOR_START (length ?bs) 1) [0..<1]
         (fresh_host\<lparr>bump_allocator := nth_page BUMP_ALLOCATOR_START 1\<rparr>))))" by (simp add: loaded_host_def Let_def)
  note f = filled_pages [OF c ne k n fresh_host_sel(1) [symmetric] le refl l]
  show "stores loaded_host ((\<lambda>_. [])(Stream 0 := [(0, [7, 8, 9, 10, 11])]))"
    using stores_update [OF f(1) c f(2,3)] p by (simp add: fun_upd_def)
  show "rbuf (ext loaded_host) = None" by (simp add: loaded_host_def Let_def fresh_host_direct)
  have "slot_chain loaded_host (Stream 0) (map (nth_page BUMP_ALLOCATOR_START) [0..<1])" using f(1) by (auto simp: chains_def dest: spec [of _ "Stream 0"])
  then show "packed loaded_host (Stream 0)" unfolding packed_def by (intro exI) auto
qed

section \<open>Properties\<close>

text \<open>
  C33. A sender-initiated transfer between two hosts in direct mode delivers the slot. When the receiver's
  pages fit between its bump pointer and the end of the registered region, either the receiver's slot stores exactly
  the sender's records, every other slot of both sides keeping its own, or the sender panics on a page of
  more than sixteen fragments; a chain that is full up to its last page never does. An empty
  slot leaves the receiver as it was.
\<close>

theorem si_transfer_delivers:
  assumes pl: "rbuf (ext (host_of s)) = None" "rbuf (ext (host_of r)) = None" and st: "stores (host_of s) S" "stores (host_of r) R"
    and sl: "slot_in_range sl" "slot_in_range sl'" and nic: "accepting nic"
    and room: "bump_allocator (host_of r) + page_count (length (slot_bytes (S sl))) * PAGE_SIZE \<le> min INITIAL_SHM_SIZE (global_capacity (host_of r))"
  shows "\<exists>x s' r'. si_transfer os nic force idle sl sl' s r = Some (x, s', r') \<and> host_of s' = host_of s
    \<and> (x = Inr () \<and> stores (host_of r') (if S sl = [] then R else R(sl' := S sl))
       \<or> \<not> packed (host_of s) sl \<and> (\<exists>k > MAX_SEND_SGE. x = Inl (TooManySges k)))"
proof -
  obtain C where C: "chains (host_of s) C" "S = (\<lambda>sl. parse_records (chain_bytes (host_of s) (C sl)))" using st(1) by (auto simp: stores_def)
  obtain D where D: "chains (host_of r) D" "R = (\<lambda>sl. parse_records (chain_bytes (host_of r) (D sl)))" using st(2) by (auto simp: stores_def)
  define bs where "bs = chain_bytes (host_of s) (C sl)"
  have bs: "bs = slot_bytes (S sl)" "Page_Chain.complete bs" "length bs < 4294967296" "S sl = parse_records bs"
    using slot_pages(3,6) [OF C(1), of sl] C by (auto simp: bs_def chains_def)
  obtain gs m1 where c: "prepare_send os nic idle sl s = Some (Inr (gs, length bs), \<lparr>host_of = host_of s, mesh_of = m1\<rparr>)"
    "list_bytes m1 (host_of s) gs = bs" "list_all (key_covers m1) gs"
    "packed (host_of s) sl \<Longrightarrow> map sge_len gs = map (\<lambda>i. length (chunk bs i)) [0..<page_count (length bs)] \<and> 0 \<notin> set (map sge_len gs)"
    using prepare_send_ok [OF pl(1) C(1) sl(1) nic bs_def, of os idle] by blast
  have off: "recv_shm_offset (send_shm_offset (length bs)) = Inr (length bs, [])" using recv_offset_append [of "length bs" "[]"] bs(3) by simp
  show ?thesis
  proof (cases "S sl = []")
    case True
    then have "length bs = 0" using bs(1) slot_bytes_Nil by simp
    then show ?thesis using c(1) off True st(2) by (simp add: si_transfer_def stage_done_def)
  next
    case False
    then have ne: "bs \<noteq> []" using bs(1) slot_bytes_Nil by simp
    let ?d = "bump_allocator (host_of r)" and ?n = "page_count (length bs)"
    let ?r1 = "r\<lparr>mesh_of := mr2_try_shrink_idle idle (mesh_of r)\<rparr>"
    have le: "nth_page ?d ?n \<le> INITIAL_SHM_SIZE" "nth_page ?d ?n \<le> global_capacity (host_of r)" using room bs(1) by (simp_all add: nth_page_def)
    obtain r2 where r2: "alloc_and_link os sl' (length bs) (host_of r) = (Inr ?d, r2)"
      "(\<exists>t. rdma_write_page_chain nic m1 (host_of s) gs ?d (length bs) r2 = Inr t \<and> chains t (D(sl' := map (nth_page ?d) [0..<?n]))
        \<and> chain_bytes t (map (nth_page ?d) [0..<?n]) = bs \<and> (\<forall>a. a \<noteq> sl' \<longrightarrow> chain_bytes t (D a) = chain_bytes (host_of r) (D a)))
       \<or> \<not> packed (host_of s) sl \<and> (\<exists>j > MAX_SEND_SGE. rdma_write_page_chain nic m1 (host_of s) gs ?d (length bs) r2 = Inl (TooManySges j))"
      using receive_pages [OF pl(2) D(1) ne bs(2) refl refl le sl(2) nic c(3,2,4), where os = os] by blast
    have room': "length bs \<le> mr1_bump_remaining (host_of r)"
      using page_count_bounds(1) [of bs] le(1) by (simp add: mr1_bump_remaining_def nth_page_def page_sizes)
    have rep: "recv_si_reply os nic sl' (length bs) ?r1 = (Inr (SingleMr ?d), ?r1\<lparr>host_of := r2\<rparr>)"
      using room' r2(1) by (simp add: recv_si_reply_def)
    have dr: "recv_dest_reply (send_dest_reply (SingleMr ?d)) = Inr (SingleMr ?d, [])"
      using recv_reply_append [of "SingleMr ?d" "[]"] le(1) by (simp add: nth_page_def page_sizes)
    have lb: "length bs \<noteq> 0" using ne by simp
    note tr = si_transfer_def [of os nic force idle sl sl' s r] c(1) off rep dr [simplified] lb
    from r2(2) show ?thesis
    proof (elim disjE exE conjE)
      fix t
      assume t: "rdma_write_page_chain nic m1 (host_of s) gs ?d (length bs) r2 = Inr t" "chains t (D(sl' := map (nth_page ?d) [0..<?n]))"
        "chain_bytes t (map (nth_page ?d) [0..<?n]) = bs" "\<forall>a. a \<noteq> sl' \<longrightarrow> chain_bytes t (D a) = chain_bytes (host_of r) (D a)"
      have "stores t (R(sl' := S sl))" using stores_update [OF t(2) D(1) t(3,4)] D(2) bs(4) by simp
      then show ?thesis using False t(1) by (simp add: tr ne Let_def send_si_write_def recv_si_finish_def stage_done_def)
    next
      fix j assume j: "\<not> packed (host_of s) sl" "MAX_SEND_SGE < j" "rdma_write_page_chain nic m1 (host_of s) gs ?d (length bs) r2 = Inl (TooManySges j)"
      then show ?thesis by (simp add: tr ne Let_def send_si_write_def)
    qed
  qed
qed

theorem si_transfer_delivers_witness:
  "\<exists>s' r'. si_transfer willing_os willing_nic None False (Stream 0) (Io 5) \<lparr>host_of = loaded_host, mesh_of = fresh_mesh\<rparr>
       \<lparr>host_of = fresh_host, mesh_of = fresh_mesh\<rparr> = Some (Inr (), s', r')
     \<and> stores (host_of r') ((\<lambda>_. [])(Io 5 := [(0, [7, 8, 9, 10, 11])]))"
proof -
  let ?s = "\<lparr>host_of = loaded_host, mesh_of = fresh_mesh\<rparr>" and ?r = "\<lparr>host_of = fresh_host, mesh_of = fresh_mesh\<rparr>"
  have sl: "slot_in_range (Stream 0)" "slot_in_range (Io 5)" by (simp_all add: layout_consts)
  have room: "bump_allocator (host_of ?r) + page_count (length (slot_bytes (((\<lambda>_. [])(Stream 0 := [(0, [7, 8, 9, 10, 11])])) (Stream 0)))) * PAGE_SIZE
      \<le> min INITIAL_SHM_SIZE (global_capacity (host_of ?r))"
    by (simp add: page_count_def loaded_bytes fresh_host_sel format_shared_memory_def layout_consts)
  show ?thesis
    using si_transfer_delivers [where s = ?s and r = ?r and S = "(\<lambda>_. [])(Stream 0 := [(0, [7, 8, 9, 10, 11])])" and R = "\<lambda>_. []"
        and sl = "Stream 0" and sl' = "Io 5" and nic = willing_nic and os = willing_os and force = None and idle = False]
      loaded_host_stores stores_fresh_host fresh_host_direct sl accepting_willing room by auto
qed

text \<open>
  C40. The receiver-initiated protocol loses the first twelve bytes of a page. The sender writes the bytes of
  the slot from the start of the receiver's page and the receiver then stamps the page header over them and reads
  the data behind it: the transfer reports success, and the slot holds the bytes from the thirteenth on, followed by
  twelve stale bytes of the receiver's page.
\<close>

theorem ri_transfer_overwrites_start:
  assumes pl: "rbuf (ext (host_of s)) = None" "rbuf (ext (host_of r)) = None" and st: "stores (host_of s) S" and r: "guest_inv (host_of r)"
    and sl: "slot_in_range sl" "slot_in_range sl'" and nic: "accepting nic" and pk: "packed (host_of s) sl"
    and len: "12 \<le> length (slot_bytes (S sl))" "length (slot_bytes (S sl)) \<le> PAGE_DATA_SIZE"
    and room: "bump_allocator (host_of r) + PAGE_SIZE \<le> min INITIAL_SHM_SIZE (global_capacity (host_of r))"
  shows "\<exists>s' r'. ri_transfer os nic idle sl sl' s r = Some (Inr (), s', r') \<and> slot_chain (host_of r') sl' [bump_allocator (host_of r)]
    \<and> chain_bytes (host_of r') [bump_allocator (host_of r)]
      = drop 12 (slot_bytes (S sl)) @ read_bytes (data (mem (host_of r) (bump_allocator (host_of r)))) (length (slot_bytes (S sl)) - 12) 12"
proof -
  obtain C where C: "chains (host_of s) C" "S = (\<lambda>sl. parse_records (chain_bytes (host_of s) (C sl)))" using st by (auto simp: stores_def)
  define bs where "bs = chain_bytes (host_of s) (C sl)"
  have bs: "slot_bytes (S sl) = bs" using slot_pages(6) [OF C(1), of sl] C by (simp add: bs_def)
  let ?d = "bump_allocator (host_of r)" and ?cap = "global_capacity (host_of r)"
  have n: "page_count (length bs) = 1" using len bs by (auto simp: page_count_def page_sizes intro!: div_nat_eqI)
  have d: "PAGE_SIZE dvd ?d" "0 < ?d" "?cap \<le> CAPACITY_HARD_LIMIT" using r by (auto simp: guest_inv_def alloc_inv_def bump_ok_def cap_ok_def layout_consts)
  obtain gs m1 where c: "prepare_send os nic idle sl s = Some (Inr (gs, length bs), \<lparr>host_of = host_of s, mesh_of = m1\<rparr>)"
    "list_bytes m1 (host_of s) gs = bs" "list_all (key_covers m1) gs"
    "map sge_len gs = map (\<lambda>i. length (chunk bs i)) [0..<page_count (length bs)]"
    using prepare_send_ok [OF pl(1) C(1) sl(1) nic bs_def, of os idle] pk by blast
  obtain g where g: "gs = [g]" using c(4) n by (cases gs) auto
  let ?r1 = "write_region ?d bs (host_of r)"
  have w: "rdma_write_flat nic m1 (host_of s) gs ?d (host_of r) = Inr ?r1"
    unfolding g by (rule flat_write_single [OF nic]) (use c(2,3) g room len bs in \<open>auto simp: page_sizes\<close>)
  let ?r2 = "upd_page ?d (\<lambda>pg. pg\<lparr>cursor := length bs, next_offset := 0\<rparr>) (?r1\<lparr>bump_allocator := ?d + PAGE_SIZE\<rparr>)"
  let ?r3 = "set_tail sl' ?d (set_head sl' ?d ?r2)"
  have b: "?d + PAGE_SIZE < 4294967296" using room by (simp add: page_sizes)
  have sp: "stamp_pages ?d (length bs) 1 (?r1\<lparr>bump_allocator := ?d + PAGE_SIZE\<rparr>) = ?r2"
    using stamp_pages_eq [of "?r1\<lparr>bump_allocator := ?d + PAGE_SIZE\<rparr>" ?d 1 "length bs"] b pl(2) len bs
    by (simp add: write_region_fields header_of_def [abs_def] nth_page_def min_def)
  have ne: "bs \<noteq> []" using len(1) bs by auto
  have fin: "recv_ri_finish sl' ?d ?cap (length bs) ?r1 = (Inr (), ?r3)"
    using b n sl(2) ne room sp by (simp add: recv_ri_finish_def Let_def write_region_fields link_to_slot_def page_sizes)
  have o1: "recv_shm_offset (send_shm_offset ?d @ send_shm_offset (?cap - ?d)) = Inr (?d, send_shm_offset (?cap - ?d))"
    by (rule recv_offset_append) (use b in simp)
  have o2: "recv_shm_offset (send_shm_offset (?cap - ?d)) = Inr (?cap - ?d, [])" "recv_shm_offset (send_shm_offset (length bs)) = Inr (length bs, [])"
    using recv_offset_append [of "?cap - ?d" "[]"] recv_offset_append [of "length bs" "[]"] d(3) len bs by (simp_all add: layout_consts)
  have fits: "length bs \<le> ?cap - ?d" using len(2) bs room by (auto simp: page_sizes le_diff_conv2)
  have tr: "ri_transfer os nic idle sl sl' s r = Some (Inr (), stage_done \<lparr>host_of = host_of s, mesh_of = m1\<rparr>, r\<lparr>host_of := ?r3\<rparr>)"
    using c(1) o1 o2 w fin ne fits by (simp add: ri_transfer_def Let_def not_less)
  have "slot_chain ?r3 sl' [?d]"
    using d(2) b len(2) bs by (simp add: slot_chain_def set_ends_access upd_page_def)
  moreover have "chain_bytes ?r3 [?d] = drop 12 bs @ read_bytes (data (mem (host_of r) ?d)) (length bs - 12) 12"
  proof (rule nth_equalityI)
    show "length (chain_bytes ?r3 [?d]) = length (drop 12 bs @ read_bytes (data (mem (host_of r) ?d)) (length bs - 12) 12)"
      using len(1) bs by (simp add: page_bytes_def set_ends_access upd_page_def)
    fix i assume "i < length (chain_bytes ?r3 [?d])"
    then have i: "i < length bs" by (simp add: page_bytes_def set_ends_access upd_page_def)
    have "chain_bytes ?r3 [?d] ! i = data (mem ?r1 ?d) i" using i by (simp add: page_bytes_def set_ends_access upd_page_def)
    also have "\<dots> = (if i + 12 < length bs then bs ! (i + 12) else data (mem (host_of r) ?d) i)"
      using write_region_start [OF d(1) _ i, of "host_of r"] len(2) bs by simp
    finally show "chain_bytes ?r3 [?d] ! i = (drop 12 bs @ read_bytes (data (mem (host_of r) ?d)) (length bs - 12) 12) ! i"
      using i len(1) bs by (auto simp: nth_append add.commute)
  qed
  ultimately show ?thesis using tr bs by auto
qed

theorem ri_transfer_overwrites_start_witness:
  "\<exists>s' r'. ri_transfer willing_os willing_nic False (Stream 0) (Io 5) \<lparr>host_of = loaded_host, mesh_of = fresh_mesh\<rparr>
       \<lparr>host_of = fresh_host, mesh_of = fresh_mesh\<rparr> = Some (Inr (), s', r')
     \<and> chain_bytes (host_of r') [BUMP_ALLOCATOR_START] = [11, 0, 0, 0, 0, 0, 0, 0, 0, 0, 0, 0, 0]"
proof -
  let ?s = "\<lparr>host_of = loaded_host, mesh_of = fresh_mesh\<rparr>" and ?r = "\<lparr>host_of = fresh_host, mesh_of = fresh_mesh\<rparr>"
  have sl: "slot_in_range (Stream 0)" "slot_in_range (Io 5)" by (simp_all add: layout_consts)
  have g: "guest_inv fresh_host" using stores_fresh_host by (auto simp: stores_def chains_def)
  have m: "mem fresh_host q = zero_page" for q by (simp add: fresh_host_def shm.defs format_shared_memory_def)
  have room: "bump_allocator (host_of ?r) + PAGE_SIZE \<le> min INITIAL_SHM_SIZE (global_capacity (host_of ?r))" "(13::nat) \<le> PAGE_DATA_SIZE"
    by (simp_all add: fresh_host_sel format_shared_memory_def layout_consts)
  show ?thesis
    using ri_transfer_overwrites_start [where s = ?s and r = ?r and S = "(\<lambda>_. [])(Stream 0 := [(0, [7, 8, 9, 10, 11])])"
        and sl = "Stream 0" and sl' = "Io 5" and nic = willing_nic and os = willing_os and idle = False]
      loaded_host_stores g fresh_host_direct sl accepting_willing room
    by (auto simp: loaded_bytes fresh_host_sel m zero_page_def read_bytes_def upt_rec)
qed

end
