(* ===== verification/Stages.thy ===== *)
theory Stages
  imports Registry
begin

text \<open>
  The stages of the streaming pipeline that run in the guest (\<open>guest/src/workloads/stream_pipeline.rs\<close>): the read
  window that a consumer takes from the cursor and the watermark of its input slot, the two sources, the
  filter, the transform and the two sinks. Texts are lists of bytes; \<open>usize\<close> has 32 bits in the guest.
\<close>

section \<open>Text\<close>

definition ascii :: "string \<Rightarrow> byte list" where
  "ascii cs = map of_char cs"

text \<open>
  The next character of a text, or the bytes that the decoder gives up on: whether it is well formed and how many
  bytes it takes. \<open>from_utf8\<close> accepts the texts whose characters are all well formed, \<open>from_utf8_lossy\<close> puts the
  replacement character for every other piece.
\<close>

definition cont_byte :: "byte list \<Rightarrow> nat \<Rightarrow> bool" where
  "cont_byte bs i \<longleftrightarrow> i < length bs \<and> 0x80 \<le> bs ! i \<and> bs ! i \<le> 0xBF"

definition second_byte :: "byte list \<Rightarrow> bool" where
  "second_byte bs \<longleftrightarrow> cont_byte bs 1 \<and> (bs ! 0 = 0xE0 \<longrightarrow> 0xA0 \<le> bs ! 1) \<and> (bs ! 0 = 0xED \<longrightarrow> bs ! 1 \<le> 0x9F)
     \<and> (bs ! 0 = 0xF0 \<longrightarrow> 0x90 \<le> bs ! 1) \<and> (bs ! 0 = 0xF4 \<longrightarrow> bs ! 1 \<le> 0x8F)"

definition utf8_next :: "byte list \<Rightarrow> bool \<times> nat" where
  "utf8_next bs =
     (let a = bs ! 0 in
      if a < 0x80 then (True, 1)
      else if a < 0xC2 \<or> 0xF4 < a then (False, 1)
      else if \<not> second_byte bs then (False, 1)
      else if a < 0xE0 then (True, 2)
      else if \<not> cont_byte bs 2 then (False, 2)
      else if a < 0xF0 then (True, 3)
      else if \<not> cont_byte bs 3 then (False, 3) else (True, 4))"

lemma utf8_next_pos: "0 < snd (utf8_next bs)"
  by (simp add: utf8_next_def Let_def)

function utf8_valid :: "byte list \<Rightarrow> bool" where
  "utf8_valid bs = (if bs = [] then True else fst (utf8_next bs) \<and> utf8_valid (drop (snd (utf8_next bs)) bs))"
  by pat_completeness auto
termination by (relation "measure length") (auto simp: utf8_next_pos)

function from_utf8_lossy :: "byte list \<Rightarrow> byte list" where
  "from_utf8_lossy bs =
     (if bs = [] then []
      else (if fst (utf8_next bs) then take (snd (utf8_next bs)) bs else [0xEF, 0xBF, 0xBD])
           @ from_utf8_lossy (drop (snd (utf8_next bs)) bs))"
  by pat_completeness auto
termination by (relation "measure length") (auto simp: utf8_next_pos)

declare utf8_valid.simps [simp del] from_utf8_lossy.simps [simp del]

lemma lossy_valid: "utf8_valid bs \<Longrightarrow> from_utf8_lossy bs = bs"
  by (induction bs rule: from_utf8_lossy.induct) (subst from_utf8_lossy.simps, subst (asm) utf8_valid.simps, auto)

text \<open>\<open>split(c)\<close> for an ASCII character, the \<open>nth\<close> of an iterator, and \<open>parse\<close> for an unsigned type.\<close>

fun split_char :: "byte \<Rightarrow> byte list \<Rightarrow> byte list list" where
  "split_char c [] = [[]]"
| "split_char c (b # bs) =
     (if b = c then [] # split_char c bs
      else case split_char c bs of l # ls \<Rightarrow> (b # l) # ls | [] \<Rightarrow> [[b]])"

definition iter_nth :: "nat \<Rightarrow> 'a list \<Rightarrow> 'a option" where
  "iter_nth i xs = (if i < length xs then Some (xs ! i) else None)"

definition parse_uint :: "nat \<Rightarrow> byte list \<Rightarrow> nat option" where
  "parse_uint max_val bs =
     (let ds = (case bs of b # r \<Rightarrow> if b = 43 \<and> r \<noteq> [] then r else bs | [] \<Rightarrow> bs);
          n = foldl (\<lambda>n d. 10 * n + (unat d - 48)) 0 ds
      in if ds \<noteq> [] \<and> list_all (\<lambda>d. 48 \<le> d \<and> d \<le> 57) ds \<and> n \<le> max_val then Some n else None)"

text \<open>\<open>trim_end_matches("|T")\<close>, from the end.\<close>

fun strip_mark :: "byte list \<Rightarrow> byte list" where
  "strip_mark (a # b # bs) = (if a = 84 \<and> b = 124 then strip_mark bs else a # b # bs)"
| "strip_mark bs = bs"

definition trim_mark :: "byte list \<Rightarrow> byte list" where
  "trim_mark bs = rev (strip_mark (rev bs))"

definition pad :: "nat \<Rightarrow> nat \<Rightarrow> string" where
  "pad w n = replicate (w - length (show_nat n)) (CHR ''0'') @ show_nat n"

section \<open>The window of a consumer\<close>

definition pipe_cursor_name :: "nat \<Rightarrow> string" where
  "pipe_cursor_name slot = ''pipe_cursor_'' @ show_nat slot"

definition stream_hi_name :: "nat \<Rightarrow> string" where
  "stream_hi_name slot = ''stream_hi_'' @ show_nat slot"

definition pipe_read_window :: "nat \<Rightarrow> nat \<Rightarrow> 'a arena_scheme \<Rightarrow> err + (nat \<times> nat \<times> nat) \<times> 'a arena_scheme" where
  "pipe_read_window in_slot total_recs s =
     (case get_named_atomic (pipe_cursor_name in_slot) s of
        Inl e \<Rightarrow> Inl e
      | Inr (cur, s1) \<Rightarrow>
          (case get_named_atomic (stream_hi_name in_slot) s1 of
             Inl e \<Rightarrow> Inl e
           | Inr (hi, s2) \<Rightarrow>
               (let start = wrap32 (atomics s1 cur);
                    raw = wrap32 (atomics s2 hi);
                    end = (if raw = 0 then total_recs else min (raw - 1) total_recs)
                in Inr ((cur, min start end, end), s2))))"

fun append_each :: "slot \<Rightarrow> payload list \<Rightarrow> 'a shm_scheme \<Rightarrow> err + 'a shm_scheme" where
  "append_each sl [] s = Inr s"
| "append_each sl (pl # pls) s = (case append_slot_data sl pl s of Inl e \<Rightarrow> Inl e | Inr t \<Rightarrow> append_each sl pls t)"

text \<open>
  The common shape of the consumers: read the input, take the window, append what the stage makes of it, move
  the cursor to the end of the window.
\<close>

definition window_stage :: "(payload list \<Rightarrow> payload list) \<Rightarrow> nat \<Rightarrow> slot \<Rightarrow> 'a arena_scheme \<Rightarrow> (err + 'a arena_scheme) option" where
  "window_stage f in_slot out_sl s =
     (case read_all_records (Stream in_slot) s of
        None \<Rightarrow> None
      | Some (Inl e) \<Rightarrow> Some (Inl e)
      | Some (Inr (recs, s1)) \<Rightarrow>
          (case pipe_read_window in_slot (length recs) s1 of
             Inl e \<Rightarrow> Some (Inl e)
           | Inr ((cur, start, end), s2) \<Rightarrow>
               (case append_each out_sl (f (map snd (take (end - start) (drop start recs)))) s2 of
                  Inl e \<Rightarrow> Some (Inl e)
                | Inr s3 \<Rightarrow> Some (Inr (s3\<lparr>atomics := (atomics s3)(cur := end)\<rparr>)))))"

section \<open>Stages\<close>

definition PIPELINE_BATCH :: nat where "PIPELINE_BATCH = 20"

definition source_record :: "nat \<Rightarrow> nat \<Rightarrow> payload" where
  "source_record rnd i =
     ascii (''r='' @ show_nat rnd @ '',i='' @ pad 2 i @ '',v='' @ pad 5 (wrap32 (wrap32 (rnd * 1000) + i)))"

definition source_batch :: "nat \<Rightarrow> payload list" where
  "source_batch rnd = map (source_record rnd) [0..<PIPELINE_BATCH]"

definition pipeline_source :: "nat \<Rightarrow> nat \<Rightarrow> 'a shm_scheme \<Rightarrow> err + 'a shm_scheme" where
  "pipeline_source out_slot rnd = append_each (Stream out_slot) (source_batch rnd)"

definition var_batch :: "nat \<Rightarrow> payload list" where
  "var_batch rnd = map (source_record rnd) [0..<[4, 4, 40, 40, 40, 4, 4] ! (rnd mod 7)]"

definition pipeline_source_var :: "nat \<Rightarrow> nat \<Rightarrow> 'a shm_scheme \<Rightarrow> err + 'a shm_scheme" where
  "pipeline_source_var out_slot rnd = append_each (Stream out_slot) (var_batch rnd)"

text \<open>The value behind the \<open>=\<close> of the \<open>k\<close>-th field.\<close>

definition field_value :: "nat \<Rightarrow> payload \<Rightarrow> byte list option" where
  "field_value k rec = (if utf8_valid rec then Option.bind (iter_nth k (split_char 44 rec)) (\<lambda>p. iter_nth 1 (split_char 61 p)) else None)"

definition keep_record :: "payload \<Rightarrow> bool" where
  "keep_record rec = (case Option.bind (field_value 1 rec) (parse_uint u32_max) of Some n \<Rightarrow> n mod 2 = 0 | None \<Rightarrow> False)"

definition pipeline_filter :: "nat \<Rightarrow> nat \<Rightarrow> 'a arena_scheme \<Rightarrow> (err + 'a arena_scheme) option" where
  "pipeline_filter in_slot out_slot = window_stage (filter keep_record) in_slot (Stream out_slot)"

definition pipeline_transform :: "nat \<Rightarrow> nat \<Rightarrow> 'a arena_scheme \<Rightarrow> (err + 'a arena_scheme) option" where
  "pipeline_transform in_slot out_slot = window_stage (map (\<lambda>rec. rec @ ascii ''|T'')) in_slot (Stream out_slot)"

definition record_value :: "payload \<Rightarrow> nat" where
  "record_value rec = (case Option.bind (field_value 2 rec) (\<lambda>v. parse_uint 18446744073709551615 (trim_mark v)) of Some v \<Rightarrow> v | None \<Rightarrow> 0)"

definition summary :: "payload list \<Rightarrow> payload list" where
  "summary recs =
     (if wrap32 (length recs) = 0 then []
      else [ascii (''batch_count='' @ show_nat (wrap32 (length recs)) @ '',value_sum=''
              @ show_nat (sum_list (map record_value recs) mod 18446744073709551616))])"

definition pipeline_sink :: "nat \<Rightarrow> nat \<Rightarrow> 'a arena_scheme \<Rightarrow> (err + 'a arena_scheme) option" where
  "pipeline_sink in_slot summary_slot = window_stage summary in_slot (Stream summary_slot)"

definition pipeline_io_sink :: "nat \<Rightarrow> nat \<Rightarrow> 'a arena_scheme \<Rightarrow> (err + 'a arena_scheme) option" where
  "pipeline_io_sink in_slot out_io_slot = window_stage summary in_slot (Io out_io_slot)"

section \<open>What a stage does to the store\<close>

definition origin_of :: "slot \<Rightarrow> payload list \<Rightarrow> stream_record list" where
  "origin_of sl pls = map (Pair (slot_index sl)) pls"

definition append_pages :: "payload list \<Rightarrow> nat" where
  "append_pages pls = (\<Sum>pl\<leftarrow>pls. pages_for (length pl))"

lemma stores_length8: "stores s R \<Longrightarrow> length (R sl) < 536870912"
proof -
  assume "stores s R"
  then obtain C where C: "chains s C" "R sl = parse_records (chain_bytes s (C sl))" by (auto simp: stores_def)
  have "8 * length rs \<le> length (slot_bytes rs)" for rs
    by (induction rs) (auto simp: slot_bytes_def encode_record_def frame_def)
  from this [of "R sl"] slot_pages(3,6) [OF C(1), of sl] C(2) show ?thesis by simp
qed

lemma append_each_stores:
  assumes "stores s R" "slot_in_range sl" "\<forall>pl \<in> set pls. length pl < 4294967296" "append_pages pls \<le> bump_room s"
  shows "\<exists>t. append_each sl pls s = Inr t \<and> stores t (R(sl := R sl @ origin_of sl pls)) \<and> bump_room s \<le> bump_room t + append_pages pls"
  using assms
proof (induction pls arbitrary: s R)
  case (Cons pl pls)
  have n: "pages_for (length pl) \<le> bump_room s" using Cons.prems(4) by (simp add: append_pages_def)
  obtain t where t: "append_slot_data sl pl s = Inr t" "bump_room s \<le> bump_room t + pages_for (length pl)"
    using append_slot_data_total [OF Cons.prems(1,2) n] by blast
  have st: "stores t (R(sl := R sl @ [(slot_index sl, pl)]))" using append_slot_data_stores [OF Cons.prems(1) t(1)] Cons.prems(3) by simp
  have "append_pages pls \<le> bump_room t" using t(2) Cons.prems(4) by (simp add: append_pages_def)
  then obtain u where u: "append_each sl pls t = Inr u" "bump_room t \<le> bump_room u + append_pages pls"
    "stores u ((R(sl := R sl @ [(slot_index sl, pl)]))(sl := (R(sl := R sl @ [(slot_index sl, pl)])) sl @ origin_of sl pls))"
    using Cons.IH [OF st Cons.prems(2)] Cons.prems(3) by (metis list.set_intros(2))
  have "stores u (R(sl := R sl @ origin_of sl (pl # pls)))" using u(3) by (simp add: origin_of_def)
  moreover have "append_each sl (pl # pls) s = Inr u" "bump_room s \<le> bump_room u + append_pages (pl # pls)"
    using t u(1,2) by (simp_all add: append_pages_def)
  ultimately show ?case by blast
qed (simp add: origin_of_def append_pages_def)

context region_frame
begin

lemma append_each_keeps: "append_each sl pls s = Inr t \<Longrightarrow> f t = f s"
  by (induction pls arbitrary: s) (auto split: sum.splits dest: append_keeps)

end

interpretation host_frame: region_frame "\<lambda>s. (ext s, mode_flag s)"
  by unfold_locales simp_all

text \<open>The names of a pipeline are told apart by the 52 bytes of an entry.\<close>

lemma pipe_name_facts:
  assumes "slot < STREAM_SLOT_COUNT"
  shows "length (pipe_cursor_name slot) \<le> 52" "CHR 0x00 \<notin> set (pipe_cursor_name slot)"
    "length (stream_hi_name slot) \<le> 52" "CHR 0x00 \<notin> set (stream_hi_name slot)"
proof -
  have n: "slot < 10 ^ Suc 4" using assms by (simp add: layout_consts)
  have c: "CHR 0x00 \<notin> set (show_nat slot)" using show_nat_digits [of "CHR 0x00" slot] by (auto simp: is_digit_def)
  show "length (pipe_cursor_name slot) \<le> 52" "length (stream_hi_name slot) \<le> 52"
    using show_nat_length [OF n] by (simp_all add: pipe_cursor_name_def stream_hi_name_def)
  show "CHR 0x00 \<notin> set (pipe_cursor_name slot)" "CHR 0x00 \<notin> set (stream_hi_name slot)"
    using c by (simp_all add: pipe_cursor_name_def stream_hi_name_def)
qed

lemma pipe_entries:
  assumes "a < STREAM_SLOT_COUNT" "b < STREAM_SLOT_COUNT"
  shows "entry_name (pipe_cursor_name a) = entry_name (pipe_cursor_name b) \<longleftrightarrow> a = b"
    "entry_name (stream_hi_name a) = entry_name (stream_hi_name b) \<longleftrightarrow> a = b"
    "entry_name (pipe_cursor_name a) \<noteq> entry_name (stream_hi_name b)"
proof -
  note f = pipe_name_facts [OF assms(1)] pipe_name_facts [OF assms(2)]
  show "entry_name (pipe_cursor_name a) = entry_name (pipe_cursor_name b) \<longleftrightarrow> a = b"
    using entry_name_inj [OF f(1,5,2,6)] by (auto simp: pipe_cursor_name_def show_nat_inj)
  show "entry_name (stream_hi_name a) = entry_name (stream_hi_name b) \<longleftrightarrow> a = b"
    using entry_name_inj [OF f(3,7,4,8)] by (auto simp: stream_hi_name_def show_nat_inj)
  show "entry_name (pipe_cursor_name a) \<noteq> entry_name (stream_hi_name b)"
    using entry_name_inj [OF f(1,7,2,8)] by (auto simp: pipe_cursor_name_def stream_hi_name_def)
qed

text \<open>Resolving a registered name only fills the cache.\<close>

lemma resolve_registered:
  assumes i: "reg_inv s" and f: "find_entry (entry_name name) s = Some k"
  shows "\<exists>c. resolve_name_to_index name s = Inr (k, s\<lparr>name_cache := c\<rparr>) \<and> reg_inv (s\<lparr>name_cache := c\<rparr>)"
proof (cases "name_cache s name")
  case (Some j)
  then have "j < next_atomic_idx s" "re_name (registry s j) = entry_name name" using i by (auto simp: reg_inv_def)
  then have "j = k" using f find_entry_eq(1) [OF i, of "entry_name name" j] by simp
  then show ?thesis using Some i by (intro exI [of _ "name_cache s"]) (simp add: resolve_name_to_index_def)
next
  case None
  have k: "k < next_atomic_idx s" "re_name (registry s k) = entry_name name" using f find_entry_eq(1) [OF i] by auto
  have "k \<noteq> u32_max" using k(1) i by (simp add: reg_inv_def REGISTRY_ENTRIES u32_max_def)
  then have "host_resolve_atomic name s = Inr (k, s)" using i f by (simp add: host_resolve_atomic_def reg_inv_def)
  moreover have "reg_inv (s\<lparr>name_cache := (name_cache s)(name \<mapsto> k)\<rparr>)" using i k by (auto simp: reg_inv_def)
  ultimately show ?thesis using None by (intro exI [of _ "(name_cache s)(name \<mapsto> k)"]) (simp add: resolve_name_to_index_def)
qed

lemma find_entry_frame [simp]:
  "find_entry key (s\<lparr>name_cache := c\<rparr>) = find_entry key s" "find_entry key (s\<lparr>atomics := a\<rparr>) = find_entry key s"
  "find_entry key (s\<lparr>local_capacity := d\<rparr>) = find_entry key s"
  by (simp_all add: find_entry_def)

text \<open>The window a stage takes: from its cursor to the watermark, which counts one too many and is unset at zero.\<close>

definition window_end :: "nat \<Rightarrow> nat \<Rightarrow> nat" where
  "window_end hi n = (if hi = 0 then n else min (hi - 1) n)"

definition window_of :: "nat \<Rightarrow> nat \<Rightarrow> stream_record list \<Rightarrow> payload list" where
  "window_of cur hi rs = map snd (take (window_end hi (length rs) - cur) (drop cur rs))"

lemma window_stage_spec:
  assumes i: "reg_inv s" and st: "stores s R" and sl: "in_slot < STREAM_SLOT_COUNT" "slot_in_range out_sl"
    and reg: "find_entry (entry_name (pipe_cursor_name in_slot)) s = Some c" "find_entry (entry_name (stream_hi_name in_slot)) s = Some h"
    and small: "atomics s c < 4294967296" "atomics s h < 4294967296" and le: "atomics s c \<le> window_end (atomics s h) (length (R (Stream in_slot)))"
    and out: "outs = f (window_of (atomics s c) (atomics s h) (R (Stream in_slot)))"
    and ok: "\<forall>pl \<in> set outs. length pl < 4294967296" "append_pages outs \<le> bump_room s"
  shows "\<exists>t. window_stage f in_slot out_sl s = Some (Inr t) \<and> reg_inv t \<and> stores t (R(out_sl := R out_sl @ origin_of out_sl outs))
    \<and> bump_room s \<le> bump_room t + append_pages outs \<and> atomics t = (atomics s)(c := window_end (atomics s h) (length (R (Stream in_slot))))
    \<and> registry t = registry s \<and> next_atomic_idx t = next_atomic_idx s \<and> ext t = ext s \<and> mode_flag t = mode_flag s"
proof -
  let ?rs = "R (Stream in_slot)" and ?e = "window_end (atomics s h) (length (R (Stream in_slot)))"
  obtain d where d: "read_all_records (Stream in_slot) s = Some (Inr (?rs, s\<lparr>local_capacity := d\<rparr>))" "stores (s\<lparr>local_capacity := d\<rparr>) R"
    using chain_reads(1) [OF st, of "Stream in_slot"] sl(1) by (auto simp: read_all_records_def at_slot_def reads_as_def)
  define s1 where "s1 = s\<lparr>local_capacity := d\<rparr>"
  have i1: "reg_inv s1" using i by (simp add: s1_def reg_inv_def)
  obtain ca where ca: "resolve_name_to_index (pipe_cursor_name in_slot) s1 = Inr (c, s1\<lparr>name_cache := ca\<rparr>)" "reg_inv (s1\<lparr>name_cache := ca\<rparr>)"
    using resolve_registered [OF i1, of "pipe_cursor_name in_slot" c] reg(1) by (auto simp: s1_def)
  obtain cb where cb: "resolve_name_to_index (stream_hi_name in_slot) (s1\<lparr>name_cache := ca\<rparr>) = Inr (h, s1\<lparr>name_cache := cb\<rparr>)" "reg_inv (s1\<lparr>name_cache := cb\<rparr>)"
    using resolve_registered [OF ca(2), of "stream_hi_name in_slot" h] reg(2) by (auto simp: s1_def)
  define s2 where "s2 = s1\<lparr>name_cache := cb\<rparr>"
  have pw: "pipe_read_window in_slot (length ?rs) s1 = Inr ((c, atomics s c, ?e), s2)"
  proof -
    have w: "wrap32 (atomics s c) = atomics s c" "wrap32 (atomics s h) = atomics s h" "min (atomics s c) ?e = atomics s c" using small le by simp_all
    have a: "atomics (s1\<lparr>name_cache := x\<rparr>) = atomics s" for x by (simp add: s1_def)
    show ?thesis
      by (simp only: pipe_read_window_def get_named_atomic_def ca(1) cb(1) sum.case prod.case Let_def a w window_end_def [symmetric] s2_def)
  qed
  have st2: "stores s2 R" using d(2) stores_frame [of s2 s1 R] by (simp add: s2_def s1_def)
  have rm: "bump_room s2 = bump_room s" by (simp add: s2_def s1_def bump_room_def)
  obtain s3 where s3: "append_each out_sl outs s2 = Inr s3" "stores s3 (R(out_sl := R out_sl @ origin_of out_sl outs))" "bump_room s2 \<le> bump_room s3 + append_pages outs"
    using append_each_stores [OF st2 sl(2) ok(1)] ok(2) rm by auto
  have keep: "registry s3 = registry s" "next_atomic_idx s3 = next_atomic_idx s" "atomics s3 = atomics s" "registry_lock s3 = registry_lock s"
    "name_cache s3 = cb" "ext s3 = ext s" "mode_flag s3 = mode_flag s"
    using reg.append_each_keeps [OF s3(1)] host_frame.append_each_keeps [OF s3(1)] by (simp_all add: s2_def s1_def)
  define t where "t = s3\<lparr>atomics := (atomics s3)(c := ?e)\<rparr>"
  have "window_stage f in_slot out_sl s = Some (Inr t)"
    using d(1) pw s3(1) out by (simp add: window_stage_def s1_def [symmetric] t_def window_of_def)
  moreover have "c < next_atomic_idx s" using reg(1) find_entry_eq(1) [OF i] by blast
  then have "reg_inv t" using cb(2) keep by (auto simp: reg_inv_def t_def s1_def)
  moreover have "stores t (R(out_sl := R out_sl @ origin_of out_sl outs))" using s3(2) stores_frame [of t s3] by (simp add: t_def)
  moreover have "bump_room t = bump_room s3" by (simp add: t_def bump_room_def)
  ultimately show ?thesis using s3(3) rm keep by (intro exI [of _ t]) (simp add: t_def)
qed

end
