(* ===== verification/Host_Slots.thy ===== *)
theory Host_Slots
  imports Remote_Transfer Slicing Stream_Split
begin

text \<open>
  How the host itself fills and reads slots: the record writers of the slot loader
  (\<open>runtime/input_output/slot_loader.rs\<close>) and of the stage fan-out (\<open>dag_runner/stage_fanout.rs\<close>), which take pages
  from the reclaimer and resolve them through the extended pool, the chain readers of
  \<open>runtime/input_output/persistence.rs\<close>, which read the mapping directly, and the flusher
  (\<open>slot_flusher.rs\<close>). A file is the list of its bytes. The test variable \<open>WEBS_FORCE_FLIP_AT\<close> is taken to be unset, as
  in every deployment: pages are allocated with \<open>alloc_page os None\<close>.
\<close>

section \<open>Writers\<close>

text \<open>\<open>None\<close> when the loop never returns. A page is addressed where it was resolved.\<close>

partial_function (option) write_loop ::
  "os \<Rightarrow> slot \<Rightarrow> nat \<Rightarrow> byte list \<Rightarrow> 'a host_scheme \<Rightarrow> ((host_err + unit) \<times> 'a host_scheme) option" where
  "write_loop os sl tail dat h =
     (if dat = [] then Some (Inr (), h)
      else case host_resolve os tail h of
             (Inl e, h1) \<Rightarrow> Some (Inl (PoolErr e), h1)
           | (Inr page, h1) \<Rightarrow>
               if PAGE_DATA_SIZE - cursor (host_page h1 page) = 0 then
                 (case alloc_page os None h1 of
                    (Inl e, h2) \<Rightarrow> Some (Inl e, h2)
                  | (Inr next, h2) \<Rightarrow> write_loop os sl next dat
                      (set_tail sl next (upd_host_page page (\<lambda>pg. pg\<lparr>next_offset := next\<rparr>) h2)))
               else write_loop os sl tail (drop (PAGE_DATA_SIZE - cursor (host_page h1 page)) dat)
                      (upd_host_page page (\<lambda>pg. pg\<lparr>data := write_bytes (data pg) (cursor pg) (take (PAGE_DATA_SIZE - cursor pg) dat),
                         cursor := cursor pg + min (PAGE_DATA_SIZE - cursor pg) (length dat)\<rparr>) h1))"

declare write_loop.simps [code]

definition host_write :: "os \<Rightarrow> slot \<Rightarrow> byte list \<Rightarrow> 'a host_scheme \<Rightarrow> ((host_err + unit) \<times> 'a host_scheme) option" where
  "host_write os sl dat h =
     (if dat = [] then Some (Inr (), h)
      else if \<not> slot_in_range sl then Some (Inl (Err (SlotOutOfRange (slot_index sl))), h)
      else if get_tail sl h = 0 then
        (case alloc_page os None h of
           (Inl e, h1) \<Rightarrow> Some (Inl e, h1)
         | (Inr tail, h1) \<Rightarrow> write_loop os sl tail dat (set_tail sl tail (set_head sl tail h1)))
      else write_loop os sl (get_tail sl h) dat h)"

fun write_all :: "os \<Rightarrow> slot \<Rightarrow> byte list list \<Rightarrow> 'a host_scheme \<Rightarrow> ((host_err + unit) \<times> 'a host_scheme) option" where
  "write_all os sl [] h = Some (Inr (), h)"
| "write_all os sl (b # bs) h =
     Option.bind (host_write os sl b h) (\<lambda>(r, h1). case r of Inl e \<Rightarrow> Some (Inl e, h1) | Inr _ \<Rightarrow> write_all os sl bs h1)"

definition append_stream_record ::
  "os \<Rightarrow> nat \<Rightarrow> nat \<Rightarrow> payload \<Rightarrow> 'a host_scheme \<Rightarrow> ((host_err + unit) \<times> 'a host_scheme) option" where
  "append_stream_record os slot origin pl = write_all os (Stream slot) (frame origin pl)"

definition append_record :: "os \<Rightarrow> nat \<Rightarrow> payload \<Rightarrow> 'a host_scheme \<Rightarrow> ((host_err + unit) \<times> 'a host_scheme) option" where
  "append_record os slot pl = write_all os (Io slot) (frame slot pl)"

section \<open>The slot loader\<close>

text \<open>The records written one after the other, with their count.\<close>

fun append_lines :: "os \<Rightarrow> nat \<Rightarrow> byte list list \<Rightarrow> nat \<Rightarrow> 'a host_scheme \<Rightarrow> ((host_err + nat) \<times> 'a host_scheme) option" where
  "append_lines os slot [] n h = Some (Inr n, h)"
| "append_lines os slot (l # ls) n h =
     Option.bind (append_record os slot l h) (\<lambda>(r, h1).
       case r of Inl e \<Rightarrow> Some (Inl e, h1) | Inr _ \<Rightarrow> append_lines os slot ls (n + 1) h1)"

text \<open>\<open>mmap_file\<close> refuses an empty file.\<close>

datatype load_err = EmptyFile | LoadFailed host_err

definition loaded :: "((host_err + 'b) \<times> 'h) option \<Rightarrow> ((load_err + 'b) \<times> 'h) option" where
  "loaded = map_option (map_prod (map_sum LoadFailed id) id)"

definition loader_load :: "os \<Rightarrow> byte list \<Rightarrow> nat \<Rightarrow> 'a host_scheme \<Rightarrow> ((load_err + nat) \<times> 'a host_scheme) option" where
  "loader_load os dat slot h =
     (if dat = [] then Some (Inl EmptyFile, h) else loaded (append_lines os slot (load_records dat) 0 h))"

definition loader_load_chunk ::
  "os \<Rightarrow> byte list \<Rightarrow> nat \<Rightarrow> nat \<Rightarrow> nat \<Rightarrow> 'a host_scheme \<Rightarrow> ((load_err + nat \<times> nat) \<times> 'a host_scheme) option" where
  "loader_load_chunk os dat slot offset max_bytes h =
     (if dat = [] then Some (Inl EmptyFile, h)
      else case load_chunk dat offset max_bytes of
             (ls, consumed) \<Rightarrow> map_option (map_prod (map_sum id (\<lambda>n. (n, consumed))) id) (loaded (append_lines os slot ls 0 h)))"

definition loader_load_slice ::
  "os \<Rightarrow> ('f \<Rightarrow> nat) \<Rightarrow> byte list \<Rightarrow> nat \<Rightarrow> 'f \<Rightarrow> 'f \<Rightarrow> 'a host_scheme \<Rightarrow> ((load_err + nat) \<times> 'a host_scheme) option" where
  "loader_load_slice os frac_to_byte dat slot lo hi h =
     (if dat = [] then Some (Inl EmptyFile, h) else loaded (append_lines os slot (load_slice frac_to_byte dat lo hi) 0 h))"

definition load_as_single_record :: "os \<Rightarrow> byte list \<Rightarrow> nat \<Rightarrow> 'a host_scheme \<Rightarrow> ((load_err + unit) \<times> 'a host_scheme) option" where
  "load_as_single_record os dat slot h =
     (if dat = [] then Some (Inl EmptyFile, h) else loaded (append_record os slot dat h))"

section \<open>Readers\<close>

text \<open>
  \<open>PageReader::read\<close> is the forward read of a chain over what the mapping shows; a head is cut to 32 bits.
  The count reads payloads in pieces of 512 bytes.
\<close>

definition reader_read :: "'a host_scheme \<Rightarrow> nat \<Rightarrow> nat \<Rightarrow> nat \<Rightarrow> (bool \<times> byte list \<times> nat \<times> nat) option" where
  "reader_read h page_offset cursor_in_page n = read_fwd (window h) page_offset cursor_in_page n []"

partial_function (option) records_loop :: "'a host_scheme \<Rightarrow> nat \<Rightarrow> nat \<Rightarrow> stream_record list \<Rightarrow> stream_record list option" where
  "records_loop h cp co acc =
     Option.bind (reader_read h cp co 4) (\<lambda>(ok1, len_buf, cp1, co1).
       if \<not> ok1 then Some acc
       else Option.bind (reader_read h cp1 co1 4) (\<lambda>(ok2, origin_buf, cp2, co2).
         if \<not> ok2 then Some acc
         else Option.bind (reader_read h cp2 co2 (from_le_bytes32 len_buf)) (\<lambda>(ok3, pl, cp3, co3).
           if \<not> ok3 then Some acc
           else records_loop h cp3 co3 (acc @ [(from_le_bytes32 origin_buf, pl)]))))"

partial_function (option) skip_pieces :: "'a host_scheme \<Rightarrow> nat \<Rightarrow> nat \<Rightarrow> nat \<Rightarrow> (bool \<times> nat \<times> nat) option" where
  "skip_pieces h cp co remaining =
     (if remaining = 0 then Some (True, cp, co)
      else Option.bind (reader_read h cp co (min remaining 512)) (\<lambda>(ok, _, cp1, co1).
             if ok then skip_pieces h cp1 co1 (remaining - min remaining 512) else Some (False, cp1, co1)))"

partial_function (option) count_loop :: "'a host_scheme \<Rightarrow> nat \<Rightarrow> nat \<Rightarrow> nat \<Rightarrow> nat option" where
  "count_loop h cp co n =
     Option.bind (reader_read h cp co 4) (\<lambda>(ok1, len_buf, cp1, co1).
       if \<not> ok1 then Some n
       else Option.bind (reader_read h cp1 co1 4) (\<lambda>(ok2, origin_buf, cp2, co2).
         if \<not> ok2 then Some n
         else Option.bind (skip_pieces h cp2 co2 (from_le_bytes32 len_buf)) (\<lambda>(ok3, cp3, co3).
           if \<not> ok3 then Some n else count_loop h cp3 co3 (n + 1))))"

declare records_loop.simps [code] skip_pieces.simps [code] count_loop.simps [code]

definition read_chain_records :: "'a host_scheme \<Rightarrow> nat \<Rightarrow> stream_record list option" where
  "read_chain_records h head = (if head = 0 then Some [] else records_loop h head 0 [])"

definition count_chain_records :: "'a host_scheme \<Rightarrow> nat \<Rightarrow> nat option" where
  "count_chain_records h head = (if head = 0 then Some 0 else count_loop h head 0 0)"

text \<open>The slot-level readers; the index of the head panics out of range.\<close>

definition in_slot :: "slot \<Rightarrow> ('a host_scheme \<Rightarrow> nat \<Rightarrow> 'b option) \<Rightarrow> 'a host_scheme \<Rightarrow> (err + 'b) option" where
  "in_slot sl f h = (if slot_in_range sl then map_option Inr (f h (wrap32 (get_head sl h))) else Some (Inl (SlotOutOfRange (slot_index sl))))"

definition read_slot_records :: "slot \<Rightarrow> 'a host_scheme \<Rightarrow> (err + stream_record list) option" where
  "read_slot_records sl = in_slot sl read_chain_records"

definition slot_record_count :: "slot \<Rightarrow> 'a host_scheme \<Rightarrow> (err + nat) option" where
  "slot_record_count sl = in_slot sl count_chain_records"

section \<open>Output files\<close>

text \<open>What \<open>save_slot\<close> writes and its count, and the files of \<open>save_slot_split\<close> in the order they are written.\<close>

definition save_slot :: "nat \<Rightarrow> 'a host_scheme \<Rightarrow> (err + byte list \<times> nat) option" where
  "save_slot slot h = map_option (map_sum id (\<lambda>rs. (concat (map (\<lambda>r. snd r @ [newline]) rs), length rs))) (read_slot_records (Io slot) h)"

definition save_slot_split :: "'p list \<Rightarrow> nat \<Rightarrow> 'a host_scheme \<Rightarrow> (err + ('p \<times> byte list) list \<times> nat) option" where
  "save_slot_split paths slot h =
     map_option (map_sum id (\<lambda>rs. if paths = [] then ([], 0)
         else (map (\<lambda>(i, r). (paths ! (i mod length paths), snd r)) (enumerate 0 rs), length rs)))
       (read_slot_records (Io slot) h)"

section \<open>The host's allocator in direct mode\<close>

text \<open>
  Direct mode: nothing is mapped over the window and the pool has not been entered. The host's
  allocator, as long as it stays there, is an allocator of the writers' interface.
\<close>

definition direct :: "'a host_scheme \<Rightarrow> bool" where
  "direct h \<longleftrightarrow> mode_flag h = Direct \<and> rbuf (ext h) = None"

definition host_inv :: "'a host_scheme \<Rightarrow> bool" where
  "host_inv h \<longleftrightarrow> guest_inv h \<and> direct h"

definition direct_alloc :: "os \<Rightarrow> 'a host_scheme \<Rightarrow> err + nat \<times> 'a host_scheme" where
  "direct_alloc os h = (case alloc_page os None h of (Inr p, h') \<Rightarrow> if direct h' then Inr (p, h') else Inl Spin | (Inl e, h') \<Rightarrow> Inl Spin)"

lemma direct_alloc_Inr: "direct_alloc os h = Inr (p, t) \<longleftrightarrow> alloc_page os None h = (Inr p, t) \<and> direct t"
  by (auto simp: direct_alloc_def split: prod.splits sum.splits)

text \<open>The pages that can be taken off the bump region without growing the file or entering the pool.\<close>

definition FLIP_BUMP :: nat where
  "FLIP_BUMP = 0xB2666666"

definition host_room :: "'a host_scheme \<Rightarrow> nat" where
  "host_room h = (min (global_capacity h) FLIP_BUMP - bump_allocator h) div PAGE_SIZE"

lemma should_enter_paged_None: "should_enter_paged None b \<longleftrightarrow> FLIP_BUMP < b"
  by (auto simp: should_enter_paged_def layout_consts FLIP_BUMP_def)

lemma direct_more: "shm.more t = shm.more s \<Longrightarrow> direct t = direct s"
  by (cases t; cases s) (simp add: direct_def)

lemma host_scan_not_Inl:
  assumes "alloc_inv h" "set js \<subseteq> {..<FREE_LIST_SHARD_COUNT}"
  shows "host_scan js h \<noteq> Some (Inl e)"
proof -
  have "host_scan js h = Some (Inl e) \<Longrightarrow> scan_shards js h = Some (Inl e)"
    by (induction js) (auto simp: Let_def split: if_splits)
  then show ?thesis using scan_shards_not_Inl [OF assms, of e] by blast
qed

lemma notify_direct:
  assumes "direct (notify_bump_advance os force b h)" "direct h"
  shows "bump_allocator (notify_bump_advance os force b h) = bump_allocator h"
proof -
  have "rbuf (ext (snd (seed_residency n h'))) = None \<longleftrightarrow> rbuf (ext h') = None" for n and h' :: "'a host_scheme"
    by (auto simp: seed_residency_def Let_def split: option.splits)
  then show ?thesis using assms
    by (auto simp: notify_bump_advance_def check_bump_def flip_to_paged_def direct_def Let_def split: if_splits sum.splits)
qed

lemma direct_alloc_steps:
  assumes i: "host_inv h" and a: "direct_alloc os h = Inr (p, t)"
  shows "p \<in> avail h" "host_inv t" "avail t \<subseteq> avail h - {p}" "same_slots h t" "q \<noteq> p \<Longrightarrow> mem t q = mem h q"
    "BUMP_ALLOCATOR_START \<le> p" "p + PAGE_SIZE \<le> DIRECT_LIMIT" "next_offset (mem t p) = 0" "cursor (mem t p) = 0"
proof -
  have d: "guest_inv h" "mode_flag h = Direct" "rbuf (ext h) = None" and t: "alloc_page os None h = (Inr p, t)" "direct t"
    using i a by (simp_all add: host_inv_def direct_def direct_alloc_Inr)
  note s = alloc_page_direct [OF d t(1)]
  from s have "global_capacity t \<le> CAPACITY_HARD_LIMIT" by (simp add: guest_inv_def cap_ok_def)
  then show "p \<in> avail h" "host_inv t" "avail t \<subseteq> avail h - {p}" "same_slots h t" "q \<noteq> p \<Longrightarrow> mem t q = mem h q"
    "BUMP_ALLOCATOR_START \<le> p" "p + PAGE_SIZE \<le> DIRECT_LIMIT" "next_offset (mem t p) = 0" "cursor (mem t p) = 0"
    using s t(2) by (auto simp: host_inv_def layout_consts)
qed

lemma direct_alloc_total:
  assumes i: "host_inv h" and r: "0 < host_room h"
  shows "\<exists>p t. direct_alloc os h = Inr (p, t)"
proof -
  let ?js = "shard_order (host_shard h mod FREE_LIST_SHARD_COUNT)"
  have d: "mode_flag h = Direct" "rbuf (ext h) = None" and ai: "alloc_inv (next_shard h)"
    using i by (simp_all add: host_inv_def direct_def next_shard_def guest_inv_def alloc_inv_def bump_ok_def free_lists_def heap_page_def)
  show ?thesis
  proof (cases "host_scan ?js (next_shard h)")
    case None
    have n: "bump_allocator h + PAGE_SIZE \<le> global_capacity h" "bump_allocator h + PAGE_SIZE \<le> FLIP_BUMP"
      using r by (simp_all add: host_room_def div_greater_zero_iff layout_consts)
    then have w: "wrap32 (bump_allocator h + PAGE_SIZE) = bump_allocator h + PAGE_SIZE" by (simp add: FLIP_BUMP_def)
    have "alloc_page os None h = (Inr (bump_allocator h), clear_page (bump_allocator h) (next_shard h\<lparr>bump_allocator := bump_allocator h + PAGE_SIZE\<rparr>))"
      using None n w by (simp add: alloc_page_def bump_page_def Let_def next_shard_def notify_bump_advance_def should_enter_paged_None)
    then show ?thesis using d by (auto simp: direct_alloc_Inr direct_def clear_page_def upd_host_page_def next_shard_def)
  next
    case (Some x)
    then obtain p h1 where "host_scan ?js (next_shard h) = Some (Inr (p, h1))"
      using host_scan_not_Inl [OF ai, of ?js] by (cases x) (auto simp: set_shard_order)
    moreover from host_scan_Some [OF this] obtain j where "h1 = host_pop j p (next_shard h)" by blast
    ultimately show ?thesis
      using d by (auto simp: alloc_page_def direct_alloc_Inr direct_def clear_page_def upd_host_page_def next_shard_def host_pop_def)
  qed
qed

lemma direct_alloc_room:
  assumes i: "host_inv h" and a: "direct_alloc os h = Inr (p, t)"
  shows "host_room h \<le> Suc (host_room t)"
proof -
  let ?js = "shard_order (host_shard h mod FREE_LIST_SHARD_COUNT)"
  have d: "mode_flag (next_shard h) = Direct" "file_ok (next_shard h)" "direct (next_shard h)" and t: "alloc_page os None h = (Inr p, t)" "direct t"
    using i a by (auto simp: host_inv_def direct_def direct_alloc_Inr next_shard_def guest_inv_def cap_ok_def file_ok_def)
  have "bump_allocator t \<le> bump_allocator h + PAGE_SIZE \<and> global_capacity h \<le> global_capacity t"
  proof (cases "host_scan ?js (next_shard h)")
    case None
    then have b: "bump_page os None (next_shard h) = (Inr p, t)" using t(1) by (simp add: alloc_page_def)
    obtain h1 where h1: "global_capacity (next_shard h) \<le> global_capacity h1"
      "\<exists>g l. h1 = next_shard h\<lparr>bump_allocator := wrap32 (p + PAGE_SIZE), global_capacity := g, local_capacity := l\<rparr>"
      "p = bump_allocator (next_shard h)" "t = notify_bump_advance os None (wrap32 (p + PAGE_SIZE)) (clear_page p h1)"
      by (rule bump_page_Inr [OF b d(1,2)]) blast
    have c: "direct (clear_page p h1)" using h1(2) d(3) by (auto simp: direct_def clear_page_def upd_host_page_def)
    have "bump_allocator t = bump_allocator (clear_page p h1)" using notify_direct [OF _ c] t(2) h1(4) by blast
    moreover have "global_capacity t = global_capacity (clear_page p h1)"
      using h1(4) by (auto simp: notify_bump_advance_def check_bump_def flip_to_paged_def seed_residency_def Let_def split: sum.splits option.splits)
    ultimately show ?thesis using h1(1-3) by (auto simp: clear_page_def upd_host_page_def next_shard_def wrap32_def)
  next
    case (Some x)
    then obtain h1 where x: "host_scan ?js (next_shard h) = Some (Inr (p, h1))" "t = clear_page p h1"
      using t(1) by (auto simp: alloc_page_def split: sum.splits)
    from host_scan_Some [OF x(1)] obtain j where "h1 = host_pop j p (next_shard h)" by blast
    then show ?thesis by (simp add: x(2) clear_page_def upd_host_page_def host_pop_def next_shard_def)
  qed
  then have "min (global_capacity h) FLIP_BUMP - bump_allocator h \<le> (min (global_capacity t) FLIP_BUMP - bump_allocator t) + PAGE_SIZE"
    by auto
  then have "host_room h \<le> ((min (global_capacity t) FLIP_BUMP - bump_allocator t) + PAGE_SIZE) div PAGE_SIZE"
    unfolding host_room_def by (rule div_le_mono)
  also have "\<dots> = Suc (host_room t)" by (simp add: host_room_def layout_consts)
  finally show ?thesis .
qed

interpretation hosta: total_heap_allocator "direct_alloc os" host_inv host_room for os
proof unfold_locales
  fix s t :: "'a host_scheme" and p q
  assume i: "host_inv s" and a: "direct_alloc os s = Inr (p, t)"
  note d = direct_alloc_steps [OF i a]
  show "host_inv t" "p \<in> avail s" "avail t \<subseteq> avail s - {p}" "same_slots s t" by (fact d(2), fact d(1), fact d(3), fact d(4))
  show "0 < p \<and> p < 4294967296" using d(6,7) by (simp add: layout_consts)
  show "mem t q = mem s q" if "q \<notin> avail s" using d(1,5) that by metis
  show "host_room s \<le> Suc (host_room t)" by (rule direct_alloc_room [OF i a])
next
  fix s t :: "'a host_scheme"
  assume "host_inv s" "bump_allocator t = bump_allocator s" "free_list_heads t = free_list_heads s"
    "global_capacity t = global_capacity s" "local_capacity t = local_capacity s" "shm.more t = shm.more s"
    "\<And>p. p \<in> avail s \<Longrightarrow> mem t p = mem s p"
  then show "host_inv t \<and> avail t = avail s" using guest_inv_cong [of s t] direct_more [of t s] by (auto simp: host_inv_def)
qed (auto simp: host_inv_def host_room_def direct_alloc_total)

text \<open>The pages of a slot, as the writers and readers of the host need them.\<close>

definition host_chain :: "'a host_scheme \<Rightarrow> slot \<Rightarrow> nat list \<Rightarrow> bool" where
  "host_chain h sl ps \<longleftrightarrow> host_inv h \<and> slot_chain h sl ps \<and> set ps \<inter> avail h = {} \<and> (\<forall>p \<in> set ps. BUMP_ALLOCATOR_START \<le> p \<and> PAGE_SIZE dvd p)"

lemma host_chainD:
  assumes "host_chain h sl ps"
  shows "host_inv h" "slot_chain h sl ps" "set ps \<inter> avail h = {}" "rbuf (ext h) = None" "p \<in> set ps \<Longrightarrow> p < DIRECT_LIMIT"
proof -
  show c: "host_inv h" "slot_chain h sl ps" "set ps \<inter> avail h = {}" "rbuf (ext h) = None"
    using assms by (simp_all add: host_chain_def host_inv_def direct_def)
  show "p < DIRECT_LIMIT" if "p \<in> set ps"
  proof -
    have "guest_inv h" "p \<notin> avail h" "PAGE_SIZE dvd p" "0 < p" using assms that c(3)
      by (auto simp: host_chain_def host_inv_def layout_consts)
    then have "p + PAGE_SIZE \<le> global_capacity h" "global_capacity h \<le> CAPACITY_HARD_LIMIT"
      using taken_in_file [of h p] by (auto simp: guest_inv_def cap_ok_def)
    then show ?thesis by (simp add: layout_consts)
  qed
qed

lemma host_chain_appended:
  assumes "host_chain h sl ps" "appended avail h sl ps dat t qs" "host_inv t"
  shows "host_chain t sl (ps @ qs)"
proof -
  have "alloc_inv h" using assms(1) by (simp add: host_chain_def host_inv_def guest_inv_def)
  then have "BUMP_ALLOCATOR_START \<le> p \<and> PAGE_SIZE dvd p" if "p \<in> set qs" for p
    using avail_aligned [of h p] assms(2) that by (auto simp: appended_def)
  then show ?thesis using assms by (auto simp: host_chain_def appended_def)
qed

lemma host_resolve_direct [simp]: "p < DIRECT_LIMIT \<Longrightarrow> host_resolve os p h = (Inr p, h)"
  by (simp add: host_resolve_def)

lemma direct_alloc_reset:
  assumes "host_inv h" "direct_alloc os h = Inr (p, t)"
  shows "reset_page p t = t"
proof -
  have "(mem t p)\<lparr>next_offset := 0, cursor := 0\<rparr> = mem t p" using direct_alloc_steps(8,9) [OF assms] by (cases "mem t p") simp
  then show ?thesis by (simp add: reset_page_def upd_page_def)
qed

text \<open>The writers' loop of the host is that of the guest over the host's allocator.\<close>

lemma write_loop_append:
  assumes "host_chain h sl ps" "ps \<noteq> []" "append_loop (direct_alloc os) sl (last ps) dat h = Inr t"
  shows "write_loop os sl (last ps) dat h = Some (Inr (), t)"
  using assms
proof (induction "2 * length dat + (if space_left h (last ps) = 0 then 1 else 0)"
    arbitrary: dat h ps rule: less_induct)
  case less
  note c = host_chainD [OF less.prems(1)]
  note tl = slot_chain_tail [OF c(2) less.prems(2)]
  have p: "last ps < DIRECT_LIMIT" "last ps \<notin> avail h" using c(3,5) less.prems(2) by (auto dest: last_in_set)
  have sp: "space_left h (last ps) = PAGE_DATA_SIZE - cursor (mem h (last ps))" by (rule space_left_eq [OF tl(4)])
  note ac = direct_access [OF c(4)]
  show ?case
  proof (cases "dat = []")
    case True
    then show ?thesis using less.prems(3) by (simp add: append_loop.simps [of _ sl] write_loop.simps [of os sl])
  next
    case ne: False
    show ?thesis
    proof (cases "space_left h (last ps) = 0")
      case True
      then obtain p h1 where al: "direct_alloc os h = Inr (p, h1)"
        and rec: "append_loop (direct_alloc os) sl p dat (set_tail sl p (link_page (last ps) p (reset_page p h1))) = Inr t"
        using less.prems(3) ne by (subst (asm) append_loop.simps) (auto split: sum.splits)
      let ?t = "set_tail sl p (link_page (last ps) p (reset_page p h1))"
      note tf = hosta.take_fresh [OF c(1,2) less.prems(2) c(3) al]
      have hc: "host_chain ?t sl (ps @ [p])" by (rule host_chain_appended [OF less.prems(1) tf(2,1)])
      have "write_loop os sl (last (ps @ [p])) dat ?t = Some (Inr (), t)"
        by (rule less.hyps) (use True hc rec ne in \<open>auto simp: space_left_reset\<close>)
      moreover have "rbuf (ext h1) = None" "alloc_page os None h = (Inr p, h1)"
        using direct_alloc_steps(2) [OF c(1) al] al by (simp_all add: host_inv_def direct_def direct_alloc_Inr)
      ultimately show ?thesis
        using ne True sp p by (subst write_loop.simps)
          (simp add: ac direct_access(3) direct_alloc_reset [OF c(1) al] link_page_def)
    next
      case False
      let ?k = "space_left h (last ps)"
      let ?t = "put_bytes (last ps) (take ?k dat) h"
      have k: "length (take ?k dat) \<le> PAGE_DATA_SIZE - cursor (mem h (last ps))" using sp by simp
      note pb = put_bytes_chain [OF c(2) less.prems(2) k]
      have it: "host_inv ?t \<and> avail ?t = avail h"
        by (rule hosta.inv_cong [OF c(1)]) (use p in \<open>auto simp: put_bytes_def\<close>)
      have hc: "host_chain ?t sl ps" using less.prems(1) pb(1) it by (simp add: host_chain_def)
      have "cursor (mem h (last ps)) + length (take ?k dat) < 4294967296"
        using k tl(4) PAGE_DATA_SIZE_less by linarith
      then have w: "upd_page (last ps) (\<lambda>pg. pg\<lparr>data := write_bytes (data pg) (cursor pg) (take (PAGE_DATA_SIZE - cursor pg) dat),
                         cursor := cursor pg + min (PAGE_DATA_SIZE - cursor pg) (length dat)\<rparr>) h = ?t"
        using sp by (simp add: put_bytes_def upd_page_def min.commute)
      have "write_loop os sl (last ps) (drop ?k dat) ?t = Some (Inr (), t)"
        by (rule less.hyps) (use False ne hc less.prems in \<open>auto simp: append_loop.simps [of _ sl _ dat h] neq_Nil_conv\<close>)
      then show ?thesis using ne False sp p by (subst write_loop.simps) (simp add: ac w)
    qed
  qed
qed

lemma host_write_append:
  assumes hc: "host_chain h sl ps" and sl: "slot_in_range sl" and ne: "dat \<noteq> [] \<or> ps \<noteq> []"
    and ok: "append_with (direct_alloc os) sl dat h = Inr t"
  shows "host_write os sl dat h = Some (Inr (), t)"
proof (cases "ps = []")
  case False
  note tl = slot_chain_tail [OF host_chainD(2) [OF hc] False]
  have "append_loop (direct_alloc os) sl (last ps) dat h = Inr t" using ok tl by (simp add: append_with_def)
  from write_loop_append [OF hc False this] show ?thesis
    using tl sl by (cases "dat = []") (simp_all add: host_write_def write_loop.simps [of os sl])
next
  case True
  then have h0: "get_tail sl h = 0" "get_head sl h = 0" "dat \<noteq> []" using host_chainD(2) [OF hc] ne by (simp_all add: slot_chain_def)
  then obtain p h1 where al: "direct_alloc os h = Inr (p, h1)"
    and rec: "append_loop (direct_alloc os) sl p dat (set_tail sl p (set_head sl p (reset_page p h1))) = Inr t"
    using ok by (auto simp: append_with_def wrap32_def split: sum.splits)
  let ?t = "set_tail sl p (set_head sl p h1)"
  note i = host_chainD(1) [OF hc]
  note a = direct_alloc_steps [OF i al]
  note r = direct_alloc_reset [OF i al]
  have it: "host_inv ?t \<and> avail ?t = avail h1"
    by (rule hosta.inv_cong [OF a(2)]) auto
  have "host_chain ?t sl [p]"
    using it a hosta.alloc_nonnull [OF i al] avail_aligned [of h p] i
    by (auto simp: host_chain_def slot_chain_def host_inv_def guest_inv_def)
  from write_loop_append [OF this, of os dat t] rec r have "write_loop os sl p dat ?t = Some (Inr (), t)" by simp
  then show ?thesis using h0 sl al by (simp add: host_write_def direct_alloc_Inr)
qed

lemma write_all_append:
  assumes "host_chain h sl ps" "slot_in_range sl" "ps \<noteq> [] \<or> (bss \<noteq> [] \<and> hd bss \<noteq> [])"
    and "append_all (append_with (direct_alloc os) sl) bss h = Inr t"
  shows "write_all os sl bss h = Some (Inr (), t)"
  using assms
proof (induction bss arbitrary: h ps)
  case (Cons b bss)
  then obtain u where u: "append_with (direct_alloc os) sl b h = Inr u" and rec: "append_all (append_with (direct_alloc os) sl) bss u = Inr t"
    by (auto split: sum.splits)
  note c = host_chainD [OF Cons.prems(1)]
  obtain qs where q: "host_inv u" "appended avail h sl ps b u qs"
    using hosta.append_with_spec [OF c(1-3) u] by blast
  then have hc: "host_chain u sl (ps @ qs)" using host_chain_appended [OF Cons.prems(1)] by blast
  have "ps @ qs \<noteq> []" using q(2) Cons.prems(3) by (auto simp: appended_def)
  then have "write_all os sl bss u = Some (Inr (), t)" using Cons.IH [OF hc Cons.prems(2) _ rec] by blast
  moreover have "host_write os sl b h = Some (Inr (), u)"
    by (rule host_write_append [OF Cons.prems(1,2) _ u]) (use Cons.prems(3) in auto)
  ultimately show ?case by simp
qed simp

text \<open>One record written by the host: the pages it may take and what the slots store afterwards.\<close>

lemma host_record_written:
  assumes st: "stores h R" and d: "direct h" and sl: "slot_in_range sl" and wf: "wf_record (origin, pl)"
    and room: "pages_for (length pl) \<le> host_room h"
  shows "\<exists>t. write_all os sl (frame origin pl) h = Some (Inr (), t) \<and> direct t \<and> stores t (R(sl := R sl @ [(origin, pl)]))
    \<and> host_room h \<le> host_room t + pages_for (length pl)"
proof -
  obtain C where C: "chains h C" and R: "R = (\<lambda>sl. parse_records (chain_bytes h (C sl)))" using st by (auto simp: stores_def)
  then have i: "host_inv h" and hc: "host_chain h sl (C sl)" using d by (auto simp: host_inv_def chains_def host_chain_def)
  obtain t where t: "append_all (append_with (direct_alloc os) sl) (frame origin pl) h = Inr t" "host_room h \<le> host_room t + pages_for (length pl)"
    using hosta.append_frames_total [OF C i room] by blast
  have "write_all os sl (frame origin pl) h = Some (Inr (), t)"
    by (rule write_all_append [OF hc sl _ t(1)]) (simp add: frame_def to_le_bytes32_def)
  moreover have "host_inv t" "stores t (R(sl := R sl @ [(origin, pl)]))"
    using hosta.append_frames_stores [OF C wf i t(1)] R by simp_all
  ultimately show ?thesis using t(2) by (auto simp: host_inv_def)
qed

section \<open>The readers of the host\<close>

text \<open>A position in a chain with the bytes from there on.\<close>

definition rest_at :: "'a shm_scheme \<Rightarrow> nat \<Rightarrow> nat \<Rightarrow> byte list \<Rightarrow> bool" where
  "rest_at s cp co bs \<longleftrightarrow> (\<exists>ps. pos_ok s cp co ps \<and> bs = drop co (chain_bytes s ps) \<and> co \<le> length (chain_bytes s ps))"

lemma read_at:
  assumes r: "rest_at s cp co bs"
  shows "n \<le> length bs \<Longrightarrow> \<exists>cp' co'. read_fwd s cp co n [] = Some (True, take n bs, cp', co') \<and> rest_at s cp' co' (drop n bs)"
    and "length bs < n \<Longrightarrow> \<exists>cp' co'. read_fwd s cp co n [] = Some (False, bs, cp', co')"
proof -
  obtain ps where p: "pos_ok s cp co ps" "bs = drop co (chain_bytes s ps)" "co \<le> length (chain_bytes s ps)" using r by (auto simp: rest_at_def)
  note k = skip_fwd_spec [OF p(1), of n] and rf = read_fwd_skip [OF p(1), of n "[]"]
  show "\<exists>cp' co'. read_fwd s cp co n [] = Some (False, bs, cp', co')" if "length bs < n"
  proof -
    have "\<not> co + n \<le> length (chain_bytes s ps)" using that p(2,3) by simp
    then show ?thesis using k rf p(2) by auto
  qed
  show "\<exists>cp' co'. read_fwd s cp co n [] = Some (True, take n bs, cp', co') \<and> rest_at s cp' co' (drop n bs)" if n: "n \<le> length bs"
  proof -
    have le: "co + n \<le> length (chain_bytes s ps)" using n p(2,3) by simp
    then obtain cp' co' where c: "skip_fwd s cp co n = Some (True, cp', co')" "arrives s ps co n cp' co'" using k by auto
    then obtain xs ys where a: "ps = xs @ ys" "pos_ok s cp' co' ys" "length (chain_bytes s xs) + co' = co + n" by (auto simp: arrives_def)
    have "drop n bs = drop (co + n) (chain_bytes s ps)" using p(2) by (simp add: add.commute)
    also have "\<dots> = drop co' (chain_bytes s ys)" using a(1,3) by (metis chain_bytes_append drop_drop append_eq_conv_conj add.commute)
    finally have "rest_at s cp' co' (drop n bs)" unfolding rest_at_def using a le by (intro exI [of _ ys]) (auto simp: chain_bytes_append)
    then show ?thesis using rf le c(1) p(2) by auto
  qed
qed

lemma reader_read_at:
  assumes "rest_at h cp co bs" "rbuf (ext h) = None"
  shows "n \<le> length bs \<Longrightarrow> \<exists>cp' co'. reader_read h cp co n = Some (True, take n bs, cp', co') \<and> rest_at h cp' co' (drop n bs)"
    and "length bs < n \<Longrightarrow> \<exists>cp' co'. reader_read h cp co n = Some (False, bs, cp', co')"
  using read_at [OF assms(1), of n] direct_access(2) [OF assms(2)] by (simp_all add: reader_read_def)

lemma skip_pieces_at:
  assumes "rest_at h cp co bs" "rbuf (ext h) = None"
  shows "if n \<le> length bs then \<exists>cp' co'. skip_pieces h cp co n = Some (True, cp', co') \<and> rest_at h cp' co' (drop n bs)
    else \<exists>cp' co'. skip_pieces h cp co n = Some (False, cp', co')"
  using assms(1)
proof (induction n arbitrary: cp co bs rule: less_induct)
  case (less n)
  let ?k = "min n 512"
  show ?case
  proof (cases "n = 0")
    case True
    then show ?thesis using less.prems by (simp add: skip_pieces.simps [of h cp])
  next
    case False
    show ?thesis
    proof (cases "?k \<le> length bs")
      case True
      obtain cp1 co1 where r: "reader_read h cp co ?k = Some (True, take ?k bs, cp1, co1)" "rest_at h cp1 co1 (drop ?k bs)"
        using reader_read_at(1) [OF less.prems assms(2) True] by blast
      have "skip_pieces h cp co n = skip_pieces h cp1 co1 (n - ?k)"
        using r(1) False by (subst skip_pieces.simps) simp
      moreover have "n - ?k < n" using False by simp
      moreover have "n - ?k \<le> length (drop ?k bs) \<longleftrightarrow> n \<le> length bs" "drop (n - ?k) (drop ?k bs) = drop n bs" using True by auto
      ultimately show ?thesis using less.IH [OF _ r(2)] by (metis (no_types, lifting))
    next
      case no: False
      then obtain cp1 co1 where r: "reader_read h cp co ?k = Some (False, bs, cp1, co1)"
        using reader_read_at(2) [OF less.prems assms(2), of ?k] by (meson not_le)
      moreover have "\<not> n \<le> length bs" using no by simp
      ultimately show ?thesis using False by (simp add: skip_pieces.simps [of h cp])
    qed
  qed
qed

lemma parse_records_step:
  "parse_records bs = (if 4 \<le> length bs \<and> 4 \<le> length (drop 4 bs) \<and> from_le_bytes32 (take 4 bs) \<le> length (drop 4 (drop 4 bs))
     then (from_le_bytes32 (take 4 (drop 4 bs)), take (from_le_bytes32 (take 4 bs)) (drop 4 (drop 4 bs)))
       # parse_records (drop (from_le_bytes32 (take 4 bs)) (drop 4 (drop 4 bs)))
     else [])"
proof -
  have "drop 4 (drop 4 bs) = drop 8 bs" "drop (from_le_bytes32 (take 4 bs)) (drop 8 bs) = drop (8 + from_le_bytes32 (take 4 bs)) bs"
    by (simp_all add: add.commute)
  then show ?thesis by (subst parse_records.simps) (auto simp del: drop_drop)
qed

lemma chain_loops_at:
  assumes "rest_at h cp co bs" "rbuf (ext h) = None"
  shows "records_loop h cp co acc = Some (acc @ parse_records bs)" "count_loop h cp co n = Some (n + length (parse_records bs))"
proof -
  have "records_loop h cp co acc = Some (acc @ parse_records bs) \<and> count_loop h cp co n = Some (n + length (parse_records bs))"
    using assms(1)
  proof (induction "length bs" arbitrary: cp co bs acc n rule: less_induct)
    case less
    note rd = reader_read_at [OF _ assms(2)]
    show ?case
    proof (cases "4 \<le> length bs")
      case False
      then show ?thesis using rd(2) [OF less.prems, of 4]
        by (subst records_loop.simps, subst count_loop.simps) (auto simp: parse_records_step [of bs])
    next
      case True
      define bs1 where "bs1 = drop 4 bs"
      obtain cp1 co1 where r1: "reader_read h cp co 4 = Some (True, take 4 bs, cp1, co1)" "rest_at h cp1 co1 bs1"
        using rd(1) [OF less.prems True] by (auto simp: bs1_def)
      show ?thesis
      proof (cases "4 \<le> length bs1")
        case False
        then show ?thesis using rd(2) [OF r1(2), of 4] r1(1)
          by (subst records_loop.simps, subst count_loop.simps) (auto simp: parse_records_step [of bs] bs1_def)
      next
        case t2: True
        define bs2 where "bs2 = drop 4 bs1"
        define l where "l = from_le_bytes32 (take 4 bs)"
        obtain cp2 co2 where r2: "reader_read h cp1 co1 4 = Some (True, take 4 bs1, cp2, co2)" "rest_at h cp2 co2 bs2"
          using rd(1) [OF r1(2) t2] by (auto simp: bs2_def)
        note sk = skip_pieces_at [OF r2(2) assms(2), of l]
        note ps = parse_records_step [of bs, folded bs1_def, folded bs2_def, folded l_def]
        show ?thesis
        proof (cases "l \<le> length bs2")
          case False
          then show ?thesis using rd(2) [OF r2(2), of l] sk r1(1) r2(1)
            by (subst records_loop.simps, subst count_loop.simps) (auto simp: ps l_def)
        next
          case t3: True
          have lt: "length (drop l bs2) < length bs" using True by (simp add: bs2_def bs1_def)
          obtain cp3 co3 where r3: "reader_read h cp2 co2 l = Some (True, take l bs2, cp3, co3)" "rest_at h cp3 co3 (drop l bs2)"
            using rd(1) [OF r2(2) t3] by blast
          obtain cp4 co4 where r4: "skip_pieces h cp2 co2 l = Some (True, cp4, co4)" "rest_at h cp4 co4 (drop l bs2)"
            using sk t3 by auto
          have "records_loop h cp co acc = records_loop h cp3 co3 (acc @ [(from_le_bytes32 (take 4 bs1), take l bs2)])"
            using r1(1) r2(1) r3(1) by (subst records_loop.simps) (simp add: l_def)
          moreover have "count_loop h cp co n = count_loop h cp4 co4 (n + 1)"
            using r1(1) r2(1) r4(1) by (subst count_loop.simps) (simp add: l_def)
          ultimately show ?thesis using less.hyps [OF lt r3(2)] less.hyps [OF lt r4(2)] True t2 t3 by (simp add: ps)
        qed
      qed
    qed
  qed
  then show "records_loop h cp co acc = Some (acc @ parse_records bs)" "count_loop h cp co n = Some (n + length (parse_records bs))" by simp_all
qed

lemma host_readers:
  assumes st: "stores h R" and d: "direct h" and sl: "slot_in_range sl"
  shows "read_slot_records sl h = Some (Inr (R sl))" "slot_record_count sl h = Some (Inr (length (R sl)))"
proof -
  obtain C where C: "chains h C" and R: "R = (\<lambda>sl. parse_records (chain_bytes h (C sl)))" using st by (auto simp: stores_def)
  then have c: "slot_chain h sl (C sl)" by (simp add: chains_def)
  have w: "wrap32 (get_head sl h) = get_head sl h" by (rule start_reader_ok(3) [OF C])
  have rb: "rbuf (ext h) = None" using d by (simp add: direct_def)
  have "R sl = []" if "get_head sl h = 0" using c that by (cases "C sl") (auto simp: slot_chain_def R)
  moreover have "rest_at h (get_head sl h) 0 (chain_bytes h (C sl))"
    unfolding rest_at_def using c by (intro exI [of _ "C sl"]) (auto simp: pos_ok_def slot_chain_def)
  ultimately show "read_slot_records sl h = Some (Inr (R sl))" "slot_record_count sl h = Some (Inr (length (R sl)))"
    using chain_loops_at [OF _ rb] sl w
    by (simp_all add: read_slot_records_def slot_record_count_def in_slot_def read_chain_records_def count_chain_records_def R)
qed

section \<open>Loading and flushing\<close>

definition lines_pages :: "byte list list \<Rightarrow> nat" where
  "lines_pages ls = (\<Sum>l\<leftarrow>ls. pages_for (length l))"

lemma append_lines_stores:
  assumes "stores h R" "direct h" "slot < IO_SLOT_COUNT" "\<forall>l \<in> set ls. length l < 4294967296" "lines_pages ls \<le> host_room h"
  shows "\<exists>t. append_lines os slot ls n h = Some (Inr (n + length ls), t) \<and> direct t \<and> stores t (R(Io slot := R (Io slot) @ map (Pair slot) ls))"
  using assms
proof (induction ls arbitrary: n h R)
  case (Cons l ls)
  have wf: "wf_record (slot, l)" "slot_in_range (Io slot)" using Cons.prems(3,4) by (simp_all add: wf_record_def layout_consts)
  obtain t where t: "write_all os (Io slot) (frame slot l) h = Some (Inr (), t)" "direct t"
    "stores t (R(Io slot := R (Io slot) @ [(slot, l)]))" "host_room h \<le> host_room t + pages_for (length l)"
    using host_record_written [OF Cons.prems(1,2) wf(2,1)] Cons.prems(5) by (auto simp: lines_pages_def)
  have "lines_pages ls \<le> host_room t" using t(4) Cons.prems(5) by (simp add: lines_pages_def)
  then obtain u where "append_lines os slot ls (n + 1) t = Some (Inr (n + 1 + length ls), u)" "direct u"
    "stores u ((R(Io slot := R (Io slot) @ [(slot, l)]))(Io slot := (R(Io slot := R (Io slot) @ [(slot, l)])) (Io slot) @ map (Pair slot) ls))"
    using Cons.IH [OF t(3,2) Cons.prems(3), of "n + 1"] Cons.prems(4) by (metis list.set_intros(2))
  moreover have "(\<lambda>a. if a = Io slot then x else R a) = R(Io slot := x)" for x by (simp add: fun_upd_def)
  ultimately show ?case using t(1) by (intro exI [of _ u]) (simp add: append_record_def)
qed (auto simp: fun_upd_triv)

lemma split_nl_no_newline: "l \<in> set (split_nl bs) \<Longrightarrow> newline \<notin> set l"
  by (induction bs arbitrary: l) (auto split: if_splits list.splits)

lemma split_nl_single: "newline \<notin> set l \<Longrightarrow> split_nl l = [l]"
  by (induction l) auto

lemma lines_of_unlines:
  "\<forall>l \<in> set ls. l \<noteq> [] \<and> newline \<notin> set l \<Longrightarrow> lines_of (concat (map (\<lambda>l. l @ [newline]) ls)) = ls"
proof (induction ls)
  case (Cons l ls)
  then have "lines_of (l @ [newline]) = [l]" using split_nl_append [of l "[]"] by (simp add: lines_of_def split_nl_single)
  then show ?case using Cons lines_of_append [of "l @ [newline]"] by simp
qed simp

section \<open>Properties\<close>

lemma load_lines_stores:
  assumes "stores h R" "direct h" "slot < IO_SLOT_COUNT" "R (Io slot) = []"
    and "dat \<noteq> []" "\<forall>l \<in> set (load_records dat). length l < 4294967296" "lines_pages (load_records dat) \<le> host_room h"
  shows "\<exists>t. loader_load os dat slot h = Some (Inr (length (load_records dat)), t) \<and> direct t
    \<and> stores t (R(Io slot := map (Pair slot) (load_records dat)))"
proof -
  obtain t where "append_lines os slot (load_records dat) 0 h = Some (Inr (length (load_records dat)), t)" "direct t"
    "stores t (R(Io slot := map (Pair slot) (load_records dat)))"
    using append_lines_stores [OF assms(1-3,6,7), of os 0] assms(4) by auto
  then show ?thesis using assms(5) by (intro exI [of _ t]) (simp add: loader_load_def loaded_def)
qed

lemma load_records_length: "length dat < 4294967296 \<Longrightarrow> l \<in> set (load_records dat) \<Longrightarrow> length l < 4294967296"
proof -
  assume d: "length dat < 4294967296" and l: "l \<in> set (load_records dat)"
  have "length (concat (split_nl bs)) \<le> length bs" for bs by (induction bs) (auto split: list.splits)
  moreover have "length l \<le> length (concat (split_nl dat))"
    using l member_le_sum_list [of "length l" "map length (split_nl dat)"] by (auto simp: load_records_def lines_of_def length_concat)
  ultimately show "length l < 4294967296" using d by (meson le_less_trans order_trans)
qed

text \<open>
  C27. Loading and flushing a file. On a host in direct mode, loading a non-empty file into an empty slot with room
  for its lines stores exactly the non-empty lines, in order, one record each, and no other slot changes. Flushing
  the slot then writes a file that the loader of any host in direct mode, given an empty slot with room, turns into the
  same payloads; but when the file held only newlines the flushed file is empty and the loader refuses it.
\<close>

theorem load_save_roundtrip:
  assumes "stores h R" "direct h" "slot < IO_SLOT_COUNT" "R (Io slot) = []"
    and "dat \<noteq> []" "length dat < 4294967296" "lines_pages (load_records dat) \<le> host_room h"
    and "stores h' R'" "direct h'" "slot' < IO_SLOT_COUNT" "R' (Io slot') = []" "lines_pages (load_records dat) \<le> host_room h'"
  shows "\<exists>t out. loader_load os dat slot h = Some (Inr (length (load_records dat)), t)
    \<and> stores t (R(Io slot := map (Pair slot) (load_records dat)))
    \<and> save_slot slot t = Some (Inr (out, length (load_records dat)))
    \<and> (if load_records dat = [] then loader_load os' out slot' h' = Some (Inl EmptyFile, h')
        else \<exists>t'. loader_load os' out slot' h' = Some (Inr (length (load_records dat)), t')
               \<and> stores t' (R'(Io slot' := map (Pair slot') (load_records dat))))"
proof -
  let ?ls = "load_records dat"
  let ?out = "concat (map (\<lambda>l. l @ [newline]) ?ls)"
  have len: "\<forall>l \<in> set ?ls. length l < 4294967296" using load_records_length [OF assms(6)] by blast
  then obtain t where t: "loader_load os dat slot h = Some (Inr (length ?ls), t)" "direct t" "stores t (R(Io slot := map (Pair slot) ?ls))"
    using load_lines_stores [OF assms(1-5) _ assms(7)] by blast
  have "read_slot_records (Io slot) t = Some (Inr (map (Pair slot) ?ls))" using host_readers(1) [OF t(3,2), of "Io slot"] assms(3) by simp
  then have s: "save_slot slot t = Some (Inr (?out, length ?ls))" by (simp add: save_slot_def comp_def)
  have ls: "load_records ?out = ?ls"
    unfolding load_records_def by (rule lines_of_unlines) (auto simp: lines_of_def dest: split_nl_no_newline)
  show ?thesis
  proof (cases "?ls = []")
    case True
    then have "loader_load os' ?out slot' h' = Some (Inl EmptyFile, h')" by (simp add: loader_load_def)
    then show ?thesis using t s True by - (rule exI [of _ t], rule exI [of _ ?out], simp)
  next
    case False
    then have "?out \<noteq> []" by (cases ?ls) auto
    then have "\<exists>t'. loader_load os' ?out slot' h' = Some (Inr (length ?ls), t') \<and> stores t' (R'(Io slot' := map (Pair slot') ?ls))"
      using load_lines_stores [OF assms(8-11), of ?out os'] len assms(12) unfolding ls by blast
    then show ?thesis using t s False by - (rule exI [of _ t], rule exI [of _ ?out], simp)
  qed
qed

lemma host_room_fresh: "4 \<le> host_room fresh_host"
  by (simp add: host_room_def fresh_host_sel format_shared_memory_def FLIP_BUMP_def layout_consts)

theorem load_save_roundtrip_witness:
  "\<exists>t out t'. loader_load willing_os [104, 105, 10, 10, 33] 3 fresh_host = Some (Inr 2, t)
    \<and> stores t ((\<lambda>_. [])(Io 3 := [(3, [104, 105]), (3, [33])])) \<and> save_slot 3 t = Some (Inr (out, 2))
    \<and> loader_load willing_os out 4 fresh_host = Some (Inr 2, t') \<and> stores t' ((\<lambda>_. [])(Io 4 := [(4, [104, 105]), (4, [33])]))"
proof -
  have "load_records [104, 105, 10, 10, 33] = [[104, 105], [33]]" by (simp add: load_records_def lines_of_def)
  then show ?thesis
    using host_room_fresh load_save_roundtrip [of fresh_host "\<lambda>_. []" 3 "[104, 105, 10, 10, 33]" fresh_host "\<lambda>_. []" 4 willing_os willing_os, OF stores_fresh_host _ _ _ _ _ _ stores_fresh_host]
    by (simp add: direct_def fresh_host_sel extended_pool_new_def lines_pages_def pages_for_def layout_consts numeral_2_eq_2)
qed

text \<open>
  C28. Host and guest see the same records. In direct mode the record reader and the record counter of the host
  and the readers of the guest answer the same records for every slot, whatever wrote them.
\<close>

theorem host_guest_readers_agree:
  assumes "stores h R" "direct h" "slot_in_range sl"
  shows "read_slot_records sl h = Some (Inr (R sl)) \<and> slot_record_count sl h = Some (Inr (length (R sl)))
    \<and> (\<exists>t. read_all_records sl h = Some (Inr (R sl, t)))"
  using host_readers [OF assms] shm_store.read_rel [OF assms(1,3)] by auto

theorem host_guest_readers_agree_witness:
  "\<exists>h :: host. read_slot_records (Io 3) h = Some (Inr [(3, [7])]) \<and> slot_record_count (Io 3) h = Some (Inr 1)
    \<and> (\<exists>t. read_all_records (Io 3) h = Some (Inr ([(3, [7])], t)))"
proof -
  obtain h :: host where "direct h" "stores h ((\<lambda>_. [])(Io 3 := [(3, [7])]))"
    using append_lines_stores [OF stores_fresh_host, of 3 "[[7]]" willing_os 0] host_room_fresh
    by (auto simp: direct_def fresh_host_sel extended_pool_new_def lines_pages_def pages_for_def layout_consts)
  from host_guest_readers_agree [OF this(2,1), of "Io 3"] show ?thesis by (auto simp: layout_consts)
qed

end
