(* ===== verification/Persistence.thy ===== *)
theory Persistence
  imports Stages Shared_State Host_Slots
begin

text \<open>
  What the host writes to disk from the region (\<open>runtime/input_output/persistence.rs\<close>): snapshots of named atomics,
  stream records and committed state, and watches of one slot or one state. A file is a path with its bytes. The
  background thread writes what was captured, in order, and the drop of the writer waits for it.
\<close>

type_synonym disk_file = "string \<times> byte list"

section \<open>Capturing\<close>

text \<open>The payload is filled page by page into a zeroed buffer of its length; the walk ends early at a zero link.\<close>

function read_shared_payload :: "'a shm_scheme \<Rightarrow> bool \<Rightarrow> nat \<Rightarrow> nat \<Rightarrow> byte list" where
  "read_shared_payload s is_head cur rem =
     (if rem = 0 \<or> cur = 0 then replicate rem 0
      else let n = min (PAGE_SIZE - header_size is_head) rem
           in read_region s (cur + header_size is_head) n
              @ read_shared_payload s False (wrap32 (load64 s (link_at is_head cur))) (rem - n))"
  by pat_completeness auto
termination by (relation "measure (\<lambda>(s, b, c, r). r)") (auto simp: header_size_def layout_consts)

declare read_shared_payload.simps [simp del]

record snapshot =
  sn_atomics :: "(byte list \<times> nat) list"
  sn_streams :: "(nat \<times> stream_record list) list"
  sn_shared :: "(byte list \<times> byte list) list"

record persistence_options =
  po_output_dir :: string
  po_atomics :: bool
  po_stream_slots :: "nat list"
  po_shared_state :: bool

text \<open>The name of an entry, up to its first zero byte, as text.\<close>

definition entry_label :: "registry_entry \<Rightarrow> byte list" where
  "entry_label e = from_utf8_lossy (ascii (takeWhile (\<lambda>c. c \<noteq> CHR 0x00) (re_name e)))"

definition entry_payload :: "'a arena_scheme \<Rightarrow> registry_entry \<Rightarrow> byte list" where
  "entry_payload s e = read_shared_payload (window s) True (wrap32 (re_payload_offset e)) (re_payload_len e)"

fun read_streams :: "nat list \<Rightarrow> 'a host_scheme \<Rightarrow> (err + (nat \<times> stream_record list) list) option" where
  "read_streams [] s = Some (Inr [])"
| "read_streams (i # slots) s =
     (case read_slot_records (Stream i) s of
        None \<Rightarrow> None
      | Some (Inl e) \<Rightarrow> Some (Inl e)
      | Some (Inr rs) \<Rightarrow> map_option (map_sum id (Cons (i, rs))) (read_streams slots s))"

definition take_snapshot :: "persistence_options \<Rightarrow> 'a arena_scheme \<Rightarrow> (err + snapshot) option" where
  "take_snapshot opts s =
     map_option (map_sum id (\<lambda>streams.
       \<lparr>sn_atomics = (if po_atomics opts then map (\<lambda>i. (entry_label (registry s i), atomics s i)) [0..<next_atomic_idx s] else []),
        sn_streams = streams,
        sn_shared = (if po_shared_state opts
          then map (\<lambda>i. (entry_label (registry s i), entry_payload s (registry s i)))
                 (filter (\<lambda>i. re_payload_offset (registry s i) \<noteq> 0) [0..<next_atomic_idx s])
          else [])\<rparr>))
     (read_streams (po_stream_slots opts) s)"

text \<open>A watch of a slot, raw or as text, and of one committed state; the first entry with the name decides.\<close>

datatype watch_item =
    WatchStream nat "stream_record list" string bool
  | WatchShared string "byte list" string

definition watch_slot :: "slot \<Rightarrow> bool \<Rightarrow> string \<Rightarrow> 'a host_scheme \<Rightarrow> (err + watch_item) option" where
  "watch_slot sl raw out s = map_option (map_sum id (\<lambda>rs. WatchStream (slot_index sl) rs out raw)) (read_slot_records sl s)"

definition watch_stream :: "nat \<Rightarrow> string \<Rightarrow> 'a host_scheme \<Rightarrow> (err + watch_item) option" where
  "watch_stream slot = watch_slot (Stream slot) False"

definition watch_slot_binary :: "slot \<Rightarrow> string \<Rightarrow> 'a host_scheme \<Rightarrow> (err + watch_item) option" where
  "watch_slot_binary sl = watch_slot sl True"

definition watch_shared :: "string \<Rightarrow> string \<Rightarrow> 'a arena_scheme \<Rightarrow> watch_item option" where
  "watch_shared name out s =
     (case find (\<lambda>i. entry_label (registry s i) = ascii name) [0..<next_atomic_idx s] of
        None \<Rightarrow> None
      | Some i \<Rightarrow> if re_payload_offset (registry s i) = 0 then None
                  else Some (WatchShared name (entry_payload s (registry s i)) out))"

section \<open>Writing\<close>

definition nl :: "byte list" where "nl = [10]"

definition pad_space :: "nat \<Rightarrow> nat \<Rightarrow> string" where
  "pad_space w n = replicate (w - length (show_nat n)) (CHR '' '') @ show_nat n"

definition record_lines :: "stream_record list \<Rightarrow> byte list" where
  "record_lines rs =
     concat (map (\<lambda>(i, origin, rec). ascii (''['' @ pad_space 4 i @ ''][src='' @ show_nat origin @ ''] '') @ from_utf8_lossy rec @ nl) (enumerate 0 rs))"

fun write_watch :: "watch_item \<Rightarrow> disk_file" where
  "write_watch (WatchStream slot rs out raw) = (out, if raw then concat (map snd rs) else record_lines rs)"
| "write_watch (WatchShared name pl out) = (out, pl)"

text \<open>Characters other than letters, digits and underscores become underscores; \<open>uni\<close> is the table for those above ASCII.\<close>

definition ascii_alnum :: "byte \<Rightarrow> bool" where
  "ascii_alnum b \<longleftrightarrow> 48 \<le> b \<and> b \<le> 57 \<or> 65 \<le> b \<and> b \<le> 90 \<or> 97 \<le> b \<and> b \<le> 122"

function safe_name :: "(byte list \<Rightarrow> bool) \<Rightarrow> byte list \<Rightarrow> byte list" where
  "safe_name uni bs =
     (if bs = [] then []
      else let c = take (snd (utf8_next bs)) bs
           in (if (case c of [b] \<Rightarrow> ascii_alnum b \<or> b = 95 | _ \<Rightarrow> uni c) then c else [95]) @ safe_name uni (drop (snd (utf8_next bs)) bs))"
  by pat_completeness auto
termination by (relation "measure (\<lambda>(u, bs). length bs)") (auto simp: utf8_next_pos)

declare safe_name.simps [simp del]

text \<open>The files of a snapshot with their names below the output directory, in the order they are written.\<close>

definition write_snapshot :: "(byte list \<Rightarrow> bool) \<Rightarrow> snapshot \<Rightarrow> (byte list \<times> byte list) list" where
  "write_snapshot uni sn =
     (if sn_atomics sn = [] then []
      else [(ascii ''atomics.txt'', concat (map (\<lambda>(n, v). n @ ascii (''='' @ show_nat v) @ nl) (sn_atomics sn)))])
     @ map (\<lambda>(i, rs). (ascii (''stream_'' @ show_nat i @ ''.txt''), record_lines rs)) (sn_streams sn)
     @ map (\<lambda>(n, pl). (ascii ''shared_'' @ safe_name uni n @ ascii ''.bin'', pl)) (sn_shared sn)"

section \<open>What a snapshot shows\<close>

lemma read_streams_stores:
  assumes "stores h R" "direct h" "\<forall>i \<in> set slots. i < STREAM_SLOT_COUNT"
  shows "read_streams slots h = Some (Inr (map (\<lambda>i. (i, R (Stream i))) slots))"
  using assms(3)
proof (induction slots)
  case (Cons i slots)
  then show ?case using host_readers(1) [OF assms(1,2), of "Stream i"] by simp
qed simp

text \<open>The host's walk over a complete payload is the guest's.\<close>

lemma payload_lob:
  "lob s b cur ps dat \<Longrightarrow> cur \<noteq> 0 \<Longrightarrow> \<forall>p \<in> set ps. p \<noteq> 0 \<Longrightarrow> read_shared_payload s b cur (length dat) = dat"
proof (induction ps arbitrary: b cur dat)
  case Nil
  then have l: "length dat \<le> PAGE_SIZE - header_size b" "read_region s (cur + header_size b) (length dat) = dat" by (auto simp: capacity_def)
  then show ?case using Nil.prems(2)
    by (subst read_shared_payload.simps, subst read_shared_payload.simps) (auto simp: Let_def min_absorb2)
next
  case (Cons q qs)
  have l: "PAGE_SIZE - header_size b < length dat" "read_region s (cur + header_size b) (PAGE_SIZE - header_size b) = take (PAGE_SIZE - header_size b) dat"
    "wrap32 (load64 s (link_at b cur)) = q" "lob s False q qs (drop (PAGE_SIZE - header_size b) dat)"
    using Cons.prems(1) by (auto simp: capacity_def)
  have "read_shared_payload s b cur (length dat)
      = take (PAGE_SIZE - header_size b) dat @ read_shared_payload s False q (length dat - (PAGE_SIZE - header_size b))"
    using l(1-3) Cons.prems(2) by (subst read_shared_payload.simps) (auto simp: Let_def min_absorb1)
  also have "read_shared_payload s False q (length dat - (PAGE_SIZE - header_size b)) = drop (PAGE_SIZE - header_size b) dat"
    using Cons.IH [OF l(4)] Cons.prems(3) by simp
  finally show ?case by simp
qed

text \<open>A committed state: the pages of a registry entry hold exactly the bytes.\<close>

definition committed :: "'a arena_scheme \<Rightarrow> string \<Rightarrow> byte list \<Rightarrow> bool" where
  "committed s name dat \<longleftrightarrow> (\<exists>i ps. find_entry (entry_name name) s = Some i \<and> re_payload_len (registry s i) = length dat
     \<and> re_payload_offset (registry s i) \<noteq> 0 \<and> re_payload_offset (registry s i) < 4294967296
     \<and> lob s True (re_payload_offset (registry s i)) ps dat \<and> 0 \<notin> set ps)"

definition plain_name :: "string \<Rightarrow> bool" where
  "plain_name name \<longleftrightarrow> length name \<le> 52 \<and> CHR 0x00 \<notin> set name \<and> utf8_valid (ascii name)"

lemma entry_label_name:
  assumes "plain_name name" "re_name e = entry_name name"
  shows "entry_label e = ascii name"
proof -
  have "takeWhile (\<lambda>c. c \<noteq> CHR 0x00) (name @ replicate n (CHR 0x00)) = name" for n
    using assms(1) by (cases n) (auto simp: plain_name_def takeWhile_append takeWhile_eq_all_conv)
  then show ?thesis using assms by (simp add: entry_label_def entry_name_def plain_name_def lossy_valid)
qed

section \<open>Properties\<close>

text \<open>
  C29. Snapshots. In direct mode a snapshot of existing slots always succeeds. It holds the records of the chosen
  slots as the readers see them, the value of every named atomic under its name, and for every committed state
  the bytes that a guest reading the state under its name gets.
\<close>

theorem snapshot_shows_readers:
  assumes st: "stores s R" and d: "direct s" and i: "reg_inv s" and sl: "\<forall>k \<in> set (po_stream_slots opts). k < STREAM_SLOT_COUNT"
    and opt: "po_atomics opts" "po_shared_state opts"
    and reg: "plain_name var" "find_entry (entry_name var) s \<noteq> None"
    and name: "plain_name name" and c: "committed s name dat" and small: "length dat \<le> 2147483647"
  shows "\<exists>sn. take_snapshot opts s = Some (Inr sn) \<and> sn_streams sn = map (\<lambda>k. (k, R (Stream k))) (po_stream_slots opts)
    \<and> (ascii var, named_value s var) \<in> set (sn_atomics sn)
    \<and> (ascii name, dat) \<in> set (sn_shared sn) \<and> (\<exists>t. read_shared_state name s = Inr (Some dat, t))"
proof -
  obtain k ps where k: "find_entry (entry_name name) s = Some k" "re_payload_len (registry s k) = length dat"
    "re_payload_offset (registry s k) \<noteq> 0" "re_payload_offset (registry s k) < 4294967296"
    "lob s True (re_payload_offset (registry s k)) ps dat" "0 \<notin> set ps" using c by (auto simp: committed_def)
  have e: "k < next_atomic_idx s" "re_name (registry s k) = entry_name name" using k(1) find_entry_eq(1) [OF i] by auto
  note lbl = entry_label_name [OF name e(2)]
  have w: "window s = s" by (rule direct_access(2)) (use d in \<open>simp add: direct_def\<close>)
  have "entry_payload s (registry s k) = dat"
  proof -
    have "\<forall>p \<in> set ps. p \<noteq> 0" using k(6) by metis
    then show ?thesis using payload_lob [OF k(5,3)] k(2,4) w by (simp add: entry_payload_def)
  qed
  then have sh: "(ascii name, dat) \<in> (\<lambda>i. (entry_label (registry s i), entry_payload s (registry s i))) ` {i. i < next_atomic_idx s \<and> 0 < re_payload_offset (registry s i)}"
    using e(1) lbl k(3) by (auto simp: image_iff intro!: exI [of _ k])
  obtain j where j: "find_entry (entry_name var) s = Some j" using reg(2) by blast
  then have "j < next_atomic_idx s" "re_name (registry s j) = entry_name var" using find_entry_eq(1) [OF i] by auto
  then have at: "(ascii var, named_value s var) \<in> (\<lambda>i. (entry_label (registry s i), atomics s i)) ` {0..<next_atomic_idx s}"
    using entry_label_name [OF reg(1)] j by (auto simp: image_iff named_value_def intro!: bexI [of _ j])
  obtain ca where "resolve_name_to_index name s = Inr (k, s\<lparr>name_cache := ca\<rparr>)" using resolve_registered [OF i k(1)] by blast
  moreover have "read_lob (s\<lparr>name_cache := ca\<rparr>) True (re_payload_offset (registry s k)) (length dat) = dat"
    by (rule lob_read, rule lob_cong [OF k(5)]) (simp_all add: byte_at_def)
  ultimately have "\<exists>t. read_shared_state name s = Inr (Some dat, t)" using k(2-4) small by (simp add: read_shared_state_def Let_def)
  then show ?thesis using read_streams_stores [OF st d sl] sh at opt by (simp add: take_snapshot_def)
qed

definition state_arena :: arena where
  "state_arena = fresh_arena\<lparr>next_atomic_idx := 1, atomics := (\<lambda>_. 0)(0 := 7),
     registry := (\<lambda>_. \<lparr>re_name = entry_name ''job'', re_index = 0, re_payload_offset = BUMP_ALLOCATOR_START, re_payload_len = 2\<rparr>)\<rparr>"

theorem snapshot_shows_readers_witness:
  "\<exists>sn. take_snapshot \<lparr>po_output_dir = ''out'', po_atomics = True, po_stream_slots = [3], po_shared_state = True\<rparr> state_arena = Some (Inr sn)
    \<and> sn_streams sn = [(3, [])] \<and> (ascii ''job'', 7) \<in> set (sn_atomics sn) \<and> (ascii ''job'', [0, 0]) \<in> set (sn_shared sn)
    \<and> (\<exists>t. read_shared_state ''job'' state_arena = Inr (Some [0, 0], t))"
proof -
  have f: "find_entry (entry_name ''job'') state_arena = Some 0" by (simp add: find_entry_def state_arena_def)
  have v: "named_value state_arena ''job'' = 7" using f by (simp add: named_value_def) (simp add: state_arena_def)
  have st: "stores state_arena (\<lambda>_. [])"
    using fresh_arena_inv(2) stores_frame [of state_arena fresh_arena "\<lambda>_. []"] by (simp add: state_arena_def)
  have d: "direct state_arena" by (simp add: direct_def state_arena_def fresh_arena_sel extended_pool_new_def)
  have ri: "reg_inv state_arena" by (simp add: reg_inv_def state_arena_def fresh_arena_sel REGISTRY_ENTRIES lessThan_Suc)
  have p: "plain_name ''job''" by (simp add: plain_name_def ascii_def utf8_valid.simps utf8_next_def)
  have "lob state_arena True BUMP_ALLOCATOR_START [] [0, 0]"
    by (simp add: capacity_def header_size_def layout_consts read_region_def upt_rec byte_at_def page_raw_def state_arena_def fresh_arena_sel zero_page_def)
  then have c: "committed state_arena ''job'' [0, 0]"
    unfolding committed_def using f by (intro exI [of _ 0] exI [of _ "[]"]) (simp add: state_arena_def layout_consts)
  show ?thesis
    using snapshot_shows_readers [of state_arena "\<lambda>_. []" "\<lparr>po_output_dir = ''out'', po_atomics = True, po_stream_slots = [3], po_shared_state = True\<rparr>" "''job''" "''job''" "[0, 0]"]
      st d ri p f v c by (simp add: layout_consts)
qed

end
