(* ===== verification/Pipeline.thy ===== *)
theory Pipeline
  imports Persistence Dag_Plan
begin

text \<open>
  The pipelines of the DAG runner (\<open>dag_runner/pipeline.rs\<close>, \<open>stage_fanout.rs\<close>): the wave schedule of the stages, the
  watermarks that keep the rounds apart, widened stages with their scatter and gather over private
  sub-slots, the autoscaler, the overlapped transfers and the per-round output. What a worker does on a command is the
  parameter \<open>call\<close>, so are the transfers of the two peers; the workers of one tick run in the
  order that the parameter \<open>sched\<close> picks. A background transfer takes effect when it is joined.
\<close>

section \<open>Steps\<close>

datatype pipe_err =
    NoStages
  | TooWide nat nat
  | NoPaths
  | NoMesh
  | HostErr host_err
  | ShmErr err
  | StageErr nat err
  | UnknownFunc string

type_synonym 's pipe_step = "'s \<Rightarrow> (pipe_err + 's) option"

definition andthen :: "'s pipe_step \<Rightarrow> 's pipe_step \<Rightarrow> 's pipe_step" where
  "andthen f g s = (case f s of Some (Inr t) \<Rightarrow> g t | r \<Rightarrow> r)"

definition skip :: "'s pipe_step" where
  "skip s = Some (Inr s)"

definition each :: "('x \<Rightarrow> 's pipe_step) \<Rightarrow> 'x list \<Rightarrow> 's pipe_step" where
  "each f xs = foldr (\<lambda>x. andthen (f x)) xs skip"

text \<open>Operations of other components as steps.\<close>

definition shm_step :: "('s \<Rightarrow> (err + 's) option) \<Rightarrow> 's pipe_step" where
  "shm_step f s = map_option (map_sum ShmErr id) (f s)"

definition host_step :: "('s \<Rightarrow> ((host_err + unit) \<times> 's) option) \<Rightarrow> 's pipe_step" where
  "host_step f s = map_option (\<lambda>(r, t). case r of Inl e \<Rightarrow> Inl (HostErr e) | Inr _ \<Rightarrow> Inr t) (f s)"

definition reading :: "('s \<Rightarrow> (err + 'x) option) \<Rightarrow> ('x \<Rightarrow> 's pipe_step) \<Rightarrow> 's pipe_step" where
  "reading f g s = (case f s of None \<Rightarrow> None | Some (Inl e) \<Rightarrow> Some (Inl (ShmErr e)) | Some (Inr x) \<Rightarrow> g x s)"

section \<open>Sub-slots\<close>

definition SUB_SLOT_BASE :: nat where "SUB_SLOT_BASE = 1792"
definition MAX_STAGE_WIDTH :: nat where "MAX_STAGE_WIDTH = 16"

definition sub_in_slot :: "nat \<Rightarrow> nat \<Rightarrow> nat" where
  "sub_in_slot s w = SUB_SLOT_BASE + s * MAX_STAGE_WIDTH + w"

definition sub_out_slot :: "nat \<Rightarrow> nat \<Rightarrow> nat" where
  "sub_out_slot s w = SUB_SLOT_BASE + 128 + s * MAX_STAGE_WIDTH + w"

definition fits_band :: "nat \<Rightarrow> nat \<Rightarrow> bool" where
  "fits_band depth max_width \<longleftrightarrow> max_width \<le> MAX_STAGE_WIDTH \<and> depth * MAX_STAGE_WIDTH \<le> 128 \<and> SUB_SLOT_BASE + 256 \<le> STREAM_SLOT_COUNT"

section \<open>Named atomics of the host\<close>

text \<open>The host finds or creates an entry the way \<open>host_resolve_atomic\<close> does for a guest.\<close>

definition register_or_get_atomic :: "string \<Rightarrow> 'a arena_scheme \<Rightarrow> err + nat \<times> 'a arena_scheme" where
  "register_or_get_atomic name s = host_resolve_atomic name s"

definition store_atomic :: "nat \<Rightarrow> nat \<Rightarrow> 'a arena_scheme \<Rightarrow> 'a arena_scheme" where
  "store_atomic idx val s = s\<lparr>atomics := (atomics s)(idx := val)\<rparr>"

definition load_atomic :: "nat \<Rightarrow> 'a arena_scheme \<Rightarrow> nat" where
  "load_atomic idx s = atomics s idx"

definition set_named :: "string \<Rightarrow> nat \<Rightarrow> 'a arena_scheme pipe_step" where
  "set_named name val s = (case register_or_get_atomic name s of Inl e \<Rightarrow> Some (Inl (ShmErr e)) | Inr (i, t) \<Rightarrow> Some (Inr (store_atomic i val t)))"

text \<open>The loop takes no lock; an entry that is not there leaves everything as it is.\<close>

definition reset_guest_slot_cursor :: "slot \<Rightarrow> 'a arena_scheme \<Rightarrow> 'a arena_scheme" where
  "reset_guest_slot_cursor sl s =
     (case find_entry (entry_name (cursor_name sl)) s of Some i \<Rightarrow> store_atomic i 0 s | None \<Rightarrow> s)"

fun rslot :: "remote_slot_kind \<Rightarrow> nat \<Rightarrow> slot" where
  "rslot RStream i = Stream i"
| "rslot RIo i = Io i"

section \<open>Widths\<close>

definition static_width :: "stream_pipeline_stage \<Rightarrow> nat" where
  "static_width st = max 1 (case st_width st of Some w \<Rightarrow> w | None \<Rightarrow> 1)"

definition spawn_w :: "stream_pipeline_stage \<Rightarrow> nat" where
  "spawn_w st = max (case st_max_width st of Some w \<Rightarrow> w | None \<Rightarrow> 0) (static_width st)"

definition is_dyn :: "stream_pipeline_stage \<Rightarrow> bool" where
  "is_dyn st \<longleftrightarrow> static_width st < (case st_max_width st of Some w \<Rightarrow> w | None \<Rightarrow> 0)"

text \<open>\<open>ceil\<close> is the negated floor of the negated value; \<open>clamp\<close> cannot panic, a stage spawns at least its floor.\<close>

definition f_ceil :: "'f f64_ops \<Rightarrow> 'f \<Rightarrow> 'f" where
  "f_ceil ops x = f_sub ops (f_of_nat ops 0) (f_floor ops (f_sub ops (f_of_nat ops 0) x))"

definition desired_width :: "'f f64_ops \<Rightarrow> 'f \<Rightarrow> nat \<Rightarrow> nat \<Rightarrow> nat" where
  "desired_width ops ema low high = min high (max (max low 1) (f_to_usize ops (f_ceil ops (f_div ops ema (f_of_nat ops 8)))))"

text \<open>What the host keeps per stage from tick to tick.\<close>

record 'f gauge =
  active_w :: nat
  load_ema :: 'f
  prev_count :: nat
  stage_load :: nat
  stage_ticks :: nat
  width_peak :: nat

definition gauge_init :: "'f f64_ops \<Rightarrow> stream_pipeline_stage \<Rightarrow> 'f gauge" where
  "gauge_init ops st = \<lparr>active_w = static_width st, load_ema = f_of_nat ops 0, prev_count = 0, stage_load = 0, stage_ticks = 0, width_peak = static_width st\<rparr>"

definition step_toward :: "nat \<Rightarrow> nat \<Rightarrow> nat" where
  "step_toward want w = (if w < want then w + 1 else if want < w then w - 1 else w)"

definition measure_stage :: "'f f64_ops \<Rightarrow> stream_pipeline_stage \<Rightarrow> nat \<Rightarrow> 'f gauge \<Rightarrow> 'f gauge" where
  "measure_stage ops st cnt g =
     (let load = cnt - prev_count g;
          g1 = g\<lparr>prev_count := cnt, stage_load := stage_load g + load, stage_ticks := stage_ticks g + 1\<rparr>
      in if is_dyn st then
           (let ema = (if stage_ticks g1 = 1 then f_of_nat ops load
                       else f_add ops (f_mul ops (f_lit ops 1 2) (load_ema g)) (f_mul ops (f_lit ops 1 2) (f_of_nat ops load)));
                w = step_toward (desired_width ops ema (static_width st) (spawn_w st)) (active_w g)
            in g1\<lparr>load_ema := ema, active_w := w, width_peak := max (width_peak g) w\<rparr>)
         else g1)"

section \<open>Scatter and gather\<close>

definition free_subs :: "os \<Rightarrow> nat \<Rightarrow> nat \<Rightarrow> 'a arena_scheme pipe_step" where
  "free_subs os s_idx width =
     each (\<lambda>k. andthen (shm_step (free_stream_slot os (sub_in_slot s_idx k))) (shm_step (free_stream_slot os (sub_out_slot s_idx k)))) [0..<width]"

definition append_records :: "os \<Rightarrow> (nat \<times> stream_record) list \<Rightarrow> 'a arena_scheme pipe_step" where
  "append_records os = each (\<lambda>(slot, origin, pl). host_step (append_stream_record os slot origin pl))"

definition prime_sub :: "nat \<Rightarrow> nat \<Rightarrow> 'a arena_scheme pipe_step" where
  "prime_sub s_idx k =
     (let si = sub_in_slot s_idx k in
      reading (slot_record_count (Stream si)) (\<lambda>cnt_k.
        andthen (set_named (cursor_name (Stream si)) 0) (andthen (set_named (pipe_cursor_name si) 0) (set_named (stream_hi_name si) (cnt_k + 1)))))"

definition scatter_widened_input :: "os \<Rightarrow> nat \<Rightarrow> nat \<Rightarrow> nat \<Rightarrow> (nat \<rightharpoonup> nat) \<Rightarrow> 'a arena_scheme pipe_step" where
  "scatter_widened_input os arg0 width s_idx cursor_idx =
     reading (slot_record_count (Stream arg0)) (\<lambda>cnt.
     reading (read_slot_records (Stream arg0)) (\<lambda>recs s.
       (let cur = (case cursor_idx arg0 of Some i \<Rightarrow> load_atomic i s | None \<Rightarrow> 0);
            w = take (cnt - cur) (drop cur recs)
        in andthen (free_subs os s_idx width)
             (andthen (append_records os (map (\<lambda>(j, r). (sub_in_slot s_idx (j mod width), r)) (enumerate 0 w)))
               (andthen (\<lambda>t. Some (Inr (case cursor_idx arg0 of Some i \<Rightarrow> store_atomic i cnt t | None \<Rightarrow> t)))
                 (each (prime_sub s_idx) [0..<width]))) s)))"

fun read_all_subs :: "nat list \<Rightarrow> 'a host_scheme \<Rightarrow> (err + stream_record list list) option" where
  "read_all_subs [] s = Some (Inr [])"
| "read_all_subs (sl # sls) s =
     (case read_slot_records (Stream sl) s of
        None \<Rightarrow> None
      | Some (Inl e) \<Rightarrow> Some (Inl e)
      | Some (Inr rs) \<Rightarrow> map_option (map_sum id (Cons rs)) (read_all_subs sls s))"

text \<open>Worker 0's first record, worker 1's first record, and so on; exhausted workers are passed over.\<close>

definition interleave :: "'x list list \<Rightarrow> 'x list" where
  "interleave outs =
     concat (map (\<lambda>p. map (\<lambda>out. out ! p) (filter (\<lambda>out. p < length out) outs)) [0..<foldr max (map length outs) 0])"

definition gather_widened_output :: "os \<Rightarrow> nat \<Rightarrow> nat \<Rightarrow> nat \<Rightarrow> 'a arena_scheme pipe_step" where
  "gather_widened_output os s_idx width a1 =
     reading (read_all_subs (map (sub_out_slot s_idx) [0..<width])) (\<lambda>outs.
       andthen (append_records os (map (Pair a1) (interleave outs))) (free_subs os s_idx width))"

section \<open>The schedule\<close>

definition active_stages :: "nat \<Rightarrow> nat \<Rightarrow> nat \<Rightarrow> (nat \<times> nat) list" where
  "active_stages depth rounds tick = map (\<lambda>s. (s, tick - s)) (filter (\<lambda>s. s \<le> tick \<and> tick - s < rounds) [0..<depth])"

definition total_ticks :: "nat \<Rightarrow> nat \<Rightarrow> nat" where
  "total_ticks depth rounds = rounds + depth - 1"

definition buf_slot :: "nat \<Rightarrow> rdma_pipeline_send option \<Rightarrow> nat \<Rightarrow> nat option" where
  "buf_slot depth send tick =
     (if depth - 1 \<le> tick then
        (case send of None \<Rightarrow> None | Some r \<Rightarrow> if ps_free_after r then Some (ps_slot r + (tick - (depth - 1)) mod 2) else None)
      else None)"

text \<open>The second argument of a stage: its own, the round, or the current buffer for the last stage.\<close>

definition stage_arg :: "nat \<Rightarrow> nat option \<Rightarrow> nat option \<Rightarrow> nat \<Rightarrow> nat \<Rightarrow> nat" where
  "stage_arg depth buf arg s rnd =
     (case buf of Some b \<Rightarrow> if s = depth - 1 then wrap32 b else (case arg of Some a \<Rightarrow> a | None \<Rightarrow> wrap32 rnd)
      | None \<Rightarrow> (case arg of Some a \<Rightarrow> a | None \<Rightarrow> wrap32 rnd))"

section \<open>Transfers\<close>

text \<open>The peers of a pipeline: how a slot is received and how it is sent.\<close>

record 's peers =
  do_recv :: "rdma_pipeline_recv \<Rightarrow> 's pipe_step"
  do_send :: "rdma_pipeline_send \<Rightarrow> nat \<Rightarrow> 's pipe_step"

record xfer =
  pending_recv :: bool
  pending_send :: "nat option"

definition free_rslot :: "os \<Rightarrow> remote_slot_kind \<Rightarrow> nat \<Rightarrow> 'a arena_scheme pipe_step" where
  "free_rslot os k slot = shm_step (free_slot os (rslot k slot))"

definition recv_phase :: "'s peers option \<Rightarrow> rdma_pipeline_recv option \<Rightarrow> nat \<Rightarrow> nat \<Rightarrow> xfer \<Rightarrow> 's \<Rightarrow> (pipe_err + xfer \<times> 's) option" where
  "recv_phase mesh recv rounds tick x s =
     (case (recv, mesh) of
        (Some r, Some m) \<Rightarrow>
          if tick < rounds \<and> (tick = 0 \<or> pending_recv x)
          then map_option (map_sum id (Pair (if tick = 0 then x else x\<lparr>pending_recv := False\<rparr>))) (do_recv m r s)
          else Some (Inr (x, s))
      | _ \<Rightarrow> Some (Inr (x, s)))"

definition join_send :: "os \<Rightarrow> 'a arena_scheme peers \<Rightarrow> rdma_pipeline_send \<Rightarrow> nat option \<Rightarrow> 'a arena_scheme pipe_step" where
  "join_send os m r p = (case p of None \<Rightarrow> skip | Some slot \<Rightarrow> andthen (do_send m r slot) (free_rslot os (ps_slot_kind r) slot))"

definition send_phase ::
  "os \<Rightarrow> 'a arena_scheme peers option \<Rightarrow> rdma_pipeline_send option \<Rightarrow> nat \<Rightarrow> nat \<Rightarrow> xfer \<Rightarrow> 'a arena_scheme \<Rightarrow> (pipe_err + xfer \<times> 'a arena_scheme) option" where
  "send_phase os mesh send depth tick x s =
     (case (send, mesh) of
        (Some r, Some m) \<Rightarrow>
          if tick < depth - 1 then Some (Inr (x, s))
          else if ps_free_after r
          then map_option (map_sum id (Pair (x\<lparr>pending_send := buf_slot depth send tick\<rparr>))) (join_send os m r (pending_send x) s)
          else map_option (map_sum id (Pair x)) (do_send m r (ps_slot r) s)
      | _ \<Rightarrow> Some (Inr (x, s)))"

definition prefetch_phase ::
  "os \<Rightarrow> 'a arena_scheme peers option \<Rightarrow> rdma_pipeline_recv option \<Rightarrow> (nat \<rightharpoonup> nat) \<Rightarrow> nat \<Rightarrow> nat \<Rightarrow> xfer \<Rightarrow> 'a arena_scheme \<Rightarrow> (pipe_err + xfer \<times> 'a arena_scheme) option" where
  "prefetch_phase os mesh recv cursor_idx rounds tick x s =
     (case (recv, mesh) of
        (Some r, Some m) \<Rightarrow>
          if tick + 1 < rounds then
            map_option (map_sum id (\<lambda>t. (x\<lparr>pending_recv := True\<rparr>,
                let u = reset_guest_slot_cursor (rslot (pr_slot_kind r) (pr_slot r)) t
                in case cursor_idx (wrap32 (pr_slot r)) of Some i \<Rightarrow> store_atomic i 0 u | None \<Rightarrow> u)))
              (free_rslot os (pr_slot_kind r) (pr_slot r) s)
          else Some (Inr (x, s))
      | _ \<Rightarrow> Some (Inr (x, s)))"

section \<open>The stream pipeline\<close>

text \<open>The cursor and watermark atomics of the input slots, created and zeroed, with their indices.\<close>

fun init_atomics ::
  "nat list \<Rightarrow> (nat \<rightharpoonup> nat) \<Rightarrow> (nat \<rightharpoonup> nat) \<Rightarrow> 'a arena_scheme \<Rightarrow> err + (nat \<rightharpoonup> nat) \<times> (nat \<rightharpoonup> nat) \<times> 'a arena_scheme" where
  "init_atomics [] cursor_idx hi_idx s = Inr (cursor_idx, hi_idx, s)"
| "init_atomics (slot # slots) cursor_idx hi_idx s =
     (case register_or_get_atomic (pipe_cursor_name slot) s of
        Inl e \<Rightarrow> Inl e
      | Inr (c, s1) \<Rightarrow>
          (case register_or_get_atomic (stream_hi_name slot) (store_atomic c 0 s1) of
             Inl e \<Rightarrow> Inl e
           | Inr (h, s2) \<Rightarrow> init_atomics slots (cursor_idx(slot \<mapsto> c)) (hi_idx(slot \<mapsto> h)) (store_atomic h 0 s2)))"

definition publish :: "(nat \<rightharpoonup> nat) \<Rightarrow> nat \<Rightarrow> nat \<Rightarrow> 'a arena_scheme pipe_step" where
  "publish hi_idx slot cnt s = Some (Inr (case hi_idx slot of Some h \<Rightarrow> store_atomic h (cnt + 1) s | None \<Rightarrow> s))"

text \<open>Before the commands go out: load, width and the input of every active stage.\<close>

fun prepare_stages ::
  "'f f64_ops \<Rightarrow> os \<Rightarrow> stream_pipeline_stage list \<Rightarrow> (nat \<rightharpoonup> nat) \<Rightarrow> (nat \<rightharpoonup> nat) \<Rightarrow> nat list \<Rightarrow> (nat \<Rightarrow> 'f gauge) \<Rightarrow> 'a arena_scheme \<Rightarrow>
   (pipe_err + (nat \<Rightarrow> 'f gauge) \<times> 'a arena_scheme) option" where
  "prepare_stages ops os sts ci hi [] G s = Some (Inr (G, s))"
| "prepare_stages ops os sts ci hi (i # idxs) G s =
     (let st = sts ! i in
      case slot_record_count (Stream (st_arg0 st)) s of
        None \<Rightarrow> None
      | Some (Inl e) \<Rightarrow> Some (Inl (ShmErr e))
      | Some (Inr cnt) \<Rightarrow>
          (let g = measure_stage ops st cnt (G i) in
           case (if active_w g = 1 then publish hi (st_arg0 st) cnt
                 else scatter_widened_input os (st_arg0 st) (active_w g) i ci) s of
             None \<Rightarrow> None
           | Some (Inl e) \<Rightarrow> Some (Inl e)
           | Some (Inr t) \<Rightarrow> prepare_stages ops os sts ci hi idxs (G(i := g)) t))"

text \<open>The commands of a tick: stage, function and the two arguments.\<close>

definition commands :: "stream_pipeline_stage list \<Rightarrow> (nat \<Rightarrow> nat) \<Rightarrow> (nat \<times> nat) list \<Rightarrow> (nat \<times> string \<times> nat \<times> nat) list" where
  "commands sts width active =
     concat (map (\<lambda>(s, a1).
       if width s = 1 then [(s, st_func (sts ! s), st_arg0 (sts ! s), a1)]
       else map (\<lambda>k. (s, st_func (sts ! s), sub_in_slot s k, sub_out_slot s k)) [0..<width s]) active)"

type_synonym 's worker = "string \<Rightarrow> nat \<Rightarrow> nat \<Rightarrow> 's pipe_step"

definition run_commands :: "'s worker \<Rightarrow> (nat \<times> string \<times> nat \<times> nat) list \<Rightarrow> 's pipe_step" where
  "run_commands call = each (\<lambda>(s, f, a, b). call f a b)"

definition gather_all :: "os \<Rightarrow> (nat \<Rightarrow> nat) \<Rightarrow> (nat \<times> nat) list \<Rightarrow> 'a arena_scheme pipe_step" where
  "gather_all os width = each (\<lambda>(s, a1). if width s = 1 then skip else gather_widened_output os s (width s) a1)"

definition with_state :: "('s \<Rightarrow> (pipe_err + 'x \<times> 's) option) \<Rightarrow> ('x \<Rightarrow> 's \<Rightarrow> (pipe_err + 'y) option) \<Rightarrow> 's \<Rightarrow> (pipe_err + 'y) option" where
  "with_state f g s = (case f s of None \<Rightarrow> None | Some (Inl e) \<Rightarrow> Some (Inl e) | Some (Inr (x, t)) \<Rightarrow> g x t)"

definition stage_args :: "stream_pipeline_params \<Rightarrow> nat \<Rightarrow> (nat \<times> nat) list" where
  "stage_args p tick =
     (let depth = length (sp_stages p); buf = buf_slot depth (sp_rdma_send p) tick
      in map (\<lambda>(s, rnd). (s, stage_arg depth buf (st_arg1 (sp_stages p ! s)) s rnd)) (active_stages depth (sp_rounds p) tick))"

definition pipeline_tick ::
  "'f f64_ops \<Rightarrow> os \<Rightarrow> 'a arena_scheme peers option \<Rightarrow> (nat \<Rightarrow> (nat \<times> string \<times> nat \<times> nat) list \<Rightarrow> (nat \<times> string \<times> nat \<times> nat) list) \<Rightarrow>
   'a arena_scheme worker \<Rightarrow> stream_pipeline_params \<Rightarrow> (nat \<rightharpoonup> nat) \<Rightarrow> (nat \<rightharpoonup> nat) \<Rightarrow> nat \<Rightarrow> (nat \<Rightarrow> 'f gauge) \<times> xfer \<Rightarrow> 'a arena_scheme \<Rightarrow>
   (pipe_err + ((nat \<Rightarrow> 'f gauge) \<times> xfer) \<times> 'a arena_scheme) option" where
  "pipeline_tick ops os mesh sched call p ci hi tick gx s =
     (let depth = length (sp_stages p); rounds = sp_rounds p; active = stage_args p tick; (G, x) = gx in
      with_state (recv_phase mesh (sp_rdma_recv p) rounds tick x) (\<lambda>x1.
      with_state (prepare_stages ops os (sp_stages p) ci hi (map fst active) G) (\<lambda>G1.
      with_state (\<lambda>t. map_option (map_sum id (Pair ()))
          (andthen (run_commands call (sched tick (commands (sp_stages p) (\<lambda>i. active_w (G1 i)) active)))
             (gather_all os (\<lambda>i. active_w (G1 i)) active) t)) (\<lambda>_.
      with_state (send_phase os mesh (sp_rdma_send p) depth tick x1) (\<lambda>x2.
      with_state (prefetch_phase os mesh (sp_rdma_recv p) ci rounds tick x2) (\<lambda>x3 t. Some (Inr ((G1, x3), t))))))) s)"

fun run_ticks :: "(nat \<Rightarrow> 'x \<Rightarrow> 's \<Rightarrow> (pipe_err + 'x \<times> 's) option) \<Rightarrow> nat list \<Rightarrow> 'x \<Rightarrow> 's \<Rightarrow> (pipe_err + 'x \<times> 's) option" where
  "run_ticks f [] x s = Some (Inr (x, s))"
| "run_ticks f (t # ts) x s = with_state (f t x) (run_ticks f ts) s"

definition final_join :: "os \<Rightarrow> 'a arena_scheme peers option \<Rightarrow> rdma_pipeline_send option \<Rightarrow> xfer \<Rightarrow> 'a arena_scheme pipe_step" where
  "final_join os mesh send x =
     (case (send, mesh) of (Some r, Some m) \<Rightarrow> join_send os m r (pending_send x) | _ \<Rightarrow> skip)"

text \<open>At the end the records of the last stage's own output slot are dumped by one more guest call.\<close>

definition execute_stream_pipeline ::
  "'f f64_ops \<Rightarrow> os \<Rightarrow> 'a arena_scheme peers option \<Rightarrow> (nat \<Rightarrow> (nat \<times> string \<times> nat \<times> nat) list \<Rightarrow> (nat \<times> string \<times> nat \<times> nat) list) \<Rightarrow>
   'a arena_scheme worker \<Rightarrow> (nat \<Rightarrow> 'a arena_scheme pipe_step) \<Rightarrow> stream_pipeline_params \<Rightarrow> 'a arena_scheme pipe_step" where
  "execute_stream_pipeline ops os mesh sched call dump p s =
     (let sts = sp_stages p; depth = length sts; max_spawn = foldr max (map spawn_w sts) 0 in
      if depth = 0 then Some (Inl NoStages)
      else if 1 < max_spawn \<and> \<not> fits_band depth max_spawn then Some (Inl (TooWide depth max_spawn))
      else case init_atomics (map st_arg0 sts) Map.empty Map.empty s of
             Inl e \<Rightarrow> Some (Inl (ShmErr e))
           | Inr (ci, hi, s1) \<Rightarrow>
               with_state (run_ticks (pipeline_tick ops os mesh sched call p ci hi) [0..<total_ticks depth (sp_rounds p)]
                     (\<lambda>i. gauge_init ops (sts ! i), \<lparr>pending_recv = False, pending_send = None\<rparr>))
                 (\<lambda>(G, x). andthen (final_join os mesh (sp_rdma_send p) x)
                    (case st_arg1 (last sts) of Some slot \<Rightarrow> dump slot | None \<Rightarrow> skip)) s1)"

section \<open>The Python pipeline\<close>

fun publish_watermarks :: "(nat \<rightharpoonup> nat) \<Rightarrow> nat list \<Rightarrow> 'a arena_scheme pipe_step" where
  "publish_watermarks hi [] s = Some (Inr s)"
| "publish_watermarks hi (slot # slots) s =
     (case hi slot of
        None \<Rightarrow> publish_watermarks hi slots s
      | Some _ \<Rightarrow> andthen (reading (slot_record_count (Stream slot)) (publish hi slot)) (publish_watermarks hi slots) s)"

definition py_commands :: "py_pipeline_params \<Rightarrow> nat \<Rightarrow> (nat \<times> string \<times> nat \<times> nat) list" where
  "py_commands p tick =
     (let depth = length (py_stages p); buf = buf_slot depth (py_rdma_send p) tick
      in map (\<lambda>(s, rnd). case py_stages p ! s of (f, arg, arg2) \<Rightarrow> (s, f, arg, stage_arg depth buf arg2 s rnd))
           (active_stages depth (py_rounds p) tick))"

definition py_tick ::
  "os \<Rightarrow> 'a arena_scheme peers option \<Rightarrow> (nat \<Rightarrow> (nat \<times> string \<times> nat \<times> nat) list \<Rightarrow> (nat \<times> string \<times> nat \<times> nat) list) \<Rightarrow> 'a arena_scheme worker \<Rightarrow>
   py_pipeline_params \<Rightarrow> (nat \<rightharpoonup> nat) \<Rightarrow> (nat \<rightharpoonup> nat) \<Rightarrow> nat \<Rightarrow> xfer \<Rightarrow> 'a arena_scheme \<Rightarrow> (pipe_err + xfer \<times> 'a arena_scheme) option" where
  "py_tick os mesh sched call p ci hi tick x s =
     (let depth = length (py_stages p); rounds = py_rounds p; cmds = py_commands p tick in
      with_state (recv_phase mesh (py_rdma_recv p) rounds tick x) (\<lambda>x1.
      with_state (\<lambda>t. map_option (map_sum id (Pair ()))
          (andthen (publish_watermarks hi (map (\<lambda>(_, _, a, _). a) cmds)) (run_commands call (sched tick cmds)) t)) (\<lambda>_.
      with_state (send_phase os mesh (py_rdma_send p) depth tick x1) (prefetch_phase os mesh (py_rdma_recv p) ci rounds tick))) s)"

definition execute_py_pipeline ::
  "os \<Rightarrow> 'a arena_scheme peers option \<Rightarrow> (nat \<Rightarrow> (nat \<times> string \<times> nat \<times> nat) list \<Rightarrow> (nat \<times> string \<times> nat \<times> nat) list) \<Rightarrow> 'a arena_scheme worker \<Rightarrow>
   py_pipeline_params \<Rightarrow> 'a arena_scheme pipe_step" where
  "execute_py_pipeline os mesh sched call p s =
     (let depth = length (py_stages p) in
      if depth = 0 then Some (Inl NoStages)
      else case init_atomics (map (\<lambda>(f, a, b). a) (py_stages p)) Map.empty Map.empty s of
             Inl e \<Rightarrow> Some (Inl (ShmErr e))
           | Inr (ci, hi, s1) \<Rightarrow>
               with_state (run_ticks (py_tick os mesh sched call p ci hi) [0..<total_ticks depth (py_rounds p)] \<lparr>pending_recv = False, pending_send = None\<rparr>)
                 (final_join os mesh (py_rdma_send p)) s1)"

section \<open>Streaming output\<close>

definition output_round :: "os \<Rightarrow> 'a arena_scheme peers option \<Rightarrow> stream_output_params \<Rightarrow> nat \<Rightarrow> disk_file list \<Rightarrow> 'a arena_scheme \<Rightarrow>
    (pipe_err + disk_file list \<times> 'a arena_scheme) option" where
  "output_round os mesh p rnd files s =
     (let sl = rslot (so_slot_kind p) (so_slot p);
          path = so_paths p ! (rnd mod length (so_paths p));
          recv = (case so_rdma_recv p of None \<Rightarrow> skip
                  | Some r \<Rightarrow> (case mesh of None \<Rightarrow> (\<lambda>_. Some (Inl NoMesh)) | Some m \<Rightarrow> do_recv m r));
          finish = (if so_rdma_recv p = None then skip
                    else andthen (free_rslot os (so_slot_kind p) (so_slot p)) (\<lambda>t. Some (Inr (reset_guest_slot_cursor sl t))))
      in case recv s of
           None \<Rightarrow> None
         | Some (Inl e) \<Rightarrow> Some (Inl e)
         | Some (Inr t) \<Rightarrow>
             (case (if so_binary p then watch_slot_binary sl path t else watch_stream (so_slot p) path t) of
                None \<Rightarrow> None
              | Some (Inl e) \<Rightarrow> Some (Inl (ShmErr e))
              | Some (Inr w) \<Rightarrow> map_option (map_sum id (Pair (files @ [write_watch w]))) (finish t)))"

text \<open>The files of a streaming output, in the order they are written, and the region afterwards.\<close>

definition execute_stream_output :: "os \<Rightarrow> 'a arena_scheme peers option \<Rightarrow> stream_output_params \<Rightarrow> 'a arena_scheme \<Rightarrow>
    (pipe_err + disk_file list \<times> 'a arena_scheme) option" where
  "execute_stream_output os mesh p s =
     (if so_paths p = [] then Some (Inl NoPaths)
      else run_ticks (output_round os mesh p) [0..<so_rounds p] [] s)"

section \<open>The guest as a worker\<close>

text \<open>The functions that a loop worker knows by name, for the stages of the streaming pipeline.\<close>

definition guest_worker :: "'a arena_scheme worker" where
  "guest_worker f a b s =
     (if f = ''pipeline_source'' then Some (map_sum ShmErr id (pipeline_source a b s))
      else if f = ''pipeline_source_var'' then Some (map_sum ShmErr id (pipeline_source_var a b s))
      else if f = ''pipeline_filter'' then shm_step (pipeline_filter a b) s
      else if f = ''pipeline_transform'' then shm_step (pipeline_transform a b) s
      else if f = ''pipeline_sink'' then shm_step (pipeline_sink a b) s
      else if f = ''pipeline_io_sink'' then shm_step (pipeline_io_sink a b) s
      else Some (Inl (UnknownFunc f)))"

end
