(* ===== verification/Pipe_Run.thy ===== *)
theory Pipe_Run
  imports Pipeline
begin

text \<open>
  What a pipelined run computes. The stages of a linear pipeline run in waves, the workers of a wave in any order; the
  reference definition \<open>outputs\<close> runs stage after stage, round after round. The state of the run between two ticks is
  described by the number of rounds that each stage has finished.
\<close>

section \<open>The schedule\<close>

lemma active_stages_iff: "(s, r) \<in> set (active_stages depth rounds t) \<longleftrightarrow> s < depth \<and> r < rounds \<and> t = s + r"
  by (auto simp: active_stages_def)

lemma distinct_active: "distinct (map fst (active_stages depth rounds t))"
  by (simp add: active_stages_def comp_def)

text \<open>How many rounds a stage has done before a tick.\<close>

definition rounds_done :: "nat \<Rightarrow> nat \<Rightarrow> nat \<Rightarrow> nat" where
  "rounds_done rounds t s = min rounds (t - s)"

lemma rounds_done_step:
  "rounds_done rounds (Suc t) s = (if s \<le> t \<and> t - s < rounds then Suc (rounds_done rounds t s) else rounds_done rounds t s)"
  by (auto simp: rounds_done_def Suc_diff_le)

section \<open>Linear pipelines of the guest's stages\<close>

definition out_slot :: "stream_pipeline_params \<Rightarrow> nat \<Rightarrow> nat" where
  "out_slot p s = (if s = 0 then st_arg0 (sp_stages p ! 0) else the (st_arg1 (sp_stages p ! s)))"

definition source_of :: "string \<Rightarrow> nat \<Rightarrow> payload list" where
  "source_of f = (if f = ''pipeline_source'' then source_batch else var_batch)"

definition stage_map :: "string \<Rightarrow> payload list \<Rightarrow> payload list" where
  "stage_map f = (if f = ''pipeline_filter'' then filter keep_record
     else if f = ''pipeline_transform'' then map (\<lambda>rec. rec @ ascii ''|T'') else summary)"

text \<open>What a stage makes of a round when the stages before it ran on that round alone.\<close>

fun stage_output :: "stream_pipeline_params \<Rightarrow> nat \<Rightarrow> nat \<Rightarrow> payload list" where
  "stage_output p 0 r = source_of (st_func (sp_stages p ! 0)) r"
| "stage_output p (Suc s) r = stage_map (st_func (sp_stages p ! Suc s)) (stage_output p s r)"

definition outputs :: "stream_pipeline_params \<Rightarrow> nat \<Rightarrow> nat \<Rightarrow> payload list" where
  "outputs p s n = concat (map (stage_output p s) [0..<n])"

lemma outputs_Suc [simp]: "outputs p s (Suc n) = outputs p s n @ stage_output p s n" "outputs p s 0 = []"
  by (simp_all add: outputs_def)

lemma outputs_prefix: "m \<le> n \<Longrightarrow> \<exists>xs. outputs p s n = outputs p s m @ xs"
  by (induction n) (auto simp: le_Suc_eq)

text \<open>A source and then consumers, each reading what the one before it writes; one worker per stage and no transfers.\<close>

definition linear_pipeline :: "stream_pipeline_params \<Rightarrow> bool" where
  "linear_pipeline p \<longleftrightarrow> sp_stages p \<noteq> [] \<and> sp_rdma_recv p = None \<and> sp_rdma_send p = None \<and> sp_rounds p < 4294967296
     \<and> st_func (sp_stages p ! 0) \<in> {''pipeline_source'', ''pipeline_source_var''} \<and> st_arg1 (sp_stages p ! 0) = None
     \<and> list_all (\<lambda>st. spawn_w st = 1) (sp_stages p)
     \<and> list_all (\<lambda>s. st_func (sp_stages p ! s) \<in> {''pipeline_filter'', ''pipeline_transform'', ''pipeline_sink''}
          \<and> st_arg1 (sp_stages p ! s) \<noteq> None \<and> st_arg0 (sp_stages p ! s) = out_slot p (s - 1)) [1..<length (sp_stages p)]
     \<and> distinct (map (out_slot p) [0..<length (sp_stages p)]) \<and> list_all (\<lambda>s. out_slot p s < STREAM_SLOT_COUNT) [0..<length (sp_stages p)]"

definition run_pages :: "stream_pipeline_params \<Rightarrow> (nat \<Rightarrow> nat) \<Rightarrow> nat" where
  "run_pages p n = (\<Sum>s < length (sp_stages p). append_pages (outputs p s (n s)))"

lemma append_pages_append [simp]: "append_pages (xs @ ys) = append_pages xs + append_pages ys" "append_pages [] = 0"
  by (simp_all add: append_pages_def)

lemma run_pages_step:
  assumes "s < length (sp_stages p)"
  shows "run_pages p (n(s := Suc (n s))) = run_pages p n + append_pages (stage_output p s (n s))"
proof -
  let ?D = "{..<length (sp_stages p)}"
  have "run_pages p (n(s := Suc (n s))) = append_pages (outputs p s (Suc (n s))) + (\<Sum>i \<in> ?D - {s}. append_pages (outputs p i (n i)))"
    unfolding run_pages_def using assms by (subst sum.remove [of _ s]) (auto intro!: sum.cong)
  also have "\<dots> = append_pages (stage_output p s (n s)) + run_pages p n"
    unfolding run_pages_def using assms by (subst (2) sum.remove [of _ s]) auto
  finally show ?thesis by simp
qed

lemma run_pages_mono: "(\<And>s. n s \<le> m s) \<Longrightarrow> run_pages p n \<le> run_pages p m"
  unfolding run_pages_def using outputs_prefix by (intro sum_mono) (metis append_pages_append(1) le_add1)

lemma append_pages_small:
  assumes "append_pages pls \<le> bump_room s" "pl \<in> set pls"
  shows "length pl < 4294967296"
proof -
  have "pages_for (length pl) \<le> append_pages pls" unfolding append_pages_def
    using assms(2) by (intro member_le_sum_list) auto
  also have "\<dots> \<le> bump_room s" by (rule assms(1))
  also have "\<dots> \<le> BUMP_SOFT_LIMIT div PAGE_SIZE" unfolding bump_room_def by (rule div_le_mono) simp
  finally have "(length pl + 8) div PAGE_DATA_SIZE < 1048576" by (simp add: pages_for_def layout_consts)
  then show ?thesis by (simp add: layout_consts)
qed

section \<open>The state of a run\<close>

definition run_state ::
  "stream_pipeline_params \<Rightarrow> (nat \<Rightarrow> nat) \<Rightarrow> (nat \<Rightarrow> nat) \<Rightarrow> (slot \<Rightarrow> stream_record list) \<Rightarrow> (nat \<Rightarrow> nat) \<Rightarrow> 'a arena_scheme \<Rightarrow> (slot \<Rightarrow> stream_record list) \<Rightarrow> bool" where
  "run_state p c h R n s Q \<longleftrightarrow> reg_inv s \<and> direct s \<and> stores s Q
     \<and> (\<forall>i < length (sp_stages p). Q (Stream (out_slot p i)) = map (Pair (out_slot p i)) (outputs p i (n i)))
     \<and> (\<forall>sl. (\<forall>i < length (sp_stages p). sl \<noteq> Stream (out_slot p i)) \<longrightarrow> Q sl = R sl)
     \<and> (\<forall>i. Suc i < length (sp_stages p) \<longrightarrow> find_entry (entry_name (pipe_cursor_name (out_slot p i))) s = Some (c i) \<and> atomics s (c i) = length (outputs p i (n (Suc i))))
     \<and> (\<forall>i. i = 0 \<or> Suc i < length (sp_stages p) \<longrightarrow> find_entry (entry_name (stream_hi_name (out_slot p i))) s = Some (h i))"

lemma run_stateD:
  assumes "run_state p c h R n s Q"
  shows "reg_inv s" "direct s" "stores s Q"
    "i < length (sp_stages p) \<Longrightarrow> Q (Stream (out_slot p i)) = map (Pair (out_slot p i)) (outputs p i (n i))"
    "(\<And>i. i < length (sp_stages p) \<Longrightarrow> sl \<noteq> Stream (out_slot p i)) \<Longrightarrow> Q sl = R sl"
    "Suc i < length (sp_stages p) \<Longrightarrow> find_entry (entry_name (pipe_cursor_name (out_slot p i))) s = Some (c i)"
    "i = 0 \<or> Suc i < length (sp_stages p) \<Longrightarrow> find_entry (entry_name (stream_hi_name (out_slot p i))) s = Some (h i)"
    "Suc i < length (sp_stages p) \<Longrightarrow> atomics s (c i) = length (outputs p i (n (Suc i)))"
  using assms by (auto simp: run_state_def)

lemma linearD:
  assumes "linear_pipeline p"
  shows "0 < length (sp_stages p)" "sp_rdma_recv p = None" "sp_rdma_send p = None" "sp_rounds p < 4294967296"
    "st_func (sp_stages p ! 0) = ''pipeline_source'' \<or> st_func (sp_stages p ! 0) = ''pipeline_source_var''" "st_arg1 (sp_stages p ! 0) = None"
    "s < length (sp_stages p) \<Longrightarrow> spawn_w (sp_stages p ! s) = 1"
    "Suc s < length (sp_stages p) \<Longrightarrow> st_func (sp_stages p ! Suc s) \<in> {''pipeline_filter'', ''pipeline_transform'', ''pipeline_sink''}"
    "Suc s < length (sp_stages p) \<Longrightarrow> st_arg1 (sp_stages p ! Suc s) = Some (out_slot p (Suc s))"
    "Suc s < length (sp_stages p) \<Longrightarrow> st_arg0 (sp_stages p ! Suc s) = out_slot p s"
    "s < length (sp_stages p) \<Longrightarrow> t < length (sp_stages p) \<Longrightarrow> out_slot p s = out_slot p t \<longleftrightarrow> s = t"
    "s < length (sp_stages p) \<Longrightarrow> out_slot p s < STREAM_SLOT_COUNT"
proof -
  note l = assms [unfolded linear_pipeline_def list_all_iff]
  show "0 < length (sp_stages p)" "sp_rdma_recv p = None" "sp_rdma_send p = None" "sp_rounds p < 4294967296"
    "st_func (sp_stages p ! 0) = ''pipeline_source'' \<or> st_func (sp_stages p ! 0) = ''pipeline_source_var''" "st_arg1 (sp_stages p ! 0) = None"
    "s < length (sp_stages p) \<Longrightarrow> spawn_w (sp_stages p ! s) = 1" "s < length (sp_stages p) \<Longrightarrow> out_slot p s < STREAM_SLOT_COUNT" using l by auto
  have "inj_on (out_slot p) {0..<length (sp_stages p)}" using l by (simp add: distinct_map)
  then show "s < length (sp_stages p) \<Longrightarrow> t < length (sp_stages p) \<Longrightarrow> out_slot p s = out_slot p t \<longleftrightarrow> s = t" by (auto dest: inj_onD)
  assume s: "Suc s < length (sp_stages p)"
  then have m: "Suc s \<in> set [1..<length (sp_stages p)]" by simp
  show "st_func (sp_stages p ! Suc s) \<in> {''pipeline_filter'', ''pipeline_transform'', ''pipeline_sink''}" "st_arg0 (sp_stages p ! Suc s) = out_slot p s"
    using l m by fastforce+
  have "st_arg1 (sp_stages p ! Suc s) \<noteq> None" using l m by blast
  then show "st_arg1 (sp_stages p ! Suc s) = Some (out_slot p (Suc s))" by (auto simp: out_slot_def)
qed

text \<open>Appending one round of a stage to its slot.\<close>

lemma run_state_append:
  assumes l: "linear_pipeline p" and r: "run_state p c h R n s Q" and k: "k < length (sp_stages p)"
    and t: "reg_inv t" "direct t" "stores t (Q(Stream (out_slot p k) := Q (Stream (out_slot p k)) @ map (Pair (out_slot p k)) (stage_output p k (n k))))"
    and f: "registry t = registry s" "next_atomic_idx t = next_atomic_idx s"
    and a: "\<And>i. Suc i < length (sp_stages p) \<Longrightarrow> atomics t (c i) = (if Suc i = k then length (outputs p i (Suc (n k))) else atomics s (c i))"
  shows "run_state p c h R (n(k := Suc (n k))) t (Q(Stream (out_slot p k) := Q (Stream (out_slot p k)) @ map (Pair (out_slot p k)) (stage_output p k (n k))))"
proof -
  have "find_entry key t = find_entry key s" for key using f by (simp add: find_entry_def)
  moreover have "atomics t (c i) = length (outputs p i ((n(k := Suc (n k))) (Suc i)))" if "Suc i < length (sp_stages p)" for i
    using a [OF that] run_stateD(8) [OF r that] by (auto simp del: outputs_Suc)
  ultimately show ?thesis using t run_stateD(4-7) [OF r] linearD(11) [OF l _ k] k by (auto simp: run_state_def)
qed

lemma source_call:
  assumes l: "linear_pipeline p" and r: "run_state p c h R n s Q" and room: "append_pages (stage_output p 0 (n 0)) \<le> bump_room s"
  shows "\<exists>t Q'. guest_worker (st_func (sp_stages p ! 0)) (st_arg0 (sp_stages p ! 0)) (n 0) s = Some (Inr t)
    \<and> run_state p c h R (n(0 := Suc (n 0))) t Q' \<and> bump_room s \<le> bump_room t + append_pages (stage_output p 0 (n 0)) \<and> atomics t = atomics s"
proof -
  let ?sl = "Stream (out_slot p 0)" and ?o = "stage_output p 0 (n 0)"
  note d = run_stateD [OF r]
  note lp = linearD [OF l]
  have sl: "slot_in_range ?sl" using lp(12) [OF lp(1)] by simp
  obtain t where t: "append_each ?sl ?o s = Inr t" "stores t (Q(?sl := Q ?sl @ origin_of ?sl ?o))" "bump_room s \<le> bump_room t + append_pages ?o"
    using append_each_stores [OF d(3) sl _ room] append_pages_small [OF room] by blast
  have keep: "registry_lock t = registry_lock s" "registry t = registry s" "next_atomic_idx t = next_atomic_idx s" "atomics t = atomics s" "name_cache t = name_cache s"
    "ext t = ext s" "mode_flag t = mode_flag s" using reg.append_each_keeps [OF t(1)] host_frame.append_each_keeps [OF t(1)] by simp_all
  have "reg_inv t" "direct t" using d(1,2) keep by (simp_all add: reg_inv_def direct_def)
  then have "run_state p c h R (n(0 := Suc (n 0))) t (Q(?sl := Q ?sl @ map (Pair (out_slot p 0)) ?o))"
    by (intro run_state_append [OF l r lp(1)]) (use t(2) keep in \<open>simp_all add: origin_of_def\<close>)
  moreover have "guest_worker (st_func (sp_stages p ! 0)) (st_arg0 (sp_stages p ! 0)) (n 0) s = Some (Inr t)"
    using lp(5) t(1) by (auto simp: guest_worker_def pipeline_source_def pipeline_source_var_def source_of_def out_slot_def)
  ultimately show ?thesis using t(3) keep(4) by blast
qed

lemma window_worker:
  assumes "f \<in> {''pipeline_filter'', ''pipeline_transform'', ''pipeline_sink''}"
  shows "guest_worker f a b s = shm_step (window_stage (stage_map f) a (Stream b)) s"
  using assms by (auto simp: guest_worker_def pipeline_filter_def pipeline_transform_def pipeline_sink_def stage_map_def shm_step_def)

lemma consumer_call:
  assumes l: "linear_pipeline p" and r: "run_state p c h R n s Q" and k: "Suc k < length (sp_stages p)" and lt: "n (Suc k) < n k"
    and hi: "atomics s (h k) = Suc (length (outputs p k (Suc (n (Suc k)))))" and room: "append_pages (stage_output p (Suc k) (n (Suc k))) \<le> bump_room s"
  shows "\<exists>t Q'. guest_worker (st_func (sp_stages p ! Suc k)) (st_arg0 (sp_stages p ! Suc k)) (out_slot p (Suc k)) s = Some (Inr t)
    \<and> run_state p c h R (n(Suc k := Suc (n (Suc k)))) t Q' \<and> bump_room s \<le> bump_room t + append_pages (stage_output p (Suc k) (n (Suc k)))
    \<and> (\<forall>i. Suc i < length (sp_stages p) \<longrightarrow> atomics t (h i) = atomics s (h i))"
proof -
  let ?f = "st_func (sp_stages p ! Suc k)" and ?i = "out_slot p k" and ?sl = "Stream (out_slot p (Suc k))" and ?o = "stage_output p (Suc k) (n (Suc k))"
  let ?m = "n (Suc k)" and ?rs = "Q (Stream (out_slot p k))"
  note d = run_stateD [OF r]
  note lp = linearD [OF l]
  have kd: "k < length (sp_stages p)" using k by simp
  have sl: "?i < STREAM_SLOT_COUNT" "slot_in_range ?sl" using lp(12) [OF kd] lp(12) [OF k] by simp_all
  obtain xs where xs: "outputs p k (n k) = outputs p k (Suc ?m) @ xs" using outputs_prefix [of "Suc ?m" "n k"] lt by auto
  have rs: "?rs = map (Pair ?i) (outputs p k ?m @ stage_output p k ?m @ xs)" using d(4) [OF kd] xs by simp
  have cu: "atomics s (c k) = length (outputs p k ?m)" by (rule d(8) [OF k])
  have we: "window_end (atomics s (h k)) (length ?rs) = length (outputs p k (Suc ?m))" using hi rs by (simp add: window_end_def)
  have wo: "window_of (atomics s (c k)) (atomics s (h k)) ?rs = stage_output p k ?m"
    unfolding window_of_def we cu unfolding rs by (simp add: comp_def)
  have small: "atomics s (c k) < 4294967296" "atomics s (h k) < 4294967296"
    using stores_length8 [OF d(3), of "Stream ?i"] hi cu rs by simp_all
  have "\<exists>t. window_stage (stage_map ?f) ?i ?sl s = Some (Inr t) \<and> reg_inv t \<and> stores t (Q(?sl := Q ?sl @ origin_of ?sl ?o))
    \<and> bump_room s \<le> bump_room t + append_pages ?o \<and> atomics t = (atomics s)(c k := window_end (atomics s (h k)) (length ?rs))
    \<and> registry t = registry s \<and> next_atomic_idx t = next_atomic_idx s \<and> ext t = ext s \<and> mode_flag t = mode_flag s"
    by (rule window_stage_spec [OF d(1,3) sl d(6) [OF k] d(7) [OF disjI2 [OF k]] small])
      (use wo we cu room append_pages_small [OF room] in auto)
  then obtain t where t: "window_stage (stage_map ?f) ?i ?sl s = Some (Inr t)" "reg_inv t" "stores t (Q(?sl := Q ?sl @ origin_of ?sl ?o))"
    "bump_room s \<le> bump_room t + append_pages ?o" "atomics t = (atomics s)(c k := length (outputs p k (Suc ?m)))"
    "registry t = registry s" "next_atomic_idx t = next_atomic_idx s" "ext t = ext s" "mode_flag t = mode_flag s" using we by metis
  have cc: "c i = c k \<longleftrightarrow> i = k" "h i \<noteq> c k" if "Suc i < length (sp_stages p)" for i
  proof -
    have b: "out_slot p i < STREAM_SLOT_COUNT" "i < length (sp_stages p)" using lp(12) [of i] that by simp_all
    have e: "re_name (registry s (c k)) = entry_name (pipe_cursor_name ?i)" "re_name (registry s (c i)) = entry_name (pipe_cursor_name (out_slot p i))"
      "re_name (registry s (h i)) = entry_name (stream_hi_name (out_slot p i))"
      using d(6) [OF k] d(6) [OF that] d(7) [OF disjI2 [OF that]] find_entry_eq(1) [OF d(1)] by blast+
    show "c i = c k \<longleftrightarrow> i = k" using e pipe_entries(1) [OF b(1) sl(1)] lp(11) [OF b(2) kd] by auto
    show "h i \<noteq> c k" using e pipe_entries(3) [OF sl(1) b(1)] by auto
  qed
  have "direct t" using d(2) t(8,9) by (simp add: direct_def)
  moreover have "atomics t (c i) = (if Suc i = Suc k then length (outputs p i (Suc (n (Suc k)))) else atomics s (c i))"
    if "Suc i < length (sp_stages p)" for i using cc(1) [OF that] t(5) by (auto simp del: outputs_Suc)
  ultimately have "run_state p c h R (n(Suc k := Suc (n (Suc k)))) t (Q(?sl := Q ?sl @ map (Pair (out_slot p (Suc k))) ?o))"
    by (intro run_state_append [OF l r k t(2)]) (use t(3,6,7) in \<open>simp_all add: origin_of_def\<close>)
  moreover have "guest_worker ?f (st_arg0 (sp_stages p ! Suc k)) (out_slot p (Suc k)) s = Some (Inr t)"
    unfolding window_worker [OF lp(8) [OF k]] lp(10) [OF k] shm_step_def t(1) by simp
  moreover have "\<forall>i. Suc i < length (sp_stages p) \<longrightarrow> atomics t (h i) = atomics s (h i)" using cc(2) t(5) by simp
  ultimately show ?thesis using t(4) by blast
qed

section \<open>One tick\<close>

lemma each_simps [simp]:
  "each f [] s = Some (Inr s)" "each f (x # xs) s = (case f x s of Some (Inr t) \<Rightarrow> each f xs t | r \<Rightarrow> r)"
  unfolding each_def by (simp_all add: skip_def andthen_def)

definition cmd :: "stream_pipeline_params \<Rightarrow> nat \<times> nat \<Rightarrow> nat \<times> string \<times> nat \<times> nat" where
  "cmd p kr = (case kr of (k, r) \<Rightarrow> (k, st_func (sp_stages p ! k), st_arg0 (sp_stages p ! k), if k = 0 then r else out_slot p k))"

text \<open>A stage may run when its round is complete in its input and published there.\<close>

definition ready :: "stream_pipeline_params \<Rightarrow> (nat \<Rightarrow> nat) \<Rightarrow> (nat \<Rightarrow> nat) \<Rightarrow> 'a arena_scheme \<Rightarrow> nat \<times> nat \<Rightarrow> bool" where
  "ready p h n s kr \<longleftrightarrow> (case kr of (k, r) \<Rightarrow> k < length (sp_stages p) \<and> n k = r \<and> r < sp_rounds p
     \<and> (\<forall>i. k = Suc i \<longrightarrow> r < n i \<and> atomics s (h i) = Suc (length (outputs p i (Suc r)))))"

lemma stage_call:
  assumes l: "linear_pipeline p" and r: "run_state p c h R n s Q" and rd: "ready p h n s (k, rr)" and le: "\<And>i. n i \<le> sp_rounds p"
    and B: "run_pages p (\<lambda>_. sp_rounds p) \<le> B" "B \<le> bump_room s + run_pages p n"
  shows "\<exists>t Q'. (case cmd p (k, rr) of (i, f, a, b) \<Rightarrow> guest_worker f a b) s = Some (Inr t) \<and> run_state p c h R (n(k := Suc (n k))) t Q'
    \<and> B \<le> bump_room t + run_pages p (n(k := Suc (n k))) \<and> (\<forall>i. Suc i < length (sp_stages p) \<longrightarrow> atomics t (h i) = atomics s (h i))"
proof -
  have k: "k < length (sp_stages p)" "n k = rr" "rr < sp_rounds p" using rd by (auto simp: ready_def)
  have "run_pages p (n(k := Suc (n k))) \<le> run_pages p (\<lambda>_. sp_rounds p)" by (rule run_pages_mono) (use le k in auto)
  then have room: "append_pages (stage_output p k (n k)) \<le> bump_room s" using B run_pages_step [OF k(1), of n] by linarith
  have "\<exists>t Q'. (case cmd p (k, rr) of (i, f, a, b) \<Rightarrow> guest_worker f a b) s = Some (Inr t) \<and> run_state p c h R (n(k := Suc (n k))) t Q'
    \<and> bump_room s \<le> bump_room t + append_pages (stage_output p k (n k)) \<and> (\<forall>i. Suc i < length (sp_stages p) \<longrightarrow> atomics t (h i) = atomics s (h i))"
  proof (cases k)
    case 0
    then show ?thesis using source_call [OF l r] room k(2) by (auto simp: cmd_def)
  next
    case (Suc i)
    then have "n (Suc i) < n i" "atomics s (h i) = Suc (length (outputs p i (Suc (n (Suc i)))))" using rd k(2) by (auto simp: ready_def)
    from consumer_call [OF l r _ this] room k Suc show ?thesis by (simp add: cmd_def)
  qed
  then show ?thesis using B(2) run_pages_step [OF k(1), of n] by fastforce
qed

lemma run_commands_spec:
  assumes l: "linear_pipeline p" and "run_state p c h R n s Q" "\<forall>x \<in> set xs. ready p h n s x" "distinct (map fst xs)" "\<And>i. n i \<le> sp_rounds p"
    and B: "run_pages p (\<lambda>_. sp_rounds p) \<le> B" and "B \<le> bump_room s + run_pages p n"
  shows "\<exists>t Q'. run_commands guest_worker (map (cmd p) xs) s = Some (Inr t)
    \<and> run_state p c h R (\<lambda>k. if k \<in> fst ` set xs then Suc (n k) else n k) t Q' \<and> B \<le> bump_room t + run_pages p (\<lambda>k. if k \<in> fst ` set xs then Suc (n k) else n k)"
  using assms(2-5,7)
proof (induction xs arbitrary: n s Q)
  case Nil
  then show ?case by (auto simp: run_commands_def)
next
  case (Cons x xs)
  obtain k rr where x: "x = (k, rr)" by (cases x)
  have rd: "ready p h n s (k, rr)" using Cons.prems(2) x by simp
  let ?n = "n(k := Suc (n k))"
  obtain t Q' where t: "(case cmd p (k, rr) of (i, f, a, b) \<Rightarrow> guest_worker f a b) s = Some (Inr t)" "run_state p c h R ?n t Q'"
    "B \<le> bump_room t + run_pages p ?n" "\<forall>i. Suc i < length (sp_stages p) \<longrightarrow> atomics t (h i) = atomics s (h i)"
    using stage_call [OF l Cons.prems(1) rd Cons.prems(4) B Cons.prems(5)] by blast
  have kr: "n k = rr" "rr < sp_rounds p" using rd by (auto simp: ready_def)
  have "ready p h ?n t y" if "y \<in> set xs" for y
  proof -
    obtain j r where y: "y = (j, r)" by (cases y)
    have "j \<noteq> k" using Cons.prems(3) that x y by force
    moreover have "ready p h n s y" using Cons.prems(2) that by simp
    ultimately show ?thesis using t(4) y by (auto simp: ready_def)
  qed
  then have rds: "\<forall>y \<in> set xs. ready p h ?n t y" by blast
  have le: "?n i \<le> sp_rounds p" for i using Cons.prems(4) kr by auto
  have ds: "distinct (map fst xs)" using Cons.prems(3) by simp
  obtain u Q'' where u: "run_commands guest_worker (map (cmd p) xs) t = Some (Inr u)"
    "run_state p c h R (\<lambda>i. if i \<in> fst ` set xs then Suc (?n i) else ?n i) u Q''"
    "B \<le> bump_room u + run_pages p (\<lambda>i. if i \<in> fst ` set xs then Suc (?n i) else ?n i)"
    using Cons.IH [OF t(2) rds ds le t(3)] by blast
  have "(\<lambda>i. if i \<in> fst ` set xs then Suc (?n i) else ?n i) = (\<lambda>i. if i \<in> fst ` set (x # xs) then Suc (n i) else n i)"
    using Cons.prems(3) x by (auto simp: fun_eq_iff)
  then show ?case using u t(1) x by (auto simp: run_commands_def)
qed

text \<open>The order in which the workers of a tick run does not matter.\<close>

lemma permuted_commands:
  assumes "mset ys = mset (map (cmd p) xs)" "distinct (map fst xs)" "\<forall>x \<in> set xs. snd x = f (fst x)"
  obtains zs where "ys = map (cmd p) zs" "set zs = set xs" "distinct (map fst zs)"
proof
  define g where "g y = (case y of (k, f', a, b) \<Rightarrow> (k, f k))" for y :: "nat \<times> string \<times> nat \<times> nat"
  have gc: "g (cmd p x) = x" if "x \<in> set xs" for x using assms(3) that by (cases x) (force simp: g_def cmd_def)
  have st: "set ys = cmd p ` set xs" using arg_cong [OF assms(1), of set_mset] by simp
  show "ys = map (cmd p) (map g ys)" using st gc by (auto intro!: map_idI [symmetric] simp: comp_def)
  show "set (map g ys) = set xs" using st gc by (force simp: image_iff)
  have "mset (map fst (map g ys)) = image_mset (\<lambda>y. fst (g y)) (mset (map (cmd p) xs))" using assms(1) by (simp add: multiset.map_comp comp_def)
  also have "\<dots> = mset (map (\<lambda>x. fst (g (cmd p x))) xs)" by (simp add: multiset.map_comp comp_def)
  also have "map (\<lambda>x. fst (g (cmd p x))) xs = map fst xs" using gc by (auto intro: map_cong)
  finally show "distinct (map fst (map g ys))" using assms(2) by (metis mset_eq_imp_distinct_iff)
qed

text \<open>Before the commands go out every input of an active stage has its count published.\<close>

lemma width_one:
  assumes l: "linear_pipeline p" and k: "k < length (sp_stages p)"
  shows "active_w (measure_stage ops (sp_stages p ! k) cnt g) = active_w g" "static_width (sp_stages p ! k) = 1"
  using linearD(7) [OF l k] by (auto simp: spawn_w_def static_width_def measure_stage_def is_dyn_def Let_def split: option.splits)

definition input_index :: "nat \<Rightarrow> nat" where
  "input_index k = k - 1"

lemma input_slot:
  assumes l: "linear_pipeline p" and k: "k < length (sp_stages p)"
  shows "st_arg0 (sp_stages p ! k) = out_slot p (input_index k)" "input_index k < length (sp_stages p)"
  using linearD(10) [OF l, of "k - 1"] k by (cases k; simp add: input_index_def out_slot_def)+

lemma prepare_stages_spec:
  assumes l: "linear_pipeline p" and "run_state p c h R n s Q" "\<forall>k \<in> set ks. k < length (sp_stages p)" "\<forall>k < length (sp_stages p). active_w (G k) = 1"
    and hi: "\<forall>i. i = 0 \<or> Suc i < length (sp_stages p) \<longrightarrow> hi (out_slot p i) = Some (h i)"
  shows "\<exists>G' t. prepare_stages ops os (sp_stages p) ci hi ks G s = Some (Inr (G', t)) \<and> run_state p c h R n t Q \<and> (\<forall>k < length (sp_stages p). active_w (G' k) = 1)
    \<and> bump_room t = bump_room s
    \<and> (\<forall>i. Suc i < length (sp_stages p) \<longrightarrow> atomics t (h i) = (if i \<in> input_index ` set ks then Suc (length (outputs p i (n i))) else atomics s (h i)))"
  using assms(2-4)
proof (induction ks arbitrary: G s)
  case Nil
  then show ?case by auto
next
  case (Cons k ks)
  let ?st = "sp_stages p ! k" and ?j = "input_index k"
  have k: "k < length (sp_stages p)" using Cons.prems(2) by simp
  note ins = input_slot [OF l k]
  note d = run_stateD [OF Cons.prems(1)]
  have cnt: "slot_record_count (Stream (st_arg0 ?st)) s = Some (Inr (length (outputs p ?j (n ?j))))"
    using host_readers(2) [OF d(3,2), of "Stream (st_arg0 ?st)"] d(4) [OF ins(2)] linearD(12) [OF l ins(2)] ins(1) by simp
  define g where "g = measure_stage ops ?st (length (outputs p ?j (n ?j))) (G k)"
  define t where "t = (case hi (st_arg0 ?st) of Some i \<Rightarrow> store_atomic i (length (outputs p ?j (n ?j)) + 1) s | None \<Rightarrow> s)"
  have g: "active_w g = 1" unfolding g_def width_one(1) [OF l k] using Cons.prems(3) k by blast
  have step: "prepare_stages ops os (sp_stages p) ci hi (k # ks) G s = prepare_stages ops os (sp_stages p) ci hi ks (G(k := g)) t"
    using cnt g by (simp add: g_def [symmetric] publish_def t_def Let_def)
  have fe: "find_entry key t = find_entry key s" for key by (simp add: t_def store_atomic_def split: option.split)
  have inp: "?j = 0 \<or> Suc ?j < length (sp_stages p)" using k by (cases k) (simp_all add: input_index_def)
  have idx: "j < next_atomic_idx s" "re_name (registry s j) = entry_name (stream_hi_name (out_slot p ?j))" if "hi (st_arg0 ?st) = Some j" for j
    using d(7) [OF inp] hi inp that find_entry_eq(1) [OF d(1)] ins(1) by auto
  have hk: "atomics t (h i) = (if i = ?j then Suc (length (outputs p i (n i))) else atomics s (h i))" if i: "Suc i < length (sp_stages p)" for i
  proof (cases "i = ?j")
    case True
    then show ?thesis using hi i ins(1) by (simp add: t_def store_atomic_def)
  next
    case False
    have "re_name (registry s (h i)) = entry_name (stream_hi_name (out_slot p i))" using d(7) [OF disjI2 [OF i]] find_entry_eq(1) [OF d(1)] by blast
    then have "h i \<noteq> j" if "hi (st_arg0 ?st) = Some j" for j
      using idx(2) [OF that] False i ins(2) pipe_entries(2) [of "out_slot p i" "out_slot p ?j"] linearD(11,12) [OF l] by auto
    then show ?thesis using False by (simp add: t_def store_atomic_def split: option.split)
  qed
  have ck: "atomics t (c i) = atomics s (c i)" if i: "Suc i < length (sp_stages p)" for i
  proof -
    have "re_name (registry s (c i)) = entry_name (pipe_cursor_name (out_slot p i))" using d(6) [OF i] find_entry_eq(1) [OF d(1)] by blast
    then have "c i \<noteq> j" if "hi (st_arg0 ?st) = Some j" for j
      using idx(2) [OF that] i ins(2) pipe_entries(3) [of "out_slot p i" "out_slot p ?j"] linearD(12) [OF l] by auto
    then show ?thesis by (simp add: t_def store_atomic_def split: option.split)
  qed
  have "reg_inv t" using d(1) idx(1) by (auto simp: t_def store_atomic_def reg_inv_def split: option.split)
  moreover have "stores t Q" using d(3) stores_frame [of t s Q] by (simp add: t_def store_atomic_def split: option.split)
  moreover have "bump_room t = bump_room s" "direct t" using d(2) by (simp_all add: t_def store_atomic_def bump_room_def direct_def split: option.split)
  ultimately have rt: "run_state p c h R n t Q" "bump_room t = bump_room s"
    using Cons.prems(1) ck unfolding run_state_def fe by auto
  have "\<exists>G' u. prepare_stages ops os (sp_stages p) ci hi ks (G(k := g)) t = Some (Inr (G', u)) \<and> run_state p c h R n u Q \<and> (\<forall>k < length (sp_stages p). active_w (G' k) = 1)
    \<and> bump_room u = bump_room t
    \<and> (\<forall>i. Suc i < length (sp_stages p) \<longrightarrow> atomics u (h i) = (if i \<in> input_index ` set ks then Suc (length (outputs p i (n i))) else atomics t (h i)))"
    by (rule Cons.IH [OF rt(1)]) (use Cons.prems(2,3) g in auto)
  then show ?case unfolding step using hk rt(2) by auto
qed

lemma commands_linear:
  assumes l: "linear_pipeline p" and w: "\<forall>k < length (sp_stages p). width k = 1"
  shows "commands (sp_stages p) width (stage_args p t) = map (cmd p) (active_stages (length (sp_stages p)) (sp_rounds p) t)"
    "map fst (stage_args p t) = map fst (active_stages (length (sp_stages p)) (sp_rounds p) t)"
proof -
  have a: "stage_arg (length (sp_stages p)) None (st_arg1 (sp_stages p ! k)) k r = (if k = 0 then r else out_slot p k)"
    if "(k, r) \<in> set (active_stages (length (sp_stages p)) (sp_rounds p) t)" for k r
  proof -
    have k: "k < length (sp_stages p)" "r < 4294967296" using that linearD(4) [OF l] by (simp_all add: active_stages_iff)
    then show ?thesis using linearD(6,9) [OF l] by (cases k) (simp_all add: stage_arg_def)
  qed
  have "concat (map (\<lambda>x. [f x]) xs) = map f xs" for f :: "nat \<times> nat \<Rightarrow> nat \<times> string \<times> nat \<times> nat" and xs by (induction xs) auto
  moreover have "width (fst x) = 1" if "x \<in> set (active_stages (length (sp_stages p)) (sp_rounds p) t)" for x using w that by (auto simp: active_stages_def)
  ultimately show "commands (sp_stages p) width (stage_args p t) = map (cmd p) (active_stages (length (sp_stages p)) (sp_rounds p) t)"
    using a linearD(3) [OF l] by (auto simp: commands_def stage_args_def buf_slot_def Let_def comp_def case_prod_unfold cmd_def cong: map_cong)
  show "map fst (stage_args p t) = map fst (active_stages (length (sp_stages p)) (sp_rounds p) t)"
    by (simp add: stage_args_def Let_def comp_def case_prod_unfold)
qed

lemma pipeline_tick_spec:
  assumes l: "linear_pipeline p" and r: "run_state p c h R (rounds_done (sp_rounds p) t) s Q" and G: "\<forall>k < length (sp_stages p). active_w (G k) = 1"
    and hi: "\<forall>i. i = 0 \<or> Suc i < length (sp_stages p) \<longrightarrow> hi (out_slot p i) = Some (h i)" and sched: "\<forall>t xs. mset (sched t xs) = mset xs"
    and B: "run_pages p (\<lambda>_. sp_rounds p) \<le> B" "B \<le> bump_room s + run_pages p (rounds_done (sp_rounds p) t)"
  shows "\<exists>G' u Q'. pipeline_tick ops os mesh sched guest_worker p ci hi t (G, x) s = Some (Inr ((G', x), u)) \<and> (\<forall>k < length (sp_stages p). active_w (G' k) = 1)
    \<and> run_state p c h R (rounds_done (sp_rounds p) (Suc t)) u Q' \<and> B \<le> bump_room u + run_pages p (rounds_done (sp_rounds p) (Suc t))"
proof -
  let ?n = "rounds_done (sp_rounds p) t" and ?A = "active_stages (length (sp_stages p)) (sp_rounds p) t"
  have ks: "\<forall>k \<in> set (map fst (stage_args p t)). k < length (sp_stages p)"
    by (auto simp: stage_args_def active_stages_def Let_def)
  obtain G' v where v: "prepare_stages ops os (sp_stages p) ci hi (map fst (stage_args p t)) G s = Some (Inr (G', v))" "run_state p c h R ?n v Q"
    "\<forall>k < length (sp_stages p). active_w (G' k) = 1" "bump_room v = bump_room s"
    "\<And>i. Suc i < length (sp_stages p) \<Longrightarrow> atomics v (h i) = (if i \<in> input_index ` set (map fst (stage_args p t)) then Suc (length (outputs p i (?n i))) else atomics s (h i))"
    using prepare_stages_spec [OF l r ks G hi, where ops = ops and os = os and ci = ci] by blast
  have rd: "ready p h ?n v x" if "x \<in> set ?A" for x
  proof -
    obtain k rr where x: "x = (k, rr)" by (cases x)
    then have k: "k < length (sp_stages p)" "rr < sp_rounds p" "t = k + rr" using that by (simp_all add: active_stages_iff)
    have "rr < ?n i \<and> atomics v (h i) = Suc (length (outputs p i (Suc rr)))" if i: "k = Suc i" for i
    proof -
      have n: "?n i = Suc rr" using k i by (simp add: rounds_done_def)
      have "k \<in> set (map fst (stage_args p t))" unfolding commands_linear(2) [OF l v(3)] using that x \<open>x \<in> set ?A\<close> by force
      then have "i \<in> input_index ` set (map fst (stage_args p t))" using i by (force simp: input_index_def)
      then show ?thesis using v(5) [of i] k(1) i n by (simp del: outputs_Suc)
    qed
    then show ?thesis using k x by (auto simp: ready_def rounds_done_def)
  qed
  obtain zs where zs: "sched t (commands (sp_stages p) (\<lambda>i. active_w (G' i)) (stage_args p t)) = map (cmd p) zs" "set zs = set ?A" "distinct (map fst zs)"
    using permuted_commands [of "sched t (commands (sp_stages p) (\<lambda>i. active_w (G' i)) (stage_args p t))" p ?A "\<lambda>k. t - k"]
      sched distinct_active commands_linear(1) [OF l v(3)] by (force simp: active_stages_def)
  have le: "?n i \<le> sp_rounds p" for i by (simp add: rounds_done_def)
  obtain u Q' where u: "run_commands guest_worker (map (cmd p) zs) v = Some (Inr u)"
    "run_state p c h R (\<lambda>k. if k \<in> fst ` set zs then Suc (?n k) else ?n k) u Q'" "B \<le> bump_room u + run_pages p (\<lambda>k. if k \<in> fst ` set zs then Suc (?n k) else ?n k)"
    using run_commands_spec [OF l v(2) _ zs(3) le B(1)] rd zs(2) B(2) v(4) by auto
  have z: "fst ` set zs = {k. k < length (sp_stages p) \<and> k \<le> t \<and> t - k < sp_rounds p}" unfolding zs(2) by (force simp: active_stages_def)
  have ag: "run_state p c h R n1 u Q' = run_state p c h R n2 u Q'" "run_pages p n1 = run_pages p n2" if "\<And>k. k < length (sp_stages p) \<Longrightarrow> n1 k = n2 k" for n1 n2
    using that by (auto simp: run_state_def run_pages_def)
  have nn: "(if k \<in> fst ` set zs then Suc (?n k) else ?n k) = rounds_done (sp_rounds p) (Suc t) k" if "k < length (sp_stages p)" for k
    unfolding z rounds_done_step using that by simp
  have ga: "gather_all os (\<lambda>i. active_w (G' i)) (stage_args p t) u = Some (Inr u)"
  proof -
    have "each (\<lambda>(k, a). if active_w (G' k) = 1 then skip else gather_widened_output os k (active_w (G' k)) a) xs u = Some (Inr u)"
      if "\<forall>x \<in> set xs. active_w (G' (fst x)) = 1" for xs :: "(nat \<times> nat) list"
      using that by (induction xs) (auto simp: skip_def split: prod.splits)
    moreover have "\<forall>x \<in> set (stage_args p t). active_w (G' (fst x)) = 1" using v(3) ks by auto
    ultimately show ?thesis by (simp add: gather_all_def)
  qed
  have "pipeline_tick ops os mesh sched guest_worker p ci hi t (G, x) s = Some (Inr ((G', x), u))"
    using v(1) u(1) zs(1) ga linearD(2,3) [OF l]
    by (simp add: pipeline_tick_def Let_def with_state_def recv_phase_def send_phase_def prefetch_phase_def andthen_def)
  then show ?thesis using v(3) u(2,3) ag [OF nn] by auto
qed

lemma run_ticks_spec:
  assumes l: "linear_pipeline p" and hi: "\<forall>i. i = 0 \<or> Suc i < length (sp_stages p) \<longrightarrow> hi (out_slot p i) = Some (h i)"
    and sched: "\<forall>t xs. mset (sched t xs) = mset xs" and B: "run_pages p (\<lambda>_. sp_rounds p) \<le> B"
    and "run_state p c h R (rounds_done (sp_rounds p) t) s Q" "\<forall>k < length (sp_stages p). active_w (G k) = 1" "B \<le> bump_room s + run_pages p (rounds_done (sp_rounds p) t)"
  shows "\<exists>G' u Q'. run_ticks (pipeline_tick ops os mesh sched guest_worker p ci hi) [t..<t + m] (G, x) s = Some (Inr ((G', x), u))
    \<and> run_state p c h R (rounds_done (sp_rounds p) (t + m)) u Q'"
  using assms(5-7)
proof (induction m arbitrary: t s Q G)
  case (Suc m)
  obtain G' v Q' where v: "pipeline_tick ops os mesh sched guest_worker p ci hi t (G, x) s = Some (Inr ((G', x), v))" "\<forall>k < length (sp_stages p). active_w (G' k) = 1"
    "run_state p c h R (rounds_done (sp_rounds p) (Suc t)) v Q'" "B \<le> bump_room v + run_pages p (rounds_done (sp_rounds p) (Suc t))"
    using pipeline_tick_spec [OF l Suc.prems(1,2) hi sched B Suc.prems(3), where ops = ops and os = os and mesh = mesh and ci = ci and x = x] by blast
  have "[t..<t + Suc m] = t # [Suc t..<Suc t + m]" by (simp add: upt_rec)
  then show ?case using Suc.IH [OF v(3,2,4)] v(1) by (simp add: with_state_def del: upt_Suc)
qed auto

section \<open>The atomics of a run\<close>

lemma resolved_mono:
  assumes i: "reg_inv s" and r: "resolved name s k t" and f: "find_entry key s = Some j"
  shows "find_entry key t = Some j"
proof -
  have "j < next_atomic_idx s" "re_name (registry s j) = key" using f find_entry_eq(1) [OF i] by auto
  then show ?thesis using r find_entry_eq(1) [of t key j] by (auto simp: resolved_def)
qed

lemma zero_named:
  assumes i: "reg_inv s" and c: "next_atomic_idx s < REGISTRY_ENTRIES"
  shows "\<exists>k t. register_or_get_atomic name s = Inr (k, t) \<and> reg_inv (store_atomic k 0 t) \<and> next_atomic_idx (store_atomic k 0 t) \<le> Suc (next_atomic_idx s)
    \<and> find_entry (entry_name name) (store_atomic k 0 t) = Some k \<and> (\<forall>key j. find_entry key s = Some j \<longrightarrow> find_entry key (store_atomic k 0 t) = Some j)
    \<and> (\<forall>j. atomics s j = 0 \<longrightarrow> atomics (store_atomic k 0 t) j = 0) \<and> atomics (store_atomic k 0 t) k = 0
    \<and> (\<forall>R. stores (store_atomic k 0 t) R = stores s R) \<and> bump_room (store_atomic k 0 t) = bump_room s \<and> direct (store_atomic k 0 t) = direct s"
proof -
  have "\<exists>k t. host_resolve_atomic name s = Inr (k, t)"
    using assms by (auto simp: host_resolve_atomic_def reg_inv_def Let_def split: option.split)
  then obtain k t where t: "host_resolve_atomic name s = Inr (k, t)" by blast
  note r = host_resolve_spec(1) [OF i t]
  have k: "reg_inv t" "k < next_atomic_idx t" "next_atomic_idx t \<le> Suc (next_atomic_idx s)" using r by (auto simp: resolved_def)
  obtain rr n ca where e: "t = s\<lparr>registry := rr, next_atomic_idx := n, name_cache := ca\<rparr>" using r by (auto simp: resolved_def)
  have fe: "find_entry key (store_atomic k 0 t) = find_entry key t" for key by (simp add: store_atomic_def)
  have "reg_inv (store_atomic k 0 t)" using k by (auto simp: reg_inv_def store_atomic_def)
  moreover have "stores (store_atomic k 0 t) R = stores s R" for R
    using stores_frame [of "store_atomic k 0 t" t R] resolved_keeps(1) [OF r] by (simp add: store_atomic_def)
  ultimately show ?thesis using t k(3) resolved_find(1) [OF i r] resolved_mono [OF i r] resolved_keeps(2,3) [OF r]
    by (intro exI [of _ k] exI [of _ t]) (simp add: register_or_get_atomic_def fe, simp add: store_atomic_def e direct_def bump_room_def)
qed

lemma init_atomics_spec:
  assumes "reg_inv s" "next_atomic_idx s + 2 * length slots \<le> REGISTRY_ENTRIES"
  shows "\<exists>ci hi t. init_atomics slots ci0 hi0 s = Inr (ci, hi, t) \<and> reg_inv t \<and> (\<forall>R. stores t R = stores s R) \<and> bump_room t = bump_room s \<and> direct t = direct s
    \<and> (\<forall>key j. find_entry key s = Some j \<longrightarrow> find_entry key t = Some j) \<and> (\<forall>j. atomics s j = 0 \<longrightarrow> atomics t j = 0)
    \<and> (\<forall>slot. slot \<notin> set slots \<longrightarrow> ci slot = ci0 slot \<and> hi slot = hi0 slot)
    \<and> (\<forall>slot \<in> set slots. \<exists>c h. ci slot = Some c \<and> hi slot = Some h \<and> find_entry (entry_name (pipe_cursor_name slot)) t = Some c
          \<and> find_entry (entry_name (stream_hi_name slot)) t = Some h \<and> atomics t c = 0)"
  using assms
proof (induction slots arbitrary: s ci0 hi0)
  case (Cons slot slots)
  have n: "next_atomic_idx s < REGISTRY_ENTRIES" using Cons.prems(2) by simp
  obtain c s1 where c: "register_or_get_atomic (pipe_cursor_name slot) s = Inr (c, s1)" "reg_inv (store_atomic c 0 s1)"
    "next_atomic_idx (store_atomic c 0 s1) \<le> Suc (next_atomic_idx s)" "find_entry (entry_name (pipe_cursor_name slot)) (store_atomic c 0 s1) = Some c"
    "\<forall>key j. find_entry key s = Some j \<longrightarrow> find_entry key (store_atomic c 0 s1) = Some j" "\<forall>j. atomics s j = 0 \<longrightarrow> atomics (store_atomic c 0 s1) j = 0"
    "atomics (store_atomic c 0 s1) c = 0" "\<forall>R. stores (store_atomic c 0 s1) R = stores s R" "bump_room (store_atomic c 0 s1) = bump_room s"
    "direct (store_atomic c 0 s1) = direct s"
    using zero_named [OF Cons.prems(1) n, of "pipe_cursor_name slot"] by blast
  define s1' where "s1' = store_atomic c 0 s1"
  note c = c [folded s1'_def]
  have n1: "next_atomic_idx s1' < REGISTRY_ENTRIES" using c(3) Cons.prems(2) by simp
  obtain h s2 where h: "register_or_get_atomic (stream_hi_name slot) s1' = Inr (h, s2)" "reg_inv (store_atomic h 0 s2)"
    "next_atomic_idx (store_atomic h 0 s2) \<le> Suc (next_atomic_idx s1')" "find_entry (entry_name (stream_hi_name slot)) (store_atomic h 0 s2) = Some h"
    "\<forall>key j. find_entry key s1' = Some j \<longrightarrow> find_entry key (store_atomic h 0 s2) = Some j" "\<forall>j. atomics s1' j = 0 \<longrightarrow> atomics (store_atomic h 0 s2) j = 0"
    "atomics (store_atomic h 0 s2) h = 0" "\<forall>R. stores (store_atomic h 0 s2) R = stores s1' R" "bump_room (store_atomic h 0 s2) = bump_room s1'"
    "direct (store_atomic h 0 s2) = direct s1'"
    using zero_named [OF c(2) n1, of "stream_hi_name slot"] by blast
  define s2' where "s2' = store_atomic h 0 s2"
  note h = h [folded s2'_def]
  have n2: "next_atomic_idx s2' + 2 * length slots \<le> REGISTRY_ENTRIES" using c(3) h(3) Cons.prems(2) by simp
  obtain ci hi t where t: "init_atomics slots (ci0(slot \<mapsto> c)) (hi0(slot \<mapsto> h)) s2' = Inr (ci, hi, t)" "reg_inv t" "\<forall>R. stores t R = stores s2' R"
    "bump_room t = bump_room s2'" "direct t = direct s2'" "\<forall>key j. find_entry key s2' = Some j \<longrightarrow> find_entry key t = Some j" "\<forall>j. atomics s2' j = 0 \<longrightarrow> atomics t j = 0"
    "\<forall>sl. sl \<notin> set slots \<longrightarrow> ci sl = (ci0(slot \<mapsto> c)) sl \<and> hi sl = (hi0(slot \<mapsto> h)) sl"
    "\<forall>sl \<in> set slots. \<exists>c h. ci sl = Some c \<and> hi sl = Some h \<and> find_entry (entry_name (pipe_cursor_name sl)) t = Some c
          \<and> find_entry (entry_name (stream_hi_name sl)) t = Some h \<and> atomics t c = 0"
    using Cons.IH [OF h(2) n2] by blast
  have here: "find_entry (entry_name (pipe_cursor_name slot)) t = Some c" "find_entry (entry_name (stream_hi_name slot)) t = Some h" "atomics t c = 0"
    using c(4,7) h(4,5,6) t(6,7) by auto
  show ?case
  proof (intro exI conjI)
    show "init_atomics (slot # slots) ci0 hi0 s = Inr (ci, hi, t)" using c(1) h(1) t(1) by (simp add: s1'_def s2'_def)
    show "\<forall>sl \<in> set (slot # slots). \<exists>c h. ci sl = Some c \<and> hi sl = Some h \<and> find_entry (entry_name (pipe_cursor_name sl)) t = Some c
          \<and> find_entry (entry_name (stream_hi_name sl)) t = Some h \<and> atomics t c = 0"
      using t(8,9) here by (cases "slot \<in> set slots") auto
  qed (use c h t in auto)
qed auto

section \<open>Properties\<close>

text \<open>
  C9. Rounds stay apart. A pipeline of a source and consumer stages, each reading the slot that the one before it
  writes, run tick by tick with the workers of every tick in any order, always ends, and every slot then
  holds exactly the outputs of its stage, round by round in order, each computed from the output of the stage before
  it in the same round alone, as if the rounds had run one after the other; all other slots keep their records.
\<close>

theorem pipeline_rounds_separate:
  assumes l: "linear_pipeline p" and st: "stores s R" "direct s" "reg_inv s" and n: "next_atomic_idx s + 2 * length (sp_stages p) \<le> REGISTRY_ENTRIES"
    and empty: "\<And>i. i < length (sp_stages p) \<Longrightarrow> R (Stream (out_slot p i)) = []" and sched: "\<forall>t xs. mset (sched t xs) = mset xs"
    and room: "run_pages p (\<lambda>_. sp_rounds p) \<le> bump_room s"
  shows "\<exists>t Q. execute_stream_pipeline ops os mesh sched guest_worker (\<lambda>_. skip) p s = Some (Inr t) \<and> stores t Q
    \<and> (\<forall>i < length (sp_stages p). Q (Stream (out_slot p i)) = map (Pair (out_slot p i)) (concat (map (stage_output p i) [0..<sp_rounds p])))
    \<and> (\<forall>sl. sl \<notin> (\<lambda>i. Stream (out_slot p i)) ` {..<length (sp_stages p)} \<longrightarrow> Q sl = R sl)"
proof -
  let ?d = "length (sp_stages p)" and ?slots = "map st_arg0 (sp_stages p)"
  note lp = linearD [OF l]
  obtain ci hi s1 where i: "init_atomics ?slots Map.empty Map.empty s = Inr (ci, hi, s1)" "reg_inv s1" "stores s1 R" "bump_room s1 = bump_room s" "direct s1"
    "\<forall>slot \<in> set ?slots. \<exists>c h. ci slot = Some c \<and> hi slot = Some h \<and> find_entry (entry_name (pipe_cursor_name slot)) s1 = Some c
          \<and> find_entry (entry_name (stream_hi_name slot)) s1 = Some h \<and> atomics s1 c = 0"
    using init_atomics_spec [OF st(3), of ?slots Map.empty Map.empty] n st(1,2) by auto
  have inp: "out_slot p k \<in> set ?slots" if "k = 0 \<or> Suc k < ?d" for k
  proof -
    have "out_slot p k = st_arg0 (sp_stages p ! (if k = 0 then 0 else Suc k))" "(if k = 0 then 0 else Suc k) < ?d"
      using that lp(1) lp(10) [of k] by (auto simp: out_slot_def)
    then show ?thesis by simp
  qed
  define c h where "c k = the (ci (out_slot p k))" and "h k = the (hi (out_slot p k))" for k
  have ch: "hi (out_slot p k) = Some (h k)" "find_entry (entry_name (pipe_cursor_name (out_slot p k))) s1 = Some (c k)"
    "find_entry (entry_name (stream_hi_name (out_slot p k))) s1 = Some (h k)" "atomics s1 (c k) = 0" if "k = 0 \<or> Suc k < ?d" for k
    using bspec [OF i(6) inp [OF that]] by (auto simp: c_def h_def)
  have z: "rounds_done (sp_rounds p) 0 = (\<lambda>_. 0)" by (auto simp: rounds_done_def)
  have rs: "run_state p c h R (rounds_done (sp_rounds p) 0) s1 R"
    unfolding z run_state_def using i(2,3,5) empty ch by auto
  have w: "\<forall>k < ?d. active_w (gauge_init ops (sp_stages p ! k)) = 1" using width_one(2) [OF l] by (simp add: gauge_init_def)
  have b: "bump_room s \<le> bump_room s1 + run_pages p (rounds_done (sp_rounds p) 0)" using i(4) by simp
  have hi: "\<forall>k. k = 0 \<or> Suc k < ?d \<longrightarrow> hi (out_slot p k) = Some (h k)" using ch(1) by blast
  let ?x = "\<lparr>pending_recv = False, pending_send = None\<rparr>"
  obtain G u Q where u: "run_ticks (pipeline_tick ops os mesh sched guest_worker p ci hi) [0..<0 + total_ticks ?d (sp_rounds p)]
      (\<lambda>k. gauge_init ops (sp_stages p ! k), ?x) s1 = Some (Inr ((G, ?x), u))"
    "run_state p c h R (rounds_done (sp_rounds p) (0 + total_ticks ?d (sp_rounds p))) u Q"
    using run_ticks_spec [OF l hi sched room rs w b, where ops = ops and os = os and mesh = mesh and ci = ci and m = "total_ticks ?d (sp_rounds p)" and x = ?x]
    by blast
  have full: "rounds_done (sp_rounds p) (total_ticks ?d (sp_rounds p)) k = sp_rounds p" if "k < ?d" for k
    using that by (simp add: rounds_done_def total_ticks_def)
  have "foldr max (map spawn_w xs) 0 \<le> 1" if "list_all (\<lambda>st. spawn_w st = 1) xs" for xs using that by (induction xs) auto
  then have "\<not> 1 < foldr max (map spawn_w (sp_stages p)) 0" using l unfolding linear_pipeline_def by (meson not_less)
  then have "execute_stream_pipeline ops os mesh sched guest_worker (\<lambda>_. skip) p s = Some (Inr u)"
    using i(1) u(1) lp(1,3) by (simp add: execute_stream_pipeline_def with_state_def final_join_def andthen_def skip_def Let_def split: option.split)
  moreover have "Q sl = R sl" if "sl \<notin> (\<lambda>i. Stream (out_slot p i)) ` {..<?d}" for sl
    using run_stateD(5) [OF u(2)] that by (metis imageI lessThan_iff)
  ultimately show ?thesis using run_stateD(3,4) [OF u(2)] full by (intro exI [of _ u] exI [of _ Q]) (simp add: outputs_def)
qed

definition demo_stage :: "string \<Rightarrow> nat \<Rightarrow> nat option \<Rightarrow> stream_pipeline_stage" where
  "demo_stage f a b = \<lparr>st_func = f, st_arg0 = a, st_arg1 = b, st_width = None, st_max_width = None\<rparr>"

definition demo_pipeline :: stream_pipeline_params where
  "demo_pipeline = \<lparr>sp_rounds = 2, sp_stages = [demo_stage ''pipeline_source_var'' 200 None, demo_stage ''pipeline_filter'' 200 (Some 201),
     demo_stage ''pipeline_transform'' 201 (Some 202), demo_stage ''pipeline_sink'' 202 (Some 203)], sp_rdma_recv = None, sp_rdma_send = None\<rparr>"

lemma demo_linear: "linear_pipeline demo_pipeline"
  by (simp add: linear_pipeline_def demo_pipeline_def demo_stage_def out_slot_def spawn_w_def static_width_def upt_rec layout_consts)

text \<open>Records of the stages are short, so that each takes at most one page.\<close>

lemma show_u32: "n < 4294967296 \<Longrightarrow> length (show_nat n) \<le> 10"
  using show_nat_length [of n 9] by simp

lemma source_record_small: "r < 4294967296 \<Longrightarrow> i < 4294967296 \<Longrightarrow> length (source_record r i) \<le> 45"
  using show_u32 [of r] show_u32 [of i] show_u32 [of "wrap32 (wrap32 (r * 1000) + i)"] by (simp add: source_record_def ascii_def pad_def)

lemma summary_small: "pl \<in> set (summary rcs) \<Longrightarrow> length pl \<le> 60" "length (summary rcs) \<le> 1"
proof -
  have "length (show_nat (sum_list (map record_value rcs) mod 18446744073709551616)) \<le> 20"
    using show_nat_length [of "sum_list (map record_value rcs) mod 18446744073709551616" 19] by (simp add: mod_less_divisor [THEN less_trans])
  then show "pl \<in> set (summary rcs) \<Longrightarrow> length pl \<le> 60" "length (summary rcs) \<le> 1"
    using show_u32 [of "wrap32 (length rcs)"] by (auto simp: summary_def ascii_def split: if_splits)
qed

lemma stage_output_small:
  assumes "r < 4294967296"
  shows "pl \<in> set (stage_output p s r) \<Longrightarrow> length pl \<le> 60 + 2 * s" "length (stage_output p s r) \<le> 40"
proof -
  have "[4, 4, 40, 40, 40, 4, 4] ! (r mod 7) \<le> (40 :: nat)"
  proof -
    have "r mod 7 = 0 \<or> r mod 7 = 1 \<or> r mod 7 = 2 \<or> r mod 7 = 3 \<or> r mod 7 = 4 \<or> r mod 7 = 5 \<or> r mod 7 = 6" by presburger
    then show ?thesis by (auto simp: nth_Cons')
  qed
  then have "(\<forall>pl \<in> set (stage_output p s r). length pl \<le> 60 + 2 * s) \<and> length (stage_output p s r) \<le> 40"
  proof (induction s)
    case 0
    have "length (source_record r i) \<le> 60" if "i < 40" for i using source_record_small [OF assms, of i] that by simp
    then show ?case using 0 by (auto simp: source_of_def source_batch_def var_batch_def PIPELINE_BATCH_def)
  next
    case (Suc s)
    let ?xs = "stage_output p s r"
    have 1: "\<forall>pl \<in> set ?xs. length pl \<le> 60 + 2 * s" "length ?xs \<le> 40" using Suc by auto
    have "length pl \<le> 60 + 2 * Suc s" if "pl \<in> set (stage_map f ?xs)" for f pl
      using that 1(1) summary_small(1) [of pl ?xs] by (fastforce simp: stage_map_def ascii_def split: if_splits)
    moreover have "length (stage_map f ?xs) \<le> 40" for f
      using 1(2) summary_small(2) [of ?xs] length_filter_le [of keep_record ?xs] by (auto simp: stage_map_def simp del: length_filter_le)
    ultimately show ?case by simp
  qed
  then show "pl \<in> set (stage_output p s r) \<Longrightarrow> length pl \<le> 60 + 2 * s" "length (stage_output p s r) \<le> 40" by blast+
qed

lemma run_pages_bound:
  assumes "length (sp_stages p) \<le> 1000" "rounds < 4294967296"
  shows "run_pages p (\<lambda>_. rounds) \<le> length (sp_stages p) * rounds * 40"
proof -
  have one: "append_pages pls \<le> length pls" if "\<forall>pl \<in> set pls. length pl \<le> 3000" for pls
    using that by (induction pls) (auto simp: append_pages_def pages_for_def layout_consts)
  have "append_pages (outputs p s n) \<le> n * 40" if "s < length (sp_stages p)" "n \<le> rounds" for s n
    using that(2)
  proof (induction n)
    case (Suc n)
    have "\<forall>pl \<in> set (stage_output p s n). length pl \<le> 3000" using stage_output_small(1) [of n _ p s] Suc.prems that(1) assms by fastforce
    then show ?case using Suc one [of "stage_output p s n"] stage_output_small(2) [of n p s] assms(2) by simp
  qed simp
  then have "run_pages p (\<lambda>_. rounds) \<le> (\<Sum>s < length (sp_stages p). rounds * 40)" unfolding run_pages_def by (intro sum_mono) simp
  then show ?thesis by simp
qed

theorem pipeline_rounds_separate_witness:
  "\<exists>t Q. execute_stream_pipeline (undefined :: nat f64_ops) willing_os None (\<lambda>_. rev) guest_worker (\<lambda>_. skip) demo_pipeline fresh_arena = Some (Inr t)
    \<and> stores t Q \<and> Q (Stream 203) = map (Pair 203) (summary (stage_output demo_pipeline 2 0) @ summary (stage_output demo_pipeline 2 1))"
proof -
  have d: "direct fresh_arena" by (simp add: direct_def fresh_arena_sel extended_pool_new_def)
  have pg: "run_pages demo_pipeline (\<lambda>_. sp_rounds demo_pipeline) \<le> bump_room fresh_arena"
    using run_pages_bound [of demo_pipeline 2] by (simp add: fresh_arena_inv(3)) (simp add: demo_pipeline_def)
  have nx: "next_atomic_idx fresh_arena + 2 * length (sp_stages demo_pipeline) \<le> REGISTRY_ENTRIES"
    by (simp add: fresh_arena_sel REGISTRY_ENTRIES demo_pipeline_def)
  obtain t Q where t: "execute_stream_pipeline (undefined :: nat f64_ops) willing_os None (\<lambda>_. rev) guest_worker (\<lambda>_. skip) demo_pipeline fresh_arena = Some (Inr t)"
    "stores t Q" "\<forall>i < length (sp_stages demo_pipeline). Q (Stream (out_slot demo_pipeline i))
      = map (Pair (out_slot demo_pipeline i)) (concat (map (stage_output demo_pipeline i) [0..<sp_rounds demo_pipeline]))"
    using pipeline_rounds_separate [OF demo_linear fresh_arena_inv(2) d fresh_arena_inv(1) nx refl _ pg,
        where sched = "\<lambda>_. rev" and ops = "undefined :: nat f64_ops" and os = willing_os and mesh = None] by auto
  have s: "stage_output demo_pipeline 3 r = summary (stage_output demo_pipeline 2 r)" for r
    by (simp add: numeral_3_eq_3 numeral_2_eq_2 stage_map_def) (simp add: demo_pipeline_def demo_stage_def)
  have "length (sp_stages demo_pipeline) = 4" "out_slot demo_pipeline 3 = 203" "[0..<sp_rounds demo_pipeline] = [0, 1]"
    by (simp_all add: demo_pipeline_def demo_stage_def out_slot_def upt_rec)
  then have "Q (Stream 203) = map (Pair 203) (summary (stage_output demo_pipeline 2 0) @ summary (stage_output demo_pipeline 2 1))"
    using t(3) [rule_format, of 3] s by simp
  then show ?thesis using t(1,2) by blast
qed

end
