(* ===== verification/Texts.thy ===== *)
theory Texts
  imports Stages
begin

text \<open>
  The text operations of the standard library that the workloads and the shard merger use: characters of a UTF-8 text,
  white space, trimming, splitting, prefixes and lines. A text is a list of bytes, a character the list of its bytes.
\<close>

section \<open>Characters\<close>

function chars_of :: "byte list \<Rightarrow> byte list list" where
  "chars_of bs = (if bs = [] then [] else take (snd (utf8_next bs)) bs # chars_of (drop (snd (utf8_next bs)) bs))"
  by pat_completeness auto
termination by (relation "measure length") (auto simp: utf8_next_pos)

declare chars_of.simps [simp del]

lemma chars_of_Nil [simp]: "chars_of [] = []"
  by (simp add: chars_of.simps)

lemma concat_chars [simp]: "concat (chars_of bs) = bs"
  by (induction bs rule: chars_of.induct) (subst chars_of.simps, auto)

lemma chars_ascii: "\<forall>b \<in> set bs. b < 0x80 \<Longrightarrow> chars_of (bs @ cs) = map (\<lambda>b. [b]) bs @ chars_of cs"
  by (induction bs) (simp, subst chars_of.simps, simp add: utf8_next_def)

lemma valid_ascii: "\<forall>b \<in> set bs. b < 0x80 \<Longrightarrow> utf8_valid (bs @ cs) = utf8_valid cs"
  by (induction bs) (simp, subst utf8_valid.simps, simp add: utf8_next_def)

text \<open>The characters with the property \<open>White_Space\<close>: nine in ASCII and Latin-1, the rest by their encodings.\<close>

definition is_whitespace :: "byte list \<Rightarrow> bool" where
  "is_whitespace c \<longleftrightarrow>
     (case c of
        [b] \<Rightarrow> 9 \<le> b \<and> b \<le> 13 \<or> b = 32
      | [a, b] \<Rightarrow> a = 0xC2 \<and> (b = 0x85 \<or> b = 0xA0)
      | [a, b, d] \<Rightarrow> a = 0xE1 \<and> b = 0x9A \<and> d = 0x80
          \<or> a = 0xE2 \<and> b = 0x80 \<and> (0x80 \<le> d \<and> d \<le> 0x8A \<or> d = 0xA8 \<or> d = 0xA9 \<or> d = 0xAF)
          \<or> a = 0xE2 \<and> b = 0x81 \<and> d = 0x9F
          \<or> a = 0xE3 \<and> b = 0x80 \<and> d = 0x80
      | _ \<Rightarrow> False)"

section \<open>Trimming and splitting\<close>

definition trim_chars :: "byte list list \<Rightarrow> byte list list" where
  "trim_chars cs = rev (dropWhile is_whitespace (rev (dropWhile is_whitespace cs)))"

definition trim :: "byte list \<Rightarrow> byte list" where
  "trim bs = concat (trim_chars (chars_of bs))"

text \<open>\<open>split_whitespace\<close>: the maximal runs of other characters.\<close>

fun ws_words :: "byte list list \<Rightarrow> byte list \<Rightarrow> byte list list" where
  "ws_words [] w = (if w = [] then [] else [w])"
| "ws_words (c # cs) w = (if is_whitespace c then (if w = [] then [] else [w]) @ ws_words cs [] else ws_words cs (w @ c))"

definition split_whitespace :: "byte list \<Rightarrow> byte list list" where
  "split_whitespace bs = ws_words (chars_of bs) []"

definition starts_with :: "byte list \<Rightarrow> byte list \<Rightarrow> bool" where
  "starts_with p bs \<longleftrightarrow> take (length p) bs = p"

definition strip_prefix :: "byte list \<Rightarrow> byte list \<Rightarrow> byte list option" where
  "strip_prefix p bs = (if starts_with p bs then Some (drop (length p) bs) else None)"

text \<open>\<open>split_once\<close> and \<open>rsplit_once\<close> at an ASCII character.\<close>

definition split_once :: "byte \<Rightarrow> byte list \<Rightarrow> (byte list \<times> byte list) option" where
  "split_once c bs = (if c \<in> set bs then Some (takeWhile (\<lambda>b. b \<noteq> c) bs, tl (dropWhile (\<lambda>b. b \<noteq> c) bs)) else None)"

definition rsplit_once :: "byte \<Rightarrow> byte list \<Rightarrow> (byte list \<times> byte list) option" where
  "rsplit_once c bs =
     (if c \<in> set bs then Some (rev (tl (dropWhile (\<lambda>b. b \<noteq> c) (rev bs))), rev (takeWhile (\<lambda>b. b \<noteq> c) (rev bs))) else None)"

definition rsplit_whitespace :: "byte list \<Rightarrow> (byte list \<times> byte list) option" where
  "rsplit_whitespace bs =
     (let cs = rev (chars_of bs) in
      if list_ex is_whitespace cs
      then Some (concat (rev (tl (dropWhile (\<lambda>c. \<not> is_whitespace c) cs))), concat (rev (takeWhile (\<lambda>c. \<not> is_whitespace c) cs)))
      else None)"

fun contains_sub :: "byte list \<Rightarrow> byte list \<Rightarrow> bool" where
  "contains_sub p [] \<longleftrightarrow> p = []"
| "contains_sub p (b # bs) \<longleftrightarrow> starts_with p (b # bs) \<or> contains_sub p bs"

lemma starts_with_append [simp]: "starts_with p (p @ bs)"
  by (simp add: starts_with_def)

lemma strip_prefix_append [simp]: "strip_prefix p (p @ bs) = Some bs"
  by (simp add: strip_prefix_def)

lemma until_char: "c \<notin> set bs \<Longrightarrow> dropWhile (\<lambda>b. b \<noteq> c) (bs @ c # cs) = c # cs" "c \<notin> set bs \<Longrightarrow> takeWhile (\<lambda>b. b \<noteq> c) (bs @ c # cs) = bs"
  by (induction bs) auto

lemma split_once_at: "c \<notin> set bs \<Longrightarrow> split_once c (bs @ c # cs) = Some (bs, cs)"
  by (simp add: split_once_def until_char)

lemma rsplit_once_at: "c \<notin> set cs \<Longrightarrow> rsplit_once c (bs @ c # cs) = Some (bs, cs)"
  by (simp add: rsplit_once_def until_char)

section \<open>Lines\<close>

text \<open>The pieces of \<open>read_until\<close>, each with its newline, and the lines of \<open>BufRead::lines\<close>: a line that is not UTF-8 is an error.\<close>

fun line_pieces :: "byte list \<Rightarrow> byte list list" where
  "line_pieces [] = []"
| "line_pieces (b # bs) =
     (if b = 10 then [10] # line_pieces bs
      else case line_pieces bs of [] \<Rightarrow> [[b]] | l # ls \<Rightarrow> (b # l) # ls)"

definition chomp :: "byte list \<Rightarrow> byte list" where
  "chomp l = (if l \<noteq> [] \<and> last l = 10
              then (let m = butlast l in if m \<noteq> [] \<and> last m = 13 then butlast m else m) else l)"

lemma concat_pieces [simp]: "concat (line_pieces bs) = bs"
  by (induction bs rule: line_pieces.induct) (auto split: list.splits)

lemma piece_shape: "l \<in> set (line_pieces bs) \<Longrightarrow> l \<noteq> [] \<and> 10 \<notin> set (butlast l)"
proof (induction bs arbitrary: l rule: line_pieces.induct)
  case (2 b bs)
  then show ?case by (cases "line_pieces bs") (auto split: if_splits)
qed simp

lemma line_pieces_line: "10 \<notin> set bs \<Longrightarrow> line_pieces (bs @ 10 # cs) = (bs @ [10]) # line_pieces cs"
  by (induction bs) auto

lemma line_pieces_ended: "bs = [] \<or> last bs = 10 \<Longrightarrow> line_pieces (bs @ cs) = line_pieces bs @ line_pieces cs"
proof (induction bs rule: line_pieces.induct)
  case (2 b bs)
  show ?case
  proof (cases "b = 10")
    case False
    then have n: "bs \<noteq> []" "last bs = 10" using "2.prems" by (auto split: if_splits)
    then have "line_pieces bs \<noteq> []" by (metis concat.simps(1) concat_pieces)
    then show ?thesis using False "2.IH" n by (cases "line_pieces bs") auto
  qed (use 2 in \<open>auto split: if_splits\<close>)
qed simp

section \<open>Numbers\<close>

lemma ascii_append [simp]: "ascii (a @ b) = ascii a @ ascii b" "ascii [] = []"
  by (simp_all add: ascii_def)

lemma digit_byte:
  assumes "d < 10"
  shows "(of_char (digit d) :: byte) = of_nat (48 + d)"
proof -
  have "(of_char (digit d) :: nat) = 48 + d" using assms by (simp add: digit_def)
  then show ?thesis by (metis of_nat_of_char)
qed

lemma unat_digit: "d < 10 \<Longrightarrow> unat (of_char (digit d) :: byte) = 48 + d"
  by (simp add: digit_byte unat_of_nat del: of_nat_add)

lemma show_digit_bytes: "b \<in> set (ascii (show_nat n)) \<Longrightarrow> 48 \<le> unat b \<and> unat b \<le> 57"
proof (induction n rule: show_nat.induct)
  case (1 n)
  then show ?case by (subst (asm) (2) show_nat.simps) (auto simp: unat_digit ascii_def split: if_splits)
qed

lemma foldl_show: "foldl (\<lambda>n d. 10 * n + (unat d - 48)) 0 (ascii (show_nat n)) = n"
proof (induction n rule: show_nat.induct)
  case (1 n)
  then show ?case by (subst show_nat.simps) (simp add: unat_digit ascii_def)
qed

lemma parse_show: "n \<le> m \<Longrightarrow> parse_uint m (ascii (show_nat n)) = Some n"
proof -
  assume "n \<le> m"
  have d: "\<forall>b \<in> set (ascii (show_nat n)). 48 \<le> b \<and> b \<le> 57"
    using show_digit_bytes by (simp add: word_le_nat_alt)
  have ne: "ascii (show_nat n) \<noteq> []" by (simp add: ascii_def)
  have "\<exists>b bs. ascii (show_nat n) = b # bs \<and> b \<noteq> 43" using ne d by (cases "ascii (show_nat n)") auto
  then show ?thesis using \<open>n \<le> m\<close> d ne foldl_show [of n] by (auto simp: parse_uint_def Let_def list_all_iff)
qed


section \<open>Plain text\<close>

text \<open>Printable ASCII characters other than the blank.\<close>

definition plain :: "byte \<Rightarrow> bool" where
  "plain b \<longleftrightarrow> 33 \<le> b \<and> b < 0x7F"

lemma plain_ascii: "plain b \<Longrightarrow> b < 0x80"
  by (simp add: plain_def word_less_nat_alt)

lemma plain_ws: "plain b \<Longrightarrow> \<not> is_whitespace [b]"
  by (auto simp: plain_def is_whitespace_def word_le_nat_alt)

lemma plain_show: "b \<in> set (ascii (show_nat n)) \<Longrightarrow> plain b"
  using show_digit_bytes [of b n] by (simp add: plain_def word_le_nat_alt word_less_nat_alt)

lemma chars_plain: "\<forall>b \<in> set bs. b < 0x80 \<Longrightarrow> chars_of bs = map (\<lambda>b. [b]) bs"
  using chars_ascii [of bs "[]"] by simp

lemma trim_plain:
  assumes "\<forall>b \<in> set bs. b < 0x80" "bs \<noteq> []" "plain (hd bs)" "plain (last bs)"
  shows "trim bs = bs"
proof -
  have h: "dropWhile is_whitespace (map (\<lambda>b. [b]) bs) = map (\<lambda>b. [b]) bs" using assms(2,3) plain_ws by (cases bs) auto
  have l: "dropWhile is_whitespace (rev (map (\<lambda>b. [b]) bs)) = rev (map (\<lambda>b. [b]) bs)"
    using assms(2,4) plain_ws by (cases bs rule: rev_cases) auto
  show ?thesis by (simp add: trim_def trim_chars_def chars_plain [OF assms(1)] h l [simplified]) 
qed

lemma ws_words_plain:
  "\<forall>b \<in> set w. plain b \<Longrightarrow> ws_words (map (\<lambda>b. [b]) (w @ cs)) acc = ws_words (map (\<lambda>b. [b]) cs) (acc @ w)"
  by (induction w arbitrary: acc) (simp_all add: plain_ws)

lemma ws_words_blank: "ws_words (map (\<lambda>b. [b]) (32 # cs)) acc = (if acc = [] then [] else [acc]) @ ws_words (map (\<lambda>b. [b]) cs) []"
  by (simp add: is_whitespace_def)

section \<open>Well-formed characters\<close>

definition is_char :: "byte list \<Rightarrow> bool" where
  "is_char c \<longleftrightarrow> c \<noteq> [] \<and> utf8_next c = (True, length c)"

lemma utf8_next_append: "c \<noteq> [] \<Longrightarrow> fst (utf8_next c) \<Longrightarrow> utf8_next (c @ x) = utf8_next c"
proof -
  assume c: "c \<noteq> []" "fst (utf8_next c)"
  have a: "(c @ x) ! 0 = c ! 0" using c(1) by (simp add: nth_append)
  have n: "cont_byte c i \<Longrightarrow> cont_byte (c @ x) i" for i by (auto simp: cont_byte_def nth_append)
  have s: "second_byte c \<Longrightarrow> second_byte (c @ x)"
    using n [of 1] unfolding second_byte_def a by (auto simp: cont_byte_def nth_append)
  show ?thesis using c(2) n s by (auto simp: utf8_next_def Let_def a split: if_splits)
qed

lemma cont_length: "cont_byte bs i \<Longrightarrow> i < length bs" "second_byte bs \<Longrightarrow> 1 < length bs"
  by (simp_all add: cont_byte_def second_byte_def)

lemma utf8_next_bound: "bs \<noteq> [] \<Longrightarrow> snd (utf8_next bs) \<le> length bs"
  using cont_length(1) [of bs 2] cont_length(1) [of bs 3] cont_length(2) [of bs] by (auto simp: utf8_next_def Let_def Suc_le_eq)

text \<open>The four shapes of a well-formed character.\<close>

lemma utf8_shapes:
  assumes "fst (utf8_next bs)"
  obtains (one) "utf8_next bs = (True, 1)" "bs ! 0 < 0x80"
  | (two) "utf8_next bs = (True, 2)" "\<not> bs ! 0 < 0x80" "\<not> (bs ! 0 < 0xC2 \<or> 0xF4 < bs ! 0)" "second_byte bs" "bs ! 0 < 0xE0"
  | (three) "utf8_next bs = (True, 3)" "\<not> bs ! 0 < 0x80" "\<not> (bs ! 0 < 0xC2 \<or> 0xF4 < bs ! 0)" "second_byte bs" "\<not> bs ! 0 < 0xE0" "cont_byte bs 2" "bs ! 0 < 0xF0"
  | (four) "utf8_next bs = (True, 4)" "\<not> bs ! 0 < 0x80" "\<not> (bs ! 0 < 0xC2 \<or> 0xF4 < bs ! 0)" "second_byte bs" "\<not> bs ! 0 < 0xE0" "cont_byte bs 2" "\<not> bs ! 0 < 0xF0" "cont_byte bs 3"
proof -
  consider "bs ! 0 < 0x80" | "\<not> bs ! 0 < 0x80" "bs ! 0 < 0xE0" | "\<not> bs ! 0 < 0x80" "\<not> bs ! 0 < 0xE0" "bs ! 0 < 0xF0"
    | "\<not> bs ! 0 < 0x80" "\<not> bs ! 0 < 0xE0" "\<not> bs ! 0 < 0xF0" by blast
  then show thesis
  proof cases
    case 1
    then show ?thesis using one by (simp add: utf8_next_def)
  next
    case 2
    then show ?thesis using assms two by (simp add: utf8_next_def Let_def split: if_splits)
  next
    case 3
    then show ?thesis using assms three by (simp add: utf8_next_def Let_def split: if_splits)
  next
    case 4
    then show ?thesis using assms four by (simp add: utf8_next_def Let_def split: if_splits)
  qed
qed

lemma utf8_next_take:
  assumes "bs \<noteq> []" "fst (utf8_next bs)"
  shows "is_char (take (snd (utf8_next bs)) bs)"
proof -
  let ?c = "take (snd (utf8_next bs)) bs"
  have k: "0 < snd (utf8_next bs)" "snd (utf8_next bs) \<le> length bs" using utf8_next_pos utf8_next_bound [OF assms(1)] by auto
  have a: "?c ! 0 = bs ! 0" using k by simp
  have n: "cont_byte ?c i" if "cont_byte bs i" "i < snd (utf8_next bs)" for i using that k(2) by (simp add: cont_byte_def)
  have s: "second_byte ?c" if "second_byte bs" "1 < snd (utf8_next bs)" using that n [of 1] k(2) unfolding second_byte_def a by simp
  from assms(2) have "utf8_next ?c = utf8_next bs"
    by (cases rule: utf8_shapes) (use a n [of 2] n [of 3] s in \<open>simp_all add: utf8_next_def [of "take _ _"] Let_def\<close>)
  moreover have "?c \<noteq> []" using assms(1) k(1) by simp
  ultimately show ?thesis using assms k(2) by (simp add: is_char_def prod_eq_iff)
qed

lemma chars_valid: "utf8_valid bs \<Longrightarrow> c \<in> set (chars_of bs) \<Longrightarrow> is_char c"
proof (induction bs rule: chars_of.induct)
  case (1 bs)
  then show ?case
    using chars_of.simps [of bs] utf8_valid.simps [of bs] by (auto simp: utf8_next_take split: if_splits)
qed

lemma chars_concat:
  "\<forall>c \<in> set cs. is_char c \<Longrightarrow> chars_of (concat cs @ x) = cs @ chars_of x \<and> utf8_valid (concat cs @ x) = utf8_valid x"
proof (induction cs)
  case (Cons c cs)
  then have "utf8_next (c @ concat cs @ x) = (True, length c)" "c \<noteq> []"
    using utf8_next_append [of c] by (simp_all add: is_char_def)
  then show ?case using Cons by (simp add: chars_of.simps [of "c @ _"] utf8_valid.simps [of "c @ _"])
qed simp

lemma chars_concat_only: "\<forall>c \<in> set cs. is_char c \<Longrightarrow> chars_of (concat cs) = cs"
  using chars_concat [of cs "[]"] by simp

lemma is_char_single [simp]: "is_char [b] \<longleftrightarrow> b < 0x80"
  by (auto simp: is_char_def utf8_next_def second_byte_def cont_byte_def)

lemma char_bytes:
  assumes "is_char c" "length c \<noteq> 1" "b \<in> set c"
  shows "0x80 \<le> b"
proof -
  obtain i where i: "i < length c" "b = c ! i" using assms(3) by (auto simp: in_set_conv_nth)
  have "length c \<le> 4" "0x80 \<le> c ! 0" using assms(1,2) by (auto simp: is_char_def utf8_next_def Let_def split: if_splits)
  moreover have "cont_byte c i" if "0 < i" "i < length c" for i
  proof -
    have s: "second_byte c \<Longrightarrow> cont_byte c 1" by (simp add: second_byte_def)
    have "i = 1 \<or> i = 2 \<or> i = 3" using that \<open>length c \<le> 4\<close> by linarith
    then show ?thesis using assms(1,2) that(2) s by (auto simp: is_char_def utf8_next_def Let_def split: if_splits)
  qed
  then have "0x80 \<le> c ! i" if "0 < i" "i < length c" for i using that by (simp add: cont_byte_def)
  ultimately show ?thesis using i by (cases i) auto
qed

lemma ws_words_chars:
  assumes "\<forall>c \<in> set cs. is_char c" "w = concat ds" "\<forall>d \<in> set ds. is_char d" "tok \<in> set (ws_words cs w)"
  shows "\<exists>ds. tok = concat ds \<and> (\<forall>d \<in> set ds. is_char d)"
  using assms
proof (induction cs w arbitrary: ds rule: ws_words.induct)
  case (2 c cs w)
  show ?case
  proof (cases "is_whitespace c")
    case True
    then show ?thesis using 2(1) [OF True, of "[]"] "2.prems" by (auto split: if_splits)
  next
    case False
    then show ?thesis using 2(2) [OF False, of "ds @ [c]"] "2.prems" by auto
  qed
qed (auto split: if_splits)

end
