(* ===== verification/Terasort.thy ===== *)
theory Terasort
  imports Texts Stream_Split Routing "HOL-Library.List_Lexorder"
begin

text \<open>
  The sorting workload (\<open>guest/src/workloads/terasort.rs\<close>): the input is split over the workers, every worker routes its
  records to the owners of their key ranges, the host aggregates the parts of an owner, and the owners sort
  their keys. A run composes the contiguous split, streaming reads with appends on the way, and the zero-copy aggregation.
\<close>

section \<open>Streaming with appends\<close>

text \<open>
  \<open>chain_for_each\<close> with a callback that writes to the region: the region is read afresh for every record, the
  extent of the local mapping is the one of the whole process.
\<close>

partial_function (option) route_loop ::
  "(stream_record \<Rightarrow> 'a shm_scheme \<Rightarrow> err + 'a shm_scheme) \<Rightarrow> nat \<Rightarrow> nat \<Rightarrow> 'a shm_scheme \<Rightarrow> (err + 'a shm_scheme) option" where
  "route_loop f page off s =
     Option.bind (read_record s \<lparr>r_page = page, r_off = off, r_cap = local_capacity s\<rparr>) (\<lambda>(rec, r).
       case rec of
         None \<Rightarrow> Some (Inr (s\<lparr>local_capacity := r_cap r\<rparr>))
       | Some x \<Rightarrow>
           (case f x (s\<lparr>local_capacity := r_cap r\<rparr>) of
              Inl e \<Rightarrow> Some (Inl e)
            | Inr t \<Rightarrow> route_loop f (r_page r) (r_off r) t))"

definition route_records ::
  "slot \<Rightarrow> (stream_record \<Rightarrow> 'a shm_scheme \<Rightarrow> err + 'a shm_scheme) \<Rightarrow> 'a shm_scheme \<Rightarrow> (err + 'a shm_scheme) option" where
  "route_records sl f s =
     (if \<not> slot_in_range sl then Some (Inl (SlotOutOfRange (slot_index sl)))
      else if wrap32 (get_head sl s) = 0 then Some (Inr s)
      else route_loop f (wrap32 (get_head sl s)) 0 s)"

section \<open>The workload\<close>

definition TS_DIST_BASE :: nat where "TS_DIST_BASE = 10"
definition TS_PART_BASE :: nat where "TS_PART_BASE = 100"
definition TS_OUT_BASE :: nat where "TS_OUT_BASE = 2"
definition KEY_LEN :: nat where "KEY_LEN = 10"
definition KEY_LO :: nat where "KEY_LO = 33"
definition KEY_HI :: nat where "KEY_HI = 96"
definition KEY_SPAN :: nat where "KEY_SPAN = KEY_HI - KEY_LO + 1"

lemmas ts_consts = TS_DIST_BASE_def TS_PART_BASE_def TS_OUT_BASE_def KEY_LEN_def KEY_LO_def KEY_HI_def KEY_SPAN_def

definition unpack_fanout_arg :: "nat \<Rightarrow> nat \<Rightarrow> nat \<times> nat" where
  "unpack_fanout_arg arg default_base =
     (let base = arg mod 65536; n = arg div 65536 in if n = 0 then (default_base, base) else (base, n))"

definition owner_of :: "byte \<Rightarrow> nat \<Rightarrow> nat" where
  "owner_of first_byte n =
     (let b = min KEY_HI (max KEY_LO (unat first_byte)) - KEY_LO; ow = b * n div KEY_SPAN
      in if n \<le> ow then n - 1 else ow)"

definition ts_distribute :: "nat \<Rightarrow> 'a shm_scheme \<Rightarrow> (err + 'a shm_scheme) option" where
  "ts_distribute arg s =
     (let (out_base, n) = unpack_fanout_arg arg TS_DIST_BASE
      in if n = 0 then Some (Inr s) else split_input_contiguous INPUT_IO_SLOT out_base n s)"

text \<open>The callback of both partition functions; the slot numbers stay below \<open>2 ^ 32\<close> for 16-bit arguments.\<close>

definition route_record :: "nat \<Rightarrow> nat \<Rightarrow> stream_record \<Rightarrow> 'a shm_scheme \<Rightarrow> err + 'a shm_scheme" where
  "route_record out_base n r s =
     (if snd r = [] then Inr s else append_stream_data (out_base + owner_of (hd (snd r)) n) (snd r) s)"

definition ts_partition :: "nat \<Rightarrow> 'a shm_scheme \<Rightarrow> (err + 'a shm_scheme) option" where
  "ts_partition arg s =
     (let in_slot = arg mod 65536; n = arg div 65536; i = in_slot - TS_DIST_BASE
      in if n = 0 then Some (Inr s)
         else route_records (Stream in_slot) (route_record (TS_PART_BASE + i * n) n) s)"

definition ts_partition_local :: "nat \<Rightarrow> 'a shm_scheme \<Rightarrow> (err + 'a shm_scheme) option" where
  "ts_partition_local arg s =
     (let i = arg mod 65536; n = arg div 65536
      in if n = 0 then Some (Inr s)
         else route_records (Io INPUT_IO_SLOT) (route_record (TS_PART_BASE + i * n) n) s)"

text \<open>A key: the first ten bytes, filled with zeros; the checksum counts the bytes the record has.\<close>

definition ts_key :: "payload \<Rightarrow> byte list" where
  "ts_key rec = take KEY_LEN rec @ replicate (KEY_LEN - length rec) 0"

definition key_sum :: "payload \<Rightarrow> nat" where
  "key_sum rec = sum_list (map unat (take KEY_LEN rec))"

definition collect_key :: "stream_record \<Rightarrow> byte list list \<times> nat \<Rightarrow> byte list list \<times> nat" where
  "collect_key r acc =
     (if snd r = [] then acc
      else (fst acc @ [ts_key (snd r)], foldl (\<lambda>n b. (n + unat b) mod 18446744073709551616) (snd acc) (take KEY_LEN (snd r))))"

definition hex_digit :: "nat \<Rightarrow> byte" where
  "hex_digit d = ascii ''0123456789abcdef'' ! d"

definition hex_key :: "byte list \<Rightarrow> byte list" where
  "hex_key k = concat (map (\<lambda>b. [hex_digit (unat b div 16), hex_digit (unat b mod 16)]) (take KEY_LEN k))"

definition merge_summary :: "nat \<Rightarrow> byte list list \<Rightarrow> nat \<Rightarrow> byte list" where
  "merge_summary j keys keysum =
     ascii (''ts_range range='' @ show_nat j @ '' records='' @ show_nat (length keys) @ '' sorted=1 keysum='' @ show_nat keysum @ '' first='')
     @ (if keys = [] then [] else hex_key (hd keys)) @ ascii '' last='' @ (if keys = [] then [] else hex_key (last keys))"

definition ts_merge :: "nat \<Rightarrow> 'a shm_scheme \<Rightarrow> (err + 'a shm_scheme) option" where
  "ts_merge arg s =
     (let in_slot = arg mod 65536; j = arg div 65536
      in case for_each_stream_record in_slot collect_key ([], 0) s of
           None \<Rightarrow> None
         | Some (Inl e) \<Rightarrow> Some (Inl e)
         | Some (Inr ((keys, keysum), t)) \<Rightarrow> Some (append_io_data (TS_OUT_BASE + j) (merge_summary j (sort keys) keysum) t))"

definition summary_line :: "byte list list \<Rightarrow> nat \<Rightarrow> byte list" where
  "summary_line keys keysum =
     ascii (''ts_range records='' @ show_nat (length keys) @ '' sorted='' @ show_nat (if sorted keys then 1 else 0)
            @ '' keysum='' @ show_nat keysum)"

definition ts_range_summary :: "nat \<Rightarrow> 'a shm_scheme \<Rightarrow> (err + 'a shm_scheme) option" where
  "ts_range_summary arg s =
     (let in_slot = arg mod 65536; out_slot = arg div 65536
      in case for_each_stream_record in_slot collect_key ([], 0) s of
           None \<Rightarrow> None
         | Some (Inl e) \<Rightarrow> Some (Inl e)
         | Some (Inr ((keys, keysum), t)) \<Rightarrow> Some (append_stream_data out_slot (summary_line (sort keys) keysum) t))"

text \<open>The totals of \<open>ts_finalize\<close>: ranges, records, checksum, and whether all ranges were sorted.\<close>

definition u64_wrap :: "nat \<Rightarrow> nat" where
  "u64_wrap n = n mod 18446744073709551616"

definition u64_or0 :: "byte list \<Rightarrow> nat" where
  "u64_or0 v = (case parse_uint 18446744073709551615 v of Some n \<Rightarrow> n | None \<Rightarrow> 0)"

definition add_token :: "byte list \<Rightarrow> nat \<times> nat \<times> nat \<Rightarrow> nat \<times> nat \<times> nat" where
  "add_token tok a =
     (let (nrec, ksum, srt) = a
      in case strip_prefix (ascii ''records='') tok of
           Some v \<Rightarrow> (u64_wrap (nrec + u64_or0 v), ksum, srt)
         | None \<Rightarrow> (case strip_prefix (ascii ''keysum='') tok of
             Some v \<Rightarrow> (nrec, u64_wrap (ksum + u64_or0 v), srt)
           | None \<Rightarrow> (case strip_prefix (ascii ''sorted='') tok of
               Some v \<Rightarrow> (nrec, ksum, if v = ascii ''1'' then srt else 0)
             | None \<Rightarrow> a)))"

definition add_summary :: "payload \<Rightarrow> nat \<times> nat \<times> nat \<times> nat \<Rightarrow> nat \<times> nat \<times> nat \<times> nat" where
  "add_summary rec a =
     (let s = trim (if utf8_valid rec then rec else [])
      in if starts_with (ascii ''ts_range'') s
         then (u64_wrap (fst a + 1), fold add_token (split_whitespace s) (snd a)) else a)"

definition ts_report :: "nat \<times> nat \<times> nat \<times> nat \<Rightarrow> payload list" where
  "ts_report a =
     (case a of (ranges, nrec, keysum, srt) \<Rightarrow>
       map ascii [''=== terasort_results ==='', ''ranges='' @ show_nat ranges, ''records='' @ show_nat nrec,
         ''keysum='' @ show_nat keysum, ''sorted='' @ show_nat srt])"

definition ts_finalize :: "nat \<Rightarrow> 'a shm_scheme \<Rightarrow> (err + 'a shm_scheme) option" where
  "ts_finalize arg s =
     (case read_all_stream_records arg s of
        None \<Rightarrow> None
      | Some (Inl e) \<Rightarrow> Some (Inl e)
      | Some (Inr (rs, t)) \<Rightarrow>
          Some (append_each (Io OUTPUT_IO_SLOT) (ts_report (fold (add_summary \<circ> snd) rs (0, 0, 0, 1))) t))"


section \<open>Routing records while reading\<close>

definition route_by :: "(stream_record \<Rightarrow> slot option) \<Rightarrow> stream_record \<Rightarrow> 'a shm_scheme \<Rightarrow> err + 'a shm_scheme" where
  "route_by k r s = (case k r of None \<Rightarrow> Inr s | Some sl \<Rightarrow> append_slot_data sl (snd r) s)"

definition routed_to :: "(stream_record \<Rightarrow> slot option) \<Rightarrow> stream_record list \<Rightarrow> slot \<Rightarrow> stream_record list" where
  "routed_to k rs sl = map (\<lambda>r. (slot_index sl, snd r)) (filter (\<lambda>r. k r = Some sl) rs)"

text \<open>The records may be routed_to: not back to their source, to existing slots, and short enough for a frame.\<close>

definition routable :: "slot \<Rightarrow> (stream_record \<Rightarrow> slot option) \<Rightarrow> stream_record \<Rightarrow> bool" where
  "routable src k r \<longleftrightarrow> length (snd r) < 4294967296 \<and> (case k r of None \<Rightarrow> True | Some sl \<Rightarrow> sl \<noteq> src \<and> slot_in_range sl)"

definition record_pages :: "stream_record list \<Rightarrow> nat" where
  "record_pages rs = (\<Sum>r\<leftarrow>rs. pages_for (length (snd r)))"

lemma append_slot_data_chains:
  assumes "chains s C" "append_slot_data sl pl s = Inr t" "length pl < 4294967296"
  shows "\<exists>qs. chains t (C(sl := C sl @ qs)) \<and> chain_bytes t (C sl @ qs) = chain_bytes s (C sl) @ encode_record (slot_index sl, pl)
    \<and> (\<forall>sl' p. sl' \<noteq> sl \<longrightarrow> p \<in> set (C sl') \<longrightarrow> mem t p = mem s p)"
proof -
  have r: "slot_in_range sl" "chain_append_prefixed sl (slot_index sl) pl s = Inr t"
    using assms(2) by (auto simp: append_slot_data_def split: if_splits)
  then have "wf_record (slot_index sl, pl)"
    using assms(3) by (cases sl) (auto simp: wf_record_def layout_consts)
  moreover have "guest_inv s" using assms(1) by (simp add: chains_def)
  moreover have "append_all (append_with try_allocate_page sl) (frame (slot_index sl) pl) s = Inr t"
    using r(2) by (simp add: chain_append_prefixed_def chain_append_raw_def)
  ultimately show ?thesis using guest.append_frames_chains [OF assms(1)] by blast
qed

lemma reader_ok_moved:
  assumes "reader_ok s r ps" "chains t C" "set ps \<subseteq> set (C sl)" "\<forall>p \<in> set ps. mem t p = mem s p"
  shows "reader_ok t \<lparr>r_page = r_page r, r_off = r_off r, r_cap = c\<rparr> ps" "rest t \<lparr>r_page = r_page r, r_off = r_off r, r_cap = c\<rparr> ps = rest s r ps"
proof -
  have g: "guest_inv t" "\<And>p. p \<in> set ps \<Longrightarrow> PAGE_SIZE dvd p \<and> p \<notin> avail t" using assms(2,3) by (auto simp: chains_def)
  have "chain (nxt t) (r_page r) ps"
    using assms(1,4) path_cong [of ps "nxt s" "nxt t" "r_page r" 0] by (auto simp: reader_ok_def)
  moreover have "\<forall>p \<in> set ps. p + PAGE_SIZE \<le> global_capacity t" using taken_in_file(1) [OF g(1)] g(2) by blast
  ultimately show "reader_ok t \<lparr>r_page = r_page r, r_off = r_off r, r_cap = c\<rparr> ps"
    using assms(1,4) by (auto simp: reader_ok_def)
  show "rest t \<lparr>r_page = r_page r, r_off = r_off r, r_cap = c\<rparr> ps = rest s r ps"
    using chain_bytes_cong [of ps t s] assms(4) by (simp add: rest_def)
qed


lemma route_loop_spec:
  assumes "chains s C" "reader_ok s \<lparr>r_page = page, r_off = off, r_cap = local_capacity s\<rparr> ps" "set ps \<subseteq> set (C src)"
    and "parse_records (rest s \<lparr>r_page = page, r_off = off, r_cap = local_capacity s\<rparr> ps) = rs"
    and "\<forall>r \<in> set rs. routable src k r" "record_pages rs \<le> bump_room s"
  shows "\<exists>t. route_loop (route_by k) page off s = Some (Inr t) \<and> bump_room s \<le> bump_room t + record_pages rs
    \<and> stores t (\<lambda>sl. parse_records (chain_bytes s (C sl)) @ routed_to k rs sl)"
  using assms
proof (induction rs arbitrary: s C page off ps)
  case Nil
  let ?r = "\<lparr>r_page = page, r_off = off, r_cap = local_capacity s\<rparr>"
  obtain r' where r': "read_record s ?r = Some (None, r')" using read_record_spec [OF Nil.prems(2)] Nil.prems(4) by auto
  let ?t = "s\<lparr>local_capacity := r_cap r'\<rparr>"
  have "cap_step s ?r r'" using read_record_cap [OF r'] by simp
  then have "chains ?t C" by (intro chains_local_capacity [OF Nil.prems(1)]) (auto simp: cap_step_def)
  moreover have "chain_bytes ?t ps = chain_bytes s ps" for ps by (rule chain_bytes_cong) simp
  ultimately have "stores ?t (\<lambda>sl. parse_records (chain_bytes s (C sl)))" by (auto simp: stores_def)
  then show ?case using r' by (simp add: route_loop.simps [of _ page off s] routed_to_def bump_room_def)
next
  case (Cons x xs)
  let ?r = "\<lparr>r_page = page, r_off = off, r_cap = local_capacity s\<rparr>"
  obtain r' ps' where r': "read_record s ?r = Some (Some x, r')" "reader_ok s r' ps'" "parse_records (rest s r' ps') = xs" "set ps' \<subseteq> set ps"
    using read_record_spec [OF Cons.prems(2)] Cons.prems(4) by auto
  let ?s = "s\<lparr>local_capacity := r_cap r'\<rparr>"
  have "cap_step s ?r r'" using read_record_cap [OF r'(1)] by simp
  then have ch: "chains ?s C" by (intro chains_local_capacity [OF Cons.prems(1)]) (auto simp: cap_step_def)
  have bytes: "chain_bytes ?s qs = chain_bytes s qs" for qs by (rule chain_bytes_cong) simp
  have room: "bump_room ?s = bump_room s" by (simp add: bump_room_def)
  have sub: "set ps' \<subseteq> set (C src)" using r'(4) Cons.prems(3) by blast
  have ok: "routable src k x" "\<forall>r \<in> set xs. routable src k r" "pages_for (length (snd x)) + record_pages xs \<le> bump_room s"
    using Cons.prems(5,6) by (auto simp: record_pages_def)
  have step: "route_loop (route_by k) page off s
      = (case route_by k x ?s of Inl e \<Rightarrow> Some (Inl e) | Inr t \<Rightarrow> route_loop (route_by k) (r_page r') (r_off r') t)"
    using r'(1) by (simp add: route_loop.simps [of _ page off s])
  show ?case
  proof (cases "k x")
    case None
    have rd: "reader_ok ?s \<lparr>r_page = r_page r', r_off = r_off r', r_cap = local_capacity ?s\<rparr> ps'"
      "parse_records (rest ?s \<lparr>r_page = r_page r', r_off = r_off r', r_cap = local_capacity ?s\<rparr> ps') = xs"
      using reader_ok_moved [OF r'(2) ch sub, of "local_capacity ?s"] r'(3) by simp_all
    have "record_pages xs \<le> bump_room ?s" using ok(3) room by simp
    from Cons.IH [OF ch rd(1) sub rd(2) ok(2) this] obtain t where t:
      "route_loop (route_by k) (r_page r') (r_off r') ?s = Some (Inr t)" "bump_room s \<le> bump_room t + record_pages xs"
      "stores t (\<lambda>sl. parse_records (chain_bytes s (C sl)) @ routed_to k xs sl)" using bytes room by auto
    have "route_by k x ?s = Inr ?s" "routed_to k (x # xs) = routed_to k xs" using None by (auto simp: route_by_def routed_to_def)
    then show ?thesis using step t by (intro exI [of _ t]) (simp add: record_pages_def)
  next
    case (Some sl)
    then have sl: "sl \<noteq> src" "slot_in_range sl" "length (snd x) < 4294967296" using ok(1) by (auto simp: routable_def)
    have "stores ?s (\<lambda>sl. parse_records (chain_bytes ?s (C sl)))" using ch by (auto simp: stores_def)
    from append_slot_data_total [OF this sl(2), of "snd x"] obtain u where u: "append_slot_data sl (snd x) ?s = Inr u"
      "bump_room s \<le> bump_room u + pages_for (length (snd x))" using ok(3) room by auto
    obtain qs where qs: "chains u (C(sl := C sl @ qs))"
      "chain_bytes u (C sl @ qs) = chain_bytes s (C sl) @ encode_record (slot_index sl, snd x)"
      "\<And>sl' p. sl' \<noteq> sl \<Longrightarrow> p \<in> set (C sl') \<Longrightarrow> mem u p = mem s p"
      using append_slot_data_chains [OF ch u(1) sl(3)] bytes by auto
    have sub': "set ps' \<subseteq> set ((C(sl := C sl @ qs)) src)" using sub sl(1) by simp
    have "\<forall>p \<in> set ps'. mem u p = mem s p" using qs(3) [of src] sl(1) sub by blast
    note rd = reader_ok_moved [OF r'(2) qs(1) sub' this, of "local_capacity u"]
    have "record_pages xs \<le> bump_room u" using ok(3) u(2) by simp
    from Cons.IH [OF qs(1) rd(1) sub' _ ok(2) this] rd(2) r'(3) obtain t where t:
      "route_loop (route_by k) (r_page r') (r_off r') u = Some (Inr t)" "bump_room u \<le> bump_room t + record_pages xs"
      "stores t (\<lambda>sl'. parse_records (chain_bytes u ((C(sl := C sl @ qs)) sl')) @ routed_to k xs sl')" by auto
    have "wf_record (slot_index sl, snd x)" using sl(2,3) by (cases sl) (auto simp: wf_record_def layout_consts)
    moreover have "Page_Chain.complete (chain_bytes s (C sl))" using Cons.prems(1) by (simp add: chains_def)
    ultimately have "parse_records (chain_bytes u ((C(sl := C sl @ qs)) sl')) @ routed_to k xs sl'
        = parse_records (chain_bytes s (C sl')) @ routed_to k (x # xs) sl'" for sl'
      using qs(2,3) complete_append_record(2) [of "chain_bytes s (C sl)" "(slot_index sl, snd x)"] Some chain_bytes_cong [of "C sl'" u s]
      by (cases "sl' = sl") (auto simp: routed_to_def)
    then have "stores t (\<lambda>sl'. parse_records (chain_bytes s (C sl')) @ routed_to k (x # xs) sl')" using t(3) by simp
    moreover have "bump_room s \<le> bump_room t + record_pages (x # xs)" using u(2) t(2) by (simp add: record_pages_def)
    moreover have "route_by k x ?s = Inr u" using u(1) Some by (simp add: route_by_def)
    ultimately show ?thesis using step t(1) by (intro exI [of _ t]) simp
  qed
qed

lemma route_records_stores:
  assumes "stores s R" "slot_in_range src" "\<forall>r \<in> set (R src). routable src k r" "record_pages (R src) \<le> bump_room s"
  shows "\<exists>t. route_records src (route_by k) s = Some (Inr t) \<and> bump_room s \<le> bump_room t + record_pages (R src)
    \<and> stores t (\<lambda>sl. R sl @ routed_to k (R src) sl)"
proof -
  obtain C where C: "chains s C" and R: "R = (\<lambda>sl. parse_records (chain_bytes s (C sl)))" using assms(1) by (auto simp: stores_def)
  note sr = start_reader_ok [OF C, of src]
  show ?thesis
  proof (cases "get_head src s = 0")
    case True
    have "chain (nxt s) (get_head src s) (C src)" using C by (auto simp: chains_def slot_chain_def)
    then have "R src = []" using True by (simp add: R)
    then show ?thesis using assms(1,2) True by (simp add: route_records_def routed_to_def)
  next
    case False
    have "parse_records (rest s (start_reader (get_head src s) s) (C src)) = R src" by (simp add: sr(2) R)
    from route_loop_spec [OF C _ order_refl, of "get_head src s" 0 src "R src" k] this sr(1) assms(3,4)
    show ?thesis using False assms(2) by (simp add: route_records_def start_reader_def sr(3) R)
  qed
qed


section \<open>Ranges of keys\<close>

lemma owner_less: "0 < n \<Longrightarrow> owner_of b n < n"
  by (simp add: owner_of_def Let_def)

lemma owner_mono: "a \<le> b \<Longrightarrow> owner_of a n \<le> owner_of b n"
proof -
  assume "a \<le> b"
  then have "unat a \<le> unat b" by (simp add: word_le_nat_alt)
  then have "min KEY_HI (max KEY_LO (unat a)) - KEY_LO \<le> min KEY_HI (max KEY_LO (unat b)) - KEY_LO" by (simp add: ts_consts)
  then have "(min KEY_HI (max KEY_LO (unat a)) - KEY_LO) * n div KEY_SPAN \<le> (min KEY_HI (max KEY_LO (unat b)) - KEY_LO) * n div KEY_SPAN"
    by (intro div_le_mono mult_le_mono1)
  then show ?thesis by (simp add: owner_of_def Let_def; linarith?)
qed

lemma hd_ts_key: "rec \<noteq> [] \<Longrightarrow> hd (ts_key rec) = hd rec" "ts_key rec \<noteq> []"
  by (simp_all add: ts_key_def KEY_LEN_def hd_append)

text \<open>Sorting range by range, for a classification that respects the order, is sorting.\<close>

lemma sort_ranges:
  fixes xs :: "'k::linorder list"
  assumes "\<forall>x \<in> set xs. cl x < n" "\<forall>x \<in> set xs. \<forall>y \<in> set xs. cl x < cl y \<longrightarrow> x \<le> y"
  shows "concat (map (\<lambda>j. sort (filter (\<lambda>x. cl x = j) xs)) [0..<n]) = sort xs"
proof -
  have m: "mset (concat (map (\<lambda>j. sort (filter (\<lambda>x. cl x = j) xs)) [0..<m])) = mset (filter (\<lambda>x. cl x < m) xs)" for m
  proof (induction m)
    case (Suc m)
    have "mset (filter (\<lambda>x. cl x < Suc m) xs) = mset (filter (\<lambda>x. cl x < m) xs) + mset (filter (\<lambda>x. cl x = m) xs)"
      by (induction xs) auto
    then show ?case using Suc by simp
  qed simp
  have s: "sorted (concat (map (\<lambda>j. sort (filter (\<lambda>x. cl x = j) xs)) [0..<m]))" for m
  proof (induction m)
    case (Suc m)
    have "set (concat (map (\<lambda>j. sort (filter (\<lambda>x. cl x = j) xs)) [0..<m])) = {x \<in> set xs. cl x < m}" by auto
    then show ?case using Suc assms(2) by (auto simp: sorted_append simp del: set_concat)
  qed simp
  have "filter (\<lambda>x. cl x < n) xs = xs" using assms(1) by (simp add: filter_id_conv)
  then show ?thesis using m [of n] s [of n] by (metis properties_for_sort)
qed

lemma collect_keys:
  "fold collect_key rs (ks, c) = (ks @ map ts_key (filter (\<lambda>p. p \<noteq> []) (map snd rs)),
     foldl (\<lambda>n b. (n + unat b) mod 18446744073709551616) c (concat (map (take KEY_LEN) (map snd rs))))"
proof (induction rs arbitrary: ks c)
  case (Cons r rs)
  then show ?case by (cases "snd r = []") (simp_all add: collect_key_def)
qed simp

lemma sorted_owner_ranges:
  assumes "0 < n"
  shows "concat (map (\<lambda>j. sort (map ts_key (filter (\<lambda>p. p \<noteq> [] \<and> owner_of (hd p) n = j) ps))) [0..<n]) = sort (map ts_key (filter (\<lambda>p. p \<noteq> []) ps))"
proof -
  let ?xs = "map ts_key (filter (\<lambda>p. p \<noteq> []) ps)" and ?cl = "\<lambda>k. owner_of (hd k) n"
  have "map ts_key (filter (\<lambda>p. p \<noteq> [] \<and> owner_of (hd p) n = j) ps) = filter (\<lambda>k. ?cl k = j) ?xs" for j
    by (induction ps) (auto simp: hd_ts_key(1))
  moreover have "x \<le> y" if "x \<in> set ?xs" "y \<in> set ?xs" "?cl x < ?cl y" for x y
  proof -
    have "x \<noteq> []" "y \<noteq> []" using that(1,2) hd_ts_key(2) by auto
    moreover have "hd x < hd y" using that(3) owner_mono [of "hd y" "hd x" n] by (meson linorder_not_le)
    ultimately have "x < y" by (metis Cons_less_Cons list.collapse)
    then show ?thesis by simp
  qed
  ultimately show ?thesis using sort_ranges [of ?xs ?cl n] owner_less [OF assms] by simp
qed

section \<open>Workers\<close>

fun run_workers :: "(nat \<Rightarrow> 's \<Rightarrow> (err + 's) option) \<Rightarrow> nat list \<Rightarrow> 's \<Rightarrow> (err + 's) option" where
  "run_workers f [] s = Some (Inr s)"
| "run_workers f (i # is) s = (case f i s of Some (Inr t) \<Rightarrow> run_workers f is t | r \<Rightarrow> r)"

definition owner_slot :: "nat \<Rightarrow> nat \<Rightarrow> stream_record \<Rightarrow> slot option" where
  "owner_slot out_base n r = (if snd r = [] then None else Some (Stream (out_base + owner_of (hd (snd r)) n)))"

lemma route_record_by: "route_record out_base n = route_by (owner_slot out_base n)"
  by (simp add: route_record_def route_by_def owner_slot_def append_stream_data_def fun_eq_iff)

lemma partition_arg:
  assumes "0 < n" "i < n" "TS_DIST_BASE + n \<le> TS_PART_BASE"
  shows "ts_partition (TS_DIST_BASE + i + n * 65536) s
    = route_records (Stream (TS_DIST_BASE + i)) (route_by (owner_slot (TS_PART_BASE + i * n) n)) s"
proof -
  have "(TS_DIST_BASE + i + n * 65536) mod 65536 = TS_DIST_BASE + i" "(TS_DIST_BASE + i + n * 65536) div 65536 = n"
    using assms by (simp_all add: ts_consts)
  then show ?thesis using assms(1) by (simp add: ts_partition_def Let_def route_record_by)
qed

lemma stores_record_length:
  assumes "stores s R" "r \<in> set (R sl)"
  shows "length (snd r) < 4294967296"
proof -
  obtain C where C: "chains s C" "R sl = parse_records (chain_bytes s (C sl))" using assms(1) by (auto simp: stores_def)
  then have "Page_Chain.complete (chain_bytes s (C sl))" by (simp add: chains_def)
  then obtain rs where "list_all wf_record rs" "chain_bytes s (C sl) = concat (map encode_record rs)" by (auto simp: Page_Chain.complete_def)
  then have "R sl = rs" "list_all wf_record rs" using parse_records_concat [of rs "[]"] C(2) by simp_all
  then show ?thesis using assms(2) by (auto simp: list_all_iff wf_record_def)
qed

text \<open>What the workers of \<open>order\<close> add to a slot.\<close>

definition part_of :: "nat \<Rightarrow> (slot \<Rightarrow> stream_record list) \<Rightarrow> slot \<Rightarrow> nat \<Rightarrow> stream_record list" where
  "part_of n R sl i = routed_to (owner_slot (TS_PART_BASE + i * n) n) (R (Stream (TS_DIST_BASE + i))) sl"

lemma part_target:
  assumes "0 < n" "part_of n R sl i \<noteq> []"
  shows "\<exists>j < n. sl = Stream (TS_PART_BASE + i * n + j)"
  using assms owner_less by (auto simp: part_of_def routed_to_def owner_slot_def filter_empty_conv split: if_splits)

lemma partitions_stores:
  assumes "stores s R" "0 < n" "TS_DIST_BASE + n \<le> TS_PART_BASE" "TS_PART_BASE + n * n \<le> STREAM_SLOT_COUNT"
    and "set order \<subseteq> {..<n}" "(\<Sum>i\<leftarrow>order. record_pages (R (Stream (TS_DIST_BASE + i)))) \<le> bump_room s"
  shows "\<exists>t. run_workers (\<lambda>i. ts_partition (TS_DIST_BASE + i + n * 65536)) order s = Some (Inr t)
    \<and> stores t (\<lambda>sl. R sl @ concat (map (part_of n R sl) order))"
  using assms(1,5,6)
proof (induction order arbitrary: s R)
  case (Cons i order)
  let ?src = "Stream (TS_DIST_BASE + i)" and ?k = "owner_slot (TS_PART_BASE + i * n) n"
  have i: "i < n" using Cons.prems(2) by simp
  have "Suc i * n \<le> n * n" using i by (intro mult_le_mono1) simp
  then have bound: "i * n + n \<le> n * n" by simp
  have "routable ?src ?k r" if "r \<in> set (R ?src)" for r
    using stores_record_length [OF Cons.prems(1) that] owner_less [OF assms(2), of "hd (snd r)"] assms(3,4) i bound
    by (auto simp: routable_def owner_slot_def)
  moreover have "slot_in_range ?src" using assms(3,4) i by (simp add: ts_consts)
  moreover have room: "record_pages (R ?src) + (\<Sum>i\<leftarrow>order. record_pages (R (Stream (TS_DIST_BASE + i)))) \<le> bump_room s"
    using Cons.prems(3) by simp
  ultimately obtain t where t: "route_records ?src (route_by ?k) s = Some (Inr t)" "bump_room s \<le> bump_room t + record_pages (R ?src)"
    "stores t (\<lambda>sl. R sl @ part_of n R sl i)"
    using route_records_stores [OF Cons.prems(1), of ?src ?k] by (auto simp: part_of_def)
  let ?R = "\<lambda>sl. R sl @ part_of n R sl i"
  have keep: "?R (Stream (TS_DIST_BASE + m)) = R (Stream (TS_DIST_BASE + m))" if "m < n" for m
    using part_target [OF assms(2), of R "Stream (TS_DIST_BASE + m)" i] that assms(3) by auto
  have sub: "set order \<subseteq> {..<n}" using Cons.prems(2) by simp
  then have "(\<Sum>i\<leftarrow>order. record_pages (?R (Stream (TS_DIST_BASE + i)))) = (\<Sum>i\<leftarrow>order. record_pages (R (Stream (TS_DIST_BASE + i))))"
    using keep by (intro arg_cong [of _ _ sum_list] map_cong) auto
  then have "(\<Sum>i\<leftarrow>order. record_pages (?R (Stream (TS_DIST_BASE + i)))) \<le> bump_room t" using room t(2) by linarith
  from Cons.IH [OF t(3) sub this] obtain u where u: "run_workers (\<lambda>i. ts_partition (TS_DIST_BASE + i + n * 65536)) order t = Some (Inr u)"
    "stores u (\<lambda>sl. ?R sl @ concat (map (part_of n ?R sl) order))" by blast
  have "concat (map (part_of n ?R sl) order) = concat (map (part_of n R sl) order)" for sl
    using keep sub by (intro arg_cong [of _ _ concat] map_cong) (auto simp: part_of_def)
  then have "(\<lambda>sl. ?R sl @ concat (map (part_of n ?R sl) order)) = (\<lambda>sl. R sl @ concat (map (part_of n R sl) (i # order)))" by (simp only: append_assoc list.map concat.simps)
  then have "stores u (\<lambda>sl. R sl @ concat (map (part_of n R sl) (i # order)))" using u(2) by (simp only:)
  then show ?case using u(1) t(1) partition_arg [OF assms(2) i assms(3), of s] by simp
qed simp


section \<open>Gathering\<close>

fun aggregate_all :: "aggregate_connection list \<Rightarrow> 'a shm_scheme \<Rightarrow> err + 'a shm_scheme" where
  "aggregate_all [] s = Inr s"
| "aggregate_all (c # cs) s = (case aggregate_bridge c s of Inl e \<Rightarrow> Inl e | Inr t \<Rightarrow> aggregate_all cs t)"

lemma aggregate_all_lanes:
  assumes "lanes s (M @ concat (map (\<lambda>j. (d j, x j) # map (\<lambda>i. (u i j, c i j)) is) js))"
  shows "\<exists>t. aggregate_all (map (\<lambda>j. \<lparr>ag_upstream_ids = map (\<lambda>i. u i j) is, ag_downstream_id = d j\<rparr>) js) s = Inr t
    \<and> lanes t (M @ map (\<lambda>j. (d j, x j @ concat (map (\<lambda>i. c i j) is))) js) \<and> same_data s t"
  using assms
proof (induction js arbitrary: s M)
  case (Cons j js)
  let ?B = "concat (map (\<lambda>j. (d j, x j) # map (\<lambda>i. (u i j, c i j)) is) js)" and ?L = "map (\<lambda>i. (u i j, c i j)) is"
  have "lanes s ((M @ ?B) @ (d j, x j) # ?L)" by (rule lanes_perm [OF _ Cons.prems]) simp
  then obtain t where t: "merge_into (map fst ?L) (d j) s = Inr t" "lanes t ((M @ ?B) @ [(d j, x j @ concat (map snd ?L))])" "same_data s t"
    using merge_into_lanes by blast
  have "lanes t ((M @ [(d j, x j @ concat (map (\<lambda>i. c i j) is))]) @ ?B)" by (rule lanes_perm [OF _ t(2)]) (simp add: comp_def)
  from Cons.IH [OF this] obtain v where v: "aggregate_all (map (\<lambda>j. \<lparr>ag_upstream_ids = map (\<lambda>i. u i j) is, ag_downstream_id = d j\<rparr>) js) t = Inr v"
    "lanes v ((M @ [(d j, x j @ concat (map (\<lambda>i. c i j) is))]) @ map (\<lambda>j. (d j, x j @ concat (map (\<lambda>i. c i j) is))) js)" "same_data t v" by blast
  have "aggregate_bridge \<lparr>ag_upstream_ids = map (\<lambda>i. u i j) is, ag_downstream_id = d j\<rparr> s = Inr t"
    using t(1) by (simp add: aggregate_bridge_def comp_def)
  then show ?case using v same_data_trans [OF t(3) v(3)] by simp
qed simp

lemma chains_lanes:
  assumes "chains s C" "distinct is" "\<forall>i \<in> set is. i < STREAM_SLOT_COUNT"
  shows "lanes s (map (\<lambda>i. (i, C (Stream i))) is)"
proof -
  have c: "\<And>sl. slot_chain s sl (C sl)" "\<And>sl sl'. sl \<noteq> sl' \<Longrightarrow> set (C sl) \<inter> set (C sl') = {}" using assms(1) by (auto simp: chains_def)
  have "distinct (concat (map (\<lambda>i. C (Stream i)) is))"
    using assms(2)
  proof (induction "is")
    case (Cons i "is")
    have "set (C (Stream i)) \<inter> set (C (Stream k)) = {}" if "k \<in> set is" for k using c(2) [of "Stream i" "Stream k"] Cons.prems that by auto
    then show ?case using Cons slot_chain_distinct [OF c(1)] by auto
  qed simp
  then show ?thesis using assms(2,3) c(1) by (auto simp: lanes_def comp_def)
qed

lemma parse_concat_chains:
  assumes "chains s C"
  shows "parse_records (chain_bytes s (concat (map C sls))) = concat (map (\<lambda>sl. parse_records (chain_bytes s (C sl))) sls)"
  using assms by (induction sls) (auto simp: chains_def parse_records_append)


text \<open>The wiring of the DAG: owner \<open>j\<close> gathers its parts from all workers into slot \<open>g + j\<close>.\<close>

definition owner_gather :: "nat \<Rightarrow> nat \<Rightarrow> nat \<Rightarrow> aggregate_connection" where
  "owner_gather g n j = \<lparr>ag_upstream_ids = map (\<lambda>i. TS_PART_BASE + i * n + j) [0..<n], ag_downstream_id = g + j\<rparr>"

definition owned :: "nat \<Rightarrow> nat \<Rightarrow> payload list \<Rightarrow> payload list" where
  "owned n j ps = filter (\<lambda>p. p \<noteq> [] \<and> owner_of (hd p) n = j) ps"

lemma cell_eq:
  assumes "j < n" "j' < (n :: nat)" "i * n + j = i' * n + j'"
  shows "i = i'" "j = j'"
proof -
  have "(i * n + j) div n = i" "(i' * n + j') div n = i'" "(i * n + j) mod n = j" "(i' * n + j') mod n = j'" using assms(1,2) by simp_all
  then show "i = i'" "j = j'" using assms(3) by simp_all
qed

lemma cell_bound: "i < n \<Longrightarrow> j < n \<Longrightarrow> i * n + j < n * (n :: nat)"
  using mult_le_mono1 [of "Suc i" n n] by simp

lemma part_payloads:
  assumes "0 < n" "j < n"
  shows "map snd (part_of n R (Stream (TS_PART_BASE + i * n + j)) i) = owned n j (map snd (R (Stream (TS_DIST_BASE + i))))"
proof -
  have "owner_slot (TS_PART_BASE + i * n) n r = Some (Stream (TS_PART_BASE + i * n + j)) \<longleftrightarrow> snd r \<noteq> [] \<and> owner_of (hd (snd r)) n = j" for r
    by (simp add: owner_slot_def)
  then show ?thesis by (simp add: part_of_def routed_to_def owned_def filter_map comp_def)
qed

lemma concat_single:
  "distinct xs \<Longrightarrow> i \<in> set xs \<Longrightarrow> (\<forall>y \<in> set xs. y \<noteq> i \<longrightarrow> f y = []) \<Longrightarrow> concat (map f xs) = f i"
proof (induction xs)
  case (Cons x xs)
  then show ?case by (cases "x = i") (auto simp: concat_eq_Nil_conv)
qed simp

lemma parts_at_cell:
  assumes "0 < n" "i < n" "j < n" "distinct order" "set order = {..<n}"
  shows "concat (map (part_of n R (Stream (TS_PART_BASE + i * n + j))) order) = part_of n R (Stream (TS_PART_BASE + i * n + j)) i"
proof (rule concat_single [OF assms(4)])
  show "\<forall>y \<in> set order. y \<noteq> i \<longrightarrow> part_of n R (Stream (TS_PART_BASE + i * n + j)) y = []"
    using part_target [OF assms(1), of R "Stream (TS_PART_BASE + i * n + j)"] cell_eq(1) [OF assms(3)] by fastforce
qed (use assms in simp)

definition gather_slots :: "nat \<Rightarrow> nat \<Rightarrow> nat list" where
  "gather_slots g n = concat (map (\<lambda>j. (g + j) # map (\<lambda>i. TS_PART_BASE + i * n + j) [0..<n]) [0..<n])"

lemma gather_slots_ok:
  assumes "0 < n" "TS_PART_BASE + n * n \<le> g" "g + n \<le> STREAM_SLOT_COUNT"
  shows "distinct (gather_slots g n)" "\<forall>i \<in> set (gather_slots g n). i < STREAM_SLOT_COUNT"
proof -
  let ?b = "\<lambda>j. (g + j) # map (\<lambda>i. TS_PART_BASE + i * n + j) [0..<n]"
  have cell: "TS_PART_BASE + i * n + j < g" if "i < n" "j < n" for i j using cell_bound [OF that] assms(2) by simp
  have "m \<le> n \<Longrightarrow> distinct (concat (map ?b [0..<m]))" for m
  proof (induction m)
    case (Suc m)
    have "inj_on (\<lambda>i. TS_PART_BASE + i * n + m) {0..<n}" using assms(1) by (auto simp: inj_on_def)
    then have "distinct (?b m)" using cell Suc.prems by (fastforce simp: distinct_map)
    moreover have "y \<notin> set (?b m)" if y: "j < m" "y \<in> set (?b j)" for y j
    proof (cases "y = g + j")
      case True
      have "TS_PART_BASE + i * n + m \<noteq> g + j" if "i < n" for i using cell [OF that, of m] Suc.prems by simp
      then have "g + j \<notin> set (?b m)" using y(1) by (metis (no_types, lifting) add_left_cancel atLeastLessThan_iff imageE list.set_map nat_less_le set_ConsD set_upt)
      then show ?thesis using True by simp
    next
      case False
      then obtain i where i: "i < n" "y = TS_PART_BASE + i * n + j" using y(2) by auto
      then have "y < g" using cell y(1) Suc.prems by simp
      moreover have "y \<noteq> TS_PART_BASE + i' * n + m" for i' using cell_eq(2) [of j n m i i'] i(2) y(1) Suc.prems by auto
      ultimately show ?thesis by auto
    qed
    then have "set (concat (map ?b [0..<m])) \<inter> set (?b m) = {}" by (auto simp del: list.set)
    ultimately show ?case using Suc by (simp add: Int_commute)
  qed simp
  then show "distinct (gather_slots g n)" by (simp add: gather_slots_def)
  show "\<forall>i \<in> set (gather_slots g n). i < STREAM_SLOT_COUNT" using cell assms(3) by (fastforce simp: gather_slots_def)
qed

lemma gather_owners:
  assumes "stores u R" "0 < n" "TS_PART_BASE + n * n \<le> g" "g + n \<le> STREAM_SLOT_COUNT"
  shows "\<exists>v X. aggregate_all (map (owner_gather g n) [0..<n]) u = Inr v
    \<and> (\<forall>j < n. slot_chain v (Stream (g + j)) (X j)
        \<and> parse_records (chain_bytes v (X j)) = R (Stream (g + j)) @ concat (map (\<lambda>i. R (Stream (TS_PART_BASE + i * n + j))) [0..<n]))"
proof -
  obtain C where C: "chains u C" and R: "R = (\<lambda>sl. parse_records (chain_bytes u (C sl)))" using assms(1) by (auto simp: stores_def)
  let ?c = "\<lambda>i j. C (Stream (TS_PART_BASE + i * n + j))"
  have "lanes u (map (\<lambda>i. (i, C (Stream i))) (gather_slots g n))" by (rule chains_lanes [OF C gather_slots_ok [OF assms(2-4)]])
  then have "lanes u ([] @ concat (map (\<lambda>j. (g + j, C (Stream (g + j))) # map (\<lambda>i. (TS_PART_BASE + i * n + j, ?c i j)) [0..<n]) [0..<n]))"
    by (simp add: gather_slots_def map_concat comp_def)
  from aggregate_all_lanes [OF this, folded owner_gather_def] obtain v where v: "aggregate_all (map (owner_gather g n) [0..<n]) u = Inr v"
    "lanes v (map (\<lambda>j. (g + j, C (Stream (g + j)) @ concat (map (\<lambda>i. ?c i j) [0..<n]))) [0..<n])" "same_data u v"
    by auto
  let ?X = "\<lambda>j. C (Stream (g + j)) @ concat (map (\<lambda>i. ?c i j) [0..<n])"
  have "slot_chain v (Stream (g + j)) (?X j)" if "j < n" for j using laneD [OF v(2), of "g + j" "?X j"] that by force
  moreover have "parse_records (chain_bytes v (?X j)) = R (Stream (g + j)) @ concat (map (\<lambda>i. R (Stream (TS_PART_BASE + i * n + j))) [0..<n])" for j
    using parse_concat_chains [OF C, of "Stream (g + j) # map (\<lambda>i. Stream (TS_PART_BASE + i * n + j)) [0..<n]"]
    by (simp add: same_data_bytes [OF v(3)] R comp_def)
  ultimately show ?thesis using v(1) by (intro exI [of _ v] exI [of _ ?X]) simp
qed


lemma record_pages_concat: "record_pages (concat rss) = (\<Sum>rs\<leftarrow>rss. record_pages rs)"
  by (induction rss) (simp_all add: record_pages_def)

lemma distribute_stores:
  assumes "stores s R" "0 < n" "TS_DIST_BASE + n \<le> TS_PART_BASE" "n + record_pages (R (Io INPUT_IO_SLOT)) \<le> bump_room s"
  shows "\<exists>t R1. ts_distribute n s = Some (Inr t) \<and> stores t R1 \<and> record_pages (R (Io INPUT_IO_SLOT)) \<le> bump_room t
    \<and> concat (map (\<lambda>i. R1 (Stream (TS_DIST_BASE + i))) [0..<n]) = R (Io INPUT_IO_SLOT)
    \<and> (\<forall>k. TS_PART_BASE \<le> k \<longrightarrow> R1 (Stream k) = R (Stream k))"
proof -
  obtain C where C: "chains s C" and R: "R = (\<lambda>sl. recs s (C sl))" using assms(1) by (auto simp: stores_def)
  have pre: "INPUT_IO_SLOT < IO_SLOT_COUNT" "TS_DIST_BASE + n \<le> STREAM_SLOT_COUNT" "n \<le> bump_room s + 1"
    using assms(3,4) by (simp_all add: layout_consts ts_consts)
  obtain t D where t: "split_input_contiguous INPUT_IO_SLOT TS_DIST_BASE n s = Some (Inr t)" "chains t D"
    "concat (segments TS_DIST_BASE D t n) = recs s (C (Io INPUT_IO_SLOT))"
    "\<forall>sl. sl \<noteq> Io INPUT_IO_SLOT \<and> sl \<notin> Stream ` {TS_DIST_BASE..<TS_DIST_BASE + n} \<longrightarrow> recs t (D sl) = recs s (C sl)" "bump_room s \<le> bump_room t + (n - 1)"
    using split_chains [OF C pre(1) assms(2) pre(2,3)] by blast
  have "n < 65536" using assms(3) by (simp add: ts_consts)
  then have "ts_distribute n s = Some (Inr t)" using t(1) assms(2) by (simp add: ts_distribute_def unpack_fanout_arg_def)
  moreover have "stores t (\<lambda>sl. recs t (D sl))" using t(2) by (auto simp: stores_def)
  moreover have "record_pages (R (Io INPUT_IO_SLOT)) \<le> bump_room t" using t(5) assms(2,4) by simp
  moreover have "recs t (D (Stream k)) = R (Stream k)" if "TS_PART_BASE \<le> k" for k
  proof -
    have "Stream k \<notin> Stream ` {TS_DIST_BASE..<TS_DIST_BASE + n}" using that assms(3) by auto
    then show ?thesis using t(4) by (simp add: R)
  qed
  ultimately show ?thesis using t(3) by (intro exI [of _ t] exI [of _ "\<lambda>sl. recs t (D sl)"]) (simp add: segments_def R)
qed

section \<open>Totals\<close>

lemma u64_wrap_add [simp]: "u64_wrap (u64_wrap a + b) = u64_wrap (a + b)" "u64_wrap (a + u64_wrap b) = u64_wrap (a + b)" "u64_wrap (Suc (u64_wrap a)) = u64_wrap (Suc a)"
  by (simp_all add: u64_wrap_def mod_simps)

lemma summary_tokens:
  "split_whitespace (summary_line ks c) = [ascii ''ts_range'', ascii ''records='' @ ascii (show_nat (length ks)),
     ascii ''sorted='' @ ascii (show_nat (if sorted ks then 1 else 0)), ascii ''keysum='' @ ascii (show_nat c)]"
  "utf8_valid (summary_line ks c)" "trim (summary_line ks c) = summary_line ks c"
proof -
  let ?sp = "32 :: byte" and ?srt = "if sorted ks then 1 else 0 :: nat"
  let ?w0 = "ascii ''ts_range''" and ?w1 = "ascii ''records='' @ ascii (show_nat (length ks))"
  let ?w2 = "ascii ''sorted='' @ ascii (show_nat ?srt)" and ?w3 = "ascii ''keysum='' @ ascii (show_nat c)"
  have line: "summary_line ks c = ?w0 @ ?sp # ?w1 @ ?sp # ?w2 @ ?sp # ?w3" by (simp add: summary_line_def ascii_def)
  have p: "\<forall>b \<in> set ?w0. plain b" "\<forall>b \<in> set ?w1. plain b" "\<forall>b \<in> set ?w2. plain b" "\<forall>b \<in> set ?w3. plain b"
    using plain_show by (auto simp: ascii_def plain_def)
  have low: "\<forall>b \<in> set (summary_line ks c). b < 0x80" using p plain_ascii unfolding line by fastforce
  have ne: "?w1 \<noteq> []" "?w2 \<noteq> []" "?w3 \<noteq> []" "?w0 \<noteq> []" by (simp_all add: ascii_def)
  have w0: "ws_words (map (\<lambda>b. [b]) ?w3) [] = [?w3]" using ws_words_plain [OF p(4), of "[]" "[]"] ne by simp
  show "split_whitespace (summary_line ks c) = [?w0, ?w1, ?w2, ?w3]"
    unfolding split_whitespace_def line chars_plain [OF low [unfolded line]]
    by (simp only: ws_words_plain [OF p(1)] ws_words_plain [OF p(2)] ws_words_plain [OF p(3)] ws_words_blank w0 append_Nil ne if_False append_Cons)
  show "utf8_valid (summary_line ks c)" using valid_ascii [OF low, of "[]"] by (simp add: utf8_valid.simps)
  have "last (summary_line ks c) = last ?w3" "hd (summary_line ks c) = hd ?w0" using ne unfolding line by (simp_all add: last_append)
  moreover have "plain (last ?w3)" "plain (hd ?w0)" using p(1,4) ne by (metis last_in_set, metis hd_in_set)
  ultimately show "trim (summary_line ks c) = summary_line ks c" using trim_plain [OF low] line ne by auto
qed

lemma add_summary_line:
  assumes "length ks < 18446744073709551616" "c < 18446744073709551616" "sorted ks"
  shows "add_summary (summary_line ks c) (r, m, k, srt) = (u64_wrap (r + 1), u64_wrap (m + length ks), u64_wrap (k + c), srt)"
proof -
  have "starts_with (ascii ''ts_range'') (summary_line ks c)" by (simp add: summary_line_def starts_with_def ascii_def)
  moreover have "u64_or0 (ascii (show_nat n)) = n" if "n < 18446744073709551616" for n using that by (simp add: u64_or0_def parse_show)
  moreover have "ascii (show_nat 1) = ascii ''1''" by (simp add: show_nat.simps ascii_def digit_byte)
  ultimately show ?thesis using assms
    by (simp add: add_summary_def summary_tokens add_token_def strip_prefix_def starts_with_def ascii_def)
qed


text \<open>The summary of a range and the totals over all ranges, which do not depend on the number of workers.\<close>

definition range_line :: "stream_record list \<Rightarrow> payload" where
  "range_line rs = (let (ks, c) = fold collect_key rs ([], 0) in summary_line (sort ks) c)"

lemma foldl_wrap: "foldl (\<lambda>n b. (n + unat b) mod 18446744073709551616) c bs mod 18446744073709551616 = u64_wrap (c + sum_list (map unat (bs :: byte list)))"
  by (induction bs arbitrary: c) (simp_all add: u64_wrap_def mod_simps ac_simps)

lemma foldl_wrap_small: "c < 18446744073709551616 \<Longrightarrow> foldl (\<lambda>n b. (n + unat b) mod 18446744073709551616) c (bs :: byte list) = u64_wrap (c + sum_list (map unat bs))"
proof -
  assume "c < 18446744073709551616"
  then have "foldl (\<lambda>n b. (n + unat b) mod 18446744073709551616) c bs < 18446744073709551616"
    by (induction bs arbitrary: c) simp_all
  then show ?thesis using foldl_wrap [of c bs] by simp
qed

lemma sum_owned:
  fixes f :: "payload \<Rightarrow> nat"
  assumes "0 < n"
  shows "(\<Sum>j\<leftarrow>[0..<n]. \<Sum>p\<leftarrow>owned n j ps. f p) = (\<Sum>p\<leftarrow>filter (\<lambda>p. p \<noteq> []) ps. f p)"
proof -
  have "(\<Sum>j\<leftarrow>[0..<m]. \<Sum>p\<leftarrow>owned n j ps. f p) = (\<Sum>p\<leftarrow>filter (\<lambda>p. p \<noteq> [] \<and> owner_of (hd p) n < m) ps. f p)" for m
  proof (induction m)
    case (Suc m)
    have "(\<Sum>p\<leftarrow>filter (\<lambda>p. p \<noteq> [] \<and> owner_of (hd p) n < Suc m) ps. f p)
        = (\<Sum>p\<leftarrow>filter (\<lambda>p. p \<noteq> [] \<and> owner_of (hd p) n < m) ps. f p) + (\<Sum>p\<leftarrow>owned n m ps. f p)"
      by (induction ps) (auto simp: owned_def)
    then show ?case using Suc by simp
  qed simp
  then show ?thesis using owner_less [OF assms] by simp
qed

lemma terasort_totals:
  assumes "0 < n" "length ps < 18446744073709551616" "\<And>j. j < n \<Longrightarrow> map snd (rs j) = owned n j ps"
  shows "fold add_summary (map (\<lambda>j. range_line (rs j)) [0..<n]) (0, 0, 0, 1)
    = (u64_wrap n, length (filter (\<lambda>p. p \<noteq> []) ps), u64_wrap (\<Sum>p\<leftarrow>filter (\<lambda>p. p \<noteq> []) ps. key_sum p), 1)"
proof -
  let ?len = "\<lambda>j. length (owned n j ps)" and ?sum = "\<lambda>j. \<Sum>p\<leftarrow>owned n j ps. key_sum p"
  have line: "add_summary (range_line (rs j)) (r, m, k, srt) = (u64_wrap (r + 1), u64_wrap (m + ?len j), u64_wrap (k + ?sum j), srt)" if "j < n" for j r m k srt
  proof -
    have "filter (\<lambda>p. p \<noteq> []) (owned n j ps) = owned n j ps" by (simp add: owned_def conj_commute cong: conj_cong)
    moreover have "sum_list (map unat (concat (map (take KEY_LEN) qs))) = (\<Sum>p\<leftarrow>qs. key_sum p)" for qs :: "payload list"
      by (induction qs) (simp_all add: key_sum_def)
    ultimately have "range_line (rs j) = summary_line (sort (map ts_key (owned n j ps))) (u64_wrap (?sum j))"
      by (simp add: range_line_def collect_keys assms(3) [OF that] foldl_wrap_small del: map_map)
    moreover have "?len j \<le> length ps" by (simp add: owned_def)
    ultimately show ?thesis
      using add_summary_line [of "sort (map ts_key (owned n j ps))" "u64_wrap (?sum j)" r m k srt] assms(2) by (simp add: u64_wrap_def mod_simps)
  qed
  have "fold add_summary (map (\<lambda>j. range_line (rs j)) js) (u64_wrap r, u64_wrap m, u64_wrap k, 1)
      = (u64_wrap (r + length js), u64_wrap (m + (\<Sum>j\<leftarrow>js. ?len j)), u64_wrap (k + (\<Sum>j\<leftarrow>js. ?sum j)), 1)" if "set js \<subseteq> {..<n}" for js r m k
    using that by (induction js arbitrary: r m k) (simp_all add: line ac_simps)
  moreover have "set [0..<n] \<subseteq> {..<n}" by auto
  note this [THEN calculation, of 0 0 0]
  then have "fold add_summary (map (\<lambda>j. range_line (rs j)) [0..<n]) (0, 0, 0, 1)
      = (u64_wrap n, u64_wrap (\<Sum>j\<leftarrow>[0..<n]. ?len j), u64_wrap (\<Sum>j\<leftarrow>[0..<n]. ?sum j), 1)" by (simp add: u64_wrap_def)
  moreover have "(\<Sum>j\<leftarrow>[0..<n]. ?len j) = length (filter (\<lambda>p. p \<noteq> []) ps)"
    using sum_owned [OF assms(1), of "\<lambda>_. 1"] by (simp add: sum_list_triv)
  moreover have "length (filter (\<lambda>p. p \<noteq> []) ps) < 18446744073709551616" using assms(2) length_filter_le le_less_trans by blast
  ultimately show ?thesis using sum_owned [OF assms(1), of key_sum] by (simp add: u64_wrap_def)
qed

section \<open>Properties\<close>

text \<open>
  C10. The sorting workload repartitions and sorts. After the input is split over \<open>n\<close> workers, the workers have routed their
  shards in any order, and the parts of every owner are aggregated, the slot of owner \<open>j\<close> holds exactly the
  non-empty input records of its key range, in input order, and the owners' sorted keys one after the other
  are the sorted keys of the whole input. The totals over the owners' summaries are the number and the
  checksum of the input records, whatever the number of workers.
\<close>

theorem terasort_sorts:
  assumes "stores s R" "0 < n" "TS_DIST_BASE + n \<le> TS_PART_BASE" "TS_PART_BASE + n * n \<le> g" "g + n \<le> STREAM_SLOT_COUNT"
    and "\<forall>k < STREAM_SLOT_COUNT. TS_PART_BASE \<le> k \<longrightarrow> R (Stream k) = []" "n + record_pages (R (Io INPUT_IO_SLOT)) \<le> bump_room s"
    and "distinct order" "set order = {..<n}"
  shows "\<exists>t u v X. ts_distribute n s = Some (Inr t)
    \<and> run_workers (\<lambda>i. ts_partition (TS_DIST_BASE + i + n * 65536)) order t = Some (Inr u)
    \<and> aggregate_all (map (owner_gather g n) [0..<n]) u = Inr v
    \<and> (\<forall>j < n. slot_chain v (Stream (g + j)) (X j) \<and> map snd (parse_records (chain_bytes v (X j))) = owned n j (map snd (R (Io INPUT_IO_SLOT))))
    \<and> concat (map (\<lambda>j. sort (fst (fold collect_key (parse_records (chain_bytes v (X j))) ([], 0)))) [0..<n])
        = sort (map ts_key (filter (\<lambda>p. p \<noteq> []) (map snd (R (Io INPUT_IO_SLOT)))))
    \<and> fold add_summary (map (\<lambda>j. range_line (parse_records (chain_bytes v (X j)))) [0..<n]) (0, 0, 0, 1)
        = (n, length (filter (\<lambda>p. p \<noteq> []) (map snd (R (Io INPUT_IO_SLOT)))),
           u64_wrap (\<Sum>p\<leftarrow>filter (\<lambda>p. p \<noteq> []) (map snd (R (Io INPUT_IO_SLOT))). key_sum p), 1)"
proof -
  let ?in = "R (Io INPUT_IO_SLOT)" and ?d = "\<lambda>i. Stream (TS_DIST_BASE + i)" and ?p = "\<lambda>i j. Stream (TS_PART_BASE + i * n + j)"
  obtain t R1 where t: "ts_distribute n s = Some (Inr t)" "stores t R1" "record_pages ?in \<le> bump_room t"
    "concat (map (\<lambda>i. R1 (?d i)) [0..<n]) = ?in" "\<And>k. TS_PART_BASE \<le> k \<Longrightarrow> R1 (Stream k) = R (Stream k)"
    using distribute_stores [OF assms(1-3,7)] by blast
  have "(\<Sum>i\<leftarrow>order. record_pages (R1 (?d i))) = (\<Sum>i\<leftarrow>[0..<n]. record_pages (R1 (?d i)))"
    using assms(8,9) by (simp add: sum_list_distinct_conv_sum_set atLeast0LessThan)
  also have "\<dots> = record_pages ?in" using record_pages_concat [of "map (\<lambda>i. R1 (?d i)) [0..<n]"] t(4) by (simp add: comp_def)
  finally have "(\<Sum>i\<leftarrow>order. record_pages (R1 (?d i))) \<le> bump_room t" using t(3) by simp
  moreover have "TS_PART_BASE + n * n \<le> STREAM_SLOT_COUNT" "set order \<subseteq> {..<n}" using assms(4,5,9) by simp_all
  ultimately obtain u where u: "run_workers (\<lambda>i. ts_partition (TS_DIST_BASE + i + n * 65536)) order t = Some (Inr u)"
    "stores u (\<lambda>sl. R1 sl @ concat (map (part_of n R1 sl) order))"
    using partitions_stores [OF t(2) assms(2,3)] by blast
  let ?R = "\<lambda>sl. R1 sl @ concat (map (part_of n R1 sl) order)"
  obtain v X where v: "aggregate_all (map (owner_gather g n) [0..<n]) u = Inr v"
    "\<And>j. j < n \<Longrightarrow> slot_chain v (Stream (g + j)) (X j)"
    "\<And>j. j < n \<Longrightarrow> parse_records (chain_bytes v (X j)) = ?R (Stream (g + j)) @ concat (map (\<lambda>i. ?R (?p i j)) [0..<n])"
    using gather_owners [OF u(2) assms(2,4,5)] by blast
  have cell: "map snd (?R (?p i j)) = owned n j (map snd (R1 (?d i)))" if "i < n" "j < n" for i j
  proof -
    have "TS_PART_BASE + i * n + j < STREAM_SLOT_COUNT" using cell_bound [OF that] assms(4,5) by simp
    then have "R1 (?p i j) = []" using t(5) assms(6) by simp
    then show ?thesis using parts_at_cell [OF assms(2) that assms(8,9)] part_payloads [OF assms(2) that(2)] by simp
  qed
  have down: "?R (Stream (g + j)) = []" if "j < n" for j
  proof -
    have "TS_PART_BASE \<le> g + j" "g + j < STREAM_SLOT_COUNT" using assms(4,5) that by simp_all
    moreover have "part_of n R1 (Stream (g + j)) i = []" if "i < n" for i
      using part_target [OF assms(2), of R1 "Stream (g + j)" i] cell_bound [OF that] assms(4) by fastforce
    ultimately show ?thesis using t(5) assms(6,9) by (simp add: concat_eq_Nil_conv)
  qed
  have own: "map snd (parse_records (chain_bytes v (X j))) = owned n j (map snd ?in)" if "j < n" for j
  proof -
    have "map snd (parse_records (chain_bytes v (X j))) = concat (map (\<lambda>i. owned n j (map snd (R1 (?d i)))) [0..<n])"
      unfolding v(3) [OF that] down [OF that] append_Nil map_concat map_map comp_def
      by (intro arg_cong [of _ _ concat] map_cong refl cell) (use that in simp_all)
    also have "\<dots> = owned n j (map snd (concat (map (\<lambda>i. R1 (?d i)) [0..<n])))" by (simp add: owned_def filter_concat map_concat comp_def)
    finally show ?thesis by (simp add: t(4))
  qed
  have "sort (fst (fold collect_key (parse_records (chain_bytes v (X j))) ([], 0))) = sort (map ts_key (owned n j (map snd ?in)))" if "j < n" for j
    unfolding collect_keys own [OF that] by (simp add: owned_def conj_commute cong: conj_cong)
  then have "map (\<lambda>j. sort (fst (fold collect_key (parse_records (chain_bytes v (X j))) ([], 0)))) [0..<n]
      = map (\<lambda>j. sort (map ts_key (owned n j (map snd ?in)))) [0..<n]" by simp
  then have "concat (map (\<lambda>j. sort (fst (fold collect_key (parse_records (chain_bytes v (X j))) ([], 0)))) [0..<n])
      = sort (map ts_key (filter (\<lambda>p. p \<noteq> []) (map snd ?in)))"
    using sorted_owner_ranges [OF assms(2), of "map snd ?in"] unfolding owned_def by (simp only:)
  moreover have "fold add_summary (map (\<lambda>j. range_line (parse_records (chain_bytes v (X j)))) [0..<n]) (0, 0, 0, 1)
      = (n, length (filter (\<lambda>p. p \<noteq> []) (map snd ?in)), u64_wrap (\<Sum>p\<leftarrow>filter (\<lambda>p. p \<noteq> []) (map snd ?in). key_sum p), 1)"
  proof -
    have "length (map snd ?in) < 18446744073709551616" using stores_length8 [OF assms(1), of "Io INPUT_IO_SLOT"] by simp
    moreover have "u64_wrap n = n" using assms(3) by (simp add: ts_consts u64_wrap_def)
    ultimately show ?thesis using terasort_totals [OF assms(2) _ own] by simp
  qed
  ultimately show ?thesis using t(1) u(1) v(1,2) own by blast
qed


theorem terasort_sorts_witness:
  "\<exists>s t u v ps. append_each (Io INPUT_IO_SLOT) [[0x60, 1], [0x21, 2], []] format_shared_memory = Inr s \<and> ts_distribute 2 s = Some (Inr t)
     \<and> run_workers (\<lambda>i. ts_partition (TS_DIST_BASE + i + 2 * 65536)) [1, 0] t = Some (Inr u)
     \<and> aggregate_all (map (owner_gather 400 2) [0, 1]) u = Inr v
     \<and> slot_chain v (Stream 400) ps \<and> map snd (parse_records (chain_bytes v ps)) = [[0x21, 2]]"
proof -
  let ?ps = "[[0x60, 1], [0x21, 2], []] :: payload list"
  have sl: "slot_in_range (Io INPUT_IO_SLOT)" by (simp add: layout_consts)
  have pg: "append_pages ?ps = 3" by (simp add: append_pages_def pages_for_def layout_consts)
  obtain s where s: "append_each (Io INPUT_IO_SLOT) ?ps format_shared_memory = Inr s"
    "stores s ((\<lambda>_. [])(Io INPUT_IO_SLOT := origin_of (Io INPUT_IO_SLOT) ?ps))" "908531 \<le> bump_room s + 3"
    using append_each_stores [OF stores_format sl, of ?ps] pg by (auto simp: bump_room_format)
  let ?R = "(\<lambda>_. [])(Io INPUT_IO_SLOT := origin_of (Io INPUT_IO_SLOT) ?ps)"
  have "record_pages (?R (Io INPUT_IO_SLOT)) = 3" by (simp add: record_pages_def origin_of_def pages_for_def layout_consts)
  then have h: "2 + record_pages (?R (Io INPUT_IO_SLOT)) \<le> bump_room s" using s(3) by simp
  have "TS_DIST_BASE + 2 \<le> TS_PART_BASE" "TS_PART_BASE + 2 * 2 \<le> (400 :: nat)" "400 + 2 \<le> STREAM_SLOT_COUNT" "distinct [1, 0 :: nat]" "set [1, 0] = {..<2 :: nat}"
    by (auto simp: ts_consts layout_consts)
  note w = terasort_sorts [OF s(2) _ this(1-3) _ h this(4,5)]
  obtain t u v X where r: "ts_distribute 2 s = Some (Inr t)" "run_workers (\<lambda>i. ts_partition (TS_DIST_BASE + i + 2 * 65536)) [1, 0] t = Some (Inr u)"
    "aggregate_all (map (owner_gather 400 2) [0..<2]) u = Inr v" "slot_chain v (Stream (400 + 0)) (X 0)"
    "map snd (parse_records (chain_bytes v (X 0))) = owned 2 0 (map snd (?R (Io INPUT_IO_SLOT)))"
    using w by force
  have o: "owned 2 0 (map snd (?R (Io INPUT_IO_SLOT))) = [[0x21, 2]]" by (simp add: owned_def origin_of_def owner_of_def ts_consts)
  have up: "[0..<2] = [0, 1 :: nat]" by (simp add: upt_rec)
  have "aggregate_all (map (owner_gather 400 2) [0, 1]) u = Inr v" using r(3) unfolding up .
  moreover have "slot_chain v (Stream 400) (X 0)" "map snd (parse_records (chain_bytes v (X 0))) = [[0x21, 2]]" using r(4) unfolding r(5) o by simp_all
  ultimately show ?thesis using s(1) r(1,2)
    by - (rule exI [of _ s], rule exI [of _ t], rule exI [of _ u], rule exI [of _ v], rule exI [of _ "X 0"], intro conjI; assumption)
qed

end
