(* ===== verification/Word_Count.thy ===== *)
theory Word_Count
  imports Terasort
begin

text \<open>
  The word count workload (\<open>guest/src/workloads/word_count.rs\<close>): mappers count the words of their lines, one reducer sums
  the counts and writes the report. The order in which a hash map is walked is the parameter \<open>ord\<close>, the letters
  above ASCII are the parameter \<open>uni\<close>. Counts are 64-bit.
\<close>

section \<open>Maps of counts\<close>

text \<open>\<open>*m.entry(k).or_insert(0) += n\<close> on a map kept in the order of its keys.\<close>

fun upsert :: "'k::linorder \<Rightarrow> nat \<Rightarrow> ('k \<times> nat) list \<Rightarrow> ('k \<times> nat) list" where
  "upsert k n [] = [(k, u64_wrap n)]"
| "upsert k n ((k', v) # m) =
     (if k < k' then (k, u64_wrap n) # (k', v) # m else if k = k' then (k, u64_wrap (v + n)) # m else (k', v) # upsert k n m)"

section \<open>The workload\<close>

definition WC_DIST_BASE :: nat where "WC_DIST_BASE = 10"
definition WC_MAP_OUT_BASE :: nat where "WC_MAP_OUT_BASE = 100"

definition wc_distribute :: "nat \<Rightarrow> 'a shm_scheme \<Rightarrow> (err + 'a shm_scheme) option" where
  "wc_distribute arg s =
     (let (out_base, n_workers) = unpack_fanout_arg arg WC_DIST_BASE
      in if n_workers = 0 then Some (Inr s) else split_input_contiguous INPUT_IO_SLOT out_base n_workers s)"

definition is_alphabetic :: "(byte list \<Rightarrow> bool) \<Rightarrow> byte list \<Rightarrow> bool" where
  "is_alphabetic uni c = (case c of [b] \<Rightarrow> 65 \<le> b \<and> b \<le> 90 \<or> 97 \<le> b \<and> b \<le> 122 | _ \<Rightarrow> uni c)"

definition ascii_lower :: "byte list \<Rightarrow> byte list" where
  "ascii_lower c = (case c of [b] \<Rightarrow> if 65 \<le> b \<and> b \<le> 90 then [b + 32] else c | _ \<Rightarrow> c)"

definition token_word :: "(byte list \<Rightarrow> bool) \<Rightarrow> byte list \<Rightarrow> byte list" where
  "token_word uni tok = concat (map ascii_lower (filter (is_alphabetic uni) (chars_of tok)))"

definition line_words :: "(byte list \<Rightarrow> bool) \<Rightarrow> payload \<Rightarrow> byte list list" where
  "line_words uni rec =
     filter (\<lambda>w. w \<noteq> []) (map (token_word uni) (split_whitespace (if utf8_valid rec then rec else [])))"

definition count_words :: "(byte list \<Rightarrow> bool) \<Rightarrow> payload list \<Rightarrow> (byte list \<times> nat) list" where
  "count_words uni ls = fold (\<lambda>w. upsert w 1) (concat (map (line_words uni) ls)) []"

definition wc_record :: "byte list \<times> nat \<Rightarrow> payload" where
  "wc_record wn = ascii ''word='' @ fst wn @ 0x1F # ascii (show_nat (snd wn))"

definition wc_map ::
  "((byte list \<times> nat) list \<Rightarrow> (byte list \<times> nat) list) \<Rightarrow> (byte list \<Rightarrow> bool) \<Rightarrow> nat \<Rightarrow> 'a shm_scheme \<Rightarrow> (err + 'a shm_scheme) option" where
  "wc_map ord uni slot s =
     (case read_all_stream_records slot s of
        None \<Rightarrow> None
      | Some (Inl e) \<Rightarrow> Some (Inl e)
      | Some (Inr (rs, t)) \<Rightarrow>
          Some (append_each (Stream (wrap32 (slot + WC_MAP_OUT_BASE))) (map wc_record (ord (count_words uni (map snd rs)))) t))"

definition parse_wc :: "payload \<Rightarrow> (byte list \<times> nat) option" where
  "parse_wc rec =
     Option.bind (strip_prefix (ascii ''word='') (if utf8_valid rec then rec else [])) (\<lambda>body.
     Option.bind (split_once 0x1F body) (\<lambda>(word, cnt). if word = [] then None else Some (word, u64_or0 cnt)))"

definition wc_totals :: "payload list \<Rightarrow> (byte list \<times> nat) list" where
  "wc_totals rs = fold (\<lambda>(w, n). upsert w n) (List.map_filter parse_wc rs) []"

definition report_word :: "byte list \<times> nat \<Rightarrow> payload" where
  "report_word wn = fst wn @ ascii '': '' @ ascii (show_nat (snd wn))"

definition wc_report :: "nat \<Rightarrow> (byte list \<times> nat) list \<Rightarrow> payload list" where
  "wc_report received m =
     [ascii ''=== word_count ==='', ascii ''map_records_received='' @ ascii (show_nat received), ascii ''unique_words='' @ ascii (show_nat (length m)),
      ascii ''total_occurrences='' @ ascii (show_nat (u64_wrap (sum_list (map snd m))))]
     @ map report_word m"

text \<open>The totals are collected from the hash map and sorted by word, which is the order they are kept in.\<close>

definition wc_reduce :: "nat \<Rightarrow> 'a shm_scheme \<Rightarrow> (err + 'a shm_scheme) option" where
  "wc_reduce slot s =
     (case read_all_stream_records slot s of
        None \<Rightarrow> None
      | Some (Inl e) \<Rightarrow> Some (Inl e)
      | Some (Inr (rs, t)) \<Rightarrow> Some (append_each (Io OUTPUT_IO_SLOT) (wc_report (length rs) (wc_totals (map snd rs))) t))"

section \<open>Sums of counts\<close>

definition keys_sorted :: "('k::linorder \<times> nat) list \<Rightarrow> bool" where
  "keys_sorted m \<longleftrightarrow> sorted_wrt (<) (map fst m) \<and> (\<forall>kn \<in> set m. snd kn < 18446744073709551616)"

definition count_of :: "('k \<times> nat) list \<Rightarrow> 'k \<Rightarrow> nat" where
  "count_of m k = (case map_of m k of Some n \<Rightarrow> n | None \<Rightarrow> 0)"

lemma u64_wrap_less [simp]: "u64_wrap n < 18446744073709551616" "n < 18446744073709551616 \<Longrightarrow> u64_wrap n = n"
  by (simp_all add: u64_wrap_def)

lemma keys_upsert: "fst ` set (upsert k n m) = insert k (fst ` set m)"
  by (induction k n m rule: upsert.induct) auto

lemma upsert_sorted: "keys_sorted m \<Longrightarrow> keys_sorted (upsert k n m)"
proof (induction k n m rule: upsert.induct)
  case (2 k n k' v m)
  have s: "keys_sorted m" "\<forall>x \<in> fst ` set m. k' < x" "v < 18446744073709551616" using "2.prems" by (auto simp: keys_sorted_def)
  show ?case
  proof (cases "k < k'")
    case True
    then show ?thesis using "2.prems" s by (auto simp: keys_sorted_def)
  next
    case False
    then show ?thesis using "2.IH" s keys_upsert [of k n m] by (auto simp: keys_sorted_def)
  qed
qed (simp add: keys_sorted_def)

lemma count_upsert: "keys_sorted m \<Longrightarrow> count_of (upsert k n m) x = (if x = k then u64_wrap (count_of m k + n) else count_of m x)"
proof (induction k n m rule: upsert.induct)
  case (2 k n k' v m)
  have s: "keys_sorted m" "\<forall>y \<in> fst ` set m. k' < y" using "2.prems" by (auto simp: keys_sorted_def)
  have "map_of m k = None" if "k < k'" using s(2) that by (force simp: map_of_eq_None_iff)
  then show ?case using "2.IH" s by (auto simp: count_of_def)
qed (simp add: count_of_def)

text \<open>A map is determined by its keys and counts.\<close>

lemma keys_sorted_eqI:
  assumes "keys_sorted m" "keys_sorted m'" "fst ` set m = fst ` set m'" "count_of m = count_of m'"
  shows "m = m'"
proof -
  have m: "m = map (\<lambda>k. (k, count_of m k)) (map fst m)" if "keys_sorted m" for m :: "('a \<times> nat) list"
  proof -
    have "distinct (map fst m)" using that by (simp add: keys_sorted_def strict_sorted_iff)
    then have "(fst kn, count_of m (fst kn)) = kn" if "kn \<in> set m" for kn using that by (cases kn) (simp add: count_of_def)
    then show ?thesis by (simp add: comp_def map_idI)
  qed
  have "map fst m = map fst m'" using assms(1-3) by (intro strict_sorted_equal) (simp_all add: keys_sorted_def)
  then show ?thesis using m [OF assms(1)] m [OF assms(2)] assms(4) by metis
qed

text \<open>Folding entries into a map: the order of the entries does not matter.\<close>

definition tally :: "('k::linorder \<times> nat) list \<Rightarrow> ('k \<times> nat) list" where
  "tally es = fold (\<lambda>(k, n). upsert k n) es []"

definition total_of :: "('k \<times> nat) list \<Rightarrow> 'k \<Rightarrow> nat" where
  "total_of es k = sum_list (map snd (filter (\<lambda>e. fst e = k) es))"

lemma fold_upsert:
  assumes "keys_sorted m"
  shows "keys_sorted (fold (\<lambda>(k, n). upsert k n) es m)" "fst ` set (fold (\<lambda>(k, n). upsert k n) es m) = fst ` set m \<union> fst ` set es"
    "u64_wrap (count_of (fold (\<lambda>(k, n). upsert k n) es m) x) = u64_wrap (count_of m x + total_of es x)"
  using assms
proof (induction es arbitrary: m)
  case (Cons e es)
  obtain k n where e: "e = (k, n)" by force
  { case 1 then show ?case using Cons.IH(1) [OF upsert_sorted] by (simp add: e) }
  { case 2 then show ?case using Cons.IH(2) [OF upsert_sorted] by (auto simp: e keys_upsert) }
  { case 3
    have "u64_wrap (count_of (fold (\<lambda>(k, n). upsert k n) es (upsert k n m)) x) = u64_wrap (count_of (upsert k n m) x + total_of es x)"
      by (rule Cons.IH(3) [OF upsert_sorted [OF 3]])
    also have "\<dots> = u64_wrap (count_of m x + total_of (e # es) x)" by (simp add: count_upsert [OF 3] e total_of_def add.assoc)
    finally show ?case by (simp add: e) }
qed (simp_all add: total_of_def)

lemma count_small: "keys_sorted m \<Longrightarrow> count_of m k < 18446744073709551616"
  by (force simp: count_of_def keys_sorted_def split: option.split dest: map_of_SomeD)

lemma tally_props:
  "keys_sorted (tally es)" "fst ` set (tally es) = fst ` set es" "count_of (tally es) k = u64_wrap (total_of es k)"
proof -
  have n: "keys_sorted ([] :: ('a \<times> nat) list)" by (simp add: keys_sorted_def)
  show s: "keys_sorted (tally es)" using fold_upsert(1) [OF n] by (simp add: tally_def)
  show "fst ` set (tally es) = fst ` set es" using fold_upsert(2) [OF n] by (simp add: tally_def)
  show "count_of (tally es) k = u64_wrap (total_of es k)"
    using fold_upsert(3) [OF n, of es k] count_small [OF s, of k] by (simp add: tally_def count_of_def)
qed

lemma tally_eqI: "fst ` set es = fst ` set es' \<Longrightarrow> (\<And>k. u64_wrap (total_of es k) = u64_wrap (total_of es' k)) \<Longrightarrow> tally es = tally es'"
  by (rule keys_sorted_eqI) (simp_all add: tally_props fun_eq_iff)

lemma total_of_append [simp]: "total_of (a @ b) k = total_of a k + total_of b k"
  by (simp add: total_of_def)

text \<open>Tallying parts and tallying the parts' tallies, walked in any order, give the tally of everything.\<close>

lemma tally_parts:
  assumes "\<And>m. mset (ord m) = mset m"
  shows "tally (concat (map (\<lambda>es. ord (tally es)) ess)) = tally (concat ess)"
proof (rule tally_eqI)
  have o: "total_of (ord m) k = total_of m k" for m k
    unfolding total_of_def sum_mset_sum_list [symmetric] by (simp add: assms)
  have t: "total_of (tally es) k = u64_wrap (total_of es k)" for es :: "('a \<times> nat) list" and k
  proof -
    have "distinct (map fst m) \<Longrightarrow> total_of m k = count_of m k" for m :: "('a \<times> nat) list"
    proof (induction m)
      case (Cons e m)
      have "fst e \<notin> fst ` set m" using Cons.prems by simp
      then have "filter (\<lambda>e'. fst e' = fst e) m = []" by (metis (mono_tags) filter_False image_eqI)
      then show ?case using Cons by (cases e) (auto simp: total_of_def count_of_def)
    qed (simp add: total_of_def count_of_def)
    then show ?thesis using tally_props(1,3) [of es] by (simp add: keys_sorted_def strict_sorted_iff)
  qed
  have s: "fst ` set (ord m) = fst ` set m" for m using assms [of m] by (metis set_mset_mset)
  show "fst ` set (concat (map (\<lambda>es. ord (tally es)) ess)) = fst ` set (concat ess)"
    by (induction ess) (simp_all add: image_Un s tally_props(2))
  show "u64_wrap (total_of (concat (map (\<lambda>es. ord (tally es)) ess)) k) = u64_wrap (total_of (concat ess) k)" for k
  proof (induction ess)
    case (Cons es ess)
    have "u64_wrap (total_of es k + total_of (concat (map (\<lambda>es. ord (tally es)) ess)) k) = u64_wrap (total_of es k + total_of (concat ess) k)"
      using Cons by (metis u64_wrap_add(2))
    then show ?case by (simp add: o t)
  qed simp
qed

lemma count_words_tally: "count_words uni ls = tally (map (\<lambda>w. (w, 1)) (concat (map (line_words uni) ls)))"
proof -
  have "fold (\<lambda>w. upsert w 1) ws m = fold (\<lambda>(k, n). upsert k n) (map (\<lambda>w. (w, 1)) ws) m" for ws and m :: "(byte list \<times> nat) list"
    by (induction ws arbitrary: m) simp_all
  then show ?thesis by (simp add: count_words_def tally_def)
qed


section \<open>Words\<close>

definition word_ok :: "(byte list \<Rightarrow> bool) \<Rightarrow> byte list \<Rightarrow> bool" where
  "word_ok uni w \<longleftrightarrow> w \<noteq> [] \<and> (\<exists>cs. w = concat cs \<and> (\<forall>c \<in> set cs. is_char c \<and> is_alphabetic uni c))"

lemma lower_char:
  assumes "is_char c" "is_alphabetic uni c"
  shows "is_char (ascii_lower c) \<and> is_alphabetic uni (ascii_lower c)"
proof (cases "\<exists>b. c = [b] \<and> 65 \<le> b \<and> b \<le> 90")
  case True
  then obtain b where b: "c = [b]" "65 \<le> unat b" "unat b \<le> 90" by (auto simp: word_le_nat_alt)
  have "unat (b + 32) = unat b + 32" using b by (subst unat_plus_if') simp
  then show ?thesis using b by (auto simp: ascii_lower_def is_alphabetic_def word_le_nat_alt word_less_nat_alt)
next
  case False
  then have "ascii_lower c = c" by (auto simp: ascii_lower_def split: list.splits)
  then show ?thesis using assms by simp
qed

lemma line_words_ok: "w \<in> set (line_words uni rec) \<Longrightarrow> word_ok uni w"
proof -
  assume "w \<in> set (line_words uni rec)"
  then obtain tok where tok: "tok \<in> set (split_whitespace (if utf8_valid rec then rec else []))" "w = token_word uni tok" "w \<noteq> []"
    by (auto simp: line_words_def)
  have "\<forall>c \<in> set (chars_of (if utf8_valid rec then rec else [])). is_char c" using chars_valid by auto
  then obtain ds where ds: "tok = concat ds" "\<forall>d \<in> set ds. is_char d"
    using ws_words_chars [of _ "[]" "[]" tok] tok(1) unfolding split_whitespace_def by auto
  have "w = concat (map ascii_lower (filter (is_alphabetic uni) ds))" using tok(2) chars_concat_only [OF ds(2)] ds(1) by (simp add: token_word_def)
  moreover have "\<forall>c \<in> set (map ascii_lower (filter (is_alphabetic uni) ds)). is_char c \<and> is_alphabetic uni c"
    using ds(2) lower_char by fastforce
  ultimately show ?thesis using tok(3) unfolding word_ok_def by blast
qed

lemma word_bytes: "word_ok uni w \<Longrightarrow> b \<in> set w \<Longrightarrow> 65 \<le> b"
proof -
  assume "word_ok uni w" "b \<in> set w"
  then obtain c where c: "is_char c" "is_alphabetic uni c" "b \<in> set c" unfolding word_ok_def set_concat by fastforce
  show ?thesis
  proof (cases "length c = 1")
    case True
    then show ?thesis using c(2,3) by (auto simp: is_alphabetic_def length_Suc_conv word_le_nat_alt)
  next
    case False
    then show ?thesis using char_bytes [OF c(1) False c(3)] by (simp add: word_le_nat_alt)
  qed
qed

lemma word_text:
  assumes "word_ok uni w"
  shows "utf8_valid (w @ x) = utf8_valid x" "\<exists>cs. cs \<noteq> [] \<and> chars_of (w @ x) = cs @ chars_of x \<and> concat cs = w \<and> (\<forall>c \<in> set cs. is_alphabetic uni c)"
proof -
  obtain cs where cs: "w = concat cs" "\<forall>c \<in> set cs. is_char c \<and> is_alphabetic uni c" "w \<noteq> []" using assms by (auto simp: word_ok_def)
  then show "utf8_valid (w @ x) = utf8_valid x" using chars_concat [of cs x] by simp
  show "\<exists>cs. cs \<noteq> [] \<and> chars_of (w @ x) = cs @ chars_of x \<and> concat cs = w \<and> (\<forall>c \<in> set cs. is_alphabetic uni c)"
    using cs chars_concat [of cs x] by (intro exI [of _ cs]) auto
qed

lemma show_valid: "utf8_valid (ascii (show_nat n))"
  using valid_ascii [of "ascii (show_nat n)" "[]"] plain_show plain_ascii by (simp add: utf8_valid.simps)

lemma parse_wc_record:
  assumes "word_ok uni w" "n < 18446744073709551616"
  shows "parse_wc (wc_record (w, n)) = Some (w, n)"
proof -
  have "utf8_valid (ascii ''word='' @ w @ 0x1F # ascii (show_nat n))"
    using valid_ascii [of "ascii ''word=''"] valid_ascii [of "[0x1F]"] word_text(1) [OF assms(1)] show_valid [of n] by (simp add: ascii_def)
  moreover have "(0x1F :: byte) \<notin> set w" using word_bytes [OF assms(1), of "0x1F"] by (auto simp: word_le_nat_alt)
  moreover have "w \<noteq> []" using assms(1) by (simp add: word_ok_def)
  ultimately show ?thesis using assms(2) by (simp add: parse_wc_def wc_record_def split_once_at u64_or0_def parse_show)
qed

definition entries_ok :: "(byte list \<Rightarrow> bool) \<Rightarrow> (byte list \<times> nat) list \<Rightarrow> bool" where
  "entries_ok uni m \<longleftrightarrow> (\<forall>(w, n) \<in> set m. word_ok uni w \<and> n < 18446744073709551616)"

lemma count_words_ok: "entries_ok uni (count_words uni ls)"
proof -
  let ?es = "map (\<lambda>w. (w, 1)) (concat (map (line_words uni) ls))"
  have "word_ok uni w \<and> n < 18446744073709551616" if "(w, n) \<in> set (count_words uni ls)" for w n
  proof -
    have "w \<in> fst ` set (tally ?es)" using that by (force simp: count_words_tally)
    then have "w \<in> set (concat (map (line_words uni) ls))" unfolding tally_props(2) by auto
    moreover have "n < 18446744073709551616" using that tally_props(1) [of ?es] by (auto simp: count_words_tally keys_sorted_def)
    ultimately show ?thesis using line_words_ok by auto
  qed
  then show ?thesis by (auto simp: entries_ok_def)
qed

lemma parse_records_back: "entries_ok uni m \<Longrightarrow> List.map_filter parse_wc (map wc_record m) = m"
  by (induction m) (auto simp: entries_ok_def parse_wc_record map_filter_simps)

text \<open>Mapping parts of the lines and reducing all the records, in any order of the hash maps, counts the words of all lines.\<close>

lemma map_reduce_counts:
  assumes "\<And>m. mset (ord m) = mset m"
  shows "wc_totals (concat (map (\<lambda>ls. map wc_record (ord (count_words uni ls))) lss)) = count_words uni (concat lss)"
proof -
  have "entries_ok uni (ord (count_words uni ls))" for ls
    using count_words_ok [of uni ls] assms [of "count_words uni ls"] unfolding entries_ok_def by (metis set_mset_mset)
  then have "List.map_filter parse_wc (concat (map (\<lambda>ls. map wc_record (ord (count_words uni ls))) lss)) = concat (map (\<lambda>ls. ord (count_words uni ls)) lss)"
    proof (induction lss)
    case (Cons ls lss)
    have "List.map_filter parse_wc (a @ b) = List.map_filter parse_wc a @ List.map_filter parse_wc b" for a b by (simp add: map_filter_def)
    then show ?case using Cons parse_records_back [OF Cons.prems [of ls]] by simp
  qed (simp add: map_filter_simps)
  moreover have "concat (map (\<lambda>ls. ord (count_words uni ls)) lss)
      = concat (map (\<lambda>es. ord (tally es)) (map (\<lambda>ls. map (\<lambda>w. (w, 1)) (concat (map (line_words uni) ls))) lss))"
    by (simp add: count_words_tally comp_def)
  moreover have "concat (map (\<lambda>ls. map (\<lambda>w. (w, 1 :: nat)) (concat (map (line_words uni) ls))) lss) = map (\<lambda>w. (w, 1)) (concat (map (line_words uni) (concat lss)))"
    by (induction lss) simp_all
  ultimately show ?thesis
    using tally_parts [OF assms, of "map (\<lambda>ls. map (\<lambda>w. (w, 1)) (concat (map (line_words uni) ls))) lss"]
    unfolding wc_totals_def tally_def [symmetric] count_words_tally by (simp only:)
qed

section \<open>The stages on the store\<close>

lemma read_then_append:
  assumes "stores s R" "i < STREAM_SLOT_COUNT" "slot_in_range sl" "\<forall>pl \<in> set (f (R (Stream i))). length pl < 4294967296"
    "append_pages (f (R (Stream i))) \<le> bump_room s"
  shows "\<exists>t. (case read_all_stream_records i s of
        None \<Rightarrow> None | Some (Inl e) \<Rightarrow> Some (Inl e) | Some (Inr (rs, u)) \<Rightarrow> Some (append_each sl (f rs) u)) = Some (Inr t)
    \<and> stores t (R(sl := R sl @ origin_of sl (f (R (Stream i)))))"
proof -
  obtain u where u: "read_all_records (Stream i) s = Some (Inr (R (Stream i), u))" "stores u R"
    using shm_store.read_rel [OF assms(1), of "Stream i"] assms(2) by auto
  have "read_all_stream_records i s = read_all_records (Stream i) s" by (simp add: read_all_stream_records_def read_all_records_def)
  moreover obtain t where "append_each sl (f (R (Stream i))) u = Inr t" "stores t (R(sl := R sl @ origin_of sl (f (R (Stream i)))))"
    using append_each_stores [OF u(2) assms(3,4)] assms(5) read_all_records_room [OF u(1)] by auto
  ultimately show ?thesis using u(1) by auto
qed

text \<open>A mapper appends the records of its counts to its output slot, the reducer the report to the output.\<close>

lemma wc_map_stores:
  assumes "stores s R" "i + WC_MAP_OUT_BASE < STREAM_SLOT_COUNT"
    and "rs = map wc_record (ord (count_words uni (map snd (R (Stream i)))))" "\<forall>pl \<in> set rs. length pl < 4294967296" "append_pages rs \<le> bump_room s"
  shows "\<exists>t. wc_map ord uni i s = Some (Inr t)
    \<and> stores t (R(Stream (i + WC_MAP_OUT_BASE) := R (Stream (i + WC_MAP_OUT_BASE)) @ origin_of (Stream (i + WC_MAP_OUT_BASE)) rs))"
proof -
  have w: "wrap32 (i + WC_MAP_OUT_BASE) = i + WC_MAP_OUT_BASE" using assms(2) by (intro wrap32_id) (simp add: layout_consts)
  show ?thesis
    unfolding wc_map_def w assms(3)
    by (rule read_then_append [where f = "\<lambda>rs. map wc_record (ord (count_words uni (map snd rs)))"]) (use assms in auto)
qed

lemma wc_reduce_stores:
  assumes "stores s R" "i < STREAM_SLOT_COUNT"
    and "rs = wc_report (length (R (Stream i))) (wc_totals (map snd (R (Stream i))))" "\<forall>pl \<in> set rs. length pl < 4294967296" "append_pages rs \<le> bump_room s"
  shows "\<exists>t. wc_reduce i s = Some (Inr t) \<and> stores t (R(Io OUTPUT_IO_SLOT := R (Io OUTPUT_IO_SLOT) @ origin_of (Io OUTPUT_IO_SLOT) rs))"
  unfolding wc_reduce_def assms(3)
  by (rule read_then_append [where f = "\<lambda>rs. wc_report (length rs) (wc_totals (map snd rs))"]) (use assms in \<open>auto simp: layout_consts\<close>)

end
