(* ===== verification/Shards.thy ===== *)
theory Shards
  imports Word_Count Slicing
begin

text \<open>
  Splitting a job's input into shard files and merging the partial outputs (\<open>host/src/shard.rs\<close>), outside the region. Files are
  their bytes; the failures of the file system are left out.
\<close>

datatype shard_err = ZeroShards | NoPartials | BadLine | TopkCount | UnknownReducer

section \<open>Split\<close>

definition per_shard :: "nat \<Rightarrow> nat \<Rightarrow> nat" where
  "per_shard total_len n = max 1 ((total_len + n - 1) div n)"

fun shard_loop :: "nat \<Rightarrow> nat \<Rightarrow> byte list list \<Rightarrow> nat \<Rightarrow> nat \<Rightarrow> byte list list \<Rightarrow> byte list list" where
  "shard_loop n per [] shard written bufs = bufs"
| "shard_loop n per (line # ls) shard written bufs =
     (let (sh, w) = (if shard + 1 < n \<and> per \<le> written then (shard + 1, 0) else (shard, written))
      in shard_loop n per ls sh (w + length line) (bufs[sh := bufs ! sh @ line]))"

definition run_split :: "byte list \<Rightarrow> nat \<Rightarrow> shard_err + byte list list" where
  "run_split dat n =
     (if n = 0 then Inl ZeroShards else Inr (shard_loop n (per_shard (length dat) n) (line_pieces dat) 0 0 (replicate n [])))"

section \<open>Merge\<close>

definition partial_lines :: "byte list \<Rightarrow> shard_err + byte list list" where
  "partial_lines dat = (if list_all utf8_valid (line_pieces dat) then Inr (map chomp (line_pieces dat)) else Inl BadLine)"

text \<open>The lines of all partials, one after the other; the first line that is not UTF-8 ends the merge.\<close>

fun all_lines :: "byte list list \<Rightarrow> shard_err + byte list list" where
  "all_lines [] = Inr []"
| "all_lines (p # ps) =
     (case partial_lines p of Inl e \<Rightarrow> Inl e | Inr ls \<Rightarrow> map_sum id (append ls) (all_lines ps))"

definition wc_line :: "byte list \<Rightarrow> nat \<times> (byte list \<times> nat) list \<Rightarrow> nat \<times> (byte list \<times> nat) list" where
  "wc_line raw acc =
     (let line = trim raw; (received, counts) = acc;
          body = (case rsplit_once 58 line of
                    Some (word, cnt) \<Rightarrow> (case parse_uint 18446744073709551615 (trim cnt) of
                                          Some c \<Rightarrow> (received, upsert (trim word) c counts) | None \<Rightarrow> acc)
                  | None \<Rightarrow> acc)
      in if line = [] \<or> starts_with (ascii ''=== '') line then acc
         else case split_once 61 line of
                Some (k, v) \<Rightarrow>
                  if contains_sub (ascii '': '') line then body
                  else if trim k = ascii ''map_records_received'' then (u64_wrap (received + u64_or0 (trim v)), counts) else acc
              | None \<Rightarrow> body)"

definition lines_file :: "byte list list \<Rightarrow> byte list" where
  "lines_file ls = concat (map (\<lambda>l. l @ [10]) ls)"

definition merge_wordcount :: "byte list list \<Rightarrow> shard_err + byte list" where
  "merge_wordcount partials =
     map_sum id (\<lambda>ls. lines_file (case_prod wc_report (fold wc_line ls (0, [])))) (all_lines partials)"

text \<open>The state of the counter reducer: header, keys in the order they came, sums and other values.\<close>

record counters =
  c_header :: "byte list option"
  c_order :: "byte list list"
  c_sums :: "byte list \<rightharpoonup> nat"
  c_raw :: "byte list \<rightharpoonup> byte list"

definition counter_line :: "byte list \<Rightarrow> counters \<Rightarrow> counters" where
  "counter_line raw c =
     (let line = trim raw in
      if line = [] then c
      else if starts_with (ascii ''=== '') line
      then c\<lparr>c_header := (case c_header c of None \<Rightarrow> Some line | Some h \<Rightarrow> Some h)\<rparr>
      else case split_once 61 line of
             None \<Rightarrow> c
           | Some (k0, v0) \<Rightarrow>
               (let k = trim k0; v = trim v0;
                    c1 = (if c_sums c k = None \<and> c_raw c k = None then c\<lparr>c_order := c_order c @ [k]\<rparr> else c)
                in case parse_uint 18446744073709551615 v of
                     Some n \<Rightarrow> c1\<lparr>c_sums := (c_sums c1)(k \<mapsto> u64_wrap ((case c_sums c1 k of Some m \<Rightarrow> m | None \<Rightarrow> 0) + n))\<rparr>
                   | None \<Rightarrow> c1\<lparr>c_raw := (c_raw c1)(k \<mapsto> v)\<rparr>))"

definition counter_out :: "counters \<Rightarrow> byte list list" where
  "counter_out c =
     (case c_header c of Some h \<Rightarrow> [h] | None \<Rightarrow> [])
     @ concat (map (\<lambda>k. case c_sums c k of Some n \<Rightarrow> [k @ 61 # ascii (show_nat n)]
                        | None \<Rightarrow> (case c_raw c k of Some v \<Rightarrow> [k @ 61 # v] | None \<Rightarrow> [])) (c_order c))"

definition merge_counters :: "byte list list \<Rightarrow> shard_err + byte list" where
  "merge_counters partials =
     map_sum id (\<lambda>ls. lines_file (counter_out (fold counter_line ls \<lparr>c_header = None, c_order = [], c_sums = Map.empty, c_raw = Map.empty\<rparr>)))
       (all_lines partials)"

definition keyed :: "(byte list \<times> byte list) option \<Rightarrow> (byte list \<times> nat) option" where
  "keyed kv = Option.bind kv (\<lambda>(k, v). map_option (Pair (trim k)) (parse_uint 18446744073709551615 (trim v)))"

definition parse_key_num :: "byte list \<Rightarrow> (byte list \<times> nat) option" where
  "parse_key_num raw =
     (let line = trim raw in
      if line = [] \<or> starts_with (ascii ''=== '') line then None
      else case keyed (rsplit_once 58 line) of
             Some e \<Rightarrow> Some e
           | None \<Rightarrow> (case keyed (rsplit_once 61 line) of Some e \<Rightarrow> Some e | None \<Rightarrow> keyed (rsplit_whitespace line)))"

definition fold_key_nums :: "byte list list \<Rightarrow> shard_err + (byte list \<times> nat) list" where
  "fold_key_nums partials = map_sum id (\<lambda>ls. fold (\<lambda>(k, n). upsert k n) (List.map_filter parse_key_num ls) []) (all_lines partials)"

definition count_line :: "byte list \<times> nat \<Rightarrow> byte list" where
  "count_line kn = fst kn @ ascii '': '' @ ascii (show_nat (snd kn))"

definition merge_sum :: "byte list list \<Rightarrow> shard_err + byte list" where
  "merge_sum partials = map_sum id (\<lambda>m. lines_file (map count_line m)) (fold_key_nums partials)"

definition rank_before :: "byte list \<times> nat \<Rightarrow> byte list \<times> nat \<Rightarrow> bool" where
  "rank_before a b \<longleftrightarrow> snd b < snd a \<or> snd a = snd b \<and> fst a < fst b"

fun insert_ranked :: "byte list \<times> nat \<Rightarrow> (byte list \<times> nat) list \<Rightarrow> (byte list \<times> nat) list" where
  "insert_ranked x [] = [x]"
| "insert_ranked x (y # ys) = (if rank_before y x then y # insert_ranked x ys else x # y # ys)"

definition ranked :: "(byte list \<times> nat) list \<Rightarrow> (byte list \<times> nat) list" where
  "ranked m = foldr insert_ranked m []"

definition merge_topk :: "byte list list \<Rightarrow> nat \<Rightarrow> shard_err + byte list" where
  "merge_topk partials k = map_sum id (\<lambda>m. lines_file (map count_line (take k (ranked m)))) (fold_key_nums partials)"

definition merge_concat :: "byte list list \<Rightarrow> byte list" where
  "merge_concat partials = concat partials"

definition run_merge :: "byte list \<Rightarrow> byte list list \<Rightarrow> shard_err + byte list" where
  "run_merge reducer partials =
     (if partials = [] then Inl NoPartials
      else let (name, arg) = (case split_once 58 reducer of Some (n, a) \<Rightarrow> (n, Some a) | None \<Rightarrow> (reducer, None))
           in if name = ascii ''wordcount'' then merge_wordcount partials
              else if name = ascii ''counters'' then merge_counters partials
              else if name = ascii ''concat'' then Inr (merge_concat partials)
              else if name = ascii ''sum'' then merge_sum partials
              else if name = ascii ''topk'' then
                (case Option.bind arg (parse_uint 18446744073709551615) of None \<Rightarrow> Inl TopkCount | Some k \<Rightarrow> merge_topk partials k)
              else Inl UnknownReducer)"

section \<open>Shards are runs of whole lines\<close>

fun ended :: "byte list list \<Rightarrow> bool" where
  "ended [] \<longleftrightarrow> True"
| "ended (l # ls) \<longleftrightarrow> l \<noteq> [] \<and> 10 \<notin> set (butlast l) \<and> (ls \<noteq> [] \<longrightarrow> last l = 10) \<and> ended ls"

lemma ended_pieces: "ended (line_pieces bs)"
proof (induction bs rule: line_pieces.induct)
  case (2 b bs)
  then show ?case by (cases "line_pieces bs") auto
qed simp

lemma line_pieces_single: "10 \<notin> set l \<Longrightarrow> l \<noteq> [] \<Longrightarrow> line_pieces l = [l]"
proof (induction l)
  case (Cons b l)
  then show ?case by (cases "l = []") auto
qed simp

lemma pieces_of_ended: "ended g \<Longrightarrow> line_pieces (concat g) = g"
proof (induction g)
  case (Cons l g)
  then have l: "l \<noteq> []" "10 \<notin> set (butlast l)" "g \<noteq> [] \<Longrightarrow> last l = 10" "line_pieces (concat g) = g" by auto
  show ?case
  proof (cases "last l = 10")
    case True
    then have "l = butlast l @ [10]" using l(1) by (metis append_butlast_last_id)
    then show ?thesis using line_pieces_line [OF l(2), of "concat g"] l(4) by (metis append.assoc append_Cons append_Nil concat.simps(2))
  next
    case False
    then have "g = []" "10 \<notin> set l" using l by (auto, metis append_butlast_last_id in_set_conv_decomp last_snoc rotate1.simps(2) set_ConsD set_rotate1)
    then show ?thesis using line_pieces_single l(1) by simp
  qed
qed simp

lemma ended_sub: "ended (a @ b @ c) \<Longrightarrow> ended b"
proof (induction a)
  case Nil
  then have "ended (b @ c)" by simp
  then show ?case by (induction b) auto
qed simp

definition chop :: "byte list \<Rightarrow> byte list" where
  "chop l = (if last l = 10 then butlast l else l)"

lemma split_nl_pieces: "split_nl bs = map chop (line_pieces bs) @ (if bs = [] \<or> last bs = 10 then [[]] else [])"
proof (induction bs)
  case (Cons b bs)
  show ?case
  proof (cases "b = 10")
    case True
    then show ?thesis using Cons by (simp add: chop_def)
  next
    case False
    show ?thesis
    proof (cases "line_pieces bs")
      case Nil
      then have "bs = []" by (metis concat.simps(1) concat_pieces)
      then show ?thesis using False by (simp add: chop_def)
    next
      case (Cons l ls)
      then have "l \<noteq> []" "bs \<noteq> []" using piece_shape [of l bs] by auto
      then show ?thesis using False Cons.IH Cons \<open>line_pieces bs = l # ls\<close> by (simp add: chop_def)
    qed
  qed
qed simp

lemma lines_of_pieces: "lines_of bs = filter (\<lambda>l. l \<noteq> []) (map chop (line_pieces bs))"
  by (simp add: lines_of_def split_nl_pieces)

lemma shard_loop_groups:
  assumes "sh < n" "length bufs = n" "\<forall>i. sh < i \<and> i < n \<longrightarrow> bufs ! i = []" "length (bufs ! sh) = w"
    and "sh + 1 < n \<longrightarrow> w < per + M" "\<forall>l \<in> set ls. length l \<le> M" "0 < per"
  shows "\<exists>g. concat (map g [sh..<n]) = ls \<and> length (shard_loop n per ls sh w bufs) = n
    \<and> (\<forall>i < n. shard_loop n per ls sh w bufs ! i = bufs ! i @ (if sh \<le> i then concat (g i) else []))
    \<and> (\<forall>i. sh \<le> i \<and> i + 1 < n \<longrightarrow> length (shard_loop n per ls sh w bufs ! i) < per + M)"
  using assms
proof (induction ls arbitrary: sh w bufs)
  case Nil
  have "length (bufs ! i) < per + M" if "sh \<le> i" "i + 1 < n" for i
    using Nil.prems that by (cases "i = sh") auto
  then show ?case using Nil.prems by (intro exI [of _ "\<lambda>_. []"]) (simp add: concat_eq_Nil_conv)
next
  case (Cons l ls)
  define sh' where "sh' = (if sh + 1 < n \<and> per \<le> w then sh + 1 else sh)"
  define w' where "w' = (if sh + 1 < n \<and> per \<le> w then 0 else w)"
  let ?bufs = "bufs[sh' := bufs ! sh' @ l]"
  have step: "shard_loop n per (l # ls) sh w bufs = shard_loop n per ls sh' (w' + length l) ?bufs" by (simp add: sh'_def w'_def)
  have sh': "sh' < n" "sh \<le> sh'" "sh' \<le> sh + 1" using Cons.prems(1) by (auto simp: sh'_def)
  have len: "length (bufs ! sh') = w'" using Cons.prems(1,3,4) by (auto simp: sh'_def w'_def)
  have "sh' + 1 < n \<longrightarrow> w' + length l < per + M" using Cons.prems(6,7) by (auto simp: sh'_def w'_def)
  then obtain g where g: "concat (map g [sh'..<n]) = ls" "length (shard_loop n per ls sh' (w' + length l) ?bufs) = n"
    "\<And>i. i < n \<Longrightarrow> shard_loop n per ls sh' (w' + length l) ?bufs ! i = ?bufs ! i @ (if sh' \<le> i then concat (g i) else [])"
    "\<And>i. sh' \<le> i \<Longrightarrow> i + 1 < n \<Longrightarrow> length (shard_loop n per ls sh' (w' + length l) ?bufs ! i) < per + M"
    using Cons.IH [of sh' ?bufs "w' + length l"] sh' Cons.prems(2,3,6,7) len by (auto simp: nth_list_update)
  let ?g = "\<lambda>i. if i = sh' then l # g i else if i < sh' then [] else g i"
  have "concat (map ?g [Suc sh'..<n]) = concat (map g [Suc sh'..<n])" by (intro arg_cong [of _ _ concat] map_cong) auto
  then have "concat (map ?g [sh'..<n]) = l # ls" using g(1) sh'(1) unfolding upt_conv_Cons [OF sh'(1)] by simp
  then have "concat (map ?g [sh..<n]) = l # ls"
  proof (cases "sh = sh'")
    case False
    then have "sh' = Suc sh" using sh'(2,3) by simp
    then have "[sh..<n] = sh # [sh'..<n]" using sh'(1) by (simp add: upt_conv_Cons)
    then show ?thesis using \<open>concat (map ?g [sh'..<n]) = l # ls\<close> \<open>sh' = Suc sh\<close> by simp
  qed simp
  moreover have "shard_loop n per ls sh' (w' + length l) ?bufs ! i = bufs ! i @ (if sh \<le> i then concat (?g i) else [])" if "i < n" for i
    using g(3) [OF that] sh' Cons.prems(2) that by (auto simp: nth_list_update)
  moreover have "length (shard_loop n per ls sh' (w' + length l) ?bufs ! i) < per + M" if "sh \<le> i" "i + 1 < n" for i
  proof (cases "sh' \<le> i")
    case False
    then have "i = sh" "sh' = sh + 1" using that(1) sh' by auto
    then show ?thesis using g(3) [of i] that Cons.prems(4,5) sh' by simp
  qed (use g(4) that in simp)
  ultimately show ?case unfolding step using g(2) by (intro exI [of _ ?g]) simp
qed


section \<open>Reports and partials\<close>

text \<open>A report file reads back as its lines.\<close>

lemma pieces_lines_file: "\<forall>l \<in> set ls. 10 \<notin> set l \<Longrightarrow> line_pieces (lines_file ls) = map (\<lambda>l. l @ [10]) ls"
  by (induction ls) (simp_all add: lines_file_def line_pieces_line)

lemma partial_lines_file:
  assumes "\<forall>l \<in> set ls. 10 \<notin> set l \<and> (l = [] \<or> last l \<noteq> 13) \<and> utf8_valid (l @ [10])"
  shows "partial_lines (lines_file ls) = Inr ls"
proof -
  have "map (chomp \<circ> (\<lambda>l. l @ [10])) ls = ls" using assms by (intro map_idI) (auto simp: chomp_def Let_def)
  moreover have "list_all utf8_valid (map (\<lambda>l. l @ [10]) ls)" using assms by (simp add: list_all_iff)
  ultimately show ?thesis using assms by (simp add: partial_lines_def pieces_lines_file)
qed

lemma plain_line:
  assumes "\<forall>b \<in> set l. b < 0x80 \<and> b \<noteq> 10 \<and> b \<noteq> 13"
  shows "10 \<notin> set l \<and> (l = [] \<or> last l \<noteq> 13) \<and> utf8_valid (l @ [10])"
  using assms valid_ascii [of l "[10]"] valid_ascii [of "[10]" "[]"] by (auto simp: utf8_valid.simps [of "[]"])

lemma header_bytes:
  assumes "cs \<in> {''=== word_count ==='', ''map_records_received='', ''unique_words='', ''total_occurrences=''}" "b \<in> set (ascii cs)"
  shows "b < 0x80 \<and> b \<noteq> 10 \<and> b \<noteq> 13 \<and> b \<noteq> 58"
  using assms by (auto simp: ascii_def)

lemma digit_bytes: "b \<in> set (ascii (show_nat n)) \<Longrightarrow> b < 0x80 \<and> b \<noteq> 10 \<and> b \<noteq> 13 \<and> b \<noteq> 58 \<and> b \<noteq> 61"
  using show_digit_bytes [of b n] by (auto simp: word_less_nat_alt)

lemma report_word_line:
  assumes "word_ok uni w"
  shows "10 \<notin> set (report_word (w, n)) \<and> (report_word (w, n) = [] \<or> last (report_word (w, n)) \<noteq> 13) \<and> utf8_valid (report_word (w, n) @ [10])"
proof -
  have d: "\<forall>b \<in> set (ascii '': '' @ ascii (show_nat n)). b < 0x80 \<and> b \<noteq> 10 \<and> b \<noteq> 13" using digit_bytes [of _ n] by (auto simp: ascii_def)
  have "10 \<notin> set w" using word_bytes [OF assms, of 10] by (auto simp: word_le_nat_alt)
  moreover have "last (report_word (w, n)) = last (ascii (show_nat n))" "ascii (show_nat n) \<noteq> []" by (simp_all add: report_word_def ascii_def)
  moreover have "utf8_valid (report_word (w, n) @ [10])"
    using plain_line [OF d] word_text(1) [OF assms, of "(ascii '': '' @ ascii (show_nat n)) @ [10]"] by (simp add: report_word_def)
  ultimately show ?thesis using d digit_bytes by (auto simp: report_word_def dest: last_in_set)
qed

lemma wc_report_lines:
  assumes "entries_ok uni m"
  shows "partial_lines (lines_file (wc_report r m)) = Inr (wc_report r m)"
proof (rule partial_lines_file, rule ballI)
  fix l assume "l \<in> set (wc_report r m)"
  then consider cs n where "l = ascii cs @ ascii (show_nat n)" "cs \<in> {''map_records_received='', ''unique_words='', ''total_occurrences=''}"
    | "l = ascii ''=== word_count ==='' " | w n where "(w, n) \<in> set m" "l = report_word (w, n)"
    by (auto simp: wc_report_def)
  then show "10 \<notin> set l \<and> (l = [] \<or> last l \<noteq> 13) \<and> utf8_valid (l @ [10])"
  proof cases
    case 1
    then show ?thesis using header_bytes [of cs] digit_bytes [of _ n] by (intro plain_line) auto
  next
    case 2
    then show ?thesis using header_bytes [of "''=== word_count ===''"] by (intro plain_line) auto
  next
    case 3
    then have "word_ok uni w" using assms by (auto simp: entries_ok_def)
    then show ?thesis using report_word_line 3(2) by simp
  qed
qed


lemma trim_id:
  assumes "chars_of bs \<noteq> []" "\<not> is_whitespace (hd (chars_of bs))" "\<not> is_whitespace (last (chars_of bs))"
  shows "trim bs = bs"
proof -
  have "dropWhile is_whitespace (chars_of bs) = chars_of bs" using assms(1,2) by (cases "chars_of bs") auto
  moreover have "dropWhile is_whitespace (rev (chars_of bs)) = rev (chars_of bs)" using assms(1,3) by (cases "chars_of bs" rule: rev_cases) auto
  ultimately show ?thesis by (simp add: trim_def trim_chars_def)
qed

lemma contains_colon: "contains_sub (58 # p) bs \<Longrightarrow> 58 \<in> set bs"
  by (induction bs) (auto simp: starts_with_def)

lemma ascii_strings: "ascii '': '' = [58, 32]" "ascii ''=== '' = [61, 61, 61, 32]"
  by (simp_all add: ascii_def)

lemma wc_line_received:
  assumes "r < 18446744073709551616"
  shows "wc_line (ascii ''map_records_received='' @ ascii (show_nat r)) (a, m) = (u64_wrap (a + r), m)"
proof -
  let ?k = "ascii ''map_records_received''" and ?v = "ascii (show_nat r)"
  have l: "ascii ''map_records_received='' @ ?v = ?k @ 61 # ?v" by (simp add: ascii_def)
  have p: "\<forall>b \<in> set ?k. plain b" "\<forall>b \<in> set ?v. plain b" using plain_show by (auto simp: ascii_def plain_def)
  have ne: "?k \<noteq> []" "?v \<noteq> []" by (simp_all add: ascii_def)
  have "plain (61 :: byte)" by (simp add: plain_def)
  then have "trim (?k @ 61 # ?v) = ?k @ 61 # ?v" using p ne plain_ascii by (intro trim_plain) auto
  moreover have "trim ?k = ?k" "trim ?v = ?v" using p ne plain_ascii by (auto intro!: trim_plain)
  moreover have "(61 :: byte) \<notin> set ?k" by (simp add: ascii_def)
  moreover have "\<not> contains_sub (ascii '': '') (?k @ 61 # ?v)"
    using contains_colon [of "[32]" "?k @ 61 # ?v"] digit_bytes [of 58 r] by (auto simp: ascii_strings) (auto simp: ascii_def)
  moreover have "\<not> starts_with (ascii ''=== '') (?k @ 61 # ?v)" by (simp add: starts_with_def ascii_def)
  ultimately show ?thesis using assms unfolding l by (simp add: wc_line_def Let_def split_once_at u64_or0_def parse_show)
qed

lemma wc_line_header: "wc_line (ascii ''=== word_count ==='') acc = acc"
proof -
  have "trim (ascii ''=== word_count ==='') = ascii ''=== word_count ===''" by (rule trim_plain) (auto simp: ascii_def plain_def)
  then show ?thesis by (simp add: wc_line_def Let_def starts_with_def ascii_def split: prod.split)
qed

lemma wc_line_other:
  assumes "k \<in> {''unique_words'', ''total_occurrences''}"
  shows "wc_line (ascii k @ 61 # ascii (show_nat r)) acc = acc"
proof -
  let ?v = "ascii (show_nat r)"
  have p: "\<forall>b \<in> set (ascii k). plain b" "\<forall>b \<in> set ?v. plain b" "plain (61 :: byte)" using plain_show assms by (auto simp: ascii_def plain_def)
  have ne: "ascii k \<noteq> []" "?v \<noteq> []" using assms by (auto simp: ascii_def)
  have "trim (ascii k @ 61 # ?v) = ascii k @ 61 # ?v" "trim (ascii k) = ascii k" using p ne plain_ascii by (auto intro!: trim_plain)
  moreover have "(61 :: byte) \<notin> set (ascii k)" "ascii k \<noteq> ascii ''map_records_received''" "(58 :: byte) \<notin> set (ascii k)" using assms by (auto simp: ascii_def)
  moreover have "\<not> contains_sub (ascii '': '') (ascii k @ 61 # ?v)"
    using contains_colon [of "[32]" "ascii k @ 61 # ?v"] digit_bytes [of 58 r] calculation(5) by (auto simp: ascii_strings)
  moreover have "\<not> starts_with (ascii ''=== '') (ascii k @ 61 # ?v)" using assms by (auto simp: starts_with_def ascii_def)
  ultimately show ?thesis by (simp add: wc_line_def Let_def split_once_at split: prod.split)
qed

lemma letter_no_space:
  assumes "is_alphabetic uni c" "\<forall>c. uni c \<longrightarrow> \<not> is_whitespace c"
  shows "\<not> is_whitespace c"
proof (cases "\<exists>b. c = [b]")
  case True
  then obtain b where b: "c = [b]" by blast
  then have "65 \<le> unat b" using assms(1) by (auto simp: is_alphabetic_def word_le_nat_alt)
  then have "\<not> b \<le> 13" "b \<noteq> 32" by (auto simp: word_le_nat_alt)
  then show ?thesis by (simp add: b is_whitespace_def)
next
  case False
  then have "uni c" using assms(1) by (auto simp: is_alphabetic_def split: list.splits)
  then show ?thesis using assms(2) by blast
qed

lemma wc_line_word:
  assumes "word_ok uni w" "n < 18446744073709551616" "\<forall>c. uni c \<longrightarrow> \<not> is_whitespace c"
  shows "wc_line (report_word (w, n)) (a, m) = (a, upsert w n m)"
proof -
  let ?v = "ascii (show_nat n)"
  have line: "report_word (w, n) = w @ 58 # 32 # ?v" by (simp add: report_word_def ascii_strings)
  have low: "\<forall>b \<in> set (58 # 32 # ?v). b < 0x80" using digit_bytes [of _ n] by auto
  have alpha: "\<not> is_whitespace c" if "is_alphabetic uni c" for c using letter_no_space [OF that assms(3)] .
  obtain cs where cs: "cs \<noteq> []" "chars_of (w @ 58 # 32 # ?v) = cs @ chars_of (58 # 32 # ?v)" "\<forall>c \<in> set cs. is_alphabetic uni c"
    using word_text(2) [OF assms(1)] by blast
  obtain ds where ds: "ds \<noteq> []" "chars_of (w @ []) = ds @ chars_of []" "\<forall>c \<in> set ds. is_alphabetic uni c"
    using word_text(2) [OF assms(1)] by blast
  have tw: "trim w = w" using ds alpha by (intro trim_id) auto
  have ve: "?v \<noteq> []" by (simp add: ascii_def)
  then have lastv: "plain (last ?v)" "?v \<noteq> []" using plain_show [OF last_in_set [OF ve]] by simp_all
  have "last (chars_of (w @ 58 # 32 # ?v)) = [last ?v]" using cs(2) chars_plain [OF low] lastv(2) by (simp add: last_map)
  then have tl: "trim (w @ 58 # 32 # ?v) = w @ 58 # 32 # ?v"
    using cs alpha plain_ws [OF lastv(1)] by (intro trim_id) auto
  have tv: "trim (32 # ?v) = ?v"
  proof -
    have "trim_chars ([32] # map (\<lambda>b. [b]) ?v) = trim_chars (map (\<lambda>b. [b]) ?v)" by (simp add: trim_chars_def is_whitespace_def)
    moreover have "trim ?v = ?v" using lastv plain_show plain_ascii plain_show [OF hd_in_set [OF lastv(2)]] by (intro trim_plain) auto
    ultimately show ?thesis using low by (simp add: trim_def chars_plain)
  qed
  have wb: "(58 :: byte) \<notin> set w" "(61 :: byte) \<notin> set w" using word_bytes [OF assms(1), of 58] word_bytes [OF assms(1), of 61] by (auto simp: word_le_nat_alt)
  have "(61 :: byte) \<notin> set (w @ 58 # 32 # ?v)" using wb(2) digit_bytes [of 61 n] by auto
  then have s: "split_once 61 (w @ 58 # 32 # ?v) = None" by (simp add: split_once_def)
  have "(58 :: byte) \<notin> set (32 # ?v)" using digit_bytes [of 58 n] by auto
  from rsplit_once_at [OF this, of w] have "rsplit_once 58 (w @ 58 # 32 # ?v) = Some (w, 32 # ?v)" .
  moreover have "\<not> starts_with (ascii ''=== '') (w @ 58 # 32 # ?v)"
    using wb(2) assms(1) by (cases w) (auto simp: starts_with_def ascii_strings word_ok_def)
  ultimately show ?thesis using assms(2) s tl tv tw unfolding line by (simp add: wc_line_def Let_def parse_show)
qed


section \<open>Merging reports\<close>

lemma fold_report:
  assumes "entries_ok uni m" "r < 18446744073709551616" "\<forall>c. uni c \<longrightarrow> \<not> is_whitespace c"
  shows "fold wc_line (wc_report r m) (a, acc) = (u64_wrap (a + r), fold (\<lambda>(w, n). upsert w n) m acc)"
proof -
  have words: "fold wc_line (map report_word m) (b, acc) = (b, fold (\<lambda>(w, n). upsert w n) m acc)" for b
    using assms(1)
  proof (induction m arbitrary: acc)
    case (Cons e m)
    then show ?case using wc_line_word [OF _ _ assms(3)] by (cases e) (simp add: entries_ok_def)
  qed simp
  have "ascii ''unique_words='' @ v = ascii ''unique_words'' @ 61 # v" "ascii ''total_occurrences='' @ v = ascii ''total_occurrences'' @ 61 # v" for v
    by (simp_all add: ascii_def)
  then show ?thesis using words wc_line_received [OF assms(2)] wc_line_other by (simp add: wc_report_def wc_line_header)
qed

definition merged :: "(byte list \<times> nat) list list \<Rightarrow> (byte list \<times> nat) list" where
  "merged ms = tally (concat ms)"

lemma merge_reports:
  assumes "\<forall>(r, m) \<in> set parts. entries_ok uni m \<and> r < 18446744073709551616" "\<forall>c. uni c \<longrightarrow> \<not> is_whitespace c"
  shows "merge_wordcount (map (\<lambda>(r, m). lines_file (wc_report r m)) parts)
    = Inr (lines_file (wc_report (u64_wrap (\<Sum>(r, m)\<leftarrow>parts. r)) (tally (concat (map snd parts)))))"
proof -
  have lines: "all_lines (map (\<lambda>(r, m). lines_file (wc_report r m)) parts) = Inr (concat (map (\<lambda>(r, m). wc_report r m) parts))"
    using assms(1) by (induction parts) (auto simp: wc_report_lines)
  have "fold wc_line (concat (map (\<lambda>(r, m). wc_report r m) parts)) (u64_wrap a, acc)
      = (u64_wrap (a + (\<Sum>(r, m)\<leftarrow>parts. r)), fold (\<lambda>(w, n). upsert w n) (concat (map snd parts)) acc)" for a acc
    using assms(1)
  proof (induction parts arbitrary: a acc)
    case (Cons p parts)
    then show ?case using fold_report [OF _ _ assms(2)] by (cases p) (auto simp: add.assoc)
  qed simp
  from this [of 0 "[]"] show ?thesis by (simp add: merge_wordcount_def lines tally_def)
qed

lemma count_words_concat: "tally (concat (map (count_words uni) lss)) = count_words uni (concat lss)"
proof -
  let ?e = "\<lambda>ls. map (\<lambda>w. (w, 1 :: nat)) (concat (map (line_words uni) ls))"
  have "tally (concat (map (\<lambda>es. id (tally es)) (map ?e lss))) = tally (concat (map ?e lss))" by (rule tally_parts) simp
  moreover have "concat (map ?e lss) = ?e (concat lss)" by (induction lss) simp_all
  ultimately show ?thesis by (simp add: count_words_tally [abs_def] comp_def)
qed

text \<open>
  For any positive number of shards the split returns that many shards; together, in order, they are the
  input byte for byte, no line is torn, and every shard but the last exceeds its quota by less than the longest line.
\<close>

lemma split_lines:
  assumes "0 < n"
  shows "\<exists>shards. run_split dat n = Inr shards \<and> length shards = n \<and> concat shards = dat
    \<and> concat (map line_pieces shards) = line_pieces dat \<and> concat (map lines_of shards) = lines_of dat
    \<and> (\<forall>i M. i + 1 < n \<longrightarrow> (\<forall>l \<in> set (line_pieces dat). length l \<le> M) \<longrightarrow> length (shards ! i) < per_shard (length dat) n + M)"
proof -
  let ?per = "per_shard (length dat) n" and ?L = "line_pieces dat"
  define shards where "shards = shard_loop n ?per ?L 0 0 (replicate n [])"
  have per: "0 < ?per" by (simp add: per_shard_def)
  have spec: "\<exists>g. concat (map g [0..<n]) = ?L \<and> length shards = n \<and> (\<forall>i < n. shards ! i = concat (g i))
    \<and> (\<forall>i. i + 1 < n \<longrightarrow> length (shards ! i) < ?per + M)" if "\<forall>l \<in> set ?L. length l \<le> M" for M
  proof -
    have "length (replicate n []) = n" "\<forall>i. 0 < i \<and> i < n \<longrightarrow> replicate n [] ! i = []" "length (replicate n [] ! 0) = 0" "0 + 1 < n \<longrightarrow> 0 < ?per + M"
      using assms per by simp_all
    from shard_loop_groups [OF assms this that per, folded shards_def] show ?thesis by simp
  qed
  have "l \<in> set L \<Longrightarrow> length l \<le> length (concat L)" for l and L :: "byte list list" by (induction L) auto
  from this [of _ ?L] have "\<forall>l \<in> set ?L. length l \<le> length dat" by simp
  from spec [OF this] obtain g where g: "concat (map g [0..<n]) = ?L" "length shards = n" "\<And>i. i < n \<Longrightarrow> shards ! i = concat (g i)" by blast
  have sh: "shards = map (\<lambda>i. concat (g i)) [0..<n]" by (rule nth_equalityI) (use g in auto)
  have cc: "concat (map (\<lambda>i. concat (g i)) js) = concat (concat (map g js))" for js by (induction js) simp_all
  have cat: "concat shards = dat" unfolding sh cc g(1) by simp
  have ends: "ended (g i)" if "i < n" for i
  proof -
    have "[0..<n] = [0..<i] @ i # [Suc i..<n]" using that by (metis less_imp_add_positive upt_add_eq_append upt_conv_Cons zero_le)
    then have "?L = concat (map g [0..<i]) @ g i @ concat (map g [Suc i..<n])" using g(1) by simp
    then show ?thesis using ended_sub ended_pieces [of dat] by metis
  qed
  have "map line_pieces shards = map g [0..<n]" unfolding sh using pieces_of_ended [OF ends] by simp
  then have pieces: "concat (map line_pieces shards) = ?L" using g(1) by simp
  have "concat (map lines_of ss) = filter (\<lambda>l. l \<noteq> []) (map chop (concat (map line_pieces ss)))" for ss
    by (induction ss) (simp_all add: lines_of_pieces)
  from this [of shards] have "concat (map lines_of shards) = lines_of dat" by (simp only: pieces lines_of_pieces [of dat])
  then show ?thesis using assms spec g(2) cat pieces by (auto simp: run_split_def shards_def)
qed


section \<open>Properties\<close>

text \<open>
  C19. Divide and merge. For a positive number of shards the input is split into shards; each shard's lines are divided among any number of mappers, whose
  records, in any order of their hash maps, are reduced to a report. Merging the report files gives exactly the
  report on the undivided input, with the numbers of received records added up.
\<close>

theorem divide_and_merge:
  assumes "0 < n" "\<forall>c. uni c \<longrightarrow> \<not> is_whitespace c" "\<forall>m. mset (ord m) = mset m"
    and "run_split dat n = Inr shards" "map concat parts = map lines_of shards" "\<forall>r \<in> set received. r < 18446744073709551616" "length received = n"
  shows "merge_wordcount (map (\<lambda>(r, lss). lines_file (wc_report r (wc_totals (concat (map (\<lambda>ls. map wc_record (ord (count_words uni ls))) lss)))))
        (zip received parts))
    = Inr (lines_file (wc_report (u64_wrap (sum_list received)) (count_words uni (lines_of dat))))"
proof -
  have sh: "length shards = n" "concat (map lines_of shards) = lines_of dat" using split_lines [OF assms(1), of dat] assms(4) by auto
  then have len: "length parts = n" using assms(5) by (metis length_map)
  let ?q = "\<lambda>(r, lss). (r, count_words uni (concat lss))"
  have tot: "wc_totals (concat (map (\<lambda>ls. map wc_record (ord (count_words uni ls))) lss)) = count_words uni (concat lss)" for lss
    by (rule map_reduce_counts) (simp add: assms(3))
  have "merge_wordcount (map (\<lambda>(r, m). lines_file (wc_report r m)) (map ?q (zip received parts)))
      = Inr (lines_file (wc_report (u64_wrap (\<Sum>(r, m)\<leftarrow>map ?q (zip received parts). r)) (tally (concat (map snd (map ?q (zip received parts)))))))"
    using assms(6) by (intro merge_reports [OF _ assms(2)]) (auto simp: count_words_ok dest: set_zip_leftD)
  moreover have "map (\<lambda>(r, m). r) (map ?q (zip received parts)) = received"
    using len assms(7) by (simp add: comp_def case_prod_beta)
  moreover have "map snd (map ?q (zip received parts)) = map (count_words uni) (map lines_of shards)"
  proof -
    have "map snd (map ?q (zip received parts)) = map (\<lambda>lss. count_words uni (concat lss)) parts"
      using len assms(7) by (intro nth_equalityI) (simp_all add: case_prod_beta)
    also have "\<dots> = map (count_words uni) (map concat parts)" by simp
    finally show ?thesis unfolding assms(5) .
  qed
  moreover have "tally (concat (map (count_words uni) (map lines_of shards))) = count_words uni (lines_of dat)"
    unfolding sh(2) [symmetric] by (rule count_words_concat)
  ultimately have m: "merge_wordcount (map (\<lambda>(r, m). lines_file (wc_report r m)) (map ?q (zip received parts)))
      = Inr (lines_file (wc_report (u64_wrap (sum_list received)) (count_words uni (lines_of dat))))" by (simp only:)
  have "map (\<lambda>(r, m). lines_file (wc_report r m)) (map ?q (zip received parts))
      = map (\<lambda>(r, lss). lines_file (wc_report r (wc_totals (concat (map (\<lambda>ls. map wc_record (ord (count_words uni ls))) lss))))) (zip received parts)"
    unfolding tot map_map by (rule map_cong [OF refl]) (simp add: case_prod_beta)
  then show ?thesis using m by (simp only:)
qed

theorem divide_and_merge_witness:
  "merge_wordcount (map (\<lambda>(r, lss). lines_file (wc_report r (wc_totals (concat (map (\<lambda>ls. map wc_record (rev (count_words (\<lambda>_. False) ls))) lss)))))
      (zip [1, 2] [[[[97, 32, 98]]], [[[97]], []]]))
    = Inr (lines_file (wc_report 3 (count_words (\<lambda>_. False) [[97, 32, 98], [97]])))"
proof -
  have "replicate 2 ([] :: byte list) = [[], []]" by (simp add: numeral_2_eq_2)
  then have "run_split [97, 32, 98, 10, 97, 10] 2 = Inr [[97, 32, 98, 10], [97, 10]]" by (simp add: run_split_def per_shard_def)
  moreover have "map concat [[[[97, 32, 98]]], [[[97]], []]] = map lines_of [[97, 32, 98, 10], [97, 10]]" by (simp add: lines_of_def)
  moreover have "lines_of [97, 32, 98, 10, 97, 10] = [[97, 32, 98], [97]]" by (simp add: lines_of_def)
  ultimately show ?thesis
    using divide_and_merge [of 2 "\<lambda>_. False" rev "[97, 32, 98, 10, 97, 10]" "[[97, 32, 98, 10], [97, 10]]" "[[[[97, 32, 98]]], [[[97]], []]]" "[1, 2]"]
    by (simp add: u64_wrap_def)
qed

end
