(* ===== verification/Spec2Isabelle.thy ===== *)
theory Spec2Isabelle
  imports Routing Slicing Dag_Plan Splitter Rdma_Pool Stream_Split Organizer Barrier Remote_Transfer Pipe_Run Shards
begin

text \<open>
  A verification development for WebAsShared, a serverless runtime that runs a DAG of WebAssembly and Python
  functions over one shared-memory region per machine and moves slots of that region between machines by RDMA.

  \<^bold>\<open>The program.\<close> A user submits a symbolic DAG. The \<^emph>\<open>partitioner\<close> places its nodes on machines, expands
  replicated and fanned-out nodes, assigns slots and splits the DAG into one list per machine with matching sends
  and receives. On each machine the \<^emph>\<open>DAG runner\<close> of the host orders the list into waves and executes it. Workers
  (the \<^emph>\<open>guest\<close>) exchange records through the \<^emph>\<open>slots\<close> of the region: append-only chains of 4 KiB pages that the
  guest and the host take from a common allocator and that the host splices, loads, flushes, frees and transfers. Named atomics and
  shared states live in a registry of the same region; an \<^emph>\<open>organizer\<close> commits one of several posted states.

  \<^bold>\<open>Theories and sources\<close> (paths below \<^verbatim>\<open>src/\<close>; \<^verbatim>\<open>E\<close> is \<^verbatim>\<open>Executor\<close>, \<^verbatim>\<open>P\<close> is \<^verbatim>\<open>Partitioner/partitioner/src\<close>).

  \<^descr> \<open>Prelude\<close>: machine arithmetic, little-endian framing, byte buffers, linked paths; no program code.
  \<^descr> \<open>Shm_Layout\<close>: \<^verbatim>\<open>E/common/src/lib.rs\<close>, the layout constants and the region as the record \<open>shm\<close> (superblock fields and pages).
  \<^descr> \<open>Page_Alloc\<close>: \<^verbatim>\<open>E/guest/src/api/page_allocator.rs\<close>. Invariant \<open>guest_inv\<close>; freshness and termination of an allocation;
    the interface \<open>page_allocator\<close> that the users of an allocator rely on.
  \<^descr> \<open>Page_Chain\<close>, \<open>Record_Store\<close>: \<^verbatim>\<open>stream_area.rs\<close>, \<^verbatim>\<open>io_area.rs\<close>, \<^verbatim>\<open>fan_out.rs\<close>. The relation \<open>stores s R\<close> says that the region \<open>s\<close>
    holds, slot by slot, the record lists \<open>R\<close>; every later component states its effect on \<open>R\<close>.
  \<^descr> \<open>Stream_Split\<close>, \<open>Stream_Range\<close>: the in-place contiguous split of an input, byte ranges and seeking.
  \<^descr> \<open>Routing\<close>: \<^verbatim>\<open>E/host/src/routing\<close> and \<^verbatim>\<open>policy/shuffle_policy.rs\<close>, zero-copy splicing for streams, aggregation, shuffles and broadcasts.
  \<^descr> \<open>Slicing\<close>: \<^verbatim>\<open>policy/slice_policy.rs\<close>, \<^verbatim>\<open>mem_operation/slicer.rs\<close>, \<^verbatim>\<open>routing/dispatch.rs\<close> and the slices of the slot loader.
  \<^descr> \<open>Extended_Pool\<close>, \<open>Rdma_Pool\<close>, \<open>Reclaimer\<close>: \<^verbatim>\<open>E/host/src/runtime/extended_pool\<close> and \<^verbatim>\<open>mem_operation/reclaimer.rs\<close>, the host's
    allocator in direct and paged mode, the resolution buffer and the freeing of slots. The record \<open>host\<close> extends \<open>shm\<close>.
  \<^descr> \<open>Registry\<close>, \<open>Shared_State\<close>, \<open>Organizer\<close>: \<open>host_resolve_atomic\<close> of \<^verbatim>\<open>worker.rs\<close>, named atomics and cursors, \<^verbatim>\<open>shared_area.rs\<close>,
    \<^verbatim>\<open>organizer.rs\<close> and \<^verbatim>\<open>policy/consumption.rs\<close>. The record \<open>arena\<close> extends \<open>host\<close> by the registry and the atomics.
  \<^descr> \<open>Json\<close>, \<open>Topo\<close>, \<open>Placer\<close>, \<open>Slot_Assigner\<close>, \<open>Expansion\<close>, \<open>Splitter\<close>: the partitioner (\<^verbatim>\<open>P/symbolic_dag.rs\<close>, \<^verbatim>\<open>slot.rs\<close>, \<^verbatim>\<open>policies.rs\<close>,
    \<^verbatim>\<open>placer.rs\<close>, \<^verbatim>\<open>slot_assigner.rs\<close>, \<^verbatim>\<open>splitter.rs\<close>).
  \<^descr> \<open>Dag_Plan\<close>, \<open>Barrier\<close>: \<^verbatim>\<open>dag_runner/types.rs\<close>, \<^verbatim>\<open>plan.rs\<close>, and the futex barrier of a wave as a step relation.
  \<^descr> \<open>Exchange\<close>, \<open>Remote\<close>, \<open>Remote_Transfer\<close>: \<^verbatim>\<open>E/connect/src/rdma/exchange.rs\<close>, \<^verbatim>\<open>mesh/mod.rs\<close>, \<^verbatim>\<open>mr2.rs\<close>, \<^verbatim>\<open>src_mr.rs\<close> and
    \<^verbatim>\<open>E/host/src/runtime/remote\<close>, both transfer protocols between two hosts.
  \<^descr> \<open>Host_Slots\<close>, \<open>Persistence\<close>: \<^verbatim>\<open>input_output/slot_loader.rs\<close>, \<^verbatim>\<open>slot_flusher.rs\<close>, \<^verbatim>\<open>persistence.rs\<close>, the host's own writers and readers.
  \<^descr> \<open>Stages\<close>, \<open>Pipeline\<close>, \<open>Pipe_Run\<close>: \<^verbatim>\<open>E/guest/src/workloads/stream_pipeline.rs\<close>, \<^verbatim>\<open>dag_runner/pipeline.rs\<close>, \<^verbatim>\<open>stage_fanout.rs\<close>.
  \<^descr> \<open>Texts\<close>, \<open>Terasort\<close>, \<open>Word_Count\<close>, \<open>Shards\<close>: the text operations of the standard library, \<^verbatim>\<open>E/guest/src/workloads/terasort.rs\<close>
    and \<^verbatim>\<open>word_count.rs\<close>, two applications on the slots of the region, and \<^verbatim>\<open>E/host/src/shard.rs\<close>, the split of a job and the merge of its results.

  This theory holds the property that joins the partitioner with the slot loader.

  \<^bold>\<open>What is shown.\<close> The allocators hand out only available pages, keep their invariants and terminate; the slot
  operations refine the abstract store of record lists, and so do cursors (queues), splits, range accesses, splices, frees,
  loads and flushes, transfers and the pipelines. Planning and partitioning terminate, respect every dependency and
  keep the DAGs acyclic. The sorting workload sorts, and splitting and merging a word count changes nothing in its result. Several theorems state what the code does where it departs from its
  documentation: the ordering pass that closes a cycle across machines, the broadcast that closes a chain into a cycle, the organizer that frees twice,
  the receiver-initiated transfer that loses the first bytes of a page, the page that is freed in paged mode.

  \<^bold>\<open>Conventions.\<close> Machine integers are natural numbers with the wrap-around written out (\<open>wrap32\<close> for the 32-bit
  \<open>usize\<close> and offsets of the guest). Panics, errors and early returns are values of sum types. A loop that may run forever is a
  \<open>partial_function\<close> into options, \<open>None\<close> being the run that does not return, or yields the error \<open>Spin\<close>; no fuel is used, and the theorems
  that such code returns are stated as such. Locks and compare-and-swap loops are one step where the source holds the lock or
  retries; concurrency that matters (barriers, waves, pools, transfers, workers of one tick) is explicit as sequences or orders of steps.
  What is not in the repository is a parameter: floating-point arithmetic (\<open>f64_ops\<close>, with \<open>f64_laws\<close> where a
  theorem relies on IEEE 754), letters above ASCII, the operating system's answers
  (\<open>os\<close>), the registration of memory with the network card (\<open>nic\<close>), iteration orders of hash maps, and the functions that workers run.

  \<^bold>\<open>Not modelled.\<close> The node agent (\<^verbatim>\<open>NodeAgent\<close>): process control, sockets, metrics and configuration, whose effects are outside the
  region; the device layer below the mesh (\<^verbatim>\<open>connect/src/ffi.rs\<close>, \<^verbatim>\<open>rdma/context.rs\<close>, \<^verbatim>\<open>queue_pair.rs\<close> but for the write, \<^verbatim>\<open>mesh/connect.rs\<close>, \<^verbatim>\<open>atomic.rs\<close>,
  \<^verbatim>\<open>staging.rs\<close>), which only calls the verbs library; the start of worker processes and the dispatch on node kinds in the DAG runner
  (\<^verbatim>\<open>mod.rs\<close>, \<^verbatim>\<open>dispatch.rs\<close>, \<^verbatim>\<open>grouping.rs\<close>, \<^verbatim>\<open>workers.rs\<close>); the loggers; the remaining application workloads, which use the same interface of
  the guest; examples, tests and benchmarks.
\<close>

text \<open>\<open>frac_to_byte\<close> of \<open>load_slice\<close>, on the operations the partitioner computes the fractions with.\<close>

definition clamp01 :: "'f f64_ops \<Rightarrow> 'f \<Rightarrow> 'f" where
  "clamp01 ops x = (if f_lt ops x (f_of_nat ops 0) then f_of_nat ops 0
                    else if f_lt ops (f_of_nat ops 1) x then f_of_nat ops 1 else x)"

definition frac_to_byte :: "'f f64_ops \<Rightarrow> nat \<Rightarrow> 'f \<Rightarrow> nat" where
  "frac_to_byte ops file_len f = f_to_usize ops (f_floor ops (f_mul ops (clamp01 ops f) (f_of_nat ops file_len)))"

text \<open>A quotient of counts is its own clamped value; its byte position rises with the numerator from 0 to the end.\<close>

lemma frac_to_byte_quotient:
  assumes "f64_laws ops" "0 < d" "d \<le> f64_exact" "len \<le> f64_exact"
  shows "frac_to_byte ops len (f_div ops (f_of_nat ops 0) (f_of_nat ops d)) = 0"
    "frac_to_byte ops len (f_div ops (f_of_nat ops d) (f_of_nat ops d)) = len"
    "a \<le> b \<Longrightarrow> b \<le> d \<Longrightarrow>
      frac_to_byte ops len (f_div ops (f_of_nat ops a) (f_of_nat ops d)) \<le> frac_to_byte ops len (f_div ops (f_of_nat ops b) (f_of_nat ops d))"
proof -
  note L = f64_lawsD [OF assms(1)]
  let ?q = "\<lambda>a. f_div ops (f_of_nat ops a) (f_of_nat ops d)"
  have b: "f_le ops (f_of_nat ops 0) (?q a)" "f_le ops (?q a) (f_of_nat ops 1)" if "a \<le> d" for a
    using L(4) [of 0 a d] L(4) [of a d d] L(5,6) [of d] that assms(2,3) by simp_all
  then have c: "clamp01 ops (?q a) = ?q a" if "a \<le> d" for a
    using L(3) [OF b(1) [OF that]] L(3) [OF b(2) [OF that]] by (simp add: clamp01_def)
  show "frac_to_byte ops len (?q 0) = 0"
    using c [of 0] L(5) [OF assms(2,3)] L(8) [OF assms(4)] L(12) [of 0] by (simp add: frac_to_byte_def)
  show "frac_to_byte ops len (?q d) = len"
    using c [of d] L(6) [OF assms(2,3)] L(9) [OF assms(4)] L(12) [OF assms(4)] by (simp add: frac_to_byte_def)
  show "frac_to_byte ops len (?q a) \<le> frac_to_byte ops len (?q b')" if "a \<le> b'" "b' \<le> d" for a b'
  proof -
    have "f_le ops (?q a) (?q b')" using L(4) [OF that(1) _ assms(2,3)] that(2) assms(3) by simp
    then have "f_le ops (f_mul ops (?q a) (f_of_nat ops len)) (f_mul ops (?q b') (f_of_nat ops len))"
      using L(7) b that assms(4) by simp
    then show ?thesis using c that by (simp add: frac_to_byte_def L(10,11))
  qed
qed
text \<open>The records an input node with a slice loads from a file.\<close>

definition load_input :: "'f f64_ops \<Rightarrow> byte list \<Rightarrow> 'f symbolic_node \<Rightarrow> byte list list" where
  "load_input ops dat n = (case slice_of n of
     Some (lo, hi) \<Rightarrow> load_slice (frac_to_byte ops (length dat)) dat lo hi | None \<Rightarrow> lines_of dat)"

lemma loads_as_zip:
  assumes "\<And>m. m < k \<Longrightarrow> slice_of (f m) = Some (b m, b (m + 1))"
  shows "concat (map (\<lambda>m. load_input ops dat (f m)) [0..<k])
    = concat (map (\<lambda>(lo, hi). load_slice (frac_to_byte ops (length dat)) dat lo hi) (zip (map b [0..<Suc k]) (map b [1..<Suc k])))"
proof -
  have "map (\<lambda>m. load_input ops dat (f m)) [0..<k]
      = map (\<lambda>(lo, hi). load_slice (frac_to_byte ops (length dat)) dat lo hi) (zip (map b [0..<Suc k]) (map b [1..<Suc k]))"
    by (rule nth_equalityI) (auto simp: load_input_def assms simp del: upt_Suc)
  then show ?thesis by simp
qed

lemma sum_list_take_mono: "i \<le> j \<Longrightarrow> sum_list (take i xs) \<le> sum_list (take j xs)" for xs :: "nat list"
  by (metis le_add1 sum_list_append take_add le_Suc_ex)

lemma slice_bytes_rise:
  assumes "f64_laws ops" "0 < sum_list cs" "sum_list cs \<le> f64_exact" "len \<le> f64_exact"
  shows "sorted (map (\<lambda>m. frac_to_byte ops len (slice_bound ops (map (f_of_nat ops) cs) m)) [0..<Suc (length cs)])"
    "frac_to_byte ops len (slice_bound ops (map (f_of_nat ops) cs) 0) = 0"
    "frac_to_byte ops len (slice_bound ops (map (f_of_nat ops) cs) (length cs)) = len"
proof -
  note q = frac_to_byte_quotient [OF assms]
  note b = slice_bound_counts [OF assms(1,3)]
  have "frac_to_byte ops len (slice_bound ops (map (f_of_nat ops) cs) i) \<le> frac_to_byte ops len (slice_bound ops (map (f_of_nat ops) cs) j)"
    if "i \<le> j" "j \<le> length cs" for i j
    unfolding b using sum_list_take_mono [OF that(1), of cs] sum_list_take_mono [OF that(2), of cs] by (intro q(3)) simp_all
  then show "sorted (map (\<lambda>m. frac_to_byte ops len (slice_bound ops (map (f_of_nat ops) cs) m)) [0..<Suc (length cs)])"
    by (auto simp: sorted_iff_nth_mono simp del: upt_Suc)
  show "frac_to_byte ops len (slice_bound ops (map (f_of_nat ops) cs) 0) = 0"
    "frac_to_byte ops len (slice_bound ops (map (f_of_nat ops) cs) (length cs)) = len" unfolding b using q(1,2) by simp_all
qed

text \<open>
  C14. Input slices. The slices stamped on the copies of a shared input, one copy per host, make the
  hosts together load every line of the file exactly once and in order, for counts and files up to \<open>2^53\<close> and
  every arithmetic that, as IEEE 754 does, adds such integers exactly and divides, scales and floors monotonically.
\<close>

theorem slices_cover_input:
  fixes ops :: "'f f64_ops"
  assumes laws: "f64_laws ops" and "1 < total_nodes" "shared_paths \<noteq> {}" "dat \<noteq> []"
    and size: "length dat \<le> f64_exact" "length ns \<le> f64_exact" "total_nodes \<le> f64_exact"
    and copies: "\<And>m. m < total_nodes \<Longrightarrow> pos m < length ns \<and> sliceable shared_paths (ns ! pos m) \<and> sn_node_id (ns ! pos m) = Some m"
  shows "concat (map (\<lambda>m. load_input ops dat (assign_input_slices ops ns total_nodes workers shared_paths ! pos m)) [0..<total_nodes])
    = lines_of dat"
proof -
  obtain cs where cs: "slice_weights ops ns total_nodes workers = map (f_of_nat ops) cs" "length cs = total_nodes"
    "0 < sum_list cs" "sum_list cs \<le> f64_exact" using slice_weights_counts [OF laws size(2,3)] assms(2) by fastforce
  define fb b where "fb = frac_to_byte ops (length dat)" and "b = slice_bound ops (map (f_of_nat ops) cs)"
  have nz: "\<not> f_eq ops (f_sum ops (map (f_of_nat ops) cs)) (f_of_nat ops 0)"
    unfolding f_sum_counts [OF laws cs(4)] f64_lawsD(1) [OF laws cs(4) le0] using cs(3) by linarith
  have "slice_of (assign_input_slices ops ns total_nodes workers shared_paths ! pos m) = Some (b m, b (m + 1))" if "m < total_nodes" for m
    unfolding b_def using copies [OF that] that by (intro assign_input_slices_nth [OF assms(2,3) cs(1) [symmetric] nz]) auto
  then have "concat (map (\<lambda>m. load_input ops dat (assign_input_slices ops ns total_nodes workers shared_paths ! pos m)) [0..<total_nodes])
      = concat (map (\<lambda>(lo, hi). load_slice fb dat lo hi) (zip (map b [0..<Suc total_nodes]) (map b [1..<Suc total_nodes])))"
    unfolding fb_def by (rule loads_as_zip)
  also have "map b [0..<Suc total_nodes] = b 0 # map b [1..<Suc total_nodes]"
    by (simp add: upt_conv_Cons del: upt_Suc)
  also have "concat (map (\<lambda>(lo, hi). load_slice fb dat lo hi) (zip (b 0 # map b [1..<Suc total_nodes]) (map b [1..<Suc total_nodes])))
      = lines_of dat"
  proof (rule slices_exhaust [OF assms(4)])
    note rise = slice_bytes_rise [OF laws cs(3,4) size(1), folded b_def fb_def, unfolded cs(2)]
    have "map fb (b 0 # map b [1..<Suc total_nodes]) = map (\<lambda>m. fb (b m)) [0..<Suc total_nodes]"
      by (simp add: upt_conv_Cons del: upt_Suc)
    then show "sorted (map fb (b 0 # map b [1..<Suc total_nodes]))" using rise(1) by simp
    show "fb (b 0) = 0" by (rule rise(2))
    have "last (b 0 # map b [1..<Suc total_nodes]) = b total_nodes" using assms(2) by simp
    then show "length dat \<le> fb (last (b 0 # map b [1..<Suc total_nodes]))" using rise(3) by simp
  qed
  finally show ?thesis .
qed

definition input_example :: "nat \<Rightarrow> rat symbolic_node" where
  "input_example m = pinned_node (copy_id ''in'' m) [] m (variant ''Input'' [(''path'', JString ''corpus'')])"

theorem slices_cover_input_witness:
  "concat (map (\<lambda>m. load_input rat_ops [97, 10, 98, 98, 10, 99]
      (assign_input_slices rat_ops [input_example 1, input_example 0] 2 {} {''corpus''} ! (1 - m))) [0..<2])
    = [[97], [98, 98], [99]]"
proof -
  have "concat (map (\<lambda>m. load_input rat_ops [97, 10, 98, 98, 10, 99]
      (assign_input_slices rat_ops [input_example 1, input_example 0] 2 {} {''corpus''} ! (1 - m))) [0..<2])
    = lines_of [97, 10, 98, 98, 10, 99]"
  proof (rule slices_cover_input [OF f64_laws_rat])
    show "1 - m < length [input_example 1, input_example 0] \<and> sliceable {''corpus''} ([input_example 1, input_example 0] ! (1 - m))
        \<and> sn_node_id ([input_example 1, input_example 0] ! (1 - m)) = Some m" if "m < 2" for m
      using that by (cases m) (auto simp: input_example_def pinned_node_def sliceable_def variant_def kind_obj_def contains_key_def unwrap_or_def)
  qed (simp_all add: f64_exact_def)
  then show ?thesis by (simp add: lines_of_def)
qed

end
